(* ===== verification/Prelude.thy ===== *)
theory Prelude
  imports Main "HOL-Library.Word"
begin

text \<open>
  Shared vocabulary of the development: the machine types of the 64-bit iOS target, the
  result type of a C function that may also run into undefined behaviour, the combinators
  that compose such results the way C statements compose, and generic lemmas on lists and
  words that the component theories use.
\<close>

unbundle bit_operations_syntax

section \<open>Machine types\<close>

type_synonym byte = "8 word"
type_synonym u16 = "16 word"
type_synonym u32 = "32 word"
type_synonym u64 = "64 word"
type_synonym addr = "64 word"

section \<open>Outcomes\<close>

text \<open>
  A C call either returns, or runs into undefined behaviour (\<open>UB\<close>: a call through a null
  function pointer, an access outside an object, a division by zero, an invalid
  \<open>free\<close>), or does not come back within the fuel given (\<open>NoFuel\<close>).
\<close>

datatype 'a outcome = Ret 'a | UB | NoFuel

fun bindO :: "'a outcome \<Rightarrow> ('a \<Rightarrow> 'b outcome) \<Rightarrow> 'b outcome" where
  "bindO (Ret a) k = k a"
| "bindO UB k = UB"
| "bindO NoFuel k = NoFuel"

fun isRet :: "'a outcome \<Rightarrow> bool" where
  "isRet (Ret a) \<longleftrightarrow> True"
| "isRet UB \<longleftrightarrow> False"
| "isRet NoFuel \<longleftrightarrow> False"

text \<open>
  The statement pattern \<open>if (!f(stream, ...)) return false;\<close>: the rest runs on the new
  stream and the new heap only when the call returned true.
\<close>

definition thenO ::
  "(bool \<times> 's \<times> 'h) outcome \<Rightarrow> ('s \<Rightarrow> 'h \<Rightarrow> (bool \<times> 's \<times> 'h) outcome) \<Rightarrow> (bool \<times> 's \<times> 'h) outcome"
  where
  "thenO r k = bindO r (\<lambda>(ok, s, h). if ok then k s h else Ret (False, s, h))"

section \<open>Collections of facts\<close>

named_theorems outcome_simps \<open>evaluation of outcomes\<close>
named_theorems mem_simps \<open>reads over writes in byte memory\<close>
named_theorems stream_simps \<open>field reads of stream updates\<close>
named_theorems emit_intros \<open>how encoders compose\<close>
named_theorems take_intros \<open>how decoders compose\<close>

section \<open>Outcome lemmas\<close>

lemma bindO_cong [fundef_cong]:
  "r = r' \<Longrightarrow> (\<And>a. r' = Ret a \<Longrightarrow> k a = k' a) \<Longrightarrow> bindO r k = bindO r' k'"
  by (cases r') auto

lemma thenO_cong [fundef_cong]:
  "r = r' \<Longrightarrow> (\<And>s h. r' = Ret (True, s, h) \<Longrightarrow> k s h = k' s h) \<Longrightarrow> thenO r k = thenO r' k'"
  unfolding thenO_def by (rule bindO_cong) auto

lemma bindO_eq_Ret [simp]: "bindO r k = Ret b \<longleftrightarrow> (\<exists>a. r = Ret a \<and> k a = Ret b)"
  by (cases r) auto

lemma bindO_eq_UB: "bindO r k = UB \<longleftrightarrow> r = UB \<or> (\<exists>a. r = Ret a \<and> k a = UB)"
  by (cases r) auto

lemma isRet_iff: "isRet r \<longleftrightarrow> (\<exists>a. r = Ret a)"
  by (cases r) auto

lemma isRet_bindO: "isRet r \<Longrightarrow> (\<And>a. r = Ret a \<Longrightarrow> isRet (k a)) \<Longrightarrow> isRet (bindO r k)"
  by (cases r) auto

lemma bindO_assoc: "bindO (bindO r f) g = bindO r (\<lambda>x. bindO (f x) g)"
  by (cases r) auto

lemma thenO_Ret_True [simp, outcome_simps]: "thenO (Ret (True, s, h)) k = k s h"
  by (simp add: thenO_def)

lemma thenO_Ret_False [simp, outcome_simps]: "thenO (Ret (False, s, h)) k = Ret (False, s, h)"
  by (simp add: thenO_def)

lemma thenO_UB [simp, outcome_simps]: "thenO UB k = UB"
  by (simp add: thenO_def)

lemma thenO_NoFuel [simp, outcome_simps]: "thenO NoFuel k = NoFuel"
  by (simp add: thenO_def)

lemma bindO_not_ok:
  "bindO r (\<lambda>(ok, s, h). if \<not> ok then Ret (False, s, h) else k s h) = thenO r k"
  by (cases r) (auto simp: thenO_def)

lemma thenO_eq_True:
  "thenO r k = Ret (True, s', h') \<longleftrightarrow> (\<exists>s h. r = Ret (True, s, h) \<and> k s h = Ret (True, s', h'))"
  by (auto simp: thenO_def split: if_splits)

lemma thenO_eq_False:
  "thenO r k = Ret (False, s', h') \<longleftrightarrow>
     r = Ret (False, s', h') \<or> (\<exists>s h. r = Ret (True, s, h) \<and> k s h = Ret (False, s', h'))"
  by (auto simp: thenO_def split: if_splits)

section \<open>Lists\<close>

text \<open>The pattern \<open>dst[i ..] = src\<close> on an array given as a list.\<close>

definition overwrite :: "'a list \<Rightarrow> nat \<Rightarrow> 'a list \<Rightarrow> 'a list" where
  "overwrite xs i ys = take i xs @ ys @ drop (i + length ys) xs"

lemma length_overwrite [simp]: "i + length ys \<le> length xs \<Longrightarrow> length (overwrite xs i ys) = length xs"
  by (simp add: overwrite_def)

lemma overwrite_Nil [simp]: "overwrite xs i [] = xs"
  by (simp add: overwrite_def)

lemma overwrite_overwrite:
  "i + length ys + length zs \<le> length xs \<Longrightarrow>
     overwrite (overwrite xs i ys) (i + length ys) zs = overwrite xs i (ys @ zs)"
  by (simp add: overwrite_def add.commute add.left_commute)

lemma take_overwrite: "i \<le> length xs \<Longrightarrow> take i (overwrite xs i ys) = take i xs"
  by (simp add: overwrite_def)

lemma overwrite_window:
  "i + length ys \<le> length xs \<Longrightarrow> take (length ys) (drop i (overwrite xs i ys)) = ys"
  by (simp add: overwrite_def)

lemma drop_overwrite:
  "i + length ys \<le> length xs \<Longrightarrow> drop (i + length ys) (overwrite xs i ys) = drop (i + length ys) xs"
  by (simp add: overwrite_def)

text \<open>A list of lists, as the buckets of a table or the entries of several sources.\<close>

lemma in_bucket: "e \<in> set (concat bss) \<Longrightarrow> \<exists>i < length bss. e \<in> set (bss ! i)"
  by (auto simp: in_set_conv_nth) (metis in_set_conv_nth)

lemma bucket_subset: "i < length bss \<Longrightarrow> set (bss ! i) \<subseteq> set (concat bss)"
  using nth_mem by fastforce

lemma bucket_distinct: "distinct (concat bss) \<Longrightarrow> i < length bss \<Longrightarrow> distinct (bss ! i)"
  by (simp add: distinct_concat_iff)

lemma bucket_disjoint:
  assumes "distinct (concat bss)" "i < length bss" "j < length bss" "i \<noteq> j"
  shows "set (bss ! i) \<inter> set (bss ! j) = {}"
  using assms(2-4,1)
proof (induction bss arbitrary: i j)
  case (Cons b bss)
  show ?case
  proof (cases i)
    case 0
    then obtain j' where "j = Suc j'" using Cons.prems(3) by (cases j) simp_all
    then show ?thesis using 0 Cons.prems bucket_subset [of j' bss] by auto
  next
    case i: (Suc i')
    show ?thesis
    proof (cases j)
      case 0
      then show ?thesis using i Cons.prems bucket_subset [of i' bss] by auto
    next
      case (Suc j')
      then show ?thesis using i Cons by auto
    qed
  qed
qed simp

section \<open>Words\<close>

lemma unat_plus_if_small:
  "unat a + unat b < 2 ^ LENGTH('n) \<Longrightarrow> unat (a + b) = unat a + unat b"
  for a b :: "'n::len word"
  by (simp add: unat_word_ariths)

lemma unat_of_nat_small [simp]:
  "n < 2 ^ LENGTH('n) \<Longrightarrow> unat (of_nat n :: 'n::len word) = n"
  by (simp add: unat_of_nat)

lemma of_nat_eq_iff_small:
  "a < 2 ^ LENGTH('n) \<Longrightarrow> b < 2 ^ LENGTH('n) \<Longrightarrow>
     (of_nat a :: 'n::len word) = of_nat b \<longleftrightarrow> a = b"
  by (metis unat_of_nat_small)

lemma unat_ucast_up:
  "LENGTH('n::len) \<le> LENGTH('m::len) \<Longrightarrow> unat (ucast (x :: 'n word) :: 'm word) = unat x"
proof -
  assume "LENGTH('n) \<le> LENGTH('m)"
  then have "unat x < 2 ^ LENGTH('m)"
    using unsigned_less [of x, where 'a = nat] power_increasing [of "LENGTH('n)" "LENGTH('m)" "2::nat"]
    by linarith
  then show ?thesis
    by (simp add: unsigned_ucast_eq take_bit_nat_eq_self)
qed

end
