(* ===== verification/Memory.thy ===== *)
theory Memory
  imports Prelude
begin

text \<open>
  The memory the nanopb runtime works on: a byte array addressed by 64-bit pointers, read
  and written little-endian in the widths the C code uses, the live blocks of
  \<open>malloc\<close>, and the object a memory output stream writes to. \<open>realloc\<close>, \<open>free\<close>,
  \<open>memcpy\<close> and \<open>memset\<close> are the C library's; where a new block lies (or that there is no
  memory left) is the choice of the allocator, a parameter.
\<close>

type_synonym memory = "addr \<Rightarrow> byte"

section \<open>Bytes in memory\<close>

definition load_bytes :: "memory \<Rightarrow> addr \<Rightarrow> nat \<Rightarrow> byte list" where
  "load_bytes m p n = map (\<lambda>i. m (p + of_nat i)) [0..<n]"

fun store_bytes :: "memory \<Rightarrow> addr \<Rightarrow> byte list \<Rightarrow> memory" where
  "store_bytes m p [] = m"
| "store_bytes m p (b # bs) = store_bytes (m(p := b)) (p + 1) bs"

definition region :: "addr \<Rightarrow> nat \<Rightarrow> addr set" where
  "region p n = (\<lambda>i. p + of_nat i) ` {..<n}"

section \<open>Little-endian integers\<close>

definition le_bytes :: "nat \<Rightarrow> 'n::len word \<Rightarrow> byte list" where
  "le_bytes n w = map (\<lambda>i. ucast (drop_bit (8 * i) w)) [0..<n]"

fun le_word :: "byte list \<Rightarrow> 'n::len word" where
  "le_word [] = 0"
| "le_word (b # bs) = ucast b OR push_bit 8 (le_word bs)"

definition load8 :: "memory \<Rightarrow> addr \<Rightarrow> byte" where
  "load8 m p = m p"

definition load16 :: "memory \<Rightarrow> addr \<Rightarrow> u16" where
  "load16 m p = le_word (load_bytes m p 2)"

definition load32 :: "memory \<Rightarrow> addr \<Rightarrow> u32" where
  "load32 m p = le_word (load_bytes m p 4)"

definition load64 :: "memory \<Rightarrow> addr \<Rightarrow> u64" where
  "load64 m p = le_word (load_bytes m p 8)"

text \<open>A \<open>bool\<close> object is one byte; any byte but zero reads as true.\<close>

definition load_bool :: "memory \<Rightarrow> addr \<Rightarrow> bool" where
  "load_bool m p \<longleftrightarrow> m p \<noteq> 0"

definition store8 :: "memory \<Rightarrow> addr \<Rightarrow> byte \<Rightarrow> memory" where
  "store8 m p v = m(p := v)"

definition store16 :: "memory \<Rightarrow> addr \<Rightarrow> u16 \<Rightarrow> memory" where
  "store16 m p v = store_bytes m p (le_bytes 2 v)"

definition store32 :: "memory \<Rightarrow> addr \<Rightarrow> u32 \<Rightarrow> memory" where
  "store32 m p v = store_bytes m p (le_bytes 4 v)"

definition store64 :: "memory \<Rightarrow> addr \<Rightarrow> u64 \<Rightarrow> memory" where
  "store64 m p v = store_bytes m p (le_bytes 8 v)"

definition store_bool :: "memory \<Rightarrow> addr \<Rightarrow> bool \<Rightarrow> memory" where
  "store_bool m p b = m(p := (if b then 1 else 0))"

section \<open>Heap\<close>

text \<open>
  \<open>out\<close> is the array behind a memory output stream (the caller's
  \<open>pb_byte_t buffer[...]\<close>), an object of its own; \<open>blocks\<close> lists the live
  allocations with their sizes.
\<close>

record heap =
  mem :: memory
  blocks :: "(addr \<times> nat) list"
  out :: "byte list"

definition set_mem :: "heap \<Rightarrow> memory \<Rightarrow> heap" where
  "set_mem h m = h\<lparr>mem := m\<rparr>"

definition memset0 :: "heap \<Rightarrow> addr \<Rightarrow> nat \<Rightarrow> heap" where
  "memset0 h p n = set_mem h (store_bytes (mem h) p (replicate n 0))"

definition memcpy :: "heap \<Rightarrow> addr \<Rightarrow> addr \<Rightarrow> nat \<Rightarrow> heap" where
  "memcpy h dst src n = set_mem h (store_bytes (mem h) dst (load_bytes (mem h) src n))"

definition c_free :: "heap \<Rightarrow> addr \<Rightarrow> heap outcome" where
  "c_free h p =
     (if p = 0 then Ret h
      else if p \<in> fst ` set (blocks h) then Ret (h\<lparr>blocks := filter (\<lambda>b. fst b \<noteq> p) (blocks h)\<rparr>)
      else UB)"

text \<open>
  \<open>realloc\<close>: the allocator \<open>al\<close> gives the address of the new block, 0 when there is no
  memory. On success the old contents move and the old block is gone; on failure nothing
  changes. A non-null pointer that is not a live block is undefined behaviour.
\<close>

definition c_realloc :: "(heap \<Rightarrow> addr \<Rightarrow> u64 \<Rightarrow> addr) \<Rightarrow> heap \<Rightarrow> addr \<Rightarrow> u64 \<Rightarrow> (addr \<times> heap) outcome" where
  "c_realloc al h p sz =
     (if p \<noteq> 0 \<and> p \<notin> fst ` set (blocks h) then UB
      else
        let q = al h p sz in
        if q = 0 then Ret (0, h)
        else
          let old = (case map_of (blocks h) p of None \<Rightarrow> 0 | Some k \<Rightarrow> k);
              moved = store_bytes (mem h) q (load_bytes (mem h) p (min old (unat sz)))
          in Ret (q, h\<lparr>mem := moved,
                       blocks := (q, unat sz) # filter (\<lambda>b. fst b \<noteq> p) (blocks h)\<rparr>))"

section \<open>Reads over writes\<close>

lemma length_load_bytes [simp]: "length (load_bytes m p n) = n"
  by (simp add: load_bytes_def)

lemma nth_load_bytes [simp]: "i < n \<Longrightarrow> load_bytes m p n ! i = m (p + of_nat i)"
  by (simp add: load_bytes_def)

lemma load_bytes_0 [simp]: "load_bytes m p 0 = []"
  by (simp add: load_bytes_def)

lemma load_bytes_Suc: "load_bytes m p (Suc n) = m p # load_bytes m (p + 1) n"
  by (simp add: load_bytes_def map_upt_Suc add.assoc del: upt_Suc)

lemma length_le_bytes [simp]: "length (le_bytes n w) = n"
  by (simp add: le_bytes_def)

lemma region_0 [simp]: "region p 0 = {}"
  by (simp add: region_def)

lemma region_Suc: "region p (Suc n) = insert p (region (p + 1) n)"
  by (auto simp: region_def lessThan_Suc_eq_insert_0 image_image add.assoc)

lemma region_mem [intro]: "i < n \<Longrightarrow> p + of_nat i \<in> region p n"
  by (auto simp: region_def)

lemma region_mono: "n \<le> k \<Longrightarrow> region p n \<subseteq> region p k"
  by (auto simp: region_def)

lemma region_1 [simp]: "region p (Suc 0) = {p}"
  by (simp add: region_def lessThan_Suc)

lemma region_sub: "i + n \<le> k \<Longrightarrow> region (p + of_nat i) n \<subseteq> region p k"
  by (auto simp: region_def add.assoc simp flip: of_nat_add)

lemma region_notin_self:
  "n < 2 ^ 64 \<Longrightarrow> p \<notin> region (p + 1) n"
proof
  assume n: "n < 2 ^ 64" and "p \<in> region (p + 1) n"
  then obtain i where i: "i < n" and "p = p + 1 + of_nat i"
    by (auto simp: region_def)
  then have "(of_nat (Suc i) :: addr) = 0" by (simp add: add.assoc)
  then have "(2::nat) ^ 64 dvd Suc i"
    unfolding word_of_nat_eq_0_iff by simp
  with i n show False by (auto dest: dvd_imp_le)
qed

lemma store_bytes_outside [simp, mem_simps]:
  "a \<notin> region p (length bs) \<Longrightarrow> store_bytes m p bs a = m a"
  by (induction m p bs rule: store_bytes.induct) (auto simp: region_Suc)

lemma load_store_same [simp, mem_simps]:
  "length bs \<le> 2 ^ 64 \<Longrightarrow> load_bytes (store_bytes m p bs) p (length bs) = bs"
  by (induction m p bs rule: store_bytes.induct) (auto simp: load_bytes_Suc region_notin_self)

lemma load_bytes_cong:
  "(\<And>a. a \<in> region p n \<Longrightarrow> m a = m' a) \<Longrightarrow> load_bytes m p n = load_bytes m' p n"
  by (simp add: load_bytes_def region_mem)

lemma load_store_disjoint [mem_simps]:
  "region p n \<inter> region q (length bs) = {} \<Longrightarrow> load_bytes (store_bytes m q bs) p n = load_bytes m p n"
  by (rule load_bytes_cong) (auto intro: store_bytes_outside)

section \<open>Little-endian round trip\<close>

lemma bit_le_word:
  "bit (le_word bs :: 'n::len word) k \<longleftrightarrow>
     k < LENGTH('n) \<and> k div 8 < length bs \<and> bit (bs ! (k div 8)) (k mod 8)"
proof (induction bs arbitrary: k)
  case Nil
  then show ?case by simp
next
  case (Cons b bs)
  show ?case
  proof (cases "k < 8")
    case True
    then show ?thesis
      by (auto simp: bit_or_iff bit_push_bit_iff bit_unsigned_iff dest: bit_imp_le_length)
  next
    case False
    then have k: "k div 8 = Suc ((k - 8) div 8)" "(k - 8) mod 8 = k mod 8"
      using le_div_geq [of 8 k] le_mod_geq [of 8 k] by simp_all
    have "\<not> bit b k"
      using False by (auto dest: bit_imp_le_length)
    then show ?thesis
      using False k Cons.IH [of "k - 8"]
      by (auto simp: bit_or_iff bit_push_bit_iff bit_unsigned_iff)
  qed
qed

lemma le_word_le_bytes:
  "LENGTH('n::len) \<le> 8 * n \<Longrightarrow> le_word (le_bytes n (w :: 'n word)) = w"
proof (rule bit_word_eqI)
  fix k assume n: "LENGTH('n) \<le> 8 * n" and k: "k < LENGTH('n)"
  then have "k div 8 < n" by auto
  then show "bit (le_word (le_bytes n w) :: 'n word) k = bit w k"
    using k by (simp add: bit_le_word le_bytes_def bit_unsigned_iff bit_drop_bit_eq)
qed

lemma le_bytes_le_word:
  "length bs * 8 \<le> LENGTH('n::len) \<Longrightarrow> le_bytes (length bs) (le_word bs :: 'n word) = bs"
proof (rule nth_equalityI)
  assume len: "length bs * 8 \<le> LENGTH('n)"
  show "length (le_bytes (length bs) (le_word bs :: 'n word)) = length bs" by simp
  fix i assume "i < length (le_bytes (length bs) (le_word bs :: 'n word))"
  then have i: "i < length bs" by simp
  show "le_bytes (length bs) (le_word bs :: 'n word) ! i = bs ! i"
  proof (rule bit_word_eqI)
    fix k assume k: "k < LENGTH(8)"
    then have "8 * i + k < LENGTH('n)" "(8 * i + k) div 8 = i" "(8 * i + k) mod 8 = k"
      using i len by auto
    then show "bit (le_bytes (length bs) (le_word bs :: 'n word) ! i) k = bit (bs ! i) k"
      using i k by (simp add: le_bytes_def bit_unsigned_iff bit_drop_bit_eq bit_le_word)
  qed
qed

lemma load_store_16 [simp, mem_simps]: "load16 (store16 m p v) p = v"
  using load_store_same [of "le_bytes 2 v" m p]
  by (simp add: load16_def store16_def le_word_le_bytes)

lemma load_store_32 [simp, mem_simps]: "load32 (store32 m p v) p = v"
  using load_store_same [of "le_bytes 4 v" m p]
  by (simp add: load32_def store32_def le_word_le_bytes)

lemma load_store_64 [simp, mem_simps]: "load64 (store64 m p v) p = v"
  using load_store_same [of "le_bytes 8 v" m p]
  by (simp add: load64_def store64_def le_word_le_bytes)

lemma load_store_8 [simp, mem_simps]: "load8 (store8 m p v) p = v"
  by (simp add: load8_def store8_def)

lemma load_store_bool [simp, mem_simps]: "load_bool (store_bool m p b) p = b"
  by (simp add: load_bool_def store_bool_def)

lemma mem_set_mem [simp]: "mem (set_mem h m) = m" "blocks (set_mem h m) = blocks h" "out (set_mem h m) = out h"
  by (simp_all add: set_mem_def)

end
