(* ===== verification/Pb.thy ===== *)
theory Pb
  imports Memory
begin

text \<open>
  The data model of \<open>nanopb/pb.h\<close> in the configuration the pods are built with
  (\<open>PB_FIELD_32BIT\<close>, \<open>PB_NO_PACKED_STRUCTS\<close>, \<open>PB_ENABLE_MALLOC\<close>): field descriptors and
  their type byte, the stream structures of \<open>pb_encode.h\<close> and \<open>pb_decode.h\<close>, the layout
  of callback and extension structures, error messages, and the environment of the code
  that is not part of nanopb (user callbacks, the allocator, the descriptor tables).
\<close>

section \<open>The type byte\<close>

abbreviation (input) PB_LTYPE_VARINT :: byte where "PB_LTYPE_VARINT \<equiv> 0x00"
abbreviation (input) PB_LTYPE_UVARINT :: byte where "PB_LTYPE_UVARINT \<equiv> 0x01"
abbreviation (input) PB_LTYPE_SVARINT :: byte where "PB_LTYPE_SVARINT \<equiv> 0x02"
abbreviation (input) PB_LTYPE_FIXED32 :: byte where "PB_LTYPE_FIXED32 \<equiv> 0x03"
abbreviation (input) PB_LTYPE_FIXED64 :: byte where "PB_LTYPE_FIXED64 \<equiv> 0x04"
abbreviation (input) PB_LTYPE_LAST_PACKABLE :: byte where "PB_LTYPE_LAST_PACKABLE \<equiv> 0x04"
abbreviation (input) PB_LTYPE_BYTES :: byte where "PB_LTYPE_BYTES \<equiv> 0x05"
abbreviation (input) PB_LTYPE_STRING :: byte where "PB_LTYPE_STRING \<equiv> 0x06"
abbreviation (input) PB_LTYPE_SUBMESSAGE :: byte where "PB_LTYPE_SUBMESSAGE \<equiv> 0x07"
abbreviation (input) PB_LTYPE_EXTENSION :: byte where "PB_LTYPE_EXTENSION \<equiv> 0x08"
abbreviation (input) PB_LTYPE_FIXED_LENGTH_BYTES :: byte where "PB_LTYPE_FIXED_LENGTH_BYTES \<equiv> 0x09"

abbreviation (input) PB_HTYPE_REQUIRED :: byte where "PB_HTYPE_REQUIRED \<equiv> 0x00"
abbreviation (input) PB_HTYPE_OPTIONAL :: byte where "PB_HTYPE_OPTIONAL \<equiv> 0x10"
abbreviation (input) PB_HTYPE_REPEATED :: byte where "PB_HTYPE_REPEATED \<equiv> 0x20"
abbreviation (input) PB_HTYPE_ONEOF :: byte where "PB_HTYPE_ONEOF \<equiv> 0x30"

abbreviation (input) PB_ATYPE_STATIC :: byte where "PB_ATYPE_STATIC \<equiv> 0x00"
abbreviation (input) PB_ATYPE_POINTER :: byte where "PB_ATYPE_POINTER \<equiv> 0x80"
abbreviation (input) PB_ATYPE_CALLBACK :: byte where "PB_ATYPE_CALLBACK \<equiv> 0x40"

definition PB_ATYPE :: "byte \<Rightarrow> byte" where "PB_ATYPE x = x AND 0xC0"
definition PB_HTYPE :: "byte \<Rightarrow> byte" where "PB_HTYPE x = x AND 0x30"
definition PB_LTYPE :: "byte \<Rightarrow> byte" where "PB_LTYPE x = x AND 0x0F"

definition PB_SIZE_MAX :: u32 where "PB_SIZE_MAX = -1"

definition PB_MAX_REQUIRED_FIELDS :: u32 where "PB_MAX_REQUIRED_FIELDS = 64"

text \<open>The two type bits give four multiplicities, so every switch over them is complete.\<close>

lemma two_bits:
  fixes t :: byte
  shows "t AND push_bit k (mask 2) \<in> {push_bit k 0, push_bit k 1, push_bit k 2, push_bit k 3}"
proof -
  have eq: "t AND push_bit k (mask 2) = push_bit k (take_bit 2 (drop_bit k t))"
    by (auto intro!: bit_word_eqI simp: bit_simps)
  have "take_bit 2 (drop_bit k t) < (4 :: byte)"
    by (simp add: take_bit_eq_mod word_mod_less_divisor)
  then have "unat (take_bit 2 (drop_bit k t)) \<in> set [0..<4]" by (simp add: word_less_nat_alt)
  then have "(of_nat (unat (take_bit 2 (drop_bit k t))) :: byte) \<in> of_nat ` set [0..<4]"
    by (rule imageI)
  then show ?thesis unfolding eq by (auto simp: upt_rec)
qed

lemma htype_cases: "PB_HTYPE t \<in> {PB_HTYPE_REQUIRED, PB_HTYPE_OPTIONAL, PB_HTYPE_REPEATED, PB_HTYPE_ONEOF}"
  using two_bits [of t 4] by (simp add: PB_HTYPE_def mask_eq_exp_minus_1 push_bit_eq_mult)

lemma atype_cases: "PB_ATYPE t \<in> {PB_ATYPE_STATIC, PB_ATYPE_POINTER, PB_ATYPE_CALLBACK, 0xC0}"
  using two_bits [of t 6] by (simp add: PB_ATYPE_def mask_eq_exp_minus_1 push_bit_eq_mult) auto

section \<open>Wire types\<close>

type_synonym pb_wire_type_t = u32

abbreviation (input) PB_WT_VARINT :: pb_wire_type_t where "PB_WT_VARINT \<equiv> 0"
abbreviation (input) PB_WT_64BIT :: pb_wire_type_t where "PB_WT_64BIT \<equiv> 1"
abbreviation (input) PB_WT_STRING :: pb_wire_type_t where "PB_WT_STRING \<equiv> 2"
abbreviation (input) PB_WT_32BIT :: pb_wire_type_t where "PB_WT_32BIT \<equiv> 5"

section \<open>Field descriptors\<close>

text \<open>
  \<open>size_offset\<close> is the signed \<open>pb_ssize_t\<close>; it is added to a pointer after sign
  extension. \<open>ptr\<close> is null, the address of a descriptor array (submessages) or the
  address of a default value.
\<close>

record pb_field_t =
  tag :: u32
  type :: byte
  data_offset :: u32
  size_offset :: u32
  data_size :: u32
  array_size :: u32
  ptr :: addr

definition PB_LAST_FIELD :: pb_field_t where
  "PB_LAST_FIELD = \<lparr>tag = 0, type = 0, data_offset = 0, size_offset = 0, data_size = 0,
     array_size = 0, ptr = 0\<rparr>"

definition sizeof_ptr :: u64 where "sizeof_ptr = 8"

text \<open>\<open>PB_BYTES_ARRAY_T_ALLOCSIZE(n)\<close>: the bytes follow a 32-bit \<open>size\<close> member.\<close>

definition PB_BYTES_ARRAY_T_ALLOCSIZE :: "u32 \<Rightarrow> u64" where
  "PB_BYTES_ARRAY_T_ALLOCSIZE n = ucast n + 4"

definition bytes_size :: "memory \<Rightarrow> addr \<Rightarrow> u32" where
  "bytes_size m p = load32 m p"

definition bytes_data :: "addr \<Rightarrow> addr" where
  "bytes_data p = p + 4"

text \<open>Members of \<open>pb_callback_t\<close>, \<open>pb_extension_type_t\<close> and \<open>pb_extension_t\<close>.\<close>

definition callback_func :: "memory \<Rightarrow> addr \<Rightarrow> addr" where "callback_func m p = load64 m p"
definition callback_arg :: "addr \<Rightarrow> addr" where "callback_arg p = p + 8"

definition ext_type_decode :: "memory \<Rightarrow> addr \<Rightarrow> addr" where "ext_type_decode m p = load64 m p"
definition ext_type_encode :: "memory \<Rightarrow> addr \<Rightarrow> addr" where "ext_type_encode m p = load64 m (p + 8)"
definition ext_type_arg :: "memory \<Rightarrow> addr \<Rightarrow> addr" where "ext_type_arg m p = load64 m (p + 16)"

definition ext_type :: "memory \<Rightarrow> addr \<Rightarrow> addr" where "ext_type m p = load64 m p"
definition ext_dest :: "memory \<Rightarrow> addr \<Rightarrow> addr" where "ext_dest m p = load64 m (p + 8)"
definition ext_next :: "memory \<Rightarrow> addr \<Rightarrow> addr" where "ext_next m p = load64 m (p + 16)"
definition ext_dest_addr :: "addr \<Rightarrow> addr" where "ext_dest_addr p = p + 8"
definition ext_found_addr :: "addr \<Rightarrow> addr" where "ext_found_addr p = p + 24"

section \<open>Streams\<close>

text \<open>
  An output stream's callback is null (a sizing stream), the library's \<open>buf_write\<close>, or a
  user function. The \<open>state\<close> pointer of a \<open>buf_write\<close> stream is an index into the output
  object. What is handed to \<open>pb_write\<close> is null, a local array of the caller, or a pointer
  into memory.
\<close>

datatype ocallback = No_write | Buf_write | User_write nat

record pb_ostream_t =
  o_callback :: ocallback
  o_state :: nat
  max_size :: u64
  bytes_written :: u64
  o_errmsg :: "string option"

datatype wbuf = WNull | WLocal "byte list" | WMem addr

text \<open>
  The state of a \<open>buf_read\<close> stream points into a constant array: the array and the
  position in it. A destination of \<open>pb_read\<close> is null, a local array of the caller (its
  contents come back as a list), or a pointer into memory.
\<close>

datatype icallback = Buf_read | User_read nat

record pb_istream_t =
  i_callback :: icallback
  i_buf :: "byte list"
  i_pos :: nat
  bytes_left :: u64
  i_errmsg :: "string option"

datatype rbuf = RNull | RLocal | RMem addr

section \<open>Error messages\<close>

text \<open>\<open>PB_SET_ERROR\<close> keeps the first message.\<close>

definition PB_SET_ERROR :: "pb_ostream_t \<Rightarrow> string \<Rightarrow> pb_ostream_t" where
  "PB_SET_ERROR s msg = s\<lparr>o_errmsg := (case o_errmsg s of None \<Rightarrow> Some msg | Some e \<Rightarrow> Some e)\<rparr>"

definition PB_RETURN_ERROR :: "pb_ostream_t \<Rightarrow> string \<Rightarrow> heap \<Rightarrow> (bool \<times> pb_ostream_t \<times> heap) outcome" where
  "PB_RETURN_ERROR s msg h = Ret (False, PB_SET_ERROR s msg, h)"

definition PB_SET_ERROR_i :: "pb_istream_t \<Rightarrow> string \<Rightarrow> pb_istream_t" where
  "PB_SET_ERROR_i s msg = s\<lparr>i_errmsg := (case i_errmsg s of None \<Rightarrow> Some msg | Some e \<Rightarrow> Some e)\<rparr>"

definition PB_RETURN_ERROR_i :: "pb_istream_t \<Rightarrow> string \<Rightarrow> heap \<Rightarrow> (bool \<times> pb_istream_t \<times> heap) outcome" where
  "PB_RETURN_ERROR_i s msg h = Ret (False, PB_SET_ERROR_i s msg, h)"

section \<open>The environment\<close>

text \<open>
  \<open>ftab\<close> gives the descriptor array that starts at an address, with its terminator; the
  other components are the functions behind the function pointers the code calls, and the
  placement policy of the allocator.
\<close>

record env =
  ftab :: "addr \<Rightarrow> pb_field_t list"
  user_write :: "nat \<Rightarrow> pb_ostream_t \<Rightarrow> wbuf \<Rightarrow> u64 \<Rightarrow> heap \<Rightarrow> (bool \<times> pb_ostream_t \<times> heap) outcome"
  user_read :: "nat \<Rightarrow> pb_istream_t \<Rightarrow> rbuf \<Rightarrow> u64 \<Rightarrow> heap \<Rightarrow> (bool \<times> byte list \<times> pb_istream_t \<times> heap) outcome"
  encode_cb :: "addr \<Rightarrow> pb_ostream_t \<Rightarrow> pb_field_t \<Rightarrow> addr \<Rightarrow> heap \<Rightarrow> (bool \<times> pb_ostream_t \<times> heap) outcome"
  decode_cb :: "addr \<Rightarrow> pb_istream_t \<Rightarrow> pb_field_t \<Rightarrow> addr \<Rightarrow> heap \<Rightarrow> (bool \<times> pb_istream_t \<times> heap) outcome"
  ext_encode_cb :: "addr \<Rightarrow> pb_ostream_t \<Rightarrow> addr \<Rightarrow> heap \<Rightarrow> (bool \<times> pb_ostream_t \<times> heap) outcome"
  ext_decode_cb :: "addr \<Rightarrow> pb_istream_t \<Rightarrow> addr \<Rightarrow> u32 \<Rightarrow> pb_wire_type_t \<Rightarrow> heap \<Rightarrow> (bool \<times> pb_istream_t \<times> heap) outcome"
  alloc_at :: "heap \<Rightarrow> addr \<Rightarrow> u64 \<Rightarrow> addr"

text \<open>\<open>fields[i]\<close>; the terminator ends the array.\<close>

definition field_at :: "env \<Rightarrow> addr \<Rightarrow> nat \<Rightarrow> pb_field_t" where
  "field_at E a i = (if i < length (ftab E a) then ftab E a ! i else PB_LAST_FIELD)"

section \<open>Stream fields under error messages\<close>

lemma stream_error_simps [simp, stream_simps]:
  "o_callback (PB_SET_ERROR s msg) = o_callback s"
  "o_state (PB_SET_ERROR s msg) = o_state s"
  "max_size (PB_SET_ERROR s msg) = max_size s"
  "bytes_written (PB_SET_ERROR s msg) = bytes_written s"
  "o_errmsg (PB_SET_ERROR s msg) \<noteq> None"
  by (simp_all add: PB_SET_ERROR_def split: option.split)

lemma istream_error_simps [simp, stream_simps]:
  "i_callback (PB_SET_ERROR_i t msg) = i_callback t"
  "i_buf (PB_SET_ERROR_i t msg) = i_buf t"
  "i_pos (PB_SET_ERROR_i t msg) = i_pos t"
  "bytes_left (PB_SET_ERROR_i t msg) = bytes_left t"
  "i_errmsg (PB_SET_ERROR_i t msg) \<noteq> None"
  by (simp_all add: PB_SET_ERROR_i_def split: option.split)

end
