(* ===== verification/Pb_Common.thy ===== *)
theory Pb_Common
  imports Pb
begin

text \<open>
  The field iterator of \<open>nanopb/pb_common.c\<close>. A position in a descriptor array is the
  array's address with an index. The canonical iterator of a field, \<open>iter_at\<close>, is the one
  reached from the beginning by steps; the lemmas show that stepping and searching move
  between canonical iterators only, that a search visits every field and stops, and where
  the data pointer of a field is.
\<close>

section \<open>The iterator\<close>

record pb_field_iter_t =
  start :: addr
  pos :: nat
  required_field_index :: u32
  dest_struct :: addr
  pData :: addr
  pSize :: addr

definition iter_pos :: "env \<Rightarrow> pb_field_iter_t \<Rightarrow> pb_field_t" where
  "iter_pos E it = field_at E (start it) (pos it)"

definition pb_field_iter_begin :: "env \<Rightarrow> addr \<Rightarrow> addr \<Rightarrow> bool \<times> pb_field_iter_t" where
  "pb_field_iter_begin E flds dest =
     (let f = field_at E flds 0;
          d = dest + ucast (data_offset f);
          it = \<lparr>start = flds, pos = 0, required_field_index = 0, dest_struct = dest,
                pData = d, pSize = d + scast (size_offset f)\<rparr>
      in (tag f \<noteq> 0, it))"

definition pb_field_iter_next :: "env \<Rightarrow> pb_field_iter_t \<Rightarrow> bool \<times> pb_field_iter_t" where
  "pb_field_iter_next E it =
     (let prev_field = iter_pos E it in
      if tag prev_field = 0 then (False, it)
      else
        let it1 = it\<lparr>pos := pos it + 1\<rparr>; f = iter_pos E it1 in
        if tag f = 0 then (False, snd (pb_field_iter_begin E (start it) (dest_struct it)))
        else if PB_HTYPE (type prev_field) = PB_HTYPE_ONEOF \<and> PB_HTYPE (type f) = PB_HTYPE_ONEOF
                \<and> data_offset f = PB_SIZE_MAX
        then (True, it1)
        else
          let prev_size =
                (if PB_ATYPE (type prev_field) = PB_ATYPE_STATIC \<and>
                    PB_HTYPE (type prev_field) = PB_HTYPE_REPEATED
                 then ucast (data_size prev_field) * ucast (array_size prev_field)
                 else if PB_ATYPE (type prev_field) = PB_ATYPE_POINTER then sizeof_ptr
                 else ucast (data_size prev_field));
              rfi = (if PB_HTYPE (type prev_field) = PB_HTYPE_REQUIRED
                     then required_field_index it + 1 else required_field_index it);
              d = pData it + prev_size + ucast (data_offset f)
          in (True, it1\<lparr>required_field_index := rfi, pData := d,
                        pSize := d + scast (size_offset f)\<rparr>))"

text \<open>
  The do-while loop of \<open>pb_field_iter_find\<close> and of \<open>find_extension_field\<close>: test the
  current field, step, stop when back at the first position. The fuel is one more than the
  length of the array, which a search from a valid position never exhausts.
\<close>

fun iter_search :: "env \<Rightarrow> (pb_field_t \<Rightarrow> bool) \<Rightarrow> nat \<Rightarrow> nat \<Rightarrow> pb_field_iter_t \<Rightarrow> (bool \<times> pb_field_iter_t) outcome" where
  "iter_search E P st 0 it = NoFuel"
| "iter_search E P st (Suc n) it =
     (if P (iter_pos E it) then Ret (True, it)
      else
        let it' = snd (pb_field_iter_next E it) in
        if pos it' \<noteq> st then iter_search E P st n it' else Ret (False, it'))"

definition pb_field_iter_find :: "env \<Rightarrow> pb_field_iter_t \<Rightarrow> u32 \<Rightarrow> (bool \<times> pb_field_iter_t) outcome" where
  "pb_field_iter_find E it tg =
     iter_search E (\<lambda>f. tag f = tg \<and> PB_LTYPE (type f) \<noteq> PB_LTYPE_EXTENSION) (pos it)
       (Suc (length (ftab E (start it)))) it"

definition find_extension_field :: "env \<Rightarrow> pb_field_iter_t \<Rightarrow> (bool \<times> pb_field_iter_t) outcome" where
  "find_extension_field E it =
     iter_search E (\<lambda>f. PB_LTYPE (type f) = PB_LTYPE_EXTENSION) (pos it)
       (Suc (length (ftab E (start it)))) it"

section \<open>Canonical iterators\<close>

text \<open>The number of fields before the terminator.\<close>

definition n_fields :: "env \<Rightarrow> addr \<Rightarrow> nat" where
  "n_fields E a = length (takeWhile (\<lambda>f. tag f \<noteq> 0) (ftab E a))"

fun iter_at :: "env \<Rightarrow> addr \<Rightarrow> addr \<Rightarrow> nat \<Rightarrow> pb_field_iter_t" where
  "iter_at E a d 0 = snd (pb_field_iter_begin E a d)"
| "iter_at E a d (Suc i) = snd (pb_field_iter_next E (iter_at E a d i))"

lemma n_fields_le: "n_fields E a \<le> length (ftab E a)"
  by (simp add: n_fields_def length_takeWhile_le)

lemma tag_at_nonzero: "i < n_fields E a \<Longrightarrow> tag (field_at E a i) \<noteq> 0"
proof -
  assume i: "i < n_fields E a"
  then have "takeWhile (\<lambda>f. tag f \<noteq> 0) (ftab E a) ! i = ftab E a ! i"
    by (simp add: n_fields_def takeWhile_nth)
  moreover have "takeWhile (\<lambda>f. tag f \<noteq> 0) (ftab E a) ! i \<in> set (takeWhile (\<lambda>f. tag f \<noteq> 0) (ftab E a))"
    using i by (simp add: n_fields_def)
  ultimately show ?thesis
    using i n_fields_le [of E a] by (auto simp: field_at_def dest: set_takeWhileD)
qed

lemma tag_at_end [simp]: "tag (field_at E a (n_fields E a)) = 0"
proof (cases "n_fields E a < length (ftab E a)")
  case True
  then show ?thesis
    using nth_length_takeWhile [of "\<lambda>f. tag f \<noteq> 0" "ftab E a"]
    by (simp add: field_at_def n_fields_def)
qed (simp add: field_at_def PB_LAST_FIELD_def)

lemma tag_at_zero_iff: "i \<le> n_fields E a \<Longrightarrow> tag (field_at E a i) = 0 \<longleftrightarrow> i = n_fields E a"
  using tag_at_nonzero [of i E a] by (cases "i = n_fields E a") auto

lemma begin_fields [simp]:
  "start (snd (pb_field_iter_begin E a d)) = a"
  "pos (snd (pb_field_iter_begin E a d)) = 0"
  "dest_struct (snd (pb_field_iter_begin E a d)) = d"
  by (simp_all add: pb_field_iter_begin_def Let_def)

lemma fst_begin: "fst (pb_field_iter_begin E a d) \<longleftrightarrow> 0 < n_fields E a"
  using tag_at_zero_iff [of 0 E a] by (simp add: pb_field_iter_begin_def Let_def)

lemma next_fields [simp]:
  "start (snd (pb_field_iter_next E it)) = start it"
  "dest_struct (snd (pb_field_iter_next E it)) = dest_struct it"
  by (simp_all add: pb_field_iter_next_def Let_def)

lemma iter_at_fields [simp]:
  "start (iter_at E a d i) = a" "dest_struct (iter_at E a d i) = d"
  by (induction i) simp_all

lemma pos_next:
  "pos it < n_fields E (start it) \<Longrightarrow>
     pos (snd (pb_field_iter_next E it)) =
       (if Suc (pos it) < n_fields E (start it) then Suc (pos it) else 0)"
  using tag_at_nonzero [of "pos it" E "start it"] tag_at_zero_iff [of "Suc (pos it)" E "start it"]
  by (auto simp: pb_field_iter_next_def iter_pos_def Let_def)

lemma fst_next:
  "pos it < n_fields E (start it) \<Longrightarrow>
     fst (pb_field_iter_next E it) \<longleftrightarrow> Suc (pos it) < n_fields E (start it)"
  using tag_at_nonzero [of "pos it" E "start it"] tag_at_zero_iff [of "Suc (pos it)" E "start it"]
  by (auto simp: pb_field_iter_next_def iter_pos_def Let_def)

lemma pos_iter_at: "i < n_fields E a \<Longrightarrow> pos (iter_at E a d i) = i"
  by (induction i) (simp_all add: pos_next)

lemma iter_pos_iter_at: "i < n_fields E a \<Longrightarrow> iter_pos E (iter_at E a d i) = field_at E a i"
  by (simp add: iter_pos_def pos_iter_at)

text \<open>A step goes to the next canonical iterator, or back to the first one.\<close>

lemma next_iter_at:
  assumes "i < n_fields E a"
  shows "pb_field_iter_next E (iter_at E a d i) =
    (if Suc i < n_fields E a then (True, iter_at E a d (Suc i)) else (False, iter_at E a d 0))"
proof (cases "Suc i < n_fields E a")
  case True
  then have "fst (pb_field_iter_next E (iter_at E a d i))"
    using assms by (simp add: fst_next pos_iter_at)
  with True show ?thesis by (simp add: prod_eq_iff)
next
  case False
  with assms have i: "Suc i = n_fields E a" by simp
  have "iter_pos E (iter_at E a d i) = field_at E a i"
    using assms by (rule iter_pos_iter_at)
  moreover have "iter_pos E ((iter_at E a d i)\<lparr>pos := Suc i\<rparr>) = field_at E a (n_fields E a)"
    by (simp add: iter_pos_def i)
  ultimately show ?thesis
    using tag_at_nonzero [OF assms] False
    by (simp add: pb_field_iter_next_def Let_def pos_iter_at [OF assms])
qed

declare iter_at.simps(2) [simp del]

section \<open>Search\<close>

text \<open>How many steps a search from position \<open>i\<close> takes to come back to \<open>st\<close>.\<close>

definition ring_dist :: "nat \<Rightarrow> nat \<Rightarrow> nat \<Rightarrow> nat" where
  "ring_dist n st i = (if i < st then st - i else n - i + st)"

definition ring_next :: "nat \<Rightarrow> nat \<Rightarrow> nat" where
  "ring_next n i = (if Suc i < n then Suc i else 0)"

lemma ring_dist_next:
  "i < n \<Longrightarrow> st < n \<Longrightarrow> ring_next n i \<noteq> st \<Longrightarrow> ring_dist n st (ring_next n i) < ring_dist n st i"
  by (auto simp: ring_dist_def ring_next_def split: if_splits)

definition ring_between :: "nat \<Rightarrow> nat \<Rightarrow> nat \<Rightarrow> nat set" where
  "ring_between n st i = (if i < st then {i..<st} else {i..<n} \<union> {..<st})"

lemma ring_between_last:
  "ring_next n i = st \<Longrightarrow> i < n \<Longrightarrow> st < n \<Longrightarrow> ring_between n st i = {i}"
  by (auto simp: ring_next_def ring_between_def split: if_splits)

lemma ring_between_step:
  "ring_next n i \<noteq> st \<Longrightarrow> i < n \<Longrightarrow> st < n \<Longrightarrow>
     ring_between n st i = insert i (ring_between n st (ring_next n i))"
  by (auto simp: ring_next_def ring_between_def split: if_splits)

lemma iter_search_ring:
  assumes "st < n_fields E a"
  shows "i < n_fields E a \<Longrightarrow> ring_dist (n_fields E a) st i \<le> k \<Longrightarrow>
    (\<exists>j \<in> ring_between (n_fields E a) st i. P (field_at E a j) \<and>
        iter_search E P st k (iter_at E a d i) = Ret (True, iter_at E a d j)) \<or>
    ((\<forall>j \<in> ring_between (n_fields E a) st i. \<not> P (field_at E a j)) \<and>
        iter_search E P st k (iter_at E a d i) = Ret (False, iter_at E a d st))"
proof (induction k arbitrary: i)
  case 0
  with assms have False by (auto simp: ring_dist_def split: if_splits)
  then show ?case ..
next
  case (Suc k)
  let ?n = "n_fields E a" and ?R = "\<lambda>i. ring_between (n_fields E a) st i"
  have here: "iter_pos E (iter_at E a d i) = field_at E a i"
    using Suc.prems(1) by (rule iter_pos_iter_at)
  have nxt: "snd (pb_field_iter_next E (iter_at E a d i)) = iter_at E a d (ring_next ?n i)"
    using next_iter_at [OF Suc.prems(1), of d] by (simp add: ring_next_def)
  have nxt_pos: "pos (iter_at E a d (ring_next ?n i)) = ring_next ?n i"
    using Suc.prems(1) by (auto simp: pos_iter_at ring_next_def)
  have i_in: "i \<in> ?R i" using Suc.prems(1) by (auto simp: ring_between_def)
  show ?case
  proof (cases "P (field_at E a i)")
    case True
    then have "iter_search E P st (Suc k) (iter_at E a d i) = Ret (True, iter_at E a d i)"
      by (simp only: iter_search.simps here if_True)
    with True i_in show ?thesis by blast
  next
    case notP: False
    show ?thesis
    proof (cases "ring_next ?n i = st")
      case True
      then have R: "?R i = {i}"
        using Suc.prems(1) assms by (rule ring_between_last)
      have "iter_search E P st (Suc k) (iter_at E a d i) = Ret (False, iter_at E a d st)"
        using notP here nxt nxt_pos True by simp
      with R notP show ?thesis by (simp only: ball_simps simp_thms)
    next
      case False
      have R: "?R i = insert i (?R (ring_next ?n i))"
        using False Suc.prems(1) assms by (rule ring_between_step)
      have "ring_next ?n i < ?n" using Suc.prems(1) by (auto simp: ring_next_def)
      moreover have "ring_dist ?n st (ring_next ?n i) \<le> k"
        using ring_dist_next [OF Suc.prems(1) assms False] Suc.prems(2) by linarith
      ultimately have IH: "(\<exists>j \<in> ?R (ring_next ?n i). P (field_at E a j) \<and>
          iter_search E P st k (iter_at E a d (ring_next ?n i)) = Ret (True, iter_at E a d j)) \<or>
        ((\<forall>j \<in> ?R (ring_next ?n i). \<not> P (field_at E a j)) \<and>
          iter_search E P st k (iter_at E a d (ring_next ?n i)) = Ret (False, iter_at E a d st))"
        by (rule Suc.IH)
      have "iter_search E P st (Suc k) (iter_at E a d i) =
          iter_search E P st k (iter_at E a d (ring_next ?n i))"
        using notP here nxt nxt_pos False by simp
      then show ?thesis
        using IH notP unfolding R by (simp only: bex_simps ball_simps simp_thms)
    qed
  qed
qed

lemma ring_between_self: "i < n \<Longrightarrow> ring_between n i i = {..<n}"
  by (auto simp: ring_between_def)

text \<open>
  From a valid position a search visits all fields: it finds a matching field when there
  is one and otherwise comes back to where it started.
\<close>

lemma iter_search_total:
  assumes "i < n_fields E a"
  shows "(\<exists>j < n_fields E a. P (field_at E a j) \<and>
        iter_search E P i (Suc (length (ftab E a))) (iter_at E a d i) = Ret (True, iter_at E a d j)) \<or>
    ((\<forall>j < n_fields E a. \<not> P (field_at E a j)) \<and>
        iter_search E P i (Suc (length (ftab E a))) (iter_at E a d i) = Ret (False, iter_at E a d i))"
proof -
  have "ring_dist (n_fields E a) i i \<le> Suc (length (ftab E a))"
    using assms n_fields_le [of E a] by (simp add: ring_dist_def)
  from iter_search_ring [OF assms assms this, of P d] show ?thesis
    by (auto simp: ring_between_self [OF assms])
qed

text \<open>In an empty message the iterator stays on the terminator.\<close>

lemma iter_search_empty:
  assumes "n_fields E a = 0" and "\<not> P (field_at E a 0)"
  shows "iter_search E P 0 (Suc k) (iter_at E a d 0) = Ret (False, iter_at E a d 0)"
proof -
  have "tag (iter_pos E (iter_at E a d 0)) = 0"
    using tag_at_end [of E a] assms(1) by (simp add: iter_pos_def)
  then show ?thesis
    using assms(2) by (simp add: iter_pos_def pb_field_iter_next_def Let_def)
qed

end
