(* ===== verification/Pb_Ostream.thy ===== *)
theory Pb_Ostream
  imports Pb_Common
begin

text \<open>
  Output streams and the primitive encoders of \<open>nanopb/pb_encode.c\<close>: \<open>pb_write\<close>, varints,
  zig-zag and fixed-width integers, tags and strings. The contract a stream callback has to
  meet is the locale \<open>conforming_ostream\<close>; the library's memory stream meets it.
\<close>

type_synonym ores = "(bool \<times> pb_ostream_t \<times> heap) outcome"
type_synonym oenc = "pb_ostream_t \<Rightarrow> heap \<Rightarrow> ores"

section \<open>Output streams\<close>

definition wbuf_bytes :: "heap \<Rightarrow> wbuf \<Rightarrow> nat \<Rightarrow> byte list outcome" where
  "wbuf_bytes h buf n =
     (case buf of
        WNull \<Rightarrow> (if n = 0 then Ret [] else UB)
      | WLocal bs \<Rightarrow> (if n \<le> length bs then Ret (take n bs) else UB)
      | WMem p \<Rightarrow> Ret (load_bytes (mem h) p n))"

definition buf_write :: "pb_ostream_t \<Rightarrow> wbuf \<Rightarrow> u64 \<Rightarrow> heap \<Rightarrow> ores" where
  "buf_write s buf count h =
     bindO (wbuf_bytes h buf (unat count)) (\<lambda>bs.
       if o_state s + unat count \<le> length (out h)
       then Ret (True, s\<lparr>o_state := o_state s + unat count\<rparr>, h\<lparr>out := overwrite (out h) (o_state s) bs\<rparr>)
       else UB)"

definition pb_ostream_from_buffer :: "nat \<Rightarrow> u64 \<Rightarrow> pb_ostream_t" where
  "pb_ostream_from_buffer buf bufsize =
     \<lparr>o_callback = Buf_write, o_state = buf, max_size = bufsize, bytes_written = 0, o_errmsg = None\<rparr>"

definition PB_OSTREAM_SIZING :: pb_ostream_t where
  "PB_OSTREAM_SIZING =
     \<lparr>o_callback = No_write, o_state = 0, max_size = 0, bytes_written = 0, o_errmsg = None\<rparr>"

text \<open>The call \<open>stream->callback(stream, buf, count)\<close>.\<close>

definition call_write :: "env \<Rightarrow> pb_ostream_t \<Rightarrow> wbuf \<Rightarrow> u64 \<Rightarrow> heap \<Rightarrow> ores" where
  "call_write E s buf count h =
     (case o_callback s of
        No_write \<Rightarrow> UB
      | Buf_write \<Rightarrow> buf_write s buf count h
      | User_write k \<Rightarrow> user_write E k s buf count h)"

definition pb_write :: "env \<Rightarrow> wbuf \<Rightarrow> u64 \<Rightarrow> oenc" where
  "pb_write E buf count s h =
     (if o_callback s \<noteq> No_write then
        (if bytes_written s + count > max_size s then PB_RETURN_ERROR s ''stream full'' h
         else
           bindO (call_write E s buf count h) (\<lambda>(ok, s, h).
             if \<not> ok then PB_RETURN_ERROR s ''io error'' h
             else Ret (True, s\<lparr>bytes_written := bytes_written s + count\<rparr>, h)))
      else Ret (True, s\<lparr>bytes_written := bytes_written s + count\<rparr>, h))"

section \<open>Varints and fixed-width integers\<close>

text \<open>
  \<open>while (value) { buffer[i] = (value & 0x7F) | 0x80; value >>= 7; i++; }\<close>, with the
  contents of \<open>buffer\<close> so far as a list.
\<close>

function varint_loop :: "u64 \<Rightarrow> byte list \<Rightarrow> byte list" where
  "varint_loop value buffer =
     (if value = 0 then buffer
      else varint_loop (drop_bit 7 value) (buffer @ [ucast (value AND 0x7F) OR 0x80]))"
  by pat_completeness auto
termination
proof (relation "measure (\<lambda>(v, _). unat v)", simp, clarsimp)
  fix v :: u64 assume "v \<noteq> 0"
  then have "0 < unat v" by (simp add: unat_gt_0)
  then show "unat (drop_bit 7 v) < unat v"
    by (simp add: unat_drop_bit_eq drop_bit_eq_div unat_div)
qed

declare varint_loop.simps [simp del]

text \<open>\<open>buffer[10]\<close> overflowing would be undefined; the last byte loses its top bit.\<close>

definition pb_encode_varint :: "env \<Rightarrow> u64 \<Rightarrow> oenc" where
  "pb_encode_varint E value s h =
     (if value \<le> 0x7F then pb_write E (WLocal [ucast value]) 1 s h
      else
        let buffer = varint_loop value []; i = length buffer in
        if i > 10 then UB
        else
          let buffer = buffer[i - 1 := buffer ! (i - 1) AND 0x7F]
          in pb_write E (WLocal buffer) (of_nat i) s h)"

definition zigzag_encode :: "u64 \<Rightarrow> u64" where
  "zigzag_encode value = (if sint value < 0 then NOT (push_bit 1 value) else push_bit 1 value)"

definition pb_encode_svarint :: "env \<Rightarrow> u64 \<Rightarrow> oenc" where
  "pb_encode_svarint E value s h = pb_encode_varint E (zigzag_encode value) s h"

definition pb_encode_fixed32 :: "env \<Rightarrow> addr \<Rightarrow> oenc" where
  "pb_encode_fixed32 E value s h =
     (let val = load32 (mem h) value;
          bytes = [ucast (val AND 0xFF),
                   ucast (drop_bit 8 val AND 0xFF),
                   ucast (drop_bit 16 val AND 0xFF),
                   ucast (drop_bit 24 val AND 0xFF)]
      in pb_write E (WLocal bytes) 4 s h)"

definition pb_encode_fixed64 :: "env \<Rightarrow> addr \<Rightarrow> oenc" where
  "pb_encode_fixed64 E value s h =
     (let val = load64 (mem h) value;
          bytes = [ucast (val AND 0xFF),
                   ucast (drop_bit 8 val AND 0xFF),
                   ucast (drop_bit 16 val AND 0xFF),
                   ucast (drop_bit 24 val AND 0xFF),
                   ucast (drop_bit 32 val AND 0xFF),
                   ucast (drop_bit 40 val AND 0xFF),
                   ucast (drop_bit 48 val AND 0xFF),
                   ucast (drop_bit 56 val AND 0xFF)]
      in pb_write E (WLocal bytes) 8 s h)"

section \<open>Tags and strings\<close>

definition pb_encode_tag :: "env \<Rightarrow> pb_wire_type_t \<Rightarrow> u32 \<Rightarrow> oenc" where
  "pb_encode_tag E wiretype field_number s h =
     pb_encode_varint E (push_bit 3 (ucast field_number) OR ucast wiretype) s h"

text \<open>The switch of \<open>pb_encode_tag_for_field\<close>.\<close>

definition wire_type_of :: "byte \<Rightarrow> pb_wire_type_t option" where
  "wire_type_of lt =
     (if lt = PB_LTYPE_VARINT \<or> lt = PB_LTYPE_UVARINT \<or> lt = PB_LTYPE_SVARINT then Some PB_WT_VARINT
      else if lt = PB_LTYPE_FIXED32 then Some PB_WT_32BIT
      else if lt = PB_LTYPE_FIXED64 then Some PB_WT_64BIT
      else if lt = PB_LTYPE_BYTES \<or> lt = PB_LTYPE_STRING \<or> lt = PB_LTYPE_SUBMESSAGE
              \<or> lt = PB_LTYPE_FIXED_LENGTH_BYTES then Some PB_WT_STRING
      else None)"

definition pb_encode_tag_for_field :: "env \<Rightarrow> pb_field_t \<Rightarrow> oenc" where
  "pb_encode_tag_for_field E field s h =
     (case wire_type_of (PB_LTYPE (type field)) of
        None \<Rightarrow> PB_RETURN_ERROR s ''invalid field type'' h
      | Some wiretype \<Rightarrow> pb_encode_tag E wiretype (tag field) s h)"

definition pb_encode_string :: "env \<Rightarrow> wbuf \<Rightarrow> u64 \<Rightarrow> oenc" where
  "pb_encode_string E buffer sz s h =
     thenO (pb_encode_varint E sz s h) (pb_write E buffer sz)"

end
