(* ===== verification/Varint.thy ===== *)
theory Varint
  imports Memory
begin

text \<open>
  Base-128 variable-length integers, the format the protocol buffers runtime and the
  storage engine share: the reference definition on natural numbers, and the bit lemmas for
  loops that write or accumulate seven bits at a time.
\<close>

section \<open>Varints\<close>

fun varint :: "nat \<Rightarrow> byte list" where
  "varint n = (if n < 128 then [of_nat n] else of_nat (n mod 128 + 128) # varint (n div 128))"

declare varint.simps [simp del]

lemma varint_small: "n < 128 \<Longrightarrow> varint n = [of_nat n]"
  by (subst varint.simps) simp

lemma varint_big: "128 \<le> n \<Longrightarrow> varint n = of_nat (n mod 128 + 128) # varint (n div 128)"
  by (subst varint.simps) simp

lemma varint_nonempty [simp]: "varint n \<noteq> []"
  by (subst varint.simps) simp

lemma length_varint: "n < 128 ^ k \<Longrightarrow> 0 < k \<Longrightarrow> length (varint n) \<le> k"
proof (induction n arbitrary: k rule: varint.induct)
  case (1 n)
  show ?case
  proof (cases "n < 128")
    case True
    with 1 show ?thesis by (simp add: varint_small)
  next
    case False
    then obtain k' where k: "k = Suc k'" "0 < k'"
      using "1.prems" by (cases k; cases "k - 1") auto
    with False "1.prems" have "n div 128 < 128 ^ k'"
      by (simp add: less_mult_imp_div_less mult.commute)
    with 1 False k show ?thesis by (simp add: varint_big)
  qed
qed

section \<open>Bytes of a varint\<close>

lemma set_top_bit: "k < 128 \<Longrightarrow> (of_nat k OR 0x80 :: byte) = of_nat (k + 128)"
proof -
  assume k: "k < 128"
  have "(of_nat k :: byte) AND 0x80 = 0"
  proof (rule bit_eqI)
    fix i
    have "bit (0x80 :: byte) i \<longleftrightarrow> i = 7"
      using bit_exp_iff [of 7 i, where 'a = byte] by (auto simp: bit_exp_iff)
    moreover have "\<not> bit (of_nat k :: byte) 7"
      using k by (simp only: bit_of_nat_iff) (simp add: bit_iff_odd)
    ultimately show "bit ((of_nat k :: byte) AND 0x80) i = bit (0 :: byte) i"
      by (auto simp: bit_and_iff)
  qed
  then show ?thesis by (simp add: disjunctive_add_eq_or)
qed

lemma clear_top_bit: "k < 128 \<Longrightarrow> (of_nat (k + 128) AND 0x7F :: byte) = of_nat k"
proof -
  assume k: "k < 128"
  have "of_nat (k + 128) AND (0x7F :: byte) = take_bit 7 (of_nat (k + 128))"
    by (simp add: take_bit_eq_mask mask_eq_exp_minus_1)
  also have "\<dots> = of_nat (take_bit 7 (k + 128))"
    by (simp only: take_bit_of_nat)
  also have "take_bit 7 (k + 128) = k"
    using k by (simp add: take_bit_eq_mod)
  finally show ?thesis .
qed

lemma low7_cont: "m < 128 \<Longrightarrow> (ucast (of_nat (m + 128) AND 0x7F :: byte) :: 'n::len word) = of_nat m"
proof -
  assume m: "m < 128"
  have "(ucast (of_nat m :: byte) :: 'n word) = of_nat (unat (of_nat m :: byte))" by (rule of_nat_unat [symmetric])
  with m show ?thesis by (simp add: clear_top_bit del: of_nat_add)
qed

lemma low7_last: "m < 128 \<Longrightarrow> (of_nat m AND 0x7F :: byte) = of_nat m"
proof -
  assume m: "m < 128"
  have "of_nat m AND (0x7F :: byte) = take_bit 7 (of_nat m)"
    by (simp add: take_bit_eq_mask mask_eq_exp_minus_1)
  also have "\<dots> = of_nat (take_bit 7 m)" by (simp only: take_bit_of_nat)
  finally show ?thesis using m by (simp add: take_bit_eq_mod)
qed

lemma ucast_byte_of_nat: "m < 256 \<Longrightarrow> (ucast (of_nat m :: byte) :: 'n::len word) = of_nat m"
  using of_nat_unat [of "of_nat m :: byte", where 'a = "'n word"] by simp

lemma bit_0x80: "bit (0x80 :: byte) i \<longleftrightarrow> i = 7"
  using bit_exp_iff [of 7 i, where 'a = byte] by auto

lemma top_bit_last: "m < 128 \<Longrightarrow> (of_nat m AND 0x80 :: byte) = 0"
proof (rule bit_eqI)
  fix i assume m: "m < 128"
  then have "\<not> bit (of_nat m :: byte) 7" by (simp only: bit_of_nat_iff) (simp add: bit_iff_odd)
  then show "bit (of_nat m AND 0x80 :: byte) i = bit (0 :: byte) i"
    using bit_0x80 [of i] by (auto simp: bit_and_iff)
qed

lemma top_bit_cont: "m < 128 \<Longrightarrow> (of_nat (m + 128) AND 0x80 :: byte) \<noteq> 0"
proof
  assume m: "m < 128" and z: "(of_nat (m + 128) AND 0x80 :: byte) = 0"
  have "of_nat (m + 128) = (of_nat m OR 0x80 :: byte)" using set_top_bit [OF m] by simp
  then have "bit (of_nat (m + 128) AND 0x80 :: byte) 7" by (simp add: bit_and_iff bit_or_iff bit_0x80)
  with z show False by simp
qed

lemma low_and_push:
  fixes r x :: "'n::len word"
  assumes "unat r < 2 ^ k"
  shows "r AND push_bit k x = 0"
proof -
  have "unat (take_bit k r) = unat r"
    using assms by (simp add: unsigned_take_bit_eq take_bit_nat_eq_self)
  then have "take_bit k r = r" by (rule unsigned_word_eqI)
  then have high: "\<not> bit r i" if "k \<le> i" for i
    using that bit_take_bit_iff [of k r i] by simp
  show ?thesis
  proof (rule bit_eqI)
    fix i show "bit (r AND push_bit k x) i = bit 0 i"
      using high [of i] by (cases "k \<le> i") (simp_all add: bit_and_iff bit_push_bit_iff)
  qed
qed

lemma or_push: "unat r < 2 ^ k \<Longrightarrow> r OR push_bit k x = r + push_bit k x" for r x :: "'n::len word"
  by (rule disjunctive_add_eq_or [symmetric]) (rule low_and_push)

lemma low4: "n < 16 \<Longrightarrow> (of_nat n AND 0x70 :: byte) = 0"
  using low_and_push [of "of_nat n :: byte" 4 7] by (simp add: push_bit_eq_mult)

text \<open>One step of accumulating a varint: seven more bits above position \<open>k\<close>.\<close>

lemma accumulate:
  fixes r :: "'n::len word"
  assumes r: "unat r < 2 ^ k" and k: "k \<le> LENGTH('n)" and n: "n * 2 ^ k < 2 ^ LENGTH('n)" and m: "m \<le> n"
  shows "r OR push_bit k (of_nat m) = r + of_nat (m * 2 ^ k)"
    and "unat (r + of_nat (m * 2 ^ k)) = unat r + m * 2 ^ k"
proof -
  show "r OR push_bit k (of_nat m) = r + of_nat (m * 2 ^ k)"
    unfolding or_push [OF r] by (simp add: push_bit_eq_mult)
  have mk: "m * 2 ^ k < 2 ^ LENGTH('n)" using n m by (meson le_less_trans mult_le_mono1)
  obtain d where "LENGTH('n) = k + d" using k by (auto simp: le_iff_add)
  then have L: "(2::nat) ^ LENGTH('n) = 2 ^ d * 2 ^ k" by (simp add: power_add mult.commute)
  with mk have "m < 2 ^ d" by simp
  then have "(m + 1) * 2 ^ k \<le> 2 ^ d * 2 ^ k" by (intro mult_le_mono1) simp
  with r L have "unat r + m * 2 ^ k < 2 ^ LENGTH('n)" by simp
  then show "unat (r + of_nat (m * 2 ^ k)) = unat r + m * 2 ^ k"
    using mk by (subst unat_plus_if_small) (simp_all del: of_nat_mult of_nat_power)
qed

text \<open>A continuation byte at position \<open>k\<close> leaves room for the next seven bits.\<close>

lemma cont_room: "128 \<le> n \<Longrightarrow> n * 2 ^ k < 2 ^ L \<Longrightarrow> k + 7 < L" for n k L :: nat
proof -
  assume "128 \<le> n" "n * 2 ^ k < 2 ^ L"
  then have "(128 :: nat) * 2 ^ k < 2 ^ L" by (meson le_less_trans mult_le_mono1)
  then have "(2 :: nat) ^ (k + 7) < 2 ^ L" by (simp add: power_add)
  then show "k + 7 < L" by (rule power_less_imp_less_exp [rotated]) simp
qed

lemma of_nat_7: "of_nat k + (7 :: byte) = of_nat (k + 7)"
  by simp

lemma accumulate_bound:
  "unat r < 2 ^ k \<Longrightarrow> unat r + n mod 128 * 2 ^ k < 2 ^ (k + 7)" for r :: "'n::len word"
proof -
  assume r: "unat r < 2 ^ k"
  have "n mod 128 * 2 ^ k \<le> 127 * (2 ^ k :: nat)" by (intro mult_le_mono1) simp
  with r have "unat r + n mod 128 * 2 ^ k < 128 * 2 ^ k" by linarith
  then show ?thesis by (simp add: power_add mult.commute)
qed

lemma split_128: "n div 128 * 2 ^ (k + 7) + n mod 128 * 2 ^ k = n * 2 ^ k" for n k :: nat
  by (simp add: power_add algebra_simps flip: add_mult_distrib2)

end
