(* ===== verification/Wire.thy ===== *)
theory Wire
  imports Pb_Ostream Varint
begin

text \<open>
  The wire format as mathematics: base-128 varints of natural numbers, zig-zag of
  integers, and the fact that the primitive encoders of \<open>pb_encode.c\<close> compute them.
\<close>

section \<open>Zig-zag\<close>

definition zigzag :: "int \<Rightarrow> nat" where
  "zigzag i = nat (if i < 0 then - 2 * i - 1 else 2 * i)"

section \<open>The varint loop\<close>

lemma low7_byte: "(ucast (v AND 0x7F) :: byte) = of_nat (unat v mod 128)" for v :: u64
proof -
  have "v AND 0x7F = take_bit 7 v"
    by (simp add: take_bit_eq_mask mask_eq_exp_minus_1)
  then have "unat (v AND 0x7F) = unat v mod 128"
    by (simp add: take_bit_eq_mod unat_mod)
  then show ?thesis
    by (metis of_nat_unat of_nat_unat)
qed

lemma varint_loop_append: "varint_loop v (xs @ acc) = xs @ varint_loop v acc"
proof (induction v acc rule: varint_loop.induct)
  case (1 v acc)
  then show ?case
    by (simp add: varint_loop.simps [of v "xs @ acc"] varint_loop.simps [of v acc])
qed

lemma varint_loop_unfold:
  "v \<noteq> 0 \<Longrightarrow> varint_loop v [] = of_nat (unat v mod 128 + 128) # varint_loop (drop_bit 7 v) []"
  using varint_loop_append [of "drop_bit 7 v" "[ucast (v AND 0x7F) OR 0x80]" "[]"]
  by (simp add: varint_loop.simps [of v] low7_byte set_top_bit del: of_nat_add)

definition clear_last :: "byte list \<Rightarrow> byte list" where
  "clear_last bs = bs[length bs - 1 := bs ! (length bs - 1) AND 0x7F]"

lemma clear_last_Cons: "bs \<noteq> [] \<Longrightarrow> clear_last (b # bs) = b # clear_last bs"
  by (cases bs) (simp_all add: clear_last_def)

lemma varint_loop_nonempty: "v \<noteq> 0 \<Longrightarrow> varint_loop v [] \<noteq> []"
  by (simp add: varint_loop_unfold)

lemma unat_drop_bit_7: "unat (drop_bit 7 v) = unat v div 128" for v :: u64
  by (simp add: unat_drop_bit_eq drop_bit_eq_div unat_div)

text \<open>The loop of \<open>pb_encode_varint\<close>, with the last byte fixed up, is the base-128 form.\<close>

lemma clear_last_varint_loop: "v \<noteq> 0 \<Longrightarrow> clear_last (varint_loop v []) = varint (unat v)"
proof (induction "unat v" arbitrary: v rule: less_induct)
  case less
  let ?w = "drop_bit 7 v"
  let ?b = "of_nat (unat v mod 128 + 128) :: byte"
  have loop: "varint_loop v [] = ?b # varint_loop ?w []"
    using less.prems by (rule varint_loop_unfold)
  show ?case
  proof (cases "?w = 0")
    case True
    then have "unat v div 128 = 0" by (metis unat_0 unat_drop_bit_7)
    then have small: "unat v < 128" by (simp add: div_eq_0_iff)
    have "clear_last [?b] = [?b AND 0x7F]" by (simp add: clear_last_def)
    also have "?b AND 0x7F = of_nat (unat v)"
      using clear_top_bit [of "unat v"] small by simp
    finally show ?thesis
      using loop True small by (simp add: varint_small varint_loop.simps [of 0])
  next
    case False
    have "unat ?w < unat v"
      using less.prems by (simp add: unat_drop_bit_7 unat_gt_0)
    from less.hyps [OF this False] have "clear_last (varint_loop ?w []) = varint (unat v div 128)"
      by (simp add: unat_drop_bit_7)
    moreover have "128 \<le> unat v"
    proof (rule ccontr)
      assume "\<not> 128 \<le> unat v"
      then have "unat ?w = 0" by (simp add: unat_drop_bit_7)
      with False show False by (simp add: unat_eq_0)
    qed
    ultimately show ?thesis
      using loop False varint_loop_nonempty [OF False] by (simp add: clear_last_Cons varint_big)
  qed
qed

lemma length_clear_last [simp]: "length (clear_last bs) = length bs"
  by (simp add: clear_last_def)

lemma length_varint_u64: "length (varint (unat v)) \<le> 10" for v :: u64
proof (rule length_varint)
  have "unat v < 2 ^ 64" using unsigned_less [of v, where 'a = nat] by simp
  also have "(2::nat) ^ 64 \<le> 128 ^ 10" by simp
  finally show "unat v < 128 ^ 10" .
qed simp

text \<open>
  \<open>pb_encode_varint\<close> writes exactly the varint of its argument, in one write; its ten-byte
  buffer never overflows.
\<close>

lemma pb_encode_varint_eq:
  "pb_encode_varint E v s h =
     pb_write E (WLocal (varint (unat v))) (of_nat (length (varint (unat v)))) s h"
proof (cases "v \<le> 0x7F")
  case True
  then have small: "unat v < 128" by (simp add: word_le_nat_alt)
  then have "varint (unat v) = [ucast v]"
    by (simp add: varint_small of_nat_unat)
  with True show ?thesis by (simp add: pb_encode_varint_def)
next
  case False
  then have "v \<noteq> 0" by auto
  let ?b = "varint_loop v []"
  have eq: "?b[length ?b - 1 := ?b ! (length ?b - 1) AND 0x7F] = varint (unat v)"
    using clear_last_varint_loop [OF \<open>v \<noteq> 0\<close>] by (simp only: clear_last_def)
  have len: "length ?b = length (varint (unat v))"
    by (simp flip: eq)
  show ?thesis
    unfolding pb_encode_varint_def Let_def eq
    using False length_varint_u64 [of v] by (simp add: len)
qed

section \<open>Zig-zag\<close>

lemma unat_zigzag_encode: "unat (zigzag_encode v) = zigzag (sint v)"
proof (cases "sint v < 0")
  case True
  have "uint (zigzag_encode v) = - 2 * sint v - 1"
  proof -
    have "zigzag_encode v = word_of_int (- 2 * sint v - 1)"
      using True
      by (simp add: zigzag_encode_def not_eq_complement push_bit_eq_mult flip: wi_hom_syms)
    moreover have "0 \<le> - 2 * sint v - 1" "- 2 * sint v - 1 < 2 ^ 64"
      using True sint_ge [of v] by simp_all
    ultimately show ?thesis
      by (simp only: uint_word_of_int_eq) (simp add: take_bit_int_eq_self)
  qed
  with True show ?thesis by (simp add: zigzag_def unat_eq_nat_uint)
next
  case False
  have "uint (zigzag_encode v) = 2 * sint v"
  proof -
    have "zigzag_encode v = word_of_int (2 * sint v)"
      using False by (simp add: zigzag_encode_def push_bit_eq_mult flip: wi_hom_syms)
    moreover have "0 \<le> 2 * sint v" "2 * sint v < 2 ^ 64"
      using False sint_less [of v] by simp_all
    ultimately show ?thesis
      by (simp only: uint_word_of_int_eq) (simp add: take_bit_int_eq_self)
  qed
  with False show ?thesis by (simp add: zigzag_def unat_eq_nat_uint)
qed

end
