(* ===== verification/Emit.thy ===== *)
theory Emit
  imports Wire
begin

text \<open>
  What the encoder relies on in an output stream. The rules that \<open>pb_encode.h\<close> gives for a
  stream callback are the laws of the locale \<open>conforming_ostream\<close>: the callback takes the
  bytes it is given, keeps its position in \<open>state\<close> only (not in \<open>max_size\<close> or
  \<open>bytes_written\<close>, which substreams change) and leaves the message memory alone. Under
  these laws \<open>emits m f ok bs\<close> says what an encoder does on every stream, sizing streams
  included: it writes \<open>bs\<close> and returns true when \<open>ok\<close> and the bytes fit, and otherwise
  returns false having written no more than fits.
\<close>

locale conforming_ostream =
  fixes E :: env
    and cb :: ocallback
    and accepts :: "nat \<Rightarrow> heap \<Rightarrow> nat \<Rightarrow> bool"
    and adv :: "nat \<Rightarrow> byte list \<Rightarrow> nat"
    and sto :: "nat \<Rightarrow> byte list \<Rightarrow> heap \<Rightarrow> heap"
  assumes cb_not_null: "cb \<noteq> No_write"
    and write_law: "o_callback s = cb \<Longrightarrow> accepts (o_state s) h (length bs) \<Longrightarrow> length bs < 2 ^ 64 \<Longrightarrow>
      wbuf_bytes h buf (length bs) = Ret bs \<Longrightarrow>
      call_write E s buf (of_nat (length bs)) h =
        Ret (True, s\<lparr>o_state := adv (o_state s) bs\<rparr>, sto (o_state s) bs h)"
    and accepts_less: "accepts st h b \<Longrightarrow> a \<le> b \<Longrightarrow> accepts st h a"
    and accepts_after: "accepts st h (length bs + k) \<Longrightarrow> accepts (adv st bs) (sto st bs h) k"
    and adv_append: "adv (adv st xs) ys = adv st (xs @ ys)"
    and sto_append: "accepts st h (length xs + length ys) \<Longrightarrow>
      sto (adv st xs) ys (sto st xs h) = sto st (xs @ ys) h"
    and adv_Nil: "adv st [] = st"
    and sto_Nil: "sto st [] h = h"
    and mem_sto: "mem (sto st bs h) = mem h"
begin

definition fits :: "byte list \<Rightarrow> pb_ostream_t \<Rightarrow> bool" where
  "fits bs s \<longleftrightarrow> o_callback s = No_write \<or> unat (bytes_written s) + length bs \<le> unat (max_size s)"

definition ready :: "pb_ostream_t \<Rightarrow> heap \<Rightarrow> bool" where
  "ready s h \<longleftrightarrow> o_errmsg s = None \<and>
     (o_callback s = No_write \<or>
      o_callback s = cb \<and> bytes_written s \<le> max_size s \<and>
      accepts (o_state s) h (unat (max_size s) - unat (bytes_written s)))"

definition put_s :: "byte list \<Rightarrow> pb_ostream_t \<Rightarrow> pb_ostream_t" where
  "put_s bs s = s\<lparr>bytes_written := bytes_written s + of_nat (length bs),
                 o_state := (if o_callback s = No_write then o_state s else adv (o_state s) bs)\<rparr>"

definition put_h :: "byte list \<Rightarrow> pb_ostream_t \<Rightarrow> heap \<Rightarrow> heap" where
  "put_h bs s h = (if o_callback s = No_write then h else sto (o_state s) bs h)"

definition emits :: "memory \<Rightarrow> oenc \<Rightarrow> bool \<Rightarrow> byte list \<Rightarrow> bool" where
  "emits m f ok bs \<longleftrightarrow>
     (\<forall>s h. mem h = m \<and> ready s h \<and> unat (bytes_written s) + length bs < 2 ^ 64 \<longrightarrow>
       (if ok \<and> fits bs s then f s h = Ret (True, put_s bs s, put_h bs s h)
        else \<exists>s' bs'. f s h = Ret (False, s', put_h bs' s h) \<and> (ok \<longrightarrow> (\<exists>zs. bs = bs' @ zs)) \<and>
               length bs' \<le> length bs \<and> fits bs' s))"

lemma put_simps [simp]:
  "o_callback (put_s bs s) = o_callback s" "max_size (put_s bs s) = max_size s"
  "o_errmsg (put_s bs s) = o_errmsg s"
  "bytes_written (put_s bs s) = bytes_written s + of_nat (length bs)"
  "mem (put_h bs s h) = mem h"
  "put_s [] s = s" "put_h [] s h = h"
  by (simp_all add: put_s_def put_h_def mem_sto adv_Nil sto_Nil)

lemma fits_Nil: "ready s h \<Longrightarrow> fits [] s"
  by (auto simp: ready_def fits_def word_le_nat_alt)

lemma unat_written:
  "unat (bytes_written s) + length bs < 2 ^ 64 \<Longrightarrow>
     unat (bytes_written s + of_nat (length bs)) = unat (bytes_written s) + length bs"
  by (subst unat_plus_if_small) simp_all

lemma fits_append:
  "unat (bytes_written s) + length xs < 2 ^ 64 \<Longrightarrow>
     fits ys (put_s xs s) \<longleftrightarrow> fits (xs @ ys) s"
  by (simp add: fits_def unat_written add.assoc)

lemma accepts_room: "ready s h \<Longrightarrow> fits bs s \<Longrightarrow> o_callback s \<noteq> No_write \<Longrightarrow> accepts (o_state s) h (length bs)"
  unfolding ready_def fits_def by (auto intro: accepts_less)

lemma ready_put:
  "ready s h \<Longrightarrow> fits bs s \<Longrightarrow> unat (bytes_written s) + length bs < 2 ^ 64 \<Longrightarrow>
     ready (put_s bs s) (put_h bs s h)"
proof (cases "o_callback s = No_write")
  case False
  assume r: "ready s h" "fits bs s" and b: "unat (bytes_written s) + length bs < 2 ^ 64"
  have "accepts (o_state s) h (length bs + (unat (max_size s) - (unat (bytes_written s) + length bs)))"
    using r False unfolding ready_def fits_def by (auto intro: accepts_less)
  then show ?thesis
    using r False b accepts_after
    by (auto simp: ready_def fits_def put_s_def put_h_def unat_written word_le_nat_alt)
qed (simp add: ready_def put_s_def)

lemma put_put:
  assumes "ready s h" "fits (xs @ ys) s"
  shows "put_s ys (put_s xs s) = put_s (xs @ ys) s"
    and "put_h ys (put_s xs s) (put_h xs s h) = put_h (xs @ ys) s h"
  using accepts_room [OF assms]
  by (auto simp: put_s_def put_h_def adv_append sto_append add.assoc)

lemma emitsI_ok:
  "(\<And>s h. mem h = m \<Longrightarrow> ready s h \<Longrightarrow> unat (bytes_written s) + length bs < 2 ^ 64 \<Longrightarrow>
      (fits bs s \<longrightarrow> f s h = Ret (True, put_s bs s, put_h bs s h)) \<and>
      (\<not> fits bs s \<longrightarrow> (\<exists>s' bs'. f s h = Ret (False, s', put_h bs' s h) \<and> (\<exists>zs. bs = bs' @ zs) \<and> fits bs' s))) \<Longrightarrow>
   emits m f True bs"
  unfolding emits_def by fastforce

lemma emitsD_ok:
  "emits m f True bs \<Longrightarrow> mem h = m \<Longrightarrow> ready s h \<Longrightarrow> unat (bytes_written s) + length bs < 2 ^ 64 \<Longrightarrow>
     fits bs s \<Longrightarrow> f s h = Ret (True, put_s bs s, put_h bs s h)"
  unfolding emits_def by auto

lemma emitsD_fail:
  "emits m f ok bs \<Longrightarrow> mem h = m \<Longrightarrow> ready s h \<Longrightarrow> unat (bytes_written s) + length bs < 2 ^ 64 \<Longrightarrow>
     \<not> (ok \<and> fits bs s) \<Longrightarrow>
     \<exists>s' bs'. f s h = Ret (False, s', put_h bs' s h) \<and> (ok \<longrightarrow> (\<exists>zs. bs = bs' @ zs)) \<and>
       length bs' \<le> length bs \<and> fits bs' s"
  unfolding emits_def by auto

lemma emits_cong: "(\<And>s h. mem h = m \<Longrightarrow> f s h = g s h) \<Longrightarrow> emits m f ok bs = emits m g ok bs"
  unfolding emits_def by (intro iff_allI imp_cong refl) auto

lemma emits_eqI: "emits m g ok bs \<Longrightarrow> (\<And>s h. mem h = m \<Longrightarrow> f s h = g s h) \<Longrightarrow> emits m f ok bs"
  by (subst emits_cong [where g = g]) auto

lemma emits_Ret [emit_intros]: "emits m (\<lambda>s h. Ret (True, s, h)) True []"
  by (rule emitsI_ok) (auto dest: fits_Nil)

lemma emits_error [emit_intros]: "emits m (\<lambda>s h. PB_RETURN_ERROR s msg h) False []"
  unfolding emits_def PB_RETURN_ERROR_def by (auto intro!: exI [of _ "[]"] dest: fits_Nil)

lemma emits_write:
  assumes "\<And>h. mem h = m \<Longrightarrow> wbuf_bytes h buf (length bs) = Ret bs"
  shows "emits m (pb_write E buf (of_nat (length bs))) True bs"
proof (rule emitsI_ok)
  fix s h
  assume m: "mem h = m" and r: "ready s h" and b: "unat (bytes_written s) + length bs < 2 ^ 64"
  show "(fits bs s \<longrightarrow> pb_write E buf (of_nat (length bs)) s h = Ret (True, put_s bs s, put_h bs s h)) \<and>
      (\<not> fits bs s \<longrightarrow> (\<exists>s' bs'. pb_write E buf (of_nat (length bs)) s h = Ret (False, s', put_h bs' s h) \<and>
         (\<exists>zs. bs = bs' @ zs) \<and> fits bs' s))"
  proof (cases "o_callback s = No_write")
    case True
    then show ?thesis by (simp add: pb_write_def put_s_def put_h_def fits_def)
  next
    case False
    have full: "bytes_written s + of_nat (length bs) > max_size s \<longleftrightarrow> \<not> fits bs s"
      using False b by (auto simp: fits_def word_less_nat_alt unat_written)
    have cb: "o_callback s = cb" using r False by (simp add: ready_def)
    show ?thesis
    proof (cases "fits bs s")
      case True
      have "call_write E s buf (of_nat (length bs)) h =
          Ret (True, s\<lparr>o_state := adv (o_state s) bs\<rparr>, sto (o_state s) bs h)"
        using cb accepts_room [OF r True False] b assms [OF m] by (intro write_law) simp_all
      with True False full show ?thesis by (simp add: pb_write_def put_s_def put_h_def)
    next
      case nofit: False
      with False full
      have "pb_write E buf (of_nat (length bs)) s h = Ret (False, PB_SET_ERROR s ''stream full'', put_h [] s h)"
        by (simp add: pb_write_def PB_RETURN_ERROR_def)
      with nofit fits_Nil [OF r] show ?thesis by (metis append_Nil)
    qed
  qed
qed

lemma emits_local: "emits m (pb_write E (WLocal bs) (of_nat (length bs))) True bs"
  by (rule emits_write) (simp add: wbuf_bytes_def)

lemma emits_varint [emit_intros]: "emits m (pb_encode_varint E v) True (varint (unat v))"
proof -
  have "pb_encode_varint E v = pb_write E (WLocal (varint (unat v))) (of_nat (length (varint (unat v))))"
    by (intro ext) (rule pb_encode_varint_eq)
  then show ?thesis using emits_local [of m "varint (unat v)"] by simp
qed

lemma emits_thenO [emit_intros]:
  assumes f: "emits m f ok1 bs1" and g: "ok1 \<Longrightarrow> emits m g ok2 bs2"
  shows "emits m (\<lambda>s h. thenO (f s h) g) (ok1 \<and> ok2) (if ok1 then bs1 @ bs2 else bs1)"
proof (cases ok1)
  case False
  then show ?thesis
    using f unfolding emits_def by (auto simp: thenO_def) (metis Prelude.bindO.simps(1) case_prod_conv)
next
  case True
  have "emits m (\<lambda>s h. thenO (f s h) g) ok2 (bs1 @ bs2)"
    unfolding emits_def
  proof (intro allI impI, elim conjE)
    fix s h
    assume m: "mem h = m" and r: "ready s h" and b: "unat (bytes_written s) + length (bs1 @ bs2) < 2 ^ 64"
    then have b1: "unat (bytes_written s) + length bs1 < 2 ^ 64" by simp
    let ?goal = "if ok2 \<and> fits (bs1 @ bs2) s
      then thenO (f s h) g = Ret (True, put_s (bs1 @ bs2) s, put_h (bs1 @ bs2) s h)
      else \<exists>s' bs'. thenO (f s h) g = Ret (False, s', put_h bs' s h) \<and>
             (ok2 \<longrightarrow> (\<exists>zs. bs1 @ bs2 = bs' @ zs)) \<and> length bs' \<le> length (bs1 @ bs2) \<and> fits bs' s"
    show ?goal
    proof (cases "fits bs1 s")
      case fit1: True
      have f1: "f s h = Ret (True, put_s bs1 s, put_h bs1 s h)"
        using f True m r b1 fit1 by (auto intro: emitsD_ok)
      have r': "ready (put_s bs1 s) (put_h bs1 s h)" using r fit1 b1 by (rule ready_put)
      have b': "unat (bytes_written (put_s bs1 s)) + length bs2 < 2 ^ 64"
        using b b1 by (simp add: unat_written)
      have fit: "\<And>xs. fits xs (put_s bs1 s) \<longleftrightarrow> fits (bs1 @ xs) s"
        using b1 by (rule fits_append)
      show ?thesis
      proof (cases "ok2 \<and> fits (bs1 @ bs2) s")
        case True
        then have "g (put_s bs1 s) (put_h bs1 s h) =
            Ret (True, put_s bs2 (put_s bs1 s), put_h bs2 (put_s bs1 s) (put_h bs1 s h))"
          using emitsD_ok [of m g bs2 "put_h bs1 s h" "put_s bs1 s"] g [OF \<open>ok1\<close>] m r' b' fit by simp
        with True f1 put_put [OF r, of bs1 bs2] show ?thesis by simp
      next
        case False
        then obtain s' bs' where g': "g (put_s bs1 s) (put_h bs1 s h) = Ret (False, s', put_h bs' (put_s bs1 s) (put_h bs1 s h))"
          and pre: "ok2 \<longrightarrow> (\<exists>zs. bs2 = bs' @ zs)" and len: "length bs' \<le> length bs2"
          and fit': "fits bs' (put_s bs1 s)"
          using emitsD_fail [OF g [OF \<open>ok1\<close>], of "put_h bs1 s h" "put_s bs1 s"] m r' b' fit by auto
        have "put_h bs' (put_s bs1 s) (put_h bs1 s h) = put_h (bs1 @ bs') s h"
          using put_put(2) [OF r, of bs1 bs'] fit fit' by simp
        with f1 g' have "thenO (f s h) g = Ret (False, s', put_h (bs1 @ bs') s h)" by simp
        moreover have "ok2 \<longrightarrow> (\<exists>zs. bs1 @ bs2 = (bs1 @ bs') @ zs)" using pre by auto
        moreover have "length (bs1 @ bs') \<le> length (bs1 @ bs2)" "fits (bs1 @ bs') s"
          using len fit fit' by simp_all
        ultimately show ?thesis using False by (simp only: if_False) blast
      qed
    next
      case nofit: False
      then obtain s' bs' zs where "f s h = Ret (False, s', put_h bs' s h)" "bs1 = bs' @ zs" "fits bs' s"
        using emitsD_fail [OF f m r b1] \<open>ok1\<close> by auto
      moreover have "\<not> fits (bs1 @ bs2) s" using nofit by (auto simp: fits_def)
      ultimately show ?thesis by auto
    qed
  qed
  with True show ?thesis by simp
qed

lemma emits_vacuous: "2 ^ 64 \<le> length bs \<Longrightarrow> emits m f ok bs"
  unfolding emits_def by auto

lemma ready_sizing [simp]: "ready PB_OSTREAM_SIZING h"
  by (simp add: ready_def PB_OSTREAM_SIZING_def)

lemma put_h_sizing [simp]: "put_h bs PB_OSTREAM_SIZING h = h"
  by (simp add: put_h_def PB_OSTREAM_SIZING_def)

lemma sizing_run:
  assumes "emits m f True bs" "mem h = m" "length bs < 2 ^ 64"
  shows "f PB_OSTREAM_SIZING h = Ret (True, put_s bs PB_OSTREAM_SIZING, h)"
  using emitsD_ok [OF assms(1,2) ready_sizing] assms(3)
  by (simp add: PB_OSTREAM_SIZING_def fits_def put_h_def)

lemma sizing_run_fail:
  assumes "emits m f False bs" "mem h = m" "length bs < 2 ^ 64"
  shows "\<exists>s'. f PB_OSTREAM_SIZING h = Ret (False, s', h)"
  using emitsD_fail [OF assms(1,2) ready_sizing] assms(3)
  by (auto simp: PB_OSTREAM_SIZING_def put_h_def)

lemma bytes_written_sizing [simp]: "bytes_written (put_s bs PB_OSTREAM_SIZING) = of_nat (length bs)"
  by (simp add: PB_OSTREAM_SIZING_def)

text \<open>A function that fails at once, having written nothing.\<close>

lemma emits_fail_now:
  assumes "\<And>s h. mem h = m \<Longrightarrow> length bs < 2 ^ 64 \<Longrightarrow> \<exists>s'. f s h = Ret (False, s', h)"
  shows "emits m f False bs"
  unfolding emits_def
proof (intro allI impI, elim conjE)
  fix s h assume m: "mem h = m" and r: "ready s h" and b: "unat (bytes_written s) + length bs < 2 ^ 64"
  then obtain s' where "f s h = Ret (False, s', h)" using assms [OF m] by auto
  then have "f s h = Ret (False, s', put_h [] s h)" by simp
  with fits_Nil [OF r]
  show "if False \<and> fits bs s then f s h = Ret (True, put_s bs s, put_h bs s h)
      else \<exists>s' bs'. f s h = Ret (False, s', put_h bs' s h) \<and> (False \<longrightarrow> (\<exists>zs. bs = bs' @ zs)) \<and>
             length bs' \<le> length bs \<and> fits bs' s"
    by (metis le0 list.size(3))
qed

lemma emits_null_sizing:
  "o_callback s = No_write \<Longrightarrow>
     pb_write E WNull (of_nat (length bs)) s h = Ret (True, put_s bs s, put_h bs s h)"
  by (simp add: pb_write_def put_s_def put_h_def)

end

section \<open>The memory stream conforms\<close>

definition buf_accepts :: "nat \<Rightarrow> heap \<Rightarrow> nat \<Rightarrow> bool" where
  "buf_accepts st h k \<longleftrightarrow> st + k \<le> length (out h)"

definition buf_adv :: "nat \<Rightarrow> byte list \<Rightarrow> nat" where
  "buf_adv st bs = st + length bs"

definition buf_sto :: "nat \<Rightarrow> byte list \<Rightarrow> heap \<Rightarrow> heap" where
  "buf_sto st bs h = h\<lparr>out := overwrite (out h) st bs\<rparr>"

interpretation buf: conforming_ostream E Buf_write buf_accepts buf_adv buf_sto for E
proof unfold_locales
  fix s :: pb_ostream_t and h :: heap and bs :: "byte list" and buf
  assume "o_callback s = Buf_write" "buf_accepts (o_state s) h (length bs)" "length bs < 2 ^ 64"
    "wbuf_bytes h buf (length bs) = Ret bs"
  then show "call_write E s buf (of_nat (length bs)) h =
      Ret (True, s\<lparr>o_state := buf_adv (o_state s) bs\<rparr>, buf_sto (o_state s) bs h)"
    by (simp add: call_write_def buf_write_def buf_accepts_def buf_adv_def buf_sto_def)
qed (auto simp: buf_accepts_def buf_adv_def buf_sto_def overwrite_overwrite)

end
