(* ===== verification/Pb_Encode.thy ===== *)
theory Pb_Encode
  imports Pb_Ostream
begin

text \<open>
  The message encoder of \<open>nanopb/pb_encode.c\<close>. The functions are the source's, in the
  order they call each other; the one recursion of the code, from \<open>pb_encode_submessage\<close>
  back to \<open>pb_encode\<close>, is the argument \<open>rec\<close> of the functions below it, and
  \<open>pb_encode\<close> ties the knot with the nesting depth as its fuel. \<open>n\<close> is also the bound on
  the length of an extension chain.
\<close>

section \<open>Field encoders\<close>

definition pb_enc_varint :: "env \<Rightarrow> pb_field_t \<Rightarrow> addr \<Rightarrow> oenc" where
  "pb_enc_varint E field src s h =
     (if data_size field = 1 then pb_encode_varint E (scast (load8 (mem h) src)) s h
      else if data_size field = 2 then pb_encode_varint E (scast (load16 (mem h) src)) s h
      else if data_size field = 4 then pb_encode_varint E (scast (load32 (mem h) src)) s h
      else if data_size field = 8 then pb_encode_varint E (load64 (mem h) src) s h
      else PB_RETURN_ERROR s ''invalid data_size'' h)"

definition pb_enc_uvarint :: "env \<Rightarrow> pb_field_t \<Rightarrow> addr \<Rightarrow> oenc" where
  "pb_enc_uvarint E field src s h =
     (if data_size field = 1 then pb_encode_varint E (ucast (load8 (mem h) src)) s h
      else if data_size field = 2 then pb_encode_varint E (ucast (load16 (mem h) src)) s h
      else if data_size field = 4 then pb_encode_varint E (ucast (load32 (mem h) src)) s h
      else if data_size field = 8 then pb_encode_varint E (load64 (mem h) src) s h
      else PB_RETURN_ERROR s ''invalid data_size'' h)"

definition pb_enc_svarint :: "env \<Rightarrow> pb_field_t \<Rightarrow> addr \<Rightarrow> oenc" where
  "pb_enc_svarint E field src s h =
     (if data_size field = 1 then pb_encode_svarint E (scast (load8 (mem h) src)) s h
      else if data_size field = 2 then pb_encode_svarint E (scast (load16 (mem h) src)) s h
      else if data_size field = 4 then pb_encode_svarint E (scast (load32 (mem h) src)) s h
      else if data_size field = 8 then pb_encode_svarint E (load64 (mem h) src) s h
      else PB_RETURN_ERROR s ''invalid data_size'' h)"

definition pb_enc_fixed64 :: "env \<Rightarrow> pb_field_t \<Rightarrow> addr \<Rightarrow> oenc" where
  "pb_enc_fixed64 E field src s h = pb_encode_fixed64 E src s h"

definition pb_enc_fixed32 :: "env \<Rightarrow> pb_field_t \<Rightarrow> addr \<Rightarrow> oenc" where
  "pb_enc_fixed32 E field src s h = pb_encode_fixed32 E src s h"

definition pb_enc_bytes :: "env \<Rightarrow> pb_field_t \<Rightarrow> addr \<Rightarrow> oenc" where
  "pb_enc_bytes E field src s h =
     (if src = 0 then pb_encode_string E WNull 0 s h
      else if PB_ATYPE (type field) = PB_ATYPE_STATIC \<and>
              PB_BYTES_ARRAY_T_ALLOCSIZE (bytes_size (mem h) src) > ucast (data_size field)
      then PB_RETURN_ERROR s ''bytes size exceeded'' h
      else pb_encode_string E (WMem (bytes_data src)) (ucast (bytes_size (mem h) src)) s h)"

text \<open>\<open>while (size < max_size && *p != 0) { size++; p++; }\<close>\<close>

function strnlen_loop :: "memory \<Rightarrow> addr \<Rightarrow> u64 \<Rightarrow> u64 \<Rightarrow> u64" where
  "strnlen_loop m p sz max_sz =
     (if sz < max_sz \<and> m p \<noteq> 0 then strnlen_loop m (p + 1) (sz + 1) max_sz else sz)"
  by pat_completeness auto
termination
proof (relation "measure (\<lambda>(m, p, sz, mx). unat mx - unat sz)", simp, clarsimp)
  fix sz mx :: u64 assume "sz < mx"
  then have "unat sz < unat mx" by (simp add: word_less_nat_alt)
  moreover then have "unat (sz + 1) = unat sz + 1"
    using unsigned_less [of mx, where 'a = nat] by (simp add: unat_word_ariths)
  ultimately show "unat mx - unat (sz + 1) < unat mx - unat sz" by simp
qed

declare strnlen_loop.simps [simp del]

definition pb_enc_string :: "env \<Rightarrow> pb_field_t \<Rightarrow> addr \<Rightarrow> oenc" where
  "pb_enc_string E field src s h =
     (let max_sz = (if PB_ATYPE (type field) = PB_ATYPE_POINTER then -1 else ucast (data_size field));
          size = (if src = 0 then 0 else strnlen_loop (mem h) src 0 max_sz)
      in pb_encode_string E (if src = 0 then WNull else WMem src) size s h)"

definition pb_encode_submessage :: "env \<Rightarrow> (addr \<Rightarrow> addr \<Rightarrow> oenc) \<Rightarrow> addr \<Rightarrow> addr \<Rightarrow> oenc" where
  "pb_encode_submessage E rec flds src s h =
     bindO (rec flds src PB_OSTREAM_SIZING h) (\<lambda>(ok, substream, h).
       if \<not> ok then Ret (False, s\<lparr>o_errmsg := o_errmsg substream\<rparr>, h)
       else
         let size = bytes_written substream in
         thenO (pb_encode_varint E size s h) (\<lambda>s h.
           if o_callback s = No_write then pb_write E WNull size s h
           else if bytes_written s + size > max_size s then PB_RETURN_ERROR s ''stream full'' h
           else
             let substream = \<lparr>o_callback = o_callback s, o_state = o_state s, max_size = size,
                              bytes_written = 0, o_errmsg = None\<rparr> in
             bindO (rec flds src substream h) (\<lambda>(status, substream, h).
               let s = s\<lparr>bytes_written := bytes_written s + bytes_written substream,
                         o_state := o_state substream, o_errmsg := o_errmsg substream\<rparr> in
               if bytes_written substream \<noteq> size then PB_RETURN_ERROR s ''submsg size changed'' h
               else Ret (status, s, h))))"

definition pb_enc_submessage :: "env \<Rightarrow> (addr \<Rightarrow> addr \<Rightarrow> oenc) \<Rightarrow> pb_field_t \<Rightarrow> addr \<Rightarrow> oenc" where
  "pb_enc_submessage E rec field src s h =
     (if ptr field = 0 then PB_RETURN_ERROR s ''invalid field descriptor'' h
      else pb_encode_submessage E rec (ptr field) src s h)"

definition pb_enc_fixed_length_bytes :: "env \<Rightarrow> pb_field_t \<Rightarrow> addr \<Rightarrow> oenc" where
  "pb_enc_fixed_length_bytes E field src s h =
     pb_encode_string E (WMem src) (ucast (data_size field)) s h"

text \<open>
  \<open>PB_ENCODERS[ltype]\<close>; the entry for extensions is null and the table has ten entries, which
  \<open>encode_basic_field\<close> tests.
\<close>

definition PB_ENCODERS :: "env \<Rightarrow> (addr \<Rightarrow> addr \<Rightarrow> oenc) \<Rightarrow> byte \<Rightarrow> pb_field_t \<Rightarrow> addr \<Rightarrow> oenc" where
  "PB_ENCODERS E rec lt field src s h =
     (if lt = PB_LTYPE_VARINT then pb_enc_varint E field src s h
      else if lt = PB_LTYPE_UVARINT then pb_enc_uvarint E field src s h
      else if lt = PB_LTYPE_SVARINT then pb_enc_svarint E field src s h
      else if lt = PB_LTYPE_FIXED32 then pb_enc_fixed32 E field src s h
      else if lt = PB_LTYPE_FIXED64 then pb_enc_fixed64 E field src s h
      else if lt = PB_LTYPE_BYTES then pb_enc_bytes E field src s h
      else if lt = PB_LTYPE_STRING then pb_enc_string E field src s h
      else if lt = PB_LTYPE_SUBMESSAGE then pb_enc_submessage E rec field src s h
      else if lt = PB_LTYPE_FIXED_LENGTH_BYTES then pb_enc_fixed_length_bytes E field src s h
      else UB)"

section \<open>Arrays\<close>

text \<open>\<open>for (i = 0; i < count; i++) { if (!body(p)) return false; p += data_size; }\<close>\<close>

fun array_loop :: "nat \<Rightarrow> (addr \<Rightarrow> oenc) \<Rightarrow> u32 \<Rightarrow> addr \<Rightarrow> oenc" where
  "array_loop 0 body stride p s h = Ret (True, s, h)"
| "array_loop (Suc k) body stride p s h =
     thenO (body p s h) (array_loop k body stride (p + ucast stride))"

definition encode_array ::
  "env \<Rightarrow> pb_field_t \<Rightarrow> addr \<Rightarrow> u64 \<Rightarrow> (pb_field_t \<Rightarrow> addr \<Rightarrow> oenc) \<Rightarrow> oenc" where
  "encode_array E field p count func s h =
     (if count = 0 then Ret (True, s, h)
      else if PB_ATYPE (type field) \<noteq> PB_ATYPE_POINTER \<and> count > ucast (array_size field)
      then PB_RETURN_ERROR s ''array max size exceeded'' h
      else if PB_LTYPE (type field) \<le> PB_LTYPE_LAST_PACKABLE then
        thenO (pb_encode_tag E PB_WT_STRING (tag field) s h) (\<lambda>s h.
          bindO (if PB_LTYPE (type field) = PB_LTYPE_FIXED32 then Ret (True, 4 * count, h)
                 else if PB_LTYPE (type field) = PB_LTYPE_FIXED64 then Ret (True, 8 * count, h)
                 else
                   bindO (array_loop (unat count) (func field) (data_size field) p PB_OSTREAM_SIZING h)
                     (\<lambda>(ok, sizestream, h). Ret (ok, bytes_written sizestream, h)))
            (\<lambda>(ok, size, h).
              if \<not> ok then Ret (False, s, h)
              else
                thenO (pb_encode_varint E size s h) (\<lambda>s h.
                  if o_callback s = No_write then pb_write E WNull size s h
                  else array_loop (unat count) (func field) (data_size field) p s h)))
      else
        array_loop (unat count)
          (\<lambda>p s h. thenO (pb_encode_tag_for_field E field s h) (\<lambda>s h.
             if PB_ATYPE (type field) = PB_ATYPE_POINTER \<and>
                (PB_LTYPE (type field) = PB_LTYPE_STRING \<or> PB_LTYPE (type field) = PB_LTYPE_BYTES)
             then func field (load64 (mem h) p) s h
             else func field p s h))
          (data_size field) p s h)"

section \<open>Proto3 default values\<close>

fun proto3_loop :: "env \<Rightarrow> (pb_field_t \<Rightarrow> addr \<Rightarrow> bool outcome) \<Rightarrow> nat \<Rightarrow> pb_field_iter_t \<Rightarrow> bool outcome" where
  "proto3_loop E check 0 it = NoFuel"
| "proto3_loop E check (Suc k) it =
     bindO (check (iter_pos E it) (pData it)) (\<lambda>dflt.
       if \<not> dflt then Ret False
       else
         let (more, it') = pb_field_iter_next E it in
         if more then proto3_loop E check k it' else Ret True)"

definition proto3_default_body ::
  "env \<Rightarrow> memory \<Rightarrow> (pb_field_t \<Rightarrow> addr \<Rightarrow> bool outcome) \<Rightarrow> pb_field_t \<Rightarrow> addr \<Rightarrow> bool outcome" where
  "proto3_default_body E m check field p =
     (let t = type field; pSz = p + scast (size_offset field);
          all_zero = Ret (list_all (\<lambda>b. b = 0) (load_bytes m p (unat (data_size field))))
      in
      if PB_HTYPE t = PB_HTYPE_REQUIRED then Ret False
      else if PB_HTYPE t = PB_HTYPE_REPEATED then Ret (load32 m pSz = 0)
      else if PB_HTYPE t = PB_HTYPE_ONEOF then Ret (load32 m pSz = 0)
      else if PB_HTYPE t = PB_HTYPE_OPTIONAL \<and> size_offset field \<noteq> 0 then Ret (\<not> load_bool m pSz)
      else if PB_ATYPE t = PB_ATYPE_STATIC then
        (if PB_LTYPE t = PB_LTYPE_BYTES then Ret (bytes_size m p = 0)
         else if PB_LTYPE t = PB_LTYPE_STRING then Ret (m p = 0)
         else if PB_LTYPE t = PB_LTYPE_FIXED_LENGTH_BYTES then Ret (data_size field = 0)
         else if PB_LTYPE t = PB_LTYPE_SUBMESSAGE then
           (if ptr field = 0 then UB
            else
              let (nonempty, it) = pb_field_iter_begin E (ptr field) p in
              if nonempty then proto3_loop E check (Suc (length (ftab E (ptr field)))) it
              else Ret True)
         else all_zero)
      else all_zero)"

fun pb_check_proto3_default_value :: "env \<Rightarrow> memory \<Rightarrow> nat \<Rightarrow> pb_field_t \<Rightarrow> addr \<Rightarrow> bool outcome" where
  "pb_check_proto3_default_value E m 0 field p = NoFuel"
| "pb_check_proto3_default_value E m (Suc n) field p =
     proto3_default_body E m (pb_check_proto3_default_value E m n) field p"

section \<open>Fields\<close>

text \<open>
  The encoder is taken from \<open>PB_ENCODERS\<close> before anything else, so that a type beyond the
  table is a read outside of it.
\<close>

definition encode_basic_field :: "env \<Rightarrow> nat \<Rightarrow> (addr \<Rightarrow> addr \<Rightarrow> oenc) \<Rightarrow> pb_field_t \<Rightarrow> addr \<Rightarrow> oenc" where
  "encode_basic_field E n rec field p s h =
     (if PB_LTYPE (type field) > PB_LTYPE_FIXED_LENGTH_BYTES then UB
      else let func = PB_ENCODERS E rec (PB_LTYPE (type field));
          pSz = p + scast (size_offset field)
      in
      bindO (if size_offset field \<noteq> 0 then Ret False
             else if PB_HTYPE (type field) = PB_HTYPE_OPTIONAL then
               bindO (pb_check_proto3_default_value E (mem h) n field p) (\<lambda>dflt. Ret (\<not> dflt))
             else Ret True)
        (\<lambda>implicit_has.
          let pointer = (PB_ATYPE (type field) = PB_ATYPE_POINTER);
              p = (if pointer then load64 (mem h) p else p);
              implicit_has = (if pointer then p \<noteq> 0 else implicit_has);
              single = (\<lambda>s h. thenO (pb_encode_tag_for_field E field s h) (func field p))
          in
          if PB_HTYPE (type field) = PB_HTYPE_REQUIRED then
            (if p = 0 then PB_RETURN_ERROR s ''missing required field'' h else single s h)
          else if PB_HTYPE (type field) = PB_HTYPE_OPTIONAL then
            (if (if size_offset field \<noteq> 0 then load_bool (mem h) pSz else implicit_has)
             then single s h else Ret (True, s, h))
          else if PB_HTYPE (type field) = PB_HTYPE_REPEATED then
            (let count = (if size_offset field \<noteq> 0 then load32 (mem h) pSz else array_size field)
             in encode_array E field p (ucast count) func s h)
          else
            (if size_offset field = 0 then UB
             else if load32 (mem h) pSz = tag field then single s h else Ret (True, s, h))))"

definition encode_callback_field :: "env \<Rightarrow> pb_field_t \<Rightarrow> addr \<Rightarrow> oenc" where
  "encode_callback_field E field p s h =
     (if callback_func (mem h) p \<noteq> 0 then
        bindO (encode_cb E (callback_func (mem h) p) s field (callback_arg p) h) (\<lambda>(ok, s, h).
          if \<not> ok then PB_RETURN_ERROR s ''callback error'' h else Ret (True, s, h))
      else Ret (True, s, h))"

definition encode_field :: "env \<Rightarrow> nat \<Rightarrow> (addr \<Rightarrow> addr \<Rightarrow> oenc) \<Rightarrow> pb_field_t \<Rightarrow> addr \<Rightarrow> oenc" where
  "encode_field E n rec field p s h =
     (if PB_ATYPE (type field) = PB_ATYPE_STATIC \<or> PB_ATYPE (type field) = PB_ATYPE_POINTER
      then encode_basic_field E n rec field p s h
      else if PB_ATYPE (type field) = PB_ATYPE_CALLBACK then encode_callback_field E field p s h
      else PB_RETURN_ERROR s ''invalid field type'' h)"

section \<open>Extensions\<close>

definition default_extension_encoder :: "env \<Rightarrow> nat \<Rightarrow> (addr \<Rightarrow> addr \<Rightarrow> oenc) \<Rightarrow> addr \<Rightarrow> oenc" where
  "default_extension_encoder E n rec extension s h =
     (let field = field_at E (ext_type_arg (mem h) (ext_type (mem h) extension)) 0 in
      if PB_ATYPE (type field) = PB_ATYPE_POINTER
      then encode_field E n rec field (ext_dest_addr extension) s h
      else encode_field E n rec field (ext_dest (mem h) extension) s h)"

fun extension_encode_loop :: "env \<Rightarrow> nat \<Rightarrow> (addr \<Rightarrow> addr \<Rightarrow> oenc) \<Rightarrow> nat \<Rightarrow> addr \<Rightarrow> oenc" where
  "extension_encode_loop E n rec 0 extension s h = NoFuel"
| "extension_encode_loop E n rec (Suc k) extension s h =
     (if extension = 0 then Ret (True, s, h)
      else
        let fn = ext_type_encode (mem h) (ext_type (mem h) extension) in
        thenO (if fn \<noteq> 0 then ext_encode_cb E fn s extension h
               else default_extension_encoder E n rec extension s h)
          (\<lambda>s h. extension_encode_loop E n rec k (ext_next (mem h) extension) s h))"

definition encode_extension_field :: "env \<Rightarrow> nat \<Rightarrow> (addr \<Rightarrow> addr \<Rightarrow> oenc) \<Rightarrow> pb_field_t \<Rightarrow> addr \<Rightarrow> oenc" where
  "encode_extension_field E n rec field p s h =
     extension_encode_loop E n rec (Suc n) (load64 (mem h) p) s h"

section \<open>Messages\<close>

fun pb_encode_loop :: "env \<Rightarrow> nat \<Rightarrow> (addr \<Rightarrow> addr \<Rightarrow> oenc) \<Rightarrow> nat \<Rightarrow> pb_field_iter_t \<Rightarrow> oenc" where
  "pb_encode_loop E n rec 0 it s h = NoFuel"
| "pb_encode_loop E n rec (Suc k) it s h =
     thenO (if PB_LTYPE (type (iter_pos E it)) = PB_LTYPE_EXTENSION
            then encode_extension_field E n rec (iter_pos E it) (pData it) s h
            else encode_field E n rec (iter_pos E it) (pData it) s h)
       (\<lambda>s h.
         let (more, it') = pb_field_iter_next E it in
         if more then pb_encode_loop E n rec k it' s h else Ret (True, s, h))"

definition pb_encode_body :: "env \<Rightarrow> nat \<Rightarrow> (addr \<Rightarrow> addr \<Rightarrow> oenc) \<Rightarrow> addr \<Rightarrow> addr \<Rightarrow> oenc" where
  "pb_encode_body E n rec flds src s h =
     (let (nonempty, it) = pb_field_iter_begin E flds src in
      if \<not> nonempty then Ret (True, s, h)
      else pb_encode_loop E n rec (Suc (length (ftab E flds))) it s h)"

fun pb_encode :: "env \<Rightarrow> nat \<Rightarrow> addr \<Rightarrow> addr \<Rightarrow> oenc" where
  "pb_encode E 0 flds src s h = NoFuel"
| "pb_encode E (Suc n) flds src s h = pb_encode_body E n (pb_encode E n) flds src s h"

definition pb_encode_delimited :: "env \<Rightarrow> nat \<Rightarrow> addr \<Rightarrow> addr \<Rightarrow> oenc" where
  "pb_encode_delimited E n flds src s h = pb_encode_submessage E (pb_encode E n) flds src s h"

definition pb_encode_nullterminated :: "env \<Rightarrow> nat \<Rightarrow> addr \<Rightarrow> addr \<Rightarrow> oenc" where
  "pb_encode_nullterminated E n flds src s h =
     thenO (pb_encode E n flds src s h) (pb_write E (WLocal [0]) 1)"

definition pb_get_encoded_size :: "env \<Rightarrow> nat \<Rightarrow> addr \<Rightarrow> addr \<Rightarrow> heap \<Rightarrow> (u64 option \<times> heap) outcome" where
  "pb_get_encoded_size E n flds src h =
     bindO (pb_encode E n flds src PB_OSTREAM_SIZING h) (\<lambda>(ok, stream, h).
       if \<not> ok then Ret (None, h) else Ret (Some (bytes_written stream), h))"

end
