(* ===== verification/Encode_Spec.thy ===== *)
theory Encode_Spec
  imports Emit Pb_Encode
begin

text \<open>
  What the encoder is meant to produce: the wire form of a message as a function of the
  descriptor tables and the message memory alone, with no streams, no sizing passes and no
  limits. The refinement lemmas show that every function of \<open>pb_encode.c\<close> emits these
  bytes on every conforming stream. A result \<open>(False, bs)\<close> is an encoding error
  (\<open>length bs\<close> then only bounds what was written before it); user callbacks are outside
  this specification and give \<open>UB\<close>.
\<close>

type_synonym wire = "(bool \<times> byte list) outcome"

section \<open>The wire form of a message\<close>

definition seqW :: "wire \<Rightarrow> wire \<Rightarrow> wire" where
  "seqW r1 r2 = bindO r1 (\<lambda>(ok1, b1).
     if ok1 then bindO r2 (\<lambda>(ok2, b2). Ret (ok2, b1 @ b2)) else Ret (False, b1))"

definition lenW :: "wire \<Rightarrow> wire" where
  "lenW r = bindO r (\<lambda>(ok, bs). Ret (ok, if ok then varint (length bs) @ bs else bs))"

fun repW :: "nat \<Rightarrow> (addr \<Rightarrow> wire) \<Rightarrow> u32 \<Rightarrow> addr \<Rightarrow> wire" where
  "repW 0 body stride p = Ret (True, [])"
| "repW (Suc k) body stride p = seqW (body p) (repW k body stride (p + ucast stride))"

definition tag_wire :: "pb_wire_type_t \<Rightarrow> u32 \<Rightarrow> byte list" where
  "tag_wire wt tg = varint (unat (push_bit 3 (ucast tg) OR ucast wt :: u64))"

definition tagW :: "pb_field_t \<Rightarrow> wire" where
  "tagW field = (case wire_type_of (PB_LTYPE (type field)) of
     None \<Rightarrow> Ret (False, []) | Some wt \<Rightarrow> Ret (True, tag_wire wt (tag field)))"

definition intW :: "bool \<Rightarrow> (u64 \<Rightarrow> u64) \<Rightarrow> memory \<Rightarrow> pb_field_t \<Rightarrow> addr \<Rightarrow> wire" where
  "intW sgned zz m field src =
     (if data_size field = 1 then Ret (True, varint (unat (zz ((if sgned then scast else ucast) (load8 m src)))))
      else if data_size field = 2 then Ret (True, varint (unat (zz ((if sgned then scast else ucast) (load16 m src)))))
      else if data_size field = 4 then Ret (True, varint (unat (zz ((if sgned then scast else ucast) (load32 m src)))))
      else if data_size field = 8 then Ret (True, varint (unat (zz (load64 m src))))
      else Ret (False, []))"

definition bytesW :: "memory \<Rightarrow> pb_field_t \<Rightarrow> addr \<Rightarrow> wire" where
  "bytesW m field src =
     (if src = 0 then lenW (Ret (True, []))
      else if PB_ATYPE (type field) = PB_ATYPE_STATIC \<and> unat (bytes_size m src) + 4 > unat (data_size field)
      then Ret (False, [])
      else lenW (Ret (True, load_bytes m (bytes_data src) (unat (bytes_size m src)))))"

definition stringW :: "memory \<Rightarrow> pb_field_t \<Rightarrow> addr \<Rightarrow> wire" where
  "stringW m field src =
     lenW (Ret (True,
       if src = 0 then []
       else load_bytes m src (unat (strnlen_loop m src 0
              (if PB_ATYPE (type field) = PB_ATYPE_POINTER then -1 else ucast (data_size field))))))"

definition valueW :: "memory \<Rightarrow> (addr \<Rightarrow> addr \<Rightarrow> wire) \<Rightarrow> byte \<Rightarrow> pb_field_t \<Rightarrow> addr \<Rightarrow> wire" where
  "valueW m msg lt field src =
     (if lt = PB_LTYPE_VARINT then intW True id m field src
      else if lt = PB_LTYPE_UVARINT then intW False id m field src
      else if lt = PB_LTYPE_SVARINT then intW True zigzag_encode m field src
      else if lt = PB_LTYPE_FIXED32 then Ret (True, load_bytes m src 4)
      else if lt = PB_LTYPE_FIXED64 then Ret (True, load_bytes m src 8)
      else if lt = PB_LTYPE_BYTES then bytesW m field src
      else if lt = PB_LTYPE_STRING then stringW m field src
      else if lt = PB_LTYPE_SUBMESSAGE then
        (if ptr field = 0 then Ret (False, []) else lenW (msg (ptr field) src))
      else if lt = PB_LTYPE_FIXED_LENGTH_BYTES then
        lenW (Ret (True, load_bytes m src (unat (data_size field))))
      else UB)"

definition arrayW :: "memory \<Rightarrow> pb_field_t \<Rightarrow> addr \<Rightarrow> u32 \<Rightarrow> (addr \<Rightarrow> wire) \<Rightarrow> wire" where
  "arrayW m field p count value =
     (if count = 0 then Ret (True, [])
      else if PB_ATYPE (type field) \<noteq> PB_ATYPE_POINTER \<and> count > array_size field then Ret (False, [])
      else if PB_LTYPE (type field) \<le> PB_LTYPE_LAST_PACKABLE then
        seqW (Ret (True, tag_wire PB_WT_STRING (tag field))) (lenW (repW (unat count) value (data_size field) p))
      else
        repW (unat count)
          (\<lambda>p. seqW (tagW field)
             (value (if PB_ATYPE (type field) = PB_ATYPE_POINTER \<and>
                        (PB_LTYPE (type field) = PB_LTYPE_STRING \<or> PB_LTYPE (type field) = PB_LTYPE_BYTES)
                     then load64 m p else p)))
          (data_size field) p)"

definition basicW :: "env \<Rightarrow> memory \<Rightarrow> nat \<Rightarrow> (addr \<Rightarrow> addr \<Rightarrow> wire) \<Rightarrow> pb_field_t \<Rightarrow> addr \<Rightarrow> wire" where
  "basicW E m n msg field p =
     (if PB_LTYPE (type field) > PB_LTYPE_FIXED_LENGTH_BYTES then UB
      else let pSz = p + scast (size_offset field);
          q = (if PB_ATYPE (type field) = PB_ATYPE_POINTER then load64 m p else p);
          value = valueW m msg (PB_LTYPE (type field)) field;
          single = seqW (tagW field) (value q)
      in
      bindO (if size_offset field \<noteq> 0 then Ret False
             else if PB_HTYPE (type field) = PB_HTYPE_OPTIONAL then
               bindO (pb_check_proto3_default_value E m n field p) (\<lambda>dflt. Ret (\<not> dflt))
             else Ret True)
        (\<lambda>present.
          if PB_HTYPE (type field) = PB_HTYPE_REQUIRED then (if q = 0 then Ret (False, []) else single)
          else if PB_HTYPE (type field) = PB_HTYPE_OPTIONAL then
            (if (if size_offset field \<noteq> 0 then load_bool m pSz
                 else if PB_ATYPE (type field) = PB_ATYPE_POINTER then q \<noteq> 0 else present)
             then single else Ret (True, []))
          else if PB_HTYPE (type field) = PB_HTYPE_REPEATED then
            arrayW m field q (if size_offset field \<noteq> 0 then load32 m pSz else array_size field) value
          else if size_offset field = 0 then UB
          else if load32 m pSz = tag field then single else Ret (True, [])))"

definition fieldW :: "env \<Rightarrow> memory \<Rightarrow> nat \<Rightarrow> (addr \<Rightarrow> addr \<Rightarrow> wire) \<Rightarrow> pb_field_t \<Rightarrow> addr \<Rightarrow> wire" where
  "fieldW E m n msg field p =
     (if PB_ATYPE (type field) = PB_ATYPE_STATIC \<or> PB_ATYPE (type field) = PB_ATYPE_POINTER
      then basicW E m n msg field p
      else if PB_ATYPE (type field) = PB_ATYPE_CALLBACK then
        (if callback_func m p \<noteq> 0 then UB else Ret (True, []))
      else Ret (False, []))"

fun extensionsW :: "env \<Rightarrow> memory \<Rightarrow> nat \<Rightarrow> (addr \<Rightarrow> addr \<Rightarrow> wire) \<Rightarrow> nat \<Rightarrow> addr \<Rightarrow> wire" where
  "extensionsW E m n msg 0 ext = NoFuel"
| "extensionsW E m n msg (Suc k) ext =
     (if ext = 0 then Ret (True, [])
      else if ext_type_encode m (ext_type m ext) \<noteq> 0 then UB
      else
        let field = field_at E (ext_type_arg m (ext_type m ext)) 0 in
        seqW (fieldW E m n msg field
               (if PB_ATYPE (type field) = PB_ATYPE_POINTER then ext_dest_addr ext else ext_dest m ext))
          (extensionsW E m n msg k (ext_next m ext)))"

fun fieldsW :: "env \<Rightarrow> memory \<Rightarrow> nat \<Rightarrow> (addr \<Rightarrow> addr \<Rightarrow> wire) \<Rightarrow> nat \<Rightarrow> pb_field_iter_t \<Rightarrow> wire" where
  "fieldsW E m n msg 0 it = NoFuel"
| "fieldsW E m n msg (Suc k) it =
     seqW (if PB_LTYPE (type (iter_pos E it)) = PB_LTYPE_EXTENSION
           then extensionsW E m n msg (Suc n) (load64 m (pData it))
           else fieldW E m n msg (iter_pos E it) (pData it))
       (if fst (pb_field_iter_next E it) then fieldsW E m n msg k (snd (pb_field_iter_next E it))
        else Ret (True, []))"

fun messageW :: "env \<Rightarrow> memory \<Rightarrow> nat \<Rightarrow> addr \<Rightarrow> addr \<Rightarrow> wire" where
  "messageW E m 0 flds src = NoFuel"
| "messageW E m (Suc n) flds src =
     (if fst (pb_field_iter_begin E flds src)
      then fieldsW E m n (messageW E m n) (Suc (length (ftab E flds))) (snd (pb_field_iter_begin E flds src))
      else Ret (True, []))"

section \<open>Inversion\<close>

lemma seqW_Ret:
  "seqW r1 r2 = Ret (ok, bs) \<longleftrightarrow>
     (\<exists>ok1 b1. r1 = Ret (ok1, b1) \<and>
        (if ok1 then \<exists>b2. r2 = Ret (ok, b2) \<and> bs = b1 @ b2 else \<not> ok \<and> bs = b1))"
  by (auto simp: seqW_def split: if_splits)

lemma lenW_Ret:
  "lenW r = Ret (ok, bs) \<longleftrightarrow> (\<exists>b. r = Ret (ok, b) \<and> bs = (if ok then varint (length b) @ b else b))"
  by (auto simp: lenW_def)

section \<open>Refinement\<close>

lemma low_byte_32: "(ucast (w AND 0xFF) :: byte) = ucast w" for w :: u32
proof -
  have "w AND 0xFF = take_bit 8 w" by (simp add: take_bit_eq_mask mask_eq_exp_minus_1)
  then show ?thesis by (auto intro!: bit_word_eqI simp: bit_simps)
qed

lemma low_byte_64: "(ucast (w AND 0xFF) :: byte) = ucast w" for w :: u64
proof -
  have "w AND 0xFF = take_bit 8 w" by (simp add: take_bit_eq_mask mask_eq_exp_minus_1)
  then show ?thesis by (auto intro!: bit_word_eqI simp: bit_simps)
qed

lemma le_bytes_load32: "le_bytes 4 (load32 m p) = load_bytes m p 4"
  using le_bytes_le_word [of "load_bytes m p 4", where 'n = 32] by (simp add: load32_def)

lemma le_bytes_load64: "le_bytes 8 (load64 m p) = load_bytes m p 8"
  using le_bytes_le_word [of "load_bytes m p 8", where 'n = 64] by (simp add: load64_def)

text \<open>A fixed-width value goes out as it lies in memory.\<close>

lemma pb_encode_fixed32_eq:
  "pb_encode_fixed32 E p s h = pb_write E (WLocal (load_bytes (mem h) p 4)) 4 s h"
  unfolding pb_encode_fixed32_def Let_def le_bytes_load32 [symmetric]
  by (simp add: low_byte_32 le_bytes_def upt_rec)

lemma pb_encode_fixed64_eq:
  "pb_encode_fixed64 E p s h = pb_write E (WLocal (load_bytes (mem h) p 8)) 8 s h"
  unfolding pb_encode_fixed64_def Let_def le_bytes_load64 [symmetric]
  by (simp add: low_byte_64 le_bytes_def upt_rec)

context conforming_ostream
begin

lemma emits_fixed32 [emit_intros]: "emits m (pb_encode_fixed32 E p) True (load_bytes m p 4)"
  using emits_local [of m "load_bytes m p 4"]
  by (subst emits_cong [where g = "pb_write E (WLocal (load_bytes m p 4)) 4"])
    (simp_all add: pb_encode_fixed32_eq)

lemma emits_fixed64 [emit_intros]: "emits m (pb_encode_fixed64 E p) True (load_bytes m p 8)"
  using emits_local [of m "load_bytes m p 8"]
  by (subst emits_cong [where g = "pb_write E (WLocal (load_bytes m p 8)) 8"])
    (simp_all add: pb_encode_fixed64_eq)

lemma emits_tag [emit_intros]: "emits m (pb_encode_tag E wt tg) True (tag_wire wt tg)"
  using emits_varint [of m "push_bit 3 (ucast tg) OR ucast wt"]
  by (subst emits_cong [where g = "pb_encode_varint E (push_bit 3 (ucast tg) OR ucast wt)"])
    (simp_all add: pb_encode_tag_def tag_wire_def)

lemma emits_tag_for_field: "tagW f = Ret (ok, bs) \<Longrightarrow> emits m (pb_encode_tag_for_field E f) ok bs"
proof (cases "wire_type_of (PB_LTYPE (type f))")
  case None
  assume "tagW f = Ret (ok, bs)"
  then have "ok = False" "bs = []" using None by (simp_all add: tagW_def)
  then show ?thesis
    using emits_error [of m "''invalid field type''"] None
    by (subst emits_cong [where g = "\<lambda>s h. PB_RETURN_ERROR s ''invalid field type'' h"])
      (simp_all add: pb_encode_tag_for_field_def)
next
  case (Some wt)
  assume "tagW f = Ret (ok, bs)"
  then have "ok = True" "bs = tag_wire wt (tag f)" using Some by (simp_all add: tagW_def)
  then show ?thesis
    using emits_tag [of m wt "tag f"] Some
    by (subst emits_cong [where g = "pb_encode_tag E wt (tag f)"])
      (simp_all add: pb_encode_tag_for_field_def)
qed

text \<open>A length-prefixed block that is written in one piece.\<close>

lemma emits_string:
  assumes "\<And>h. mem h = m \<Longrightarrow> wbuf_bytes h buf (length bs) = Ret bs" and "sz = of_nat (length bs)"
  shows "emits m (pb_encode_string E buf sz) True (varint (length bs) @ bs)"
proof (cases "length bs < 2 ^ 64")
  case True
  have "emits m (\<lambda>s h. thenO (pb_encode_varint E sz s h) (pb_write E buf sz)) (True \<and> True)
      (if True then varint (unat sz) @ bs else varint (unat sz))"
    using emits_write [OF assms(1)] by (intro emits_thenO emits_varint) (simp add: assms(2))
  then show ?thesis
    using True assms(2)
    by (subst emits_cong [where g = "\<lambda>s h. thenO (pb_encode_varint E sz s h) (pb_write E buf sz)"])
      (simp_all add: pb_encode_string_def)
next
  case False
  then show ?thesis by (intro emits_vacuous) simp
qed

lemma emits_submessage:
  assumes rec: "emits m (rec flds src) ok bs"
  shows "emits m (pb_encode_submessage E rec flds src) ok (if ok then varint (length bs) @ bs else bs)"
proof (cases ok)
  case False
  with rec have recF: "emits m (rec flds src) False bs" by simp
  have "emits m (pb_encode_submessage E rec flds src) False bs"
  proof (rule emits_fail_now)
    fix s and h :: heap assume "mem h = m" "length bs < 2 ^ 64"
    then obtain s' where "rec flds src PB_OSTREAM_SIZING h = Ret (False, s', h)"
      using sizing_run_fail [OF recF] by blast
    then show "\<exists>s'. pb_encode_submessage E rec flds src s h = Ret (False, s', h)"
      by (simp add: pb_encode_submessage_def)
  qed
  with False show ?thesis by simp
next
  case True
  with rec have recT: "emits m (rec flds src) True bs" by simp
  show ?thesis
  proof (cases "length bs < 2 ^ 64")
    case len: True
    let ?size = "of_nat (length bs) :: u64"
    define K where "K = (\<lambda>s h.
      if o_callback s = No_write then pb_write E WNull ?size s h
      else if bytes_written s + ?size > max_size s then PB_RETURN_ERROR s ''stream full'' h
      else
        let substream = \<lparr>o_callback = o_callback s, o_state = o_state s, max_size = ?size,
                         bytes_written = 0, o_errmsg = None\<rparr> in
        bindO (rec flds src substream h) (\<lambda>(status, substream, h).
          let s = s\<lparr>bytes_written := bytes_written s + bytes_written substream,
                    o_state := o_state substream, o_errmsg := o_errmsg substream\<rparr> in
          if bytes_written substream \<noteq> ?size then PB_RETURN_ERROR s ''submsg size changed'' h
          else Ret (status, s, h)))"
    have K: "emits m K True bs"
    proof (rule emitsI_ok)
      fix s and h :: heap assume m: "mem h = m" and r: "ready s h" and b: "unat (bytes_written s) + length bs < 2 ^ 64"
      show "(fits bs s \<longrightarrow> K s h = Ret (True, put_s bs s, put_h bs s h)) \<and>
        (\<not> fits bs s \<longrightarrow> (\<exists>s' bs'. K s h = Ret (False, s', put_h bs' s h) \<and> (\<exists>zs. bs = bs' @ zs) \<and> fits bs' s))"
      proof (cases "o_callback s = No_write")
        case True
        then show ?thesis by (simp add: K_def emits_null_sizing fits_def)
      next
        case wr: False
        have full: "bytes_written s + ?size > max_size s \<longleftrightarrow> \<not> fits bs s"
          using wr b by (auto simp: fits_def word_less_nat_alt unat_written)
        show ?thesis
        proof (cases "fits bs s")
          case True
          let ?sub = "\<lparr>o_callback = o_callback s, o_state = o_state s, max_size = ?size,
                         bytes_written = 0, o_errmsg = None\<rparr>"
          have "ready ?sub h" "fits bs ?sub"
            using accepts_room [OF r True wr] r wr len by (simp_all add: ready_def fits_def)
          then have "rec flds src ?sub h = Ret (True, put_s bs ?sub, put_h bs ?sub h)"
            using recT m len by (intro emitsD_ok) simp_all
          moreover have "o_errmsg s = None" using r by (simp add: ready_def)
          ultimately show ?thesis
            using True wr full by (simp add: K_def put_s_def put_h_def Let_def)
        next
          case False
          then have "K s h = Ret (False, PB_SET_ERROR s ''stream full'', put_h [] s h)"
            using wr full by (simp add: K_def PB_RETURN_ERROR_def)
          with False fits_Nil [OF r] show ?thesis by (metis append_Nil)
        qed
      qed
    qed
    have eq: "pb_encode_submessage E rec flds src s h = thenO (pb_encode_varint E ?size s h) K" if "mem h = m" for s and h :: heap
      unfolding pb_encode_submessage_def K_def Let_def sizing_run [OF recT that len]
      by (simp only: bindO.simps prod.case bytes_written_sizing not_True_eq_False if_False)
    have "emits m (\<lambda>s h. thenO (pb_encode_varint E ?size s h) K) (True \<and> True)
        (if True then varint (unat ?size) @ bs else varint (unat ?size))"
      by (intro emits_thenO emits_varint K)
    then show ?thesis
      using True len by (subst emits_cong [OF eq]) simp_all
  next
    case False
    with True show ?thesis by (intro emits_vacuous) simp
  qed
qed

lemma emits_svarint: "emits m (pb_encode_svarint E v) True (varint (unat (zigzag_encode v)))"
  by (rule emits_eqI [OF emits_varint]) (simp add: pb_encode_svarint_def)

lemma emits_int_fields:
  "intW True id m f src = Ret (ok, bs) \<Longrightarrow> emits m (pb_enc_varint E f src) ok bs"
  "intW False id m f src = Ret (ok, bs) \<Longrightarrow> emits m (pb_enc_uvarint E f src) ok bs"
  "intW True zigzag_encode m f src = Ret (ok, bs) \<Longrightarrow> emits m (pb_enc_svarint E f src) ok bs"
  unfolding intW_def
  by (auto simp: pb_enc_varint_def pb_enc_uvarint_def pb_enc_svarint_def split: if_splits
      intro!: emits_eqI [OF emits_varint] emits_eqI [OF emits_svarint] emits_eqI [OF emits_error])

lemma emits_bytes: "bytesW m f src = Ret (ok, bs) \<Longrightarrow> emits m (pb_enc_bytes E f src) ok bs"
proof -
  assume *: "bytesW m f src = Ret (ok, bs)"
  consider (null) "src = 0"
    | (big) "src \<noteq> 0" "PB_ATYPE (type f) = PB_ATYPE_STATIC \<and> unat (bytes_size m src) + 4 > unat (data_size f)"
    | (fine) "src \<noteq> 0" "\<not> (PB_ATYPE (type f) = PB_ATYPE_STATIC \<and> unat (bytes_size m src) + 4 > unat (data_size f))"
    by blast
  then show ?thesis
  proof cases
    case null
    have "emits m (pb_encode_string E WNull 0) True (varint (length ([] :: byte list)) @ [])"
      by (rule emits_string) (simp_all add: wbuf_bytes_def)
    with * null have "emits m (pb_encode_string E WNull 0) ok bs"
      by (auto simp: bytesW_def lenW_def)
    then show ?thesis by (rule emits_eqI) (simp add: null pb_enc_bytes_def)
  next
    case big
    then have "PB_BYTES_ARRAY_T_ALLOCSIZE (bytes_size m src) > ucast (data_size f)"
      using unsigned_less [of "bytes_size m src", where 'a = nat]
      by (simp add: PB_BYTES_ARRAY_T_ALLOCSIZE_def word_less_nat_alt unat_word_ariths unat_ucast_up)
    moreover have "emits m (\<lambda>s h. PB_RETURN_ERROR s ''bytes size exceeded'' h) ok bs"
      using emits_error * big by (auto simp: bytesW_def)
    ultimately show ?thesis using big by (rule_tac emits_eqI) (simp_all add: pb_enc_bytes_def)
  next
    case fine
    then have n: "\<not> (PB_ATYPE (type f) = PB_ATYPE_STATIC \<and>
        PB_BYTES_ARRAY_T_ALLOCSIZE (bytes_size m src) > ucast (data_size f))"
      using unsigned_less [of "bytes_size m src", where 'a = nat]
      by (simp add: PB_BYTES_ARRAY_T_ALLOCSIZE_def word_less_nat_alt unat_word_ariths unat_ucast_up)
    let ?bs = "load_bytes m (bytes_data src) (unat (bytes_size m src))"
    have "emits m (pb_encode_string E (WMem (bytes_data src)) (ucast (bytes_size m src))) True
        (varint (length ?bs) @ ?bs)"
      by (rule emits_string) (simp_all add: wbuf_bytes_def)
    with * fine have "emits m (pb_encode_string E (WMem (bytes_data src)) (ucast (bytes_size m src))) ok bs"
      by (auto simp: bytesW_def lenW_def)
    then show ?thesis by (rule emits_eqI) (use fine n in \<open>auto simp: pb_enc_bytes_def\<close>)
  qed
qed

lemma emits_cstring: "stringW m f src = Ret (ok, bs) \<Longrightarrow> emits m (pb_enc_string E f src) ok bs"
proof -
  assume *: "stringW m f src = Ret (ok, bs)"
  define mx :: u64 where "mx = (if PB_ATYPE (type f) = PB_ATYPE_POINTER then -1 else ucast (data_size f))"
  define len where "len = (if src = 0 then 0 else strnlen_loop m src 0 mx)"
  define str where "str = (if src = 0 then [] else load_bytes m src (unat len))"
  have "emits m (pb_encode_string E (if src = 0 then WNull else WMem src) len) True (varint (length str) @ str)"
    by (rule emits_string) (auto simp: wbuf_bytes_def str_def len_def)
  moreover have "ok" "bs = varint (length str) @ str"
    using * by (auto simp: stringW_def lenW_def str_def len_def mx_def split: if_splits)
  ultimately have "emits m (pb_encode_string E (if src = 0 then WNull else WMem src) len) ok bs" by simp
  then show ?thesis by (rule emits_eqI) (simp add: pb_enc_string_def Let_def len_def mx_def)
qed

lemma emits_fixed_length:
  "emits m (pb_enc_fixed_length_bytes E f src) True
     (varint (unat (data_size f)) @ load_bytes m src (unat (data_size f)))"
proof -
  let ?bs = "load_bytes m src (unat (data_size f))"
  have "emits m (pb_encode_string E (WMem src) (ucast (data_size f))) True (varint (length ?bs) @ ?bs)"
    by (rule emits_string) (simp_all add: wbuf_bytes_def)
  then have "emits m (pb_encode_string E (WMem src) (ucast (data_size f))) True
      (varint (unat (data_size f)) @ ?bs)" by simp
  then show ?thesis by (rule emits_eqI) (simp add: pb_enc_fixed_length_bytes_def)
qed

text \<open>The dispatch through \<open>PB_ENCODERS\<close>, given that the recursive call refines its specification.\<close>

lemma emits_value:
  assumes rec: "\<And>flds src ok bs. msg flds src = Ret (ok, bs) \<Longrightarrow> emits m (rec flds src) ok bs"
    and v: "valueW m msg lt f src = Ret (ok, bs)"
  shows "emits m (PB_ENCODERS E rec lt f src) ok bs"
proof -
  have sub0: "emits m (pb_enc_submessage E rec f src) False []" if "ptr f = 0"
    using that by (intro emits_eqI [OF emits_error]) (simp add: pb_enc_submessage_def)
  have sub: "emits m (pb_enc_submessage E rec f src) ok bs"
    if nz: "ptr f \<noteq> 0" and l: "lenW (msg (ptr f) src) = Ret (ok, bs)"
  proof -
    from l obtain b where b: "msg (ptr f) src = Ret (ok, b)" "bs = (if ok then varint (length b) @ b else b)"
      by (auto simp: lenW_Ret)
    have "emits m (pb_encode_submessage E rec (ptr f) src) ok bs"
      unfolding b(2) by (rule emits_submessage) (rule rec [OF b(1)])
    then show ?thesis by (rule emits_eqI) (simp add: nz pb_enc_submessage_def)
  qed
  have fl: "emits m (pb_enc_fixed_length_bytes E f src) ok bs"
    if "lenW (Ret (True, load_bytes m src (unat (data_size f)))) = Ret (ok, bs)"
    using that emits_fixed_length by (auto simp: lenW_def)
  have f32: "emits m (pb_enc_fixed32 E f src) True (load_bytes m src 4)"
    by (rule emits_eqI [OF emits_fixed32]) (simp add: pb_enc_fixed32_def)
  have f64: "emits m (pb_enc_fixed64 E f src) True (load_bytes m src 8)"
    by (rule emits_eqI [OF emits_fixed64]) (simp add: pb_enc_fixed64_def)
  have eq: "PB_ENCODERS E rec lt f src =
     (if lt = PB_LTYPE_VARINT then pb_enc_varint E f src
      else if lt = PB_LTYPE_UVARINT then pb_enc_uvarint E f src
      else if lt = PB_LTYPE_SVARINT then pb_enc_svarint E f src
      else if lt = PB_LTYPE_FIXED32 then pb_enc_fixed32 E f src
      else if lt = PB_LTYPE_FIXED64 then pb_enc_fixed64 E f src
      else if lt = PB_LTYPE_BYTES then pb_enc_bytes E f src
      else if lt = PB_LTYPE_STRING then pb_enc_string E f src
      else if lt = PB_LTYPE_SUBMESSAGE then pb_enc_submessage E rec f src
      else if lt = PB_LTYPE_FIXED_LENGTH_BYTES then pb_enc_fixed_length_bytes E f src
      else (\<lambda>s h. UB))"
    by (intro ext) (simp add: PB_ENCODERS_def)
  show ?thesis
    using v unfolding valueW_def eq
    by (auto split: if_split_asm simp: f32 f64 sub0 intro: emits_int_fields emits_bytes emits_cstring sub fl)
qed

text \<open>Sequencing of specifications is sequencing of encoders.\<close>

lemma emits_seq:
  assumes "seqW r1 r2 = Ret (ok, bs)"
    and "\<And>ok1 b1. r1 = Ret (ok1, b1) \<Longrightarrow> emits m f ok1 b1"
    and "\<And>ok2 b2. r2 = Ret (ok2, b2) \<Longrightarrow> emits m g ok2 b2"
  shows "emits m (\<lambda>s h. thenO (f s h) g) ok bs"
proof -
  from assms(1) obtain ok1 b1 where r1: "r1 = Ret (ok1, b1)"
    and rest: "if ok1 then \<exists>b2. r2 = Ret (ok, b2) \<and> bs = b1 @ b2 else \<not> ok \<and> bs = b1"
    by (auto simp: seqW_Ret)
  show ?thesis
  proof (cases ok1)
    case True
    with rest obtain b2 where "r2 = Ret (ok, b2)" "bs = b1 @ b2" by auto
    then show ?thesis
      using emits_thenO [OF assms(2) [OF r1], of g ok b2] assms(3) True by simp
  next
    case False
    with rest have "\<not> ok" "bs = b1" by auto
    then show ?thesis
      using emits_thenO [OF assms(2) [OF r1], of g False "[]"] False by simp
  qed
qed

lemma emits_array_loop:
  assumes body: "\<And>p ok bs. bodyW p = Ret (ok, bs) \<Longrightarrow> emits m (body p) ok bs"
  shows "repW k bodyW stride p = Ret (ok, bs) \<Longrightarrow> emits m (array_loop k body stride p) ok bs"
proof (induction k arbitrary: p ok bs)
  case 0
  then have "ok" "bs = []" by auto
  then show ?case using emits_Ret by (auto intro: emits_eqI)
next
  case (Suc k)
  have "emits m (\<lambda>s h. thenO (body p s h) (array_loop k body stride (p + ucast stride))) ok bs"
    using Suc.prems by (intro emits_seq) (auto intro: body Suc.IH)
  then show ?case by (rule emits_eqI) simp
qed

text \<open>The elements of a packed fixed-width array all have the same length.\<close>

lemma length_repW:
  assumes "\<And>p ok bs. bodyW p = Ret (ok, bs) \<Longrightarrow> ok \<and> length bs = w"
  shows "repW k bodyW stride p = Ret (ok, bs) \<Longrightarrow> ok \<and> length bs = w * k"
proof (induction k arbitrary: p ok bs)
  case (Suc k)
  then show ?case by (auto simp: seqW_Ret dest!: assms split: if_splits)
qed simp

lemma emits_packed:
  assumes body: "\<And>p ok bs. bodyW p = Ret (ok, bs) \<Longrightarrow> emits m (body p) ok bs"
    and rep: "repW k bodyW stride p = Ret (ok, bs)"
    and size: "\<And>h. mem h = m \<Longrightarrow> length bs < 2 ^ 64 \<Longrightarrow>
      (if ok then sizef h = Ret (True, of_nat (length bs), h) else \<exists>z. sizef h = Ret (False, z, h))"
  shows "emits m (\<lambda>s h. bindO (sizef h) (\<lambda>(ok, size, h).
      if \<not> ok then Ret (False, s, h)
      else thenO (pb_encode_varint E size s h) (\<lambda>s h.
        if o_callback s = No_write then pb_write E WNull size s h
        else array_loop k body stride p s h)))
    ok (if ok then varint (length bs) @ bs else bs)" (is "emits m ?f ok _")
proof (cases "ok \<and> length bs < 2 ^ 64")
  case True
  let ?size = "of_nat (length bs) :: u64"
  let ?K = "\<lambda>s h. if o_callback s = No_write then pb_write E WNull ?size s h
        else array_loop k body stride p s h"
  have loop: "emits m (array_loop k body stride p) True bs"
    using emits_array_loop [OF body rep] True by simp
  have K: "emits m ?K True bs"
    unfolding emits_def
  proof (intro allI impI, elim conjE)
    fix s h assume mrb: "mem h = m" "ready s h" "unat (bytes_written s) + length bs < 2 ^ 64"
    show "if True \<and> fits bs s then ?K s h = Ret (True, put_s bs s, put_h bs s h)
      else \<exists>s' bs'. ?K s h = Ret (False, s', put_h bs' s h) \<and> (True \<longrightarrow> (\<exists>zs. bs = bs' @ zs)) \<and>
             length bs' \<le> length bs \<and> fits bs' s"
    proof (cases "o_callback s = No_write")
      case True
      then show ?thesis by (simp add: emits_null_sizing fits_def)
    next
      case False
      then show ?thesis using loop mrb unfolding emits_def by (simp only: if_False simp_thms) blast
    qed
  qed
  have "emits m (\<lambda>s h. thenO (pb_encode_varint E ?size s h) ?K) (True \<and> True)
      (if True then varint (unat ?size) @ bs else varint (unat ?size))"
    by (intro emits_thenO emits_varint K)
  then have "emits m (\<lambda>s h. thenO (pb_encode_varint E ?size s h) ?K) True (varint (length bs) @ bs)"
    using True by simp
  then have "emits m ?f True (varint (length bs) @ bs)"
    by (rule emits_eqI) (use size True in simp)
  with True show ?thesis by simp
next
  case False
  show ?thesis
  proof (cases ok)
    case True
    with False show ?thesis by (intro emits_vacuous) simp
  next
    case notok: False
    have "emits m ?f False bs"
      by (rule emits_fail_now) (use size notok in fastforce)
    with notok show ?thesis by simp
  qed
qed

end

end
