(* ===== verification/Encode_Correct.thy ===== *)
theory Encode_Correct
  imports Encode_Spec
begin

text \<open>
  The upper half of the encoder refines the wire specification: arrays (packed and not),
  basic, callback and extension fields, the field loop, and by induction on the nesting
  depth \<open>pb_encode\<close> itself, on every conforming output stream.
\<close>

lemma length_valueW_fixed:
  "valueW m msg PB_LTYPE_FIXED32 f p = Ret (ok, bs) \<Longrightarrow> ok \<and> length bs = 4"
  "valueW m msg PB_LTYPE_FIXED64 f p = Ret (ok, bs) \<Longrightarrow> ok \<and> length bs = 8"
  by (auto simp: valueW_def)

context conforming_ostream
begin

text \<open>
  The size that goes in front of a packed array is the size of what follows, whichever of
  the three ways \<open>encode_array\<close> computes it.
\<close>

lemma packed_size:
  assumes rec: "\<And>flds src ok bs. msg flds src = Ret (ok, bs) \<Longrightarrow> emits m (rec flds src) ok bs"
    and rep: "repW (unat count) (valueW m msg (PB_LTYPE (type f)) f) (data_size f) p = Ret (ok, bs)"
    and h: "mem h = m" and len: "length bs < 2 ^ 64"
  defines "sizef \<equiv> \<lambda>h. if PB_LTYPE (type f) = PB_LTYPE_FIXED32 then Ret (True, 4 * count, h)
      else if PB_LTYPE (type f) = PB_LTYPE_FIXED64 then Ret (True, 8 * count, h)
      else bindO (array_loop (unat count) (PB_ENCODERS E rec (PB_LTYPE (type f)) f) (data_size f) p PB_OSTREAM_SIZING h)
             (\<lambda>(ok, sizestream, h). Ret (ok, bytes_written sizestream, h))"
  shows "if ok then sizef h = Ret (True, of_nat (length bs), h) else \<exists>z. sizef h = Ret (False, z, h)"
proof -
  consider (f32) "PB_LTYPE (type f) = PB_LTYPE_FIXED32" | (f64) "PB_LTYPE (type f) = PB_LTYPE_FIXED64"
    | (other) "PB_LTYPE (type f) \<noteq> PB_LTYPE_FIXED32" "PB_LTYPE (type f) \<noteq> PB_LTYPE_FIXED64" by blast
  then show ?thesis
  proof cases
    case f32
    have "ok \<and> length bs = 4 * unat count"
      using length_valueW_fixed(1) rep unfolding f32 by (rule length_repW)
    then show ?thesis by (simp add: sizef_def f32)
  next
    case f64
    have "ok \<and> length bs = 8 * unat count"
      using length_valueW_fixed(2) rep unfolding f64 by (rule length_repW)
    then show ?thesis by (simp add: sizef_def f64)
  next
    case other
    have loop: "emits m (array_loop (unat count) (PB_ENCODERS E rec (PB_LTYPE (type f)) f) (data_size f) p) ok bs"
      using emits_value [OF rec] rep by (rule emits_array_loop) auto
    show ?thesis
    proof (cases ok)
      case True
      then have "array_loop (unat count) (PB_ENCODERS E rec (PB_LTYPE (type f)) f) (data_size f) p
          PB_OSTREAM_SIZING h = Ret (True, put_s bs PB_OSTREAM_SIZING, h)"
        using sizing_run [OF _ h len] loop by simp
      with True other show ?thesis by (simp add: sizef_def PB_OSTREAM_SIZING_def)
    next
      case False
      then obtain s' where "array_loop (unat count) (PB_ENCODERS E rec (PB_LTYPE (type f)) f) (data_size f) p
          PB_OSTREAM_SIZING h = Ret (False, s', h)"
        using sizing_run_fail [OF _ h len] loop by auto
      with False other show ?thesis by (simp add: sizef_def)
    qed
  qed
qed

lemma emits_array:
  assumes rec: "\<And>flds src ok bs. msg flds src = Ret (ok, bs) \<Longrightarrow> emits m (rec flds src) ok bs"
    and w: "arrayW m f p count (valueW m msg (PB_LTYPE (type f)) f) = Ret (ok, bs)"
  shows "emits m (encode_array E f p (ucast count) (PB_ENCODERS E rec (PB_LTYPE (type f)))) ok bs"
proof -
  let ?lt = "PB_LTYPE (type f)" and ?ptr = "PB_ATYPE (type f) = PB_ATYPE_POINTER"
  have cnt: "(ucast count :: u64) = 0 \<longleftrightarrow> count = 0"
    "(ucast count :: u64) > ucast (array_size f) \<longleftrightarrow> count > array_size f"
    "unat (ucast count :: u64) = unat count"
    by (auto simp: unat_ucast_up word_less_nat_alt simp flip: unat_eq_zero)
  consider (none) "count = 0"
    | (big) "count \<noteq> 0" "\<not> ?ptr \<and> count > array_size f"
    | (packed) "count \<noteq> 0" "\<not> (\<not> ?ptr \<and> count > array_size f)" "?lt \<le> PB_LTYPE_LAST_PACKABLE"
    | (plain) "count \<noteq> 0" "\<not> (\<not> ?ptr \<and> count > array_size f)" "\<not> ?lt \<le> PB_LTYPE_LAST_PACKABLE"
    by blast
  then show ?thesis
  proof cases
    case none
    with w have "emits m (\<lambda>s h. Ret (True, s, h)) ok bs" by (auto simp: arrayW_def intro: emits_Ret)
    then show ?thesis by (rule emits_eqI) (simp add: encode_array_def none)
  next
    case big
    with w have "emits m (\<lambda>s h. PB_RETURN_ERROR s ''array max size exceeded'' h) ok bs"
      by (auto simp: arrayW_def intro: emits_error)
    then show ?thesis by (rule emits_eqI) (use big cnt in \<open>simp add: encode_array_def\<close>)
  next
    case packed
    let ?rep = "repW (unat count) (valueW m msg ?lt f) (data_size f) p"
    let ?sizef = "\<lambda>h. if ?lt = PB_LTYPE_FIXED32 then Ret (True, 4 * (ucast count :: u64), h)
      else if ?lt = PB_LTYPE_FIXED64 then Ret (True, 8 * ucast count, h)
      else bindO (array_loop (unat count) (PB_ENCODERS E rec ?lt f) (data_size f) p PB_OSTREAM_SIZING h)
             (\<lambda>(ok, sizestream, h). Ret (ok, bytes_written sizestream, h))"
    let ?body = "\<lambda>s h. bindO (?sizef h) (\<lambda>(ok, size, h).
        if \<not> ok then Ret (False, s, h)
        else thenO (pb_encode_varint E size s h) (\<lambda>s h.
          if o_callback s = No_write then pb_write E WNull size s h
          else array_loop (unat count) (PB_ENCODERS E rec ?lt f) (data_size f) p s h))"
    have size: "if okb then ?sizef h = Ret (True, of_nat (length b), h) else \<exists>z. ?sizef h = Ret (False, z, h)"
      if "?rep = Ret (okb, b)" "mem h = m" "length b < 2 ^ 64" for okb b and h :: heap
      using packed_size [OF rec, where count = "ucast count"] that unfolding cnt by simp
    have body: "emits m ?body ok2 b2" if "lenW ?rep = Ret (ok2, b2)" for ok2 b2
    proof -
      from that obtain b where b: "?rep = Ret (ok2, b)" "b2 = (if ok2 then varint (length b) @ b else b)"
        by (auto simp: lenW_Ret)
      show ?thesis unfolding b(2)
        by (rule emits_packed [OF emits_value [OF rec] b(1)]) (assumption | erule (1) size [OF b(1)])+
    qed
    have "emits m (\<lambda>s h. thenO (pb_encode_tag E PB_WT_STRING (tag f) s h) ?body) ok bs"
      using w packed by (intro emits_seq [where ?r2.0 = "lenW ?rep"]) (auto simp: arrayW_def intro: emits_tag body)
    then show ?thesis by (rule emits_eqI) (unfold encode_array_def cnt, simp only: packed if_False if_True simp_thms)
  next
    case plain
    let ?q = "\<lambda>p. if ?ptr \<and> (?lt = PB_LTYPE_STRING \<or> ?lt = PB_LTYPE_BYTES) then load64 m p else p"
    let ?body = "\<lambda>p s h. thenO (pb_encode_tag_for_field E f s h) (\<lambda>s h.
        if ?ptr \<and> (?lt = PB_LTYPE_STRING \<or> ?lt = PB_LTYPE_BYTES)
        then PB_ENCODERS E rec ?lt f (load64 (mem h) p) s h else PB_ENCODERS E rec ?lt f p s h)"
    have val: "emits m (\<lambda>s h. if ?ptr \<and> (?lt = PB_LTYPE_STRING \<or> ?lt = PB_LTYPE_BYTES)
        then PB_ENCODERS E rec ?lt f (load64 (mem h) p) s h else PB_ENCODERS E rec ?lt f p s h) ok2 b2"
      if "valueW m msg ?lt f (?q p) = Ret (ok2, b2)" for p ok2 b2
      by (rule emits_eqI [OF emits_value [OF rec that]]) auto
    have body: "emits m (?body p) ok2 b2" if "seqW (tagW f) (valueW m msg ?lt f (?q p)) = Ret (ok2, b2)" for p ok2 b2
      using that by (rule emits_seq) (auto intro: emits_tag_for_field val)
    have "repW (unat count) (\<lambda>p. seqW (tagW f) (valueW m msg ?lt f (?q p))) (data_size f) p = Ret (ok, bs)"
      using w plain by (auto simp: arrayW_def)
    then have "emits m (array_loop (unat count) ?body (data_size f) p) ok bs"
      by (rule emits_array_loop [OF body, rotated])
    then show ?thesis by (rule emits_eqI) (unfold encode_array_def cnt, simp only: plain if_False if_True simp_thms)
  qed
qed

text \<open>One field: the tag with the value, or nothing when the field is absent.\<close>

lemma emits_basic:
  assumes rec: "\<And>flds src ok bs. msg flds src = Ret (ok, bs) \<Longrightarrow> emits m (rec flds src) ok bs"
    and w: "basicW E m n msg f p = Ret (ok, bs)"
  shows "emits m (encode_basic_field E n rec f p) ok bs"
proof -
  have known: "\<not> PB_LTYPE (type f) > PB_LTYPE_FIXED_LENGTH_BYTES"
    using w by (auto simp: basicW_def)
  let ?q = "if PB_ATYPE (type f) = PB_ATYPE_POINTER then load64 m p else p"
  let ?has = "if size_offset f \<noteq> 0 then Ret False
             else if PB_HTYPE (type f) = PB_HTYPE_OPTIONAL then
               bindO (pb_check_proto3_default_value E m n f p) (\<lambda>dflt. Ret (\<not> dflt))
             else Ret True"
  let ?lt = "PB_LTYPE (type f)"
  let ?single = "\<lambda>s h. thenO (pb_encode_tag_for_field E f s h) (PB_ENCODERS E rec ?lt f ?q)"
  from w [unfolded basicW_def if_not_P [OF known] Let_def] obtain present where has: "?has = Ret present"
    by auto
  have single: "emits m (\<lambda>s h. thenO (pb_encode_tag_for_field E f s h) (PB_ENCODERS E rec ?lt f q)) ok2 b2"
    if "seqW (tagW f) (valueW m msg ?lt f q) = Ret (ok2, b2)" for q ok2 b2
    using that by (rule emits_seq) (auto intro: emits_tag_for_field emits_value [OF rec])
  let ?rest = "\<lambda>s h. if PB_HTYPE (type f) = PB_HTYPE_REQUIRED then
            (if ?q = 0 then PB_RETURN_ERROR s ''missing required field'' h else ?single s h)
          else if PB_HTYPE (type f) = PB_HTYPE_OPTIONAL then
            (if (if size_offset f \<noteq> 0 then load_bool m (p + scast (size_offset f))
                 else if PB_ATYPE (type f) = PB_ATYPE_POINTER then ?q \<noteq> 0 else present)
             then ?single s h else Ret (True, s, h))
          else if PB_HTYPE (type f) = PB_HTYPE_REPEATED then
            encode_array E f ?q (ucast (if size_offset f \<noteq> 0 then load32 m (p + scast (size_offset f)) else array_size f))
              (PB_ENCODERS E rec ?lt) s h
          else if size_offset f = 0 then UB
          else if load32 m (p + scast (size_offset f)) = tag f then ?single s h else Ret (True, s, h)"
  have "encode_basic_field E n rec f p s h = ?rest s h" if "mem h = m" for s and h :: heap
    using has unfolding encode_basic_field_def Let_def that if_not_P [OF known] by (simp only: bindO.simps split del: if_split)
  moreover have "emits m ?rest ok bs"
    using w unfolding basicW_def Let_def has bindO.simps if_not_P [OF known]
    by (auto split: if_split_asm intro: emits_Ret emits_error single emits_array [OF rec])
  ultimately show ?thesis by (rule_tac emits_eqI)
qed

lemma emits_callback_none:
  "callback_func m p = 0 \<Longrightarrow> emits m (encode_callback_field E f p) True []"
  by (rule emits_eqI [OF emits_Ret]) (simp add: encode_callback_field_def)

lemma emits_field:
  assumes rec: "\<And>flds src ok bs. msg flds src = Ret (ok, bs) \<Longrightarrow> emits m (rec flds src) ok bs"
    and w: "fieldW E m n msg f p = Ret (ok, bs)"
  shows "emits m (encode_field E n rec f p) ok bs"
proof -
  have eq: "encode_field E n rec f p =
     (if PB_ATYPE (type f) = PB_ATYPE_STATIC \<or> PB_ATYPE (type f) = PB_ATYPE_POINTER
      then encode_basic_field E n rec f p
      else if PB_ATYPE (type f) = PB_ATYPE_CALLBACK then encode_callback_field E f p
      else (\<lambda>s h. PB_RETURN_ERROR s ''invalid field type'' h))"
    by (intro ext) (simp add: encode_field_def)
  show ?thesis
    using w unfolding fieldW_def eq
    by (auto split: if_split_asm intro: emits_basic [OF rec] emits_callback_none emits_error)
qed

text \<open>The chain of extensions with the default encoder.\<close>

lemma emits_extensions:
  assumes rec: "\<And>flds src ok bs. msg flds src = Ret (ok, bs) \<Longrightarrow> emits m (rec flds src) ok bs"
  shows "extensionsW E m n msg k ext = Ret (ok, bs) \<Longrightarrow> emits m (extension_encode_loop E n rec k ext) ok bs"
proof (induction k arbitrary: ext ok bs)
  case (Suc k)
  show ?case
  proof (cases "ext = 0")
    case True
    with Suc.prems show ?thesis by (auto intro: emits_eqI [OF emits_Ret])
  next
    case False
    let ?f = "field_at E (ext_type_arg m (ext_type m ext)) 0"
    let ?w = "fieldW E m n msg ?f (if PB_ATYPE (type ?f) = PB_ATYPE_POINTER then ext_dest_addr ext else ext_dest m ext)"
    have noenc: "ext_type_encode m (ext_type m ext) = 0"
      and w: "seqW ?w (extensionsW E m n msg k (ext_next m ext)) = Ret (ok, bs)"
      using Suc.prems False by (auto simp: Let_def split: if_split_asm)
    have dflt: "emits m (default_extension_encoder E n rec ext) ok1 b1" if "?w = Ret (ok1, b1)" for ok1 b1
      by (rule emits_eqI [OF emits_field [OF rec that]])
        (auto simp: default_extension_encoder_def Let_def split: if_split)
    have more: "emits m (\<lambda>s h. extension_encode_loop E n rec k (ext_next (mem h) ext) s h) ok2 b2"
      if "extensionsW E m n msg k (ext_next m ext) = Ret (ok2, b2)" for ok2 b2
      by (rule emits_eqI [OF Suc.IH [OF that]]) simp
    have "emits m (\<lambda>s h. thenO (default_extension_encoder E n rec ext s h)
        (\<lambda>s h. extension_encode_loop E n rec k (ext_next (mem h) ext) s h)) ok bs"
      using w by (rule emits_seq) (auto intro: dflt more)
    then show ?thesis by (rule emits_eqI) (use False noenc in \<open>simp add: Let_def\<close>)
  qed
qed simp

lemma emits_fields:
  assumes rec: "\<And>flds src ok bs. msg flds src = Ret (ok, bs) \<Longrightarrow> emits m (rec flds src) ok bs"
  shows "fieldsW E m n msg k it = Ret (ok, bs) \<Longrightarrow> emits m (pb_encode_loop E n rec k it) ok bs"
proof (induction k arbitrary: it ok bs)
  case (Suc k)
  let ?ext = "PB_LTYPE (type (iter_pos E it)) = PB_LTYPE_EXTENSION"
  let ?here = "\<lambda>s h. if ?ext then encode_extension_field E n rec (iter_pos E it) (pData it) s h
            else encode_field E n rec (iter_pos E it) (pData it) s h"
  let ?rest = "\<lambda>s h. if fst (pb_field_iter_next E it)
         then pb_encode_loop E n rec k (snd (pb_field_iter_next E it)) s h else Ret (True, s, h)"
  have ext: "emits m (encode_extension_field E n rec (iter_pos E it) (pData it)) ok1 b1"
    if "extensionsW E m n msg (Suc n) (load64 m (pData it)) = Ret (ok1, b1)" for ok1 b1
    by (rule emits_eqI [OF emits_extensions [OF rec that]]) (simp_all only: encode_extension_field_def)
  have here: "emits m ?here ok1 b1"
    if "(if ?ext then extensionsW E m n msg (Suc n) (load64 m (pData it))
         else fieldW E m n msg (iter_pos E it) (pData it)) = Ret (ok1, b1)" for ok1 b1
    using that ext emits_field [OF rec] by (cases ?ext) (simp_all del: extensionsW.simps)
  have rest: "emits m ?rest ok2 b2"
    if "(if fst (pb_field_iter_next E it) then fieldsW E m n msg k (snd (pb_field_iter_next E it))
         else Ret (True, [])) = Ret (ok2, b2)" for ok2 b2
    using that Suc.IH emits_Ret by (cases "fst (pb_field_iter_next E it)") simp_all
  have "emits m (\<lambda>s h. thenO (?here s h) ?rest) ok bs"
    using Suc.prems unfolding fieldsW.simps by (rule emits_seq) (auto intro: here rest simp del: extensionsW.simps)
  then show ?case by (rule emits_eqI) (simp only: pb_encode_loop.simps Let_def split_def)
qed simp

text \<open>
  The refinement theorem of the encoder: on every conforming stream \<open>pb_encode\<close> emits the
  wire form of the message.
\<close>

lemma emits_message:
  "messageW E m n flds src = Ret (ok, bs) \<Longrightarrow> emits m (pb_encode E n flds src) ok bs"
proof (induction n arbitrary: flds src ok bs)
  case (Suc n)
  show ?case
  proof (cases "fst (pb_field_iter_begin E flds src)")
    case True
    with Suc.prems have "fieldsW E m n (messageW E m n) (Suc (length (ftab E flds)))
        (snd (pb_field_iter_begin E flds src)) = Ret (ok, bs)" by (simp only: messageW.simps if_True)
    from emits_fields [OF Suc.IH this]
    show ?thesis
      by (rule emits_eqI) (simp_all only: pb_encode.simps pb_encode_body_def split_def Let_def True not_True_eq_False if_False)
  next
    case False
    with Suc.prems show ?thesis
      by (auto simp: pb_encode_body_def split_def Let_def intro: emits_eqI [OF emits_Ret])
  qed
qed simp

lemma emits_delimited:
  assumes "lenW (messageW E m n flds src) = Ret (ok, bs)"
  shows "emits m (pb_encode_delimited E n flds src) ok bs"
proof -
  from assms obtain b where b: "messageW E m n flds src = Ret (ok, b)" "bs = (if ok then varint (length b) @ b else b)"
    by (auto simp: lenW_Ret)
  have "emits m (pb_encode_submessage E (pb_encode E n) flds src) ok bs"
    unfolding b(2) by (rule emits_submessage) (rule emits_message [OF b(1)])
  then show ?thesis by (rule emits_eqI) (simp add: pb_encode_delimited_def)
qed

lemma emits_nullterminated:
  assumes "seqW (messageW E m n flds src) (Ret (True, [0])) = Ret (ok, bs)"
  shows "emits m (pb_encode_nullterminated E n flds src) ok bs"
proof -
  have "emits m (pb_write E (WLocal [0]) 1) True [0]"
    using emits_local [of m "[0]"] by simp
  then have "emits m (\<lambda>s h. thenO (pb_encode E n flds src s h) (pb_write E (WLocal [0]) 1)) ok bs"
    using assms by (intro emits_seq) (auto intro: emits_message)
  then show ?thesis by (rule emits_eqI) (simp add: pb_encode_nullterminated_def)
qed

end

end
