(* ===== verification/Descriptors.thy ===== *)
theory Descriptors
  imports Pb_Common
begin

text \<open>
  Well-formed descriptor tables: what the nanopb generator guarantees and the runtime
  relies on; and the tables and inputs at which the witnesses instantiate the theorems.
\<close>

section \<open>Well-formed tables\<close>

text \<open>
  Known types, a \<open>which\<close> member for a oneof, a table for a submessage; callback fields and
  extension fields, whose handling is the user's code, are left out. A \<open>strict\<close>
  description has no pointer fields and enough room for fixed-width values.
\<close>

definition field_ok :: "bool \<Rightarrow> (addr \<Rightarrow> bool) \<Rightarrow> pb_field_t \<Rightarrow> bool" where
  "field_ok strict sub f \<longleftrightarrow>
     PB_ATYPE (type f) \<noteq> PB_ATYPE_CALLBACK \<and>
     PB_LTYPE (type f) \<le> PB_LTYPE_FIXED_LENGTH_BYTES \<and> PB_LTYPE (type f) \<noteq> PB_LTYPE_EXTENSION \<and>
     (PB_HTYPE (type f) = PB_HTYPE_ONEOF \<longrightarrow> size_offset f \<noteq> 0) \<and>
     (PB_LTYPE (type f) = PB_LTYPE_SUBMESSAGE \<longrightarrow> ptr f \<noteq> 0 \<and> sub (ptr f)) \<and>
     (strict \<longrightarrow> PB_ATYPE (type f) = PB_ATYPE_STATIC \<and>
        (PB_LTYPE (type f) = PB_LTYPE_FIXED32 \<longrightarrow> 4 \<le> data_size f) \<and>
        (PB_LTYPE (type f) = PB_LTYPE_FIXED64 \<longrightarrow> 8 \<le> data_size f))"

text \<open>All fields are well-formed, the table ends with the terminator, and messages nest at
  most \<open>n\<close> levels deep.\<close>

fun desc_ok :: "env \<Rightarrow> bool \<Rightarrow> nat \<Rightarrow> addr \<Rightarrow> bool" where
  "desc_ok E strict 0 a \<longleftrightarrow> False"
| "desc_ok E strict (Suc n) a \<longleftrightarrow>
     0 < n \<and> list_all (field_ok strict (desc_ok E strict n)) (takeWhile (\<lambda>f. tag f \<noteq> 0) (ftab E a)) \<and>
     field_at E a (n_fields E a) = PB_LAST_FIELD"

lemma desc_ok_field:
  assumes "desc_ok E strict (Suc n) a" "i < n_fields E a"
  shows "field_ok strict (desc_ok E strict n) (field_at E a i)"
proof -
  have "i < length (ftab E a)" using assms(2) n_fields_le [of E a] by simp
  then have "field_at E a i = takeWhile (\<lambda>f. tag f \<noteq> 0) (ftab E a) ! i"
    using assms(2) by (simp add: field_at_def n_fields_def takeWhile_nth)
  with assms show ?thesis by (simp add: list_all_length n_fields_def)
qed

lemma field_ok_last: "field_ok strict sub PB_LAST_FIELD"
  by (simp add: field_ok_def PB_LAST_FIELD_def PB_ATYPE_def PB_LTYPE_def PB_HTYPE_def)

lemma field_ok_known: "field_ok strict sub f \<Longrightarrow> \<not> PB_LTYPE (type f) > PB_LTYPE_FIXED_LENGTH_BYTES"
  unfolding field_ok_def not_less by blast

lemma ltype_cases:
  assumes "PB_LTYPE t \<le> PB_LTYPE_FIXED_LENGTH_BYTES"
  shows "PB_LTYPE t \<in> {0, 1, 2, 3, 4, 5, 6, 7, 8, 9}"
proof -
  have "unat (PB_LTYPE t) \<le> 9" using assms by (simp add: word_le_nat_alt)
  then have "unat (PB_LTYPE t) \<in> set [0..<10]" by auto
  then have "(of_nat (unat (PB_LTYPE t)) :: byte) \<in> of_nat ` set [0..<10]" by blast
  then show ?thesis by (simp add: upt_rec)
qed

section \<open>Samples\<close>

text \<open>
  Concrete inputs at which the general theorems are instantiated: two descriptor tables
  (the messages of the protocol buffers documentation: an integer field, and a message
  that contains such a message), user code that does nothing, and an allocator that always
  succeeds or always fails.
\<close>

definition sample_int_field :: pb_field_t where
  "sample_int_field = \<lparr>tag = 1, type = 0x00, data_offset = 0, size_offset = 0, data_size = 4,
     array_size = 0, ptr = 0\<rparr>"

definition sample_sub_field :: pb_field_t where
  "sample_sub_field = \<lparr>tag = 3, type = 0x07, data_offset = 0, size_offset = 0, data_size = 4,
     array_size = 0, ptr = 100\<rparr>"

text \<open>A repeated pointer field of 32-bit integers: a count, then the pointer.\<close>

definition sample_array_field :: pb_field_t where
  "sample_array_field = \<lparr>tag = 4, type = 0xA1, data_offset = 8, size_offset = -8, data_size = 4,
     array_size = 0, ptr = 0\<rparr>"

definition sample_env :: env where
  "sample_env =
     \<lparr>ftab = (\<lambda>a. if a = 100 then [sample_int_field, PB_LAST_FIELD]
                  else if a = 200 then [sample_sub_field, PB_LAST_FIELD]
                  else if a = 300 then [sample_array_field, PB_LAST_FIELD] else []),
      user_write = (\<lambda>k s b c h. Ret (False, s, h)),
      user_read = (\<lambda>k s b c h. Ret (False, [], s, h)),
      encode_cb = (\<lambda>a s f p h. Ret (True, s, h)),
      decode_cb = (\<lambda>a s f p h. Ret (True, s, h)),
      ext_encode_cb = (\<lambda>a s x h. Ret (True, s, h)),
      ext_decode_cb = (\<lambda>a s x t w h. Ret (True, s, h)),
      alloc_at = (\<lambda>h p n. 5000)\<rparr>"

text \<open>150 at address 1000, an output object of eight bytes.\<close>

definition sample_heap :: heap where
  "sample_heap = \<lparr>mem = (\<lambda>_. 0)(1000 := 150), blocks = [], out = replicate 8 0\<rparr>"

end
