(* ===== verification/Encode_Local.thy ===== *)
theory Encode_Local
  imports Encode_Spec Descriptors
begin

text \<open>
  What the encoder looks at. The memory of the model is total: a load from anywhere gives a
  byte, where C asks for an object. So for messages without pointer fields this theory shows
  what stands for it: the wire form depends on nothing but the bytes of the message
  struct, as the descriptors lay it out, and of its submessages.
\<close>

section \<open>The bytes of a message\<close>

text \<open>
  \<open>value_readable W sub f p\<close>: a value of field \<open>f\<close> at \<open>p\<close> lies in \<open>W\<close>, the size of a bytes field and the
  first character of a string included. \<open>field_readable\<close> adds the \<open>has_\<close> flag, the count or the
  \<open>which_\<close> member, and takes every item of a repeated field. A fixed-count array has no count; as
  the proto3 check reads one all the same, its first four bytes are taken with it.
\<close>

definition value_readable :: "addr set \<Rightarrow> (addr \<Rightarrow> addr \<Rightarrow> bool) \<Rightarrow> pb_field_t \<Rightarrow> addr \<Rightarrow> bool" where
  "value_readable W sub f p \<longleftrightarrow> region p (unat (data_size f)) \<subseteq> W \<and>
     (PB_LTYPE (type f) = PB_LTYPE_BYTES \<longrightarrow> region p 4 \<subseteq> W) \<and> (PB_LTYPE (type f) = PB_LTYPE_STRING \<longrightarrow> p \<in> W) \<and>
     (PB_LTYPE (type f) = PB_LTYPE_SUBMESSAGE \<longrightarrow> sub (ptr f) p)"

definition field_readable :: "addr set \<Rightarrow> (addr \<Rightarrow> addr \<Rightarrow> bool) \<Rightarrow> pb_field_t \<Rightarrow> addr \<Rightarrow> bool" where
  "field_readable W sub f p \<longleftrightarrow>
     (PB_HTYPE (type f) \<noteq> PB_HTYPE_REPEATED \<longrightarrow> value_readable W sub f p) \<and>
     (PB_HTYPE (type f) = PB_HTYPE_OPTIONAL \<and> size_offset f \<noteq> 0 \<longrightarrow> p + scast (size_offset f) \<in> W) \<and>
     (PB_HTYPE (type f) = PB_HTYPE_REPEATED \<or> PB_HTYPE (type f) = PB_HTYPE_ONEOF \<longrightarrow> region (p + scast (size_offset f)) 4 \<subseteq> W) \<and>
     (PB_HTYPE (type f) = PB_HTYPE_REPEATED \<longrightarrow>
        (\<forall>k < unat (array_size f). value_readable W sub f (p + of_nat k * ucast (data_size f))))"

fun readable_in :: "env \<Rightarrow> addr set \<Rightarrow> nat \<Rightarrow> addr \<Rightarrow> addr \<Rightarrow> bool" where
  "readable_in E W 0 a d \<longleftrightarrow> True"
| "readable_in E W (Suc n) a d \<longleftrightarrow>
     (\<forall>i < n_fields E a. field_readable W (readable_in E W n) (field_at E a i) (pData (iter_at E a d i)))"

section \<open>Loads\<close>

definition agree :: "addr set \<Rightarrow> memory \<Rightarrow> memory \<Rightarrow> bool" where
  "agree W m m' \<longleftrightarrow> (\<forall>a\<in>W. m a = m' a)"

lemma agree_load_bytes: "agree W m m' \<Longrightarrow> region p n \<subseteq> W \<Longrightarrow> load_bytes m p n = load_bytes m' p n"
  by (rule load_bytes_cong) (auto simp: agree_def)

lemma agree_byte: "agree W m m' \<Longrightarrow> p \<in> W \<Longrightarrow> m p = m' p"
  by (simp add: agree_def)

lemma agree_loads:
  assumes "agree W m m'"
  shows "p \<in> W \<Longrightarrow> load8 m p = load8 m' p" "region p 2 \<subseteq> W \<Longrightarrow> load16 m p = load16 m' p"
    "region p 4 \<subseteq> W \<Longrightarrow> load32 m p = load32 m' p" "region p 8 \<subseteq> W \<Longrightarrow> load64 m p = load64 m' p"
    "p \<in> W \<Longrightarrow> load_bool m p = load_bool m' p"
  using assms by (auto simp: load8_def load16_def load32_def load64_def load_bool_def agree_byte
      intro!: arg_cong [of _ _ le_word] agree_load_bytes)

lemma region_step: "sz < mx \<Longrightarrow> region p (unat mx - unat sz) \<subseteq> W \<Longrightarrow>
    p \<in> W \<and> region (p + 1) (unat mx - unat (sz + 1)) \<subseteq> W" for sz mx :: u64
proof -
  assume lt: "sz < mx" and W: "region p (unat mx - unat sz) \<subseteq> W"
  then have "unat (sz + 1) = unat sz + 1"
    using unsigned_less [of mx, where 'a = nat] by (simp add: word_less_nat_alt unat_word_ariths)
  with lt have "unat mx - unat sz = Suc (unat mx - unat (sz + 1))" by (simp add: word_less_nat_alt)
  with W show ?thesis by (simp add: region_Suc)
qed

lemma agree_strnlen:
  "agree W m m' \<Longrightarrow> region p (unat mx - unat sz) \<subseteq> W \<Longrightarrow> strnlen_loop m p sz mx = strnlen_loop m' p sz mx"
proof (induction m p sz mx rule: strnlen_loop.induct)
  case (1 m p sz mx)
  show ?case
  proof (cases "sz < mx")
    case True
    note st = region_step [OF True "1.prems"(2)]
    show ?thesis
      using "1.IH" [OF _ "1.prems"(1)] st True agree_byte [OF "1.prems"(1)]
      by (subst (1 2) strnlen_loop.simps) auto
  next
    case False
    then show ?thesis by (subst (1 2) strnlen_loop.simps) simp
  qed
qed

lemma strnlen_le: "sz \<le> mx \<Longrightarrow> strnlen_loop m p sz mx \<le> mx"
proof (induction m p sz mx rule: strnlen_loop.induct)
  case (1 m p sz mx)
  show ?case
  proof (cases "sz < mx \<and> m p \<noteq> 0")
    case True
    then have "sz + 1 \<le> mx" using inc_le by blast
    with 1 True show ?thesis by (subst strnlen_loop.simps) simp
  next
    case False
    with "1.prems" show ?thesis by (subst strnlen_loop.simps) auto
  qed
qed

section \<open>The wire form is local\<close>

lemma intW_local: "agree W m m' \<Longrightarrow> region p (unat (data_size f)) \<subseteq> W \<Longrightarrow> intW sgned zz m f p = intW sgned zz m' f p"
  by (auto simp: intW_def agree_loads)

lemma bytesW_local:
  assumes same: "agree W m m'" and "region p (unat (data_size f)) \<subseteq> W" "region p 4 \<subseteq> W" "PB_ATYPE (type f) = PB_ATYPE_STATIC"
  shows "bytesW m f p = bytesW m' f p"
proof -
  have sz: "bytes_size m p = bytes_size m' p" using assms(3) by (simp add: bytes_size_def agree_loads [OF same])
  have "load_bytes m (bytes_data p) (unat (bytes_size m' p)) = load_bytes m' (bytes_data p) (unat (bytes_size m' p))"
    if "\<not> unat (bytes_size m' p) + 4 > unat (data_size f)"
    using assms(2) region_sub [of 4 "unat (bytes_size m' p)" "unat (data_size f)" p] that
    by (intro agree_load_bytes [OF same]) (auto simp: bytes_data_def)
  then show ?thesis using assms(4) by (simp add: bytesW_def sz)
qed

lemma stringW_local:
  assumes same: "agree W m m'" and "region p (unat (data_size f)) \<subseteq> W" "PB_ATYPE (type f) = PB_ATYPE_STATIC"
  shows "stringW m f p = stringW m' f p"
proof -
  let ?mx = "ucast (data_size f) :: u64"
  have mx: "unat ?mx = unat (data_size f)" by (simp add: unat_ucast_up)
  have "strnlen_loop m p 0 ?mx = strnlen_loop m' p 0 ?mx"
    using assms(2) by (intro agree_strnlen [OF same]) (simp add: mx)
  moreover have "unat (strnlen_loop m' p 0 ?mx) \<le> unat (data_size f)"
    using strnlen_le [of 0 ?mx m' p] by (simp add: word_le_nat_alt mx)
  then have "load_bytes m p (unat (strnlen_loop m' p 0 ?mx)) = load_bytes m' p (unat (strnlen_loop m' p 0 ?mx))"
    using assms(2) region_mono by (intro agree_load_bytes [OF same]) blast
  ultimately show ?thesis using assms(3) by (simp add: stringW_def)
qed

lemma valueW_local:
  assumes same: "agree W m m'" and f: "field_ok True sub f" and r: "value_readable W rd f p"
    and msg: "\<And>a q. sub a \<Longrightarrow> rd a q \<Longrightarrow> msg a q = msg' a q"
  shows "valueW m msg (PB_LTYPE (type f)) f p = valueW m' msg' (PB_LTYPE (type f)) f p"
proof -
  have W: "region p (unat (data_size f)) \<subseteq> W" and st: "PB_ATYPE (type f) = PB_ATYPE_STATIC"
    using f r by (simp_all add: field_ok_def value_readable_def)
  have l: "load_bytes m p k = load_bytes m' p k" if "k \<le> unat (data_size f)" for k
    using W region_mono [OF that, of p] by (intro agree_load_bytes [OF same]) blast
  have "4 \<le> unat (data_size f)" if "PB_LTYPE (type f) = PB_LTYPE_FIXED32"
    using f that by (simp add: field_ok_def word_le_nat_alt)
  moreover have "8 \<le> unat (data_size f)" if "PB_LTYPE (type f) = PB_LTYPE_FIXED64"
    using f that by (simp add: field_ok_def word_le_nat_alt)
  moreover have "msg (ptr f) p = msg' (ptr f) p" if "PB_LTYPE (type f) = PB_LTYPE_SUBMESSAGE"
    using f r that by (intro msg) (simp_all add: field_ok_def value_readable_def)
  moreover have "bytesW m f p = bytesW m' f p" if "PB_LTYPE (type f) = PB_LTYPE_BYTES"
    using r that by (intro bytesW_local [OF same] W st) (simp add: value_readable_def)
  ultimately show ?thesis
    unfolding valueW_def by (simp add: intW_local [OF same W] stringW_local [OF same W st] l)
qed

lemma repW_local:
  "(\<And>j. j < k \<Longrightarrow> body (p + of_nat j * ucast stride) = body' (p + of_nat j * ucast stride)) \<Longrightarrow>
     repW k body stride p = repW k body' stride p"
proof (induction k arbitrary: p)
  case (Suc k)
  have "body p = body' p" using Suc.prems [of 0] by simp
  moreover have "repW k body stride (p + ucast stride) = repW k body' stride (p + ucast stride)"
  proof (rule Suc.IH)
    fix j assume "j < k"
    then show "body (p + ucast stride + of_nat j * ucast stride) = body' (p + ucast stride + of_nat j * ucast stride)"
      using Suc.prems [of "Suc j"] by (simp add: algebra_simps)
  qed
  ultimately show ?case by simp
qed simp

lemma arrayW_local:
  assumes "PB_ATYPE (type f) = PB_ATYPE_STATIC"
    and v: "\<And>j. j < unat (array_size f) \<Longrightarrow> val (p + of_nat j * ucast (data_size f)) = val' (p + of_nat j * ucast (data_size f))"
  shows "arrayW m f p count val = arrayW m' f p count val'"
proof (cases "count > array_size f")
  case True
  then show ?thesis using assms(1) by (simp add: arrayW_def)
next
  case False
  then have v: "j < unat count \<Longrightarrow> val (p + of_nat j * ucast (data_size f)) = val' (p + of_nat j * ucast (data_size f))" for j
    using v by (simp add: word_less_nat_alt)
  show ?thesis
    unfolding arrayW_def using assms(1) False
    by (simp add: repW_local [where body = val and body' = val', OF v]
        repW_local [where body = "\<lambda>p. seqW (tagW f) (val p)" and body' = "\<lambda>p. seqW (tagW f) (val' p)"] v)
qed

lemma proto3_loop_local:
  assumes "\<And>i. i < n_fields E a \<Longrightarrow> chk (field_at E a i) (pData (iter_at E a d i)) = chk' (field_at E a i) (pData (iter_at E a d i))"
  shows "i < n_fields E a \<Longrightarrow> proto3_loop E chk k (iter_at E a d i) = proto3_loop E chk' k (iter_at E a d i)"
proof (induction k arbitrary: i)
  case (Suc k)
  then show ?case using assms [OF Suc.prems]
    by (cases "chk' (field_at E a i) (pData (iter_at E a d i))") (auto simp: iter_pos_iter_at next_iter_at)
qed simp

lemma proto3_check_local:
  "agree W m m' \<Longrightarrow> field_ok True (desc_ok E True n) f \<Longrightarrow> field_readable W (readable_in E W n) f p \<Longrightarrow>
     pb_check_proto3_default_value E m n f p = pb_check_proto3_default_value E m' n f p"
proof (induction n arbitrary: f p)
  case (Suc n)
  note same = Suc.prems(1)
  have st: "PB_ATYPE (type f) = PB_ATYPE_STATIC" using Suc.prems(2) by (simp add: field_ok_def)
  have cnt: "load32 m (p + scast (size_offset f)) = load32 m' (p + scast (size_offset f))"
    if "PB_HTYPE (type f) = PB_HTYPE_REPEATED \<or> PB_HTYPE (type f) = PB_HTYPE_ONEOF"
    using Suc.prems(3) that by (intro agree_loads [OF same]) (auto simp: field_readable_def)
  have flag: "load_bool m (p + scast (size_offset f)) = load_bool m' (p + scast (size_offset f))"
    if "PB_HTYPE (type f) = PB_HTYPE_OPTIONAL" "size_offset f \<noteq> 0"
    using Suc.prems(3) that by (intro agree_loads [OF same]) (auto simp: field_readable_def)
  have v: "value_readable W (readable_in E W (Suc n)) f p" if "PB_HTYPE (type f) \<noteq> PB_HTYPE_REPEATED"
    using Suc.prems(3) that by (simp add: field_readable_def del: readable_in.simps)
  have zero: "load_bytes m p (unat (data_size f)) = load_bytes m' p (unat (data_size f))" if "PB_HTYPE (type f) \<noteq> PB_HTYPE_REPEATED"
    using v [OF that] by (intro agree_load_bytes [OF same]) (simp add: value_readable_def)
  have size: "bytes_size m p = bytes_size m' p" if "PB_HTYPE (type f) \<noteq> PB_HTYPE_REPEATED" "PB_LTYPE (type f) = PB_LTYPE_BYTES"
    using v [OF that(1)] that(2) by (simp add: bytes_size_def value_readable_def agree_loads [OF same])
  have char: "m p = m' p" if "PB_HTYPE (type f) \<noteq> PB_HTYPE_REPEATED" "PB_LTYPE (type f) = PB_LTYPE_STRING"
    using v [OF that(1)] that(2) by (intro agree_byte [OF same]) (simp add: value_readable_def)
  have sub: "proto3_loop E (pb_check_proto3_default_value E m n) k (iter_at E (ptr f) p 0) =
      proto3_loop E (pb_check_proto3_default_value E m' n) k (iter_at E (ptr f) p 0)"
    if "PB_HTYPE (type f) \<noteq> PB_HTYPE_REPEATED" "PB_LTYPE (type f) = PB_LTYPE_SUBMESSAGE" "0 < n_fields E (ptr f)" for k
  proof (rule proto3_loop_local [OF _ that(3)])
    fix i assume i: "i < n_fields E (ptr f)"
    have "desc_ok E True (Suc n) (ptr f)" using Suc.prems(2) that by (simp add: field_ok_def del: desc_ok.simps)
    from desc_ok_field [OF this i]
    show "pb_check_proto3_default_value E m n (field_at E (ptr f) i) (pData (iter_at E (ptr f) p i)) =
        pb_check_proto3_default_value E m' n (field_at E (ptr f) i) (pData (iter_at E (ptr f) p i))"
      using v [OF that(1)] that(2) i by (intro Suc.IH [OF same]) (simp_all add: value_readable_def)
  qed
  show ?case
    using cnt flag zero size char sub st
    by (simp add: proto3_default_body_def Let_def split_def fst_begin del: proto3_loop.simps)
qed simp

lemma fieldW_local:
  assumes same: "agree W m m'" and f: "field_ok True (desc_ok E True n) f" and r: "field_readable W (readable_in E W n) f p"
    and msg: "\<And>a q. desc_ok E True n a \<Longrightarrow> readable_in E W n a q \<Longrightarrow> msg a q = msg' a q"
  shows "fieldW E m n msg f p = fieldW E m' n msg' f p"
proof -
  have st: "PB_ATYPE (type f) = PB_ATYPE_STATIC" using f by (simp add: field_ok_def)
  have v: "valueW m msg (PB_LTYPE (type f)) f q = valueW m' msg' (PB_LTYPE (type f)) f q"
    if "value_readable W (readable_in E W n) f q" for q
    by (rule valueW_local [OF same f that msg])
  have one: "valueW m msg (PB_LTYPE (type f)) f p = valueW m' msg' (PB_LTYPE (type f)) f p"
    if "PB_HTYPE (type f) \<noteq> PB_HTYPE_REPEATED"
    using r that by (intro v) (simp add: field_readable_def)
  have arr: "arrayW m f p c (valueW m msg (PB_LTYPE (type f)) f) = arrayW m' f p c (valueW m' msg' (PB_LTYPE (type f)) f)"
    if "PB_HTYPE (type f) = PB_HTYPE_REPEATED" for c
    using r that by (intro arrayW_local st v) (simp add: field_readable_def)
  have cnt: "load32 m (p + scast (size_offset f)) = load32 m' (p + scast (size_offset f))"
    if "PB_HTYPE (type f) = PB_HTYPE_REPEATED \<or> PB_HTYPE (type f) = PB_HTYPE_ONEOF"
    using r that by (intro agree_loads [OF same]) (auto simp: field_readable_def)
  have flag: "load_bool m (p + scast (size_offset f)) = load_bool m' (p + scast (size_offset f))"
    if "PB_HTYPE (type f) = PB_HTYPE_OPTIONAL" "size_offset f \<noteq> 0"
    using r that by (intro agree_loads [OF same]) (auto simp: field_readable_def)
  have dflt: "pb_check_proto3_default_value E m n f p = pb_check_proto3_default_value E m' n f p"
    by (rule proto3_check_local [OF same f r])
  consider "PB_HTYPE (type f) = PB_HTYPE_REQUIRED" | "PB_HTYPE (type f) = PB_HTYPE_OPTIONAL"
    | "PB_HTYPE (type f) = PB_HTYPE_REPEATED" | "PB_HTYPE (type f) = PB_HTYPE_ONEOF"
    using htype_cases [of "type f"] by blast
  then have "basicW E m n msg f p = basicW E m' n msg' f p"
    by cases (auto simp: basicW_def Let_def st one arr cnt flag dflt intro!: arg_cong2 [where f = bindO])
  then show ?thesis using st by (simp add: fieldW_def)
qed

lemma fieldsW_local:
  assumes same: "agree W m m'" and a: "desc_ok E True (Suc n) a" "readable_in E W (Suc n) a d"
    and msg: "\<And>a q. desc_ok E True n a \<Longrightarrow> readable_in E W n a q \<Longrightarrow> msg a q = msg' a q"
  shows "i < n_fields E a \<Longrightarrow> fieldsW E m n msg k (iter_at E a d i) = fieldsW E m' n msg' k (iter_at E a d i)"
proof (induction k arbitrary: i)
  case (Suc k)
  have f: "field_ok True (desc_ok E True n) (field_at E a i)" using a(1) Suc.prems by (rule desc_ok_field)
  then have "PB_LTYPE (type (field_at E a i)) \<noteq> PB_LTYPE_EXTENSION" by (simp add: field_ok_def)
  moreover have "fieldW E m n msg (field_at E a i) (pData (iter_at E a d i)) = fieldW E m' n msg' (field_at E a i) (pData (iter_at E a d i))"
    using a(2) Suc.prems by (intro fieldW_local [OF same f _ msg]) simp_all
  ultimately show ?case
    using Suc by (cases "Suc i < n_fields E a") (simp_all add: iter_pos_iter_at next_iter_at del: extensionsW.simps)
qed simp

text \<open>The wire form of a message without pointer fields is a function of the bytes of the message.\<close>

lemma messageW_local:
  "agree W m m' \<Longrightarrow> desc_ok E True n a \<Longrightarrow> readable_in E W n a d \<Longrightarrow> messageW E m n a d = messageW E m' n a d"
proof (induction n arbitrary: a d)
  case (Suc n)
  have "fieldsW E m n (messageW E m n) k (iter_at E a d 0) = fieldsW E m' n (messageW E m' n) k (iter_at E a d 0)"
    if "0 < n_fields E a" for k
    by (rule fieldsW_local [OF Suc.prems _ that]) (rule Suc.IH [OF Suc.prems(1)])
  then show ?case by (simp add: fst_begin del: fieldsW.simps)
qed simp

end
