(* ===== verification/Encode_Props.thy ===== *)
theory Encode_Props
  imports Encode_Correct Encode_Local
begin

text \<open>
  What the refinement gives for the entry points of \<open>pb_encode.c\<close> with the library's own
  memory streams and sizing streams: the bytes written, the size computed, the errors, and
  that a message without pointer fields whose descriptors are well-formed is always encoded or
  refused, never out of depth, by what its own bytes say.
\<close>

section \<open>Memory streams\<close>

lemma ready_from_buffer:
  "b + unat sz \<le> length (out h) \<Longrightarrow> buf.ready (pb_ostream_from_buffer b sz) h"
  unfolding buf.ready_def
  by (simp add: pb_ostream_from_buffer_def buf_accepts_def)

lemma from_buffer_simps [simp]:
  "buf.fits bs (pb_ostream_from_buffer b sz) \<longleftrightarrow> length bs \<le> unat sz"
  "buf.put_h bs (pb_ostream_from_buffer b sz) h = h\<lparr>out := overwrite (out h) b bs\<rparr>"
  "buf.put_s bs (pb_ostream_from_buffer b sz) =
     (pb_ostream_from_buffer b sz)\<lparr>bytes_written := of_nat (length bs), o_state := b + length bs\<rparr>"
  "bytes_written (pb_ostream_from_buffer b sz) = 0"
  by (simp_all add: buf.fits_def buf.put_h_def buf.put_s_def pb_ostream_from_buffer_def buf_sto_def buf_adv_def)

text \<open>What an encoder that emits \<open>bs\<close> does on a memory stream.\<close>

lemma emits_to_buffer:
  assumes e: "buf.emits (mem h) f ok bs" and b: "b + unat sz \<le> length (out h)" and len: "length bs < 2 ^ 64"
  shows "if ok \<and> length bs \<le> unat sz
    then f (pb_ostream_from_buffer b sz) h =
      Ret (True, (pb_ostream_from_buffer b sz)\<lparr>bytes_written := of_nat (length bs), o_state := b + length bs\<rparr>,
           h\<lparr>out := overwrite (out h) b bs\<rparr>)
    else \<exists>s' bs'. f (pb_ostream_from_buffer b sz) h = Ret (False, s', h\<lparr>out := overwrite (out h) b bs'\<rparr>) \<and>
      length bs' \<le> unat sz \<and> (ok \<longrightarrow> (\<exists>zs. bs = bs' @ zs))"
  using e ready_from_buffer [OF b] len unfolding buf.emits_def
  by (drule_tac spec [of _ "pb_ostream_from_buffer b sz"], drule_tac spec [of _ h]) fastforce

section \<open>The default-value check\<close>

lemma proto3_loop_total:
  assumes "\<And>i p. i < n_fields E a \<Longrightarrow> \<exists>b. chk (field_at E a i) p = Ret b"
  shows "i < n_fields E a \<Longrightarrow> n_fields E a - i \<le> k \<Longrightarrow> \<exists>b. proto3_loop E chk k (iter_at E a d i) = Ret b"
proof (induction k arbitrary: i)
  case (Suc k)
  obtain b where "chk (field_at E a i) (pData (iter_at E a d i)) = Ret b" using assms Suc.prems(1) by blast
  then show ?case
    using Suc.IH [of "Suc i"] Suc.prems
    by (auto simp: iter_pos_iter_at next_iter_at)
qed simp

text \<open>
  For a fixed-count array, which has no count, the check reads the first four bytes of the array
  in its place.
\<close>

lemma proto3_fixed_count:
  "PB_HTYPE (type f) = PB_HTYPE_REPEATED \<Longrightarrow> size_offset f = 0 \<Longrightarrow>
     pb_check_proto3_default_value E m (Suc n) f p = Ret (load32 m p = 0)"
  by (simp add: proto3_default_body_def Let_def)

text \<open>The recursive default-value check ends within the nesting depth.\<close>

lemma proto3_check_total:
  "0 < n \<Longrightarrow> field_ok False (desc_ok E False n) f \<Longrightarrow> \<exists>b. pb_check_proto3_default_value E m n f p = Ret b"
proof (induction n arbitrary: f p)
  case (Suc n)
  have sub: "\<exists>b. proto3_loop E (pb_check_proto3_default_value E m n) (Suc (length (ftab E (ptr f))))
      (snd (pb_field_iter_begin E (ptr f) p)) = Ret b"
    if "desc_ok E False (Suc n) (ptr f)" "fst (pb_field_iter_begin E (ptr f) p)"
  proof -
    have chk: "\<exists>b. pb_check_proto3_default_value E m n (field_at E (ptr f) i) q = Ret b"
      if "i < n_fields E (ptr f)" for i q
      using desc_ok_field [OF \<open>desc_ok E False (Suc n) (ptr f)\<close> that] \<open>desc_ok E False (Suc n) (ptr f)\<close>
      by (intro Suc.IH) auto
    show ?thesis
      using proto3_loop_total [where E = E and a = "ptr f" and i = 0 and d = p and
          k = "Suc (length (ftab E (ptr f)))" and chk = "pb_check_proto3_default_value E m n"] chk
        that(2) n_fields_le [of E "ptr f"] by (simp add: fst_begin del: proto3_loop.simps)
  qed
  show ?case
    using Suc.prems(2) sub
    by (auto simp: proto3_default_body_def Let_def field_ok_def split_def simp del: proto3_loop.simps desc_ok.simps)
qed simp

section \<open>Totality\<close>

lemma lenW_total [intro]: "isRet (r) \<Longrightarrow> isRet (lenW r)"
  by (cases r) (auto simp: lenW_def)

lemma seqW_total [intro]: "isRet (r) \<Longrightarrow> isRet (q) \<Longrightarrow> isRet (seqW r q)"
  by (cases r; cases q) (auto simp: seqW_def)

lemma repW_total: "(\<And>p. isRet (body p)) \<Longrightarrow> isRet (repW k body st p)"
  by (induction k arbitrary: p) (auto intro: seqW_total)

lemma valueW_total:
  assumes "\<And>a q. sub a \<Longrightarrow> isRet (msg a q)" "field_ok False sub f"
  shows "isRet (valueW m msg (PB_LTYPE (type f)) f p)"
proof -
  have "PB_LTYPE (type f) \<in> {0, 1, 2, 3, 4, 5, 6, 7, 8, 9}" "PB_LTYPE (type f) \<noteq> 8"
    using assms(2) ltype_cases [of "type f"] by (simp_all add: field_ok_def)
  moreover have "isRet (lenW (msg (ptr f) p))" if "PB_LTYPE (type f) = 7"
    using assms that by (intro lenW_total) (simp add: field_ok_def)
  ultimately show ?thesis
    by (auto simp: valueW_def intW_def bytesW_def stringW_def lenW_def)
qed

lemma tagW_total: "isRet (tagW f)"
  by (auto simp: tagW_def split: option.split)

lemma arrayW_total:
  assumes "\<And>p. isRet (value p)"
  shows "isRet (arrayW m f p c value)"
  unfolding arrayW_def using assms
  by (auto simp: tagW_total intro!: repW_total seqW_total lenW_total)

lemma fieldW_total:
  assumes sub: "\<And>a q. desc_ok E False n a \<Longrightarrow> isRet (msg a q)" and f: "field_ok False (desc_ok E False n) f" and n: "0 < n"
  shows "isRet (fieldW E m n msg f p)"
proof -
  have v: "isRet (valueW m msg (PB_LTYPE (type f)) f q)" for q
    using sub f by (rule valueW_total)
  then have s: "isRet (seqW (tagW f) (valueW m msg (PB_LTYPE (type f)) f q))" for q
    by (intro seqW_total tagW_total)
  obtain b where b: "pb_check_proto3_default_value E m n f p = Ret b"
    using proto3_check_total [OF n f] by blast
  show ?thesis
    using f field_ok_known [OF f] s arrayW_total [OF v] htype_cases [of "type f"]
    by (auto simp: fieldW_def basicW_def Let_def b field_ok_def)
qed

lemma fieldsW_total:
  assumes sub: "\<And>a q. desc_ok E False n a \<Longrightarrow> isRet (msg a q)" and a: "desc_ok E False (Suc n) a"
  shows "i < n_fields E a \<Longrightarrow> n_fields E a - i \<le> k \<Longrightarrow> isRet (fieldsW E m n msg k (iter_at E a d i))"
proof (induction k arbitrary: i)
  case (Suc k)
  have f: "field_ok False (desc_ok E False n) (field_at E a i)" using a Suc.prems(1) by (rule desc_ok_field)
  then have "PB_LTYPE (type (field_at E a i)) \<noteq> PB_LTYPE_EXTENSION" by (simp add: field_ok_def)
  moreover have "isRet (fieldW E m n msg (field_at E a i) (pData (iter_at E a d i)))"
    using sub f a by (intro fieldW_total) auto
  moreover have "isRet (fieldsW E m n msg k (iter_at E a d (Suc i)))" if "Suc i < n_fields E a"
    using that Suc.prems by (intro Suc.IH) auto
  ultimately show ?case
    using Suc.prems(1) by (auto simp: iter_pos_iter_at next_iter_at intro!: seqW_total simp del: extensionsW.simps)
qed simp

lemma messageW_total: "desc_ok E False n a \<Longrightarrow> isRet (messageW E m n a d)"
proof (induction n arbitrary: a d)
  case (Suc n)
  have "isRet (fieldsW E m n (messageW E m n) (Suc (length (ftab E a))) (iter_at E a d 0))" if "0 < n_fields E a"
    using Suc.IH Suc.prems that n_fields_le [of E a] by (intro fieldsW_total) auto
  then show ?case by (auto simp: fst_begin simp del: fieldsW.simps)
qed simp

section \<open>The entry points\<close>

lemma sample_wire: "messageW sample_env (mem sample_heap) 3 200 1000 = Ret (True, [0x1A, 3, 8, 0x96, 1])"
  by code_simp

lemma sample_out: "length (out sample_heap) = 8"
  by (simp add: sample_heap_def)

text \<open>
  C1: \<open>pb_encode\<close> into a memory stream that is large enough returns true and leaves exactly
  the wire form of the message at the start of the buffer; nothing else in the output
  object, in memory or among the allocations changes, and \<open>bytes_written\<close> is its length.
\<close>

theorem pb_encode_to_buffer:
  assumes "messageW E (mem h) n flds src = Ret (True, bs)"
    and "b + unat sz \<le> length (out h)" and "length bs \<le> unat sz"
  shows "pb_encode E n flds src (pb_ostream_from_buffer b sz) h =
      Ret (True, (pb_ostream_from_buffer b sz)\<lparr>bytes_written := of_nat (length bs), o_state := b + length bs\<rparr>,
           h\<lparr>out := take b (out h) @ bs @ drop (b + length bs) (out h)\<rparr>)"
proof -
  have "length bs < 2 ^ 64" using assms(3) unsigned_less [of sz, where 'a = nat] by simp
  from emits_to_buffer [OF buf.emits_message [OF assms(1)] assms(2) this] show ?thesis
    using assms(3) by (simp add: overwrite_def)
qed

theorem pb_encode_to_buffer_witness:
  "pb_encode sample_env 3 200 1000 (pb_ostream_from_buffer 0 6) sample_heap =
     Ret (True, (pb_ostream_from_buffer 0 6)\<lparr>bytes_written := 5, o_state := 5\<rparr>,
          sample_heap\<lparr>out := [0x1A, 3, 8, 0x96, 1, 0, 0, 0]\<rparr>)"
proof -
  have "drop (Suc (Suc (Suc (Suc (Suc 0))))) (out sample_heap) = [0, 0, 0]"
    by code_simp
  with pb_encode_to_buffer [OF sample_wire, of 0 6] show ?thesis by (simp add: sample_out)
qed

text \<open>
  C2: when the buffer is too small, or the message cannot be encoded, \<open>pb_encode\<close> returns
  false; what it wrote until then stays inside the buffer and, in the first case, is a
  prefix of the wire form.
\<close>

theorem pb_encode_buffer_full:
  assumes "messageW E (mem h) n flds src = Ret (ok, bs)"
    and "b + unat sz \<le> length (out h)" and "length bs < 2 ^ 64" and "ok \<Longrightarrow> unat sz < length bs"
  shows "\<exists>s' bs'. pb_encode E n flds src (pb_ostream_from_buffer b sz) h =
        Ret (False, s', h\<lparr>out := take b (out h) @ bs' @ drop (b + length bs') (out h)\<rparr>) \<and>
      length bs' \<le> unat sz \<and> (ok \<longrightarrow> (\<exists>zs. bs = bs' @ zs))"
proof -
  have "\<not> (ok \<and> length bs \<le> unat sz)" using assms(4) by linarith
  with emits_to_buffer [OF buf.emits_message [OF assms(1)] assms(2,3)] show ?thesis
    by (simp add: overwrite_def)
qed

theorem pb_encode_buffer_full_witness:
  "\<exists>s' bs'. pb_encode sample_env 3 200 1000 (pb_ostream_from_buffer 1 4) sample_heap =
        Ret (False, s', sample_heap\<lparr>out := take 1 (out sample_heap) @ bs' @ drop (1 + length bs') (out sample_heap)\<rparr>) \<and>
      length bs' \<le> 4 \<and> (True \<longrightarrow> (\<exists>zs. [0x1A, 3, 8, 0x96, 1] = bs' @ zs))"
  using pb_encode_buffer_full [OF sample_wire, of 1 4] by (simp add: sample_out)

text \<open>
  C3: \<open>pb_get_encoded_size\<close> is exact: it returns the length of the wire form that
  \<open>pb_encode\<close> writes, fails exactly when the message cannot be encoded, and changes
  nothing.
\<close>

theorem pb_get_encoded_size_exact:
  assumes "messageW E (mem h) n flds src = Ret (ok, bs)" and "length bs < 2 ^ 64"
  shows "pb_get_encoded_size E n flds src h = Ret (if ok then Some (of_nat (length bs)) else None, h)"
proof (cases ok)
  case True
  with buf.sizing_run [of "mem h" "pb_encode E n flds src" bs h] buf.emits_message [OF assms(1)] assms(2)
  show ?thesis by (simp add: pb_get_encoded_size_def PB_OSTREAM_SIZING_def)
next
  case False
  with buf.sizing_run_fail [of "mem h" "pb_encode E n flds src" bs h] buf.emits_message [OF assms(1)] assms(2)
  show ?thesis by (auto simp: pb_get_encoded_size_def)
qed

theorem pb_get_encoded_size_exact_witness:
  "pb_get_encoded_size sample_env 3 200 1000 sample_heap = Ret (Some 5, sample_heap)"
  using pb_get_encoded_size_exact [OF sample_wire] by simp

text \<open>
  C4: \<open>pb_encode_delimited\<close> on a memory stream, for a message without user callbacks. When the
  message can be encoded and its length as a varint and the message together fit into the
  buffer, it returns true, exactly these bytes stand at the start of the buffer, and the stream
  counts them and has no error. When they do not fit it returns false, and what it wrote until
  then is a prefix of them inside the buffer. When the message cannot be encoded it returns
  false and has written nothing. (Messages whose framed length does not fit into 64 bits are left out.)
\<close>

theorem pb_encode_delimited_to_buffer:
  assumes "messageW E (mem h) n flds src = Ret (ok, bs)"
    and "b + unat sz \<le> length (out h)" and "length (varint (length bs) @ bs) < 2 ^ 64"
  shows "if \<not> ok
    then \<exists>s'. pb_encode_delimited E n flds src (pb_ostream_from_buffer b sz) h = Ret (False, s', h)
    else if length (varint (length bs) @ bs) \<le> unat sz
    then pb_encode_delimited E n flds src (pb_ostream_from_buffer b sz) h =
      Ret (True, (pb_ostream_from_buffer b sz)\<lparr>bytes_written := of_nat (length (varint (length bs) @ bs)),
             o_state := b + length (varint (length bs) @ bs), o_errmsg := None\<rparr>,
           h\<lparr>out := overwrite (out h) b (varint (length bs) @ bs)\<rparr>)
    else \<exists>s' bs'. pb_encode_delimited E n flds src (pb_ostream_from_buffer b sz) h =
        Ret (False, s', h\<lparr>out := overwrite (out h) b bs'\<rparr>) \<and>
      length bs' \<le> unat sz \<and> (\<exists>zs. varint (length bs) @ bs = bs' @ zs)"
proof (cases ok)
  case True
  let ?bs = "varint (length bs) @ bs"
  have w: "lenW (messageW E (mem h) n flds src) = Ret (True, ?bs)" using assms(1) True by (simp add: lenW_def)
  moreover have "(pb_ostream_from_buffer b sz)\<lparr>bytes_written := v, o_state := st, o_errmsg := None\<rparr> =
      (pb_ostream_from_buffer b sz)\<lparr>bytes_written := v, o_state := st\<rparr>" for v st
    by (simp add: pb_ostream_from_buffer_def)
  ultimately show ?thesis
    using emits_to_buffer [OF buf.emits_delimited [OF w] assms(2,3)] True
    by (cases "length ?bs \<le> unat sz") simp_all
next
  case False
  have "buf.emits (mem h) (pb_encode E n flds src) False bs" using buf.emits_message [OF assms(1)] False by simp
  from buf.sizing_run_fail [OF this] assms(3) False show ?thesis
    by (fastforce simp: pb_encode_delimited_def pb_encode_submessage_def)
qed

theorem pb_encode_delimited_to_buffer_witness:
  "pb_encode_delimited sample_env 3 200 1000 (pb_ostream_from_buffer 1 7) sample_heap =
      Ret (True, (pb_ostream_from_buffer 1 7)\<lparr>bytes_written := 6, o_state := 7, o_errmsg := None\<rparr>,
        sample_heap\<lparr>out := overwrite (out sample_heap) 1 [5, 0x1A, 3, 8, 0x96, 1]\<rparr>) \<and>
   (\<exists>s' bs'. pb_encode_delimited sample_env 3 200 1000 (pb_ostream_from_buffer 1 4) sample_heap =
      Ret (False, s', sample_heap\<lparr>out := overwrite (out sample_heap) 1 bs'\<rparr>) \<and> length bs' \<le> 4)"
  using pb_encode_delimited_to_buffer [OF sample_wire, of 1 7] pb_encode_delimited_to_buffer [OF sample_wire, of 1 4]
  by (auto simp: sample_out varint_small)

text \<open>
  \<open>pb_encode_nullterminated\<close> writes the message and one zero byte.
\<close>

theorem pb_encode_nullterminated_to_buffer:
  assumes "messageW E (mem h) n flds src = Ret (True, bs)"
    and "b + unat sz \<le> length (out h)" and "length bs < unat sz"
  shows "\<exists>s'. pb_encode_nullterminated E n flds src (pb_ostream_from_buffer b sz) h =
      Ret (True, s', h\<lparr>out := overwrite (out h) b (bs @ [0])\<rparr>)"
proof -
  have "length (bs @ [0 :: byte]) < 2 ^ 64" using assms(3) unsigned_less [of sz, where 'a = nat] by simp
  moreover have "seqW (messageW E (mem h) n flds src) (Ret (True, [0])) = Ret (True, bs @ [0])"
    by (simp add: assms(1) seqW_def)
  ultimately show ?thesis
    using emits_to_buffer [OF buf.emits_nullterminated assms(2)] assms(3) by fastforce
qed

theorem pb_encode_nullterminated_to_buffer_witness:
  "\<exists>s'. pb_encode_nullterminated sample_env 3 200 1000 (pb_ostream_from_buffer 1 6) sample_heap =
      Ret (True, s', sample_heap\<lparr>out := overwrite (out sample_heap) 1 ([0x1A, 3, 8, 0x96, 1] @ [0])\<rparr>)"
  using pb_encode_nullterminated_to_buffer [OF sample_wire, of 1 6] by (simp add: sample_out)

lemma desc_ok_lax: "desc_ok E True n a \<Longrightarrow> desc_ok E False n a"
proof (induction n arbitrary: a)
  case (Suc n)
  then have "field_ok True (desc_ok E True n) f \<Longrightarrow> field_ok False (desc_ok E False n) f" for f
    unfolding field_ok_def by blast
  with Suc.prems show ?case by (auto simp: list_all_iff)
qed simp

text \<open>
  C5: encoding a message without pointer, callback and extension fields, with well-formed
  descriptors of nesting depth below \<open>n\<close>, always comes back, whatever its bytes are, and looks at
  nothing but the message. Let \<open>W\<close> hold the struct as the descriptors lay it out, with its submessages.
  Then there is one wire form, or one refusal, for every memory that has the same bytes in \<open>W\<close>,
  and, as long as the encoding is shorter than 2 to the 64 bytes, \<open>pb_encode\<close> on a memory stream
  returns in each of these memories: true exactly when the message can be encoded and fits, with
  the same bytes written, and false otherwise, having written inside the buffer only. (The
  memory of the model is total, so that this independence stands for the absence of reads outside
  of the message.)
\<close>

theorem pb_encode_returns:
  assumes "desc_ok E True n flds" and "readable_in E W n flds src" and "b + unat sz \<le> length o0"
  shows "\<exists>ok bs. \<forall>h. (\<forall>a\<in>W. mem h a = m a) \<and> out h = o0 \<longrightarrow>
    messageW E (mem h) n flds src = Ret (ok, bs) \<and>
    (length bs < 2 ^ 64 \<longrightarrow>
      (if ok \<and> length bs \<le> unat sz
       then pb_encode E n flds src (pb_ostream_from_buffer b sz) h =
         Ret (True, (pb_ostream_from_buffer b sz)\<lparr>bytes_written := of_nat (length bs), o_state := b + length bs\<rparr>,
              h\<lparr>out := overwrite o0 b bs\<rparr>)
       else \<exists>s' bs'. pb_encode E n flds src (pb_ostream_from_buffer b sz) h = Ret (False, s', h\<lparr>out := overwrite o0 b bs'\<rparr>) \<and>
         length bs' \<le> unat sz))"
proof -
  obtain ok bs where w: "messageW E m n flds src = Ret (ok, bs)"
    using messageW_total [OF desc_ok_lax [OF assms(1)], of m src] unfolding isRet_iff by fastforce
  have local: "messageW E (mem h) n flds src = Ret (ok, bs)" if "\<forall>a\<in>W. mem h a = m a" for h :: heap
    using messageW_local [of W "mem h" m, OF _ assms(1,2)] that w by (simp add: agree_def)
  have run: "if ok \<and> length bs \<le> unat sz
       then pb_encode E n flds src (pb_ostream_from_buffer b sz) h =
         Ret (True, (pb_ostream_from_buffer b sz)\<lparr>bytes_written := of_nat (length bs), o_state := b + length bs\<rparr>,
              h\<lparr>out := overwrite o0 b bs\<rparr>)
       else \<exists>s' bs'. pb_encode E n flds src (pb_ostream_from_buffer b sz) h = Ret (False, s', h\<lparr>out := overwrite o0 b bs'\<rparr>) \<and>
         length bs' \<le> unat sz"
    if "\<forall>a\<in>W. mem h a = m a" "out h = o0" "length bs < 2 ^ 64" for h :: heap
    using emits_to_buffer [OF buf.emits_message [OF local [OF that(1)]], of b sz] assms(3) that(2,3)
    by (fastforce split: if_splits)
  show ?thesis using local run by blast
qed

lemma sample_rows:
  "n_fields sample_env 200 = 1" "n_fields sample_env 100 = 1"
  "field_at sample_env 200 0 = sample_sub_field" "field_at sample_env 100 0 = sample_int_field"
  "pData (iter_at sample_env 200 1000 0) = 1000" "pData (iter_at sample_env 100 1000 0) = 1000"
  by code_simp+

lemma sample_readable: "readable_in sample_env (region 1000 4) (Suc (Suc (Suc 0))) 200 1000"
  unfolding readable_in.simps
  by (simp add: sample_rows field_readable_def value_readable_def sample_sub_field_def sample_int_field_def PB_HTYPE_def PB_LTYPE_def
      del: iter_at.simps)

theorem pb_encode_returns_witness:
  "pb_encode sample_env 3 200 1000 (pb_ostream_from_buffer 0 8) sample_heap =
     Ret (True, (pb_ostream_from_buffer 0 8)\<lparr>bytes_written := 5, o_state := 5\<rparr>,
          sample_heap\<lparr>out := [0x1A, 3, 8, 0x96, 1, 0, 0, 0]\<rparr>) \<and>
   pb_encode sample_env 3 200 1000 (pb_ostream_from_buffer 0 8) (sample_heap\<lparr>mem := (mem sample_heap)(2000 := 7)\<rparr>) =
     Ret (True, (pb_ostream_from_buffer 0 8)\<lparr>bytes_written := 5, o_state := 5\<rparr>,
          sample_heap\<lparr>mem := (mem sample_heap)(2000 := 7), out := [0x1A, 3, 8, 0x96, 1, 0, 0, 0]\<rparr>)"
proof -
  have "desc_ok sample_env True 3 200" by code_simp
  from pb_encode_returns [OF this sample_readable [folded numeral_3_eq_3], of 0 8 "replicate 8 0" "mem sample_heap"]
  obtain ok bs where r: "\<And>h. (\<forall>a\<in>region 1000 4. mem h a = mem sample_heap a) \<and> out h = replicate 8 0 \<Longrightarrow>
    messageW sample_env (mem h) 3 200 1000 = Ret (ok, bs) \<and>
    (length bs < 2 ^ 64 \<longrightarrow>
      (if ok \<and> length bs \<le> unat (8 :: u64)
       then pb_encode sample_env 3 200 1000 (pb_ostream_from_buffer 0 8) h =
         Ret (True, (pb_ostream_from_buffer 0 8)\<lparr>bytes_written := of_nat (length bs), o_state := 0 + length bs\<rparr>,
              h\<lparr>out := overwrite (replicate 8 0) 0 bs\<rparr>)
       else \<exists>s' bs'. pb_encode sample_env 3 200 1000 (pb_ostream_from_buffer 0 8) h =
           Ret (False, s', h\<lparr>out := overwrite (replicate 8 0) 0 bs'\<rparr>) \<and> length bs' \<le> unat (8 :: u64)))"
    by auto
  have "out sample_heap = replicate 8 0" by (simp add: sample_heap_def)
  with r [of sample_heap] sample_wire have bs: "ok" "bs = [0x1A, 3, 8, 0x96, 1]" by auto
  have "overwrite (replicate 8 0) 0 bs = [0x1A, 3, 8, 0x96, 1, 0, 0, 0]" unfolding bs by code_simp
  have "{..<4} = {0, 1, 2, 3 :: nat}" by auto
  then have "2000 \<notin> region 1000 4" by (simp add: region_def)
  then have elsewhere: "\<forall>a\<in>region 1000 4. mem (sample_heap\<lparr>mem := (mem sample_heap)(2000 := 7)\<rparr>) a = mem sample_heap a"
    by auto
  note over = \<open>overwrite (replicate 8 0) 0 bs = [0x1A, 3, 8, 0x96, 1, 0, 0, 0]\<close> and o0 = \<open>out sample_heap = replicate 8 0\<close>
  from r [of sample_heap] r [of "sample_heap\<lparr>mem := (mem sample_heap)(2000 := 7)\<rparr>"] bs over o0 elsewhere show ?thesis by simp
qed

end
