(* ===== verification/Pb_Istream.thy ===== *)
theory Pb_Istream
  imports Pb_Common
begin

text \<open>
  Input streams and the primitive decoders of \<open>nanopb/pb_decode.c\<close>: reading, varints,
  tags, skipping, substreams and fixed-width integers. A function that hands a value to its
  caller through a pointer to a local variable returns it as an option, \<open>None\<close> when the C
  function returns false. Loops that consume input have the number of bytes left as their
  fuel, which a stream that honours \<open>bytes_left\<close> cannot exhaust.
\<close>

type_synonym ires = "(bool \<times> pb_istream_t \<times> heap) outcome"
type_synonym idec = "pb_istream_t \<Rightarrow> heap \<Rightarrow> ires"
type_synonym 'a ival = "('a option \<times> pb_istream_t \<times> heap) outcome"

text \<open>\<open>T x; if (!f(stream, &x)) return false; ...\<close>, for a caller that returns a status and
  for one that returns a value itself.\<close>

definition withV :: "'a ival \<Rightarrow> ('a \<Rightarrow> idec) \<Rightarrow> ires" where
  "withV r k = bindO r (\<lambda>(v, s, h). case v of None \<Rightarrow> Ret (False, s, h) | Some x \<Rightarrow> k x s h)"

definition bindV :: "'a ival \<Rightarrow> ('a \<Rightarrow> pb_istream_t \<Rightarrow> heap \<Rightarrow> 'b ival) \<Rightarrow> 'b ival" where
  "bindV r k = bindO r (\<lambda>(v, s, h). case v of None \<Rightarrow> Ret (None, s, h) | Some x \<Rightarrow> k x s h)"

definition PB_RETURN_ERROR_v :: "pb_istream_t \<Rightarrow> string \<Rightarrow> heap \<Rightarrow> 'a ival" where
  "PB_RETURN_ERROR_v s msg h = Ret (None, PB_SET_ERROR_i s msg, h)"

section \<open>Input streams\<close>

text \<open>
  \<open>buf_read\<close> copies from the array behind the stream. The first component of the result is
  what a local destination receives.
\<close>

definition buf_read :: "pb_istream_t \<Rightarrow> rbuf \<Rightarrow> u64 \<Rightarrow> heap \<Rightarrow> byte list ival" where
  "buf_read s buf count h =
     (let source = take (unat count) (drop (i_pos s) (i_buf s));
          s' = s\<lparr>i_pos := i_pos s + unat count\<rparr>
      in
      if length source < unat count then UB
      else case buf of
          RNull \<Rightarrow> Ret (Some [], s', h)
        | RLocal \<Rightarrow> Ret (Some source, s', h)
        | RMem p \<Rightarrow> Ret (Some [], s', set_mem h (store_bytes (mem h) p source)))"

text \<open>The call \<open>stream->callback(stream, buf, count)\<close>.\<close>

definition call_read :: "env \<Rightarrow> pb_istream_t \<Rightarrow> rbuf \<Rightarrow> u64 \<Rightarrow> heap \<Rightarrow> byte list ival" where
  "call_read E s buf count h =
     (case i_callback s of
        Buf_read \<Rightarrow> buf_read s buf count h
      | User_read k \<Rightarrow>
          bindO (user_read E k s buf count h) (\<lambda>(ok, bs, s, h). Ret (if ok then Some bs else None, s, h)))"

text \<open>\<open>pb_read\<close> below its skipping branch.\<close>

definition pb_read_direct :: "env \<Rightarrow> rbuf \<Rightarrow> u64 \<Rightarrow> pb_istream_t \<Rightarrow> heap \<Rightarrow> byte list ival" where
  "pb_read_direct E buf count s h =
     (if bytes_left s < count then PB_RETURN_ERROR_v s ''end-of-stream'' h
      else
        bindO (call_read E s buf count h) (\<lambda>(v, s, h).
          case v of
            None \<Rightarrow> PB_RETURN_ERROR_v s ''io error'' h
          | Some bs \<Rightarrow> Ret (Some bs, s\<lparr>bytes_left := bytes_left s - count\<rparr>, h)))"

text \<open>\<open>while (count > 16) { if (!pb_read(stream, tmp, 16)) return false; count -= 16; } return pb_read(stream, tmp, count);\<close>\<close>

function skip_loop :: "env \<Rightarrow> u64 \<Rightarrow> pb_istream_t \<Rightarrow> heap \<Rightarrow> byte list ival" where
  "skip_loop E count s h =
     (if count > 16
      then bindV (pb_read_direct E RLocal 16 s h) (\<lambda>_. skip_loop E (count - 16))
      else bindV (pb_read_direct E RLocal count s h) (\<lambda>_ s h. Ret (Some [], s, h)))"
  by pat_completeness auto
termination
proof (relation "measure (\<lambda>(E, c, s, h). unat c)", simp, clarsimp)
  fix c :: u64 assume "16 < c"
  then show "unat (c - 16) < unat c" by (simp add: unat_sub word_le_nat_alt word_less_nat_alt)
qed

declare skip_loop.simps [simp del]

definition pb_read :: "env \<Rightarrow> rbuf \<Rightarrow> u64 \<Rightarrow> pb_istream_t \<Rightarrow> heap \<Rightarrow> byte list ival" where
  "pb_read E buf count s h =
     (if buf = RNull \<and> i_callback s \<noteq> Buf_read then skip_loop E count s h
      else pb_read_direct E buf count s h)"

text \<open>A call of \<open>pb_read\<close> whose destination is null or memory: only the status matters.\<close>

definition pb_read_to :: "env \<Rightarrow> rbuf \<Rightarrow> u64 \<Rightarrow> idec" where
  "pb_read_to E buf count s h = withV (pb_read E buf count s h) (\<lambda>_ s h. Ret (True, s, h))"

definition pb_readbyte :: "env \<Rightarrow> pb_istream_t \<Rightarrow> heap \<Rightarrow> byte ival" where
  "pb_readbyte E s h =
     (if bytes_left s = 0 then PB_RETURN_ERROR_v s ''end-of-stream'' h
      else
        bindO (call_read E s RLocal 1 h) (\<lambda>(v, s, h).
          case v of
            None \<Rightarrow> PB_RETURN_ERROR_v s ''io error'' h
          | Some [] \<Rightarrow> UB
          | Some (b # bs) \<Rightarrow> Ret (Some b, s\<lparr>bytes_left := bytes_left s - 1\<rparr>, h)))"

definition pb_istream_from_buffer :: "byte list \<Rightarrow> nat \<Rightarrow> u64 \<Rightarrow> pb_istream_t" where
  "pb_istream_from_buffer obj buf bufsize =
     \<lparr>i_callback = Buf_read, i_buf = obj, i_pos = buf, bytes_left = bufsize, i_errmsg = None\<rparr>"

section \<open>Varints\<close>

text \<open>
  The do-while loop of \<open>pb_decode_varint32_eof\<close> with the check after it. \<open>bitpos\<close> is a
  \<open>uint_fast8_t\<close>, eight bits on this target.
\<close>

fun varint32_loop :: "env \<Rightarrow> nat \<Rightarrow> byte \<Rightarrow> u32 \<Rightarrow> pb_istream_t \<Rightarrow> heap \<Rightarrow> u32 ival" where
  "varint32_loop E 0 bitpos result s h = NoFuel"
| "varint32_loop E (Suc n) bitpos result s h =
     bindV (pb_readbyte E s h) (\<lambda>byte s h.
       let sign_extension = (if bitpos < 63 then 0xFF else 0x01) in
       if bitpos \<ge> 32 \<and> byte AND 0x7F \<noteq> 0x00 \<and> (drop_bit 31 result = 0 \<or> byte \<noteq> sign_extension)
       then PB_RETURN_ERROR_v s ''varint overflow'' h
       else
         let result = (if bitpos \<ge> 32 then result
                       else result OR push_bit (unat bitpos) (ucast (byte AND 0x7F)));
             bitpos = bitpos + 7
         in
         if byte AND 0x80 \<noteq> 0 then varint32_loop E n bitpos result s h
         else if bitpos = 35 \<and> byte AND 0x70 \<noteq> 0 then PB_RETURN_ERROR_v s ''varint overflow'' h
         else Ret (Some result, s, h))"

text \<open>
  The second component is what \<open>*eof\<close> is set to (it stays false unless the function sets
  it).
\<close>

definition pb_decode_varint32_eof :: "env \<Rightarrow> pb_istream_t \<Rightarrow> heap \<Rightarrow> (u32 option \<times> bool \<times> pb_istream_t \<times> heap) outcome" where
  "pb_decode_varint32_eof E s h =
     bindO (pb_readbyte E s h) (\<lambda>(v, s, h).
       case v of
         None \<Rightarrow> Ret (None, bytes_left s = 0, s, h)
       | Some byte \<Rightarrow>
           if byte AND 0x80 = 0 then Ret (Some (ucast byte), False, s, h)
           else
             bindO (varint32_loop E (Suc (unat (bytes_left s))) 7 (ucast (byte AND 0x7F)) s h)
               (\<lambda>(v, s, h). Ret (v, False, s, h)))"

definition pb_decode_varint32 :: "env \<Rightarrow> pb_istream_t \<Rightarrow> heap \<Rightarrow> u32 ival" where
  "pb_decode_varint32 E s h = bindO (pb_decode_varint32_eof E s h) (\<lambda>(v, eof, s, h). Ret (v, s, h))"

function varint64_loop :: "env \<Rightarrow> byte \<Rightarrow> u64 \<Rightarrow> pb_istream_t \<Rightarrow> heap \<Rightarrow> u64 ival" where
  "varint64_loop E bitpos result s h =
     (if bitpos \<ge> 64 then PB_RETURN_ERROR_v s ''varint overflow'' h
      else
        bindV (pb_readbyte E s h) (\<lambda>byte s h.
          let result = result OR push_bit (unat bitpos) (ucast (byte AND 0x7F)) in
          if byte AND 0x80 \<noteq> 0 then varint64_loop E (bitpos + 7) result s h
          else Ret (Some result, s, h)))"
  by pat_completeness auto

termination
proof (relation "measure (\<lambda>(E, b, r, s, h). 71 - unat b)", simp, clarsimp)
  fix b :: byte assume "\<not> 64 \<le> b"
  then have "unat b < 64" by (simp add: word_le_nat_alt)
  moreover then have "unat (b + 7) = unat b + 7" by (simp add: unat_word_ariths)
  ultimately show "71 - unat (b + 7) < 71 - unat b" by simp
qed

declare varint64_loop.simps [simp del]

definition pb_decode_varint :: "env \<Rightarrow> pb_istream_t \<Rightarrow> heap \<Rightarrow> u64 ival" where
  "pb_decode_varint E s h = varint64_loop E 0 0 s h"

section \<open>Tags and skipping\<close>

fun skip_varint_loop :: "env \<Rightarrow> nat \<Rightarrow> idec" where
  "skip_varint_loop E 0 s h = NoFuel"
| "skip_varint_loop E (Suc n) s h =
     withV (pb_read E RLocal 1 s h) (\<lambda>bs s h.
       case bs of
         [] \<Rightarrow> UB
       | byte # _ \<Rightarrow> if byte AND 0x80 \<noteq> 0 then skip_varint_loop E n s h else Ret (True, s, h))"

definition pb_skip_varint :: "env \<Rightarrow> idec" where
  "pb_skip_varint E s h = skip_varint_loop E (Suc (unat (bytes_left s))) s h"

definition pb_skip_string :: "env \<Rightarrow> idec" where
  "pb_skip_string E s h = withV (pb_decode_varint32 E s h) (\<lambda>length. pb_read_to E RNull (ucast length))"

record tag_result =
  t_ok :: bool
  t_wire_type :: pb_wire_type_t
  t_tag :: u32
  t_eof :: bool

definition pb_decode_tag :: "env \<Rightarrow> pb_istream_t \<Rightarrow> heap \<Rightarrow> (tag_result \<times> pb_istream_t \<times> heap) outcome" where
  "pb_decode_tag E s h =
     bindO (pb_decode_varint32_eof E s h) (\<lambda>(v, eof, s, h).
       case v of
         None \<Rightarrow> Ret (\<lparr>t_ok = False, t_wire_type = 0, t_tag = 0, t_eof = eof\<rparr>, s, h)
       | Some temp \<Rightarrow>
           if temp = 0 then Ret (\<lparr>t_ok = False, t_wire_type = 0, t_tag = 0, t_eof = True\<rparr>, s, h)
           else Ret (\<lparr>t_ok = True, t_wire_type = temp AND 7, t_tag = drop_bit 3 temp, t_eof = eof\<rparr>, s, h))"

definition pb_skip_field :: "env \<Rightarrow> pb_wire_type_t \<Rightarrow> idec" where
  "pb_skip_field E wire_type s h =
     (if wire_type = PB_WT_VARINT then pb_skip_varint E s h
      else if wire_type = PB_WT_64BIT then pb_read_to E RNull 8 s h
      else if wire_type = PB_WT_STRING then pb_skip_string E s h
      else if wire_type = PB_WT_32BIT then pb_read_to E RNull 4 s h
      else PB_RETURN_ERROR_i s ''invalid wire_type'' h)"

text \<open>
  \<open>read_raw_value\<close> into a local array of \<open>max_size\<close> bytes; the list is the array up to
  the size returned.
\<close>

fun raw_varint_loop :: "env \<Rightarrow> nat \<Rightarrow> byte list \<Rightarrow> pb_istream_t \<Rightarrow> heap \<Rightarrow> byte list ival" where
  "raw_varint_loop E 0 buf s h = Ret (None, s, h)"
| "raw_varint_loop E (Suc room) buf s h =
     bindV (pb_read E RLocal 1 s h) (\<lambda>bs s h.
       case bs of
         [] \<Rightarrow> UB
       | byte # _ \<Rightarrow>
           if byte AND 0x80 \<noteq> 0 then raw_varint_loop E room (buf @ [byte]) s h
           else Ret (Some (buf @ [byte]), s, h))"

definition read_raw_value :: "env \<Rightarrow> pb_wire_type_t \<Rightarrow> nat \<Rightarrow> pb_istream_t \<Rightarrow> heap \<Rightarrow> byte list ival" where
  "read_raw_value E wire_type max_sz s h =
     (if wire_type = PB_WT_VARINT then raw_varint_loop E max_sz [] s h
      else if wire_type = PB_WT_64BIT then
        (if max_sz < 8 then UB else pb_read E RLocal 8 s h)
      else if wire_type = PB_WT_32BIT then
        (if max_sz < 4 then UB else pb_read E RLocal 4 s h)
      else PB_RETURN_ERROR_v s ''invalid wire_type'' h)"

section \<open>Substreams\<close>

definition pb_make_string_substream :: "env \<Rightarrow> pb_istream_t \<Rightarrow> heap \<Rightarrow> pb_istream_t ival" where
  "pb_make_string_substream E s h =
     bindV (pb_decode_varint32 E s h) (\<lambda>size s h.
       if bytes_left s < ucast size then PB_RETURN_ERROR_v s ''parent stream too short'' h
       else Ret (Some (s\<lparr>bytes_left := ucast size\<rparr>), s\<lparr>bytes_left := bytes_left s - ucast size\<rparr>, h))"

text \<open>
  The parent's \<open>state\<close> becomes the substream's: for the streams modelled here, the array
  and the position in it.
\<close>

definition pb_close_string_substream :: "env \<Rightarrow> pb_istream_t \<Rightarrow> idec" where
  "pb_close_string_substream E substream s h =
     bindO (if bytes_left substream \<noteq> 0
            then pb_read_to E RNull (bytes_left substream) substream h
            else Ret (True, substream, h))
       (\<lambda>(ok, substream, h).
         if \<not> ok then Ret (False, s, h)
         else Ret (True, s\<lparr>i_buf := i_buf substream, i_pos := i_pos substream, i_errmsg := i_errmsg substream\<rparr>, h))"

section \<open>Fixed-width and zig-zag integers\<close>

definition zigzag_decode :: "u64 \<Rightarrow> u64" where
  "zigzag_decode value = (if value AND 1 \<noteq> 0 then NOT (drop_bit 1 value) else drop_bit 1 value)"

definition pb_decode_svarint :: "env \<Rightarrow> pb_istream_t \<Rightarrow> heap \<Rightarrow> u64 ival" where
  "pb_decode_svarint E s h =
     bindV (pb_decode_varint E s h) (\<lambda>value s h. Ret (Some (zigzag_decode value), s, h))"

definition pb_decode_fixed32 :: "env \<Rightarrow> addr \<Rightarrow> idec" where
  "pb_decode_fixed32 E dest s h =
     withV (pb_read E RLocal 4 s h) (\<lambda>bytes s h.
       if length bytes < 4 then UB
       else Ret (True, s, set_mem h (store32 (mem h) dest
              (push_bit 0 (ucast (bytes ! 0)) OR push_bit 8 (ucast (bytes ! 1)) OR
               push_bit 16 (ucast (bytes ! 2)) OR push_bit 24 (ucast (bytes ! 3))))))"

definition pb_decode_fixed64 :: "env \<Rightarrow> addr \<Rightarrow> idec" where
  "pb_decode_fixed64 E dest s h =
     withV (pb_read E RLocal 8 s h) (\<lambda>bytes s h.
       if length bytes < 8 then UB
       else Ret (True, s, set_mem h (store64 (mem h) dest
              (push_bit 0 (ucast (bytes ! 0)) OR push_bit 8 (ucast (bytes ! 1)) OR
               push_bit 16 (ucast (bytes ! 2)) OR push_bit 24 (ucast (bytes ! 3)) OR
               push_bit 32 (ucast (bytes ! 4)) OR push_bit 40 (ucast (bytes ! 5)) OR
               push_bit 48 (ucast (bytes ! 6)) OR push_bit 56 (ucast (bytes ! 7))))))"

end
