(* ===== verification/Istream_Contract.thy ===== *)
theory Istream_Contract
  imports Pb_Istream Wire
begin

text \<open>
  What the decoder relies on in an input stream: the rules of \<open>pb_decode.h\<close> for a stream
  callback as the locale \<open>conforming_istream\<close>. A stream's \<open>state\<close> stands for the bytes
  still to come; the callback delivers them in order, as many as it is asked for, and
  leaves \<open>bytes_left\<close> to \<open>pb_read\<close>. The lemmas say what the primitive decoders take from
  such a stream: they never ask for more than there is, they always come back, and on
  well-formed input they return the value that was encoded.
\<close>

type_synonym istate = "byte list \<times> nat"

definition st_of :: "pb_istream_t \<Rightarrow> istate" where
  "st_of s = (i_buf s, i_pos s)"

definition set_st :: "istate \<Rightarrow> pb_istream_t \<Rightarrow> pb_istream_t" where
  "set_st x s = s\<lparr>i_buf := fst x, i_pos := snd x\<rparr>"

lemma st_simps [simp, stream_simps]:
  "st_of (set_st x s) = x" "i_callback (set_st x s) = i_callback s" "bytes_left (set_st x s) = bytes_left s"
  "i_errmsg (set_st x s) = i_errmsg s" "set_st y (set_st x s) = set_st y s"
  "st_of (s\<lparr>bytes_left := n\<rparr>) = st_of s" "st_of (s\<lparr>i_errmsg := e\<rparr>) = st_of s" "set_st (st_of s) s = s"
  "st_of (PB_SET_ERROR_i s msg) = st_of s"
  by (simp_all add: st_of_def set_st_def)

lemma set_st_eq: "s\<lparr>i_buf := i_buf t, i_pos := i_pos t\<rparr> = set_st (st_of t) s"
  by (simp add: set_st_def st_of_def)

definition store_to :: "rbuf \<Rightarrow> byte list \<Rightarrow> heap \<Rightarrow> heap" where
  "store_to buf bs h = (case buf of RMem p \<Rightarrow> set_mem h (store_bytes (mem h) p bs) | _ \<Rightarrow> h)"

definition local_of :: "rbuf \<Rightarrow> byte list \<Rightarrow> byte list" where
  "local_of buf bs = (case buf of RLocal \<Rightarrow> bs | _ \<Rightarrow> [])"

lemma store_to_simps [simp]: "store_to RLocal bs h = h" "store_to RNull bs h = h"
  "store_to (RMem p) bs h = set_mem h (store_bytes (mem h) p bs)"
  "local_of RLocal bs = bs" "local_of RNull bs = []" "local_of (RMem p) bs = []"
  by (simp_all add: store_to_def local_of_def)

locale conforming_istream =
  fixes E :: env
    and cb :: icallback
    and avail :: "istate \<Rightarrow> byte list"
    and adv :: "istate \<Rightarrow> nat \<Rightarrow> istate"
  assumes read_law: "i_callback s = cb \<Longrightarrow> unat count \<le> length (avail (st_of s)) \<Longrightarrow>
      call_read E s buf count h =
        Ret (Some (local_of buf (take (unat count) (avail (st_of s)))), set_st (adv (st_of s) (unat count)) s,
             store_to buf (take (unat count) (avail (st_of s))) h)"
    and avail_adv: "k \<le> length (avail x) \<Longrightarrow> avail (adv x k) = drop k (avail x)"
    and adv_adv: "j + k \<le> length (avail x) \<Longrightarrow> adv (adv x j) k = adv x (j + k)"
    and adv_0: "adv x 0 = x"
begin

text \<open>A usable stream has the bytes it promises; \<open>input\<close> is what it will deliver.\<close>

definition good :: "pb_istream_t \<Rightarrow> bool" where
  "good s \<longleftrightarrow> i_callback s = cb \<and> unat (bytes_left s) \<le> length (avail (st_of s))"

definition input :: "pb_istream_t \<Rightarrow> byte list" where
  "input s = take (unat (bytes_left s)) (avail (st_of s))"

definition eat :: "nat \<Rightarrow> pb_istream_t \<Rightarrow> pb_istream_t" where
  "eat k s = (set_st (adv (st_of s) k) s)\<lparr>bytes_left := bytes_left s - of_nat k\<rparr>"

text \<open>The stream has moved on by some bytes; an error message may have been left.\<close>

definition advances :: "pb_istream_t \<Rightarrow> pb_istream_t \<Rightarrow> bool" where
  "advances s s' \<longleftrightarrow> (\<exists>k \<le> unat (bytes_left s). \<exists>e. s' = (eat k s)\<lparr>i_errmsg := e\<rparr>)"

lemma length_input: "good s \<Longrightarrow> length (input s) = unat (bytes_left s)"
  by (simp add: good_def input_def)

lemma eat_simps [simp]:
  "i_callback (eat k s) = i_callback s" "i_errmsg (eat k s) = i_errmsg s"
  "bytes_left (eat k s) = bytes_left s - of_nat k" "st_of (eat k s) = adv (st_of s) k" "eat 0 s = s"
  by (simp_all add: eat_def adv_0)

lemma unat_left_eat: "k \<le> unat (bytes_left s) \<Longrightarrow> unat (bytes_left s - of_nat k) = unat (bytes_left s) - k"
proof -
  assume k: "k \<le> unat (bytes_left s)"
  then have "k < 2 ^ 64" using unsigned_less [of "bytes_left s", where 'a = nat] by simp
  with k show ?thesis by (simp add: unat_sub word_le_nat_alt)
qed

lemma good_errmsg [simp]: "good (s\<lparr>i_errmsg := e\<rparr>) = good s" "input (s\<lparr>i_errmsg := e\<rparr>) = input s"
  by (simp_all add: good_def input_def)

lemma good_error [simp]: "good (PB_SET_ERROR_i s msg) = good s" "input (PB_SET_ERROR_i s msg) = input s"
  by (simp_all add: PB_SET_ERROR_i_def)

lemma eat_errmsg: "eat k (s\<lparr>i_errmsg := e\<rparr>) = (eat k s)\<lparr>i_errmsg := e\<rparr>"
  by (simp add: eat_def set_st_def st_of_def)

lemma good_eat: "good s \<Longrightarrow> k \<le> unat (bytes_left s) \<Longrightarrow> good (eat k s)"
  by (simp add: good_def avail_adv unat_left_eat diff_le_mono)

lemma input_eat: "good s \<Longrightarrow> k \<le> unat (bytes_left s) \<Longrightarrow> input (eat k s) = drop k (input s)"
  by (simp add: good_def input_def avail_adv unat_left_eat drop_take)

lemma eat_eat:
  assumes "good s" "j + k \<le> unat (bytes_left s)"
  shows "eat k (eat j s) = eat (j + k) s"
  using assms by (simp add: good_def eat_def adv_adv set_st_def st_of_def algebra_simps)

lemma advances_refl [intro]: "advances s s"
  unfolding advances_def by (rule exI [of _ 0]) (auto intro: exI [of _ "i_errmsg s"])

lemma advances_errmsg [intro]: "advances s (s\<lparr>i_errmsg := e\<rparr>)"
  unfolding advances_def by (rule exI [of _ 0]) auto

lemma advances_error [intro]: "advances s (PB_SET_ERROR_i s msg)"
  by (auto simp: PB_SET_ERROR_i_def)

lemma advances_eat [intro]: "k \<le> unat (bytes_left s) \<Longrightarrow> advances s (eat k s)"
  unfolding advances_def by (rule exI [of _ k]) (auto intro: exI [of _ "i_errmsg s"])

lemma advances_good: "good s \<Longrightarrow> advances s s' \<Longrightarrow> good s'"
  by (auto simp: advances_def good_eat)

lemma advances_left: "good s \<Longrightarrow> advances s s' \<Longrightarrow> unat (bytes_left s') \<le> unat (bytes_left s)"
  by (auto simp: advances_def unat_left_eat)

lemma advances_trans:
  assumes "good s" "advances s t" "advances t u"
  shows "advances s u"
proof -
  from assms obtain k e j e' where k: "k \<le> unat (bytes_left s)" "t = (eat k s)\<lparr>i_errmsg := e\<rparr>"
    and j: "j \<le> unat (bytes_left t)" "u = (eat j t)\<lparr>i_errmsg := e'\<rparr>"
    by (auto simp: advances_def)
  then have jk: "k + j \<le> unat (bytes_left s)" by (simp add: unat_left_eat)
  then have "u = (eat (k + j) s)\<lparr>i_errmsg := e'\<rparr>"
    using k j eat_eat [OF assms(1) jk] by (simp add: eat_errmsg)
  with jk show ?thesis unfolding advances_def by blast
qed

section \<open>Reading\<close>

lemma read_direct_ok:
  assumes "good s" "unat count \<le> unat (bytes_left s)"
  shows "pb_read_direct E buf count s h =
    Ret (Some (local_of buf (take (unat count) (input s))), eat (unat count) s, store_to buf (take (unat count) (input s)) h)"
proof -
  have le: "unat count \<le> length (avail (st_of s))" and cb: "i_callback s = cb"
    using assms by (auto simp: good_def)
  have "take (unat count) (avail (st_of s)) = take (unat count) (input s)"
    using assms(2) by (simp add: input_def min_absorb1)
  with read_law [OF cb le, of buf h] assms(2) show ?thesis
    by (simp add: pb_read_direct_def word_less_nat_alt eat_def)
qed

lemma read_direct_eof:
  "unat (bytes_left s) < unat count \<Longrightarrow>
     pb_read_direct E buf count s h = Ret (None, PB_SET_ERROR_i s ''end-of-stream'', h)"
  by (simp add: pb_read_direct_def word_less_nat_alt PB_RETURN_ERROR_v_def)

lemma skip_loop_ok:
  "good s \<Longrightarrow> unat count \<le> unat (bytes_left s) \<Longrightarrow> skip_loop E count s h = Ret (Some [], eat (unat count) s, h)"
proof (induction "unat count" arbitrary: count s rule: less_induct)
  case less
  show ?case
  proof (cases "count > 16")
    case True
    then have c: "16 < unat count" "unat (count - 16) = unat count - 16"
      by (simp_all add: word_less_nat_alt unat_sub word_le_nat_alt)
    have "skip_loop E (count - 16) (eat 16 s) h = Ret (Some [], eat (unat (count - 16)) (eat 16 s), h)"
      using less.prems c unat_left_eat [of 16 s] by (intro less.hyps) (auto intro: good_eat)
    moreover have "eat (unat (count - 16)) (eat 16 s) = eat (unat count) s"
      using less.prems c eat_eat [of s 16 "unat count - 16"] by simp
    ultimately show ?thesis
      using True less.prems c read_direct_ok [of s 16 RLocal h]
      by (subst skip_loop.simps) (simp add: bindV_def)
  next
    case False
    with less.prems read_direct_ok [of s count RLocal h] show ?thesis
      by (subst skip_loop.simps) (simp add: bindV_def)
  qed
qed

lemma skip_loop_eof:
  "good s \<Longrightarrow> unat (bytes_left s) < unat count \<Longrightarrow> \<exists>s'. skip_loop E count s h = Ret (None, s', h) \<and> advances s s'"
proof (induction "unat count" arbitrary: count s rule: less_induct)
  case less
  show ?case
  proof (cases "count > 16 \<and> 16 \<le> unat (bytes_left s)")
    case True
    then have c: "16 < unat count" "unat (count - 16) = unat count - 16"
      by (simp_all add: word_less_nat_alt unat_sub word_le_nat_alt)
    have g: "good (eat 16 s)" using True less.prems by (auto intro: good_eat)
    have "unat (bytes_left (eat 16 s)) < unat (count - 16)"
      using True less.prems c unat_left_eat [of 16 s] by (simp add: diff_less_mono)
    then obtain s' where s': "skip_loop E (count - 16) (eat 16 s) h = Ret (None, s', h)" "advances (eat 16 s) s'"
      using less.hyps [of "count - 16" "eat 16 s"] c g by auto
    have "advances s s'" using less.prems(1) advances_eat [of 16 s] True s'(2) by (blast intro: advances_trans)
    with s' True less.prems read_direct_ok [of s 16 RLocal h] show ?thesis
      by (subst skip_loop.simps) (simp add: bindV_def)
  next
    case False
    then have "pb_read_direct E RLocal (if count > 16 then 16 else count) s h = Ret (None, PB_SET_ERROR_i s ''end-of-stream'', h)"
      using less.prems by (intro read_direct_eof) (auto simp: word_less_nat_alt)
    then show ?thesis
      by (subst skip_loop.simps) (auto simp: bindV_def split: if_splits)
  qed
qed

lemma pb_read_ok:
  "good s \<Longrightarrow> unat count \<le> unat (bytes_left s) \<Longrightarrow> pb_read E buf count s h =
    Ret (Some (local_of buf (take (unat count) (input s))), eat (unat count) s, store_to buf (take (unat count) (input s)) h)"
  by (auto simp: pb_read_def skip_loop_ok read_direct_ok)

lemma pb_read_eof:
  "good s \<Longrightarrow> unat (bytes_left s) < unat count \<Longrightarrow> \<exists>s'. pb_read E buf count s h = Ret (None, s', h) \<and> advances s s'"
  using skip_loop_eof [of s count h] read_direct_eof [of s count buf h]
  by (auto simp: pb_read_def)

lemma readbyte_eof: "bytes_left s = 0 \<Longrightarrow> pb_readbyte E s h = Ret (None, PB_SET_ERROR_i s ''end-of-stream'', h)"
  by (simp add: pb_readbyte_def PB_RETURN_ERROR_v_def)

lemma readbyte_ok:
  assumes "good s" "input s = b # bs"
  shows "pb_readbyte E s h = Ret (Some b, eat 1 s, h)"
proof -
  have n: "bytes_left s \<noteq> 0" "1 \<le> unat (bytes_left s)"
    using assms length_input [OF assms(1)] by (auto simp: unat_eq_zero)
  then have "take 1 (avail (st_of s)) = take 1 (input s)" by (simp add: input_def min_absorb1)
  then have "take 1 (avail (st_of s)) = [b]" using assms(2) by simp
  then show ?thesis
    using assms n read_law [of s 1 RLocal h]
    by (simp add: pb_readbyte_def good_def eat_def)
qed

lemma input_cases:
  assumes "good s"
  obtains (empty) "bytes_left s = 0" "input s = []"
  | (byte) b bs where "input s = b # bs" "0 < unat (bytes_left s)"
  using length_input [OF assms] by (cases "input s") (auto simp: unat_eq_zero)

end

section \<open>The memory stream conforms\<close>

definition buf_avail :: "istate \<Rightarrow> byte list" where
  "buf_avail x = drop (snd x) (fst x)"

definition buf_eat :: "istate \<Rightarrow> nat \<Rightarrow> istate" where
  "buf_eat x k = (fst x, snd x + k)"

interpretation ibuf: conforming_istream E Buf_read buf_avail buf_eat for E
proof unfold_locales
  fix s :: pb_istream_t and count :: u64 and buf and h :: heap
  assume "i_callback s = Buf_read" "unat count \<le> length (buf_avail (st_of s))"
  then show "call_read E s buf count h =
      Ret (Some (local_of buf (take (unat count) (buf_avail (st_of s)))), set_st (buf_eat (st_of s) (unat count)) s,
           store_to buf (take (unat count) (buf_avail (st_of s))) h)"
    by (cases buf) (simp_all add: call_read_def buf_read_def buf_avail_def buf_eat_def st_of_def set_st_def Let_def)
qed (auto simp: buf_avail_def buf_eat_def add.commute)

end
