(* ===== verification/Istream_Varint.thy ===== *)
theory Istream_Varint
  imports Istream_Contract Varint
begin

text \<open>
  Varints on input streams: \<open>pb_decode_varint\<close> and \<open>pb_decode_varint32\<close> invert the
  encoder's varints, always come back on a usable stream, and take at least one byte when
  they succeed.
\<close>

context conforming_istream
begin

text \<open>On input that starts with \<open>bs\<close>, \<open>f\<close> returns \<open>v\<close> and takes exactly \<open>bs\<close>.\<close>

definition takes :: "(pb_istream_t \<Rightarrow> heap \<Rightarrow> 'v ival) \<Rightarrow> byte list \<Rightarrow> 'v \<Rightarrow> bool" where
  "takes f bs v \<longleftrightarrow>
     (\<forall>s h rest. good s \<and> input s = bs @ rest \<longrightarrow> f s h = Ret (Some v, eat (length bs) s, h))"

lemma takesD: "takes f bs v \<Longrightarrow> good s \<Longrightarrow> input s = bs @ rest \<Longrightarrow> f s h = Ret (Some v, eat (length bs) s, h)"
  by (auto simp: takes_def)

lemma takes_eat_1:
  assumes "good s" "input s = b # bs"
  shows "good (eat 1 s)" "input (eat 1 s) = bs" "1 \<le> unat (bytes_left s)"
proof -
  show l: "1 \<le> unat (bytes_left s)" using assms length_input [OF assms(1)] by simp
  show "good (eat 1 s)" using assms(1) l by (rule good_eat)
  show "input (eat 1 s) = bs" using assms l by (simp add: input_eat)
qed

lemma takes_bind:
  assumes f: "takes f bs v" and g: "takes (k v) cs w"
  shows "takes (\<lambda>s h. bindV (f s h) k) (bs @ cs) w"
  unfolding takes_def
proof (intro allI impI, elim conjE)
  fix s h rest assume g0: "good s" and i: "input s = (bs @ cs) @ rest"
  then have l: "length bs + length cs \<le> unat (bytes_left s)" using length_input [OF g0] by simp
  have "k v (eat (length bs) s) h = Ret (Some w, eat (length cs) (eat (length bs) s), h)"
    using l g0 i by (intro takesD [OF g, of _ rest]) (auto intro: good_eat simp: input_eat)
  then show "bindV (f s h) k = Ret (Some w, eat (length (bs @ cs)) s, h)"
    using takesD [OF f g0, of "cs @ rest" h] i eat_eat [OF g0 l] by (simp add: bindV_def)
qed

lemma takes_readbyte: "takes (pb_readbyte E) [b] b"
  using readbyte_ok by (auto simp: takes_def)

lemma takes_step:
  assumes step: "\<And>s h bs. good s \<Longrightarrow> input s = b # bs \<Longrightarrow> f s h = g (eat 1 s) h" and g: "takes g bs v"
  shows "takes f (b # bs) v"
  unfolding takes_def
proof (intro allI impI, elim conjE)
  fix s h rest assume s: "good s" and i: "input s = (b # bs) @ rest"
  then have l: "1 + length bs \<le> unat (bytes_left s)" using length_input [OF s] by simp
  have "f s h = g (eat 1 s) h" using step [OF s] i by simp
  also have "\<dots> = Ret (Some v, eat (length bs) (eat 1 s), h)"
    using takes_eat_1 [OF s] i by (intro takesD [OF g, of _ rest]) auto
  finally show "f s h = Ret (Some v, eat (length (b # bs)) s, h)" using eat_eat [OF s l] by simp
qed

lemma varint64_loop_takes:
  "k < 64 \<Longrightarrow> unat r < 2 ^ k \<Longrightarrow> n * 2 ^ k < 2 ^ 64 \<Longrightarrow>
     takes (varint64_loop E (of_nat k) r) (varint n) (r + of_nat (n * 2 ^ k))"
proof (induction n arbitrary: k r rule: varint.induct)
  case (1 n)
  note acc = accumulate [OF "1.prems"(2), where n = n]
  have b: "\<not> 64 \<le> (of_nat k :: byte)" "unat (of_nat k :: byte) = k"
    using "1.prems"(1) by (simp_all add: word_le_nat_alt)
  show ?case
  proof (cases "n < 128")
    case True
    have eq: "varint64_loop E (of_nat k) r s h = Ret (Some (r + of_nat (n * 2 ^ k)), eat 1 s, h)"
      if "good s" "input s = [of_nat n] @ rest" for s h rest
      using readbyte_ok [OF that(1), of "of_nat n" rest h] that(2) True b acc(1) [of n] "1.prems"
      by (subst varint64_loop.simps)
        (simp add: bindV_def top_bit_last low7_last ucast_byte_of_nat Let_def del: of_nat_mult)
    then show ?thesis using True by (auto simp: takes_def varint_small)
  next
    case False
    let ?m = "n mod 128" and ?q = "n div 128" and ?r = "r + of_nat (n mod 128 * 2 ^ k)"
    have k7: "k + 7 < 64" using cont_room [of n k 64] False "1.prems" by simp
    have ur: "unat ?r = unat r + ?m * 2 ^ k" using acc(2) [of ?m] "1.prems" by simp
    have "unat ?r < 2 ^ (k + 7)" unfolding ur using "1.prems"(2) by (rule accumulate_bound)
    moreover note qk = split_128 [of n k]
    ultimately have IH: "takes (varint64_loop E (of_nat (k + 7)) ?r) (varint ?q) (?r + of_nat (?q * 2 ^ (k + 7)))"
      using "1.IH" [OF False, of "k + 7" ?r] "1.prems"(3) k7 by linarith
    have val: "?r + of_nat (?q * 2 ^ (k + 7)) = r + of_nat (n * 2 ^ k)"
      unfolding qk [symmetric] of_nat_add by (simp add: add_ac)
    have step: "varint64_loop E (of_nat k) r s h = varint64_loop E (of_nat (k + 7)) ?r (eat 1 s) h"
      if "good s" "input s = of_nat (?m + 128) # bs" for s h bs
      using readbyte_ok [OF that, of h] b acc(1) [of ?m] "1.prems"
      by (subst varint64_loop.simps)
        (simp add: bindV_def top_bit_cont low7_cont Let_def of_nat_7 del: of_nat_mult of_nat_add)
    show ?thesis
      unfolding varint_big [OF leI [OF False]] using IH unfolding val by (rule takes_step [rotated]) (rule step)
  qed
qed

lemma takes_varint: "takes (pb_decode_varint E) (varint (unat v)) v"
proof -
  have "unat v * 2 ^ 0 < 2 ^ 64" using unsigned_less [of v, where 'a = nat] by simp
  then have "takes (varint64_loop E (of_nat 0) 0) (varint (unat v)) (0 + of_nat (unat v * 2 ^ 0))"
    by (intro varint64_loop_takes) simp_all
  then show ?thesis by (simp add: takes_def pb_decode_varint_def)
qed

lemma varint32_loop_takes:
  "k < 32 \<Longrightarrow> unat r < 2 ^ k \<Longrightarrow> n * 2 ^ k < 2 ^ 32 \<Longrightarrow> length (varint n) \<le> fuel \<Longrightarrow>
     takes (varint32_loop E fuel (of_nat k) r) (varint n) (r + of_nat (n * 2 ^ k))"
proof (induction n arbitrary: k r fuel rule: varint.induct)
  case (1 n)
  note acc = accumulate [OF "1.prems"(2), where n = n]
  have b: "\<not> 32 \<le> (of_nat k :: byte)" "unat (of_nat k :: byte) = k"
    using "1.prems"(1) by (simp_all add: word_le_nat_alt)
  obtain fl where fl: "fuel = Suc fl" using "1.prems"(4) by (cases fuel) auto
  show ?case
  proof (cases "n < 128")
    case True
    have top: "(of_nat n AND 0x70 :: byte) = 0" if "of_nat (k + 7) = (35 :: byte)"
    proof -
      have "unat (of_nat (k + 7) :: byte) = k + 7" using "1.prems"(1) by (intro unat_of_nat_small) simp
      then have "k = 28" unfolding that by simp
      with "1.prems"(3) show ?thesis by (intro low4) simp
    qed
    have eq: "varint32_loop E fuel (of_nat k) r s h = Ret (Some (r + of_nat (n * 2 ^ k)), eat 1 s, h)"
      if "good s" "input s = [of_nat n] @ rest" for s h rest
      using readbyte_ok [OF that(1), of "of_nat n" rest h] that(2) True b acc(1) [of n] "1.prems" top
      by (auto simp add: fl bindV_def top_bit_last low7_last ucast_byte_of_nat Let_def of_nat_7 simp del: of_nat_mult of_nat_add)
    then show ?thesis using True by (auto simp: takes_def varint_small)
  next
    case False
    let ?m = "n mod 128" and ?q = "n div 128" and ?r = "r + of_nat (n mod 128 * 2 ^ k)"
    have k7: "k + 7 < 32" using cont_room [of n k 32] False "1.prems" by simp
    have ur: "unat ?r = unat r + ?m * 2 ^ k" using acc(2) [of ?m] "1.prems" by simp
    have "unat ?r < 2 ^ (k + 7)" unfolding ur using "1.prems"(2) by (rule accumulate_bound)
    moreover note qk = split_128 [of n k]
    moreover have "length (varint ?q) \<le> fl" using "1.prems"(4) False fl by (simp add: varint_big)
    ultimately have IH: "takes (varint32_loop E fl (of_nat (k + 7)) ?r) (varint ?q) (?r + of_nat (?q * 2 ^ (k + 7)))"
      using "1.IH" [OF False, of "k + 7" ?r fl] "1.prems"(3) k7 by linarith
    have val: "?r + of_nat (?q * 2 ^ (k + 7)) = r + of_nat (n * 2 ^ k)"
      unfolding qk [symmetric] of_nat_add by (simp add: add_ac)
    have step: "varint32_loop E fuel (of_nat k) r s h = varint32_loop E fl (of_nat (k + 7)) ?r (eat 1 s) h"
      if "good s" "input s = of_nat (?m + 128) # bs" for s h bs
      using readbyte_ok [OF that, of h] b acc(1) [of ?m] "1.prems"
      by (simp add: fl bindV_def top_bit_cont low7_cont Let_def of_nat_7 del: of_nat_mult of_nat_add)
    show ?thesis
      unfolding varint_big [OF leI [OF False]] using IH unfolding val by (rule takes_step [rotated]) (rule step)
  qed
qed

lemma takes_varint32_eof:
  assumes "n < 2 ^ 32" "good s" "input s = varint n @ rest"
  shows "pb_decode_varint32_eof E s h = Ret (Some (of_nat n), False, eat (length (varint n)) s, h)"
proof (cases "n < 128")
  case True
  then show ?thesis
    using readbyte_ok [OF assms(2), of "of_nat n" rest h] assms(3)
    by (simp add: pb_decode_varint32_eof_def varint_small top_bit_last ucast_byte_of_nat)
next
  case False
  let ?m = "n mod 128" and ?q = "n div 128"
  have i: "input s = of_nat (?m + 128) # varint ?q @ rest"
    using assms(3) False by (simp add: varint_big del: of_nat_add)
  note e = takes_eat_1 [OF assms(2) i]
  have l: "1 + length (varint ?q) \<le> unat (bytes_left s)"
    using length_input [OF assms(2)] i by simp
  let ?fuel = "Suc (unat (bytes_left (eat 1 s)))"
  have "takes (varint32_loop E ?fuel (of_nat 7) (of_nat ?m)) (varint ?q) (of_nat ?m + of_nat (?q * 2 ^ 7))"
    using assms(1) l unat_left_eat [OF e(3)]
    div_times_less_eq_dividend [of n 128]
    by (intro varint32_loop_takes) auto
  moreover have "of_nat ?m + of_nat (?q * 2 ^ 7) = (of_nat n :: u32)"
    by (simp only: of_nat_add [symmetric]) simp
  ultimately have "varint32_loop E ?fuel 7 (of_nat ?m) (eat 1 s) h = Ret (Some (of_nat n), eat (length (varint ?q)) (eat 1 s), h)"
    using takesD [OF _ e(1,2), of _ _ h] by (simp only: of_nat_numeral)
  then show ?thesis
    using readbyte_ok [OF assms(2) i, of h] eat_eat [OF assms(2) l] False
    by (simp add: pb_decode_varint32_eof_def top_bit_cont low7_cont varint_big del: of_nat_add varint32_loop.simps)
qed

lemma takes_varint32: "takes (pb_decode_varint32 E) (varint (unat v)) v"
  using takes_varint32_eof [of "unat v"] unsigned_less [of v, where 'a = nat]
  by (auto simp: takes_def pb_decode_varint32_def)

section \<open>Readers always come back\<close>

text \<open>
  A reader returns on every usable stream, whatever the bytes are, having moved on within
  the stream; one that makes progress takes at least a byte when it succeeds.
\<close>

definition reads_at :: "bool \<Rightarrow> pb_istream_t \<Rightarrow> heap \<Rightarrow> 'v ival \<Rightarrow> bool" where
  "reads_at p s h r \<longleftrightarrow>
     (\<exists>v s'. r = Ret (v, s', h) \<and> advances s s' \<and>
        (p \<and> v \<noteq> None \<longrightarrow> unat (bytes_left s') < unat (bytes_left s)))"

lemma reads_at_bind:
  assumes s: "good s" and f: "reads_at True s h r"
    and k: "\<And>v s'. r = Ret (Some v, s', h) \<Longrightarrow> good s' \<Longrightarrow> unat (bytes_left s') < unat (bytes_left s) \<Longrightarrow>
      reads_at False s' h (k v s' h)"
  shows "reads_at True s h (bindV r k)"
proof -
  from f obtain v s' where r: "r = Ret (v, s', h)" "advances s s'"
    and p: "v \<noteq> None \<Longrightarrow> unat (bytes_left s') < unat (bytes_left s)" by (auto simp: reads_at_def)
  show ?thesis
  proof (cases v)
    case None
    with r show ?thesis by (simp add: reads_at_def bindV_def)
  next
    case (Some x)
    then obtain w s'' where k': "k x s' h = Ret (w, s'', h)" "advances s' s''"
      using k [of x s'] r p advances_good [OF s] by (auto simp: reads_at_def)
    have "unat (bytes_left s'') < unat (bytes_left s)"
      using Some p advances_left [OF advances_good [OF s r(2)] k'(2)] by simp
    with Some r k' advances_trans [OF s r(2) k'(2)] show ?thesis
      by (simp add: reads_at_def bindV_def)
  qed
qed

lemma reads_at_weaken: "reads_at True s h r \<Longrightarrow> reads_at p s h r"
  by (auto simp: reads_at_def)

lemma reads_at_error [intro]: "reads_at p s h (PB_RETURN_ERROR_v s msg h)"
  by (auto simp: reads_at_def PB_RETURN_ERROR_v_def)

lemma reads_at_ret [intro]: "reads_at False s h (Ret (v, s, h))"
  by (auto simp: reads_at_def)

lemma reads_readbyte:
  assumes s: "good s"
  shows "reads_at True s h (pb_readbyte E s h)"
proof (rule input_cases [OF s])
  fix b bs assume i: "input s = b # bs" "0 < unat (bytes_left s)"
  then show ?thesis
    using readbyte_ok [OF s i(1), of h] takes_eat_1 [OF s i(1)] unat_left_eat [of 1 s]
    by (auto simp: reads_at_def)
next
  assume "bytes_left s = 0"
  then show ?thesis by (auto simp: reads_at_def readbyte_eof)
qed

lemma reads_varint64_loop: "good s \<Longrightarrow> reads_at True s h (varint64_loop E b r s h)"
proof (induction "71 - unat b" arbitrary: b r s rule: less_induct)
  case less
  show ?case
  proof (cases "64 \<le> b")
    case True
    then show ?thesis by (subst varint64_loop.simps) auto
  next
    case False
    then have "unat b < 64" by (simp add: word_le_nat_alt)
    moreover then have "unat (b + 7) = unat b + 7" by (simp add: unat_word_ariths)
    ultimately have "71 - unat (b + 7) < 71 - unat b" by simp
    note IH = less.hyps [OF this]
    show ?thesis
      using False less.prems
      by (subst varint64_loop.simps)
        (auto simp: Let_def intro!: reads_at_bind reads_readbyte intro: reads_at_weaken [OF IH])
  qed
qed

lemma reads_varint: "good s \<Longrightarrow> reads_at True s h (pb_decode_varint E s h)"
  by (simp add: pb_decode_varint_def reads_varint64_loop)

lemma reads_varint32_loop: "good s \<Longrightarrow> unat (bytes_left s) < fuel \<Longrightarrow> reads_at True s h (varint32_loop E fuel b r s h)"
proof (induction fuel arbitrary: b r s)
  case (Suc fuel)
  have IH: "reads_at False s' h (varint32_loop E fuel b r s' h)" if "good s'" "unat (bytes_left s') < unat (bytes_left s)" for b r s'
    using that Suc.prems by (intro reads_at_weaken [OF Suc.IH]) auto
  show ?case
    using Suc.prems
    by (auto simp: Let_def intro!: reads_at_bind reads_readbyte intro: IH)
qed simp

lemma reads_varint32_eof:
  assumes s: "good s"
  shows "\<exists>v eof s'. pb_decode_varint32_eof E s h = Ret (v, eof, s', h) \<and> advances s s' \<and>
      (v \<noteq> None \<longrightarrow> unat (bytes_left s') < unat (bytes_left s)) \<and> (eof \<longrightarrow> bytes_left s' = 0)"
proof (rule input_cases [OF s])
  assume "bytes_left s = 0" "input s = []"
  then show ?thesis by (auto simp: pb_decode_varint32_eof_def readbyte_eof)
next
  fix b bs assume byte: "input s = b # bs" "0 < unat (bytes_left s)"
  note e = takes_eat_1 [OF s byte(1)]
  have lt: "unat (bytes_left (eat 1 s)) < unat (bytes_left s)" using unat_left_eat [OF e(3)] e(3) by simp
  have "reads_at True (eat 1 s) h (varint32_loop E (Suc (unat (bytes_left (eat 1 s)))) 7 (ucast (b AND 0x7F)) (eat 1 s) h)"
    using e by (intro reads_varint32_loop) auto
  then obtain v s' where l: "varint32_loop E (Suc (unat (bytes_left (eat 1 s)))) 7 (ucast (b AND 0x7F)) (eat 1 s) h = Ret (v, s', h)"
    "advances (eat 1 s) s'" by (auto simp: reads_at_def)
  have "advances s s'" "unat (bytes_left s') < unat (bytes_left s)"
    using advances_trans [OF s advances_eat [OF e(3)] l(2)] advances_left [OF e(1) l(2)] lt by auto
  moreover have "pb_decode_varint32_eof E s h =
      (if b AND 0x80 = 0 then Ret (Some (ucast b), False, eat 1 s, h) else Ret (v, False, s', h))"
    unfolding pb_decode_varint32_eof_def readbyte_ok [OF s byte(1), of h] bindO.simps prod.case option.case l(1) ..
  ultimately show ?thesis
    using lt advances_eat [OF e(3)] by (cases "b AND 0x80 = 0") auto
qed

lemma reads_varint32: "good s \<Longrightarrow> reads_at True s h (pb_decode_varint32 E s h)"
  using reads_varint32_eof [of s h] by (auto simp: reads_at_def pb_decode_varint32_def)

end

end
