(* ===== verification/Istream_Fields.thy ===== *)
theory Istream_Fields
  imports Istream_Varint Encode_Spec
begin

text \<open>
  Tags, skipping and substreams on conforming input streams: a tag that was encoded is
  decoded again, \<open>pb_skip_field\<close> takes exactly one encoded value, a substream covers
  exactly its payload, and closing it leaves the parent stream right behind it.
\<close>

section \<open>Tags\<close>

definition tag_value :: "pb_wire_type_t \<Rightarrow> u32 \<Rightarrow> nat" where
  "tag_value wt tg = unat tg * 8 + unat wt"

lemma tag_wire_eq: "unat wt < 8 \<Longrightarrow> tag_wire wt tg = varint (tag_value wt tg)"
proof -
  assume wt: "unat wt < 8"
  have tg: "unat tg < 2 ^ 32" using unsigned_less [of tg, where 'a = nat] by simp
  have "unat (push_bit 3 (ucast tg) :: u64) = unat tg * 8"
    using tg by (simp add: push_bit_eq_mult unat_word_ariths unat_ucast_up)
  moreover have "(push_bit 3 (ucast tg) :: u64) OR ucast wt = ucast wt + push_bit 3 (ucast tg)"
    using or_push [of "ucast wt :: u64" 3 "ucast tg"] wt by (simp add: or.commute unat_ucast_up)
  moreover have "unat (ucast wt + push_bit 3 (ucast tg) :: u64) = unat wt + unat (push_bit 3 (ucast tg) :: u64)"
    using wt tg calculation(1) by (subst unat_plus_if_small) (simp_all add: unat_ucast_up)
  ultimately show ?thesis
    by (simp add: tag_wire_def tag_value_def unat_ucast_up add.commute)
qed

lemma tag_split:
  assumes "unat wt < 8" "unat tg < 2 ^ 29"
  shows "drop_bit 3 (of_nat (tag_value wt tg) :: u32) = tg" "of_nat (tag_value wt tg) AND 7 = wt"
    "tag_value wt tg < 2 ^ 32"
proof -
  show lt: "tag_value wt tg < 2 ^ 32" using assms by (simp add: tag_value_def)
  then have u: "unat (of_nat (tag_value wt tg) :: u32) = tag_value wt tg" by (intro unat_of_nat_small) simp
  have "unat (drop_bit 3 (of_nat (tag_value wt tg) :: u32)) = unat tg"
    unfolding unat_drop_bit_eq u using assms(1) by (simp add: drop_bit_eq_div tag_value_def)
  then show "drop_bit 3 (of_nat (tag_value wt tg) :: u32) = tg" by (rule unsigned_word_eqI)
  have "(of_nat (tag_value wt tg) :: u32) AND 7 = take_bit 3 (of_nat (tag_value wt tg))"
    by (simp add: take_bit_eq_mask mask_eq_exp_minus_1)
  moreover have "unat (take_bit 3 (of_nat (tag_value wt tg)) :: u32) = unat wt"
    unfolding unsigned_take_bit_eq u using assms(1) by (simp add: take_bit_eq_mod tag_value_def)
  ultimately show "of_nat (tag_value wt tg) AND 7 = wt" by (metis unsigned_word_eqI)
qed

text \<open>The wire forms of one value, by wire type.\<close>

definition one_value :: "pb_wire_type_t \<Rightarrow> byte list \<Rightarrow> bool" where
  "one_value wt bs \<longleftrightarrow>
     wt = PB_WT_VARINT \<and> (\<exists>n. bs = varint n) \<or>
     wt = PB_WT_64BIT \<and> length bs = 8 \<or>
     wt = PB_WT_32BIT \<and> length bs = 4 \<or>
     wt = PB_WT_STRING \<and> (\<exists>p. length p < 2 ^ 32 \<and> bs = varint (length p) @ p)"

context conforming_istream
begin

lemma takes_tag:
  assumes "good s" "input s = tag_wire wt tg @ rest" "unat wt < 8" "unat tg < 2 ^ 29" "tg \<noteq> 0"
  shows "pb_decode_tag E s h =
    Ret (\<lparr>t_ok = True, t_wire_type = wt, t_tag = tg, t_eof = False\<rparr>, eat (length (tag_wire wt tg)) s, h)"
proof -
  note sp = tag_split [OF assms(3,4)]
  have "(of_nat (tag_value wt tg) :: u32) \<noteq> 0" using sp(1) assms(5) by auto
  then show ?thesis
    using takes_varint32_eof [OF sp(3) assms(1), of rest h] assms(2) sp
    by (simp add: pb_decode_tag_def tag_wire_eq [OF assms(3)])
qed

lemma decode_tag_total:
  assumes "good s"
  obtains t s' where "pb_decode_tag E s h = Ret (t, s', h)" "advances s s'"
    "t_ok t \<longrightarrow> unat (bytes_left s') < unat (bytes_left s)"
proof -
  obtain v eof s' where v: "pb_decode_varint32_eof E s h = Ret (v, eof, s', h)" "advances s s'"
      "v \<noteq> None \<longrightarrow> unat (bytes_left s') < unat (bytes_left s)"
    using reads_varint32_eof [OF assms] by blast
  show ?thesis
  proof (cases v)
    case None
    then have "pb_decode_tag E s h = Ret (\<lparr>t_ok = False, t_wire_type = 0, t_tag = 0, t_eof = eof\<rparr>, s', h)"
      using v by (simp add: pb_decode_tag_def)
    then show ?thesis by (rule that [OF _ v(2)]) simp
  next
    case (Some x)
    then show ?thesis
    proof (cases "x = 0")
      case True
      with Some have "pb_decode_tag E s h = Ret (\<lparr>t_ok = False, t_wire_type = 0, t_tag = 0, t_eof = True\<rparr>, s', h)"
        using v by (simp add: pb_decode_tag_def)
      then show ?thesis by (rule that [OF _ v(2)]) simp
    next
      case False
      with Some have "pb_decode_tag E s h =
          Ret (\<lparr>t_ok = True, t_wire_type = x AND 7, t_tag = drop_bit 3 x, t_eof = eof\<rparr>, s', h)"
        using v by (simp add: pb_decode_tag_def)
      then show ?thesis by (rule that [OF _ v(2)]) (use v Some in simp)
    qed
  qed
qed

section \<open>Skipping\<close>

lemma read_to_null_ok:
  "good s \<Longrightarrow> unat c \<le> unat (bytes_left s) \<Longrightarrow> pb_read_to E RNull c s h = Ret (True, eat (unat c) s, h)"
  by (simp add: pb_read_to_def pb_read_ok withV_def)

lemma read_to_ok:
  "good s \<Longrightarrow> unat c \<le> unat (bytes_left s) \<Longrightarrow>
     pb_read_to E buf c s h = Ret (True, eat (unat c) s, store_to buf (take (unat c) (input s)) h)"
  by (simp add: pb_read_to_def pb_read_ok withV_def)

lemma read_to_eof:
  "good s \<Longrightarrow> unat (bytes_left s) < unat c \<Longrightarrow> \<exists>s'. pb_read_to E buf c s h = Ret (False, s', h) \<and> advances s s'"
  using pb_read_eof [of s c buf h] by (auto simp: pb_read_to_def withV_def)

lemma read_byte_local:
  assumes "good s" "input s = b # bs"
  shows "pb_read E RLocal 1 s h = Ret (Some [b], eat 1 s, h)"
  using pb_read_ok [OF assms(1), of 1 RLocal h] takes_eat_1(3) [OF assms] assms(2) by simp

lemma skip_varint_loop_takes:
  "good s \<Longrightarrow> input s = varint n @ rest \<Longrightarrow> length (varint n) \<le> fuel \<Longrightarrow>
     skip_varint_loop E fuel s h = Ret (True, eat (length (varint n)) s, h)"
proof (induction n arbitrary: s fuel rule: varint.induct)
  case (1 n)
  obtain fl where fl: "fuel = Suc fl" using "1.prems"(3) by (cases fuel) auto
  show ?case
  proof (cases "n < 128")
    case True
    with "1.prems" read_byte_local [of s "of_nat n" rest h] show ?thesis
      by (simp add: fl varint_small withV_def top_bit_last)
  next
    case False
    have i: "input s = of_nat (n mod 128 + 128) # varint (n div 128) @ rest"
      using "1.prems"(2) False by (simp add: varint_big del: of_nat_add)
    note e = takes_eat_1 [OF "1.prems"(1) i]
    have l: "1 + length (varint (n div 128)) \<le> unat (bytes_left s)"
      using length_input [OF "1.prems"(1)] i by simp
    have "skip_varint_loop E fl (eat 1 s) h = Ret (True, eat (length (varint (n div 128))) (eat 1 s), h)"
      using e "1.prems"(3) False fl by (intro "1.IH") (simp_all add: varint_big)
    then show ?thesis
      using read_byte_local [OF "1.prems"(1) i, of h] eat_eat [OF "1.prems"(1) l] False
      by (simp add: fl withV_def top_bit_cont varint_big del: of_nat_add)
  qed
qed

lemma skip_varint_loop_total:
  "good s \<Longrightarrow> unat (bytes_left s) < fuel \<Longrightarrow> \<exists>ok s'. skip_varint_loop E fuel s h = Ret (ok, s', h) \<and> advances s s'"
proof (induction fuel arbitrary: s)
  case (Suc fuel)
  show ?case
  proof (rule input_cases [OF Suc.prems(1)])
    assume z: "bytes_left s = 0"
    then obtain s' where "pb_read E RLocal 1 s h = Ret (None, s', h)" "advances s s'"
      using pb_read_eof [OF Suc.prems(1), of 1 RLocal h] by auto
    then show ?thesis by (auto simp: withV_def)
  next
    fix b bs assume i: "input s = b # bs" "0 < unat (bytes_left s)"
    note e = takes_eat_1 [OF Suc.prems(1) i(1)]
    have "unat (bytes_left (eat 1 s)) < fuel" using Suc.prems(2) unat_left_eat [OF e(3)] e(3) by simp
    then obtain ok s' where "skip_varint_loop E fuel (eat 1 s) h = Ret (ok, s', h)" "advances (eat 1 s) s'"
      using Suc.IH [OF e(1)] by blast
    moreover have "advances s (eat 1 s)" using e(3) by auto
    ultimately show ?thesis
      using read_byte_local [OF Suc.prems(1) i(1), of h] advances_trans [OF Suc.prems(1)]
      by (auto simp: withV_def)
  qed
qed simp

lemma skip_string_takes:
  assumes s: "good s" and i: "input s = varint (length p) @ p @ rest" and p: "length p < 2 ^ 32"
  shows "pb_skip_string E s h = Ret (True, eat (length (varint (length p)) + length p) s, h)"
proof -
  let ?v = "varint (length p)"
  have l: "length ?v + length p \<le> unat (bytes_left s)" using length_input [OF s] i by simp
  have v: "pb_decode_varint32 E s h = Ret (Some (of_nat (length p)), eat (length ?v) s, h)"
    using takesD [OF takes_varint32 [of "of_nat (length p)"] s, of "p @ rest" h] i p by simp
  have "good (eat (length ?v) s)" using s l by (auto intro: good_eat)
  then have "pb_read_to E RNull (ucast (of_nat (length p) :: u32)) (eat (length ?v) s) h =
      Ret (True, eat (length p) (eat (length ?v) s), h)"
    using l p unat_left_eat [of "length ?v" s] by (subst read_to_null_ok) (simp_all add: unat_ucast_up)
  then show ?thesis
    using v eat_eat [OF s l] by (simp add: pb_skip_string_def withV_def)
qed

text \<open>Skipping takes exactly one value.\<close>

lemma skip_field_takes:
  assumes s: "good s" and i: "input s = bs @ rest" and b: "one_value wt bs"
  shows "pb_skip_field E wt s h = Ret (True, eat (length bs) s, h)"
proof -
  have l: "length bs \<le> unat (bytes_left s)" using length_input [OF s] i by simp
  from b consider (vi) n where "wt = PB_WT_VARINT" "bs = varint n"
    | (f64) "wt = PB_WT_64BIT" "length bs = 8" | (f32) "wt = PB_WT_32BIT" "length bs = 4"
    | (str) p where "wt = PB_WT_STRING" "length p < 2 ^ 32" "bs = varint (length p) @ p"
    unfolding one_value_def by blast
  then show ?thesis
  proof cases
    case vi
    then show ?thesis
      using skip_varint_loop_takes [OF s, of n rest "Suc (unat (bytes_left s))" h] i l
      by (simp add: pb_skip_field_def pb_skip_varint_def del: skip_varint_loop.simps)
  next
    case str
    then show ?thesis using skip_string_takes [OF s, of p rest h] i by (simp add: pb_skip_field_def)
  qed (use l read_to_null_ok [OF s] in \<open>simp_all add: pb_skip_field_def\<close>)
qed

lemma skip_field_total:
  assumes s: "good s"
  shows "\<exists>ok s'. pb_skip_field E wt s h = Ret (ok, s', h) \<and> advances s s'"
proof -
  have rd: "\<exists>ok s'. pb_read_to E RNull c t h = Ret (ok, s', h) \<and> advances t s'" if "good t" for c t
    using read_to_null_ok [OF that, of c h] read_to_eof [OF that, of c RNull h]
    by (cases "unat c \<le> unat (bytes_left t)") (auto simp: not_le)
  have str: "\<exists>ok s'. pb_skip_string E s h = Ret (ok, s', h) \<and> advances s s'"
  proof -
    obtain v t where v: "pb_decode_varint32 E s h = Ret (v, t, h)" "advances s t"
      using reads_varint32 [OF s, of h] by (auto simp: reads_at_def)
    show ?thesis
    proof (cases v)
      case (Some x)
      obtain ok s' where "pb_read_to E RNull (ucast x) t h = Ret (ok, s', h)" "advances t s'"
        using rd [OF advances_good [OF s v(2)]] by blast
      with v Some advances_trans [OF s v(2)] show ?thesis by (auto simp: pb_skip_string_def withV_def)
    qed (use v in \<open>auto simp: pb_skip_string_def withV_def\<close>)
  qed
  show ?thesis
    using rd [OF s] str skip_varint_loop_total [OF s, of "Suc (unat (bytes_left s))" h]
    by (auto simp: pb_skip_field_def pb_skip_varint_def PB_RETURN_ERROR_i_def simp del: skip_varint_loop.simps)
qed

end

end
