(* ===== verification/Pb_Release.thy ===== *)
theory Pb_Release
  imports Pb_Istream
begin

text \<open>
  The storage side of \<open>nanopb/pb_decode.c\<close>: default values, allocation and release of
  message structures. The recursions over submessages and extensions carry the nesting
  depth \<open>n\<close>, which also bounds the length of an extension chain; recursion goes through the
  arguments \<open>msg\<close> (a whole submessage) and \<open>fld\<close> (one extension field).
\<close>

section \<open>Extensions as fields\<close>

definition iter_from_extension :: "env \<Rightarrow> memory \<Rightarrow> addr \<Rightarrow> pb_field_iter_t" where
  "iter_from_extension E m extension =
     (let flds = ext_type_arg m (ext_type m extension);
          field = field_at E flds 0;
          it = snd (pb_field_iter_begin E flds (ext_dest m extension));
          it = it\<lparr>pData := ext_dest m extension, pSize := ext_found_addr extension\<rparr>
      in if PB_ATYPE (type field) = PB_ATYPE_POINTER then it\<lparr>pData := ext_dest_addr extension\<rparr> else it)"

section \<open>Default values\<close>

type_synonym msg_op = "addr \<Rightarrow> addr \<Rightarrow> heap \<Rightarrow> heap outcome"
type_synonym field_op = "pb_field_iter_t \<Rightarrow> heap \<Rightarrow> heap outcome"

text \<open>\<open>do { op(&iter); } while (pb_field_iter_next(&iter));\<close>\<close>

fun for_each_field :: "env \<Rightarrow> field_op \<Rightarrow> nat \<Rightarrow> pb_field_iter_t \<Rightarrow> heap \<Rightarrow> heap outcome" where
  "for_each_field E fld 0 it h = NoFuel"
| "for_each_field E fld (Suc k) it h =
     bindO (fld it h) (\<lambda>h.
       let (more, it') = pb_field_iter_next E it in
       if more then for_each_field E fld k it' h else Ret h)"

fun extension_default_loop :: "env \<Rightarrow> field_op \<Rightarrow> nat \<Rightarrow> addr \<Rightarrow> heap \<Rightarrow> heap outcome" where
  "extension_default_loop E fld 0 ext h = NoFuel"
| "extension_default_loop E fld (Suc k) ext h =
     (if ext = 0 then Ret h
      else
        let h = set_mem h (store_bool (mem h) (ext_found_addr ext) False) in
        bindO (fld (iter_from_extension E (mem h) ext) h) (\<lambda>h.
          extension_default_loop E fld k (ext_next (mem h) ext) h))"

definition field_default_body :: "env \<Rightarrow> nat \<Rightarrow> msg_op \<Rightarrow> field_op \<Rightarrow> field_op" where
  "field_default_body E n msg fld it h =
     (let f = iter_pos E it; t = type f in
      if PB_LTYPE t = PB_LTYPE_EXTENSION
      then extension_default_loop E fld (Suc n) (load64 (mem h) (pData it)) h
      else if PB_ATYPE t = PB_ATYPE_STATIC then
        (let has = (PB_HTYPE t = PB_HTYPE_OPTIONAL \<and> pSize it \<noteq> pData it);
             counted = (PB_HTYPE t = PB_HTYPE_REPEATED \<or> PB_HTYPE t = PB_HTYPE_ONEOF);
             h = (if has then set_mem h (store_bool (mem h) (pSize it) False)
                  else if counted then set_mem h (store32 (mem h) (pSize it) 0) else h);
             init_data = (has \<or> \<not> counted)
         in
         if init_data then
           (if PB_LTYPE t = PB_LTYPE_SUBMESSAGE then
              (if ptr f = 0 then UB else msg (ptr f) (pData it) h)
            else if ptr f \<noteq> 0 then Ret (memcpy h (pData it) (ptr f) (unat (data_size f)))
            else Ret (memset0 h (pData it) (unat (data_size f))))
         else Ret h)
      else if PB_ATYPE t = PB_ATYPE_POINTER then
        (let h = set_mem h (store64 (mem h) (pData it) 0) in
         Ret (if PB_HTYPE t = PB_HTYPE_REPEATED \<or> PB_HTYPE t = PB_HTYPE_ONEOF
              then set_mem h (store32 (mem h) (pSize it) 0) else h))
      else Ret h)"

definition message_defaults :: "env \<Rightarrow> field_op \<Rightarrow> msg_op" where
  "message_defaults E fld flds dest h =
     (let (nonempty, it) = pb_field_iter_begin E flds dest in
      if \<not> nonempty then Ret h else for_each_field E fld (Suc (length (ftab E flds))) it h)"

fun pb_field_set_to_default :: "env \<Rightarrow> nat \<Rightarrow> field_op" where
  "pb_field_set_to_default E 0 it h = NoFuel"
| "pb_field_set_to_default E (Suc n) it h =
     field_default_body E n (message_defaults E (pb_field_set_to_default E n)) (pb_field_set_to_default E n) it h"

definition pb_message_set_to_defaults :: "env \<Rightarrow> nat \<Rightarrow> msg_op" where
  "pb_message_set_to_defaults E n = message_defaults E (pb_field_set_to_default E n)"

section \<open>Allocation\<close>

definition allocate_field :: "env \<Rightarrow> addr \<Rightarrow> u64 \<Rightarrow> u64 \<Rightarrow> idec" where
  "allocate_field E p data_sz array_sz s h =
     (let q = load64 (mem h) p in
      if data_sz = 0 \<or> array_sz = 0 then PB_RETURN_ERROR_i s ''invalid size'' h
      else
        let check_limit = push_bit 32 1 :: u64; size_max = -1 :: u64 in
        if (data_sz \<ge> check_limit \<or> array_sz \<ge> check_limit) \<and> size_max div array_sz < data_sz
        then PB_RETURN_ERROR_i s ''size too large'' h
        else
          bindO (c_realloc (alloc_at E) h q (array_sz * data_sz)) (\<lambda>(q', h).
            if q' = 0 then PB_RETURN_ERROR_i s ''realloc failed'' h
            else Ret (True, s, set_mem h (store64 (mem h) p q'))))"

definition initialize_pointer_field :: "env \<Rightarrow> nat \<Rightarrow> addr \<Rightarrow> pb_field_iter_t \<Rightarrow> heap \<Rightarrow> heap outcome" where
  "initialize_pointer_field E n pItem it h =
     (let f = iter_pos E it; lt = PB_LTYPE (type f) in
      if lt = PB_LTYPE_STRING \<or> lt = PB_LTYPE_BYTES
      then Ret (set_mem h (store64 (mem h) pItem 0))
      else if lt = PB_LTYPE_SUBMESSAGE then
        (if ptr f = 0 then UB
         else pb_message_set_to_defaults E n (ptr f) pItem (memset0 h pItem (unat (data_size f))))
      else Ret h)"

section \<open>Release\<close>

fun extension_release_loop :: "env \<Rightarrow> field_op \<Rightarrow> nat \<Rightarrow> addr \<Rightarrow> heap \<Rightarrow> heap outcome" where
  "extension_release_loop E fld 0 ext h = NoFuel"
| "extension_release_loop E fld (Suc k) ext h =
     (if ext = 0 then Ret h
      else bindO (fld (iter_from_extension E (mem h) ext) h) (\<lambda>h.
             extension_release_loop E fld k (ext_next (mem h) ext) h))"

text \<open>\<open>while (count--) { pb_release(ptr, pItem); pItem += data_size; }\<close>\<close>

fun release_items :: "(addr \<Rightarrow> heap \<Rightarrow> heap outcome) \<Rightarrow> u32 \<Rightarrow> nat \<Rightarrow> addr \<Rightarrow> heap \<Rightarrow> heap outcome" where
  "release_items rel stride 0 p h = Ret h"
| "release_items rel stride (Suc count) p h =
     bindO (rel p h) (release_items rel stride count (p + ucast stride))"

text \<open>\<open>while (count--) { pb_free(*pItem); *pItem++ = NULL; }\<close>; dereferencing null is undefined.\<close>

fun free_items :: "nat \<Rightarrow> addr \<Rightarrow> heap \<Rightarrow> heap outcome" where
  "free_items 0 p h = Ret h"
| "free_items (Suc count) p h =
     (if p = 0 then UB
      else bindO (c_free h (load64 (mem h) p)) (\<lambda>h.
             free_items count (p + 8) (set_mem h (store64 (mem h) p 0))))"

text \<open>The submessage and extension part of \<open>pb_release_single_field\<close>.\<close>

definition release_inside :: "env \<Rightarrow> nat \<Rightarrow> msg_op \<Rightarrow> field_op \<Rightarrow> field_op" where
  "release_inside E n msg fld it h =
     (let f = iter_pos E it; t = type f in
      if PB_LTYPE t = PB_LTYPE_EXTENSION
      then extension_release_loop E fld (Suc n) (load64 (mem h) (pData it)) h
      else if PB_LTYPE t = PB_LTYPE_SUBMESSAGE then
        (let pItem = (if PB_ATYPE t = PB_ATYPE_POINTER then load64 (mem h) (pData it) else pData it);
             count = (if PB_HTYPE t = PB_HTYPE_REPEATED then
                        (let c = (if PB_ATYPE t = PB_ATYPE_STATIC \<and> pSize it = pData it
                                  then array_size f else load32 (mem h) (pSize it))
                         in if PB_ATYPE t = PB_ATYPE_STATIC \<and> c > array_size f then array_size f else c)
                      else 1)
         in
         if pItem \<noteq> 0 then
           (if ptr f = 0 \<and> count \<noteq> 0 then UB
            else release_items (msg (ptr f)) (data_size f) (unat count) pItem h)
         else Ret h)
      else Ret h)"

definition release_field_body :: "env \<Rightarrow> nat \<Rightarrow> msg_op \<Rightarrow> field_op \<Rightarrow> field_op" where
  "release_field_body E n msg fld it h =
     (let f = iter_pos E it; t = type f in
      if PB_HTYPE t = PB_HTYPE_ONEOF \<and> load32 (mem h) (pSize it) \<noteq> tag f then Ret h
      else
        bindO (release_inside E n msg fld it h) (\<lambda>h.
          if PB_ATYPE t = PB_ATYPE_POINTER then
            bindO (if PB_HTYPE t = PB_HTYPE_REPEATED \<and>
                      (PB_LTYPE t = PB_LTYPE_STRING \<or> PB_LTYPE t = PB_LTYPE_BYTES)
                   then free_items (unat (load32 (mem h) (pSize it))) (load64 (mem h) (pData it)) h
                   else Ret h)
              (\<lambda>h.
                let h = (if PB_HTYPE t = PB_HTYPE_REPEATED then set_mem h (store32 (mem h) (pSize it) 0) else h)
                in bindO (c_free h (load64 (mem h) (pData it))) (\<lambda>h.
                     Ret (set_mem h (store64 (mem h) (pData it) 0))))
          else Ret h))"

definition release_message :: "env \<Rightarrow> field_op \<Rightarrow> msg_op" where
  "release_message E fld flds dest h =
     (if dest = 0 then Ret h
      else
        let (nonempty, it) = pb_field_iter_begin E flds dest in
        if \<not> nonempty then Ret h else for_each_field E fld (Suc (length (ftab E flds))) it h)"

fun pb_release_single_field :: "env \<Rightarrow> nat \<Rightarrow> field_op" where
  "pb_release_single_field E 0 it h = NoFuel"
| "pb_release_single_field E (Suc n) it h =
     release_field_body E n (release_message E (pb_release_single_field E n)) (pb_release_single_field E n) it h"

definition pb_release :: "env \<Rightarrow> nat \<Rightarrow> msg_op" where
  "pb_release E n = release_message E (pb_release_single_field E n)"

text \<open>
  \<open>pb_release_union_field\<close> moves the iterator to the old member and back; the iterator is
  part of the result.
\<close>

definition pb_release_union_field ::
  "env \<Rightarrow> nat \<Rightarrow> pb_istream_t \<times> pb_field_iter_t \<Rightarrow> heap \<Rightarrow> (bool \<times> (pb_istream_t \<times> pb_field_iter_t) \<times> heap) outcome" where
  "pb_release_union_field E n si h =
     (let (s, it) = si;
          old_tag = load32 (mem h) (pSize it);
          new_tag = tag (iter_pos E it)
      in
      if old_tag = 0 then Ret (True, (s, it), h)
      else if old_tag = new_tag then Ret (True, (s, it), h)
      else
        bindO (pb_field_iter_find E it old_tag) (\<lambda>(found, it).
          if \<not> found then Ret (False, (PB_SET_ERROR_i s ''invalid union tag'', it), h)
          else
            bindO (pb_release_single_field E n it h) (\<lambda>h.
              bindO (pb_field_iter_find E it new_tag) (\<lambda>(found, it).
                if \<not> found then Ret (False, (PB_SET_ERROR_i s ''iterator error'', it), h)
                else Ret (True, (s, it), h)))))"

end
