(* ===== verification/Pb_Decode.thy ===== *)
theory Pb_Decode
  imports Pb_Release
begin

text \<open>
  The message decoder of \<open>nanopb/pb_decode.c\<close>. As in the encoder, the recursion from
  \<open>pb_dec_submessage\<close> back to the message level is an argument: \<open>noinit\<close> stands for
  \<open>pb_decode_noinit\<close> one level down. \<open>n\<close> is the nesting depth left, \<open>sp\<close> the address of
  the local variable \<open>fixed_count_size\<close> of the current activation, which the code passes on
  by address.
\<close>

type_synonym msg_dec = "addr \<Rightarrow> addr \<Rightarrow> idec"

section \<open>Field decoders\<close>

text \<open>
  The stores of the three integer decoders: the value cast to the field's size is stored,
  and read back (sign- or zero-extended) as \<open>clamped\<close>.
\<close>

definition store_int :: "bool \<Rightarrow> u32 \<Rightarrow> memory \<Rightarrow> addr \<Rightarrow> u64 \<Rightarrow> (memory \<times> u64) option" where
  "store_int sgned data_sz m dest v =
     (if data_sz = 8 then Some (store64 m dest v, v)
      else if data_sz = 4 then Some (store32 m dest (ucast v), if sgned then scast (ucast v :: u32) else ucast (ucast v :: u32))
      else if data_sz = 2 then Some (store16 m dest (ucast v), if sgned then scast (ucast v :: u16) else ucast (ucast v :: u16))
      else if data_sz = 1 then Some (store8 m dest (ucast v), if sgned then scast (ucast v :: byte) else ucast (ucast v :: byte))
      else None)"

definition store_checked :: "bool \<Rightarrow> pb_field_t \<Rightarrow> addr \<Rightarrow> u64 \<Rightarrow> idec" where
  "store_checked sgned field dest v s h =
     (case store_int sgned (data_size field) (mem h) dest v of
        None \<Rightarrow> PB_RETURN_ERROR_i s ''invalid data_size'' h
      | Some (m, clamped) \<Rightarrow>
          let h = set_mem h m in
          if clamped \<noteq> v then PB_RETURN_ERROR_i s ''integer too large'' h else Ret (True, s, h))"

definition pb_dec_varint :: "env \<Rightarrow> pb_field_t \<Rightarrow> addr \<Rightarrow> idec" where
  "pb_dec_varint E field dest s h =
     withV (pb_decode_varint E s h) (\<lambda>value.
       let svalue = (if data_size field = 8 then value else scast (ucast value :: u32))
       in store_checked True field dest svalue)"

definition pb_dec_uvarint :: "env \<Rightarrow> pb_field_t \<Rightarrow> addr \<Rightarrow> idec" where
  "pb_dec_uvarint E field dest s h =
     withV (pb_decode_varint E s h) (\<lambda>value. store_checked False field dest value)"

definition pb_dec_svarint :: "env \<Rightarrow> pb_field_t \<Rightarrow> addr \<Rightarrow> idec" where
  "pb_dec_svarint E field dest s h =
     withV (pb_decode_svarint E s h) (\<lambda>value. store_checked True field dest value)"

definition pb_dec_fixed32 :: "env \<Rightarrow> pb_field_t \<Rightarrow> addr \<Rightarrow> idec" where
  "pb_dec_fixed32 E field dest s h = pb_decode_fixed32 E dest s h"

definition pb_dec_fixed64 :: "env \<Rightarrow> pb_field_t \<Rightarrow> addr \<Rightarrow> idec" where
  "pb_dec_fixed64 E field dest s h = pb_decode_fixed64 E dest s h"

definition pb_dec_bytes :: "env \<Rightarrow> pb_field_t \<Rightarrow> addr \<Rightarrow> idec" where
  "pb_dec_bytes E field dest s h =
     withV (pb_decode_varint32 E s h) (\<lambda>size s h.
       if size > PB_SIZE_MAX then PB_RETURN_ERROR_i s ''bytes overflow'' h
       else
         let alloc_size = PB_BYTES_ARRAY_T_ALLOCSIZE size;
             finish = (\<lambda>bdest s h.
               pb_read_to E (RMem (bytes_data bdest)) (ucast size) s (set_mem h (store32 (mem h) bdest size)))
         in
         if ucast size > alloc_size then PB_RETURN_ERROR_i s ''size too large'' h
         else if PB_ATYPE (type field) = PB_ATYPE_POINTER then
           thenO (allocate_field E dest alloc_size 1 s h) (\<lambda>s h. finish (load64 (mem h) dest) s h)
         else if alloc_size > ucast (data_size field) then PB_RETURN_ERROR_i s ''bytes overflow'' h
         else finish dest s h)"

text \<open>\<open>size + 1\<close> is a 32-bit sum, widened afterwards.\<close>

definition pb_dec_string :: "env \<Rightarrow> pb_field_t \<Rightarrow> addr \<Rightarrow> idec" where
  "pb_dec_string E field dest s h =
     withV (pb_decode_varint32 E s h) (\<lambda>size s h.
       let alloc_size = ucast (size + 1) :: u64;
           finish = (\<lambda>dest s h.
             bindO (pb_read_to E (RMem dest) (ucast size) s h) (\<lambda>(status, s, h).
               Ret (status, s, set_mem h (store8 (mem h) (dest + ucast size) 0))))
       in
       if alloc_size < ucast size then PB_RETURN_ERROR_i s ''size too large'' h
       else if PB_ATYPE (type field) = PB_ATYPE_POINTER then
         thenO (allocate_field E dest alloc_size 1 s h) (\<lambda>s h. finish (load64 (mem h) dest) s h)
       else if alloc_size > ucast (data_size field) then PB_RETURN_ERROR_i s ''string overflow'' h
       else finish dest s h)"

text \<open>
  \<open>pb_decode\<close> in terms of \<open>pb_decode_noinit\<close>: set defaults, decode, release on failure.
\<close>

definition decode_init :: "env \<Rightarrow> nat \<Rightarrow> msg_dec \<Rightarrow> msg_dec" where
  "decode_init E n noinit flds dest s h =
     bindO (pb_message_set_to_defaults E n flds dest h) (\<lambda>h.
       bindO (noinit flds dest s h) (\<lambda>(status, s, h).
         if \<not> status then bindO (pb_release E n flds dest h) (\<lambda>h. Ret (False, s, h))
         else Ret (True, s, h)))"

text \<open>Run on a substream, close it, and return the status of the run.\<close>

definition with_substream :: "env \<Rightarrow> idec \<Rightarrow> pb_istream_t \<Rightarrow> idec" where
  "with_substream E body substream s h =
     bindO (body substream h) (\<lambda>(status, substream, h).
       thenO (pb_close_string_substream E substream s h) (\<lambda>s h. Ret (status, s, h)))"

definition pb_dec_submessage :: "env \<Rightarrow> nat \<Rightarrow> msg_dec \<Rightarrow> pb_field_t \<Rightarrow> addr \<Rightarrow> idec" where
  "pb_dec_submessage E n noinit field dest s h =
     withV (pb_make_string_substream E s h) (\<lambda>substream s h.
       if ptr field = 0 then PB_RETURN_ERROR_i s ''invalid field descriptor'' h
       else if PB_HTYPE (type field) = PB_HTYPE_REPEATED
       then with_substream E (decode_init E n noinit (ptr field) dest) substream s h
       else with_substream E (noinit (ptr field) dest) substream s h)"

definition pb_dec_fixed_length_bytes :: "env \<Rightarrow> pb_field_t \<Rightarrow> addr \<Rightarrow> idec" where
  "pb_dec_fixed_length_bytes E field dest s h =
     withV (pb_decode_varint32 E s h) (\<lambda>size s h.
       if size > PB_SIZE_MAX then PB_RETURN_ERROR_i s ''bytes overflow'' h
       else if size = 0 then Ret (True, s, memset0 h dest (unat (data_size field)))
       else if size \<noteq> data_size field then PB_RETURN_ERROR_i s ''incorrect fixed length bytes size'' h
       else pb_read_to E (RMem dest) (ucast (data_size field)) s h)"

definition PB_DECODERS :: "env \<Rightarrow> nat \<Rightarrow> msg_dec \<Rightarrow> byte \<Rightarrow> pb_field_t \<Rightarrow> addr \<Rightarrow> idec" where
  "PB_DECODERS E n noinit lt field dest s h =
     (if lt = PB_LTYPE_VARINT then pb_dec_varint E field dest s h
      else if lt = PB_LTYPE_UVARINT then pb_dec_uvarint E field dest s h
      else if lt = PB_LTYPE_SVARINT then pb_dec_svarint E field dest s h
      else if lt = PB_LTYPE_FIXED32 then pb_dec_fixed32 E field dest s h
      else if lt = PB_LTYPE_FIXED64 then pb_dec_fixed64 E field dest s h
      else if lt = PB_LTYPE_BYTES then pb_dec_bytes E field dest s h
      else if lt = PB_LTYPE_STRING then pb_dec_string E field dest s h
      else if lt = PB_LTYPE_SUBMESSAGE then pb_dec_submessage E n noinit field dest s h
      else if lt = PB_LTYPE_FIXED_LENGTH_BYTES then pb_dec_fixed_length_bytes E field dest s h
      else UB)"

section \<open>One field\<close>

text \<open>The item address \<open>pData + data_size * (*size)\<close>: the product is a 32-bit one.\<close>

definition item_addr :: "addr \<Rightarrow> u32 \<Rightarrow> u32 \<Rightarrow> addr" where
  "item_addr base data_sz i = base + ucast (data_sz * i)"

text \<open>
  The loop over a packed static array, on the substream. It ends when the substream is
  empty, the array is full or an item fails; each item takes at least one byte.
\<close>

fun packed_static_loop :: "(addr \<Rightarrow> idec) \<Rightarrow> pb_field_t \<Rightarrow> pb_field_iter_t \<Rightarrow> nat \<Rightarrow> idec" where
  "packed_static_loop func f it 0 sub h = NoFuel"
| "packed_static_loop func f it (Suc k) sub h =
     (let size = load32 (mem h) (pSize it) in
      if bytes_left sub > 0 \<and> size < array_size f then
        bindO (func (item_addr (pData it) (data_size f) size) sub h) (\<lambda>(ok, sub, h).
          if \<not> ok then Ret (False, sub, h)
          else
            packed_static_loop func f it k sub
              (set_mem h (store32 (mem h) (pSize it) (load32 (mem h) (pSize it) + 1))))
      else Ret (True, sub, h))"

definition decode_static_field :: "env \<Rightarrow> nat \<Rightarrow> msg_dec \<Rightarrow> pb_wire_type_t \<Rightarrow> pb_field_iter_t \<Rightarrow> idec" where
  "decode_static_field E n noinit wire_type it s h =
     (let f = iter_pos E it; t = type f; func = PB_DECODERS E n noinit (PB_LTYPE t) f in
      if PB_LTYPE t > PB_LTYPE_FIXED_LENGTH_BYTES then UB
      else if PB_HTYPE t = PB_HTYPE_REQUIRED then func (pData it) s h
      else if PB_HTYPE t = PB_HTYPE_OPTIONAL then
        func (pData it) s
          (if pSize it \<noteq> pData it then set_mem h (store_bool (mem h) (pSize it) True) else h)
      else if PB_HTYPE t = PB_HTYPE_REPEATED then
        (if wire_type = PB_WT_STRING \<and> PB_LTYPE t \<le> PB_LTYPE_LAST_PACKABLE then
           withV (pb_make_string_substream E s h) (\<lambda>sub s h.
             bindO (packed_static_loop func f it (Suc (unat (bytes_left sub))) sub h) (\<lambda>(status, sub, h).
               if bytes_left sub \<noteq> 0 then PB_RETURN_ERROR_i s ''array overflow'' h
               else thenO (pb_close_string_substream E sub s h) (\<lambda>s h. Ret (status, s, h))))
         else
           let size = load32 (mem h) (pSize it);
               pItem = item_addr (pData it) (data_size f) size;
               h = set_mem h (store32 (mem h) (pSize it) (size + 1))
           in if size \<ge> array_size f then PB_RETURN_ERROR_i s ''array overflow'' h
              else func pItem s h)
      else
        let h = set_mem h (store32 (mem h) (pSize it) (tag f)) in
        bindO (if PB_LTYPE t = PB_LTYPE_SUBMESSAGE then
                 (if ptr f = 0 then UB
                  else pb_message_set_to_defaults E n (ptr f) (pData it)
                         (memset0 h (pData it) (unat (data_size f))))
               else Ret h)
          (\<lambda>h. func (pData it) s h))"

text \<open>
  The loop over a packed array on the heap. \<open>s\<close> is the outer stream, whose message is set
  when the counter is exhausted; division by a zero \<open>data_size\<close> is undefined.
\<close>

fun packed_pointer_loop ::
  "env \<Rightarrow> nat \<Rightarrow> (addr \<Rightarrow> idec) \<Rightarrow> pb_field_t \<Rightarrow> pb_field_iter_t \<Rightarrow> nat \<Rightarrow> u64 \<Rightarrow>
   pb_istream_t \<Rightarrow> pb_istream_t \<Rightarrow> heap \<Rightarrow> (bool \<times> (pb_istream_t \<times> pb_istream_t) \<times> heap) outcome" where
  "packed_pointer_loop E n func f it 0 allocated s sub h = NoFuel"
| "packed_pointer_loop E n func f it (Suc k) allocated s sub h =
     (if bytes_left sub = 0 then Ret (True, (s, sub), h)
      else
        let size = load32 (mem h) (pSize it);
            grow = (ucast size + 1 > allocated);
            allocated' = (if grow then allocated + ((bytes_left sub - 1) div ucast (data_size f) + 1) else allocated)
        in
        if grow \<and> data_size f = 0 then UB
        else
        bindO (if grow then allocate_field E (pData it) (ucast (data_size f)) allocated' sub h else Ret (True, sub, h))
          (\<lambda>(ok, sub, h).
            if \<not> ok then Ret (False, (s, sub), h)
            else
              let pItem = item_addr (load64 (mem h) (pData it)) (data_size f) (load32 (mem h) (pSize it)) in
              bindO (initialize_pointer_field E n pItem it h) (\<lambda>h.
              bindO (func pItem sub h) (\<lambda>(ok, sub, h).
                if \<not> ok then Ret (False, (s, sub), h)
                else
                  let size = load32 (mem h) (pSize it) in
                  if size = PB_SIZE_MAX
                  then Ret (False, (s\<lparr>i_errmsg := Some ''too many array entries''\<rparr>, sub), h)
                  else packed_pointer_loop E n func f it k allocated' s sub
                         (set_mem h (store32 (mem h) (pSize it) (size + 1)))))))"

definition decode_pointer_field :: "env \<Rightarrow> nat \<Rightarrow> msg_dec \<Rightarrow> pb_wire_type_t \<Rightarrow> pb_field_iter_t \<Rightarrow> idec" where
  "decode_pointer_field E n noinit wire_type it s h =
     (let f = iter_pos E it; t = type f; lt = PB_LTYPE t; func = PB_DECODERS E n noinit lt f in
      if lt > PB_LTYPE_FIXED_LENGTH_BYTES then UB
      else if PB_HTYPE t = PB_HTYPE_REQUIRED \<or> PB_HTYPE t = PB_HTYPE_OPTIONAL \<or> PB_HTYPE t = PB_HTYPE_ONEOF then
        bindO (if lt = PB_LTYPE_SUBMESSAGE \<and> load64 (mem h) (pData it) \<noteq> 0
               then pb_release_single_field E (Suc n) it h else Ret h)
          (\<lambda>h.
            let h = (if PB_HTYPE t = PB_HTYPE_ONEOF then set_mem h (store32 (mem h) (pSize it) (tag f)) else h) in
            if lt = PB_LTYPE_STRING \<or> lt = PB_LTYPE_BYTES then func (pData it) s h
            else
              thenO (allocate_field E (pData it) (ucast (data_size f)) 1 s h) (\<lambda>s h.
                bindO (initialize_pointer_field E n (load64 (mem h) (pData it)) it h) (\<lambda>h.
                  func (load64 (mem h) (pData it)) s h)))
      else
        (if wire_type = PB_WT_STRING \<and> lt \<le> PB_LTYPE_LAST_PACKABLE then
           let allocated = ucast (load32 (mem h) (pSize it)) in
           withV (pb_make_string_substream E s h) (\<lambda>sub s h.
             bindO (packed_pointer_loop E n func f it (Suc (unat (bytes_left sub))) allocated s sub h)
               (\<lambda>(status, (s, sub), h).
                 thenO (pb_close_string_substream E sub s h) (\<lambda>s h. Ret (status, s, h))))
         else
           let size = load32 (mem h) (pSize it) in
           if size = PB_SIZE_MAX then PB_RETURN_ERROR_i s ''too many array entries'' h
           else
             let h = set_mem h (store32 (mem h) (pSize it) (size + 1)) in
             thenO (allocate_field E (pData it) (ucast (data_size f)) (ucast (load32 (mem h) (pSize it))) s h)
               (\<lambda>s h.
                 let pItem = item_addr (load64 (mem h) (pData it)) (data_size f) (load32 (mem h) (pSize it) - 1) in
                 bindO (initialize_pointer_field E n pItem it h) (\<lambda>h. func pItem s h))))"

text \<open>
  \<open>do { if (!decode(&substream, ...)) error; } while (substream.bytes_left);\<close> A callback that
  consumes nothing is called again and again.
\<close>

fun callback_loop :: "env \<Rightarrow> addr \<Rightarrow> pb_field_t \<Rightarrow> addr \<Rightarrow> nat \<Rightarrow> idec" where
  "callback_loop E fn field arg 0 sub h = NoFuel"
| "callback_loop E fn field arg (Suc k) sub h =
     thenO (decode_cb E fn sub field arg h) (\<lambda>sub h.
       if bytes_left sub \<noteq> 0 then callback_loop E fn field arg k sub h else Ret (True, sub, h))"

definition decode_callback_field :: "env \<Rightarrow> pb_wire_type_t \<Rightarrow> pb_field_iter_t \<Rightarrow> idec" where
  "decode_callback_field E wire_type it s h =
     (let pCallback = pData it; field = iter_pos E it; arg = callback_arg pCallback;
          fn = callback_func (mem h) pCallback
      in
      if pCallback = 0 \<or> fn = 0 then pb_skip_field E wire_type s h
      else if wire_type = PB_WT_STRING then
        withV (pb_make_string_substream E s h) (\<lambda>sub s h.
          bindO (callback_loop E fn field arg (Suc (unat (bytes_left sub))) sub h) (\<lambda>(ok, sub, h).
            if \<not> ok then PB_RETURN_ERROR_i s ''callback failed'' h
            else pb_close_string_substream E sub s h))
      else
        withV (read_raw_value E wire_type 10 s h) (\<lambda>buffer s h.
          bindO (decode_cb E fn (pb_istream_from_buffer buffer 0 (of_nat (length buffer))) field arg h)
            (\<lambda>(ok, sub, h). Ret (ok, s, h))))"

definition decode_field :: "env \<Rightarrow> nat \<Rightarrow> msg_dec \<Rightarrow> pb_wire_type_t \<Rightarrow>
    pb_istream_t \<times> pb_field_iter_t \<Rightarrow> heap \<Rightarrow> (bool \<times> (pb_istream_t \<times> pb_field_iter_t) \<times> heap) outcome" where
  "decode_field E n noinit wire_type si h =
     thenO (if PB_HTYPE (type (iter_pos E (snd si))) = PB_HTYPE_ONEOF
            then pb_release_union_field E (Suc n) si h else Ret (True, si, h))
       (\<lambda>(s, it) h.
         let at = PB_ATYPE (type (iter_pos E it)) in
         bindO (if at = PB_ATYPE_STATIC then decode_static_field E n noinit wire_type it s h
                else if at = PB_ATYPE_POINTER then decode_pointer_field E n noinit wire_type it s h
                else if at = PB_ATYPE_CALLBACK then decode_callback_field E wire_type it s h
                else PB_RETURN_ERROR_i s ''invalid field type'' h)
           (\<lambda>(ok, s, h). Ret (ok, (s, it), h)))"

section \<open>Extensions\<close>

definition default_extension_decoder :: "env \<Rightarrow> nat \<Rightarrow> msg_dec \<Rightarrow> addr \<Rightarrow> u32 \<Rightarrow> pb_wire_type_t \<Rightarrow> idec" where
  "default_extension_decoder E n noinit extension tg wire_type s h =
     (let field = field_at E (ext_type_arg (mem h) (ext_type (mem h) extension)) 0 in
      if tag field \<noteq> tg then Ret (True, s, h)
      else
        let it = iter_from_extension E (mem h) extension;
            h = set_mem h (store_bool (mem h) (ext_found_addr extension) True)
        in bindO (decode_field E n noinit wire_type (s, it) h) (\<lambda>(ok, si, h). Ret (ok, fst si, h)))"

fun decode_extension_loop :: "env \<Rightarrow> nat \<Rightarrow> msg_dec \<Rightarrow> u32 \<Rightarrow> pb_wire_type_t \<Rightarrow> u64 \<Rightarrow> nat \<Rightarrow> addr \<Rightarrow> idec" where
  "decode_extension_loop E n noinit tg wire_type ps 0 extension s h = NoFuel"
| "decode_extension_loop E n noinit tg wire_type ps (Suc k) extension s h =
     (if extension \<noteq> 0 \<and> ps = bytes_left s then
        let fn = ext_type_decode (mem h) (ext_type (mem h) extension) in
        thenO (if fn \<noteq> 0 then ext_decode_cb E fn s extension tg wire_type h
               else default_extension_decoder E n noinit extension tg wire_type s h)
          (\<lambda>s h. decode_extension_loop E n noinit tg wire_type ps k (ext_next (mem h) extension) s h)
      else Ret (True, s, h))"

definition decode_extension :: "env \<Rightarrow> nat \<Rightarrow> msg_dec \<Rightarrow> u32 \<Rightarrow> pb_wire_type_t \<Rightarrow> pb_field_iter_t \<Rightarrow> idec" where
  "decode_extension E n noinit tg wire_type it s h =
     decode_extension_loop E n noinit tg wire_type (bytes_left s) (Suc n) (load64 (mem h) (pData it)) s h"

section \<open>Messages\<close>

text \<open>
  The local variables of \<open>pb_decode_noinit\<close> that change in its loop. \<open>fixed_count_field\<close>
  is a position in the descriptor array (or null), \<open>fields_seen\<close> has two words;
  \<open>fixed_count_size\<close> lives in memory at \<open>sp\<close>.
\<close>

record dec_state =
  d_iter :: pb_field_iter_t
  extension_range_start :: u32
  fixed_count_field :: "nat option"
  fields_seen :: "u32 list"

text \<open>A tag that is not in the descriptor array: try the extensions, otherwise skip the value.\<close>

definition unknown_field :: "env \<Rightarrow> nat \<Rightarrow> msg_dec \<Rightarrow> u32 \<Rightarrow> pb_wire_type_t \<Rightarrow> dec_state \<Rightarrow>
    pb_istream_t \<Rightarrow> heap \<Rightarrow> dec_state ival" where
  "unknown_field E n noinit tg wire_type st s h =
     (let skip = (\<lambda>st s h. bindO (pb_skip_field E wire_type s h)
                   (\<lambda>(ok, s, h). Ret (if ok then Some st else None, s, h)))
      in
      if tg \<ge> extension_range_start st then
        bindO (find_extension_field E (d_iter st)) (\<lambda>(found, it).
          let st = st\<lparr>d_iter := it,
                      extension_range_start := (if \<not> found then -1 else tag (iter_pos E it))\<rparr>
          in
          if tg \<ge> extension_range_start st then
            bindO (decode_extension E n noinit tg wire_type it s h) (\<lambda>(ok, s', h).
              if \<not> ok then Ret (None, s', h)
              else if bytes_left s \<noteq> bytes_left s' then Ret (Some st, s', h)
              else skip st s' h)
          else skip st s h)
      else skip st s h)"

text \<open>Bookkeeping for a repeated field without a counter of its own.\<close>

definition track_fixed_count :: "env \<Rightarrow> addr \<Rightarrow> addr \<Rightarrow> dec_state \<Rightarrow> pb_istream_t \<Rightarrow> heap \<Rightarrow> dec_state ival" where
  "track_fixed_count E sp flds st s h =
     (let it = d_iter st in
      if PB_HTYPE (type (iter_pos E it)) = PB_HTYPE_REPEATED \<and> pSize it = pData it then
        (if fixed_count_field st \<noteq> Some (pos it) then
           (case fixed_count_field st of
              Some j \<Rightarrow>
                if load32 (mem h) sp \<noteq> array_size (field_at E flds j)
                then PB_RETURN_ERROR_v s ''wrong size for fixed count field'' h
                else Ret (Some (st\<lparr>fixed_count_field := Some (pos it), d_iter := it\<lparr>pSize := sp\<rparr>\<rparr>), s,
                          set_mem h (store32 (mem h) sp 0))
            | None \<Rightarrow>
                Ret (Some (st\<lparr>fixed_count_field := Some (pos it), d_iter := it\<lparr>pSize := sp\<rparr>\<rparr>), s,
                     set_mem h (store32 (mem h) sp 0)))
         else Ret (Some (st\<lparr>d_iter := it\<lparr>pSize := sp\<rparr>\<rparr>), s, h))
      else Ret (Some st, s, h))"

definition note_required :: "env \<Rightarrow> dec_state \<Rightarrow> dec_state" where
  "note_required E st =
     (let it = d_iter st; i = required_field_index it in
      if PB_HTYPE (type (iter_pos E it)) = PB_HTYPE_REQUIRED \<and> i < PB_MAX_REQUIRED_FIELDS then
        let w = unat (drop_bit 5 i); tmp = push_bit (unat (i AND 31)) (1 :: u32)
        in st\<lparr>fields_seen := (fields_seen st)[w := fields_seen st ! w OR tmp]\<rparr>
      else st)"

definition known_field :: "env \<Rightarrow> nat \<Rightarrow> addr \<Rightarrow> msg_dec \<Rightarrow> addr \<Rightarrow> pb_wire_type_t \<Rightarrow> dec_state \<Rightarrow>
    pb_istream_t \<Rightarrow> heap \<Rightarrow> dec_state ival" where
  "known_field E n sp noinit flds wire_type st s h =
     bindV (track_fixed_count E sp flds st s h) (\<lambda>st s h.
       let st = note_required E st in
       bindO (decode_field E n noinit wire_type (s, d_iter st) h) (\<lambda>(ok, (s, it), h).
         Ret (if ok then Some (st\<lparr>d_iter := it\<rparr>) else None, s, h)))"

fun noinit_loop :: "env \<Rightarrow> nat \<Rightarrow> addr \<Rightarrow> msg_dec \<Rightarrow> addr \<Rightarrow> nat \<Rightarrow> dec_state \<Rightarrow>
    pb_istream_t \<Rightarrow> heap \<Rightarrow> dec_state ival" where
  "noinit_loop E n sp noinit flds 0 st s h = NoFuel"
| "noinit_loop E n sp noinit flds (Suc k) st s h =
     (if bytes_left s = 0 then Ret (Some st, s, h)
      else
        bindO (pb_decode_tag E s h) (\<lambda>(t, s, h).
          if \<not> t_ok t then Ret (if t_eof t then Some st else None, s, h)
          else
            bindO (pb_field_iter_find E (d_iter st) (t_tag t)) (\<lambda>(found, it).
              let st = st\<lparr>d_iter := it\<rparr> in
              bindV (if \<not> found then unknown_field E n noinit (t_tag t) (t_wire_type t) st s h
                     else known_field E n sp noinit flds (t_wire_type t) st s h)
                (noinit_loop E n sp noinit flds k))))"

text \<open>\<open>do { req_field_count = ...; last_type = ...; } while (pb_field_iter_next(&iter));\<close>\<close>

fun count_required :: "env \<Rightarrow> nat \<Rightarrow> pb_field_iter_t \<Rightarrow> (u32 \<times> byte \<times> pb_field_iter_t) outcome" where
  "count_required E 0 it = NoFuel"
| "count_required E (Suc k) it =
     (let (more, it') = pb_field_iter_next E it in
      if more then count_required E k it'
      else Ret (required_field_index it, type (iter_pos E it), it'))"

definition required_seen :: "u32 list \<Rightarrow> u32 \<Rightarrow> bool" where
  "required_seen seen req \<longleftrightarrow>
     (let w = unat (drop_bit 5 req); r = unat (req AND 31) in
      list_all (\<lambda>i. seen ! i = -1) [0..<w] \<and>
      (r \<noteq> 0 \<longrightarrow> seen ! w = drop_bit (32 - r) (-1)))"

definition noinit_finish :: "env \<Rightarrow> addr \<Rightarrow> addr \<Rightarrow> dec_state \<Rightarrow> idec" where
  "noinit_finish E sp flds st s h =
     (if (case fixed_count_field st of
            Some j \<Rightarrow> load32 (mem h) sp \<noteq> array_size (field_at E flds j) | None \<Rightarrow> False)
      then PB_RETURN_ERROR_i s ''wrong size for fixed count field'' h
      else
        bindO (count_required E (Suc (length (ftab E flds))) (d_iter st)) (\<lambda>(req, last_type, it).
          let req = (if PB_HTYPE last_type = PB_HTYPE_REQUIRED \<and> tag (iter_pos E it) \<noteq> 0 then req + 1 else req);
              req = (if req > PB_MAX_REQUIRED_FIELDS then PB_MAX_REQUIRED_FIELDS else req)
          in
          if req > 0 \<and> \<not> required_seen (fields_seen st) req
          then PB_RETURN_ERROR_i s ''missing required field'' h
          else Ret (True, s, h)))"

definition noinit_body :: "env \<Rightarrow> nat \<Rightarrow> addr \<Rightarrow> msg_dec \<Rightarrow> msg_dec" where
  "noinit_body E n sp noinit flds dest s h =
     (let h = set_mem h (store32 (mem h) sp 0);
          st = \<lparr>d_iter = snd (pb_field_iter_begin E flds dest), extension_range_start = 0,
                fixed_count_field = None, fields_seen = [0, 0]\<rparr>
      in withV (noinit_loop E n sp noinit flds (Suc (unat (bytes_left s))) st s h) (noinit_finish E sp flds))"

fun pb_decode_noinit :: "env \<Rightarrow> nat \<Rightarrow> addr \<Rightarrow> msg_dec" where
  "pb_decode_noinit E 0 sp flds dest s h = NoFuel"
| "pb_decode_noinit E (Suc n) sp flds dest s h =
     noinit_body E n sp (pb_decode_noinit E n (sp + 4)) flds dest s h"

definition pb_decode :: "env \<Rightarrow> nat \<Rightarrow> addr \<Rightarrow> msg_dec" where
  "pb_decode E n sp flds dest s h = decode_init E n (pb_decode_noinit E n sp) flds dest s h"

definition pb_decode_delimited_noinit :: "env \<Rightarrow> nat \<Rightarrow> addr \<Rightarrow> msg_dec" where
  "pb_decode_delimited_noinit E n sp flds dest s h =
     withV (pb_make_string_substream E s h) (\<lambda>substream.
       with_substream E (pb_decode_noinit E n sp flds dest) substream)"

definition pb_decode_delimited :: "env \<Rightarrow> nat \<Rightarrow> addr \<Rightarrow> msg_dec" where
  "pb_decode_delimited E n sp flds dest s h =
     withV (pb_make_string_substream E s h) (\<lambda>substream.
       with_substream E (pb_decode E n sp flds dest) substream)"

definition pb_decode_nullterminated :: "env \<Rightarrow> nat \<Rightarrow> addr \<Rightarrow> msg_dec" where
  "pb_decode_nullterminated E n sp flds dest s h = pb_decode E n sp flds dest s h"

end
