(* ===== verification/Decode_Safe.thy ===== *)
theory Decode_Safe
  imports Istream_Fields Pb_Decode
begin

text \<open>
  Safety of the decoder on arbitrary input. The locale \<open>safe_decoding\<close> extends the stream
  contract with what may happen to memory: \<open>R h h'\<close> says which changes of the heap are
  allowed. When every change is allowed (\<open>lax\<close>), undefined behaviour is tolerated too; this
  is needed for messages with pointer fields, whose release may free an invalid pointer.
  \<open>tame\<close> is then the contract of every decoding function: it comes back, stays within its input, changes
  memory as allowed, and when it succeeds has moved on along the stream by exactly the
  bytes it accounted for.
\<close>

locale safe_decoding = conforming_istream E cb avail adv
  for E :: env and cb :: icallback and avail :: "istate \<Rightarrow> byte list" and adv :: "istate \<Rightarrow> nat \<Rightarrow> istate" +
  fixes R :: "heap \<Rightarrow> heap \<Rightarrow> bool"
  assumes R_refl: "R h h"
    and R_trans: "R h h' \<Longrightarrow> R h' h'' \<Longrightarrow> R h h''"
begin

definition lax :: bool where
  "lax \<longleftrightarrow> (\<forall>h h'. R h h')"

text \<open>
  After a failed call a stream may be behind its account of bytes (the code leaves a
  substream without closing it), but never beyond it.
\<close>

definition within :: "pb_istream_t \<Rightarrow> pb_istream_t \<Rightarrow> bool" where
  "within s s' \<longleftrightarrow> i_callback s' = i_callback s \<and>
     (\<exists>j. j + unat (bytes_left s') \<le> unat (bytes_left s) \<and> st_of s' = adv (st_of s) j)"

definition tame :: "('v \<Rightarrow> bool) \<Rightarrow> bool \<Rightarrow> pb_istream_t \<Rightarrow> heap \<Rightarrow> ('v \<times> pb_istream_t \<times> heap) outcome \<Rightarrow> bool" where
  "tame ok p s h r \<longleftrightarrow> (case r of
     Ret (v, s', h') \<Rightarrow> R h h' \<and> within s s' \<and>
       (ok v \<longrightarrow> advances s s' \<and> (p \<longrightarrow> unat (bytes_left s') < unat (bytes_left s)))
   | UB \<Rightarrow> lax
   | NoFuel \<Rightarrow> False)"

definition tame_heap :: "heap \<Rightarrow> heap outcome \<Rightarrow> bool" where
  "tame_heap h r \<longleftrightarrow> (case r of Ret h' \<Rightarrow> R h h' | UB \<Rightarrow> lax | NoFuel \<Rightarrow> False)"

abbreviation tameB :: "bool \<Rightarrow> pb_istream_t \<Rightarrow> heap \<Rightarrow> ires \<Rightarrow> bool" where
  "tameB \<equiv> tame (\<lambda>b. b)"

abbreviation tameV :: "bool \<Rightarrow> pb_istream_t \<Rightarrow> heap \<Rightarrow> 'v ival \<Rightarrow> bool" where
  "tameV \<equiv> tame (\<lambda>v. v \<noteq> None)"

lemma advances_within: "good s \<Longrightarrow> advances s s' \<Longrightarrow> within s s'"
  by (auto simp: advances_def within_def unat_left_eat intro!: exI)

lemma within_refl [intro]: "within s s"
  unfolding within_def by (auto intro!: exI [of _ 0] simp: adv_0)

lemma within_good: "good s \<Longrightarrow> within s s' \<Longrightarrow> good s'"
  by (auto simp: within_def good_def avail_adv)

lemma within_left: "within s s' \<Longrightarrow> unat (bytes_left s') \<le> unat (bytes_left s)"
  by (auto simp: within_def)

lemma within_trans: "good s \<Longrightarrow> within s t \<Longrightarrow> within t u \<Longrightarrow> within s u"
proof -
  assume s: "good s" and "within s t" "within t u"
  then obtain j k where j: "j + unat (bytes_left t) \<le> unat (bytes_left s)" "st_of t = adv (st_of s) j"
    and k: "k + unat (bytes_left u) \<le> unat (bytes_left t)" "st_of u = adv (st_of t) k"
    and c: "i_callback u = i_callback s" by (auto simp: within_def)
  have "j + k \<le> length (avail (st_of s))" using j k s by (simp add: good_def)
  with j k have "st_of u = adv (st_of s) (j + k)" by (simp add: adv_adv)
  with j k c show ?thesis unfolding within_def by (intro conjI exI [of _ "j + k"]) auto
qed

lemma within_errmsg [simp]: "within s (t\<lparr>i_errmsg := e\<rparr>) = within s t" "within (s\<lparr>i_errmsg := e\<rparr>) t = within s t"
  by (simp_all add: within_def)

lemma within_error [simp]: "within s (PB_SET_ERROR_i t msg) = within s t"
  by (simp add: within_def)

section \<open>Composition\<close>

lemma tame_Ret: "R h h' \<Longrightarrow> good s \<Longrightarrow> advances s s' \<Longrightarrow> tame ok False s h (Ret (v, s', h'))"
  by (simp add: tame_def advances_within)

lemma tame_Ret_same [intro]: "tame ok False s h (Ret (v, s, h))"
  by (auto simp: tame_def R_refl)

lemma tame_fail: "R h h' \<Longrightarrow> within s s' \<Longrightarrow> \<not> ok v \<Longrightarrow> tame ok p s h (Ret (v, s', h'))"
  by (simp add: tame_def)

lemma tame_error [intro]: "tameB p s h (PB_RETURN_ERROR_i s msg h)"
  unfolding PB_RETURN_ERROR_i_def by (rule tame_fail) (auto simp: R_refl)

lemma tame_error_v [intro]: "tameV p s h (PB_RETURN_ERROR_v s msg h)"
  unfolding PB_RETURN_ERROR_v_def by (rule tame_fail) (auto simp: R_refl)

lemma tame_weaken: "tame ok p s h r \<Longrightarrow> (q \<longrightarrow> p) \<Longrightarrow> tame ok q s h r"
  by (auto simp: tame_def split: outcome.splits)

lemma tame_UB: "lax \<Longrightarrow> tame ok p s h UB"
  by (simp add: tame_def)

lemma tame_pre: "R h0 h \<Longrightarrow> tame ok p s h r \<Longrightarrow> tame ok p s h0 r"
  by (auto simp: tame_def intro: R_trans split: outcome.splits)

lemma tame_reads: "good s \<Longrightarrow> reads_at p s h r \<Longrightarrow> tameV p s h r"
  by (auto simp: reads_at_def tame_def R_refl advances_within)

lemma tame_chain:
  assumes s: "good s" and r: "tame ok p s h (Ret (v, s', h'))" and v: "ok v"
    and k: "tame ok' q s' h' r'"
  shows "tame ok' (p \<or> q) s h r'"
proof -
  from r v have a: "R h h'" "within s s'" "advances s s'" "p \<longrightarrow> unat (bytes_left s') < unat (bytes_left s)"
    by (auto simp: tame_def)
  have g: "good s'" using s a(3) by (rule advances_good)
  show ?thesis
  proof (cases r')
    case (Ret x)
    obtain w s'' h'' where x: "x = (w, s'', h'')" by (cases x)
    from k Ret x have b: "R h' h''" "within s' s''" "ok' w \<longrightarrow> advances s' s''"
        "ok' w \<longrightarrow> q \<longrightarrow> unat (bytes_left s'') < unat (bytes_left s')" by (auto simp: tame_def)
    have "ok' w \<longrightarrow> advances s s''" using advances_trans [OF s a(3)] b(3) by blast
    with b a advances_left [OF s a(3)] advances_left [OF g] show ?thesis
      unfolding Ret x using R_trans [OF a(1) b(1)] within_trans [OF s a(2) b(2)]
      by (auto simp: tame_def intro: le_less_trans less_le_trans)
  qed (use k in \<open>auto simp: tame_def\<close>)
qed

lemma tame_withV:
  assumes s: "good s" and r: "tameV p s h r"
    and k: "\<And>x s' h'. r = Ret (Some x, s', h') \<Longrightarrow> good s' \<Longrightarrow> within s s' \<Longrightarrow>
      (p \<longrightarrow> unat (bytes_left s') < unat (bytes_left s)) \<Longrightarrow> tameB q s' h' (k x s' h')"
  shows "tameB (p \<or> q) s h (withV r k)"
proof (cases r)
  case (Ret y)
  obtain v s' h' where y: "y = (v, s', h')" by (cases y)
  show ?thesis
  proof (cases v)
    case None
    with r Ret y show ?thesis by (simp add: withV_def tame_def)
  next
    case (Some x)
    then have "within s s'" "p \<longrightarrow> unat (bytes_left s') < unat (bytes_left s)"
      using r Ret y by (auto simp: tame_def)
    then have "tameB q s' h' (k x s' h')" using k Ret y Some s by (auto intro: within_good)
    from tame_chain [OF s _ _ this, of "\<lambda>v. v \<noteq> None" p h v] show ?thesis
      using r Ret y Some by (simp add: withV_def)
  qed
qed (use r in \<open>auto simp: tame_def withV_def\<close>)

lemma tame_bindV:
  assumes s: "good s" and r: "tameV p s h r"
    and k: "\<And>x s' h'. r = Ret (Some x, s', h') \<Longrightarrow> good s' \<Longrightarrow> within s s' \<Longrightarrow>
      (p \<longrightarrow> unat (bytes_left s') < unat (bytes_left s)) \<Longrightarrow> tameV q s' h' (k x s' h')"
  shows "tameV (p \<or> q) s h (bindV r k)"
proof (cases r)
  case (Ret y)
  obtain v s' h' where y: "y = (v, s', h')" by (cases y)
  show ?thesis
  proof (cases v)
    case None
    with r Ret y show ?thesis by (simp add: bindV_def tame_def)
  next
    case (Some x)
    then have "within s s'" "p \<longrightarrow> unat (bytes_left s') < unat (bytes_left s)"
      using r Ret y by (auto simp: tame_def)
    then have "tameV q s' h' (k x s' h')" using k Ret y Some s by (auto intro: within_good)
    from tame_chain [OF s _ _ this, of "\<lambda>v. v \<noteq> None" p h v] show ?thesis
      using r Ret y Some by (simp add: bindV_def)
  qed
qed (use r in \<open>auto simp: tame_def bindV_def\<close>)

lemma tame_thenO:
  assumes s: "good s" and r: "tameB p s h r"
    and k: "\<And>s' h'. r = Ret (True, s', h') \<Longrightarrow> good s' \<Longrightarrow> within s s' \<Longrightarrow> tameB q s' h' (k s' h')"
  shows "tameB (p \<or> q) s h (thenO r k)"
proof (cases r)
  case (Ret y)
  obtain v s' h' where y: "y = (v, s', h')" by (cases y)
  show ?thesis
  proof (cases v)
    case False
    with r Ret y show ?thesis by (simp add: tame_def)
  next
    case True
    then have "within s s'" using r Ret y by (auto simp: tame_def)
    then have "tameB q s' h' (k s' h')" using k Ret y True s by (auto intro: within_good)
    from tame_chain [OF s _ _ this, of "\<lambda>b. b" p h v] show ?thesis
      using r Ret y True by simp
  qed
qed (use r in \<open>auto simp: tame_def\<close>)

lemma tame_bindH:
  assumes "tame_heap h r" and "\<And>h'. r = Ret h' \<Longrightarrow> R h h' \<Longrightarrow> tame ok p s h' (k h')"
  shows "tame ok p s h (bindO r k)"
proof (cases r)
  case (Ret h')
  then have "R h h'" using assms(1) by (simp add: tame_heap_def)
  then show ?thesis using assms(2) [OF Ret] Ret by (auto intro: tame_pre)
qed (use assms(1) in \<open>auto simp: tame_heap_def tame_def\<close>)

lemma tame_heap_bind:
  "tame_heap h r \<Longrightarrow> (\<And>h'. r = Ret h' \<Longrightarrow> R h h' \<Longrightarrow> tame_heap h' (k h')) \<Longrightarrow> tame_heap h (bindO r k)"
  by (cases r) (auto simp: tame_heap_def intro: R_trans split: outcome.splits)

lemma tame_heap_Ret: "R h h' \<Longrightarrow> tame_heap h (Ret h')"
  by (simp add: tame_heap_def)

lemma tame_heap_pre: "R h0 h \<Longrightarrow> tame_heap h r \<Longrightarrow> tame_heap h0 r"
  by (auto simp: tame_heap_def intro: R_trans split: outcome.splits)

section \<open>Substreams\<close>

lemma good_shorter: "good t \<Longrightarrow> unat n \<le> unat (bytes_left t) \<Longrightarrow> good (t\<lparr>bytes_left := n\<rparr>)"
  by (simp add: good_def)

lemma within_shorter: "unat n \<le> unat (bytes_left t) \<Longrightarrow> within t (t\<lparr>bytes_left := n\<rparr>)"
  unfolding within_def by (auto intro!: exI [of _ 0] simp: adv_0)

text \<open>
  A substream is opened on a stream \<open>t\<close> right behind the length prefix; the parent keeps
  that position with the payload already taken off its account.
\<close>

lemma tame_substream:
  assumes s: "good s"
    and k: "\<And>t sz. good t \<Longrightarrow> unat sz \<le> unat (bytes_left t) \<Longrightarrow> unat (bytes_left t) < unat (bytes_left s) \<Longrightarrow>
      tameB False t h (K (t\<lparr>bytes_left := sz\<rparr>) (t\<lparr>bytes_left := bytes_left t - sz\<rparr>) h)"
  shows "tameB True s h (withV (pb_make_string_substream E s h) K)"
proof -
  obtain v t where v: "pb_decode_varint32 E s h = Ret (v, t, h)" "advances s t"
      "v \<noteq> None \<Longrightarrow> unat (bytes_left t) < unat (bytes_left s)"
    using reads_varint32 [OF s, of h] by (auto simp: reads_at_def)
  have t: "good t" "within s t" using advances_good [OF s v(2)] advances_within [OF s v(2)] by auto
  show ?thesis
  proof (cases v)
    case None
    with v t show ?thesis
      by (simp add: pb_make_string_substream_def bindV_def withV_def) (rule tame_fail; simp add: R_refl)
  next
    case (Some x)
    show ?thesis
    proof (cases "bytes_left t < ucast x")
      case True
      with v Some t show ?thesis
        by (simp add: pb_make_string_substream_def bindV_def withV_def PB_RETURN_ERROR_v_def)
          (rule tame_fail; simp add: R_refl)
    next
      case False
      have r: "tameB True s h (Ret (True, t, h))"
        using v Some t by (simp add: tame_def R_refl)
      have "tameB (True \<or> False) s h (K (t\<lparr>bytes_left := ucast x\<rparr>) (t\<lparr>bytes_left := bytes_left t - ucast x\<rparr>) h)"
        using False v Some t by (intro tame_chain [OF s r]) (auto intro!: k simp: word_le_nat_alt word_less_nat_alt not_less)
      with v Some False show ?thesis
        by (simp add: pb_make_string_substream_def bindV_def withV_def)
    qed
  qed
qed

lemma close_substream:
  assumes t: "good t" and sz: "unat sz \<le> unat (bytes_left t)" and w: "within (t\<lparr>bytes_left := sz\<rparr>) sub"
  obtains s' where
    "pb_close_string_substream E sub ((t\<lparr>bytes_left := bytes_left t - sz\<rparr>)\<lparr>i_errmsg := e\<rparr>) h = Ret (True, s', h)"
    "within t s'" "advances (t\<lparr>bytes_left := sz\<rparr>) sub \<Longrightarrow> advances t s'"
proof -
  let ?sub = "t\<lparr>bytes_left := sz\<rparr>"
  have gs: "good ?sub" using t sz by (rule good_shorter)
  have gsub: "good sub" using gs w by (rule within_good)
  obtain j where j: "j + unat (bytes_left sub) \<le> unat sz" "st_of sub = adv (st_of t) j"
    using w by (auto simp: within_def)
  let ?k = "j + unat (bytes_left sub)"
  have av: "?k \<le> length (avail (st_of t))" using j sz t by (simp add: good_def)
  let ?last = "eat (unat (bytes_left sub)) sub"
  let ?s' = "(set_st (adv (st_of t) ?k) (t\<lparr>bytes_left := bytes_left t - sz\<rparr>))\<lparr>i_errmsg := i_errmsg sub\<rparr>"
  have st: "st_of ?last = adv (st_of t) ?k" using j av by (simp add: adv_adv)
  have ib: "i_buf ?last = fst (adv (st_of t) ?k)" "i_pos ?last = snd (adv (st_of t) ?k)"
    unfolding st [symmetric] by (simp_all add: st_of_def)
  have left: "unat (bytes_left t - sz) = unat (bytes_left t) - unat sz"
    using sz by (simp add: unat_sub word_le_nat_alt)
  have rd: "(if bytes_left sub \<noteq> 0 then pb_read_to E RNull (bytes_left sub) sub h else Ret (True, sub, h))
      = Ret (True, ?last, h)"
    using read_to_null_ok [OF gsub, of "bytes_left sub" h] by auto
  have close: "pb_close_string_substream E sub ((t\<lparr>bytes_left := bytes_left t - sz\<rparr>)\<lparr>i_errmsg := e\<rparr>) h = Ret (True, ?s', h)"
    unfolding pb_close_string_substream_def rd by (simp add: set_st_def ib)
  have "within t ?s'"
    unfolding within_def using j sz left by (intro conjI exI [of _ ?k]) auto
  moreover have "advances t ?s'" if a: "advances ?sub sub"
  proof -
    from a obtain i e' where i: "i \<le> unat sz" "sub = (eat i ?sub)\<lparr>i_errmsg := e'\<rparr>" by (auto simp: advances_def)
    then have "unat (bytes_left sub) = unat sz - i" using unat_left_eat [of i ?sub] by simp
    moreover have "st_of sub = adv (st_of t) i" using i(2) by simp
    ultimately have "adv (st_of t) ?k = adv (st_of t) (unat sz)"
      using j(2) adv_adv [of i "unat sz - i" "st_of t"] adv_adv [of j "unat (bytes_left sub)" "st_of t"] av i(1) sz t
      by (simp add: good_def)
    then have "?s' = (eat (unat sz) t)\<lparr>i_errmsg := i_errmsg sub\<rparr>" by (simp add: eat_def set_st_def)
    with sz show ?thesis unfolding advances_def by blast
  qed
  ultimately show ?thesis using close that by blast
qed

text \<open>Closing a substream and returning the status of what ran on it.\<close>

lemma tame_close:
  assumes t: "good t" and sz: "unat sz \<le> unat (bytes_left t)"
    and sub: "tameB p (t\<lparr>bytes_left := sz\<rparr>) h0 (Ret (status, sub, h))" and s: "s = (t\<lparr>bytes_left := bytes_left t - sz\<rparr>)\<lparr>i_errmsg := e\<rparr>"
  shows "tameB False t h (thenO (pb_close_string_substream E sub s h) (\<lambda>s h. Ret (status, s, h)))"
proof -
  have w: "within (t\<lparr>bytes_left := sz\<rparr>) sub" "status \<Longrightarrow> advances (t\<lparr>bytes_left := sz\<rparr>) sub"
    using sub by (auto simp: tame_def)
  obtain s' where "pb_close_string_substream E sub s h = Ret (True, s', h)" "within t s'"
      "advances (t\<lparr>bytes_left := sz\<rparr>) sub \<Longrightarrow> advances t s'"
    using close_substream [OF t sz w(1), of e h] s by blast
  with w(2) show ?thesis by (auto simp: tame_def R_refl)
qed

lemma tame_with_substream:
  assumes t: "good t" and sz: "unat sz \<le> unat (bytes_left t)"
    and body: "tameB p (t\<lparr>bytes_left := sz\<rparr>) h (body (t\<lparr>bytes_left := sz\<rparr>) h)"
  shows "tameB False t h (with_substream E body (t\<lparr>bytes_left := sz\<rparr>) (t\<lparr>bytes_left := bytes_left t - sz\<rparr>) h)"
proof (cases "body (t\<lparr>bytes_left := sz\<rparr>) h")
  case (Ret y)
  obtain status sub h' where y: "y = (status, sub, h')" by (cases y)
  have "R h h'" using body Ret y by (simp add: tame_def)
  moreover have "tameB False t h' (thenO (pb_close_string_substream E sub (t\<lparr>bytes_left := bytes_left t - sz\<rparr>) h')
      (\<lambda>s h. Ret (status, s, h)))"
    using t sz by (rule tame_close [where e = "i_errmsg t"]) (use body Ret y in simp_all)
  ultimately show ?thesis using Ret y by (auto simp: with_substream_def intro: tame_pre)
qed (use body in \<open>auto simp: with_substream_def tame_def\<close>)

end

end
