(* ===== verification/Decode_Fields.thy ===== *)
theory Decode_Fields
  imports Decode_Safe
begin

text \<open>
  The single-value decoders of \<open>pb_decode.c\<close> are tame: integers, fixed-width values, bytes,
  strings and submessages, for any input, as long as the destination may be written.
\<close>

lemma store8_bytes: "store8 m p v = store_bytes m p [v]"
  by (simp add: store8_def)

lemma store_bool_bytes: "store_bool m p b = store_bytes m p [if b then 1 else 0]"
  by (simp add: store_bool_def)

context safe_decoding
begin

text \<open>Stores anywhere in the \<open>k\<close> bytes from \<open>p\<close> are allowed.\<close>

definition writable :: "addr \<Rightarrow> nat \<Rightarrow> bool" where
  "writable p k \<longleftrightarrow>
     (\<forall>h i bs. i + length bs \<le> k \<longrightarrow> R h (set_mem h (store_bytes (mem h) (p + of_nat i) bs)))"

lemma writable_lax: "lax \<Longrightarrow> writable p k"
  by (simp add: writable_def lax_def)

lemma lax_R: "lax \<Longrightarrow> R h h'"
  by (simp add: lax_def)

lemma writable_mono: "writable p k \<Longrightarrow> j \<le> k \<Longrightarrow> writable p j"
  by (auto simp: writable_def)

lemma writableD: "writable p k \<Longrightarrow> length bs \<le> k \<Longrightarrow> R h (set_mem h (store_bytes (mem h) p bs))"
  unfolding writable_def by (drule spec [of _ h], drule spec [of _ 0], drule spec [of _ bs]) simp

lemma writableD_at:
  "writable p k \<Longrightarrow> i + length bs \<le> k \<Longrightarrow> R h (set_mem h (store_bytes (mem h) (p + of_nat i) bs))"
  unfolding writable_def by blast

lemma writable_stores:
  "writable p k \<Longrightarrow> 1 \<le> k \<Longrightarrow> R h (set_mem h (store8 (mem h) p v8))"
  "writable p k \<Longrightarrow> 2 \<le> k \<Longrightarrow> R h (set_mem h (store16 (mem h) p v16))"
  "writable p k \<Longrightarrow> 4 \<le> k \<Longrightarrow> R h (set_mem h (store32 (mem h) p v32))"
  "writable p k \<Longrightarrow> 8 \<le> k \<Longrightarrow> R h (set_mem h (store64 (mem h) p v64))"
  "writable p k \<Longrightarrow> 1 \<le> k \<Longrightarrow> R h (set_mem h (store_bool (mem h) p b))"
  "writable p k \<Longrightarrow> n \<le> k \<Longrightarrow> R h (memset0 h p n)"
  "writable p k \<Longrightarrow> n \<le> k \<Longrightarrow> R h (memcpy h p q n)"
  unfolding store16_def store32_def store64_def store8_bytes store_bool_bytes memset0_def memcpy_def
  by (rule writableD; simp)+

section \<open>Integers\<close>

lemma tame_store_checked:
  assumes w: "writable p (unat (data_size f))"
  shows "tameB False s h (store_checked sg f p v s h)"
proof (cases "store_int sg (data_size f) (mem h) p v")
  case None
  then show ?thesis by (auto simp: store_checked_def)
next
  case (Some mc)
  obtain m c where mc: "mc = (m, c)" by (cases mc)
  have "R h (set_mem h m)"
    using Some mc writable_stores [OF w] by (auto simp: store_int_def split: if_splits)
  then show ?thesis
    using Some mc by (auto simp: store_checked_def Let_def tame_def PB_RETURN_ERROR_i_def)
qed

lemma tame_ints:
  assumes s: "good s" and w: "writable p (unat (data_size f))"
  shows "tameB True s h (pb_dec_varint E f p s h)" "tameB True s h (pb_dec_uvarint E f p s h)"
    "tameB True s h (pb_dec_svarint E f p s h)"
proof -
  have v: "tameV True s h (pb_decode_varint E s h)" using s by (intro tame_reads reads_varint)
  show "tameB True s h (pb_dec_varint E f p s h)" "tameB True s h (pb_dec_uvarint E f p s h)"
    unfolding pb_dec_varint_def pb_dec_uvarint_def Let_def
    using tame_withV [OF s v, where q = False] tame_store_checked [OF w] by auto
  have sv: "tameV (True \<or> False) s h (pb_decode_svarint E s h)"
    unfolding pb_decode_svarint_def by (rule tame_bindV [OF s v]) auto
  have "tameB ((True \<or> False) \<or> False) s h (pb_dec_svarint E f p s h)"
    unfolding pb_dec_svarint_def by (rule tame_withV [OF s sv]) (rule tame_store_checked [OF w])
  then show "tameB True s h (pb_dec_svarint E f p s h)" by simp
qed

section \<open>Reads into memory\<close>

lemma tame_read_to_mem:
  assumes s: "good s" and w: "\<And>bs. length bs = unat c \<Longrightarrow> R h (set_mem h (store_bytes (mem h) p bs))"
  shows "tameB False s h (pb_read_to E (RMem p) c s h)"
proof (cases "unat c \<le> unat (bytes_left s)")
  case True
  have "length (take (unat c) (input s)) = unat c" using True length_input [OF s] by simp
  then show ?thesis
    using True read_to_ok [OF s True, of "RMem p" h] w advances_eat [OF True] advances_within [OF s]
    by (simp add: tame_def)
next
  case False
  then obtain s' where "pb_read_to E (RMem p) c s h = Ret (False, s', h)" "advances s s'"
    using read_to_eof [OF s, of c "RMem p" h] by auto
  then show ?thesis using advances_within [OF s] by (simp add: tame_def R_refl)
qed

lemma tame_read_local:
  assumes s: "good s" and c: "0 < unat c"
    and k: "\<And>bs s'. length bs = unat c \<Longrightarrow> good s' \<Longrightarrow> tameB False s' h (k bs s' h)"
  shows "tameB True s h (withV (pb_read E RLocal c s h) k)"
proof (cases "unat c \<le> unat (bytes_left s)")
  case True
  have "length (take (unat c) (input s)) = unat c" using True length_input [OF s] by simp
  moreover have "tameV True s h (Ret (Some (take (unat c) (input s)), eat (unat c) s, h))"
    using True c advances_eat [OF True] advances_within [OF s] unat_left_eat [OF True] by (simp add: tame_def R_refl)
  ultimately show ?thesis
    using tame_withV [OF s, of True h "pb_read E RLocal c s h" False k] k pb_read_ok [OF s True, of RLocal h]
    by auto
next
  case False
  then obtain s' where "pb_read E RLocal c s h = Ret (None, s', h)" "advances s s'"
    using pb_read_eof [OF s, of c RLocal h] by auto
  then show ?thesis using advances_within [OF s] by (simp add: withV_def tame_def R_refl)
qed

lemma tame_fixed32: "good s \<Longrightarrow> writable p k \<Longrightarrow> 4 \<le> k \<Longrightarrow> tameB True s h (pb_dec_fixed32 E f p s h)"
  unfolding pb_dec_fixed32_def pb_decode_fixed32_def
  by (rule tame_read_local) (auto intro!: tame_Ret writable_stores)

lemma tame_fixed64: "good s \<Longrightarrow> writable p k \<Longrightarrow> 8 \<le> k \<Longrightarrow> tameB True s h (pb_dec_fixed64 E f p s h)"
  unfolding pb_dec_fixed64_def pb_decode_fixed64_def
  by (rule tame_read_local) (auto intro!: tame_Ret writable_stores)

lemma tame_varint32: "good s \<Longrightarrow> tameV True s h (pb_decode_varint32 E s h)"
  by (intro tame_reads reads_varint32)

lemma tame_allocate: "lax \<Longrightarrow> good s \<Longrightarrow> tameB False s h (allocate_field E p d n s h)"
  by (auto simp: allocate_field_def c_realloc_def Let_def tame_UB PB_RETURN_ERROR_i_def
      intro!: tame_Ret lax_R)

section \<open>Bytes and strings\<close>

lemma tame_bytes:
  assumes s: "good s" and w: "writable p (unat (data_size f))"
    and ptr: "PB_ATYPE (type f) = PB_ATYPE_POINTER \<Longrightarrow> lax"
  shows "tameB True s h (pb_dec_bytes E f p s h)"
proof -
  have finish: "tameB False s h (pb_read_to E (RMem (bytes_data q)) (ucast sz) s (set_mem h (store32 (mem h) q sz)))"
    if "good s" "writable q (4 + unat sz)" for s q h and sz :: u32
  proof (rule tame_pre)
    show "R h (set_mem h (store32 (mem h) q sz))" using that(2) by (rule writable_stores) simp
    show "tameB False s (set_mem h (store32 (mem h) q sz))
        (pb_read_to E (RMem (bytes_data q)) (ucast sz) s (set_mem h (store32 (mem h) q sz)))"
      using writableD_at [OF that(2), of 4 _ "set_mem h (store32 (mem h) q sz)"] that(1)
      by (intro tame_read_to_mem) (auto simp: bytes_data_def unat_ucast_up)
  qed
  have alloc: "unat (PB_BYTES_ARRAY_T_ALLOCSIZE sz) = unat sz + 4" for sz
    using unsigned_less [of sz, where 'a = nat]
    by (simp add: PB_BYTES_ARRAY_T_ALLOCSIZE_def unat_word_ariths unat_ucast_up)
  have "tameB (True \<or> False) s h (pb_dec_bytes E f p s h)"
    unfolding pb_dec_bytes_def
  proof (rule tame_withV [OF s tame_varint32 [OF s]])
    fix sz :: u32 and s' h' assume s': "good s'"
    have static: "tameB False s' h' (pb_read_to E (RMem (bytes_data p)) (ucast sz) s' (set_mem h' (store32 (mem h') p sz)))"
      if "\<not> PB_BYTES_ARRAY_T_ALLOCSIZE sz > ucast (data_size f)"
      using that alloc [of sz]
      by (intro finish [OF s'] writable_mono [OF w]) (simp add: word_less_nat_alt not_less unat_ucast_up)
    have pointer: "tameB (False \<or> False) s' h' (thenO (allocate_field E p (PB_BYTES_ARRAY_T_ALLOCSIZE sz) 1 s' h')
        (\<lambda>s h. pb_read_to E (RMem (bytes_data (load64 (mem h) p))) (ucast sz) s
           (set_mem h (store32 (mem h) (load64 (mem h) p) sz))))" if l: lax
      using s' tame_allocate [OF l s'] by (rule tame_thenO) (auto intro: finish writable_lax [OF l])
    show "tameB False s' h' ((\<lambda>size s h.
       if size > PB_SIZE_MAX then PB_RETURN_ERROR_i s ''bytes overflow'' h
       else
         let alloc_size = PB_BYTES_ARRAY_T_ALLOCSIZE size;
             finish = (\<lambda>bdest s h.
               pb_read_to E (RMem (bytes_data bdest)) (ucast size) s (set_mem h (store32 (mem h) bdest size)))
         in
         if ucast size > alloc_size then PB_RETURN_ERROR_i s ''size too large'' h
         else if PB_ATYPE (type f) = PB_ATYPE_POINTER then
           thenO (allocate_field E p alloc_size 1 s h) (\<lambda>s h. finish (load64 (mem h) p) s h)
         else if alloc_size > ucast (data_size f) then PB_RETURN_ERROR_i s ''bytes overflow'' h
         else finish p s h) sz s' h')"
      using static pointer ptr by (auto simp: Let_def)
  qed
  then show ?thesis by simp
qed

lemma tame_string:
  assumes s: "good s" and w: "writable p (unat (data_size f))"
    and ptr: "PB_ATYPE (type f) = PB_ATYPE_POINTER \<Longrightarrow> lax"
  shows "tameB True s h (pb_dec_string E f p s h)"
proof -
  let ?fin = "\<lambda>sz q s h. bindO (pb_read_to E (RMem q) (ucast (sz :: u32)) s h) (\<lambda>(status, s, h).
      Ret (status, s, set_mem h (store8 (mem h) (q + ucast sz) 0)))"
  have finish: "tameB False s h (?fin sz q s h)" if "good s" "writable q (unat sz + 1)" for s q h and sz :: u32
  proof -
    have rd: "tameB False s h (pb_read_to E (RMem q) (ucast sz) s h)"
      using that by (intro tame_read_to_mem) (auto simp: unat_ucast_up intro: writableD)
    have nul: "R h' (set_mem h' (store8 (mem h') (q + ucast sz) 0))" for h'
      using writableD_at [OF that(2), of "unat sz" "[0]" h'] by (simp add: store8_bytes of_nat_unat)
    show ?thesis
      using rd nul by (auto simp: tame_def split: outcome.splits intro: R_trans)
  qed
  have "tameB (True \<or> False) s h (pb_dec_string E f p s h)"
    unfolding pb_dec_string_def Let_def
  proof (rule tame_withV [OF s tame_varint32 [OF s]])
    fix sz :: u32 and s' h' assume s': "good s'"
    let ?al = "ucast (sz + 1) :: u64"
    have al: "unat sz + 1 = unat ?al" if "\<not> ?al < ucast sz"
    proof -
      have "sz + 1 \<noteq> 0"
      proof
        assume z: "sz + 1 = 0"
        with that have "unat sz = 0" by (simp add: word_less_nat_alt unat_ucast_up)
        with z show False by (simp add: unat_eq_0)
      qed
      then have "unat (sz + 1) \<noteq> 0" by (simp add: unat_eq_0)
      then have "(unat sz + 1) mod 2 ^ 32 \<noteq> 0" by (simp add: unat_word_ariths)
      then have "unat sz + 1 < 2 ^ 32"
        using unsigned_less [of sz, where 'a = nat] by (cases "unat sz + 1 = 2 ^ 32") auto
      then show ?thesis by (simp add: unat_ucast_up unat_word_ariths)
    qed
    have static: "tameB False s' h' (?fin sz p s' h')" if "\<not> ?al < ucast sz" "\<not> ?al > ucast (data_size f)"
      using that al by (intro finish [OF s'] writable_mono [OF w]) (simp add: word_less_nat_alt not_less unat_ucast_up)
    have pointer: "tameB (False \<or> False) s' h' (thenO (allocate_field E p ?al 1 s' h') (\<lambda>s h. ?fin sz (load64 (mem h) p) s h))" if l: lax
      using s' tame_allocate [OF l s'] by (rule tame_thenO) (auto intro: finish writable_lax [OF l])
    show "tameB False s' h' (if ?al < ucast sz then PB_RETURN_ERROR_i s' ''size too large'' h'
       else if PB_ATYPE (type f) = PB_ATYPE_POINTER then
         thenO (allocate_field E p ?al 1 s' h') (\<lambda>s h. ?fin sz (load64 (mem h) p) s h)
       else if ?al > ucast (data_size f) then PB_RETURN_ERROR_i s' ''string overflow'' h'
       else ?fin sz p s' h')"
      using static pointer ptr by auto
  qed
  then show ?thesis by simp
qed

lemma tame_fixed_length:
  assumes s: "good s" and w: "writable p (unat (data_size f))"
  shows "tameB True s h (pb_dec_fixed_length_bytes E f p s h)"
proof -
  have "tameB (True \<or> False) s h (pb_dec_fixed_length_bytes E f p s h)"
    unfolding pb_dec_fixed_length_bytes_def
    using s w by (intro tame_withV [OF s tame_varint32 [OF s]])
      (auto intro!: tame_Ret tame_read_to_mem writable_stores writableD simp: unat_ucast_up)
  then show ?thesis by simp
qed

end

end
