(* ===== verification/Decode_Storage.thy ===== *)
theory Decode_Storage
  imports Decode_Fields Descriptors
begin

text \<open>
  Default values and release are tame: for well-formed descriptors they come back, and in a
  message without pointers they write only where the message may be written.
\<close>

context safe_decoding
begin

section \<open>Where a message may be written\<close>

definition fld_w :: "(addr \<Rightarrow> addr \<Rightarrow> bool) \<Rightarrow> pb_field_t \<Rightarrow> addr \<Rightarrow> addr \<Rightarrow> bool" where
  "fld_w sub f pD pS \<longleftrightarrow>
     (PB_HTYPE (type f) \<noteq> PB_HTYPE_REPEATED \<longrightarrow>
        writable pD (unat (data_size f)) \<and> (PB_LTYPE (type f) = PB_LTYPE_SUBMESSAGE \<longrightarrow> sub (ptr f) pD)) \<and>
     (PB_HTYPE (type f) = PB_HTYPE_OPTIONAL \<and> pS \<noteq> pD \<longrightarrow> writable pS 1) \<and>
     (PB_HTYPE (type f) = PB_HTYPE_REPEATED \<or> PB_HTYPE (type f) = PB_HTYPE_ONEOF \<longrightarrow> writable pS 4) \<and>
     (PB_HTYPE (type f) = PB_HTYPE_REPEATED \<longrightarrow>
        (\<forall>k < array_size f. writable (item_addr pD (data_size f) k) (unat (data_size f)) \<and>
           (PB_LTYPE (type f) = PB_LTYPE_SUBMESSAGE \<longrightarrow> sub (ptr f) (item_addr pD (data_size f) k))))"

fun msg_w :: "nat \<Rightarrow> addr \<Rightarrow> addr \<Rightarrow> bool" where
  "msg_w 0 a d \<longleftrightarrow> True"
| "msg_w (Suc n) a d \<longleftrightarrow>
     (\<forall>i < n_fields E a. fld_w (msg_w n) (field_at E a i) (pData (iter_at E a d i)) (pSize (iter_at E a d i)))"

lemma fld_w_lax: "lax \<Longrightarrow> (\<And>a d. sub a d) \<Longrightarrow> fld_w sub f pD pS"
  by (simp add: fld_w_def writable_lax)

lemma msg_w_lax: "lax \<Longrightarrow> msg_w n a d"
  by (induction n arbitrary: a d) (simp_all add: fld_w_lax)

lemma tame_heap_UB: "lax \<Longrightarrow> tame_heap h UB"
  by (simp add: tame_heap_def)

lemma tame_for_each:
  assumes "\<And>i h. i < n_fields E a \<Longrightarrow> tame_heap h (fld (iter_at E a d i) h)"
  shows "i < n_fields E a \<Longrightarrow> n_fields E a - i \<le> k \<Longrightarrow> tame_heap h (for_each_field E fld k (iter_at E a d i) h)"
proof (induction k arbitrary: i h)
  case (Suc k)
  have "tame_heap h' (if Suc i < n_fields E a then for_each_field E fld k (iter_at E a d (Suc i)) h' else Ret h')" for h'
    using Suc.IH [of "Suc i" h'] Suc.prems by (auto intro: tame_heap_Ret R_refl)
  then show ?case
    using assms [OF Suc.prems(1)]
    by (cases "Suc i < n_fields E a") (auto simp: next_iter_at [OF Suc.prems(1)] intro!: tame_heap_bind)
qed simp

section \<open>Defaults\<close>

lemma tame_defaults:
  "desc_ok E (\<not> lax) (Suc n) a \<Longrightarrow> msg_w (Suc n) a d \<Longrightarrow> tame_heap h (pb_message_set_to_defaults E n a d h)"
proof (induction n arbitrary: a d h)
  case (Suc n)
  let ?fld = "pb_field_set_to_default E (Suc n)"
  have fld: "tame_heap h (?fld (iter_at E a d i) h)" if i: "i < n_fields E a" for i h
  proof -
    let ?it = "iter_at E a d i" and ?f = "field_at E a i"
    have f: "field_ok (\<not> lax) (desc_ok E (\<not> lax) (Suc n)) ?f" using Suc.prems(1) i by (rule desc_ok_field)
    have w: "fld_w (msg_w (Suc n)) ?f (pData ?it) (pSize ?it)" using Suc.prems(2) i by simp
    have sub: "tame_heap h (message_defaults E (pb_field_set_to_default E n) (ptr ?f) (pData ?it) h)"
      if "PB_LTYPE (type ?f) = PB_LTYPE_SUBMESSAGE" "PB_HTYPE (type ?f) \<noteq> PB_HTYPE_REPEATED" for h
      using Suc.IH [of "ptr ?f" "pData ?it" h] that f w
      by (simp add: field_ok_def fld_w_def pb_message_set_to_defaults_def)
    have flag: "R h (set_mem h (store_bool (mem h) (pSize ?it) False))"
      if "PB_HTYPE (type ?f) = PB_HTYPE_OPTIONAL" "pSize ?it \<noteq> pData ?it" for h
      using w that by (intro writable_stores(5) [where k = 1]) (auto simp: fld_w_def)
    have count: "R h (set_mem h (store32 (mem h) (pSize ?it) 0))"
      if "PB_HTYPE (type ?f) = PB_HTYPE_REPEATED \<or> PB_HTYPE (type ?f) = PB_HTYPE_ONEOF" for h
      using w that by (intro writable_stores(3) [where k = 4]) (auto simp: fld_w_def)
    have init: "tame_heap h (if PB_LTYPE (type ?f) = PB_LTYPE_SUBMESSAGE then
          (if ptr ?f = 0 then UB else message_defaults E (pb_field_set_to_default E n) (ptr ?f) (pData ?it) h)
        else if ptr ?f \<noteq> 0 then Ret (memcpy h (pData ?it) (ptr ?f) (unat (data_size ?f)))
        else Ret (memset0 h (pData ?it) (unat (data_size ?f))))"
      if "PB_HTYPE (type ?f) \<noteq> PB_HTYPE_REPEATED" for h
      using w f that sub by (auto simp: fld_w_def field_ok_def intro!: tame_heap_Ret writable_stores)
    have ext: "PB_LTYPE (type ?f) \<noteq> PB_LTYPE_EXTENSION" using f by (auto simp: field_ok_def)
    note eq = field_default_body_def iter_pos_iter_at [OF i] Let_def ext
    have ptr: lax if "PB_ATYPE (type ?f) = PB_ATYPE_POINTER" using f that by (auto simp: field_ok_def)
    consider (other) "PB_ATYPE (type ?f) \<noteq> PB_ATYPE_STATIC"
      | (flagged) "PB_ATYPE (type ?f) = PB_ATYPE_STATIC" "PB_HTYPE (type ?f) = PB_HTYPE_OPTIONAL" "pSize ?it \<noteq> pData ?it"
      | (counted) "PB_ATYPE (type ?f) = PB_ATYPE_STATIC" "PB_HTYPE (type ?f) = PB_HTYPE_REPEATED \<or> PB_HTYPE (type ?f) = PB_HTYPE_ONEOF"
      | (plain) "PB_ATYPE (type ?f) = PB_ATYPE_STATIC" "\<not> (PB_HTYPE (type ?f) = PB_HTYPE_OPTIONAL \<and> pSize ?it \<noteq> pData ?it)"
          "\<not> (PB_HTYPE (type ?f) = PB_HTYPE_REPEATED \<or> PB_HTYPE (type ?f) = PB_HTYPE_ONEOF)"
      by blast
    then show ?thesis
    proof cases
      case other
      with ptr show ?thesis by (auto simp: eq lax_R intro!: tame_heap_Ret R_refl)
    next
      case flagged
      have "PB_HTYPE (type ?f) \<noteq> PB_HTYPE_REPEATED" using flagged(2) by simp
      from tame_heap_pre [OF flag [OF flagged(2,3)] init [OF this], of h] show ?thesis
        unfolding pb_field_set_to_default.simps eq
        by (simp only: flagged ext simp_thms if_True if_False cong del: if_weak_cong)
    next
      case counted
      with count show ?thesis by (auto simp: eq intro!: tame_heap_Ret)
    next
      case plain
      from plain(3) have "PB_HTYPE (type ?f) \<noteq> PB_HTYPE_REPEATED" by blast
      from init [OF this, of h] show ?thesis
        unfolding pb_field_set_to_default.simps eq by (simp only: plain ext simp_thms if_True if_False)
    qed
  qed
  show ?case
    using tame_for_each [where a = a and d = d and fld = ?fld and i = 0 and k = "Suc (length (ftab E a))"]
      fld n_fields_le [of E a]
    by (auto simp: pb_message_set_to_defaults_def message_defaults_def split_def Let_def fst_begin
        intro!: tame_heap_Ret R_refl simp del: for_each_field.simps)
qed simp

section \<open>Release\<close>

lemma tame_release_items:
  "(\<And>p h. tame_heap h (rel p h)) \<Longrightarrow> tame_heap h (release_items rel st k p h)"
  by (induction k arbitrary: p h) (auto intro: tame_heap_bind tame_heap_Ret R_refl)

lemma tame_c_free: "lax \<Longrightarrow> tame_heap h (c_free h p)"
  by (auto simp: c_free_def tame_heap_def lax_R)

lemma tame_free_items: "lax \<Longrightarrow> tame_heap h (free_items k p h)"
  by (induction k arbitrary: p h)
    (auto intro!: tame_heap_bind tame_c_free tame_heap_Ret lax_R tame_heap_UB intro: tame_heap_pre [OF lax_R])

lemma tame_release_single:
  assumes msg: "\<And>a p h. desc_ok E (\<not> lax) (Suc n) a \<Longrightarrow> tame_heap h (msg a p h)"
    and f: "field_ok (\<not> lax) (desc_ok E (\<not> lax) (Suc n)) (iter_pos E it)"
  shows "tame_heap h (release_field_body E n msg fld it h)"
proof -
  let ?f = "iter_pos E it"
  have "lax" if "PB_ATYPE (type ?f) = PB_ATYPE_POINTER" using f that by (auto simp: field_ok_def)
  moreover have inside: "tame_heap h (release_inside E n msg fld it h)" for h
  proof (cases "PB_LTYPE (type ?f) = PB_LTYPE_SUBMESSAGE")
    case True
    then have p: "ptr ?f \<noteq> 0" "desc_ok E (\<not> lax) (Suc n) (ptr ?f)" using f by (simp_all add: field_ok_def)
    have items: "tame_heap h (release_items (msg (ptr ?f)) (data_size ?f) k q h)" for k q
      by (rule tame_release_items) (rule msg [OF p(2)])
    show ?thesis
      unfolding release_inside_def Let_def using True p(1) by (simp add: items tame_heap_Ret R_refl)
  next
    case False
    have "PB_LTYPE (type ?f) \<noteq> PB_LTYPE_EXTENSION" using f by (simp add: field_ok_def)
    with False show ?thesis by (simp add: release_inside_def Let_def tame_heap_Ret R_refl)
  qed
  moreover have tail: "tame_heap h (bindO (if c then free_items k q h else Ret h) (\<lambda>h.
      bindO (c_free (g h) (load64 (mem (g h)) (pData it))) (\<lambda>h. Ret (set_mem h (store64 (mem h) (pData it) 0)))))"
    if l: lax for c k q g h
  proof (rule tame_heap_bind)
    show "tame_heap h (if c then free_items k q h else Ret h)"
      using tame_free_items [OF l] by (simp add: tame_heap_Ret R_refl)
    fix h'
    show "tame_heap h' (bindO (c_free (g h') (load64 (mem (g h')) (pData it))) (\<lambda>h. Ret (set_mem h (store64 (mem h) (pData it) 0))))"
      by (rule tame_heap_pre [OF lax_R [OF l]], rule tame_heap_bind [OF tame_c_free [OF l]])
        (rule tame_heap_Ret, rule lax_R [OF l])
  qed
  ultimately show ?thesis
  proof (cases "PB_ATYPE (type ?f) = PB_ATYPE_POINTER")
    case True
    with \<open>PB_ATYPE (type ?f) = PB_ATYPE_POINTER \<Longrightarrow> lax\<close> have l: lax by blast
    have "tame_heap h (bindO (release_inside E n msg fld it h) k)" if "\<And>h. tame_heap h (k h)" for k
      by (rule tame_heap_bind [OF inside]) (rule that)
    then show ?thesis
      unfolding release_field_body_def Let_def using True tail [OF l] by (simp add: tame_heap_Ret R_refl)
  next
    case False
    have "tame_heap h (bindO (release_inside E n msg fld it h) Ret)"
      by (rule tame_heap_bind [OF inside]) (rule tame_heap_Ret [OF R_refl])
    with False show ?thesis
      unfolding release_field_body_def Let_def by (simp add: tame_heap_Ret R_refl)
  qed
qed

lemma tame_release: "desc_ok E (\<not> lax) (Suc n) a \<Longrightarrow> tame_heap h (pb_release E n a d h)"
proof (induction n arbitrary: a d h)
  case (Suc n)
  have fld: "tame_heap h (pb_release_single_field E (Suc n) (iter_at E a d i) h)" if i: "i < n_fields E a" for i h
    using Suc.IH desc_ok_field [OF Suc.prems i]
    by (simp add: pb_release_def) (rule tame_release_single, auto simp: iter_pos_iter_at [OF i])
  show ?case
    using tame_for_each [where a = a and d = d and fld = "pb_release_single_field E (Suc n)" and i = 0
        and k = "Suc (length (ftab E a))"] fld n_fields_le [of E a]
    by (auto simp: pb_release_def release_message_def split_def Let_def fst_begin
        intro!: tame_heap_Ret R_refl simp del: for_each_field.simps)
qed simp

lemma tame_release_field:
  "0 < n \<Longrightarrow> field_ok (\<not> lax) (desc_ok E (\<not> lax) n) (iter_pos E it) \<Longrightarrow> tame_heap h (pb_release_single_field E n it h)"
  using tame_release
  by (cases n) (auto simp: pb_release_def intro!: tame_release_single)

end

end
