(* ===== verification/Decode_Message.thy ===== *)
theory Decode_Message
  imports Decode_Storage
begin

text \<open>
  Fields and messages: \<open>decode_field\<close> and \<open>pb_decode_noinit\<close> are tame for well-formed
  descriptors, by induction on the nesting depth.
\<close>

section \<open>Iterators with a replaced counter\<close>

lemma next_psize:
  "PB_HTYPE (type (iter_pos E it)) \<noteq> PB_HTYPE_ONEOF \<Longrightarrow> tag (iter_pos E it) \<noteq> 0 \<Longrightarrow>
     pb_field_iter_next E (it\<lparr>pSize := x\<rparr>) = pb_field_iter_next E it"
  by (simp add: pb_field_iter_next_def iter_pos_def Let_def)

lemma iter_pos_psize [simp]: "iter_pos E (it\<lparr>pSize := x\<rparr>) = iter_pos E it"
  by (simp add: iter_pos_def)

lemma search_psize:
  "PB_HTYPE (type (iter_pos E it)) \<noteq> PB_HTYPE_ONEOF \<Longrightarrow> tag (iter_pos E it) \<noteq> 0 \<Longrightarrow> \<not> P (iter_pos E it) \<Longrightarrow>
     iter_search E P st (Suc k) (it\<lparr>pSize := x\<rparr>) = iter_search E P st (Suc k) it"
  by (simp add: next_psize)

text \<open>The iterators that occur while a message is decoded.\<close>

definition iter_ok :: "env \<Rightarrow> addr \<Rightarrow> addr \<Rightarrow> addr \<Rightarrow> pb_field_iter_t \<Rightarrow> bool" where
  "iter_ok E a d sp it \<longleftrightarrow>
     n_fields E a = 0 \<and> it = iter_at E a d 0 \<or>
     (\<exists>i < n_fields E a. it = iter_at E a d i \<or>
        PB_HTYPE (type (field_at E a i)) = PB_HTYPE_REPEATED \<and> it = (iter_at E a d i)\<lparr>pSize := sp\<rparr>)"

lemma iter_ok_at: "i < n_fields E a \<Longrightarrow> iter_ok E a d sp (iter_at E a d i)"
  by (auto simp: iter_ok_def)

lemma iter_ok_begin: "iter_ok E a d sp (iter_at E a d 0)"
  by (cases "n_fields E a = 0") (auto simp: iter_ok_def)

lemma iter_ok_start: "iter_ok E a d sp it \<Longrightarrow> start it = a"
  by (auto simp: iter_ok_def)

lemma iter_okE [consumes 1, case_names empty at replaced]:
  assumes "iter_ok E a d sp it"
    and "n_fields E a = 0 \<Longrightarrow> it = iter_at E a d 0 \<Longrightarrow> thesis"
    and "\<And>i. i < n_fields E a \<Longrightarrow> it = iter_at E a d i \<Longrightarrow> thesis"
    and "\<And>i. i < n_fields E a \<Longrightarrow> PB_HTYPE (type (field_at E a i)) = PB_HTYPE_REPEATED \<Longrightarrow>
      it = (iter_at E a d i)\<lparr>pSize := sp\<rparr> \<Longrightarrow> thesis"
  shows thesis
  using assms unfolding iter_ok_def by blast

lemma iter_ok_search:
  assumes "iter_ok E a d sp it"
  shows "\<exists>found it'. iter_search E P (pos it) (Suc (length (ftab E a))) it = Ret (found, it') \<and>
      iter_ok E a d sp it' \<and> (found \<longrightarrow> P (iter_pos E it'))"
proof -
  have canon: "\<exists>found it'. iter_search E P i (Suc (length (ftab E a))) (iter_at E a d i) = Ret (found, it') \<and>
      iter_ok E a d sp it' \<and> (found \<longrightarrow> P (iter_pos E it'))" if i: "i < n_fields E a" for i
    using iter_search_total [OF i, of P d] iter_ok_at iter_pos_iter_at [of _ E a d] i by metis
  show ?thesis
    using assms
  proof (cases rule: iter_okE)
    case empty
    then show ?thesis
      using iter_search_empty [of E a P "length (ftab E a)" d] assms
      by (cases "P (field_at E a 0)") (auto simp: iter_pos_def)
  next
    case (at i)
    with canon show ?thesis by (simp add: pos_iter_at del: iter_search.simps)
  next
    case (replaced i)
    have here: "iter_pos E (iter_at E a d i) = field_at E a i" using replaced(1) by (rule iter_pos_iter_at)
    show ?thesis
    proof (cases "P (field_at E a i)")
      case True
      then show ?thesis using replaced assms here by (auto simp: pos_iter_at)
    next
      case False
      then show ?thesis
        using replaced canon [OF replaced(1)] search_psize [of E "iter_at E a d i" P i "length (ftab E a)" sp]
          tag_at_nonzero [OF replaced(1)]
        by (simp add: here pos_iter_at del: iter_search.simps)
    qed
  qed
qed

lemma count_required_at:
  "i < n_fields E a \<Longrightarrow> n_fields E a - i \<le> k \<Longrightarrow> isRet (count_required E k (iter_at E a d i))"
proof (induction k arbitrary: i)
  case (Suc k)
  then show ?case using Suc.IH [of "Suc i"] by (auto simp: next_iter_at)
qed simp

lemma count_required_ok:
  assumes "iter_ok E a d sp it"
  shows "isRet (count_required E (Suc (length (ftab E a))) it)"
  using assms
proof (cases rule: iter_okE)
    case empty
    then have "tag (iter_pos E it) = 0" using tag_at_end [of E a] by (simp add: iter_pos_def)
    then show ?thesis by (simp add: pb_field_iter_next_def Let_def)
  next
    case (at i)
    then show ?thesis using n_fields_le [of E a] by (simp add: count_required_at del: count_required.simps)
  next
    case (replaced i)
    have "isRet (count_required E (Suc (length (ftab E a))) (iter_at E a d i))"
      using replaced(1) n_fields_le [of E a] by (simp add: count_required_at del: count_required.simps)
    moreover have "pb_field_iter_next E it = pb_field_iter_next E (iter_at E a d i)"
      using replaced tag_at_nonzero [OF replaced(1)] by (simp add: next_psize iter_pos_iter_at)
    ultimately show ?thesis using replaced by (auto split: prod.splits if_splits)
qed

lemma decode_tag_small:
  "pb_decode_tag E s h = Ret (t, s', h') \<Longrightarrow> unat (t_tag t) < 2 ^ 29"
proof -
  have small: "unat (drop_bit 3 x) < 2 ^ 29" for x :: u32
    using unsigned_less [of x, where 'a = nat] by (simp add: unat_drop_bit_eq drop_bit_eq_div unat_div)
  assume "pb_decode_tag E s h = Ret (t, s', h')"
  then show ?thesis
    using small by (auto simp: pb_decode_tag_def split: option.splits if_splits)
qed

context safe_decoding
begin

declare desc_ok.simps [simp del] msg_w.simps [simp del]

section \<open>Values\<close>

lemma tame_decode_init:
  assumes a: "desc_ok E (\<not> lax) (Suc n) a" "msg_w (Suc n) a d"
    and noinit: "\<And>s h. good s \<Longrightarrow> tameB False s h (noinit a d s h)" and s: "good s"
  shows "tameB False s h (decode_init E n noinit a d s h)"
  unfolding decode_init_def
proof (rule tame_bindH [OF tame_defaults [OF a]])
  fix h'
  have t: "tameB False s h' (noinit a d s h')" by (rule noinit [OF s])
  show "tameB False s h' (bindO (noinit a d s h') (\<lambda>(status, s, h).
      if \<not> status then bindO (pb_release E n a d h) (\<lambda>h. Ret (False, s, h)) else Ret (True, s, h)))"
  proof (cases "noinit a d s h'")
    case (Ret y)
    obtain st s2 h2 where y: "y = (st, s2, h2)" by (cases y)
    have r: "R h' h2" "within s s2" "st \<Longrightarrow> advances s s2" using t Ret y by (auto simp: tame_def)
    show ?thesis
    proof (cases st)
      case True
      with t Ret y show ?thesis by simp
    next
      case False
      have rel: "tame_heap h2 (pb_release E n a d h2)" using a(1) by (rule tame_release)
      show ?thesis
        using Ret y False r rel by (cases "pb_release E n a d h2")
          (auto simp: tame_def tame_heap_def intro: R_trans)
    qed
  qed (use t in \<open>auto simp: tame_def\<close>)
qed

lemma tame_submessage:
  assumes noinit: "\<And>a d s h. desc_ok E (\<not> lax) (Suc n) a \<Longrightarrow> msg_w (Suc n) a d \<Longrightarrow> good s \<Longrightarrow>
      tameB False s h (noinit a d s h)"
    and p: "ptr f \<noteq> 0" "desc_ok E (\<not> lax) (Suc n) (ptr f)" "msg_w (Suc n) (ptr f) q" and s: "good s"
  shows "tameB True s h (pb_dec_submessage E n noinit f q s h)"
  unfolding pb_dec_submessage_def
proof (rule tame_substream [OF s])
  fix t and sz :: u64 assume t: "good t" and sz: "unat sz \<le> unat (bytes_left t)"
  let ?sub = "t\<lparr>bytes_left := sz\<rparr>" and ?s = "t\<lparr>bytes_left := bytes_left t - sz\<rparr>"
  have g: "good ?sub" using t sz by (rule good_shorter)
  have n: "tameB False ?sub h (noinit (ptr f) q ?sub h)" using noinit p g by blast
  have i: "tameB False ?sub h (decode_init E n noinit (ptr f) q ?sub h)"
    using p(2,3) noinit [OF p(2,3)] g by (rule tame_decode_init)
  show "tameB False t h (if ptr f = 0 then PB_RETURN_ERROR_i ?s ''invalid field descriptor'' h
       else if PB_HTYPE (type f) = PB_HTYPE_REPEATED
       then with_substream E (decode_init E n noinit (ptr f) q) ?sub ?s h
       else with_substream E (noinit (ptr f) q) ?sub ?s h)"
    using p(1) tame_with_substream [where body = "decode_init E n noinit (ptr f) q", OF t sz i]
      tame_with_substream [where body = "noinit (ptr f) q", OF t sz n] by simp
qed

lemma tame_value:
  assumes noinit: "\<And>a d s h. desc_ok E (\<not> lax) (Suc n) a \<Longrightarrow> msg_w (Suc n) a d \<Longrightarrow> good s \<Longrightarrow>
      tameB False s h (noinit a d s h)"
    and f: "field_ok (\<not> lax) (desc_ok E (\<not> lax) (Suc n)) f"
    and w: "writable q (unat (data_size f))" and sub: "PB_LTYPE (type f) = PB_LTYPE_SUBMESSAGE \<Longrightarrow> msg_w (Suc n) (ptr f) q"
    and s: "good s"
  shows "tameB True s h (PB_DECODERS E n noinit (PB_LTYPE (type f)) f q s h)"
proof -
  let ?lt = "PB_LTYPE (type f)"
  have lt: "?lt \<in> {0, 1, 2, 3, 4, 5, 6, 7, 9}" using f ltype_cases [of "type f"] by (auto simp: field_ok_def)
  have ptr: lax if "PB_ATYPE (type f) = PB_ATYPE_POINTER" using f that by (auto simp: field_ok_def)
  have f32: "tameB True s h (pb_dec_fixed32 E f q s h)" if "?lt = 3"
  proof (cases lax)
    case True
    then show ?thesis using s by (intro tame_fixed32 [where k = 4] writable_lax) auto
  next
    case False
    with f that have "4 \<le> unat (data_size f)" by (simp add: field_ok_def word_le_nat_alt)
    with s w show ?thesis by (intro tame_fixed32)
  qed
  have f64: "tameB True s h (pb_dec_fixed64 E f q s h)" if "?lt = 4"
  proof (cases lax)
    case True
    then show ?thesis using s by (intro tame_fixed64 [where k = 8] writable_lax) auto
  next
    case False
    with f that have "8 \<le> unat (data_size f)" by (simp add: field_ok_def word_le_nat_alt)
    with s w show ?thesis by (intro tame_fixed64)
  qed
  have msg: "tameB True s h (pb_dec_submessage E n noinit f q s h)" if "?lt = 7"
    using f that sub s noinit by (intro tame_submessage) (auto simp: field_ok_def)
  show ?thesis
    using lt f32 f64 msg tame_ints [OF s w] tame_bytes [OF s w ptr] tame_string [OF s w ptr] tame_fixed_length [OF s w]
    by (auto simp: PB_DECODERS_def)
qed

section \<open>Static fields\<close>

lemma tame_packed_static:
  assumes func: "\<And>k s h. k < array_size f \<Longrightarrow> good s \<Longrightarrow> tameB True s h (func (item_addr (pData it) (data_size f) k) s h)"
    and w: "writable (pSize it) 4"
  shows "good sub \<Longrightarrow> unat (bytes_left sub) < fuel \<Longrightarrow> tameB False sub h (packed_static_loop func f it fuel sub h)"
proof (induction fuel arbitrary: sub h)
  case (Suc fuel)
  show ?case
  proof (cases "bytes_left sub > 0 \<and> load32 (mem h) (pSize it) < array_size f")
    case True
    let ?r = "func (item_addr (pData it) (data_size f) (load32 (mem h) (pSize it))) sub h"
    let ?next = "\<lambda>sub h. packed_static_loop func f it fuel sub
        (set_mem h (store32 (mem h) (pSize it) (load32 (mem h) (pSize it) + 1)))"
    have r: "tameB True sub h ?r" using True Suc.prems by (intro func) auto
    have step: "tameB (True \<or> False) sub h (thenO ?r ?next)"
    proof (rule tame_thenO [OF Suc.prems(1) r])
      fix sub' h' assume eq: "?r = Ret (True, sub', h')" and g: "good sub'"
      have "unat (bytes_left sub') < fuel" using r eq Suc.prems(2) by (simp add: tame_def)
      then show "tameB False sub' h' (?next sub' h')"
        by (rule tame_pre [OF writable_stores(3) [OF w order_refl] Suc.IH [OF g]])
    qed
    have eq: "packed_static_loop func f it (Suc fuel) sub h = thenO ?r ?next"
      unfolding packed_static_loop.simps Let_def if_P [OF True] by (rule bindO_not_ok)
    show ?thesis unfolding eq using step by (rule tame_weaken) simp
  next
    case False
    show ?thesis
      unfolding packed_static_loop.simps Let_def if_not_P [OF False] by (rule tame_Ret_same)
  qed
qed simp

lemma tame_static:
  assumes noinit: "\<And>a d s h. desc_ok E (\<not> lax) (Suc n) a \<Longrightarrow> msg_w (Suc n) a d \<Longrightarrow> good s \<Longrightarrow>
      tameB False s h (noinit a d s h)"
    and f: "field_ok (\<not> lax) (desc_ok E (\<not> lax) (Suc n)) (iter_pos E it)"
    and w: "fld_w (msg_w (Suc n)) (iter_pos E it) (pData it) (pSize it)" and s: "good s"
  shows "tameB False s h (decode_static_field E n noinit wt it s h)"
proof -
  let ?f = "iter_pos E it" let ?t = "type ?f"
  let ?func = "PB_DECODERS E n noinit (PB_LTYPE ?t) ?f"
  have known: "\<not> PB_LTYPE ?t > PB_LTYPE_FIXED_LENGTH_BYTES" by (rule field_ok_known [OF f])
  have single: "tameB False s h (?func (pData it) s h)" if R: "PB_HTYPE ?t \<noteq> PB_HTYPE_REPEATED" for h
  proof -
    have "tameB True s h (?func (pData it) s h)"
      using noinit f by (rule tame_value) (use w R s in \<open>auto simp: fld_w_def\<close>)
    then show ?thesis by (rule tame_weaken) simp
  qed
  have item: "tameB True s h (?func (item_addr (pData it) (data_size ?f) k) s h)"
    if "PB_HTYPE ?t = PB_HTYPE_REPEATED" "k < array_size ?f" "good s" for k s h
    using noinit f by (rule tame_value) (use w that in \<open>auto simp: fld_w_def\<close>)
  consider (req) "PB_HTYPE ?t = PB_HTYPE_REQUIRED" | (opt) "PB_HTYPE ?t = PB_HTYPE_OPTIONAL"
    | (packed) "PB_HTYPE ?t = PB_HTYPE_REPEATED" "wt = PB_WT_STRING \<and> PB_LTYPE ?t \<le> PB_LTYPE_LAST_PACKABLE"
    | (one) "PB_HTYPE ?t = PB_HTYPE_REPEATED" "\<not> (wt = PB_WT_STRING \<and> PB_LTYPE ?t \<le> PB_LTYPE_LAST_PACKABLE)"
    | (oneof) "PB_HTYPE ?t = PB_HTYPE_ONEOF"
    using htype_cases [of ?t] by blast
  then show ?thesis
  proof cases
    case req
    with single show ?thesis by (simp add: decode_static_field_def Let_def if_not_P [OF known])
  next
    case opt
    have "R h (set_mem h (store_bool (mem h) (pSize it) True))" if "pSize it \<noteq> pData it"
      using w opt that by (intro writable_stores(5) [where k = 1]) (auto simp: fld_w_def)
    with opt single show ?thesis
      by (auto simp: decode_static_field_def Let_def if_not_P [OF known] intro: tame_pre)
  next
    case packed
    have wS: "writable (pSize it) 4" using w packed by (simp add: fld_w_def)
    have "tameB True s h (withV (pb_make_string_substream E s h) (\<lambda>sub s h.
        bindO (packed_static_loop ?func ?f it (Suc (unat (bytes_left sub))) sub h) (\<lambda>(status, sub, h).
          if bytes_left sub \<noteq> 0 then PB_RETURN_ERROR_i s ''array overflow'' h
          else thenO (pb_close_string_substream E sub s h) (\<lambda>s h. Ret (status, s, h)))))"
    proof (rule tame_substream [OF s])
      fix t and sz :: u64 assume t: "good t" and sz: "unat sz \<le> unat (bytes_left t)"
      let ?sub = "t\<lparr>bytes_left := sz\<rparr>" and ?s = "t\<lparr>bytes_left := bytes_left t - sz\<rparr>"
      let ?loop = "packed_static_loop ?func ?f it (Suc (unat (bytes_left ?sub))) ?sub h"
      have loop: "tameB False ?sub h ?loop"
        using item [OF packed(1)] wS good_shorter [OF t sz] by (rule tame_packed_static) simp_all
      show "tameB False t h (bindO ?loop (\<lambda>(status, sub, h).
          if bytes_left sub \<noteq> 0 then PB_RETURN_ERROR_i ?s ''array overflow'' h
          else thenO (pb_close_string_substream E sub ?s h) (\<lambda>s h. Ret (status, s, h))))"
      proof (cases ?loop)
        case (Ret y)
        obtain st sub' h' where y: "y = (st, sub', h')" by (cases y)
        have "R h h'" using loop Ret y by (simp add: tame_def)
        moreover have "tameB False t h' (thenO (pb_close_string_substream E sub' ?s h') (\<lambda>s h. Ret (st, s, h)))"
          using t sz by (rule tame_close [where e = "i_errmsg t"]) (use loop Ret y in simp_all)
        moreover have "within t ?s" using sz by (intro within_shorter) (simp add: unat_sub word_le_nat_alt)
        ultimately show ?thesis
          using Ret y by (auto simp: PB_RETURN_ERROR_i_def tame_fail intro: tame_pre simp del: packed_static_loop.simps)
      qed (use loop in \<open>auto simp: tame_def simp del: packed_static_loop.simps\<close>)
    qed
    then show ?thesis
      using packed by (simp add: decode_static_field_def Let_def if_not_P [OF known] tame_weaken del: packed_static_loop.simps)
  next
    case one
    let ?n = "load32 (mem h) (pSize it)"
    let ?h = "set_mem h (store32 (mem h) (pSize it) (?n + 1))"
    have inc: "R h ?h"
      using w one by (intro writable_stores(3) [where k = 4]) (auto simp: fld_w_def)
    have "tameB False s ?h (?func (item_addr (pData it) (data_size ?f) ?n) s ?h)" if "?n < array_size ?f"
      using item [OF one(1) that s] by (rule tame_weaken) simp
    then have "tameB False s ?h (if ?n \<ge> array_size ?f then PB_RETURN_ERROR_i s ''array overflow'' ?h
        else ?func (item_addr (pData it) (data_size ?f) ?n) s ?h)" by (auto simp: not_le)
    from tame_pre [OF inc this] show ?thesis
      unfolding decode_static_field_def Let_def if_not_P [OF known] by (simp only: one if_False) simp
  next
    case oneof
    have R: "PB_HTYPE ?t \<noteq> PB_HTYPE_REPEATED" using oneof by simp
    have tg: "R h (set_mem h (store32 (mem h) (pSize it) (tag ?f)))"
      using w oneof by (intro writable_stores(3) [where k = 4]) (auto simp: fld_w_def)
    have clear: "R h (memset0 h (pData it) (unat (data_size ?f)))" for h
      using w R by (intro writable_stores(6)) (auto simp: fld_w_def)
    have "tame_heap h (if PB_LTYPE ?t = PB_LTYPE_SUBMESSAGE then
             (if ptr ?f = 0 then UB
              else pb_message_set_to_defaults E n (ptr ?f) (pData it) (memset0 h (pData it) (unat (data_size ?f))))
           else Ret h)" for h
      using f w R tame_heap_pre [OF clear tame_defaults]
      by (auto simp: field_ok_def fld_w_def intro: tame_heap_Ret R_refl)
    from tame_pre [OF tg tame_bindH [OF this single [OF R]]] show ?thesis
      using oneof by (simp add: decode_static_field_def Let_def if_not_P [OF known])
  qed
qed

end

end
