(* ===== verification/Decode_Total.thy ===== *)
theory Decode_Total
  imports Decode_Message
begin

text \<open>
  Pointer fields and whole messages: \<open>pb_decode\<close> is tame for well-formed descriptors.
\<close>

context safe_decoding
begin

section \<open>Pointer fields\<close>

lemma tame_initialize:
  assumes lax and f: "field_ok (\<not> lax) (desc_ok E (\<not> lax) (Suc n)) (iter_pos E it)"
  shows "tame_heap h (initialize_pointer_field E n q it h)"
proof -
  let ?f = "iter_pos E it"
  have "tame_heap h (pb_message_set_to_defaults E n (ptr ?f) q (memset0 h q (unat (data_size ?f))))"
    if "PB_LTYPE (type ?f) = PB_LTYPE_SUBMESSAGE"
    using f that tame_heap_pre [OF lax_R [OF \<open>lax\<close>] tame_defaults [OF _ msg_w_lax [OF \<open>lax\<close>]]]
    by (simp add: field_ok_def)
  then show ?thesis
    using f by (auto simp: initialize_pointer_field_def Let_def field_ok_def lax_R [OF \<open>lax\<close>]
        intro!: tame_heap_Ret)
qed

text \<open>The loop over a packed array never touches the outer stream but for its message.\<close>

definition tame_pair :: "pb_istream_t \<Rightarrow> pb_istream_t \<Rightarrow> (bool \<times> (pb_istream_t \<times> pb_istream_t) \<times> heap) outcome \<Rightarrow> bool" where
  "tame_pair s sub r \<longleftrightarrow> (case r of
     Ret (st, (s', sub'), h') \<Rightarrow> (\<exists>e. s' = s\<lparr>i_errmsg := e\<rparr>) \<and> within sub sub' \<and> (st \<longrightarrow> advances sub sub')
   | UB \<Rightarrow> True
   | NoFuel \<Rightarrow> False)"

lemma tame_pair_same: "\<exists>e. s' = s\<lparr>i_errmsg := e\<rparr> \<Longrightarrow> tame_pair s sub (Ret (st, (s', sub), h'))"
  by (auto simp: tame_pair_def)

lemma errmsg_self: "\<exists>e. s = s\<lparr>i_errmsg := e\<rparr>" for s :: pb_istream_t
  by (rule exI [of _ "i_errmsg s"]) simp

lemma tame_pair_bind:
  assumes g: "good sub" and r: "tameB p sub h r"
    and k: "\<And>sub' h'. r = Ret (True, sub', h') \<Longrightarrow> good sub' \<Longrightarrow> tame_pair s sub' (k sub' h')"
  shows "tame_pair s sub (bindO r (\<lambda>(ok, sub, h). if \<not> ok then Ret (False, (s, sub), h) else k sub h))"
proof (cases r)
  case (Ret y)
  obtain st sub' h' where y: "y = (st, sub', h')" by (cases y)
  have w: "within sub sub'" "st \<Longrightarrow> advances sub sub'" using r Ret y by (auto simp: tame_def)
  show ?thesis
  proof (cases st)
    case True
    have g': "good sub'" using g w(1) by (rule within_good)
    have "tame_pair s sub' (k sub' h')" using k Ret y True g' by blast
    then have "tame_pair s sub (k sub' h')"
      using within_trans [OF g w(1)] advances_trans [OF g w(2) [OF True]]
      by (auto simp: tame_pair_def split: outcome.splits)
    with Ret y True show ?thesis by simp
  next
    case False
    with Ret y w show ?thesis using errmsg_self [of s] by (simp add: tame_pair_def)
  qed
next
  case NoFuel
  with r show ?thesis by (simp add: tame_def)
qed (simp add: tame_pair_def)

lemma tame_pair_heap:
  assumes "tame_heap h r" "\<And>h'. tame_pair s sub (k h')"
  shows "tame_pair s sub (bindO r k)"
  using assms by (cases r) (auto simp: tame_heap_def tame_pair_def)

lemma tame_packed_pointer:
  assumes lax
    and func: "\<And>q s h. good s \<Longrightarrow> tameB True s h (func q s h)"
    and f: "field_ok (\<not> lax) (desc_ok E (\<not> lax) (Suc n)) (iter_pos E it)"
  shows "good sub \<Longrightarrow> unat (bytes_left sub) < fuel \<Longrightarrow> tame_pair s sub (packed_pointer_loop E n func fd it fuel al s sub h)"
proof (induction fuel arbitrary: sub h al)
  case (Suc fuel)
  let ?sz = "\<lambda>h. load32 (mem h) (pSize it)"
  let ?body = "\<lambda>al sub h. let pItem = item_addr (load64 (mem h) (pData it)) (data_size fd) (?sz h) in
      bindO (initialize_pointer_field E n pItem it h) (\<lambda>h.
      bindO (func pItem sub h) (\<lambda>(ok, sub, h).
        if \<not> ok then Ret (False, (s, sub), h)
        else let size = ?sz h in
          if size = PB_SIZE_MAX then Ret (False, (s\<lparr>i_errmsg := Some ''too many array entries''\<rparr>, sub), h)
          else packed_pointer_loop E n func fd it fuel al s sub (set_mem h (store32 (mem h) (pSize it) (size + 1)))))"
  have body: "tame_pair s sub' (?body al sub' h)" if g: "good sub'" and le: "unat (bytes_left sub') \<le> unat (bytes_left sub)" for al sub' h
    unfolding Let_def
  proof (rule tame_pair_heap [OF tame_initialize [OF \<open>lax\<close> f]], rule tame_pair_bind [OF g func [OF g]])
    fix h0 sub2 h2 q
    assume r: "func q sub' h0 = Ret (True, sub2, h2)" and g2: "good sub2"
    have "unat (bytes_left sub2) < unat (bytes_left sub')" using func [OF g, of h0 q] r by (simp add: tame_def)
    then have "unat (bytes_left sub2) < fuel" using le Suc.prems(2) by simp
    from Suc.IH [OF g2 this]
    show "tame_pair s sub2 (if ?sz h2 = PB_SIZE_MAX then Ret (False, (s\<lparr>i_errmsg := Some ''too many array entries''\<rparr>, sub2), h2)
        else packed_pointer_loop E n func fd it fuel al s sub2 (set_mem h2 (store32 (mem h2) (pSize it) (?sz h2 + 1))))"
      by (auto intro: tame_pair_same)
  qed
  show ?case
  proof (cases "bytes_left sub = 0")
    case True
    then show ?thesis using tame_pair_same [OF errmsg_self] by simp
  next
    case False
    let ?grow = "ucast (?sz h) + 1 > al"
    let ?al = "if ?grow then al + ((bytes_left sub - 1) div ucast (data_size fd) + 1) else al"
    let ?r = "if ?grow then allocate_field E (pData it) (ucast (data_size fd)) ?al sub h else Ret (True, sub, h)"
    have r: "tameB False sub h ?r"
      using tame_allocate [OF \<open>lax\<close> Suc.prems(1)] by auto
    have "tame_pair s sub (bindO ?r (\<lambda>(ok, sub, h). if \<not> ok then Ret (False, (s, sub), h) else ?body ?al sub h))"
      by (rule tame_pair_bind [OF Suc.prems(1) r], rule body)
        (use r Suc.prems(1) within_left in \<open>auto simp: tame_def split: outcome.splits\<close>)
    then show ?thesis
      using False by (simp add: Let_def tame_pair_def del: initialize_pointer_field_def)
  qed
qed simp

lemma tame_pointer:
  assumes l: lax
    and noinit: "\<And>a d s h. desc_ok E (\<not> lax) (Suc n) a \<Longrightarrow> msg_w (Suc n) a d \<Longrightarrow> good s \<Longrightarrow>
      tameB False s h (noinit a d s h)"
    and f: "field_ok (\<not> lax) (desc_ok E (\<not> lax) (Suc n)) (iter_pos E it)" and s: "good s"
  shows "tameB False s h (decode_pointer_field E n noinit wt it s h)"
proof -
  let ?f = "iter_pos E it" let ?t = "type ?f"
  let ?func = "PB_DECODERS E n noinit (PB_LTYPE ?t) ?f"
  have known: "\<not> PB_LTYPE ?t > PB_LTYPE_FIXED_LENGTH_BYTES" by (rule field_ok_known [OF f])
  have func: "tameB True s h (?func q s h)" if "good s" for q s h
    using noinit f by (rule tame_value) (use that l in \<open>auto simp: writable_lax msg_w_lax\<close>)
  have func': "tameB False s h (?func q s h)" if "good s" for q s h
    using func [OF that] by (rule tame_weaken) simp
  have init: "tameB False s h (bindO (initialize_pointer_field E n q it h) (\<lambda>h. ?func (g h) s h))" if "good s" for q g s h
    by (rule tame_bindH [OF tame_initialize [OF l f]]) (rule func' [OF that])
  consider (single) "PB_HTYPE ?t = PB_HTYPE_REQUIRED \<or> PB_HTYPE ?t = PB_HTYPE_OPTIONAL \<or> PB_HTYPE ?t = PB_HTYPE_ONEOF"
    | (packed) "\<not> (PB_HTYPE ?t = PB_HTYPE_REQUIRED \<or> PB_HTYPE ?t = PB_HTYPE_OPTIONAL \<or> PB_HTYPE ?t = PB_HTYPE_ONEOF)"
        "wt = PB_WT_STRING \<and> PB_LTYPE ?t \<le> PB_LTYPE_LAST_PACKABLE"
    | (one) "\<not> (PB_HTYPE ?t = PB_HTYPE_REQUIRED \<or> PB_HTYPE ?t = PB_HTYPE_OPTIONAL \<or> PB_HTYPE ?t = PB_HTYPE_ONEOF)"
        "\<not> (wt = PB_WT_STRING \<and> PB_LTYPE ?t \<le> PB_LTYPE_LAST_PACKABLE)"
    by blast
  then show ?thesis
  proof cases
    case single
    have rel: "tame_heap h (if c then pb_release_single_field E (Suc n) it h else Ret h)" for c
      using tame_release_field [OF _ f] by (auto intro: tame_heap_Ret R_refl)
    have alloc: "tameB (False \<or> False) s h (thenO (allocate_field E (pData it) (ucast (data_size ?f)) 1 s h) (\<lambda>s h.
        bindO (initialize_pointer_field E n (load64 (mem h) (pData it)) it h) (\<lambda>h. ?func (load64 (mem h) (pData it)) s h)))" for h
      using s tame_allocate [OF l s] by (rule tame_thenO) (rule init)
    have "tameB False s h (if c then ?func (pData it) s (g h)
        else thenO (allocate_field E (pData it) (ucast (data_size ?f)) 1 s (g h)) (\<lambda>s h.
          bindO (initialize_pointer_field E n (load64 (mem h) (pData it)) it h) (\<lambda>h. ?func (load64 (mem h) (pData it)) s h)))" for c g h
      using tame_pre [OF lax_R [OF l] func' [OF s]] tame_pre [OF lax_R [OF l] alloc] by simp
    from tame_bindH [OF rel this] single show ?thesis
      unfolding decode_pointer_field_def Let_def if_not_P [OF known] by (simp only: if_True)
  next
    case packed
    have "tameB True s h (withV (pb_make_string_substream E s h) (\<lambda>sub s h.
        bindO (packed_pointer_loop E n ?func ?f it (Suc (unat (bytes_left sub))) al s sub h) (\<lambda>(status, (s, sub), h).
          thenO (pb_close_string_substream E sub s h) (\<lambda>s h. Ret (status, s, h)))))" for al
    proof (rule tame_substream [OF s])
      fix t and sz :: u64 assume t: "good t" and sz: "unat sz \<le> unat (bytes_left t)"
      let ?sub = "t\<lparr>bytes_left := sz\<rparr>" and ?s = "t\<lparr>bytes_left := bytes_left t - sz\<rparr>"
      let ?loop = "packed_pointer_loop E n ?func ?f it (Suc (unat (bytes_left ?sub))) al ?s ?sub h"
      have loop: "tame_pair ?s ?sub ?loop"
        using l func f good_shorter [OF t sz] by (rule tame_packed_pointer) simp_all
      show "tameB False t h (bindO ?loop (\<lambda>(status, (s, sub), h).
          thenO (pb_close_string_substream E sub s h) (\<lambda>s h. Ret (status, s, h))))"
      proof (cases ?loop)
        case (Ret y)
        obtain st s' sub' h' where y: "y = (st, (s', sub'), h')" by (cases y) auto
        obtain e where e: "s' = ?s\<lparr>i_errmsg := e\<rparr>" and w: "within ?sub sub'" "st \<longrightarrow> advances ?sub sub'"
          using loop unfolding Ret y by (auto simp: tame_pair_def)
        have "tameB False ?sub h' (Ret (st, sub', h'))" using w by (simp add: tame_def R_refl)
        from tame_close [OF t sz this e] have "tameB False t h' (thenO (pb_close_string_substream E sub' s' h') (\<lambda>s h. Ret (st, s, h)))" .
        from tame_pre [OF lax_R [OF l] this] show ?thesis unfolding Ret y by simp
      qed (use loop l in \<open>auto simp: tame_pair_def tame_UB simp del: packed_pointer_loop.simps\<close>)
    qed
    from tame_weaken [OF this, of False] packed show ?thesis
      unfolding decode_pointer_field_def Let_def if_not_P [OF known] by (simp only: if_True if_False simp_thms)
  next
    case one
    let ?item = "\<lambda>h. item_addr (load64 (mem h) (pData it)) (data_size ?f) (load32 (mem h) (pSize it) - 1)"
    have "tameB (False \<or> False) s h (thenO (allocate_field E (pData it) d c s h) (\<lambda>s h.
        bindO (initialize_pointer_field E n (?item h) it h) (\<lambda>h'. ?func (?item h) s h')))" for d c h
      using s tame_allocate [OF l s] by (rule tame_thenO) (rule init)
    from tame_pre [OF lax_R [OF l] this] one show ?thesis
      unfolding decode_pointer_field_def Let_def if_not_P [OF known] by (simp only: if_False simp_thms) (auto intro: tame_error)
  qed
qed

section \<open>Any field\<close>

definition tame_it :: "addr \<Rightarrow> addr \<Rightarrow> addr \<Rightarrow> pb_istream_t \<Rightarrow> heap \<Rightarrow>
    (bool \<times> (pb_istream_t \<times> pb_field_iter_t) \<times> heap) outcome \<Rightarrow> bool" where
  "tame_it a d sp s h r \<longleftrightarrow> (case r of
     Ret (ok, (s', it'), h') \<Rightarrow> R h h' \<and> within s s' \<and> (ok \<longrightarrow> advances s s' \<and> iter_ok E a d sp it')
   | UB \<Rightarrow> lax
   | NoFuel \<Rightarrow> False)"

lemma writable_0: "writable p 0"
  by (auto simp: writable_def set_mem_def R_refl)

lemma iter_ok_field:
  assumes a: "desc_ok E (\<not> lax) (Suc n) a" "msg_w (Suc n) a d" and sp: "writable sp 4" and it: "iter_ok E a d sp it"
  shows "field_ok (\<not> lax) (desc_ok E (\<not> lax) n) (iter_pos E it)"
    and "fld_w (msg_w n) (iter_pos E it) (pData it) (pSize it)"
proof -
  show "field_ok (\<not> lax) (desc_ok E (\<not> lax) n) (iter_pos E it)"
    using it
  proof (cases rule: iter_okE)
    case empty
    then have "iter_pos E it = PB_LAST_FIELD" using a(1) by (simp add: iter_pos_def desc_ok.simps)
    then show ?thesis by (simp add: field_ok_last)
  qed (use desc_ok_field [OF a(1)] in \<open>simp_all add: iter_pos_iter_at\<close>)
  show "fld_w (msg_w n) (iter_pos E it) (pData it) (pSize it)"
    using it
  proof (cases rule: iter_okE)
    case empty
    then have "iter_pos E it = PB_LAST_FIELD" using a(1) by (simp add: iter_pos_def desc_ok.simps)
    then show ?thesis by (simp add: fld_w_def PB_LAST_FIELD_def PB_HTYPE_def PB_LTYPE_def writable_0)
  next
    case (at i)
    then show ?thesis using a(2) by (simp add: iter_pos_iter_at msg_w.simps)
  next
    case (replaced i)
    have "fld_w (msg_w n) (field_at E a i) (pData (iter_at E a d i)) (pSize (iter_at E a d i))"
      using a(2) replaced(1) by (simp add: msg_w.simps)
    then show ?thesis using replaced sp by (simp add: iter_pos_iter_at fld_w_def)
  qed
qed

lemma tame_it_error: "tame_it a d sp s h (Ret (False, (PB_SET_ERROR_i s msg, it), h))"
  by (auto simp: tame_it_def R_refl)

lemma find_ok:
  assumes "iter_ok E a d sp it"
  obtains found it' where "pb_field_iter_find E it tg = Ret (found, it')" "iter_ok E a d sp it'"
    "found \<longrightarrow> tag (iter_pos E it') = tg"
  using iter_ok_search [OF assms, of "\<lambda>f. tag f = tg \<and> PB_LTYPE (type f) \<noteq> PB_LTYPE_EXTENSION"]
  by (auto simp: pb_field_iter_find_def iter_ok_start [OF assms] simp del: iter_search.simps)

lemma tame_union:
  assumes a: "desc_ok E (\<not> lax) (Suc (Suc n)) a" "msg_w (Suc (Suc n)) a d" and sp: "writable sp 4"
    and it: "iter_ok E a d sp it" and s: "good s"
  shows "tame_it a d sp s h (pb_release_union_field E (Suc n) (s, it) h)"
proof -
  let ?old = "load32 (mem h) (pSize it)" and ?new = "tag (iter_pos E it)"
  obtain f1 it1 where f1: "pb_field_iter_find E it ?old = Ret (f1, it1)" "iter_ok E a d sp it1"
    by (rule find_ok [OF it])
  obtain f2 it2 where f2: "pb_field_iter_find E it1 ?new = Ret (f2, it2)" "iter_ok E a d sp it2"
    by (rule find_ok [OF f1(2)])
  have rel: "tame_heap h (pb_release_single_field E (Suc n) it1 h)"
    using iter_ok_field(1) [OF a sp f1(2)] by (intro tame_release_field) auto
  show ?thesis
  proof (cases "?old = 0 \<or> ?old = ?new")
    case True
    then show ?thesis using it by (auto simp: pb_release_union_field_def Let_def tame_it_def R_refl)
  next
    case False
    then show ?thesis
      using f1 f2 rel
      by (cases "pb_release_single_field E (Suc n) it1 h")
        (auto simp: pb_release_union_field_def Let_def tame_it_error tame_it_def tame_heap_def R_refl
          simp del: pb_release_single_field.simps)
  qed
qed

lemma tame_decode_field:
  assumes noinit: "\<And>a d s h. desc_ok E (\<not> lax) (Suc n) a \<Longrightarrow> msg_w (Suc n) a d \<Longrightarrow> good s \<Longrightarrow>
      tameB False s h (noinit a d s h)"
    and a: "desc_ok E (\<not> lax) (Suc (Suc n)) a" "msg_w (Suc (Suc n)) a d" and sp: "writable sp 4"
    and it: "iter_ok E a d sp it" and s: "good s"
  shows "tame_it a d sp s h (decode_field E n noinit wt (s, it) h)"
proof -
  let ?pre = "if PB_HTYPE (type (iter_pos E it)) = PB_HTYPE_ONEOF
      then pb_release_union_field E (Suc n) (s, it) h else Ret (True, (s, it), h)"
  have pre: "tame_it a d sp s h ?pre"
    using tame_union [OF a sp it s] it by (auto simp: tame_it_def R_refl)
  have main: "tameB False s h (if PB_ATYPE (type (iter_pos E it)) = PB_ATYPE_STATIC then decode_static_field E n noinit wt it s h
      else if PB_ATYPE (type (iter_pos E it)) = PB_ATYPE_POINTER then decode_pointer_field E n noinit wt it s h
      else if PB_ATYPE (type (iter_pos E it)) = PB_ATYPE_CALLBACK then decode_callback_field E wt it s h
      else PB_RETURN_ERROR_i s ''invalid field type'' h)" if it: "iter_ok E a d sp it" and s: "good s" for it s h
  proof -
    note f = iter_ok_field [OF a sp it]
    have "tameB False s h (decode_static_field E n noinit wt it s h)" using noinit f s by (rule tame_static)
    moreover have "tameB False s h (decode_pointer_field E n noinit wt it s h)"
      if "PB_ATYPE (type (iter_pos E it)) = PB_ATYPE_POINTER"
      using noinit f(1) s that by (intro tame_pointer) (auto simp: field_ok_def)
    ultimately show ?thesis using f(1) by (auto simp: field_ok_def)
  qed
  show ?thesis
  proof (cases ?pre)
    case (Ret y)
    obtain ok s' it' h' where y: "y = (ok, (s', it'), h')" by (cases y) auto
    have p: "R h h'" "within s s'" "ok \<Longrightarrow> advances s s' \<and> iter_ok E a d sp it'"
      using pre unfolding Ret y by (auto simp: tame_it_def)
    show ?thesis
    proof (cases ok)
      case False
      then show ?thesis using p unfolding decode_field_def snd_conv Ret y by (simp add: tame_it_def)
    next
      case True
      with p have i': "iter_ok E a d sp it'" "advances s s'" by auto
      have g': "good s'" using s i'(2) by (rule advances_good)
      from main [OF i'(1) g', of h'] True p R_trans [OF p(1)] within_trans [OF s p(2)] advances_trans [OF s i'(2)] i'(1)
      show ?thesis
        unfolding decode_field_def snd_conv Ret y
        by (auto simp: tame_it_def tame_def Let_def split: outcome.splits if_splits)
    qed
  qed (use pre in \<open>auto simp: decode_field_def tame_it_def\<close>)
qed

section \<open>Messages\<close>

text \<open>The contract of the loop: tame, and the iterator in the state stays a valid one.\<close>

definition tame_st :: "addr \<Rightarrow> addr \<Rightarrow> addr \<Rightarrow> pb_istream_t \<Rightarrow> heap \<Rightarrow> dec_state ival \<Rightarrow> bool" where
  "tame_st a d sp s h r \<longleftrightarrow> tameV False s h r \<and> (\<forall>st s' h'. r = Ret (Some st, s', h') \<longrightarrow> iter_ok E a d sp (d_iter st))"

lemma tame_st_bindV:
  assumes s: "good s" and r: "tame_st a d sp s h r"
    and k: "\<And>st s' h'. good s' \<Longrightarrow> advances s s' \<Longrightarrow> iter_ok E a d sp (d_iter st) \<Longrightarrow> tame_st a d sp s' h' (k st s' h')"
  shows "tame_st a d sp s h (bindV r k)"
proof -
  have k': "tame_st a d sp s' h' (k st s' h')" if "r = Ret (Some st, s', h')" for st s' h'
  proof -
    have "iter_ok E a d sp (d_iter st)" "advances s s'" using r that by (auto simp: tame_st_def tame_def)
    with k s show ?thesis by (auto intro: advances_good)
  qed
  have "tameV (False \<or> False) s h (bindV r k)"
    using s by (rule tame_bindV [where p = False]) (use r k' in \<open>auto simp: tame_st_def\<close>)
  moreover have "\<forall>st s' h'. bindV r k = Ret (Some st, s', h') \<longrightarrow> iter_ok E a d sp (d_iter st)"
    using k' by (auto simp: bindV_def tame_st_def split: option.splits)
  ultimately show ?thesis by (simp add: tame_st_def)
qed

lemma tame_st_Ret: "iter_ok E a d sp (d_iter st) \<Longrightarrow> tame_st a d sp s h (Ret (Some st, s, h))"
  by (auto simp: tame_st_def)

lemma tame_unknown:
  assumes a: "desc_ok E (\<not> lax) (Suc (Suc n)) a" and it: "iter_ok E a d sp (d_iter st)" and s: "good s"
    and tg: "unat tg < 2 ^ 29"
  shows "tame_st a d sp s h (unknown_field E n noinit tg wt st s h)"
proof -
  have skip: "tame_st a d sp s h (bindO (pb_skip_field E wt s h) (\<lambda>(ok, s, h). Ret (if ok then Some st' else None, s, h)))"
    if "iter_ok E a d sp (d_iter st')" for st'
  proof -
    obtain ok s' where "pb_skip_field E wt s h = Ret (ok, s', h)" "advances s s'"
      using skip_field_total [OF s] by blast
    with that advances_within [OF s] show ?thesis by (auto simp: tame_st_def tame_def R_refl)
  qed
  have noext: "PB_LTYPE (type (iter_pos E it')) \<noteq> PB_LTYPE_EXTENSION" if "iter_ok E a d sp it'" for it'
    using that
  proof (cases rule: iter_okE)
    case empty
    then have "iter_pos E it' = PB_LAST_FIELD" using a by (simp add: iter_pos_def desc_ok.simps)
    then show ?thesis by (simp add: PB_LAST_FIELD_def PB_LTYPE_def)
  qed (use desc_ok_field [OF a] in \<open>simp_all add: iter_pos_iter_at field_ok_def\<close>)
  obtain found it' where f: "find_extension_field E (d_iter st) = Ret (found, it')" "iter_ok E a d sp it'" "\<not> found"
    using iter_ok_search [OF it, of "\<lambda>f. PB_LTYPE (type f) = PB_LTYPE_EXTENSION"] noext
    by (auto simp: find_extension_field_def iter_ok_start [OF it] simp del: iter_search.simps)
  have "unat (-1 :: u32) = 2 ^ 32 - 1" by (simp add: unsigned_minus_1_eq_mask mask_eq_exp_minus_1)
  then have "\<not> tg \<ge> (-1 :: u32)" using tg by (simp add: word_le_nat_alt)
  with f skip [of "st\<lparr>d_iter := it', extension_range_start := -1\<rparr>"] skip [OF it] show ?thesis
    by (simp add: unknown_field_def Let_def)
qed

lemma tame_track:
  assumes it: "iter_ok E a d sp (d_iter st)" and sp: "writable sp 4" and last: "n_fields E a = 0 \<Longrightarrow> field_at E a 0 = PB_LAST_FIELD"
  shows "tame_st a d sp s h (track_fixed_count E sp a st s h)"
proof -
  let ?it = "d_iter st"
  have rep: "iter_ok E a d sp (?it\<lparr>pSize := sp\<rparr>)" if "PB_HTYPE (type (iter_pos E ?it)) = PB_HTYPE_REPEATED"
    using it
  proof (cases rule: iter_okE)
    case empty
    then show ?thesis using that last by (simp add: iter_pos_def PB_LAST_FIELD_def PB_HTYPE_def)
  next
    case (at i)
    then show ?thesis using that by (auto simp: iter_ok_def iter_pos_iter_at)
  next
    case (replaced i)
    then show ?thesis by (auto simp: iter_ok_def)
  qed
  have clr: "R h (set_mem h (store32 (mem h) sp 0))" using sp by (rule writable_stores(3)) simp
  have err: "tame_st a d sp s h (PB_RETURN_ERROR_v s msg h)" for msg
    using tame_error_v [of False s h msg] by (simp add: tame_st_def PB_RETURN_ERROR_v_def)
  have new: "tame_st a d sp s h (Ret (Some x, s, set_mem h (store32 (mem h) sp 0)))"
    if "iter_ok E a d sp (d_iter x)" for x :: dec_state
    using clr that by (auto simp: tame_st_def tame_def)
  show ?thesis
    using it rep by (simp add: track_fixed_count_def Let_def err new tame_st_Ret split: option.split)
qed

lemma note_required_iter [simp]: "d_iter (note_required E st) = d_iter st"
  by (simp add: note_required_def Let_def)

lemma tame_known:
  assumes noinit: "\<And>a d s h. desc_ok E (\<not> lax) (Suc n) a \<Longrightarrow> msg_w (Suc n) a d \<Longrightarrow> good s \<Longrightarrow>
      tameB False s h (noinit a d s h)"
    and a: "desc_ok E (\<not> lax) (Suc (Suc n)) a" "msg_w (Suc (Suc n)) a d" and sp: "writable sp 4"
    and it: "iter_ok E a d sp (d_iter st)" and s: "good s"
  shows "tame_st a d sp s h (known_field E n sp noinit a wt st s h)"
  unfolding known_field_def Let_def
proof (rule tame_st_bindV [OF s tame_track [OF it sp]])
  show "n_fields E a = 0 \<Longrightarrow> field_at E a 0 = PB_LAST_FIELD" using a(1) by (simp add: desc_ok.simps)
  fix st :: dec_state and s' h' assume s': "good s'" and it': "iter_ok E a d sp (d_iter st)"
  have "tame_it a d sp s' h' (decode_field E n noinit wt (s', d_iter (note_required E st)) h')"
    using noinit a sp by (rule tame_decode_field) (simp_all add: it' s')
  then show "tame_st a d sp s' h' (bindO (decode_field E n noinit wt (s', d_iter (note_required E st)) h')
      (\<lambda>(ok, (s, it), h). Ret (if ok then Some ((note_required E st)\<lparr>d_iter := it\<rparr>) else None, s, h)))"
    by (cases "decode_field E n noinit wt (s', d_iter (note_required E st)) h'")
      (auto simp: tame_it_def tame_st_def tame_def split: if_splits)
qed

lemma tame_loop:
  assumes noinit: "\<And>a d s h. desc_ok E (\<not> lax) (Suc n) a \<Longrightarrow> msg_w (Suc n) a d \<Longrightarrow> good s \<Longrightarrow>
      tameB False s h (noinit a d s h)"
    and a: "desc_ok E (\<not> lax) (Suc (Suc n)) a" "msg_w (Suc (Suc n)) a d" and sp: "writable sp 4"
  shows "iter_ok E a d sp (d_iter st) \<Longrightarrow> good s \<Longrightarrow> unat (bytes_left s) < k \<Longrightarrow>
    tame_st a d sp s h (noinit_loop E n sp noinit a k st s h)"
proof (induction k arbitrary: st s h)
  case (Suc k)
  show ?case
  proof (cases "bytes_left s = 0")
    case True
    then show ?thesis using Suc.prems(1) by (simp add: tame_st_Ret)
  next
    case False
    obtain t s' where t: "pb_decode_tag E s h = Ret (t, s', h)" "advances s s'"
        "t_ok t \<longrightarrow> unat (bytes_left s') < unat (bytes_left s)"
      using decode_tag_total [OF Suc.prems(2)] by metis
    have s': "good s'" using Suc.prems(2) t(2) by (rule advances_good)
    show ?thesis
    proof (cases "t_ok t")
      case notok: False
      then show ?thesis
        using False t(1,2) Suc.prems advances_within [OF Suc.prems(2) t(2)]
        by (auto simp: tame_st_def tame_def R_refl)
    next
      case True
      obtain found it' where f: "pb_field_iter_find E (d_iter st) (t_tag t) = Ret (found, it')" "iter_ok E a d sp it'"
        by (rule find_ok [OF Suc.prems(1)])
      let ?st = "st\<lparr>d_iter := it'\<rparr>"
      let ?step = "if \<not> found then unknown_field E n noinit (t_tag t) (t_wire_type t) ?st s' h
          else known_field E n sp noinit a (t_wire_type t) ?st s' h"
      have "tame_st a d sp s' h (known_field E n sp noinit a (t_wire_type t) ?st s' h)"
        using noinit a sp by (rule tame_known) (simp_all add: f(2) s')
      moreover have "tame_st a d sp s' h (unknown_field E n noinit (t_tag t) (t_wire_type t) ?st s' h)"
        using a(1) _ s' decode_tag_small [OF t(1)] by (rule tame_unknown) (simp add: f(2))
      ultimately have step: "tame_st a d sp s' h ?step" by simp
      have more: "tame_st a d sp s' h (bindV ?step (noinit_loop E n sp noinit a k))"
      proof (rule tame_st_bindV [OF s' step])
        fix st2 :: dec_state and s2 h2 assume g: "good s2" "advances s' s2" "iter_ok E a d sp (d_iter st2)"
        have "unat (bytes_left s2) < k" using advances_left [OF s' g(2)] t(3) True Suc.prems(3) by simp
        then show "tame_st a d sp s2 h2 (noinit_loop E n sp noinit a k st2 s2 h2)" using g by (intro Suc.IH)
      qed
      have "tameV (False \<or> False) s h (bindV ?step (noinit_loop E n sp noinit a k))"
        using Suc.prems(2) by (rule tame_chain [where ok = "\<lambda>b. b" and v = True and s' = s' and h' = h])
          (use more t(2) advances_within [OF Suc.prems(2) t(2)] in \<open>auto simp: tame_st_def tame_def R_refl\<close>)
      with more have "tame_st a d sp s h (bindV ?step (noinit_loop E n sp noinit a k))" by (simp add: tame_st_def)
      with False True t(1) f(1) show ?thesis by (simp add: Let_def)
    qed
  qed
qed simp

lemma tame_finish: "iter_ok E a d sp (d_iter st) \<Longrightarrow> tameB False s h (noinit_finish E sp a st s h)"
  using count_required_ok [of E a d sp "d_iter st"]
  by (auto simp: noinit_finish_def isRet_iff Let_def simp del: count_required.simps split: option.split)

text \<open>Each activation has its own counter on the stack.\<close>

definition stack_w :: "nat \<Rightarrow> addr \<Rightarrow> bool" where
  "stack_w n sp \<longleftrightarrow> (\<forall>j < n. writable (sp + of_nat (4 * j)) 4)"

lemma stack_w_Suc: "stack_w (Suc n) sp \<Longrightarrow> writable sp 4 \<and> stack_w n (sp + 4)"
proof -
  assume w: "stack_w (Suc n) sp"
  have "writable sp 4" using w [unfolded stack_w_def, rule_format, of 0] by simp
  moreover have "writable (sp + 4 + of_nat (4 * j)) 4" if "j < n" for j
    using w [unfolded stack_w_def, rule_format, of "Suc j"] that by (simp add: algebra_simps)
  ultimately show ?thesis by (simp add: stack_w_def)
qed

lemma tame_noinit:
  "desc_ok E (\<not> lax) (Suc n) a \<Longrightarrow> msg_w (Suc n) a d \<Longrightarrow> stack_w n sp \<Longrightarrow> good s \<Longrightarrow>
     tameB False s h (pb_decode_noinit E n sp a d s h)"
proof (induction n arbitrary: sp a d s h)
  case 0
  then show ?case by (simp add: desc_ok.simps)
next
  case (Suc n)
  have sp: "writable sp 4" "stack_w n (sp + 4)" using stack_w_Suc [OF Suc.prems(3)] by auto
  have noinit: "tameB False s h (pb_decode_noinit E n (sp + 4) a d s h)"
    if "desc_ok E (\<not> lax) (Suc n) a" "msg_w (Suc n) a d" "good s" for a d s h
    using that sp(2) by (intro Suc.IH)
  let ?st = "\<lparr>d_iter = snd (pb_field_iter_begin E a d), extension_range_start = 0,
                fixed_count_field = None, fields_seen = [0, 0]\<rparr>"
  let ?h = "set_mem h (store32 (mem h) sp 0)"
  have "tame_st a d sp s ?h (noinit_loop E n sp (pb_decode_noinit E n (sp + 4)) a (Suc (unat (bytes_left s))) ?st s ?h)"
    using noinit Suc.prems(1,2) sp(1)
    by (rule tame_loop) (use iter_ok_begin [of E a d sp] Suc.prems(4) in simp_all)
  then have "tameB (False \<or> False) s ?h (withV (noinit_loop E n sp (pb_decode_noinit E n (sp + 4)) a (Suc (unat (bytes_left s))) ?st s ?h)
      (noinit_finish E sp a))"
    using Suc.prems(4) by (intro tame_withV) (auto simp: tame_st_def intro: tame_finish simp del: noinit_loop.simps)
  moreover have "R h ?h" using sp(1) by (rule writable_stores(3)) simp
  ultimately show ?case by (auto simp: noinit_body_def Let_def intro: tame_pre simp del: noinit_loop.simps)
qed

lemma tame_decode:
  assumes "desc_ok E (\<not> lax) (Suc n) a" "msg_w (Suc n) a d" "stack_w n sp" "good s"
  shows "tameB False s h (pb_decode E n sp a d s h)"
  unfolding pb_decode_def using assms by (intro tame_decode_init tame_noinit)

end

end
