(* ===== verification/Decode_Props.thy ===== *)
theory Decode_Props
  imports Decode_Total
begin

text \<open>
  What the contracts give for the library's memory streams: decoding arbitrary bytes always
  comes back, reads only the input, and, for messages without pointers, writes only the
  message and the decoder's own stack slots; the primitive readers invert the encoders.
\<close>

section \<open>Instances of the contract\<close>

definition frame :: "addr set \<Rightarrow> heap \<Rightarrow> heap \<Rightarrow> bool" where
  "frame W h h' \<longleftrightarrow> (\<forall>a. a \<notin> W \<longrightarrow> mem h' a = mem h a) \<and> blocks h' = blocks h \<and> out h' = out h"

definition anything :: "heap \<Rightarrow> heap \<Rightarrow> bool" where
  "anything h h' \<longleftrightarrow> True"

interpretation fr: safe_decoding E Buf_read buf_avail buf_eat "frame W" for E W
  by unfold_locales (auto simp: frame_def)

interpretation any: safe_decoding E Buf_read buf_avail buf_eat anything for E
  by unfold_locales (auto simp: anything_def)

lemma any_lax: "any.lax"
  by (simp add: any.lax_def anything_def)

lemma fr_not_lax: "\<not> fr.lax W"
proof
  assume "fr.lax W"
  then have "blocks (\<lparr>mem = \<lambda>_. 0, blocks = [(1, 1)], out = []\<rparr> :: heap) = blocks \<lparr>mem = \<lambda>_. 0, blocks = [], out = []\<rparr>"
    unfolding fr.lax_def frame_def by blast
  then show False by simp
qed

lemma fr_writable: "region p k \<subseteq> W \<Longrightarrow> fr.writable W p k"
  unfolding fr.writable_def
proof (intro allI impI)
  fix h :: heap and i and bs :: "byte list" assume W: "region p k \<subseteq> W" and i: "i + length bs \<le> k"
  have "region (p + of_nat i) (length bs) \<subseteq> W" using region_sub [OF i, of p] W by blast
  then show "frame W h (set_mem h (store_bytes (mem h) (p + of_nat i) bs))"
    by (auto simp: frame_def intro: store_bytes_outside)
qed

section \<open>Where a static message lies\<close>

text \<open>Every member of the structure at \<open>d\<close> described by the table \<open>a\<close> lies in \<open>W\<close>.\<close>

definition field_in :: "addr set \<Rightarrow> (addr \<Rightarrow> addr \<Rightarrow> bool) \<Rightarrow> pb_field_t \<Rightarrow> addr \<Rightarrow> addr \<Rightarrow> bool" where
  "field_in W sub f pD pS \<longleftrightarrow>
     (PB_HTYPE (type f) \<noteq> PB_HTYPE_REPEATED \<longrightarrow>
        region pD (unat (data_size f)) \<subseteq> W \<and> (PB_LTYPE (type f) = PB_LTYPE_SUBMESSAGE \<longrightarrow> sub (ptr f) pD)) \<and>
     (PB_HTYPE (type f) = PB_HTYPE_OPTIONAL \<and> pS \<noteq> pD \<longrightarrow> region pS 1 \<subseteq> W) \<and>
     (PB_HTYPE (type f) = PB_HTYPE_REPEATED \<or> PB_HTYPE (type f) = PB_HTYPE_ONEOF \<longrightarrow> region pS 4 \<subseteq> W) \<and>
     (PB_HTYPE (type f) = PB_HTYPE_REPEATED \<longrightarrow>
        (\<forall>k < array_size f. region (item_addr pD (data_size f) k) (unat (data_size f)) \<subseteq> W \<and>
           (PB_LTYPE (type f) = PB_LTYPE_SUBMESSAGE \<longrightarrow> sub (ptr f) (item_addr pD (data_size f) k))))"

fun message_in :: "env \<Rightarrow> addr set \<Rightarrow> nat \<Rightarrow> addr \<Rightarrow> addr \<Rightarrow> bool" where
  "message_in E W 0 a d \<longleftrightarrow> True"
| "message_in E W (Suc n) a d \<longleftrightarrow>
     (\<forall>i < n_fields E a.
        field_in W (message_in E W n) (field_at E a i) (pData (iter_at E a d i)) (pSize (iter_at E a d i)))"

lemma field_in_w:
  assumes "field_in W sub f pD pS" "\<And>a d. sub a d \<Longrightarrow> sub' a d"
  shows "fr.fld_w W sub' f pD pS"
  using assms fr_writable [of _ 1 W] unfolding fr.fld_w_def field_in_def by (auto simp: fr_writable)

lemma message_in_w: "message_in E W n a d \<Longrightarrow> fr.msg_w E W n a d"
proof (induction n arbitrary: a d)
  case (Suc n)
  then show ?case by (auto simp: fr.msg_w.simps intro: field_in_w)
qed (simp add: fr.msg_w.simps)

lemma stack_in_w: "region sp (4 * n) \<subseteq> W \<Longrightarrow> fr.stack_w W n sp"
  unfolding fr.stack_w_def
proof (intro allI impI)
  fix j assume W: "region sp (4 * n) \<subseteq> W" and j: "j < n"
  then have "region (sp + of_nat (4 * j)) 4 \<subseteq> region sp (4 * n)" by (intro region_sub) simp
  with W show "fr.writable W (sp + of_nat (4 * j)) 4" by (intro fr_writable) blast
qed

section \<open>Streams over a buffer\<close>

lemma good_from_buffer: "b + unat sz \<le> length obj \<Longrightarrow> ibuf.good (pb_istream_from_buffer obj b sz)"
  by (simp add: ibuf.good_def pb_istream_from_buffer_def buf_avail_def st_of_def)

lemma within_buffer:
  assumes "fr.within (pb_istream_from_buffer obj b sz) s'"
  shows "i_buf s' = obj" "b \<le> i_pos s'" "i_pos s' + unat (bytes_left s') \<le> b + unat sz"
  using assms by (auto simp: fr.within_def buf_eat_def st_of_def pb_istream_from_buffer_def)

lemma advances_buffer:
  assumes "ibuf.advances (pb_istream_from_buffer obj b sz) s'"
  shows "i_pos s' + unat (bytes_left s') = b + unat sz"
  using assms ibuf.unat_left_eat [of _ "pb_istream_from_buffer obj b sz"]
  by (auto simp: ibuf.advances_def ibuf.eat_def buf_eat_def st_of_def set_st_def pb_istream_from_buffer_def)

section \<open>Decoding arbitrary input\<close>

text \<open>
  C6: decoding arbitrary bytes into a message without pointer fields is memory safe and
  total: \<open>pb_decode\<close> returns, without undefined behaviour, without reading outside the
  input buffer, and changes no byte outside the message structure and the decoder's stack
  slots. When it succeeds the stream stands exactly behind the bytes it took.
\<close>

theorem pb_decode_static_safe:
  assumes "desc_ok E True (Suc n) flds" and "message_in E W (Suc n) flds dest" and "region sp (4 * n) \<subseteq> W"
    and "b + unat sz \<le> length obj"
  shows "\<exists>ok s' h'. pb_decode E n sp flds dest (pb_istream_from_buffer obj b sz) h = Ret (ok, s', h') \<and>
    (\<forall>a. a \<notin> W \<longrightarrow> mem h' a = mem h a) \<and> blocks h' = blocks h \<and> out h' = out h \<and>
    i_buf s' = obj \<and> b \<le> i_pos s' \<and> i_pos s' + unat (bytes_left s') \<le> b + unat sz \<and>
    (ok \<longrightarrow> i_pos s' + unat (bytes_left s') = b + unat sz)"
proof -
  let ?s = "pb_istream_from_buffer obj b sz"
  have d: "desc_ok E (\<not> fr.lax W) (Suc n) flds" using assms(1) by (simp add: fr_not_lax)
  have "fr.tame W (\<lambda>b. b) False ?s h (pb_decode E n sp flds dest ?s h)"
    using d message_in_w [OF assms(2)] stack_in_w [OF assms(3)] good_from_buffer [OF assms(4)]
    by (rule fr.tame_decode)
  then show ?thesis
    using within_buffer advances_buffer
    by (auto simp: fr.tame_def fr_not_lax frame_def split: outcome.splits)
qed

lemma sample_tables:
  "n_fields sample_env 200 = 1" "n_fields sample_env 100 = 1"
  "field_at sample_env 200 0 = sample_sub_field" "field_at sample_env 100 0 = sample_int_field"
  "pData (iter_at sample_env 200 2000 0) = 2000" "pData (iter_at sample_env 100 2000 0) = 2000"
  by code_simp+

lemma sample_layout: "message_in sample_env (region 2000 4 \<union> region 9000 8) (Suc (Suc (Suc 0))) 200 2000"
  unfolding message_in.simps
  by (simp add: sample_tables field_in_def sample_sub_field_def sample_int_field_def PB_HTYPE_def PB_LTYPE_def
      del: iter_at.simps)

theorem pb_decode_static_safe_witness:
  "\<exists>ok s' h'. pb_decode sample_env 2 9000 200 2000 (pb_istream_from_buffer [0x1A, 3, 8, 0x96, 1] 0 5) sample_heap = Ret (ok, s', h') \<and>
    (\<forall>a. a \<notin> region 2000 4 \<union> region 9000 8 \<longrightarrow> mem h' a = mem sample_heap a) \<and>
    blocks h' = blocks sample_heap \<and> out h' = out sample_heap \<and>
    i_buf s' = [0x1A, 3, 8, 0x96, 1] \<and> 0 \<le> i_pos s' \<and> i_pos s' + unat (bytes_left s') \<le> 0 + unat (5 :: u64) \<and>
    (ok \<longrightarrow> i_pos s' + unat (bytes_left s') = 0 + unat (5 :: u64))"
proof (rule pb_decode_static_safe)
  show "desc_ok sample_env True (Suc 2) 200" by code_simp
  show "message_in sample_env (region 2000 4 \<union> region 9000 8) (Suc 2) 200 2000"
    using sample_layout by (simp only: numeral_2_eq_2)
  show "region 9000 (4 * 2) \<subseteq> region 2000 4 \<union> region 9000 8" by simp
  show "0 + unat (5 :: u64) \<le> length [0x1A, 3, 8, 0x96, 1 :: byte]" by simp
qed

text \<open>
  C7: decoding never runs away and never loses track of the input, for messages with
  pointer fields too: within the nesting depth of the descriptors \<open>pb_decode\<close> is not out of
  fuel, and whenever it returns, the stream lies inside the input buffer.
\<close>

theorem pb_decode_terminates:
  assumes "desc_ok E False (Suc n) flds" and "b + unat sz \<le> length obj"
  shows "pb_decode E n sp flds dest (pb_istream_from_buffer obj b sz) h \<noteq> NoFuel \<and>
    (\<forall>ok s' h'. pb_decode E n sp flds dest (pb_istream_from_buffer obj b sz) h = Ret (ok, s', h') \<longrightarrow>
       i_buf s' = obj \<and> b \<le> i_pos s' \<and> i_pos s' + unat (bytes_left s') \<le> b + unat sz \<and>
       (ok \<longrightarrow> i_pos s' + unat (bytes_left s') = b + unat sz))"
proof -
  let ?s = "pb_istream_from_buffer obj b sz"
  have d: "desc_ok E (\<not> any.lax) (Suc n) flds" using assms(1) by (simp add: any_lax)
  have "any.stack_w n sp" by (simp add: any.stack_w_def any.writable_lax any_lax)
  with d any.msg_w_lax [OF any_lax]
  have "any.tame (\<lambda>b. b) False ?s h (pb_decode E n sp flds dest ?s h)"
    using good_from_buffer [OF assms(2)] by (rule any.tame_decode)
  then show ?thesis
    using within_buffer advances_buffer by (auto simp: any.tame_def split: outcome.splits)
qed

theorem pb_decode_terminates_witness:
  "\<exists>ok s' h'. pb_decode sample_env 2 9000 300 2000 (pb_istream_from_buffer [0x20, 7] 0 2) sample_heap = Ret (ok, s', h') \<and>
     i_buf s' = [0x20, 7] \<and> i_pos s' + unat (bytes_left s') \<le> 2"
proof -
  have d: "desc_ok sample_env False (Suc 2) 300" by code_simp
  have b: "0 + unat (2 :: u64) \<le> length [0x20, 7 :: byte]" by simp
  have "isRet (pb_decode sample_env 2 9000 300 2000 (pb_istream_from_buffer [0x20, 7] 0 2) sample_heap)"
    by code_simp
  with pb_decode_terminates [OF d b, of 9000 2000 sample_heap] show ?thesis by (fastforce simp: isRet_iff)
qed

section \<open>Where the arithmetic of the decoder wraps\<close>

text \<open>
  The position of the next bits in \<open>pb_decode_varint32\<close> has eight bits. After 37 continuation bytes it
  has wrapped round to 3, and a byte that comes then is added to the result: a number of 38 bytes
  is accepted, with a value that it does not have.
\<close>

lemma varint32_position_wraps:
  "(case pb_decode_varint32 sample_env (pb_istream_from_buffer (replicate 37 0x80 @ [0x01]) 0 38) sample_heap of
      Ret (v, s, h) \<Rightarrow> v = Some 8 | _ \<Rightarrow> False)"
  by code_simp

text \<open>The address of an array item is computed with a 32-bit product.\<close>

lemma item_addr_wraps: "item_addr p 8 0x20000000 = p"
  by (simp add: item_addr_def)

end
