(* ===== verification/Round_Trip.thy ===== *)
theory Round_Trip
  imports Decode_Props Encode_Props
begin

text \<open>
  What the encoder writes, the decoder reads back: varints, zig-zag and fixed-width
  integers, tags, length-delimited payloads, and skipping.
\<close>

section \<open>Reading what was written\<close>

lemma stream_over:
  assumes "b + length bs \<le> length obj" "length bs < 2 ^ 64"
  defines "s \<equiv> pb_istream_from_buffer (overwrite obj b bs) b (of_nat (length bs))"
  shows "ibuf.good s" "ibuf.input s = bs" "ibuf.input s = bs @ []"
  using assms
  by (simp_all add: ibuf.good_def ibuf.input_def buf_avail_def st_of_def pb_istream_from_buffer_def
      overwrite_window unat_of_nat_small)

lemma eat_all_left:
  "length bs < 2 ^ 64 \<Longrightarrow> bytes_left (ibuf.eat (length bs) (pb_istream_from_buffer obj b (of_nat (length bs)))) = 0"
  by (simp add: ibuf.eat_def pb_istream_from_buffer_def)

text \<open>
  C8: a varint survives the round trip: \<open>pb_encode_varint\<close> writes at most ten bytes, and
  \<open>pb_decode_varint\<close> on exactly these bytes returns the value and consumes all of them.
\<close>

theorem varint_round_trip:
  assumes "10 \<le> length (out h)"
  shows "\<exists>s' h'. pb_encode_varint E v (pb_ostream_from_buffer 0 10) h = Ret (True, s', h') \<and>
    bytes_written s' \<le> 10 \<and>
    (\<exists>t. pb_decode_varint E (pb_istream_from_buffer (out h') 0 (bytes_written s')) g = Ret (Some v, t, g) \<and> bytes_left t = 0)"
proof -
  let ?bs = "varint (unat v)"
  have len: "length ?bs \<le> 10" by (rule length_varint_u64)
  have w: "pb_encode_varint E v (pb_ostream_from_buffer 0 10) h =
      Ret (True, (pb_ostream_from_buffer 0 10)\<lparr>bytes_written := of_nat (length ?bs), o_state := 0 + length ?bs\<rparr>,
           h\<lparr>out := overwrite (out h) 0 ?bs\<rparr>)"
    using emits_to_buffer [OF buf.emits_varint [of "mem h" E v], of 0 10] assms len by simp
  have o: "0 + length ?bs \<le> length (out h)" "length ?bs < 2 ^ 64" using assms len by auto
  from ibuf.takesD [OF ibuf.takes_varint [of E v] stream_over(1,3) [OF o], of g] eat_all_left [OF o(2)]
  have "\<exists>t. pb_decode_varint E (pb_istream_from_buffer (overwrite (out h) 0 ?bs) 0 (of_nat (length ?bs))) g =
      Ret (Some v, t, g) \<and> bytes_left t = 0" by blast
  with w len show ?thesis by (simp add: word_le_nat_alt)
qed

theorem varint_round_trip_witness:
  "\<exists>s' h'. pb_encode_varint sample_env 300 (pb_ostream_from_buffer 0 10) (sample_heap\<lparr>out := replicate 10 0\<rparr>) = Ret (True, s', h') \<and>
    bytes_written s' \<le> 10 \<and>
    (\<exists>t. pb_decode_varint sample_env (pb_istream_from_buffer (out h') 0 (bytes_written s')) sample_heap =
       Ret (Some 300, t, sample_heap) \<and> bytes_left t = 0)"
  by (rule varint_round_trip) simp

section \<open>Zig-zag\<close>

lemma bit_shl1: "bit (push_bit 1 v) k \<longleftrightarrow> 1 \<le> k \<and> bit v (k - 1)" if "k < 64" for v :: u64
  using that by (simp only: bit_push_bit_iff possible_bit_word) auto

lemma bit0_and_1: "v AND 1 = 0 \<longleftrightarrow> \<not> bit v 0" for v :: u64
  by (simp add: and_one_eq bit_0 even_iff_mod_2_eq_zero)

lemma zigzag_decode_encode: "zigzag_decode (zigzag_encode v) = v"
proof (cases "sint v < 0")
  case True
  then have neg: "bit v 63" using bit_last_iff [of v] by simp
  have z: "zigzag_encode v = NOT (push_bit 1 v)" using True by (simp add: zigzag_encode_def)
  have odd: "zigzag_encode v AND 1 \<noteq> 0"
    unfolding z bit0_and_1 by (simp only: bit_not_iff bit_shl1 possible_bit_word) simp
  have "NOT (drop_bit 1 (zigzag_encode v)) = v"
  proof (rule bit_word_eqI)
    fix k assume "k < LENGTH(64)"
    then consider "k = 63" | "k < 63" by fastforce
    then show "bit (NOT (drop_bit 1 (zigzag_encode v))) k = bit v k"
    proof cases
      case 1 then show ?thesis unfolding z using neg by (simp add: bit_not_iff bit_drop_bit_eq)
    next
      case 2 then show ?thesis unfolding z by (simp only: bit_not_iff bit_drop_bit_eq o_apply bit_shl1 possible_bit_word) simp
    qed
  qed
  with odd show ?thesis by (simp add: zigzag_decode_def)
next
  case False
  then have pos: "\<not> bit v 63" using bit_last_iff [of v] by simp
  have z: "zigzag_encode v = push_bit 1 v" using False by (simp add: zigzag_encode_def)
  have even: "zigzag_encode v AND 1 = 0" unfolding z bit0_and_1 by (simp only: bit_shl1) simp
  have "drop_bit 1 (zigzag_encode v) = v"
  proof (rule bit_word_eqI)
    fix k assume "k < LENGTH(64)"
    then consider "k = 63" | "k < 63" by fastforce
    then show "bit (drop_bit 1 (zigzag_encode v)) k = bit v k"
    proof cases
      case 1 then show ?thesis unfolding z using pos by (auto simp: bit_drop_bit_eq dest: bit_imp_le_length)
    next
      case 2 then show ?thesis unfolding z by (simp only: bit_drop_bit_eq o_apply bit_shl1) simp
    qed
  qed
  with even show ?thesis by (simp add: zigzag_decode_def)
qed

text \<open>
  A signed integer survives the round trip through zig-zag coding, negative values
  included, and small magnitudes of either sign have short encodings (below 64: one byte).
\<close>

theorem svarint_round_trip:
  assumes "10 \<le> length (out h)"
  shows "\<exists>s' h'. pb_encode_svarint E v (pb_ostream_from_buffer 0 10) h = Ret (True, s', h') \<and>
    (\<bar>sint v\<bar> < 64 \<longrightarrow> bytes_written s' = 1) \<and>
    (\<exists>t. pb_decode_svarint E (pb_istream_from_buffer (out h') 0 (bytes_written s')) g = Ret (Some v, t, g) \<and> bytes_left t = 0)"
proof -
  let ?z = "zigzag_encode v" let ?bs = "varint (unat (zigzag_encode v))"
  have len: "length ?bs \<le> 10" by (rule length_varint_u64)
  have w: "pb_encode_svarint E v (pb_ostream_from_buffer 0 10) h =
      Ret (True, (pb_ostream_from_buffer 0 10)\<lparr>bytes_written := of_nat (length ?bs), o_state := 0 + length ?bs\<rparr>,
           h\<lparr>out := overwrite (out h) 0 ?bs\<rparr>)"
    using emits_to_buffer [OF buf.emits_svarint [of "mem h" E v], of 0 10] assms len by simp
  have o: "0 + length ?bs \<le> length (out h)" "length ?bs < 2 ^ 64" using assms len by auto
  from ibuf.takesD [OF ibuf.takes_varint [of E ?z] stream_over(1,3) [OF o], of g] eat_all_left [OF o(2)]
  have "\<exists>t. pb_decode_svarint E (pb_istream_from_buffer (overwrite (out h) 0 ?bs) 0 (of_nat (length ?bs))) g =
      Ret (Some v, t, g) \<and> bytes_left t = 0"
    by (simp add: pb_decode_svarint_def bindV_def zigzag_decode_encode)
  moreover have "length ?bs = 1" if "\<bar>sint v\<bar> < 64"
    using that by (simp add: unat_zigzag_encode zigzag_def varint_small)
  ultimately show ?thesis using w by simp
qed

theorem svarint_round_trip_witness:
  "\<exists>s' h'. pb_encode_svarint sample_env (-3) (pb_ostream_from_buffer 0 10) (sample_heap\<lparr>out := replicate 10 0\<rparr>) = Ret (True, s', h') \<and>
    (\<bar>sint (-3 :: u64)\<bar> < 64 \<longrightarrow> bytes_written s' = 1) \<and>
    (\<exists>t. pb_decode_svarint sample_env (pb_istream_from_buffer (out h') 0 (bytes_written s')) sample_heap =
       Ret (Some (-3), t, sample_heap) \<and> bytes_left t = 0)"
  by (rule svarint_round_trip) simp

section \<open>Tags\<close>

text \<open>
  A tag survives the round trip: for a field number below \<open>2^29\<close> and any wire type,
  \<open>pb_decode_tag\<close> on what \<open>pb_encode_tag\<close> wrote returns both, without reporting the end of
  the stream.
\<close>

theorem tag_round_trip:
  assumes "10 \<le> length (out h)" and "unat wt < 8" and "unat tg < 2 ^ 29" and "tg \<noteq> 0"
  shows "\<exists>s' h'. pb_encode_tag E wt tg (pb_ostream_from_buffer 0 10) h = Ret (True, s', h') \<and>
    (\<exists>t. pb_decode_tag E (pb_istream_from_buffer (out h') 0 (bytes_written s')) g =
       Ret (\<lparr>t_ok = True, t_wire_type = wt, t_tag = tg, t_eof = False\<rparr>, t, g) \<and> bytes_left t = 0)"
proof -
  let ?bs = "tag_wire wt tg"
  have len: "length ?bs \<le> 10" unfolding tag_wire_def by (rule length_varint_u64)
  have w: "pb_encode_tag E wt tg (pb_ostream_from_buffer 0 10) h =
      Ret (True, (pb_ostream_from_buffer 0 10)\<lparr>bytes_written := of_nat (length ?bs), o_state := 0 + length ?bs\<rparr>,
           h\<lparr>out := overwrite (out h) 0 ?bs\<rparr>)"
    using emits_to_buffer [OF buf.emits_tag [of "mem h" E wt tg], of 0 10] assms(1) len by simp
  have o: "0 + length ?bs \<le> length (out h)" "length ?bs < 2 ^ 64" using assms(1) len by auto
  from ibuf.takes_tag [OF stream_over(1,3) [OF o] assms(2-4), of E g] eat_all_left [OF o(2)] w
  show ?thesis by simp
qed

theorem tag_round_trip_witness:
  "\<exists>s' h'. pb_encode_tag sample_env 2 7 (pb_ostream_from_buffer 0 10) (sample_heap\<lparr>out := replicate 10 0\<rparr>) = Ret (True, s', h') \<and>
    (\<exists>t. pb_decode_tag sample_env (pb_istream_from_buffer (out h') 0 (bytes_written s')) sample_heap =
       Ret (\<lparr>t_ok = True, t_wire_type = 2, t_tag = 7, t_eof = False\<rparr>, t, sample_heap) \<and> bytes_left t = 0)"
  by (rule tag_round_trip) simp_all

section \<open>Fixed-width values\<close>

lemma combine32:
  assumes "length bs = 4"
  shows "push_bit 0 (ucast (bs ! 0)) OR push_bit 8 (ucast (bs ! 1)) OR push_bit 16 (ucast (bs ! 2)) OR
    push_bit 24 (ucast (bs ! 3)) = (le_word bs :: u32)"
proof -
  from assms obtain a b c d where "bs = [a, b, c, d]" by (auto simp: length_Suc_conv eval_nat_numeral)
  then show ?thesis by (simp add: push_bit_or)
qed

lemma combine64:
  assumes "length bs = 8"
  shows "push_bit 0 (ucast (bs ! 0)) OR push_bit 8 (ucast (bs ! 1)) OR push_bit 16 (ucast (bs ! 2)) OR
    push_bit 24 (ucast (bs ! 3)) OR push_bit 32 (ucast (bs ! 4)) OR push_bit 40 (ucast (bs ! 5)) OR
    push_bit 48 (ucast (bs ! 6)) OR push_bit 56 (ucast (bs ! 7)) = (le_word bs :: u64)"
proof -
  from assms obtain a b c d e f g h where "bs = [a, b, c, d, e, f, g, h]"
    by (auto simp: length_Suc_conv eval_nat_numeral)
  then show ?thesis by (simp add: push_bit_or)
qed

lemma decode_fixed64_ok:
  assumes "ibuf.good s" "ibuf.input s = bs" "length bs = 8"
  shows "pb_decode_fixed64 E dest s g = Ret (True, ibuf.eat 8 s, set_mem g (store64 (mem g) dest (le_word bs)))"
proof -
  have "pb_read E RLocal 8 s g = Ret (Some bs, ibuf.eat 8 s, g)"
    using ibuf.pb_read_ok [OF assms(1), of 8 E RLocal g] ibuf.length_input [OF assms(1)] assms(2,3)
    by (simp add: local_of_def)
  then show ?thesis using assms(3) combine64 [OF assms(3)] by (simp add: pb_decode_fixed64_def withV_def)
qed

lemma decode_fixed32_ok:
  assumes "ibuf.good s" "ibuf.input s = bs" "length bs = 4"
  shows "pb_decode_fixed32 E dest s g = Ret (True, ibuf.eat 4 s, set_mem g (store32 (mem g) dest (le_word bs)))"
proof -
  have "pb_read E RLocal 4 s g = Ret (Some bs, ibuf.eat 4 s, g)"
    using ibuf.pb_read_ok [OF assms(1), of 4 E RLocal g] ibuf.length_input [OF assms(1)] assms(2,3)
    by (simp add: local_of_def)
  then show ?thesis using assms(3) combine32 [OF assms(3)] by (simp add: pb_decode_fixed32_def withV_def)
qed

text \<open>
  A \<open>fixed64\<close>, \<open>sfixed64\<close> or \<open>double\<close> in memory is written as eight bytes, and decoding them
  stores the same eight bytes at the destination and touches nothing else.
\<close>

theorem fixed64_round_trip:
  assumes "8 \<le> length (out h)"
  shows "\<exists>s' h'. pb_encode_fixed64 E p (pb_ostream_from_buffer 0 8) h = Ret (True, s', h') \<and> bytes_written s' = 8 \<and>
    (\<exists>t g'. pb_decode_fixed64 E q (pb_istream_from_buffer (out h') 0 8) g = Ret (True, t, g') \<and> bytes_left t = 0 \<and>
       load64 (mem g') q = load64 (mem h) p \<and> (\<forall>a. a \<notin> region q 8 \<longrightarrow> mem g' a = mem g a))"
proof -
  let ?bs = "load_bytes (mem h) p 8"
  have w: "pb_encode_fixed64 E p (pb_ostream_from_buffer 0 8) h =
      Ret (True, (pb_ostream_from_buffer 0 8)\<lparr>bytes_written := 8, o_state := 8\<rparr>, h\<lparr>out := overwrite (out h) 0 ?bs\<rparr>)"
    using emits_to_buffer [OF buf.emits_fixed64 [of "mem h" E p], of 0 8] assms by simp
  have o: "0 + length ?bs \<le> length (out h)" "length ?bs < 2 ^ 64" using assms by auto
  note r = decode_fixed64_ok [OF stream_over(1,2) [OF o], of E q g, simplified]
  show ?thesis
    using w r eat_all_left [OF o(2)] by (simp add: load64_def [of "mem h"] set_mem_def) (simp add: store64_def)
qed

theorem fixed64_round_trip_witness:
  "\<exists>s' h'. pb_encode_fixed64 sample_env 1000 (pb_ostream_from_buffer 0 8) sample_heap = Ret (True, s', h') \<and> bytes_written s' = 8 \<and>
    (\<exists>t g'. pb_decode_fixed64 sample_env 64 (pb_istream_from_buffer (out h') 0 8) sample_heap = Ret (True, t, g') \<and> bytes_left t = 0 \<and>
       load64 (mem g') 64 = load64 (mem sample_heap) 1000 \<and> (\<forall>a. a \<notin> region 64 8 \<longrightarrow> mem g' a = mem sample_heap a))"
  by (rule fixed64_round_trip) (simp add: sample_heap_def)

section \<open>Skipping\<close>

text \<open>
  C9: \<open>pb_skip_field\<close> on a memory stream that starts with one well-formed value of the wire
  type consumes exactly this value and leaves the heap alone, so that an unknown field never
  shifts the fields behind it.
\<close>

theorem pb_skip_field_exact:
  assumes "one_value wt bs" and "length (bs @ rest) < 2 ^ 64" and "b + length (bs @ rest) \<le> length obj"
    and "take (length (bs @ rest)) (drop b obj) = bs @ rest"
  shows "pb_skip_field E wt (pb_istream_from_buffer obj b (of_nat (length (bs @ rest)))) h =
    Ret (True, pb_istream_from_buffer obj (b + length bs) (of_nat (length rest)), h)"
proof -
  let ?s = "pb_istream_from_buffer obj b (of_nat (length (bs @ rest)))"
  have "unat (of_nat (length (bs @ rest)) :: u64) = length (bs @ rest)" using assms(2) by (intro unat_of_nat_small) simp
  then have g: "ibuf.good ?s" "ibuf.input ?s = bs @ rest"
    using assms(3,4) by (simp_all add: ibuf.good_def ibuf.input_def buf_avail_def st_of_def pb_istream_from_buffer_def)
  from ibuf.skip_field_takes [OF g assms(1), of E h] show ?thesis
    by (simp add: ibuf.eat_def pb_istream_from_buffer_def set_st_def st_of_def buf_eat_def)
qed

theorem pb_skip_field_exact_witness:
  "pb_skip_field sample_env PB_WT_STRING (pb_istream_from_buffer [9, 2, 7, 7, 5] 1 (of_nat (length ([2, 7, 7] @ [5 :: byte])))) sample_heap =
    Ret (True, pb_istream_from_buffer [9, 2, 7, 7, 5] (1 + length [2, 7, 7 :: byte]) (of_nat (length [5 :: byte])), sample_heap)"
proof (rule pb_skip_field_exact)
  have "[2, 7, 7] = varint (length [7, 7 :: byte]) @ [7, 7]" by (simp add: varint.simps)
  then have "\<exists>p. length p < 2 ^ 32 \<and> [2, 7, 7] = varint (length p) @ p" by (intro exI [of _ "[7, 7]"]) simp
  then show "one_value PB_WT_STRING [2, 7, 7]" by (simp add: one_value_def)
qed simp_all

end
