(* ===== verification/Status.thy ===== *)
theory Status
  imports Prelude
begin

text \<open>
  Results of the storage engine (\<open>include/leveldb/status.h\<close>, \<open>util/status.cc\<close>). The heap
  array \<open>state_\<close> (length, code, message) is its code and message, a null \<open>state_\<close> is \<open>OK\<close>;
  copying and moving a status are the identity.
\<close>

datatype Code = kNotFound | kCorruption | kNotSupported | kInvalidArgument | kIOError

datatype Status = OK | Error_Status Code string

definition ok :: "Status \<Rightarrow> bool" where
  "ok s \<longleftrightarrow> s = OK"

text \<open>The constructor: the second message follows a colon when there is one.\<close>

definition Status_new :: "Code \<Rightarrow> string \<Rightarrow> string \<Rightarrow> Status" where
  "Status_new code msg msg2 = Error_Status code (msg @ (if length msg2 \<noteq> 0 then '': '' @ msg2 else []))"

definition NotFound :: "string \<Rightarrow> string \<Rightarrow> Status" where
  "NotFound msg msg2 = Status_new kNotFound msg msg2"

definition Corruption :: "string \<Rightarrow> string \<Rightarrow> Status" where
  "Corruption msg msg2 = Status_new kCorruption msg msg2"

definition NotSupported :: "string \<Rightarrow> string \<Rightarrow> Status" where
  "NotSupported msg msg2 = Status_new kNotSupported msg msg2"

definition InvalidArgument :: "string \<Rightarrow> string \<Rightarrow> Status" where
  "InvalidArgument msg msg2 = Status_new kInvalidArgument msg msg2"

definition IOError :: "string \<Rightarrow> string \<Rightarrow> Status" where
  "IOError msg msg2 = Status_new kIOError msg msg2"

fun IsNotFound :: "Status \<Rightarrow> bool" where
  "IsNotFound (Error_Status c m) \<longleftrightarrow> c = kNotFound"
| "IsNotFound OK \<longleftrightarrow> False"

fun IsCorruption :: "Status \<Rightarrow> bool" where
  "IsCorruption (Error_Status c m) \<longleftrightarrow> c = kCorruption"
| "IsCorruption OK \<longleftrightarrow> False"

fun ToString :: "Status \<Rightarrow> string" where
  "ToString OK = ''OK''"
| "ToString (Error_Status c m) =
     (case c of
        kNotFound \<Rightarrow> ''NotFound: ''
      | kCorruption \<Rightarrow> ''Corruption: ''
      | kNotSupported \<Rightarrow> ''Not implemented: ''
      | kInvalidArgument \<Rightarrow> ''Invalid argument: ''
      | kIOError \<Rightarrow> ''IO error: '') @ m"

lemma ok_simps [simp]: "ok OK" "\<not> ok (Error_Status c m)" "\<not> ok (Status_new c m m')"
  "\<not> ok (NotFound m m')" "\<not> ok (Corruption m m')" "\<not> ok (IOError m m')"
  by (simp_all add: ok_def Status_new_def NotFound_def Corruption_def IOError_def)

lemma ok_iff: "ok s \<longleftrightarrow> s = OK"
  by (simp add: ok_def)

end
