(* ===== verification/Env_Posix.thy ===== *)
theory Env_Posix
  imports Status
begin

text \<open>
  The files of the POSIX environment (\<open>util/env_posix.cc\<close>): the buffered
  \<open>PosixWritableFile\<close> and the \<open>PosixSequentialFile\<close>, and the contracts of the interfaces
  \<open>WritableFile\<close> and \<open>SequentialFile\<close> (\<open>include/leveldb/env.h\<close>) that the log relies on.

  The kernel is the other party of the system calls: a descriptor open for writing has
  accepted some bytes, one open for reading stands somewhere in a file, and a schedule says
  how each coming call goes (an error number, or how many bytes at most are accepted), so
  that short writes, interruptions and errors can happen in every order; after the schedule
  every call succeeds in full.
\<close>

section \<open>System calls\<close>

type_synonym errno = nat

abbreviation (input) ENOENT :: errno where "ENOENT \<equiv> 2"
abbreviation (input) EINTR :: errno where "EINTR \<equiv> 4"

datatype write_event = Accepts nat | Write_fails errno

record wfd =
  accepted :: "byte list"
  wevents :: "write_event list"

definition sys_write :: "wfd \<Rightarrow> byte list \<Rightarrow> (errno + nat) \<times> wfd" where
  "sys_write fd data =
     (case wevents fd of
        [] \<Rightarrow> (Inr (length data), fd\<lparr>accepted := accepted fd @ data\<rparr>)
      | Accepts k # es \<Rightarrow> (Inr (min k (length data)), fd\<lparr>accepted := accepted fd @ take k data, wevents := es\<rparr>)
      | Write_fails e # es \<Rightarrow> (Inl e, fd\<lparr>wevents := es\<rparr>))"

record rfd =
  fdata :: "byte list"
  foffset :: nat
  revents :: "errno list"

text \<open>\<open>read\<close> on a regular file is short only at its end.\<close>

definition sys_read :: "rfd \<Rightarrow> nat \<Rightarrow> (errno + byte list) \<times> rfd" where
  "sys_read fd n =
     (case revents fd of
        [] \<Rightarrow> let bs = take n (drop (foffset fd) (fdata fd)) in (Inr bs, fd\<lparr>foffset := foffset fd + length bs\<rparr>)
      | e # es \<Rightarrow> (Inl e, fd\<lparr>revents := es\<rparr>))"

definition sys_lseek_cur :: "rfd \<Rightarrow> nat \<Rightarrow> (errno + unit) \<times> rfd" where
  "sys_lseek_cur fd n =
     (case revents fd of
        [] \<Rightarrow> (Inr (), fd\<lparr>foffset := foffset fd + n\<rparr>)
      | e # es \<Rightarrow> (Inl e, fd\<lparr>revents := es\<rparr>))"

text \<open>\<open>std::strerror\<close> is a parameter.\<close>

definition PosixError :: "(errno \<Rightarrow> string) \<Rightarrow> string \<Rightarrow> errno \<Rightarrow> Status" where
  "PosixError strerror ctx error_number =
     (if error_number = ENOENT then NotFound ctx (strerror error_number)
      else IOError ctx (strerror error_number))"

lemma not_ok_PosixError [simp]: "\<not> ok (PosixError se c e)"
  by (simp add: PosixError_def)

section \<open>PosixWritableFile\<close>

definition kWritableFileBufferSize :: nat where "kWritableFileBufferSize = 65536"

text \<open>\<open>buf\<close> holds \<open>buf_[0, pos_ - 1]\<close>.\<close>

record posix_wfile =
  buf :: "byte list"
  wf_fd :: wfd
  wf_name :: string

function WriteUnbuffered_loop :: "(errno \<Rightarrow> string) \<Rightarrow> string \<Rightarrow> byte list \<Rightarrow> wfd \<Rightarrow> Status \<times> wfd" where
  "WriteUnbuffered_loop se name data fd =
     (if data = [] then (OK, fd)
      else case sys_write fd data of
        (Inl e, fd') \<Rightarrow> if e = EINTR then WriteUnbuffered_loop se name data fd' else (PosixError se name e, fd')
      | (Inr k, fd') \<Rightarrow> WriteUnbuffered_loop se name (drop k data) fd')"
  by pat_completeness auto
termination
proof (relation "measures [\<lambda>(se, name, data, fd). length (wevents fd), \<lambda>(se, name, data, fd). length data]", goal_cases)
  case (2 se name data fd r fd' e)
  then show ?case by (auto simp: sys_write_def split: list.splits write_event.splits)
next
  case (3 se name data fd r fd' k)
  then show ?case by (auto simp: sys_write_def split: list.splits write_event.splits)
qed simp

declare WriteUnbuffered_loop.simps [simp del]

definition WriteUnbuffered :: "(errno \<Rightarrow> string) \<Rightarrow> byte list \<Rightarrow> posix_wfile \<Rightarrow> Status \<times> posix_wfile" where
  "WriteUnbuffered se data f =
     (let (s, fd) = WriteUnbuffered_loop se (wf_name f) data (wf_fd f) in (s, f\<lparr>wf_fd := fd\<rparr>))"

definition FlushBuffer :: "(errno \<Rightarrow> string) \<Rightarrow> posix_wfile \<Rightarrow> Status \<times> posix_wfile" where
  "FlushBuffer se f = (let (status, f) = WriteUnbuffered se (buf f) f in (status, f\<lparr>buf := []\<rparr>))"

definition PosixWritableFile_Append :: "(errno \<Rightarrow> string) \<Rightarrow> posix_wfile \<Rightarrow> byte list \<Rightarrow> Status \<times> posix_wfile" where
  "PosixWritableFile_Append se f data =
     (let copy_size = min (length data) (kWritableFileBufferSize - length (buf f));
          f = f\<lparr>buf := buf f @ take copy_size data\<rparr>;
          data = drop copy_size data
      in if length data = 0 then (OK, f)
         else
           let (status, f) = FlushBuffer se f
           in if \<not> ok status then (status, f)
              else if length data < kWritableFileBufferSize then (OK, f\<lparr>buf := data\<rparr>)
              else WriteUnbuffered se data f)"

definition PosixWritableFile_Flush :: "(errno \<Rightarrow> string) \<Rightarrow> posix_wfile \<Rightarrow> Status \<times> posix_wfile" where
  "PosixWritableFile_Flush se f = FlushBuffer se f"

section \<open>PosixSequentialFile\<close>

record posix_rfile =
  rf_fd :: rfd
  rf_name :: string

function PosixSequentialFile_Read_loop :: "(errno \<Rightarrow> string) \<Rightarrow> string \<Rightarrow> nat \<Rightarrow> rfd \<Rightarrow> Status \<times> byte list \<times> rfd" where
  "PosixSequentialFile_Read_loop se name n fd =
     (case sys_read fd n of
        (Inl e, fd') \<Rightarrow>
          if e = EINTR then PosixSequentialFile_Read_loop se name n fd' else (PosixError se name e, [], fd')
      | (Inr bs, fd') \<Rightarrow> (OK, bs, fd'))"
  by pat_completeness auto
termination
  by (relation "measure (\<lambda>(se, name, n, fd). length (revents fd))")
    (auto simp: sys_read_def Let_def split: list.splits)

declare PosixSequentialFile_Read_loop.simps [simp del]

definition PosixSequentialFile_Read :: "(errno \<Rightarrow> string) \<Rightarrow> posix_rfile \<Rightarrow> nat \<Rightarrow> Status \<times> byte list \<times> posix_rfile" where
  "PosixSequentialFile_Read se f n =
     (let (s, bs, fd) = PosixSequentialFile_Read_loop se (rf_name f) n (rf_fd f) in (s, bs, f\<lparr>rf_fd := fd\<rparr>))"

definition PosixSequentialFile_Skip :: "(errno \<Rightarrow> string) \<Rightarrow> posix_rfile \<Rightarrow> nat \<Rightarrow> Status \<times> posix_rfile" where
  "PosixSequentialFile_Skip se f n =
     (case sys_lseek_cur (rf_fd f) n of
        (Inl e, fd) \<Rightarrow> (PosixError se (rf_name f) e, f\<lparr>rf_fd := fd\<rparr>)
      | (Inr _, fd) \<Rightarrow> (OK, f\<lparr>rf_fd := fd\<rparr>))"

section \<open>The interfaces\<close>

record 'f WritableFile =
  Append :: "'f \<Rightarrow> byte list \<Rightarrow> Status \<times> 'f"
  Flush :: "'f \<Rightarrow> Status \<times> 'f"

record 'g SequentialFile =
  Read :: "'g \<Rightarrow> nat \<Rightarrow> Status \<times> byte list \<times> 'g"
  Skip :: "'g \<Rightarrow> nat \<Rightarrow> Status \<times> 'g"

definition posix_writable :: "(errno \<Rightarrow> string) \<Rightarrow> posix_wfile WritableFile" where
  "posix_writable se = \<lparr>Append = PosixWritableFile_Append se, Flush = PosixWritableFile_Flush se\<rparr>"

definition posix_sequential :: "(errno \<Rightarrow> string) \<Rightarrow> posix_rfile SequentialFile" where
  "posix_sequential se = \<lparr>Read = PosixSequentialFile_Read se, Skip = PosixSequentialFile_Skip se\<rparr>"

text \<open>
  What a client may rely on. A successful \<open>Append\<close> extends the contents; after a successful
  \<open>Flush\<close> all of them have reached the system (\<open>durable\<close>). A failed call loses a suffix of what
  it was given or had buffered, never anything else. Right after a \<open>Flush\<close> the file is \<open>clean\<close>:
  nothing is buffered, so that appending a few bytes cannot fail.
\<close>

locale writable_file =
  fixes F :: "'f WritableFile" and contents :: "'f \<Rightarrow> byte list" and durable :: "'f \<Rightarrow> byte list"
    and inv :: "'f \<Rightarrow> bool" and clean :: "'f \<Rightarrow> bool"
  assumes append_ok: "inv f \<Longrightarrow> Append F f data = (OK, f') \<Longrightarrow> contents f' = contents f @ data"
    and append_inv: "inv f \<Longrightarrow> Append F f data = (s, f') \<Longrightarrow> inv f'"
    and append_prefix: "inv f \<Longrightarrow> Append F f data = (s, f') \<Longrightarrow> \<exists>d. contents f @ data = contents f' @ d"
    and flush_ok: "inv f \<Longrightarrow> Flush F f = (OK, f') \<Longrightarrow> contents f' = contents f \<and> durable f' = contents f"
    and flush_inv: "inv f \<Longrightarrow> Flush F f = (s, f') \<Longrightarrow> inv f'"
    and flush_prefix: "inv f \<Longrightarrow> Flush F f = (s, f') \<Longrightarrow> \<exists>d. contents f = contents f' @ d"
    and durable_contents: "inv f \<Longrightarrow> \<exists>d. contents f = durable f @ d"
    and append_durable: "Append F f data = (s, f') \<Longrightarrow> \<exists>d. durable f' = durable f @ d"
    and flush_durable: "Flush F f = (s, f') \<Longrightarrow> \<exists>d. durable f' = durable f @ d"
    and flush_clean: "Flush F f = (s, f') \<Longrightarrow> clean f'"
    and append_clean: "inv f \<Longrightarrow> clean f \<Longrightarrow> length data \<le> 6 \<Longrightarrow> \<exists>f'. Append F f data = (OK, f')"

text \<open>
  A successful \<open>Read\<close> returns what comes next, and less than asked only at the end. On a
  \<open>calm\<close> file no error is ahead.
\<close>

locale sequential_file =
  fixes G :: "'g SequentialFile" and remaining :: "'g \<Rightarrow> byte list" and calm :: "'g \<Rightarrow> bool"
  assumes read_ok: "Read G g n = (OK, bs, g') \<Longrightarrow> bs = take n (remaining g) \<and> remaining g' = drop n (remaining g)"
    and read_fail: "Read G g n = (s, bs, g') \<Longrightarrow> \<not> ok s \<Longrightarrow> remaining g' = remaining g"
    and read_calm: "calm g \<Longrightarrow> \<exists>bs g'. Read G g n = (OK, bs, g') \<and> calm g'"
    and skip_ok: "Skip G g n = (OK, g') \<Longrightarrow> remaining g' = drop n (remaining g)"

section \<open>The POSIX files keep the contracts\<close>

lemma WriteUnbuffered_loop_prefix:
  "WriteUnbuffered_loop se name data fd = (s, fd') \<Longrightarrow>
     \<exists>a d. data = a @ d \<and> accepted fd' = accepted fd @ a \<and> (s = OK \<longrightarrow> d = [])"
proof (induction se name data fd rule: WriteUnbuffered_loop.induct)
  case (1 se name data fd)
  show ?case
  proof (cases "data = []")
    case True
    with "1.prems" show ?thesis by (simp add: WriteUnbuffered_loop.simps)
  next
    case False
    obtain r fd1 where r: "sys_write fd data = (r, fd1)" by (cases "sys_write fd data")
    show ?thesis
    proof (cases r)
      case (Inl e)
      with r have a: "accepted fd1 = accepted fd" by (auto simp: sys_write_def split: list.splits write_event.splits)
      show ?thesis
      proof (cases "e = EINTR")
        case True
        with "1.prems" "1.IH"(1) [OF False r [symmetric] Inl True] r Inl False a show ?thesis
          by (simp add: WriteUnbuffered_loop.simps [of se name data])
      next
        case ne: False
        with "1.prems" r Inl False a have "s = PosixError se name e" "fd' = fd1"
          by (simp_all add: WriteUnbuffered_loop.simps [of se name data])
        with a not_ok_PosixError [of se name e] show ?thesis by (auto simp: ok_def)
      qed
    next
      case (Inr k)
      with r have a: "accepted fd1 = accepted fd @ take k data"
        by (auto simp: sys_write_def min_def split: list.splits write_event.splits)
      from "1.prems" r Inr False have "WriteUnbuffered_loop se name (drop k data) fd1 = (s, fd')"
        by (simp add: WriteUnbuffered_loop.simps [of se name data])
      with "1.IH"(2) [OF False r [symmetric] Inr] obtain u d where
        "drop k data = u @ d" "accepted fd' = accepted fd1 @ u" "s = OK \<longrightarrow> d = []" by blast
      with a show ?thesis
        using append_take_drop_id [of k data] by (intro exI [of _ "take k data @ u"] exI [of _ d]) simp
    qed
  qed
qed

definition wf_contents :: "posix_wfile \<Rightarrow> byte list" where
  "wf_contents f = accepted (wf_fd f) @ buf f"

definition wf_durable :: "posix_wfile \<Rightarrow> byte list" where
  "wf_durable f = accepted (wf_fd f)"

definition wf_inv :: "posix_wfile \<Rightarrow> bool" where
  "wf_inv f \<longleftrightarrow> length (buf f) \<le> kWritableFileBufferSize"

definition wf_clean :: "posix_wfile \<Rightarrow> bool" where
  "wf_clean f \<longleftrightarrow> buf f = []"

lemma WriteUnbuffered_prefix:
  "WriteUnbuffered se data f = (s, f') \<Longrightarrow> \<exists>a d. data = a @ d \<and> (s = OK \<longrightarrow> d = []) \<and>
     buf f' = buf f \<and> accepted (wf_fd f') = accepted (wf_fd f) @ a"
  by (auto simp: WriteUnbuffered_def dest!: WriteUnbuffered_loop_prefix split: prod.splits)

lemma FlushBuffer_prefix:
  assumes "FlushBuffer se f = (s, f')"
  shows "buf f' = [] \<and> (\<exists>d. wf_contents f = wf_contents f' @ d \<and> (s = OK \<longrightarrow> d = []))"
proof -
  obtain f1 where w: "WriteUnbuffered se (buf f) f = (s, f1)" and f': "f' = f1\<lparr>buf := []\<rparr>"
    using assms by (auto simp: FlushBuffer_def split: prod.splits)
  from WriteUnbuffered_prefix [OF w] obtain a d where "buf f = a @ d" "s = OK \<longrightarrow> d = []"
    "accepted (wf_fd f1) = accepted (wf_fd f) @ a" by blast
  then show ?thesis by (auto simp: f' wf_contents_def)
qed

lemma Append_prefix:
  assumes i: "wf_inv f" and A: "PosixWritableFile_Append se f data = (s, f')"
  shows "wf_inv f' \<and> (\<exists>d. wf_contents f @ data = wf_contents f' @ d \<and> (s = OK \<longrightarrow> d = []))"
proof -
  define c where "c = min (length data) (kWritableFileBufferSize - length (buf f))"
  define g where "g = f\<lparr>buf := buf f @ take c data\<rparr>"
  have split: "wf_contents f @ data = wf_contents g @ drop c data" by (simp add: wf_contents_def g_def)
  have gi: "wf_inv g" using i by (auto simp: wf_inv_def g_def c_def)
  have A: "(if length (drop c data) = 0 then (OK, g)
      else case FlushBuffer se g of (status, f) \<Rightarrow>
        if \<not> ok status then (status, f)
        else if length (drop c data) < kWritableFileBufferSize then (OK, f\<lparr>buf := drop c data\<rparr>)
        else WriteUnbuffered se (drop c data) f) = (s, f')"
    using A unfolding PosixWritableFile_Append_def Let_def c_def g_def .
  show ?thesis
  proof (cases "length (drop c data) = 0")
    case True
    then have "s = OK" "f' = g" "wf_contents f @ data = wf_contents g" using A split by simp_all
    with gi show ?thesis by simp
  next
    case False
    obtain s1 f1 where F: "FlushBuffer se g = (s1, f1)" by (cases "FlushBuffer se g")
    from FlushBuffer_prefix [OF F] obtain d where b: "buf f1 = []" and
      d: "wf_contents g = wf_contents f1 @ d" "s1 = OK \<longrightarrow> d = []" by blast
    have A': "(if \<not> ok s1 then (s1, f1)
        else if length (drop c data) < kWritableFileBufferSize then (OK, f1\<lparr>buf := drop c data\<rparr>)
        else WriteUnbuffered se (drop c data) f1) = (s, f')"
      using A unfolding F if_not_P [OF False] by simp
    show ?thesis
    proof (cases "ok s1")
      case False
      with A' have "s = s1" "f' = f1" by simp_all
      moreover have "wf_inv f1" using b by (simp add: wf_inv_def)
      ultimately show ?thesis using d split False by (simp add: ok_def)
    next
      case s1: True
      show ?thesis
      proof (cases "length (drop c data) < kWritableFileBufferSize")
        case True
        with A' s1 have f': "s = OK" "f' = f1\<lparr>buf := drop c data\<rparr>" by simp_all
        then have "wf_contents f' = wf_contents f1 @ drop c data" "wf_inv f'" using b True
          by (simp_all add: wf_contents_def wf_inv_def)
        with f'(1) s1 d split show ?thesis by (simp add: ok_def)
      next
        case False
        with A' s1 have "WriteUnbuffered se (drop c data) f1 = (s, f')" by simp
        from WriteUnbuffered_prefix [OF this] obtain a e where e: "drop c data = a @ e" "s = OK \<longrightarrow> e = []"
          "buf f' = buf f1" "accepted (wf_fd f') = accepted (wf_fd f1) @ a" by blast
        then have "wf_contents f' @ e = wf_contents f1 @ drop c data" "wf_inv f'" using b
          by (simp_all add: wf_contents_def wf_inv_def)
        with s1 d split e(2) show ?thesis by (intro conjI exI [of _ e]) (simp_all add: ok_def)
      qed
    qed
  qed
qed

lemma WriteUnbuffered_durable: "WriteUnbuffered se data f = (s, f') \<Longrightarrow> \<exists>d. wf_durable f' = wf_durable f @ d"
  by (drule WriteUnbuffered_prefix) (auto simp: wf_durable_def)

lemma FlushBuffer_durable: "FlushBuffer se f = (s, f') \<Longrightarrow> \<exists>d. wf_durable f' = wf_durable f @ d"
  by (auto simp: FlushBuffer_def wf_durable_def dest!: WriteUnbuffered_prefix split: prod.splits)

lemma Append_durable:
  assumes "PosixWritableFile_Append se f data = (s, f')"
  shows "\<exists>d. wf_durable f' = wf_durable f @ d"
proof -
  let ?c = "min (length data) (kWritableFileBufferSize - length (buf f))"
  let ?g = "f\<lparr>buf := buf f @ take ?c data\<rparr>"
  obtain s1 f1 where F: "FlushBuffer se ?g = (s1, f1)" by (cases "FlushBuffer se ?g")
  from FlushBuffer_durable [OF F] obtain d where d: "wf_durable f1 = wf_durable f @ d" by (auto simp: wf_durable_def)
  have "(if length (drop ?c data) = 0 then (OK, ?g)
      else if \<not> ok s1 then (s1, f1)
      else if length (drop ?c data) < kWritableFileBufferSize then (OK, f1\<lparr>buf := drop ?c data\<rparr>)
      else WriteUnbuffered se (drop ?c data) f1) = (s, f')"
    using assms unfolding PosixWritableFile_Append_def Let_def F prod.case .
  then show ?thesis
    using d WriteUnbuffered_durable [of se "drop ?c data" f1 s f']
    by (auto simp: wf_durable_def simp del: length_drop length_0_conv split: if_splits)
qed

interpretation pw: writable_file "posix_writable se" wf_contents wf_durable wf_inv wf_clean for se
proof (unfold_locales, goal_cases)
  case (1 f data f') then show ?case using Append_prefix [of f se data OK f'] by (auto simp: posix_writable_def)
next
  case (2 f data s f') then show ?case using Append_prefix [of f se data s f'] by (auto simp: posix_writable_def)
next
  case (3 f data s f') then show ?case using Append_prefix [of f se data s f'] by (auto simp: posix_writable_def)
next
  case (4 f f')
  then have "FlushBuffer se f = (OK, f')" by (simp add: posix_writable_def PosixWritableFile_Flush_def)
  from FlushBuffer_prefix [OF this] show ?case by (auto simp: wf_contents_def wf_durable_def)
next
  case (5 f s f')
  then have "FlushBuffer se f = (s, f')" by (simp add: posix_writable_def PosixWritableFile_Flush_def)
  from FlushBuffer_prefix [OF this] show ?case by (auto simp: wf_inv_def)
next
  case (6 f s f')
  then have "FlushBuffer se f = (s, f')" by (simp add: posix_writable_def PosixWritableFile_Flush_def)
  from FlushBuffer_prefix [OF this] show ?case by auto
next
  case (7 f) then show ?case by (simp add: wf_contents_def wf_durable_def)
next
  case (8 f data s f') then show ?case using Append_durable [of se f data s f'] by (simp add: posix_writable_def)
next
  case (9 f s f')
  then have "FlushBuffer se f = (s, f')" by (simp add: posix_writable_def PosixWritableFile_Flush_def)
  then show ?case by (rule FlushBuffer_durable)
next
  case (10 f s f')
  then have "FlushBuffer se f = (s, f')" by (simp add: posix_writable_def PosixWritableFile_Flush_def)
  from FlushBuffer_prefix [OF this] show ?case by (simp add: wf_clean_def)
next
  case (11 f data)
  then show ?case
    by (simp add: posix_writable_def PosixWritableFile_Append_def wf_clean_def kWritableFileBufferSize_def Let_def)
qed

definition rf_remaining :: "posix_rfile \<Rightarrow> byte list" where
  "rf_remaining f = drop (foffset (rf_fd f)) (fdata (rf_fd f))"

text \<open>Interruptions do no harm: \<open>Read\<close> tries again.\<close>

definition rf_calm :: "posix_rfile \<Rightarrow> bool" where
  "rf_calm f \<longleftrightarrow> set (revents (rf_fd f)) \<subseteq> {EINTR}"

lemma Read_loop_calm:
  "set (revents fd) \<subseteq> {EINTR} \<Longrightarrow>
     \<exists>bs fd'. PosixSequentialFile_Read_loop se name n fd = (OK, bs, fd') \<and> set (revents fd') \<subseteq> {EINTR}"
proof (induction "revents fd" arbitrary: fd)
  case Nil
  then show ?case by (simp add: PosixSequentialFile_Read_loop.simps [of se name n fd] sys_read_def Let_def)
next
  case (Cons e es)
  then have e: "e = EINTR" "set es \<subseteq> {EINTR}" by (metis insert_subset list.set(2) singletonD, metis insert_subset list.set(2))
  have "sys_read fd n = (Inl e, fd\<lparr>revents := es\<rparr>)" by (simp add: sys_read_def flip: Cons.hyps(2))
  with Cons.hyps(1) [of "fd\<lparr>revents := es\<rparr>"] e show ?case
    by (simp add: PosixSequentialFile_Read_loop.simps [of se name n fd])
qed

lemma Read_loop_eq:
  "PosixSequentialFile_Read_loop se name n fd = (s, bs, fd') \<Longrightarrow>
     fdata fd' = fdata fd \<and>
     (if ok s then bs = take n (drop (foffset fd) (fdata fd)) \<and> foffset fd' = foffset fd + length bs
      else foffset fd' = foffset fd)"
proof (induction se name n fd rule: PosixSequentialFile_Read_loop.induct)
  case (1 se name n fd)
  obtain r fd1 where r: "sys_read fd n = (r, fd1)" by (cases "sys_read fd n")
  show ?case
  proof (cases r)
    case (Inl e)
    with r have a: "fdata fd1 = fdata fd" "foffset fd1 = foffset fd"
      by (auto simp: sys_read_def Let_def split: list.splits)
    show ?thesis
    proof (cases "e = EINTR")
      case True
      with "1.prems" "1.IH" [OF r [symmetric] Inl True] r Inl a show ?thesis
        by (simp add: PosixSequentialFile_Read_loop.simps [of se name n fd])
    next
      case False
      with "1.prems" r Inl have "s = PosixError se name e" "fd' = fd1"
        by (simp_all add: PosixSequentialFile_Read_loop.simps [of se name n fd])
      with a show ?thesis by simp
    qed
  next
    case (Inr b)
    with r "1.prems" show ?thesis
      by (auto simp: PosixSequentialFile_Read_loop.simps [of se name n fd] sys_read_def Let_def split: list.splits)
  qed
qed

interpretation pr: sequential_file "posix_sequential se" rf_remaining rf_calm for se
proof (unfold_locales, goal_cases)
  case (1 g n bs g')
  then obtain fd where "PosixSequentialFile_Read_loop se (rf_name g) n (rf_fd g) = (OK, bs, fd)" "g' = g\<lparr>rf_fd := fd\<rparr>"
    by (auto simp: posix_sequential_def PosixSequentialFile_Read_def split: prod.splits)
  with Read_loop_eq [of se "rf_name g" n "rf_fd g" OK bs fd] show ?case
    by (auto simp: rf_remaining_def drop_drop min_def not_le add.commute)
next
  case (2 g n s bs g')
  then obtain fd where "PosixSequentialFile_Read_loop se (rf_name g) n (rf_fd g) = (s, bs, fd)" "g' = g\<lparr>rf_fd := fd\<rparr>"
    by (auto simp: posix_sequential_def PosixSequentialFile_Read_def split: prod.splits)
  with 2(2) Read_loop_eq [of se "rf_name g" n "rf_fd g" s bs fd] show ?case by (simp add: rf_remaining_def)
next
  case (3 g n)
  then show ?case using Read_loop_calm [of "rf_fd g" se "rf_name g" n]
    by (auto simp: posix_sequential_def PosixSequentialFile_Read_def rf_calm_def)
next
  case (4 g n g')
  then show ?case
    by (auto simp: posix_sequential_def PosixSequentialFile_Skip_def sys_lseek_cur_def rf_remaining_def PosixError_def
        NotFound_def IOError_def Status_new_def add.commute split: list.splits if_splits)
qed

end
