(* ===== verification/Coding.thy ===== *)
theory Coding
  imports Varint
begin

text \<open>
  The storage engine's byte coding (\<open>util/coding.cc\<close>, \<open>util/coding.h\<close>): fixed-width
  little-endian integers, varints of 32 and 64 bits and length-prefixed slices. A
  \<open>std::string\<close> and the range of a \<open>Slice\<close> are byte lists; an \<open>Encode\<close> routine returns the
  bytes it writes from \<open>dst\<close> on (the returned pointer is \<open>dst\<close> plus their number), a
  \<open>Get\<close> routine the value and the range that is left, \<open>None\<close> where the code returns
  \<open>nullptr\<close> or \<open>false\<close>. The target is little-endian (\<open>port::kLittleEndian\<close>).
\<close>

section \<open>Fixed-width integers\<close>

definition EncodeFixed32 :: "u32 \<Rightarrow> byte list" where
  "EncodeFixed32 value = le_bytes 4 value"

definition EncodeFixed64 :: "u64 \<Rightarrow> byte list" where
  "EncodeFixed64 value = le_bytes 8 value"

definition PutFixed32 :: "byte list \<Rightarrow> u32 \<Rightarrow> byte list" where
  "PutFixed32 dst value = dst @ EncodeFixed32 value"

definition PutFixed64 :: "byte list \<Rightarrow> u64 \<Rightarrow> byte list" where
  "PutFixed64 dst value = dst @ EncodeFixed64 value"

text \<open>The decoders read without a bounds check: fewer bytes are undefined behaviour.\<close>

definition DecodeFixed32 :: "byte list \<Rightarrow> u32 outcome" where
  "DecodeFixed32 p = (if length p < 4 then UB else Ret (le_word (take 4 p)))"

definition DecodeFixed64 :: "byte list \<Rightarrow> u64 outcome" where
  "DecodeFixed64 p = (if length p < 8 then UB else Ret (le_word (take 8 p)))"

section \<open>Varints\<close>

definition EncodeVarint32 :: "u32 \<Rightarrow> byte list" where
  "EncodeVarint32 v =
     (if v < push_bit 7 1 then [ucast v]
      else if v < push_bit 14 1 then [ucast (v OR 128), ucast (drop_bit 7 v)]
      else if v < push_bit 21 1 then
        [ucast (v OR 128), ucast (drop_bit 7 v OR 128), ucast (drop_bit 14 v)]
      else if v < push_bit 28 1 then
        [ucast (v OR 128), ucast (drop_bit 7 v OR 128), ucast (drop_bit 14 v OR 128), ucast (drop_bit 21 v)]
      else
        [ucast (v OR 128), ucast (drop_bit 7 v OR 128), ucast (drop_bit 14 v OR 128),
         ucast (drop_bit 21 v OR 128), ucast (drop_bit 28 v)])"

definition PutVarint32 :: "byte list \<Rightarrow> u32 \<Rightarrow> byte list" where
  "PutVarint32 dst v = dst @ EncodeVarint32 v"

lemma drop_bit_7_less: "128 \<le> v \<Longrightarrow> unat (drop_bit 7 v) < unat v" for v :: u64
  by (simp add: unat_drop_bit_eq drop_bit_eq_div unat_div word_le_nat_alt)

function EncodeVarint64 :: "u64 \<Rightarrow> byte list" where
  "EncodeVarint64 v =
     (if v \<ge> 128 then ucast (v OR 128) # EncodeVarint64 (drop_bit 7 v) else [ucast v])"
  by auto
termination
  by (relation "measure unat") (auto simp: drop_bit_7_less)

declare EncodeVarint64.simps [simp del]

definition PutVarint64 :: "byte list \<Rightarrow> u64 \<Rightarrow> byte list" where
  "PutVarint64 dst v = dst @ EncodeVarint64 v"

function VarintLength_loop :: "u64 \<Rightarrow> nat \<Rightarrow> nat" where
  "VarintLength_loop v len = (if v \<ge> 128 then VarintLength_loop (drop_bit 7 v) (len + 1) else len)"
  by auto
termination
  by (relation "measure (unat \<circ> fst)") (auto simp: drop_bit_7_less)

declare VarintLength_loop.simps [simp del]

definition VarintLength :: "u64 \<Rightarrow> nat" where
  "VarintLength v = VarintLength_loop v 1"

fun GetVarint32PtrFallback_loop :: "nat \<Rightarrow> u32 \<Rightarrow> byte list \<Rightarrow> (u32 \<times> byte list) option" where
  "GetVarint32PtrFallback_loop shift result [] = None"
| "GetVarint32PtrFallback_loop shift result (b # p) =
     (if shift \<le> 28 then
        let byte = ucast b in
        if byte AND 128 \<noteq> 0
        then GetVarint32PtrFallback_loop (shift + 7) (result OR push_bit shift (byte AND 127)) p
        else Some (result OR push_bit shift byte, p)
      else None)"

definition GetVarint32PtrFallback :: "byte list \<Rightarrow> (u32 \<times> byte list) option" where
  "GetVarint32PtrFallback p = GetVarint32PtrFallback_loop 0 0 p"

definition GetVarint32Ptr :: "byte list \<Rightarrow> (u32 \<times> byte list) option" where
  "GetVarint32Ptr p =
     (case p of
        b # q \<Rightarrow> if (ucast b :: u32) AND 128 = 0 then Some (ucast b, q) else GetVarint32PtrFallback p
      | [] \<Rightarrow> GetVarint32PtrFallback p)"

definition GetVarint32 :: "byte list \<Rightarrow> (u32 \<times> byte list) option" where
  "GetVarint32 input = GetVarint32Ptr input"

fun GetVarint64Ptr_loop :: "nat \<Rightarrow> u64 \<Rightarrow> byte list \<Rightarrow> (u64 \<times> byte list) option" where
  "GetVarint64Ptr_loop shift result [] = None"
| "GetVarint64Ptr_loop shift result (b # p) =
     (if shift \<le> 63 then
        let byte = ucast b in
        if byte AND 128 \<noteq> 0
        then GetVarint64Ptr_loop (shift + 7) (result OR push_bit shift (byte AND 127)) p
        else Some (result OR push_bit shift byte, p)
      else None)"

definition GetVarint64Ptr :: "byte list \<Rightarrow> (u64 \<times> byte list) option" where
  "GetVarint64Ptr p = GetVarint64Ptr_loop 0 0 p"

definition GetVarint64 :: "byte list \<Rightarrow> (u64 \<times> byte list) option" where
  "GetVarint64 input = GetVarint64Ptr input"

section \<open>Length-prefixed slices\<close>

definition PutLengthPrefixedSlice :: "byte list \<Rightarrow> byte list \<Rightarrow> byte list" where
  "PutLengthPrefixedSlice dst value = PutVarint32 dst (of_nat (length value)) @ value"

text \<open>The two overloads: on a pointer range, and on a \<open>Slice\<close> that is advanced.\<close>

definition GetLengthPrefixedSlice_ptr :: "byte list \<Rightarrow> (byte list \<times> byte list) option" where
  "GetLengthPrefixedSlice_ptr p =
     (case GetVarint32Ptr p of
        None \<Rightarrow> None
      | Some (len, p) \<Rightarrow> if unat len > length p then None else Some (take (unat len) p, drop (unat len) p))"

definition GetLengthPrefixedSlice :: "byte list \<Rightarrow> (byte list \<times> byte list) option" where
  "GetLengthPrefixedSlice input =
     (case GetVarint32 input of
        Some (len, input) \<Rightarrow>
          if length input \<ge> unat len then Some (take (unat len) input, drop (unat len) input) else None
      | None \<Rightarrow> None)"

section \<open>Varints are base 128\<close>

lemma low_byte_or_128: "(ucast v OR 128 :: byte) = of_nat (unat v mod 128 + 128)" for v :: "'n::len word"
proof -
  have "of_nat (unat v mod 128) = (take_bit 7 (ucast v) :: byte)"
    using take_bit_of_nat [of 7 "unat v", where 'a = byte] of_nat_unat [of v, where 'a = byte] by (simp add: take_bit_eq_mod)
  then have "of_nat (unat v mod 128 + 128) = (take_bit 7 (ucast v) OR 128 :: byte)"
    using set_top_bit [of "unat v mod 128"] by simp
  also have "\<dots> = ucast v OR 128"
  proof (rule bit_word_eqI)
    fix i assume "i < LENGTH(8)"
    then have "i = 7 \<or> i < 7" by (simp, linarith)
    then show "bit (take_bit 7 (ucast v) OR 128 :: byte) i = bit (ucast v OR 128 :: byte) i"
      using bit_0x80 [of i] by (auto simp: bit_or_iff bit_take_bit_iff)
  qed
  finally show ?thesis ..
qed

lemma ucast_or_128 [simp]:
  "(ucast (v OR 128) :: byte) = of_nat (unat v mod 128 + 128)"
  "(ucast (w OR 128) :: byte) = of_nat (unat w mod 128 + 128)" for v :: u32 and w :: u64
  using low_byte_or_128 [of v] low_byte_or_128 [of w] by (simp_all add: unsigned_or_eq)

lemma EncodeVarint64_eq: "EncodeVarint64 v = varint (unat v)"
proof (induction v rule: EncodeVarint64.induct)
  case (1 v)
  show ?case
  proof (cases "128 \<le> v")
    case True
    then have n: "128 \<le> unat v" by (simp add: word_le_nat_alt)
    have "unat (drop_bit 7 v) = unat v div 128" by (simp add: drop_bit_eq_div unat_div)
    with True 1 show ?thesis
      by (simp add: EncodeVarint64.simps [of v] varint_big [OF n] del: of_nat_add)
  next
    case False
    then have n: "unat v < 128" by (simp add: word_le_nat_alt)
    with False of_nat_unat [of v, where 'a = byte] show ?thesis by (simp add: EncodeVarint64.simps [of v] varint_small)
  qed
qed

text \<open>The unrolled encoder for 32 bits, one branch per length.\<close>

lemma varint_digit:
  fixes v :: u32
  shows varint_last_digit: "unat v < 2 ^ (k + 7) \<Longrightarrow> varint (unat v div 2 ^ k) = [ucast (drop_bit k v)]"
    and varint_next_digit: "2 ^ (k + 7) \<le> unat v \<Longrightarrow>
      varint (unat v div 2 ^ k) = ucast (drop_bit k v OR 128) # varint (unat v div 2 ^ (k + 7))"
proof -
  have d: "unat (drop_bit k v) = unat v div 2 ^ k" unfolding unat_drop_bit_eq by (rule drop_bit_eq_div)
  have m: "(2 :: nat) ^ (k + 7) = 2 ^ k * 128" by (simp add: power_add)
  show "varint (unat v div 2 ^ k) = [ucast (drop_bit k v)]" if "unat v < 2 ^ (k + 7)"
  proof -
    have "unat v div 2 ^ k < 128" using that unfolding m by (simp add: less_mult_imp_div_less mult.commute)
    then show ?thesis using of_nat_unat [of "drop_bit k v", where 'a = byte] by (simp add: varint_small d)
  qed
  show "varint (unat v div 2 ^ k) = ucast (drop_bit k v OR 128) # varint (unat v div 2 ^ (k + 7))"
    if "2 ^ (k + 7) \<le> unat v"
  proof -
    have "128 \<le> unat v div 2 ^ k" using that unfolding m by (simp add: less_eq_div_iff_mult_less_eq mult.commute)
    then show ?thesis by (simp add: varint_big d m div_mult2_eq del: of_nat_add)
  qed
qed

lemma EncodeVarint32_eq: "EncodeVarint32 v = varint (unat v)"
proof -
  have lt: "v < push_bit 7 1 \<longleftrightarrow> unat v < 2 ^ 7" "v < push_bit 14 1 \<longleftrightarrow> unat v < 2 ^ 14"
    "v < push_bit 21 1 \<longleftrightarrow> unat v < 2 ^ 21" "v < push_bit 28 1 \<longleftrightarrow> unat v < 2 ^ 28"
    by (simp_all add: word_less_nat_alt push_bit_eq_mult)
  have "unat v < 2 ^ (28 + 7)" using unsigned_less [of v, where 'a = nat] by simp
  note last = varint_last_digit [of v 0] varint_last_digit [of v 7] varint_last_digit [of v 14]
    varint_last_digit [of v 21] varint_last_digit [OF this]
  note cont = varint_next_digit [of 0 v] varint_next_digit [of 7 v] varint_next_digit [of 14 v] varint_next_digit [of 21 v]
  show ?thesis
    unfolding EncodeVarint32_def lt
    using last cont by (simp add: not_less del: ucast_or_128)
qed

section \<open>Reading varints back\<close>

text \<open>The decoder widens a byte before it masks it.\<close>

lemma widen_mask:
  "(ucast b :: u32) AND 128 = 0 \<longleftrightarrow> b AND 128 = 0" "(ucast b :: u32) AND 127 = ucast (b AND 127)"
  "(ucast b :: u64) AND 128 = 0 \<longleftrightarrow> b AND 128 = 0" "(ucast b :: u64) AND 127 = ucast (b AND 127)"
  for b :: byte
proof -
  have e32: "(ucast b :: u32) AND 128 = ucast (b AND 128)" and e64: "(ucast b :: u64) AND 128 = ucast (b AND 128)"
    by (simp_all add: unsigned_and_eq)
  have z32: "(ucast x :: u32) = 0 \<longleftrightarrow> x = 0" and z64: "(ucast x :: u64) = 0 \<longleftrightarrow> x = 0" for x :: byte
    using unat_ucast_up [of x, where 'm = 32] unat_ucast_up [of x, where 'm = 64] by (auto simp: unat_eq_zero)
  show "(ucast b :: u32) AND 128 = 0 \<longleftrightarrow> b AND 128 = 0" "(ucast b :: u64) AND 128 = 0 \<longleftrightarrow> b AND 128 = 0"
    unfolding e32 e64 z32 z64 by simp_all
  show "(ucast b :: u32) AND 127 = ucast (b AND 127)" "(ucast b :: u64) AND 127 = ucast (b AND 127)"
    by (simp_all add: unsigned_and_eq)
qed

lemma widen_last:
  assumes "m < 128"
  shows "(ucast (of_nat m :: byte) :: u32) AND 128 = 0" "(ucast (of_nat m :: byte) :: u64) AND 128 = 0"
  unfolding widen_mask top_bit_last [OF assms, simplified] by simp_all

lemma GetVarint64Ptr_loop_varint:
  "k < 64 \<Longrightarrow> unat r < 2 ^ k \<Longrightarrow> n * 2 ^ k < 2 ^ 64 \<Longrightarrow>
     GetVarint64Ptr_loop k r (varint n @ rest) = Some (r + of_nat (n * 2 ^ k), rest)"
proof (induction n arbitrary: k r rule: varint.induct)
  case (1 n)
  note acc = accumulate [OF "1.prems"(2), where n = n]
  show ?case
  proof (cases "n < 128")
    case True
    then show ?thesis using acc(1) [of n] "1.prems"
      widen_last [OF True]
      by (simp add: varint_small ucast_byte_of_nat del: of_nat_mult)
  next
    case False
    let ?m = "n mod 128" and ?q = "n div 128" and ?r = "r + of_nat (n mod 128 * 2 ^ k)"
    have k7: "k + 7 < 64" using cont_room [of n k 64] False "1.prems" by simp
    have ur: "unat ?r = unat r + ?m * 2 ^ k" using acc(2) [of ?m] "1.prems" by simp
    have "unat ?r < 2 ^ (k + 7)" unfolding ur using "1.prems"(2) by (rule accumulate_bound)
    moreover note qk = split_128 [of n k]
    ultimately have IH: "GetVarint64Ptr_loop (k + 7) ?r (varint ?q @ rest) = Some (?r + of_nat (?q * 2 ^ (k + 7)), rest)"
      using "1.IH" [OF False, of "k + 7" ?r] "1.prems"(3) k7 by linarith
    have "?r + of_nat (?q * 2 ^ (k + 7)) = r + of_nat (n * 2 ^ k)"
      unfolding qk [symmetric] of_nat_add by (simp add: add_ac)
    with IH show ?thesis
      using acc(1) [of ?m] "1.prems"
      by (simp add: varint_big [OF leI [OF False]] widen_mask top_bit_cont low7_cont del: of_nat_mult of_nat_add)
  qed
qed

lemma GetVarint32PtrFallback_loop_varint:
  "k < 32 \<Longrightarrow> unat r < 2 ^ k \<Longrightarrow> n * 2 ^ k < 2 ^ 32 \<Longrightarrow> 7 dvd k \<Longrightarrow>
     GetVarint32PtrFallback_loop k r (varint n @ rest) = Some (r + of_nat (n * 2 ^ k), rest)"
proof (induction n arbitrary: k r rule: varint.induct)
  case (1 n)
  note acc = accumulate [OF "1.prems"(2), where n = n]
  have k28: "k \<le> 28" using "1.prems"(1,4) by (auto elim!: dvdE)
  show ?case
  proof (cases "n < 128")
    case True
    then show ?thesis using acc(1) [of n] "1.prems" k28
      widen_last [OF True]
      by (simp add: varint_small ucast_byte_of_nat del: of_nat_mult)
  next
    case False
    let ?m = "n mod 128" and ?q = "n div 128" and ?r = "r + of_nat (n mod 128 * 2 ^ k)"
    have k7: "k + 7 < 32" using cont_room [of n k 32] False "1.prems" by simp
    have ur: "unat ?r = unat r + ?m * 2 ^ k" using acc(2) [of ?m] "1.prems" by simp
    have "unat ?r < 2 ^ (k + 7)" unfolding ur using "1.prems"(2) by (rule accumulate_bound)
    moreover note qk = split_128 [of n k]
    moreover have "7 dvd k + 7" using "1.prems"(4) by simp
    ultimately have IH: "GetVarint32PtrFallback_loop (k + 7) ?r (varint ?q @ rest) = Some (?r + of_nat (?q * 2 ^ (k + 7)), rest)"
      using "1.IH" [OF False, of "k + 7" ?r] "1.prems"(3) k7 by linarith
    have "?r + of_nat (?q * 2 ^ (k + 7)) = r + of_nat (n * 2 ^ k)"
      unfolding qk [symmetric] of_nat_add by (simp add: add_ac)
    with IH show ?thesis
      using acc(1) [of ?m] "1.prems" k28
      by (simp add: varint_big [OF leI [OF False]] widen_mask top_bit_cont low7_cont del: of_nat_mult of_nat_add)
  qed
qed

lemma GetVarint64_varint: "GetVarint64 (varint (unat v) @ rest) = Some (v, rest)"
  using GetVarint64Ptr_loop_varint [of 0 0 "unat v" rest] unsigned_less [of v, where 'a = nat]
  by (simp add: GetVarint64_def GetVarint64Ptr_def)

lemma GetVarint32_varint: "GetVarint32 (varint (unat v) @ rest) = Some (v, rest)"
proof (cases "unat v < 128")
  case True
  then show ?thesis
    using widen_last(1) [OF True] ucast_byte_of_nat [of "unat v", where 'n = 32]
    by (simp add: GetVarint32_def GetVarint32Ptr_def varint_small)
next
  case False
  have "GetVarint32PtrFallback (varint (unat v) @ rest) = Some (v, rest)"
    using GetVarint32PtrFallback_loop_varint [of 0 0 "unat v" rest] unsigned_less [of v, where 'a = nat]
    by (simp add: GetVarint32PtrFallback_def)
  then show ?thesis
    using False
    by (simp add: GetVarint32_def GetVarint32Ptr_def varint_big widen_mask top_bit_cont del: of_nat_add)
qed

lemma GetLengthPrefixedSlice_eq: "GetLengthPrefixedSlice p = GetLengthPrefixedSlice_ptr p"
  by (auto simp: GetLengthPrefixedSlice_def GetLengthPrefixedSlice_ptr_def GetVarint32_def split: option.splits)

lemma PutLengthPrefixedSlice_eq:
  "length value < 2 ^ 32 \<Longrightarrow> PutLengthPrefixedSlice dst value = dst @ varint (length value) @ value"
  by (simp add: PutLengthPrefixedSlice_def PutVarint32_def EncodeVarint32_eq)

lemma GetLengthPrefixedSlice_varint:
  "length value < 2 ^ 32 \<Longrightarrow> GetLengthPrefixedSlice (varint (length value) @ value @ rest) = Some (value, rest)"
  using GetVarint32_varint [of "of_nat (length value)" "value @ rest"] by (simp add: GetLengthPrefixedSlice_def)

lemma DecodeFixed_Encode [simp]:
  "DecodeFixed32 (EncodeFixed32 v @ rest) = Ret v" "DecodeFixed64 (EncodeFixed64 w @ rest) = Ret w"
  by (simp_all add: DecodeFixed32_def DecodeFixed64_def EncodeFixed32_def EncodeFixed64_def le_word_le_bytes)

lemma length_EncodeFixed [simp]: "length (EncodeFixed32 v) = 4" "length (EncodeFixed64 w) = 8"
  by (simp_all add: EncodeFixed32_def EncodeFixed64_def)

lemma VarintLength_loop_eq: "VarintLength_loop v len = len + length (EncodeVarint64 v) - 1"
proof (induction v len rule: VarintLength_loop.induct)
  case (1 v len)
  have "0 < length (EncodeVarint64 w)" for w by (simp add: EncodeVarint64_eq)
  with 1 show ?case
    by (simp add: VarintLength_loop.simps [of v len] EncodeVarint64.simps [of v])
qed

text \<open>Whatever the bytes are, a reader only ever advances inside the range it was given.\<close>

lemma GetVarint32PtrFallback_loop_suffix:
  "GetVarint32PtrFallback_loop k r p = Some (v, q) \<Longrightarrow> \<exists>u. p = u @ q \<and> u \<noteq> [] \<and> k + 7 * length u \<le> 35"
proof (induction k r p rule: GetVarint32PtrFallback_loop.induct)
  case (2 k r b p)
  show ?case
  proof (cases "(ucast b :: u32) AND 128 = 0")
    case True
    with "2.prems" show ?thesis by (intro exI [of _ "[b]"]) (auto simp: Let_def split: if_splits)
  next
    case False
    with 2 obtain u where "p = u @ q" "k + 7 + 7 * length u \<le> 35" by (auto simp: Let_def split: if_splits)
    then show ?thesis by (intro exI [of _ "b # u"]) simp
  qed
qed simp

lemma GetVarint64Ptr_loop_suffix:
  "GetVarint64Ptr_loop k r p = Some (v, q) \<Longrightarrow> \<exists>u. p = u @ q \<and> u \<noteq> [] \<and> k + 7 * length u \<le> 70"
proof (induction k r p rule: GetVarint64Ptr_loop.induct)
  case (2 k r b p)
  show ?case
  proof (cases "(ucast b :: u64) AND 128 = 0")
    case True
    with "2.prems" show ?thesis by (intro exI [of _ "[b]"]) (auto simp: Let_def split: if_splits)
  next
    case False
    with 2 obtain u where "p = u @ q" "k + 7 + 7 * length u \<le> 70" by (auto simp: Let_def split: if_splits)
    then show ?thesis by (intro exI [of _ "b # u"]) simp
  qed
qed simp

lemma GetVarint32_suffix: "GetVarint32 p = Some (v, q) \<Longrightarrow> \<exists>u. p = u @ q \<and> u \<noteq> [] \<and> length u \<le> 5"
  using GetVarint32PtrFallback_loop_suffix [of 0 0 p v q]
  by (fastforce simp: GetVarint32_def GetVarint32Ptr_def GetVarint32PtrFallback_def split: list.splits if_splits)

lemma GetVarint64_suffix: "GetVarint64 p = Some (v, q) \<Longrightarrow> \<exists>u. p = u @ q \<and> u \<noteq> [] \<and> length u \<le> 10"
  using GetVarint64Ptr_loop_suffix [of 0 0 p v q] by (fastforce simp: GetVarint64_def GetVarint64Ptr_def)

lemma GetLengthPrefixedSlice_suffix:
  assumes "GetLengthPrefixedSlice p = Some (r, q)"
  shows "\<exists>u. p = u @ r @ q \<and> u \<noteq> [] \<and> length u \<le> 5"
proof -
  from assms obtain len i where g: "GetVarint32 p = Some (len, i)" "r @ q = i"
    by (auto simp: GetLengthPrefixedSlice_def split: option.splits if_splits)
  with GetVarint32_suffix [OF g(1)] show ?thesis by auto
qed

lemmas coding_bounds = GetVarint32_suffix GetVarint64_suffix GetLengthPrefixedSlice_suffix

section \<open>Properties\<close>

text \<open>
  C16: varints of both widths survive the round trip whatever follows them, take at most five
  and ten bytes, and \<open>VarintLength\<close> predicts their length.
\<close>

theorem coding_varint_round_trip:
  "GetVarint32 (PutVarint32 [] v @ rest) = Some (v, rest) \<and> GetVarint64 (PutVarint64 [] w @ rest) = Some (w, rest) \<and>
   length (EncodeVarint32 v) \<le> 5 \<and> length (EncodeVarint64 w) \<le> 10 \<and> VarintLength w = length (EncodeVarint64 w)"
proof -
  have "length (varint (unat v)) \<le> 5" using unsigned_less [of v, where 'a = nat] by (intro length_varint) auto
  moreover have "length (varint (unat w)) \<le> 10" using unsigned_less [of w, where 'a = nat] by (intro length_varint) auto
  ultimately show ?thesis
    using VarintLength_loop_eq [of w 1]
    by (simp add: PutVarint32_def PutVarint64_def EncodeVarint32_eq EncodeVarint64_eq GetVarint32_varint GetVarint64_varint VarintLength_def)
qed

text \<open>
  A length-prefixed slice shorter than four gigabytes survives the round trip through
  either overload of \<open>GetLengthPrefixedSlice\<close>, and the input is left right behind it.
\<close>

theorem length_prefixed_round_trip:
  assumes "length value < 2 ^ 32"
  shows "PutLengthPrefixedSlice dst value @ rest = dst @ PutLengthPrefixedSlice [] value @ rest \<and>
    GetLengthPrefixedSlice (PutLengthPrefixedSlice [] value @ rest) = Some (value, rest) \<and>
    GetLengthPrefixedSlice_ptr (PutLengthPrefixedSlice [] value @ rest) = Some (value, rest)"
  using GetLengthPrefixedSlice_varint [OF assms, of rest] PutLengthPrefixedSlice_eq [OF assms]
  by (simp flip: GetLengthPrefixedSlice_eq)

theorem length_prefixed_round_trip_witness:
  "PutLengthPrefixedSlice [9] [1, 2, 3] @ [7] = [9] @ PutLengthPrefixedSlice [] [1, 2, 3] @ [7] \<and>
    GetLengthPrefixedSlice (PutLengthPrefixedSlice [] [1, 2, 3] @ [7]) = Some ([1, 2, 3], [7]) \<and>
    GetLengthPrefixedSlice_ptr (PutLengthPrefixedSlice [] [1, 2, 3] @ [7]) = Some ([1, 2, 3], [7])"
  by (rule length_prefixed_round_trip) simp

text \<open>
  The parsers stay inside the range they are given on every input: a successful parse
  returns a true suffix of it, behind at most five (32 bits, length prefixes) or ten (64 bits)
  bytes, and a slice that lies in the range.
\<close>

theorem coding_parsers_bounded:
  "(\<forall>v q. GetVarint32 p = Some (v, q) \<longrightarrow> (\<exists>u. p = u @ q \<and> u \<noteq> [] \<and> length u \<le> 5)) \<and>
   (\<forall>v q. GetVarint64 p = Some (v, q) \<longrightarrow> (\<exists>u. p = u @ q \<and> u \<noteq> [] \<and> length u \<le> 10)) \<and>
   (\<forall>r q. GetLengthPrefixedSlice p = Some (r, q) \<longrightarrow> (\<exists>u. p = u @ r @ q \<and> u \<noteq> [] \<and> length u \<le> 5))"
  using coding_bounds by blast

theorem coding_parsers_bounded_witness:
  "GetVarint64 [0x96, 1, 5] = Some (150, [5]) \<and> (\<exists>u. [0x96, 1, 5 :: byte] = u @ [5] \<and> u \<noteq> [] \<and> length u \<le> 10)"
proof -
  have "GetVarint64 [0x96, 1, 5] = Some (150, [5])" by code_simp
  then show ?thesis using coding_parsers_bounded [of "[0x96, 1, 5]"] by blast
qed

section \<open>Concatenated parts\<close>

text \<open>
  Data that is the concatenation of parts, with an array of 32-bit offsets: shared by the
  blocks of a table, which end in an array of restart points or of filter offsets.
\<close>

text \<open>Where the \<open>i\<close>-th part starts.\<close>

definition part :: "'a list list \<Rightarrow> nat \<Rightarrow> nat" where
  "part xs i = length (concat (take i xs))"

lemma part_0 [simp]: "part xs 0 = 0"
  by (simp add: part_def)

lemma part_append: "i \<le> length xs \<Longrightarrow> part (xs @ ys) i = part xs i"
  by (simp add: part_def)

lemma part_length: "part xs (length xs) = length (concat xs)"
  by (simp add: part_def)

lemma part_Suc: "i < length xs \<Longrightarrow> part xs (Suc i) = part xs i + length (xs ! i)"
  by (simp add: part_def take_Suc_conv_app_nth)

lemma part_mono: "i \<le> j \<Longrightarrow> part xs i \<le> part xs j"
proof -
  assume "i \<le> j"
  then have "take j xs = take i xs @ drop i (take j xs)" by (metis append_take_drop_id min.absorb1 take_take)
  then show ?thesis unfolding part_def by (metis concat_append le_add1 length_append)
qed

lemma part_slice:
  assumes "i < length xs"
  shows "take (part xs (Suc i) - part xs i) (drop (part xs i) (concat xs)) = xs ! i"
proof -
  have "concat xs = concat (take i xs) @ xs ! i @ concat (drop (Suc i) xs)"
    using assms by (metis concat.simps(2) concat_append id_take_nth_drop)
  moreover have "part xs (Suc i) - part xs i = length (xs ! i)" using assms by (simp add: part_Suc)
  ultimately show ?thesis by (simp add: part_def)
qed

lemma parts_snoc: "map (part (xs @ [x])) [0..<length (xs @ [x])] = map (part xs) [0..<length xs] @ [length (concat xs)]"
  by (simp add: part_append part_length)

lemma foldl_PutFixed32: "foldl PutFixed32 r os = r @ concat (map EncodeFixed32 os)"
  by (induction os arbitrary: r) (simp_all add: PutFixed32_def)

lemma decode_array:
  assumes "i < length os"
  shows "DecodeFixed32 (drop (length r + i * 4) (r @ concat (map EncodeFixed32 os) @ z)) = Ret (os ! i)"
proof -
  have "os = take i os @ os ! i # drop (Suc i) os" using assms by (simp add: id_take_nth_drop)
  then have "concat (map EncodeFixed32 os) = concat (map EncodeFixed32 (take i os)) @ EncodeFixed32 (os ! i) @ concat (map EncodeFixed32 (drop (Suc i) os))"
    by (metis concat.simps(2) concat_append list.simps(9) map_append)
  moreover have "length (concat (map EncodeFixed32 xs)) = length xs * 4" for xs
    by (induction xs) (simp_all add: EncodeFixed32_def)
  ultimately show ?thesis using assms by simp
qed

end
