(* ===== verification/Crc_Algebra.thy ===== *)
theory Crc_Algebra
  imports Varint
begin

text \<open>
  The algebra behind table-driven CRC: one bit step of CRC-32C is linear over exclusive or,
  so that a 256-entry table is determined by eight of its entries, and a word can be advanced
  byte by byte.
\<close>

section \<open>Reference: the bit-serial CRC\<close>

definition crc_bit :: "u32 \<Rightarrow> u32" where
  "crc_bit l = (if bit l 0 then drop_bit 1 l XOR 0x82f63b78 else drop_bit 1 l)"

definition crc_byte :: "u32 \<Rightarrow> byte \<Rightarrow> u32" where
  "crc_byte l b = (crc_bit ^^ 8) (l XOR ucast b)"

lemma crc_bit_xor: "crc_bit (a XOR b) = crc_bit a XOR crc_bit b"
  by (auto simp: crc_bit_def bit_xor_iff drop_bit_xor ac_simps)

lemma crc_bits_xor: "(crc_bit ^^ n) (a XOR b) = (crc_bit ^^ n) a XOR (crc_bit ^^ n) b"
  by (induction n) (simp_all add: crc_bit_xor)

lemma crc_bits_0 [simp]: "(crc_bit ^^ n) 0 = 0"
  by (induction n) (simp_all add: crc_bit_def)

lemma crc_bits_low: "take_bit n x = 0 \<Longrightarrow> (crc_bit ^^ n) x = drop_bit n x"
proof (induction n)
  case (Suc n)
  have z: "\<not> bit x i" if "i < Suc n" for i using Suc.prems that by (metis bit_0_eq bit_take_bit_iff bot_apply bot_boolE)
  have "take_bit n x = 0" by (rule bit_word_eqI) (use z in \<open>auto simp: bit_take_bit_iff\<close>)
  with Suc.IH z [of n] show ?case by (simp add: crc_bit_def bit_drop_bit_eq ac_simps)
qed simp

section \<open>Linear tables\<close>

text \<open>The table of a linear map, from its values at the powers of two, highest first.\<close>

fun lin_table :: "u32 list \<Rightarrow> u32 list" where
  "lin_table [] = [0]"
| "lin_table (b # bs) = lin_table bs @ map (\<lambda>x. x XOR b) (lin_table bs)"

fun basis :: "(u32 \<Rightarrow> u32) \<Rightarrow> nat \<Rightarrow> u32 list" where
  "basis f 0 = []"
| "basis f (Suc n) = f (2 ^ n) # basis f n"

lemma length_lin_table [simp]: "length (lin_table bs) = 2 ^ length bs"
  by (induction bs) simp_all

lemma length_basis [simp]: "length (basis f n) = n"
  by (induction n) simp_all

lemma lin_table_nth:
  assumes lin: "\<And>a b. f (a XOR b) = f a XOR f b"
  shows "n \<le> 32 \<Longrightarrow> i < 2 ^ n \<Longrightarrow> lin_table (basis f n) ! i = f (of_nat i)"
proof (induction n arbitrary: i)
  case 0
  have "f 0 = 0" using lin [of 0 0] by simp
  with 0 show ?case by simp
next
  case (Suc n)
  show ?case
  proof (cases "i < 2 ^ n")
    case True
    with Suc show ?thesis by (simp add: nth_append)
  next
    case False
    define j where "j = i - 2 ^ n"
    have j: "j < 2 ^ n" "i = j + 2 ^ n" using False Suc.prems by (auto simp: j_def)
    have u: "unat (of_nat j :: u32) < 2 ^ n"
      using j(1) by (metis unat_of_nat take_bit_eq_mod take_bit_nat_less_eq_self le_less_trans mod_less_eq_dividend)
    have "of_nat j AND push_bit n (1 :: u32) = 0" using low_and_push [OF u] .
    then have "(of_nat i :: u32) = of_nat j XOR 2 ^ n"
      by (simp add: j(2) disjunctive_add_eq_xor push_bit_eq_mult)
    with Suc j show ?thesis by (simp add: nth_append lin)
  qed
qed

lemma basis_cong: "(\<And>j. j < n \<Longrightarrow> f (2 ^ j) = g j) \<Longrightarrow> basis f n = map g (rev [0..<n])"
  by (induction n) simp_all

definition advance :: "nat \<Rightarrow> nat \<Rightarrow> u32 \<Rightarrow> u32" where
  "advance n m x = (crc_bit ^^ n) (push_bit m x)"

lemma advance_xor: "advance n m (a XOR b) = advance n m a XOR advance n m b"
  by (simp add: advance_def push_bit_xor crc_bits_xor)

section \<open>Table look-up\<close>

lemma table_entry:
  "unat x < 256 \<Longrightarrow> lin_table (basis (advance n m) 8) ! unat x = advance n m x"
  using lin_table_nth [where f = "advance n m" and n = 8 and i = "unat x"] by (simp add: advance_xor)

lemma and_ff: "x AND 0xff = take_bit 8 x" for x :: u32
  by (simp add: take_bit_eq_mask mask_eq_exp_minus_1)

lemma low_byte_bound: "unat (x AND 0xff :: u32) < 256"
  by (simp add: and_ff take_bit_eq_mod unat_mod)

lemma high_byte_bound: "unat (drop_bit 24 x :: u32) < 256"
proof -
  have "unat (drop_bit 24 x) = unat x div 2 ^ 24" unfolding unat_drop_bit_eq by (rule drop_bit_eq_div)
  then show ?thesis using unsigned_less [of x, where 'a = nat] by (simp add: less_mult_imp_div_less)
qed

text \<open>Eight bit steps: the low byte goes through the table, the rest is shifted.\<close>

lemma byte_step: "advance 8 0 (x AND 0xff) XOR drop_bit 8 x = (crc_bit ^^ 8) x"
proof -
  have x: "x = (x AND 0xff) XOR push_bit 8 (drop_bit 8 x)"
    by (rule bit_word_eqI) (auto simp: and_ff bit_xor_iff bit_take_bit_iff bit_push_bit_iff bit_drop_bit_eq)
  have t: "take_bit 8 (push_bit 8 (drop_bit 8 x)) = 0" by (rule bit_word_eqI) (auto simp: bit_take_bit_iff bit_push_bit_iff)
  have d: "drop_bit 8 (push_bit 8 (drop_bit 8 x)) = drop_bit 8 x"
    by (rule bit_word_eqI) (auto simp: bit_push_bit_iff bit_drop_bit_eq dest: bit_imp_le_length)
  have "(crc_bit ^^ 8) x = (crc_bit ^^ 8) (x AND 0xff) XOR (crc_bit ^^ 8) (push_bit 8 (drop_bit 8 x))"
    by (subst x) (rule crc_bits_xor)
  then show ?thesis by (simp add: crc_bits_low [OF t] d advance_def)
qed

lemma word_split: "x = (x AND 0xff) XOR push_bit 8 (drop_bit 8 x AND 0xff) XOR push_bit 16 (drop_bit 16 x AND 0xff) XOR
    push_bit 24 (drop_bit 24 x)" for x :: u32
proof (rule bit_word_eqI)
  fix i assume "i < LENGTH(32)"
  then consider "i < 8" | "8 \<le> i" "i < 16" | "16 \<le> i" "i < 24" | "24 \<le> i" "i < 32" by fastforce
  then show "bit x i = bit ((x AND 0xff) XOR push_bit 8 (drop_bit 8 x AND 0xff) XOR push_bit 16 (drop_bit 16 x AND 0xff) XOR
    push_bit 24 (drop_bit 24 x)) i"
    by cases (auto simp: and_ff bit_xor_iff bit_take_bit_iff bit_push_bit_iff bit_drop_bit_eq)
qed

lemma word_step:
  "advance n 0 (x AND 0xff) XOR advance n 8 (drop_bit 8 x AND 0xff) XOR advance n 16 (drop_bit 16 x AND 0xff) XOR
   advance n 24 (drop_bit 24 x) = (crc_bit ^^ n) x"
  by (subst (5) word_split) (simp add: advance_def crc_bits_xor)

section \<open>Words of data\<close>

lemma crc_bits_push_byte:
  assumes "length bs \<le> 3"
  shows "(crc_bit ^^ 8) (push_bit 8 (le_word bs)) = le_word bs"
proof -
  have t: "take_bit 8 (push_bit 8 (le_word bs :: u32)) = 0"
    by (rule bit_word_eqI) (auto simp: bit_take_bit_iff bit_push_bit_iff)
  have "drop_bit 8 (push_bit 8 (le_word bs :: u32)) = le_word bs"
  proof (rule bit_word_eqI)
    fix i assume "i < LENGTH(32)"
    moreover have "i div 8 < 3" if "bit (le_word bs :: u32) i" using that assms by (auto simp: bit_le_word)
    ultimately show "bit (drop_bit 8 (push_bit 8 (le_word bs :: u32))) i = bit (le_word bs :: u32) i"
      by (auto simp: bit_push_bit_iff bit_drop_bit_eq)
  qed
  then show ?thesis by (simp add: crc_bits_low [OF t])
qed

lemma ucast_or_push: "(ucast b OR push_bit 8 y :: u32) = ucast b XOR push_bit 8 y" for b :: byte
  by (rule bit_word_eqI) (auto simp: bit_or_iff bit_xor_iff bit_push_bit_iff bit_unsigned_iff dest: bit_imp_le_length)

lemma foldl_crc_byte: "length bs \<le> 4 \<Longrightarrow> foldl crc_byte l bs = (crc_bit ^^ (8 * length bs)) (l XOR le_word bs)"
proof (induction bs arbitrary: l)
  case (Cons b bs)
  have "(crc_bit ^^ (8 * length bs + 8)) (l XOR le_word (b # bs)) =
      (crc_bit ^^ (8 * length bs)) ((crc_bit ^^ 8) ((l XOR ucast b) XOR push_bit 8 (le_word bs)))"
    unfolding funpow_add by (simp add: ucast_or_push xor.assoc)
  also have "\<dots> = (crc_bit ^^ (8 * length bs)) (crc_byte l b XOR le_word bs)"
    using Cons.prems by (simp add: crc_bits_xor [of 8] crc_bits_push_byte crc_byte_def)
  also have "\<dots> = foldl crc_byte l (b # bs)" using Cons by simp
  finally show ?case by (simp add: add.commute)
qed simp

lemma foldl_crc_word:
  "4 \<le> length p \<Longrightarrow> foldl crc_byte l p = foldl crc_byte ((crc_bit ^^ 32) (l XOR le_word (take 4 p))) (drop 4 p)"
proof -
  assume "4 \<le> length p"
  then have "foldl crc_byte l (take 4 p) = (crc_bit ^^ 32) (l XOR le_word (take 4 p))"
    using foldl_crc_byte [of "take 4 p" l] by (simp add: min_absorb2)
  then show ?thesis using foldl_append [of crc_byte l "take 4 p" "drop 4 p"] by simp
qed

end
