(* ===== verification/Log_Writer.thy ===== *)
theory Log_Writer
  imports Env_Posix Crc32c
begin

text \<open>
  The write-ahead log, writing side (\<open>db/log_format.h\<close>, \<open>db/log_writer.cc\<close>): records are cut
  into fragments so that none crosses a block of 32 KiB, each fragment behind a header of
  masked checksum, length and type; the rest of a block that has no room for a header is
  filled with zeros. The destination is any \<open>WritableFile\<close>.
\<close>

section \<open>Format\<close>

abbreviation (input) kZeroType :: u32 where "kZeroType \<equiv> 0"
abbreviation (input) kFullType :: u32 where "kFullType \<equiv> 1"
abbreviation (input) kFirstType :: u32 where "kFirstType \<equiv> 2"
abbreviation (input) kMiddleType :: u32 where "kMiddleType \<equiv> 3"
abbreviation (input) kLastType :: u32 where "kLastType \<equiv> 4"

definition kMaxRecordType :: nat where "kMaxRecordType = 4"
definition kBlockSize :: nat where "kBlockSize = 32768"
definition kHeaderSize :: nat where "kHeaderSize = 4 + 2 + 1"

section \<open>Writer\<close>

record 'f log_writer =
  dest :: 'f
  block_offset :: nat
  type_crc :: "u32 list"

text \<open>\<open>a\<close> is the address of the local character \<open>t\<close>.\<close>

fun InitTypeCrc_loop :: "addr \<Rightarrow> nat list \<Rightarrow> u32 list outcome" where
  "InitTypeCrc_loop a [] = Ret []"
| "InitTypeCrc_loop a (i # is) =
     bindO (crc_Value a [of_nat i]) (\<lambda>c. bindO (InitTypeCrc_loop a is) (\<lambda>cs. Ret (c # cs)))"

definition InitTypeCrc :: "addr \<Rightarrow> u32 list outcome" where
  "InitTypeCrc a = InitTypeCrc_loop a [0..<kMaxRecordType + 1]"

definition Writer_new :: "addr \<Rightarrow> 'f \<Rightarrow> 'f log_writer outcome" where
  "Writer_new a d = bindO (InitTypeCrc a) (\<lambda>cs. Ret \<lparr>dest = d, block_offset = 0, type_crc = cs\<rparr>)"

definition Writer_reopen :: "addr \<Rightarrow> 'f \<Rightarrow> nat \<Rightarrow> 'f log_writer outcome" where
  "Writer_reopen a d dest_length =
     bindO (InitTypeCrc a) (\<lambda>cs. Ret \<lparr>dest = d, block_offset = dest_length mod kBlockSize, type_crc = cs\<rparr>)"

text \<open>Header and payload go out one after the other, then the file is flushed.\<close>

definition write_header_and_payload :: "'f WritableFile \<Rightarrow> 'f \<Rightarrow> byte list \<Rightarrow> byte list \<Rightarrow> Status \<times> 'f" where
  "write_header_and_payload F d header payload =
     (case Append F d header of (s, d) \<Rightarrow>
        if ok s then
          (case Append F d payload of (s, d) \<Rightarrow> if ok s then Flush F d else (s, d))
        else (s, d))"

text \<open>\<open>a\<close> is the address of the payload.\<close>

definition EmitPhysicalRecord ::
  "'f WritableFile \<Rightarrow> addr \<Rightarrow> u32 \<Rightarrow> byte list \<Rightarrow> 'f log_writer \<Rightarrow> (Status \<times> 'f log_writer) outcome" where
  "EmitPhysicalRecord F a t ptr w =
     bindO (Extend (type_crc w ! unat t) a ptr) (\<lambda>crc.
       let len = of_nat (length ptr) :: u64;
           buf = EncodeFixed32 (Mask crc) @ [ucast (len AND 0xff), ucast (drop_bit 8 len), ucast t];
           (s, d) = write_header_and_payload F (dest w) buf ptr
       in Ret (s, w\<lparr>dest := d, block_offset := block_offset w + (kHeaderSize + length ptr)\<rparr>))"

text \<open>Switching to a new block: the status of filling the trailer is ignored.\<close>

definition start_block :: "'f WritableFile \<Rightarrow> 'f log_writer \<Rightarrow> 'f log_writer" where
  "start_block F w =
     (let leftover = kBlockSize - block_offset w
      in if leftover < kHeaderSize
         then w\<lparr>dest := (if leftover > 0 then snd (Append F (dest w) (take leftover (replicate 6 0))) else dest w),
                block_offset := 0\<rparr>
         else w)"

definition fragment_type :: "bool \<Rightarrow> bool \<Rightarrow> u32" where
  "fragment_type is_begin is_end =
     (if is_begin \<and> is_end then kFullType else if is_begin then kFirstType else if is_end then kLastType else kMiddleType)"

lemma EmitPhysicalRecord_offset:
  "EmitPhysicalRecord F a t ptr w = Ret (s, w') \<Longrightarrow> block_offset w' = block_offset w + kHeaderSize + length ptr"
  by (auto simp: EmitPhysicalRecord_def Let_def split_beta)

lemma block_offset_start: "block_offset (start_block F w) =
    (if kBlockSize - block_offset w < kHeaderSize then 0 else block_offset w)"
  by (simp add: start_block_def Let_def)

function AddRecord_loop ::
  "'f WritableFile \<Rightarrow> addr \<Rightarrow> bool \<Rightarrow> byte list \<Rightarrow> 'f log_writer \<Rightarrow> (Status \<times> 'f log_writer) outcome" where
  "AddRecord_loop F a is_begin ptr w =
     (let w1 = start_block F w;
          avail = kBlockSize - block_offset w1 - kHeaderSize;
          fragment_length = (if length ptr < avail then length ptr else avail);
          is_end = (length ptr = fragment_length)
      in bindO (EmitPhysicalRecord F a (fragment_type is_begin is_end) (take fragment_length ptr) w1) (\<lambda>(s, w2).
           if ok s \<and> length ptr - fragment_length > 0
           then AddRecord_loop F (a + of_nat fragment_length) False (drop fragment_length ptr) w2
           else Ret (s, w2)))"
  by pat_completeness auto
termination
proof (relation "measures [\<lambda>(F, a, b, ptr, w). length ptr,
    \<lambda>(F, a, b, ptr, w). if kBlockSize - block_offset w = kHeaderSize then 1 else 0]", simp, goal_cases)
  case (1 F a b ptr w w1 avail fl e sw s w2)
  then have e: "block_offset w2 = block_offset w1 + kHeaderSize + length (take fl ptr)"
    by (auto dest: EmitPhysicalRecord_offset)
  have w1: "block_offset w1 = (if kBlockSize - block_offset w < kHeaderSize then 0 else block_offset w)"
    using 1(1) by (simp add: block_offset_start)
  show ?case
  proof (cases "fl = 0")
    case True
    with 1 have "avail = 0" by (auto split: if_splits)
    with 1(2) w1 have "kBlockSize - block_offset w = kHeaderSize" "block_offset w1 = block_offset w"
      by (auto simp: kBlockSize_def kHeaderSize_def split: if_splits)
    with e True show ?thesis by (auto simp: kHeaderSize_def kBlockSize_def)
  next
    case False
    with 1 show ?thesis by auto
  qed
qed

declare AddRecord_loop.simps [simp del]

definition AddRecord :: "'f WritableFile \<Rightarrow> addr \<Rightarrow> byte list \<Rightarrow> 'f log_writer \<Rightarrow> (Status \<times> 'f log_writer) outcome" where
  "AddRecord F a data w = AddRecord_loop F a True data w"

end
