(* ===== verification/Log_Spec.thy ===== *)
theory Log_Spec
  imports Log_Writer
begin

text \<open>
  The log format as a function of the records: the bytes of a physical record, the fragments
  of a logical record at a position of the file, and a whole log. The writer on any conforming
  file appends exactly these bytes, or, when it fails, a prefix of them.
\<close>

section \<open>Format\<close>

definition physical :: "u32 \<Rightarrow> byte list \<Rightarrow> byte list" where
  "physical t p =
     EncodeFixed32 (Mask (crc32c 0 (ucast t # p))) @ [of_nat (length p mod 256), of_nat (length p div 256), ucast t] @ p"

definition room :: "nat \<Rightarrow> nat" where
  "room pos = kBlockSize - pos mod kBlockSize"

definition trailer :: "nat \<Rightarrow> byte list" where
  "trailer pos = (if room pos < kHeaderSize then replicate (room pos) 0 else [])"

definition fragment_len :: "nat \<Rightarrow> byte list \<Rightarrow> nat" where
  "fragment_len pos p = min (length p) ((if room pos < kHeaderSize then kBlockSize else room pos) - kHeaderSize)"

lemmas log_sizes = kBlockSize_def kHeaderSize_def

lemma room_pos: "0 < room pos" "room pos \<le> kBlockSize"
  by (simp_all add: room_def log_sizes)

lemma room_advance:
  assumes "n \<le> room pos"
  shows "room (pos + n) = (if n = room pos then kBlockSize else room pos - n)"
proof (cases "n = room pos")
  case True
  have "B * q + r + (B - r) = B * (q + 1)" if "r < B" for B q r :: nat using that by simp
  from this [of "pos mod kBlockSize" kBlockSize "pos div kBlockSize"]
  have "pos + room pos = kBlockSize * (pos div kBlockSize + 1)"
    unfolding mult_div_mod_eq room_def by (simp add: log_sizes)
  then have "(pos + n) mod kBlockSize = 0" by (simp only: True mod_mult_self1_is_0)
  then show ?thesis using True by (simp add: room_def)
next
  case False
  then have "pos mod kBlockSize + n < kBlockSize" using assms by (simp add: room_def)
  then have "(pos + n) mod kBlockSize = pos mod kBlockSize + n" by (metis mod_add_left_eq mod_less)
  then show ?thesis using False by (simp add: room_def)
qed

lemma room_trailer: "room (pos + length (trailer pos)) = (if room pos < kHeaderSize then kBlockSize else room pos)"
  using room_pos(1) [of pos] by (simp add: trailer_def room_advance)

lemma fragment_len_0: "fragment_len pos p = 0 \<Longrightarrow> p \<noteq> [] \<Longrightarrow> room pos = kHeaderSize"
  by (cases "room pos < kHeaderSize") (auto simp: fragment_len_def log_sizes min_def split: if_splits)

lemma fragment_fits: "kHeaderSize + fragment_len pos p \<le> room (pos + length (trailer pos))"
  by (simp add: room_trailer) (auto simp: fragment_len_def log_sizes min_def)

function log_frag :: "nat \<Rightarrow> bool \<Rightarrow> byte list \<Rightarrow> byte list" where
  "log_frag pos b p =
     (let k = fragment_len pos p
      in trailer pos @ physical (fragment_type b (length p = k)) (take k p) @
         (if k < length p then log_frag (pos + length (trailer pos) + kHeaderSize + k) False (drop k p) else []))"
  by pat_completeness auto
termination
proof (relation "measures [\<lambda>(pos, b, p). length p, \<lambda>(pos, b, p). if room pos = kHeaderSize then 1 else 0]", simp, goal_cases)
  case (1 pos b p k)
  show ?case
  proof (cases "k = 0")
    case True
    with 1 have r: "room pos = kHeaderSize" using fragment_len_0 [of pos p] by auto
    then have "room (pos + length (trailer pos) + kHeaderSize + k) = kBlockSize"
      using True room_advance [of kHeaderSize pos] by (simp add: trailer_def)
    with r True show ?thesis by (simp add: log_sizes)
  next
    case False
    with 1 show ?thesis by auto
  qed
qed

declare log_frag.simps [simp del]

fun log_all :: "nat \<Rightarrow> byte list list \<Rightarrow> byte list" where
  "log_all pos [] = []"
| "log_all pos (r # rs) = log_frag pos True r @ log_all (pos + length (log_frag pos True r)) rs"

lemma length_physical [simp]: "length (physical t p) = kHeaderSize + length p"
  by (simp add: physical_def kHeaderSize_def)

lemma physical_nonempty [simp]: "log_frag pos b p \<noteq> []"
  by (subst log_frag.simps) (auto simp: Let_def physical_def)

section \<open>The writer\<close>

lemma InitTypeCrc_eq: "InitTypeCrc a = Ret (map (\<lambda>i. crc32c 0 [of_nat i]) [0..<5])"
proof -
  have "InitTypeCrc_loop a is = Ret (map (\<lambda>i. crc32c 0 [of_nat i]) is)" for "is"
    by (induction "is") (simp_all add: crc_Value_eq)
  then show ?thesis by (simp add: InitTypeCrc_def kMaxRecordType_def)
qed

definition crc_table_ok :: "'f log_writer \<Rightarrow> bool" where
  "crc_table_ok w \<longleftrightarrow> type_crc w = map (\<lambda>i. crc32c 0 [of_nat i]) [0..<5]"

text \<open>The writer stands at position \<open>pos\<close> of its file.\<close>

definition writer_at :: "nat \<Rightarrow> 'f log_writer \<Rightarrow> bool" where
  "writer_at pos w \<longleftrightarrow> crc_table_ok w \<and> block_offset w \<le> kBlockSize \<and> block_offset w mod kBlockSize = pos mod kBlockSize"

lemma type_crc_nth: "crc_table_ok w \<Longrightarrow> t \<in> {1, 2, 3, 4} \<Longrightarrow> type_crc w ! unat t = crc32c 0 [ucast t]" for t :: u32
  by (auto simp: crc_table_ok_def)

lemma fragment_type_cases: "fragment_type b e \<in> {1, 2, 3, 4}"
  by (simp add: fragment_type_def)

lemma header_length:
  "n < 65536 \<Longrightarrow> (ucast ((of_nat n :: u64) AND 0xff) :: byte) = of_nat (n mod 256)"
  "n < 65536 \<Longrightarrow> (ucast (drop_bit 8 (of_nat n :: u64)) :: byte) = of_nat (n div 256)"
proof -
  assume n: "n < 65536"
  have "(of_nat n :: u64) AND 0xff = take_bit 8 (of_nat n)" by (simp add: take_bit_eq_mask mask_eq_exp_minus_1)
  also have "\<dots> = of_nat (n mod 256)" by (simp only: take_bit_of_nat) (simp add: take_bit_eq_mod)
  finally show "(ucast ((of_nat n :: u64) AND 0xff) :: byte) = of_nat (n mod 256)"
    using of_nat_unat [of "of_nat (n mod 256) :: u64", where 'a = byte] by simp
  have "unat (drop_bit 8 (of_nat n :: u64)) = n div 256"
    unfolding unat_drop_bit_eq using n by (simp add: drop_bit_eq_div)
  then show "(ucast (drop_bit 8 (of_nat n :: u64)) :: byte) = of_nat (n div 256)"
    using of_nat_unat [of "drop_bit 8 (of_nat n :: u64)", where 'a = byte] by simp
qed

lemma Emit_eq:
  assumes "crc_table_ok w" "t \<in> {1, 2, 3, 4}" "length p < 65536"
  shows "EmitPhysicalRecord F a t p w =
    (case write_header_and_payload F (dest w) (take kHeaderSize (physical t p)) p of (s, d) \<Rightarrow>
       Ret (s, w\<lparr>dest := d, block_offset := block_offset w + (kHeaderSize + length p)\<rparr>))"
  using assms(3)
  by (simp add: EmitPhysicalRecord_def Extend_eq type_crc_nth [OF assms(1,2)] crc32c_append header_length physical_def
      kHeaderSize_def split_beta Let_def)

lemma physical_split: "physical t p = take kHeaderSize (physical t p) @ p"
  by (simp add: physical_def kHeaderSize_def)

fun AddAll :: "'f WritableFile \<Rightarrow> addr \<Rightarrow> byte list list \<Rightarrow> 'f log_writer \<Rightarrow> (nat \<times> 'f log_writer) outcome" where
  "AddAll F a [] w = Ret (0, w)"
| "AddAll F a (r # rs) w =
     bindO (AddRecord F a r w) (\<lambda>(s, w).
       if ok s then bindO (AddAll F a rs w) (\<lambda>(k, w). Ret (Suc k, w)) else Ret (0, w))"

context writable_file
begin

text \<open>What has reached the system stays there.\<close>

definition grows :: "'f \<Rightarrow> 'f \<Rightarrow> bool" where
  "grows f f' \<longleftrightarrow> (\<exists>d. durable f' = durable f @ d)"

lemma grows_refl [simp]: "grows f f"
  by (simp add: grows_def)

lemma grows_trans: "grows f g \<Longrightarrow> grows g h \<Longrightarrow> grows f h"
  by (auto simp: grows_def)

lemma append_grows: "Append F f data = (s, f') \<Longrightarrow> grows f f'" and flush_grows: "Flush F f = (s, f') \<Longrightarrow> grows f f'"
  by (simp_all add: grows_def append_durable flush_durable)

text \<open>Writing \<open>bs\<close>: all of it when the result is \<open>OK\<close>, a prefix of it otherwise.\<close>

definition writes :: "'f \<Rightarrow> byte list \<Rightarrow> Status \<Rightarrow> 'f \<Rightarrow> bool" where
  "writes f bs s f' \<longleftrightarrow> inv f' \<and> grows f f' \<and>
     (if s = OK then contents f' = contents f @ bs \<and> durable f' = contents f' \<and> clean f'
      else \<exists>d. contents f @ bs = contents f' @ d)"

lemma write_header_and_payload_writes:
  assumes i: "inv f" and w: "write_header_and_payload F f h p = (s, f')"
  shows "writes f (h @ p) s f'"
proof -
  obtain s1 f1 where 1: "Append F f h = (s1, f1)" by (cases "Append F f h")
  note i1 = append_inv [OF i 1]
  show ?thesis
  proof (cases "ok s1")
    case False
    with w 1 have "s = s1" "f' = f1" by (simp_all add: write_header_and_payload_def)
    moreover have "\<exists>d. contents f @ h @ p = contents f1 @ d"
      using append_prefix [OF i 1] by (metis append_assoc)
    ultimately show ?thesis using False i1 append_grows [OF 1] by (simp add: writes_def ok_def)
  next
    case True
    with append_ok [OF i] 1 have c1: "contents f1 = contents f @ h" by (simp add: ok_def)
    obtain s2 f2 where 2: "Append F f1 p = (s2, f2)" by (cases "Append F f1 p")
    note i2 = append_inv [OF i1 2]
    show ?thesis
    proof (cases "ok s2")
      case False
      with w 1 2 True have "s = s2" "f' = f2" by (simp_all add: write_header_and_payload_def)
      with False append_prefix [OF i1 2] i2 c1 grows_trans [OF append_grows [OF 1] append_grows [OF 2]]
      show ?thesis by (auto simp: writes_def ok_def)
    next
      case True2: True
      with append_ok [OF i1] 2 have c2: "contents f2 = contents f @ h @ p" using c1 by (simp add: ok_def)
      from w 1 2 True True2 have F: "Flush F f2 = (s, f')" by (simp add: write_header_and_payload_def)
      show ?thesis
        using flush_inv [OF i2 F] flush_clean [OF F] flush_ok [OF i2, of f'] flush_prefix [OF i2 F] F c2
          grows_trans [OF append_grows [OF 1] grows_trans [OF append_grows [OF 2] flush_grows [OF F]]]
        by (auto simp: writes_def)
    qed
  qed
qed

lemma start_block_trailer:
  assumes i: "inv (dest w)" and c: "clean (dest w)" and w: "writer_at pos w"
  defines "w' \<equiv> start_block F w" and "pos' \<equiv> pos + length (trailer pos)"
  shows "inv (dest w')" "contents (dest w') = contents (dest w) @ trailer pos" "writer_at pos' w'"
    "kBlockSize - block_offset w' = room pos'" "grows (dest w) (dest w')"
proof -
  let ?left = "kBlockSize - block_offset w"
  have left: "?left = (if block_offset w = kBlockSize then 0 else room pos)"
    using w by (auto simp: writer_at_def room_def)
  have full: "room pos = kBlockSize" if "block_offset w = kBlockSize" using that w by (simp add: writer_at_def room_def)
  have "inv (dest w') \<and> contents (dest w') = contents (dest w) @ trailer pos \<and> writer_at pos' w' \<and>
    kBlockSize - block_offset w' = room pos'"
  proof (cases "?left < kHeaderSize")
    case False
    then have "trailer pos = []" using left by (auto simp: trailer_def log_sizes split: if_splits)
    moreover have "w' = w" using False by (simp add: w'_def start_block_def)
    ultimately show ?thesis using i w left False by (auto simp: pos'_def log_sizes)
  next
    case True
    have r: "room pos' = kBlockSize" "pos' mod kBlockSize = 0"
    proof -
      show "room pos' = kBlockSize" using room_trailer [of pos] left True full by (auto simp: pos'_def split: if_splits)
      then show "pos' mod kBlockSize = 0" by (simp add: room_def log_sizes)
    qed
    show ?thesis
    proof (cases "?left = 0")
      case z: True
      with left full room_pos(1) [of pos] have "trailer pos = []" by (auto simp: trailer_def log_sizes split: if_splits)
      moreover have "w' = w\<lparr>block_offset := 0\<rparr>" using True z by (simp add: w'_def start_block_def Let_def)
      ultimately show ?thesis using i w r by (simp add: writer_at_def crc_table_ok_def)
    next
      case z: False
      with left True have t: "trailer pos = replicate ?left 0" by (auto simp: trailer_def split: if_splits)
      have t6: "replicate (min ?left 6) 0 = trailer pos" using True t by (simp add: kHeaderSize_def min_def)
      obtain f' where f': "Append F (dest w) (trailer pos) = (OK, f')"
        using append_clean [OF i c, of "trailer pos"] t True by (auto simp: kHeaderSize_def)
      have "w' = w\<lparr>dest := f', block_offset := 0\<rparr>" using True z f' by (simp add: w'_def start_block_def Let_def t6)
      then show ?thesis using append_ok [OF i f'] append_inv [OF i f'] w r by (simp add: writer_at_def crc_table_ok_def)
    qed
  qed
  then show "inv (dest w')" "contents (dest w') = contents (dest w) @ trailer pos" "writer_at pos' w'"
    "kBlockSize - block_offset w' = room pos'" by simp_all
  show "grows (dest w) (dest w')"
    using append_grows [of "dest w"] by (auto simp: w'_def start_block_def Let_def intro: surjective_pairing)
qed

text \<open>The writer appends the fragments of a record, or fails after a prefix of them.\<close>

lemma AddRecord_loop_writes:
  assumes "inv (dest w)" "clean (dest w)" "writer_at pos w"
  shows "\<exists>s w'. AddRecord_loop F a b p w = Ret (s, w') \<and> writes (dest w) (log_frag pos b p) s (dest w') \<and>
    (s = OK \<longrightarrow> writer_at (pos + length (log_frag pos b p)) w')"
  using assms
proof (induction pos b p arbitrary: a w rule: log_frag.induct)
  case (1 pos b p)
  define w1 pos1 k where "w1 = start_block F w" and "pos1 = pos + length (trailer pos)" and "k = fragment_len pos p"
  let ?t = "fragment_type b (length p = k)"
  let ?last = "\<not> k < length p"
  note sb = start_block_trailer [OF "1.prems", folded w1_def pos1_def]
  have fit: "kHeaderSize + k \<le> room pos1" using fragment_fits [of pos p] by (simp add: pos1_def k_def)
  have k: "(if length p < kBlockSize - block_offset w1 - kHeaderSize then length p
      else kBlockSize - block_offset w1 - kHeaderSize) = k"
    unfolding sb(4) k_def fragment_len_def by (simp add: pos1_def room_trailer min_def)
  have kp: "k \<le> length p" by (simp add: k_def fragment_len_def)
  have k64: "length (take k p) < 65536" using fit room_pos(2) [of pos1] kp by (simp add: log_sizes)
  have ct: "crc_table_ok w1" using sb(3) by (simp add: writer_at_def)
  obtain s d where W: "write_header_and_payload F (dest w1) (take kHeaderSize (physical ?t (take k p))) (take k p) = (s, d)"
    by (cases "write_header_and_payload F (dest w1) (take kHeaderSize (physical ?t (take k p))) (take k p)")
  define w2 where "w2 = w1\<lparr>dest := d, block_offset := block_offset w1 + (kHeaderSize + k)\<rparr>"
  have E: "EmitPhysicalRecord F a ?t (take k p) w1 = Ret (s, w2)"
    using Emit_eq [OF ct fragment_type_cases k64, of F a b "length p = k"] W kp by (simp add: w2_def min_absorb2)
  have wr: "writes (dest w1) (physical ?t (take k p)) s d"
    using write_header_and_payload_writes [OF sb(1) W] physical_split [of ?t "take k p"] by simp
  have step: "AddRecord_loop F a b p w =
      (if ok s \<and> k < length p then AddRecord_loop F (a + of_nat k) False (drop k p) w2 else Ret (s, w2))"
    by (subst AddRecord_loop.simps) (simp only: Let_def w1_def [symmetric] k E bindO.simps prod.case zero_less_diff)
  have frag: "log_frag pos b p = trailer pos @ physical ?t (take k p) @
      (if k < length p then log_frag (pos1 + kHeaderSize + k) False (drop k p) else [])"
    by (subst log_frag.simps) (simp add: Let_def k_def pos1_def)
  have at2: "writer_at (pos1 + kHeaderSize + k) w2"
    using sb(3,4) fit mod_add_cong [of "block_offset w1" kBlockSize pos1 "kHeaderSize + k" "kHeaderSize + k"]
    by (auto simp: writer_at_def crc_table_ok_def w2_def add.assoc)
  show ?case
  proof (cases "ok s \<and> k < length p")
    case False
    then have R: "AddRecord_loop F a b p w = Ret (s, w2)" unfolding step by (rule if_not_P)
    show ?thesis
    proof (cases "s = OK")
      case True
      with False wr sb(2) at2 kp R grows_trans [OF sb(5)] show ?thesis
        by (simp add: frag writes_def w2_def pos1_def add.assoc min_absorb2)
    next
      case False
      have "\<exists>e. contents (dest w) @ log_frag pos b p = contents d @ e"
        using False wr sb(2) unfolding writes_def frag by (metis append_assoc)
      with False wr R grows_trans [OF sb(5)] show ?thesis by (simp add: writes_def w2_def)
    qed
  next
    case True
    then have o: "s = OK" and kl: "k < length p" by (simp_all add: ok_def)
    have i2: "inv (dest w2)" "clean (dest w2)" using wr o by (simp_all add: writes_def w2_def)
    from "1.IH" [OF k_def kl [unfolded k_def, folded k_def], of w2 "a + of_nat k"] i2 at2
    obtain s' w' where IH: "AddRecord_loop F (a + of_nat k) False (drop k p) w2 = Ret (s', w')"
      "writes (dest w2) (log_frag (pos1 + kHeaderSize + k) False (drop k p)) s' (dest w')"
      "s' = OK \<longrightarrow> writer_at (pos1 + kHeaderSize + k + length (log_frag (pos1 + kHeaderSize + k) False (drop k p))) w'"
      unfolding pos1_def by blast
    have c2: "contents (dest w2) = contents (dest w) @ trailer pos @ physical ?t (take k p)"
      using wr o sb(2) by (simp add: writes_def w2_def)
    have "grows (dest w) (dest w2)" using wr grows_trans [OF sb(5)] by (simp add: writes_def w2_def)
    note g = grows_trans [OF this]
    from IH c2 kl kp g show ?thesis
      unfolding step using True by (auto simp: frag writes_def pos1_def add.assoc min_absorb2 split: if_splits)
  qed
qed

lemma AddRecord_writes:
  "inv (dest w) \<Longrightarrow> clean (dest w) \<Longrightarrow> writer_at pos w \<Longrightarrow>
    \<exists>s w'. AddRecord F a p w = Ret (s, w') \<and> writes (dest w) (log_frag pos True p) s (dest w') \<and>
      (s = OK \<longrightarrow> writer_at (pos + length (log_frag pos True p)) w')"
  unfolding AddRecord_def by (rule AddRecord_loop_writes)

text \<open>
  A client that adds records until one is refused: \<open>k\<close> records were acknowledged. The file
  holds a prefix of the log, and at least the acknowledged records have reached the system.
\<close>

lemma AddAll_writes:
  assumes "inv (dest w)" "clean (dest w)" "writer_at pos w" "durable (dest w) = contents (dest w)"
  shows "\<exists>k w'. AddAll F a rs w = Ret (k, w') \<and> k \<le> length rs \<and> inv (dest w') \<and>
    (\<exists>d. contents (dest w) @ log_all pos rs = contents (dest w') @ d) \<and>
    (\<exists>d. durable (dest w') = contents (dest w) @ log_all pos (take k rs) @ d)"
  using assms
proof (induction rs arbitrary: pos w)
  case Nil
  then show ?case by simp
next
  case (Cons r rs)
  let ?b = "log_frag pos True r"
  obtain s w1 where R: "AddRecord F a r w = Ret (s, w1)" and W: "writes (dest w) ?b s (dest w1)"
    and at: "s = OK \<longrightarrow> writer_at (pos + length ?b) w1"
    using AddRecord_writes [OF Cons.prems(1-3)] by blast
  show ?case
  proof (cases "s = OK")
    case False
    then have "AddAll F a (r # rs) w = Ret (0, w1)" using R by (simp add: ok_def)
    moreover have "\<exists>d. contents (dest w) @ log_all pos (r # rs) = contents (dest w1) @ d"
      using W False by (simp add: writes_def) (metis append_assoc)
    moreover have "\<exists>d. durable (dest w1) = contents (dest w) @ log_all pos (take 0 (r # rs)) @ d"
      using W Cons.prems(4) by (auto simp: writes_def grows_def)
    moreover have "inv (dest w1)" using W by (simp add: writes_def)
    ultimately show ?thesis by blast
  next
    case True
    with W have w1: "inv (dest w1)" "clean (dest w1)" "contents (dest w1) = contents (dest w) @ ?b"
      "durable (dest w1) = contents (dest w1)" by (simp_all add: writes_def)
    from Cons.IH [OF w1(1,2) at [rule_format, OF True] w1(4)] obtain k w' where
      "AddAll F a rs w1 = Ret (k, w')" "k \<le> length rs" "inv (dest w')"
      "\<exists>d. contents (dest w1) @ log_all (pos + length ?b) rs = contents (dest w') @ d"
      "\<exists>d. durable (dest w') = contents (dest w1) @ log_all (pos + length ?b) (take k rs) @ d" by blast
    then show ?thesis using R True w1(3) by (simp add: ok_def)
  qed
qed

end

end
