(* ===== verification/Log_Reader.thy ===== *)
theory Log_Reader
  imports Log_Writer
begin

text \<open>
  The write-ahead log, reading side (\<open>db/log_reader.h\<close>, \<open>db/log_reader.cc\<close>): blocks are read
  from any \<open>SequentialFile\<close>, physical records parsed and checked, fragments put together, and
  damage reported. Offsets are 64-bit and wrap as in the source. The calls of
  \<open>reporter_->Corruption\<close> are collected in \<open>reports\<close>, the latest last.
\<close>

abbreviation (input) kEof :: u32 where "kEof \<equiv> 5"
abbreviation (input) kBadRecord :: u32 where "kBadRecord \<equiv> 6"

record 'g log_reader =
  rfile :: 'g
  has_reporter :: bool
  checksum :: bool
  backing_store :: addr
  buffer :: "byte list"
  buffer_at :: addr
  eof :: bool
  last_record_offset :: u64
  end_of_buffer_offset :: u64
  initial_offset :: u64
  resyncing :: bool
  reports :: "(u64 \<times> Status) list"

definition Reader_new :: "'g \<Rightarrow> bool \<Rightarrow> bool \<Rightarrow> addr \<Rightarrow> u64 \<Rightarrow> 'g log_reader" where
  "Reader_new g rep chk store init =
     \<lparr>rfile = g, has_reporter = rep, checksum = chk, backing_store = store, buffer = [], buffer_at = 0,
      eof = False, last_record_offset = 0, end_of_buffer_offset = 0, initial_offset = init,
      resyncing = (init > 0), reports = []\<rparr>"

definition ReportDrop :: "u64 \<Rightarrow> Status \<Rightarrow> 'g log_reader \<Rightarrow> 'g log_reader" where
  "ReportDrop n reason r =
     (if has_reporter r \<and> end_of_buffer_offset r - of_nat (length (buffer r)) - n \<ge> initial_offset r
      then r\<lparr>reports := reports r @ [(n, reason)]\<rparr> else r)"

definition ReportCorruption :: "u64 \<Rightarrow> string \<Rightarrow> 'g log_reader \<Rightarrow> 'g log_reader" where
  "ReportCorruption n reason r = ReportDrop n (Corruption reason []) r"

definition SkipToInitialBlock :: "'g SequentialFile \<Rightarrow> 'g log_reader \<Rightarrow> bool \<times> 'g log_reader" where
  "SkipToInitialBlock G r =
     (let offset_in_block = unat (initial_offset r) mod kBlockSize;
          block_start_location = initial_offset r - of_nat offset_in_block;
          block_start_location =
            (if offset_in_block > kBlockSize - 6 then block_start_location + of_nat kBlockSize else block_start_location);
          r = r\<lparr>end_of_buffer_offset := block_start_location\<rparr>
      in if block_start_location > 0 then
           (case Skip G (rfile r) (unat block_start_location) of (skip_status, g) \<Rightarrow>
              let r = r\<lparr>rfile := g\<rparr>
              in if \<not> ok skip_status then (False, ReportDrop block_start_location skip_status r) else (True, r))
         else (True, r))"

section \<open>Physical records\<close>

definition header_len :: "byte list \<Rightarrow> nat" where
  "header_len header =
     (let a = (ucast (header ! 4) AND 0xff) :: u32; b = (ucast (header ! 5) AND 0xff) :: u32
      in unat (a OR push_bit 8 b))"

text \<open>
  The part of \<open>ReadPhysicalRecord\<close> behind the refill: the buffer holds at least a header.
  \<open>fragment\<close> is \<open>*result\<close>, which the early returns leave as it was. The type byte is a
  signed character that becomes an unsigned int.
\<close>

definition ParsePhysicalRecord :: "byte list \<Rightarrow> 'g log_reader \<Rightarrow> (u32 \<times> byte list \<times> 'g log_reader) outcome" where
  "ParsePhysicalRecord fragment r =
     (let header = buffer r;
          type = scast (header ! 6) :: u32;
          len = header_len header;
          drop_size = of_nat (length header)
      in if kHeaderSize + len > length header then
           (if \<not> eof r then Ret (kBadRecord, fragment, ReportCorruption drop_size ''bad record length'' (r\<lparr>buffer := []\<rparr>))
            else Ret (kEof, fragment, r\<lparr>buffer := []\<rparr>))
         else if type = kZeroType \<and> len = 0 then Ret (kBadRecord, fragment, r\<lparr>buffer := []\<rparr>)
         else
           bindO (if checksum r
                  then bindO (DecodeFixed32 header) (\<lambda>stored.
                       bindO (crc_Value (buffer_at r + 6) (take (1 + len) (drop 6 header))) (\<lambda>actual_crc.
                         Ret (actual_crc = Unmask stored)))
                  else Ret True) (\<lambda>crc_ok.
             if \<not> crc_ok
             then Ret (kBadRecord, fragment, ReportCorruption drop_size ''checksum mismatch'' (r\<lparr>buffer := []\<rparr>))
             else
               let r = r\<lparr>buffer := drop (kHeaderSize + len) header, buffer_at := buffer_at r + of_nat (kHeaderSize + len)\<rparr>
               in if end_of_buffer_offset r - of_nat (length (buffer r)) - of_nat kHeaderSize - of_nat len < initial_offset r
                  then Ret (kBadRecord, [], r)
                  else Ret (type, take len (drop kHeaderSize header), r)))"

function ReadPhysicalRecord ::
  "'g SequentialFile \<Rightarrow> byte list \<Rightarrow> 'g log_reader \<Rightarrow> (u32 \<times> byte list \<times> 'g log_reader) outcome" where
  "ReadPhysicalRecord G fragment r =
     (if length (buffer r) < kHeaderSize then
        (if \<not> eof r then
           (case Read G (rfile r) kBlockSize of (status, bs, g) \<Rightarrow>
              let r = r\<lparr>rfile := g, buffer := bs, buffer_at := backing_store r,
                        end_of_buffer_offset := end_of_buffer_offset r + of_nat (length bs)\<rparr>
              in if \<not> ok status
                 then Ret (kEof, fragment, (ReportDrop (of_nat kBlockSize) status (r\<lparr>buffer := []\<rparr>))\<lparr>eof := True\<rparr>)
                 else if length bs < kBlockSize then ReadPhysicalRecord G fragment (r\<lparr>eof := True\<rparr>)
                 else ReadPhysicalRecord G fragment r)
         else Ret (kEof, fragment, r\<lparr>buffer := []\<rparr>))
      else ParsePhysicalRecord fragment r)"
  by pat_completeness auto
termination
  by (relation "measure (\<lambda>(G, fragment, r). if length (buffer r) < kHeaderSize then (if eof r then 1 else 2) else 0)")
    (auto simp: kHeaderSize_def kBlockSize_def)

declare ReadPhysicalRecord.simps [simp del]

section \<open>Logical records\<close>

text \<open>\<open>%u\<close>.\<close>

fun decimal :: "nat \<Rightarrow> string" where
  "decimal n = (if n < 10 then [] else decimal (n div 10)) @ [char_of (48 + n mod 10)]"

declare decimal.simps [simp del]

text \<open>
  The loop of \<open>ReadRecord\<close>: \<open>frag\<close> is \<open>in_fragmented_record\<close>, \<open>off\<close> the prospective offset. The
  result is the record (\<open>None\<close>: false), the scratch string and the reader. A file may go on
  forever, so the loop has fuel.
\<close>

fun ReadRecord_loop :: "'g SequentialFile \<Rightarrow> nat \<Rightarrow> bool \<Rightarrow> u64 \<Rightarrow> byte list \<Rightarrow> byte list \<Rightarrow> 'g log_reader \<Rightarrow>
    (byte list option \<times> byte list \<times> 'g log_reader) outcome" where
  "ReadRecord_loop G 0 frag off fragment scratch r = NoFuel"
| "ReadRecord_loop G (Suc n) frag off fragment scratch r =
     bindO (ReadPhysicalRecord G fragment r) (\<lambda>(record_type, fragment, r).
       let physical_record_offset = end_of_buffer_offset r - of_nat (length (buffer r)) - of_nat kHeaderSize - of_nat (length fragment)
       in if resyncing r \<and> record_type = kMiddleType then ReadRecord_loop G n frag off fragment scratch r
          else if resyncing r \<and> record_type = kLastType
          then ReadRecord_loop G n frag off fragment scratch (r\<lparr>resyncing := False\<rparr>)
          else
            let r = r\<lparr>resyncing := False\<rparr>
            in if record_type = kFullType then
                 let r = (if frag \<and> scratch \<noteq> []
                          then ReportCorruption (of_nat (length scratch)) ''partial record without end(1)'' r else r)
                 in Ret (Some fragment, [], r\<lparr>last_record_offset := physical_record_offset\<rparr>)
               else if record_type = kFirstType then
                 let r = (if frag \<and> scratch \<noteq> []
                          then ReportCorruption (of_nat (length scratch)) ''partial record without end(2)'' r else r)
                 in ReadRecord_loop G n True physical_record_offset fragment fragment r
               else if record_type = kMiddleType then
                 (if \<not> frag
                  then ReadRecord_loop G n frag off fragment scratch
                         (ReportCorruption (of_nat (length fragment)) ''missing start of fragmented record(1)'' r)
                  else ReadRecord_loop G n frag off fragment (scratch @ fragment) r)
               else if record_type = kLastType then
                 (if \<not> frag
                  then ReadRecord_loop G n frag off fragment scratch
                         (ReportCorruption (of_nat (length fragment)) ''missing start of fragmented record(2)'' r)
                  else Ret (Some (scratch @ fragment), scratch @ fragment, r\<lparr>last_record_offset := off\<rparr>))
               else if record_type = kEof then Ret (None, if frag then [] else scratch, r)
               else if record_type = kBadRecord then
                 (if frag
                  then ReadRecord_loop G n False off fragment []
                         (ReportCorruption (of_nat (length scratch)) ''error in middle of record'' r)
                  else ReadRecord_loop G n frag off fragment scratch r)
               else
                 ReadRecord_loop G n False off fragment []
                   (ReportCorruption (of_nat (length fragment) + (if frag then of_nat (length scratch) else 0))
                      (''unknown record type '' @ decimal (unat record_type)) r))"

definition ReadRecord :: "'g SequentialFile \<Rightarrow> nat \<Rightarrow> byte list \<Rightarrow> 'g log_reader \<Rightarrow>
    (byte list option \<times> byte list \<times> 'g log_reader) outcome" where
  "ReadRecord G fuel scratch r =
     (let (go, r) = (if last_record_offset r < initial_offset r then SkipToInitialBlock G r else (True, r))
      in if \<not> go then Ret (None, scratch, r) else ReadRecord_loop G fuel False 0 [] [] r)"

text \<open>Reading until the end, as the recovery code does.\<close>

fun ReadAll :: "'g SequentialFile \<Rightarrow> nat \<Rightarrow> byte list \<Rightarrow> 'g log_reader \<Rightarrow> (byte list list \<times> 'g log_reader) outcome" where
  "ReadAll G 0 scratch r = NoFuel"
| "ReadAll G (Suc n) scratch r =
     bindO (ReadRecord G n scratch r) (\<lambda>(res, scratch, r).
       case res of
         None \<Rightarrow> Ret ([], r)
       | Some rec \<Rightarrow> bindO (ReadAll G n scratch r) (\<lambda>(recs, r). Ret (rec # recs, r)))"

end
