(* ===== verification/Log_Recovery.thy ===== *)
theory Log_Recovery
  imports Log_Spec Log_Reader
begin

text \<open>
  Reading a log back, and recovery: on any prefix of the bytes of a log (the file a crash in
  the middle of writing leaves behind) the reader returns the records that are complete, in
  order, and reports no corruption.
\<close>

section \<open>Parsing a physical record\<close>

lemma header_len_eq:
  assumes "n < 65536" "h ! 4 = of_nat (n mod 256)" "h ! 5 = of_nat (n div 256)"
  shows "header_len h = n"
proof -
  have b: "(ucast (of_nat m :: byte) AND 0xff :: u32) = of_nat m" if "m < 256" for m
  proof -
    have "(ucast (of_nat m :: byte) :: u32) = of_nat m" using ucast_byte_of_nat [OF that] .
    moreover have "(of_nat m :: u32) AND 0xff = of_nat (take_bit 8 m)" by (simp only: and_ff take_bit_of_nat)
    ultimately show ?thesis using that by (simp add: take_bit_eq_mod)
  qed
  have d: "n div 256 < 256" "n mod 256 < 256" using assms(1) by (simp_all add: less_mult_imp_div_less)
  have "unat (of_nat (n mod 256) :: u32) < 2 ^ 8" using d(2) by (subst unat_of_nat_small) simp_all
  from or_push [OF this, of "of_nat (n div 256)"]
  have "(of_nat (n mod 256) OR push_bit 8 (of_nat (n div 256)) :: u32) = of_nat (n mod 256) + of_nat (n div 256) * 256"
    by (simp add: push_bit_eq_mult)
  also have "\<dots> = of_nat (n mod 256 + n div 256 * 256)" by (simp only: of_nat_add of_nat_mult of_nat_numeral)
  also have "n mod 256 + n div 256 * 256 = n" by simp
  finally show ?thesis unfolding header_len_def Let_def assms(2,3) b [OF d(1)] b [OF d(2)] using assms(1) by simp
qed

lemma scast_type: "t \<in> {1, 2, 3, 4} \<Longrightarrow> scast (ucast t :: byte) = (t :: u32)"
  by auto

lemma parse_ok:
  assumes t: "t \<in> {1, 2, 3, 4}" and p: "length p < 65536" and b: "buffer r = physical t p @ rest"
    and i: "initial_offset r = 0"
  shows "ParsePhysicalRecord fr r =
    Ret (t, p, r\<lparr>buffer := rest, buffer_at := buffer_at r + of_nat (kHeaderSize + length p)\<rparr>)"
proof -
  let ?h = "physical t p @ rest"
  have n: "?h ! 4 = of_nat (length p mod 256)" "?h ! 5 = of_nat (length p div 256)" "?h ! 6 = ucast t"
    by (simp_all add: physical_def nth_append)
  have d: "take (1 + length p) (drop 6 ?h) = ucast t # p" "drop (kHeaderSize + length p) ?h = rest"
    "take (length p) (drop kHeaderSize ?h) = p"
    by (simp_all add: kHeaderSize_def) (simp_all add: physical_def)
  have c: "DecodeFixed32 ?h = Ret (Mask (crc32c 0 (ucast t # p)))" by (simp add: physical_def)
  have "t \<noteq> 0" using t by auto
  then show ?thesis
    unfolding ParsePhysicalRecord_def b Let_def header_len_eq [OF p n(1,2)] n(3) scast_type [OF t] d c
    by (auto simp: crc_Value_eq Unmask_Mask i)
qed

lemma parse_short:
  assumes p: "length p < 65536" and b: "buffer r = take m (physical t p @ rest)" and m: "kHeaderSize \<le> m" "m < kHeaderSize + length p"
    and e: "eof r"
  shows "ParsePhysicalRecord fr r = Ret (kEof, fr, r\<lparr>buffer := []\<rparr>)"
proof -
  have n: "buffer r ! 4 = of_nat (length p mod 256)" "buffer r ! 5 = of_nat (length p div 256)"
    using m by (simp_all add: b physical_def nth_append kHeaderSize_def)
  have "length (buffer r) < kHeaderSize + length p" using m by (simp add: b)
  then show ?thesis
    unfolding ParsePhysicalRecord_def Let_def header_len_eq [OF p n] using e by simp
qed

section \<open>The reader in a file\<close>

text \<open>Fuel for reading all of \<open>rs\<close>.\<close>

definition log_fuel :: "byte list list \<Rightarrow> nat" where
  "log_fuel rs = (\<Sum>r\<leftarrow>rs. 2 * length r + 1) + 3"

context sequential_file
begin

text \<open>
  The reader has consumed the first \<open>pos\<close> bytes of the file \<open>D\<close>; its buffer holds the rest of the
  block, up to \<open>e\<close>.
\<close>

definition reader_at :: "byte list \<Rightarrow> nat \<Rightarrow> nat \<Rightarrow> 'g log_reader \<Rightarrow> bool" where
  "reader_at D pos e r \<longleftrightarrow> pos \<le> e \<and> e \<le> length D \<and> e \<le> pos + room pos \<and>
     buffer r = take (e - pos) (drop pos D) \<and> remaining (rfile r) = drop e D \<and> calm (rfile r) \<and>
     initial_offset r = 0 \<and> \<not> resyncing r \<and> (if eof r then e = length D else e mod kBlockSize = 0)"

lemma room_boundary: "pos \<le> e \<Longrightarrow> e \<le> pos + room pos \<Longrightarrow> e mod kBlockSize = 0 \<Longrightarrow>
    e = pos + room pos \<or> e = pos \<and> room pos = kBlockSize"
proof -
  assume e: "pos \<le> e" "e \<le> pos + room pos" and m: "e mod kBlockSize = 0"
  then obtain n where n: "e = pos + n" "n \<le> room pos" by (metis add_le_cancel_left le_Suc_ex)
  have "room e = kBlockSize" using m by (simp add: room_def)
  with room_advance [OF n(2)] n(1) room_pos [of pos] show ?thesis by (auto split: if_splits)
qed

lemma length_buffer: "reader_at D pos e r \<Longrightarrow> length (buffer r) = e - pos"
  by (auto simp: reader_at_def)

lemma parse_at:
  assumes R: "reader_at D pos e r" and h: "kHeaderSize \<le> e - pos"
    and D: "drop pos D @ z = physical t p @ rest" and t: "t \<in> {1, 2, 3, 4}" and fit: "kHeaderSize + length p \<le> room pos"
  shows "if kHeaderSize + length p \<le> length D - pos
    then \<exists>r'. ParsePhysicalRecord fr r = Ret (t, p, r') \<and> reports r' = reports r \<and> reader_at D (pos + (kHeaderSize + length p)) e r'
    else \<exists>r'. ParsePhysicalRecord fr r = Ret (kEof, fr, r') \<and> reports r' = reports r"
proof -
  let ?n = "kHeaderSize + length p"
  have p: "length p < 65536" using fit room_pos(2) [of pos] by (simp add: log_sizes)
  have whole: "?n \<le> e - pos" if "\<not> eof r"
  proof -
    have "pos \<noteq> e" using h by (auto simp: kHeaderSize_def)
    with that R room_boundary [of pos e] have "e = pos + room pos" by (auto simp: reader_at_def)
    then show ?thesis using fit by simp
  qed
  have take: "take m (drop pos D) = take m (physical t p @ rest)" if "m \<le> length D - pos" for m
    using that arg_cong [OF D, of "take m"] by simp
  have e: "e - pos \<le> length D - pos" using R by (auto simp: reader_at_def)
  show ?thesis
  proof (cases "?n \<le> e - pos")
    case True
    define rest' where "rest' = take (e - pos - ?n) rest"
    have b: "buffer r = physical t p @ rest'"
      using R take [OF e] True by (simp add: reader_at_def rest'_def)
    have "drop (pos + ?n) D @ z = rest" using arg_cong [OF D, of "drop ?n"] True e by (simp add: add.commute)
    then have "rest' = take (e - (pos + ?n)) (drop (pos + ?n) D)"
      using e by (auto simp: rest'_def)
    then have "reader_at D (pos + ?n) e (r\<lparr>buffer := rest', buffer_at := buffer_at r + of_nat ?n\<rparr>)"
      using R True fit room_advance [OF fit] by (auto simp: reader_at_def)
    then show ?thesis
      using parse_ok [OF t p b] R True e by (auto simp: reader_at_def)
  next
    case False
    with whole have eof: "eof r" by blast
    then have "e = length D" using R by (simp add: reader_at_def)
    moreover have "buffer r = take (e - pos) (physical t p @ rest)" using R take [OF e] by (simp add: reader_at_def)
    ultimately show ?thesis using parse_short [OF p _ h _ eof] False by auto
  qed
qed

lemma eof_unchanged: "\<not> eof x \<Longrightarrow> x\<lparr>eof := False\<rparr> = x"
  by (cases x) simp

lemma refill:
  assumes R: "reader_at D pos e r" and b: "e - pos < kHeaderSize" and ne: "\<not> eof r"
  shows "e = pos + length (trailer pos)"
    and "\<exists>r1 e1. (\<forall>fr. ReadPhysicalRecord G fr r = ReadPhysicalRecord G fr r1) \<and> reports r1 = reports r \<and> reader_at D e e1 r1 \<and>
      (eof r1 \<or> kHeaderSize \<le> e1 - e)"
proof -
  from R ne room_boundary [of pos e] have e: "e = pos + room pos \<or> e = pos \<and> room pos = kBlockSize" and m: "e mod kBlockSize = 0"
    by (auto simp: reader_at_def)
  show "e = pos + length (trailer pos)" using e b by (auto simp: trailer_def log_sizes)
  obtain bs g where Rd: "Read G (rfile r) kBlockSize = (OK, bs, g)" and g: "calm g"
    using R read_calm [of "rfile r" kBlockSize] by (auto simp: reader_at_def)
  from read_ok [OF Rd] R have bs: "bs = take kBlockSize (drop e D)" "remaining g = drop (e + kBlockSize) D"
    by (auto simp: reader_at_def add.commute)
  define r1 where "r1 = r\<lparr>rfile := g, buffer := bs, buffer_at := backing_store r,
      end_of_buffer_offset := end_of_buffer_offset r + of_nat (length bs), eof := (length bs < kBlockSize)\<rparr>"
  have eq: "ReadPhysicalRecord G fr r = ReadPhysicalRecord G fr r1" for fr
  proof -
    have "r1 = (if length bs < kBlockSize then r1\<lparr>eof := True\<rparr> else r1\<lparr>eof := False\<rparr>)" by (simp add: r1_def)
    moreover have "length (buffer r) < kHeaderSize" using length_buffer [OF R] b by simp
    ultimately show ?thesis
      using ne by (subst ReadPhysicalRecord.simps) (auto simp: Rd r1_def Let_def eof_unchanged)
  qed
  have "room e = kBlockSize" using m by (simp add: room_def)
  moreover have eD: "e \<le> length D" using R by (simp add: reader_at_def)
  ultimately have at: "reader_at D e (e + length bs) r1"
    using R g m bs by (auto simp: reader_at_def r1_def min_def split: if_splits)
  have "eof r1 \<or> kHeaderSize \<le> length bs" by (auto simp: r1_def log_sizes)
  then show "\<exists>r1 e1. (\<forall>fr. ReadPhysicalRecord G fr r = ReadPhysicalRecord G fr r1) \<and> reports r1 = reports r \<and> reader_at D e e1 r1 \<and>
      (eof r1 \<or> kHeaderSize \<le> e1 - e)"
    using eq at by (intro exI [of _ r1] exI [of _ "e + length bs"]) (auto simp: r1_def)
qed

lemma read_eof:
  "reader_at D pos e r \<Longrightarrow> e - pos < kHeaderSize \<Longrightarrow> eof r \<Longrightarrow> ReadPhysicalRecord G fr r = Ret (kEof, fr, r\<lparr>buffer := []\<rparr>)"
  by (subst ReadPhysicalRecord.simps) (simp add: length_buffer)

lemma read_parse:
  "reader_at D pos e r \<Longrightarrow> kHeaderSize \<le> e - pos \<Longrightarrow> ReadPhysicalRecord G fr r = ParsePhysicalRecord fr r"
  by (subst ReadPhysicalRecord.simps) (simp add: length_buffer)

text \<open>Nothing but an incomplete header is left.\<close>

lemma short_at:
  assumes R: "reader_at D pos e r" and s: "length D - pos < length (trailer pos) + kHeaderSize"
  shows "\<exists>r'. ReadPhysicalRecord G fr r = Ret (kEof, fr, r') \<and> reports r' = reports r"
proof -
  have e: "e \<le> length D" "pos \<le> e" "e - pos \<le> room pos" using R by (auto simp: reader_at_def)
  have b: "e - pos < kHeaderSize" using e s by (auto simp: trailer_def log_sizes split: if_splits)
  show ?thesis
  proof (cases "eof r")
    case True
    with read_eof [OF R b] show ?thesis by simp
  next
    case False
    from refill [OF R b False] obtain r1 e1 where r1: "e = pos + length (trailer pos)"
      "ReadPhysicalRecord G fr r = ReadPhysicalRecord G fr r1" "reports r1 = reports r" "reader_at D e e1 r1"
      "eof r1 \<or> kHeaderSize \<le> e1 - e" by blast
    have "e1 \<le> length D" using r1(4) by (simp add: reader_at_def)
    then have "e1 - e < kHeaderSize" using r1(1) s by (simp add: kHeaderSize_def)
    moreover from this r1(5) have "eof r1" by linarith
    ultimately have "e1 - e < kHeaderSize" "eof r1" by simp_all
    with read_eof [OF r1(4)] r1 show ?thesis by simp
  qed
qed

lemma read_at:
  assumes R: "reader_at D pos e r" and D: "drop pos D @ z = trailer pos @ physical t p @ rest" and t: "t \<in> {1, 2, 3, 4}"
    and fit: "kHeaderSize + length p \<le> room (pos + length (trailer pos))"
  defines "n \<equiv> length (trailer pos) + (kHeaderSize + length p)"
  shows "if n \<le> length D - pos
    then \<exists>r' e'. ReadPhysicalRecord G fr r = Ret (t, p, r') \<and> reports r' = reports r \<and> reader_at D (pos + n) e' r'
    else \<exists>r'. ReadPhysicalRecord G fr r = Ret (kEof, fr, r') \<and> reports r' = reports r"
proof (cases "length D - pos < length (trailer pos) + kHeaderSize")
  case True
  then have "\<not> n \<le> length D - pos" by (simp add: n_def)
  with short_at [OF R True] show ?thesis by simp
next
  case long: False
  have e: "e \<le> length D" "pos \<le> e" "e - pos \<le> room pos" using R by (auto simp: reader_at_def)
  show ?thesis
  proof (cases "kHeaderSize \<le> e - pos")
    case True
    then have "trailer pos = []" using e by (auto simp: trailer_def)
    with parse_at [OF R True _ t, of z p rest fr] D fit read_parse [OF R True, of fr] show ?thesis
      by (simp add: n_def split: if_splits) blast+
  next
    case False
    then have b: "e - pos < kHeaderSize" by simp
    have ne: "\<not> eof r"
    proof
      assume "eof r"
      then have "e = length D" using R by (simp add: reader_at_def)
      with b long show False by simp
    qed
    from refill [OF R b ne] obtain r1 e1 where r1: "e = pos + length (trailer pos)"
      "ReadPhysicalRecord G fr r = ReadPhysicalRecord G fr r1" "reports r1 = reports r" "reader_at D e e1 r1"
      "eof r1 \<or> kHeaderSize \<le> e1 - e" by blast
    have h: "kHeaderSize \<le> e1 - e"
    proof (cases "eof r1")
      case True
      then have "e1 = length D" using r1(4) by (simp add: reader_at_def)
      with long r1(1) e show ?thesis by simp
    qed (use r1(5) in blast)
    have "length (trailer pos) \<le> length (drop pos D)" using long by simp
    then have "drop e D @ z = physical t p @ rest"
      using arg_cong [OF D, of "drop (length (trailer pos))"] by (simp add: r1(1) add.commute)
    from parse_at [OF r1(4) h this t, of fr] fit show ?thesis
      using r1 e long read_parse [OF r1(4) h, of fr] by (auto simp: n_def add.assoc split: if_splits)
  qed
qed

lemma resyncing_unchanged: "\<not> resyncing x \<Longrightarrow> x\<lparr>resyncing := False\<rparr> = x"
  by (cases x) simp

lemma reader_at_last [simp]: "reader_at D pos e (r\<lparr>last_record_offset := n\<rparr>) = reader_at D pos e r"
  by (simp add: reader_at_def)

text \<open>What the loop does with a good fragment, and at the end of the file.\<close>

lemma loop_fragment:
  assumes "ReadPhysicalRecord G fr r = Ret (fragment_type b fin, p, r')" "\<not> resyncing r'"
  shows "\<exists>off'. ReadRecord_loop G (Suc n) (\<not> b) off fr scratch r =
    (let scratch' = (if b then [] else scratch) @ p
     in if fin then Ret (Some scratch', if b then [] else scratch', r'\<lparr>last_record_offset := off'\<rparr>)
        else ReadRecord_loop G n True off' p scratch' r')"
  using assms by (cases b; cases fin) (simp_all add: fragment_type_def resyncing_unchanged Let_def, blast+)

lemma loop_eof:
  "ReadPhysicalRecord G fr r = Ret (kEof, fr', r') \<Longrightarrow>
     \<exists>sc. ReadRecord_loop G (Suc n) frag off fr scratch r = Ret (None, sc, r'\<lparr>resyncing := False\<rparr>)"
  by (simp add: Let_def)

lemma read_frags:
  assumes "reader_at D pos e r" "drop pos D @ z = log_frag pos b p @ rest"
    "2 * length p + (if room pos = kHeaderSize then 1 else 0) < fuel"
  shows "if length (log_frag pos b p) \<le> length D - pos
    then \<exists>sc r' e'. ReadRecord_loop G fuel (\<not> b) off fr scratch r = Ret (Some ((if b then [] else scratch) @ p), sc, r') \<and>
      reports r' = reports r \<and> reader_at D (pos + length (log_frag pos b p)) e' r'
    else \<exists>sc r'. ReadRecord_loop G fuel (\<not> b) off fr scratch r = Ret (None, sc, r') \<and> reports r' = reports r"
  using assms
proof (induction pos b p arbitrary: e r fuel off fr scratch rule: log_frag.induct)
  case (1 pos b p)
  define k n where "k = fragment_len pos p" and "n = length (trailer pos) + (kHeaderSize + k)"
  let ?t = "fragment_type b (length p = k)" and ?q = "drop k p"
  let ?tail = "if k < length p then log_frag (pos + n) False ?q else []"
  have kp: "k \<le> length p" by (simp add: k_def fragment_len_def)
  then have lt: "length (take k p) = k" "min (length p) k = k" by simp_all
  have frag: "log_frag pos b p = trailer pos @ physical ?t (take k p) @ ?tail"
    by (subst log_frag.simps) (simp add: Let_def k_def n_def add.assoc)
  have len: "length (log_frag pos b p) = n + length ?tail" by (simp add: frag n_def lt)
  obtain m where fuel: "fuel = Suc m" using "1.prems"(3) by (cases fuel) auto
  have D: "drop pos D @ z = trailer pos @ physical ?t (take k p) @ ?tail @ rest" using "1.prems"(2) by (simp add: frag)
  have fit: "kHeaderSize + length (take k p) \<le> room (pos + length (trailer pos))"
    using fragment_fits [of pos p] by (simp add: lt k_def)
  note rd = read_at [OF "1.prems"(1) D fragment_type_cases fit, unfolded lt, folded n_def, of fr]
  show ?case
  proof (cases "n \<le> length D - pos")
    case False
    with rd obtain r' where "ReadPhysicalRecord G fr r = Ret (kEof, fr, r')" "reports r' = reports r" by auto
    with loop_eof [of fr r fr r' m "\<not> b" off scratch] False len fuel show ?thesis by auto
  next
    case True
    with rd obtain r' e' where r': "ReadPhysicalRecord G fr r = Ret (?t, take k p, r')" "reports r' = reports r"
      "reader_at D (pos + n) e' r'" by auto
    have "\<not> resyncing r'" using r'(3) by (simp add: reader_at_def)
    from loop_fragment [OF r'(1) this, of m off scratch] obtain off' where L:
      "ReadRecord_loop G fuel (\<not> b) off fr scratch r =
        (let scratch' = (if b then [] else scratch) @ take k p
         in if length p = k then Ret (Some scratch', if b then [] else scratch', r'\<lparr>last_record_offset := off'\<rparr>)
            else ReadRecord_loop G m True off' (take k p) scratch' r')" unfolding fuel by blast
    show ?thesis
    proof (cases "k < length p")
      case False
      then have "length p = k" using kp by simp
      with L r' len True show ?thesis by (auto simp: Let_def)
    next
      case kl: True
      have D': "drop (pos + n) D @ z = log_frag (pos + n) False ?q @ rest"
        using arg_cong [OF D, of "drop n"] True kl by (simp add: n_def lt add.commute)
      have f': "2 * length ?q + (if room (pos + n) = kHeaderSize then 1 else 0) < m"
      proof (cases "k = 0")
        case True
        with kl have "room pos = kHeaderSize" using fragment_len_0 [of pos p] by (auto simp: k_def)
        moreover from this True have "room (pos + n) = kBlockSize"
          using room_advance [of kHeaderSize pos] by (simp add: n_def trailer_def)
        ultimately show ?thesis using "1.prems"(3) True fuel by (simp add: log_sizes)
      next
        case False
        then show ?thesis using "1.prems"(3) kl fuel by (auto split: if_splits)
      qed
      have pn: "pos + length (trailer pos) + kHeaderSize + k = pos + n" by (simp add: n_def)
      let ?sc = "(if b then [] else scratch) @ take k p"
      have L': "ReadRecord_loop G fuel (\<not> b) off fr scratch r = ReadRecord_loop G m True off' (take k p) ?sc r'"
        using L kl by (simp add: Let_def)
      have IH: "if length (log_frag (pos + n) False ?q) \<le> length D - (pos + n)
        then \<exists>sc r'' e''. ReadRecord_loop G m True off' (take k p) ?sc r' = Ret (Some (?sc @ ?q), sc, r'') \<and>
          reports r'' = reports r' \<and> reader_at D (pos + n + length (log_frag (pos + n) False ?q)) e'' r''
        else \<exists>sc r''. ReadRecord_loop G m True off' (take k p) ?sc r' = Ret (None, sc, r'') \<and> reports r'' = reports r'"
        using "1.IH" [OF k_def kl, unfolded pn, OF r'(3) D' f', of off' "take k p" ?sc] by (simp only: not_False_eq_True if_False)
      have "length (log_frag (pos + n) False ?q) \<le> length D - (pos + n) \<longleftrightarrow> length (log_frag pos b p) \<le> length D - pos"
        using True kl len by simp arith
      then show ?thesis using IH kl len r'(2) unfolding L' by (auto simp: add.assoc split: if_splits)
    qed
  qed
qed

lemma ReadRecord_at:
  "reader_at D pos e r \<Longrightarrow> ReadRecord G n scratch r = ReadRecord_loop G n False 0 [] [] r"
  by (simp add: ReadRecord_def reader_at_def)

lemma read_all:
  assumes "reader_at D pos e r" "drop pos D @ z = log_all pos rs" "log_fuel rs \<le> fuel"
  shows "\<exists>k r'. ReadAll G fuel scratch r = Ret (take k rs, r') \<and> reports r' = reports r \<and> k \<le> length rs \<and>
    length (log_all pos (take k rs)) \<le> length D - pos \<and>
    (k < length rs \<longrightarrow> length D - pos < length (log_all pos (take (Suc k) rs)))"
  using assms
proof (induction rs arbitrary: pos e r fuel scratch)
  case Nil
  then obtain m where fuel: "fuel = Suc (Suc m)" by (cases fuel; cases "fuel - 1") (auto simp: log_fuel_def)
  have "length D - pos < length (trailer pos) + kHeaderSize" using Nil.prems(2) by (simp add: kHeaderSize_def)
  from short_at [OF Nil.prems(1) this, of "[]"] obtain r' where
    "ReadPhysicalRecord G [] r = Ret (kEof, [], r')" "reports r' = reports r" by blast
  with ReadRecord_at [OF Nil.prems(1), of "Suc m" scratch] show ?case by (simp add: fuel Let_def)
next
  case (Cons p rs)
  let ?b = "log_frag pos True p"
  obtain m where fuel: "fuel = Suc m" "2 * length p + 1 < m" "log_fuel rs \<le> m"
    using Cons.prems(3) by (cases fuel) (auto simp: log_fuel_def)
  have D: "drop pos D @ z = ?b @ log_all (pos + length ?b) rs" using Cons.prems(2) by simp
  have f: "2 * length p + (if room pos = kHeaderSize then 1 else 0) < m" using fuel(2) by simp
  note rd = read_frags [OF Cons.prems(1) D f, of 0 "[]" "[]", simplified]
  show ?case
  proof (cases "length ?b \<le> length D - pos")
    case False
    with rd obtain sc r' where "ReadRecord_loop G m False 0 [] [] r = Ret (None, sc, r')" "reports r' = reports r" by auto
    then show ?thesis
      using False by (intro exI [of _ 0] exI [of _ r']) (simp add: fuel(1) ReadRecord_at [OF Cons.prems(1)])
  next
    case True
    with rd obtain sc r' e' where L: "ReadRecord_loop G m False 0 [] [] r = Ret (Some p, sc, r')" "reports r' = reports r"
      and at: "reader_at D (pos + length ?b) e' r'" by auto
    have "drop (pos + length ?b) D @ z = log_all (pos + length ?b) rs"
      using arg_cong [OF D, of "drop (length ?b)"] True by (simp add: add.commute)
    from Cons.IH [OF at this fuel(3), of sc] obtain k r'' where IH:
      "ReadAll G m sc r' = Ret (take k rs, r'')" "reports r'' = reports r'" "k \<le> length rs"
      "length (log_all (pos + length ?b) (take k rs)) \<le> length D - (pos + length ?b)"
      "k < length rs \<longrightarrow> length D - (pos + length ?b) < length (log_all (pos + length ?b) (take (Suc k) rs))" by blast
    then show ?thesis
      using L True by (intro exI [of _ "Suc k"] exI [of _ r'']) (auto simp: fuel(1) ReadRecord_at [OF Cons.prems(1)])
  qed
qed

lemma reader_at_start:
  "calm g \<Longrightarrow> remaining g = D \<Longrightarrow> reader_at D 0 0 (Reader_new g rep chk store 0)"
  by (simp add: reader_at_def Reader_new_def room_def log_sizes)

end

end
