(* ===== verification/Log_Props.thy ===== *)
theory Log_Props
  imports Log_Recovery
begin

text \<open>
  Properties of the write-ahead log as it runs on the POSIX files: what \<open>AddRecord\<close> leaves in
  the file, what is read back from a complete or a truncated log, and that no acknowledged
  record is lost, whatever short writes, interruptions and errors the kernel answers with.
\<close>

lemma log_all_append: "log_all pos (xs @ ys) = log_all pos xs @ log_all (pos + length (log_all pos xs)) ys"
  by (induction xs arbitrary: pos) (simp_all add: add.assoc)

lemma log_all_take_mono: "i \<le> j \<Longrightarrow> length (log_all pos (take i rs)) \<le> length (log_all pos (take j rs))"
  using log_all_append [of pos "take i rs" "take (j - i) (drop i rs)"] by (simp flip: take_add)

definition fresh_wfile :: "posix_wfile \<Rightarrow> bool" where
  "fresh_wfile f \<longleftrightarrow> buf f = [] \<and> accepted (wf_fd f) = []"

text \<open>An open file that contains \<open>D\<close>; reading may be interrupted by signals.\<close>

definition opened :: "byte list \<Rightarrow> posix_rfile \<Rightarrow> bool" where
  "opened D g \<longleftrightarrow> fdata (rf_fd g) = D \<and> foffset (rf_fd g) = 0 \<and> set (revents (rf_fd g)) \<subseteq> {EINTR}"

lemma reader_opened: "opened D g \<Longrightarrow> pr.reader_at D 0 0 (Reader_new g rep chk store 0)"
  by (rule pr.reader_at_start) (simp_all add: opened_def rf_calm_def rf_remaining_def)

lemma Writer_new_at: "Writer_new a0 f = Ret \<lparr>dest = f, block_offset = 0, type_crc = map (\<lambda>i. crc32c 0 [of_nat i]) [0..<5]\<rparr>"
  by (simp add: Writer_new_def InitTypeCrc_eq)

lemma writer_at_new: "writer_at 0 \<lparr>dest = f, block_offset = 0, type_crc = map (\<lambda>i. crc32c 0 [of_nat i]) [0..<5]\<rparr>"
  by (simp add: writer_at_def crc_table_ok_def)

text \<open>
  C10: recovery is exact: from a file that holds any prefix of a log, complete or cut anywhere by
  a crash, the reader returns precisely the records that lie completely in the prefix, in
  order, and reports no corruption.
\<close>

theorem log_recovery_exact:
  assumes "opened (take n (log_all 0 rs)) g" and "log_fuel rs \<le> fuel"
  shows "\<exists>k r'. ReadAll (posix_sequential se) fuel [] (Reader_new g rep chk store 0) = Ret (take k rs, r') \<and> reports r' = [] \<and>
    k \<le> length rs \<and> length (log_all 0 (take k rs)) \<le> n \<and>
    (k < length rs \<longrightarrow> n < length (log_all 0 (take (Suc k) rs)))"
proof -
  let ?D = "take n (log_all 0 rs)"
  have "drop 0 ?D @ drop n (log_all 0 rs) = log_all 0 rs" by simp
  from pr.read_all [OF reader_opened [OF assms(1), of rep chk store] this assms(2), of se "[]"]
  obtain k r' where k: "ReadAll (posix_sequential se) fuel [] (Reader_new g rep chk store 0) = Ret (take k rs, r')"
    "reports r' = []" "k \<le> length rs" "length (log_all 0 (take k rs)) \<le> length ?D"
    "k < length rs \<longrightarrow> length ?D < length (log_all 0 (take (Suc k) rs))" by (auto simp: Reader_new_def)
  have "n < length (log_all 0 (take (Suc k) rs))" if "k < length rs"
    using k(5) that log_all_take_mono [of "Suc k" "length rs" 0 rs] by (simp add: min_def split: if_splits)
  with k show ?thesis by auto
qed

definition sample_log_file :: posix_rfile where
  "sample_log_file = \<lparr>rf_fd = \<lparr>fdata = take 16 (log_all 0 [[1, 2], [3]]), foffset = 0, revents = [EINTR]\<rparr>, rf_name = ''000003.log''\<rparr>"

theorem log_recovery_exact_witness:
  "\<exists>k r'. ReadAll (posix_sequential (\<lambda>_. [])) 20 [] (Reader_new sample_log_file True True 0 0) = Ret (take k [[1, 2], [3]], r') \<and>
    reports r' = [] \<and> k \<le> length [[1, 2], [3 :: byte]] \<and> length (log_all 0 (take k [[1, 2], [3]])) \<le> 16 \<and>
    (k < length [[1, 2], [3 :: byte]] \<longrightarrow> 16 < length (log_all 0 (take (Suc k) [[1, 2], [3]])))"
  by (rule log_recovery_exact) (simp_all add: opened_def sample_log_file_def log_fuel_def)

text \<open>
  C11: no acknowledged record is lost: when records are added to a new log until one is refused,
  whatever the kernel does to the writes, then reading the bytes that reached the system returns
  at least the acknowledged records, at most the records that were given, in order, and reports
  no corruption.
\<close>

theorem log_acknowledged_survive:
  assumes "fresh_wfile f"
  shows "\<exists>w k w'. Writer_new a0 f = Ret w \<and> AddAll (posix_writable se) a rs w = Ret (k, w') \<and> k \<le> length rs \<and>
    (\<forall>g. opened (accepted (wf_fd (dest w'))) g \<longrightarrow>
      (\<exists>j r'. ReadAll (posix_sequential se) (log_fuel rs) [] (Reader_new g rep chk store 0) = Ret (take j rs, r') \<and>
        k \<le> j \<and> j \<le> length rs \<and> reports r' = []))"
proof -
  let ?w = "\<lparr>dest = f, block_offset = 0, type_crc = map (\<lambda>i. crc32c 0 [of_nat i]) [0..<5]\<rparr>"
  have c: "wf_contents f = []" "wf_inv f" "wf_clean f" "wf_durable f = wf_contents f"
    using assms by (simp_all add: fresh_wfile_def wf_contents_def wf_inv_def wf_clean_def wf_durable_def)
  then obtain k w' where A: "AddAll (posix_writable se) a rs ?w = Ret (k, w')" "k \<le> length rs" "wf_inv (dest w')"
    and p: "\<exists>d. log_all 0 rs = wf_contents (dest w') @ d" and q: "\<exists>d. wf_durable (dest w') = log_all 0 (take k rs) @ d"
    using pw.AddAll_writes [OF _ _ writer_at_new, of f se a rs] by auto
  let ?D = "accepted (wf_fd (dest w'))"
  obtain z where z: "?D @ z = log_all 0 rs" using p by (auto simp: wf_contents_def)
  have len: "length (log_all 0 (take k rs)) \<le> length ?D" using q by (auto simp: wf_durable_def)
  have "\<exists>j r'. ReadAll (posix_sequential se) (log_fuel rs) [] (Reader_new g rep chk store 0) = Ret (take j rs, r') \<and>
      k \<le> j \<and> j \<le> length rs \<and> reports r' = []" if g: "opened ?D g" for g
  proof -
    have z0: "drop 0 ?D @ z = log_all 0 rs" using z by simp
    from pr.read_all [OF reader_opened [OF g, of rep chk store] z0 order_refl, of se "[]"]
    obtain j r' where j: "ReadAll (posix_sequential se) (log_fuel rs) [] (Reader_new g rep chk store 0) = Ret (take j rs, r')"
      "reports r' = []" "j \<le> length rs" "j < length rs \<longrightarrow> length ?D < length (log_all 0 (take (Suc j) rs))"
      by (auto simp: Reader_new_def)
    have "k \<le> j"
    proof (rule ccontr)
      assume "\<not> k \<le> j"
      then have "Suc j \<le> k" "j < length rs" using A(2) by auto
      with j(4) len log_all_take_mono [of "Suc j" k 0 rs] show False by simp
    qed
    with j show ?thesis by blast
  qed
  with A Writer_new_at [of a0 f] show ?thesis by blast
qed

definition sample_wfile :: posix_wfile where
  "sample_wfile = \<lparr>buf = [], wf_fd = \<lparr>accepted = [], wevents = [Accepts 3, Write_fails EINTR, Accepts 100, Write_fails 28]\<rparr>,
     wf_name = ''000003.log''\<rparr>"

theorem log_acknowledged_survive_witness:
  "\<exists>w k w'. Writer_new 0 sample_wfile = Ret w \<and> AddAll (posix_writable (\<lambda>_. [])) 64 [[1, 2], [3]] w = Ret (k, w') \<and>
    k \<le> length [[1, 2], [3 :: byte]] \<and>
    (\<forall>g. opened (accepted (wf_fd (dest w'))) g \<longrightarrow>
      (\<exists>j r'. ReadAll (posix_sequential (\<lambda>_. [])) (log_fuel [[1, 2], [3]]) [] (Reader_new g True True 0 0) =
          Ret (take j [[1, 2], [3]], r') \<and> k \<le> j \<and> j \<le> length [[1, 2], [3 :: byte]] \<and> reports r' = []))"
  by (rule log_acknowledged_survive) (simp add: fresh_wfile_def sample_wfile_def)

text \<open>
  C12: what \<open>AddRecord\<close> writes: at position \<open>pos\<close> of a flushed file it returns with all fragments
  of the record behind the old contents and flushed, or with an error and a prefix of them; what
  had reached the system stays there.
\<close>

theorem AddRecord_format:
  assumes "buf (dest w) = []" and "type_crc w = map (\<lambda>i. crc32c 0 [of_nat i]) [0..<5]"
    and "block_offset w \<le> kBlockSize" and "block_offset w mod kBlockSize = pos mod kBlockSize"
  shows "\<exists>s w'. AddRecord (posix_writable se) a p w = Ret (s, w') \<and>
    (if s = OK then accepted (wf_fd (dest w')) = accepted (wf_fd (dest w)) @ log_frag pos True p \<and> buf (dest w') = []
     else \<exists>d e. accepted (wf_fd (dest w)) @ log_frag pos True p = accepted (wf_fd (dest w')) @ e \<and>
            accepted (wf_fd (dest w')) = accepted (wf_fd (dest w)) @ d)"
proof -
  have i: "wf_inv (dest w)" "wf_clean (dest w)" "writer_at pos w"
    using assms by (simp_all add: wf_inv_def wf_clean_def writer_at_def crc_table_ok_def)
  obtain s w' where A: "AddRecord (posix_writable se) a p w = Ret (s, w')"
    and W: "pw.writes (dest w) (log_frag pos True p) s (dest w')"
    using pw.AddRecord_writes [OF i, of se a p] by blast
  have c: "wf_contents (dest w) = accepted (wf_fd (dest w))" using assms(1) by (simp add: wf_contents_def)
  show ?thesis
  proof (cases "s = OK")
    case True
    with A W c show ?thesis by (auto simp: pw.writes_def wf_contents_def wf_clean_def)
  next
    case False
    from W False c obtain d where d: "accepted (wf_fd (dest w)) @ log_frag pos True p = accepted (wf_fd (dest w')) @ buf (dest w') @ d"
      by (auto simp: pw.writes_def wf_contents_def)
    from W obtain e where "accepted (wf_fd (dest w')) = accepted (wf_fd (dest w)) @ e"
      by (auto simp: pw.writes_def pw.grows_def wf_durable_def)
    with A False d show ?thesis by auto
  qed
qed

definition sample_writer :: "posix_wfile log_writer" where
  "sample_writer = \<lparr>dest = sample_wfile, block_offset = 0, type_crc = map (\<lambda>i. crc32c 0 [of_nat i]) [0..<5]\<rparr>"

theorem AddRecord_format_witness:
  "\<exists>s w'. AddRecord (posix_writable (\<lambda>_. [])) 64 [7, 8] sample_writer = Ret (s, w') \<and>
    (if s = OK then accepted (wf_fd (dest w')) = accepted (wf_fd (dest sample_writer)) @ log_frag 0 True [7, 8] \<and> buf (dest w') = []
     else \<exists>d e. accepted (wf_fd (dest sample_writer)) @ log_frag 0 True [7, 8] = accepted (wf_fd (dest w')) @ e \<and>
            accepted (wf_fd (dest w')) = accepted (wf_fd (dest sample_writer)) @ d)"
  by (rule AddRecord_format) (simp_all add: sample_writer_def sample_wfile_def)

text \<open>
  C13: with checksums on, a fragment is only ever delivered when the stored checksum is the CRC of
  exactly the delivered type and bytes, and it lies in the buffer behind its header.
\<close>

theorem log_fragment_checked:
  assumes "ParsePhysicalRecord fr r = Ret (t, p, r')" and "checksum r" and "t \<noteq> kEof" and "t \<noteq> kBadRecord"
    and "kHeaderSize \<le> length (buffer r)"
  shows "t = scast (buffer r ! 6) \<and> DecodeFixed32 (buffer r) = Ret (Mask (crc32c 0 (buffer r ! 6 # p))) \<and>
    buffer r = take kHeaderSize (buffer r) @ p @ buffer r'"
proof -
  let ?h = "buffer r" and ?n = "header_len (buffer r)"
  obtain stored where st: "DecodeFixed32 ?h = Ret stored" using assms(5) by (simp add: DecodeFixed32_def kHeaderSize_def)
  have l: "kHeaderSize + ?n \<le> length ?h" and v: "crc32c 0 (take (1 + ?n) (drop 6 ?h)) = Unmask stored"
    and t: "t = scast (?h ! 6)" and p: "p = take ?n (drop kHeaderSize ?h)" and r': "buffer r' = drop (kHeaderSize + ?n) ?h"
    using assms(1-4) st by (auto simp: ParsePhysicalRecord_def Let_def crc_Value_eq split: if_splits)
  have "drop 6 ?h = ?h ! 6 # drop 7 ?h" using assms(5) Cons_nth_drop_Suc [of 6 ?h] by (simp add: kHeaderSize_def)
  then have "take (1 + ?n) (drop 6 ?h) = ?h ! 6 # p" by (simp add: p kHeaderSize_def)
  with v have "stored = Mask (crc32c 0 (?h ! 6 # p))" using Mask_of_Unmask by metis
  moreover have "?h = take kHeaderSize ?h @ p @ buffer r'"
    unfolding p r' by (metis append_take_drop_id drop_drop add.commute)
  ultimately show ?thesis using t st by simp
qed

definition sample_reader :: "posix_rfile log_reader" where
  "sample_reader = (Reader_new sample_log_file True True 0 0)\<lparr>buffer := physical kFullType [1, 2] @ [9], eof := True\<rparr>"

theorem log_fragment_checked_witness:
  "\<exists>t p r'. ParsePhysicalRecord [] sample_reader = Ret (t, p, r') \<and>
    t = scast (buffer sample_reader ! 6) \<and> DecodeFixed32 (buffer sample_reader) = Ret (Mask (crc32c 0 (buffer sample_reader ! 6 # p))) \<and>
    buffer sample_reader = take kHeaderSize (buffer sample_reader) @ p @ buffer r'"
proof -
  have "\<exists>r'. ParsePhysicalRecord [] sample_reader = Ret (kFullType, [1, 2], r')"
    using parse_ok [of kFullType "[1, 2]" sample_reader "[9]" "[]"] by (simp add: sample_reader_def Reader_new_def)
  then obtain r' where P: "ParsePhysicalRecord [] sample_reader = Ret (kFullType, [1, 2], r')" ..
  have "checksum sample_reader" "kHeaderSize \<le> length (buffer sample_reader)"
    by (simp_all add: sample_reader_def Reader_new_def)
  from log_fragment_checked [OF P this(1) _ _ this(2)] P show ?thesis by auto
qed

lemma scast_byte_eq: "(scast t :: u32) = scast u \<longleftrightarrow> t = u" for t u :: byte
proof
  assume "(scast t :: u32) = scast u"
  then have "sint (scast t :: u32) = sint (scast u :: u32)" by simp
  then show "t = u" by (simp add: sint_up_scast is_up signed_word_eqI)
qed simp

lemma scast_type_byte:
  fixes t :: byte
  assumes "4 < t"
  shows "(scast t :: u32) \<noteq> 1" "(scast t :: u32) \<noteq> 2" "(scast t :: u32) \<noteq> 3" "(scast t :: u32) \<noteq> 4"
    "(scast t :: u32) = 5 \<longleftrightarrow> t = 5" "(scast t :: u32) = 6 \<longleftrightarrow> t = 6"
proof -
  show "(scast t :: u32) \<noteq> 1" "(scast t :: u32) \<noteq> 2" "(scast t :: u32) \<noteq> 3" "(scast t :: u32) \<noteq> 4"
    "(scast t :: u32) = 5 \<longleftrightarrow> t = 5" "(scast t :: u32) = 6 \<longleftrightarrow> t = 6"
    using scast_byte_eq [of t 1] scast_byte_eq [of t 2] scast_byte_eq [of t 3] scast_byte_eq [of t 4]
      scast_byte_eq [of t 5] scast_byte_eq [of t 6] assms by auto
qed

lemma parse_any_type:
  assumes t: "t \<noteq> (0 :: byte)" and p: "length p < 65536" and b: "buffer r = physical (ucast t) p @ rest"
    and i: "initial_offset r \<le> end_of_buffer_offset r - of_nat (length rest) - of_nat kHeaderSize - of_nat (length p)"
  shows "ParsePhysicalRecord fr r =
    Ret (scast t, p, r\<lparr>buffer := rest, buffer_at := buffer_at r + of_nat (kHeaderSize + length p)\<rparr>)"
proof -
  let ?h = "physical (ucast t) p @ rest"
  have n: "?h ! 4 = of_nat (length p mod 256)" "?h ! 5 = of_nat (length p div 256)" "?h ! 6 = t"
    by (simp_all add: physical_def nth_append ucast_up_ucast_id is_up)
  have d: "take (1 + length p) (drop 6 ?h) = t # p" "drop (kHeaderSize + length p) ?h = rest"
    "take (length p) (drop kHeaderSize ?h) = p"
    by (simp_all add: kHeaderSize_def) (simp_all add: physical_def ucast_up_ucast_id is_up)
  have c: "DecodeFixed32 ?h = Ret (Mask (crc32c 0 (t # p)))" by (simp add: physical_def ucast_up_ucast_id is_up)
  have z: "(scast t :: u32) \<noteq> 0"
    using t scast_byte_eq [of t 0] by simp
  have l: "\<not> length ?h < kHeaderSize + length p" by (simp add: physical_def kHeaderSize_def)
  have i': "\<not> end_of_buffer_offset r - of_nat (length rest) - of_nat kHeaderSize - of_nat (length p) < initial_offset r"
    using i by (simp only: not_less)
  show ?thesis
    unfolding ParsePhysicalRecord_def b Let_def header_len_eq [OF p n(1,2)] n(3) d c
    using z l i' by (cases "checksum r") (simp_all add: crc_Value_eq Unmask_Mask)
qed

text \<open>
  C14: the internal codes of the reader collide with record types on disk. Let the next physical
  record be complete and carry a correct checksum, with any payload, any bytes behind it and in any
  state of the reader whose initial offset it does not precede. With a type byte that is no code of
  the writer and neither 5 nor 6 the record is reported as one of unknown type and reading goes on
  behind it; with type byte 5 the record is taken for the end of the file, so that reading stops
  without any report, with what follows still in the buffer, and the fragments collected so far are
  dropped; with type byte 6 it is taken for a bad record and skipped, and only an interrupted logical
  record is reported.
\<close>

theorem log_type_5_reads_as_eof:
  assumes "4 < t" and "length p < 65536" and "buffer r = physical (ucast (t :: byte)) p @ rest"
    and "initial_offset r \<le> end_of_buffer_offset r - of_nat (length rest) - of_nat kHeaderSize - of_nat (length p)"
  shows "ReadRecord_loop G (Suc n) frag off fr scratch r =
    (let r' = r\<lparr>buffer := rest, buffer_at := buffer_at r + of_nat (kHeaderSize + length p), resyncing := False\<rparr>
     in if t = 5 then Ret (None, if frag then [] else scratch, r')
        else if t = 6 then
          ReadRecord_loop G n False off p (if frag then [] else scratch)
            (if frag then ReportCorruption (of_nat (length scratch)) ''error in middle of record'' r' else r')
        else
          ReadRecord_loop G n False off p []
            (ReportCorruption (of_nat (length p) + (if frag then of_nat (length scratch) else 0))
              (''unknown record type '' @ decimal (unat (scast t :: u32))) r'))"
proof -
  have "ReadPhysicalRecord G fr r = ParsePhysicalRecord fr r"
    by (subst ReadPhysicalRecord.simps) (simp add: assms(3) physical_def kHeaderSize_def)
  also have "\<dots> = Ret (scast t, p, r\<lparr>buffer := rest, buffer_at := buffer_at r + of_nat (kHeaderSize + length p)\<rparr>)"
    using assms by (intro parse_any_type) auto
  finally show ?thesis
    using scast_type_byte [OF assms(1)] by (auto simp: Let_def)
qed

theorem log_type_5_reads_as_eof_witness:
  "ReadRecord_loop (posix_sequential (\<lambda>_. [])) 1 True 0 [] [7]
     ((Reader_new sample_log_file True True 0 0)\<lparr>buffer := physical 5 [1, 2, 3] @ physical kFullType [4], end_of_buffer_offset := 18\<rparr>) =
   Ret (None, [], (Reader_new sample_log_file True True 0 0)\<lparr>buffer := physical kFullType [4], end_of_buffer_offset := 18, buffer_at := 10\<rparr>)"
  using log_type_5_reads_as_eof [of 5 "[1, 2, 3]"
      "(Reader_new sample_log_file True True 0 0)\<lparr>buffer := physical 5 [1, 2, 3] @ physical kFullType [4], end_of_buffer_offset := 18\<rparr>"
      "physical kFullType [4]" "posix_sequential (\<lambda>_. [])" 0 True 0 "[]" "[7]"]
  by (simp add: Reader_new_def kHeaderSize_def physical_def)

end
