(* ===== verification/Limiter.thy ===== *)
theory Limiter
  imports "HOL-Library.Word"
begin

text \<open>
  The resource limiter of \<open>util/env_posix.cc\<close>. \<open>Acquire\<close> is not atomic: it takes one from
  the counter and, when there was nothing left, gives it back in a second atomic step. Calls
  interleave at the level of these atomic steps. The counter is \<open>std::atomic<int>\<close>: a 32-bit
  word read as signed, which wraps around (\<open>fetch_sub\<close> and \<open>fetch_add\<close> of a signed atomic are
  defined to wrap). An index of \<open>threads\<close> is one caller with at most one resource: a thread
  that holds several resources is several indices, a call of \<open>Acquire\<close> that is not followed
  by \<open>Release\<close> stays \<open>Holding\<close>. The callers of a run come from a set \<open>T\<close>, whose size bounds
  how many of them are in flight at the same time.
\<close>

datatype lpc =
    Idle            \<comment> \<open>holds nothing\<close>
  | Refused         \<comment> \<open>\<open>fetch_sub\<close> returned a value that was not positive; \<open>fetch_add\<close> is next\<close>
  | Holding         \<comment> \<open>\<open>Acquire\<close> returned true\<close>

record limiter =
  acquires_allowed :: "32 word"
  threads :: "nat \<Rightarrow> lpc"

definition Limiter_init :: "32 word \<Rightarrow> limiter" where
  "Limiter_init max_acquires = \<lparr>acquires_allowed = max_acquires, threads = (\<lambda>_. Idle)\<rparr>"

inductive Limiter_step :: "nat set \<Rightarrow> limiter \<Rightarrow> limiter \<Rightarrow> bool" for T where
  Acquire_ok: "t \<in> T \<Longrightarrow> threads s t = Idle \<Longrightarrow> sint (acquires_allowed s) > 0 \<Longrightarrow>
    Limiter_step T s (s\<lparr>acquires_allowed := acquires_allowed s - 1, threads := (threads s)(t := Holding)\<rparr>)"
| Acquire_sub: "t \<in> T \<Longrightarrow> threads s t = Idle \<Longrightarrow> \<not> sint (acquires_allowed s) > 0 \<Longrightarrow>
    Limiter_step T s (s\<lparr>acquires_allowed := acquires_allowed s - 1, threads := (threads s)(t := Refused)\<rparr>)"
| Acquire_add: "threads s t = Refused \<Longrightarrow>
    Limiter_step T s (s\<lparr>acquires_allowed := acquires_allowed s + 1, threads := (threads s)(t := Idle)\<rparr>)"
| Release: "threads s t = Holding \<Longrightarrow>
    Limiter_step T s (s\<lparr>acquires_allowed := acquires_allowed s + 1, threads := (threads s)(t := Idle)\<rparr>)"

inductive_cases Limiter_stepE: "Limiter_step T s s'"

definition in_pc :: "limiter \<Rightarrow> lpc \<Rightarrow> nat set" where
  "in_pc s c = {t. threads s t = c}"

text \<open>
  The invariant counts in the integers: the signed value of the counter is the limit less
  the resources held and the refused calls that have not given theirs back yet.
\<close>

definition Limiter_inv :: "nat set \<Rightarrow> int \<Rightarrow> limiter \<Rightarrow> bool" where
  "Limiter_inv T m s \<longleftrightarrow> in_pc s Holding \<subseteq> T \<and> in_pc s Refused \<subseteq> T \<and>
     sint (acquires_allowed s) + int (card (in_pc s Holding)) + int (card (in_pc s Refused)) = m \<and>
     int (card (in_pc s Holding)) \<le> m"

lemma in_pc_upd:
  "in_pc (s\<lparr>acquires_allowed := n, threads := (threads s)(t := c)\<rparr>) d =
     (if c = d then insert t (in_pc s d) else in_pc s d - {t})"
  by (auto simp: in_pc_def)

lemma in_pc_iff: "t \<in> in_pc s c \<longleftrightarrow> threads s t = c"
  by (simp add: in_pc_def)

lemma Limiter_inv_init: "0 \<le> sint m \<Longrightarrow> Limiter_inv T (sint m) (Limiter_init m)"
  by (simp add: Limiter_inv_def Limiter_init_def in_pc_def)

lemma card_leave: "threads s t = c \<Longrightarrow> finite (in_pc s c) \<Longrightarrow> int (card (in_pc s c - {t})) = int (card (in_pc s c)) - 1"
  using card_Suc_Diff1 [of "in_pc s c" t] by (simp add: in_pc_iff)

lemma in_pc_keep: "threads s t \<noteq> c \<Longrightarrow> in_pc s c - {t} = in_pc s c"
  by (auto simp: in_pc_def)

text \<open>Signed arithmetic on the counter is exact away from the end of the range it moves to.\<close>

lemma sint_minus_1: "- (2 ^ 31) < sint x \<Longrightarrow> sint (x - 1) = sint x - 1" for x :: "32 word"
  using sint_lt [of x] by (simp add: sint_word_ariths signed_take_bit_int_eq_self)

lemma sint_plus_1: "sint x < 2 ^ 31 - 1 \<Longrightarrow> sint (x + 1) = sint x + 1" for x :: "32 word"
  using sint_ge [of x] by (simp add: sint_word_ariths signed_take_bit_int_eq_self)

lemma in_flight_bound:
  assumes "finite T" "in_pc s Holding \<subseteq> T" "in_pc s Refused \<subseteq> T" "t \<in> T" "threads s t = Idle"
  shows "card (in_pc s Holding) + card (in_pc s Refused) < card T"
proof -
  have "in_pc s Holding \<union> in_pc s Refused \<subset> T" "in_pc s Holding \<inter> in_pc s Refused = {}"
    using assms by (auto simp: in_pc_def)
  then show ?thesis
    using psubset_card_mono [OF assms(1)] card_Un_disjoint assms by (metis finite_subset)
qed

lemma Limiter_inv_step:
  assumes T: "finite T" "int (card T) \<le> 2 ^ 31 + m" and m: "m < 2 ^ 31"
    and inv: "Limiter_inv T m s" and st: "Limiter_step T s s'"
  shows "Limiter_inv T m s'"
proof -
  have fin: "finite (in_pc s Holding)" "finite (in_pc s Refused)"
    using inv T finite_subset by (auto simp: Limiter_inv_def)
  have dec: "t \<in> T \<Longrightarrow> threads s t = Idle \<Longrightarrow> sint (acquires_allowed s - 1) = sint (acquires_allowed s) - 1" for t
    using in_flight_bound [of T s t] inv T by (intro sint_minus_1) (auto simp: Limiter_inv_def)
  have inc: "c \<noteq> Idle \<Longrightarrow> threads s t = c \<Longrightarrow> sint (acquires_allowed s + 1) = sint (acquires_allowed s) + 1" for t c
  proof (intro sint_plus_1)
    assume "c \<noteq> Idle" "threads s t = c"
    then have "0 < card (in_pc s Holding) \<or> 0 < card (in_pc s Refused)"
      using fin by (cases c) (auto simp: card_gt_0_iff in_pc_def)
    then show "sint (acquires_allowed s) < 2 ^ 31 - 1"
      using inv m by (auto simp: Limiter_inv_def)
  qed
  from st show ?thesis
    by (rule Limiter_stepE)
      (use inv fin dec inc [of Refused] inc [of Holding] in \<open>auto simp: Limiter_inv_def in_pc_upd in_pc_iff in_pc_keep card_insert_if card_leave
         simp del: card_Diff_singleton card_Diff_insert\<close>)
qed

lemma Limiter_inv_reachable:
  assumes T: "finite T" "int (card T) \<le> 2 ^ 31 + m" "m < 2 ^ 31"
    and "(Limiter_step T)\<^sup>*\<^sup>* s s'" and "Limiter_inv T m s"
  shows "Limiter_inv T m s'"
  using assms(4,5) by (induction rule: rtranclp_induct) (auto intro: Limiter_inv_step [OF T])

lemma sint_less_2p31: "sint x < 2 ^ 31" for x :: "32 word"
  using sint_range_size [of x] by (simp add: word_size)

text \<open>
  Without a bound on the callers the counter can wrap: with 2 to the 31 plus one refused calls
  in flight it has a positive value again, and a limiter of no resources at all hands one out.
\<close>

lemma sint_minus_nat: "n \<le> 2 ^ 31 \<Longrightarrow> sint (- of_nat n :: 32 word) = - int n"
proof (induction n)
  case (Suc n)
  then have "sint (- of_nat n - 1 :: 32 word) = sint (- of_nat n :: 32 word) - 1"
    by (intro sint_minus_1) simp
  moreover have "- of_nat n - 1 = (- of_nat (Suc n) :: 32 word)" by simp
  ultimately show ?case using Suc by simp
qed simp

lemma Limiter_refuse_all:
  "n \<le> 2 ^ 31 + 1 \<Longrightarrow> {..<n} \<subseteq> T \<Longrightarrow>
    (Limiter_step T)\<^sup>*\<^sup>* (Limiter_init 0)
      \<lparr>acquires_allowed = - of_nat n, threads = (\<lambda>t. if t < n then Refused else Idle)\<rparr>"
proof (induction n)
  case (Suc n)
  let ?s = "\<lparr>acquires_allowed = - of_nat n, threads = (\<lambda>t. if t < n then Refused else Idle)\<rparr>"
  have "\<not> sint (- of_nat n :: 32 word) > 0"
    using Suc.prems by (simp add: sint_minus_nat)
  then have "Limiter_step T ?s (?s\<lparr>acquires_allowed := acquires_allowed ?s - 1, threads := (threads ?s)(n := Refused)\<rparr>)"
    using Suc.prems by (intro Acquire_sub) auto
  moreover have "(threads ?s)(n := Refused) = (\<lambda>t. if t < Suc n then Refused else Idle)"
    by (auto simp: less_Suc_eq)
  moreover have "- of_nat n - 1 = (- of_nat (Suc n) :: 32 word)" by simp
  ultimately have "Limiter_step T ?s \<lparr>acquires_allowed = - of_nat (Suc n), threads = (\<lambda>t. if t < Suc n then Refused else Idle)\<rparr>"
    by simp
  moreover have "(Limiter_step T)\<^sup>*\<^sup>* (Limiter_init 0) ?s"
    using Suc.prems by (intro Suc.IH) auto
  ultimately show ?case by simp
qed (simp add: Limiter_init_def)

lemma Limiter_unbounded_callers:
  assumes "T = {..<2 ^ 31 + 2}"
  shows "\<exists>s. (Limiter_step T)\<^sup>*\<^sup>* (Limiter_init 0) s \<and> (\<exists>t. threads s t = Holding)"
proof -
  define n :: nat where "n = 2 ^ 31 + 1"
  let ?s = "\<lparr>acquires_allowed = - of_nat n, threads = (\<lambda>t. if t < n then Refused else Idle)\<rparr>"
  have "sint (acquires_allowed ?s) > 0"
    by (simp add: n_def)
  then have "Limiter_step T ?s (?s\<lparr>acquires_allowed := acquires_allowed ?s - 1, threads := (threads ?s)(n := Holding)\<rparr>)"
    by (intro Acquire_ok) (auto simp: assms n_def)
  moreover have "(Limiter_step T)\<^sup>*\<^sup>* (Limiter_init 0) ?s"
    by (rule Limiter_refuse_all) (auto simp: n_def assms)
  ultimately show ?thesis
    by (intro exI [of _ "?s\<lparr>acquires_allowed := acquires_allowed ?s - 1, threads := (threads ?s)(n := Holding)\<rparr>"])
      (auto intro: exI [of _ n])
qed

text \<open>
  C32: for a limit that is not negative and at most 2 to the 31 plus the limit callers, in
  every interleaving of their atomic steps never more than \<open>max_acquires\<close> of them hold a
  resource at the same time, and when no refused call is in flight the counter, read as a
  signed 32-bit integer, is exactly the number of resources that are left. The bound is what
  keeps the counter from wrapping around.
\<close>

theorem Limiter_bounded:
  assumes "0 \<le> sint max_acquires" and "finite T" and "int (card T) \<le> 2 ^ 31 + sint max_acquires"
    and "(Limiter_step T)\<^sup>*\<^sup>* (Limiter_init max_acquires) s"
  shows "int (card {t. threads s t = Holding}) \<le> sint max_acquires \<and>
    ((\<forall>t. threads s t \<noteq> Refused) \<longrightarrow>
      sint (acquires_allowed s) = sint max_acquires - int (card {t. threads s t = Holding}))"
  using Limiter_inv_reachable [OF assms(2,3) sint_less_2p31 assms(4) Limiter_inv_init [OF assms(1)]]
  by (auto simp: Limiter_inv_def in_pc_def)

theorem Limiter_bounded_witness:
  "int (card {t. threads ((Limiter_init 1)\<lparr>acquires_allowed := 0, threads := (\<lambda>_. Idle)(7 := Holding)\<rparr>) t = Holding}) \<le> 1"
proof -
  have "Limiter_step {7, 8} (Limiter_init 1) ((Limiter_init 1)\<lparr>acquires_allowed := 0, threads := (\<lambda>_. Idle)(7 := Holding)\<rparr>)"
    using Acquire_ok [of 7 "{7, 8}" "Limiter_init 1"] by (simp add: Limiter_init_def)
  then have "(Limiter_step {7, 8})\<^sup>*\<^sup>* (Limiter_init 1) ((Limiter_init 1)\<lparr>acquires_allowed := 0, threads := (\<lambda>_. Idle)(7 := Holding)\<rparr>)"
    by (rule r_into_rtranclp)
  from Limiter_bounded [OF _ _ _ this] show ?thesis by simp
qed

end
