(* ===== verification/Comparator.thy ===== *)
theory Comparator
  imports Prelude
begin

text \<open>
  Key order (\<open>include/leveldb/slice.h\<close>, \<open>include/leveldb/comparator.h\<close>, \<open>util/comparator.cc\<close>):
  the comparison of slices, the interface \<open>Comparator\<close> as a record of its virtual functions, the
  bytewise comparator, and the contract of the interface as a locale that the bytewise comparator
  satisfies. A slice is a byte list; the functions of the interface have outcomes, since a
  comparator that takes keys apart may read outside of a malformed one.
\<close>

section \<open>Slices\<close>

text \<open>\<open>memcmp\<close> on arrays of one length compares unsigned bytes; only the sign of the result counts.\<close>

fun memcmp :: "byte list \<Rightarrow> byte list \<Rightarrow> int" where
  "memcmp (x # a) (y # b) = (if x < y then - 1 else if y < x then 1 else memcmp a b)"
| "memcmp _ _ = 0"

definition Slice_compare :: "byte list \<Rightarrow> byte list \<Rightarrow> int" where
  "Slice_compare a b =
     (let min_len = (if length a < length b then length a else length b);
          r = memcmp (take min_len a) (take min_len b)
      in if r = 0 then (if length a < length b then - 1 else if length a > length b then 1 else r) else r)"

definition starts_with :: "byte list \<Rightarrow> byte list \<Rightarrow> bool" where
  "starts_with s x \<longleftrightarrow> length s \<ge> length x \<and> memcmp (take (length x) s) x = 0"

section \<open>Comparators\<close>

record Comparator =
  Compare :: "byte list \<Rightarrow> byte list \<Rightarrow> int outcome"
  FindShortestSeparator :: "byte list \<Rightarrow> byte list \<Rightarrow> byte list outcome"
  FindShortSuccessor :: "byte list \<Rightarrow> byte list outcome"

text \<open>The length of the common prefix: the loops \<open>while (i < min_length && a[i] == b[i]) i++\<close>.\<close>

fun diff_index :: "byte list \<Rightarrow> byte list \<Rightarrow> nat" where
  "diff_index (x # a) (y # b) = (if x = y then Suc (diff_index a b) else 0)"
| "diff_index _ _ = 0"

definition Bytewise_FindShortestSeparator :: "byte list \<Rightarrow> byte list \<Rightarrow> byte list" where
  "Bytewise_FindShortestSeparator start limit =
     (let min_length = min (length start) (length limit);
          d = diff_index start limit
      in if d \<ge> min_length then start
         else let diff_byte = start ! d
              in if diff_byte < 0xff \<and> uint diff_byte + 1 < uint (limit ! d)
                 then take (d + 1) (start[d := diff_byte + 1]) else start)"

text \<open>The loop stops at the first byte that can be incremented and cuts the key behind it.\<close>

fun Bytewise_FindShortSuccessor :: "byte list \<Rightarrow> byte list" where
  "Bytewise_FindShortSuccessor [] = []"
| "Bytewise_FindShortSuccessor (b # key) =
     (if b \<noteq> 0xff then [b + 1] else b # Bytewise_FindShortSuccessor key)"

definition BytewiseComparator :: Comparator where
  "BytewiseComparator =
     \<lparr>Compare = \<lambda>a b. Ret (Slice_compare a b),
      FindShortestSeparator = \<lambda>s l. Ret (Bytewise_FindShortestSeparator s l),
      FindShortSuccessor = \<lambda>k. Ret (Bytewise_FindShortSuccessor k)\<rparr>"

section \<open>The contract\<close>

text \<open>
  A comparator is a total order on its keys, \<open>lt\<close> being the strict one. The second locale adds
  what the documentation promises of the shortening functions, and that a key is not changed by
  separating it from itself.
\<close>

locale comparator =
  fixes C :: Comparator and keys :: "byte list set" and lt :: "byte list \<Rightarrow> byte list \<Rightarrow> bool"
  assumes compare: "a \<in> keys \<Longrightarrow> b \<in> keys \<Longrightarrow>
      \<exists>r. Compare C a b = Ret r \<and> (r < 0 \<longleftrightarrow> lt a b) \<and> (r = 0 \<longleftrightarrow> a = b) \<and> (0 < r \<longleftrightarrow> lt b a)"
    and lt_irrefl: "a \<in> keys \<Longrightarrow> \<not> lt a a"
    and lt_trans: "a \<in> keys \<Longrightarrow> b \<in> keys \<Longrightarrow> c \<in> keys \<Longrightarrow> lt a b \<Longrightarrow> lt b c \<Longrightarrow> lt a c"
begin

lemma lt_total: "a \<in> keys \<Longrightarrow> b \<in> keys \<Longrightarrow> lt a b \<or> a = b \<or> lt b a"
  using compare [of a b] by (metis linorder_less_linear)

lemma lt_asym: "a \<in> keys \<Longrightarrow> b \<in> keys \<Longrightarrow> lt a b \<Longrightarrow> \<not> lt b a"
  using lt_irrefl lt_trans by blast

lemma compareE:
  assumes "a \<in> keys" "b \<in> keys"
  obtains r where "Compare C a b = Ret r" "r < 0 \<longleftrightarrow> lt a b" "r = 0 \<longleftrightarrow> a = b" "0 < r \<longleftrightarrow> lt b a"
  using compare [OF assms] by blast

end

locale separator = comparator C keys lt for C keys lt +
  assumes separate: "s \<in> keys \<Longrightarrow> l \<in> keys \<Longrightarrow> lt s l \<Longrightarrow>
      \<exists>t. FindShortestSeparator C s l = Ret t \<and> t \<in> keys \<and> (t = s \<or> lt s t) \<and> lt t l"
    and separate_same: "s \<in> keys \<Longrightarrow> FindShortestSeparator C s s = Ret s"
    and successor: "k \<in> keys \<Longrightarrow> \<exists>t. FindShortSuccessor C k = Ret t \<and> t \<in> keys \<and> (t = k \<or> lt k t)"

section \<open>The bytewise comparator\<close>

abbreviation bytes_lt :: "byte list \<Rightarrow> byte list \<Rightarrow> bool" where
  "bytes_lt \<equiv> ord_class.lexordp"

lemma memcmp_take:
  "Slice_compare a b = (if bytes_lt a b then - 1 else if a = b then 0 else 1)"
proof (induction a b rule: memcmp.induct)
  case (1 x a y b)
  show ?case
  proof (cases "x = y")
    case True
    then have "Slice_compare (x # a) (y # b) = Slice_compare a b" by (simp add: Slice_compare_def Let_def)
    with True 1 show ?thesis by simp
  next
    case False
    then show ?thesis by (auto simp: Slice_compare_def Let_def)
  qed
qed (auto simp: Slice_compare_def Let_def)

lemma memcmp_eq_0: "length a = length b \<Longrightarrow> memcmp a b = 0 \<longleftrightarrow> a = b"
  by (induction a b rule: memcmp.induct) auto

lemma starts_with_iff: "starts_with s x \<longleftrightarrow> take (length x) s = x"
  by (auto simp: starts_with_def memcmp_eq_0) (metis length_take min.absorb_iff2 nat_le_linear min_def)

lemma diff_index_split:
  "diff_index a b < min (length a) (length b) \<Longrightarrow>
     \<exists>u x s y t. a = u @ x # s \<and> b = u @ y # t \<and> x \<noteq> y \<and> diff_index a b = length u"
proof (induction a b rule: diff_index.induct)
  case (1 x a y b)
  show ?case
  proof (cases "x = y")
    case True
    with 1 obtain u x' s y' t where "a = u @ x' # s" "b = u @ y' # t" "x' \<noteq> y'" "diff_index a b = length u" by auto
    then show ?thesis using True by (intro exI [of _ "x # u"]) auto
  next
    case False
    then show ?thesis by (intro exI [of _ "[]"]) auto
  qed
qed auto

lemma take_diff_index: "take (diff_index a b) a = take (diff_index a b) b"
  by (induction a b rule: diff_index.induct) auto

lemma diff_index_le: "diff_index a b \<le> length a" "diff_index a b \<le> length b"
  by (induction a b rule: diff_index.induct) auto

lemma diff_index_same [simp]: "diff_index a a = length a"
  by (induction a) auto

lemma word_succ_less: "uint x + 1 < uint y \<Longrightarrow> x < x + 1 \<and> x + 1 < y" for x y :: byte
proof -
  assume *: "uint x + 1 < uint y"
  then have "uint (x + 1) = uint x + 1"
    using uint_lt2p [of y] by (simp add: uint_word_ariths)
  with * show ?thesis by (simp add: word_less_def)
qed

lemma word_succ_ff: "x \<noteq> 0xff \<Longrightarrow> x < x + 1" for x :: byte
proof -
  assume x: "x \<noteq> 0xff"
  have "uint x \<noteq> 255"
  proof
    assume "uint x = 255"
    then have "of_int (uint x) = (of_int 255 :: byte)" by simp
    then have "x = 0xff" by simp
    with x show False ..
  qed
  with uint_lt2p [of x] have "uint x + 1 < 2 ^ 8" by simp
  then have "uint (x + 1) = uint x + 1" by (simp add: uint_word_ariths)
  then show ?thesis by (simp add: word_less_def)
qed

lemma separator_bounds:
  assumes "bytes_lt s l"
  shows "Bytewise_FindShortestSeparator s l = s \<or> bytes_lt s (Bytewise_FindShortestSeparator s l)"
    and "bytes_lt (Bytewise_FindShortestSeparator s l) l"
proof -
  have "(t = s \<or> bytes_lt s t) \<and> bytes_lt t l" if t: "t = Bytewise_FindShortestSeparator s l" for t
  proof (cases "t = s")
    case True
    then show ?thesis using assms by simp
  next
    case False
    let ?d = "diff_index s l"
    have d: "?d < min (length s) (length l)" "uint (s ! ?d) + 1 < uint (l ! ?d)" and
      t': "t = take (?d + 1) (s[?d := s ! ?d + 1])"
      using False unfolding t by (auto simp: Bytewise_FindShortestSeparator_def Let_def split: if_splits)
    from diff_index_split [OF d(1)] obtain u x s' y l' where
      *: "s = u @ x # s'" "l = u @ y # l'" "?d = length u" by blast
    have "t = u @ [x + 1]" using t' unfolding *(3) by (simp add: *(1))
    moreover have "x < x + 1 \<and> x + 1 < y" using d(2) unfolding *(3) by (intro word_succ_less) (simp add: *(1,2))
    ultimately show ?thesis unfolding *(1,2) by (auto intro: lexordp_append_left_rightI)
  qed
  then show "Bytewise_FindShortestSeparator s l = s \<or> bytes_lt s (Bytewise_FindShortestSeparator s l)"
    and "bytes_lt (Bytewise_FindShortestSeparator s l) l" by auto
qed

lemma successor_bounds: "Bytewise_FindShortSuccessor k = k \<or> bytes_lt k (Bytewise_FindShortSuccessor k)"
  by (induction k) (auto simp: word_succ_ff)

interpretation bw: separator BytewiseComparator UNIV bytes_lt
proof (unfold_locales, goal_cases)
  case (1 a b)
  show ?case using lexordp_antisym [of a b] lexordp_linear [of a b] lexordp_irreflexive' [of a]
    by (auto simp: BytewiseComparator_def memcmp_take)
next
  case (2 a)
  show ?case by (rule lexordp_irreflexive')
next
  case (3 a b c)
  then show ?case by (auto intro: lexordp_trans)
next
  case (4 s l)
  then show ?case using separator_bounds [of s l] by (simp add: BytewiseComparator_def)
next
  case (5 s)
  show ?case by (simp add: BytewiseComparator_def Bytewise_FindShortestSeparator_def)
next
  case (6 k)
  show ?case using successor_bounds [of k] by (simp add: BytewiseComparator_def)
qed

end
