(* ===== verification/Dbformat.thy ===== *)
theory Dbformat
  imports Coding Comparator
begin

text \<open>
  Internal keys (\<open>db/dbformat.h\<close>, \<open>db/dbformat.cc\<close>): a user key followed by eight bytes that
  hold a sequence number and a value type, their parser, the comparator that orders them by user
  key and then by falling sequence number, and the lookup key of a read. Assertions are compiled
  out; where a violated one leads to an access outside of the key, the model has \<open>UB\<close>.
\<close>

section \<open>Internal keys\<close>

type_synonym ValueType = byte

abbreviation (input) kTypeDeletion :: ValueType where "kTypeDeletion \<equiv> 0"
abbreviation (input) kTypeValue :: ValueType where "kTypeValue \<equiv> 1"
abbreviation (input) kValueTypeForSeek :: ValueType where "kValueTypeForSeek \<equiv> kTypeValue"

type_synonym SequenceNumber = u64

definition kMaxSequenceNumber :: SequenceNumber where
  "kMaxSequenceNumber = push_bit 56 1 - 1"

record ParsedInternalKey =
  user_key :: "byte list"
  sequence :: SequenceNumber
  ktype :: ValueType

definition InternalKeyEncodingLength :: "ParsedInternalKey \<Rightarrow> nat" where
  "InternalKeyEncodingLength key = length (user_key key) + 8"

definition PackSequenceAndType :: "u64 \<Rightarrow> ValueType \<Rightarrow> u64" where
  "PackSequenceAndType seq t = push_bit 8 seq OR ucast t"

definition AppendInternalKey :: "byte list \<Rightarrow> ParsedInternalKey \<Rightarrow> byte list" where
  "AppendInternalKey result key =
     PutFixed64 (result @ user_key key) (PackSequenceAndType (sequence key) (ktype key))"

definition ParseInternalKey :: "byte list \<Rightarrow> ParsedInternalKey option outcome" where
  "ParseInternalKey internal_key =
     (let n = length internal_key
      in if n < 8 then Ret None
         else bindO (DecodeFixed64 (drop (n - 8) internal_key)) (\<lambda>num.
           let c = ucast (num AND 0xff)
           in Ret (if c \<le> kTypeValue
                   then Some \<lparr>user_key = take (n - 8) internal_key, sequence = drop_bit 8 num, ktype = c\<rparr>
                   else None)))"

definition ExtractUserKey :: "byte list \<Rightarrow> byte list outcome" where
  "ExtractUserKey internal_key =
     (if length internal_key < 8 then UB else Ret (take (length internal_key - 8) internal_key))"

section \<open>The comparator of internal keys\<close>

definition InternalKeyComparator_Compare :: "Comparator \<Rightarrow> byte list \<Rightarrow> byte list \<Rightarrow> int outcome" where
  "InternalKeyComparator_Compare C akey bkey =
     bindO (ExtractUserKey akey) (\<lambda>ua.
     bindO (ExtractUserKey bkey) (\<lambda>ub.
     bindO (Compare C ua ub) (\<lambda>r.
       if r = 0 then
         bindO (DecodeFixed64 (drop (length akey - 8) akey)) (\<lambda>anum.
         bindO (DecodeFixed64 (drop (length bkey - 8) bkey)) (\<lambda>bnum.
           Ret (if anum > bnum then - 1 else if anum < bnum then 1 else r)))
       else Ret r)))"

text \<open>The last steps that both shortening functions share.\<close>

definition shorten_user_key :: "Comparator \<Rightarrow> byte list \<Rightarrow> byte list \<Rightarrow> byte list \<Rightarrow> byte list outcome" where
  "shorten_user_key C key user tmp =
     (if length tmp < length user then
        bindO (Compare C user tmp) (\<lambda>r.
          Ret (if r < 0 then PutFixed64 tmp (PackSequenceAndType kMaxSequenceNumber kValueTypeForSeek) else key))
      else Ret key)"

definition InternalKeyComparator_FindShortestSeparator :: "Comparator \<Rightarrow> byte list \<Rightarrow> byte list \<Rightarrow> byte list outcome" where
  "InternalKeyComparator_FindShortestSeparator C start limit =
     bindO (ExtractUserKey start) (\<lambda>user_start.
     bindO (ExtractUserKey limit) (\<lambda>user_limit.
     bindO (FindShortestSeparator C user_start user_limit) (\<lambda>tmp. shorten_user_key C start user_start tmp)))"

definition InternalKeyComparator_FindShortSuccessor :: "Comparator \<Rightarrow> byte list \<Rightarrow> byte list outcome" where
  "InternalKeyComparator_FindShortSuccessor C key =
     bindO (ExtractUserKey key) (\<lambda>user.
     bindO (FindShortSuccessor C user) (\<lambda>tmp. shorten_user_key C key user tmp))"

definition InternalKeyComparator :: "Comparator \<Rightarrow> Comparator" where
  "InternalKeyComparator C =
     \<lparr>Compare = InternalKeyComparator_Compare C,
      FindShortestSeparator = InternalKeyComparator_FindShortestSeparator C,
      FindShortSuccessor = InternalKeyComparator_FindShortSuccessor C\<rparr>"

section \<open>Lookup keys\<close>

text \<open>
  The bytes from \<open>start_\<close> to \<open>end_\<close> and the offset of \<open>kstart_\<close>; \<open>needed\<close> is the size of the
  array that they are written to.
\<close>

record LookupKey =
  lk_bytes :: "byte list"
  lk_kstart :: nat
  lk_needed :: nat

definition LookupKey_new :: "byte list \<Rightarrow> SequenceNumber \<Rightarrow> LookupKey" where
  "LookupKey_new ukey s =
     (let usize = length ukey; dst = EncodeVarint32 (of_nat (usize + 8))
      in \<lparr>lk_bytes = dst @ ukey @ EncodeFixed64 (PackSequenceAndType s kValueTypeForSeek),
          lk_kstart = length dst,
          lk_needed = (if usize + 13 \<le> 200 then 200 else usize + 13)\<rparr>)"

definition memtable_key :: "LookupKey \<Rightarrow> byte list" where
  "memtable_key k = lk_bytes k"

definition internal_key :: "LookupKey \<Rightarrow> byte list" where
  "internal_key k = drop (lk_kstart k) (lk_bytes k)"

definition lookup_user_key :: "LookupKey \<Rightarrow> byte list" where
  "lookup_user_key k = take (length (lk_bytes k) - lk_kstart k - 8) (drop (lk_kstart k) (lk_bytes k))"

section \<open>Packing\<close>

lemma DecodeFixed64_EncodeFixed64 [simp]: "DecodeFixed64 (EncodeFixed64 v @ xs) = Ret v"
  by (simp add: DecodeFixed64_def EncodeFixed64_def le_word_le_bytes)

lemma length_EncodeFixed64 [simp]: "length (EncodeFixed64 v) = 8"
  by (simp add: EncodeFixed64_def)

lemma pack_parts:
  assumes "seq \<le> kMaxSequenceNumber"
  shows "drop_bit 8 (PackSequenceAndType seq t) = seq" "ucast (PackSequenceAndType seq t AND 0xff) = t"
proof -
  have s: "\<not> bit seq n" if "56 \<le> n" for n
  proof -
    have "unat seq \<le> unat kMaxSequenceNumber" using assms by (simp add: word_le_nat_alt)
    then have "unat seq < 2 ^ 56" by (simp add: kMaxSequenceNumber_def)
    then have "unat (drop_bit 56 seq) = 0" unfolding unat_drop_bit_eq by (simp add: drop_bit_eq_div)
    then have "drop_bit 56 seq = 0" by (simp add: unat_eq_0)
    then have "\<not> bit (drop_bit 56 seq) (n - 56)" by simp
    with that show ?thesis by (simp add: bit_drop_bit_eq)
  qed
  have t: "\<not> bit t n" if "8 \<le> n" for n using that bit_imp_le_length [of t n] by auto
  show "drop_bit 8 (PackSequenceAndType seq t) = seq"
  proof (rule bit_word_eqI)
    fix n assume "n < LENGTH(64)"
    then show "bit (drop_bit 8 (PackSequenceAndType seq t)) n = bit seq n"
      using s [of n] t [of "8 + n"] unfolding not_less [symmetric]
      by (auto simp: PackSequenceAndType_def bit_drop_bit_eq bit_or_iff bit_push_bit_iff bit_ucast_iff)
  qed
  show "ucast (PackSequenceAndType seq t AND 0xff) = t"
  proof (rule bit_word_eqI)
    have "x AND 0xff = take_bit 8 x" for x :: u64 by (simp add: take_bit_eq_mask mask_eq_exp_minus_1)
    then show "bit (ucast (PackSequenceAndType seq t AND 0xff) :: byte) n = bit t n" if "n < LENGTH(8)" for n
      using that by (simp add: PackSequenceAndType_def bit_ucast_iff bit_or_iff bit_push_bit_iff bit_take_bit_iff)
  qed
qed

section \<open>The order of internal keys\<close>

definition ukey :: "byte list \<Rightarrow> byte list" where
  "ukey k = take (length k - 8) k"

definition ktag :: "byte list \<Rightarrow> u64" where
  "ktag k = le_word (drop (length k - 8) k)"

definition ikeys :: "byte list set \<Rightarrow> byte list set" where
  "ikeys K = {k. 8 \<le> length k \<and> ukey k \<in> K}"

definition ikey_lt :: "(byte list \<Rightarrow> byte list \<Rightarrow> bool) \<Rightarrow> byte list \<Rightarrow> byte list \<Rightarrow> bool" where
  "ikey_lt lt a b \<longleftrightarrow> lt (ukey a) (ukey b) \<or> ukey a = ukey b \<and> ktag b < ktag a"

lemma ExtractUserKey_eq: "8 \<le> length k \<Longrightarrow> ExtractUserKey k = Ret (ukey k)"
  by (simp add: ExtractUserKey_def ukey_def)

lemma DecodeFixed64_tag: "8 \<le> length k \<Longrightarrow> DecodeFixed64 (drop (length k - 8) k) = Ret (ktag k)"
  by (simp add: DecodeFixed64_def ktag_def)

lemma ikey_eq_iff: "8 \<le> length a \<Longrightarrow> 8 \<le> length b \<Longrightarrow> a = b \<longleftrightarrow> ukey a = ukey b \<and> ktag a = ktag b"
proof -
  assume len: "8 \<le> length a" "8 \<le> length b"
  have *: "drop (length k - 8) k = le_bytes 8 (ktag k)" if "8 \<le> length k" for k
    using le_bytes_le_word [of "drop (length k - 8) k", where 'n = 64] that by (simp add: ktag_def)
  show ?thesis
  proof
    assume "ukey a = ukey b \<and> ktag a = ktag b"
    then have "ukey a @ drop (length a - 8) a = ukey b @ drop (length b - 8) b" using len by (simp add: *)
    then show "a = b" by (simp add: ukey_def)
  qed simp
qed

lemma ukey_PutFixed64 [simp]: "ukey (PutFixed64 u v) = u" "ktag (PutFixed64 u v) = v" "8 \<le> length (PutFixed64 u v)"
  by (simp_all add: ukey_def ktag_def PutFixed64_def EncodeFixed64_def le_word_le_bytes)

lemma shorten_user_key_cases:
  assumes "shorten_user_key C key user tmp = Ret t"
  shows "t = key \<or> t = PutFixed64 tmp (PackSequenceAndType kMaxSequenceNumber kValueTypeForSeek) \<and>
    (\<exists>r. Compare C user tmp = Ret r \<and> r < 0)"
  using assms by (auto simp: shorten_user_key_def split: if_splits)

lemma shorten_user_key_same [simp]: "shorten_user_key C key user user = Ret key"
  by (simp add: shorten_user_key_def)

text \<open>The order contract of a user comparator gives the one of its internal comparator.\<close>

context comparator
begin

lemma internal_compare:
  assumes "a \<in> ikeys keys" "b \<in> ikeys keys"
  shows "\<exists>r. InternalKeyComparator_Compare C a b = Ret r \<and> (r < 0 \<longleftrightarrow> ikey_lt lt a b) \<and> (r = 0 \<longleftrightarrow> a = b) \<and> (0 < r \<longleftrightarrow> ikey_lt lt b a)"
proof -
  have l: "8 \<le> length a" "8 \<le> length b" "ukey a \<in> keys" "ukey b \<in> keys" using assms by (auto simp: ikeys_def)
  from compareE [OF l(3,4)] obtain r where r: "Compare C (ukey a) (ukey b) = Ret r" "r < 0 \<longleftrightarrow> lt (ukey a) (ukey b)"
    "r = 0 \<longleftrightarrow> ukey a = ukey b" "0 < r \<longleftrightarrow> lt (ukey b) (ukey a)" by blast
  have "InternalKeyComparator_Compare C a b =
    Ret (if r = 0 then (if ktag b < ktag a then - 1 else if ktag a < ktag b then 1 else r) else r)"
    by (simp add: InternalKeyComparator_Compare_def ExtractUserKey_eq DecodeFixed64_tag l r(1))
  then show ?thesis
    using r(2-) lt_irrefl [OF l(3)] by (auto simp: ikey_lt_def ikey_eq_iff [OF l(1,2)])
qed

lemma internal_irrefl: "a \<in> ikeys keys \<Longrightarrow> \<not> ikey_lt lt a a"
  using lt_irrefl by (simp add: ikey_lt_def ikeys_def)

lemma internal_trans:
  "a \<in> ikeys keys \<Longrightarrow> b \<in> ikeys keys \<Longrightarrow> c \<in> ikeys keys \<Longrightarrow> ikey_lt lt a b \<Longrightarrow> ikey_lt lt b c \<Longrightarrow> ikey_lt lt a c"
  using lt_trans [of "ukey a" "ukey b" "ukey c"] unfolding ikey_lt_def ikeys_def by (elim disjE) auto

end

context separator
begin

lemma shorten_ok:
  assumes "key \<in> ikeys keys" "tmp \<in> keys" "tmp = ukey key \<or> lt (ukey key) tmp"
  shows "\<exists>t. shorten_user_key C key (ukey key) tmp = Ret t \<and> t \<in> ikeys keys \<and>
    (t = key \<or> ikey_lt lt key t \<and> ukey t = tmp)"
proof -
  have k: "ukey key \<in> keys" using assms(1) by (simp add: ikeys_def)
  from compareE [OF k assms(2)] obtain r where r: "Compare C (ukey key) tmp = Ret r" "r < 0 \<longleftrightarrow> lt (ukey key) tmp" by blast
  then show ?thesis
    using assms by (simp add: shorten_user_key_def ikey_lt_def ikeys_def)
qed

lemma internal_separate:
  assumes "s \<in> ikeys keys" "l \<in> ikeys keys" "ikey_lt lt s l"
  shows "\<exists>t. InternalKeyComparator_FindShortestSeparator C s l = Ret t \<and> t \<in> ikeys keys \<and> (t = s \<or> ikey_lt lt s t) \<and> ikey_lt lt t l"
proof -
  have l: "8 \<le> length s" "8 \<le> length l" "ukey s \<in> keys" "ukey l \<in> keys" using assms by (auto simp: ikeys_def)
  show ?thesis
  proof (cases "ukey s = ukey l")
    case True
    with assms l separate_same [OF l(4)] show ?thesis
      by (simp add: InternalKeyComparator_FindShortestSeparator_def ExtractUserKey_eq)
  next
    case False
    then have "lt (ukey s) (ukey l)" using assms(3) by (simp add: ikey_lt_def)
    from separate [OF l(3,4) this] obtain tmp where
      tmp: "FindShortestSeparator C (ukey s) (ukey l) = Ret tmp" "tmp \<in> keys" "tmp = ukey s \<or> lt (ukey s) tmp" "lt tmp (ukey l)"
      by blast
    from shorten_ok [OF assms(1) tmp(2,3)] tmp(1,4) l assms(3) show ?thesis
      by (auto simp: InternalKeyComparator_FindShortestSeparator_def ExtractUserKey_eq ikey_lt_def)
  qed
qed

lemma internal_separate_same: "s \<in> ikeys keys \<Longrightarrow> InternalKeyComparator_FindShortestSeparator C s s = Ret s"
  by (simp add: InternalKeyComparator_FindShortestSeparator_def ExtractUserKey_eq ikeys_def separate_same)

lemma internal_successor:
  assumes "k \<in> ikeys keys"
  shows "\<exists>t. InternalKeyComparator_FindShortSuccessor C k = Ret t \<and> t \<in> ikeys keys \<and> (t = k \<or> ikey_lt lt k t)"
proof -
  have l: "8 \<le> length k" "ukey k \<in> keys" using assms by (auto simp: ikeys_def)
  from successor [OF l(2)] obtain tmp where tmp: "FindShortSuccessor C (ukey k) = Ret tmp" "tmp \<in> keys" "tmp = ukey k \<or> lt (ukey k) tmp"
    by blast
  from shorten_ok [OF assms tmp(2,3)] tmp(1) l show ?thesis
    by (auto simp: InternalKeyComparator_FindShortSuccessor_def ExtractUserKey_eq)
qed

lemma internal_separator: "separator (InternalKeyComparator C) (ikeys keys) (ikey_lt lt)"
proof (unfold_locales, goal_cases)
  case (1 a b)
  then show ?case using internal_compare [of a b] by (simp add: InternalKeyComparator_def)
next
  case (2 a)
  then show ?case by (rule internal_irrefl)
next
  case (3 a b c)
  then show ?case by (rule internal_trans)
next
  case (4 s l)
  then show ?case using internal_separate [of s l] by (simp add: InternalKeyComparator_def)
next
  case (5 s)
  then show ?case using internal_separate_same [of s] by (simp add: InternalKeyComparator_def)
next
  case (6 k)
  then show ?case using internal_successor [of k] by (simp add: InternalKeyComparator_def)
qed

end

interpretation ik: separator "InternalKeyComparator BytewiseComparator" "ikeys UNIV" "ikey_lt bytes_lt"
  by (rule bw.internal_separator)

lemma AppendInternalKey_parts [simp]:
  "ukey (AppendInternalKey [] k) = user_key k" "ktag (AppendInternalKey [] k) = PackSequenceAndType (sequence k) (ktype k)"
  "8 \<le> length (AppendInternalKey [] k)" "length (AppendInternalKey [] k) = length (user_key k) + 8"
  by (simp_all add: AppendInternalKey_def) (simp add: PutFixed64_def)

lemma AppendInternalKey_ikeys [simp]: "AppendInternalKey [] k \<in> ikeys UNIV"
  by (simp add: ikeys_def)

lemma pack_unat: "seq \<le> kMaxSequenceNumber \<Longrightarrow> unat (PackSequenceAndType seq t) = 256 * unat seq + unat t"
proof -
  assume "seq \<le> kMaxSequenceNumber"
  note p = pack_parts [OF this]
  let ?w = "PackSequenceAndType seq t"
  have "unat ?w = 256 * unat (drop_bit 8 ?w) + unat (take_bit 8 ?w)"
    unfolding unat_drop_bit_eq by (simp add: drop_bit_eq_div take_bit_eq_mod unat_mod)
  moreover have "take_bit 8 ?w = ?w AND 0xff" by (simp add: take_bit_eq_mask mask_eq_exp_minus_1)
  moreover have "unat (take_bit 8 ?w) = unat (ucast (take_bit 8 ?w) :: byte)"
    by (simp add: unsigned_ucast_eq unsigned_take_bit_eq)
  ultimately show ?thesis using p by simp
qed

lemma pack_less_iff:
  assumes "s \<le> kMaxSequenceNumber" "s' \<le> kMaxSequenceNumber"
  shows "PackSequenceAndType s t < PackSequenceAndType s' t' \<longleftrightarrow> s < s' \<or> s = s' \<and> t < t'"
proof -
  have "unat t < 256" "unat t' < 256" using unsigned_less [of t, where 'a = nat] unsigned_less [of t', where 'a = nat] by simp_all
  then have "256 * unat s + unat t < 256 * unat s' + unat t' \<longleftrightarrow> unat s < unat s' \<or> unat s = unat s' \<and> unat t < unat t'"
    by linarith
  then show ?thesis by (simp add: word_less_nat_alt pack_unat assms word_unat_eq_iff)
qed

text \<open>
  An internal key survives the round trip: what \<open>AppendInternalKey\<close> wrote for a sequence
  number of at most 56 bits and a known type, \<open>ParseInternalKey\<close> takes apart again, and
  \<open>InternalKeyEncodingLength\<close> is its length.
\<close>

theorem internal_key_round_trip:
  assumes "sequence k \<le> kMaxSequenceNumber" and "ktype k \<le> kTypeValue"
  shows "ParseInternalKey (AppendInternalKey [] k) = Ret (Some k) \<and>
    length (AppendInternalKey [] k) = InternalKeyEncodingLength k \<and> ExtractUserKey (AppendInternalKey [] k) = Ret (user_key k)"
proof -
  have "DecodeFixed64 (drop (length (user_key k)) (AppendInternalKey [] k)) = Ret (PackSequenceAndType (sequence k) (ktype k))"
    using DecodeFixed64_tag [OF AppendInternalKey_parts(3), of k] by simp
  moreover have "take (length (user_key k)) (AppendInternalKey [] k) = user_key k"
    by (simp add: AppendInternalKey_def PutFixed64_def)
  ultimately show ?thesis
    using assms(2) by (simp add: ParseInternalKey_def Let_def ExtractUserKey_def pack_parts [OF assms(1)] InternalKeyEncodingLength_def)
qed

theorem internal_key_round_trip_witness:
  "ParseInternalKey (AppendInternalKey [] \<lparr>user_key = [0x61], sequence = 7, ktype = 1\<rparr>) =
    Ret (Some \<lparr>user_key = [0x61], sequence = 7, ktype = 1\<rparr>)"
  using internal_key_round_trip [of "\<lparr>user_key = [0x61], sequence = 7, ktype = 1\<rparr>"]
  by (simp add: kMaxSequenceNumber_def)

text \<open>
  C30: internal keys are ordered by rising user key, then by falling sequence number, then by
  falling type, so that the newest version of a key comes first.
\<close>

theorem internal_key_order:
  assumes "sequence a \<le> kMaxSequenceNumber" and "sequence b \<le> kMaxSequenceNumber"
  shows "\<exists>r. Compare (InternalKeyComparator BytewiseComparator) (AppendInternalKey [] a) (AppendInternalKey [] b) = Ret r \<and>
    (r < 0 \<longleftrightarrow> bytes_lt (user_key a) (user_key b) \<or>
       user_key a = user_key b \<and> (sequence b < sequence a \<or> sequence a = sequence b \<and> ktype b < ktype a)) \<and>
    (r = 0 \<longleftrightarrow> a = b)"
proof -
  have "AppendInternalKey [] a = AppendInternalKey [] b \<longleftrightarrow>
    user_key a = user_key b \<and> PackSequenceAndType (sequence a) (ktype a) = PackSequenceAndType (sequence b) (ktype b)"
    by (simp add: ikey_eq_iff)
  moreover have "PackSequenceAndType (sequence a) (ktype a) = PackSequenceAndType (sequence b) (ktype b) \<longleftrightarrow>
    sequence a = sequence b \<and> ktype a = ktype b"
    using pack_parts [OF assms(1), of "ktype a"] pack_parts [OF assms(2), of "ktype b"] by metis
  ultimately have "AppendInternalKey [] a = AppendInternalKey [] b \<longleftrightarrow> a = b" by auto
  then show ?thesis
    using ik.compare [of "AppendInternalKey [] a" "AppendInternalKey [] b"] pack_less_iff [OF assms(2,1)]
    by (auto simp: ikey_lt_def)
qed

theorem internal_key_order_witness:
  "\<exists>r. Compare (InternalKeyComparator BytewiseComparator)
      (AppendInternalKey [] \<lparr>user_key = [0x61], sequence = 9, ktype = 0\<rparr>)
      (AppendInternalKey [] \<lparr>user_key = [0x61], sequence = 7, ktype = 1\<rparr>) = Ret r \<and> r < 0"
  using internal_key_order [of "\<lparr>user_key = [0x61], sequence = 9, ktype = 0\<rparr>" "\<lparr>user_key = [0x61], sequence = 7, ktype = 1\<rparr>"]
  by (auto simp: kMaxSequenceNumber_def)

text \<open>
  C31: the shortened separator of two internal keys, as the index of a table uses it, lies between
  them: not below the first and below the second, and is itself a well-formed key.
\<close>

theorem internal_separator_between:
  assumes "8 \<le> length start" and "8 \<le> length limit"
    and "Compare (InternalKeyComparator BytewiseComparator) start limit = Ret r" and "r < 0"
  shows "\<exists>t r1 r2. FindShortestSeparator (InternalKeyComparator BytewiseComparator) start limit = Ret t \<and> 8 \<le> length t \<and>
    Compare (InternalKeyComparator BytewiseComparator) start t = Ret r1 \<and> r1 \<le> 0 \<and>
    Compare (InternalKeyComparator BytewiseComparator) t limit = Ret r2 \<and> r2 < 0"
proof -
  have k: "start \<in> ikeys UNIV" "limit \<in> ikeys UNIV" using assms by (simp_all add: ikeys_def)
  from ik.compare [OF k] assms(3,4) have "ikey_lt bytes_lt start limit" by auto
  from ik.separate [OF k this] obtain t where
    t: "FindShortestSeparator (InternalKeyComparator BytewiseComparator) start limit = Ret t" "t \<in> ikeys UNIV"
    "t = start \<or> ikey_lt bytes_lt start t" "ikey_lt bytes_lt t limit" by blast
  from ik.compare [OF k(1) t(2)] ik.compare [OF t(2) k(2)] t show ?thesis
    by (auto simp: ikeys_def order_le_less)
qed

theorem internal_separator_between_witness:
  "\<exists>t r1 r2. FindShortestSeparator (InternalKeyComparator BytewiseComparator) [1, 1, 1, 1, 1, 1, 1, 1, 1] [7, 7, 7, 7, 7, 7, 7, 7, 7] = Ret t \<and> 8 \<le> length t \<and>
    Compare (InternalKeyComparator BytewiseComparator) [1, 1, 1, 1, 1, 1, 1, 1, 1] t = Ret r1 \<and> r1 \<le> 0 \<and>
    Compare (InternalKeyComparator BytewiseComparator) t [7, 7, 7, 7, 7, 7, 7, 7, 7] = Ret r2 \<and> r2 < 0"
  by (rule internal_separator_between [where r = "- 1"])
    (simp_all add: InternalKeyComparator_def InternalKeyComparator_Compare_def ExtractUserKey_def BytewiseComparator_def Slice_compare_def)

text \<open>
  A lookup key never overruns its array, whatever the size of the user key, and holds a
  length-prefixed internal key: for user keys below four gigabytes the three views of it are the
  prefixed key, the internal key and the user key.
\<close>

theorem LookupKey_fits:
  "length (lk_bytes (LookupKey_new u s)) \<le> lk_needed (LookupKey_new u s) \<and>
   internal_key (LookupKey_new u s) = AppendInternalKey [] \<lparr>user_key = u, sequence = s, ktype = kValueTypeForSeek\<rparr> \<and>
   lookup_user_key (LookupKey_new u s) = u \<and>
   memtable_key (LookupKey_new u s) = EncodeVarint32 (of_nat (length u + 8)) @ internal_key (LookupKey_new u s)"
proof -
  have "length (EncodeVarint32 (of_nat (length u + 8))) \<le> 5" by (simp add: EncodeVarint32_def)
  then show ?thesis
    by (simp add: LookupKey_new_def Let_def internal_key_def lookup_user_key_def memtable_key_def AppendInternalKey_def PutFixed64_def)
qed

end
