(* ===== verification/Random_Numbers.thy ===== *)
theory Random_Numbers
  imports Prelude
begin

text \<open>
  The pseudo-random numbers of the storage engine (\<open>util/random.h\<close>): the state is the seed, each
  operation returns its value and the new seed. The optimised reduction modulo \<open>2^31 - 1\<close> is shown
  to be the multiplicative congruential generator that the comments promise.
\<close>

definition Random_new :: "u32 \<Rightarrow> u32" where
  "Random_new s = (let seed = s AND 0x7fffffff in if seed = 0 \<or> seed = 2147483647 then 1 else seed)"

definition Random_Next :: "u32 \<Rightarrow> u32 \<times> u32" where
  "Random_Next seed =
     (let product = ucast seed * 16807 :: u64;
          s = ucast (drop_bit 31 product + (product AND 2147483647)) :: u32;
          s = (if s > 2147483647 then s - 2147483647 else s)
      in (s, s))"

definition Random_Uniform :: "nat \<Rightarrow> u32 \<Rightarrow> u32 \<times> u32" where
  "Random_Uniform n seed = (case Random_Next seed of (v, seed) \<Rightarrow> (v mod of_nat n, seed))"

definition Random_OneIn :: "nat \<Rightarrow> u32 \<Rightarrow> bool \<times> u32" where
  "Random_OneIn n seed = (case Random_Next seed of (v, seed) \<Rightarrow> (v mod of_nat n = 0, seed))"

definition Random_Skewed :: "nat \<Rightarrow> u32 \<Rightarrow> u32 \<times> u32" where
  "Random_Skewed max_log seed =
     (case Random_Uniform (max_log + 1) seed of (b, seed) \<Rightarrow> Random_Uniform (2 ^ unat b) seed)"

text \<open>A seed that the generator may have.\<close>

definition good_seed :: "u32 \<Rightarrow> bool" where
  "good_seed s \<longleftrightarrow> 0 < unat s \<and> unat s < 2147483647"

lemma Random_new_good: "good_seed (Random_new s)"
proof -
  let ?x = "s AND 0x7fffffff"
  have "?x = take_bit 31 s" by (simp add: take_bit_eq_mask mask_eq_exp_minus_1)
  then have "unat ?x < 2 ^ 31" by (simp only: unsigned_take_bit_eq take_bit_nat_less_exp)
  moreover have "?x = 2147483647 \<longleftrightarrow> unat ?x = 2147483647" by (simp add: word_unat_eq_iff)
  moreover have "?x = 0 \<longleftrightarrow> unat ?x = 0" by (simp add: unat_eq_0)
  ultimately show ?thesis by (auto simp: Random_new_def good_seed_def Let_def)
qed

text \<open>The reduction: \<open>2^31\<close> is one modulo \<open>2^31 - 1\<close>, so high and low part may be added.\<close>

lemma mersenne_split: "p mod 2147483647 = (p div 2147483648 + p mod 2147483648) mod 2147483647" for p :: nat
proof -
  have "p = 2147483647 * (p div 2147483648) + (p div 2147483648 + p mod 2147483648)"
    using mult_div_mod_eq [of 2147483648 p] by linarith
  then show ?thesis by (metis mod_mult_self4)
qed

lemma mersenne_nonzero: "0 < s \<Longrightarrow> s < 2147483647 \<Longrightarrow> (s * 16807) mod 2147483647 \<noteq> 0" for s :: nat
proof
  assume s: "0 < s" "s < 2147483647" and "(s * 16807) mod 2147483647 = 0"
  then have "2147483647 dvd s * 16807" by (simp add: mod_eq_0_iff_dvd)
  moreover have "coprime (2147483647 :: nat) 16807" by (simp add: coprime_iff_gcd_eq_1 gcd_non_0_nat)
  ultimately have "2147483647 dvd s" by (simp add: coprime_dvd_mult_left_iff)
  with s show False by (auto dest: dvd_imp_le)
qed

text \<open>
  The generator is the one the comment names, \<open>seed * 16807 mod (2^31 - 1)\<close>, in spite of the
  64-bit shortcut, and never reaches the fixed points zero and \<open>2^31 - 1\<close>.
\<close>

theorem Random_Next_exact:
  assumes "good_seed s"
  shows "unat (fst (Random_Next s)) = (unat s * 16807) mod 2147483647 \<and> good_seed (snd (Random_Next s))"
proof -
  define p where "p = unat s * 16807"
  define w where "w = (ucast s * 16807 :: u64)"
  have s: "0 < unat s" "unat s < 2147483647" using assms by (simp_all add: good_seed_def)
  then have p: "p < 2 ^ 46" by (simp add: p_def)
  have uw: "unat w = p" using p by (simp add: w_def p_def unat_word_ariths unat_ucast_up)
  have lo: "unat (w AND 2147483647) = p mod 2147483648"
  proof -
    have "w AND 2147483647 = take_bit 31 w" by (simp add: take_bit_eq_mask mask_eq_exp_minus_1)
    then show ?thesis using uw by (simp only: unsigned_take_bit_eq) (simp add: take_bit_eq_mod)
  qed
  have hi: "unat (drop_bit 31 w) = p div 2147483648" unfolding unat_drop_bit_eq by (simp add: uw drop_bit_eq_div)
  define q where "q = p div 2147483648 + p mod 2147483648"
  have q: "q < 2147483648 + 32768" using p by (simp add: q_def less_mult_imp_div_less add_less_le_mono)
  have "unat (drop_bit 31 w + (w AND 2147483647)) = q" using q by (simp add: unat_plus_if_small hi lo q_def)
  then have u: "unat (ucast (drop_bit 31 w + (w AND 2147483647)) :: u32) = q"
    using q by (simp add: unsigned_ucast_eq take_bit_nat_eq_self)
  have "q mod 2147483647 \<noteq> 0" using mersenne_nonzero [OF s] mersenne_split [of p] by (simp add: p_def q_def)
  then have "q \<noteq> 2147483647" "q \<noteq> 0" by auto
  define x :: u32 where "x = ucast (drop_bit 31 w + (w AND 2147483647))"
  have N: "Random_Next s = (let s = (if x > 2147483647 then x - 2147483647 else x) in (s, s))"
    by (simp only: Random_Next_def x_def w_def Let_def)
  have ux: "unat x = q" using u by (simp add: x_def)
  have "unat (if x > 2147483647 then x - 2147483647 else x) = q mod 2147483647"
  proof (cases "q > 2147483647")
    case True
    then have "x > 2147483647" by (simp add: word_less_nat_alt ux)
    with True q show ?thesis by (simp add: unat_sub ux word_le_nat_alt le_mod_geq)
  next
    case False
    then show ?thesis using \<open>q \<noteq> 2147483647\<close> ux by (simp add: word_less_nat_alt)
  qed
  then show ?thesis
    using \<open>q mod 2147483647 \<noteq> 0\<close> mersenne_split [of p] by (simp add: N Let_def good_seed_def p_def q_def)
qed

theorem Random_Next_exact_witness:
  "unat (fst (Random_Next 2147483646)) = (2147483646 * 16807) mod 2147483647 \<and> good_seed (snd (Random_Next 2147483646))"
  using Random_Next_exact [of 2147483646] by (simp add: good_seed_def)

end
