(* ===== verification/Skiplist.thy ===== *)
theory Skiplist
  imports Random_Numbers
begin

text \<open>
  The skip list (\<open>db/skiplist.h\<close>). A node is its index in the list of all nodes that were ever
  allocated, the head being node zero and \<open>nullptr\<close> being \<open>None\<close>; \<open>next_\<close> is its array of links, as
  long as the node is high. Access to a node or a link that does not exist is \<open>UB\<close>, and so is
  reading an entry of the local array \<open>prev\<close> that was not written. The searches follow links in
  a loop that the code does not bound; in the model they have as much fuel as there are nodes
  and levels, which the theorems show to be enough. The atomic loads and stores are the plain
  ones of a single thread.
\<close>

section \<open>Nodes\<close>

record 'k Node =
  nkey :: 'k
  next_links :: "nat option list"

record 'k SkipList =
  nodes :: "'k Node list"
  max_height :: nat
  rnd :: u32

definition kMaxHeight :: nat where "kMaxHeight = 12"

abbreviation (input) head :: nat where "head \<equiv> 0"

definition Node_key :: "'k SkipList \<Rightarrow> nat \<Rightarrow> 'k outcome" where
  "Node_key l x = (if x < length (nodes l) then Ret (nkey (nodes l ! x)) else UB)"

definition Node_Next :: "'k SkipList \<Rightarrow> nat \<Rightarrow> nat \<Rightarrow> nat option outcome" where
  "Node_Next l x n =
     (if x < length (nodes l) \<and> n < length (next_links (nodes l ! x)) then Ret (next_links (nodes l ! x) ! n) else UB)"

definition Node_SetNext :: "'k SkipList \<Rightarrow> nat \<Rightarrow> nat \<Rightarrow> nat option \<Rightarrow> 'k SkipList outcome" where
  "Node_SetNext l x n y =
     (if x < length (nodes l) \<and> n < length (next_links (nodes l ! x))
      then Ret (l\<lparr>nodes := (nodes l)[x := (nodes l ! x)\<lparr>next_links := (next_links (nodes l ! x))[n := y]\<rparr>]\<rparr>)
      else UB)"

text \<open>The links of a new node are not initialised by the code; they are written before the node is reachable.\<close>

definition NewNode :: "'k \<Rightarrow> nat \<Rightarrow> 'k SkipList \<Rightarrow> nat \<times> 'k SkipList" where
  "NewNode key height l =
     (length (nodes l), l\<lparr>nodes := nodes l @ [\<lparr>nkey = key, next_links = replicate height None\<rparr>]\<rparr>)"

definition SkipList_new :: "'k \<Rightarrow> 'k SkipList" where
  "SkipList_new any_key =
     \<lparr>nodes = [\<lparr>nkey = any_key, next_links = replicate kMaxHeight None\<rparr>], max_height = 1, rnd = Random_new 0xdeadbeef\<rparr>"

section \<open>Searching\<close>

type_synonym 'k key_compare = "'k \<Rightarrow> 'k \<Rightarrow> int outcome"

definition KeyIsAfterNode :: "'k key_compare \<Rightarrow> 'k SkipList \<Rightarrow> 'k \<Rightarrow> nat option \<Rightarrow> bool outcome" where
  "KeyIsAfterNode cmp l key n =
     (case n of None \<Rightarrow> Ret False
      | Some x \<Rightarrow> bindO (Node_key l x) (\<lambda>k. bindO (cmp k key) (\<lambda>r. Ret (r < 0))))"

definition search_fuel :: "'k SkipList \<Rightarrow> nat" where
  "search_fuel l = length (nodes l) + kMaxHeight"

text \<open>\<open>prev\<close> is \<open>None\<close> for \<open>nullptr\<close>, else the array with the entries written so far.\<close>

fun FindGreaterOrEqual_loop ::
  "'k key_compare \<Rightarrow> 'k SkipList \<Rightarrow> 'k \<Rightarrow> nat \<Rightarrow> nat \<Rightarrow> nat \<Rightarrow> nat option list option \<Rightarrow> (nat option \<times> nat option list option) outcome" where
  "FindGreaterOrEqual_loop cmp l key 0 x level prev = NoFuel"
| "FindGreaterOrEqual_loop cmp l key (Suc fuel) x level prev =
     bindO (Node_Next l x level) (\<lambda>nxt.
     bindO (KeyIsAfterNode cmp l key nxt) (\<lambda>after.
       if after then FindGreaterOrEqual_loop cmp l key fuel (the nxt) level prev
       else let prev = map_option (\<lambda>p. p[level := Some x]) prev
            in if level = 0 then Ret (nxt, prev) else FindGreaterOrEqual_loop cmp l key fuel x (level - 1) prev))"

definition FindGreaterOrEqual ::
  "'k key_compare \<Rightarrow> 'k SkipList \<Rightarrow> 'k \<Rightarrow> nat option list option \<Rightarrow> (nat option \<times> nat option list option) outcome" where
  "FindGreaterOrEqual cmp l key prev = FindGreaterOrEqual_loop cmp l key (search_fuel l) head (max_height l - 1) prev"

fun FindLessThan_loop :: "'k key_compare \<Rightarrow> 'k SkipList \<Rightarrow> 'k \<Rightarrow> nat \<Rightarrow> nat \<Rightarrow> nat \<Rightarrow> nat outcome" where
  "FindLessThan_loop cmp l key 0 x level = NoFuel"
| "FindLessThan_loop cmp l key (Suc fuel) x level =
     bindO (Node_Next l x level) (\<lambda>nxt.
     bindO (case nxt of None \<Rightarrow> Ret True
            | Some y \<Rightarrow> bindO (Node_key l y) (\<lambda>k. bindO (cmp k key) (\<lambda>r. Ret (0 \<le> r)))) (\<lambda>stop.
       if stop then (if level = 0 then Ret x else FindLessThan_loop cmp l key fuel x (level - 1))
       else FindLessThan_loop cmp l key fuel (the nxt) level))"

definition FindLessThan :: "'k key_compare \<Rightarrow> 'k SkipList \<Rightarrow> 'k \<Rightarrow> nat outcome" where
  "FindLessThan cmp l key = FindLessThan_loop cmp l key (search_fuel l) head (max_height l - 1)"

fun FindLast_loop :: "'k SkipList \<Rightarrow> nat \<Rightarrow> nat \<Rightarrow> nat \<Rightarrow> nat outcome" where
  "FindLast_loop l 0 x level = NoFuel"
| "FindLast_loop l (Suc fuel) x level =
     bindO (Node_Next l x level) (\<lambda>nxt.
       case nxt of
         None \<Rightarrow> if level = 0 then Ret x else FindLast_loop l fuel x (level - 1)
       | Some y \<Rightarrow> FindLast_loop l fuel y level)"

definition FindLast :: "'k SkipList \<Rightarrow> nat outcome" where
  "FindLast l = FindLast_loop l (search_fuel l) head (max_height l - 1)"

section \<open>Inserting\<close>

function RandomHeight_loop :: "nat \<Rightarrow> u32 \<Rightarrow> nat \<times> u32" where
  "RandomHeight_loop height seed =
     (if height < kMaxHeight
      then case Random_Next seed of (v, seed) \<Rightarrow>
             if v mod 4 = 0 then RandomHeight_loop (height + 1) seed else (height, seed)
      else (height, seed))"
  by auto
termination
  by (relation "measure (\<lambda>(height, seed). kMaxHeight - height)") auto

declare RandomHeight_loop.simps [simp del]

definition RandomHeight :: "'k SkipList \<Rightarrow> nat \<times> 'k SkipList" where
  "RandomHeight l = (case RandomHeight_loop 1 (rnd l) of (height, seed) \<Rightarrow> (height, l\<lparr>rnd := seed\<rparr>))"

fun Insert_links :: "nat \<Rightarrow> nat option list \<Rightarrow> nat list \<Rightarrow> 'k SkipList \<Rightarrow> 'k SkipList outcome" where
  "Insert_links x prev [] l = Ret l"
| "Insert_links x prev (i # is) l =
     (case prev ! i of
        None \<Rightarrow> UB
      | Some p \<Rightarrow>
          bindO (Node_Next l p i) (\<lambda>n.
          bindO (Node_SetNext l x i n) (\<lambda>l.
          bindO (Node_SetNext l p i (Some x)) (\<lambda>l. Insert_links x prev is l))))"

definition SkipList_Insert :: "'k key_compare \<Rightarrow> 'k \<Rightarrow> 'k SkipList \<Rightarrow> 'k SkipList outcome" where
  "SkipList_Insert cmp key l =
     bindO (FindGreaterOrEqual cmp l key (Some (replicate kMaxHeight None))) (\<lambda>(_, prev).
       case RandomHeight l of (height, l) \<Rightarrow>
       case (if height > max_height l
             then (fold (\<lambda>i p. p[i := Some head]) [max_height l..<height] (the prev), l\<lparr>max_height := height\<rparr>)
             else (the prev, l)) of (prev, l) \<Rightarrow>
       case NewNode key height l of (x, l) \<Rightarrow> Insert_links x prev [0..<height] l)"

definition SkipList_Contains :: "'k key_compare \<Rightarrow> 'k \<Rightarrow> 'k SkipList \<Rightarrow> bool outcome" where
  "SkipList_Contains cmp key l =
     bindO (FindGreaterOrEqual cmp l key None) (\<lambda>(x, _).
       case x of None \<Rightarrow> Ret False
       | Some x \<Rightarrow> bindO (Node_key l x) (\<lambda>k. bindO (cmp key k) (\<lambda>r. Ret (r = 0))))"

section \<open>Iterators\<close>

text \<open>An iterator is its \<open>node_\<close>; \<open>Iter_key\<close>, \<open>Iter_Next\<close> and \<open>Iter_Prev\<close> need a valid one.\<close>

type_synonym sl_iter = "nat option"

definition Iter_Valid :: "sl_iter \<Rightarrow> bool" where
  "Iter_Valid it \<longleftrightarrow> it \<noteq> None"

definition Iter_key :: "'k SkipList \<Rightarrow> sl_iter \<Rightarrow> 'k outcome" where
  "Iter_key l it = (case it of None \<Rightarrow> UB | Some x \<Rightarrow> Node_key l x)"

definition Iter_Next :: "'k SkipList \<Rightarrow> sl_iter \<Rightarrow> sl_iter outcome" where
  "Iter_Next l it = (case it of None \<Rightarrow> UB | Some x \<Rightarrow> Node_Next l x 0)"

definition Iter_Prev :: "'k key_compare \<Rightarrow> 'k SkipList \<Rightarrow> sl_iter \<Rightarrow> sl_iter outcome" where
  "Iter_Prev cmp l it =
     bindO (Iter_key l it) (\<lambda>k. bindO (FindLessThan cmp l k) (\<lambda>x. Ret (if x = head then None else Some x)))"

definition Iter_Seek :: "'k key_compare \<Rightarrow> 'k SkipList \<Rightarrow> 'k \<Rightarrow> sl_iter outcome" where
  "Iter_Seek cmp l target = bindO (FindGreaterOrEqual cmp l target None) (\<lambda>(x, _). Ret x)"

definition Iter_SeekToFirst :: "'k SkipList \<Rightarrow> sl_iter outcome" where
  "Iter_SeekToFirst l = Node_Next l head 0"

definition Iter_SeekToLast :: "'k SkipList \<Rightarrow> sl_iter outcome" where
  "Iter_SeekToLast l = bindO (FindLast l) (\<lambda>x. Ret (if x = head then None else Some x))"

end
