(* ===== verification/Skiplist_Correct.thy ===== *)
theory Skiplist_Correct
  imports Skiplist "HOL-Library.Multiset"
begin

text \<open>
  The skip list as a sorted sequence: the invariant ties the links of every level to one
  strictly sorted sequence of nodes, the searches return the nodes that this sequence
  determines, and insertion puts one node into it. All of it holds for every key comparison that
  satisfies the order contract.
\<close>

section \<open>The contract of the key comparison\<close>

locale ordered_keys =
  fixes cmp :: "'k \<Rightarrow> 'k \<Rightarrow> int outcome" and keys :: "'k set" and lt :: "'k \<Rightarrow> 'k \<Rightarrow> bool"
  assumes cmp: "a \<in> keys \<Longrightarrow> b \<in> keys \<Longrightarrow> \<exists>r. cmp a b = Ret r \<and> (r < 0 \<longleftrightarrow> lt a b) \<and> (0 < r \<longleftrightarrow> lt b a)"
    and irrefl: "a \<in> keys \<Longrightarrow> \<not> lt a a"
    and trans: "a \<in> keys \<Longrightarrow> b \<in> keys \<Longrightarrow> c \<in> keys \<Longrightarrow> lt a b \<Longrightarrow> lt b c \<Longrightarrow> lt a c"

section \<open>The invariant\<close>

definition hgt :: "'k SkipList \<Rightarrow> nat \<Rightarrow> nat" where
  "hgt l x = length (next_links (nodes l ! x))"

definition nk :: "'k SkipList \<Rightarrow> nat \<Rightarrow> 'k" where
  "nk l x = nkey (nodes l ! x)"

definition link :: "'k SkipList \<Rightarrow> nat \<Rightarrow> nat \<Rightarrow> nat option" where
  "link l x n = next_links (nodes l ! x) ! n"

fun first :: "'a list \<Rightarrow> 'a option" where
  "first [] = None"
| "first (x # xs) = Some x"

text \<open>Following level \<open>n\<close> from node \<open>x\<close> visits exactly the given nodes.\<close>

fun linked :: "'k SkipList \<Rightarrow> nat \<Rightarrow> nat \<Rightarrow> nat list \<Rightarrow> bool" where
  "linked l n x [] \<longleftrightarrow> link l x n = None"
| "linked l n x (y # ys) \<longleftrightarrow> link l x n = Some y \<and> linked l n y ys"

abbreviation (input) tall :: "'k SkipList \<Rightarrow> nat \<Rightarrow> nat list \<Rightarrow> nat list" where
  "tall l n \<equiv> filter (\<lambda>i. n < hgt l i)"

definition sl_ok :: "'k set \<Rightarrow> ('k \<Rightarrow> 'k \<Rightarrow> bool) \<Rightarrow> 'k SkipList \<Rightarrow> nat list \<Rightarrow> bool" where
  "sl_ok keys lt l ids \<longleftrightarrow>
     nodes l \<noteq> [] \<and> hgt l head = kMaxHeight \<and> 1 \<le> max_height l \<and> max_height l \<le> kMaxHeight \<and>
     (\<forall>i\<in>set ids. 0 < i \<and> i < length (nodes l) \<and> 1 \<le> hgt l i \<and> hgt l i \<le> max_height l \<and> nk l i \<in> keys) \<and>
     sorted_wrt (\<lambda>i j. lt (nk l i) (nk l j)) ids \<and>
     (\<forall>n<kMaxHeight. linked l n head (tall l n ids))"

lemma linked_append: "linked l n x (as @ bs) \<Longrightarrow> linked l n (last (x # as)) bs"
  by (induction as arbitrary: x) auto

lemma linked_first: "linked l n x bs \<Longrightarrow> link l x n = first bs"
  by (cases bs) auto

lemma first_append: "first (xs @ ys) = (if xs = [] then first ys else first xs)"
  by (cases xs) auto

lemma first_SomeD: "first xs = Some x \<Longrightarrow> x \<in> set xs"
  by (cases xs) auto

lemma last_filter: "(P = [] \<or> f (last P)) \<Longrightarrow> last (z # filter f P) = last (z # P)"
  by (induction P rule: rev_induct) auto

lemma last_in: "last (z # P) = z \<or> last (z # P) \<in> set P"
  using last_in_set [of "z # P"] by auto

lemma sl_ok_node:
  assumes "sl_ok K lt l ids" "i \<in> insert head (set ids)"
  shows "i < length (nodes l)" "i \<noteq> head \<Longrightarrow> nk l i \<in> K" "i \<noteq> head \<Longrightarrow> hgt l i \<le> max_height l"
  using assms by (auto simp: sl_ok_def)

lemma sl_ok_last: "sl_ok K lt l (P @ S) \<Longrightarrow> last P = 0 \<longrightarrow> P = []"
  using last_in_set [of P] unfolding sl_ok_def by (metis UnCI less_irrefl set_append)

lemma tall_0: "sl_ok K lt l ids \<Longrightarrow> i \<in> set ids \<Longrightarrow> 0 < hgt l i"
  by (auto simp: sl_ok_def)

text \<open>The successor of a node at a level at which it has a link.\<close>

lemma Node_Next_eq:
  assumes ok: "sl_ok K lt l (P @ S)" and x: "x = last (head # P)" and n: "n < kMaxHeight" "P = [] \<or> n < hgt l x"
  shows "Node_Next l x n = Ret (first (tall l n S))"
proof -
  have "linked l n head (tall l n P @ tall l n S)" using ok n(1) by (simp add: sl_ok_def)
  then have "linked l n (last (head # tall l n P)) (tall l n S)" by (rule linked_append)
  then have "linked l n x (tall l n S)" using n(2) x last_filter [of P "\<lambda>i. n < hgt l i" head] by (cases "P = []") simp_all
  then have "link l x n = first (tall l n S)" by (rule linked_first)
  moreover have "x < length (nodes l)" using sl_ok_node(1) [OF ok, of x] x last_in [of head P] by auto
  moreover have "n < hgt l x" using n x ok by (auto simp: sl_ok_def)
  ultimately show ?thesis by (simp add: Node_Next_def link_def hgt_def)
qed

context ordered_keys
begin

abbreviation below :: "'k SkipList \<Rightarrow> 'k \<Rightarrow> nat \<Rightarrow> bool" where
  "below l key i \<equiv> lt (nk l i) key"

lemma sl_ok_distinct: "sl_ok keys lt l ids \<Longrightarrow> distinct ids"
proof (induction ids)
  case (Cons i ids)
  then have "sl_ok keys lt l ids \<Longrightarrow> distinct ids" by simp
  have "\<not> lt (nk l i) (nk l i)" using Cons.prems irrefl by (auto simp: sl_ok_def)
  then have "i \<notin> set ids" using Cons.prems by (auto simp: sl_ok_def)
  moreover have "sorted_wrt (\<lambda>i j. lt (nk l i) (nk l j)) ids" "\<forall>i\<in>set ids. nk l i \<in> keys" using Cons.prems by (auto simp: sl_ok_def)
  then have "distinct ids" using irrefl by (induction ids) auto
  ultimately show ?case by simp
qed simp

lemma sl_ok_length: "sl_ok keys lt l ids \<Longrightarrow> length ids < length (nodes l)"
proof -
  assume ok: "sl_ok keys lt l ids"
  have "card (insert 0 (set ids)) \<le> card {..<length (nodes l)}"
    using ok by (intro card_mono) (auto simp: sl_ok_def)
  moreover have "0 \<notin> set ids" using ok by (auto simp: sl_ok_def)
  ultimately show ?thesis using sl_ok_distinct [OF ok] distinct_card [of ids] by simp
qed

lemma sorted_below:
  assumes "sl_ok keys lt l ids" "key \<in> keys" "b \<in> set (dropWhile (below l key) ids)"
  shows "\<not> below l key b"
proof -
  let ?B = "dropWhile (below l key) ids"
  obtain c cs where B: "?B = c # cs" using assms(3) by (cases ?B) auto
  then have c: "\<not> below l key c" using hd_dropWhile [of "below l key" ids] by auto
  have "sorted_wrt (\<lambda>i j. lt (nk l i) (nk l j)) (takeWhile (below l key) ids @ ?B)" using assms(1) by (simp add: sl_ok_def)
  then have "sorted_wrt (\<lambda>i j. lt (nk l i) (nk l j)) (c # cs)" by (simp only: sorted_wrt_append B)
  moreover have "set ?B \<subseteq> set ids" by (auto dest: set_dropWhileD)
  then have "nk l c \<in> keys" "nk l b \<in> keys" using assms B by (auto simp: sl_ok_def)
  moreover have "b = c \<or> b \<in> set cs" using assms(3) B by simp
  ultimately show ?thesis using c assms(2) trans [of "nk l c" "nk l b" key] by (elim disjE) auto
qed

lemma KeyIsAfterNode_eq:
  assumes "sl_ok keys lt l ids" "key \<in> keys" "set S \<subseteq> set ids"
  shows "KeyIsAfterNode cmp l key (first S) = Ret (\<exists>y. first S = Some y \<and> below l key y)"
proof (cases S)
  case (Cons y ys)
  then have "y < length (nodes l)" "nk l y \<in> keys" using assms by (auto simp: sl_ok_def)
  with Cons cmp [of "nk l y" key] assms(2) show ?thesis by (auto simp: KeyIsAfterNode_def Node_key_def nk_def)
qed (simp add: KeyIsAfterNode_def)

definition pred :: "'k SkipList \<Rightarrow> nat list \<Rightarrow> nat \<Rightarrow> nat" where
  "pred l A n = last (head # tall l n A)"

definition fill :: "(nat \<Rightarrow> nat) \<Rightarrow> nat \<Rightarrow> nat option list \<Rightarrow> nat option list" where
  "fill f level p = map (\<lambda>n. if n \<le> level then Some (f n) else p ! n) [0..<length p]"

lemma fill_down: "0 < level \<Longrightarrow> fill f (level - 1) (p[level := Some (f level)]) = fill f level p"
  by (rule nth_equalityI) (auto simp: fill_def nth_list_update)

lemma fill_0: "fill f 0 p = p[0 := Some (f 0)]"
  by (rule nth_equalityI) (auto simp: fill_def nth_list_update)

lemma FindGreaterOrEqual_loop_eq:
  assumes ok: "sl_ok keys lt l ids" and key: "key \<in> keys"
    and A: "takeWhile (below l key) ids = P @ R" and x: "x = last (head # P)" "P = [] \<or> level < hgt l x"
    and level: "level < kMaxHeight" and fuel: "length R + level < fuel"
  shows "FindGreaterOrEqual_loop cmp l key fuel x level prev =
    Ret (first (dropWhile (below l key) ids), map_option (fill (pred l (P @ R)) level) prev)"
  using A x level fuel
proof (induction fuel arbitrary: P R x level prev)
  case (Suc fuel)
  let ?B = "dropWhile (below l key) ids"
  have ids: "ids = P @ (R @ ?B)" using Suc.prems(1) takeWhile_dropWhile_id [of "below l key" ids] by simp
  have "set ids = set (P @ (R @ ?B))" using ids by (rule arg_cong)
  then have sub: "set (tall l level (R @ ?B)) \<subseteq> set ids" by auto
  have nxt: "Node_Next l x level = Ret (first (tall l level (R @ ?B)))"
    by (rule Node_Next_eq [OF _ Suc.prems(2,4,3)]) (unfold ids [symmetric], rule ok)
  have A: "below l key i" if "i \<in> set (P @ R)" for i using that unfolding Suc.prems(1) [symmetric] by (rule set_takeWhileD [THEN conjunct2])
  have not_after: "\<not> (\<exists>y. first (tall l level ?B) = Some y \<and> below l key y)"
  proof clarify
    fix y assume "first (tall l level ?B) = Some y" "below l key y"
    moreover from this(1) have "y \<in> set ?B" by (auto dest: first_SomeD)
    ultimately show False using sorted_below [OF ok key, of y] by blast
  qed
  show ?case
  proof (cases "tall l level R")
    case Nil
    then have RB: "tall l level (R @ ?B) = tall l level ?B" by simp
    have after: "KeyIsAfterNode cmp l key (first (tall l level (R @ ?B))) = Ret False"
      by (subst KeyIsAfterNode_eq [OF ok key sub], unfold RB outcome.inject) (use not_after in blast)
    have x: "x = pred l (P @ R) level"
      using Suc.prems(2,3) Nil last_filter [of P "\<lambda>i. level < hgt l i" head] by (cases "P = []") (simp_all add: pred_def)
    show ?thesis
    proof (cases "level = 0")
      case True
      have "tall l 0 ?B = ?B"
        using tall_0 [OF ok] set_dropWhileD [of _ "below l key" ids] by (simp add: filter_id_conv)
      then have "first (tall l 0 (R @ ?B)) = first ?B" using Nil True by simp
      moreover have "map_option (\<lambda>p. p[0 := Some x]) prev = map_option (fill (pred l (P @ R)) 0) prev"
        using x True by (cases prev) (simp_all add: fill_0)
      ultimately show ?thesis using nxt after unfolding True by (simp only: FindGreaterOrEqual_loop.simps bindO.simps Let_def if_False if_True simp_thms)
    next
      case False
      have "FindGreaterOrEqual_loop cmp l key fuel x (level - 1) (map_option (\<lambda>p. p[level := Some x]) prev) =
        Ret (first ?B, map_option (fill (pred l (P @ R)) (level - 1)) (map_option (\<lambda>p. p[level := Some x]) prev))"
        by (rule Suc.IH [OF Suc.prems(1,2)]) (use Suc.prems(3-5) False in linarith)+
      moreover have "map_option (fill (pred l (P @ R)) (level - 1)) (map_option (\<lambda>p. p[level := Some x]) prev) =
        map_option (fill (pred l (P @ R)) level) prev"
        using False x fill_down [of level "pred l (P @ R)"] by (cases prev) simp_all
      ultimately show ?thesis using False nxt after by (simp only: FindGreaterOrEqual_loop.simps bindO.simps Let_def if_False)
    qed
  next
    case (Cons y ys)
    then obtain R1 R2 where R: "R = R1 @ y # R2" "level < hgt l y" by (auto simp: filter_eq_Cons_iff)
    have y: "first (tall l level (R @ ?B)) = Some y" using Cons by simp
    have "KeyIsAfterNode cmp l key (Some y) = Ret True"
      using KeyIsAfterNode_eq [OF ok key sub] A [of y] R(1) unfolding y by simp
    moreover have "FindGreaterOrEqual_loop cmp l key fuel y level prev =
      Ret (first ?B, map_option (fill (pred l ((P @ R1 @ [y]) @ R2)) level) prev)"
      by (rule Suc.IH) (use Suc.prems R in simp_all)
    moreover have "(P @ R1 @ [y]) @ R2 = P @ R" using R(1) by simp
    ultimately show ?thesis using nxt unfolding y
      by (simp only: FindGreaterOrEqual_loop.simps bindO.simps if_True option.sel)
  qed
qed simp

lemma FindGreaterOrEqual_eq:
  assumes "sl_ok keys lt l ids" "key \<in> keys"
  shows "FindGreaterOrEqual cmp l key prev =
    Ret (first (dropWhile (below l key) ids), map_option (fill (pred l (takeWhile (below l key) ids)) (max_height l - 1)) prev)"
proof -
  have "length (takeWhile (below l key) ids) \<le> length ids" by (rule length_takeWhile_le)
  moreover have "max_height l - 1 < kMaxHeight" using assms(1) by (auto simp: sl_ok_def)
  ultimately show ?thesis
    using FindGreaterOrEqual_loop_eq [OF assms, of "[]" "takeWhile (below l key) ids" head "max_height l - 1" "search_fuel l" prev]
      sl_ok_length [OF assms(1)]
    by (simp add: FindGreaterOrEqual_def search_fuel_def)
qed

end

lemma FindLessThan_loop_eq:
  "0 < length p \<Longrightarrow> FindLessThan_loop cmp l key fuel x level =
     bindO (FindGreaterOrEqual_loop cmp l key fuel x level (Some p)) (\<lambda>(_, p). Ret (the (the p ! 0)))"
proof (induction fuel arbitrary: x level p)
  case (Suc fuel)
  have stop: "bindO (case nxt of None \<Rightarrow> Ret True
      | Some y \<Rightarrow> bindO (Node_key l y) (\<lambda>k. bindO (cmp k key) (\<lambda>r. Ret (0 \<le> r)))) f =
    bindO (KeyIsAfterNode cmp l key nxt) (\<lambda>after. f (\<not> after))" for nxt and f :: "bool \<Rightarrow> nat outcome"
    by (cases nxt) (simp_all add: KeyIsAfterNode_def bindO_assoc not_less)
  show ?case
  proof (cases "Node_Next l x level")
    case (Ret nxt)
    show ?thesis
    proof (cases "KeyIsAfterNode cmp l key nxt")
      case ret: (Ret after)
      show ?thesis
        using Ret ret Suc.prems Suc.IH [of p "the nxt" level] Suc.IH [of "p[level := Some x]" x "level - 1"]
        by (cases after) (simp_all add: stop)
    qed (simp_all add: Ret stop)
  qed simp_all
qed simp

context ordered_keys
begin

lemma FindLessThan_eq:
  assumes "sl_ok keys lt l ids" "key \<in> keys"
  shows "FindLessThan cmp l key = Ret (last (head # takeWhile (below l key) ids))"
proof -
  have "tall l 0 (takeWhile (below l key) ids) = takeWhile (below l key) ids"
    using tall_0 [OF assms(1)] by (simp add: filter_id_conv) (metis set_takeWhileD)
  then show ?thesis
    using FindGreaterOrEqual_eq [OF assms, of "Some [None]"]
    by (simp add: FindLessThan_def FindGreaterOrEqual_def FindLessThan_loop_eq [of "[None]"] fill_def pred_def)
qed

end

lemma FindLast_loop_eq:
  assumes "sl_ok K lt l (P @ R)" "x = last (head # P)" "P = [] \<or> level < hgt l x" "level < kMaxHeight" "length R + level < fuel"
  shows "FindLast_loop l fuel x level = Ret (last (head # P @ R))"
  using assms
proof (induction fuel arbitrary: P R x level)
  case (Suc fuel)
  have nxt: "Node_Next l x level = Ret (first (tall l level R))" by (rule Node_Next_eq [OF Suc.prems(1,2,4,3)])
  show ?case
  proof (cases "tall l level R")
    case Nil
    show ?thesis
    proof (cases "level = 0")
      case True
      then have "R = []" using Nil tall_0 [OF Suc.prems(1)] by (cases R) auto
      then show ?thesis using nxt True Suc.prems(2) by simp
    next
      case False
      have "FindLast_loop l fuel x (level - 1) = Ret (last (head # P @ R))"
        by (rule Suc.IH [OF Suc.prems(1,2)]) (use Suc.prems(3-5) False in linarith)+
      then show ?thesis using nxt Nil False by simp
    qed
  next
    case (Cons y ys)
    then obtain R1 R2 where R: "R = R1 @ y # R2" "level < hgt l y" by (auto simp: filter_eq_Cons_iff)
    have "FindLast_loop l fuel y level = Ret (last (head # (P @ R1 @ [y]) @ R2))"
      by (rule Suc.IH) (use Suc.prems R in simp_all)
    then show ?thesis using nxt Cons R(1) by simp
  qed
qed simp

section \<open>Insertion\<close>

lemma RandomHeight_loop_range: "1 \<le> h \<Longrightarrow> h \<le> kMaxHeight \<Longrightarrow> 1 \<le> fst (RandomHeight_loop h s) \<and> fst (RandomHeight_loop h s) \<le> kMaxHeight"
proof (induction h s rule: RandomHeight_loop.induct)
  case (1 h s)
  obtain v s' where r: "Random_Next s = (v, s')" by fastforce
  show ?case
    using "1.IH" [OF _ r [symmetric]] "1.prems" by (simp add: RandomHeight_loop.simps [of h s] r)
qed

lemma nth_update_any: "xs[y := v] ! z = (if z = y \<and> y < length xs then v else xs ! z)"
  by (cases "y < length xs") (auto simp: nth_list_update list_update_beyond)

lemma Insert_links_eq:
  assumes "distinct is" and "\<forall>i\<in>set is. prev ! i = Some (p i) \<and> p i \<noteq> x \<and> p i < length (nodes l) \<and> i < hgt l (p i) \<and> i < hgt l x"
    and "x < length (nodes l)"
  shows "\<exists>l'. Insert_links x prev is l = Ret l' \<and> length (nodes l') = length (nodes l) \<and> max_height l' = max_height l \<and> rnd l' = rnd l \<and>
    nk l' = nk l \<and> hgt l' = hgt l \<and>
    (\<forall>y n. link l' y n = (if n \<in> set is then if y = x then link l (p n) n else if y = p n then Some x else link l y n else link l y n))"
  using assms
proof (induction "is" arbitrary: l)
  case (Cons i "is")
  let ?upd = "\<lambda>l y v. l\<lparr>nodes := (nodes l)[y := (nodes l ! y)\<lparr>next_links := (next_links (nodes l ! y))[i := v]\<rparr>]\<rparr>"
  define l1 where "l1 = ?upd l x (link l (p i) i)"
  define l2 where "l2 = ?upd l1 (p i) (Some x)"
  have upd: "hgt (?upd l y v) = hgt l" "nk (?upd l y v) = nk l"
    "link (?upd l y v) z n = (if z = y \<and> n = i \<and> y < length (nodes l) \<and> i < hgt l y then v else link l z n)" for l :: "'a SkipList" and y v z n
    by (auto simp: hgt_def nk_def link_def fun_eq_iff nth_update_any)
  have s1: "Node_Next l (p i) i = Ret (link l (p i) i)" "Node_SetNext l x i (link l (p i) i) = Ret l1"
    using Cons.prems by (auto simp: Node_Next_def Node_SetNext_def link_def hgt_def l1_def)
  have l1: "hgt l1 = hgt l" "nk l1 = nk l" "length (nodes l1) = length (nodes l)" by (simp_all add: l1_def upd)
  have s2: "Node_SetNext l1 (p i) i (Some x) = Ret l2"
    using Cons.prems l1 by (auto simp: Node_SetNext_def l2_def fun_eq_iff hgt_def)
  have l2: "hgt l2 = hgt l" "nk l2 = nk l" "length (nodes l2) = length (nodes l)" "max_height l2 = max_height l" "rnd l2 = rnd l"
    using l1 by (simp_all add: l2_def upd) (simp_all add: l1_def)
  have lk: "link l2 y n = (if n = i then if y = x then link l (p n) n else if y = p n then Some x else link l y n else link l y n)" for y n
    using Cons.prems l1 by (auto simp: l2_def upd) (auto simp: l1_def upd)
  have "\<exists>l'. Insert_links x prev is l2 = Ret l' \<and> length (nodes l') = length (nodes l2) \<and> max_height l' = max_height l2 \<and> rnd l' = rnd l2 \<and>
    nk l' = nk l2 \<and> hgt l' = hgt l2 \<and>
    (\<forall>y n. link l' y n = (if n \<in> set is then if y = x then link l2 (p n) n else if y = p n then Some x else link l2 y n else link l2 y n))"
    using Cons.prems l2 by (intro Cons.IH) auto
  moreover have "prev ! i = Some (p i)" "i \<notin> set is" using Cons.prems by auto
  ultimately show ?case using l2 s1 s2 by (auto simp: lk)
qed simp

text \<open>One more node in the middle of a level.\<close>

lemma linked_insert:
  assumes "linked l n z (as @ bs)" "distinct (z # as)" "x \<notin> set (z # as @ bs)" "set as \<inter> set bs = {}" "z \<notin> set bs"
    and "\<And>y. link l' y n = (if y = x then link l (last (z # as)) n else if y = last (z # as) then Some x else link l y n)"
  shows "linked l' n z (as @ x # bs)"
  using assms
proof (induction as arbitrary: z)
  case Nil
  have "linked l' n y ys" if "linked l n y ys" "z \<notin> set (y # ys)" "x \<notin> set (y # ys)" for y ys
    using that Nil.prems(6) by (induction ys arbitrary: y) auto
  with Nil show ?case by (cases bs) auto
next
  case (Cons a as)
  have "linked l' n a (as @ x # bs)"
    using Cons.prems by (intro Cons.IH) (auto split: if_splits)
  moreover have "z \<noteq> last (a # as)" using Cons.prems(2) last_in_set [of "a # as"] by (metis distinct.simps(2) list.distinct(1))
  ultimately show ?case using Cons.prems by auto
qed

lemma linked_same: "linked l n z xs \<Longrightarrow> (\<And>y. y \<in> insert z (set xs) \<Longrightarrow> link l' y n = link l y n) \<Longrightarrow> linked l' n z xs"
  by (induction xs arbitrary: z) auto

lemma fold_update: "length (fold (\<lambda>i p. p[i := v]) is p) = length p"
  "fold (\<lambda>i p. p[i := v]) is p ! n = (if n \<in> set is \<and> n < length p then v else p ! n)"
  by (induction "is" arbitrary: p) (auto simp: nth_update_any)

lemma sorted_wrt_insert_middle:
  assumes "sorted_wrt R (A @ B)" "\<And>a. a \<in> set A \<Longrightarrow> R' a x" "\<And>b. b \<in> set B \<Longrightarrow> R' x b"
    and R: "\<And>a b. a \<in> set (A @ B) \<Longrightarrow> b \<in> set (A @ B) \<Longrightarrow> R a b \<Longrightarrow> R' a b"
  shows "sorted_wrt R' (A @ x # B)"
proof -
  have "sorted_wrt R' (A @ B)" using R assms(1) by (rule sorted_wrt_mono_rel)
  with assms(2,3) show ?thesis by (simp add: sorted_wrt_append)
qed

text \<open>The list with a node that nobody can reach yet.\<close>

definition with_node :: "'k \<Rightarrow> nat \<Rightarrow> u32 \<Rightarrow> 'k SkipList \<Rightarrow> 'k SkipList" where
  "with_node key h seed l =
     \<lparr>nodes = nodes l @ [\<lparr>nkey = key, next_links = replicate h None\<rparr>], max_height = max h (max_height l), rnd = seed\<rparr>"

lemma with_node_simps [simp]:
  "length (nodes (with_node key h seed l)) = Suc (length (nodes l))"
  "max_height (with_node key h seed l) = max h (max_height l)"
  "y < length (nodes l) \<Longrightarrow> nk (with_node key h seed l) y = nk l y"
  "nk (with_node key h seed l) (length (nodes l)) = key"
  "y < length (nodes l) \<Longrightarrow> hgt (with_node key h seed l) y = hgt l y"
  "hgt (with_node key h seed l) (length (nodes l)) = h"
  "y < length (nodes l) \<Longrightarrow> link (with_node key h seed l) y n = link l y n"
  by (simp_all add: with_node_def nk_def hgt_def link_def nth_append)

context ordered_keys
begin

abbreviation upto :: "'k SkipList \<Rightarrow> 'k \<Rightarrow> nat list \<Rightarrow> nat list" where
  "upto l key ids \<equiv> takeWhile (below l key) ids"

abbreviation onwards :: "'k SkipList \<Rightarrow> 'k \<Rightarrow> nat list \<Rightarrow> nat list" where
  "onwards l key ids \<equiv> dropWhile (below l key) ids"

lemma pred_node:
  assumes "sl_ok keys lt l ids" "set A \<subseteq> set ids" "n < kMaxHeight"
  shows "pred l A n < length (nodes l)" "n < hgt l (pred l A n)" "max_height l \<le> n \<Longrightarrow> pred l A n = head"
proof -
  have p: "pred l A n = head \<or> pred l A n \<in> set A \<and> n < hgt l (pred l A n)"
    using last_in [of head "tall l n A"] by (auto simp: pred_def)
  then show "pred l A n < length (nodes l)" "n < hgt l (pred l A n)" using assms by (auto simp: sl_ok_def)
  show "pred l A n = head" if "max_height l \<le> n" using p that sl_ok_node(3) [OF assms(1), of "pred l A n"] assms(2) by force
qed

text \<open>What the code computes before it links the node: the predecessors at all its levels.\<close>

lemma SkipList_Insert_prev:
  assumes ok: "sl_ok keys lt l ids" and "key \<in> keys" and R: "RandomHeight_loop 1 (rnd l) = (h, seed)"
  obtains prev where "SkipList_Insert cmp key l = Insert_links (length (nodes l)) prev [0..<h] (with_node key h seed l)"
    "\<And>n. n < h \<Longrightarrow> prev ! n = Some (pred l (upto l key ids) n)" "1 \<le> h" "h \<le> kMaxHeight"
proof -
  let ?A = "upto l key ids"
  let ?m = "max_height l"
  define p0 where "p0 = fill (pred l ?A) (?m - 1) (replicate kMaxHeight None)"
  define prev where "prev = (if h > ?m then fold (\<lambda>i p. p[i := Some head]) [?m..<h] p0 else p0)"
  have h: "1 \<le> h" "h \<le> kMaxHeight" using RandomHeight_loop_range [of 1 "rnd l"] R by (simp_all add: kMaxHeight_def)
  have m: "1 \<le> ?m" "?m \<le> kMaxHeight" using ok by (auto simp: sl_ok_def)
  have "set ?A \<subseteq> set ids" by (auto dest: set_takeWhileD)
  then have hd: "pred l ?A n = head" if "n < h" "\<not> n < ?m" for n using pred_node(3) [OF ok, of ?A n] that h by simp
  have p0: "p0 ! n = Some (pred l ?A n)" if "n < ?m" for n using that m by (simp add: p0_def fill_def)
  have len: "length p0 = kMaxHeight" by (simp add: p0_def fill_def)
  have "prev ! n = Some (pred l ?A n)" if "n < h" for n
    using that hd [OF that] p0 [of n] h len by (cases "n < ?m") (auto simp: prev_def fold_update)
  moreover have "SkipList_Insert cmp key l = Insert_links (length (nodes l)) prev [0..<h] (with_node key h seed l)"
    unfolding SkipList_Insert_def FindGreaterOrEqual_eq [OF assms(1,2)]
    by (simp add: RandomHeight_def R [unfolded One_nat_def] NewNode_def with_node_def prev_def p0_def max_def)
      (cases l, simp)
  ultimately show ?thesis using that h by blast
qed

lemma SkipList_Insert_ok:
  assumes ok: "sl_ok keys lt l ids" and key: "key \<in> keys" and new: "\<forall>i\<in>set ids. lt (nk l i) key \<or> lt key (nk l i)"
  shows "\<exists>l'. SkipList_Insert cmp key l = Ret l' \<and> sl_ok keys lt l' (upto l key ids @ length (nodes l) # onwards l key ids) \<and>
    length (nodes l') = Suc (length (nodes l)) \<and> nk l' (length (nodes l)) = key \<and> (\<forall>i<length (nodes l). nk l' i = nk l i)"
proof -
  let ?A = "upto l key ids" and ?B = "onwards l key ids" and ?x = "length (nodes l)"
  obtain h seed where R: "RandomHeight_loop 1 (rnd l) = (h, seed)" by fastforce
  define lm where "lm = with_node key h seed l"
  obtain prev where I: "SkipList_Insert cmp key l = Insert_links ?x prev [0..<h] lm"
    and prev: "\<And>n. n < h \<Longrightarrow> prev ! n = Some (pred l ?A n)" and h: "1 \<le> h" "h \<le> kMaxHeight"
    using SkipList_Insert_prev [OF ok key R] unfolding lm_def by blast
  have sub: "set ?A \<subseteq> set ids" "set ?B \<subseteq> set ids" by (auto dest: set_takeWhileD set_dropWhileD)
  have P': "pred l ?A n < ?x \<and> pred l ?A n \<noteq> ?x \<and> n < hgt l (pred l ?A n)" if "n < h" for n
    using pred_node [OF ok sub(1), of n] that h by auto
  have less: "i < ?x" "i \<noteq> ?x" if "i \<in> insert head (set ids)" for i using sl_ok_node(1) [OF ok that] by simp_all
  have "\<exists>l'. Insert_links ?x prev [0..<h] lm = Ret l' \<and> length (nodes l') = length (nodes lm) \<and> max_height l' = max_height lm \<and> rnd l' = rnd lm \<and>
    nk l' = nk lm \<and> hgt l' = hgt lm \<and>
    (\<forall>y n. link l' y n = (if n \<in> set [0..<h] then if y = ?x then link lm (pred l ?A n) n else if y = pred l ?A n then Some ?x else link lm y n else link lm y n))"
    by (intro Insert_links_eq ballI) (use prev P' in \<open>auto simp: lm_def less_SucI\<close>)
  then obtain l' where l': "Insert_links ?x prev [0..<h] lm = Ret l'" "length (nodes l') = Suc ?x" "max_height l' = max h (max_height l)"
    "nk l' = nk lm" "hgt l' = hgt lm"
    and lk: "\<And>y n. link l' y n = (if n < h then if y = ?x then link lm (pred l ?A n) n else if y = pred l ?A n then Some ?x else link lm y n else link lm y n)"
    by (auto simp: lm_def)
  have old: "hgt l' i = hgt l i" "nk l' i = nk l i" if "i < ?x" for i using l' that by (simp_all add: lm_def)
  have new_node: "hgt l' ?x = h" "nk l' ?x = key" using l' by (simp_all add: lm_def)
  have tall: "tall l' n xs = tall l n xs" if "set xs \<subseteq> set ids" for n xs
    using old(1) less that by (intro filter_cong) auto
  have "linked l' n head (tall l' n (?A @ ?x # ?B))" if n: "n < kMaxHeight" for n
  proof -
    have L: "linked l n head (tall l n ?A @ tall l n ?B)" using ok n by (simp add: sl_ok_def flip: filter_append)
    have lm_link: "link lm y n = link l y n" if "y \<in> insert head (set ids)" for y using less(1) [OF that] by (simp add: lm_def)
    show ?thesis
    proof (cases "n < h")
      case True
      have "linked l' n head (tall l n ?A @ ?x # tall l n ?B)"
      proof (rule linked_insert)
        show "linked lm n head (tall l n ?A @ tall l n ?B)"
          using L by (rule linked_same) (rule lm_link, use sub in auto)
        have "distinct (?A @ ?B)" using sl_ok_distinct [OF ok] by simp
        then have d: "distinct ?A" "set ?A \<inter> set ?B = {}" by (simp_all only: distinct_append)
        have "head \<notin> set ids" using ok by (auto simp: sl_ok_def)
        with d sub show "distinct (head # tall l n ?A)" "set (tall l n ?A) \<inter> set (tall l n ?B) = {}" "head \<notin> set (tall l n ?B)" by auto
        show "?x \<notin> set (head # tall l n ?A @ tall l n ?B)" using less(2) sub by auto
        show "link l' y n = (if y = ?x then link lm (last (head # tall l n ?A)) n
            else if y = last (head # tall l n ?A) then Some ?x else link lm y n)" for y
          using True lk [of y n] by (simp add: pred_def)
      qed
      then show ?thesis using True by (simp add: tall sub new_node)
    next
      case False
      have "linked l' n head (tall l n ?A @ tall l n ?B)"
        using L by (rule linked_same) (subst lk, simp only: False if_False, rule lm_link, use sub in auto)
      then show ?thesis using False by (simp add: tall sub new_node)
    qed
  qed
  moreover have "sorted_wrt (\<lambda>i j. lt (nk l' i) (nk l' j)) (?A @ ?x # ?B)"
  proof -
    have same: "nk l' i = nk l i" if "i \<in> set ids" for i using old(2) [of i] less [of i] that by auto
    have below: "lt (nk l' i) key" if "i \<in> set ?A" for i using set_takeWhileD [OF that] same [of i] by simp
    have "i \<in> set ids" if "i \<in> set ?B" for i using sub that by blast
    then have above: "lt key (nk l' i)" if "i \<in> set ?B" for i using sorted_below [OF ok key that] new same [of i] that by auto
    have "sorted_wrt (\<lambda>i j. lt (nk l i) (nk l j)) (?A @ ?B)" using ok by (simp add: sl_ok_def)
    then show ?thesis
      by (rule sorted_wrt_insert_middle) (use same below above in \<open>simp_all add: new_node\<close>)
  qed
  moreover have "0 < i \<and> i < length (nodes l') \<and> 1 \<le> hgt l' i \<and> hgt l' i \<le> max_height l' \<and> nk l' i \<in> keys" if "i \<in> set (?A @ ?x # ?B)" for i
  proof (cases "i = ?x")
    case True
    then show ?thesis using h l'(2,3) new_node key ok by (auto simp: sl_ok_def)
  next
    case False
    with that sub have "i \<in> set ids" by auto
    with ok show ?thesis using less [of i] old [of i] l'(2,3) by (auto simp: sl_ok_def)
  qed
  moreover have "nodes l' \<noteq> []" "hgt l' head = kMaxHeight" "1 \<le> max_height l'" "max_height l' \<le> kMaxHeight"
    using ok l'(2,3) old [of head] h by (auto simp: sl_ok_def)
  ultimately have "sl_ok keys lt l' (?A @ ?x # ?B)" by (simp only: sl_ok_def) blast
  then show ?thesis using I l'(1,2) old(2) new_node by auto
qed

end

section \<open>Refinement of a sorted sequence of keys\<close>

definition sl_rep :: "'k set \<Rightarrow> ('k \<Rightarrow> 'k \<Rightarrow> bool) \<Rightarrow> 'k SkipList \<Rightarrow> 'k list \<Rightarrow> bool" where
  "sl_rep keys lt l ks \<longleftrightarrow> (\<exists>ids. sl_ok keys lt l ids \<and> ks = map (nk l) ids)"

text \<open>The keys that an iterator meets when it is moved by \<open>step\<close> until it is not valid.\<close>

fun Iter_scan :: "(sl_iter \<Rightarrow> sl_iter outcome) \<Rightarrow> 'k SkipList \<Rightarrow> nat \<Rightarrow> sl_iter \<Rightarrow> 'k list outcome" where
  "Iter_scan step l 0 it = NoFuel"
| "Iter_scan step l (Suc n) it =
     (if Iter_Valid it
      then bindO (Iter_key l it) (\<lambda>k. bindO (step it) (\<lambda>it. bindO (Iter_scan step l n it) (\<lambda>ks. Ret (k # ks))))
      else Ret [])"

lemma sl_rep_new: "sl_rep keys lt (SkipList_new k) []"
  by (auto simp: sl_rep_def sl_ok_def SkipList_new_def hgt_def link_def kMaxHeight_def)

lemma Iter_scan_Next:
  assumes "sl_ok K lt l (P @ S)" "length S < n"
  shows "Iter_scan (Iter_Next l) l n (first S) = Ret (map (nk l) S)"
  using assms
proof (induction S arbitrary: P n)
  case (Cons x S)
  then obtain m where n: "n = Suc m" "length S < m" by (cases n) auto
  have "x \<in> insert head (set (P @ x # S))" by simp
  from sl_ok_node(1) [OF Cons.prems(1) this] have k: "Iter_key l (Some x) = Ret (nk l x)" by (simp add: Iter_key_def Node_key_def nk_def)
  have t: "0 < hgt l i" if "i \<in> set (P @ x # S)" for i using tall_0 [OF Cons.prems(1) that] .
  then have "tall l 0 S = S" by (simp add: filter_id_conv)
  moreover have "0 < hgt l x" using t by simp
  ultimately have nx: "Node_Next l x 0 = Ret (first S)"
    using Node_Next_eq [of K lt l "P @ [x]" S x 0] Cons.prems(1) by (simp add: kMaxHeight_def)
  have "Iter_scan (Iter_Next l) l m (first S) = Ret (map (nk l) S)" using Cons.IH [of "P @ [x]" m] Cons.prems(1) n(2) by simp
  then show ?case using k nx by (simp add: n(1) Iter_Valid_def) (simp add: Iter_Next_def)
qed (auto simp: Iter_Valid_def gr0_conv_Suc)

fun Insert_all :: "'k key_compare \<Rightarrow> 'k list \<Rightarrow> 'k SkipList \<Rightarrow> 'k SkipList outcome" where
  "Insert_all cmp [] l = Ret l"
| "Insert_all cmp (k # ks) l = bindO (SkipList_Insert cmp k l) (Insert_all cmp ks)"

context ordered_keys
begin

lemma rep_insert:
  assumes "sl_rep keys lt l ks" "key \<in> keys" "\<forall>k\<in>set ks. lt k key \<or> lt key k"
  shows "\<exists>l'. SkipList_Insert cmp key l = Ret l' \<and>
    sl_rep keys lt l' (takeWhile (\<lambda>k. lt k key) ks @ key # dropWhile (\<lambda>k. lt k key) ks)"
proof -
  from assms(1) obtain ids where ids: "sl_ok keys lt l ids" "ks = map (nk l) ids" by (auto simp: sl_rep_def)
  let ?A = "upto l key ids" and ?B = "onwards l key ids" and ?x = "length (nodes l)"
  have "\<forall>i\<in>set ids. lt (nk l i) key \<or> lt key (nk l i)" using assms(3) ids(2) by simp
  from SkipList_Insert_ok [OF ids(1) assms(2) this] obtain l' where
    l': "SkipList_Insert cmp key l = Ret l'" "sl_ok keys lt l' (?A @ ?x # ?B)" "nk l' ?x = key" "\<forall>i<?x. nk l' i = nk l i" by blast
  have "nk l' i = nk l i" if "i \<in> set ids" for i using l'(4) sl_ok_node(1) [OF ids(1), of i] that by simp
  then have "map (nk l') ?A = map (nk l) ?A" "map (nk l') ?B = map (nk l) ?B"
    by (auto dest: set_takeWhileD set_dropWhileD)
  then have "map (nk l') (?A @ ?x # ?B) = takeWhile (\<lambda>k. lt k key) ks @ key # dropWhile (\<lambda>k. lt k key) ks"
    using l'(3) ids(2) by (simp add: takeWhile_map dropWhile_map comp_def)
  then show ?thesis using l'(1,2) by (metis sl_rep_def)
qed

lemma rep_sorted: "sl_rep keys lt l ks \<Longrightarrow> sorted_wrt lt ks \<and> set ks \<subseteq> keys"
  by (auto simp: sl_rep_def sl_ok_def sorted_wrt_map)

lemma rep_seek:
  assumes "sl_rep keys lt l ks" "key \<in> keys"
  shows "\<exists>it. Iter_Seek cmp l key = Ret it \<and>
    (case first (dropWhile (\<lambda>k. lt k key) ks) of None \<Rightarrow> it = None | Some k \<Rightarrow> it \<noteq> None \<and> Iter_key l it = Ret k)"
proof -
  from assms(1) obtain ids where ids: "sl_ok keys lt l ids" "ks = map (nk l) ids" by (auto simp: sl_rep_def)
  have S: "Iter_Seek cmp l key = Ret (first (onwards l key ids))"
    by (simp add: Iter_Seek_def FindGreaterOrEqual_eq [OF ids(1) assms(2)])
  have D: "dropWhile (\<lambda>k. lt k key) ks = map (nk l) (onwards l key ids)" by (simp add: ids(2) dropWhile_map comp_def)
  show ?thesis
  proof (cases "onwards l key ids")
    case Nil
    then show ?thesis unfolding S D by (simp only: Nil) simp
  next
    case (Cons x xs)
    then have "x \<in> set ids" by (metis list.set_intros(1) set_dropWhileD)
    then have "x < length (nodes l)" using sl_ok_node(1) [OF ids(1), of x] by simp
    then show ?thesis using S D Cons by (auto simp: Iter_key_def Node_key_def nk_def)
  qed
qed

lemma rep_contains:
  assumes "sl_rep keys lt l ks" "key \<in> keys"
  shows "SkipList_Contains cmp key l = Ret (\<exists>k\<in>set ks. \<not> lt k key \<and> \<not> lt key k)"
proof -
  from assms(1) obtain ids where ids: "sl_ok keys lt l ids" "ks = map (nk l) ids" by (auto simp: sl_rep_def)
  let ?A = "upto l key ids" and ?B = "onwards l key ids"
  have "set ids = set (?A @ ?B)" by simp
  then have AB: "set ids = set ?A \<union> set ?B" by (simp only: set_append)
  have A: "lt (nk l i) key" if "i \<in> set ?A" for i using set_takeWhileD [OF that] by simp
  have "\<not> lt (nk l i) key" if "i \<in> set ?B" for i by (rule sorted_below [OF ids(1) assms(2) that])
  with A have "(\<exists>i\<in>set ?A \<union> set ?B. \<not> lt (nk l i) key \<and> \<not> lt key (nk l i)) \<longleftrightarrow> (\<exists>i\<in>set ?B. \<not> lt key (nk l i))" by blast
  then have ks: "(\<exists>k\<in>set ks. \<not> lt k key \<and> \<not> lt key k) \<longleftrightarrow> (\<exists>i\<in>set ?B. \<not> lt key (nk l i))"
    unfolding ids(2) AB [symmetric] by simp
  show ?thesis
  proof (cases ?B)
    case Nil
    then show ?thesis unfolding ks SkipList_Contains_def FindGreaterOrEqual_eq [OF ids(1) assms(2)] by (simp only: Nil) simp
  next
    case (Cons x B)
    have "sorted_wrt (\<lambda>i j. lt (nk l i) (nk l j)) (?A @ ?B)" using ids(1) by (simp add: sl_ok_def)
    then have x: "\<forall>i\<in>set B. lt (nk l x) (nk l i)" unfolding Cons sorted_wrt_append by simp
    have B: "set ?B \<subseteq> set ids" by (auto dest: set_dropWhileD)
    then have n: "x < length (nodes l)" "\<forall>i\<in>set ?B. nk l i \<in> keys" using ids(1) unfolding Cons by (auto simp: sl_ok_def)
    obtain r where r: "cmp key (nk l x) = Ret r" "r < 0 \<longleftrightarrow> lt key (nk l x)" "0 < r \<longleftrightarrow> lt (nk l x) key"
      using cmp [of key "nk l x"] assms(2) n(2) Cons by auto
    have "\<not> lt (nk l x) key" using sorted_below [OF ids(1) assms(2), of x] Cons by simp
    then have "r = 0 \<longleftrightarrow> \<not> lt key (nk l x)" using r by linarith
    also have "\<dots> \<longleftrightarrow> (\<exists>i\<in>set ?B. \<not> lt key (nk l i))"
      unfolding Cons using x trans [OF assms(2), of "nk l x"] n(2) [unfolded Cons] by auto
    finally show ?thesis
      unfolding ks using n(1) r(1) Cons by (simp add: SkipList_Contains_def FindGreaterOrEqual_eq [OF ids(1) assms(2)] Node_key_def nk_def)
  qed
qed

lemma scan_forward:
  assumes "sl_rep keys lt l ks"
  shows "bindO (Iter_SeekToFirst l) (Iter_scan (Iter_Next l) l (search_fuel l)) = Ret ks"
proof -
  from assms obtain ids where ids: "sl_ok keys lt l ids" "ks = map (nk l) ids" by (auto simp: sl_rep_def)
  have "tall l 0 ids = ids" using tall_0 [OF ids(1)] by (simp add: filter_id_conv)
  then have "Iter_SeekToFirst l = Ret (first ids)"
    using Node_Next_eq [of keys lt l "[]" ids head 0] ids(1) by (simp add: Iter_SeekToFirst_def kMaxHeight_def)
  then show ?thesis
    using Iter_scan_Next [of keys lt l "[]" ids "search_fuel l"] ids sl_ok_length [OF ids(1)] by (simp add: search_fuel_def)
qed

lemma Iter_Prev_eq:
  assumes "sl_ok keys lt l (P @ x # S)"
  shows "Iter_key l (Some x) = Ret (nk l x)" "Iter_Prev cmp l (Some x) = Ret (if P = [] then None else Some (last P))"
proof -
  have "x \<in> insert head (set (P @ x # S))" by simp
  from sl_ok_node(1) [OF assms this] show k: "Iter_key l (Some x) = Ret (nk l x)" by (simp add: Iter_key_def Node_key_def nk_def)
  have x: "nk l x \<in> keys" using assms by (auto simp: sl_ok_def)
  have "\<forall>i\<in>set P. lt (nk l i) (nk l x)" using assms by (auto simp: sl_ok_def sorted_wrt_append)
  then have "takeWhile (below l (nk l x)) (P @ x # S) = P" using irrefl [OF x] by (subst takeWhile_append2) auto
  moreover have "last P = 0 \<longrightarrow> P = []" using sl_ok_last [OF assms] .
  ultimately show "Iter_Prev cmp l (Some x) = Ret (if P = [] then None else Some (last P))"
    using FindLessThan_eq [OF assms x] by (simp add: Iter_Prev_def k)
qed

lemma scan_backward:
  assumes "sl_rep keys lt l ks"
  shows "bindO (Iter_SeekToLast l) (Iter_scan (Iter_Prev cmp l) l (search_fuel l)) = Ret (rev ks)"
proof -
  from assms obtain ids where ids: "sl_ok keys lt l ids" "ks = map (nk l) ids" by (auto simp: sl_rep_def)
  have scan: "Iter_scan (Iter_Prev cmp l) l n (if P = [] then None else Some (last P)) = Ret (rev (map (nk l) P))"
    if "sl_ok keys lt l (P @ S)" "length P < n" for P S n
    using that
  proof (induction P arbitrary: S n rule: rev_induct)
    case (snoc x P)
    then obtain m where n: "n = Suc m" "length P < m" by (cases n) auto
    have "sl_ok keys lt l (P @ x # S)" using snoc.prems(1) by simp
    from Iter_Prev_eq [OF this] snoc.IH [OF this n(2)] show ?case by (simp add: n(1) Iter_Valid_def)
  qed (auto simp: Iter_Valid_def gr0_conv_Suc)
  have pos: "last ids = 0 \<longrightarrow> ids = []" using sl_ok_last [of keys lt l ids "[]"] ids(1) by simp
  have lv: "max_height l - 1 < kMaxHeight" using ids(1) by (auto simp: sl_ok_def)
  have "FindLast l = Ret (last (head # [] @ ids))"
    unfolding FindLast_def by (rule FindLast_loop_eq) (use ids(1) lv sl_ok_length [OF ids(1)] in \<open>auto simp: search_fuel_def\<close>)
  then have "Iter_SeekToLast l = Ret (if ids = [] then None else Some (last ids))" using pos by (simp add: Iter_SeekToLast_def)
  then show ?thesis using scan [of ids "[]" "search_fuel l"] ids sl_ok_length [OF ids(1)] by (simp add: search_fuel_def)
qed

lemma rep_insert_all:
  assumes "sl_rep keys lt l s" "set ks \<subseteq> keys" "sorted_wrt (\<lambda>a b. lt a b \<or> lt b a) ks"
    "\<forall>k\<in>set ks. \<forall>k'\<in>set s. lt k' k \<or> lt k k'"
  shows "\<exists>l' s'. Insert_all cmp ks l = Ret l' \<and> sl_rep keys lt l' s' \<and> mset s' = mset s + mset ks"
  using assms
proof (induction ks arbitrary: l s)
  case (Cons k ks)
  let ?s = "takeWhile (\<lambda>k'. lt k' k) s @ k # dropWhile (\<lambda>k'. lt k' k) s"
  have "mset s = mset (takeWhile (\<lambda>k'. lt k' k) s @ dropWhile (\<lambda>k'. lt k' k) s)" by simp
  then have m: "mset ?s = add_mset k (mset s)" by (simp only: mset_append mset.simps) simp
  then have "set ?s = insert k (set s)" by (metis set_mset_add_mset_insert set_mset_mset)
  moreover obtain l1 where l1: "SkipList_Insert cmp k l = Ret l1" "sl_rep keys lt l1 ?s"
    using rep_insert [OF Cons.prems(1), of k] Cons.prems(2,4) by auto
  ultimately have "\<exists>l' s'. Insert_all cmp ks l1 = Ret l' \<and> sl_rep keys lt l' s' \<and> mset s' = mset ?s + mset ks"
    using Cons.prems by (intro Cons.IH) auto
  then show ?case using l1(1) m by auto
qed auto

end

text \<open>
  C23: the skip list is a sorted sequence: whatever the order of the insertions and the random
  heights, inserting keys of which no two compare equal succeeds, and then iterating forwards
  visits exactly these keys in strictly rising order, iterating backwards visits them in the
  opposite order, and \<open>Contains\<close> answers for every key. No step reaches a missing node or link,
  and the searches end within the number of nodes and levels.
\<close>

theorem skiplist_refines_sorted_list:
  assumes "ordered_keys cmp keys lt" and "set ks \<subseteq> keys" and "sorted_wrt (\<lambda>a b. lt a b \<or> lt b a) ks"
  shows "\<exists>l s. Insert_all cmp ks (SkipList_new k0) = Ret l \<and> sorted_wrt lt s \<and> mset s = mset ks \<and>
    bindO (Iter_SeekToFirst l) (Iter_scan (Iter_Next l) l (search_fuel l)) = Ret s \<and>
    bindO (Iter_SeekToLast l) (Iter_scan (Iter_Prev cmp l) l (search_fuel l)) = Ret (rev s) \<and>
    (\<forall>k\<in>keys. SkipList_Contains cmp k l = Ret (\<exists>k'\<in>set ks. \<not> lt k' k \<and> \<not> lt k k'))"
proof -
  note ok = assms(1)
  obtain l s where l: "Insert_all cmp ks (SkipList_new k0) = Ret l" "sl_rep keys lt l s" "mset s = mset ks"
    using ordered_keys.rep_insert_all [OF ok sl_rep_new assms(2,3), of k0] by auto
  have st: "set s = set ks" using l(3) by (metis set_mset_mset)
  show ?thesis
  proof (intro exI conjI ballI)
    show "SkipList_Contains cmp k l = Ret (\<exists>k'\<in>set ks. \<not> lt k' k \<and> \<not> lt k k')" if "k \<in> keys" for k
      using ordered_keys.rep_contains [OF ok l(2) that] unfolding st .
  qed (use l ordered_keys.rep_sorted [OF ok l(2)] ordered_keys.scan_forward [OF ok l(2)] ordered_keys.scan_backward [OF ok l(2)] in simp_all)
qed

theorem skiplist_refines_sorted_list_witness:
  "\<exists>l s. Insert_all (\<lambda>a b. Ret (a - b)) [5, 2, 9 :: int] (SkipList_new 0) = Ret l \<and> sorted_wrt (<) s \<and> mset s = mset [5, 2, 9] \<and>
    bindO (Iter_SeekToFirst l) (Iter_scan (Iter_Next l) l (search_fuel l)) = Ret s \<and>
    bindO (Iter_SeekToLast l) (Iter_scan (Iter_Prev (\<lambda>a b. Ret (a - b)) l) l (search_fuel l)) = Ret (rev s) \<and>
    (\<forall>k\<in>UNIV. SkipList_Contains (\<lambda>a b. Ret (a - b)) k l = Ret (\<exists>k'\<in>set [5, 2, 9]. \<not> k' < k \<and> \<not> k < k'))"
proof -
  have "ordered_keys (\<lambda>a b :: int. Ret (a - b)) UNIV (<)" by unfold_locales auto
  from skiplist_refines_sorted_list [OF this, of "[5, 2, 9]" 0] show ?thesis by simp
qed

end
