(* ===== verification/Memtable.thy ===== *)
theory Memtable
  imports Dbformat Skiplist_Correct Status
begin

text \<open>
  The memtable (\<open>db/memtable.cc\<close>, \<open>db/memtable.h\<close>): a skip list of entries, each the bytes of a
  length-prefixed internal key and a length-prefixed value. A pointer into the arena is the
  bytes that start there; the arena itself (and with it \<open>ApproximateMemoryUsage\<close>) is not part of the
  model, but an entry that were longer than the memory asked for would be \<open>UB\<close>.
\<close>

section \<open>Operations\<close>

text \<open>
  The unchecked parser: at most five bytes are looked at for the length. The model returns what
  follows the slice too, since callers go on reading there.
\<close>

definition mem_GetLengthPrefixedSlice :: "byte list \<Rightarrow> (byte list \<times> byte list) outcome" where
  "mem_GetLengthPrefixedSlice data =
     (case GetVarint32Ptr (take 5 data) of
        None \<Rightarrow> UB
      | Some (len, q) \<Rightarrow>
          let p = drop (length (take 5 data) - length q) data
          in if unat len \<le> length p then Ret (take (unat len) p, drop (unat len) p) else UB)"

definition KeyComparator :: "Comparator \<Rightarrow> byte list \<Rightarrow> byte list \<Rightarrow> int outcome" where
  "KeyComparator C aptr bptr =
     bindO (mem_GetLengthPrefixedSlice aptr) (\<lambda>(a, _).
     bindO (mem_GetLengthPrefixedSlice bptr) (\<lambda>(b, _).
       Compare (InternalKeyComparator C) a b))"

definition EncodeKey :: "byte list \<Rightarrow> byte list" where
  "EncodeKey target = PutVarint32 [] (of_nat (length target)) @ target"

record MemTable =
  mt_comparator :: Comparator
  refs :: int
  table :: "byte list SkipList"

definition MemTable_new :: "Comparator \<Rightarrow> MemTable" where
  "MemTable_new C = \<lparr>mt_comparator = C, refs = 0, table = SkipList_new []\<rparr>"

definition MemTable_Ref :: "MemTable \<Rightarrow> MemTable" where
  "MemTable_Ref mt = mt\<lparr>refs := refs mt + 1\<rparr>"

text \<open>\<open>None\<close> is the table after \<open>delete this\<close>.\<close>

definition MemTable_Unref :: "MemTable \<Rightarrow> MemTable option" where
  "MemTable_Unref mt = (let r = refs mt - 1 in if r \<le> 0 then None else Some (mt\<lparr>refs := r\<rparr>))"

definition MemTable_Add :: "SequenceNumber \<Rightarrow> ValueType \<Rightarrow> byte list \<Rightarrow> byte list \<Rightarrow> MemTable \<Rightarrow> MemTable outcome" where
  "MemTable_Add s t key val mt =
     (let key_size = length key;
          val_size = length val;
          internal_key_size = key_size + 8;
          encoded_len = VarintLength (of_nat internal_key_size) + internal_key_size + VarintLength (of_nat val_size) + val_size;
          buf = EncodeVarint32 (of_nat internal_key_size) @ key @ EncodeFixed64 (push_bit 8 s OR ucast t) @
                EncodeVarint32 (of_nat val_size) @ val
      in if length buf > encoded_len then UB
         else bindO (SkipList_Insert (KeyComparator (mt_comparator mt)) buf (table mt)) (\<lambda>l. Ret (mt\<lparr>table := l\<rparr>)))"

text \<open>The result, \<open>*value\<close> and \<open>*s\<close>.\<close>

definition MemTable_Get :: "MemTable \<Rightarrow> LookupKey \<Rightarrow> byte list \<Rightarrow> Status \<Rightarrow> (bool \<times> byte list \<times> Status) outcome" where
  "MemTable_Get mt key val s =
     bindO (Iter_Seek (KeyComparator (mt_comparator mt)) (table mt) (memtable_key key)) (\<lambda>iter.
       if Iter_Valid iter then
         bindO (Iter_key (table mt) iter) (\<lambda>entry.
           case GetVarint32Ptr (take 5 entry) of
             None \<Rightarrow> UB
           | Some (key_length, q) \<Rightarrow>
               let key_ptr = drop (length (take 5 entry) - length q) entry; n = unat (key_length - 8)
               in if length key_ptr < n then UB
                  else
                    bindO (Compare (mt_comparator mt) (take n key_ptr) (lookup_user_key key)) (\<lambda>r.
                      if r = 0 then
                        bindO (DecodeFixed64 (drop n key_ptr)) (\<lambda>tag.
                          let t = ucast (tag AND 0xff)
                          in if t = kTypeValue then
                               bindO (mem_GetLengthPrefixedSlice (drop (unat key_length) key_ptr)) (\<lambda>(v, _). Ret (True, v, s))
                             else if t = kTypeDeletion then Ret (True, val, NotFound [] [])
                             else Ret (False, val, s))
                      else Ret (False, val, s)))
       else Ret (False, val, s))"

section \<open>The iterator\<close>

definition MemTableIterator_Seek :: "MemTable \<Rightarrow> byte list \<Rightarrow> sl_iter outcome" where
  "MemTableIterator_Seek mt k = Iter_Seek (KeyComparator (mt_comparator mt)) (table mt) (EncodeKey k)"

definition MemTableIterator_key :: "MemTable \<Rightarrow> sl_iter \<Rightarrow> byte list outcome" where
  "MemTableIterator_key mt it =
     bindO (Iter_key (table mt) it) (\<lambda>e. bindO (mem_GetLengthPrefixedSlice e) (\<lambda>(k, _). Ret k))"

definition MemTableIterator_value :: "MemTable \<Rightarrow> sl_iter \<Rightarrow> byte list outcome" where
  "MemTableIterator_value mt it =
     bindO (Iter_key (table mt) it) (\<lambda>e.
     bindO (mem_GetLengthPrefixedSlice e) (\<lambda>(_, rest).
     bindO (mem_GetLengthPrefixedSlice rest) (\<lambda>(v, _). Ret v)))"

section \<open>Entries\<close>

text \<open>What was added: sequence number, type, user key and value.\<close>

type_synonym version = "SequenceNumber \<times> ValueType \<times> byte list \<times> byte list"

definition version_ikey :: "version \<Rightarrow> byte list" where
  "version_ikey = (\<lambda>(s, t, k, v). AppendInternalKey [] \<lparr>user_key = k, sequence = s, ktype = t\<rparr>)"

definition version_entry :: "version \<Rightarrow> byte list" where
  "version_entry = (\<lambda>(s, t, k, v).
     varint (length k + 8) @ version_ikey (s, t, k, v) @ varint (length v) @ v)"

definition version_ok :: "version \<Rightarrow> bool" where
  "version_ok = (\<lambda>(s, t, k, v). s \<le> kMaxSequenceNumber \<and> t \<le> kTypeValue \<and> length k + 8 < 2 ^ 32 \<and> length v < 2 ^ 32)"

definition mem_entries :: "byte list set \<Rightarrow> byte list set" where
  "mem_entries K = {e. \<exists>k r. mem_GetLengthPrefixedSlice e = Ret (k, r) \<and> k \<in> ikeys K}"

definition entry_ikey :: "byte list \<Rightarrow> byte list" where
  "entry_ikey e = (case mem_GetLengthPrefixedSlice e of Ret (k, r) \<Rightarrow> k | _ \<Rightarrow> [])"

definition entry_lt :: "(byte list \<Rightarrow> byte list \<Rightarrow> bool) \<Rightarrow> byte list \<Rightarrow> byte list \<Rightarrow> bool" where
  "entry_lt lt a b \<longleftrightarrow> ikey_lt lt (entry_ikey a) (entry_ikey b)"

lemma GetVarint32Ptr_take5:
  "GetVarint32Ptr (take 5 (varint n @ x)) = Some (of_nat n, take (5 - length (varint n)) x)" if "n < 2 ^ 32"
proof -
  have "length (varint n) \<le> 5" using that by (intro length_varint) auto
  then have "take 5 (varint n @ x) = varint n @ take (5 - length (varint n)) x" by simp
  then show ?thesis using GetVarint32_varint [of "of_nat n"] that by (simp add: GetVarint32_def)
qed

lemma drop_take5: "length (varint n) \<le> 5 \<Longrightarrow> drop (length (take 5 (varint n @ x)) - length (take (5 - length (varint n)) x)) (varint n @ x) = x"
  by (cases "length x \<le> 5 - length (varint n)") (simp_all add: min_def)

lemma mem_GetLengthPrefixedSlice_varint [simp]:
  "length k < 2 ^ 32 \<Longrightarrow> mem_GetLengthPrefixedSlice (varint (length k) @ k @ r) = Ret (k, r)"
proof -
  assume k: "length k < 2 ^ 32"
  then have "length (varint (length k)) \<le> 5" by (intro length_varint) auto
  from drop_take5 [OF this, of "k @ r"] GetVarint32Ptr_take5 [OF k, of "k @ r"] k show ?thesis
    by (simp add: mem_GetLengthPrefixedSlice_def Let_def)
qed

lemma length_version_ikey [simp]: "length (version_ikey (s, t, k, v)) = length k + 8"
  by (simp add: version_ikey_def)

lemma version_entry_parse:
  assumes "version_ok e"
  shows "\<exists>r. mem_GetLengthPrefixedSlice (version_entry e) = Ret (version_ikey e, r)" "entry_ikey (version_entry e) = version_ikey e"
    "version_entry e \<in> mem_entries UNIV"
proof -
  obtain s t k v where e: "e = (s, t, k, v)" by (cases e)
  have "mem_GetLengthPrefixedSlice (version_entry e) = Ret (version_ikey e, varint (length v) @ v)"
    using mem_GetLengthPrefixedSlice_varint [of "version_ikey e" "varint (length v) @ v"] assms
    by (simp add: e version_entry_def version_ok_def)
  moreover have "version_ikey e \<in> ikeys UNIV" by (simp add: e version_ikey_def)
  ultimately show "\<exists>r. mem_GetLengthPrefixedSlice (version_entry e) = Ret (version_ikey e, r)" "entry_ikey (version_entry e) = version_ikey e"
    "version_entry e \<in> mem_entries UNIV"
    by (auto simp: entry_ikey_def mem_entries_def)
qed

text \<open>The order contract of a user comparator gives the one of the comparison of entries.\<close>

context comparator
begin

lemma entries_ordered: "ordered_keys (KeyComparator C) (mem_entries keys) (entry_lt lt)"
proof (unfold_locales, goal_cases)
  case (1 a b)
  then obtain ka ra kb rb where *: "mem_GetLengthPrefixedSlice a = Ret (ka, ra)" "ka \<in> ikeys keys"
    "mem_GetLengthPrefixedSlice b = Ret (kb, rb)" "kb \<in> ikeys keys" by (auto simp: mem_entries_def)
  from internal_compare [OF *(2,4)] show ?case
    by (auto simp: KeyComparator_def InternalKeyComparator_def entry_lt_def entry_ikey_def *)
next
  case (2 a)
  then show ?case using internal_irrefl by (auto simp: mem_entries_def entry_lt_def entry_ikey_def)
next
  case (3 a b c)
  then have "entry_ikey a \<in> ikeys keys" "entry_ikey b \<in> ikeys keys" "entry_ikey c \<in> ikeys keys"
    by (auto simp: mem_entries_def entry_ikey_def)
  from internal_trans [OF this] 3(4,5) show ?case by (simp add: entry_lt_def)
qed

end

interpretation me: ordered_keys "KeyComparator BytewiseComparator" "mem_entries UNIV" "entry_lt bytes_lt"
  by (rule bw.entries_ordered)

end
