(* ===== verification/Memtable_Correct.thy ===== *)
theory Memtable_Correct
  imports Memtable
begin

text \<open>
  The memtable as a multi-version map: after any additions, a lookup at a sequence number returns
  the newest version of the user key that is not newer than the number, a deletion included.
\<close>

section \<open>Specification\<close>

definition visible :: "byte list \<Rightarrow> SequenceNumber \<Rightarrow> version \<Rightarrow> bool" where
  "visible u q = (\<lambda>(s, t, k, v). k = u \<and> s \<le> q)"

fun newest :: "byte list \<Rightarrow> SequenceNumber \<Rightarrow> version list \<Rightarrow> version option" where
  "newest u q [] = None"
| "newest u q (e # es) =
     (case newest u q es of
        None \<Rightarrow> if visible u q e then Some e else None
      | Some e' \<Rightarrow> if visible u q e \<and> fst e' < fst e then Some e else Some e')"

text \<open>What \<open>Get\<close> answers for a version, with the caller's \<open>value\<close> and \<open>s\<close> where it does not assign them.\<close>

definition get_result :: "version option \<Rightarrow> byte list \<Rightarrow> Status \<Rightarrow> bool \<times> byte list \<times> Status" where
  "get_result e val st =
     (case e of
        None \<Rightarrow> (False, val, st)
      | Some (s, t, k, v) \<Rightarrow> if t = kTypeValue then (True, v, st) else (True, val, NotFound [] []))"

fun AddVersions :: "version list \<Rightarrow> MemTable \<Rightarrow> MemTable outcome" where
  "AddVersions [] mt = Ret mt"
| "AddVersions ((s, t, k, v) # es) mt = bindO (MemTable_Add s t k v mt) (AddVersions es)"

definition version_id :: "version \<Rightarrow> SequenceNumber \<times> byte list" where
  "version_id = (\<lambda>(s, t, k, v). (s, k))"

lemma newest_None: "newest u q es = None \<longleftrightarrow> (\<forall>e\<in>set es. \<not> visible u q e)"
  by (induction es) (auto split: option.splits)

lemma newest_SomeD: "newest u q es = Some e \<Longrightarrow> e \<in> set es \<and> visible u q e \<and> (\<forall>e'\<in>set es. visible u q e' \<longrightarrow> fst e' \<le> fst e)"
proof (induction es arbitrary: e)
  case (Cons a es)
  then show ?case
    by (cases "newest u q es") (fastforce simp: newest_None split: if_splits)+
qed simp

lemma newest_eqI:
  assumes "e \<in> set es" "visible u q e" "distinct (map version_id es)"
    and max: "\<And>e'. e' \<in> set es \<Longrightarrow> visible u q e' \<Longrightarrow> fst e' \<le> fst e"
  shows "newest u q es = Some e"
proof -
  obtain e' where e': "newest u q es = Some e'" using assms(1,2) newest_None [of u q es] by (cases "newest u q es") auto
  from newest_SomeD [OF this] have *: "e' \<in> set es" "visible u q e'" and m: "\<forall>e''\<in>set es. visible u q e'' \<longrightarrow> fst e'' \<le> fst e'" by auto
  have "fst e' = fst e" using m assms(1,2) max [OF *] by (intro order.antisym) auto
  then have "version_id e' = version_id e" using assms(2) *(2) by (auto simp: version_id_def visible_def split: prod.splits)
  then have "e' = e" using assms(1,3) * by (meson distinct_map inj_onD)
  with e' show ?thesis by simp
qed

section \<open>The representation\<close>

definition mt_rep :: "MemTable \<Rightarrow> version list \<Rightarrow> bool" where
  "mt_rep mt es \<longleftrightarrow> mt_comparator mt = BytewiseComparator \<and> (\<forall>e\<in>set es. version_ok e) \<and>
     (\<exists>ks. sl_rep (mem_entries UNIV) (entry_lt bytes_lt) (table mt) ks \<and> mset ks = mset (map version_entry es))"

lemma mt_rep_new: "mt_rep (MemTable_new BytewiseComparator) []"
  using sl_rep_new [of "mem_entries UNIV" "entry_lt bytes_lt" "[]"] by (auto simp: mt_rep_def MemTable_new_def)

lemma entry_lt_versions:
  assumes "version_ok e" "version_ok e'"
  shows "entry_lt bytes_lt (version_entry e) (version_entry e') \<longleftrightarrow> ikey_lt bytes_lt (version_ikey e) (version_ikey e')"
  by (simp add: entry_lt_def version_entry_parse assms)

lemma version_apart:
  assumes "version_ok e" "version_ok e'" "version_id e \<noteq> version_id e'"
  shows "entry_lt bytes_lt (version_entry e) (version_entry e') \<or> entry_lt bytes_lt (version_entry e') (version_entry e)"
proof -
  obtain s t k v s' t' k' v' where e: "e = (s, t, k, v)" "e' = (s', t', k', v')" by (cases e, cases e') auto
  have s: "s \<le> kMaxSequenceNumber" "s' \<le> kMaxSequenceNumber" using assms(1,2) by (auto simp: version_ok_def e)
  have "s \<noteq> s'" if "k = k'" using assms(3) that by (auto simp: e version_id_def)
  then have "PackSequenceAndType s t \<noteq> PackSequenceAndType s' t'" if "k = k'"
    using that pack_parts(1) [OF s(1), of t] pack_parts(1) [OF s(2), of t'] by auto
  then have "version_ikey e \<noteq> version_ikey e'" by (auto simp: e version_ikey_def ikey_eq_iff)
  moreover have "version_ikey e \<in> ikeys UNIV" "version_ikey e' \<in> ikeys UNIV" by (simp_all add: e version_ikey_def)
  ultimately show ?thesis using ik.lt_total by (auto simp: entry_lt_versions assms)
qed

lemma VarintLength_eq: "n < 2 ^ 64 \<Longrightarrow> VarintLength (of_nat n) = length (varint n)"
  by (simp add: VarintLength_def VarintLength_loop_eq EncodeVarint64_eq)

lemma MemTable_Add_eq:
  assumes "version_ok (s, t, k, v)"
  shows "MemTable_Add s t k v mt =
    bindO (SkipList_Insert (KeyComparator (mt_comparator mt)) (version_entry (s, t, k, v)) (table mt)) (\<lambda>l. Ret (mt\<lparr>table := l\<rparr>))"
proof -
  have n: "length k + 8 < 2 ^ 32" "length v < 2 ^ 32" using assms by (simp_all add: version_ok_def)
  have b: "EncodeVarint32 (of_nat (length k + 8)) = varint (length k + 8)" "EncodeVarint32 (of_nat (length v)) = varint (length v)"
    unfolding EncodeVarint32_eq using n by (subst unat_of_nat_small; simp)+
  have "VarintLength (of_nat (length k + 8)) = length (varint (length k + 8))" "VarintLength (of_nat (length v)) = length (varint (length v))"
    using n by (intro VarintLength_eq; simp)+
  then show ?thesis
    unfolding MemTable_Add_def Let_def b
    by (simp add: version_entry_def version_ikey_def AppendInternalKey_def PutFixed64_def PackSequenceAndType_def)
qed

lemma MemTable_Add_rep:
  assumes rep: "mt_rep mt es" and e: "version_ok (s, t, k, v)" and new: "(s, k) \<notin> version_id ` set es"
  shows "\<exists>mt'. MemTable_Add s t k v mt = Ret mt' \<and> mt_rep mt' (es @ [(s, t, k, v)])"
proof -
  let ?e = "(s, t, k, v)" and ?x = "version_entry (s, t, k, v)"
  from rep obtain ks where C: "mt_comparator mt = BytewiseComparator" and es: "\<forall>e\<in>set es. version_ok e"
    and ks: "sl_rep (mem_entries UNIV) (entry_lt bytes_lt) (table mt) ks" "mset ks = mset (map version_entry es)"
    by (auto simp: mt_rep_def)
  have set_ks: "set ks = version_entry ` set es" using ks(2) by (metis set_map set_mset_mset)
  have "entry_lt bytes_lt x ?x \<or> entry_lt bytes_lt ?x x" if "x \<in> set ks" for x
  proof -
    from that set_ks obtain e' where e': "e' \<in> set es" "x = version_entry e'" by auto
    moreover have "version_id ?e = (s, k)" by (simp add: version_id_def)
    ultimately have "version_id e' \<noteq> version_id ?e" using new by (metis imageI)
    then show ?thesis using version_apart [of e' ?e] e e' es by auto
  qed
  then obtain l where l: "SkipList_Insert (KeyComparator BytewiseComparator) ?x (table mt) = Ret l"
    "sl_rep (mem_entries UNIV) (entry_lt bytes_lt) l (takeWhile (\<lambda>y. entry_lt bytes_lt y ?x) ks @ ?x # dropWhile (\<lambda>y. entry_lt bytes_lt y ?x) ks)"
    using me.rep_insert [OF ks(1) version_entry_parse(3) [OF e]] by blast
  have "mset (takeWhile P ks) + mset (dropWhile P ks) = mset ks" for P
    by (metis mset_append takeWhile_dropWhile_id)
  then have "mset (takeWhile P ks @ ?x # dropWhile P ks) = mset (map version_entry (es @ [?e]))" for P
    using ks(2) by simp
  then show ?thesis using l C es e by (auto simp: MemTable_Add_eq [OF e] mt_rep_def)
qed

lemma AddVersions_rep:
  assumes "mt_rep mt es" "\<forall>e\<in>set es'. version_ok e" "distinct (map version_id (es @ es'))"
  shows "\<exists>mt'. AddVersions es' mt = Ret mt' \<and> mt_rep mt' (es @ es')"
  using assms
proof (induction es' arbitrary: mt es)
  case (Cons e es')
  obtain s t k v where e: "e = (s, t, k, v)" by (cases e)
  have "(s, k) \<notin> version_id ` set es" using Cons.prems(3) by (auto simp: e version_id_def)
  then obtain mt1 where mt1: "MemTable_Add s t k v mt = Ret mt1" "mt_rep mt1 (es @ [e])"
    using MemTable_Add_rep [OF Cons.prems(1), of s t k v] Cons.prems(2) e by auto
  from Cons.IH [OF mt1(2)] Cons.prems(2,3) mt1(1) show ?case by (simp add: e)
qed auto

section \<open>Lookup\<close>

lemma internal_key_eq: "internal_key (LookupKey_new u q) = AppendInternalKey [] \<lparr>user_key = u, sequence = q, ktype = kValueTypeForSeek\<rparr>"
  by (simp add: internal_key_def LookupKey_new_def Let_def AppendInternalKey_def PutFixed64_def)

lemma lookup_user_key_eq: "lookup_user_key (LookupKey_new u q) = u"
  by (simp add: lookup_user_key_def LookupKey_new_def Let_def)

lemma lookup_entry:
  assumes "length u + 8 < 2 ^ 32"
  shows "mem_GetLengthPrefixedSlice (memtable_key (LookupKey_new u q)) = Ret (internal_key (LookupKey_new u q), [])"
proof -
  let ?k = "internal_key (LookupKey_new u q)"
  have "length ?k = length u + 8" by (simp add: internal_key_eq)
  moreover have "EncodeVarint32 (of_nat (length u + 8)) = varint (length u + 8)"
    unfolding EncodeVarint32_eq using assms by (subst unat_of_nat_small; simp)
  ultimately have "memtable_key (LookupKey_new u q) = varint (length ?k) @ ?k @ []"
    by (simp add: memtable_key_def LookupKey_new_def Let_def internal_key_def)
  then show ?thesis using assms \<open>length ?k = length u + 8\<close> mem_GetLengthPrefixedSlice_varint [of ?k "[]"] by simp
qed

text \<open>An entry lies before the lookup key unless its key is larger or the version is visible.\<close>

lemma below_lookup:
  assumes "version_ok (s, t, k, v)" "q \<le> kMaxSequenceNumber"
  shows "ikey_lt bytes_lt (version_ikey (s, t, k, v)) (internal_key (LookupKey_new u q)) \<longleftrightarrow>
    bytes_lt k u \<or> k = u \<and> q < s"
proof -
  have "s \<le> kMaxSequenceNumber" "t \<le> 1" using assms(1) by (simp_all add: version_ok_def)
  then show ?thesis using pack_less_iff [OF assms(2), of s 1 t]
    by (auto simp: ikey_lt_def version_ikey_def internal_key_eq)
qed

text \<open>Reading an entry that the search found.\<close>

lemma MemTable_Get_entry:
  assumes "Iter_Seek (KeyComparator (mt_comparator mt)) (table mt) (memtable_key key) = Ret it" "it \<noteq> None"
    and "Iter_key (table mt) it = Ret (version_entry (s, t, k, v))" and ok: "version_ok (s, t, k, v)"
    and C: "mt_comparator mt = BytewiseComparator"
  shows "MemTable_Get mt key val st =
    Ret (get_result (if k = lookup_user_key key then Some (s, t, k, v) else None) val st)"
proof -
  have n: "length k + 8 < 2 ^ 32" "length v < 2 ^ 32" and s: "s \<le> kMaxSequenceNumber" and "unat t \<le> 1"
    using ok by (simp_all add: version_ok_def word_le_nat_alt)
  then have t: "t = 1 \<or> t = 0" by (auto simp: word_unat_eq_iff)
  let ?e = "version_entry (s, t, k, v)"
  define x where "x = k @ EncodeFixed64 (PackSequenceAndType s t) @ varint (length v) @ v"
  have e: "?e = varint (length k + 8) @ x"
    by (simp add: version_entry_def version_ikey_def AppendInternalKey_def PutFixed64_def x_def)
  have l: "length (varint (length k + 8)) \<le> 5" using n by (intro length_varint) auto
  have d: "drop (length (take 5 ?e) - length (take (5 - length (varint (length k + 8))) x)) ?e = x" unfolding e by (rule drop_take5 [OF l])
  have kl: "unat (of_nat (length k + 8) - 8 :: u32) = length k" "unat (of_nat (length k + 8) :: u32) = length k + 8"
    using n by simp (subst unat_of_nat_small; use n in simp)
  have c: "Compare BytewiseComparator k (lookup_user_key key) = Ret r \<Longrightarrow> r = 0 \<longleftrightarrow> k = lookup_user_key key" for r
    using bw.compare [of k "lookup_user_key key"] by auto
  obtain r where r: "Compare BytewiseComparator k (lookup_user_key key) = Ret r" using bw.compare [of k "lookup_user_key key"] by auto
  have "drop (length k + 8) x = varint (length v) @ v @ []" by (simp add: x_def)
  then have v: "mem_GetLengthPrefixedSlice (drop (length k + 8) x) = Ret (v, [])"
    using mem_GetLengthPrefixedSlice_varint [OF n(2), of "[]"] by simp
  have x: "take (length k) x = k" "\<not> length x < length k" "DecodeFixed64 (drop (length k) x) = Ret (PackSequenceAndType s t)" by (simp_all add: x_def)
  have G: "GetVarint32Ptr (take 5 ?e) = Some (of_nat (length k + 8), take (5 - length (varint (length k + 8))) x)"
    unfolding e by (rule GetVarint32Ptr_take5 [OF n(1)])
  show ?thesis
    using assms(2) t
    unfolding MemTable_Get_def assms(1) [unfolded C] bindO.simps assms(3) G option.case prod.case Let_def d kl C x(1) r v x(3) pack_parts [OF s]
    using c [OF r] x(2) by (auto simp: get_result_def Iter_Valid_def)
qed

lemma first_dropWhileD:
  assumes "first (dropWhile P ks) = Some k" "sorted_wrt R ks"
  shows "k \<in> set ks \<and> \<not> P k \<and> (\<forall>k'\<in>set ks. P k' \<or> k' = k \<or> R k k')"
proof -
  obtain ys where ys: "dropWhile P ks = k # ys" using assms(1) by (cases "dropWhile P ks") auto
  have ks: "ks = takeWhile P ks @ k # ys" using takeWhile_dropWhile_id [of P ks] ys by simp
  have "\<not> P k" using hd_dropWhile [of P ks] ys by simp
  moreover have "sorted_wrt R (takeWhile P ks @ k # ys)" using assms(2) ks by simp
  then have "\<forall>y\<in>set ys. R k y" by (simp add: sorted_wrt_append)
  moreover have "set ks = set (takeWhile P ks) \<union> insert k (set ys)" using arg_cong [OF ks, of set] by simp
  ultimately show ?thesis by (auto dest: set_takeWhileD)
qed

lemma MemTable_Get_rep:
  assumes rep: "mt_rep mt es" and d: "distinct (map version_id es)" and q: "q \<le> kMaxSequenceNumber" and u: "length u + 8 < 2 ^ 32"
  shows "MemTable_Get mt (LookupKey_new u q) val st = Ret (get_result (newest u q es) val st)"
proof -
  let ?T = "memtable_key (LookupKey_new u q)" and ?lt = "entry_lt bytes_lt"
  from rep obtain ks where C: "mt_comparator mt = BytewiseComparator" and es: "\<forall>e\<in>set es. version_ok e"
    and ks: "sl_rep (mem_entries UNIV) ?lt (table mt) ks" "mset ks = mset (map version_entry es)"
    by (auto simp: mt_rep_def)
  have set_ks: "set ks = version_entry ` set es" using ks(2) by (metis set_map set_mset_mset)
  have T: "mem_GetLengthPrefixedSlice ?T = Ret (internal_key (LookupKey_new u q), [])" using u by (rule lookup_entry)
  then have Te: "?T \<in> mem_entries UNIV" "entry_ikey ?T = internal_key (LookupKey_new u q)"
    by (auto simp: mem_entries_def entry_ikey_def internal_key_eq)
  have below: "?lt (version_entry (s, t, k, v)) ?T \<longleftrightarrow> bytes_lt k u \<or> k = u \<and> q < s" if "(s, t, k, v) \<in> set es" for s t k v
    using below_lookup [OF _ q, of s t k v u] es that by (auto simp: entry_lt_def Te version_entry_parse)
  have seek: "\<exists>it. Iter_Seek (KeyComparator (mt_comparator mt)) (table mt) ?T = Ret it \<and>
    (case first (dropWhile (\<lambda>k. ?lt k ?T) ks) of None \<Rightarrow> it = None | Some k \<Rightarrow> it \<noteq> None \<and> Iter_key (table mt) it = Ret k)"
    unfolding C by (rule me.rep_seek [OF ks(1) Te(1)])
  show ?thesis
  proof (cases "first (dropWhile (\<lambda>k. ?lt k ?T) ks)")
    case None
    then have "\<forall>k\<in>set ks. ?lt k ?T" by (cases "dropWhile (\<lambda>k. ?lt k ?T) ks") (auto simp: dropWhile_eq_Nil_conv)
    then have "\<forall>e\<in>set es. \<not> visible u q e"
      using below set_ks lexordp_irreflexive' [of u] by (fastforce simp: visible_def)
    then have "newest u q es = None" by (simp add: newest_None)
    then show ?thesis using seek None by (auto simp: MemTable_Get_def Iter_Valid_def get_result_def)
  next
    case (Some x)
    then obtain it where it: "Iter_Seek (KeyComparator (mt_comparator mt)) (table mt) ?T = Ret it" "it \<noteq> None" "Iter_key (table mt) it = Ret x"
      using seek by auto
    note D = first_dropWhileD [OF Some conjunct1 [OF me.rep_sorted [OF ks(1)]]]
    obtain s t k v where e: "(s, t, k, v) \<in> set es" "x = version_entry (s, t, k, v)" using D set_ks by auto
    have G: "MemTable_Get mt (LookupKey_new u q) val st = Ret (get_result (if k = u then Some (s, t, k, v) else None) val st)"
      using MemTable_Get_entry [OF it(1,2) it(3) [unfolded e(2)] _ C] es e(1) by (simp add: lookup_user_key_eq)
    have nb: "\<not> bytes_lt k u" "k = u \<Longrightarrow> s \<le> q" using D below [OF e(1)] e(2) by (auto simp: not_less)
    have after: "fst e' \<le> s \<and> k = u" if e': "e' \<in> set es" "visible u q e'" for e'
    proof -
      obtain s' t' v' where e'': "e' = (s', t', u, v')" "s' \<le> q" using e'(2) by (auto simp: visible_def split: prod.splits)
      have "version_entry e' \<in> set ks" using e'(1) set_ks by simp
      moreover have "\<not> ?lt (version_entry e') ?T" using below [of s' t' u v'] e'(1) e'' lexordp_irreflexive' [of u] by auto
      ultimately have "version_entry e' = x \<or> ?lt x (version_entry e')" using D by blast
      moreover have oks: "version_ok e'" "version_ok (s, t, k, v)" using es e'(1) e(1) by auto
      ultimately have "version_ikey e' = version_ikey (s, t, k, v) \<or> ikey_lt bytes_lt (version_ikey (s, t, k, v)) (version_ikey e')"
        using e(2) entry_lt_versions [OF oks(2,1)] version_entry_parse(2) by metis
      then have k: "u = k \<and> PackSequenceAndType s' t' \<le> PackSequenceAndType s t" using nb(1)
        by (auto simp: e'' version_ikey_def ikey_lt_def ikey_eq_iff)
      have "s' \<le> kMaxSequenceNumber" "s \<le> kMaxSequenceNumber" using oks by (simp_all add: version_ok_def e'')
      from pack_less_iff [OF this(2,1), of t t'] k show ?thesis by (auto simp: e'' not_less[symmetric])
    qed
    show ?thesis
    proof (cases "k = u")
      case True
      have "newest u q es = Some (s, t, k, v)"
      proof (rule newest_eqI [OF e(1) _ d])
        show "visible u q (s, t, k, v)" using True nb(2) by (simp add: visible_def)
        show "fst e' \<le> fst (s, t, k, v)" if "e' \<in> set es" "visible u q e'" for e' using after [OF that] by simp
      qed
      then show ?thesis using G True by simp
    next
      case False
      then have "newest u q es = None" using after unfolding newest_None by blast
      then show ?thesis using G False by simp
    qed
  qed
qed

end
