(* ===== verification/Write_Batch.thy ===== *)
theory Write_Batch
  imports Memtable_Correct
begin

text \<open>
  Write batches (\<open>db/write_batch.cc\<close>, \<open>db/write_batch_internal.h\<close>). A batch is its string \<open>rep_\<close>: a
  sequence number, a count and the operations. A handler is the record of its two virtual
  functions; the inserter is the handler that puts the operations into a memtable. A count that
  leaves the range of \<open>int\<close> is signed overflow, \<open>UB\<close>; so is an access to the header of a string
  that has none.
\<close>

section \<open>Batches\<close>

definition kHeader :: nat where "kHeader = 12"

definition WriteBatch_Clear :: "byte list" where
  "WriteBatch_Clear = replicate kHeader 0"

definition WriteBatch_ApproximateSize :: "byte list \<Rightarrow> nat" where
  "WriteBatch_ApproximateSize rep = length rep"

definition Batch_Count :: "byte list \<Rightarrow> u32 outcome" where
  "Batch_Count rep = DecodeFixed32 (drop 8 rep)"

definition Batch_SetCount :: "byte list \<Rightarrow> u32 \<Rightarrow> byte list outcome" where
  "Batch_SetCount rep n = (if length rep < kHeader then UB else Ret (overwrite rep 8 (EncodeFixed32 n)))"

definition Batch_Sequence :: "byte list \<Rightarrow> SequenceNumber outcome" where
  "Batch_Sequence rep = DecodeFixed64 rep"

definition Batch_SetSequence :: "byte list \<Rightarrow> SequenceNumber \<Rightarrow> byte list outcome" where
  "Batch_SetSequence rep seq = (if length rep < 8 then UB else Ret (overwrite rep 0 (EncodeFixed64 seq)))"

text \<open>The sum of two \<open>int\<close> counts.\<close>

definition add_int :: "u32 \<Rightarrow> u32 \<Rightarrow> u32 outcome" where
  "add_int a b = (if - (2 ^ 31) \<le> sint a + sint b \<and> sint a + sint b < 2 ^ 31 then Ret (a + b) else UB)"

definition WriteBatch_Put :: "byte list \<Rightarrow> byte list \<Rightarrow> byte list \<Rightarrow> byte list outcome" where
  "WriteBatch_Put key val rep =
     bindO (Batch_Count rep) (\<lambda>n.
     bindO (add_int n 1) (\<lambda>n.
     bindO (Batch_SetCount rep n) (\<lambda>rep.
       Ret (PutLengthPrefixedSlice (PutLengthPrefixedSlice (rep @ [kTypeValue]) key) val))))"

definition WriteBatch_Delete :: "byte list \<Rightarrow> byte list \<Rightarrow> byte list outcome" where
  "WriteBatch_Delete key rep =
     bindO (Batch_Count rep) (\<lambda>n.
     bindO (add_int n 1) (\<lambda>n.
     bindO (Batch_SetCount rep n) (\<lambda>rep.
       Ret (PutLengthPrefixedSlice (rep @ [kTypeDeletion]) key))))"

definition Batch_SetContents :: "byte list \<Rightarrow> byte list" where
  "Batch_SetContents contents = contents"

definition Batch_Append :: "byte list \<Rightarrow> byte list \<Rightarrow> byte list outcome" where
  "Batch_Append dst src =
     bindO (Batch_Count dst) (\<lambda>n.
     bindO (Batch_Count src) (\<lambda>m.
     bindO (add_int n m) (\<lambda>c.
     bindO (Batch_SetCount dst c) (\<lambda>dst. Ret (dst @ drop kHeader src)))))"

section \<open>Iteration\<close>

record 'h Handler =
  Handler_Put :: "byte list \<Rightarrow> byte list \<Rightarrow> 'h \<Rightarrow> 'h outcome"
  Handler_Delete :: "byte list \<Rightarrow> 'h \<Rightarrow> 'h outcome"

lemma GetLengthPrefixedSlice_shrinks: "GetLengthPrefixedSlice p = Some (r, q) \<Longrightarrow> length q < length p"
  using coding_bounds by fastforce

text \<open>
  The result is \<open>Inl\<close> of the status of an early return, or \<open>Inr\<close> of the number of operations found,
  an \<open>int\<close> whose overflow is undefined.
\<close>

function Iterate_loop :: "'h Handler \<Rightarrow> byte list \<Rightarrow> u32 \<Rightarrow> 'h \<Rightarrow> ((Status + u32) \<times> 'h) outcome" where
  "Iterate_loop H [] found h = Ret (Inr found, h)"
| "Iterate_loop H (tag # input) found h =
     bindO (add_int found 1) (\<lambda>found.
         if tag = kTypeValue then
           (case GetLengthPrefixedSlice input of
              None \<Rightarrow> Ret (Inl (Corruption ''bad WriteBatch Put'' []), h)
            | Some (key, input') \<Rightarrow>
                (case GetLengthPrefixedSlice input' of
                   None \<Rightarrow> Ret (Inl (Corruption ''bad WriteBatch Put'' []), h)
                 | Some (val, input'') \<Rightarrow>
                     bindO (Handler_Put H key val h) (\<lambda>h. Iterate_loop H input'' found h)))
         else if tag = kTypeDeletion then
           (case GetLengthPrefixedSlice input of
              None \<Rightarrow> Ret (Inl (Corruption ''bad WriteBatch Delete'' []), h)
            | Some (key, input') \<Rightarrow> bindO (Handler_Delete H key h) (\<lambda>h. Iterate_loop H input' found h))
         else Ret (Inl (Corruption ''unknown WriteBatch tag'' []), h))"
  by pat_completeness auto
termination
  by (relation "measure (\<lambda>(H, input, found, h). length input)")
    (auto dest!: GetLengthPrefixedSlice_shrinks)

declare Iterate_loop.simps(2) [simp del]

definition WriteBatch_Iterate :: "'h Handler \<Rightarrow> byte list \<Rightarrow> 'h \<Rightarrow> (Status \<times> 'h) outcome" where
  "WriteBatch_Iterate H rep h =
     (if length rep < kHeader then Ret (Corruption ''malformed WriteBatch (too small)'' [], h)
      else bindO (Iterate_loop H (drop kHeader rep) 0 h) (\<lambda>(r, h).
        case r of
          Inl s \<Rightarrow> Ret (s, h)
        | Inr found \<Rightarrow>
            bindO (Batch_Count rep) (\<lambda>n.
              Ret (if found \<noteq> n then Corruption ''WriteBatch has wrong count'' [] else OK, h))))"

section \<open>Insertion into a memtable\<close>

type_synonym inserter = "SequenceNumber \<times> MemTable"

definition MemTableInserter :: "inserter Handler" where
  "MemTableInserter =
     \<lparr>Handler_Put = \<lambda>key val (q, mem). bindO (MemTable_Add q kTypeValue key val mem) (\<lambda>mem. Ret (q + 1, mem)),
      Handler_Delete = \<lambda>key (q, mem). bindO (MemTable_Add q kTypeDeletion key [] mem) (\<lambda>mem. Ret (q + 1, mem))\<rparr>"

definition Batch_InsertInto :: "byte list \<Rightarrow> MemTable \<Rightarrow> (Status \<times> MemTable) outcome" where
  "Batch_InsertInto rep memtable =
     bindO (Batch_Sequence rep) (\<lambda>q.
     bindO (WriteBatch_Iterate MemTableInserter rep (q, memtable)) (\<lambda>(s, q, mem). Ret (s, mem)))"

end
