(* ===== verification/Write_Batch_Correct.thy ===== *)
theory Write_Batch_Correct
  imports Write_Batch
begin

text \<open>
  What a batch does: iterating over a batch that was built from operations replays exactly these
  operations, and inserting it into a memtable makes all of them visible at once to readers at
  later sequence numbers and to no others.
\<close>

section \<open>Operations of a batch\<close>

datatype batch_op = OpPut (op_key: "byte list") (op_value: "byte list") | OpDelete (op_key: "byte list")

fun apply_op :: "batch_op \<Rightarrow> byte list \<Rightarrow> byte list outcome" where
  "apply_op (OpPut k v) rep = WriteBatch_Put k v rep"
| "apply_op (OpDelete k) rep = WriteBatch_Delete k rep"

fun BuildBatch :: "batch_op list \<Rightarrow> byte list \<Rightarrow> byte list outcome" where
  "BuildBatch [] rep = Ret rep"
| "BuildBatch (op # ops) rep = bindO (apply_op op rep) (BuildBatch ops)"

fun handle :: "'h Handler \<Rightarrow> batch_op \<Rightarrow> 'h \<Rightarrow> 'h outcome" where
  "handle H (OpPut k v) h = Handler_Put H k v h"
| "handle H (OpDelete k) h = Handler_Delete H k h"

fun replay :: "'h Handler \<Rightarrow> batch_op list \<Rightarrow> 'h \<Rightarrow> 'h outcome" where
  "replay H [] h = Ret h"
| "replay H (op # ops) h = bindO (handle H op h) (replay H ops)"

fun op_ok :: "batch_op \<Rightarrow> bool" where
  "op_ok (OpPut k v) \<longleftrightarrow> length k + 8 < 2 ^ 32 \<and> length v < 2 ^ 32"
| "op_ok (OpDelete k) \<longleftrightarrow> length k + 8 < 2 ^ 32"

fun op_bytes :: "batch_op \<Rightarrow> byte list" where
  "op_bytes (OpPut k v) = kTypeValue # varint (length k) @ k @ varint (length v) @ v"
| "op_bytes (OpDelete k) = kTypeDeletion # varint (length k) @ k"

definition batch_rep :: "SequenceNumber \<Rightarrow> nat \<Rightarrow> byte list \<Rightarrow> byte list" where
  "batch_rep q n body = EncodeFixed64 q @ EncodeFixed32 (of_nat n) @ body"

section \<open>Building\<close>

lemma length_EncodeFixed32 [simp]: "length (EncodeFixed32 v) = 4"
  by (simp add: EncodeFixed32_def)

lemma batch_rep_parts [simp]:
  "Batch_Count (batch_rep q n body) = Ret (of_nat n)" "Batch_Sequence (batch_rep q n body) = Ret q"
  "Batch_SetCount (batch_rep q n body) (of_nat m) = Ret (batch_rep q m body)"
  "Batch_SetSequence (batch_rep q n body) q' = Ret (batch_rep q' n body)"
  "drop kHeader (batch_rep q n body) = body" "\<not> length (batch_rep q n body) < kHeader"
  by (simp_all add: batch_rep_def Batch_Count_def Batch_Sequence_def Batch_SetCount_def Batch_SetSequence_def kHeader_def overwrite_def)

lemma WriteBatch_Clear_eq: "WriteBatch_Clear = batch_rep 0 0 []"
  by (simp add: WriteBatch_Clear_def batch_rep_def kHeader_def EncodeFixed64_def EncodeFixed32_def le_bytes_def numeral_eq_Suc)

lemma add_int_of_nat: "a + b < 2 ^ 31 \<Longrightarrow> add_int (of_nat a) (of_nat b) = Ret (of_nat (a + b))"
proof -
  assume ab: "a + b < 2 ^ 31"
  have "sint (of_nat n :: u32) = int n" if "n < 2 ^ 31" for n
    using that by (simp add: signed_of_nat signed_take_bit_int_eq_self)
  then have "sint (of_nat a :: u32) + sint (of_nat b :: u32) = int (a + b)" using ab by simp
  then show ?thesis using ab by (simp add: add_int_def)
qed

lemma apply_op_eq:
  assumes "op_ok op" "Suc n < 2 ^ 31"
  shows "apply_op op (batch_rep q n body) = Ret (batch_rep q (Suc n) (body @ op_bytes op))"
proof -
  have "add_int (of_nat n) 1 = Ret (of_nat (Suc n))" using add_int_of_nat [of n 1] assms(2) by simp
  moreover have "batch_rep q m b @ c = batch_rep q m (b @ c)" for m b c by (simp add: batch_rep_def)
  ultimately show ?thesis using assms(1)
    by (cases op) (simp_all add: WriteBatch_Put_def WriteBatch_Delete_def PutLengthPrefixedSlice_eq del: of_nat_add of_nat_Suc)
qed

lemma BuildBatch_eq:
  "\<forall>op\<in>set ops. op_ok op \<Longrightarrow> n + length ops < 2 ^ 31 \<Longrightarrow>
     BuildBatch ops (batch_rep q n body) = Ret (batch_rep q (n + length ops) (body @ concat (map op_bytes ops)))"
  by (induction ops arbitrary: n body) (simp_all add: apply_op_eq)

section \<open>Iterating\<close>

lemma Iterate_loop_op:
  assumes "op_ok op" "Suc n < 2 ^ 31"
  shows "Iterate_loop H (op_bytes op @ rest) (of_nat n) h = bindO (handle H op h) (Iterate_loop H rest (of_nat (Suc n)))"
proof -
  have inc: "add_int (of_nat n) 1 = Ret (of_nat (Suc n))" using add_int_of_nat [of n 1] assms(2) by simp
  show ?thesis
  proof (cases op)
    case (OpPut k v)
    then have "length k < 2 ^ 32" "length v < 2 ^ 32" using assms by simp_all
    from GetLengthPrefixedSlice_varint [OF this(1), of "varint (length v) @ v @ rest"] GetLengthPrefixedSlice_varint [OF this(2), of rest]
    show ?thesis by (simp add: OpPut Iterate_loop.simps(2) inc del: of_nat_Suc)
  next
    case (OpDelete k)
    then have "length k < 2 ^ 32" using assms by simp
    from GetLengthPrefixedSlice_varint [OF this, of rest] show ?thesis
      by (simp add: OpDelete Iterate_loop.simps(2) inc del: of_nat_Suc)
  qed
qed

lemma Iterate_loop_ops:
  "\<forall>op\<in>set ops. op_ok op \<Longrightarrow> n + length ops < 2 ^ 31 \<Longrightarrow> Iterate_loop H (concat (map op_bytes ops)) (of_nat n) h =
     bindO (replay H ops h) (\<lambda>h. Ret (Inr (of_nat (n + length ops)), h))"
proof (induction ops arbitrary: n h)
  case (Cons op ops)
  then show ?case
    using Cons.IH [of "Suc n"] by (cases "handle H op h") (simp_all add: Iterate_loop_op del: of_nat_Suc of_nat_add)
qed simp

lemma WriteBatch_Iterate_eq:
  assumes "\<forall>op\<in>set ops. op_ok op" "length ops < 2 ^ 31"
  shows "WriteBatch_Iterate H (batch_rep q (length ops) (concat (map op_bytes ops))) h = bindO (replay H ops h) (\<lambda>h. Ret (OK, h))"
  using Iterate_loop_ops [OF assms(1), of 0 H h] assms(2) by (simp add: WriteBatch_Iterate_def bindO_assoc)

section \<open>Inserting\<close>

fun op_versions :: "SequenceNumber \<Rightarrow> batch_op list \<Rightarrow> version list" where
  "op_versions q [] = []"
| "op_versions q (OpPut k v # ops) = (q, kTypeValue, k, v) # op_versions (q + 1) ops"
| "op_versions q (OpDelete k # ops) = (q, kTypeDeletion, k, []) # op_versions (q + 1) ops"

lemma replay_inserter:
  "replay MemTableInserter ops (q, mt) = bindO (AddVersions (op_versions q ops) mt) (\<lambda>mt. Ret (q + of_nat (length ops), mt))"
proof (induction ops arbitrary: q mt)
  case (Cons op ops)
  then show ?case by (cases op) (simp_all add: MemTableInserter_def bindO_assoc add.assoc)
qed simp

lemma op_versions_append: "op_versions q (a @ b) = op_versions q a @ op_versions (q + of_nat (length a)) b"
  by (induction q a rule: op_versions.induct) (simp_all add: add.assoc)

lemma unat_seq: "unat q + n \<le> 2 ^ 56 \<Longrightarrow> unat (q + of_nat n) = unat q + n" for q :: u64
  by (subst unat_plus_if_small) simp_all

lemma op_versions_in:
  assumes "e \<in> set (op_versions q ops)" "unat q + length ops \<le> 2 ^ 56"
  shows "unat q \<le> unat (fst e) \<and> unat (fst e) < unat q + length ops \<and> (\<exists>op\<in>set ops. fst (snd (snd e)) = op_key op)"
  using assms
proof (induction q ops rule: op_versions.induct)
  case (2 q k v ops)
  have "unat (q + 1) = unat q + 1" using unat_seq [of q 1] 2 by simp
  with 2 show ?case by auto
next
  case (3 q k ops)
  have "unat (q + 1) = unat q + 1" using unat_seq [of q 1] 3 by simp
  with 3 show ?case by auto
qed simp

lemma op_versions_ok:
  assumes "\<forall>op\<in>set ops. op_ok op" "unat q + length ops \<le> 2 ^ 56"
  shows "\<forall>e\<in>set (op_versions q ops). version_ok e" "distinct (map version_id (op_versions q ops))"
proof -
  have m: "s \<le> kMaxSequenceNumber \<longleftrightarrow> unat s < 2 ^ 56" for s by (simp add: word_le_nat_alt kMaxSequenceNumber_def) linarith
  show "\<forall>e\<in>set (op_versions q ops). version_ok e"
    using assms
  proof (induction q ops rule: op_versions.induct)
    case (2 q k v ops)
    then show ?case using unat_seq [of q 1] by (simp add: version_ok_def m)
  next
    case (3 q k ops)
    then show ?case using unat_seq [of q 1] by (simp add: version_ok_def m)
  qed simp
  show "distinct (map version_id (op_versions q ops))"
    using assms(2)
  proof (induction q ops rule: op_versions.induct)
    case (2 q k v ops)
    then show ?case using unat_seq [of q 1] op_versions_in [of _ "q + 1" ops] by (force simp: version_id_def)
  next
    case (3 q k ops)
    then show ?case using unat_seq [of q 1] op_versions_in [of _ "q + 1" ops] by (force simp: version_id_def)
  qed simp
qed

text \<open>The last operation of a batch on a key.\<close>

definition last_op :: "byte list \<Rightarrow> batch_op list \<Rightarrow> batch_op option" where
  "last_op u ops = find (\<lambda>op. op_key op = u) (rev ops)"

fun op_result :: "batch_op \<Rightarrow> byte list \<Rightarrow> Status \<Rightarrow> bool \<times> byte list \<times> Status" where
  "op_result (OpPut k v) val st = (True, v, st)"
| "op_result (OpDelete k) val st = (True, val, NotFound [] [])"

lemma last_op_None: "last_op u ops = None \<longleftrightarrow> (\<forall>op\<in>set ops. op_key op \<noteq> u)"
  by (auto simp: last_op_def find_None_iff)

lemma last_op_SomeD:
  assumes "last_op u ops = Some op"
  shows "\<exists>a b. ops = a @ op # b \<and> op_key op = u \<and> (\<forall>op'\<in>set b. op_key op' \<noteq> u)"
proof -
  obtain i where i: "i < length (rev ops)" "op = rev ops ! i" "op_key op = u" "\<forall>j<i. op_key (rev ops ! j) \<noteq> u"
    using assms by (auto simp: last_op_def find_Some_iff)
  have "rev ops = take i (rev ops) @ op # drop (Suc i) (rev ops)" using i(1,2) by (simp add: id_take_nth_drop)
  then have "ops = rev (drop (Suc i) (rev ops)) @ op # rev (take i (rev ops))" by (metis rev_append rev.simps(2) append_assoc append_Cons append_Nil rev_rev_ident)
  moreover have "op_key op' \<noteq> u" if "op' \<in> set (rev (take i (rev ops)))" for op'
    using that i(1,4) by (auto simp: in_set_conv_nth)
  ultimately show ?thesis using i(3) by blast
qed

lemma newest_append_invisible: "\<forall>e\<in>set vs. \<not> visible u s e \<Longrightarrow> newest u s (es @ vs) = newest u s es"
  by (induction es) (auto simp: newest_None)

lemma newest_batch:
  assumes ops: "unat q + length ops \<le> 2 ^ 56" and s: "unat q + length ops \<le> unat s + 1"
    and es: "\<forall>e\<in>set es. fst e < q" and d: "distinct (map version_id (es @ op_versions q ops))"
  shows "get_result (newest u s (es @ op_versions q ops)) val st =
    (case last_op u ops of None \<Rightarrow> get_result (newest u s es) val st | Some op \<Rightarrow> op_result op val st)"
proof (cases "last_op u ops")
  case None
  then have "\<forall>e\<in>set (op_versions q ops). \<not> visible u s e"
    using op_versions_in [OF _ ops] by (fastforce simp: visible_def last_op_None split: prod.splits)
  then show ?thesis using None by (simp add: newest_append_invisible)
next
  case (Some op)
  from last_op_SomeD [OF this] obtain a b where ab: "ops = a @ op # b" "op_key op = u" "\<forall>op'\<in>set b. op_key op' \<noteq> u" by blast
  let ?q = "q + of_nat (length a)"
  have uq: "unat ?q = unat q + length a" "unat (?q + 1) = unat q + length a + 1"
    using unat_seq [of q "length a"] unat_seq [of ?q 1] ops ab(1) by simp_all
  define e where "e = hd (op_versions ?q [op])"
  have e: "fst e = ?q" "fst (snd (snd e)) = u" "op_versions ?q (op # b) = e # op_versions (?q + 1) b"
    and r: "get_result (Some e) val st = op_result op val st"
    using ab(2) by (cases op; simp add: e_def get_result_def)+
  have vs: "op_versions q ops = op_versions q a @ e # op_versions (?q + 1) b" by (simp add: ab(1) op_versions_append e(3))
  have "newest u s (es @ op_versions q ops) = Some e"
  proof (rule newest_eqI [OF _ _ d])
    show "e \<in> set (es @ op_versions q ops)" by (simp add: vs)
    have "?q \<le> s" using uq(1) ab(1) s by (simp add: word_le_nat_alt)
    then show "visible u s e" using e by (auto simp: visible_def split: prod.splits)
    fix e' assume e': "e' \<in> set (es @ op_versions q ops)" "visible u s e'"
    then have k: "fst (snd (snd e')) = u" by (auto simp: visible_def)
    from e'(1) consider "e' \<in> set es" | "e' \<in> set (op_versions q a)" | "e' = e" | "e' \<in> set (op_versions (?q + 1) b)" by (auto simp: vs)
    then show "fst e' \<le> fst e"
    proof cases
      case 1
      then have "fst e' < q" using es by blast
      then have "unat (fst e') < unat ?q" using uq(1) by (simp add: word_less_nat_alt)
      then show ?thesis by (simp add: e(1) word_le_nat_alt)
    next
      case 2
      from op_versions_in [OF this] ops ab(1) have "unat (fst e') < unat ?q" using uq(1) by simp
      then show ?thesis by (simp add: e(1) word_le_nat_alt)
    next
      case 4
      from op_versions_in [OF this] uq(2) ops ab(1,3) k show ?thesis by auto
    qed simp
  qed
  then show ?thesis using Some r by simp
qed

section \<open>Properties\<close>

text \<open>
  C22: a batch replays what it was built from: \<open>Put\<close> and \<open>Delete\<close> on a cleared batch build a string
  of which \<open>Iterate\<close> calls any handler with exactly these operations, in order, and accepts the
  count; the sequence number in the header does not matter, and appending two batches is the
  batch of all their operations.
\<close>

theorem write_batch_round_trip:
  assumes "\<forall>op\<in>set (ops @ ops'). op_ok op" and "length (ops @ ops') < 2 ^ 31"
  shows "\<exists>rep rep' rep''. BuildBatch ops WriteBatch_Clear = Ret rep \<and> BuildBatch ops' WriteBatch_Clear = Ret rep' \<and>
    Batch_Append rep rep' = BuildBatch (ops @ ops') WriteBatch_Clear \<and>
    Batch_SetSequence rep q = Ret rep'' \<and> Batch_Sequence rep'' = Ret q \<and>
    WriteBatch_Iterate H rep'' h = bindO (replay H ops h) (\<lambda>h. Ret (OK, h))"
proof -
  let ?body = "\<lambda>ops. concat (map op_bytes ops)"
  have b: "BuildBatch o' WriteBatch_Clear = Ret (batch_rep 0 (length o') (?body o'))" if "set o' \<subseteq> set (ops @ ops')" "length o' < 2 ^ 31" for o'
    using BuildBatch_eq [of o' 0 0 "[]"] assms(1) that by (auto simp: WriteBatch_Clear_eq)
  have "Batch_Append (batch_rep 0 (length ops) (?body ops)) (batch_rep 0 (length ops') (?body ops')) =
    Ret (batch_rep 0 (length ops + length ops') (?body ops @ ?body ops'))"
    using assms(2) by (simp add: Batch_Append_def add_int_of_nat del: of_nat_add) (simp add: batch_rep_def)
  then show ?thesis
    using b [of ops] b [of ops'] b [of "ops @ ops'"] assms WriteBatch_Iterate_eq [of ops H q h] by simp
qed

theorem write_batch_round_trip_witness:
  "\<exists>rep rep' rep''. BuildBatch [OpPut [1] [2], OpDelete [3]] WriteBatch_Clear = Ret rep \<and> BuildBatch [OpDelete [1]] WriteBatch_Clear = Ret rep' \<and>
    Batch_Append rep rep' = BuildBatch [OpPut [1] [2], OpDelete [3], OpDelete [1]] WriteBatch_Clear \<and>
    Batch_SetSequence rep 7 = Ret rep'' \<and> Batch_Sequence rep'' = Ret 7 \<and>
    WriteBatch_Iterate \<lparr>Handler_Put = \<lambda>k v h. Ret (h @ [(k, v)]), Handler_Delete = \<lambda>k h. Ret (h @ [(k, [])])\<rparr> rep'' [] =
      Ret (OK, [([1], [2]), ([3], [])])"
  using write_batch_round_trip [of "[OpPut [1] [2], OpDelete [3]]" "[OpDelete [1]]" 7
      "\<lparr>Handler_Put = \<lambda>k v h. Ret (h @ [(k, v)]), Handler_Delete = \<lambda>k h. Ret (h @ [(k, [])])\<rparr>" "[]"]
  by simp

text \<open>
  C21: the memtable is a multi-version map: after any additions of distinct versions (sequence
  number and key), in any order, a lookup at a sequence number finds the newest version of the
  key that is not newer than the number, answers with its value or with \<open>NotFound\<close> for a deletion,
  and answers false when there is none.
\<close>

theorem memtable_get_newest:
  assumes "\<forall>e\<in>set es. version_ok e" and "distinct (map version_id es)" and "q \<le> kMaxSequenceNumber" and "length u + 8 < 2 ^ 32"
  shows "\<exists>mt. AddVersions es (MemTable_new BytewiseComparator) = Ret mt \<and>
    MemTable_Get mt (LookupKey_new u q) val st = Ret (get_result (newest u q es) val st)"
  using AddVersions_rep [OF mt_rep_new, of es] MemTable_Get_rep [OF _ assms(2-4)] assms(1,2) by auto

theorem memtable_get_newest_witness:
  "\<exists>mt. AddVersions [(1, 1, [7], [10]), (2, 1, [7], [20]), (3, 0, [7], []), (4, 1, [8], [30])] (MemTable_new BytewiseComparator) = Ret mt \<and>
    MemTable_Get mt (LookupKey_new [7] 2) [] OK = Ret (True, [20], OK)"
proof -
  let ?es = "[(1, 1, [7], [10]), (2, 1, [7], [20]), (3, 0, [7], []), (4, 1, [8], [30])] :: version list"
  have "\<forall>e\<in>set ?es. version_ok e" "distinct (map version_id ?es)" "get_result (newest [7] 2 ?es) [] OK = (True, [20], OK)"
    by (simp_all add: version_ok_def kMaxSequenceNumber_def version_id_def visible_def get_result_def)
  moreover from memtable_get_newest [OF this(1,2), of 2 "[7]" "[]" OK] have
    "\<exists>mt. AddVersions ?es (MemTable_new BytewiseComparator) = Ret mt \<and>
      MemTable_Get mt (LookupKey_new [7] 2) [] OK = Ret (get_result (newest [7] 2 ?es) [] OK)"
    by (simp add: kMaxSequenceNumber_def)
  ultimately show ?thesis by simp
qed

text \<open>
  C20: a batch takes effect at its sequence numbers and nowhere else: inserting a batch with first
  sequence number \<open>q\<close> into a memtable of older versions succeeds; a reader at the last sequence
  number of the batch or later sees for every key the last operation of the batch on it, or what
  it saw before when the batch does not mention the key; a reader at an older sequence number
  sees no change.
\<close>

theorem batch_insert_isolated:
  assumes "AddVersions es (MemTable_new BytewiseComparator) = Ret mt" and "\<forall>e\<in>set es. version_ok e \<and> fst e < q" and "distinct (map version_id es)"
    and "BuildBatch ops WriteBatch_Clear = Ret rep" and "Batch_SetSequence rep q = Ret rep'" and "\<forall>op\<in>set ops. op_ok op"
    and "length ops < 2 ^ 31" and "unat q + length ops \<le> 2 ^ 56" and "length u + 8 < 2 ^ 32" and "s \<le> kMaxSequenceNumber"
  shows "\<exists>mt'. Batch_InsertInto rep' mt = Ret (OK, mt') \<and>
    (unat q + length ops \<le> unat s + 1 \<longrightarrow> MemTable_Get mt' (LookupKey_new u s) val st =
       (case last_op u ops of None \<Rightarrow> MemTable_Get mt (LookupKey_new u s) val st | Some op \<Rightarrow> Ret (op_result op val st))) \<and>
    (s < q \<longrightarrow> MemTable_Get mt' (LookupKey_new u s) val st = MemTable_Get mt (LookupKey_new u s) val st)"
proof -
  let ?vs = "op_versions q ops"
  have rep': "rep' = batch_rep q (length ops) (concat (map op_bytes ops))"
    using BuildBatch_eq [OF assms(6), of 0 0 "[]"] assms(4,5,7) by (simp add: WriteBatch_Clear_eq)
  have old: "mt_rep mt es" using AddVersions_rep [OF mt_rep_new, of es] assms(1-3) by auto
  note vs = op_versions_ok [OF assms(6,8)] and vin = op_versions_in [OF _ assms(8)]
  have "version_id e \<noteq> version_id e'" if "e \<in> set es" "e' \<in> set ?vs" for e e'
  proof -
    have "unat (fst e) < unat q" using assms(2) that(1) by (simp add: word_less_nat_alt)
    then have "fst e \<noteq> fst e'" using vin [OF that(2)] by auto
    then show ?thesis by (auto simp: version_id_def split: prod.splits)
  qed
  then have "set (map version_id es) \<inter> set (map version_id ?vs) = {}" unfolding set_map by blast
  then have d: "distinct (map version_id (es @ ?vs))" using assms(3) vs(2) by (simp only: map_append distinct_append)
  from AddVersions_rep [OF old vs(1) d] obtain mt' where mt': "AddVersions ?vs mt = Ret mt'" "mt_rep mt' (es @ ?vs)" by blast
  have "Batch_InsertInto rep' mt = Ret (OK, mt')"
    using WriteBatch_Iterate_eq [OF assms(6,7), of MemTableInserter q "(q, mt)"] mt'(1) by (simp add: Batch_InsertInto_def rep' replay_inserter)
  moreover have g: "MemTable_Get mt (LookupKey_new u s) val st = Ret (get_result (newest u s es) val st)"
    "MemTable_Get mt' (LookupKey_new u s) val st = Ret (get_result (newest u s (es @ ?vs)) val st)"
    using MemTable_Get_rep [OF old assms(3,10,9)] MemTable_Get_rep [OF mt'(2) d assms(10,9)] by simp_all
  moreover have "newest u s (es @ ?vs) = newest u s es" if "s < q"
    using vin that by (intro newest_append_invisible) (fastforce simp: visible_def word_less_nat_alt word_le_nat_alt split: prod.splits)
  moreover have "get_result (newest u s (es @ ?vs)) val st =
    (case last_op u ops of None \<Rightarrow> get_result (newest u s es) val st | Some op \<Rightarrow> op_result op val st)" if "unat q + length ops \<le> unat s + 1"
    using newest_batch [OF assms(8) that _ d] assms(2) by blast
  ultimately show ?thesis by (auto split: option.splits)
qed

theorem batch_insert_isolated_witness:
  "\<exists>mt rep rep' mt'. AddVersions [(1, 1, [7], [10])] (MemTable_new BytewiseComparator) = Ret mt \<and>
    BuildBatch [OpPut [7] [20], OpDelete [7]] WriteBatch_Clear = Ret rep \<and> Batch_SetSequence rep 2 = Ret rep' \<and>
    Batch_InsertInto rep' mt = Ret (OK, mt') \<and>
    MemTable_Get mt' (LookupKey_new [7] 3) [] OK = Ret (True, [], NotFound [] [])"
proof -
  have e: "\<forall>e\<in>set [(1, 1, [7], [10]) :: version]. version_ok e \<and> fst e < 2" "distinct (map version_id [(1, 1, [7], [10]) :: version])"
    by (simp_all add: version_ok_def kMaxSequenceNumber_def)
  then obtain mt where mt: "AddVersions [(1, 1, [7], [10])] (MemTable_new BytewiseComparator) = Ret mt"
    using AddVersions_rep [OF mt_rep_new, of "[(1, 1, [7], [10])]"] by auto
  have o: "\<forall>op\<in>set [OpPut [7] [20], OpDelete [7]]. op_ok op" by simp
  define rep where "rep = batch_rep 0 (length [OpPut [7] [20], OpDelete [7]]) (concat (map op_bytes [OpPut [7] [20], OpDelete [7]]))"
  from BuildBatch_eq [OF o, of 0 0 "[]"] have rep: "BuildBatch [OpPut [7] [20], OpDelete [7]] WriteBatch_Clear = Ret rep"
    unfolding rep_def WriteBatch_Clear_eq by (simp del: BuildBatch.simps)
  obtain rep' where rep': "Batch_SetSequence rep 2 = Ret rep'" by (simp add: rep_def)
  have "\<exists>mt'. Batch_InsertInto rep' mt = Ret (OK, mt') \<and>
    (unat (2 :: u64) + length [OpPut [7] [20], OpDelete [7]] \<le> unat (3 :: u64) + 1 \<longrightarrow> MemTable_Get mt' (LookupKey_new [7] 3) [] OK =
       (case last_op [7] [OpPut [7] [20], OpDelete [7]] of None \<Rightarrow> MemTable_Get mt (LookupKey_new [7] 3) [] OK | Some op \<Rightarrow> Ret (op_result op [] OK))) \<and>
    ((3 :: u64) < 2 \<longrightarrow> MemTable_Get mt' (LookupKey_new [7] 3) [] OK = MemTable_Get mt (LookupKey_new [7] 3) [] OK)"
    by (rule batch_insert_isolated [OF mt e rep rep' o]) (simp_all add: kMaxSequenceNumber_def)
  then show ?thesis using mt rep rep' by (auto simp: last_op_def)
qed

end
