(* ===== verification/Bloom.thy ===== *)
theory Bloom
  imports Dbformat
begin

text \<open>
  Filters: the hash function (\<open>util/hash.cc\<close>), the interface \<open>FilterPolicy\<close>
  (\<open>include/leveldb/filter_policy.h\<close>) with its contract, the Bloom filter (\<open>util/bloom.cc\<close>) and the
  policy for internal keys (\<open>db/dbformat.cc\<close>). The bit array is a byte list; an access outside of
  it is \<open>UB\<close>.
\<close>

section \<open>Hashing\<close>

fun Hash_loop :: "u32 \<Rightarrow> byte list \<Rightarrow> u32 \<times> byte list" where
  "Hash_loop h (a # b # c # d # data) =
     (let w = le_word [a, b, c, d];
          h = h + w;
          h = h * 0xc6a4a793;
          h = h XOR drop_bit 16 h
      in Hash_loop h data)"
| "Hash_loop h data = (h, data)"

text \<open>The fall-through \<open>switch\<close> over the one to three bytes that are left.\<close>

definition Hash_tail :: "u32 \<Rightarrow> byte list \<Rightarrow> u32" where
  "Hash_tail h data =
     (let h = (if length data = 3 then h + push_bit 16 (ucast (data ! 2)) else h);
          h = (if length data \<in> {2, 3} then h + push_bit 8 (ucast (data ! 1)) else h)
      in if length data \<in> {1, 2, 3}
         then let h = h + ucast (data ! 0); h = h * 0xc6a4a793 in h XOR drop_bit 24 h
         else h)"

definition Hash :: "byte list \<Rightarrow> u32 \<Rightarrow> u32" where
  "Hash data seed =
     (let h = ucast (ucast seed XOR (of_nat (length data) * 0xc6a4a793 :: u64))
      in case Hash_loop h data of (h, rest) \<Rightarrow> Hash_tail h rest)"

section \<open>Filter policies\<close>

record FilterPolicy =
  CreateFilter :: "byte list list \<Rightarrow> byte list \<Rightarrow> byte list outcome"
  KeyMayMatch :: "byte list \<Rightarrow> byte list \<Rightarrow> bool outcome"

text \<open>
  The contract that the documentation states: a filter is appended to \<open>dst\<close>, and it matches every
  key that it was created from.
\<close>

locale filter_policy =
  fixes P :: FilterPolicy and keys :: "byte list set"
  assumes create: "set ks \<subseteq> keys \<Longrightarrow> length ks < 2 ^ 31 \<Longrightarrow>
    \<exists>f. (\<forall>dst. CreateFilter P ks dst = Ret (dst @ f)) \<and> (\<forall>k\<in>set ks. KeyMayMatch P k f = Ret True)"

section \<open>The Bloom filter\<close>

definition BloomHash :: "byte list \<Rightarrow> u32" where
  "BloomHash key = Hash key 0xbc9f1d34"

text \<open>
  The number of probes, \<open>bits_per_key * 0.69\<close> rounded down, between 1 and 30. The code multiplies
  in floating point; the integer formula agrees, since below 44 bits per key no product is within
  rounding distance of an integer but zero, and from 44 on the result is cut to 30.
\<close>

definition bloom_k :: "nat \<Rightarrow> nat" where
  "bloom_k bits_per_key =
     (let k = bits_per_key * 69 div 100; k = (if k < 1 then 1 else k) in if k > 30 then 30 else k)"

definition rotate17 :: "u32 \<Rightarrow> u32" where
  "rotate17 h = drop_bit 17 h OR push_bit 15 h"

fun set_probes :: "nat \<Rightarrow> u32 \<Rightarrow> nat \<Rightarrow> u32 \<Rightarrow> byte list \<Rightarrow> byte list outcome" where
  "set_probes bits delta 0 h arr = Ret arr"
| "set_probes bits delta (Suc j) h arr =
     (let bitpos = unat h mod bits
      in if bitpos div 8 < length arr
         then set_probes bits delta j (h + delta) (arr[bitpos div 8 := arr ! (bitpos div 8) OR push_bit (bitpos mod 8) 1])
         else UB)"

fun set_keys :: "nat \<Rightarrow> nat \<Rightarrow> byte list list \<Rightarrow> byte list \<Rightarrow> byte list outcome" where
  "set_keys bits k [] arr = Ret arr"
| "set_keys bits k (key # ks) arr =
     (let h = BloomHash key in bindO (set_probes bits (rotate17 h) k h arr) (set_keys bits k ks))"

text \<open>
  \<open>bits_per_key\<close> is a natural number: for an \<open>int\<close> argument from 0 on the product stays far below
  the range of \<open>size_t\<close>. A negative argument, which the constructor turns into a huge \<open>size_t\<close> (or
  which has no defined conversion), is outside of the model.
\<close>

definition bloom_bytes :: "nat \<Rightarrow> nat \<Rightarrow> nat" where
  "bloom_bytes bits_per_key n =
     (let bits = n * bits_per_key; bits = (if bits < 64 then 64 else bits) in (bits + 7) div 8)"

definition Bloom_CreateFilter :: "nat \<Rightarrow> byte list list \<Rightarrow> byte list \<Rightarrow> byte list outcome" where
  "Bloom_CreateFilter bits_per_key ks dst =
     (let bytes = bloom_bytes bits_per_key (length ks); bits = bytes * 8; k = bloom_k bits_per_key
      in bindO (set_keys bits k ks (replicate bytes 0)) (\<lambda>arr. Ret (dst @ arr @ [of_nat k])))"

fun check_probes :: "nat \<Rightarrow> u32 \<Rightarrow> nat \<Rightarrow> u32 \<Rightarrow> byte list \<Rightarrow> bool outcome" where
  "check_probes bits delta 0 h arr = Ret True"
| "check_probes bits delta (Suc j) h arr =
     (let bitpos = unat h mod bits
      in if bitpos div 8 < length arr
         then if arr ! (bitpos div 8) AND push_bit (bitpos mod 8) 1 = 0 then Ret False
              else check_probes bits delta j (h + delta) arr
         else UB)"

text \<open>\<open>char\<close> is signed on the target: a last byte from 128 on becomes a huge \<open>k\<close>.\<close>

definition Bloom_KeyMayMatch :: "byte list \<Rightarrow> byte list \<Rightarrow> bool outcome" where
  "Bloom_KeyMayMatch key bloom_filter =
     (let len = length bloom_filter
      in if len < 2 then Ret False
         else let bits = (len - 1) * 8; k = unat (scast (bloom_filter ! (len - 1)) :: u64)
              in if k > 30 then Ret True
                 else let h = BloomHash key in check_probes bits (rotate17 h) k h bloom_filter)"

definition BloomFilterPolicy :: "nat \<Rightarrow> FilterPolicy" where
  "BloomFilterPolicy bits_per_key =
     \<lparr>CreateFilter = Bloom_CreateFilter bits_per_key, KeyMayMatch = Bloom_KeyMayMatch\<rparr>"

section \<open>The policy for internal keys\<close>

fun extract_all :: "byte list list \<Rightarrow> byte list list outcome" where
  "extract_all [] = Ret []"
| "extract_all (k # ks) = bindO (ExtractUserKey k) (\<lambda>u. bindO (extract_all ks) (\<lambda>us. Ret (u # us)))"

definition InternalFilterPolicy :: "FilterPolicy \<Rightarrow> FilterPolicy" where
  "InternalFilterPolicy P =
     \<lparr>CreateFilter = \<lambda>ks dst. bindO (extract_all ks) (\<lambda>us. CreateFilter P us dst),
      KeyMayMatch = \<lambda>k f. bindO (ExtractUserKey k) (\<lambda>u. KeyMayMatch P u f)\<rparr>"

section \<open>No false negatives\<close>

text \<open>Probed bits are set, and bits that are set stay set.\<close>

definition bit_at :: "byte list \<Rightarrow> nat \<Rightarrow> bool" where
  "bit_at arr p \<longleftrightarrow> p div 8 < length arr \<and> bit (arr ! (p div 8)) (p mod 8)"

definition covers :: "byte list \<Rightarrow> byte list \<Rightarrow> bool" where
  "covers arr arr' \<longleftrightarrow> length arr' = length arr \<and> (\<forall>p. bit_at arr p \<longrightarrow> bit_at arr' p)"

lemma covers_refl: "covers arr arr"
  by (simp add: covers_def)

lemma covers_trans: "covers a b \<Longrightarrow> covers b c \<Longrightarrow> covers a c"
  by (simp add: covers_def)

lemma and_bit_0: "b AND 2 ^ n = 0 \<longleftrightarrow> \<not> bit b n" if "n < 8" for b :: byte
proof -
  have "bit (b AND 2 ^ n) i \<longleftrightarrow> i = n \<and> bit b n" for i
    using that by (auto simp: bit_and_iff bit_exp_iff possible_bit_word)
  then have "bit b n \<Longrightarrow> bit (b AND 2 ^ n) n" and "\<not> bit b n \<Longrightarrow> b AND 2 ^ n = 0"
    by (blast, intro bit_word_eqI) simp
  then show ?thesis by fastforce
qed

lemma covers_update: "covers arr (arr[i := arr ! i OR x])"
  by (cases "i < length arr") (auto simp: covers_def bit_at_def nth_list_update bit_or_iff)

lemma set_probes_ok:
  assumes "bits = 8 * length arr" "0 < bits"
  shows "\<exists>arr'. set_probes bits delta j h arr = Ret arr' \<and> covers arr arr' \<and>
    (\<forall>arr''. covers arr' arr'' \<longrightarrow> check_probes bits delta j h (arr'' @ z) = Ret True)"
  using assms
proof (induction j arbitrary: h arr)
  case (Suc j)
  define p where "p = unat h mod bits"
  define a where "a = arr[p div 8 := arr ! (p div 8) OR push_bit (p mod 8) 1]"
  have p: "p div 8 < length arr" using Suc.prems by (simp add: p_def less_mult_imp_div_less mult.commute)
  have a: "covers arr a" unfolding a_def by (rule covers_update)
  have "bit_at a p" using p by (simp add: a_def bit_at_def bit_or_iff bit_exp_iff possible_bit_word)
  then have bp: "bit_at c p" if "covers a b" "covers b c" for b c using that by (simp add: covers_def)
  obtain arr' where arr': "set_probes bits delta j (h + delta) a = Ret arr'" "covers a arr'"
    "\<forall>arr''. covers arr' arr'' \<longrightarrow> check_probes bits delta j (h + delta) (arr'' @ z) = Ret True"
    using Suc.IH [of a "h + delta"] Suc.prems a by (auto simp: covers_def simp flip: length_greater_0_conv)
  moreover have "check_probes bits delta (Suc j) h (arr'' @ z) = Ret True" if "covers arr' arr''" for arr''
  proof -
    have "bit_at arr'' p" by (rule bp [OF arr'(2) that])
    then show ?thesis using arr'(3) that
      by (simp add: p_def [symmetric] and_bit_0 bit_at_def nth_append)
  qed
  moreover have "set_probes bits delta (Suc j) h arr = set_probes bits delta j (h + delta) a"
    using p by (simp add: p_def [symmetric] a_def Let_def)
  ultimately show ?case using covers_trans [OF a] by metis
qed (simp add: covers_refl)

lemma set_keys_ok:
  assumes "bits = 8 * length arr" "0 < bits"
  shows "\<exists>arr'. set_keys bits k ks arr = Ret arr' \<and> covers arr arr' \<and>
    (\<forall>key\<in>set ks. check_probes bits (rotate17 (BloomHash key)) k (BloomHash key) (arr' @ z) = Ret True)"
  using assms
proof (induction ks arbitrary: arr)
  case (Cons key ks)
  from set_probes_ok [OF Cons.prems, of "rotate17 (BloomHash key)" k "BloomHash key" z] obtain a where
    a: "set_probes bits (rotate17 (BloomHash key)) k (BloomHash key) arr = Ret a" "covers arr a"
    "\<forall>a'. covers a a' \<longrightarrow> check_probes bits (rotate17 (BloomHash key)) k (BloomHash key) (a' @ z) = Ret True" by blast
  then obtain arr' where "set_keys bits k ks a = Ret arr'" "covers a arr'"
    "\<forall>key\<in>set ks. check_probes bits (rotate17 (BloomHash key)) k (BloomHash key) (arr' @ z) = Ret True"
    using Cons.IH [of a] Cons.prems by (auto simp: covers_def)
  then show ?case using a covers_trans [OF a(2)] by (auto simp: Let_def)
qed (simp add: covers_refl)

lemma scast_small: "n < 128 \<Longrightarrow> unat (scast (of_nat n :: byte) :: u64) = n"
proof -
  assume n: "n < 128"
  then have "sint (of_nat n :: byte) = int n" by (simp add: signed_of_nat signed_take_bit_int_eq_self)
  then have "(scast (of_nat n :: byte) :: u64) = of_nat n" by (metis of_int_of_nat_eq scast_eq)
  with n show ?thesis by simp
qed

lemma bloom_k_range: "1 \<le> bloom_k b" "bloom_k b \<le> 30"
  by (simp_all add: bloom_k_def Let_def)

lemma Bloom_create:
  "\<exists>f. (\<forall>dst. Bloom_CreateFilter b ks dst = Ret (dst @ f)) \<and> (\<forall>k\<in>set ks. Bloom_KeyMayMatch k f = Ret True)"
proof -
  define n where "n = bloom_bytes b (length ks)"
  have "8 \<le> (x + 7) div 8" if "\<not> x < 64" for x :: nat using that by linarith
  then have n: "8 \<le> n" by (simp add: n_def bloom_bytes_def Let_def)
  from set_keys_ok [of "n * 8" "replicate n 0" "bloom_k b" ks "[of_nat (bloom_k b)]"] n obtain arr where
    arr: "set_keys (n * 8) (bloom_k b) ks (replicate n 0) = Ret arr" "length arr = n"
    "\<forall>key\<in>set ks. check_probes (n * 8) (rotate17 (BloomHash key)) (bloom_k b) (BloomHash key) (arr @ [of_nat (bloom_k b)]) = Ret True"
    by (auto simp: covers_def)
  have "Bloom_CreateFilter b ks dst = Ret (dst @ arr @ [of_nat (bloom_k b)])" for dst
    using arr(1) by (simp add: Bloom_CreateFilter_def Let_def n_def)
  moreover have "Bloom_KeyMayMatch k (arr @ [of_nat (bloom_k b)]) = Ret True" if "k \<in> set ks" for k
    using arr(2,3) that n bloom_k_range [of b] by (simp add: Bloom_KeyMayMatch_def Let_def scast_small nth_append)
  ultimately show ?thesis by blast
qed

lemma Bloom_KeyMayMatch_ret: "isRet (Bloom_KeyMayMatch key f)"
proof -
  have "isRet (check_probes bits delta j h f)" if "bits = (length f - 1) * 8" "2 \<le> length f" for bits delta j h
    using that
  proof (induction j arbitrary: h)
    case (Suc j)
    have "unat h mod bits < bits" using Suc.prems by simp
    then have "unat h mod bits < (length f - 1) * 8" using Suc.prems(1) by simp
    then have "unat h mod bits div 8 < length f - 1" by (rule less_mult_imp_div_less)
    then have "unat h mod bits div 8 < length f" by linarith
    then show ?case using Suc by (simp add: Let_def)
  qed simp
  then show ?thesis by (simp add: Bloom_KeyMayMatch_def Let_def)
qed

interpretation bloom: filter_policy "BloomFilterPolicy b" UNIV for b
  using Bloom_create by unfold_locales (simp add: BloomFilterPolicy_def)

text \<open>A policy for user keys gives one for internal keys.\<close>

lemma extract_all_eq: "\<forall>k\<in>set ks. 8 \<le> length k \<Longrightarrow> extract_all ks = Ret (map ukey ks)"
  by (induction ks) (simp_all add: ExtractUserKey_eq)

context filter_policy
begin

lemma internal_filter: "filter_policy (InternalFilterPolicy P) (ikeys keys)"
proof
  fix ks :: "byte list list" assume ks: "set ks \<subseteq> ikeys keys" "length ks < 2 ^ 31"
  then have l: "\<forall>k\<in>set ks. 8 \<le> length k" and "set (map ukey ks) \<subseteq> keys" by (auto simp: ikeys_def)
  with create [of "map ukey ks"] ks(2) obtain f where
    "\<forall>dst. CreateFilter P (map ukey ks) dst = Ret (dst @ f)" "\<forall>k\<in>set (map ukey ks). KeyMayMatch P k f = Ret True" by auto
  then show "\<exists>f. (\<forall>dst. CreateFilter (InternalFilterPolicy P) ks dst = Ret (dst @ f)) \<and>
    (\<forall>k\<in>set ks. KeyMayMatch (InternalFilterPolicy P) k f = Ret True)"
    using l by (auto simp: InternalFilterPolicy_def extract_all_eq ExtractUserKey_eq)
qed

end

interpretation ibloom: filter_policy "InternalFilterPolicy (BloomFilterPolicy b)" "ikeys UNIV" for b
  by (rule bloom.internal_filter)

text \<open>
  C29: the Bloom filter has no false negatives, through the policy for internal keys as tables use
  it: whatever the bits per key (not negative), a filter is created without leaving the bit array and matches
  every key that it was created from.
\<close>

theorem bloom_no_false_negatives:
  assumes "\<forall>k\<in>set ks. 8 \<le> length k" and "length ks < 2 ^ 31"
  shows "\<exists>f. CreateFilter (InternalFilterPolicy (BloomFilterPolicy b)) ks dst = Ret (dst @ f) \<and>
    (\<forall>k\<in>set ks. KeyMayMatch (InternalFilterPolicy (BloomFilterPolicy b)) k f = Ret True)"
proof -
  have "set ks \<subseteq> ikeys UNIV" using assms(1) by (auto simp: ikeys_def)
  from ibloom.create [OF this assms(2)] show ?thesis by blast
qed

theorem bloom_no_false_negatives_witness:
  "\<exists>f. CreateFilter (InternalFilterPolicy (BloomFilterPolicy 10)) [replicate 9 1, replicate 10 2] [5] = Ret ([5] @ f) \<and>
    KeyMayMatch (InternalFilterPolicy (BloomFilterPolicy 10)) (replicate 9 1) f = Ret True"
  using bloom_no_false_negatives [of "[replicate 9 1, replicate 10 2]" 10 "[5]"] by auto

text \<open>
  Matching is safe on arbitrary bytes: for every key and every filter, corrupted ones
  included, \<open>KeyMayMatch\<close> returns and never reads outside of the filter.
\<close>

theorem bloom_match_total: "isRet (Bloom_KeyMayMatch key f)"
  by (rule Bloom_KeyMayMatch_ret)

end
