(* ===== verification/Filter_Block.thy ===== *)
theory Filter_Block
  imports Bloom Coding
begin

text \<open>
  The filter block of a table (\<open>table/filter_block.cc\<close>, \<open>table/filter_block.h\<close>): the builder, which
  collects the keys of each stretch of two kilobytes of data and asks the filter policy for a
  filter, and the reader. Over every policy that satisfies the contract, the reader finds every
  key that was added.
\<close>

section \<open>The builder\<close>

abbreviation (input) kFilterBaseLg :: nat where "kFilterBaseLg \<equiv> 11"

definition kFilterBase :: nat where "kFilterBase = 2 ^ kFilterBaseLg"

record FilterBlockBuilder =
  fb_keys :: "byte list"
  fb_start :: "nat list"
  fb_result :: "byte list"
  fb_offsets :: "u32 list"

definition FilterBlockBuilder_new :: FilterBlockBuilder where
  "FilterBlockBuilder_new = \<lparr>fb_keys = [], fb_start = [], fb_result = [], fb_offsets = []\<rparr>"

definition GenerateFilter :: "FilterPolicy \<Rightarrow> FilterBlockBuilder \<Rightarrow> FilterBlockBuilder outcome" where
  "GenerateFilter P b =
     (let num_keys = length (fb_start b);
          offsets = fb_offsets b @ [of_nat (length (fb_result b))]
      in if num_keys = 0 then Ret (b\<lparr>fb_offsets := offsets\<rparr>)
         else let start = fb_start b @ [length (fb_keys b)];
                  tmp_keys = map (\<lambda>i. take (start ! (i + 1) - start ! i) (drop (start ! i) (fb_keys b))) [0..<num_keys]
              in bindO (CreateFilter P tmp_keys (fb_result b)) (\<lambda>result.
                   Ret \<lparr>fb_keys = [], fb_start = [], fb_result = result, fb_offsets = offsets\<rparr>))"

lemma GenerateFilter_offsets: "GenerateFilter P b = Ret b' \<Longrightarrow> length (fb_offsets b') = Suc (length (fb_offsets b))"
  by (auto simp: GenerateFilter_def Let_def split: if_splits)

function StartBlock_loop :: "FilterPolicy \<Rightarrow> nat \<Rightarrow> FilterBlockBuilder \<Rightarrow> FilterBlockBuilder outcome" where
  "StartBlock_loop P filter_index b =
     (if filter_index > length (fb_offsets b) then bindO (GenerateFilter P b) (\<lambda>b. StartBlock_loop P filter_index b) else Ret b)"
  by auto
termination
  by (relation "measure (\<lambda>(P, i, b). i - length (fb_offsets b))") (auto dest!: GenerateFilter_offsets)

declare StartBlock_loop.simps [simp del]

definition StartBlock :: "FilterPolicy \<Rightarrow> u64 \<Rightarrow> FilterBlockBuilder \<Rightarrow> FilterBlockBuilder outcome" where
  "StartBlock P block_offset b = StartBlock_loop P (unat block_offset div kFilterBase) b"

definition AddKey :: "byte list \<Rightarrow> FilterBlockBuilder \<Rightarrow> FilterBlockBuilder" where
  "AddKey key b = b\<lparr>fb_start := fb_start b @ [length (fb_keys b)], fb_keys := fb_keys b @ key\<rparr>"

definition FilterBlock_Finish :: "FilterPolicy \<Rightarrow> FilterBlockBuilder \<Rightarrow> byte list outcome" where
  "FilterBlock_Finish P b =
     bindO (if fb_start b \<noteq> [] then GenerateFilter P b else Ret b) (\<lambda>b.
       let array_offset = of_nat (length (fb_result b));
           result = foldl PutFixed32 (fb_result b) (fb_offsets b)
       in Ret (PutFixed32 result array_offset @ [of_nat kFilterBaseLg]))"

section \<open>The reader\<close>

text \<open>\<open>data_\<close> is the whole contents, \<open>offset_\<close> the index of the offset array in it.\<close>

record FilterBlockReader =
  fr_data :: "byte list"
  fr_offset :: nat
  fr_num :: nat
  fr_base_lg :: nat

definition FilterBlockReader_new :: "byte list \<Rightarrow> FilterBlockReader outcome" where
  "FilterBlockReader_new contents =
     (let n = length contents; r = \<lparr>fr_data = [], fr_offset = 0, fr_num = 0, fr_base_lg = 0\<rparr>
      in if n < 5 then Ret r
         else let r = r\<lparr>fr_base_lg := unat (scast (contents ! (n - 1)) :: u64)\<rparr>
              in bindO (DecodeFixed32 (drop (n - 5) contents)) (\<lambda>last_word.
                   Ret (if unat last_word > n - 5 then r
                        else r\<lparr>fr_data := contents, fr_offset := unat last_word, fr_num := (n - 5 - unat last_word) div 4\<rparr>)))"

definition FilterBlock_KeyMayMatch :: "FilterPolicy \<Rightarrow> FilterBlockReader \<Rightarrow> u64 \<Rightarrow> byte list \<Rightarrow> bool outcome" where
  "FilterBlock_KeyMayMatch P r block_offset key =
     (if fr_base_lg r \<ge> 64 then UB
      else let index = unat (drop_bit (fr_base_lg r) block_offset)
           in if index < fr_num r then
                bindO (DecodeFixed32 (drop (fr_offset r + index * 4) (fr_data r))) (\<lambda>start.
                bindO (DecodeFixed32 (drop (fr_offset r + index * 4 + 4) (fr_data r))) (\<lambda>limit.
                  if start \<le> limit \<and> unat limit \<le> fr_offset r
                  then KeyMayMatch P key (take (unat (limit - start)) (drop (unat start) (fr_data r)))
                  else if start = limit then Ret False else Ret True))
              else Ret True)"

section \<open>No key is lost\<close>

text \<open>The builder holds the filters \<open>fs\<close> and the keys \<open>pend\<close> of the filter to come.\<close>

definition fb_inv :: "FilterBlockBuilder \<Rightarrow> byte list list \<Rightarrow> byte list list \<Rightarrow> bool" where
  "fb_inv b fs pend \<longleftrightarrow> fb_result b = concat fs \<and> fb_offsets b = map (\<lambda>i. of_nat (part fs i)) [0..<length fs] \<and>
     fb_keys b = concat pend \<and> fb_start b = map (part pend) [0..<length pend]"

lemma fb_inv_new: "fb_inv FilterBlockBuilder_new [] []"
  by (simp add: fb_inv_def FilterBlockBuilder_new_def)

lemma AddKey_inv: "fb_inv b fs pend \<Longrightarrow> fb_inv (AddKey k b) fs (pend @ [k])"
  using parts_snoc [of pend k] by (simp add: fb_inv_def AddKey_def)

lemma AddKeys_inv: "fb_inv b fs pend \<Longrightarrow> fb_inv (fold AddKey ks b) fs (pend @ ks)"
proof (induction ks arbitrary: b pend)
  case (Cons k ks)
  from Cons.IH [OF AddKey_inv [OF Cons.prems]] show ?case by simp
qed simp

fun build_blocks :: "FilterPolicy \<Rightarrow> (u64 \<times> byte list list) list \<Rightarrow> FilterBlockBuilder \<Rightarrow> FilterBlockBuilder outcome" where
  "build_blocks P [] b = Ret b"
| "build_blocks P ((off, ks) # bs) b = bindO (StartBlock P off b) (\<lambda>b. build_blocks P bs (fold AddKey ks b))"

context filter_policy
begin

definition matched :: "byte list list \<Rightarrow> nat \<Rightarrow> byte list \<Rightarrow> bool" where
  "matched fs i k \<longleftrightarrow> i < length fs \<and> KeyMayMatch P k (fs ! i) = Ret True"

lemma matched_append: "matched fs i k \<Longrightarrow> matched (fs @ gs) i k"
  by (simp add: matched_def nth_append)

lemma GenerateFilter_ok:
  assumes "fb_inv b fs pend" "set pend \<subseteq> keys" "length pend < 2 ^ 31"
  shows "\<exists>b' f. GenerateFilter P b = Ret b' \<and> fb_inv b' (fs @ [f]) [] \<and> (\<forall>k\<in>set pend. matched (fs @ [f]) (length fs) k)"
proof (cases "pend = []")
  case True
  then have "GenerateFilter P b = Ret (b\<lparr>fb_offsets := fb_offsets b @ [of_nat (length (concat fs))]\<rparr>)"
    using assms(1) by (simp add: GenerateFilter_def fb_inv_def)
  moreover have "fb_inv (b\<lparr>fb_offsets := fb_offsets b @ [of_nat (length (concat fs))]\<rparr>) (fs @ [[]]) []"
    using assms(1) True by (simp add: fb_inv_def part_append part_length)
  ultimately show ?thesis using True by auto
next
  case False
  have st: "fb_start b @ [length (fb_keys b)] = map (part pend) [0..<Suc (length pend)]"
    using assms(1) by (simp add: fb_inv_def part_length)
  have "map (\<lambda>i. take ((fb_start b @ [length (fb_keys b)]) ! (i + 1) - (fb_start b @ [length (fb_keys b)]) ! i)
      (drop ((fb_start b @ [length (fb_keys b)]) ! i) (fb_keys b))) [0..<length pend] = pend"
    unfolding st using assms(1) by (intro nth_equalityI) (auto simp: fb_inv_def part_slice nth_append simp del: upt_Suc)
  moreover obtain f where f: "\<forall>dst. CreateFilter P pend dst = Ret (dst @ f)" "\<forall>k\<in>set pend. KeyMayMatch P k f = Ret True"
    using create [OF assms(2,3)] by blast
  ultimately have "GenerateFilter P b =
      Ret \<lparr>fb_keys = [], fb_start = [], fb_result = concat fs @ f, fb_offsets = fb_offsets b @ [of_nat (length (concat fs))]\<rparr>"
    using assms(1) False by (simp add: GenerateFilter_def fb_inv_def Let_def)
  then show ?thesis using f(2) assms(1) by (auto simp: fb_inv_def matched_def part_append part_length)
qed

lemma StartBlock_ok:
  assumes "fb_inv b fs pend" "set pend \<subseteq> keys" "length pend < 2 ^ 31" "length fs \<le> i"
  shows "\<exists>b' gs pend'. StartBlock_loop P i b = Ret b' \<and> fb_inv b' (fs @ gs) pend' \<and> length (fs @ gs) = i \<and>
    (if gs = [] then pend' = pend else pend' = [] \<and> (\<forall>k\<in>set pend. matched (fs @ gs) (length fs) k))"
  using assms
proof (induction "i - length fs" arbitrary: b fs pend)
  case 0
  then have "StartBlock_loop P i b = Ret b" by (subst StartBlock_loop.simps) (simp add: fb_inv_def)
  with 0 have "StartBlock_loop P i b = Ret b \<and> fb_inv b (fs @ []) pend \<and> length (fs @ []) = i" by simp
  then show ?case by (metis (full_types))
next
  case (Suc n)
  from GenerateFilter_ok [OF Suc.prems(1-3)] obtain b1 f where
    b1: "GenerateFilter P b = Ret b1" "fb_inv b1 (fs @ [f]) []" "\<forall>k\<in>set pend. matched (fs @ [f]) (length fs) k" by blast
  have n: "n = i - length (fs @ [f])" and le: "length (fs @ [f]) \<le> i" using Suc.hyps(2) by simp_all
  obtain b' gs pend' where b': "StartBlock_loop P i b1 = Ret b'" "fb_inv b' ((fs @ [f]) @ gs) pend'" "length ((fs @ [f]) @ gs) = i" "pend' = []"
    using Suc.hyps(1) [OF n b1(2) _ _ le] by (auto split: if_splits)
  moreover have "length fs = length (fb_offsets b)" using Suc.prems(1) by (simp add: fb_inv_def)
  then have "length (fb_offsets b) < i" using Suc.hyps(2) by simp
  then have "StartBlock_loop P i b = StartBlock_loop P i b1" using b1(1) by (simp add: StartBlock_loop.simps [of P i b])
  moreover have "\<forall>k\<in>set pend. matched ((fs @ [f]) @ gs) (length fs) k" using b1(3) matched_append by blast
  ultimately show ?case by - (rule exI [where x = b'], rule exI [where x = "f # gs"], rule exI [where x = "[]"], simp)
qed

lemma build_blocks_ok:
  assumes "fb_inv b fs pend" "set pend \<subseteq> keys" "\<forall>(off, ks)\<in>set bs. set ks \<subseteq> keys \<and> length fs \<le> unat off div kFilterBase"
    and "sorted_wrt (\<lambda>x y. fst x \<le> fst y) bs" and "length pend + length (concat (map snd bs)) < 2 ^ 31"
  shows "\<exists>b' gs pend'. build_blocks P bs b = Ret b' \<and> fb_inv b' (fs @ gs) pend' \<and> set pend' \<subseteq> keys \<and> length pend' < 2 ^ 31 \<and>
    (\<forall>k\<in>set pend. matched (fs @ gs) (length fs) k \<or> gs = [] \<and> k \<in> set pend') \<and>
    (\<forall>(off, ks)\<in>set bs. \<forall>k\<in>set ks. matched (fs @ gs) (unat off div kFilterBase) k \<or>
       unat off div kFilterBase = length (fs @ gs) \<and> k \<in> set pend')"
  using assms
proof (induction bs arbitrary: b fs pend)
  case Nil
  show ?case by (rule exI [where x = b], rule exI [where x = "[]"], rule exI [where x = pend]) (use Nil in simp)
next
  case (Cons x bs)
  obtain off ks where x: "x = (off, ks)" by (cases x)
  let ?i = "unat off div kFilterBase"
  have "length pend < 2 ^ 31" "length fs \<le> ?i" using Cons.prems(3,5) by (simp_all add: x)
  from StartBlock_ok [OF Cons.prems(1,2) this] obtain b1 g1 p1 where b1: "StartBlock_loop P ?i b = Ret b1" "fb_inv b1 (fs @ g1) p1"
    "length (fs @ g1) = ?i" "if g1 = [] then p1 = pend else p1 = [] \<and> (\<forall>k\<in>set pend. matched (fs @ g1) (length fs) k)" by blast
  have p1: "set p1 \<subseteq> set pend" "length p1 \<le> length pend" using b1(4) by (auto split: if_splits)
  have later: "?i \<le> unat off' div kFilterBase" if "(off', ks') \<in> set bs" for off' ks'
    using Cons.prems(4) that by (force simp: x word_le_nat_alt intro: div_le_mono)
  have "\<exists>b' gs pend'. build_blocks P bs (fold AddKey ks b1) = Ret b' \<and> fb_inv b' ((fs @ g1) @ gs) pend' \<and> set pend' \<subseteq> keys \<and> length pend' < 2 ^ 31 \<and>
    (\<forall>k\<in>set (p1 @ ks). matched ((fs @ g1) @ gs) (length (fs @ g1)) k \<or> gs = [] \<and> k \<in> set pend') \<and>
    (\<forall>(off, ks)\<in>set bs. \<forall>k\<in>set ks. matched ((fs @ g1) @ gs) (unat off div kFilterBase) k \<or>
       unat off div kFilterBase = length ((fs @ g1) @ gs) \<and> k \<in> set pend')"
    by (rule Cons.IH [OF AddKeys_inv [OF b1(2)]]) (use Cons.prems p1 later b1(3) x in auto)
  then obtain b' gs pend' where b': "build_blocks P bs (fold AddKey ks b1) = Ret b'" "fb_inv b' ((fs @ g1) @ gs) pend'" "set pend' \<subseteq> keys" "length pend' < 2 ^ 31"
    and m: "\<forall>k\<in>set (p1 @ ks). matched ((fs @ g1) @ gs) (length (fs @ g1)) k \<or> gs = [] \<and> k \<in> set pend'"
    and ms: "\<forall>(off, ks)\<in>set bs. \<forall>k\<in>set ks. matched ((fs @ g1) @ gs) (unat off div kFilterBase) k \<or>
       unat off div kFilterBase = length ((fs @ g1) @ gs) \<and> k \<in> set pend'" by blast
  have "matched (fs @ g1 @ gs) (length fs) k \<or> g1 @ gs = [] \<and> k \<in> set pend'" if "k \<in> set pend" for k
    using b1(4) m that matched_append [of "fs @ g1" "length fs" k gs] by (cases "g1 = []") auto
  moreover have "matched (fs @ g1 @ gs) ?i k \<or> ?i = length (fs @ g1 @ gs) \<and> k \<in> set pend'" if "k \<in> set ks" for k
    using m that b1(3) by auto
  moreover have "build_blocks P (x # bs) b = Ret b'" using b1(1) b'(1) by (simp add: x StartBlock_def)
  ultimately show ?case using b'(2-4) ms
    by - (rule exI [where x = b'], rule exI [where x = "g1 @ gs"], rule exI [where x = pend'], auto simp: x)
qed

lemma Finish_ok:
  assumes "fb_inv b fs pend" "set pend \<subseteq> keys" "length pend < 2 ^ 31"
  shows "\<exists>gs. FilterBlock_Finish P b = Ret (concat (fs @ gs) @ concat (map EncodeFixed32 (map (\<lambda>i. of_nat (part (fs @ gs) i)) [0..<Suc (length (fs @ gs))])) @ [11]) \<and>
    (\<forall>k\<in>set pend. matched (fs @ gs) (length fs) k)"
proof -
  have fin: "Ret (PutFixed32 (foldl PutFixed32 (fb_result c) (fb_offsets c)) (of_nat (length (fb_result c))) @ [of_nat kFilterBaseLg]) =
      Ret (concat hs @ concat (map EncodeFixed32 (map (\<lambda>i. of_nat (part hs i)) [0..<Suc (length hs)])) @ [11])"
    if "fb_inv c hs p" for c hs p
    using that by (simp add: fb_inv_def foldl_PutFixed32 PutFixed32_def part_length comp_def)
  show ?thesis
  proof (cases "pend = []")
    case True
    then have "fb_start b = []" using assms(1) by (simp add: fb_inv_def)
    then show ?thesis using fin [OF assms(1)] True by (intro exI [where x = "[]"]) (simp add: FilterBlock_Finish_def Let_def del: upt_Suc)
  next
    case False
    then have "fb_start b \<noteq> []" using assms(1) by (simp add: fb_inv_def)
    moreover obtain b' f where b': "GenerateFilter P b = Ret b'" "fb_inv b' (fs @ [f]) []" "\<forall>k\<in>set pend. matched (fs @ [f]) (length fs) k"
      using GenerateFilter_ok [OF assms] by blast
    ultimately show ?thesis using fin [OF b'(2)] by (intro exI [where x = "[f]"]) (simp add: FilterBlock_Finish_def Let_def del: upt_Suc)
  qed
qed

lemma reader_matches:
  assumes "matched fs (unat off div kFilterBase) k" "length (concat fs) < 2 ^ 32"
    and c: "contents = concat fs @ concat (map EncodeFixed32 (map (\<lambda>i. of_nat (part fs i)) [0..<Suc (length fs)])) @ [11]"
  shows "bindO (FilterBlockReader_new contents) (\<lambda>r. FilterBlock_KeyMayMatch P r off k) = Ret True"
proof -
  let ?os = "map (\<lambda>i. of_nat (part fs i)) [0..<Suc (length fs)] :: u32 list" and ?i = "unat off div kFilterBase"
  let ?L = "length (concat fs)"
  have l4: "length (concat (map EncodeFixed32 xs)) = length xs * 4" for xs by (induction xs) (simp_all add: EncodeFixed32_def)
  have n: "length contents = ?L + (Suc (length fs) * 4 + 1)" unfolding c length_append l4 by simp
  have dec: "DecodeFixed32 (drop (?L + i * 4) contents) = Ret (of_nat (part fs i))" if "i \<le> length fs" for i
    using decode_array [of i ?os "concat fs" "[11]"] that by (simp add: c del: upt_Suc)
  have last: "DecodeFixed32 (drop (length contents - 5) contents) = Ret (of_nat ?L)"
    using dec [of "length fs"] by (simp add: n part_length)
  have "last contents = 11" "contents \<noteq> []" by (simp_all add: c del: upt_Suc)
  then have "contents ! (length contents - 1) = 11" by (simp add: last_conv_nth)
  then have r: "FilterBlockReader_new contents = Ret \<lparr>fr_data = contents, fr_offset = ?L, fr_num = length fs, fr_base_lg = 11\<rparr>"
    using last assms(2) scast_small [of 11] by (simp add: FilterBlockReader_new_def Let_def n)
  have ix: "unat (drop_bit 11 off) = ?i" unfolding unat_drop_bit_eq by (simp add: drop_bit_eq_div kFilterBase_def)
  have i: "?i < length fs" "KeyMayMatch P k (fs ! ?i) = Ret True" using assms(1) by (simp_all add: matched_def)
  have p: "part fs ?i \<le> part fs (Suc ?i)" "part fs (Suc ?i) \<le> ?L" using part_mono [of "Suc ?i" "length fs" fs] i(1) by (simp_all add: part_mono part_length)
  then have u: "unat (of_nat (part fs ?i) :: u32) = part fs ?i" "unat (of_nat (part fs (Suc ?i)) :: u32) = part fs (Suc ?i)" using assms(2) by simp_all
  then have sub: "unat (of_nat (part fs (Suc ?i)) - of_nat (part fs ?i) :: u32) = part fs (Suc ?i) - part fs ?i"
    using p by (simp add: unat_sub word_le_nat_alt)
  have sl: "take (part fs (Suc ?i) - part fs ?i) (drop (part fs ?i) contents) = fs ! ?i"
    using part_slice [OF i(1)] p by (simp add: c del: upt_Suc)
  have d1: "DecodeFixed32 (drop (?L + ?i * 4) contents) = Ret (of_nat (part fs ?i))" using dec i(1) by simp
  have d2: "DecodeFixed32 (drop (?L + ?i * 4 + 4) contents) = Ret (of_nat (part fs (Suc ?i)))"
    using dec [of "Suc ?i"] i(1) by (simp add: algebra_simps)
  show ?thesis
    using i(1) p(1,2)
    by (simp add: r FilterBlock_KeyMayMatch_def ix word_le_nat_alt d1 d2 u) (simp add: sub sl i(2))
qed

lemma filter_block_complete:
  assumes "\<forall>(off, ks)\<in>set bs. set ks \<subseteq> keys" "sorted_wrt (\<lambda>x y. fst x \<le> fst y) bs" "length (concat (map snd bs)) < 2 ^ 31"
  shows "\<exists>contents. bindO (build_blocks P bs FilterBlockBuilder_new) (FilterBlock_Finish P) = Ret contents \<and>
    (length contents < 2 ^ 32 \<longrightarrow> (\<forall>(off, ks)\<in>set bs. \<forall>k\<in>set ks.
      bindO (FilterBlockReader_new contents) (\<lambda>r. FilterBlock_KeyMayMatch P r off k) = Ret True))"
proof -
  from build_blocks_ok [OF fb_inv_new, of bs] assms obtain b fs pend where
    b: "build_blocks P bs FilterBlockBuilder_new = Ret b" "fb_inv b fs pend" "set pend \<subseteq> keys" "length pend < 2 ^ 31"
    "\<forall>(off, ks)\<in>set bs. \<forall>k\<in>set ks. matched fs (unat off div kFilterBase) k \<or> unat off div kFilterBase = length fs \<and> k \<in> set pend"
    by auto
  from Finish_ok [OF b(2-4)] obtain gs where
    f: "FilterBlock_Finish P b = Ret (concat (fs @ gs) @ concat (map EncodeFixed32 (map (\<lambda>i. of_nat (part (fs @ gs) i)) [0..<Suc (length (fs @ gs))])) @ [11])"
    (is "_ = Ret ?c") "\<forall>k\<in>set pend. matched (fs @ gs) (length fs) k" by blast
  have "bindO (FilterBlockReader_new ?c) (\<lambda>r. FilterBlock_KeyMayMatch P r off k) = Ret True"
    if "length ?c < 2 ^ 32" "(off, ks) \<in> set bs" "k \<in> set ks" for off ks k
  proof (rule reader_matches [OF _ _ refl])
    have "matched fs (unat off div kFilterBase) k \<or> unat off div kFilterBase = length fs \<and> k \<in> set pend" using b(5) that(2,3) by auto
    then show "matched (fs @ gs) (unat off div kFilterBase) k" using f(2) matched_append by auto
    show "length (concat (fs @ gs)) < 2 ^ 32" using that(1) by (simp del: upt_Suc)
  qed
  then show ?thesis using b(1) f(1) by auto
qed

end

text \<open>
  C28: a table's filter block loses no key: when blocks at rising offsets are started and keys are
  added to them, the finished filter block, read back, matches every key at the offset of its
  block, with the Bloom filter over internal keys that the database uses.
\<close>

theorem filter_block_no_false_negatives:
  assumes "\<forall>(off, ks)\<in>set bs. \<forall>k\<in>set ks. 8 \<le> length k" and "sorted_wrt (\<lambda>x y. fst x \<le> fst y) bs" and "length (concat (map snd bs)) < 2 ^ 31"
  shows "\<exists>contents. bindO (build_blocks (InternalFilterPolicy (BloomFilterPolicy n)) bs FilterBlockBuilder_new)
      (FilterBlock_Finish (InternalFilterPolicy (BloomFilterPolicy n))) = Ret contents \<and>
    (length contents < 2 ^ 32 \<longrightarrow> (\<forall>(off, ks)\<in>set bs. \<forall>k\<in>set ks.
      bindO (FilterBlockReader_new contents) (\<lambda>r. FilterBlock_KeyMayMatch (InternalFilterPolicy (BloomFilterPolicy n)) r off k) = Ret True))"
proof -
  have "\<forall>(off, ks)\<in>set bs. set ks \<subseteq> ikeys UNIV" using assms(1) by (auto simp: ikeys_def)
  from ibloom.filter_block_complete [OF this assms(2,3)] show ?thesis .
qed

lemmas filter_eval = GenerateFilter_def InternalFilterPolicy_def BloomFilterPolicy_def ExtractUserKey_eq ukey_def Let_def
  Bloom_CreateFilter_def bloom_bytes_def bloom_k_def BloomHash_def Hash_def Hash_tail_def

lemma sample_filter_block:
  "bindO (bindO (build_blocks (InternalFilterPolicy (BloomFilterPolicy 1)) [(0, [[1,0,0,0,0,0,0,0,0]]), (2048, [[2,0,0,0,0,0,0,0,0]])] FilterBlockBuilder_new)
      (FilterBlock_Finish (InternalFilterPolicy (BloomFilterPolicy 1)))) (\<lambda>c. Ret (length c)) = Ret 31"
  supply bindO_eq_Ret [simp del]
  apply (simp add: StartBlock_def kFilterBase_def FilterBlockBuilder_new_def AddKey_def)
  apply (subst StartBlock_loop.simps)
  apply simp
  apply (subst StartBlock_loop.simps)
  apply (simp add: filter_eval)
  apply (subst StartBlock_loop.simps)
  apply (simp add: filter_eval FilterBlock_Finish_def PutFixed32_def EncodeFixed32_def)
  done

theorem filter_block_no_false_negatives_witness:
  "\<exists>contents. bindO (build_blocks (InternalFilterPolicy (BloomFilterPolicy 1)) [(0, [[1,0,0,0,0,0,0,0,0]]), (2048, [[2,0,0,0,0,0,0,0,0]])] FilterBlockBuilder_new)
      (FilterBlock_Finish (InternalFilterPolicy (BloomFilterPolicy 1))) = Ret contents \<and> length contents = 31 \<and>
    bindO (FilterBlockReader_new contents) (\<lambda>r. FilterBlock_KeyMayMatch (InternalFilterPolicy (BloomFilterPolicy 1)) r 2048 [2,0,0,0,0,0,0,0,0]) = Ret True"
  using filter_block_no_false_negatives [of "[(0, [[1,0,0,0,0,0,0,0,0]]), (2048, [[2,0,0,0,0,0,0,0,0]])]" 1] sample_filter_block
  by (auto simp del: build_blocks.simps)

end
