(* ===== verification/Block.thy ===== *)
theory Block
  imports Comparator Status Coding
begin

text \<open>
  The blocks of a table: the builder (\<open>table/block_builder.cc\<close>), which stores each key as the
  length that it shares with the key before and the rest, with a restart point every few keys, and
  the block with its iterator (\<open>table/block.cc\<close>). A pointer into the block is its offset.
\<close>

section \<open>The builder\<close>

record BlockBuilder =
  bb_buffer :: "byte list"
  bb_restarts :: "u32 list"
  bb_counter :: int
  bb_finished :: bool
  bb_last_key :: "byte list"

definition BlockBuilder_new :: BlockBuilder where
  "BlockBuilder_new = \<lparr>bb_buffer = [], bb_restarts = [0], bb_counter = 0, bb_finished = False, bb_last_key = []\<rparr>"

definition BlockBuilder_Reset :: "BlockBuilder \<Rightarrow> BlockBuilder" where
  "BlockBuilder_Reset b =
     b\<lparr>bb_buffer := [], bb_restarts := [] @ [0], bb_counter := 0, bb_finished := False, bb_last_key := []\<rparr>"

definition BlockBuilder_empty :: "BlockBuilder \<Rightarrow> bool" where
  "BlockBuilder_empty b \<longleftrightarrow> bb_buffer b = []"

definition CurrentSizeEstimate :: "BlockBuilder \<Rightarrow> nat" where
  "CurrentSizeEstimate b = length (bb_buffer b) + length (bb_restarts b) * 4 + 4"

definition BlockBuilder_Finish :: "BlockBuilder \<Rightarrow> byte list \<times> BlockBuilder" where
  "BlockBuilder_Finish b =
     (let buffer = foldl PutFixed32 (bb_buffer b) (bb_restarts b);
          buffer = PutFixed32 buffer (of_nat (length (bb_restarts b)))
      in (buffer, b\<lparr>bb_buffer := buffer, bb_finished := True\<rparr>))"

text \<open>\<open>while (shared < min_length && last_key_piece[shared] == key[shared]) shared++;\<close>\<close>

fun shared_prefix :: "byte list \<Rightarrow> byte list \<Rightarrow> nat" where
  "shared_prefix (x # last_key) (y # key) = (if x = y then Suc (shared_prefix last_key key) else 0)"
| "shared_prefix last_key key = 0"

text \<open>
  \<open>options_->block_restart_interval\<close> is the argument \<open>interval\<close>. The assertions (an interval of at
  least one, a builder that is not finished, keys in rising order) are preconditions of the caller
  and are not tested here.
\<close>

definition BlockBuilder_Add :: "int \<Rightarrow> byte list \<Rightarrow> byte list \<Rightarrow> BlockBuilder \<Rightarrow> BlockBuilder" where
  "BlockBuilder_Add interval key val b =
     (let (shared, restarts, counter) =
            (if bb_counter b < interval then (shared_prefix (bb_last_key b) key, bb_restarts b, bb_counter b)
             else (0, bb_restarts b @ [of_nat (length (bb_buffer b))], 0));
          non_shared = length key - shared;
          buffer = PutVarint32 (bb_buffer b) (of_nat shared);
          buffer = PutVarint32 buffer (of_nat non_shared);
          buffer = PutVarint32 buffer (of_nat (length val))
      in b\<lparr>bb_buffer := buffer @ drop shared key @ val, bb_restarts := restarts, bb_counter := counter + 1,
           bb_last_key := take shared (bb_last_key b) @ drop shared key\<rparr>)"

section \<open>The block\<close>

record Block =
  bk_data :: "byte list"
  bk_size :: nat
  bk_restart_offset :: u32

definition NumRestarts :: "byte list \<Rightarrow> u32 outcome" where
  "NumRestarts contents = DecodeFixed32 (drop (length contents - 4) contents)"

text \<open>The field \<open>restart_offset_\<close> of a block that is too small is never read.\<close>

definition Block_new :: "byte list \<Rightarrow> Block outcome" where
  "Block_new contents =
     (let size = length contents; err = \<lparr>bk_data = contents, bk_size = 0, bk_restart_offset = 0\<rparr>
      in if size < 4 then Ret err
         else bindO (NumRestarts contents) (\<lambda>num.
                if unat num > (size - 4) div 4 then Ret err
                else Ret \<lparr>bk_data = contents, bk_size = size,
                          bk_restart_offset = ucast (of_nat size - ucast (1 + num) * 4 :: u64)\<rparr>))"

text \<open>
  \<open>DecodeEntry\<close> on the bytes from \<open>p\<close> up to \<open>limit\<close>: the three lengths and the bytes behind them. The
  sum of the last two is a 32-bit sum.
\<close>

definition DecodeEntry :: "byte list \<Rightarrow> (u32 \<times> u32 \<times> u32 \<times> byte list) option" where
  "DecodeEntry p =
     (if length p < 3 then None
      else
        Option.bind
          (let shared = ucast (p ! 0) :: u32; non_shared = ucast (p ! 1); value_length = ucast (p ! 2)
           in if shared OR non_shared OR value_length < 128 then Some (shared, non_shared, value_length, drop 3 p)
              else Option.bind (GetVarint32Ptr p) (\<lambda>(shared, p).
                   Option.bind (GetVarint32Ptr p) (\<lambda>(non_shared, p).
                   Option.bind (GetVarint32Ptr p) (\<lambda>(value_length, p).
                     Some (shared, non_shared, value_length, p)))))
          (\<lambda>(shared, non_shared, value_length, p).
             if of_nat (length p) < non_shared + value_length then None else Some (shared, non_shared, value_length, p)))"

section \<open>The iterator\<close>

text \<open>
  \<open>value_\<close> is a slice of the block, or the empty slice that points elsewhere before the first
  search and after an error.
\<close>

record BlockIter =
  bi_comparator :: Comparator
  bi_data :: "byte list"
  bi_restarts :: u32
  bi_num_restarts :: u32
  bi_current :: u32
  bi_restart_index :: u32
  bi_key :: "byte list"
  bi_value :: "(nat \<times> nat) option"
  bi_status :: Status

definition BlockIter_new :: "Comparator \<Rightarrow> byte list \<Rightarrow> u32 \<Rightarrow> u32 \<Rightarrow> BlockIter" where
  "BlockIter_new C data restarts num_restarts =
     \<lparr>bi_comparator = C, bi_data = data, bi_restarts = restarts, bi_num_restarts = num_restarts, bi_current = restarts,
      bi_restart_index = num_restarts, bi_key = [], bi_value = None, bi_status = OK\<rparr>"

definition NextEntryOffset :: "BlockIter \<Rightarrow> u32 outcome" where
  "NextEntryOffset it = (case bi_value it of Some (p, n) \<Rightarrow> Ret (of_nat (p + n)) | None \<Rightarrow> UB)"

definition GetRestartPoint :: "BlockIter \<Rightarrow> u32 \<Rightarrow> u32 outcome" where
  "GetRestartPoint it index = DecodeFixed32 (drop (unat (bi_restarts it) + unat index * 4) (bi_data it))"

definition SeekToRestartPoint :: "u32 \<Rightarrow> BlockIter \<Rightarrow> BlockIter outcome" where
  "SeekToRestartPoint index it =
     bindO (GetRestartPoint it index) (\<lambda>offset.
       Ret (it\<lparr>bi_key := [], bi_restart_index := index, bi_value := Some (unat offset, 0)\<rparr>))"

definition BlockIter_Valid :: "BlockIter \<Rightarrow> bool" where
  "BlockIter_Valid it \<longleftrightarrow> bi_current it < bi_restarts it"

definition BlockIter_key :: "BlockIter \<Rightarrow> byte list" where
  "BlockIter_key it = bi_key it"

definition BlockIter_value :: "BlockIter \<Rightarrow> byte list" where
  "BlockIter_value it = (case bi_value it of Some (p, n) \<Rightarrow> take n (drop p (bi_data it)) | None \<Rightarrow> [])"

definition CorruptionError :: "BlockIter \<Rightarrow> BlockIter" where
  "CorruptionError it =
     it\<lparr>bi_current := bi_restarts it, bi_restart_index := bi_num_restarts it, bi_status := Corruption ''bad entry in block'' [],
        bi_key := [], bi_value := None\<rparr>"

lemma word_Suc_unat: "x \<noteq> - 1 \<Longrightarrow> unat (x + 1) = Suc (unat x)" for x :: "'n::len word"
proof -
  assume "x \<noteq> - 1"
  then have "1 + x \<noteq> 0" using minus_unique [of 1 x] by auto
  from unatSuc [OF this] show ?thesis by (simp add: add.commute)
qed

function skip_restarts :: "BlockIter \<Rightarrow> u32 \<Rightarrow> u32 outcome" where
  "skip_restarts it index =
     (if index + 1 < bi_num_restarts it
      then bindO (GetRestartPoint it (index + 1)) (\<lambda>r. if r < bi_current it then skip_restarts it (index + 1) else Ret index)
      else Ret index)"
  by auto
termination
proof (relation "measure (\<lambda>(it, i). if i = - 1 then Suc (unat (bi_num_restarts it)) else unat (bi_num_restarts it) - unat i)",
    simp, goal_cases)
  case (1 it index r)
  show ?case
  proof (cases "index = - 1")
    case False
    have "unat (index + 1) = Suc (unat index)" by (rule word_Suc_unat [OF False])
    moreover have "index + 1 \<noteq> - 1" using 1(1) word_n1_ge [of "bi_num_restarts it"] by fastforce
    ultimately show ?thesis using 1(1) False by (simp add: word_less_nat_alt)
  qed simp
qed

declare skip_restarts.simps [simp del]

text \<open>
  \<open>ParseNextKey\<close>. The bytes of the key are read up to wherever \<open>non_shared\<close> says; beyond the end of the
  block that is undefined.
\<close>

definition ParseNextKey :: "BlockIter \<Rightarrow> (bool \<times> BlockIter) outcome" where
  "ParseNextKey it =
     bindO (NextEntryOffset it) (\<lambda>current.
       let it = it\<lparr>bi_current := current\<rparr>
       in if current \<ge> bi_restarts it
          then Ret (False, it\<lparr>bi_current := bi_restarts it, bi_restart_index := bi_num_restarts it\<rparr>)
          else
            (case DecodeEntry (take (unat (bi_restarts it) - unat current) (drop (unat current) (bi_data it))) of
               None \<Rightarrow> Ret (False, CorruptionError it)
             | Some (shared, non_shared, value_length, rest) \<Rightarrow>
                 if length (bi_key it) < unat shared then Ret (False, CorruptionError it)
                 else
                   let p = unat (bi_restarts it) - length rest
                   in if p + unat non_shared > length (bi_data it) then UB
                      else
                        let it = it\<lparr>bi_key := take (unat shared) (bi_key it) @ take (unat non_shared) (drop p (bi_data it)),
                                    bi_value := Some (p + unat non_shared, unat value_length)\<rparr>
                        in bindO (skip_restarts it (bi_restart_index it)) (\<lambda>index. Ret (True, it\<lparr>bi_restart_index := index\<rparr>))))"

definition BlockIter_Next :: "BlockIter \<Rightarrow> BlockIter outcome" where
  "BlockIter_Next it = bindO (ParseNextKey it) (\<lambda>(_, it). Ret it)"

text \<open>\<open>do { } while (ParseNextKey() && NextEntryOffset() < original);\<close>\<close>

fun parse_until :: "nat \<Rightarrow> u32 \<Rightarrow> BlockIter \<Rightarrow> BlockIter outcome" where
  "parse_until 0 bound it = NoFuel"
| "parse_until (Suc fuel) bound it =
     bindO (ParseNextKey it) (\<lambda>(found, it).
       if \<not> found then Ret it
       else bindO (NextEntryOffset it) (\<lambda>off. if off < bound then parse_until fuel bound it else Ret it))"

definition block_fuel :: "BlockIter \<Rightarrow> nat" where
  "block_fuel it = length (bi_data it) + 1"

text \<open>The first loop of \<open>Prev\<close>: \<open>None\<close> when there is no restart point before \<open>original\<close>.\<close>

function restart_before :: "BlockIter \<Rightarrow> u32 \<Rightarrow> u32 \<Rightarrow> u32 option outcome" where
  "restart_before it original index =
     bindO (GetRestartPoint it index) (\<lambda>r.
       if r \<ge> original then (if index = 0 then Ret None else restart_before it original (index - 1)) else Ret (Some index))"
  by auto
termination
  by (relation "measure (\<lambda>(it, original, index). unat index)") (auto simp: unat_gt_0 word_less_nat_alt unat_minus_one)

declare restart_before.simps [simp del]

definition BlockIter_Prev :: "BlockIter \<Rightarrow> BlockIter outcome" where
  "BlockIter_Prev it =
     bindO (restart_before it (bi_current it) (bi_restart_index it)) (\<lambda>index.
       case index of
         None \<Rightarrow> Ret (it\<lparr>bi_current := bi_restarts it, bi_restart_index := bi_num_restarts it\<rparr>)
       | Some index \<Rightarrow>
           bindO (SeekToRestartPoint index it) (\<lambda>it'. parse_until (block_fuel it) (bi_current it) it'))"

text \<open>The binary search of \<open>Seek\<close>: \<open>None\<close> for a corrupted entry.\<close>

fun seek_search :: "nat \<Rightarrow> BlockIter \<Rightarrow> byte list \<Rightarrow> u32 \<Rightarrow> u32 \<Rightarrow> u32 option outcome" where
  "seek_search 0 it target left right = NoFuel"
| "seek_search (Suc fuel) it target left right =
     (if left < right then
        let mid = (left + right + 1) div 2
        in bindO (GetRestartPoint it mid) (\<lambda>region_offset.
             case DecodeEntry (take (unat (bi_restarts it) - unat region_offset) (drop (unat region_offset) (bi_data it))) of
               None \<Rightarrow> Ret None
             | Some (shared, non_shared, value_length, rest) \<Rightarrow>
                 if shared \<noteq> 0 then Ret None
                 else
                   let p = unat (bi_restarts it) - length rest
                   in if p + unat non_shared > length (bi_data it) then UB
                      else
                        bindO (Compare (bi_comparator it) (take (unat non_shared) (drop p (bi_data it))) target) (\<lambda>r.
                          if r < 0 then seek_search fuel it target mid right
                          else seek_search fuel it target left (mid - 1)))
      else Ret (Some left))"

fun seek_scan :: "nat \<Rightarrow> byte list \<Rightarrow> BlockIter \<Rightarrow> BlockIter outcome" where
  "seek_scan 0 target it = NoFuel"
| "seek_scan (Suc fuel) target it =
     bindO (ParseNextKey it) (\<lambda>(found, it).
       if \<not> found then Ret it
       else bindO (Compare (bi_comparator it) (bi_key it) target) (\<lambda>r. if r \<ge> 0 then Ret it else seek_scan fuel target it))"

definition BlockIter_Seek :: "byte list \<Rightarrow> BlockIter \<Rightarrow> BlockIter outcome" where
  "BlockIter_Seek target it =
     bindO (seek_search (unat (bi_num_restarts it)) it target 0 (bi_num_restarts it - 1)) (\<lambda>left.
       case left of
         None \<Rightarrow> Ret (CorruptionError it)
       | Some left \<Rightarrow> bindO (SeekToRestartPoint left it) (seek_scan (block_fuel it) target))"

definition BlockIter_SeekToFirst :: "BlockIter \<Rightarrow> BlockIter outcome" where
  "BlockIter_SeekToFirst it = bindO (SeekToRestartPoint 0 it) BlockIter_Next"

definition BlockIter_SeekToLast :: "BlockIter \<Rightarrow> BlockIter outcome" where
  "BlockIter_SeekToLast it =
     bindO (SeekToRestartPoint (bi_num_restarts it - 1) it) (\<lambda>it'. parse_until (block_fuel it) (bi_restarts it) it')"

text \<open>What \<open>NewIterator\<close> returns: an iterator that only has an error, an empty one, or one over the entries.\<close>

datatype NewIterator = NewErrorIterator Status | NewEmptyIterator | BlockIterator BlockIter

definition Block_NewIterator :: "Comparator \<Rightarrow> Block \<Rightarrow> NewIterator outcome" where
  "Block_NewIterator C b =
     (if bk_size b < 4 then Ret (NewErrorIterator (Corruption ''bad block contents'' []))
      else bindO (NumRestarts (bk_data b)) (\<lambda>num.
             Ret (if num = 0 then NewEmptyIterator else BlockIterator (BlockIter_new C (bk_data b) (bk_restart_offset b) num))))"

end
