(* ===== verification/Table_Format.thy ===== *)
theory Table_Format
  imports Crc32c Env_Posix Block
begin

text \<open>
  The parts of a table file (\<open>table/format.cc\<close>, \<open>table/format.h\<close>): handles of blocks, the footer, and
  reading a block with its checksum, over files with random access (\<open>util/env_posix.cc\<close>). The pod
  is built without the snappy library, so that \<open>port_stdcxx.h\<close> has no compression.
\<close>

section \<open>Block handles\<close>

record BlockHandle =
  bh_offset :: u64
  bh_size :: u64

definition BlockHandle_new :: BlockHandle where
  "BlockHandle_new = \<lparr>bh_offset = NOT 0, bh_size = NOT 0\<rparr>"

definition BlockHandle_EncodeTo :: "BlockHandle \<Rightarrow> byte list \<Rightarrow> byte list" where
  "BlockHandle_EncodeTo h dst = PutVarint64 (PutVarint64 dst (bh_offset h)) (bh_size h)"

definition BlockHandle_DecodeFrom :: "byte list \<Rightarrow> BlockHandle \<Rightarrow> Status \<times> byte list \<times> BlockHandle" where
  "BlockHandle_DecodeFrom input h =
     (case GetVarint64 input of
        None \<Rightarrow> (Corruption ''bad block handle'' [], input, h)
      | Some (off, input) \<Rightarrow>
          (case GetVarint64 input of
             None \<Rightarrow> (Corruption ''bad block handle'' [], input, h\<lparr>bh_offset := off\<rparr>)
           | Some (sz, input) \<Rightarrow> (OK, input, h\<lparr>bh_offset := off, bh_size := sz\<rparr>)))"

section \<open>The footer\<close>

record Footer =
  metaindex_handle :: BlockHandle
  index_handle :: BlockHandle

abbreviation (input) kMaxEncodedLength :: nat where "kMaxEncodedLength \<equiv> 20"
abbreviation (input) kEncodedLength :: nat where "kEncodedLength \<equiv> 48"

definition kTableMagicNumber :: u64 where "kTableMagicNumber = 0xdb4775248b80fb57"

text \<open>\<open>std::string::resize\<close> cuts, or fills with zeros.\<close>

definition resize :: "nat \<Rightarrow> byte list \<Rightarrow> byte list" where
  "resize n bs = take n bs @ replicate (n - length bs) 0"

definition Footer_EncodeTo :: "Footer \<Rightarrow> byte list \<Rightarrow> byte list" where
  "Footer_EncodeTo f dst =
     (let dst = BlockHandle_EncodeTo (metaindex_handle f) dst;
          dst = BlockHandle_EncodeTo (index_handle f) dst;
          dst = resize (2 * kMaxEncodedLength) dst;
          dst = PutFixed32 dst (ucast (kTableMagicNumber AND 0xffffffff))
      in PutFixed32 dst (ucast (drop_bit 32 kTableMagicNumber)))"

definition Footer_DecodeFrom :: "byte list \<Rightarrow> (Status \<times> byte list \<times> Footer) outcome" where
  "Footer_DecodeFrom input =
     (let footer = \<lparr>metaindex_handle = BlockHandle_new, index_handle = BlockHandle_new\<rparr>
      in bindO (DecodeFixed32 (drop (kEncodedLength - 8) input)) (\<lambda>magic_lo.
         bindO (DecodeFixed32 (drop (kEncodedLength - 8 + 4) input)) (\<lambda>magic_hi.
           let magic = push_bit 32 (ucast magic_hi) OR ucast magic_lo
           in if magic \<noteq> kTableMagicNumber then Ret (Corruption ''not an sstable (bad magic number)'' [], input, footer)
              else
                case BlockHandle_DecodeFrom input BlockHandle_new of (s, input1, m) \<Rightarrow>
                  if \<not> ok s then Ret (s, input1, footer\<lparr>metaindex_handle := m\<rparr>)
                  else
                    case BlockHandle_DecodeFrom input1 BlockHandle_new of (s, input2, i) \<Rightarrow>
                      Ret (s, if ok s then drop kEncodedLength input else input2, \<lparr>metaindex_handle = m, index_handle = i\<rparr>))))"

section \<open>Files with random access\<close>

text \<open>
  The flag of a result says whether the bytes are in the buffer that the caller gave. A file is not
  changed by reading.
\<close>

type_synonym RandomAccessFile = "u64 \<Rightarrow> u64 \<Rightarrow> (Status \<times> byte list \<times> bool) outcome"

definition EINVAL :: errno where "EINVAL = 22"

text \<open>\<open>offset + n\<close> is a 64-bit sum; a slice of the mapping that it lets pass lies outside of it.\<close>

definition PosixMmapReadableFile_Read :: "(errno \<Rightarrow> string) \<Rightarrow> string \<Rightarrow> byte list \<Rightarrow> RandomAccessFile" where
  "PosixMmapReadableFile_Read se filename mapped offset n =
     (if offset + n > of_nat (length mapped) then Ret (PosixError se filename EINVAL, [], False)
      else if unat offset + unat n > length mapped then UB
      else Ret (OK, take (unat n) (drop (unat offset) mapped), False))"

text \<open>\<open>open\<close> and \<open>pread\<close> are the other party: an error number, or the bytes that were read.\<close>

definition PosixRandomAccessFile_Read ::
  "(errno \<Rightarrow> string) \<Rightarrow> string \<Rightarrow> bool \<Rightarrow> errno option \<Rightarrow> (u64 \<Rightarrow> u64 \<Rightarrow> errno + byte list) \<Rightarrow> RandomAccessFile" where
  "PosixRandomAccessFile_Read se filename has_permanent_fd sys_open sys_pread offset n =
     (case (if has_permanent_fd then None else sys_open) of
        Some e \<Rightarrow> Ret (PosixError se filename e, [], False)
      | None \<Rightarrow>
          (case sys_pread n offset of
             Inl e \<Rightarrow> Ret (PosixError se filename e, [], True)
           | Inr bs \<Rightarrow> Ret (OK, bs, True)))"

section \<open>Reading a block\<close>

datatype CompressionType = kNoCompression | kSnappyCompression

fun compression_byte :: "CompressionType \<Rightarrow> byte" where
  "compression_byte kNoCompression = 0"
| "compression_byte kSnappyCompression = 1"

definition Snappy_Compress :: "byte list \<Rightarrow> byte list option" where
  "Snappy_Compress input = None"

definition Snappy_GetUncompressedLength :: "byte list \<Rightarrow> nat option" where
  "Snappy_GetUncompressedLength input = None"

definition Snappy_Uncompress :: "byte list \<Rightarrow> byte list option" where
  "Snappy_Uncompress input = None"

record BlockContents =
  bc_data :: "byte list"
  bc_cachable :: bool
  bc_heap_allocated :: bool

record ReadOptions =
  verify_checksums :: bool
  fill_cache :: bool

abbreviation (input) kBlockTrailerSize :: nat where "kBlockTrailerSize \<equiv> 5"

text \<open>\<open>place\<close> says where a buffer lies in memory; the checksum looks at the address.\<close>

definition ReadBlock :: "(byte list \<Rightarrow> addr) \<Rightarrow> RandomAccessFile \<Rightarrow> ReadOptions \<Rightarrow> BlockHandle \<Rightarrow> (Status \<times> BlockContents) outcome" where
  "ReadBlock place file options handle =
     (let result = \<lparr>bc_data = [], bc_cachable = False, bc_heap_allocated = False\<rparr>;
          n = bh_size handle
      in bindO (file (bh_offset handle) (n + of_nat kBlockTrailerSize)) (\<lambda>(s, contents, in_buf).
           if \<not> ok s then Ret (s, result)
           else if of_nat (length contents) \<noteq> n + of_nat kBlockTrailerSize then Ret (Corruption ''truncated block read'' [], result)
           else
             bindO (if verify_checksums options
                    then bindO (DecodeFixed32 (drop (unat n + 1) contents)) (\<lambda>stored.
                         bindO (crc_Value (place contents) (take (unat n + 1) contents)) (\<lambda>actual. Ret (actual = Unmask stored)))
                    else Ret True) (\<lambda>crc_ok.
               if \<not> crc_ok then Ret (Corruption ''block checksum mismatch'' [], result)
               else if unat n \<ge> length contents then UB
               else if contents ! unat n = compression_byte kNoCompression
               then Ret (OK, \<lparr>bc_data = take (unat n) contents, bc_cachable = in_buf, bc_heap_allocated = in_buf\<rparr>)
               else if contents ! unat n = compression_byte kSnappyCompression
               then (case Option.bind (Snappy_GetUncompressedLength (take (unat n) contents)) (\<lambda>_. Snappy_Uncompress (take (unat n) contents)) of
                       None \<Rightarrow> Ret (Corruption ''corrupted compressed block contents'' [], result)
                     | Some data \<Rightarrow> Ret (OK, \<lparr>bc_data = data, bc_cachable = True, bc_heap_allocated = True\<rparr>))
               else Ret (Corruption ''bad block type'' [], result))))"

section \<open>Round trips\<close>

definition handle_bytes :: "BlockHandle \<Rightarrow> byte list" where
  "handle_bytes h = varint (unat (bh_offset h)) @ varint (unat (bh_size h))"

lemma BlockHandle_EncodeTo_eq: "BlockHandle_EncodeTo h dst = dst @ handle_bytes h"
  by (simp add: BlockHandle_EncodeTo_def PutVarint64_def EncodeVarint64_eq handle_bytes_def)

lemma BlockHandle_DecodeFrom_bytes: "BlockHandle_DecodeFrom (handle_bytes h @ rest) h0 = (OK, rest, h)"
  by (simp add: BlockHandle_DecodeFrom_def handle_bytes_def GetVarint64_varint)

lemma handle_bytes_length: "length (handle_bytes h) \<le> 20"
proof -
  have "length (varint (unat v)) \<le> 10" for v :: u64
    using unsigned_less [of v, where 'a = nat] by (intro length_varint) simp_all
  from add_mono [OF this this] show ?thesis by (simp add: handle_bytes_def)
qed

lemma Footer_EncodeTo_length: "length (Footer_EncodeTo f []) = 48"
  using handle_bytes_length [of "metaindex_handle f"] handle_bytes_length [of "index_handle f"]
  by (simp add: Footer_EncodeTo_def Let_def BlockHandle_EncodeTo_eq resize_def PutFixed32_def)

lemma Footer_round_trip: "Footer_DecodeFrom (Footer_EncodeTo f [] @ rest) = Ret (OK, rest, f)"
proof -
  let ?h = "handle_bytes (metaindex_handle f) @ handle_bytes (index_handle f)"
  let ?lo = "ucast (kTableMagicNumber AND 0xffffffff) :: u32" and ?hi = "ucast (drop_bit 32 kTableMagicNumber) :: u32"
  have l: "length ?h \<le> 40" using handle_bytes_length [of "metaindex_handle f"] handle_bytes_length [of "index_handle f"] by simp
  have e: "Footer_EncodeTo f [] @ rest = (?h @ replicate (40 - length ?h) 0) @ EncodeFixed32 ?lo @ EncodeFixed32 ?hi @ rest" (is "?e = ?p @ _")
    using l by (simp add: Footer_EncodeTo_def Let_def BlockHandle_EncodeTo_eq resize_def PutFixed32_def)
  have p: "length ?p = 40" using l by simp
  have d: "DecodeFixed32 (drop 40 ?e) = Ret ?lo" "DecodeFixed32 (drop 44 ?e) = Ret ?hi" "drop 48 ?e = rest"
    using p unfolding e by (simp_all del: append_assoc)
  have m: "push_bit 32 (ucast ?hi) OR ucast ?lo = kTableMagicNumber" by (simp add: kTableMagicNumber_def)
  have h: "BlockHandle_DecodeFrom ?e BlockHandle_new =
      (OK, handle_bytes (index_handle f) @ replicate (40 - length ?h) 0 @ EncodeFixed32 ?lo @ EncodeFixed32 ?hi @ rest, metaindex_handle f)"
    unfolding e using BlockHandle_DecodeFrom_bytes [of "metaindex_handle f"] by simp
  show ?thesis
    unfolding Footer_DecodeFrom_def Let_def using d m by (simp add: h BlockHandle_DecodeFrom_bytes ok_def)
qed

section \<open>Stored blocks\<close>

text \<open>A block on disk: its contents, the compression type, and the masked checksum of both.\<close>

definition stored_block :: "byte list \<Rightarrow> byte list" where
  "stored_block b = b @ [0] @ EncodeFixed32 (Mask (crc32c 0 (b @ [0])))"

lemma stored_block_length [simp]: "length (stored_block b) = length b + 5"
  by (simp add: stored_block_def)

text \<open>What a client may rely on: a range inside of the file is read as it is there.\<close>

locale random_access_file =
  fixes R :: RandomAccessFile and data :: "byte list"
  assumes read: "length data < 2 ^ 63 \<Longrightarrow> unat off + unat n \<le> length data \<Longrightarrow>
    \<exists>b. R off n = Ret (OK, take (unat n) (drop (unat off) data), b)"
begin

lemma ReadBlock_stored:
  assumes "length data < 2 ^ 63" "data = pre @ stored_block b @ post" "unat (bh_offset h) = length pre" "unat (bh_size h) = length b"
  shows "\<exists>c. ReadBlock place R options h = Ret (OK, c) \<and> bc_data c = b"
proof -
  let ?n = "bh_size h + 5"
  have "length b + 5 < 2 ^ 64" using assms(1,2) by simp
  then have n: "unat ?n = length b + 5" using assms(4) by (simp add: unat_word_ariths)
  have "unat (bh_offset h) + unat ?n \<le> length data" using assms(2,3) n by simp
  from read [OF assms(1) this] obtain c where c: "R (bh_offset h) ?n = Ret (OK, stored_block b, c)"
    unfolding n assms(2,3) by auto
  have w: "word_of_nat (length b + 5) = ?n" using n by (metis of_nat_unat ucast_id)
  have crc: "DecodeFixed32 (drop (length b + 1) (stored_block b)) = Ret (Mask (crc32c 0 (b @ [0])))" "take (length b + 1) (stored_block b) = b @ [0]"
    "stored_block b ! length b = 0" "take (length b) (stored_block b) = b"
    using DecodeFixed_Encode(1) [of "Mask (crc32c 0 (b @ [0]))" "[]"] by (simp_all add: stored_block_def)
  have "ReadBlock place R options h = Ret (OK, \<lparr>bc_data = b, bc_cachable = c, bc_heap_allocated = c\<rparr>)"
    unfolding ReadBlock_def Let_def using c w
    by (cases "verify_checksums options") (simp_all add: ok_def assms(4) crc [simplified] crc_Value_eq Unmask_Mask)
  then show ?thesis by simp
qed

end

interpretation mmap: random_access_file "PosixMmapReadableFile_Read se filename mapped" mapped for se filename mapped
proof
  fix off n :: u64 assume a: "length mapped < 2 ^ 63" "unat off + unat n \<le> length mapped"
  then have "unat (off + n) = unat off + unat n" by (simp add: unat_word_ariths)
  with a show "\<exists>b. PosixMmapReadableFile_Read se filename mapped off n = Ret (OK, take (unat n) (drop (unat off) mapped), b)"
    by (intro exI [of _ False]) (simp add: PosixMmapReadableFile_Read_def word_less_nat_alt not_less)
qed

end
