(* ===== verification/Table_Builder.thy ===== *)
theory Table_Builder
  imports Table_Format Filter_Block
begin

text \<open>
  Building a table file (\<open>table/table_builder.cc\<close>): data blocks that are written out when they are full,
  an index block with a separator key for each of them, the filter block, and the footer. An index
  entry is written only when the first key of the next block is known, so that the separator can be
  short.
\<close>

section \<open>State\<close>

text \<open>The filter policy comes with its name.\<close>

record Options =
  op_comparator :: Comparator
  op_block_size :: nat
  op_block_restart_interval :: int
  op_compression :: CompressionType
  op_filter_policy :: "(byte list \<times> FilterPolicy) option"
  op_paranoid_checks :: bool

record 'f TableBuilder =
  tb_options :: Options
  tb_file :: 'f
  tb_offset :: u64
  tb_status :: Status
  tb_data_block :: BlockBuilder
  tb_index_block :: BlockBuilder
  tb_last_key :: "byte list"
  tb_num_entries :: int
  tb_closed :: bool
  tb_filter_block :: "(FilterPolicy \<times> FilterBlockBuilder) option"
  tb_pending_index_entry :: bool
  tb_pending_handle :: BlockHandle

abbreviation (input) index_restart_interval :: int where "index_restart_interval \<equiv> 1"

section \<open>The filter\<close>

definition filter_StartBlock :: "'f TableBuilder \<Rightarrow> 'f TableBuilder outcome" where
  "filter_StartBlock r =
     (case tb_filter_block r of
        None \<Rightarrow> Ret r
      | Some (P, b) \<Rightarrow> bindO (StartBlock P (tb_offset r) b) (\<lambda>b. Ret (r\<lparr>tb_filter_block := Some (P, b)\<rparr>)))"

definition TableBuilder_new :: "Options \<Rightarrow> 'f \<Rightarrow> 'f TableBuilder outcome" where
  "TableBuilder_new options file =
     filter_StartBlock
       \<lparr>tb_options = options, tb_file = file, tb_offset = 0, tb_status = OK, tb_data_block = BlockBuilder_new,
        tb_index_block = BlockBuilder_new, tb_last_key = [], tb_num_entries = 0, tb_closed = False,
        tb_filter_block = map_option (\<lambda>(name, P). (P, FilterBlockBuilder_new)) (op_filter_policy options),
        tb_pending_index_entry = False, tb_pending_handle = BlockHandle_new\<rparr>"

section \<open>Writing blocks\<close>

definition WriteRawBlock ::
  "'f WritableFile \<Rightarrow> (byte list \<Rightarrow> addr) \<Rightarrow> byte list \<Rightarrow> CompressionType \<Rightarrow> 'f TableBuilder \<Rightarrow> (BlockHandle \<times> 'f TableBuilder) outcome" where
  "WriteRawBlock F place block_contents type r =
     (let handle = \<lparr>bh_offset = tb_offset r, bh_size = of_nat (length block_contents)\<rparr>
      in case Append F (tb_file r) block_contents of (s, file) \<Rightarrow>
           if ok s then
             bindO (crc_Value (place block_contents) block_contents) (\<lambda>crc.
             bindO (Extend crc (place [compression_byte type]) [compression_byte type]) (\<lambda>crc.
               case Append F file (compression_byte type # EncodeFixed32 (Mask crc)) of (s, file) \<Rightarrow>
                 Ret (handle, r\<lparr>tb_file := file, tb_status := s,
                   tb_offset := (if ok s then tb_offset r + of_nat (length block_contents + kBlockTrailerSize) else tb_offset r)\<rparr>)))
           else Ret (handle, r\<lparr>tb_file := file, tb_status := s\<rparr>))"

text \<open>The block to store, and how it is compressed.\<close>

definition choose_compression :: "CompressionType \<Rightarrow> byte list \<Rightarrow> byte list \<times> CompressionType" where
  "choose_compression type raw =
     (case type of
        kNoCompression \<Rightarrow> (raw, kNoCompression)
      | kSnappyCompression \<Rightarrow>
          (case Snappy_Compress raw of
             Some compressed \<Rightarrow>
               if length compressed < length raw - length raw div 8 then (compressed, kSnappyCompression) else (raw, kNoCompression)
           | None \<Rightarrow> (raw, kNoCompression)))"

definition WriteBlock ::
  "'f WritableFile \<Rightarrow> (byte list \<Rightarrow> addr) \<Rightarrow> BlockBuilder \<Rightarrow> 'f TableBuilder \<Rightarrow> (BlockHandle \<times> BlockBuilder \<times> 'f TableBuilder) outcome" where
  "WriteBlock F place block r =
     (case BlockBuilder_Finish block of (raw, block) \<Rightarrow>
      case choose_compression (op_compression (tb_options r)) raw of (block_contents, type) \<Rightarrow>
        bindO (WriteRawBlock F place block_contents type r) (\<lambda>(handle, r). Ret (handle, BlockBuilder_Reset block, r)))"

section \<open>Adding entries\<close>

definition TableBuilder_Flush :: "'f WritableFile \<Rightarrow> (byte list \<Rightarrow> addr) \<Rightarrow> 'f TableBuilder \<Rightarrow> 'f TableBuilder outcome" where
  "TableBuilder_Flush F place r =
     (if \<not> ok (tb_status r) then Ret r
      else if BlockBuilder_empty (tb_data_block r) then Ret r
      else
        bindO (WriteBlock F place (tb_data_block r) r) (\<lambda>(handle, block, r).
          let r = r\<lparr>tb_pending_handle := handle, tb_data_block := block\<rparr>;
              r = (if ok (tb_status r)
                   then case Flush F (tb_file r) of (s, file) \<Rightarrow> r\<lparr>tb_pending_index_entry := True, tb_status := s, tb_file := file\<rparr>
                   else r)
          in filter_StartBlock r))"

text \<open>The index entry of the block before; \<open>shorten\<close> is \<open>FindShortestSeparator\<close> or \<open>FindShortSuccessor\<close>.\<close>

definition add_index_entry :: "(byte list \<Rightarrow> byte list outcome) \<Rightarrow> 'f TableBuilder \<Rightarrow> 'f TableBuilder outcome" where
  "add_index_entry shorten r =
     (if tb_pending_index_entry r then
        bindO (shorten (tb_last_key r)) (\<lambda>last_key.
          Ret (r\<lparr>tb_last_key := last_key,
                 tb_index_block := BlockBuilder_Add index_restart_interval last_key (BlockHandle_EncodeTo (tb_pending_handle r) []) (tb_index_block r),
                 tb_pending_index_entry := False\<rparr>))
      else Ret r)"

definition TableBuilder_Add ::
  "'f WritableFile \<Rightarrow> (byte list \<Rightarrow> addr) \<Rightarrow> byte list \<Rightarrow> byte list \<Rightarrow> 'f TableBuilder \<Rightarrow> 'f TableBuilder outcome" where
  "TableBuilder_Add F place key val r =
     (if \<not> ok (tb_status r) then Ret r
      else
        bindO (add_index_entry (\<lambda>last_key. FindShortestSeparator (op_comparator (tb_options r)) last_key key) r) (\<lambda>r.
          let r = r\<lparr>tb_filter_block := map_option (\<lambda>(P, b). (P, AddKey key b)) (tb_filter_block r),
                    tb_last_key := key,
                    tb_num_entries := tb_num_entries r + 1,
                    tb_data_block := BlockBuilder_Add (op_block_restart_interval (tb_options r)) key val (tb_data_block r)\<rparr>
          in if CurrentSizeEstimate (tb_data_block r) \<ge> op_block_size (tb_options r) then TableBuilder_Flush F place r else Ret r))"

section \<open>Finishing the table\<close>

definition write_filter_block :: "'f WritableFile \<Rightarrow> (byte list \<Rightarrow> addr) \<Rightarrow> 'f TableBuilder \<Rightarrow> (BlockHandle \<times> 'f TableBuilder) outcome" where
  "write_filter_block F place r =
     (case tb_filter_block r of
        Some (P, b) \<Rightarrow>
          if ok (tb_status r)
          then bindO (FilterBlock_Finish P b) (\<lambda>contents. WriteRawBlock F place contents kNoCompression r)
          else Ret (BlockHandle_new, r)
      | None \<Rightarrow> Ret (BlockHandle_new, r))"

definition filter_key :: "byte list \<Rightarrow> byte list" where
  "filter_key name = map (of_nat \<circ> of_char) ''filter.'' @ name"

definition write_metaindex_block ::
  "'f WritableFile \<Rightarrow> (byte list \<Rightarrow> addr) \<Rightarrow> BlockHandle \<Rightarrow> 'f TableBuilder \<Rightarrow> (BlockHandle \<times> 'f TableBuilder) outcome" where
  "write_metaindex_block F place filter_block_handle r =
     (if ok (tb_status r) then
        let meta_index_block =
              (case (tb_filter_block r, op_filter_policy (tb_options r)) of
                 (Some _, Some (name, _)) \<Rightarrow>
                   BlockBuilder_Add (op_block_restart_interval (tb_options r)) (filter_key name) (BlockHandle_EncodeTo filter_block_handle []) BlockBuilder_new
               | _ \<Rightarrow> BlockBuilder_new)
        in bindO (WriteBlock F place meta_index_block r) (\<lambda>(handle, _, r). Ret (handle, r))
      else Ret (BlockHandle_new, r))"

definition write_index_block :: "'f WritableFile \<Rightarrow> (byte list \<Rightarrow> addr) \<Rightarrow> 'f TableBuilder \<Rightarrow> (BlockHandle \<times> 'f TableBuilder) outcome" where
  "write_index_block F place r =
     (if ok (tb_status r) then
        bindO (add_index_entry (FindShortSuccessor (op_comparator (tb_options r))) r) (\<lambda>r.
        bindO (WriteBlock F place (tb_index_block r) r) (\<lambda>(handle, block, r). Ret (handle, r\<lparr>tb_index_block := block\<rparr>)))
      else Ret (BlockHandle_new, r))"

definition write_footer :: "'f WritableFile \<Rightarrow> BlockHandle \<Rightarrow> BlockHandle \<Rightarrow> 'f TableBuilder \<Rightarrow> 'f TableBuilder" where
  "write_footer F metaindex_block_handle index_block_handle r =
     (if ok (tb_status r) then
        let footer_encoding = Footer_EncodeTo \<lparr>metaindex_handle = metaindex_block_handle, index_handle = index_block_handle\<rparr> []
        in case Append F (tb_file r) footer_encoding of (s, file) \<Rightarrow>
             r\<lparr>tb_file := file, tb_status := s, tb_offset := (if ok s then tb_offset r + of_nat (length footer_encoding) else tb_offset r)\<rparr>
      else r)"

definition TableBuilder_Finish :: "'f WritableFile \<Rightarrow> (byte list \<Rightarrow> addr) \<Rightarrow> 'f TableBuilder \<Rightarrow> (Status \<times> 'f TableBuilder) outcome" where
  "TableBuilder_Finish F place r =
     bindO (TableBuilder_Flush F place r) (\<lambda>r.
     bindO (write_filter_block F place (r\<lparr>tb_closed := True\<rparr>)) (\<lambda>(filter_block_handle, r).
     bindO (write_metaindex_block F place filter_block_handle r) (\<lambda>(metaindex_block_handle, r).
     bindO (write_index_block F place r) (\<lambda>(index_block_handle, r).
       let r = write_footer F metaindex_block_handle index_block_handle r
       in Ret (tb_status r, r)))))"

definition TableBuilder_Abandon :: "'f TableBuilder \<Rightarrow> 'f TableBuilder" where
  "TableBuilder_Abandon r = r\<lparr>tb_closed := True\<rparr>"

definition TableBuilder_NumEntries :: "'f TableBuilder \<Rightarrow> u64" where
  "TableBuilder_NumEntries r = of_int (tb_num_entries r)"

definition TableBuilder_FileSize :: "'f TableBuilder \<Rightarrow> u64" where
  "TableBuilder_FileSize r = tb_offset r"

end
