(* ===== verification/Table_Reader.thy ===== *)
theory Table_Reader
  imports Table_Builder
begin

text \<open>
  Reading a table file (\<open>table/table.cc\<close>): opening it, with the index block and the filter, and looking
  a key up. The iterator over a block is the one of \<open>Block\<close>, or an empty one (\<open>table/iterator.cc\<close>).
\<close>

section \<open>Iterators over a block\<close>

fun Iterator_Seek :: "byte list \<Rightarrow> NewIterator \<Rightarrow> NewIterator outcome" where
  "Iterator_Seek target (BlockIterator it) = bindO (BlockIter_Seek target it) (\<lambda>it. Ret (BlockIterator it))"
| "Iterator_Seek target it = Ret it"

fun Iterator_Valid :: "NewIterator \<Rightarrow> bool" where
  "Iterator_Valid (BlockIterator it) = BlockIter_Valid it"
| "Iterator_Valid it = False"

text \<open>Asking an iterator that is not valid for its entry fails an assertion; the code then returns an empty slice.\<close>

fun Iterator_key :: "NewIterator \<Rightarrow> byte list" where
  "Iterator_key (BlockIterator it) = BlockIter_key it"
| "Iterator_key it = []"

fun Iterator_value :: "NewIterator \<Rightarrow> byte list" where
  "Iterator_value (BlockIterator it) = BlockIter_value it"
| "Iterator_value it = []"

fun Iterator_status :: "NewIterator \<Rightarrow> Status" where
  "Iterator_status (BlockIterator it) = bi_status it"
| "Iterator_status (NewErrorIterator s) = s"
| "Iterator_status NewEmptyIterator = OK"

section \<open>Opening a table\<close>

record Table =
  tr_options :: Options
  tr_file :: RandomAccessFile
  tr_cache_id :: u64
  tr_filter :: "(FilterPolicy \<times> FilterBlockReader) option"
  tr_metaindex_handle :: BlockHandle
  tr_index_block :: Block

definition meta_options :: "Options \<Rightarrow> ReadOptions" where
  "meta_options options = \<lparr>verify_checksums = op_paranoid_checks options, fill_cache = True\<rparr>"

definition ReadFilter :: "(byte list \<Rightarrow> addr) \<Rightarrow> byte list \<Rightarrow> FilterPolicy \<Rightarrow> Table \<Rightarrow> Table outcome" where
  "ReadFilter place filter_handle_value P t =
     (case BlockHandle_DecodeFrom filter_handle_value BlockHandle_new of (s, _, filter_handle) \<Rightarrow>
        if \<not> ok s then Ret t
        else
          bindO (ReadBlock place (tr_file t) (meta_options (tr_options t)) filter_handle) (\<lambda>(s, block).
            if \<not> ok s then Ret t
            else bindO (FilterBlockReader_new (bc_data block)) (\<lambda>reader. Ret (t\<lparr>tr_filter := Some (P, reader)\<rparr>))))"

definition ReadMeta :: "(byte list \<Rightarrow> addr) \<Rightarrow> Footer \<Rightarrow> Table \<Rightarrow> Table outcome" where
  "ReadMeta place footer t =
     (case op_filter_policy (tr_options t) of
        None \<Rightarrow> Ret t
      | Some (name, P) \<Rightarrow>
          bindO (ReadBlock place (tr_file t) (meta_options (tr_options t)) (metaindex_handle footer)) (\<lambda>(s, contents).
            if \<not> ok s then Ret t
            else
              bindO (Block_new (bc_data contents)) (\<lambda>meta.
              bindO (Block_NewIterator BytewiseComparator meta) (\<lambda>iter.
              bindO (Iterator_Seek (filter_key name) iter) (\<lambda>iter.
                if Iterator_Valid iter \<and> Iterator_key iter = filter_key name
                then ReadFilter place (Iterator_value iter) P t else Ret t)))))"

text \<open>\<open>cache_id\<close> is what \<open>options.block_cache->NewId()\<close> returns, or zero.\<close>

definition Table_Open :: "(byte list \<Rightarrow> addr) \<Rightarrow> u64 \<Rightarrow> Options \<Rightarrow> RandomAccessFile \<Rightarrow> u64 \<Rightarrow> (Status \<times> Table option) outcome" where
  "Table_Open place cache_id options file size_of_file =
     (if size_of_file < of_nat kEncodedLength then Ret (Corruption ''file is too short to be an sstable'' [], None)
      else
        bindO (file (size_of_file - of_nat kEncodedLength) (of_nat kEncodedLength)) (\<lambda>(s, footer_input, _).
          if \<not> ok s then Ret (s, None)
          else
            bindO (Footer_DecodeFrom footer_input) (\<lambda>(s, _, footer).
              if \<not> ok s then Ret (s, None)
              else
                bindO (ReadBlock place file (meta_options options) (index_handle footer)) (\<lambda>(s, contents).
                  if \<not> ok s then Ret (s, None)
                  else
                    bindO (Block_new (bc_data contents)) (\<lambda>index_block.
                    bindO (ReadMeta place footer
                      \<lparr>tr_options = options, tr_file = file, tr_cache_id = cache_id, tr_filter = None,
                       tr_metaindex_handle = metaindex_handle footer, tr_index_block = index_block\<rparr>) (\<lambda>t.
                      Ret (s, Some t)))))))"

section \<open>Looking a key up\<close>

text \<open>The block cache (\<open>include/leveldb/cache.h\<close>), as far as tables use it; \<open>'c\<close> is its state.\<close>

record 'c Cache =
  Cache_Lookup :: "byte list \<Rightarrow> 'c \<Rightarrow> Block option \<times> 'c"
  Cache_Insert :: "byte list \<Rightarrow> Block \<Rightarrow> nat \<Rightarrow> 'c \<Rightarrow> 'c"

definition read_uncached :: "(byte list \<Rightarrow> addr) \<Rightarrow> Table \<Rightarrow> ReadOptions \<Rightarrow> BlockHandle \<Rightarrow> (Status \<times> (Block \<times> bool) option) outcome" where
  "read_uncached place t options handle =
     bindO (ReadBlock place (tr_file t) options handle) (\<lambda>(s, contents).
       if ok s then bindO (Block_new (bc_data contents)) (\<lambda>block. Ret (s, Some (block, bc_cachable contents)))
       else Ret (s, None))"

definition Table_BlockReader ::
  "(byte list \<Rightarrow> addr) \<Rightarrow> 'c Cache option \<Rightarrow> Table \<Rightarrow> ReadOptions \<Rightarrow> byte list \<Rightarrow> 'c \<Rightarrow> (NewIterator \<times> 'c) outcome" where
  "Table_BlockReader place block_cache t options index_value c =
     (case BlockHandle_DecodeFrom index_value BlockHandle_new of (s, _, handle) \<Rightarrow>
        bindO
          (if \<not> ok s then Ret (s, None, c)
           else
             case block_cache of
               None \<Rightarrow> bindO (read_uncached place t options handle) (\<lambda>(s, b). Ret (s, map_option fst b, c))
             | Some K \<Rightarrow>
                 let key = EncodeFixed64 (tr_cache_id t) @ EncodeFixed64 (bh_offset handle)
                 in case Cache_Lookup K key c of
                      (Some block, c) \<Rightarrow> Ret (s, Some block, c)
                    | (None, c) \<Rightarrow>
                        bindO (read_uncached place t options handle) (\<lambda>(s, b).
                          Ret (s, map_option fst b,
                            case b of
                              Some (block, cachable) \<Rightarrow> if cachable \<and> fill_cache options then Cache_Insert K key block (bk_size block) c else c
                            | None \<Rightarrow> c)))
          (\<lambda>(s, block, c).
             case block of
               Some block \<Rightarrow> bindO (Block_NewIterator (op_comparator (tr_options t)) block) (\<lambda>iter. Ret (iter, c))
             | None \<Rightarrow> Ret (NewErrorIterator s, c)))"

text \<open>\<open>InternalGet\<close>: the status and the entry that \<open>handle_result\<close> is called with, if any.\<close>

definition Table_InternalGet ::
  "(byte list \<Rightarrow> addr) \<Rightarrow> 'c Cache option \<Rightarrow> Table \<Rightarrow> ReadOptions \<Rightarrow> byte list \<Rightarrow> 'c \<Rightarrow>
    (Status \<times> (byte list \<times> byte list) option \<times> 'c) outcome" where
  "Table_InternalGet place block_cache t options k c =
     bindO (Block_NewIterator (op_comparator (tr_options t)) (tr_index_block t)) (\<lambda>iiter.
     bindO (Iterator_Seek k iiter) (\<lambda>iiter.
     bindO
       (if Iterator_Valid iiter then
          case BlockHandle_DecodeFrom (Iterator_value iiter) BlockHandle_new of (hs, _, handle) \<Rightarrow>
            bindO (case tr_filter t of
                     Some (P, reader) \<Rightarrow> if ok hs then FilterBlock_KeyMayMatch P reader (bh_offset handle) k else Ret True
                   | None \<Rightarrow> Ret True) (\<lambda>may_match.
              if \<not> may_match then Ret (OK, None, c)
              else
                bindO (Table_BlockReader place block_cache t options (Iterator_value iiter) c) (\<lambda>(block_iter, c).
                bindO (Iterator_Seek k block_iter) (\<lambda>block_iter.
                  Ret (Iterator_status block_iter,
                    if Iterator_Valid block_iter then Some (Iterator_key block_iter, Iterator_value block_iter) else None, c))))
        else Ret (OK, None, c))
       (\<lambda>(s, found, c). Ret (if ok s then Iterator_status iiter else s, found, c))))"

definition Table_ApproximateOffsetOf :: "Table \<Rightarrow> byte list \<Rightarrow> u64 outcome" where
  "Table_ApproximateOffsetOf t key =
     bindO (Block_NewIterator (op_comparator (tr_options t)) (tr_index_block t)) (\<lambda>index_iter.
     bindO (Iterator_Seek key index_iter) (\<lambda>index_iter.
       Ret (if Iterator_Valid index_iter
            then case BlockHandle_DecodeFrom (Iterator_value index_iter) BlockHandle_new of (s, _, handle) \<Rightarrow>
                   if ok s then bh_offset handle else bh_offset (tr_metaindex_handle t)
            else bh_offset (tr_metaindex_handle t))))"

end
