(* ===== verification/Block_Correct.thy ===== *)
theory Block_Correct
  imports Block Dbformat
begin

text \<open>
  The iterator of a block is a cursor over the entries that were added: it walks them forwards and
  backwards, and \<open>Seek\<close> stops at the first entry that is not before the target.
\<close>

section \<open>The layout of a block\<close>

text \<open>An item is an entry with the length of the prefix that is not stored.\<close>

type_synonym item = "nat \<times> byte list \<times> byte list"

abbreviation item_key :: "item \<Rightarrow> byte list" where "item_key x \<equiv> fst (snd x)"
abbreviation item_val :: "item \<Rightarrow> byte list" where "item_val x \<equiv> snd (snd x)"

definition item_bytes :: "item \<Rightarrow> byte list" where
  "item_bytes = (\<lambda>(s, k, v). varint s @ varint (length k - s) @ varint (length v) @ drop s k @ v)"

definition extends :: "byte list \<Rightarrow> item \<Rightarrow> bool" where
  "extends prev = (\<lambda>(s, k, v). s \<le> length k \<and> s \<le> length prev \<and> take s prev = take s k \<and> length k < 2 ^ 32 \<and> length v < 2 ^ 32)"

definition key_before :: "item list \<Rightarrow> nat \<Rightarrow> byte list" where
  "key_before xs i = (if i = 0 then [] else item_key (xs ! (i - 1)))"

definition items_ok :: "item list \<Rightarrow> bool" where
  "items_ok xs \<longleftrightarrow> (\<forall>i < length xs. extends (key_before xs i) (xs ! i))"

definition restarts_ok :: "item list \<Rightarrow> nat list \<Rightarrow> bool" where
  "restarts_ok xs rs \<longleftrightarrow> rs \<noteq> [] \<and> hd rs = 0 \<and> (xs = [] \<longrightarrow> rs = [0]) \<and> (\<forall>r\<in>set rs. xs \<noteq> [] \<longrightarrow> r < length xs \<and> fst (xs ! r) = 0)"

abbreviation offset_of :: "item list \<Rightarrow> nat \<Rightarrow> nat" where
  "offset_of xs \<equiv> part (map item_bytes xs)"

definition block_bytes :: "item list \<Rightarrow> nat list \<Rightarrow> byte list" where
  "block_bytes xs rs = concat (map item_bytes xs) @ concat (map EncodeFixed32 (map (\<lambda>r. of_nat (offset_of xs r)) rs)) @
     EncodeFixed32 (of_nat (length rs))"

definition layout :: "item list \<Rightarrow> nat list \<Rightarrow> bool" where
  "layout xs rs \<longleftrightarrow> items_ok xs \<and> restarts_ok xs rs \<and> length (block_bytes xs rs) < 2 ^ 32"

lemma length_fixed_array: "length (concat (map EncodeFixed32 xs)) = length xs * 4"
  by (induction xs) simp_all

lemma item_bytes_length: "3 \<le> length (item_bytes x)"
proof -
  have one: "1 \<le> length (varint n)" for n using varint_nonempty [of n] by (cases "varint n") simp_all
  obtain s k v where "x = (s, k, v)" by (cases x)
  then show ?thesis using one [of s] one [of "length k - s"] one [of "length v"] by (simp add: item_bytes_def)
qed

lemma block_bytes_length: "length (block_bytes xs rs) = length (concat (map item_bytes xs)) + length rs * 4 + 4"
  unfolding block_bytes_def length_append length_fixed_array by simp

lemma offset_strict: "i < j \<Longrightarrow> j \<le> length xs \<Longrightarrow> offset_of xs i < offset_of xs j"
  using part_mono [of "Suc i" j "map item_bytes xs"] part_Suc [of i "map item_bytes xs"] item_bytes_length [of "xs ! i"] by simp

lemma offset_less_iff: "i \<le> length xs \<Longrightarrow> j \<le> length xs \<Longrightarrow> offset_of xs i < offset_of xs j \<longleftrightarrow> i < j"
  using offset_strict [of i j xs] part_mono [of j i "map item_bytes xs"] by (auto simp: not_less [symmetric])

lemma items_length: "length xs \<le> length (concat (map item_bytes xs))"
proof (induction xs)
  case (Cons x xs)
  then show ?case using item_bytes_length [of x] by simp
qed simp

lemma offset_length: "offset_of xs (length xs) = length (concat (map item_bytes xs))"
  using part_length [of "map item_bytes xs"] by simp

lemma offset_bound: "offset_of xs i \<le> length (concat (map item_bytes xs))"
proof (cases "i \<le> length xs")
  case True
  then show ?thesis using part_mono [of i "length xs" "map item_bytes xs"] part_length [of "map item_bytes xs"] by simp
qed (simp add: part_def)

section \<open>Decoding an entry\<close>

lemma or_small:
  fixes a b c :: byte
  assumes "(ucast a OR ucast b OR ucast c :: u32) < 128"
  shows "(ucast a :: u32) AND 128 = 0" "(ucast b :: u32) AND 128 = 0" "(ucast c :: u32) AND 128 = 0"
proof -
  have small: "(ucast x :: u32) AND 128 = 0" if "(ucast x :: u32) \<le> ucast a OR ucast b OR ucast c" for x :: byte
  proof -
    have "(ucast x :: u32) < 128" using that assms by (rule le_less_trans)
    then have "unat x < 128" by (simp add: word_less_nat_alt unat_ucast_up)
    from widen_last(1) [OF this] show ?thesis by simp
  qed
  show "(ucast a :: u32) AND 128 = 0" by (rule small) (rule le_word_or2)
  show "(ucast b :: u32) AND 128 = 0"
    by (rule small) (metis le_word_or2 or.assoc or.commute)
  show "(ucast c :: u32) AND 128 = 0"
    by (rule small) (metis le_word_or2 or.assoc or.commute)
qed

lemma DecodeEntry_eq:
  assumes "3 \<le> length p"
  shows "DecodeEntry p =
    Option.bind (GetVarint32 p) (\<lambda>(s, p). Option.bind (GetVarint32 p) (\<lambda>(ns, p). Option.bind (GetVarint32 p) (\<lambda>(vl, p).
      if of_nat (length p) < ns + vl then None else Some (s, ns, vl, p))))"
proof -
  obtain a b c q where p: "p = a # b # c # q" using assms by (auto simp: numeral_3_eq_3 Suc_le_length_iff)
  show ?thesis
  proof (cases "(ucast a OR ucast b OR ucast c :: u32) < 128")
    case True
    from or_small [OF this] True show ?thesis by (simp add: p DecodeEntry_def GetVarint32_def GetVarint32Ptr_def)
  next
    case False
    then show ?thesis by (auto simp: p DecodeEntry_def GetVarint32_def split: Option.bind_splits)
  qed
qed

text \<open>
  The test against the end of the block adds two 32-bit lengths: an entry that claims a key of
  \<open>2\<^sup>3\<^sup>2 - 1\<close> bytes and a value of one byte passes it with nothing left in the block.
\<close>

lemma DecodeEntry_length_wraps:
  "DecodeEntry [0, 0xff, 0xff, 0xff, 0xff, 0x0f, 1] = Some (0, 0xffffffff, 1, [])"
  by code_simp

lemma DecodeEntry_item:
  assumes "extends prev (s, k, v)" "length (item_bytes (s, k, v) @ rest) < 2 ^ 32"
  shows "DecodeEntry (item_bytes (s, k, v) @ rest) = Some (of_nat s, of_nat (length k - s), of_nat (length v), drop s k @ v @ rest)"
proof -
  have n: "s < 2 ^ 32" "length k - s < 2 ^ 32" "length v < 2 ^ 32" using assms(1) by (auto simp: extends_def)
  have g: "GetVarint32 (varint n @ r) = Some (of_nat n, r)" if "n < 2 ^ 32" for n r
    using GetVarint32_varint [of "of_nat n" r] that by simp
  have "length k - s + length v + length rest < 2 ^ 32" using assms(2) by (simp add: item_bytes_def)
  then have "\<not> (of_nat (length (drop s k @ v @ rest)) < (of_nat (length k - s) + of_nat (length v) :: u32))"
    by (simp add: word_less_nat_alt unat_word_ariths flip: of_nat_add)
  moreover have "3 \<le> length (item_bytes (s, k, v) @ rest)" using item_bytes_length [of "(s, k, v)"] by simp
  ultimately show ?thesis by (simp add: DecodeEntry_eq) (simp add: item_bytes_def g [OF n(1)] g [OF n(2)] g [OF n(3)])
qed

lemma DecodeEntry_at:
  assumes "layout xs rs" "i < length xs" "xs ! i = (s, k, v)"
  shows "DecodeEntry (take (length (concat (map item_bytes xs)) - offset_of xs i) (drop (offset_of xs i) (block_bytes xs rs))) =
    Some (of_nat s, of_nat (length k - s), of_nat (length v), drop s k @ v @ concat (map item_bytes (drop (Suc i) xs)))"
proof -
  have c: "concat (map item_bytes xs) = concat (map item_bytes (take i xs)) @ item_bytes (s, k, v) @ concat (map item_bytes (drop (Suc i) xs))"
    using assms(2,3) by (metis concat.simps(2) concat_append id_take_nth_drop list.simps(9) map_append)
  have off: "offset_of xs i = length (concat (map item_bytes (take i xs)))" by (simp add: part_def take_map)
  have "length (concat (map item_bytes xs)) < 2 ^ 32" using assms(1) by (simp add: layout_def block_bytes_length)
  then have "length (item_bytes (s, k, v) @ concat (map item_bytes (drop (Suc i) xs))) < 2 ^ 32" unfolding c by simp
  moreover have "extends (key_before xs i) (s, k, v)" using assms by (auto simp: layout_def items_ok_def)
  ultimately show ?thesis unfolding off block_bytes_def c by (simp add: DecodeEntry_item)
qed

section \<open>The iterator as a cursor\<close>

definition blk :: "item list \<Rightarrow> nat list \<Rightarrow> BlockIter \<Rightarrow> bool" where
  "blk xs rs it \<longleftrightarrow> layout xs rs \<and> bi_data it = block_bytes xs rs \<and> unat (bi_restarts it) = length (concat (map item_bytes xs)) \<and>
     unat (bi_num_restarts it) = length rs \<and> bi_status it = OK"

text \<open>The next call of \<open>ParseNextKey\<close> gives entry \<open>i\<close>; the iterator stands on entry \<open>i\<close>; it has run off the entries.\<close>

definition poised :: "item list \<Rightarrow> nat list \<Rightarrow> nat \<Rightarrow> BlockIter \<Rightarrow> bool" where
  "poised xs rs i it \<longleftrightarrow> blk xs rs it \<and> (\<exists>p n. bi_value it = Some (p, n) \<and> p + n = offset_of xs i) \<and>
     unat (bi_restart_index it) < length rs \<and> (i < length xs \<longrightarrow> extends (bi_key it) (xs ! i)) \<and> i \<le> length xs"

definition on_entry :: "item list \<Rightarrow> nat list \<Rightarrow> nat \<Rightarrow> BlockIter \<Rightarrow> bool" where
  "on_entry xs rs i it \<longleftrightarrow> blk xs rs it \<and> i < length xs \<and> unat (bi_current it) = offset_of xs i \<and>
     (\<exists>p n. bi_value it = Some (p, n) \<and> p + n = offset_of xs (Suc i)) \<and> unat (bi_restart_index it) < length rs \<and>
     bi_key it = item_key (xs ! i) \<and> BlockIter_value it = item_val (xs ! i)"

definition ended :: "item list \<Rightarrow> nat list \<Rightarrow> BlockIter \<Rightarrow> bool" where
  "ended xs rs it \<longleftrightarrow> blk xs rs it \<and> bi_current it = bi_restarts it"

lemma blk_bounds:
  assumes "blk xs rs it"
  shows "length (concat (map item_bytes xs)) + length rs * 4 + 4 < 2 ^ 32" "length (bi_data it) = length (concat (map item_bytes xs)) + length rs * 4 + 4"
    "0 < length rs"
  using assms by (auto simp: blk_def layout_def block_bytes_length restarts_ok_def)

lemma offset_word: "blk xs rs it \<Longrightarrow> unat (of_nat (offset_of xs i) :: u32) = offset_of xs i"
  using blk_bounds(1) [of xs rs it] offset_bound [of xs i] by simp

lemma GetRestartPoint_eq:
  assumes "blk xs rs it" "unat j < length rs"
  shows "GetRestartPoint it j = Ret (of_nat (offset_of xs (rs ! unat j)))"
proof -
  have "DecodeFixed32 (drop (length (concat (map item_bytes xs)) + unat j * 4) (block_bytes xs rs)) =
      Ret (map (\<lambda>r. of_nat (offset_of xs r)) rs ! unat j)"
    unfolding block_bytes_def by (rule decode_array) (use assms(2) in simp)
  with assms show ?thesis by (simp add: GetRestartPoint_def blk_def)
qed

lemma skip_restarts_ok:
  assumes "blk xs rs it" "unat j < length rs"
  shows "\<exists>j'. skip_restarts it j = Ret j' \<and> unat j' < length rs"
  using assms
proof (induction it j rule: skip_restarts.induct)
  case (1 it j)
  show ?case
  proof (cases "j + 1 < bi_num_restarts it")
    case True
    then have "unat (j + 1) < length rs" using 1(2) by (simp add: word_less_nat_alt blk_def)
    with 1 True GetRestartPoint_eq [OF 1(2) this] show ?thesis by (subst skip_restarts.simps) auto
  qed (use 1 in \<open>subst skip_restarts.simps, simp\<close>)
qed

lemma on_valid: "on_entry xs rs i it \<Longrightarrow> BlockIter_Valid it"
  using offset_strict [of i "length xs" xs] by (simp add: on_entry_def BlockIter_Valid_def word_less_nat_alt blk_def part_length [symmetric])

lemma ended_invalid: "ended xs rs it \<Longrightarrow> \<not> BlockIter_Valid it"
  by (simp add: ended_def BlockIter_Valid_def)

lemma on_poised: "on_entry xs rs i it \<Longrightarrow> poised xs rs (Suc i) it"
  by (auto simp: on_entry_def poised_def blk_def layout_def items_ok_def key_before_def)

lemma poised_next: "poised xs rs i it \<Longrightarrow> NextEntryOffset it = Ret (of_nat (offset_of xs i))"
  by (auto simp: poised_def NextEntryOffset_def simp del: of_nat_add)

lemma ParseNextKey_end:
  assumes "poised xs rs (length xs) it"
  shows "\<exists>it'. ParseNextKey it = Ret (False, it') \<and> ended xs rs it'"
proof -
  have b: "blk xs rs it" using assms by (simp add: poised_def)
  then have "bi_restarts it \<le> of_nat (offset_of xs (length xs))"
    using offset_word [OF b, of "length xs"] by (simp add: word_le_nat_alt blk_def part_length [symmetric])
  with b poised_next [OF assms] show ?thesis by (simp add: ParseNextKey_def ended_def blk_def)
qed

lemma item_split:
  assumes "i < length xs" "xs ! i = (s, k, v)"
  shows "\<exists>pre. concat (map item_bytes xs) = pre @ drop s k @ v @ concat (map item_bytes (drop (Suc i) xs)) \<and>
    length pre + (length k - s) + length v = offset_of xs (Suc i)"
proof -
  let ?h = "concat (map item_bytes (take i xs)) @ varint s @ varint (length k - s) @ varint (length v)"
  have "concat (map item_bytes xs) = concat (map item_bytes (take i xs)) @ item_bytes (s, k, v) @ concat (map item_bytes (drop (Suc i) xs))"
    using assms by (metis concat.simps(2) concat_append id_take_nth_drop list.simps(9) map_append)
  then have "concat (map item_bytes xs) = ?h @ drop s k @ v @ concat (map item_bytes (drop (Suc i) xs))" by (simp add: item_bytes_def)
  moreover have "offset_of xs (Suc i) = length (concat (map item_bytes (take i xs))) + length (item_bytes (s, k, v))"
    using assms by (simp add: part_Suc) (simp add: part_def take_map)
  then have "length ?h + (length k - s) + length v = offset_of xs (Suc i)" by (simp add: item_bytes_def)
  ultimately show ?thesis by blast
qed

lemma ParseNextKey_step:
  assumes "NextEntryOffset it = Ret off" "\<not> bi_restarts it \<le> off"
    and "DecodeEntry (take (unat (bi_restarts it) - unat off) (drop (unat off) (bi_data it))) = Some (sh, ns, vl, rest)"
    and "unat sh \<le> length (bi_key it)" "p = unat (bi_restarts it) - length rest" "p + unat ns \<le> length (bi_data it)"
    and "key = take (unat sh) (bi_key it) @ take (unat ns) (drop p (bi_data it))"
    and "skip_restarts (it\<lparr>bi_current := off, bi_key := key, bi_value := Some (p + unat ns, unat vl)\<rparr>) (bi_restart_index it) = Ret j"
  shows "ParseNextKey it = Ret (True, it\<lparr>bi_current := off, bi_key := key, bi_value := Some (p + unat ns, unat vl), bi_restart_index := j\<rparr>)"
  using assms(8) unfolding assms(7,5) using assms(1-6) by (simp add: ParseNextKey_def Let_def not_less)

lemma ParseNextKey_on:
  assumes "poised xs rs i it" "i < length xs"
  shows "\<exists>it'. ParseNextKey it = Ret (True, it') \<and> on_entry xs rs i it'"
proof -
  obtain s k v where x: "xs ! i = (s, k, v)" by (cases "xs ! i")
  have b: "blk xs rs it" and e: "extends (bi_key it) (s, k, v)" using assms by (simp_all add: poised_def x)
  let ?o = "of_nat (offset_of xs i) :: u32" and ?rest = "drop s k @ v @ concat (map item_bytes (drop (Suc i) xs))"
  let ?L = "length (concat (map item_bytes xs))"
  obtain pre where pre: "concat (map item_bytes xs) = pre @ ?rest" "length pre + (length k - s) + length v = offset_of xs (Suc i)"
    using item_split [OF assms(2) x] by blast
  have u: "unat ?o = offset_of xs i" "unat (bi_restarts it) = ?L" "bi_data it = block_bytes xs rs" "layout xs rs" "bi_status it = OK"
    using offset_word [OF b] b by (simp_all add: blk_def)
  have lt: "\<not> bi_restarts it \<le> ?o"
    using offset_strict [OF assms(2) order_refl] u(1,2) by (simp add: word_le_nat_alt offset_length)
  have dec: "DecodeEntry (take (?L - offset_of xs i) (drop (offset_of xs i) (block_bytes xs rs))) =
      Some (of_nat s, of_nat (length k - s), of_nat (length v), ?rest)"
    by (rule DecodeEntry_at [OF u(4) assms(2) x])
  have small: "unat (of_nat s :: u32) = s" "unat (of_nat (length k - s) :: u32) = length k - s" "unat (of_nat (length v) :: u32) = length v"
    using e by (auto simp: extends_def unat_of_nat take_bit_nat_eq_self simp del: of_nat_diff)
  have sk: "s \<le> length (bi_key it)" using e by (simp add: extends_def)
  have p: "?L - length ?rest = length pre" using pre(1) by simp
  have d: "drop (length pre) (block_bytes xs rs) = ?rest @ drop ?L (block_bytes xs rs)" unfolding block_bytes_def pre(1) by simp
  let ?it = "it\<lparr>bi_current := ?o, bi_key := k, bi_value := Some (length pre + (length k - s), length v)\<rparr>"
  have "blk xs rs ?it" using b by (simp add: blk_def)
  moreover have "unat (bi_restart_index it) < length rs" using assms(1) by (simp add: poised_def)
  ultimately obtain j where j: "skip_restarts ?it (bi_restart_index it) = Ret j" "unat j < length rs" using skip_restarts_ok by blast
  have key: "take s (bi_key it) @ take (length k - s) (drop (length pre) (block_bytes xs rs)) = k" using e by (simp add: d extends_def)
  have val: "take (length v) (drop (length pre + (length k - s)) (block_bytes xs rs)) = v"
    using arg_cong [OF d, of "drop (length k - s)"] by (simp add: add.commute)
  have fits: "length pre + (length k - s) \<le> length (block_bytes xs rs)"
    using pre(2) offset_bound [of xs "Suc i"] by (simp add: block_bytes_length)
  have "ParseNextKey it = Ret (True, it\<lparr>bi_current := ?o, bi_key := k,
      bi_value := Some (length pre + unat (of_nat (length k - s) :: u32), unat (of_nat (length v) :: u32)), bi_restart_index := j\<rparr>)"
  proof (rule ParseNextKey_step [OF poised_next [OF assms(1)] lt])
    show "DecodeEntry (take (unat (bi_restarts it) - unat ?o) (drop (unat ?o) (bi_data it))) =
        Some (of_nat s, of_nat (length k - s), of_nat (length v), ?rest)" unfolding u by (rule dec)
  qed (use sk in \<open>simp_all only: small p u key fits j(1)\<close>)
  then have "ParseNextKey it = Ret (True, ?it\<lparr>bi_restart_index := j\<rparr>)" by (simp only: small)
  moreover have "on_entry xs rs i (?it\<lparr>bi_restart_index := j\<rparr>)"
    using b assms(2) u(1) pre(2) j(2) val by (simp add: on_entry_def blk_def x BlockIter_value_def)
  ultimately show ?thesis by blast
qed

lemma SeekToRestartPoint_poised:
  assumes "blk xs rs it" "unat j < length rs"
  shows "\<exists>it'. SeekToRestartPoint j it = Ret it' \<and> poised xs rs (rs ! unat j) it' \<and> bi_comparator it' = bi_comparator it"
proof -
  let ?it = "it\<lparr>bi_key := [], bi_restart_index := j, bi_value := Some (offset_of xs (rs ! unat j), 0)\<rparr>"
  have r: "rs ! unat j \<in> set rs" "restarts_ok xs rs" "items_ok xs" using assms by (simp_all add: blk_def layout_def)
  have "extends [] (xs ! (rs ! unat j))" if "rs ! unat j < length xs"
  proof -
    have "fst (xs ! (rs ! unat j)) = 0" using r(1,2) that by (auto simp: restarts_ok_def)
    then show ?thesis using r(3) that by (auto simp: items_ok_def extends_def split: prod.splits)
  qed
  moreover have "rs ! unat j \<le> length xs"
  proof (cases "xs = []")
    case True
    then show ?thesis using r(2) assms(2) by (simp add: restarts_ok_def)
  next
    case False
    then have "rs ! unat j < length xs" using r(1,2) unfolding restarts_ok_def by blast
    then show ?thesis by simp
  qed
  ultimately have "poised xs rs (rs ! unat j) ?it" using assms by (simp add: poised_def blk_def)
  then show ?thesis using assms by (simp add: SeekToRestartPoint_def GetRestartPoint_eq offset_word)
qed

lemma parse_until_on:
  assumes "poised xs rs j it" "j \<le> i" "i < length xs" "i - j < fuel" "unat bound = offset_of xs (Suc i)"
  shows "\<exists>it'. parse_until fuel bound it = Ret it' \<and> on_entry xs rs i it'"
  using assms
proof (induction fuel arbitrary: j it)
  case (Suc fuel)
  obtain it' where it': "ParseNextKey it = Ret (True, it')" "on_entry xs rs j it'"
    using ParseNextKey_on [OF Suc.prems(1)] Suc.prems(2,3) by auto
  have r: "poised xs rs (Suc j) it'" by (rule on_poised [OF it'(2)])
  then have b: "blk xs rs it'" by (simp add: poised_def)
  have next_lt: "of_nat (offset_of xs (Suc j)) < bound \<longleftrightarrow> j < i"
    using Suc.prems(2,3,5) offset_word [OF b, of "Suc j"] offset_less_iff [of "Suc j" xs "Suc i"] by (simp add: word_less_nat_alt)
  show ?case
  proof (cases "j = i")
    case True
    then show ?thesis using it' poised_next [OF r] next_lt by simp
  next
    case False
    then have "j < i" using Suc.prems(2) by simp
    with Suc.IH [OF r, of] Suc.prems(3-5) it'(1) poised_next [OF r] next_lt show ?thesis by auto
  qed
qed simp

lemma restart_before_eq:
  assumes "blk xs rs it" "unat j < length rs" "i < length xs" "unat original = offset_of xs i"
  shows "if i = 0 then restart_before it original j = Ret None
    else \<exists>j'. restart_before it original j = Ret (Some j') \<and> unat j' < length rs \<and> rs ! unat j' < i"
  using assms
proof (induction it original j rule: restart_before.induct)
  case (1 it original j)
  let ?r = "rs ! unat j"
  have g: "GetRestartPoint it j = Ret (of_nat (offset_of xs ?r))" by (rule GetRestartPoint_eq [OF 1(2,3)])
  have "?r \<in> set rs" using 1(3) by simp
  then have "?r \<le> length xs" using 1(2,4) by (auto simp: blk_def layout_def restarts_ok_def)
  then have lt: "original \<le> of_nat (offset_of xs ?r) \<longleftrightarrow> \<not> ?r < i"
    using offset_word [OF 1(2)] offset_less_iff [of ?r xs i] 1(4,5) by (simp add: word_le_nat_alt not_less [symmetric])
  show ?case
  proof (cases "?r < i")
    case True
    then show ?thesis using g lt 1(3) by (subst (1 2) restart_before.simps) auto
  next
    case False
    show ?thesis
    proof (cases "j = 0")
      case True
      then have "?r = 0" using 1(2) by (auto simp: blk_def layout_def restarts_ok_def hd_conv_nth)
      then show ?thesis using g lt False True by (subst restart_before.simps) simp
    next
      case nz: False
      then have "unat (j - 1) < length rs" using 1(3) by (simp add: unat_minus_one)
      with 1(1) [OF g] lt False nz 1(2,4,5) have "if i = 0 then restart_before it original (j - 1) = Ret None
          else \<exists>j'. restart_before it original (j - 1) = Ret (Some j') \<and> unat j' < length rs \<and> rs ! unat j' < i" by blast
      moreover have "restart_before it original j = restart_before it original (j - 1)"
        using g lt False nz by (subst restart_before.simps) simp
      ultimately show ?thesis by simp
    qed
  qed
qed

lemma fuel_enough: "blk xs rs it \<Longrightarrow> length xs < block_fuel it"
  using blk_bounds(2) [of xs rs it] items_length [of xs] by (simp add: block_fuel_def)

lemma Prev_ok:
  assumes "on_entry xs rs i it"
  shows "\<exists>it'. BlockIter_Prev it = Ret it' \<and> (if i = 0 then ended xs rs it' else on_entry xs rs (i - 1) it')"
proof -
  have b: "blk xs rs it" "unat (bi_restart_index it) < length rs" "i < length xs" "unat (bi_current it) = offset_of xs i"
    using assms by (simp_all add: on_entry_def)
  show ?thesis
  proof (cases "i = 0")
    case True
    then show ?thesis using restart_before_eq [OF b] b(1) by (simp add: BlockIter_Prev_def ended_def blk_def)
  next
    case False
    then obtain j where j: "restart_before it (bi_current it) (bi_restart_index it) = Ret (Some j)" "unat j < length rs" "rs ! unat j < i"
      using restart_before_eq [OF b] by auto
    obtain it1 where it1: "SeekToRestartPoint j it = Ret it1" "poised xs rs (rs ! unat j) it1" using SeekToRestartPoint_poised [OF b(1) j(2)] by blast
    have "\<exists>it'. parse_until (block_fuel it) (bi_current it) it1 = Ret it' \<and> on_entry xs rs (i - 1) it'"
      by (rule parse_until_on [OF it1(2)]) (use j(3) b(3,4) False fuel_enough [OF b(1)] in simp_all)
    then show ?thesis using j(1) it1(1) False by (auto simp: BlockIter_Prev_def)
  qed
qed

lemma Next_ok:
  assumes "on_entry xs rs i it"
  shows "\<exists>it'. BlockIter_Next it = Ret it' \<and> (if Suc i < length xs then on_entry xs rs (Suc i) it' else ended xs rs it')"
proof -
  have r: "poised xs rs (Suc i) it" by (rule on_poised [OF assms])
  show ?thesis
  proof (cases "Suc i < length xs")
    case True
    with ParseNextKey_on [OF r] show ?thesis by (auto simp: BlockIter_Next_def)
  next
    case False
    then have "Suc i = length xs" using assms by (simp add: on_entry_def)
    with ParseNextKey_end [of xs rs it] r False show ?thesis by (auto simp: BlockIter_Next_def)
  qed
qed

lemma SeekToFirst_ok:
  assumes "blk xs rs it"
  shows "\<exists>it'. BlockIter_SeekToFirst it = Ret it' \<and> (if xs = [] then ended xs rs it' else on_entry xs rs 0 it')"
proof -
  have "rs ! 0 = 0" "unat (0 :: u32) < length rs" using assms by (auto simp: blk_def layout_def restarts_ok_def hd_conv_nth)
  then obtain it1 where it1: "SeekToRestartPoint 0 it = Ret it1" "poised xs rs 0 it1" using SeekToRestartPoint_poised [OF assms, of 0] by auto
  then show ?thesis using ParseNextKey_on [OF it1(2)] ParseNextKey_end [of xs rs it1]
    by (cases "xs = []") (auto simp: BlockIter_SeekToFirst_def BlockIter_Next_def)
qed

lemma SeekToLast_ok:
  assumes "blk xs rs it"
  shows "\<exists>it'. BlockIter_SeekToLast it = Ret it' \<and> (if xs = [] then ended xs rs it' else on_entry xs rs (length xs - 1) it')"
proof -
  let ?j = "bi_num_restarts it - 1"
  have "0 < length rs" by (rule blk_bounds(3) [OF assms])
  then have "unat ?j = length rs - 1" using assms by (subst unat_minus_one) (auto simp: blk_def)
  with \<open>0 < length rs\<close> have j: "unat ?j < length rs" by simp
  obtain it1 where it1: "SeekToRestartPoint ?j it = Ret it1" "poised xs rs (rs ! unat ?j) it1"
    using SeekToRestartPoint_poised [OF assms j] by blast
  show ?thesis
  proof (cases "xs = []")
    case True
    with it1(2) have "poised xs rs (length xs) it1" by (auto simp: poised_def part_def)
    from ParseNextKey_end [OF this] True it1(1) show ?thesis by (auto simp: BlockIter_SeekToLast_def block_fuel_def)
  next
    case False
    have "rs ! unat ?j \<in> set rs" using j by simp
    then have "rs ! unat ?j < length xs" using assms False unfolding blk_def layout_def restarts_ok_def by blast
    moreover have "unat (bi_restarts it) = offset_of xs (Suc (length xs - 1))" using assms False offset_length [of xs] by (simp add: blk_def)
    ultimately have "\<exists>it'. parse_until (block_fuel it) (bi_restarts it) it1 = Ret it' \<and> on_entry xs rs (length xs - 1) it'"
      using fuel_enough [OF assms] False by (intro parse_until_on [OF it1(2)]) auto
    then show ?thesis using it1(1) False by (auto simp: BlockIter_SeekToLast_def)
  qed
qed

section \<open>Seeking\<close>

lemma ParseNextKey_comparator: "ParseNextKey it = Ret (f, it') \<Longrightarrow> bi_comparator it' = bi_comparator it"
  by (auto simp: ParseNextKey_def CorruptionError_def Let_def split: if_splits option.splits)

lemma restart_entry:
  assumes "blk xs rs it" "r \<in> set rs" "xs \<noteq> []"
  shows "\<exists>k v ns vl rest. xs ! r = (0, k, v) \<and> r < length xs \<and>
    DecodeEntry (take (unat (bi_restarts it) - offset_of xs r) (drop (offset_of xs r) (bi_data it))) = Some (0, ns, vl, rest) \<and>
    unat (bi_restarts it) - length rest + unat ns \<le> length (bi_data it) \<and>
    take (unat ns) (drop (unat (bi_restarts it) - length rest) (bi_data it)) = k"
proof -
  have r: "r < length xs" "fst (xs ! r) = 0" using assms by (auto simp: blk_def layout_def restarts_ok_def)
  then obtain k v where x: "xs ! r = (0, k, v)" by (cases "xs ! r") auto
  let ?rest = "drop 0 k @ v @ concat (map item_bytes (drop (Suc r) xs))"
  obtain pre where pre: "concat (map item_bytes xs) = pre @ ?rest" using item_split [OF r(1) x] by blast
  have "extends (key_before xs r) (0, k, v)" using assms(1) r(1) x by (auto simp: blk_def layout_def items_ok_def)
  then have k: "unat (of_nat (length k) :: u32) = length k" by (simp add: extends_def)
  have L: "unat (bi_restarts it) = length (concat (map item_bytes xs))" "bi_data it = block_bytes xs rs" "layout xs rs" using assms(1) by (simp_all add: blk_def)
  have "DecodeEntry (take (unat (bi_restarts it) - offset_of xs r) (drop (offset_of xs r) (bi_data it))) =
      Some (0, of_nat (length k), of_nat (length v), ?rest)"
    using DecodeEntry_at [OF L(3) r(1) x] unfolding L by simp
  moreover have "unat (bi_restarts it) - length ?rest = length pre" unfolding L pre by simp
  moreover have "bi_data it = pre @ k @ drop (length pre + length k) (bi_data it)" unfolding L block_bytes_def pre by simp
  then have "take (length k) (drop (length pre) (bi_data it)) = k" "length pre + length k \<le> length (bi_data it)"
    by (metis append_eq_conv_conj append_take_drop_id take_add take_drop add.commute, metis append.assoc le_add1 length_append)
  ultimately show ?thesis using x r(1) k by (intro exI conjI) (assumption | simp)+
qed

context comparator
begin

lemma seek_search_ok:
  assumes "blk xs rs it" "bi_comparator it = C" "\<forall>x\<in>set xs. item_key x \<in> keys" "target \<in> keys"
    and "unat left \<le> unat right" "unat right < length rs" "unat right - unat left < fuel"
  shows "\<exists>j. seek_search fuel it target left right = Ret (Some j) \<and> unat left \<le> unat j \<and> unat j \<le> unat right \<and>
    (j = left \<or> rs ! unat j < length xs \<and> lt (item_key (xs ! (rs ! unat j))) target)"
  using assms(5-7)
proof (induction fuel arbitrary: left right)
  case (Suc fuel)
  show ?case
  proof (cases "left < right")
    case False
    then show ?thesis using Suc.prems by (auto simp: word_less_nat_alt)
  next
    case True
    let ?mid = "(left + right + 1) div 2"
    have n: "length rs < 2 ^ 30" using blk_bounds(1) [OF assms(1)] by simp
    have lr: "unat left < unat right" using True by (simp add: word_less_nat_alt)
    then have "unat (left + right + 1) = unat left + unat right + 1" using n Suc.prems(2) by (simp add: unat_word_ariths)
    then have mid: "unat ?mid = (unat left + unat right + 1) div 2" by (simp add: unat_div)
    with lr have m: "unat left < unat ?mid" "unat ?mid \<le> unat right" by simp_all
    then have r: "rs ! unat ?mid \<in> set rs" "unat ?mid < length rs" using Suc.prems(2) by auto
    have "xs \<noteq> []" using assms(1) lr Suc.prems(2) by (auto simp: blk_def layout_def restarts_ok_def)
    from restart_entry [OF assms(1) r(1) this] obtain k v ns vl rest where x: "xs ! (rs ! unat ?mid) = (0, k, v)" "rs ! unat ?mid < length xs"
      and dec: "DecodeEntry (take (unat (bi_restarts it) - offset_of xs (rs ! unat ?mid)) (drop (offset_of xs (rs ! unat ?mid)) (bi_data it))) = Some (0, ns, vl, rest)"
      and k: "unat (bi_restarts it) - length rest + unat ns \<le> length (bi_data it)" "take (unat ns) (drop (unat (bi_restarts it) - length rest) (bi_data it)) = k"
      by blast
    have "xs ! (rs ! unat ?mid) \<in> set xs" using x(2) by simp
    then have "k \<in> keys" using assms(3) x(1) by force
    then obtain c where c: "Compare C k target = Ret c" "c < 0 \<longleftrightarrow> lt k target" using assms(4) by (rule compareE) blast
    have step: "seek_search (Suc fuel) it target left right =
        (if c < 0 then seek_search fuel it target ?mid right else seek_search fuel it target left (?mid - 1))"
      using True c(1) k dec assms(2) by (simp add: GetRestartPoint_eq [OF assms(1) r(2)] offset_word [OF assms(1)] not_less Let_def)
    show ?thesis
    proof (cases "c < 0")
      case True
      then have "lt k target" using c(2) by simp
      with Suc.IH [of ?mid right] m Suc.prems(2,3) x step True show ?thesis by fastforce
    next
      case False
      have "unat (?mid - 1) = unat ?mid - 1" using m(1) by (intro unat_minus_one) auto
      with Suc.IH [of left "?mid - 1"] m Suc.prems(2,3) step False show ?thesis by fastforce
    qed
  qed
qed simp

lemma seek_scan_ok:
  assumes "poised xs rs i it" "bi_comparator it = C" "\<forall>x\<in>set xs. item_key x \<in> keys" "target \<in> keys" "length xs - i < fuel"
  shows "\<exists>it' j. seek_scan fuel target it = Ret it' \<and> i \<le> j \<and> (\<forall>m. i \<le> m \<and> m < j \<longrightarrow> lt (item_key (xs ! m)) target) \<and>
    (if j < length xs then \<not> lt (item_key (xs ! j)) target \<and> on_entry xs rs j it' else j = length xs \<and> ended xs rs it')"
  using assms(1,2,5)
proof (induction fuel arbitrary: i it)
  case (Suc fuel)
  show ?case
  proof (cases "i < length xs")
    case False
    then have i: "i = length xs" using Suc.prems(1) by (simp add: poised_def)
    with ParseNextKey_end [of xs rs it] Suc.prems(1) obtain it' where "ParseNextKey it = Ret (False, it')" "ended xs rs it'" by blast
    then show ?thesis using i by auto
  next
    case True
    then obtain it' where it': "ParseNextKey it = Ret (True, it')" "on_entry xs rs i it'" using ParseNextKey_on [OF Suc.prems(1)] by blast
    then have c': "bi_comparator it' = C" "bi_key it' = item_key (xs ! i)"
      using Suc.prems(2) ParseNextKey_comparator by (auto simp: on_entry_def)
    obtain c where c: "Compare C (item_key (xs ! i)) target = Ret c" "c < 0 \<longleftrightarrow> lt (item_key (xs ! i)) target"
      using compare [of "item_key (xs ! i)" target] assms(3,4) True by auto
    show ?thesis
    proof (cases "c < 0")
      case False
      then have "seek_scan (Suc fuel) target it = Ret it'" using it'(1) c' c(1) by simp
      then show ?thesis using False c(2) it'(2) True by (intro exI [of _ it'] exI [of _ i]) (simp add: le_less_trans, use less_le_trans in blast)
    next
      case less: True
      then have "seek_scan (Suc fuel) target it = seek_scan fuel target it'" using it'(1) c' c(1) by simp
      moreover have "length xs - Suc i < fuel" using Suc.prems(3) True by linarith
      then obtain it'' j where "seek_scan fuel target it' = Ret it''" "Suc i \<le> j" "\<forall>m. Suc i \<le> m \<and> m < j \<longrightarrow> lt (item_key (xs ! m)) target"
        "if j < length xs then \<not> lt (item_key (xs ! j)) target \<and> on_entry xs rs j it'' else j = length xs \<and> ended xs rs it''"
        using Suc.IH [OF on_poised [OF it'(2)] c'(1)] by blast
      ultimately show ?thesis using less c(2) by (intro exI [of _ it''] exI [of _ j]) (metis Suc_leD Suc_leI le_neq_implies_less)
    qed
  qed
qed simp

lemma Seek_ok:
  assumes "blk xs rs it" "bi_comparator it = C" "\<forall>x\<in>set xs. item_key x \<in> keys" "target \<in> keys"
    and "sorted_wrt (\<lambda>x y. lt (item_key x) (item_key y)) xs"
  shows "\<exists>it' j. BlockIter_Seek target it = Ret it' \<and> (\<forall>m<j. lt (item_key (xs ! m)) target) \<and>
    (if j < length xs then \<not> lt (item_key (xs ! j)) target \<and> on_entry xs rs j it' else j = length xs \<and> ended xs rs it')"
proof -
  have n: "0 < length rs" "unat (bi_num_restarts it) = length rs" using blk_bounds(3) [OF assms(1)] assms(1) by (simp_all add: blk_def)
  then have u: "unat (bi_num_restarts it - 1) = length rs - 1" by (subst unat_minus_one) auto
  have "\<exists>j. seek_search (unat (bi_num_restarts it)) it target 0 (bi_num_restarts it - 1) = Ret (Some j) \<and> unat (0 :: u32) \<le> unat j \<and>
      unat j \<le> unat (bi_num_restarts it - 1) \<and> (j = 0 \<or> rs ! unat j < length xs \<and> lt (item_key (xs ! (rs ! unat j))) target)"
    by (rule seek_search_ok [OF assms(1-4)]) (use n u in simp_all)
  then obtain l where l: "seek_search (unat (bi_num_restarts it)) it target 0 (bi_num_restarts it - 1) = Ret (Some l)" "unat l \<le> length rs - 1"
    "l = 0 \<or> rs ! unat l < length xs \<and> lt (item_key (xs ! (rs ! unat l))) target"
    unfolding u by blast
  have l2: "unat l < length rs" using l(2) n(1) by linarith
  obtain it1 where it1: "SeekToRestartPoint l it = Ret it1" "poised xs rs (rs ! unat l) it1" "bi_comparator it1 = C"
    using SeekToRestartPoint_poised [OF assms(1) l2] assms(2) by auto
  have before: "lt (item_key (xs ! m)) target" if "m < rs ! unat l" for m
  proof (cases "l = 0")
    case True
    then show ?thesis using that assms(1) by (auto simp: blk_def layout_def restarts_ok_def hd_conv_nth)
  next
    case False
    then have r: "rs ! unat l < length xs" "lt (item_key (xs ! (rs ! unat l))) target" using l(3) by auto
    then have "lt (item_key (xs ! m)) (item_key (xs ! (rs ! unat l)))" using sorted_wrt_nth_less [OF assms(5) that] by simp
    with r that assms(3,4) show ?thesis using lt_trans by (meson nth_mem order.strict_trans)
  qed
  have "length xs - rs ! unat l < block_fuel it" using fuel_enough [OF assms(1)] by linarith
  from seek_scan_ok [OF it1(2,3) assms(3,4) this] obtain it' j where j: "seek_scan (block_fuel it) target it1 = Ret it'" "\<forall>m. rs ! unat l \<le> m \<and> m < j \<longrightarrow> lt (item_key (xs ! m)) target"
    "if j < length xs then \<not> lt (item_key (xs ! j)) target \<and> on_entry xs rs j it' else j = length xs \<and> ended xs rs it'"
    by blast
  have "BlockIter_Seek target it = Ret it'" using l(1) it1(1) j(1) by (simp add: BlockIter_Seek_def)
  with j(2,3) before show ?thesis by (meson not_le)
qed

end

section \<open>What the builder writes\<close>

definition build_block :: "int \<Rightarrow> (byte list \<times> byte list) list \<Rightarrow> byte list" where
  "build_block interval es = fst (BlockBuilder_Finish (fold (\<lambda>(k, v). BlockBuilder_Add interval k v) es BlockBuilder_new))"

definition bb_inv :: "BlockBuilder \<Rightarrow> item list \<Rightarrow> nat list \<Rightarrow> bool" where
  "bb_inv b xs rs \<longleftrightarrow> bb_buffer b = concat (map item_bytes xs) \<and> bb_restarts b = map (\<lambda>r. of_nat (offset_of xs r)) rs \<and>
     bb_last_key b = key_before xs (length xs) \<and> items_ok xs \<and> restarts_ok xs rs"

lemma shared_prefix_ok:
  "shared_prefix a b \<le> length a" "shared_prefix a b \<le> length b" "take (shared_prefix a b) a = take (shared_prefix a b) b"
  by (induction a b rule: shared_prefix.induct) auto

lemma items_ok_snoc: "items_ok xs \<Longrightarrow> extends (key_before xs (length xs)) x \<Longrightarrow> items_ok (xs @ [x])"
  by (auto simp: items_ok_def key_before_def nth_append less_Suc_eq)

lemma restarts_ok_le: "restarts_ok xs rs \<Longrightarrow> r \<in> set rs \<Longrightarrow> r \<le> length xs"
  by (cases "xs = []") (auto simp: restarts_ok_def less_imp_le)

lemma restarts_ok_snoc:
  assumes "restarts_ok xs rs" "xs = [] \<longrightarrow> fst x = 0"
  shows "restarts_ok (xs @ [x]) rs" "fst x = 0 \<Longrightarrow> restarts_ok (xs @ [x]) (rs @ [length xs])"
  using assms by (cases "xs = []"; auto simp: restarts_ok_def nth_append)+

lemma offsets_snoc: "restarts_ok xs rs \<Longrightarrow> map (\<lambda>r. of_nat (offset_of (xs @ [x]) r)) rs = (map (\<lambda>r. of_nat (offset_of xs r)) rs :: u32 list)"
  by (simp add: part_append restarts_ok_le)

lemma Add_inv:
  assumes "bb_inv b xs rs" "length k < 2 ^ 32" "length v < 2 ^ 32"
  shows "\<exists>s rs'. bb_inv (BlockBuilder_Add interval k v b) (xs @ [(s, k, v)]) rs'"
proof -
  let ?last = "key_before xs (length xs)"
  have put: "PutVarint32 d (of_nat n) = d @ varint n" if "n < 2 ^ 32" for d n using that by (simp add: PutVarint32_def EncodeVarint32_eq)
  have key: "key_before (xs @ [x]) (length (xs @ [x])) = item_key x" for x by (simp add: key_before_def nth_append)
  have bytes: "bb_buffer b @ varint s @ varint (length k - s) @ varint (length v) @ drop s k @ v = concat (map item_bytes (xs @ [(s, k, v)]))" for s
    using assms(1) by (simp add: bb_inv_def item_bytes_def)
  show ?thesis
  proof (cases "bb_counter b < interval")
    case True
    define s where "s = shared_prefix ?last k"
    have s: "s \<le> length ?last" "s \<le> length k" "take s ?last = take s k" using shared_prefix_ok [of ?last k] by (simp_all add: s_def)
    have "s < 2 ^ 32" "length k - s < 2 ^ 32" using s(2) assms(2) by simp_all
    then have "bb_buffer (BlockBuilder_Add interval k v b) = concat (map item_bytes (xs @ [(s, k, v)]))" "bb_restarts (BlockBuilder_Add interval k v b) = bb_restarts b"
      "bb_last_key (BlockBuilder_Add interval k v b) = k"
      using True assms(1,3) s(3) bytes [of s] put by (simp_all add: BlockBuilder_Add_def Let_def bb_inv_def s_def [symmetric] del: of_nat_diff)
    moreover have "xs = [] \<longrightarrow> s = 0" using s(1) by (auto simp: key_before_def)
    moreover have "items_ok (xs @ [(s, k, v)])" using assms s by (intro items_ok_snoc) (simp_all add: bb_inv_def extends_def)
    ultimately have "bb_inv (BlockBuilder_Add interval k v b) (xs @ [(s, k, v)]) rs"
      using assms(1) restarts_ok_snoc(1) [of xs rs "(s, k, v)"] key [of "(s, k, v)"] unfolding bb_inv_def by (auto simp: part_append restarts_ok_le)
    then show ?thesis by blast
  next
    case False
    have "bb_buffer (BlockBuilder_Add interval k v b) = concat (map item_bytes (xs @ [(0, k, v)]))"
      "bb_restarts (BlockBuilder_Add interval k v b) = bb_restarts b @ [of_nat (length (bb_buffer b))]" "bb_last_key (BlockBuilder_Add interval k v b) = k"
      using False assms(1,2,3) bytes [of 0] put [of 0] put [OF assms(2)] put [OF assms(3)] by (simp_all add: BlockBuilder_Add_def Let_def bb_inv_def)
    moreover have "items_ok (xs @ [(0, k, v)])" using assms by (intro items_ok_snoc) (simp_all add: bb_inv_def extends_def)
    moreover have "offset_of (xs @ [(0, k, v)]) (length xs) = length (concat (map item_bytes xs))" by (simp add: part_append offset_length)
    ultimately have "bb_inv (BlockBuilder_Add interval k v b) (xs @ [(0, k, v)]) (rs @ [length xs])"
      using assms(1) restarts_ok_snoc(2) [of xs rs "(0, k, v)"] key [of "(0, k, v)"] unfolding bb_inv_def by (auto simp: part_append restarts_ok_le)
    then show ?thesis by blast
  qed
qed

lemma Adds_inv:
  assumes "bb_inv b xs rs" "\<forall>(k, v)\<in>set es. length k < 2 ^ 32 \<and> length v < 2 ^ 32"
  shows "\<exists>ys rs'. bb_inv (fold (\<lambda>(k, v). BlockBuilder_Add interval k v) es b) (xs @ ys) rs' \<and> map snd ys = es"
  using assms
proof (induction es arbitrary: b xs rs)
  case (Cons e es)
  obtain k v where e: "e = (k, v)" by (cases e)
  obtain s rs1 where "bb_inv (BlockBuilder_Add interval k v b) (xs @ [(s, k, v)]) rs1" using Add_inv [OF Cons.prems(1), of k v interval] Cons.prems(2) by (auto simp: e)
  from Cons.IH [OF this] Cons.prems(2) obtain ys rs' where
    "bb_inv (fold (\<lambda>(k, v). BlockBuilder_Add interval k v) es (BlockBuilder_Add interval k v b)) ((xs @ [(s, k, v)]) @ ys) rs'" "map snd ys = es" by auto
  then show ?case by (intro exI [of _ "(s, k, v) # ys"] exI [of _ rs']) (simp add: e)
qed auto

lemma bb_inv_new: "bb_inv BlockBuilder_new [] [0]"
  by (simp add: bb_inv_def BlockBuilder_new_def key_before_def items_ok_def restarts_ok_def)

lemma build_block_layout:
  assumes "\<forall>(k, v)\<in>set es. length k < 2 ^ 32 \<and> length v < 2 ^ 32" "length (build_block interval es) < 2 ^ 32"
  shows "\<exists>xs rs. build_block interval es = block_bytes xs rs \<and> layout xs rs \<and> map snd xs = es"
proof -
  obtain xs rs where x: "bb_inv (fold (\<lambda>(k, v). BlockBuilder_Add interval k v) es BlockBuilder_new) xs rs" "map snd xs = es"
    using Adds_inv [OF bb_inv_new assms(1), of interval] by auto
  then have "build_block interval es = block_bytes xs rs"
    by (simp add: build_block_def BlockBuilder_Finish_def Let_def bb_inv_def block_bytes_def foldl_PutFixed32 PutFixed32_def)
  with x assms(2) show ?thesis by (auto simp: layout_def bb_inv_def)
qed

lemma open_block:
  assumes "layout xs rs"
  shows "\<exists>b it. Block_new (block_bytes xs rs) = Ret b \<and> Block_NewIterator C b = Ret (BlockIterator it) \<and> blk xs rs it \<and> bi_comparator it = C"
proof -
  let ?L = "length (concat (map item_bytes xs))" and ?n = "of_nat (length rs) :: u32"
  have l: "length (block_bytes xs rs) = ?L + length rs * 4 + 4" by (rule block_bytes_length)
  have s: "?L + length rs * 4 + 4 < 2 ^ 32" "rs \<noteq> []" using assms by (auto simp: layout_def l restarts_ok_def)
  have "drop (?L + length rs * 4) (block_bytes xs rs) = EncodeFixed32 ?n"
    unfolding block_bytes_def append_assoc [symmetric] by (simp add: length_fixed_array [of "map f rs" for f, simplified])
  then have num: "NumRestarts (block_bytes xs rs) = Ret ?n" using DecodeFixed_Encode(1) [of ?n "[]"] by (simp add: NumRestarts_def l)
  have n: "unat ?n = length rs" "?n \<noteq> 0" using s by (auto simp: word_of_nat_eq_0_iff nat_dvd_not_less)
  have "unat (1 + ?n) = Suc (length rs)" using s n(1) by (simp add: unat_word_ariths)
  then have "unat (ucast (1 + ?n) :: u64) = Suc (length rs)" by (simp add: unat_ucast_up)
  then have "(ucast (1 + ?n) :: u64) = of_nat (Suc (length rs))" using s(1) by (simp add: word_unat_eq_iff del: of_nat_Suc)
  then have "(of_nat (length (block_bytes xs rs)) - ucast (1 + ?n) * 4 :: u64) = of_nat ?L" by (simp add: l)
  moreover have "unat (ucast (of_nat ?L :: u64) :: u32) = ?L" using s(1) by (simp add: unsigned_ucast_eq take_bit_word_eq_self unsigned_take_bit_eq take_bit_nat_eq_self)
  ultimately have "blk xs rs (BlockIter_new C (block_bytes xs rs) (ucast (of_nat (length (block_bytes xs rs)) - ucast (1 + ?n) * 4 :: u64)) ?n)"
    using assms n(1) by (simp add: blk_def BlockIter_new_def)
  then show ?thesis using n num by (simp add: Block_new_def Let_def Block_NewIterator_def l BlockIter_new_def)
qed

section \<open>Walking a block\<close>

text \<open>The loops of a client: \<open>for (; it->Valid(); it->Next())\<close>, and the same with \<open>Prev\<close>.\<close>

fun walk :: "(BlockIter \<Rightarrow> BlockIter outcome) \<Rightarrow> nat \<Rightarrow> BlockIter \<Rightarrow> (byte list \<times> byte list) list outcome" where
  "walk move 0 it = NoFuel"
| "walk move (Suc fuel) it =
     (if BlockIter_Valid it
      then bindO (move it) (\<lambda>it'. bindO (walk move fuel it') (\<lambda>es. Ret ((BlockIter_key it, BlockIter_value it) # es)))
      else Ret [])"

lemma walk_ended: "ended xs rs it \<Longrightarrow> walk move (Suc n) it = Ret []"
  by (simp add: ended_invalid)

lemma on_entry_pair: "on_entry xs rs i it \<Longrightarrow> (BlockIter_key it, BlockIter_value it) = snd (xs ! i)"
  by (simp add: on_entry_def BlockIter_key_def)

lemma walk_forward: "on_entry xs rs i it \<Longrightarrow> length xs - i < fuel \<Longrightarrow> walk BlockIter_Next fuel it = Ret (map snd (drop i xs))"
proof (induction fuel arbitrary: i it)
  case (Suc fuel)
  then have i: "i < length xs" by (simp add: on_entry_def)
  obtain it' where it': "BlockIter_Next it = Ret it'" "if Suc i < length xs then on_entry xs rs (Suc i) it' else ended xs rs it'"
    using Next_ok [OF Suc.prems(1)] by blast
  have "walk BlockIter_Next fuel it' = Ret (map snd (drop (Suc i) xs))"
  proof (cases "Suc i < length xs")
    case True
    then show ?thesis using Suc.IH [of "Suc i" it'] it'(2) Suc.prems(2) by simp
  next
    case False
    then show ?thesis using it'(2) Suc.prems(2) i walk_ended [of xs rs it' BlockIter_Next "fuel - 1"] by simp
  qed
  then show ?case using on_valid [OF Suc.prems(1)] it'(1) on_entry_pair [OF Suc.prems(1)] i
    by (simp add: Cons_nth_drop_Suc [symmetric])
qed simp

lemma walk_backward: "on_entry xs rs i it \<Longrightarrow> i + 1 < fuel \<Longrightarrow> walk BlockIter_Prev fuel it = Ret (rev (map snd (take (Suc i) xs)))"
proof (induction fuel arbitrary: i it)
  case (Suc fuel)
  then have i: "i < length xs" by (simp add: on_entry_def)
  obtain it' where it': "BlockIter_Prev it = Ret it'" "if i = 0 then ended xs rs it' else on_entry xs rs (i - 1) it'"
    using Prev_ok [OF Suc.prems(1)] by blast
  have "walk BlockIter_Prev fuel it' = Ret (rev (map snd (take i xs)))"
  proof (cases "i = 0")
    case True
    then show ?thesis using it'(2) Suc.prems(2) walk_ended [of xs rs it' BlockIter_Prev "fuel - 1"] by simp
  next
    case False
    then show ?thesis using Suc.IH [of "i - 1" it'] it'(2) Suc.prems(2) by simp
  qed
  then show ?case using on_valid [OF Suc.prems(1)] it'(1) on_entry_pair [OF Suc.prems(1)] i
    by (simp add: take_Suc_conv_app_nth)
qed simp

text \<open>
  C25: a block is what was put into it: for every restart interval, the entries added to a builder
  come back from the finished block in their order when it is walked from \<open>SeekToFirst\<close> with \<open>Next\<close>,
  and in reverse from \<open>SeekToLast\<close> with \<open>Prev\<close>, prefix compression notwithstanding.
\<close>

theorem block_round_trip:
  assumes "\<forall>(k, v)\<in>set es. length k < 2 ^ 32 \<and> length v < 2 ^ 32" and "length (build_block interval es) < 2 ^ 32"
  shows "\<exists>b it. Block_new (build_block interval es) = Ret b \<and> Block_NewIterator C b = Ret (BlockIterator it) \<and>
    bindO (BlockIter_SeekToFirst it) (walk BlockIter_Next (length es + 2)) = Ret es \<and>
    bindO (BlockIter_SeekToLast it) (walk BlockIter_Prev (length es + 2)) = Ret (rev es)"
proof -
  obtain xs rs where x: "build_block interval es = block_bytes xs rs" "layout xs rs" "map snd xs = es"
    using build_block_layout [OF assms] by blast
  obtain b it where b: "Block_new (block_bytes xs rs) = Ret b" "Block_NewIterator C b = Ret (BlockIterator it)" "blk xs rs it"
    using open_block [OF x(2)] by blast
  obtain it1 it2 where it1: "BlockIter_SeekToFirst it = Ret it1" "if xs = [] then ended xs rs it1 else on_entry xs rs 0 it1"
    and it2: "BlockIter_SeekToLast it = Ret it2" "if xs = [] then ended xs rs it2 else on_entry xs rs (length xs - 1) it2"
    using SeekToFirst_ok [OF b(3)] SeekToLast_ok [OF b(3)] by blast
  have l: "length es = length xs" using x(3) by auto
  have "walk BlockIter_Next (length es + 2) it1 = Ret es \<and> walk BlockIter_Prev (length es + 2) it2 = Ret (rev es)"
  proof (cases "xs = []")
    case True
    then show ?thesis using it1(2) it2(2) x(3) walk_ended [of xs rs it1 BlockIter_Next 1] walk_ended [of xs rs it2 BlockIter_Prev 1]
      by (simp add: numeral_2_eq_2)
  next
    case False
    then have "on_entry xs rs 0 it1" "on_entry xs rs (length xs - 1) it2" using it1(2) it2(2) by simp_all
    from walk_forward [OF this(1), of "length es + 2"] walk_backward [OF this(2), of "length es + 2"] show ?thesis
      using l False x(3) by (simp del: walk.simps add: less_Suc_eq_le)
  qed
  then show ?thesis using b(1,2) it1(1) it2(1) x(1) by auto
qed

theorem block_round_trip_witness:
  "\<exists>b it. Block_new (build_block 2 [([1, 2, 3], [7]), ([1, 2, 4], []), ([1, 3], [9, 9])]) = Ret b \<and>
    Block_NewIterator BytewiseComparator b = Ret (BlockIterator it) \<and>
    bindO (BlockIter_SeekToLast it) (walk BlockIter_Prev 5) = Ret [([1, 3], [9, 9]), ([1, 2, 4], []), ([1, 2, 3], [7])]"
proof -
  let ?es = "[([1, 2, 3], [7]), ([1, 2, 4], []), ([1, 3], [9, 9])] :: (byte list \<times> byte list) list"
  have "length (build_block 2 ?es) = 30" by code_simp
  then have "\<exists>b it. Block_new (build_block 2 ?es) = Ret b \<and> Block_NewIterator BytewiseComparator b = Ret (BlockIterator it) \<and>
      bindO (BlockIter_SeekToFirst it) (walk BlockIter_Next (length ?es + 2)) = Ret ?es \<and>
      bindO (BlockIter_SeekToLast it) (walk BlockIter_Prev (length ?es + 2)) = Ret (rev ?es)"
    by (intro block_round_trip) simp_all
  moreover have "Suc (Suc (Suc (Suc (Suc 0)))) = 5" by simp
  ultimately show ?thesis by (auto simp del: walk.simps)
qed

context comparator
begin

lemma seek_block:
  assumes "\<forall>(k, v)\<in>set es. k \<in> keys \<and> length k < 2 ^ 32 \<and> length v < 2 ^ 32" and "target \<in> keys"
    and "length (build_block interval es) < 2 ^ 32" and "sorted_wrt (\<lambda>x y. lt (fst x) (fst y)) es"
  shows "\<exists>b it it'. Block_new (build_block interval es) = Ret b \<and> Block_NewIterator C b = Ret (BlockIterator it) \<and>
    BlockIter_Seek target it = Ret it' \<and> bi_status it' = OK \<and>
    (case find (\<lambda>(k, v). \<not> lt k target) es of
       None \<Rightarrow> \<not> BlockIter_Valid it'
     | Some (k, v) \<Rightarrow> BlockIter_Valid it' \<and> BlockIter_key it' = k \<and> BlockIter_value it' = v)"
proof -
  have "\<forall>(k, v)\<in>set es. length k < 2 ^ 32 \<and> length v < 2 ^ 32" using assms(1) by auto
  from build_block_layout [OF this assms(3)] obtain xs rs where
    x: "build_block interval es = block_bytes xs rs" "layout xs rs" "map snd xs = es" by blast
  obtain b it where b: "Block_new (block_bytes xs rs) = Ret b" "Block_NewIterator C b = Ret (BlockIterator it)"
    "blk xs rs it" "bi_comparator it = C"
    using open_block [OF x(2)] by blast
  have keys: "\<forall>y\<in>set xs. item_key y \<in> keys" using assms(1) unfolding x(3) [symmetric] by force
  have "sorted_wrt (\<lambda>y z. lt (item_key y) (item_key z)) xs" using assms(4) unfolding x(3) [symmetric] by (simp add: sorted_wrt_map)
  from Seek_ok [OF b(3,4) keys assms(2) this] obtain it' j where it': "BlockIter_Seek target it = Ret it'"
    and j: "\<forall>m<j. lt (item_key (xs ! m)) target"
    "if j < length xs then \<not> lt (item_key (xs ! j)) target \<and> on_entry xs rs j it' else j = length xs \<and> ended xs rs it'"
    by blast
  have es: "es ! m = snd (xs ! m)" if "m < length xs" for m using that x(3) by (metis nth_map)
  have len: "length es = length xs" using x(3) by auto
  have "bi_status it' = OK" using j(2) by (auto simp: on_entry_def ended_def blk_def split: if_splits)
  moreover have "case find (\<lambda>(k, v). \<not> lt k target) es of None \<Rightarrow> \<not> BlockIter_Valid it'
      | Some (k, v) \<Rightarrow> BlockIter_Valid it' \<and> BlockIter_key it' = k \<and> BlockIter_value it' = v"
  proof (cases "j < length xs")
    case True
    then have "find (\<lambda>(k, v). \<not> lt k target) es = Some (es ! j)"
      using j es len by (auto simp: find_Some_iff case_prod_unfold intro!: exI [of _ j])
    then show ?thesis using True j(2) es [OF True] on_valid [of xs rs j it'] by (cases "es ! j") (auto simp: on_entry_def BlockIter_key_def)
  next
    case False
    then have "find (\<lambda>(k, v). \<not> lt k target) es = None"
      using j es len by (auto simp: find_None_iff case_prod_unfold in_set_conv_nth)
    then show ?thesis using False j(2) ended_invalid by auto
  qed
  ultimately show ?thesis using x(1) b(1,2) it' by auto
qed

end

text \<open>
  C26: \<open>Seek\<close> on a block whose keys rise in the internal key order: the iterator stops at the first
  entry whose key is not before the target, or runs off the block when there is none, and reports no
  corruption. The binary search over the restart points loses no entry.
\<close>

theorem block_seek_first:
  assumes "\<forall>(k, v)\<in>set es. 8 \<le> length k \<and> length k < 2 ^ 32 \<and> length v < 2 ^ 32" and "8 \<le> length target"
    and "length (build_block interval es) < 2 ^ 32" and "sorted_wrt (\<lambda>x y. ikey_lt bytes_lt (fst x) (fst y)) es"
  shows "\<exists>b it it'. Block_new (build_block interval es) = Ret b \<and>
    Block_NewIterator (InternalKeyComparator BytewiseComparator) b = Ret (BlockIterator it) \<and> BlockIter_Seek target it = Ret it' \<and>
    bi_status it' = OK \<and>
    (case find (\<lambda>(k, v). \<not> ikey_lt bytes_lt k target) es of
       None \<Rightarrow> \<not> BlockIter_Valid it'
     | Some (k, v) \<Rightarrow> BlockIter_Valid it' \<and> BlockIter_key it' = k \<and> BlockIter_value it' = v)"
proof -
  have "\<forall>(k, v)\<in>set es. k \<in> ikeys UNIV \<and> length k < 2 ^ 32 \<and> length v < 2 ^ 32" "target \<in> ikeys UNIV"
    using assms(1,2) by (auto simp: ikeys_def)
  from ik.seek_block [OF this assms(3,4)] show ?thesis by blast
qed

theorem block_seek_first_witness:
  "\<exists>b it it'. Block_new (build_block 1 [([1, 0, 0, 0, 0, 0, 0, 0, 0], [7]), ([3, 0, 0, 0, 0, 0, 0, 0, 0], [8])]) = Ret b \<and>
    Block_NewIterator (InternalKeyComparator BytewiseComparator) b = Ret (BlockIterator it) \<and>
    BlockIter_Seek [2, 0, 0, 0, 0, 0, 0, 0, 0] it = Ret it' \<and> BlockIter_Valid it' \<and> BlockIter_value it' = [8]"
proof -
  let ?es = "[([1, 0, 0, 0, 0, 0, 0, 0, 0], [7]), ([3, 0, 0, 0, 0, 0, 0, 0, 0], [8])] :: (byte list \<times> byte list) list"
  have "length (build_block 1 ?es) = 38" by code_simp
  moreover have "ikey_lt bytes_lt [1, 0, 0, 0, 0, 0, 0, 0, 0] [3, 0, 0, 0, 0, 0, 0, 0, 0]" "ikey_lt bytes_lt [1, 0, 0, 0, 0, 0, 0, 0, 0] [2, 0, 0, 0, 0, 0, 0, 0, 0]"
    "\<not> ikey_lt bytes_lt [3, 0, 0, 0, 0, 0, 0, 0, 0] [2, 0, 0, 0, 0, 0, 0, 0, 0]"
    by (simp_all add: ikey_lt_def ukey_def)
  ultimately show ?thesis using block_seek_first [of ?es "[2, 0, 0, 0, 0, 0, 0, 0, 0]" 1] by auto
qed

end
