(* ===== verification/Table_Correct.thy ===== *)
theory Table_Correct
  imports Table_Reader Block_Correct
begin

text \<open>
  A table file serves the entries that it was built from: a lookup in a finished table finds, for
  every internal key, the first entry that is not before it, as far as that entry has the same user
  key. The proof follows the file from the builder through the index, the filter and the blocks.
\<close>

section \<open>Separators\<close>

abbreviation icmp :: Comparator where
  "icmp \<equiv> InternalKeyComparator BytewiseComparator"

abbreviation ilt :: "byte list \<Rightarrow> byte list \<Rightarrow> bool" where
  "ilt \<equiv> ikey_lt bytes_lt"

abbreviation ik :: "byte list set" where
  "ik \<equiv> ikeys UNIV"

type_synonym entry = "byte list \<times> byte list"

text \<open>
  The index key of a block lies between its last key and the first key of the next block, and, where
  it is not the last key itself, is before the next block already by its user key.
\<close>

definition separates :: "byte list \<Rightarrow> byte list \<Rightarrow> byte list \<Rightarrow> bool" where
  "separates a t b \<longleftrightarrow> ilt t b \<and> (t = a \<or> bytes_lt (ukey t) (ukey b))"

definition covers_last :: "byte list \<Rightarrow> byte list \<Rightarrow> bool" where
  "covers_last a t \<longleftrightarrow> t \<in> ik \<and> (t = a \<or> ilt a t) \<and> length t \<le> length a"

lemma ik_iff: "k \<in> ik \<longleftrightarrow> 8 \<le> length k"
  by (simp add: ikeys_def)

lemma shorten_length: "8 \<le> length key \<Longrightarrow> shorten_user_key C key (ukey key) tmp = Ret t \<Longrightarrow> length t \<le> length key"
  by (auto simp: shorten_user_key_def ukey_def PutFixed64_def split: if_splits)

lemma separator_ok:
  assumes "a \<in> ik" "b \<in> ik" "ilt a b"
  shows "\<exists>t. FindShortestSeparator icmp a b = Ret t \<and> covers_last a t \<and> separates a t b"
proof -
  have l: "8 \<le> length a" "8 \<le> length b" using assms by (simp_all add: ik_iff)
  obtain t where t: "FindShortestSeparator icmp a b = Ret t" "t \<in> ik" "t = a \<or> ilt a t" "ilt t b"
    using ik.separate [OF assms] by blast
  obtain tmp where tmp: "FindShortestSeparator BytewiseComparator (ukey a) (ukey b) = Ret tmp" "shorten_user_key BytewiseComparator a (ukey a) tmp = Ret t"
    using t(1) l by (auto simp: InternalKeyComparator_def InternalKeyComparator_FindShortestSeparator_def ExtractUserKey_eq)
  have "t = a \<or> bytes_lt (ukey t) (ukey b)"
  proof (cases "ukey a = ukey b")
    case True
    then have "tmp = ukey a" using tmp(1) bw.separate_same [of "ukey a"] by simp
    then show ?thesis using tmp(2) by simp
  next
    case False
    then have "bytes_lt (ukey a) (ukey b)" using assms(3) by (simp add: ikey_lt_def)
    from bw.separate [OF _ _ this] tmp(1) have "bytes_lt tmp (ukey b)" by auto
    moreover have "t = a \<or> ukey t = tmp" using shorten_user_key_cases [OF tmp(2)] by auto
    ultimately show ?thesis by auto
  qed
  then show ?thesis using t shorten_length [OF l(1) tmp(2)] by (simp add: separates_def covers_last_def)
qed

lemma successor_ok: "a \<in> ik \<Longrightarrow> \<exists>t. FindShortSuccessor icmp a = Ret t \<and> covers_last a t"
proof -
  assume a: "a \<in> ik"
  then obtain t where t: "FindShortSuccessor icmp a = Ret t" "t \<in> ik" "t = a \<or> ilt a t" using ik.successor by blast
  moreover have "length t \<le> length a"
    using t(1) a shorten_length [of a] by (auto simp: InternalKeyComparator_def InternalKeyComparator_FindShortSuccessor_def ExtractUserKey_eq ik_iff)
  ultimately show ?thesis by (simp add: covers_last_def)
qed

section \<open>Blocks and their index keys\<close>

definition last_key :: "entry list \<Rightarrow> byte list" where
  "last_key es = fst (last es)"

text \<open>\<open>seps\<close> are the index keys of the first blocks of \<open>bs\<close>.\<close>

definition index_ok :: "entry list list \<Rightarrow> byte list list \<Rightarrow> bool" where
  "index_ok bs seps \<longleftrightarrow> [] \<notin> set bs \<and> length seps \<le> length bs \<and> (\<forall>i < length seps. covers_last (last_key (bs ! i)) (seps ! i)) \<and>
     (\<forall>i. i < length seps \<and> Suc i < length bs \<longrightarrow> separates (last_key (bs ! i)) (seps ! i) (fst (hd (bs ! Suc i))))"

definition rising :: "entry list \<Rightarrow> bool" where
  "rising es \<longleftrightarrow> sorted_wrt (\<lambda>x y. ilt (fst x) (fst y)) es \<and> (\<forall>e\<in>set es. fst e \<in> ik)"

lemma rising_append: "rising (xs @ ys) \<longleftrightarrow> rising xs \<and> rising ys \<and> (\<forall>x\<in>set xs. \<forall>y\<in>set ys. ilt (fst x) (fst y))"
  by (auto simp: rising_def sorted_wrt_append)

lemma rising_last: "rising es \<Longrightarrow> e \<in> set es \<Longrightarrow> fst e = last_key es \<or> ilt (fst e) (last_key es)"
proof (induction es rule: rev_induct)
  case (snoc x xs)
  then show ?case by (auto simp: rising_append last_key_def)
qed simp

lemma ilt_le_trans: "a \<in> ik \<Longrightarrow> b \<in> ik \<Longrightarrow> c \<in> ik \<Longrightarrow> a = b \<or> ilt a b \<Longrightarrow> ilt b c \<Longrightarrow> ilt a c"
  using ik.lt_trans by blast

lemma index_before:
  assumes "rising (concat bs)" "index_ok bs seps" "i < length seps" "ilt (seps ! i) k" "k \<in> ik" "e \<in> set (bs ! i)"
  shows "ilt (fst e) k"
proof -
  have i: "i < length bs" using assms(2,3) by (simp add: index_ok_def)
  then have b: "bs ! i \<in> set bs" by simp
  then have "\<exists>xs ys. concat bs = xs @ bs ! i @ ys" by (metis concat.simps(2) concat_append in_set_conv_decomp)
  then have "rising (bs ! i)" using assms(1) by (auto simp: rising_append)
  then have e: "fst e = last_key (bs ! i) \<or> ilt (fst e) (last_key (bs ! i))" "fst e \<in> ik" "last_key (bs ! i) \<in> ik"
    using rising_last [OF _ assms(6)] assms(2,6) b by (auto simp: rising_def last_key_def index_ok_def) (metis last_in_set)
  have s: "seps ! i \<in> ik" "seps ! i = last_key (bs ! i) \<or> ilt (last_key (bs ! i)) (seps ! i)"
    using assms(2,3) by (simp_all add: index_ok_def covers_last_def)
  show ?thesis using e s assms(4,5) ilt_le_trans [of "fst e" "last_key (bs ! i)" "seps ! i"] ilt_le_trans [of "fst e" "seps ! i" k] ilt_le_trans [of "last_key (bs ! i)" "seps ! i" k] by metis
qed

definition same_user :: "byte list \<Rightarrow> entry option \<Rightarrow> entry option" where
  "same_user k r = (case r of Some (k', v) \<Rightarrow> if ukey k' = ukey k then Some (k', v) else None | None \<Rightarrow> None)"

abbreviation at_or_after :: "byte list \<Rightarrow> entry \<Rightarrow> bool" where
  "at_or_after k \<equiv> \<lambda>(k', v). \<not> ilt k' k"

lemma find_append: "find P (xs @ ys) = (case find P xs of Some x \<Rightarrow> Some x | None \<Rightarrow> find P ys)"
  by (induction xs) simp_all

text \<open>The block that the index names holds the entry that a lookup is after, if there is one.\<close>

lemma index_finds:
  assumes "rising (concat bs)" "index_ok bs seps" "i < length seps" "\<forall>j<i. ilt (seps ! j) k" "\<not> ilt (seps ! i) k" "k \<in> ik"
  shows "same_user k (find (at_or_after k) (concat bs)) = same_user k (find (at_or_after k) (bs ! i))"
proof -
  have i: "i < length bs" using assms(2,3) by (simp add: index_ok_def)
  have split: "concat bs = concat (take i bs) @ bs ! i @ concat (drop (Suc i) bs)"
    using i by (metis concat.simps(2) concat_append id_take_nth_drop)
  have "\<forall>e\<in>set (concat (take i bs)). ilt (fst e) k"
  proof
    fix e assume "e \<in> set (concat (take i bs))"
    then obtain b where "b \<in> set (take i bs)" "e \<in> set b" by auto
    then obtain j where "j < length (take i bs)" "take i bs ! j = b" "e \<in> set b" unfolding in_set_conv_nth by blast
    then have "j < i" "e \<in> set (bs ! j)" by simp_all
    moreover have "j < length seps" "ilt (seps ! j) k" using \<open>j < i\<close> assms(3,4) by simp_all
    ultimately show "ilt (fst e) k" using index_before [OF assms(1,2) _ _ assms(6)] by blast
  qed
  then have "find (at_or_after k) (concat (take i bs)) = None" unfolding find_None_iff case_prod_unfold by blast
  then have f: "find (at_or_after k) (concat bs) =
      (case find (at_or_after k) (bs ! i) of Some x \<Rightarrow> Some x | None \<Rightarrow> find (at_or_after k) (concat (drop (Suc i) bs)))"
    unfolding split find_append by simp
  show ?thesis
  proof (cases "find (at_or_after k) (bs ! i)")
    case (Some e)
    then show ?thesis using f by simp
  next
    case None
    have ne: "bs ! i \<noteq> []" using assms(2) i by (metis index_ok_def nth_mem)
    then have "last (bs ! i) \<in> set (bs ! i)" by simp
    then have last: "ilt (last_key (bs ! i)) k" using None unfolding find_None_iff last_key_def case_prod_unfold by blast
    then have nl: "seps ! i \<noteq> last_key (bs ! i)" using assms(5) by auto
    show ?thesis
    proof (cases "Suc i < length bs")
      case False
      then show ?thesis using f None by (simp add: same_user_def)
    next
      case True
      then have "bs ! Suc i \<noteq> []" using assms(2) by (metis index_ok_def nth_mem)
      then obtain n es where es: "bs ! Suc i = n # es" by (cases "bs ! Suc i") auto
      have sep: "ilt (seps ! i) (fst n)" "bytes_lt (ukey (seps ! i)) (ukey (fst n))"
        using assms(2,3) True nl es by (auto simp: index_ok_def separates_def)
      have keys: "seps ! i \<in> ik" "fst n \<in> ik"
        using assms(1-3) True es by (auto simp: index_ok_def covers_last_def rising_def) (metis list.set_intros(1) nth_mem)
      have kle: "k = seps ! i \<or> ilt k (seps ! i)" using ik.lt_total [OF assms(6) keys(1)] assms(5) by blast
      then have "\<not> ilt (fst n) k" using sep(1) keys assms(6) ik.lt_asym ilt_le_trans by metis
      then have "find (at_or_after k) (concat (drop (Suc i) bs)) = Some n"
        using True es by (simp add: Cons_nth_drop_Suc [symmetric] case_prod_unfold)
      moreover have "bytes_lt (ukey k) (ukey (fst n))"
        using kle sep(2) bw.lt_trans [of "ukey k" "ukey (seps ! i)" "ukey (fst n)"] by (auto simp: ikey_lt_def)
      then have "ukey (fst n) \<noteq> ukey k" using bw.lt_irrefl by auto
      ultimately show ?thesis using f None by (cases n) (simp add: same_user_def)
    qed
  qed
qed

section \<open>Filters that look at user keys\<close>

locale user_filter = filter_policy P "ikeys UNIV" for P +
  assumes total: "k \<in> ikeys UNIV \<Longrightarrow> isRet (KeyMayMatch P k f)"
    and user_only: "k \<in> ikeys UNIV \<Longrightarrow> k' \<in> ikeys UNIV \<Longrightarrow> ukey k = ukey k' \<Longrightarrow> KeyMayMatch P k f = KeyMayMatch P k' f"

interpretation ubloom: user_filter "InternalFilterPolicy (BloomFilterPolicy n)" for n
proof (unfold_locales, goal_cases)
  case (1 k f)
  then show ?case using Bloom_KeyMayMatch_ret by (simp add: InternalFilterPolicy_def BloomFilterPolicy_def ExtractUserKey_eq ikeys_def)
next
  case (2 k k' f)
  then show ?case by (simp add: InternalFilterPolicy_def ExtractUserKey_eq ikeys_def)
qed

lemma DecodeFixed32_ret: "4 \<le> length p \<Longrightarrow> \<exists>v. DecodeFixed32 p = Ret v"
  by (simp add: DecodeFixed32_def)

context user_filter
begin

lemma filter_reader_total:
  assumes "FilterBlockReader_new contents = Ret r" "fr_base_lg r < 64" "k \<in> ikeys UNIV"
  shows "\<exists>m. FilterBlock_KeyMayMatch P r off k = Ret m"
proof (cases "unat (drop_bit (fr_base_lg r) off) < fr_num r")
  case False
  then show ?thesis using assms(2) by (intro exI [of _ True]) (simp add: FilterBlock_KeyMayMatch_def)
next
  case True
  let ?n = "length contents" and ?i = "unat (drop_bit (fr_base_lg r) off)"
  have r: "fr_data r = contents" "fr_num r = (?n - 5 - fr_offset r) div 4" "fr_offset r \<le> ?n - 5" "5 \<le> ?n"
    using assms(1) True by (auto simp: FilterBlockReader_new_def Let_def split: if_splits)
  have "Suc ?i \<le> (?n - 5 - fr_offset r) div 4" using True r(2) by simp
  then have "Suc ?i * 4 \<le> ?n - 5 - fr_offset r" by (simp only: less_eq_div_iff_mult_less_eq)
  then have b: "fr_offset r + ?i * 4 + 8 \<le> ?n" using r(3,4) by simp
  then have "4 \<le> length (drop (fr_offset r + ?i * 4) contents)" "4 \<le> length (drop (fr_offset r + ?i * 4 + 4) contents)" by simp_all
  then obtain s l where s: "DecodeFixed32 (drop (fr_offset r + ?i * 4) contents) = Ret s" "DecodeFixed32 (drop (fr_offset r + ?i * 4 + 4) contents) = Ret l"
    using DecodeFixed32_ret by blast
  have "\<exists>m. KeyMayMatch P k f = Ret m" for f using total [OF assms(3)] by (simp add: isRet_iff)
  then show ?thesis using True assms(2) s r(1) by (simp add: FilterBlock_KeyMayMatch_def) blast
qed

lemma filter_user_only:
  assumes "k \<in> ikeys UNIV" "k' \<in> ikeys UNIV" "ukey k = ukey k'"
  shows "FilterBlock_KeyMayMatch P r off k = FilterBlock_KeyMayMatch P r off k'"
  unfolding FilterBlock_KeyMayMatch_def user_only [OF assms] by (rule refl)

end

section \<open>Looking a key up in a table\<close>

abbreviation data_block :: "int \<Rightarrow> entry list \<Rightarrow> byte list" where
  "data_block ival es \<equiv> stored_block (build_block ival es)"

definition block_offset_of :: "int \<Rightarrow> entry list list \<Rightarrow> nat \<Rightarrow> nat" where
  "block_offset_of ival bs i = part (map (data_block ival) bs) i"

definition data_handle :: "int \<Rightarrow> entry list list \<Rightarrow> nat \<Rightarrow> BlockHandle" where
  "data_handle ival bs i = \<lparr>bh_offset = of_nat (block_offset_of ival bs i), bh_size = of_nat (length (build_block ival (bs ! i)))\<rparr>"

definition index_entries :: "int \<Rightarrow> entry list list \<Rightarrow> byte list list \<Rightarrow> entry list" where
  "index_entries ival bs seps = map (\<lambda>i. (seps ! i, handle_bytes (data_handle ival bs i))) [0..<length seps]"

definition cache_key :: "Table \<Rightarrow> BlockHandle \<Rightarrow> byte list" where
  "cache_key t h = EncodeFixed64 (tr_cache_id t) @ EncodeFixed64 (bh_offset h)"

text \<open>What a table relies on in the cache: a block that it finds under its key is the one of the file.\<close>

definition cache_ok :: "'c Cache option \<Rightarrow> Table \<Rightarrow> int \<Rightarrow> entry list list \<Rightarrow> 'c \<Rightarrow> bool" where
  "cache_ok block_cache t ival bs c \<longleftrightarrow>
     (case block_cache of
        None \<Rightarrow> True
      | Some K \<Rightarrow> (\<forall>i < length bs. \<forall>b c'. Cache_Lookup K (cache_key t (data_handle ival bs i)) c = (Some b, c') \<longrightarrow>
          Block_new (build_block ival (bs ! i)) = Ret b))"

definition filter_ok :: "Table \<Rightarrow> int \<Rightarrow> entry list list \<Rightarrow> bool" where
  "filter_ok t ival bs \<longleftrightarrow>
     (case tr_filter t of
        None \<Rightarrow> True
      | Some (P, reader) \<Rightarrow>
          (\<forall>k\<in>ik. \<forall>off. \<exists>m. FilterBlock_KeyMayMatch P reader off k = Ret m) \<and>
          (\<forall>k\<in>ik. \<forall>i < length bs. \<forall>e\<in>set (bs ! i). ukey (fst e) = ukey k \<longrightarrow>
             FilterBlock_KeyMayMatch P reader (of_nat (block_offset_of ival bs i)) k = Ret True))"

definition sizes_ok :: "entry list \<Rightarrow> bool" where
  "sizes_ok es \<longleftrightarrow> (\<forall>(k, v)\<in>set es. length k < 2 ^ 32 \<and> length v < 2 ^ 32)"

lemma data_split:
  assumes "i < length bs"
  shows "\<exists>post. concat (map (data_block ival) bs) = concat (map (data_block ival) (take i bs)) @ data_block ival (bs ! i) @ post \<and>
    block_offset_of ival bs i = length (concat (map (data_block ival) (take i bs)))"
proof -
  have "map (data_block ival) bs = map (data_block ival) (take i bs @ bs ! i # drop (Suc i) bs)"
    by (rule arg_cong [OF id_take_nth_drop [OF assms]])
  then have "concat (map (data_block ival) bs) =
      concat (map (data_block ival) (take i bs)) @ data_block ival (bs ! i) @ concat (map (data_block ival) (drop (Suc i) bs))"
    by (simp only: map_append list.map concat_append concat.simps)
  then show ?thesis unfolding block_offset_of_def part_def take_map by blast
qed

lemma entries_of_block:
  assumes "rising (concat bs)" "sizes_ok (concat bs)" "i < length bs"
  shows "rising (bs ! i)" "sizes_ok (bs ! i)"
proof -
  have "bs ! i \<in> set bs" using assms(3) by simp
  then obtain xs ys where "concat bs = xs @ bs ! i @ ys" by (metis concat.simps(2) concat_append in_set_conv_decomp)
  with assms(1,2) show "rising (bs ! i)" "sizes_ok (bs ! i)" by (auto simp: rising_append sizes_ok_def)
qed

text \<open>Seeking in a block that was built from rising entries, through the iterators of \<open>NewIterator\<close>.\<close>

lemma Iterator_block:
  assumes "rising es" "sizes_ok es" "k \<in> ik" "length (build_block ival es) < 2 ^ 32"
  shows "\<exists>b it it'. Block_new (build_block ival es) = Ret b \<and> Block_NewIterator icmp b = Ret it \<and> Iterator_Seek k it = Ret it' \<and>
    Iterator_status it' = OK \<and> (if Iterator_Valid it' then Some (Iterator_key it', Iterator_value it') else None) = find (at_or_after k) es"
proof -
  have "\<forall>(k, v)\<in>set es. k \<in> ik \<and> length k < 2 ^ 32 \<and> length v < 2 ^ 32" using assms(1,2) by (auto simp: rising_def sizes_ok_def)
  from ik.seek_block [OF this assms(3,4)] assms(1) obtain b it it' where
    "Block_new (build_block ival es) = Ret b" "Block_NewIterator icmp b = Ret (BlockIterator it)" "BlockIter_Seek k it = Ret it'" "bi_status it' = OK"
    "case find (at_or_after k) es of None \<Rightarrow> \<not> BlockIter_Valid it'
      | Some (k, v) \<Rightarrow> BlockIter_Valid it' \<and> BlockIter_key it' = k \<and> BlockIter_value it' = v"
    unfolding rising_def by blast
  then show ?thesis
    by (intro exI [of _ b] exI [of _ "BlockIterator it"] exI [of _ "BlockIterator it'"]) (auto split: option.splits)
qed

lemma rising_blocks:
  assumes "rising (concat bs)" "i < j" "j < length bs" "x \<in> set (bs ! i)" "y \<in> set (bs ! j)"
  shows "ilt (fst x) (fst y)"
proof -
  have "concat bs = concat (take j bs @ bs ! j # drop (Suc j) bs)" by (rule arg_cong [OF id_take_nth_drop [OF assms(3)]])
  then have "rising (concat (take j bs) @ bs ! j @ concat (drop (Suc j) bs))" using assms(1) by simp
  then have r: "\<forall>x\<in>set (concat (take j bs)). \<forall>y\<in>set (bs ! j). ilt (fst x) (fst y)" by (simp add: rising_append)
  have "bs ! i = take j bs ! i" "i < length (take j bs)" using assms(2,3) by simp_all
  then have "bs ! i \<in> set (take j bs)" by (metis nth_mem)
  with r assms(4,5) show ?thesis by auto
qed

lemma index_entries_rising:
  assumes "rising (concat bs)" "index_ok bs seps" "sizes_ok (concat bs)"
  shows "rising (index_entries ival bs seps)" "sizes_ok (index_entries ival bs seps)"
proof -
  have key: "last_key (bs ! i) \<in> ik" "length (last_key (bs ! i)) < 2 ^ 32" "seps ! i \<in> ik" "length (seps ! i) \<le> length (last_key (bs ! i))" if "i < length seps" for i
  proof -
    have i: "i < length bs" "bs ! i \<noteq> []" using assms(2) that by (auto simp: index_ok_def) (metis nth_mem order_less_le_trans)
    then have "last (bs ! i) \<in> set (bs ! i)" by simp
    then show "last_key (bs ! i) \<in> ik" "length (last_key (bs ! i)) < 2 ^ 32"
      using entries_of_block [OF assms(1,3) i(1)] by (auto simp: rising_def sizes_ok_def last_key_def)
    show "seps ! i \<in> ik" "length (seps ! i) \<le> length (last_key (bs ! i))" using assms(2) that by (simp_all add: index_ok_def covers_last_def)
  qed
  have "ilt (seps ! i) (seps ! j)" if "i < j" "j < length seps" for i j
  proof (rule ccontr)
    assume n: "\<not> ilt (seps ! i) (seps ! j)"
    have b: "Suc i < length bs" "j < length bs" "i < length seps" using that assms(2) by (auto simp: index_ok_def)
    then obtain n es where es: "bs ! Suc i = n # es" using assms(2) by (metis index_ok_def neq_Nil_conv nth_mem)
    then have sep: "ilt (seps ! i) (fst n)" using assms(2) b by (auto simp: index_ok_def separates_def)
    have s: "rising (bs ! Suc i)" by (rule entries_of_block [OF assms(1,3) b(1)])
    then have nk: "fst n \<in> ik" using es by (simp add: rising_def)
    have "seps ! j = seps ! i \<or> ilt (seps ! j) (seps ! i)" using ik.lt_total [OF key(3) [OF b(3)] key(3) [OF that(2)]] n by auto
    then have "ilt (seps ! j) (fst n)" using ilt_le_trans [OF key(3) [OF that(2)] key(3) [OF b(3)] nk] sep by blast
    then have lastn: "ilt (last_key (bs ! j)) (fst n)"
      using ilt_le_trans [OF key(1) [OF that(2)] key(3) [OF that(2)] nk] assms(2) that(2) by (auto simp: index_ok_def covers_last_def)
    have lj: "last (bs ! j) \<in> set (bs ! j)" using assms(2) b(2) by (metis index_ok_def last_in_set nth_mem)
    have "fst n = last_key (bs ! j) \<or> ilt (fst n) (last_key (bs ! j))"
    proof (cases "j = Suc i")
      case True
      then show ?thesis using rising_last [OF s, of n] es by simp
    next
      case False
      then have "Suc i < j" using that by simp
      from rising_blocks [OF assms(1) this b(2) _ lj] es have "ilt (fst n) (fst (last (bs ! j)))" by simp
      then show ?thesis by (simp add: last_key_def)
    qed
    then show False using lastn ik.lt_asym [OF nk key(1) [OF that(2)]] ik.lt_irrefl nk by auto
  qed
  then have "sorted_wrt (\<lambda>x y. ilt (fst x) (fst y)) (index_entries ival bs seps)"
    by (auto simp: sorted_wrt_iff_nth_less index_entries_def)
  then show "rising (index_entries ival bs seps)" using key(3) by (auto simp: rising_def index_entries_def)
  have "length (handle_bytes h) < 2 ^ 32" for h using handle_bytes_length [of h] by simp
  then show "sizes_ok (index_entries ival bs seps)" using key by (fastforce simp: sizes_ok_def index_entries_def)
qed

lemma handle_decode: "BlockHandle_DecodeFrom (handle_bytes h) h0 = (OK, [], h)"
  using BlockHandle_DecodeFrom_bytes [of h "[]" h0] by simp

context random_access_file
begin

lemma read_data_block:
  assumes "length data < 2 ^ 32" "data = concat (map (data_block ival) bs) @ rest" "i < length bs"
    and "tr_file t = R" "Block_new (build_block ival (bs ! i)) = Ret b"
  shows "\<exists>x. read_uncached place t options (data_handle ival bs i) = Ret (OK, Some (b, x))"
proof -
  obtain post where d: "concat (map (data_block ival) bs) = concat (map (data_block ival) (take i bs)) @ data_block ival (bs ! i) @ post"
    "block_offset_of ival bs i = length (concat (map (data_block ival) (take i bs)))"
    using data_split [OF assms(3)] by blast
  let ?pre = "concat (map (data_block ival) (take i bs))"
  have data: "data = ?pre @ data_block ival (bs ! i) @ (post @ rest)" unfolding assms(2) d(1) by simp
  then have "length ?pre + length (build_block ival (bs ! i)) < 2 ^ 32" using assms(1) by simp
  then have "unat (bh_offset (data_handle ival bs i)) = length ?pre" "unat (bh_size (data_handle ival bs i)) = length (build_block ival (bs ! i))"
    by (simp_all add: data_handle_def d(2))
  from ReadBlock_stored [OF _ data this] assms(1) obtain x where "ReadBlock place R options (data_handle ival bs i) = Ret (OK, x)" "bc_data x = build_block ival (bs ! i)"
    by auto
  then show ?thesis using assms(4,5) by (simp add: read_uncached_def ok_def)
qed

lemma BlockReader_ok:
  assumes "length data < 2 ^ 32" "data = concat (map (data_block ival) bs) @ rest" "i < length bs"
    and "tr_file t = R" "Block_new (build_block ival (bs ! i)) = Ret b" "cache_ok block_cache t ival bs c"
  shows "\<exists>c'. Table_BlockReader place block_cache t options (handle_bytes (data_handle ival bs i)) c =
    bindO (Block_NewIterator (op_comparator (tr_options t)) b) (\<lambda>it. Ret (it, c'))"
proof -
  obtain x where x: "read_uncached place t options (data_handle ival bs i) = Ret (OK, Some (b, x))"
    using read_data_block [OF assms(1-5)] by blast
  show ?thesis
  proof (cases block_cache)
    case None
    then show ?thesis by (intro exI [of _ c]) (simp add: Table_BlockReader_def handle_decode ok_def x)
  next
    case (Some K)
    obtain found c1 where f: "Cache_Lookup K (cache_key t (data_handle ival bs i)) c = (found, c1)" by fastforce
    have "found = Some b' \<Longrightarrow> b' = b" for b' using assms(3,5,6) f Some by (auto simp: cache_ok_def)
    then show ?thesis using Some f x by (cases found) (auto simp: Table_BlockReader_def handle_decode ok_def cache_key_def)
  qed
qed

lemma InternalGet_ok:
  assumes "length data < 2 ^ 32" "data = concat (map (data_block ival) bs) @ rest"
    and "rising (concat bs)" "sizes_ok (concat bs)" "index_ok bs seps" "length seps = length bs" "k \<in> ik"
    and "tr_file t = R" "op_comparator (tr_options t) = icmp" "Block_new (build_block 1 (index_entries ival bs seps)) = Ret (tr_index_block t)"
    and "length (build_block 1 (index_entries ival bs seps)) < 2 ^ 32" "filter_ok t ival bs" "cache_ok block_cache t ival bs c"
  shows "\<exists>r c'. Table_InternalGet place block_cache t options k c = Ret (OK, r, c') \<and>
    same_user k r = same_user k (find (at_or_after k) (concat bs))"
proof -
  let ?ix = "index_entries ival bs seps"
  obtain it it' where it: "Block_NewIterator icmp (tr_index_block t) = Ret it" "Iterator_Seek k it = Ret it'" "Iterator_status it' = OK"
    and f: "(if Iterator_Valid it' then Some (Iterator_key it', Iterator_value it') else None) = find (at_or_after k) ?ix"
    using Iterator_block [OF index_entries_rising [OF assms(3,5,4), of ival] assms(7,11)] assms(10) by auto
  show ?thesis
  proof (cases "find (at_or_after k) ?ix")
    case None
    then have v: "\<not> Iterator_Valid it'" using f by (auto split: if_splits)
    have "ilt (fst e) k" if e: "e \<in> set (concat bs)" for e
    proof -
      obtain b where b: "b \<in> set bs" "e \<in> set b" using e by auto
      then obtain i where "i < length bs" "bs ! i = b" unfolding in_set_conv_nth by blast
      then have i: "i < length bs" "e \<in> set (bs ! i)" using b(2) by simp_all
      then have "?ix ! i \<in> set ?ix" using assms(6) by (simp add: index_entries_def)
      then have "ilt (seps ! i) k" using None i(1) assms(6) unfolding find_None_iff by (auto simp: index_entries_def)
      then show ?thesis using index_before [OF assms(3,5) _ _ assms(7) i(2)] i(1) assms(6) by simp
    qed
    then have "find (at_or_after k) (concat bs) = None" unfolding find_None_iff case_prod_unfold by blast
    then show ?thesis using v it assms(9) by (simp add: Table_InternalGet_def ok_def)
  next
    case (Some e)
    then obtain i where i: "i < length seps" "e = ?ix ! i" "\<not> ilt (fst (?ix ! i)) k" "\<forall>j<i. ilt (fst (?ix ! j)) k"
      unfolding find_Some_iff case_prod_unfold by (auto simp: index_entries_def)
    then have s: "\<not> ilt (seps ! i) k" "\<forall>j<i. ilt (seps ! j) k" "i < length bs" using assms(6) by (simp_all add: index_entries_def)
    have v: "Iterator_Valid it'" "Iterator_value it' = handle_bytes (data_handle ival bs i)"
      using f Some i(1,2) by (auto simp: index_entries_def split: if_splits)
    have fnd: "same_user k (find (at_or_after k) (concat bs)) = same_user k (find (at_or_after k) (bs ! i))"
      by (rule index_finds [OF assms(3,5) i(1) s(2,1) assms(7)])
    obtain post where "concat (map (data_block ival) bs) = concat (map (data_block ival) (take i bs)) @ data_block ival (bs ! i) @ post"
      using data_split [OF s(3)] by blast
    then have "length (build_block ival (bs ! i)) < 2 ^ 32" using assms(1,2) by simp
    from Iterator_block [OF entries_of_block [OF assms(3,4) s(3)] assms(7) this] obtain b bi bi' where
      b: "Block_new (build_block ival (bs ! i)) = Ret b" "Block_NewIterator icmp b = Ret bi" "Iterator_Seek k bi = Ret bi'" "Iterator_status bi' = OK"
      "(if Iterator_Valid bi' then Some (Iterator_key bi', Iterator_value bi') else None) = find (at_or_after k) (bs ! i)" by blast
    obtain c' where c': "Table_BlockReader place block_cache t options (handle_bytes (data_handle ival bs i)) c = Ret (bi, c')"
      using BlockReader_ok [OF assms(1,2) s(3) assms(8) b(1) assms(13), of place options] b(2) assms(9) by auto
    let ?f = "case tr_filter t of Some (P, reader) \<Rightarrow> FilterBlock_KeyMayMatch P reader (bh_offset (data_handle ival bs i)) k | None \<Rightarrow> Ret True"
    have step: "Table_InternalGet place block_cache t options k c =
        bindO ?f (\<lambda>m. if m then Ret (OK, find (at_or_after k) (bs ! i), c') else Ret (OK, None, c))"
      using it v c' b(3-5) assms(9) by (cases "tr_filter t") (auto simp: Table_InternalGet_def handle_decode ok_def bindO_assoc intro!: bindO_cong)
    have "\<exists>m. ?f = Ret m \<and> (m \<or> same_user k (find (at_or_after k) (bs ! i)) = None)"
    proof (cases "tr_filter t")
      case (Some pr)
      obtain P reader where pr: "pr = (P, reader)" by (cases pr)
      then obtain m where m: "FilterBlock_KeyMayMatch P reader (bh_offset (data_handle ival bs i)) k = Ret m"
        using assms(7,12) Some by (fastforce simp: filter_ok_def)
      moreover have "m" if "find (at_or_after k) (bs ! i) = Some e" "ukey (fst e) = ukey k" for e
      proof -
        have "e \<in> set (bs ! i)" using that(1) unfolding find_Some_iff by (metis nth_mem)
        then show ?thesis using assms(7,12) Some pr s(3) that(2) m by (fastforce simp: filter_ok_def data_handle_def)
      qed
      ultimately show ?thesis using Some pr by (auto simp: same_user_def split: option.splits)
    next
      case None
      then show ?thesis by (intro exI [of _ True]) simp
    qed
    then obtain m where m: "?f = Ret m" "m \<or> same_user k (find (at_or_after k) (bs ! i)) = None" by blast
    have "Table_InternalGet place block_cache t options k c = (if m then Ret (OK, find (at_or_after k) (bs ! i), c') else Ret (OK, None, c))"
      unfolding step m(1) by simp
    moreover have "same_user k None = None" by (simp add: same_user_def)
    ultimately show ?thesis using fnd m(2) by (cases m) auto
  qed
qed

end

section \<open>Opening a table\<close>

definition meta_entries :: "(byte list \<times> FilterPolicy) option \<Rightarrow> BlockHandle \<Rightarrow> entry list" where
  "meta_entries pol h = (case pol of None \<Rightarrow> [] | Some (name, P) \<Rightarrow> [(filter_key name, handle_bytes h)])"

text \<open>Everything behind the data blocks, which end at \<open>pos\<close>: filter, metaindex, index and footer.\<close>

definition handle_at :: "nat \<Rightarrow> byte list \<Rightarrow> BlockHandle" where
  "handle_at pos b = \<lparr>bh_offset = of_nat pos, bh_size = of_nat (length b)\<rparr>"

definition filter_part :: "byte list option \<Rightarrow> byte list" where
  "filter_part f = (case f of None \<Rightarrow> [] | Some b \<Rightarrow> stored_block b)"

definition filter_handle :: "nat \<Rightarrow> byte list option \<Rightarrow> BlockHandle" where
  "filter_handle pos f = (case f of None \<Rightarrow> BlockHandle_new | Some b \<Rightarrow> handle_at pos b)"

definition tail_bytes :: "nat \<Rightarrow> byte list option \<Rightarrow> byte list \<Rightarrow> byte list \<Rightarrow> byte list" where
  "tail_bytes pos f meta index =
     filter_part f @ stored_block meta @ stored_block index @
     Footer_EncodeTo \<lparr>metaindex_handle = handle_at (pos + length (filter_part f)) meta,
       index_handle = handle_at (pos + length (filter_part f) + length meta + 5) index\<rparr> []"

lemma seek_meta:
  assumes "length (filter_key name) < 2 ^ 32" "length (build_block ival [(filter_key name, handle_bytes h)]) < 2 ^ 32"
  shows "\<exists>b it it'. Block_new (build_block ival [(filter_key name, handle_bytes h)]) = Ret b \<and> Block_NewIterator BytewiseComparator b = Ret it \<and>
    Iterator_Seek (filter_key name) it = Ret it' \<and> Iterator_Valid it' \<and> Iterator_key it' = filter_key name \<and> Iterator_value it' = handle_bytes h"
proof -
  have "length (handle_bytes h) < 2 ^ 32" using handle_bytes_length [of h] by simp
  then have "\<forall>(k, v)\<in>set [(filter_key name, handle_bytes h)]. k \<in> UNIV \<and> length k < 2 ^ 32 \<and> length v < 2 ^ 32" using assms(1) by simp
  from bw.seek_block [OF this UNIV_I assms(2), of "filter_key name"] obtain b it it' where
    "Block_new (build_block ival [(filter_key name, handle_bytes h)]) = Ret b" "Block_NewIterator BytewiseComparator b = Ret (BlockIterator it)"
    "BlockIter_Seek (filter_key name) it = Ret it'" "BlockIter_Valid it'" "BlockIter_key it' = filter_key name" "BlockIter_value it' = handle_bytes h"
    using bw.lt_irrefl [of "filter_key name"] by auto
  then show ?thesis by (intro exI [of _ b] exI [of _ "BlockIterator it"] exI [of _ "BlockIterator it'"]) simp
qed

context random_access_file
begin

lemma read_at:
  assumes "length data < 2 ^ 32" "data = pre @ stored_block b @ post" "pos = length pre"
  shows "\<exists>c. ReadBlock place R options (handle_at pos b) = Ret (OK, c) \<and> bc_data c = b"
proof -
  have "unat (bh_offset (handle_at pos b)) = length pre" "unat (bh_size (handle_at pos b)) = length b"
    using assms by (simp_all add: handle_at_def)
  from ReadBlock_stored [OF _ assms(2) this] assms(1) show ?thesis by simp
qed

lemma ReadMeta_ok:
  assumes "length data < 2 ^ 32" "data = D @ tail_bytes (length D) f meta index" "tr_file t = R" "op_filter_policy (tr_options t) = Some (name, P)"
    and "f = Some b" "meta = build_block ival [(filter_key name, handle_bytes (filter_handle (length D) f))]"
    and "length (filter_key name) < 2 ^ 32" "FilterBlockReader_new b = Ret reader" "metaindex_handle footer = handle_at (length D + length (filter_part f)) meta"
  shows "ReadMeta place footer t = Ret (t\<lparr>tr_filter := Some (P, reader)\<rparr>)"
proof -
  have d1: "data = D @ stored_block b @ (stored_block meta @ stored_block index @ drop (length (filter_part f @ stored_block meta @ stored_block index)) (tail_bytes (length D) f meta index))"
    unfolding assms(2) by (simp add: tail_bytes_def filter_part_def assms(5))
  then have d2: "data = (D @ stored_block b) @ stored_block meta @ (stored_block index @ drop (length (filter_part f @ stored_block meta @ stored_block index)) (tail_bytes (length D) f meta index))"
    by simp
  have fp: "length D + length (filter_part f) = length (D @ stored_block b)" by (simp add: filter_part_def assms(5))
  obtain c where c: "ReadBlock place R (meta_options (tr_options t)) (handle_at (length D + length (filter_part f)) meta) = Ret (OK, c)" "bc_data c = meta"
    using read_at [OF assms(1) d2 fp] by blast
  obtain c' where c': "ReadBlock place R (meta_options (tr_options t)) (handle_at (length D) b) = Ret (OK, c')" "bc_data c' = b"
    using read_at [OF assms(1) d1 refl] by blast
  have "length meta < 2 ^ 32" using assms(1) d2 by simp
  from seek_meta [OF assms(7) this [unfolded assms(6)]] obtain m it it' where
    m: "Block_new meta = Ret m" "Block_NewIterator BytewiseComparator m = Ret it" "Iterator_Seek (filter_key name) it = Ret it'" "Iterator_Valid it'"
      "Iterator_key it' = filter_key name" "Iterator_value it' = handle_bytes (filter_handle (length D) f)" unfolding assms(6) by blast
  have "ReadFilter place (handle_bytes (filter_handle (length D) f)) P t = Ret (t\<lparr>tr_filter := Some (P, reader)\<rparr>)"
    using c' assms(3,8) by (simp add: ReadFilter_def handle_decode filter_handle_def assms(5) ok_def)
  then show ?thesis using m c assms(3,4,9) by (simp add: ReadMeta_def ok_def)
qed

lemma Open_ok:
  assumes "length data < 2 ^ 32" "data = D @ tail_bytes (length D) f meta index" "Block_new index = Ret ib"
    and "case op_filter_policy op of None \<Rightarrow> True
      | Some (name, P) \<Rightarrow> length (filter_key name) < 2 ^ 32 \<and> (\<exists>b. f = Some b \<and> FilterBlockReader_new b = Ret reader) \<and>
          meta = build_block ival [(filter_key name, handle_bytes (filter_handle (length D) f))]"
  shows "\<exists>t. Table_Open place cid op R (of_nat (length data)) = Ret (OK, Some t) \<and> tr_file t = R \<and> tr_options t = op \<and> tr_cache_id t = cid \<and> tr_index_block t = ib \<and>
    tr_filter t = map_option (\<lambda>(name, P). (P, reader)) (op_filter_policy op)"
proof -
  define footer where "footer = \<lparr>metaindex_handle = handle_at (length D + length (filter_part f)) meta,
    index_handle = handle_at (length D + length (filter_part f) + length meta + 5) index\<rparr>"
  let ?pre = "D @ filter_part f @ stored_block meta @ stored_block index"
  have d: "data = ?pre @ Footer_EncodeTo footer []" unfolding assms(2) by (simp add: tail_bytes_def footer_def)
  have n: "length data = length ?pre + 48" unfolding d by (simp add: Footer_EncodeTo_length)
  have "unat (of_nat (m + 48) - 48 :: u64) = m" "\<not> (of_nat (m + 48) :: u64) < 48" if "m < 2 ^ 32" for m
  proof -
    have "(of_nat (m + 48) - 48 :: u64) = of_nat m" by simp
    then show "unat (of_nat (m + 48) - 48 :: u64) = m" using that by simp
    have "unat (of_nat (m + 48) :: u64) = m + 48" using that by (simp del: of_nat_add)
    then show "\<not> (of_nat (m + 48) :: u64) < 48" by (simp add: word_less_nat_alt del: of_nat_add)
  qed
  from this [of "length ?pre"] assms(1) n
  have u: "unat (of_nat (length data) - 48 :: u64) = length ?pre" "\<not> (of_nat (length data) :: u64) < 48"
    unfolding n by linarith+
  have "length data < 2 ^ 63" using assms(1) by simp
  moreover have "unat (of_nat (length data) - 48 :: u64) + unat (48 :: u64) \<le> length data" unfolding u(1) using n by simp
  ultimately have "\<exists>x. R (of_nat (length data) - 48) 48 = Ret (OK, take (unat (48 :: u64)) (drop (length ?pre) data), x)"
    using read unfolding u(1) [symmetric] by blast
  moreover have "take (unat (48 :: u64)) (drop (length ?pre) data) = Footer_EncodeTo footer []"
    unfolding d using Footer_EncodeTo_length [of footer] by simp
  ultimately obtain x where x: "R (of_nat (length data) - 48) 48 = Ret (OK, Footer_EncodeTo footer [], x)" by metis
  have foot: "Footer_DecodeFrom (Footer_EncodeTo footer []) = Ret (OK, [], footer)" using Footer_round_trip [of footer "[]"] by simp
  have di: "data = (D @ filter_part f @ stored_block meta) @ stored_block index @ Footer_EncodeTo footer []" unfolding d by simp
  have pi: "length D + length (filter_part f) + length meta + 5 = length (D @ filter_part f @ stored_block meta)" by simp
  obtain c where c: "ReadBlock place R (meta_options op) (index_handle footer) = Ret (OK, c)" "bc_data c = index"
    using read_at [OF assms(1) di pi, of place "meta_options op"] by (auto simp: footer_def)
  define t where "t = \<lparr>tr_options = op, tr_file = R, tr_cache_id = cid, tr_filter = None, tr_metaindex_handle = metaindex_handle footer, tr_index_block = ib\<rparr>"
  have "Table_Open place cid op R (of_nat (length data)) = bindO (ReadMeta place footer t) (\<lambda>t. Ret (OK, Some t))"
    using u(2) x foot c assms(3) by (simp add: Table_Open_def ok_def t_def)
  moreover have "ReadMeta place footer t = Ret (t\<lparr>tr_filter := map_option (\<lambda>(name, P). (P, reader)) (op_filter_policy op)\<rparr>)"
  proof (cases "op_filter_policy op")
    case None
    then show ?thesis by (simp add: ReadMeta_def t_def)
  next
    case (Some np)
    obtain name P where np: "np = (name, P)" by (cases np)
    with Some assms(4) obtain b where b: "f = Some b" "FilterBlockReader_new b = Ret reader" "length (filter_key name) < 2 ^ 32"
      "meta = build_block ival [(filter_key name, handle_bytes (filter_handle (length D) f))]" by auto
    have "ReadMeta place footer t = Ret (t\<lparr>tr_filter := Some (P, reader)\<rparr>)"
      by (rule ReadMeta_ok [OF assms(1,2) _ _ b(1,4,3,2)]) (simp_all add: t_def Some np footer_def)
    then show ?thesis using Some np by simp
  qed
  ultimately show ?thesis by (simp add: t_def)
qed

end

end
