(* ===== verification/Table_Round_Trip.thy ===== *)
theory Table_Round_Trip
  imports Table_Correct
begin

text \<open>
  What the table builder leaves in the file: the data blocks, their index with one separator for
  each, and the tail of filter, metaindex, index and footer, whatever the block size and the restart
  interval are. With the lookup of \<open>Table_Correct\<close> this gives the round trip from
  \<open>TableBuilder\<close> to \<open>Table::InternalGet\<close>.
\<close>

section \<open>Filters always get built\<close>

context filter_policy
begin

lemma build_blocks_total:
  assumes "fb_inv b fs pend" "set pend \<subseteq> keys" "\<forall>(off, ks)\<in>set bs. set ks \<subseteq> keys" "length pend + length (concat (map snd bs)) < 2 ^ 31"
  shows "\<exists>b' fs' pend'. build_blocks P bs b = Ret b' \<and> fb_inv b' fs' pend' \<and> set pend' \<subseteq> keys \<and> length pend' < 2 ^ 31"
  using assms
proof (induction bs arbitrary: b fs pend)
  case (Cons x bs)
  obtain off ks where x: "x = (off, ks)" by (cases x)
  let ?i = "unat off div kFilterBase"
  have "\<exists>b1 fs1 p1. StartBlock_loop P ?i b = Ret b1 \<and> fb_inv b1 fs1 p1 \<and> set p1 \<subseteq> keys \<and> length p1 \<le> length pend"
  proof (cases "length fs \<le> ?i")
    case True
    have "length pend < 2 ^ 31" using Cons.prems(4) by simp
    from StartBlock_ok [OF Cons.prems(1,2) this True] obtain b1 gs p1 where
      "StartBlock_loop P ?i b = Ret b1" "fb_inv b1 (fs @ gs) p1" "p1 = pend \<or> p1 = []" by (metis (full_types))
    then show ?thesis using Cons.prems(2) by (intro exI [of _ b1] exI [of _ "fs @ gs"] exI [of _ p1]) auto
  next
    case False
    then have "StartBlock_loop P ?i b = Ret b" using Cons.prems(1) by (subst StartBlock_loop.simps) (simp add: fb_inv_def)
    then show ?thesis using Cons.prems(1,2) by blast
  qed
  then obtain b1 fs1 p1 where b1: "StartBlock_loop P ?i b = Ret b1" "fb_inv b1 fs1 p1" "set p1 \<subseteq> keys" "length p1 \<le> length pend" by blast
  have "\<exists>b' fs' pend'. build_blocks P bs (fold AddKey ks b1) = Ret b' \<and> fb_inv b' fs' pend' \<and> set pend' \<subseteq> keys \<and> length pend' < 2 ^ 31"
    by (rule Cons.IH [OF AddKeys_inv [OF b1(2)]]) (use Cons.prems b1 x in auto)
  then show ?case using b1(1) by (simp add: x StartBlock_def)
qed auto

lemma filter_build_total:
  assumes "\<forall>(off, ks)\<in>set bs. set ks \<subseteq> keys" "length (concat (map snd bs)) < 2 ^ 31"
  shows "isRet (build_blocks P bs FilterBlockBuilder_new)" "isRet (bindO (build_blocks P bs FilterBlockBuilder_new) (FilterBlock_Finish P))"
proof -
  from build_blocks_total [OF fb_inv_new _ assms(1)] assms(2) obtain b fs pend where
    b: "build_blocks P bs FilterBlockBuilder_new = Ret b" "fb_inv b fs pend" "set pend \<subseteq> keys" "length pend < 2 ^ 31" by auto
  then show "isRet (build_blocks P bs FilterBlockBuilder_new)" by simp
  from Finish_ok [OF b(2-4)] b(1) show "isRet (bindO (build_blocks P bs FilterBlockBuilder_new) (FilterBlock_Finish P))" by (auto simp: isRet_iff)
qed

end

lemma build_blocks_append: "build_blocks P (xs @ ys) b = bindO (build_blocks P xs b) (build_blocks P ys)"
  by (induction xs arbitrary: b) (auto simp: bindO_assoc intro!: bindO_cong)

section \<open>The state of a builder\<close>

definition builder_of :: "int \<Rightarrow> entry list \<Rightarrow> BlockBuilder" where
  "builder_of ival es = fold (\<lambda>(k, v). BlockBuilder_Add ival k v) es BlockBuilder_new"

lemma builder_of_snoc: "builder_of ival (es @ [(k, v)]) = BlockBuilder_Add ival k v (builder_of ival es)"
  by (simp add: builder_of_def)

lemma varint_ne: "varint n \<noteq> []"
  by (subst varint.simps) simp

lemma builder_empty: "BlockBuilder_empty (builder_of ival es) \<longleftrightarrow> es = []"
proof (induction es rule: rev_induct)
  case (snoc e es)
  then show ?case using varint_ne
    by (cases e) (simp add: builder_of_snoc BlockBuilder_empty_def BlockBuilder_Add_def Let_def PutVarint32_def EncodeVarint32_eq split: prod.splits if_splits)
qed (simp add: builder_of_def BlockBuilder_empty_def BlockBuilder_new_def)

lemma Finish_Reset: "BlockBuilder_Finish (builder_of ival es) = (raw, b) \<Longrightarrow> raw = build_block ival es \<and> BlockBuilder_Reset b = builder_of ival' []"
  by (cases b) (auto simp: build_block_def builder_of_def BlockBuilder_Reset_def BlockBuilder_new_def)

text \<open>The blocks, with the one in progress, as the filter sees them: their offsets and their keys.\<close>

definition filter_blocks :: "int \<Rightarrow> entry list list \<Rightarrow> entry list \<Rightarrow> (u64 \<times> byte list list) list" where
  "filter_blocks ival bs cur =
     map (\<lambda>i. (of_nat (block_offset_of ival bs i), map fst (bs ! i))) [0..<length bs] @
     [(of_nat (length (concat (map (data_block ival) bs))), map fst cur)]"

definition filter_state :: "int \<Rightarrow> entry list list \<Rightarrow> entry list \<Rightarrow> (byte list \<times> FilterPolicy) option \<Rightarrow> (FilterPolicy \<times> FilterBlockBuilder) option \<Rightarrow> bool" where
  "filter_state ival bs cur pol fb =
     (case pol of
        None \<Rightarrow> fb = None
      | Some (name, P) \<Rightarrow> \<exists>b. fb = Some (P, b) \<and> build_blocks P (filter_blocks ival bs cur) FilterBlockBuilder_new = Ret b)"

lemma block_offset_append: "i \<le> length bs \<Longrightarrow> block_offset_of ival (bs @ cs) i = block_offset_of ival bs i"
  by (simp add: block_offset_of_def part_append)

lemma filter_blocks_next: "filter_blocks ival (bs @ [cur]) [] = filter_blocks ival bs cur @ [(of_nat (length (concat (map (data_block ival) (bs @ [cur])))), [])]"
  by (simp add: filter_blocks_def block_offset_append nth_append block_offset_of_def part_append part_length [of "map (data_block ival) bs", simplified])

lemma filter_state_add: "filter_state ival bs cur pol fb \<Longrightarrow> filter_state ival bs (cur @ [(k, v)]) pol (map_option (\<lambda>(P, b). (P, AddKey k b)) fb)"
  by (auto simp: filter_state_def filter_blocks_def build_blocks_append split: option.splits)

lemma filter_keys: "concat (map snd (filter_blocks ival bs cur)) = map fst (concat bs @ cur)"
proof -
  have "map (\<lambda>i. map fst (bs ! i)) [0..<length bs] = map (map fst) bs" by (rule nth_equalityI) simp_all
  then show ?thesis by (simp add: filter_blocks_def comp_def map_concat)
qed

lemma filter_keys_ik: "rising (concat bs @ cur) \<Longrightarrow> (off, ks) \<in> set (filter_blocks iv bs cur) \<Longrightarrow> set ks \<subseteq> ik"
proof -
  assume a: "rising (concat bs @ cur)" "(off, ks) \<in> set (filter_blocks iv bs cur)"
  then have "set ks \<subseteq> set (concat (map snd (filter_blocks iv bs cur)))" by force
  then show ?thesis using a(1) unfolding filter_keys by (auto simp: rising_def)
qed


abbreviation ival :: "Options \<Rightarrow> int" where
  "ival \<equiv> op_block_restart_interval"

abbreviation data_of :: "Options \<Rightarrow> entry list list \<Rightarrow> byte list" where
  "data_of op bs \<equiv> concat (map (data_block (ival op)) bs)"

text \<open>The blocks so far, with the one in progress unless it is empty.\<close>

definition with_current :: "entry list list \<Rightarrow> entry list \<Rightarrow> entry list list" where
  "with_current bs cur = (if cur = [] then bs else bs @ [cur])"

text \<open>
  The index: the last block has no entry until the next key is known, and its handle is pending
  until then.
\<close>

definition index_state :: "Options \<Rightarrow> entry list list \<Rightarrow> byte list list \<Rightarrow> entry list \<Rightarrow> 'f TableBuilder \<Rightarrow> bool" where
  "index_state op bs seps cur r \<longleftrightarrow>
     tb_options r = op \<and> tb_index_block r = builder_of 1 (index_entries (ival op) bs seps) \<and>
     tb_pending_index_entry r = (cur = [] \<and> bs \<noteq> []) \<and> length bs = (if cur = [] \<and> bs \<noteq> [] then Suc (length seps) else length seps) \<and>
     (cur = [] \<and> bs \<noteq> [] \<longrightarrow> tb_pending_handle r = data_handle (ival op) bs (length seps)) \<and>
     (concat bs @ cur \<noteq> [] \<longrightarrow> tb_last_key r = last_key (concat bs @ cur)) \<and> index_ok (with_current bs cur) seps"

definition file_is :: "('f \<Rightarrow> byte list) \<Rightarrow> ('f \<Rightarrow> bool) \<Rightarrow> byte list \<Rightarrow> 'f TableBuilder \<Rightarrow> bool" where
  "file_is contents good data r \<longleftrightarrow> good (tb_file r) \<and> contents (tb_file r) = data \<and> tb_offset r = of_nat (length data)"

definition built :: "('f \<Rightarrow> byte list) \<Rightarrow> ('f \<Rightarrow> bool) \<Rightarrow> Options \<Rightarrow> entry list list \<Rightarrow> byte list list \<Rightarrow> entry list \<Rightarrow> 'f TableBuilder \<Rightarrow> bool" where
  "built contents good op bs seps cur r \<longleftrightarrow>
     tb_status r = OK \<and> file_is contents good (data_of op bs) r \<and> index_state op bs seps cur r \<and>
     tb_data_block r = builder_of (ival op) cur \<and> filter_state (ival op) bs cur (op_filter_policy op) (tb_filter_block r)"

definition policy_ok :: "(byte list \<times> FilterPolicy) option \<Rightarrow> bool" where
  "policy_ok pol = (case pol of None \<Rightarrow> True | Some (name, P) \<Rightarrow> user_filter P \<and> length (filter_key name) < 2 ^ 32)"

lemma filter_start:
  assumes "policy_ok pol" "filter_state iv bs cur pol (tb_filter_block r)" "rising (concat bs @ cur)" "length (concat bs @ cur) < 2 ^ 31"
  shows "\<exists>fb. filter_StartBlock r = Ret (r\<lparr>tb_filter_block := fb\<rparr>) \<and>
    (tb_offset r = of_nat (length (concat (map (data_block iv) (bs @ [cur])))) \<longrightarrow> filter_state iv (bs @ [cur]) [] pol fb)"
proof (cases pol)
  case None
  then show ?thesis using assms(2) by (intro exI [of _ None]) (cases r; simp add: filter_StartBlock_def filter_state_def)
next
  case (Some np)
  obtain name P where np: "np = (name, P)" by (cases np)
  obtain b where b: "tb_filter_block r = Some (P, b)" "build_blocks P (filter_blocks iv bs cur) FilterBlockBuilder_new = Ret b"
    using assms(2) Some np by (auto simp: filter_state_def)
  have P: "filter_policy P ik" using assms(1) Some np by (simp add: policy_ok_def user_filter_def)
  let ?all = "\<lambda>off. filter_blocks iv bs cur @ [(off, [])]"
  have "set ks \<subseteq> ik" if "(o1, ks) \<in> set (?all off)" for o1 ks off
    using that filter_keys_ik [OF assms(3)] by auto
  then have "isRet (build_blocks P (?all off) FilterBlockBuilder_new)" for off
    using assms(4) by (intro filter_policy.filter_build_total(1) [OF P]) (auto simp: filter_keys)
  then obtain b' where b': "StartBlock P (tb_offset r) b = Ret b'" "build_blocks P (?all (tb_offset r)) FilterBlockBuilder_new = Ret b'"
    using b(2) by (auto simp: build_blocks_append isRet_iff)
  then show ?thesis using b(1) Some np filter_blocks_next [of iv bs cur]
    by (intro exI [of _ "Some (P, b')"]) (auto simp: filter_StartBlock_def filter_state_def)
qed

lemma index_entries_snoc: "index_entries iv bs (seps @ [t]) = index_entries iv bs seps @ [(t, handle_bytes (data_handle iv bs (length seps)))]"
  by (simp add: index_entries_def nth_append)

lemma data_handle_append: "i < length bs \<Longrightarrow> data_handle iv (bs @ cs) i = data_handle iv bs i"
  by (simp add: data_handle_def block_offset_append nth_append)

lemma index_entries_append: "length seps \<le> length bs \<Longrightarrow> index_entries iv (bs @ cs) seps = index_entries iv bs seps"
  by (simp add: index_entries_def data_handle_append)

lemma last_key_concat: "bs \<noteq> [] \<Longrightarrow> last bs \<noteq> [] \<Longrightarrow> last_key (concat bs) = last_key (last bs)"
  by (cases bs rule: rev_cases) (simp_all add: last_key_def)

lemma index_ok_last: "index_ok bs seps \<Longrightarrow> bs \<noteq> [] \<Longrightarrow> last bs \<noteq> []"
  by (metis index_ok_def last_in_set)

text \<open>The next key closes the index entry of the block before it, or joins the block in progress.\<close>

lemma index_ok_next:
  assumes "index_ok bs seps" "length bs = Suc (length seps)" "covers_last (last_key (last bs)) t" "separates (last_key (last bs)) t (fst e)"
  shows "index_ok (bs @ [[e]]) (seps @ [t])"
proof -
  have l: "last bs = bs ! length seps" using assms(2) by (subst last_conv_nth) auto
  have "covers_last (last_key ((bs @ [[e]]) ! i)) ((seps @ [t]) ! i)" if "i < Suc (length seps)" for i
    using assms that by (cases "i = length seps") (auto simp: index_ok_def nth_append l)
  moreover have "separates (last_key ((bs @ [[e]]) ! i)) ((seps @ [t]) ! i) (fst (hd ((bs @ [[e]]) ! Suc i)))" if "i < Suc (length seps)" for i
    using assms that by (cases "i = length seps") (auto simp: index_ok_def nth_append l)
  ultimately show ?thesis using assms(1,2) by (simp add: index_ok_def)
qed

lemma index_ok_grow:
  assumes "index_ok (bs @ [cur]) seps" "length seps = length bs"
  shows "index_ok (bs @ [cur @ [e]]) seps"
proof -
  have "cur \<noteq> []" using assms(1) by (auto simp: index_ok_def)
  then have "hd ((bs @ [cur @ [e]]) ! Suc i) = hd ((bs @ [cur]) ! Suc i)" if "i < length seps" for i
    using that assms(2) by (auto simp: nth_append)
  then show ?thesis using assms by (auto simp: index_ok_def nth_append)
qed

lemma index_ok_first: "index_ok [[e]] []" "index_ok [] []"
  by (simp_all add: index_ok_def)

lemma index_ok_done:
  assumes "index_ok bs seps" "length bs = Suc (length seps)" "covers_last (last_key (last bs)) t"
  shows "index_ok bs (seps @ [t])"
proof -
  have l: "last bs = bs ! length seps" using assms(2) by (subst last_conv_nth) auto
  have "covers_last (last_key (bs ! i)) ((seps @ [t]) ! i)" if "i < Suc (length seps)" for i
    using assms that by (cases "i = length seps") (auto simp: index_ok_def nth_append l)
  moreover have "separates (last_key (bs ! i)) ((seps @ [t]) ! i) (fst (hd (bs ! Suc i)))" if "Suc i < length bs" for i
    using assms that by (auto simp: index_ok_def nth_append)
  ultimately show ?thesis using assms(1,2) by (simp add: index_ok_def)
qed

section \<open>Adding an entry\<close>

definition entry_added :: "byte list \<Rightarrow> byte list \<Rightarrow> 'f TableBuilder \<Rightarrow> 'f TableBuilder" where
  "entry_added k v r = r\<lparr>tb_filter_block := map_option (\<lambda>(P, b). (P, AddKey k b)) (tb_filter_block r), tb_last_key := k,
     tb_num_entries := tb_num_entries r + 1, tb_data_block := BlockBuilder_Add (ival (tb_options r)) k v (tb_data_block r)\<rparr>"

lemma entry_added_built:
  assumes "built contents good op bs seps cur r" "index_ok (bs @ [cur @ [(k, v)]]) seps'" "length seps' = length bs"
    and "tb_index_block r1 = builder_of 1 (index_entries (ival op) bs seps')" "\<not> tb_pending_index_entry r1"
    and "tb_options r1 = op" "tb_status r1 = OK" "tb_file r1 = tb_file r" "tb_offset r1 = tb_offset r"
    and "tb_data_block r1 = tb_data_block r" "tb_filter_block r1 = tb_filter_block r"
  shows "built contents good op bs seps' (cur @ [(k, v)]) (entry_added k v r1)"
proof -
  have fs: "filter_state (ival op) bs (cur @ [(k, v)]) (op_filter_policy op) (map_option (\<lambda>(P, b). (P, AddKey k b)) (tb_filter_block r))"
    using assms(1) by (intro filter_state_add) (simp add: built_def)
  have "last_key (concat bs @ cur @ [(k, v)]) = k" by (simp add: last_key_def)
  then have "index_state op bs seps' (cur @ [(k, v)]) (entry_added k v r1)"
    using assms(2-6) by (simp add: index_state_def entry_added_def with_current_def)
  moreover have "file_is contents good (data_of op bs) (entry_added k v r1)" using assms(1,8,9) by (simp add: built_def file_is_def entry_added_def)
  ultimately show ?thesis using assms(1,6,7,10,11) fs by (simp add: built_def entry_added_def builder_of_snoc)
qed

lemma add_step:
  assumes "built contents good op bs seps cur r" "rising (concat bs @ cur @ [(k, v)])" "op_comparator op = icmp"
  shows "\<exists>r1 seps'. add_index_entry (\<lambda>l. FindShortestSeparator icmp l k) r = Ret r1 \<and> tb_options r1 = op \<and>
    built contents good op bs seps' (cur @ [(k, v)]) (entry_added k v r1)"
proof -
  have ix: "index_state op bs seps cur r" "tb_status r = OK" using assms(1) by (simp_all add: built_def)
  show ?thesis
  proof (cases "cur = [] \<and> bs \<noteq> []")
    case True
    have i: "index_ok bs seps" "length bs = Suc (length seps)" using ix True by (simp_all add: index_state_def with_current_def)
    have ne: "last bs \<noteq> []" using index_ok_last [OF i(1)] True by blast
    have lk: "tb_last_key r = last_key (last bs)"
      using ix True ne last_key_concat [of bs] by (auto simp: index_state_def)
    have "last (last bs) \<in> set (concat bs)" using True ne by (auto intro!: bexI [of _ "last bs"])
    moreover have "rising (concat bs @ [(k, v)])" using assms(2) True by simp
    then have "\<forall>e\<in>set (concat bs). fst e \<in> ik \<and> ilt (fst e) k" "k \<in> ik" unfolding rising_append by (simp_all add: rising_def)
    ultimately have "last_key (last bs) \<in> ik" "k \<in> ik" "ilt (last_key (last bs)) k" unfolding last_key_def by blast+
    from separator_ok [OF this] obtain t where
      t: "FindShortestSeparator icmp (last_key (last bs)) k = Ret t" "covers_last (last_key (last bs)) t" "separates (last_key (last bs)) t k" by blast
    define r1 where "r1 = r\<lparr>tb_last_key := t,
      tb_index_block := BlockBuilder_Add 1 t (BlockHandle_EncodeTo (tb_pending_handle r) []) (tb_index_block r), tb_pending_index_entry := False\<rparr>"
    have r1: "add_index_entry (\<lambda>l. FindShortestSeparator icmp l k) r = Ret r1"
      using ix True t(1) lk by (simp add: add_index_entry_def index_state_def r1_def)
    have "tb_index_block r1 = builder_of 1 (index_entries (ival op) bs (seps @ [t]))"
      using ix True by (simp add: r1_def index_state_def BlockHandle_EncodeTo_eq index_entries_snoc builder_of_snoc)
    then have "built contents good op bs (seps @ [t]) (cur @ [(k, v)]) (entry_added k v r1)"
      using True index_ok_next [OF i t(2), of "(k, v)"] t(3) ix i(2)
      by (intro entry_added_built [OF assms(1)]) (simp_all add: r1_def index_state_def)
    then show ?thesis using r1 ix by (intro exI [of _ r1] exI [of _ "seps @ [t]"]) (simp add: r1_def index_state_def)
  next
    case False
    have n: "length seps = length bs" "\<not> tb_pending_index_entry r" using ix False by (auto simp: index_state_def)
    have "index_ok (bs @ [cur @ [(k, v)]]) seps"
    proof (cases "cur = []")
      case True
      then show ?thesis using False n index_ok_first by simp
    next
      case ne: False
      then show ?thesis using ix n by (intro index_ok_grow) (simp_all add: index_state_def with_current_def)
    qed
    then have "built contents good op bs seps (cur @ [(k, v)]) (entry_added k v r)"
      using n ix by (intro entry_added_built [OF assms(1)]) (simp_all add: index_state_def)
    then show ?thesis using n(2) ix by (intro exI [of _ r] exI [of _ seps]) (simp add: add_index_entry_def index_state_def)
  qed
qed

section \<open>Writing blocks\<close>

lemma no_compression: "choose_compression type raw = (raw, kNoCompression)"
  by (cases type) (simp_all add: choose_compression_def Snappy_Compress_def)

context writable_file
begin

lemma WriteRawBlock_ok:
  assumes "file_is contents inv data r"
  shows "\<exists>s f pos. WriteRawBlock F place b kNoCompression r = Ret (handle_at (length data) b, r\<lparr>tb_file := f, tb_status := s, tb_offset := pos\<rparr>) \<and>
    (s = OK \<longrightarrow> file_is contents inv (data @ stored_block b) (r\<lparr>tb_file := f, tb_status := s, tb_offset := pos\<rparr>))"
proof -
  have r: "inv (tb_file r)" "contents (tb_file r) = data" "tb_offset r = of_nat (length data)" using assms by (simp_all add: file_is_def)
  have h: "handle_at (length data) b = \<lparr>bh_offset = tb_offset r, bh_size = of_nat (length b)\<rparr>" using r by (simp add: handle_at_def)
  obtain s1 f1 where a1: "Append F (tb_file r) b = (s1, f1)" by fastforce
  have i1: "inv f1" using append_inv [OF r(1) a1] .
  obtain s2 f2 where a2: "Append F f1 (0 # EncodeFixed32 (Mask (crc32c 0 (b @ [0])))) = (s2, f2)" by fastforce
  show ?thesis
  proof (cases "s1 = OK")
    case False
    then show ?thesis using a1 h
      by (intro exI [of _ s1] exI [of _ f1] exI [of _ "tb_offset r"]) (cases r; simp add: WriteRawBlock_def ok_iff)
  next
    case True
    have c1: "contents f1 = data @ b" using append_ok [OF r(1)] a1 True r(2) by simp
    let ?pos = "if s2 = OK then tb_offset r + of_nat (length b + 5) else tb_offset r"
    have "WriteRawBlock F place b kNoCompression r = Ret (handle_at (length data) b, r\<lparr>tb_file := f2, tb_status := s2, tb_offset := ?pos\<rparr>)"
      using a1 a2 True h by (simp add: WriteRawBlock_def crc_Value_eq Extend_eq crc32c_append ok_iff)
    moreover have "file_is contents inv (data @ stored_block b) (r\<lparr>tb_file := f2, tb_status := s2, tb_offset := ?pos\<rparr>)" if "s2 = OK"
      using append_ok [OF i1] append_inv [OF i1 a2] a2 that c1 r(3) by (simp add: file_is_def stored_block_def)
    ultimately show ?thesis by blast
  qed
qed

lemma WriteBlock_ok:
  assumes "file_is contents inv data r"
  shows "\<exists>s f pos. WriteBlock F place (builder_of iv es) r = Ret (handle_at (length data) (build_block iv es), builder_of iv' [], r\<lparr>tb_file := f, tb_status := s, tb_offset := pos\<rparr>) \<and>
    (s = OK \<longrightarrow> file_is contents inv (data @ data_block iv es) (r\<lparr>tb_file := f, tb_status := s, tb_offset := pos\<rparr>))"
proof -
  obtain raw b where "BlockBuilder_Finish (builder_of iv es) = (raw, b)" by fastforce
  moreover from Finish_Reset [OF this] have "raw = build_block iv es" "BlockBuilder_Reset b = builder_of iv' []" by blast+
  ultimately show ?thesis using WriteRawBlock_ok [OF assms, of place "build_block iv es"] by (auto simp: WriteBlock_def no_compression)
qed

lemma Flush_ok:
  assumes "built contents inv op bs seps cur r" "cur \<noteq> []" "policy_ok (op_filter_policy op)" "rising (concat bs @ cur)" "length (concat bs @ cur) < 2 ^ 31"
  shows "\<exists>r'. TableBuilder_Flush F place r = Ret r' \<and> (tb_status r' = OK \<longrightarrow> built contents inv op (bs @ [cur]) seps [] r')"
proof -
  have b: "tb_status r = OK" "file_is contents inv (data_of op bs) r" "index_state op bs seps cur r" "tb_data_block r = builder_of (ival op) cur"
    "filter_state (ival op) bs cur (op_filter_policy op) (tb_filter_block r)" using assms(1) by (simp_all add: built_def)
  from WriteBlock_ok [OF b(2), of place "ival op" cur "ival op"] obtain s f pos where
    w: "WriteBlock F place (builder_of (ival op) cur) r =
      Ret (handle_at (length (data_of op bs)) (build_block (ival op) cur), builder_of (ival op) [], r\<lparr>tb_file := f, tb_status := s, tb_offset := pos\<rparr>)"
    and f: "s = OK \<longrightarrow> file_is contents inv (data_of op bs @ data_block (ival op) cur) (r\<lparr>tb_file := f, tb_status := s, tb_offset := pos\<rparr>)" by blast
  define r1 where "r1 = r\<lparr>tb_file := f, tb_status := s, tb_offset := pos, tb_pending_handle := handle_at (length (data_of op bs)) (build_block (ival op) cur),
    tb_data_block := builder_of (ival op) []\<rparr>"
  obtain s' f' where fl: "Flush F f = (s', f')" by fastforce
  define r2 where "r2 = (if s = OK then r1\<lparr>tb_pending_index_entry := True, tb_status := s', tb_file := f'\<rparr> else r1)"
  have fb: "tb_filter_block r2 = tb_filter_block r" by (simp add: r2_def r1_def)
  obtain fb where st: "filter_StartBlock r2 = Ret (r2\<lparr>tb_filter_block := fb\<rparr>)"
    and fs: "tb_offset r2 = of_nat (length (data_of op (bs @ [cur]))) \<longrightarrow> filter_state (ival op) (bs @ [cur]) [] (op_filter_policy op) fb"
    using filter_start [OF assms(3) _ assms(4,5), of "ival op" r2] b(5) fb by auto
  have "TableBuilder_Flush F place r = filter_StartBlock r2"
    using w b(1,4) assms(2) fl by (cases "s = OK") (simp_all add: TableBuilder_Flush_def builder_empty ok_iff r2_def r1_def)
  then have fr: "TableBuilder_Flush F place r = Ret (r2\<lparr>tb_filter_block := fb\<rparr>)" using st by simp
  have "built contents inv op (bs @ [cur]) seps [] (r2\<lparr>tb_filter_block := fb\<rparr>)" if "tb_status r2 = OK"
  proof -
    have s: "s = OK" "s' = OK" using that by (auto simp: r2_def r1_def split: if_splits)
    then have f1: "inv f" "contents f = data_of op (bs @ [cur])" "pos = of_nat (length (data_of op (bs @ [cur])))" using f by (simp_all add: file_is_def)
    then have "file_is contents inv (data_of op (bs @ [cur])) (r2\<lparr>tb_filter_block := fb\<rparr>)"
      using s flush_ok [OF f1(1)] flush_inv [OF f1(1) fl] fl by (simp add: file_is_def r2_def r1_def)
    moreover have h: "handle_at (length (data_of op bs)) (build_block (ival op) cur) = data_handle (ival op) (bs @ [cur]) (length bs)"
      using part_length [of "map (data_block (ival op)) bs"] by (simp add: handle_at_def data_handle_def block_offset_of_def part_append)
    have "index_state op (bs @ [cur]) seps [] (r2\<lparr>tb_filter_block := fb\<rparr>)"
      using b(3) s assms(2) by (simp add: index_state_def r2_def r1_def with_current_def h index_entries_append)
    ultimately show ?thesis using s fs f1(3) by (simp add: built_def r2_def r1_def)
  qed
  then show ?thesis using fr by (intro exI [of _ "r2\<lparr>tb_filter_block := fb\<rparr>"]) simp
qed

lemma Add_ok:
  assumes "built contents inv op bs seps cur r" "op_comparator op = icmp" "policy_ok (op_filter_policy op)"
    and "rising (concat bs @ cur @ [(k, v)])" "length (concat bs @ cur @ [(k, v)]) < 2 ^ 31"
  shows "\<exists>r'. TableBuilder_Add F place k v r = Ret r' \<and>
    (tb_status r' = OK \<longrightarrow> (\<exists>bs' seps' cur'. built contents inv op bs' seps' cur' r' \<and> concat bs' @ cur' = concat bs @ cur @ [(k, v)]))"
proof -
  have b: "tb_status r = OK" "tb_options r = op" using assms(1) by (simp_all add: built_def index_state_def)
  obtain r1 seps' where r1: "add_index_entry (\<lambda>l. FindShortestSeparator icmp l k) r = Ret r1" "tb_options r1 = op"
    "built contents inv op bs seps' (cur @ [(k, v)]) (entry_added k v r1)" using add_step [OF assms(1,4,2)] by blast
  have add: "TableBuilder_Add F place k v r =
      (if CurrentSizeEstimate (tb_data_block (entry_added k v r1)) \<ge> op_block_size op then TableBuilder_Flush F place (entry_added k v r1) else Ret (entry_added k v r1))"
    using b r1 assms(2) by (simp add: TableBuilder_Add_def ok_iff entry_added_def)
  from Flush_ok [OF r1(3) _ assms(3)] assms(4,5) obtain r' where
    "TableBuilder_Flush F place (entry_added k v r1) = Ret r'" "tb_status r' = OK \<longrightarrow> built contents inv op (bs @ [cur @ [(k, v)]]) seps' [] r'" by auto
  then have "\<exists>r'. TableBuilder_Add F place k v r = Ret r' \<and>
      (tb_status r' = OK \<longrightarrow> built contents inv op (bs @ [cur @ [(k, v)]]) seps' [] r' \<or> built contents inv op bs seps' (cur @ [(k, v)]) r')"
    using add r1(3) by (cases "CurrentSizeEstimate (tb_data_block (entry_added k v r1)) \<ge> op_block_size op") auto
  moreover have "concat (bs @ [cur @ [(k, v)]]) @ [] = concat bs @ cur @ [(k, v)]" by simp
  ultimately show ?thesis by blast
qed

end

section \<open>Finishing the table\<close>

definition filter_contents :: "int \<Rightarrow> entry list list \<Rightarrow> (byte list \<times> FilterPolicy) option \<Rightarrow> byte list option \<Rightarrow> bool" where
  "filter_contents iv bs pol f =
     (case pol of
        None \<Rightarrow> f = None
      | Some (name, P) \<Rightarrow> \<exists>c. f = Some c \<and> bindO (build_blocks P (filter_blocks iv bs []) FilterBlockBuilder_new) (FilterBlock_Finish P) = Ret c)"

definition meta_block :: "Options \<Rightarrow> BlockHandle \<Rightarrow> byte list" where
  "meta_block op h = build_block (ival op) (meta_entries (op_filter_policy op) h)"

definition index_bytes :: "Options \<Rightarrow> entry list list \<Rightarrow> byte list list \<Rightarrow> byte list" where
  "index_bytes op bs seps = build_block 1 (index_entries (ival op) bs seps)"

definition table_bytes :: "Options \<Rightarrow> entry list list \<Rightarrow> byte list list \<Rightarrow> byte list option \<Rightarrow> byte list" where
  "table_bytes op bs seps f =
     data_of op bs @ tail_bytes (length (data_of op bs)) f (meta_block op (filter_handle (length (data_of op bs)) f)) (index_bytes op bs seps)"

text \<open>The state between the steps of \<open>Finish\<close>, when \<open>rest\<close> is written behind the data.\<close>

definition tail_state :: "('f \<Rightarrow> byte list) \<Rightarrow> ('f \<Rightarrow> bool) \<Rightarrow> Options \<Rightarrow> entry list list \<Rightarrow> byte list list \<Rightarrow> byte list \<Rightarrow> 'f TableBuilder \<Rightarrow> bool" where
  "tail_state contents good op bs seps data r \<longleftrightarrow>
     file_is contents good data r \<and> index_state op bs seps [] r \<and> (tb_filter_block r = None \<longleftrightarrow> op_filter_policy op = None)"

lemma tail_state_update: "index_state op bs seps [] r \<Longrightarrow> (tb_filter_block r = None \<longleftrightarrow> op_filter_policy op = None) \<Longrightarrow>
  tail_state contents good op bs seps data (r\<lparr>tb_file := f, tb_status := s, tb_offset := pos\<rparr>) =
  file_is contents good data (r\<lparr>tb_file := f, tb_status := s, tb_offset := pos\<rparr>)"
  by (auto simp: tail_state_def index_state_def)

lemma filter_finish_total:
  assumes "filter_state iv bs [] pol fb" "policy_ok pol" "rising (concat bs)" "length (concat bs) < 2 ^ 31" "pol = Some (name, P)"
  shows "\<exists>b c. fb = Some (P, b) \<and> FilterBlock_Finish P b = Ret c \<and> filter_contents iv bs pol (Some c)"
proof -
  obtain b where b: "fb = Some (P, b)" "build_blocks P (filter_blocks iv bs []) FilterBlockBuilder_new = Ret b" using assms(1,5) by (auto simp: filter_state_def)
  have "set ks \<subseteq> ik" if "(off, ks) \<in> set (filter_blocks iv bs [])" for off ks
    using that filter_keys_ik [of bs "[]"] assms(3) by simp
  then have "isRet (bindO (build_blocks P (filter_blocks iv bs []) FilterBlockBuilder_new) (FilterBlock_Finish P))"
    using assms(2,4,5) by (intro filter_policy.filter_build_total(2) [of P ik]) (auto simp: filter_keys policy_ok_def user_filter_def)
  then show ?thesis using b assms(5) by (auto simp: isRet_iff filter_contents_def)
qed

context writable_file
begin

lemma write_filter_ok:
  assumes "built contents inv op bs seps [] r" "policy_ok (op_filter_policy op)" "rising (concat bs)" "length (concat bs) < 2 ^ 31"
  shows "\<exists>h r' f. write_filter_block F place (r\<lparr>tb_closed := True\<rparr>) = Ret (h, r') \<and>
    (tb_status r' = OK \<longrightarrow> h = filter_handle (length (data_of op bs)) f \<and> filter_contents (ival op) bs (op_filter_policy op) f \<and>
       tail_state contents inv op bs seps (data_of op bs @ filter_part f) r')"
proof -
  let ?r = "r\<lparr>tb_closed := True\<rparr>"
  have b: "tb_status ?r = OK" "file_is contents inv (data_of op bs) ?r" "index_state op bs seps [] ?r"
    "filter_state (ival op) bs [] (op_filter_policy op) (tb_filter_block ?r)" using assms(1) by (simp_all add: built_def file_is_def index_state_def)
  show ?thesis
  proof (cases "op_filter_policy op")
    case None
    then show ?thesis using b
      by (intro exI [of _ BlockHandle_new] exI [of _ ?r] exI [of _ None])
        (simp add: write_filter_block_def filter_state_def filter_handle_def filter_part_def filter_contents_def tail_state_def)
  next
    case (Some np)
    obtain name P where np: "np = (name, P)" by (cases np)
    from filter_finish_total [OF b(4) assms(2-4)] Some np obtain fb c where
      c: "tb_filter_block ?r = Some (P, fb)" "FilterBlock_Finish P fb = Ret c" "filter_contents (ival op) bs (op_filter_policy op) (Some c)" by auto
    from WriteRawBlock_ok [OF b(2), of place c] obtain s f pos where
      w: "WriteRawBlock F place c kNoCompression ?r = Ret (handle_at (length (data_of op bs)) c, ?r\<lparr>tb_file := f, tb_status := s, tb_offset := pos\<rparr>)"
      "s = OK \<longrightarrow> file_is contents inv (data_of op bs @ stored_block c) (?r\<lparr>tb_file := f, tb_status := s, tb_offset := pos\<rparr>)" by blast
    have "write_filter_block F place ?r = Ret (handle_at (length (data_of op bs)) c, ?r\<lparr>tb_file := f, tb_status := s, tb_offset := pos\<rparr>)"
      using b(1) c(1,2) w(1) by (simp add: write_filter_block_def ok_iff)
    moreover have "tail_state contents inv op bs seps (data_of op bs @ filter_part (Some c)) (?r\<lparr>tb_file := f, tb_status := s, tb_offset := pos\<rparr>)" if "s = OK"
      using w(2) that c(1) Some by (subst tail_state_update [OF b(3)]) (simp_all add: filter_part_def)
    ultimately show ?thesis using c(3) by (intro exI [of _ "handle_at (length (data_of op bs)) c"] exI [of _ "?r\<lparr>tb_file := f, tb_status := s, tb_offset := pos\<rparr>"] exI [of _ "Some c"])
      (simp add: filter_handle_def)
  qed
qed

lemma write_metaindex_ok:
  assumes "tb_status r = OK \<longrightarrow> tail_state contents inv op bs seps data r"
  shows "\<exists>h' r'. write_metaindex_block F place h r = Ret (h', r') \<and>
    (tb_status r' = OK \<longrightarrow> tb_status r = OK \<and> h' = handle_at (length data) (meta_block op h) \<and> tail_state contents inv op bs seps (data @ stored_block (meta_block op h)) r')"
proof (cases "tb_status r = OK")
  case False
  then show ?thesis by (simp add: write_metaindex_block_def ok_iff)
next
  case True
  then have t: "file_is contents inv data r" "index_state op bs seps [] r" "tb_filter_block r = None \<longleftrightarrow> op_filter_policy op = None" "tb_options r = op"
    using assms by (simp_all add: tail_state_def index_state_def)
  from WriteBlock_ok [OF t(1), of place "ival op" "meta_entries (op_filter_policy op) h" 1] obtain s f pos where
    w: "WriteBlock F place (builder_of (ival op) (meta_entries (op_filter_policy op) h)) r =
      Ret (handle_at (length data) (meta_block op h), builder_of 1 [], r\<lparr>tb_file := f, tb_status := s, tb_offset := pos\<rparr>)"
    "s = OK \<longrightarrow> file_is contents inv (data @ stored_block (meta_block op h)) (r\<lparr>tb_file := f, tb_status := s, tb_offset := pos\<rparr>)"
    unfolding meta_block_def by blast
  have "(case (tb_filter_block r, op_filter_policy (tb_options r)) of
      (Some _, Some (name, _)) \<Rightarrow> BlockBuilder_Add (ival (tb_options r)) (filter_key name) (BlockHandle_EncodeTo h []) BlockBuilder_new | _ \<Rightarrow> BlockBuilder_new) =
    builder_of (ival op) (meta_entries (op_filter_policy op) h)"
    using t(3,4) by (cases "tb_filter_block r"; cases "op_filter_policy op") (auto simp: meta_entries_def builder_of_def BlockHandle_EncodeTo_eq)
  then have "write_metaindex_block F place h r = Ret (handle_at (length data) (meta_block op h), r\<lparr>tb_file := f, tb_status := s, tb_offset := pos\<rparr>)"
    unfolding write_metaindex_block_def Let_def using True w(1) by (simp only: ok_iff if_True refl bindO.simps prod.case)
  then show ?thesis using w(2) True tail_state_update [OF t(2,3), of contents inv] by simp
qed

lemma write_index_ok:
  assumes "tb_status r = OK \<longrightarrow> tail_state contents inv op bs seps data r" "op_comparator op = icmp" "rising (concat bs)"
  shows "\<exists>h r' seps'. write_index_block F place r = Ret (h, r') \<and>
    (tb_status r' = OK \<longrightarrow> tb_status r = OK \<and> index_ok bs seps' \<and> length seps' = length bs \<and> h = handle_at (length data) (index_bytes op bs seps') \<and>
       file_is contents inv (data @ stored_block (index_bytes op bs seps')) r')"
proof (cases "tb_status r = OK")
  case False
  then show ?thesis by (simp add: write_index_block_def ok_iff)
next
  case True
  then have t: "file_is contents inv data r" "index_state op bs seps [] r" "tb_options r = op"
    using assms(1) by (simp_all add: tail_state_def index_state_def)
  have "\<exists>r1 seps'. add_index_entry (FindShortSuccessor icmp) r = Ret r1 \<and> index_ok bs seps' \<and> length seps' = length bs \<and>
      file_is contents inv data r1 \<and> tb_index_block r1 = builder_of 1 (index_entries (ival op) bs seps')"
  proof (cases "bs = []")
    case True
    then show ?thesis using t by (intro exI [of _ r] exI [of _ seps]) (simp add: index_state_def add_index_entry_def index_ok_first)
  next
    case False
    have i: "index_ok bs seps" "length bs = Suc (length seps)" using t(2) False by (simp_all add: index_state_def with_current_def)
    have ne: "last bs \<noteq> []" by (rule index_ok_last [OF i(1) False])
    have lk: "tb_last_key r = last_key (last bs)" using t(2) False ne last_key_concat [of bs] by (auto simp: index_state_def)
    have "last (last bs) \<in> set (concat bs)" using False ne by (auto intro!: bexI [of _ "last bs"])
    then have "last_key (last bs) \<in> ik" using assms(3) unfolding rising_def last_key_def by blast
    from successor_ok [OF this] obtain l where l: "FindShortSuccessor icmp (last_key (last bs)) = Ret l" "covers_last (last_key (last bs)) l" by blast
    let ?r = "r\<lparr>tb_last_key := l, tb_index_block := BlockBuilder_Add 1 l (BlockHandle_EncodeTo (tb_pending_handle r) []) (tb_index_block r), tb_pending_index_entry := False\<rparr>"
    have "add_index_entry (FindShortSuccessor icmp) r = Ret ?r" using t(2) False l(1) lk by (simp add: add_index_entry_def index_state_def)
    moreover have "tb_index_block ?r = builder_of 1 (index_entries (ival op) bs (seps @ [l]))"
      using t(2) False by (simp add: index_state_def BlockHandle_EncodeTo_eq index_entries_snoc builder_of_snoc)
    ultimately show ?thesis using index_ok_done [OF i l(2)] i(2) t(1)
      by (intro exI [of _ ?r] exI [of _ "seps @ [l]"]) (simp add: file_is_def)
  qed
  then obtain r1 seps' where r1: "add_index_entry (FindShortSuccessor icmp) r = Ret r1" "index_ok bs seps'" "length seps' = length bs"
    "file_is contents inv data r1" "tb_index_block r1 = builder_of 1 (index_entries (ival op) bs seps')" by blast
  from WriteBlock_ok [OF r1(4), of place 1 "index_entries (ival op) bs seps'" 1] obtain s f pos where
    w: "WriteBlock F place (tb_index_block r1) r1 =
      Ret (handle_at (length data) (index_bytes op bs seps'), builder_of 1 [], r1\<lparr>tb_file := f, tb_status := s, tb_offset := pos\<rparr>)"
    "s = OK \<longrightarrow> file_is contents inv (data @ stored_block (index_bytes op bs seps')) (r1\<lparr>tb_file := f, tb_status := s, tb_offset := pos\<rparr>)"
    unfolding index_bytes_def r1(5) by blast
  then show ?thesis using True t(3) assms(2) r1(1-3)
    by (intro exI [of _ "handle_at (length data) (index_bytes op bs seps')"]
        exI [of _ "r1\<lparr>tb_file := f, tb_status := s, tb_offset := pos, tb_index_block := builder_of 1 []\<rparr>"] exI [of _ seps'])
      (simp add: write_index_block_def ok_iff file_is_def)
qed

lemma write_footer_ok:
  assumes "tb_status r = OK \<longrightarrow> file_is contents inv data r" "tb_status (write_footer F m i r) = OK"
  shows "tb_status r = OK" "contents (tb_file (write_footer F m i r)) = data @ Footer_EncodeTo \<lparr>metaindex_handle = m, index_handle = i\<rparr> []"
proof -
  show ok: "tb_status r = OK" using assms(2) by (auto simp: write_footer_def ok_iff split: if_splits)
  obtain s f where a: "Append F (tb_file r) (Footer_EncodeTo \<lparr>metaindex_handle = m, index_handle = i\<rparr> []) = (s, f)" by fastforce
  then show "contents (tb_file (write_footer F m i r)) = data @ Footer_EncodeTo \<lparr>metaindex_handle = m, index_handle = i\<rparr> []"
    using assms ok append_ok [of "tb_file r" "Footer_EncodeTo \<lparr>metaindex_handle = m, index_handle = i\<rparr> []" f]
    by (simp add: write_footer_def ok_iff file_is_def)
qed

lemma failed_steps:
  "tb_status r \<noteq> OK \<Longrightarrow> write_filter_block F place r = Ret (BlockHandle_new, r)"
  "tb_status r \<noteq> OK \<Longrightarrow> write_metaindex_block F place h r = Ret (BlockHandle_new, r)"
  "tb_status r \<noteq> OK \<Longrightarrow> write_index_block F place r = Ret (BlockHandle_new, r)"
  "tb_status r \<noteq> OK \<Longrightarrow> write_footer F m i r = r"
  by (auto simp: write_filter_block_def write_metaindex_block_def write_index_block_def write_footer_def ok_iff split: option.split)

definition built_from :: "Options \<Rightarrow> entry list \<Rightarrow> 'f TableBuilder \<Rightarrow> bool" where
  "built_from op es r \<longleftrightarrow> (tb_status r = OK \<longrightarrow> (\<exists>bs seps cur. built contents inv op bs seps cur r \<and> concat bs @ cur = es))"

lemma Finish_ok:
  assumes "built_from op es r" "op_comparator op = icmp" "policy_ok (op_filter_policy op)" "rising es" "length es < 2 ^ 31"
  shows "\<exists>s r'. TableBuilder_Finish F place r = Ret (s, r') \<and>
    (s = OK \<longrightarrow> (\<exists>bs seps f. concat bs = es \<and> index_ok bs seps \<and> length seps = length bs \<and>
       filter_contents (ival op) bs (op_filter_policy op) f \<and> contents (tb_file r') = table_bytes op bs seps f))"
proof -
  have "\<exists>r1 bs seps. TableBuilder_Flush F place r = Ret r1 \<and> (tb_status r1 = OK \<longrightarrow> built contents inv op bs seps [] r1 \<and> concat bs = es)"
  proof (cases "tb_status r = OK")
    case True
    then obtain bs seps cur where b: "built contents inv op bs seps cur r" "concat bs @ cur = es" using assms(1) by (auto simp: built_from_def)
    show ?thesis
    proof (cases "cur = []")
      case c: True
      then have "TableBuilder_Flush F place r = Ret r" using b(1) by (simp add: TableBuilder_Flush_def built_def builder_empty)
      then show ?thesis using b c by auto
    next
      case False
      from Flush_ok [OF b(1) False assms(3)] b(2) assms(4,5) obtain r' where
        "TableBuilder_Flush F place r = Ret r'" "tb_status r' = OK \<longrightarrow> built contents inv op (bs @ [cur]) seps [] r'" by auto
      then show ?thesis using b(2) by (intro exI [of _ r'] exI [of _ "bs @ [cur]"] exI [of _ seps]) simp
    qed
  qed (simp add: TableBuilder_Flush_def ok_iff)
  then obtain r1 bs seps where r1: "TableBuilder_Flush F place r = Ret r1" "tb_status r1 = OK \<longrightarrow> built contents inv op bs seps [] r1 \<and> concat bs = es" by blast
  show ?thesis
  proof (cases "tb_status r1 = OK")
    case False
    then show ?thesis using r1(1) by (simp add: TableBuilder_Finish_def failed_steps)
  next
    case True
    then have b: "built contents inv op bs seps [] r1" "rising (concat bs)" "length (concat bs) < 2 ^ 31" "concat bs = es" using r1(2) assms(4,5) by simp_all
    from write_filter_ok [OF b(1) assms(3) b(2,3), of place] obtain h r2 f where
      f: "write_filter_block F place (r1\<lparr>tb_closed := True\<rparr>) = Ret (h, r2)"
      "tb_status r2 = OK \<longrightarrow> h = filter_handle (length (data_of op bs)) f \<and> filter_contents (ival op) bs (op_filter_policy op) f \<and>
         tail_state contents inv op bs seps (data_of op bs @ filter_part f) r2" by blast
    then have "tb_status r2 = OK \<longrightarrow> tail_state contents inv op bs seps (data_of op bs @ filter_part f) r2" by blast
    from write_metaindex_ok [OF this, of place h] obtain m r3 where
      m: "write_metaindex_block F place h r2 = Ret (m, r3)"
      "tb_status r3 = OK \<longrightarrow> tb_status r2 = OK \<and> m = handle_at (length (data_of op bs @ filter_part f)) (meta_block op h) \<and>
         tail_state contents inv op bs seps ((data_of op bs @ filter_part f) @ stored_block (meta_block op h)) r3" by blast
    then have "tb_status r3 = OK \<longrightarrow> tail_state contents inv op bs seps ((data_of op bs @ filter_part f) @ stored_block (meta_block op h)) r3" by blast
    from write_index_ok [OF this assms(2) b(2), of place] obtain i r4 seps' where
      i: "write_index_block F place r3 = Ret (i, r4)"
      "tb_status r4 = OK \<longrightarrow> tb_status r3 = OK \<and> index_ok bs seps' \<and> length seps' = length bs \<and>
         i = handle_at (length ((data_of op bs @ filter_part f) @ stored_block (meta_block op h))) (index_bytes op bs seps') \<and>
         file_is contents inv (((data_of op bs @ filter_part f) @ stored_block (meta_block op h)) @ stored_block (index_bytes op bs seps')) r4" by blast
    let ?r = "write_footer F m i r4"
    have fin: "TableBuilder_Finish F place r = Ret (tb_status ?r, ?r)" using r1(1) f(1) m(1) i(1) by (simp add: TableBuilder_Finish_def Let_def)
    have "contents (tb_file ?r) = table_bytes op bs seps' f \<and> index_ok bs seps' \<and> length seps' = length bs \<and> filter_contents (ival op) bs (op_filter_policy op) f"
      if s: "tb_status ?r = OK"
    proof -
      have "tb_status r4 = OK \<longrightarrow> file_is contents inv (((data_of op bs @ filter_part f) @ stored_block (meta_block op h)) @ stored_block (index_bytes op bs seps')) r4"
        using i(2) by blast
      from write_footer_ok [OF this s] i(2) m(2) f(2) show ?thesis by (simp add: table_bytes_def tail_bytes_def add.assoc)
    qed
    then show ?thesis using fin b(4) by blast
  qed
qed

end

section \<open>Building a whole table\<close>

fun TableBuilder_AddAll :: "'f WritableFile \<Rightarrow> (byte list \<Rightarrow> addr) \<Rightarrow> entry list \<Rightarrow> 'f TableBuilder \<Rightarrow> 'f TableBuilder outcome" where
  "TableBuilder_AddAll F place [] r = Ret r"
| "TableBuilder_AddAll F place ((k, v) # es) r = bindO (TableBuilder_Add F place k v r) (TableBuilder_AddAll F place es)"

definition build_table :: "'f WritableFile \<Rightarrow> (byte list \<Rightarrow> addr) \<Rightarrow> Options \<Rightarrow> entry list \<Rightarrow> 'f \<Rightarrow> (Status \<times> 'f TableBuilder) outcome" where
  "build_table F place op es f =
     bindO (TableBuilder_new op f) (\<lambda>r. bindO (TableBuilder_AddAll F place es r) (TableBuilder_Finish F place))"

context writable_file
begin

lemma new_ok: "inv f \<Longrightarrow> contents f = [] \<Longrightarrow> \<exists>r. TableBuilder_new op f = Ret r \<and> built contents inv op [] [] [] r"
  by (cases "op_filter_policy op")
    (auto simp: TableBuilder_new_def filter_StartBlock_def built_def file_is_def index_state_def with_current_def builder_of_def index_entries_def index_ok_first
      filter_state_def filter_blocks_def StartBlock_def StartBlock_loop.simps FilterBlockBuilder_new_def)

lemma AddAll_ok:
  assumes "built_from op ds r" "op_comparator op = icmp" "policy_ok (op_filter_policy op)" "rising (ds @ es)" "length (ds @ es) < 2 ^ 31"
  shows "\<exists>r'. TableBuilder_AddAll F place es r = Ret r' \<and> built_from op (ds @ es) r'"
  using assms(1,4,5)
proof (induction es arbitrary: ds r)
  case (Cons e es)
  obtain k v where e: "e = (k, v)" by (cases e)
  have step: "rising ((ds @ [e]) @ es)" "length ((ds @ [e]) @ es) < 2 ^ 31" using Cons.prems(2,3) by simp_all
  have "\<exists>r'. TableBuilder_Add F place k v r = Ret r' \<and> built_from op (ds @ [e]) r'"
  proof (cases "tb_status r = OK")
    case True
    then obtain bs seps cur where b: "built contents inv op bs seps cur r" "concat bs @ cur = ds" using Cons.prems(1) by (auto simp: built_from_def)
    then have ds: "concat bs @ cur @ [e] = ds @ [e]" by simp
    have le: "length (ds @ [e]) < 2 ^ 31" using step(2) by simp
    have "rising (ds @ [e])" using step(1) unfolding rising_append [of "ds @ [e]"] by blast
    from Add_ok [OF b(1) assms(2,3), of k v place, folded e, unfolded ds, OF this le] show ?thesis unfolding built_from_def by blast
  next
    case False
    then show ?thesis by (simp add: TableBuilder_Add_def ok_iff built_from_def)
  qed
  then obtain r' where "TableBuilder_Add F place k v r = Ret r'" "built_from op (ds @ [e]) r'" by blast
  with Cons.IH [OF this(2) step] show ?case by (simp add: e)
qed simp

lemma build_ok:
  assumes "inv f" "contents f = []" "op_comparator op = icmp" "policy_ok (op_filter_policy op)" "rising es" "length es < 2 ^ 31"
  shows "\<exists>s r'. build_table F place op es f = Ret (s, r') \<and>
    (s = OK \<longrightarrow> (\<exists>bs seps g. concat bs = es \<and> index_ok bs seps \<and> length seps = length bs \<and>
       filter_contents (ival op) bs (op_filter_policy op) g \<and> contents (tb_file r') = table_bytes op bs seps g))"
proof -
  obtain r where r: "TableBuilder_new op f = Ret r" "built contents inv op [] [] [] r" using new_ok [OF assms(1,2)] by blast
  then have "built_from op [] r" unfolding built_from_def by (metis concat.simps(1) append_Nil)
  from AddAll_ok [OF this assms(3,4), of es place] assms(5,6) obtain r' where r': "TableBuilder_AddAll F place es r = Ret r'" "built_from op es r'" by auto
  from Finish_ok [OF r'(2) assms(3-6), of place] r(1) r'(1) show ?thesis by (auto simp: build_table_def)
qed

end

section \<open>Reading it back\<close>

lemma filter_last_byte: "FilterBlock_Finish P b = Ret c \<Longrightarrow> \<exists>x. c = x @ [11]"
  by (auto simp: FilterBlock_Finish_def Let_def split: if_splits)

lemma reader_of_filter: "\<exists>r. FilterBlockReader_new (x @ [11]) = Ret r \<and> fr_base_lg r < 64"
proof (cases "length x < 4")
  case False
  then obtain w where "DecodeFixed32 (drop (length x - 4) (x @ [11])) = Ret w" using DecodeFixed32_ret [of "drop (length x - 4) (x @ [11])"] by auto
  moreover have "unat (scast (11 :: byte) :: u64) = 11" using scast_small [of 11] by simp
  ultimately show ?thesis using False by (simp add: FilterBlockReader_new_def Let_def)
qed (simp add: FilterBlockReader_new_def)

lemma filter_blocks_sorted:
  assumes "length (concat (map (data_block iv) bs)) < 2 ^ 32"
  shows "sorted_wrt (\<lambda>x y. fst x \<le> fst y) (filter_blocks iv bs [])"
proof -
  let ?n = "length (concat (map (data_block iv) bs))"
  have le: "block_offset_of iv bs i \<le> ?n" "i \<le> j \<Longrightarrow> block_offset_of iv bs i \<le> block_offset_of iv bs j" if "i < length bs" for i j
    using that part_mono [of i "length bs" "map (data_block iv) bs"] part_mono [of i j "map (data_block iv) bs"] part_length [of "map (data_block iv) bs"]
    by (simp_all add: block_offset_of_def)
  have w: "(of_nat a :: u64) \<le> of_nat b" if "a \<le> b" "b < 2 ^ 32" for a b
    using that by (simp add: word_le_nat_alt)
  have "(of_nat (block_offset_of iv bs i) :: u64) \<le> of_nat (block_offset_of iv bs j)" if "i < j" "j < length bs" for i j
    using le(2) [of i j] le(1) [of j] that assms by (intro w) auto
  moreover have "(of_nat (block_offset_of iv bs i) :: u64) \<le> of_nat ?n" if "i < length bs" for i
    using le(1) [OF that] assms by (intro w) auto
  ultimately show ?thesis unfolding filter_blocks_def sorted_wrt_append by (auto simp: sorted_wrt_iff_nth_less)
qed

lemma filter_serves:
  assumes "policy_ok (Some (name, P))" "filter_contents iv bs (Some (name, P)) (Some c)" "rising (concat bs)" "length (concat bs) < 2 ^ 31"
    and "length c < 2 ^ 32" "length (concat (map (data_block iv) bs)) < 2 ^ 32" "tr_filter t = Some (P, reader)" "FilterBlockReader_new c = Ret reader"
  shows "filter_ok t iv bs"
proof -
  have P: "user_filter P" "filter_policy P ik" using assms(1) by (simp_all add: policy_ok_def user_filter_def)
  have c: "bindO (build_blocks P (filter_blocks iv bs []) FilterBlockBuilder_new) (FilterBlock_Finish P) = Ret c" using assms(2) by (simp add: filter_contents_def)
  then obtain x where "c = x @ [11]" using filter_last_byte unfolding bindO_eq_Ret by blast
  then have "fr_base_lg reader < 64" using reader_of_filter [of x] assms(8) by auto
  then have tot: "\<exists>m. FilterBlock_KeyMayMatch P reader off k = Ret m" if "k \<in> ik" for off k
    using user_filter.filter_reader_total [OF P(1) assms(8) _ that] by blast
  have ks: "concat (map snd (filter_blocks iv bs [])) = map fst (concat bs)" by (simp add: filter_keys)
  have "set ks \<subseteq> ik" if "(off, ks) \<in> set (filter_blocks iv bs [])" for off ks
    using that filter_keys_ik [of bs "[]"] assms(3) by simp
  then have "\<forall>(off, ks)\<in>set (filter_blocks iv bs []). set ks \<subseteq> ik" by blast
  from filter_policy.filter_block_complete [OF P(2) this filter_blocks_sorted [OF assms(6)]] assms(4,5,8) c ks
  have found: "\<forall>(off, ks)\<in>set (filter_blocks iv bs []). \<forall>k\<in>set ks. FilterBlock_KeyMayMatch P reader off k = Ret True" by auto
  have "FilterBlock_KeyMayMatch P reader (of_nat (block_offset_of iv bs i)) k = Ret True"
    if a: "k \<in> ik" "i < length bs" "e \<in> set (bs ! i)" "ukey (fst e) = ukey k" for k i e
  proof -
    have "(of_nat (block_offset_of iv bs i), map fst (bs ! i)) \<in> set (filter_blocks iv bs [])" using a(2) by (simp add: filter_blocks_def)
    then have "FilterBlock_KeyMayMatch P reader (of_nat (block_offset_of iv bs i)) (fst e) = Ret True" using found a(3) by force
    moreover have "e \<in> set (concat bs)" using a(2,3) by auto
    then have "fst e \<in> ik" using assms(3) unfolding rising_def by blast
    ultimately show ?thesis using user_filter.filter_user_only [OF P(1) _ a(1,4)] by metis
  qed
  then show ?thesis using tot assms(7) unfolding filter_ok_def by simp blast
qed

text \<open>What a lookup relies on in the cache: nothing is there yet under the identity of the table.\<close>

definition nothing_cached :: "u64 \<Rightarrow> 'c Cache option \<Rightarrow> 'c \<Rightarrow> bool" where
  "nothing_cached cid block_cache c =
     (case block_cache of None \<Rightarrow> True | Some K \<Rightarrow> (\<forall>off. fst (Cache_Lookup K (EncodeFixed64 cid @ EncodeFixed64 off) c) = None))"

context random_access_file
begin

lemma table_serves:
  assumes "length data < 2 ^ 32" "data = table_bytes op bs seps g" "rising (concat bs)" "sizes_ok (concat bs)" "length (concat bs) < 2 ^ 31"
    and "index_ok bs seps" "length seps = length bs" "filter_contents (ival op) bs (op_filter_policy op) g"
    and "policy_ok (op_filter_policy op)" "op_comparator op = icmp"
  shows "\<exists>t. Table_Open place cid op R (of_nat (length data)) = Ret (OK, Some t) \<and> tr_file t = R \<and> tr_options t = op \<and> tr_cache_id t = cid \<and>
    filter_ok t (ival op) bs \<and> Block_new (index_bytes op bs seps) = Ret (tr_index_block t)"
proof -
  define D where "D = data_of op bs"
  have d: "data = D @ tail_bytes (length D) g (meta_block op (filter_handle (length D) g)) (index_bytes op bs seps)"
    using assms(2) by (simp add: table_bytes_def D_def)
  then have len: "length D < 2 ^ 32" "length (index_bytes op bs seps) < 2 ^ 32" "length (filter_part g) < 2 ^ 32" using assms(1) by (simp_all add: tail_bytes_def)
  have "replicate 8 0 \<in> ik" by (simp add: ik_iff)
  from Iterator_block [OF index_entries_rising [OF assms(3,6,4), of "ival op"] this] len(2) obtain ib where ib: "Block_new (index_bytes op bs seps) = Ret ib"
    unfolding index_bytes_def by blast
  show ?thesis
  proof (cases "op_filter_policy op")
    case None
    then have "case op_filter_policy op of None \<Rightarrow> True
      | Some (name, P) \<Rightarrow> length (filter_key name) < 2 ^ 32 \<and> (\<exists>b. g = Some b \<and> FilterBlockReader_new b = Ret reader) \<and>
          meta_block op (filter_handle (length D) g) = build_block (ival op) [(filter_key name, handle_bytes (filter_handle (length D) g))]" for reader by simp
    from Open_ok [OF assms(1) d ib this, of place cid] ib None show ?thesis by (auto simp: filter_ok_def)
  next
    case (Some np)
    obtain name P where np: "np = (name, P)" by (cases np)
    obtain b where b: "g = Some b" "bindO (build_blocks P (filter_blocks (ival op) bs []) FilterBlockBuilder_new) (FilterBlock_Finish P) = Ret b"
      using assms(8) Some np by (auto simp: filter_contents_def)
    then obtain x where "b = x @ [11]" using filter_last_byte unfolding bindO_eq_Ret by blast
    then obtain reader where reader: "FilterBlockReader_new b = Ret reader" using reader_of_filter by blast
    have "case op_filter_policy op of None \<Rightarrow> True
      | Some (name, P) \<Rightarrow> length (filter_key name) < 2 ^ 32 \<and> (\<exists>b. g = Some b \<and> FilterBlockReader_new b = Ret reader) \<and>
          meta_block op (filter_handle (length D) g) = build_block (ival op) [(filter_key name, handle_bytes (filter_handle (length D) g))]"
      using Some np b(1) reader assms(9) by (simp add: policy_ok_def meta_block_def meta_entries_def)
    from Open_ok [OF assms(1) d ib this, of place cid] Some np obtain t where
      t: "Table_Open place cid op R (of_nat (length data)) = Ret (OK, Some t)" "tr_file t = R" "tr_options t = op" "tr_cache_id t = cid" "tr_index_block t = ib"
        "tr_filter t = Some (P, reader)" by auto
    have "length b < 2 ^ 32" using len(3) b(1) by (simp add: filter_part_def)
    from filter_serves [OF _ _ assms(3,5) this _ t(6) reader, of name "ival op"] len(1) assms(8,9) Some np b(1)
    have "filter_ok t (ival op) bs" by (simp add: D_def)
    then show ?thesis using t ib by auto
  qed
qed

lemma table_get:
  assumes "length data < 2 ^ 32" "data = table_bytes op bs seps g" "rising (concat bs)" "sizes_ok (concat bs)" "length (concat bs) < 2 ^ 31"
    and "index_ok bs seps" "length seps = length bs" "filter_contents (ival op) bs (op_filter_policy op) g"
    and "policy_ok (op_filter_policy op)" "op_comparator op = icmp"
  shows "\<exists>t. Table_Open place cid op R (of_nat (length data)) = Ret (OK, Some t) \<and>
    (\<forall>k options c. k \<in> ik \<longrightarrow> nothing_cached cid block_cache c \<longrightarrow>
      (\<exists>r c'. Table_InternalGet place block_cache t options k c = Ret (OK, r, c') \<and> same_user k r = same_user k (find (at_or_after k) (concat bs))))"
proof -
  obtain t where t: "Table_Open place cid op R (of_nat (length data)) = Ret (OK, Some t)" "tr_file t = R" "tr_options t = op" "tr_cache_id t = cid"
    "filter_ok t (ival op) bs" "Block_new (index_bytes op bs seps) = Ret (tr_index_block t)" using table_serves [OF assms] by blast
  have d: "data = data_of op bs @ drop (length (data_of op bs)) data" using assms(2) by (simp add: table_bytes_def)
  have ix: "length (index_bytes op bs seps) < 2 ^ 32" using assms(1,2) by (simp add: table_bytes_def tail_bytes_def)
  have cache: "cache_ok block_cache t (ival op) bs c" if "nothing_cached cid block_cache c" for c
    using that t(4) by (auto simp: cache_ok_def nothing_cached_def cache_key_def split: option.splits) (metis fst_conv option.distinct(1))
  have cmp: "op_comparator (tr_options t) = icmp" using t(3) assms(10) by simp
  have "\<exists>r c'. Table_InternalGet place block_cache t options k c = Ret (OK, r, c') \<and> same_user k r = same_user k (find (at_or_after k) (concat bs))"
    if "k \<in> ik" "nothing_cached cid block_cache c" for k options c
    by (rule InternalGet_ok [OF assms(1) d assms(3,4,6,7) that(1) t(2) cmp t(6) [unfolded index_bytes_def] ix [unfolded index_bytes_def] t(5) cache [OF that(2)]])
  then show ?thesis using t(1) by blast
qed

end

text \<open>As tables use them, the policies for user keys are wrapped for internal keys.\<close>

lemma internal_user_filter:
  assumes "filter_policy P UNIV" and "\<forall>k f. isRet (KeyMayMatch P k f)"
  shows "user_filter (InternalFilterPolicy P)"
proof (intro user_filter.intro user_filter_axioms.intro)
  show "filter_policy (InternalFilterPolicy P) (ikeys UNIV)" by (rule filter_policy.internal_filter [OF assms(1)])
qed (use assms(2) in \<open>auto simp: InternalFilterPolicy_def ExtractUserKey_eq ikeys_def\<close>)

text \<open>
  C24: a table serves what it was built from. Building a table on an empty POSIX file from entries in
  the order of their internal keys (bytewise on user keys) always returns, whatever the block size
  and the restart interval are, and without a filter policy or with any policy for user keys,
  wrapped for internal keys, that keeps its contract: a filter matches every key it was created
  from, and matching returns on every filter. When building reports success and the file is below
  4 GiB, the table opens from a mapping of the file, and, with a block cache or without one, as
  long as the cache holds nothing under the table's id, a lookup of any internal key returns, as far
  as the user key is the same, the first entry at or behind it.
\<close>

theorem table_get_finds:
  assumes "wf_contents f = []" and "op_comparator op = InternalKeyComparator BytewiseComparator"
    and "op_filter_policy op = None \<or>
      (\<exists>name P. length name < 2 ^ 31 \<and> op_filter_policy op = Some (name, InternalFilterPolicy P) \<and>
        filter_policy P UNIV \<and> (\<forall>k f. isRet (KeyMayMatch P k f)))"
    and "sorted_wrt (\<lambda>x y. ikey_lt bytes_lt (fst x) (fst y)) es" and "length es < 2 ^ 31"
    and "\<forall>(k, v)\<in>set es. 8 \<le> length k \<and> length k < 2 ^ 32 \<and> length v < 2 ^ 32"
  shows "\<exists>s r'. build_table (posix_writable se) place op es f = Ret (s, r') \<and>
    (s = OK \<and> length (wf_contents (tb_file r')) < 2 ^ 32 \<longrightarrow>
      (\<exists>t. Table_Open place cid op (PosixMmapReadableFile_Read se filename (wf_contents (tb_file r'))) (of_nat (length (wf_contents (tb_file r')))) = Ret (OK, Some t) \<and>
        (\<forall>k options c. 8 \<le> length k \<and> nothing_cached cid block_cache c \<longrightarrow>
          (\<exists>r c'. Table_InternalGet place block_cache t options k c = Ret (OK, r, c') \<and>
            same_user k r = same_user k (find (\<lambda>(k', v). \<not> ikey_lt bytes_lt k' k) es)))))"
proof -
  have es: "rising es" "sizes_ok es" using assms(4,6) by (auto simp: rising_def sizes_ok_def ik_iff)
  have pol: "policy_ok (op_filter_policy op)" using assms(3) internal_user_filter by (auto simp: policy_ok_def filter_key_def)
  have "buf f = []" using assms(1) by (simp add: wf_contents_def)
  then have inv: "wf_inv f" by (simp add: wf_inv_def)
  obtain s r' where r': "build_table (posix_writable se) place op es f = Ret (s, r')"
    and b: "s = OK \<longrightarrow> (\<exists>bs seps g. concat bs = es \<and> index_ok bs seps \<and> length seps = length bs \<and>
       filter_contents (ival op) bs (op_filter_policy op) g \<and> wf_contents (tb_file r') = table_bytes op bs seps g)"
    using pw.build_ok [OF inv assms(1,2) pol es(1) assms(5), of se place] by blast
  have "\<exists>t. Table_Open place cid op (PosixMmapReadableFile_Read se filename (wf_contents (tb_file r'))) (of_nat (length (wf_contents (tb_file r')))) = Ret (OK, Some t) \<and>
        (\<forall>k options c. 8 \<le> length k \<and> nothing_cached cid block_cache c \<longrightarrow>
          (\<exists>r c'. Table_InternalGet place block_cache t options k c = Ret (OK, r, c') \<and> same_user k r = same_user k (find (at_or_after k) es)))"
    if ok: "s = OK" and len: "length (wf_contents (tb_file r')) < 2 ^ 32"
  proof -
    obtain bs seps g where bs: "concat bs = es" "index_ok bs seps" "length seps = length bs" "filter_contents (ival op) bs (op_filter_policy op) g"
      "wf_contents (tb_file r') = table_bytes op bs seps g" using b ok by blast
    show ?thesis
      using mmap.table_get [OF len bs(5) _ _ _ bs(2-4) pol assms(2), of place cid se filename block_cache] es assms(5) unfolding bs(1) ik_iff by blast
  qed
  then show ?thesis using r' by blast
qed

definition sample_options :: Options where
  "sample_options = \<lparr>op_comparator = InternalKeyComparator BytewiseComparator, op_block_size = 1, op_block_restart_interval = 16,
     op_compression = kNoCompression, op_filter_policy = Some ([98], InternalFilterPolicy (BloomFilterPolicy 1)), op_paranoid_checks = True\<rparr>"

definition sample_table_file :: posix_wfile where
  "sample_table_file = \<lparr>buf = [], wf_fd = \<lparr>accepted = [], wevents = []\<rparr>, wf_name = ''000005.ldb''\<rparr>"

definition sample_entries :: "entry list" where
  "sample_entries = [([1, 0, 0, 0, 0, 0, 0, 0, 0], [7]), ([3, 0, 0, 0, 0, 0, 0, 0, 0], [8])]"

lemma write_all: "wevents fd = [] \<Longrightarrow> WriteUnbuffered_loop se name data fd = (OK, fd\<lparr>accepted := accepted fd @ data\<rparr>)"
  by (subst WriteUnbuffered_loop.simps) (simp add: sys_write_def WriteUnbuffered_loop.simps)

lemma StartBlock_first: "unat off < 2048 \<Longrightarrow> StartBlock P off b = Ret b"
  by (simp add: StartBlock_def kFilterBase_def StartBlock_loop.simps)

lemma sample_index_keys:
  "FindShortestSeparator icmp [1, 0, 0, 0, 0, 0, 0, 0, 0] [3, 0, 0, 0, 0, 0, 0, 0, 0] = Ret [1, 0, 0, 0, 0, 0, 0, 0, 0]"
  "FindShortSuccessor icmp [3, 0, 0, 0, 0, 0, 0, 0, 0] = Ret [3, 0, 0, 0, 0, 0, 0, 0, 0]"
  by code_simp+

lemmas table_eval = build_table_def TableBuilder_new_def filter_StartBlock_def StartBlock_first FilterBlockBuilder_new_def AddKey_def
  TableBuilder_Add_def add_index_entry_def TableBuilder_Flush_def WriteBlock_def WriteRawBlock_def no_compression
  BlockBuilder_new_def BlockBuilder_Add_def BlockBuilder_empty_def BlockBuilder_Finish_def BlockBuilder_Reset_def CurrentSizeEstimate_def
  PutVarint32_def EncodeVarint32_eq varint.simps PutFixed32_def EncodeFixed32_def crc_Value_eq Extend_eq
  posix_writable_def PosixWritableFile_Append_def PosixWritableFile_Flush_def kWritableFileBufferSize_def FlushBuffer_def WriteUnbuffered_def write_all
  BlockHandle_EncodeTo_eq handle_bytes_def BlockHandle_new_def TableBuilder_Finish_def write_filter_block_def write_metaindex_block_def
  write_index_block_def write_footer_def Footer_EncodeTo_length FilterBlock_Finish_def filter_key_def

lemma sample_table:
  "\<exists>r. build_table (posix_writable (\<lambda>_. [])) (\<lambda>_. 0) sample_options sample_entries sample_table_file = Ret (OK, r) \<and> length (wf_contents (tb_file r)) < 2 ^ 32"
  supply bindO_eq_Ret [simp del]
  by (simp add: sample_options_def sample_table_file_def sample_entries_def sample_index_keys table_eval filter_eval Let_def wf_contents_def)

lemma sample_search: "same_user [3, 9, 0, 0, 0, 0, 0, 0, 0] (find (at_or_after [3, 9, 0, 0, 0, 0, 0, 0, 0]) sample_entries) = Some ([3, 0, 0, 0, 0, 0, 0, 0, 0], [8])"
  by code_simp

theorem table_get_finds_witness:
  "\<exists>r t x c. build_table (posix_writable (\<lambda>_. [])) (\<lambda>_. 0) sample_options sample_entries sample_table_file = Ret (OK, r) \<and>
    Table_Open (\<lambda>_. 0) 5 sample_options (PosixMmapReadableFile_Read (\<lambda>_. []) [] (wf_contents (tb_file r))) (of_nat (length (wf_contents (tb_file r)))) = Ret (OK, Some t) \<and>
    Table_InternalGet (\<lambda>_. 0) (None :: unit Cache option) t \<lparr>verify_checksums = True, fill_cache = True\<rparr> [3, 9, 0, 0, 0, 0, 0, 0, 0] () = Ret (OK, x, c) \<and>
    same_user [3, 9, 0, 0, 0, 0, 0, 0, 0] x = Some ([3, 0, 0, 0, 0, 0, 0, 0, 0], [8])"
proof -
  obtain r where r: "build_table (posix_writable (\<lambda>_. [])) (\<lambda>_. 0) sample_options sample_entries sample_table_file = Ret (OK, r)"
    "length (wf_contents (tb_file r)) < 2 ^ 32" using sample_table by blast
  have "wf_contents sample_table_file = []" by (simp add: sample_table_file_def wf_contents_def)
  moreover have "sorted_wrt (\<lambda>x y. ikey_lt bytes_lt (fst x) (fst y)) sample_entries" by code_simp
  moreover have "\<forall>(k, v)\<in>set sample_entries. 8 \<le> length k \<and> length k < 2 ^ 32 \<and> length v < 2 ^ 32" "length sample_entries < 2 ^ 31"
    by (simp_all add: sample_entries_def)
  moreover have "op_comparator sample_options = icmp" "op_filter_policy sample_options = Some ([98], InternalFilterPolicy (BloomFilterPolicy 1))"
    by (simp_all add: sample_options_def)
  moreover have "filter_policy (BloomFilterPolicy 1) UNIV" "\<forall>k f. isRet (KeyMayMatch (BloomFilterPolicy 1) k f)"
    using bloom.filter_policy_axioms by (simp_all add: BloomFilterPolicy_def Bloom_KeyMayMatch_ret)
  ultimately have "\<exists>t. Table_Open (\<lambda>_. 0) 5 sample_options (PosixMmapReadableFile_Read (\<lambda>_. []) [] (wf_contents (tb_file r))) (of_nat (length (wf_contents (tb_file r)))) = Ret (OK, Some t) \<and>
      (\<forall>k options c. 8 \<le> length k \<and> nothing_cached 5 (None :: unit Cache option) c \<longrightarrow>
        (\<exists>x c'. Table_InternalGet (\<lambda>_. 0) None t options k c = Ret (OK, x, c') \<and> same_user k x = same_user k (find (at_or_after k) sample_entries)))"
    using table_get_finds [of sample_table_file sample_options sample_entries "\<lambda>_. []" "\<lambda>_. 0" 5 "[]" "None :: unit Cache option"] r by fastforce
  moreover have "8 \<le> length [3, 9, 0, 0, 0, 0, 0, 0, 0 :: byte]" "nothing_cached 5 (None :: unit Cache option) ()" by (simp_all add: nothing_cached_def)
  ultimately show ?thesis using r(1) sample_search by metis
qed

end
