(* ===== verification/Version_Edit.thy ===== *)
theory Version_Edit
  imports Dbformat Status "HOL-Library.Product_Lexorder"
begin

text \<open>
  Version edits (\<open>db/version_edit.cc\<close>, \<open>db/version_edit.h\<close>), the records of the manifest: which
  files a version gains and loses at which level, and the counters. A record is encoded, logged,
  and decoded again when the database is opened. The set of deleted files is the list that
  iterating the \<open>std::set\<close> gives: sorted, without duplicates.
\<close>

section \<open>The edit\<close>

type_synonym InternalKey = "byte list"

record FileMetaData =
  fm_refs :: int
  fm_allowed_seeks :: int
  fm_number :: u64
  fm_file_size :: u64
  fm_smallest :: InternalKey
  fm_largest :: InternalKey

record VersionEdit =
  ve_comparator :: "byte list"
  ve_log_number :: u64
  ve_prev_log_number :: u64
  ve_next_file_number :: u64
  ve_last_sequence :: SequenceNumber
  has_comparator :: bool
  has_log_number :: bool
  has_prev_log_number :: bool
  has_next_file_number :: bool
  has_last_sequence :: bool
  compact_pointers :: "(int \<times> InternalKey) list"
  deleted_files :: "(int \<times> u64) list"
  new_files :: "(int \<times> FileMetaData) list"

text \<open>\<open>Clear\<close> leaves \<open>compact_pointers_\<close> alone.\<close>

definition VersionEdit_Clear :: "VersionEdit \<Rightarrow> VersionEdit" where
  "VersionEdit_Clear e =
     e\<lparr>ve_comparator := [], ve_log_number := 0, ve_prev_log_number := 0, ve_last_sequence := 0, ve_next_file_number := 0,
       has_comparator := False, has_log_number := False, has_prev_log_number := False, has_next_file_number := False,
       has_last_sequence := False, deleted_files := [], new_files := []\<rparr>"

definition VersionEdit_new :: VersionEdit where
  "VersionEdit_new =
     VersionEdit_Clear \<lparr>ve_comparator = [], ve_log_number = 0, ve_prev_log_number = 0, ve_next_file_number = 0, ve_last_sequence = 0,
       has_comparator = False, has_log_number = False, has_prev_log_number = False, has_next_file_number = False,
       has_last_sequence = False, compact_pointers = [], deleted_files = [], new_files = []\<rparr>"

definition SetComparatorName :: "byte list \<Rightarrow> VersionEdit \<Rightarrow> VersionEdit" where
  "SetComparatorName name e = e\<lparr>has_comparator := True, ve_comparator := name\<rparr>"

definition SetLogNumber :: "u64 \<Rightarrow> VersionEdit \<Rightarrow> VersionEdit" where
  "SetLogNumber num e = e\<lparr>has_log_number := True, ve_log_number := num\<rparr>"

definition SetPrevLogNumber :: "u64 \<Rightarrow> VersionEdit \<Rightarrow> VersionEdit" where
  "SetPrevLogNumber num e = e\<lparr>has_prev_log_number := True, ve_prev_log_number := num\<rparr>"

definition SetNextFile :: "u64 \<Rightarrow> VersionEdit \<Rightarrow> VersionEdit" where
  "SetNextFile num e = e\<lparr>has_next_file_number := True, ve_next_file_number := num\<rparr>"

definition SetLastSequence :: "SequenceNumber \<Rightarrow> VersionEdit \<Rightarrow> VersionEdit" where
  "SetLastSequence q e = e\<lparr>has_last_sequence := True, ve_last_sequence := q\<rparr>"

definition SetCompactPointer :: "int \<Rightarrow> InternalKey \<Rightarrow> VersionEdit \<Rightarrow> VersionEdit" where
  "SetCompactPointer level key e = e\<lparr>compact_pointers := compact_pointers e @ [(level, key)]\<rparr>"

definition FileMetaData_new :: "u64 \<Rightarrow> u64 \<Rightarrow> InternalKey \<Rightarrow> InternalKey \<Rightarrow> FileMetaData" where
  "FileMetaData_new file file_size smallest largest =
     \<lparr>fm_refs = 0, fm_allowed_seeks = 2 ^ 30, fm_number = file, fm_file_size = file_size, fm_smallest = smallest, fm_largest = largest\<rparr>"

definition AddFile :: "int \<Rightarrow> u64 \<Rightarrow> u64 \<Rightarrow> InternalKey \<Rightarrow> InternalKey \<Rightarrow> VersionEdit \<Rightarrow> VersionEdit" where
  "AddFile level file file_size smallest largest e =
     e\<lparr>new_files := new_files e @ [(level, FileMetaData_new file file_size smallest largest)]\<rparr>"

definition DeleteFile :: "int \<Rightarrow> u64 \<Rightarrow> VersionEdit \<Rightarrow> VersionEdit" where
  "DeleteFile level file e = e\<lparr>deleted_files := insort_insert (level, file) (deleted_files e)\<rparr>"

section \<open>Encoding\<close>

abbreviation (input) kComparator :: u32 where "kComparator \<equiv> 1"
abbreviation (input) kLogNumber :: u32 where "kLogNumber \<equiv> 2"
abbreviation (input) kNextFileNumber :: u32 where "kNextFileNumber \<equiv> 3"
abbreviation (input) kLastSequence :: u32 where "kLastSequence \<equiv> 4"
abbreviation (input) kCompactPointer :: u32 where "kCompactPointer \<equiv> 5"
abbreviation (input) kDeletedFile :: u32 where "kDeletedFile \<equiv> 6"
abbreviation (input) kNewFile :: u32 where "kNewFile \<equiv> 7"
abbreviation (input) kPrevLogNumber :: u32 where "kPrevLogNumber \<equiv> 9"

definition put_number :: "u32 \<Rightarrow> bool \<Rightarrow> u64 \<Rightarrow> byte list \<Rightarrow> byte list" where
  "put_number tag present v dst = (if present then PutVarint64 (PutVarint32 dst tag) v else dst)"

definition put_compact_pointer :: "byte list \<Rightarrow> int \<times> InternalKey \<Rightarrow> byte list" where
  "put_compact_pointer dst = (\<lambda>(level, key).
     PutLengthPrefixedSlice (PutVarint32 (PutVarint32 dst kCompactPointer) (of_int level)) key)"

definition put_deleted_file :: "byte list \<Rightarrow> int \<times> u64 \<Rightarrow> byte list" where
  "put_deleted_file dst = (\<lambda>(level, number).
     PutVarint64 (PutVarint32 (PutVarint32 dst kDeletedFile) (of_int level)) number)"

definition put_new_file :: "byte list \<Rightarrow> int \<times> FileMetaData \<Rightarrow> byte list" where
  "put_new_file dst = (\<lambda>(level, f).
     let dst = PutVarint32 dst kNewFile;
         dst = PutVarint32 dst (of_int level);
         dst = PutVarint64 dst (fm_number f);
         dst = PutVarint64 dst (fm_file_size f);
         dst = PutLengthPrefixedSlice dst (fm_smallest f)
     in PutLengthPrefixedSlice dst (fm_largest f))"

definition VersionEdit_EncodeTo :: "VersionEdit \<Rightarrow> byte list \<Rightarrow> byte list" where
  "VersionEdit_EncodeTo e dst =
     (let dst = (if has_comparator e then PutLengthPrefixedSlice (PutVarint32 dst kComparator) (ve_comparator e) else dst);
          dst = put_number kLogNumber (has_log_number e) (ve_log_number e) dst;
          dst = put_number kPrevLogNumber (has_prev_log_number e) (ve_prev_log_number e) dst;
          dst = put_number kNextFileNumber (has_next_file_number e) (ve_next_file_number e) dst;
          dst = put_number kLastSequence (has_last_sequence e) (ve_last_sequence e) dst;
          dst = foldl put_compact_pointer dst (compact_pointers e);
          dst = foldl put_deleted_file dst (deleted_files e)
      in foldl put_new_file dst (new_files e))"

section \<open>Decoding\<close>

abbreviation (input) kNumLevels :: nat where "kNumLevels \<equiv> 7"

definition GetInternalKey :: "byte list \<Rightarrow> (InternalKey \<times> byte list) option" where
  "GetInternalKey input = GetLengthPrefixedSlice input"

definition GetLevel :: "byte list \<Rightarrow> (int \<times> byte list) option" where
  "GetLevel input =
     (case GetVarint32 input of
        Some (v, input) \<Rightarrow> if v < of_nat kNumLevels then Some (uint v, input) else None
      | None \<Rightarrow> None)"

definition get_number :: "byte list \<Rightarrow> (u64 \<Rightarrow> VersionEdit) \<Rightarrow> string \<Rightarrow> string + byte list \<times> VersionEdit" where
  "get_number input set_it msg = (case GetVarint64 input of Some (v, input) \<Rightarrow> Inr (input, set_it v) | None \<Rightarrow> Inl msg)"

definition get_new_file :: "byte list \<Rightarrow> (int \<times> FileMetaData \<times> byte list) option" where
  "get_new_file input =
     Option.bind (GetLevel input) (\<lambda>(level, input).
     Option.bind (GetVarint64 input) (\<lambda>(number, input).
     Option.bind (GetVarint64 input) (\<lambda>(file_size, input).
     Option.bind (GetInternalKey input) (\<lambda>(smallest, input).
     Option.bind (GetInternalKey input) (\<lambda>(largest, input).
       Some (level, FileMetaData_new number file_size smallest largest, input))))))"

text \<open>One turn of the \<open>switch\<close>: the message of an error, or the rest of the input and the edit.\<close>

definition decode_tag :: "u32 \<Rightarrow> byte list \<Rightarrow> VersionEdit \<Rightarrow> string + byte list \<times> VersionEdit" where
  "decode_tag tag input e =
     (if tag = kComparator then
        (case GetLengthPrefixedSlice input of
           Some (str, input) \<Rightarrow> Inr (input, e\<lparr>ve_comparator := str, has_comparator := True\<rparr>)
         | None \<Rightarrow> Inl ''comparator name'')
      else if tag = kLogNumber then get_number input (\<lambda>v. e\<lparr>ve_log_number := v, has_log_number := True\<rparr>) ''log number''
      else if tag = kPrevLogNumber then
        get_number input (\<lambda>v. e\<lparr>ve_prev_log_number := v, has_prev_log_number := True\<rparr>) ''previous log number''
      else if tag = kNextFileNumber then
        get_number input (\<lambda>v. e\<lparr>ve_next_file_number := v, has_next_file_number := True\<rparr>) ''next file number''
      else if tag = kLastSequence then
        get_number input (\<lambda>v. e\<lparr>ve_last_sequence := v, has_last_sequence := True\<rparr>) ''last sequence number''
      else if tag = kCompactPointer then
        (case Option.bind (GetLevel input) (\<lambda>(level, input). map_option (Pair level) (GetInternalKey input)) of
           Some (level, key, input) \<Rightarrow> Inr (input, e\<lparr>compact_pointers := compact_pointers e @ [(level, key)]\<rparr>)
         | None \<Rightarrow> Inl ''compaction pointer'')
      else if tag = kDeletedFile then
        (case Option.bind (GetLevel input) (\<lambda>(level, input). map_option (Pair level) (GetVarint64 input)) of
           Some (level, number, input) \<Rightarrow> Inr (input, e\<lparr>deleted_files := insort_insert (level, number) (deleted_files e)\<rparr>)
         | None \<Rightarrow> Inl ''deleted file'')
      else if tag = kNewFile then
        (case get_new_file input of
           Some (level, f, input) \<Rightarrow> Inr (input, e\<lparr>new_files := new_files e @ [(level, f)]\<rparr>)
         | None \<Rightarrow> Inl ''new-file entry'')
      else Inl ''unknown tag'')"

lemma coding_shrinks:
  "GetVarint32 p = Some (v, q) \<Longrightarrow> length q < length p" "GetVarint64 p = Some (w, q) \<Longrightarrow> length q < length p"
  "GetLengthPrefixedSlice p = Some (k, q) \<Longrightarrow> length q < length p"
  by (auto dest!: coding_bounds)

lemma GetLevel_shrinks: "GetLevel input = Some (l, rest) \<Longrightarrow> length rest < length input"
  by (auto simp: GetLevel_def dest!: coding_shrinks split: option.splits if_splits)

lemma get_new_file_shrinks: "get_new_file input = Some (l, f, rest) \<Longrightarrow> length rest \<le> length input"
  by (auto simp: get_new_file_def GetInternalKey_def bind_eq_Some_conv dest!: coding_shrinks GetLevel_shrinks)

lemma decode_tag_shrinks: "decode_tag tag input e = Inr (rest, e') \<Longrightarrow> length rest \<le> length input"
  by (auto simp: decode_tag_def get_number_def GetInternalKey_def bind_eq_Some_conv
      dest!: coding_shrinks GetLevel_shrinks get_new_file_shrinks split: option.splits if_splits)

function DecodeFrom_loop :: "byte list \<Rightarrow> VersionEdit \<Rightarrow> string option \<times> VersionEdit" where
  "DecodeFrom_loop input e =
     (case GetVarint32 input of
        None \<Rightarrow> (if input \<noteq> [] then Some ''invalid tag'' else None, e)
      | Some (tag, input) \<Rightarrow>
          (case decode_tag tag input e of
             Inl msg \<Rightarrow> (Some msg, e)
           | Inr (input, e) \<Rightarrow> DecodeFrom_loop input e))"
  by auto
termination
  by (relation "measure (length \<circ> fst)") (auto dest!: coding_shrinks decode_tag_shrinks)

declare DecodeFrom_loop.simps [simp del]

definition VersionEdit_DecodeFrom :: "byte list \<Rightarrow> VersionEdit \<Rightarrow> Status \<times> VersionEdit" where
  "VersionEdit_DecodeFrom src e =
     (case DecodeFrom_loop src (VersionEdit_Clear e) of
        (None, e) \<Rightarrow> (OK, e)
      | (Some msg, e) \<Rightarrow> (Corruption ''VersionEdit'' msg, e))"

section \<open>Edits that the program builds\<close>

text \<open>
  The calls that build an edit, with the bounds that the program keeps: levels below
  \<open>kNumLevels\<close>, and keys and names shorter than the 32-bit length in front of them.
\<close>

definition small :: "byte list \<Rightarrow> bool" where
  "small k \<longleftrightarrow> length k < 2 ^ 32"

definition level_ok :: "int \<Rightarrow> bool" where
  "level_ok l \<longleftrightarrow> 0 \<le> l \<and> l < 7"

inductive edit_built :: "VersionEdit \<Rightarrow> bool" where
  built_new: "edit_built VersionEdit_new"
| built_comparator: "edit_built e \<Longrightarrow> small name \<Longrightarrow> edit_built (SetComparatorName name e)"
| built_log: "edit_built e \<Longrightarrow> edit_built (SetLogNumber n e)"
| built_prev_log: "edit_built e \<Longrightarrow> edit_built (SetPrevLogNumber n e)"
| built_next_file: "edit_built e \<Longrightarrow> edit_built (SetNextFile n e)"
| built_last_sequence: "edit_built e \<Longrightarrow> edit_built (SetLastSequence q e)"
| built_compact: "edit_built e \<Longrightarrow> level_ok l \<Longrightarrow> small k \<Longrightarrow> edit_built (SetCompactPointer l k e)"
| built_add: "edit_built e \<Longrightarrow> level_ok l \<Longrightarrow> small a \<Longrightarrow> small b \<Longrightarrow> edit_built (AddFile l file sz a b e)"
| built_delete: "edit_built e \<Longrightarrow> level_ok l \<Longrightarrow> edit_built (DeleteFile l file e)"
| built_clear: "edit_built e \<Longrightarrow> edit_built (VersionEdit_Clear e)"

definition file_ok :: "FileMetaData \<Rightarrow> bool" where
  "file_ok f \<longleftrightarrow> f = FileMetaData_new (fm_number f) (fm_file_size f) (fm_smallest f) (fm_largest f) \<and>
     small (fm_smallest f) \<and> small (fm_largest f)"

definition edit_wf :: "VersionEdit \<Rightarrow> bool" where
  "edit_wf e \<longleftrightarrow> small (ve_comparator e) \<and>
     (\<not> has_comparator e \<longrightarrow> ve_comparator e = []) \<and> (\<not> has_log_number e \<longrightarrow> ve_log_number e = 0) \<and>
     (\<not> has_prev_log_number e \<longrightarrow> ve_prev_log_number e = 0) \<and> (\<not> has_next_file_number e \<longrightarrow> ve_next_file_number e = 0) \<and>
     (\<not> has_last_sequence e \<longrightarrow> ve_last_sequence e = 0) \<and>
     (\<forall>(l, k)\<in>set (compact_pointers e). level_ok l \<and> small k) \<and>
     (\<forall>(l, n)\<in>set (deleted_files e). level_ok l) \<and> sorted (deleted_files e) \<and> distinct (deleted_files e) \<and>
     (\<forall>(l, f)\<in>set (new_files e). level_ok l \<and> file_ok f)"

lemmas edit_ops = SetComparatorName_def SetLogNumber_def SetPrevLogNumber_def SetNextFile_def SetLastSequence_def
  SetCompactPointer_def AddFile_def DeleteFile_def VersionEdit_Clear_def VersionEdit_new_def

lemma edit_built_wf: "edit_built e \<Longrightarrow> edit_wf e"
  by (induction rule: edit_built.induct)
    (auto simp: edit_wf_def edit_ops file_ok_def FileMetaData_new_def set_insort_insert sorted_insort_insert distinct_insort_insert,
      simp_all add: small_def)

section \<open>Round trip\<close>

lemma GetLevel_varint: "level_ok l \<Longrightarrow> GetLevel (varint (nat l) @ rest) = Some (l, rest)"
proof -
  assume l: "level_ok l"
  then have u: "unat (of_int l :: u32) = nat l" "uint (of_int l :: u32) = l"
    by (simp_all add: level_ok_def unat_eq_nat_uint word_uint_eq_iff uint_word_of_int take_bit_int_eq_self)
  moreover have "nat l < 7" using l unfolding level_ok_def by linarith
  ultimately have "(of_int l :: u32) < of_nat 7" by (simp add: word_less_nat_alt)
  with GetVarint32_varint [of "of_int l" rest] u show ?thesis by (simp add: GetLevel_def)
qed

lemma level_word: "level_ok l \<Longrightarrow> unat (of_int l :: u32) = nat l"
  by (simp add: level_ok_def unat_eq_nat_uint uint_word_of_int take_bit_int_eq_self)

lemmas put_eqs = PutVarint32_def PutVarint64_def EncodeVarint32_eq EncodeVarint64_eq PutLengthPrefixedSlice_eq level_word

text \<open>The bytes of the parts of an edit.\<close>

definition number_bytes :: "nat \<Rightarrow> bool \<Rightarrow> u64 \<Rightarrow> byte list" where
  "number_bytes tag present v = (if present then varint tag @ varint (unat v) else [])"

definition slice_bytes :: "byte list \<Rightarrow> byte list" where
  "slice_bytes k = varint (length k) @ k"

definition pointer_bytes :: "int \<times> InternalKey \<Rightarrow> byte list" where
  "pointer_bytes = (\<lambda>(l, k). varint 5 @ varint (nat l) @ slice_bytes k)"

definition deleted_bytes :: "int \<times> u64 \<Rightarrow> byte list" where
  "deleted_bytes = (\<lambda>(l, n). varint 6 @ varint (nat l) @ varint (unat n))"

definition file_bytes :: "int \<times> FileMetaData \<Rightarrow> byte list" where
  "file_bytes = (\<lambda>(l, f). varint 7 @ varint (nat l) @ varint (unat (fm_number f)) @ varint (unat (fm_file_size f)) @
     slice_bytes (fm_smallest f) @ slice_bytes (fm_largest f))"

lemmas edit_bytes = number_bytes_def slice_bytes_def pointer_bytes_def deleted_bytes_def file_bytes_def

lemma foldl_appends: "(\<And>x dst. x \<in> set xs \<Longrightarrow> f dst x = dst @ g x) \<Longrightarrow> foldl f dst xs = dst @ concat (map g xs)"
  by (induction xs arbitrary: dst) simp_all

lemma EncodeTo_eq:
  assumes "edit_wf e"
  shows "VersionEdit_EncodeTo e dst = dst @ (if has_comparator e then varint 1 @ slice_bytes (ve_comparator e) else []) @
    number_bytes 2 (has_log_number e) (ve_log_number e) @ number_bytes 9 (has_prev_log_number e) (ve_prev_log_number e) @
    number_bytes 3 (has_next_file_number e) (ve_next_file_number e) @ number_bytes 4 (has_last_sequence e) (ve_last_sequence e) @
    concat (map pointer_bytes (compact_pointers e)) @ concat (map deleted_bytes (deleted_files e)) @ concat (map file_bytes (new_files e))"
proof -
  have "foldl put_compact_pointer d (compact_pointers e) = d @ concat (map pointer_bytes (compact_pointers e))" for d
    using assms by (intro foldl_appends) (auto simp: edit_wf_def small_def put_compact_pointer_def put_eqs edit_bytes)
  moreover have "foldl put_deleted_file d (deleted_files e) = d @ concat (map deleted_bytes (deleted_files e))" for d
    using assms by (intro foldl_appends) (auto simp: edit_wf_def put_deleted_file_def put_eqs edit_bytes)
  moreover have "foldl put_new_file d (new_files e) = d @ concat (map file_bytes (new_files e))" for d
    using assms by (intro foldl_appends) (auto simp: edit_wf_def file_ok_def small_def put_new_file_def put_eqs edit_bytes)
  ultimately show ?thesis using assms
    by (simp add: VersionEdit_EncodeTo_def Let_def put_number_def put_eqs edit_bytes edit_wf_def small_def)
qed

lemma DecodeFrom_loop_tag:
  "DecodeFrom_loop (varint (unat t) @ rest) e =
    (case decode_tag t rest e of Inl msg \<Rightarrow> (Some msg, e) | Inr (input, e) \<Rightarrow> DecodeFrom_loop input e)"
  by (subst DecodeFrom_loop.simps) (simp add: GetVarint32_varint)

lemmas DecodeFrom_loop_tags = DecodeFrom_loop_tag [of 1] DecodeFrom_loop_tag [of 2] DecodeFrom_loop_tag [of 3] DecodeFrom_loop_tag [of 4]
  DecodeFrom_loop_tag [of 5] DecodeFrom_loop_tag [of 6] DecodeFrom_loop_tag [of 7] DecodeFrom_loop_tag [of 9]

lemma GetLengthPrefixedSlice_bytes: "small k \<Longrightarrow> GetLengthPrefixedSlice (slice_bytes k @ rest) = Some (k, rest)"
  using GetLengthPrefixedSlice_varint [of k rest] by (simp add: small_def slice_bytes_def)

lemmas get_eqs = GetVarint64_varint GetLevel_varint GetLengthPrefixedSlice_bytes GetInternalKey_def get_number_def get_new_file_def

lemma decode_comparator:
  "small k \<Longrightarrow> DecodeFrom_loop (varint 1 @ slice_bytes k @ rest) e = DecodeFrom_loop rest (e\<lparr>ve_comparator := k, has_comparator := True\<rparr>)"
  using DecodeFrom_loop_tags(1) [of "slice_bytes k @ rest" e] by (simp add: decode_tag_def get_eqs)

lemma decode_numbers:
  "DecodeFrom_loop (varint 2 @ varint (unat v) @ rest) e = DecodeFrom_loop rest (e\<lparr>ve_log_number := v, has_log_number := True\<rparr>)"
  "DecodeFrom_loop (varint 9 @ varint (unat v) @ rest) e = DecodeFrom_loop rest (e\<lparr>ve_prev_log_number := v, has_prev_log_number := True\<rparr>)"
  "DecodeFrom_loop (varint 3 @ varint (unat v) @ rest) e = DecodeFrom_loop rest (e\<lparr>ve_next_file_number := v, has_next_file_number := True\<rparr>)"
  "DecodeFrom_loop (varint 4 @ varint (unat v) @ rest) e = DecodeFrom_loop rest (e\<lparr>ve_last_sequence := v, has_last_sequence := True\<rparr>)"
  using DecodeFrom_loop_tags(2-4,8) [of "varint (unat v) @ rest" e] by (simp_all add: decode_tag_def get_eqs)

lemma decode_pointers:
  "\<forall>(l, k)\<in>set ps. level_ok l \<and> small k \<Longrightarrow>
    DecodeFrom_loop (concat (map pointer_bytes ps) @ rest) e = DecodeFrom_loop rest (e\<lparr>compact_pointers := compact_pointers e @ ps\<rparr>)"
proof (induction ps arbitrary: e)
  case (Cons p ps)
  obtain l k where p: "p = (l, k)" by (cases p)
  with Cons show ?case
    using DecodeFrom_loop_tags(5) [of "varint (nat l) @ slice_bytes k @ concat (map pointer_bytes ps) @ rest" e]
    by (simp add: pointer_bytes_def decode_tag_def get_eqs)
qed simp

lemma decode_deleted:
  "\<forall>(l, n)\<in>set ds. level_ok l \<Longrightarrow>
    DecodeFrom_loop (concat (map deleted_bytes ds) @ rest) e = DecodeFrom_loop rest (e\<lparr>deleted_files := fold insort_insert ds (deleted_files e)\<rparr>)"
proof (induction ds arbitrary: e)
  case (Cons d ds)
  obtain l n where d: "d = (l, n)" by (cases d)
  with Cons show ?case
    using DecodeFrom_loop_tags(6) [of "varint (nat l) @ varint (unat n) @ concat (map deleted_bytes ds) @ rest" e]
    by (simp add: deleted_bytes_def decode_tag_def get_eqs)
qed simp

lemma decode_files:
  "\<forall>(l, f)\<in>set fs. level_ok l \<and> file_ok f \<Longrightarrow>
    DecodeFrom_loop (concat (map file_bytes fs) @ rest) e = DecodeFrom_loop rest (e\<lparr>new_files := new_files e @ fs\<rparr>)"
proof (induction fs arbitrary: e)
  case (Cons x fs)
  obtain l f where x: "x = (l, f)" by (cases x)
  then have f: "FileMetaData_new (fm_number f) (fm_file_size f) (fm_smallest f) (fm_largest f) = f" "small (fm_smallest f)" "small (fm_largest f)" "level_ok l"
    using Cons.prems by (simp_all add: file_ok_def)
  then have "DecodeFrom_loop (file_bytes x @ concat (map file_bytes fs) @ rest) e =
      DecodeFrom_loop (concat (map file_bytes fs) @ rest) (e\<lparr>new_files := new_files e @ [x]\<rparr>)"
    using DecodeFrom_loop_tags(7) [of "varint (nat l) @ varint (unat (fm_number f)) @ varint (unat (fm_file_size f)) @
      slice_bytes (fm_smallest f) @ slice_bytes (fm_largest f) @ concat (map file_bytes fs) @ rest" e]
    by (simp add: x file_bytes_def decode_tag_def get_eqs)
  with Cons show ?case by simp
qed simp

lemma fold_insort_insert: "sorted (ys @ xs) \<Longrightarrow> distinct (ys @ xs) \<Longrightarrow> fold insort_insert xs ys = ys @ xs"
proof (induction xs arbitrary: ys)
  case (Cons x xs)
  then have "insort_insert x ys = ys @ [x]"
    by (auto simp: insort_insert_insort sorted_append intro!: sorted_insort_is_snoc)
  with Cons.IH [of "ys @ [x]"] Cons.prems show ?case by simp
qed simp

lemma DecodeFrom_loop_empty: "DecodeFrom_loop [] e = (None, e)"
  by (subst DecodeFrom_loop.simps) (simp add: GetVarint32_def GetVarint32Ptr_def GetVarint32PtrFallback_def)

text \<open>
  C27: the manifest round trip: whatever calls built an edit, decoding what it encodes to succeeds
  and gives the same edit back, except that the compaction pointers are appended to those that the
  receiving object held before: \<open>Clear\<close> does not drop them.
\<close>

theorem version_edit_round_trip:
  assumes "edit_built e"
  shows "VersionEdit_DecodeFrom (VersionEdit_EncodeTo e []) e0 = (OK, e\<lparr>compact_pointers := compact_pointers e0 @ compact_pointers e\<rparr>)"
proof -
  have wf: "edit_wf e" using assms by (rule edit_built_wf)
  have "fold insort_insert (deleted_files e) [] = deleted_files e" using wf fold_insort_insert [of "[]" "deleted_files e"] by (simp add: edit_wf_def)
  then have "DecodeFrom_loop (VersionEdit_EncodeTo e []) (VersionEdit_Clear e0) = (None, e\<lparr>compact_pointers := compact_pointers e0 @ compact_pointers e\<rparr>)"
    using wf decode_pointers [of "compact_pointers e"] decode_deleted [of "deleted_files e"] decode_files [of "new_files e" "[]"]
    by (cases e) (simp add: EncodeTo_eq number_bytes_def decode_numbers decode_comparator [simplified] edit_wf_def VersionEdit_Clear_def DecodeFrom_loop_empty)
  then show ?thesis by (simp add: VersionEdit_DecodeFrom_def)
qed

theorem version_edit_round_trip_witness:
  "VersionEdit_DecodeFrom (VersionEdit_EncodeTo (DeleteFile 2 5 (AddFile 1 7 100 [1, 2] [3] (SetLogNumber 9 VersionEdit_new))) []) VersionEdit_new =
    (OK, DeleteFile 2 5 (AddFile 1 7 100 [1, 2] [3] (SetLogNumber 9 VersionEdit_new)))"
proof -
  have "edit_built (DeleteFile 2 5 (AddFile 1 7 100 [1, 2] [3] (SetLogNumber 9 VersionEdit_new)))"
    by (intro edit_built.intros) (simp_all add: level_ok_def small_def)
  from version_edit_round_trip [OF this, of VersionEdit_new] show ?thesis by (simp add: edit_ops)
qed

end
