(* ===== verification/Posix_Env.thy ===== *)
theory Posix_Env
  imports Env_Posix
begin

text \<open>
  \<open>PosixEnv\<close> (\<open>util/env_posix.cc\<close>) as far as a file is written, closed, renamed and deleted, over
  the POSIX calls it makes. The kernel holds a directory from paths to inodes and the bytes of
  every inode, so that two paths can be links to one file; a path is its string (symbolic links
  and different spellings of one path are not modelled). How each coming call goes is a schedule
  as in \<open>Env_Posix\<close>: after the schedule every call succeeds. Of a failing call the model says what
  POSIX says: \<open>open\<close> and \<open>unlink\<close> have then changed nothing, and \<open>rename\<close> has left the file with the
  new name as it was unless the error is \<open>EIO\<close>, after which the new name may stand for anything.
  Nobody else writes to a file that is open here.

  The interface \<open>Env\<close> (\<open>include/leveldb/env.h\<close>) with the promises a client may rely on is the
  locale \<open>env\<close>, and \<open>PosixEnv\<close> is its interpretation.
\<close>

abbreviation (input) EIO :: errno where "EIO \<equiv> 5"
abbreviation (input) EBADF :: errno where "EBADF \<equiv> 9"

section \<open>The kernel\<close>

text \<open>
  \<open>outcomes\<close> is the schedule of the calls other than \<open>write\<close> (\<open>Some\<close> the error number),
  \<open>eio_damage\<close> what a \<open>rename\<close> that fails with \<open>EIO\<close> leaves under the new name. \<open>seen\<close> is no state of
  the kernel: it lists the file systems between the calls, which another process reads, or this
  one finds after it was killed there.
\<close>

record kernel =
  entries :: "string \<rightharpoonup> nat"
  inode_data :: "nat \<Rightarrow> byte list"
  next_inode :: nat
  outcomes :: "errno option list"
  write_outcomes :: "write_event list"
  eio_damage :: "byte list option"
  seen :: "(string \<Rightarrow> byte list option) list"

definition file_contents :: "kernel \<Rightarrow> string \<Rightarrow> byte list option" where
  "file_contents k name = map_option (inode_data k) (entries k name)"

definition see :: "kernel \<Rightarrow> kernel" where
  "see k = k\<lparr>seen := seen k @ [file_contents k]\<rparr>"

definition next_outcome :: "kernel \<Rightarrow> errno option \<times> kernel" where
  "next_outcome k = (case outcomes k of [] \<Rightarrow> (None, k) | r # rs \<Rightarrow> (r, k\<lparr>outcomes := rs\<rparr>))"

text \<open>A call that does not change the file system: \<open>fcntl\<close>, \<open>fsync\<close>, \<open>close\<close>, opening to read.\<close>

definition sys_plain :: "kernel \<Rightarrow> (errno + unit) \<times> kernel" where
  "sys_plain k = (case next_outcome k of (None, k) \<Rightarrow> (Inr (), k) | (Some e, k) \<Rightarrow> (Inl e, k))"

text \<open>\<open>open\<close> with \<open>O_TRUNC | O_WRONLY | O_CREAT\<close>; the descriptor is the inode.\<close>

definition sys_open_trunc :: "string \<Rightarrow> kernel \<Rightarrow> (errno + nat) \<times> kernel" where
  "sys_open_trunc name k =
     (case next_outcome k of
        (Some e, k) \<Rightarrow> (Inl e, k)
      | (None, k) \<Rightarrow>
          (case entries k name of
             Some i \<Rightarrow> (Inr i, see (k\<lparr>inode_data := (inode_data k)(i := [])\<rparr>))
           | None \<Rightarrow>
               let i = next_inode k
               in (Inr i, see (k\<lparr>entries := (entries k)(name \<mapsto> i), inode_data := (inode_data k)(i := []), next_inode := i + 1\<rparr>))))"

definition sys_unlink :: "string \<Rightarrow> kernel \<Rightarrow> (errno + unit) \<times> kernel" where
  "sys_unlink name k =
     (case next_outcome k of
        (Some e, k) \<Rightarrow> (Inl e, k)
      | (None, k) \<Rightarrow>
          if entries k name = None then (Inl ENOENT, k)
          else (Inr (), see (k\<lparr>entries := (entries k)(name := None)\<rparr>)))"

definition damage :: "string \<Rightarrow> kernel \<Rightarrow> kernel" where
  "damage name k =
     (case eio_damage k of
        None \<Rightarrow> k\<lparr>entries := (entries k)(name := None)\<rparr>
      | Some bs \<Rightarrow>
          k\<lparr>entries := (entries k)(name \<mapsto> next_inode k), inode_data := (inode_data k)(next_inode k := bs),
            next_inode := next_inode k + 1\<rparr>)"

text \<open>\<open>rename\<close> does nothing when both names are links to the same file.\<close>

definition sys_rename :: "string \<Rightarrow> string \<Rightarrow> kernel \<Rightarrow> (errno + unit) \<times> kernel" where
  "sys_rename old new k =
     (case next_outcome k of
        (Some e, k) \<Rightarrow> (Inl e, if e = EIO then see (damage new k) else k)
      | (None, k) \<Rightarrow>
          (case entries k old of
             None \<Rightarrow> (Inl ENOENT, k)
           | Some i \<Rightarrow>
               if entries k new = Some i then (Inr (), k)
               else (Inr (), see (k\<lparr>entries := (entries k)(old := None, new \<mapsto> i)\<rparr>))))"

section \<open>PosixWritableFile on the kernel\<close>

text \<open>\<open>pf_fd\<close> is \<open>None\<close> for \<open>fd_ = -1\<close>.\<close>

record posix_file =
  pf_buf :: "byte list"
  pf_fd :: "nat option"
  pf_manifest :: bool
  pf_name :: string
  pf_dirname :: string

definition rfind_slash :: "string \<Rightarrow> nat option" where
  "rfind_slash s =
     (if CHR ''/'' \<in> set s then Some (length s - 1 - length (takeWhile (\<lambda>c. c \<noteq> CHR ''/'') (rev s))) else None)"

definition Dirname :: "string \<Rightarrow> string" where
  "Dirname filename = (case rfind_slash filename of None \<Rightarrow> ''.'' | Some p \<Rightarrow> take p filename)"

definition Basename :: "string \<Rightarrow> string" where
  "Basename filename = (case rfind_slash filename of None \<Rightarrow> filename | Some p \<Rightarrow> drop (p + 1) filename)"

definition starts_with_str :: "string \<Rightarrow> string \<Rightarrow> bool" where
  "starts_with_str s x \<longleftrightarrow> length s \<ge> length x \<and> take (length x) s = x"

definition IsManifest :: "string \<Rightarrow> bool" where
  "IsManifest filename = starts_with_str (Basename filename) ''MANIFEST''"

definition PosixWritableFile_new :: "string \<Rightarrow> nat \<Rightarrow> posix_file" where
  "PosixWritableFile_new filename fd =
     \<lparr>pf_buf = [], pf_fd = Some fd, pf_manifest = IsManifest filename, pf_name = filename, pf_dirname = Dirname filename\<rparr>"

text \<open>
  The operations of \<open>Env_Posix\<close> run on the inode that is open; on a file that is closed \<open>write\<close>
  fails with \<open>EBADF\<close>. The calls of \<open>write\<close> in one operation count as one step of \<open>seen\<close>: in between
  the file holds a prefix of what it holds after them.
\<close>

definition on_fd :: "(posix_wfile \<Rightarrow> Status \<times> posix_wfile) \<Rightarrow> posix_file \<Rightarrow> kernel \<Rightarrow> Status \<times> posix_file \<times> kernel" where
  "on_fd operation f k =
     (case pf_fd f of
        Some i \<Rightarrow>
          (case operation \<lparr>buf = pf_buf f, wf_fd = \<lparr>accepted = inode_data k i, wevents = write_outcomes k\<rparr>, wf_name = pf_name f\<rparr> of
             (s, w) \<Rightarrow> (s, f\<lparr>pf_buf := buf w\<rparr>,
               see (k\<lparr>inode_data := (inode_data k)(i := accepted (wf_fd w)), write_outcomes := wevents (wf_fd w)\<rparr>)))
      | None \<Rightarrow>
          (case operation \<lparr>buf = pf_buf f, wf_fd = \<lparr>accepted = [], wevents = [Write_fails EBADF]\<rparr>, wf_name = pf_name f\<rparr> of
             (s, w) \<Rightarrow> (s, f\<lparr>pf_buf := buf w\<rparr>, k)))"

text \<open>\<open>HAVE_FULLFSYNC\<close> is set: \<open>fcntl(F_FULLFSYNC)\<close> first, \<open>fsync\<close> when the file system has no such call.\<close>

definition SyncFd :: "(errno \<Rightarrow> string) \<Rightarrow> string \<Rightarrow> kernel \<Rightarrow> Status \<times> kernel" where
  "SyncFd se fd_path k =
     (case sys_plain k of
        (Inr _, k) \<Rightarrow> (OK, k)
      | (Inl _, k) \<Rightarrow>
          (case sys_plain k of
             (Inr _, k) \<Rightarrow> (OK, k)
           | (Inl e, k) \<Rightarrow> (PosixError se fd_path e, k)))"

definition SyncDirIfManifest :: "(errno \<Rightarrow> string) \<Rightarrow> posix_file \<Rightarrow> kernel \<Rightarrow> Status \<times> kernel" where
  "SyncDirIfManifest se f k =
     (if \<not> pf_manifest f then (OK, k)
      else case sys_plain k of
        (Inl e, k) \<Rightarrow> (PosixError se (pf_dirname f) e, k)
      | (Inr _, k) \<Rightarrow>
          (case SyncFd se (pf_dirname f) k of (status, k) \<Rightarrow> (status, snd (sys_plain k))))"

definition posix_Append :: "(errno \<Rightarrow> string) \<Rightarrow> posix_file \<Rightarrow> byte list \<Rightarrow> kernel \<Rightarrow> Status \<times> posix_file \<times> kernel" where
  "posix_Append se f bytes k = on_fd (\<lambda>w. PosixWritableFile_Append se w bytes) f k"

definition PosixWritableFile_Sync :: "(errno \<Rightarrow> string) \<Rightarrow> posix_file \<Rightarrow> kernel \<Rightarrow> Status \<times> posix_file \<times> kernel" where
  "PosixWritableFile_Sync se f k =
     (case SyncDirIfManifest se f k of (status, k) \<Rightarrow>
        if \<not> ok status then (status, f, k)
        else case on_fd (FlushBuffer se) f k of (status, f, k) \<Rightarrow>
          if \<not> ok status then (status, f, k)
          else if pf_fd f = None then (PosixError se (pf_name f) EBADF, f, k)
          else case SyncFd se (pf_name f) k of (status, k) \<Rightarrow> (status, f, k))"

definition PosixWritableFile_Close :: "(errno \<Rightarrow> string) \<Rightarrow> posix_file \<Rightarrow> kernel \<Rightarrow> Status \<times> posix_file \<times> kernel" where
  "PosixWritableFile_Close se f k =
     (case on_fd (FlushBuffer se) f k of (status, f, k) \<Rightarrow>
      case (if pf_fd f = None then (Inl EBADF, k) else sys_plain k) of (close_result, k) \<Rightarrow>
      let status = (case close_result of Inl e \<Rightarrow> if ok status then PosixError se (pf_name f) e else status | Inr _ \<Rightarrow> status)
      in (status, f\<lparr>pf_fd := None\<rparr>, k))"

definition PosixWritableFile_delete :: "(errno \<Rightarrow> string) \<Rightarrow> posix_file \<Rightarrow> kernel \<Rightarrow> kernel" where
  "PosixWritableFile_delete se f k = (if pf_fd f \<noteq> None then snd (snd (PosixWritableFile_Close se f k)) else k)"

section \<open>PosixEnv\<close>

definition PosixEnv_NewWritableFile :: "(errno \<Rightarrow> string) \<Rightarrow> string \<Rightarrow> kernel \<Rightarrow> (Status + posix_file) \<times> kernel" where
  "PosixEnv_NewWritableFile se filename k =
     (case sys_open_trunc filename k of
        (Inl e, k) \<Rightarrow> (Inl (PosixError se filename e), k)
      | (Inr fd, k) \<Rightarrow> (Inr (PosixWritableFile_new filename fd), k))"

definition PosixEnv_DeleteFile :: "(errno \<Rightarrow> string) \<Rightarrow> string \<Rightarrow> kernel \<Rightarrow> Status \<times> kernel" where
  "PosixEnv_DeleteFile se filename k =
     (case sys_unlink filename k of (Inl e, k) \<Rightarrow> (PosixError se filename e, k) | (Inr _, k) \<Rightarrow> (OK, k))"

definition PosixEnv_RenameFile :: "(errno \<Rightarrow> string) \<Rightarrow> string \<Rightarrow> string \<Rightarrow> kernel \<Rightarrow> Status \<times> kernel" where
  "PosixEnv_RenameFile se old new k =
     (case sys_rename old new k of (Inl e, k) \<Rightarrow> (PosixError se old e, k) | (Inr _, k) \<Rightarrow> (OK, k))"

section \<open>The interface\<close>

text \<open>
  What the code uses of an \<open>Env\<close> and of the \<open>WritableFile\<close> that it returns: \<open>'f\<close> is the object, \<open>'e\<close>
  the state of the environment. A new file is either an error or the object.
\<close>

record ('f, 'e) Env =
  NewWritableFile :: "string \<Rightarrow> 'e \<Rightarrow> (Status + 'f) \<times> 'e"
  file_Append :: "'f \<Rightarrow> byte list \<Rightarrow> 'e \<Rightarrow> Status \<times> 'f \<times> 'e"
  file_Sync :: "'f \<Rightarrow> 'e \<Rightarrow> Status \<times> 'f \<times> 'e"
  file_Close :: "'f \<Rightarrow> 'e \<Rightarrow> Status \<times> 'f \<times> 'e"
  file_delete :: "'f \<Rightarrow> 'e \<Rightarrow> 'e"
  DeleteFile :: "string \<Rightarrow> 'e \<Rightarrow> Status \<times> 'e"
  RenameFile :: "string \<Rightarrow> string \<Rightarrow> 'e \<Rightarrow> Status \<times> 'e"

definition PosixEnv :: "(errno \<Rightarrow> string) \<Rightarrow> (posix_file, kernel) Env" where
  "PosixEnv se =
     \<lparr>NewWritableFile = PosixEnv_NewWritableFile se, file_Append = posix_Append se, file_Sync = PosixWritableFile_Sync se,
      file_Close = PosixWritableFile_Close se, file_delete = PosixWritableFile_delete se,
      DeleteFile = PosixEnv_DeleteFile se, RenameFile = PosixEnv_RenameFile se\<rparr>"

text \<open>
  What is observed of an environment: the files (\<open>look\<close>), the file systems between the calls so far
  (\<open>past\<close>), the invariant of its state, and that no medium fails from now on (\<open>calm\<close>).
  \<open>touches V N\<close>: at no moment anything changes under other names than those of \<open>N\<close>.
\<close>

record 'e view =
  look :: "'e \<Rightarrow> string \<Rightarrow> byte list option"
  past :: "'e \<Rightarrow> (string \<Rightarrow> byte list option) list"
  sane :: "'e \<Rightarrow> bool"
  calm :: "'e \<Rightarrow> bool"

definition since :: "'e view \<Rightarrow> 'e \<Rightarrow> 'e \<Rightarrow> (string \<Rightarrow> byte list option) list" where
  "since V e e' = drop (length (past V e)) (past V e')"

definition touches :: "'e view \<Rightarrow> string set \<Rightarrow> 'e \<Rightarrow> 'e \<Rightarrow> bool" where
  "touches V N e e' \<longleftrightarrow> sane V e' \<and> (calm V e \<longrightarrow> calm V e') \<and>
     (\<exists>ss. past V e' = past V e @ ss \<and> (\<forall>x\<in>set ss \<union> {look V e'}. \<forall>g. g \<notin> N \<longrightarrow> x g = look V e g))"

lemma since_append: "past V e' = past V e @ ss \<Longrightarrow> since V e e' = ss"
  by (simp add: since_def)

lemma touches_since: "touches V N e e' \<Longrightarrow> x \<in> set (since V e e') \<Longrightarrow> g \<notin> N \<Longrightarrow> x g = look V e g"
  by (auto simp: touches_def since_def)

lemma touches_look: "touches V N e e' \<Longrightarrow> g \<notin> N \<Longrightarrow> look V e' g = look V e g"
  unfolding touches_def by blast

lemma touches_refl: "sane V e \<Longrightarrow> touches V N e e"
  by (simp add: touches_def)

lemma touches_trans:
  assumes "touches V N e e1" "touches V N e1 e2"
  shows "touches V N e e2"
proof -
  obtain ss where s: "past V e1 = past V e @ ss" "\<forall>x\<in>set ss \<union> {look V e1}. \<forall>g. g \<notin> N \<longrightarrow> x g = look V e g"
    using assms(1) by (auto simp: touches_def)
  moreover obtain ts where "past V e2 = past V e1 @ ts" "\<forall>x\<in>set ts \<union> {look V e2}. \<forall>g. g \<notin> N \<longrightarrow> x g = look V e1 g"
    using assms(2) by (auto simp: touches_def)
  ultimately show ?thesis
    using assms unfolding touches_def by (intro conjI exI [of _ "ss @ ts"]) auto
qed

lemma since_trans: "touches V N e e1 \<Longrightarrow> touches V M e1 e2 \<Longrightarrow> since V e e2 = since V e e1 @ since V e1 e2"
  by (auto simp: touches_def since_def)

lemma touches_mono: "touches V N e e' \<Longrightarrow> N \<subseteq> M \<Longrightarrow> touches V M e e'"
  unfolding touches_def by blast

lemma touches_sane: "touches V N e e' \<Longrightarrow> sane V e'"
  by (simp add: touches_def)

text \<open>
  The promises. \<open>opened e f n\<close>: \<open>f\<close> writes to no other file than the one named \<open>n\<close>; \<open>holds e f n c\<close>: \<open>f\<close>
  is open under that name, and what was appended to it so far is \<open>c\<close>. A file that was closed
  holds what was appended, and renaming it is one step that happens or, unless the medium fails,
  changes nothing.
\<close>

locale env =
  fixes E :: "('f, 'e) Env" and V :: "'e view" and opened :: "'e \<Rightarrow> 'f \<Rightarrow> string \<Rightarrow> bool"
    and holds :: "'e \<Rightarrow> 'f \<Rightarrow> string \<Rightarrow> byte list \<Rightarrow> bool" and closed :: "'f \<Rightarrow> bool"
  assumes holds_opened: "holds e f n c \<Longrightarrow> opened e f n"
    and new_fail: "sane V e \<Longrightarrow> NewWritableFile E n e = (Inl s, e') \<Longrightarrow> s \<noteq> OK \<and> touches V {n} e e'"
    and new_ok: "sane V e \<Longrightarrow> NewWritableFile E n e = (Inr f, e') \<Longrightarrow> holds e' f n [] \<and> touches V {n} e e'"
    and append: "sane V e \<Longrightarrow> opened e f n \<Longrightarrow> file_Append E f d e = (s, f', e') \<Longrightarrow> opened e' f' n \<and> touches V {n} e e'"
    and append_ok: "sane V e \<Longrightarrow> holds e f n c \<Longrightarrow> file_Append E f d e = (OK, f', e') \<Longrightarrow> holds e' f' n (c @ d)"
    and sync: "sane V e \<Longrightarrow> opened e f n \<Longrightarrow> file_Sync E f e = (s, f', e') \<Longrightarrow> opened e' f' n \<and> touches V {n} e e'"
    and sync_ok: "sane V e \<Longrightarrow> holds e f n c \<Longrightarrow> file_Sync E f e = (OK, f', e') \<Longrightarrow> holds e' f' n c"
    and close: "sane V e \<Longrightarrow> opened e f n \<Longrightarrow> file_Close E f e = (s, f', e') \<Longrightarrow> opened e' f' n \<and> touches V {n} e e'"
    and close_ok: "sane V e \<Longrightarrow> holds e f n c \<Longrightarrow> file_Close E f e = (OK, f', e') \<Longrightarrow> look V e' n = Some c \<and> closed f'"
    and delete_open: "sane V e \<Longrightarrow> opened e f n \<Longrightarrow> touches V {n} e (file_delete E f e)"
    and delete_closed: "closed f \<Longrightarrow> file_delete E f e = e"
    and unlink: "sane V e \<Longrightarrow> DeleteFile E n e = (s, e') \<Longrightarrow> touches V {n} e e'"
    and rename: "sane V e \<Longrightarrow> RenameFile E a b e = (s, e') \<Longrightarrow> touches V {a, b} e e'"
    and rename_ok: "sane V e \<Longrightarrow> a \<noteq> b \<Longrightarrow> RenameFile E a b e = (OK, e') \<Longrightarrow> look V e' = (look V e)(a := None, b := look V e a)"
    and rename_same: "sane V e \<Longrightarrow> RenameFile E a a e = (OK, e') \<Longrightarrow> look V e' = look V e"
    and rename_fail: "sane V e \<Longrightarrow> calm V e \<Longrightarrow> RenameFile E a b e = (s, e') \<Longrightarrow> s \<noteq> OK \<Longrightarrow> look V e' = look V e"
    and rename_step: "sane V e \<Longrightarrow> calm V e \<Longrightarrow> RenameFile E a b e = (s, e') \<Longrightarrow> set (since V e e') \<subseteq> {look V e, look V e'}"

section \<open>PosixEnv keeps the promises\<close>

text \<open>No two paths are links to one file, and new inodes are new.\<close>

definition kernel_ok :: "kernel \<Rightarrow> bool" where
  "kernel_ok k \<longleftrightarrow> inj_on (entries k) (dom (entries k)) \<and> (\<forall>i\<in>ran (entries k). i < next_inode k)"

definition kernel_view :: "kernel view" where
  "kernel_view = \<lparr>look = file_contents, past = seen, sane = kernel_ok, calm = (\<lambda>k. Some EIO \<notin> set (outcomes k))\<rparr>"

lemma kernel_view_simps [simp]:
  "look kernel_view = file_contents" "past kernel_view = seen" "sane kernel_view = kernel_ok"
  "calm kernel_view k \<longleftrightarrow> Some EIO \<notin> set (outcomes k)"
  by (simp_all add: kernel_view_def)

lemma see_simps [simp]:
  "entries (see k) = entries k" "inode_data (see k) = inode_data k" "next_inode (see k) = next_inode k"
  "outcomes (see k) = outcomes k" "file_contents (see k) = file_contents k" "kernel_ok (see k) = kernel_ok k"
  "seen (see k) = seen k @ [file_contents k]"
  by (simp_all add: see_def file_contents_def kernel_ok_def fun_eq_iff)

lemma next_outcome_touches:
  assumes "next_outcome k = (r, k')" "kernel_ok k"
  shows "touches kernel_view N k k'" "file_contents k' = file_contents k" "entries k' = entries k"
    "inode_data k' = inode_data k" "next_inode k' = next_inode k" "seen k' = seen k"
    "r = Some EIO \<Longrightarrow> \<not> calm kernel_view k"
  using assms by (auto simp: next_outcome_def touches_def file_contents_def fun_eq_iff kernel_ok_def split: list.splits)

lemma touches_see:
  "kernel_ok k' \<Longrightarrow> outcomes k' = outcomes k \<Longrightarrow> seen k' = seen k \<Longrightarrow>
     (\<And>g. g \<notin> N \<Longrightarrow> file_contents k' g = file_contents k g) \<Longrightarrow> touches kernel_view N k (see k')"
  by (simp add: touches_def)

lemma inode_unique: "kernel_ok k \<Longrightarrow> entries k n = Some i \<Longrightarrow> entries k g = Some i \<longleftrightarrow> g = n"
  by (auto simp: kernel_ok_def inj_on_def dom_def)

lemma inode_fresh: "kernel_ok k \<Longrightarrow> entries k g \<noteq> Some (next_inode k)"
  by (auto simp: kernel_ok_def ran_def)

text \<open>Writing to an inode, and giving a name a new one.\<close>

lemma write_inode:
  assumes "kernel_ok k" "entries k n = Some i"
  shows "kernel_ok (k\<lparr>inode_data := d\<rparr>)"
    "(\<And>j. j \<noteq> i \<Longrightarrow> d j = inode_data k j) \<Longrightarrow> g \<noteq> n \<Longrightarrow> file_contents (k\<lparr>inode_data := d\<rparr>) g = file_contents k g"
proof -
  show "kernel_ok (k\<lparr>inode_data := d\<rparr>)" using assms(1) by (simp add: kernel_ok_def)
  assume d: "\<And>j. j \<noteq> i \<Longrightarrow> d j = inode_data k j" and g: "g \<noteq> n"
  show "file_contents (k\<lparr>inode_data := d\<rparr>) g = file_contents k g"
    using inode_unique [OF assms, of g] g d by (cases "entries k g") (auto simp: file_contents_def)
qed

lemma new_inode:
  assumes "kernel_ok k"
  shows "kernel_ok (k\<lparr>entries := (entries k)(n \<mapsto> next_inode k), inode_data := (inode_data k)(next_inode k := d), next_inode := next_inode k + 1\<rparr>)"
    "file_contents (k\<lparr>entries := (entries k)(n \<mapsto> next_inode k), inode_data := (inode_data k)(next_inode k := d), next_inode := next_inode k + 1\<rparr>) =
       (file_contents k)(n \<mapsto> d)"
proof -
  have f: "entries k g \<noteq> Some (next_inode k)" for g by (rule inode_fresh [OF assms])
  have lt: "entries k g = Some i \<Longrightarrow> i < next_inode k" for g i using assms by (auto simp: kernel_ok_def ran_def)
  show "kernel_ok (k\<lparr>entries := (entries k)(n \<mapsto> next_inode k), inode_data := (inode_data k)(next_inode k := d), next_inode := next_inode k + 1\<rparr>)"
    using assms f lt by (fastforce simp: kernel_ok_def inj_on_def dom_def ran_def split: if_splits)
  show "file_contents (k\<lparr>entries := (entries k)(n \<mapsto> next_inode k), inode_data := (inode_data k)(next_inode k := d), next_inode := next_inode k + 1\<rparr>) =
       (file_contents k)(n \<mapsto> d)" (is "file_contents ?k = _")
  proof
    fix g show "file_contents ?k g = ((file_contents k)(n \<mapsto> d)) g"
      using f [of g] by (cases "entries k g") (auto simp: file_contents_def)
  qed
qed

lemma drop_name:
  assumes "kernel_ok k"
  shows "kernel_ok (k\<lparr>entries := (entries k)(n := None)\<rparr>)" "file_contents (k\<lparr>entries := (entries k)(n := None)\<rparr>) = (file_contents k)(n := None)"
proof -
  show "kernel_ok (k\<lparr>entries := (entries k)(n := None)\<rparr>)"
    using assms by (auto simp: kernel_ok_def inj_on_def dom_def ran_def)
qed (simp add: file_contents_def fun_eq_iff)

lemma move_name:
  assumes "kernel_ok k" "entries k a = Some i" "a \<noteq> b"
  shows "kernel_ok (k\<lparr>entries := (entries k)(a := None, b \<mapsto> i)\<rparr>)"
proof -
  have "inj_on ((entries k)(a := None, b \<mapsto> i)) (dom ((entries k)(a := None, b \<mapsto> i)))"
  proof (rule inj_onI)
    fix x y assume xy: "x \<in> dom ((entries k)(a := None, b \<mapsto> i))" "((entries k)(a := None, b \<mapsto> i)) x = ((entries k)(a := None, b \<mapsto> i)) y"
    have old: "entries k z = Some i \<Longrightarrow> z = a" for z using inode_unique [OF assms(1,2)] by simp
    obtain j where "((entries k)(a := None, b \<mapsto> i)) x = Some j" using xy(1) by blast
    then show "x = y" using xy(2) old inode_unique [OF assms(1)] by (metis fun_upd_apply option.distinct(1) option.inject)
  qed
  moreover have "ran ((entries k)(a := None, b \<mapsto> i)) \<subseteq> ran (entries k)"
    using assms(2) by (auto simp: ran_def split: if_splits)
  ultimately show ?thesis using assms(1) by (auto simp: kernel_ok_def)
qed

lemma sys_plain_touches: "kernel_ok k \<Longrightarrow> touches kernel_view N k (snd (sys_plain k))"
  by (cases "next_outcome k") (auto simp: sys_plain_def dest: next_outcome_touches(1) split: option.split)

lemma sys_plain_keeps [simp]:
  assumes "kernel_ok k"
  shows "file_contents (snd (sys_plain k)) = file_contents k" "entries (snd (sys_plain k)) = entries k"
    "inode_data (snd (sys_plain k)) = inode_data k" "kernel_ok (snd (sys_plain k))"
proof -
  obtain r k1 where o: "next_outcome k = (r, k1)" by fastforce
  then have "snd (sys_plain k) = k1" by (cases r) (simp_all add: sys_plain_def)
  with next_outcome_touches(2-4) [OF o assms] touches_sane [OF next_outcome_touches(1) [OF o assms]]
  show "file_contents (snd (sys_plain k)) = file_contents k" "entries (snd (sys_plain k)) = entries k"
    "inode_data (snd (sys_plain k)) = inode_data k" "kernel_ok (snd (sys_plain k))" by simp_all
qed

lemma sys_open_trunc_ok:
  assumes "kernel_ok k" "sys_open_trunc n k = (r, k')"
  shows "touches kernel_view {n} k k' \<and> (case r of Inl e \<Rightarrow> True | Inr i \<Rightarrow> entries k' n = Some i \<and> inode_data k' i = [])"
proof -
  obtain o1 k1 where o: "next_outcome k = (o1, k1)" by fastforce
  note t = next_outcome_touches [OF o assms(1)]
  have ok: "kernel_ok k1" using touches_sane [OF t(1)] by simp
  show ?thesis
  proof (cases o1)
    case (Some e)
    then show ?thesis using assms(2) o t(1) by (auto simp: sys_open_trunc_def)
  next
    case None
    show ?thesis
    proof (cases "entries k1 n")
      case (Some i)
      have "touches kernel_view {n} k1 (see (k1\<lparr>inode_data := (inode_data k1)(i := [])\<rparr>))"
        using write_inode [OF ok Some] by (intro touches_see) auto
      from touches_trans [OF t(1) this] show ?thesis
        using assms(2) o None Some by (auto simp: sys_open_trunc_def)
    next
      case new: None
      have "touches kernel_view {n} k1 (see (k1\<lparr>entries := (entries k1)(n \<mapsto> next_inode k1),
          inode_data := (inode_data k1)(next_inode k1 := []), next_inode := next_inode k1 + 1\<rparr>))"
        using new_inode [OF ok, where n = n and d = "[]"] by (intro touches_see) auto
      from touches_trans [OF t(1) this] show ?thesis
        using assms(2) o None new by (auto simp: sys_open_trunc_def Let_def)
    qed
  qed
qed

lemma sys_unlink_touches:
  assumes "kernel_ok k" "sys_unlink n k = (r, k')"
  shows "touches kernel_view {n} k k'"
proof -
  obtain o1 k1 where o: "next_outcome k = (o1, k1)" by fastforce
  note t = next_outcome_touches [OF o assms(1)]
  have ok: "kernel_ok k1" using touches_sane [OF t(1)] by simp
  have "touches kernel_view {n} k1 (see (k1\<lparr>entries := (entries k1)(n := None)\<rparr>))"
    using drop_name [OF ok, of n] by (intro touches_see) auto
  from touches_trans [OF t(1) this] t(1) show ?thesis
    using assms(2) o by (auto simp: sys_unlink_def split: option.splits if_splits)
qed

lemma sys_rename_ok:
  assumes "kernel_ok k" "sys_rename a b k = (r, k')"
  shows "touches kernel_view {a, b} k k'"
    "isl r \<Longrightarrow> Some EIO \<notin> set (outcomes k) \<Longrightarrow> file_contents k' = file_contents k"
    "\<not> isl r \<Longrightarrow> file_contents k' = (if a = b then file_contents k else (file_contents k)(a := None, b := file_contents k a))"
    "Some EIO \<notin> set (outcomes k) \<Longrightarrow> set (since kernel_view k k') \<subseteq> {file_contents k, file_contents k'}"
proof -
  obtain o1 k1 where o: "next_outcome k = (o1, k1)" by fastforce
  note t = next_outcome_touches [OF o assms(1)]
  have ok: "kernel_ok k1" using touches_sane [OF t(1)] by simp
  have eio: "o1 \<noteq> Some EIO" if "Some EIO \<notin> set (outcomes k)" using t(7) that by auto
  have dmg: "touches kernel_view {a, b} k (see (damage b k1))"
  proof (rule touches_trans [OF t(1)], rule touches_see)
    show "kernel_ok (damage b k1)" using new_inode(1) [OF ok] drop_name(1) [OF ok] by (auto simp: damage_def split: option.split)
    show "g \<notin> {a, b} \<Longrightarrow> file_contents (damage b k1) g = file_contents k1 g" for g
      using new_inode(2) [OF ok] drop_name(2) [OF ok] by (auto simp: damage_def split: option.split)
  qed (auto simp: damage_def split: option.split)
  have all: "touches kernel_view {a, b} k k' \<and> (isl r \<longrightarrow> Some EIO \<notin> set (outcomes k) \<longrightarrow> file_contents k' = file_contents k) \<and>
      (\<not> isl r \<longrightarrow> file_contents k' = (if a = b then file_contents k else (file_contents k)(a := None, b := file_contents k a))) \<and>
      (Some EIO \<notin> set (outcomes k) \<longrightarrow> set (since kernel_view k k') \<subseteq> {file_contents k, file_contents k'})"
  proof (cases o1)
    case (Some e)
    show ?thesis
      using assms(2) o t dmg eio Some by (auto simp: sys_rename_def since_def)
  next
    case None
    show ?thesis
    proof (cases "entries k1 a")
      case new: None
      then show ?thesis using assms(2) o t None by (auto simp: sys_rename_def since_def)
    next
      case (Some i)
      show ?thesis
      proof (cases "entries k1 b = Some i")
        case True
        then have "a = b" using inode_unique [OF ok Some, of b] by simp
        then show ?thesis using assms(2) o t None Some True by (auto simp: sys_rename_def since_def)
      next
        case False
        let ?k = "k1\<lparr>entries := (entries k1)(a := None, b \<mapsto> i)\<rparr>"
        have ne: "a \<noteq> b" using False Some by auto
        have "file_contents ?k = (file_contents k1)(a := None, b := file_contents k1 a)"
          using Some ne by (auto simp: file_contents_def fun_eq_iff)
        then have f: "file_contents ?k = (file_contents k)(a := None, b := file_contents k a)" unfolding t(2) .
        have "touches kernel_view {a, b} k1 (see ?k)"
          by (rule touches_see) (use move_name [OF ok Some ne] f t(2) in simp_all)
        from touches_trans [OF t(1) this] show ?thesis
          using assms(2) o None Some False ne f t(6) by (auto simp: sys_rename_def since_def)
      qed
    qed
  qed
  show "touches kernel_view {a, b} k k'" "isl r \<Longrightarrow> Some EIO \<notin> set (outcomes k) \<Longrightarrow> file_contents k' = file_contents k"
    "\<not> isl r \<Longrightarrow> file_contents k' = (if a = b then file_contents k else (file_contents k)(a := None, b := file_contents k a))"
    "Some EIO \<notin> set (outcomes k) \<Longrightarrow> set (since kernel_view k k') \<subseteq> {file_contents k, file_contents k'}"
    using all by blast+
qed

section \<open>The files of PosixEnv\<close>

definition posix_opened :: "kernel \<Rightarrow> posix_file \<Rightarrow> string \<Rightarrow> bool" where
  "posix_opened k f n \<longleftrightarrow> (\<forall>i. pf_fd f = Some i \<longrightarrow> entries k n = Some i)"

definition posix_holds :: "kernel \<Rightarrow> posix_file \<Rightarrow> string \<Rightarrow> byte list \<Rightarrow> bool" where
  "posix_holds k f n c \<longleftrightarrow> length (pf_buf f) \<le> kWritableFileBufferSize \<and>
     (\<exists>i. pf_fd f = Some i \<and> entries k n = Some i \<and> inode_data k i @ pf_buf f = c)"

definition posix_closed :: "posix_file \<Rightarrow> bool" where
  "posix_closed f \<longleftrightarrow> pf_fd f = None"

lemma on_fd_touches:
  assumes "kernel_ok k" "posix_opened k f n" "on_fd operation f k = (s, f', k')"
  shows "touches kernel_view {n} k k'" "posix_opened k' f' n" "pf_fd f' = pf_fd f"
proof -
  have "touches kernel_view {n} k k' \<and> posix_opened k' f' n \<and> pf_fd f' = pf_fd f"
  proof (cases "pf_fd f")
    case None
    then show ?thesis using assms by (auto simp: on_fd_def posix_opened_def touches_refl split: prod.splits)
  next
    case (Some i)
    obtain s1 w where "operation \<lparr>buf = pf_buf f, wf_fd = \<lparr>accepted = inode_data k i, wevents = write_outcomes k\<rparr>, wf_name = pf_name f\<rparr> = (s1, w)"
      by fastforce
    with assms(3) Some have k': "k' = see (k\<lparr>inode_data := (inode_data k)(i := accepted (wf_fd w)), write_outcomes := wevents (wf_fd w)\<rparr>)"
      and f': "f' = f\<lparr>pf_buf := buf w\<rparr>" by (simp_all add: on_fd_def)
    have e: "entries k n = Some i" using assms(2) Some by (simp add: posix_opened_def)
    have "file_contents (k\<lparr>inode_data := d, write_outcomes := ws\<rparr>) = file_contents (k\<lparr>inode_data := d\<rparr>)"
      "kernel_ok (k\<lparr>inode_data := d, write_outcomes := ws\<rparr>) = kernel_ok (k\<lparr>inode_data := d\<rparr>)" for d ws
      by (simp_all add: file_contents_def kernel_ok_def fun_eq_iff)
    then have "touches kernel_view {n} k k'"
      unfolding k' using write_inode [OF assms(1) e] by (intro touches_see) auto
    then show ?thesis using e Some by (simp add: k' f' posix_opened_def)
  qed
  then show "touches kernel_view {n} k k'" "posix_opened k' f' n" "pf_fd f' = pf_fd f" by blast+
qed

lemma on_fd_open:
  assumes "pf_fd f = Some i" "on_fd operation f k = (s, f', k')"
  obtains w where "operation \<lparr>buf = pf_buf f, wf_fd = \<lparr>accepted = inode_data k i, wevents = write_outcomes k\<rparr>, wf_name = pf_name f\<rparr> = (s, w)"
    "f' = f\<lparr>pf_buf := buf w\<rparr>" "inode_data k' i = accepted (wf_fd w)" "entries k' = entries k"
  using assms by (auto simp: on_fd_def split: prod.splits)

lemma posix_append_ok:
  assumes "posix_holds k f n c" "posix_Append se f d k = (OK, f', k')"
  shows "posix_holds k' f' n (c @ d)"
proof -
  obtain i where i: "pf_fd f = Some i" "entries k n = Some i" "inode_data k i @ pf_buf f = c" "length (pf_buf f) \<le> kWritableFileBufferSize"
    using assms(1) by (auto simp: posix_holds_def)
  obtain w where w: "PosixWritableFile_Append se \<lparr>buf = pf_buf f, wf_fd = \<lparr>accepted = inode_data k i, wevents = write_outcomes k\<rparr>, wf_name = pf_name f\<rparr> d = (OK, w)"
    "f' = f\<lparr>pf_buf := buf w\<rparr>" "inode_data k' i = accepted (wf_fd w)" "entries k' = entries k"
    using on_fd_open [OF i(1) assms(2) [unfolded posix_Append_def]] by blast
  have "wf_inv w \<and> wf_contents w = c @ d"
    using Append_prefix [OF _ w(1)] i(3,4) by (auto simp: wf_inv_def wf_contents_def)
  then show ?thesis using i w by (auto simp: posix_holds_def wf_inv_def wf_contents_def)
qed

lemma posix_flush_ok:
  assumes "posix_holds k f n c" "on_fd (FlushBuffer se) f k = (OK, f', k')"
  shows "posix_holds k' f' n c" "pf_buf f' = []"
proof -
  obtain i where i: "pf_fd f = Some i" "entries k n = Some i" "inode_data k i @ pf_buf f = c"
    using assms(1) by (auto simp: posix_holds_def)
  obtain w where w: "FlushBuffer se \<lparr>buf = pf_buf f, wf_fd = \<lparr>accepted = inode_data k i, wevents = write_outcomes k\<rparr>, wf_name = pf_name f\<rparr> = (OK, w)"
    "f' = f\<lparr>pf_buf := buf w\<rparr>" "inode_data k' i = accepted (wf_fd w)" "entries k' = entries k"
    using on_fd_open [OF i(1) assms(2)] by blast
  show "posix_holds k' f' n c" "pf_buf f' = []"
    using FlushBuffer_prefix [OF w(1)] i w by (auto simp: posix_holds_def wf_contents_def)
qed

lemma plain_then:
  assumes "touches kernel_view N k k1" "sys_plain k1 = (r, k2)"
  shows "touches kernel_view N k k2" "entries k2 = entries k1" "inode_data k2 = inode_data k1" "file_contents k2 = file_contents k1"
proof -
  have "kernel_ok k1" using touches_sane [OF assms(1)] by simp
  with touches_trans [OF assms(1) sys_plain_touches] sys_plain_keeps [of k1] assms(2)
  show "touches kernel_view N k k2" "entries k2 = entries k1" "inode_data k2 = inode_data k1" "file_contents k2 = file_contents k1" by auto
qed

lemma SyncFd_touches:
  assumes "touches kernel_view N k k1" "SyncFd se p k1 = (s, k2)"
  shows "touches kernel_view N k k2 \<and> entries k2 = entries k1 \<and> inode_data k2 = inode_data k1"
proof -
  obtain r ka where a: "sys_plain k1 = (r, ka)" by fastforce
  obtain r' kb where b: "sys_plain ka = (r', kb)" by fastforce
  note ta = plain_then [OF assms(1) a]
  note tb = plain_then [OF ta(1) b]
  show ?thesis using assms(2) a b ta tb by (auto simp: SyncFd_def split: sum.splits)
qed

lemma SyncDir_touches:
  assumes "kernel_ok k" "SyncDirIfManifest se f k = (s, k')"
  shows "touches kernel_view N k k' \<and> entries k' = entries k \<and> inode_data k' = inode_data k"
proof -
  obtain r ka where a: "sys_plain k = (r, ka)" by fastforce
  have t0: "touches kernel_view N k k" using assms(1) by (simp add: touches_refl)
  note ta = plain_then [OF t0 a]
  obtain s1 kb where b: "SyncFd se (pf_dirname f) ka = (s1, kb)" by fastforce
  note tb = SyncFd_touches [OF ta(1) b]
  obtain r' kc where c: "sys_plain kb = (r', kc)" by fastforce
  note tc = plain_then [OF _ c, of N k]
  show ?thesis using assms(2) a b c t0 ta tb tc by (auto simp: SyncDirIfManifest_def split: sum.splits if_splits)
qed

lemma PosixError_not_OK [simp]: "PosixError se c e \<noteq> OK" "OK \<noteq> PosixError se c e"
  using not_ok_PosixError [of se c e] by (auto simp: ok_def)

lemma posix_opened_entries: "posix_opened k f n \<Longrightarrow> entries k' = entries k \<Longrightarrow> posix_opened k' f n"
  by (simp add: posix_opened_def)

lemma posix_holds_same: "posix_holds k f n c \<Longrightarrow> entries k' = entries k \<Longrightarrow> inode_data k' = inode_data k \<Longrightarrow> posix_holds k' f n c"
  by (simp add: posix_holds_def)

lemma posix_sync:
  assumes "kernel_ok k" "posix_opened k f n" "PosixWritableFile_Sync se f k = (s, f', k')"
  shows "posix_opened k' f' n \<and> touches kernel_view {n} k k' \<and> (s = OK \<longrightarrow> (\<forall>c. posix_holds k f n c \<longrightarrow> posix_holds k' f' n c))"
proof -
  obtain s1 k1 where a: "SyncDirIfManifest se f k = (s1, k1)" by fastforce
  note ta = SyncDir_touches [OF assms(1) a, of "{n}"]
  then have ok1: "kernel_ok k1" and op1: "posix_opened k1 f n" using touches_sane [of kernel_view] posix_opened_entries [OF assms(2)] by auto
  obtain s2 f2 k2 where b: "on_fd (FlushBuffer se) f k1 = (s2, f2, k2)" by (cases "on_fd (FlushBuffer se) f k1")
  note tb = on_fd_touches [OF ok1 op1 b]
  note t2 = touches_trans [OF conjunct1 [OF ta] tb(1)]
  obtain s3 k3 where c: "SyncFd se (pf_name f2) k2 = (s3, k3)" by fastforce
  note tc = SyncFd_touches [OF t2 c]
  have "posix_holds k3 f2 n c" if "s2 = OK" "posix_holds k f n c" for c
    using posix_flush_ok(1) [OF _ b [unfolded that(1)]] posix_holds_same [OF that(2)] ta tc posix_holds_same by blast
  then show ?thesis
    using assms(3) a b c ta tb t2 tc op1
    by (auto simp: PosixWritableFile_Sync_def ok_iff posix_opened_entries split: if_splits)
qed

lemma posix_close:
  assumes "kernel_ok k" "posix_opened k f n" "PosixWritableFile_Close se f k = (s, f', k')"
  shows "posix_opened k' f' n \<and> touches kernel_view {n} k k' \<and> posix_closed f' \<and>
    (s = OK \<longrightarrow> (\<forall>c. posix_holds k f n c \<longrightarrow> file_contents k' n = Some c))"
proof -
  obtain s2 f2 k2 where b: "on_fd (FlushBuffer se) f k = (s2, f2, k2)" by (cases "on_fd (FlushBuffer se) f k")
  note tb = on_fd_touches [OF assms(1,2) b]
  obtain r k3 where c: "sys_plain k2 = (r, k3)" by fastforce
  note tc = plain_then [OF tb(1) c]
  have "touches kernel_view {n} k k' \<and> f' = f2\<lparr>pf_fd := None\<rparr> \<and> (s = OK \<longrightarrow> s2 = OK) \<and> file_contents k' = file_contents k2"
    using assms(3) b c tb(1) tc by (auto simp: PosixWritableFile_Close_def ok_iff Let_def split: sum.splits if_splits)
  moreover have "file_contents k2 n = Some c" if "s2 = OK" "posix_holds k f n c" for c
    using posix_flush_ok [OF that(2) b [unfolded that(1)]] by (auto simp: posix_holds_def file_contents_def)
  ultimately show ?thesis by (simp add: posix_opened_def posix_closed_def)
qed

interpretation posix_env: env "PosixEnv se" kernel_view posix_opened posix_holds posix_closed for se
proof (unfold_locales, goal_cases)
  case (1 e f n c)
  then show ?case by (auto simp: posix_holds_def posix_opened_def)
next
  case (2 e n s e')
  obtain r k' where o: "sys_open_trunc n e = (r, k')" by fastforce
  with 2 sys_open_trunc_ok [OF _ o] show ?case by (cases r) (auto simp: PosixEnv_def PosixEnv_NewWritableFile_def)
next
  case (3 e n f e')
  obtain r k' where o: "sys_open_trunc n e = (r, k')" by fastforce
  with 3 sys_open_trunc_ok [OF _ o] show ?case
    by (cases r) (auto simp: PosixEnv_def PosixEnv_NewWritableFile_def PosixWritableFile_new_def posix_holds_def)
next
  case (4 e f n d s f' e')
  then show ?case using on_fd_touches [of e f n] by (auto simp: PosixEnv_def posix_Append_def)
next
  case (5 e f n c d f' e')
  then show ?case by (auto simp: PosixEnv_def intro: posix_append_ok)
next
  case (6 e f n s f' e')
  then show ?case using posix_sync [of e f n se s f' e'] by (simp add: PosixEnv_def)
next
  case (7 e f n c f' e')
  then have "posix_opened e f n" by (auto simp: posix_holds_def posix_opened_def)
  with 7 show ?case using posix_sync [of e f n se OK f' e'] by (simp add: PosixEnv_def)
next
  case (8 e f n s f' e')
  then show ?case using posix_close [of e f n se s f' e'] by (simp add: PosixEnv_def)
next
  case (9 e f n c f' e')
  then have "posix_opened e f n" by (auto simp: posix_holds_def posix_opened_def)
  with 9 show ?case using posix_close [of e f n se OK f' e'] by (simp add: PosixEnv_def)
next
  case (10 e f n)
  obtain s f' e' where c: "PosixWritableFile_Close se f e = (s, f', e')" by (cases "PosixWritableFile_Close se f e")
  with 10 show ?case using posix_close [OF _ _ c] by (simp add: PosixEnv_def PosixWritableFile_delete_def touches_refl)
next
  case (11 f e)
  then show ?case by (simp add: PosixEnv_def PosixWritableFile_delete_def posix_closed_def)
next
  case (12 e n s e')
  obtain r k' where o: "sys_unlink n e = (r, k')" by fastforce
  with 12 sys_unlink_touches [OF _ o] show ?case by (cases r) (auto simp: PosixEnv_def PosixEnv_DeleteFile_def)
next
  case (13 e a b s e')
  obtain r k' where o: "sys_rename a b e = (r, k')" by fastforce
  with 13 sys_rename_ok(1) [OF _ o] show ?case by (cases r) (auto simp: PosixEnv_def PosixEnv_RenameFile_def)
next
  case (14 e a b e')
  obtain r k' where o: "sys_rename a b e = (r, k')" by fastforce
  with 14 sys_rename_ok(3) [OF _ o] show ?case by (cases r) (auto simp: PosixEnv_def PosixEnv_RenameFile_def)
next
  case (15 e a e')
  obtain r k' where o: "sys_rename a a e = (r, k')" by fastforce
  with 15 sys_rename_ok(3) [OF _ o] show ?case by (cases r) (auto simp: PosixEnv_def PosixEnv_RenameFile_def)
next
  case (16 e a b s e')
  obtain r k' where o: "sys_rename a b e = (r, k')" by fastforce
  with 16 sys_rename_ok(2) [OF _ o] show ?case by (cases r) (auto simp: PosixEnv_def PosixEnv_RenameFile_def)
next
  case (17 e a b s e')
  obtain r k' where o: "sys_rename a b e = (r, k')" by fastforce
  with 17 sys_rename_ok(4) [OF _ o] show ?case by (cases r) (auto simp: PosixEnv_def PosixEnv_RenameFile_def)
qed

end
