(* ===== verification/File_Names.thy ===== *)
theory File_Names
  imports Posix_Env
begin

text \<open>
  The names of the files of a database (\<open>db/filename.cc\<close>), the numbers in them
  (\<open>util/logging.cc\<close>), and how the file \<open>CURRENT\<close> is replaced (\<open>SetCurrentFile\<close>, with
  \<open>DoWriteStringToFile\<close> of \<open>util/env.cc\<close>) in an environment, here \<open>PosixEnv\<close>. A parser reads every name back that the printers
  make, and a number that does not fit into 64 bits is refused.
\<close>

section \<open>Numbers\<close>

definition digit :: "nat \<Rightarrow> char" where
  "digit d = char_of (48 + d)"

text \<open>The conversion \<open>%llu\<close>.\<close>

fun decimal :: "nat \<Rightarrow> string" where
  "decimal n = (if n < 10 then [digit n] else decimal (n div 10) @ [digit (n mod 10)])"

declare decimal.simps [simp del]

text \<open>\<open>snprintf\<close> into a buffer of \<open>n\<close> bytes, which keeps a place for the final zero.\<close>

definition snprintf :: "nat \<Rightarrow> string \<Rightarrow> string" where
  "snprintf n s = take (n - 1) s"

definition AppendNumberTo :: "string \<Rightarrow> u64 \<Rightarrow> string" where
  "AppendNumberTo str num = str @ snprintf 30 (decimal (unat num))"

definition hex_digit :: "nat \<Rightarrow> char" where
  "hex_digit d = (if d < 10 then char_of (48 + d) else char_of (87 + d))"

definition escape_char :: "char \<Rightarrow> string" where
  "escape_char c = (if 32 \<le> (of_char c :: nat) \<and> (of_char c :: nat) \<le> 126 then [c]
     else snprintf 10 (CHR 0x5C # CHR ''x'' # [hex_digit (of_char c div 16), hex_digit (of_char c mod 16)]))"

fun AppendEscapedStringTo :: "string \<Rightarrow> string \<Rightarrow> string" where
  "AppendEscapedStringTo str [] = str"
| "AppendEscapedStringTo str (c # cs) = AppendEscapedStringTo (str @ escape_char c) cs"

definition NumberToString :: "u64 \<Rightarrow> string" where
  "NumberToString num = AppendNumberTo [] num"

definition EscapeString :: "string \<Rightarrow> string" where
  "EscapeString value = AppendEscapedStringTo [] value"

definition kMaxUint64 :: u64 where "kMaxUint64 = - 1"

definition kLastDigitOfMaxUint64 :: nat where "kLastDigitOfMaxUint64 = 48 + unat (kMaxUint64 mod 10)"

text \<open>The loop: \<open>None\<close> when the number does not fit, else the rest of the input and the value.\<close>

fun ConsumeDecimalNumber_loop :: "string \<Rightarrow> u64 \<Rightarrow> (string \<times> u64) option" where
  "ConsumeDecimalNumber_loop [] value = Some ([], value)"
| "ConsumeDecimalNumber_loop (ch # cs) value =
     (if of_char ch < (48 :: nat) \<or> of_char ch > (57 :: nat) then Some (ch # cs, value)
      else if value > kMaxUint64 div 10 \<or> value = kMaxUint64 div 10 \<and> of_char ch > kLastDigitOfMaxUint64 then None
      else ConsumeDecimalNumber_loop cs (value * 10 + of_nat (of_char ch - 48)))"

text \<open>The result, and what is left in \<open>in\<close> and \<open>val\<close>.\<close>

definition ConsumeDecimalNumber :: "string \<Rightarrow> u64 \<Rightarrow> bool \<times> string \<times> u64" where
  "ConsumeDecimalNumber input val =
     (case ConsumeDecimalNumber_loop input 0 of
        None \<Rightarrow> (False, input, val)
      | Some (rest, value) \<Rightarrow> (length input - length rest \<noteq> 0, rest, value))"

section \<open>Names\<close>

datatype FileType = kLogFile | kDBLockFile | kTableFile | kDescriptorFile | kCurrentFile | kTempFile | kInfoLogFile

text \<open>The conversion \<open>%06llu\<close>.\<close>

definition decimal06 :: "nat \<Rightarrow> string" where
  "decimal06 n = replicate (6 - length (decimal n)) (digit 0) @ decimal n"

definition MakeFileName :: "string \<Rightarrow> u64 \<Rightarrow> string \<Rightarrow> string" where
  "MakeFileName dbname number suffix = dbname @ snprintf 100 (''/'' @ decimal06 (unat number) @ ''.'' @ suffix)"

definition LogFileName :: "string \<Rightarrow> u64 \<Rightarrow> string" where
  "LogFileName dbname number = MakeFileName dbname number ''log''"

definition TableFileName :: "string \<Rightarrow> u64 \<Rightarrow> string" where
  "TableFileName dbname number = MakeFileName dbname number ''ldb''"

definition SSTTableFileName :: "string \<Rightarrow> u64 \<Rightarrow> string" where
  "SSTTableFileName dbname number = MakeFileName dbname number ''sst''"

definition DescriptorFileName :: "string \<Rightarrow> u64 \<Rightarrow> string" where
  "DescriptorFileName dbname number = dbname @ snprintf 100 (''/MANIFEST-'' @ decimal06 (unat number))"

definition CurrentFileName :: "string \<Rightarrow> string" where
  "CurrentFileName dbname = dbname @ ''/CURRENT''"

definition LockFileName :: "string \<Rightarrow> string" where
  "LockFileName dbname = dbname @ ''/LOCK''"

definition TempFileName :: "string \<Rightarrow> u64 \<Rightarrow> string" where
  "TempFileName dbname number = MakeFileName dbname number ''dbtmp''"

definition InfoLogFileName :: "string \<Rightarrow> string" where
  "InfoLogFileName dbname = dbname @ ''/LOG''"

definition OldInfoLogFileName :: "string \<Rightarrow> string" where
  "OldInfoLogFileName dbname = dbname @ ''/LOG.old''"

definition ParseFileName :: "string \<Rightarrow> (u64 \<times> FileType) option" where
  "ParseFileName filename =
     (if filename = ''CURRENT'' then Some (0, kCurrentFile)
      else if filename = ''LOCK'' then Some (0, kDBLockFile)
      else if filename = ''LOG'' \<or> filename = ''LOG.old'' then Some (0, kInfoLogFile)
      else if starts_with_str filename ''MANIFEST-'' then
        (case ConsumeDecimalNumber (drop (length ''MANIFEST-'') filename) 0 of (found, rest, num) \<Rightarrow>
           if \<not> found then None else if rest \<noteq> [] then None else Some (num, kDescriptorFile))
      else
        (case ConsumeDecimalNumber filename 0 of (found, suffix, num) \<Rightarrow>
           if \<not> found then None
           else if suffix = ''.log'' then Some (num, kLogFile)
           else if suffix = ''.sst'' \<or> suffix = ''.ldb'' then Some (num, kTableFile)
           else if suffix = ''.dbtmp'' then Some (num, kTempFile)
           else None))"

section \<open>Replacing CURRENT\<close>

text \<open>The characters of a string as the bytes of a file.\<close>

definition bytes_of :: "string \<Rightarrow> byte list" where
  "bytes_of s = map of_char s"

definition DoWriteStringToFile :: "('f, 'e) Env \<Rightarrow> byte list \<Rightarrow> string \<Rightarrow> bool \<Rightarrow> 'e \<Rightarrow> Status \<times> 'e" where
  "DoWriteStringToFile E data fname should_sync e =
     (case NewWritableFile E fname e of
        (Inl s, e) \<Rightarrow> (s, e)
      | (Inr file, e) \<Rightarrow>
          case file_Append E file data e of (s, file, e) \<Rightarrow>
          case (if ok s \<and> should_sync then file_Sync E file e else (s, file, e)) of (s, file, e) \<Rightarrow>
          case (if ok s then file_Close E file e else (s, file, e)) of (s, file, e) \<Rightarrow>
          let e = file_delete E file e
          in (s, if \<not> ok s then snd (DeleteFile E fname e) else e))"

definition WriteStringToFile :: "('f, 'e) Env \<Rightarrow> byte list \<Rightarrow> string \<Rightarrow> 'e \<Rightarrow> Status \<times> 'e" where
  "WriteStringToFile E data fname = DoWriteStringToFile E data fname False"

definition WriteStringToFileSync :: "('f, 'e) Env \<Rightarrow> byte list \<Rightarrow> string \<Rightarrow> 'e \<Rightarrow> Status \<times> 'e" where
  "WriteStringToFileSync E data fname = DoWriteStringToFile E data fname True"

definition SetCurrentFile :: "('f, 'e) Env \<Rightarrow> string \<Rightarrow> u64 \<Rightarrow> 'e \<Rightarrow> Status \<times> 'e" where
  "SetCurrentFile E dbname descriptor_number e =
     (let manifest = DescriptorFileName dbname descriptor_number;
          contents = drop (length dbname + 1) manifest;
          tmp = TempFileName dbname descriptor_number
      in case WriteStringToFileSync E (bytes_of (contents @ [CHR 0x0A])) tmp e of (s, e) \<Rightarrow>
         case (if ok s then RenameFile E tmp (CurrentFileName dbname) e else (s, e)) of (s, e) \<Rightarrow>
           (s, if \<not> ok s then snd (DeleteFile E tmp e) else e))"

section \<open>Reading numbers\<close>

definition is_digit :: "char \<Rightarrow> bool" where
  "is_digit c \<longleftrightarrow> 48 \<le> (of_char c :: nat) \<and> of_char c \<le> (57 :: nat)"

definition digits_from :: "nat \<Rightarrow> string \<Rightarrow> nat" where
  "digits_from v s = foldl (\<lambda>v c. v * 10 + (of_char c - 48)) v s"

lemma digits_from_mono: "v \<le> digits_from v s"
proof (induction s arbitrary: v)
  case (Cons c s)
  have "v \<le> v * 10 + (of_char c - 48)" by simp
  also have "\<dots> \<le> digits_from (v * 10 + (of_char c - 48)) s" by (rule Cons.IH)
  finally show ?case by (simp add: digits_from_def)
qed (simp add: digits_from_def)

text \<open>The test for overflow is exact.\<close>

lemma overflow_exact:
  assumes "is_digit c"
  shows "value > kMaxUint64 div 10 \<or> value = kMaxUint64 div 10 \<and> of_char c > kLastDigitOfMaxUint64 \<longleftrightarrow>
    2 ^ 64 \<le> unat value * 10 + (of_char c - 48)"
proof -
  have k: "unat (kMaxUint64 div 10) = 1844674407370955161" "kLastDigitOfMaxUint64 = 53" by (simp_all add: kMaxUint64_def kLastDigitOfMaxUint64_def)
  have d: "48 \<le> (of_char c :: nat)" "of_char c \<le> (57 :: nat)" using assms by (simp_all add: is_digit_def)
  have "value > kMaxUint64 div 10 \<longleftrightarrow> 1844674407370955161 < unat value" "value = kMaxUint64 div 10 \<longleftrightarrow> unat value = 1844674407370955161"
    using k(1) by (metis word_less_nat_alt, metis unsigned_word_eqI)
  then show ?thesis using d unfolding k(2) by simp linarith
qed

lemma loop_exact:
  "ConsumeDecimalNumber_loop s value =
     (let n = digits_from (unat value) (takeWhile is_digit s) in if n < 2 ^ 64 then Some (dropWhile is_digit s, of_nat n) else None)"
proof (induction s arbitrary: "value")
  case Nil
  have "unat value < 2 ^ 64" using unsigned_less [of "value"] by simp
  then show ?case by (simp add: digits_from_def)
next
  case (Cons c s)
  have u: "unat value < 2 ^ 64" using unsigned_less [of "value"] by simp
  let ?n = "unat value * 10 + (of_char c - 48)"
  show ?case
  proof (cases "is_digit c")
    case False
    then have "of_char c < (48 :: nat) \<or> of_char c > (57 :: nat)" by (auto simp: is_digit_def)
    then show ?thesis using False u by (simp add: digits_from_def)
  next
    case True
    then have nb: "\<not> (of_char c < (48 :: nat) \<or> of_char c > (57 :: nat))" by (simp add: is_digit_def)
    show ?thesis
    proof (cases "2 ^ 64 \<le> ?n")
      case big: True
      then have "2 ^ 64 \<le> digits_from ?n (takeWhile is_digit s)" using digits_from_mono [of ?n] by (rule le_trans)
      then show ?thesis using True nb big overflow_exact [OF True, of "value"] by (simp add: digits_from_def Let_def)
    next
      case False
      moreover have "value * 10 + of_nat (of_char c - 48) = (of_nat ?n :: u64)" by (simp only: of_nat_add of_nat_mult of_nat_unat ucast_id of_nat_numeral)
      ultimately have u: "unat (value * 10 + of_nat (of_char c - 48)) = ?n" by (simp only: unat_of_nat len_of_numeral_defs not_le) simp
      have step: "ConsumeDecimalNumber_loop (c # s) value = ConsumeDecimalNumber_loop s (value * 10 + of_nat (of_char c - 48))"
        unfolding ConsumeDecimalNumber_loop.simps overflow_exact [OF True] if_not_P [OF nb] if_not_P [OF False] ..
      show ?thesis unfolding step Cons.IH u using True by (simp only: takeWhile.simps dropWhile.simps if_True digits_from_def foldl.simps)
    qed
  qed
qed

lemma digit_char: "d < 10 \<Longrightarrow> of_char (digit d) = (48 + d :: nat)"
  by (simp add: digit_def)

lemma is_digit_digit: "d < 10 \<Longrightarrow> is_digit (digit d)"
  by (simp add: is_digit_def digit_char)

lemma decimal_ok: "decimal n \<noteq> []" "\<forall>c\<in>set (decimal n). is_digit c" "digits_from 0 (decimal n) = n"
proof -
  have "decimal n \<noteq> [] \<and> (\<forall>c\<in>set (decimal n). is_digit c) \<and> digits_from 0 (decimal n) = n"
  proof (induction n rule: decimal.induct)
    case (1 n)
    show ?case
    proof (cases "n < 10")
      case True
      then show ?thesis by (simp add: decimal.simps is_digit_digit digits_from_def digit_char)
    next
      case False
      then show ?thesis using 1 is_digit_digit [of "n mod 10"] digit_char [of "n mod 10"] by (simp add: decimal.simps [of n] digits_from_def)
    qed
  qed
  then show "decimal n \<noteq> []" "\<forall>c\<in>set (decimal n). is_digit c" "digits_from 0 (decimal n) = n" by simp_all
qed

lemma decimal_length: "n < 10 ^ k \<Longrightarrow> 0 < k \<Longrightarrow> length (decimal n) \<le> k"
proof (induction k arbitrary: n)
  case (Suc k)
  show ?case
  proof (cases "n < 10")
    case False
    then have "0 < k" using Suc.prems by (cases k) simp_all
    moreover have "n div 10 < 10 ^ k" using Suc.prems by (simp add: less_mult_imp_div_less mult.commute)
    ultimately show ?thesis using Suc.IH [of "n div 10"] False by (simp add: decimal.simps [of n])
  qed (simp add: decimal.simps)
qed simp

lemma decimal06_ok: "decimal06 n \<noteq> []" "\<forall>c\<in>set (decimal06 n). is_digit c" "digits_from 0 (decimal06 n) = n"
proof -
  have z: "foldl (\<lambda>v c. v * 10 + (of_char c - 48)) 0 (replicate k (digit 0)) = (0 :: nat)" for k
    by (induction k) (simp_all add: digit_char)
  show "decimal06 n \<noteq> []" "\<forall>c\<in>set (decimal06 n). is_digit c" "digits_from 0 (decimal06 n) = n"
    using decimal_ok [of n] is_digit_digit [of 0] z by (auto simp: decimal06_def digits_from_def)
qed

lemma decimal06_length: "length (decimal06 (unat n)) \<le> 20" for n :: u64
proof -
  have "unat n < 10 ^ 20" using unsigned_less [of n, where 'a = nat] by simp
  then show ?thesis using decimal_length [of "unat n" 20] by (simp add: decimal06_def)
qed

lemma Consume_exact:
  "ConsumeDecimalNumber s val =
     (let ds = takeWhile is_digit s; n = digits_from 0 ds
      in if n < 2 ^ 64 then (ds \<noteq> [], drop (length ds) s, of_nat n) else (False, s, val))"
proof -
  have "length s - length (dropWhile is_digit s) \<noteq> 0 \<longleftrightarrow> takeWhile is_digit s \<noteq> []"
    by (metis add_diff_cancel_right' length_0_conv length_append takeWhile_dropWhile_id)
  moreover have "drop (length (takeWhile is_digit s)) s = dropWhile is_digit s" by (simp add: dropWhile_eq_drop)
  ultimately show ?thesis unfolding ConsumeDecimalNumber_def loop_exact Let_def by (simp add: unsigned_0)
qed

lemma Consume_decimal06:
  assumes "rest = [] \<or> \<not> is_digit (hd rest)"
  shows "ConsumeDecimalNumber (decimal06 (unat n) @ rest) val = (True, rest, n)"
proof -
  have t: "takeWhile is_digit (decimal06 (unat n) @ rest) = decimal06 (unat n)"
    using decimal06_ok(2) [of "unat n"] assms by (cases rest) (simp_all add: takeWhile_append2)
  have "unat n < 2 ^ 64" using unsigned_less [of n, where 'a = nat] by simp
  then show ?thesis unfolding Consume_exact Let_def t using decimal06_ok(1,3) [of "unat n"] by simp
qed

lemma base_name: "length suffix < 60 \<Longrightarrow> drop (length dbname + 1) (MakeFileName dbname n suffix) = decimal06 (unat n) @ ''.'' @ suffix"
  using decimal06_length [of n] by (simp add: MakeFileName_def snprintf_def)

lemma descriptor_name: "drop (length dbname + 1) (DescriptorFileName dbname n) = ''MANIFEST-'' @ decimal06 (unat n)"
  using decimal06_length [of n] by (simp add: DescriptorFileName_def snprintf_def)

lemma parse_number:
  "ParseFileName (decimal06 (unat n) @ suffix) =
     (case ConsumeDecimalNumber (decimal06 (unat n) @ suffix) 0 of (found, suffix, num) \<Rightarrow>
           if \<not> found then None
           else if suffix = ''.log'' then Some (num, kLogFile)
           else if suffix = ''.sst'' \<or> suffix = ''.ldb'' then Some (num, kTableFile)
           else if suffix = ''.dbtmp'' then Some (num, kTempFile)
           else None)"
proof -
  obtain c cs where c: "decimal06 (unat n) = c # cs" "is_digit c" using decimal06_ok(1,2) [of "unat n"] by (cases "decimal06 (unat n)") auto
  have "c \<noteq> CHR ''C'' \<and> c \<noteq> CHR ''L'' \<and> c \<noteq> CHR ''M''" using c(2) by (auto simp: is_digit_def)
  then show ?thesis by (simp add: ParseFileName_def c(1) starts_with_str_def)
qed

text \<open>
  C39: reading a number is exact: \<open>ConsumeDecimalNumber\<close> consumes the longest run of digits and
  returns its value, and it fails, leaving its arguments as they are, exactly when the value
  does not fit into 64 bits; without a digit it fails too.
\<close>

theorem ConsumeDecimalNumber_exact:
  "ConsumeDecimalNumber s val =
     (let ds = takeWhile is_digit s; n = digits_from 0 ds
      in if n < 2 ^ 64 then (ds \<noteq> [], drop (length ds) s, of_nat n) else (False, s, val))"
  by (rule Consume_exact)

text \<open>
  C38: the name of every file of a database, without the directory, is parsed back to its number
  and its type.
\<close>

theorem file_name_round_trip:
  "ParseFileName (drop (length dbname + 1) (LogFileName dbname n)) = Some (n, kLogFile) \<and>
   ParseFileName (drop (length dbname + 1) (TableFileName dbname n)) = Some (n, kTableFile) \<and>
   ParseFileName (drop (length dbname + 1) (SSTTableFileName dbname n)) = Some (n, kTableFile) \<and>
   ParseFileName (drop (length dbname + 1) (TempFileName dbname n)) = Some (n, kTempFile) \<and>
   ParseFileName (drop (length dbname + 1) (DescriptorFileName dbname n)) = Some (n, kDescriptorFile) \<and>
   ParseFileName (drop (length dbname + 1) (CurrentFileName dbname)) = Some (0, kCurrentFile) \<and>
   ParseFileName (drop (length dbname + 1) (LockFileName dbname)) = Some (0, kDBLockFile) \<and>
   ParseFileName (drop (length dbname + 1) (InfoLogFileName dbname)) = Some (0, kInfoLogFile) \<and>
   ParseFileName (drop (length dbname + 1) (OldInfoLogFileName dbname)) = Some (0, kInfoLogFile)"
proof -
  have num: "ParseFileName (drop (length dbname + 1) (MakeFileName dbname n suffix)) =
      (if suffix = ''log'' then Some (n, kLogFile) else if suffix = ''sst'' \<or> suffix = ''ldb'' then Some (n, kTableFile)
       else if suffix = ''dbtmp'' then Some (n, kTempFile) else None)" if "length suffix < 60" for suffix
    unfolding base_name [OF that] parse_number by (subst Consume_decimal06) (simp_all add: is_digit_def)
  have man: "ParseFileName (''MANIFEST-'' @ decimal06 (unat n)) = Some (n, kDescriptorFile)"
    using Consume_decimal06 [of "[]" n 0] by (simp add: ParseFileName_def starts_with_str_def)
  show ?thesis
    unfolding LogFileName_def TableFileName_def SSTTableFileName_def TempFileName_def descriptor_name man
    by (subst num, simp)+ (simp add: CurrentFileName_def LockFileName_def InfoLogFileName_def OldInfoLogFileName_def ParseFileName_def)
qed

section \<open>CURRENT is replaced as a whole\<close>

lemma temp_ne_current: "TempFileName dbname n \<noteq> CurrentFileName dbname"
proof
  assume "TempFileName dbname n = CurrentFileName dbname"
  then have "drop (length dbname + 1) (TempFileName dbname n) = ''CURRENT''" by (simp add: CurrentFileName_def)
  then have "decimal06 (unat n) @ ''.dbtmp'' = ''CURRENT''" by (simp add: TempFileName_def base_name [simplified])
  then show False using decimal06_ok(1,2) [of "unat n"] by (cases "decimal06 (unat n)") (auto simp: is_digit_def)
qed

context env
begin

lemma write_string:
  assumes "sane V e" "DoWriteStringToFile E data n should_sync e = (s, e')"
  shows "touches V {n} e e' \<and> (s = OK \<longrightarrow> look V e' n = Some data)"
proof -
  obtain r e1 where n: "NewWritableFile E n e = (r, e1)" by fastforce
  show ?thesis
  proof (cases r)
    case (Inl s1)
    then show ?thesis using new_fail [OF assms(1) n [unfolded Inl]] assms(2) n by (simp add: DoWriteStringToFile_def)
  next
    case (Inr f1)
    obtain s2 f2 e2 where a: "file_Append E f1 data e1 = (s2, f2, e2)" by (cases "file_Append E f1 data e1")
    obtain s3 f3 e3 where y: "(if ok s2 \<and> should_sync then file_Sync E f2 e2 else (s2, f2, e2)) = (s3, f3, e3)" by (rule prod_cases3)
    obtain s4 f4 e4 where c: "(if ok s3 then file_Close E f3 e3 else (s3, f3, e3)) = (s4, f4, e4)" by (rule prod_cases3)
    note new = new_ok [OF assms(1) n [unfolded Inr]]
    note t1 = conjunct2 [OF new] note o1 = holds_opened [OF conjunct1 [OF new]]
    note ap = append [OF touches_sane [OF t1] o1 a]
    note t2 = touches_trans [OF t1 conjunct2 [OF ap]]
    have sy: "opened e3 f3 n \<and> touches V {n} e2 e3"
      using sync [OF touches_sane [OF t2] conjunct1 [OF ap]] y ap touches_refl [OF touches_sane [OF t2]] by (auto split: if_splits)
    note t3 = touches_trans [OF t2 conjunct2 [OF sy]]
    have cl: "opened e4 f4 n \<and> touches V {n} e3 e4"
      using close [OF touches_sane [OF t3] conjunct1 [OF sy]] c sy touches_refl [OF touches_sane [OF t3]] by (auto split: if_splits)
    note t4 = touches_trans [OF t3 conjunct2 [OF cl]]
    note t5 = touches_trans [OF t4 delete_open [OF touches_sane [OF t4] conjunct1 [OF cl]]]
    obtain s6 e6 where u: "DeleteFile E n (file_delete E f4 e4) = (s6, e6)" by fastforce
    note t6 = touches_trans [OF t5 unlink [OF touches_sane [OF t5] u]]
    have D: "s = s4" "e' = (if \<not> ok s4 then e6 else file_delete E f4 e4)"
      using assms(2) unfolding DoWriteStringToFile_def n Inr prod.case sum.case a y c Let_def u by auto
    have "look V e4 n = Some data \<and> closed f4" if "s4 = OK"
    proof -
      have s3: "s3 = OK" "file_Close E f3 e3 = (OK, f4, e4)" using c that by (auto simp: ok_iff split: if_splits)
      then have s2: "s2 = OK" using y by (auto simp: ok_iff split: if_splits)
      have "holds e2 f2 n data" using append_ok [OF touches_sane [OF t1] conjunct1 [OF new] a [unfolded s2]] by simp
      then have "holds e3 f3 n data" using sync_ok [OF touches_sane [OF t2]] y s2 s3(1) by (auto split: if_splits)
      from close_ok [OF touches_sane [OF t3] this s3(2)] show ?thesis .
    qed
    then show ?thesis using D t5 t6 delete_closed by (auto simp: ok_iff)
  qed
qed

lemma set_current:
  assumes "sane V e" "SetCurrentFile E dbname n e = (s, e')"
  defines "text \<equiv> bytes_of (''MANIFEST-'' @ decimal06 (unat n) @ [CHR 0x0A])"
  shows "touches V {CurrentFileName dbname, TempFileName dbname n} e e' \<and>
    (s = OK \<longrightarrow> look V e' (CurrentFileName dbname) = Some text) \<and>
    (calm V e \<longrightarrow> (s \<noteq> OK \<longrightarrow> look V e' (CurrentFileName dbname) = look V e (CurrentFileName dbname)) \<and>
      (\<forall>x\<in>set (since V e e'). x (CurrentFileName dbname) \<in> {look V e (CurrentFileName dbname), Some text}))"
proof -
  let ?tmp = "TempFileName dbname n" and ?cur = "CurrentFileName dbname"
  have ne: "?cur \<notin> {?tmp}" using temp_ne_current [of dbname n] by auto
  obtain s1 e1 where w: "WriteStringToFileSync E text ?tmp e = (s1, e1)" by fastforce
  note ws = write_string [OF assms(1) w [unfolded WriteStringToFileSync_def]]
  note t1 = conjunct1 [OF ws]
  obtain s2 e2 where r: "(if ok s1 then RenameFile E ?tmp ?cur e1 else (s1, e1)) = (s2, e2)" by fastforce
  obtain s3 e3 where u: "DeleteFile E ?tmp e2 = (s3, e3)" by fastforce
  have D: "s = s2" "e' = (if \<not> ok s2 then e3 else e2)"
    using assms(2) w r u unfolding SetCurrentFile_def Let_def descriptor_name text_def by (auto simp: ok_iff)
  have cur1: "look V e1 ?cur = look V e ?cur" by (rule touches_look [OF t1 ne])
  have past1: "x ?cur = look V e ?cur" if "x \<in> set (since V e e1)" for x by (rule touches_since [OF t1 that ne])
  have t2: "touches V {?tmp, ?cur} e1 e2"
    using rename [OF touches_sane [OF t1]] r touches_refl [OF touches_sane [OF t1]] by (auto split: if_splits)
  have cur2: "s2 = OK \<Longrightarrow> look V e2 ?cur = Some text" "calm V e \<Longrightarrow> s2 \<noteq> OK \<Longrightarrow> look V e2 ?cur = look V e ?cur"
    "calm V e \<Longrightarrow> x \<in> set (since V e1 e2) \<Longrightarrow> x ?cur \<in> {look V e ?cur, Some text}" for x
  proof -
    have calm: "calm V e \<Longrightarrow> calm V e1" using t1 by (simp add: touches_def)
    note rok = rename_ok [OF touches_sane [OF t1] temp_ne_current [of dbname n]]
    note rf = rename_fail [OF touches_sane [OF t1] calm]
    note rs = rename_step [OF touches_sane [OF t1] calm]
    show a: "s2 = OK \<Longrightarrow> look V e2 ?cur = Some text" using rok r ws by (auto simp: ok_iff split: if_splits)
    show b: "calm V e \<Longrightarrow> s2 \<noteq> OK \<Longrightarrow> look V e2 ?cur = look V e ?cur" using rf r cur1 by (auto simp: ok_iff split: if_splits)
    show "calm V e \<Longrightarrow> x \<in> set (since V e1 e2) \<Longrightarrow> x ?cur \<in> {look V e ?cur, Some text}"
    proof (cases "ok s1")
      case True
      assume c: "calm V e" and x: "x \<in> set (since V e1 e2)"
      have "x = look V e1 \<or> x = look V e2" using subsetD [OF rs [OF c] x] r True by auto
      then show ?thesis using a b c cur1 by (cases "s2 = OK") auto
    next
      case False
      assume "x \<in> set (since V e1 e2)"
      then show ?thesis using r False by (simp add: since_def)
    qed
  qed
  note t3 = unlink [OF touches_sane [OF t2] u]
  have t12: "touches V {?cur, ?tmp} e e2" using touches_trans [OF touches_mono [OF t1] touches_mono [OF t2]] by blast
  have t13: "touches V {?cur, ?tmp} e e3" using touches_trans [OF t12 touches_mono [OF t3]] by blast
  have cur3: "look V e3 ?cur = look V e2 ?cur" by (rule touches_look [OF t3 ne])
  have past3: "x ?cur = look V e2 ?cur" if "x \<in> set (since V e2 e3)" for x by (rule touches_since [OF t3 that ne])
  have past12: "since V e e2 = since V e e1 @ since V e1 e2" by (rule since_trans [OF t1 t2])
  have past13: "since V e e3 = since V e e2 @ since V e2 e3" by (rule since_trans [OF t12 t3])
  show ?thesis
  proof (cases "s2 = OK")
    case True
    then show ?thesis using D t12 cur2(1,3) past1 past12 by auto
  next
    case False
    then show ?thesis using D t13 cur2(2,3) cur3 past1 past3 past12 past13 by (auto simp: ok_iff)
  qed
qed

end

text \<open>
  C37: \<open>SetCurrentFile\<close> on \<open>PosixEnv\<close> replaces \<open>CURRENT\<close> as a whole, whatever the calls of the kernel
  answer, short and interrupted writes included. When it reports success \<open>CURRENT\<close> holds the name of the
  new manifest and a newline; no other file but the temporary one is touched. Unless a call meets a
  failing medium (\<open>EIO\<close>, after which POSIX leaves open what a rename has done), \<open>CURRENT\<close> is
  unchanged when an error is reported, and at every moment in between it holds either what it
  held before or all of the new text, so that a process that is killed, or another one that reads
  it, never finds it missing or half written. No file has a second name (hard link) at the start.
\<close>

theorem set_current_atomic:
  assumes "kernel_ok k" and "SetCurrentFile (PosixEnv se) dbname n k = (s, k')"
  shows "(s = OK \<longrightarrow> file_contents k' (CurrentFileName dbname) = Some (bytes_of (''MANIFEST-'' @ decimal06 (unat n) @ [CHR 0x0A]))) \<and>
    (\<forall>g. g \<noteq> CurrentFileName dbname \<and> g \<noteq> TempFileName dbname n \<longrightarrow> file_contents k' g = file_contents k g) \<and>
    (Some EIO \<notin> set (outcomes k) \<longrightarrow>
      (s \<noteq> OK \<longrightarrow> file_contents k' (CurrentFileName dbname) = file_contents k (CurrentFileName dbname)) \<and>
      (\<forall>x\<in>set (drop (length (seen k)) (seen k')). x (CurrentFileName dbname) \<in>
        {file_contents k (CurrentFileName dbname), Some (bytes_of (''MANIFEST-'' @ decimal06 (unat n) @ [CHR 0x0A]))}))"
  using posix_env.set_current [of k se dbname n s k'] assms
  by (auto simp: since_def dest: touches_look)

text \<open>
  A file system without the call \<open>F_FULLFSYNC\<close> (the second call fails with \<open>ENOTSUP\<close>, 45), on which
  the first \<open>write\<close> takes three bytes and the second is interrupted.
\<close>

definition sample_kernel :: kernel where
  "sample_kernel =
     \<lparr>entries = [''db/CURRENT'' \<mapsto> 0, ''db/LOCK'' \<mapsto> 1], inode_data = (\<lambda>_. [])(0 := [1, 2, 3]), next_inode = 2,
      outcomes = [None, Some 45], write_outcomes = [Accepts 3, Write_fails EINTR], eio_damage = None, seen = []\<rparr>"

lemma sample_set_current: "fst (SetCurrentFile (PosixEnv (\<lambda>_. [])) ''db'' 7 sample_kernel) = OK"
proof -
  have t: "TempFileName ''db'' 7 = ''db/000007.dbtmp''" "CurrentFileName ''db'' = ''db/CURRENT''"
    "drop (length ''db'' + 1) (DescriptorFileName ''db'' 7) = ''MANIFEST-000007''" "IsManifest ''db/000007.dbtmp'' = False" by code_simp+
  show ?thesis
    unfolding SetCurrentFile_def Let_def t
    by (simp add: bytes_of_def WriteStringToFileSync_def DoWriteStringToFile_def PosixEnv_def PosixEnv_NewWritableFile_def sys_open_trunc_def
        next_outcome_def sample_kernel_def PosixWritableFile_new_def t posix_Append_def on_fd_def PosixWritableFile_Append_def
        kWritableFileBufferSize_def PosixWritableFile_Sync_def SyncDirIfManifest_def FlushBuffer_def WriteUnbuffered_def
        WriteUnbuffered_loop.simps sys_write_def SyncFd_def sys_plain_def PosixWritableFile_Close_def PosixWritableFile_delete_def
        PosixEnv_RenameFile_def sys_rename_def see_def Let_def)
qed

theorem set_current_atomic_witness:
  "\<exists>k'. SetCurrentFile (PosixEnv (\<lambda>_. [])) ''db'' 7 sample_kernel = (OK, k') \<and>
    file_contents k' ''db/CURRENT'' = Some (bytes_of (''MANIFEST-000007'' @ [CHR 0x0A])) \<and> file_contents k' ''db/LOCK'' = Some [] \<and>
    (\<forall>x\<in>set (seen k'). x ''db/CURRENT'' \<in> {Some [1, 2, 3], Some (bytes_of (''MANIFEST-000007'' @ [CHR 0x0A]))})"
proof -
  obtain k' where k: "SetCurrentFile (PosixEnv (\<lambda>_. [])) ''db'' 7 sample_kernel = (OK, k')" using sample_set_current by (metis prod.collapse)
  have "kernel_ok sample_kernel"
    by (auto simp: kernel_ok_def sample_kernel_def inj_on_def dom_def ran_def split: if_splits)
  note at = set_current_atomic [OF this k]
  have "decimal06 7 = ''000007''" "TempFileName ''db'' 7 \<noteq> ''db/LOCK''" "CurrentFileName ''db'' = ''db/CURRENT''" by code_simp+
  moreover from this have "file_contents k' ''db/LOCK'' = file_contents sample_kernel ''db/LOCK''" using at by auto
  moreover have "file_contents sample_kernel ''db/LOCK'' = Some []" "file_contents sample_kernel ''db/CURRENT'' = Some [1, 2, 3]"
    "Some EIO \<notin> set (outcomes sample_kernel)" "seen sample_kernel = []"
    by (simp_all add: sample_kernel_def file_contents_def)
  ultimately show ?thesis using k at by simp
qed

end
