(* ===== verification/Lru_Cache.thy ===== *)
theory Lru_Cache
  imports Bloom
begin

text \<open>
  The cache (\<open>util/cache.cc\<close>): entries with reference counts, the hash table whose chains run
  through them, and the two circular lists of entries in use and of entries that may be evicted. An
  address is a natural number with zero for a null pointer, and the heap maps the addresses of live
  entries to their fields, so that every use of freed memory is \<open>UB\<close>. The heads of the two lists are
  the addresses \<open>lru_list\<close> and \<open>in_use_list\<close>. A mutex protects every operation, so that they run one after
  the other.
\<close>

section \<open>Entries and the heap\<close>

record 'v LRUHandle =
  lh_value :: "'v option"
  lh_next_hash :: nat
  lh_next :: nat
  lh_prev :: nat
  lh_charge :: u64
  lh_in_cache :: bool
  lh_refs :: u32
  lh_hash :: u32
  lh_key :: "byte list"

text \<open>
  The fields of \<open>HandleTable\<close> start with \<open>ht\<close>. \<open>lc_fresh\<close> is the next address that \<open>malloc\<close> returns, and
  \<open>lc_deleted\<close> lists the calls of the deleters.
\<close>

record 'v LRUCache =
  lc_capacity :: u64
  lc_usage :: u64
  lc_mem :: "nat \<Rightarrow> 'v LRUHandle option"
  lc_fresh :: nat
  ht_length :: u32
  ht_elems :: u32
  ht_list :: "nat list"
  lc_deleted :: "(byte list \<times> 'v option) list"

abbreviation (input) lru_list :: nat where "lru_list \<equiv> 1"
abbreviation (input) in_use_list :: nat where "in_use_list \<equiv> 2"

definition get :: "nat \<Rightarrow> 'v LRUCache \<Rightarrow> 'v LRUHandle outcome" where
  "get e c = (case lc_mem c e of None \<Rightarrow> UB | Some h \<Rightarrow> Ret h)"

definition modify :: "nat \<Rightarrow> ('v LRUHandle \<Rightarrow> 'v LRUHandle) \<Rightarrow> 'v LRUCache \<Rightarrow> 'v LRUCache outcome" where
  "modify e f c = (case lc_mem c e of None \<Rightarrow> UB | Some h \<Rightarrow> Ret (c\<lparr>lc_mem := (lc_mem c)(e \<mapsto> f h)\<rparr>))"

section \<open>The hash table\<close>

text \<open>A \<open>LRUHandle**\<close> points to a bucket or to the field \<open>next_hash\<close> of an entry.\<close>

datatype slot = Bucket nat | Next_hash nat

definition read_slot :: "slot \<Rightarrow> 'v LRUCache \<Rightarrow> nat outcome" where
  "read_slot p c =
     (case p of
        Bucket i \<Rightarrow> if i < length (ht_list c) then Ret (ht_list c ! i) else UB
      | Next_hash e \<Rightarrow> bindO (get e c) (\<lambda>h. Ret (lh_next_hash h)))"

definition write_slot :: "slot \<Rightarrow> nat \<Rightarrow> 'v LRUCache \<Rightarrow> 'v LRUCache outcome" where
  "write_slot p e c =
     (case p of
        Bucket i \<Rightarrow> if i < length (ht_list c) then Ret (c\<lparr>ht_list := (ht_list c)[i := e]\<rparr>) else UB
      | Next_hash h \<Rightarrow> modify h (\<lambda>x. x\<lparr>lh_next_hash := e\<rparr>) c)"

fun FindPointer_loop :: "nat \<Rightarrow> byte list \<Rightarrow> u32 \<Rightarrow> slot \<Rightarrow> 'v LRUCache \<Rightarrow> slot outcome" where
  "FindPointer_loop 0 key hash ptr c = NoFuel"
| "FindPointer_loop (Suc fuel) key hash ptr c =
     bindO (read_slot ptr c) (\<lambda>e.
       if e = 0 then Ret ptr
       else bindO (get e c) (\<lambda>h.
              if lh_hash h \<noteq> hash \<or> key \<noteq> lh_key h then FindPointer_loop fuel key hash (Next_hash e) c else Ret ptr))"

definition FindPointer :: "byte list \<Rightarrow> u32 \<Rightarrow> 'v LRUCache \<Rightarrow> slot outcome" where
  "FindPointer key hash c = FindPointer_loop (lc_fresh c) key hash (Bucket (unat (hash AND (ht_length c - 1)))) c"

definition HandleTable_Lookup :: "byte list \<Rightarrow> u32 \<Rightarrow> 'v LRUCache \<Rightarrow> nat outcome" where
  "HandleTable_Lookup key hash c = bindO (FindPointer key hash c) (\<lambda>ptr. read_slot ptr c)"

fun new_length_loop :: "nat \<Rightarrow> u32 \<Rightarrow> u32 \<Rightarrow> u32 outcome" where
  "new_length_loop 0 new_length elems = NoFuel"
| "new_length_loop (Suc fuel) new_length elems =
     (if new_length < elems then new_length_loop fuel (new_length * 2) elems else Ret new_length)"

fun Resize_chain :: "nat \<Rightarrow> u32 \<Rightarrow> nat \<Rightarrow> nat list \<Rightarrow> 'v LRUCache \<Rightarrow> (nat list \<times> 'v LRUCache) outcome" where
  "Resize_chain 0 new_length h new_list c = NoFuel"
| "Resize_chain (Suc fuel) new_length h new_list c =
     (if h = 0 then Ret (new_list, c)
      else
        bindO (get h c) (\<lambda>x.
          let i = unat (lh_hash x AND (new_length - 1))
          in if i < length new_list then
               bindO (modify h (\<lambda>x. x\<lparr>lh_next_hash := new_list ! i\<rparr>) c) (\<lambda>c.
                 Resize_chain fuel new_length (lh_next_hash x) (new_list[i := h]) c)
             else UB))"

fun Resize_loop :: "u32 \<Rightarrow> nat list \<Rightarrow> nat list \<Rightarrow> 'v LRUCache \<Rightarrow> (nat list \<times> 'v LRUCache) outcome" where
  "Resize_loop new_length [] new_list c = Ret (new_list, c)"
| "Resize_loop new_length (h # hs) new_list c =
     bindO (Resize_chain (lc_fresh c) new_length h new_list c) (\<lambda>(new_list, c). Resize_loop new_length hs new_list c)"

text \<open>The loop doubles a 32-bit length, which would never end for more than \<open>2\<^sup>3\<^sup>1\<close> entries.\<close>

definition Resize :: "'v LRUCache \<Rightarrow> 'v LRUCache outcome" where
  "Resize c =
     bindO (new_length_loop 40 4 (ht_elems c)) (\<lambda>new_length.
     bindO (Resize_loop new_length (ht_list c) (replicate (unat new_length) 0) c) (\<lambda>(new_list, c).
       Ret (c\<lparr>ht_list := new_list, ht_length := new_length\<rparr>)))"

definition HandleTable_Insert :: "nat \<Rightarrow> 'v LRUCache \<Rightarrow> (nat \<times> 'v LRUCache) outcome" where
  "HandleTable_Insert h c =
     bindO (get h c) (\<lambda>x.
     bindO (FindPointer (lh_key x) (lh_hash x) c) (\<lambda>ptr.
     bindO (read_slot ptr c) (\<lambda>old.
     bindO (if old = 0 then Ret 0 else bindO (get old c) (\<lambda>y. Ret (lh_next_hash y))) (\<lambda>next_hash.
     bindO (modify h (\<lambda>x. x\<lparr>lh_next_hash := next_hash\<rparr>) c) (\<lambda>c.
     bindO (write_slot ptr h c) (\<lambda>c.
       if old = 0 then
         let c = c\<lparr>ht_elems := ht_elems c + 1\<rparr>
         in bindO (if ht_elems c > ht_length c then Resize c else Ret c) (\<lambda>c. Ret (old, c))
       else Ret (old, c)))))))"

definition HandleTable_Remove :: "byte list \<Rightarrow> u32 \<Rightarrow> 'v LRUCache \<Rightarrow> (nat \<times> 'v LRUCache) outcome" where
  "HandleTable_Remove key hash c =
     bindO (FindPointer key hash c) (\<lambda>ptr.
     bindO (read_slot ptr c) (\<lambda>result.
       if result \<noteq> 0 then
         bindO (get result c) (\<lambda>r.
         bindO (write_slot ptr (lh_next_hash r) c) (\<lambda>c. Ret (result, c\<lparr>ht_elems := ht_elems c - 1\<rparr>)))
       else Ret (result, c)))"

section \<open>The lists\<close>

definition LRU_Remove :: "nat \<Rightarrow> 'v LRUCache \<Rightarrow> 'v LRUCache outcome" where
  "LRU_Remove e c =
     bindO (get e c) (\<lambda>h.
     bindO (modify (lh_next h) (\<lambda>x. x\<lparr>lh_prev := lh_prev h\<rparr>) c) (\<lambda>c.
     bindO (get e c) (\<lambda>h. modify (lh_prev h) (\<lambda>x. x\<lparr>lh_next := lh_next h\<rparr>) c)))"

definition LRU_Append :: "nat \<Rightarrow> nat \<Rightarrow> 'v LRUCache \<Rightarrow> 'v LRUCache outcome" where
  "LRU_Append head e c =
     bindO (modify e (\<lambda>x. x\<lparr>lh_next := head\<rparr>) c) (\<lambda>c.
     bindO (get head c) (\<lambda>l.
     bindO (modify e (\<lambda>x. x\<lparr>lh_prev := lh_prev l\<rparr>) c) (\<lambda>c.
     bindO (get e c) (\<lambda>h.
     bindO (modify (lh_prev h) (\<lambda>x. x\<lparr>lh_next := e\<rparr>) c) (\<lambda>c.
     bindO (get e c) (\<lambda>h. modify (lh_next h) (\<lambda>x. x\<lparr>lh_prev := e\<rparr>) c))))))"

definition Cache_Ref :: "nat \<Rightarrow> 'v LRUCache \<Rightarrow> 'v LRUCache outcome" where
  "Cache_Ref e c =
     bindO (get e c) (\<lambda>h.
     bindO (if lh_refs h = 1 \<and> lh_in_cache h then bindO (LRU_Remove e c) (LRU_Append in_use_list e) else Ret c) (\<lambda>c.
       modify e (\<lambda>x. x\<lparr>lh_refs := lh_refs x + 1\<rparr>) c))"

text \<open>\<open>free\<close> takes the entry out of the heap, after its deleter was called.\<close>

definition Cache_Unref :: "nat \<Rightarrow> 'v LRUCache \<Rightarrow> 'v LRUCache outcome" where
  "Cache_Unref e c =
     bindO (modify e (\<lambda>x. x\<lparr>lh_refs := lh_refs x - 1\<rparr>) c) (\<lambda>c.
     bindO (get e c) (\<lambda>h.
       if lh_refs h = 0 then Ret (c\<lparr>lc_deleted := lc_deleted c @ [(lh_key h, lh_value h)], lc_mem := (lc_mem c)(e := None)\<rparr>)
       else if lh_in_cache h \<and> lh_refs h = 1 then bindO (LRU_Remove e c) (LRU_Append lru_list e)
       else Ret c))"

section \<open>The operations of a shard\<close>

definition list_head :: "nat \<Rightarrow> 'v LRUHandle" where
  "list_head a = \<lparr>lh_value = None, lh_next_hash = 0, lh_next = a, lh_prev = a, lh_charge = 0, lh_in_cache = False, lh_refs = 0, lh_hash = 0, lh_key = []\<rparr>"

definition LRUCache_new :: "'v LRUCache outcome" where
  "LRUCache_new =
     Resize \<lparr>lc_capacity = 0, lc_usage = 0, lc_mem = [lru_list \<mapsto> list_head lru_list, in_use_list \<mapsto> list_head in_use_list], lc_fresh = 3,
       ht_length = 0, ht_elems = 0, ht_list = [], lc_deleted = []\<rparr>"

definition SetCapacity :: "u64 \<Rightarrow> 'v LRUCache \<Rightarrow> 'v LRUCache" where
  "SetCapacity capacity c = c\<lparr>lc_capacity := capacity\<rparr>"

definition LRUCache_Lookup :: "byte list \<Rightarrow> u32 \<Rightarrow> 'v LRUCache \<Rightarrow> (nat \<times> 'v LRUCache) outcome" where
  "LRUCache_Lookup key hash c =
     bindO (HandleTable_Lookup key hash c) (\<lambda>e.
       bindO (if e \<noteq> 0 then Cache_Ref e c else Ret c) (\<lambda>c. Ret (e, c)))"

definition LRUCache_Release :: "nat \<Rightarrow> 'v LRUCache \<Rightarrow> 'v LRUCache outcome" where
  "LRUCache_Release h c = Cache_Unref h c"

definition FinishErase :: "nat \<Rightarrow> 'v LRUCache \<Rightarrow> 'v LRUCache outcome" where
  "FinishErase e c =
     (if e \<noteq> 0 then
        bindO (LRU_Remove e c) (\<lambda>c.
        bindO (modify e (\<lambda>x. x\<lparr>lh_in_cache := False\<rparr>) c) (\<lambda>c.
        bindO (get e c) (\<lambda>h. Cache_Unref e (c\<lparr>lc_usage := lc_usage c - lh_charge h\<rparr>))))
      else Ret c)"

definition evict_oldest :: "'v LRUCache \<Rightarrow> 'v LRUCache outcome" where
  "evict_oldest c =
     bindO (get lru_list c) (\<lambda>l.
     bindO (get (lh_next l) c) (\<lambda>old.
     bindO (HandleTable_Remove (lh_key old) (lh_hash old) c) (\<lambda>(e, c). FinishErase e c)))"

fun evict_loop :: "nat \<Rightarrow> 'v LRUCache \<Rightarrow> 'v LRUCache outcome" where
  "evict_loop 0 c = NoFuel"
| "evict_loop (Suc fuel) c =
     bindO (get lru_list c) (\<lambda>l.
       if lc_usage c > lc_capacity c \<and> lh_next l \<noteq> lru_list then bindO (evict_oldest c) (evict_loop fuel) else Ret c)"

definition LRUCache_Insert :: "byte list \<Rightarrow> u32 \<Rightarrow> 'v \<Rightarrow> u64 \<Rightarrow> 'v LRUCache \<Rightarrow> (nat \<times> 'v LRUCache) outcome" where
  "LRUCache_Insert key hash val charge c =
     (let e = lc_fresh c;
          h = \<lparr>lh_value = Some val, lh_next_hash = 0, lh_next = 0, lh_prev = 0, lh_charge = charge, lh_in_cache = False, lh_refs = 1,
               lh_hash = hash, lh_key = key\<rparr>;
          c = c\<lparr>lc_mem := (lc_mem c)(e \<mapsto> h), lc_fresh := e + 1\<rparr>
      in bindO
           (if lc_capacity c > 0 then
              bindO (modify e (\<lambda>x. x\<lparr>lh_refs := lh_refs x + 1, lh_in_cache := True\<rparr>) c) (\<lambda>c.
              bindO (LRU_Append in_use_list e c) (\<lambda>c.
              bindO (HandleTable_Insert e (c\<lparr>lc_usage := lc_usage c + charge\<rparr>)) (\<lambda>(old, c). FinishErase old c)))
            else modify e (\<lambda>x. x\<lparr>lh_next := 0\<rparr>) c)
           (\<lambda>c. bindO (evict_loop (lc_fresh c) c) (\<lambda>c. Ret (e, c))))"

definition LRUCache_Erase :: "byte list \<Rightarrow> u32 \<Rightarrow> 'v LRUCache \<Rightarrow> 'v LRUCache outcome" where
  "LRUCache_Erase key hash c = bindO (HandleTable_Remove key hash c) (\<lambda>(e, c). FinishErase e c)"

fun Prune_loop :: "nat \<Rightarrow> 'v LRUCache \<Rightarrow> 'v LRUCache outcome" where
  "Prune_loop 0 c = NoFuel"
| "Prune_loop (Suc fuel) c =
     bindO (get lru_list c) (\<lambda>l. if lh_next l \<noteq> lru_list then bindO (evict_oldest c) (Prune_loop fuel) else Ret c)"

definition LRUCache_Prune :: "'v LRUCache \<Rightarrow> 'v LRUCache outcome" where
  "LRUCache_Prune c = Prune_loop (lc_fresh c) c"

definition LRUCache_TotalCharge :: "'v LRUCache \<Rightarrow> u64" where
  "LRUCache_TotalCharge c = lc_usage c"

text \<open>The destructor drops the cache's reference on every entry of the list of entries not in use.\<close>

fun destroy_loop :: "nat \<Rightarrow> nat \<Rightarrow> 'v LRUCache \<Rightarrow> 'v LRUCache outcome" where
  "destroy_loop 0 e c = NoFuel"
| "destroy_loop (Suc fuel) e c =
     (if e = lru_list then Ret c
      else
        bindO (get e c) (\<lambda>h.
        bindO (modify e (\<lambda>x. x\<lparr>lh_in_cache := False\<rparr>) c) (\<lambda>c.
        bindO (Cache_Unref e c) (destroy_loop fuel (lh_next h)))))"

definition LRUCache_destroy :: "'v LRUCache \<Rightarrow> 'v LRUCache outcome" where
  "LRUCache_destroy c = bindO (get lru_list c) (\<lambda>l. destroy_loop (lc_fresh c) (lh_next l) c)"

section \<open>The sharded cache\<close>

text \<open>A handle is an address in the heap of its shard; \<open>h->hash\<close> says which shard that is.\<close>

record 'v ShardedLRUCache =
  sc_shard :: "'v LRUCache list"
  sc_last_id :: u64

definition HashSlice :: "byte list \<Rightarrow> u32" where
  "HashSlice s = Hash s 0"

definition Shard :: "u32 \<Rightarrow> nat" where
  "Shard hash = unat (drop_bit 28 hash)"

definition ShardedLRUCache_new :: "u64 \<Rightarrow> 'v ShardedLRUCache outcome" where
  "ShardedLRUCache_new capacity =
     bindO LRUCache_new (\<lambda>c.
       let per_shard = (capacity + 15) div 16
       in Ret \<lparr>sc_shard = replicate 16 (SetCapacity per_shard c), sc_last_id = 0\<rparr>)"

definition on_shard :: "u32 \<Rightarrow> ('v LRUCache \<Rightarrow> ('a \<times> 'v LRUCache) outcome) \<Rightarrow> 'v ShardedLRUCache \<Rightarrow> ('a \<times> 'v ShardedLRUCache) outcome" where
  "on_shard hash f sc =
     (if Shard hash < length (sc_shard sc)
      then bindO (f (sc_shard sc ! Shard hash)) (\<lambda>(r, c). Ret (r, sc\<lparr>sc_shard := (sc_shard sc)[Shard hash := c]\<rparr>))
      else UB)"

definition Sharded_Insert :: "byte list \<Rightarrow> 'v \<Rightarrow> u64 \<Rightarrow> 'v ShardedLRUCache \<Rightarrow> ((u32 \<times> nat) \<times> 'v ShardedLRUCache) outcome" where
  "Sharded_Insert key val charge sc =
     (let hash = HashSlice key in on_shard hash (\<lambda>c. bindO (LRUCache_Insert key hash val charge c) (\<lambda>(h, c). Ret ((hash, h), c))) sc)"

definition Sharded_Lookup :: "byte list \<Rightarrow> 'v ShardedLRUCache \<Rightarrow> ((u32 \<times> nat) option \<times> 'v ShardedLRUCache) outcome" where
  "Sharded_Lookup key sc =
     (let hash = HashSlice key
      in on_shard hash (\<lambda>c. bindO (LRUCache_Lookup key hash c) (\<lambda>(h, c). Ret (if h = 0 then None else Some (hash, h), c))) sc)"

definition Sharded_Release :: "u32 \<times> nat \<Rightarrow> 'v ShardedLRUCache \<Rightarrow> 'v ShardedLRUCache outcome" where
  "Sharded_Release handle sc =
     bindO (on_shard (fst handle) (\<lambda>c. bindO (LRUCache_Release (snd handle) c) (\<lambda>c. Ret ((), c))) sc) (\<lambda>(_, sc). Ret sc)"

definition Sharded_Erase :: "byte list \<Rightarrow> 'v ShardedLRUCache \<Rightarrow> 'v ShardedLRUCache outcome" where
  "Sharded_Erase key sc =
     (let hash = HashSlice key in bindO (on_shard hash (\<lambda>c. bindO (LRUCache_Erase key hash c) (\<lambda>c. Ret ((), c))) sc) (\<lambda>(_, sc). Ret sc))"

definition Sharded_Value :: "u32 \<times> nat \<Rightarrow> 'v ShardedLRUCache \<Rightarrow> 'v option outcome" where
  "Sharded_Value handle sc =
     (if Shard (fst handle) < length (sc_shard sc) then bindO (get (snd handle) (sc_shard sc ! Shard (fst handle))) (\<lambda>h. Ret (lh_value h)) else UB)"

definition NewId :: "'v ShardedLRUCache \<Rightarrow> u64 \<times> 'v ShardedLRUCache" where
  "NewId sc = (sc_last_id sc + 1, sc\<lparr>sc_last_id := sc_last_id sc + 1\<rparr>)"

fun Prune_shards :: "'v LRUCache list \<Rightarrow> 'v LRUCache list outcome" where
  "Prune_shards [] = Ret []"
| "Prune_shards (c # cs) = bindO (LRUCache_Prune c) (\<lambda>c. bindO (Prune_shards cs) (\<lambda>cs. Ret (c # cs)))"

definition Sharded_Prune :: "'v ShardedLRUCache \<Rightarrow> 'v ShardedLRUCache outcome" where
  "Sharded_Prune sc = bindO (Prune_shards (sc_shard sc)) (\<lambda>cs. Ret (sc\<lparr>sc_shard := cs\<rparr>))"

definition Sharded_TotalCharge :: "'v ShardedLRUCache \<Rightarrow> u64" where
  "Sharded_TotalCharge sc = foldl (\<lambda>total c. total + LRUCache_TotalCharge c) 0 (sc_shard sc)"

end
