(* ===== verification/Lru_Lists.thy ===== *)
theory Lru_Lists
  imports Lru_Cache
begin

text \<open>
  The pointer structures of the cache: circular doubly linked lists and hash chains as predicates
  over the pointer fields, and how the list operations of \<open>util/cache.cc\<close> change them. The fields of
  the entries are read through four views, so that an operation on one of them leaves the others
  alone.
\<close>

section \<open>Views of the heap\<close>

type_synonym 'v heap = "nat \<Rightarrow> 'v LRUHandle option"

definition nx :: "'v heap \<Rightarrow> nat \<Rightarrow> nat" where
  "nx m a = (case m a of None \<Rightarrow> 0 | Some h \<Rightarrow> lh_next h)"

definition pv :: "'v heap \<Rightarrow> nat \<Rightarrow> nat" where
  "pv m a = (case m a of None \<Rightarrow> 0 | Some h \<Rightarrow> lh_prev h)"

definition nh :: "'v heap \<Rightarrow> nat \<Rightarrow> nat" where
  "nh m a = (case m a of None \<Rightarrow> 0 | Some h \<Rightarrow> lh_next_hash h)"

text \<open>Everything but the pointers.\<close>

definition core :: "'v heap \<Rightarrow> 'v heap" where
  "core m a = map_option (\<lambda>h. h\<lparr>lh_next := 0, lh_prev := 0, lh_next_hash := 0\<rparr>) (m a)"

lemmas views = nx_def pv_def nh_def core_def

lemma core_None: "core m a = None \<longleftrightarrow> m a = None"
  by (simp add: core_def)

lemma core_dom: "core m = core m' \<Longrightarrow> dom m = dom m'"
  unfolding dom_def by (metis core_None)

lemma core_get:
  assumes "core m' e = core m e" "m e = Some h"
  shows "\<exists>h'. m' e = Some h' \<and> lh_value h' = lh_value h \<and> lh_charge h' = lh_charge h \<and> lh_in_cache h' = lh_in_cache h \<and>
    lh_refs h' = lh_refs h \<and> lh_hash h' = lh_hash h \<and> lh_key h' = lh_key h"
proof -
  obtain h' where h': "m' e = Some h'" "h'\<lparr>lh_next := 0, lh_prev := 0, lh_next_hash := 0\<rparr> = h\<lparr>lh_next := 0, lh_prev := 0, lh_next_hash := 0\<rparr>"
    using assms by (auto simp: core_def)
  from arg_cong [OF h'(2), of lh_value] arg_cong [OF h'(2), of lh_charge] arg_cong [OF h'(2), of lh_in_cache] arg_cong [OF h'(2), of lh_refs]
    arg_cong [OF h'(2), of lh_hash] arg_cong [OF h'(2), of lh_key] h'(1) show ?thesis by simp
qed

section \<open>Doubly linked lists\<close>

fun links :: "(nat \<Rightarrow> nat) \<Rightarrow> (nat \<Rightarrow> nat) \<Rightarrow> nat \<Rightarrow> nat list \<Rightarrow> nat \<Rightarrow> bool" where
  "links n p a [] b \<longleftrightarrow> n a = b \<and> p b = a"
| "links n p a (x # xs) b \<longleftrightarrow> n a = x \<and> p x = a \<and> links n p x xs b"

abbreviation ring :: "(nat \<Rightarrow> nat) \<Rightarrow> (nat \<Rightarrow> nat) \<Rightarrow> nat \<Rightarrow> nat list \<Rightarrow> bool" where
  "ring n p h xs \<equiv> links n p h xs h"

lemma links_append: "links n p a (xs @ y # ys) b \<longleftrightarrow> links n p a xs y \<and> links n p y ys b"
  by (induction xs arbitrary: a) auto

lemma links_cong: "(\<And>x. x \<in> set (a # xs) \<Longrightarrow> n' x = n x) \<Longrightarrow> (\<And>x. x \<in> set (b # xs) \<Longrightarrow> p' x = p x) \<Longrightarrow> links n' p' a xs b = links n p a xs b"
  by (induction xs arbitrary: a) auto

lemma links_first: "links n p a xs b \<Longrightarrow> n a = hd (xs @ [b])"
  by (cases xs) auto

lemma links_last: "links n p a xs b \<Longrightarrow> p b = last (a # xs)"
  by (induction xs arbitrary: a) auto

lemma last_mem: "last (a # xs) \<in> set (a # xs)"
  by (rule last_in_set) simp

lemma links_retarget:
  "links n p a xs e \<Longrightarrow> distinct (a # xs) \<Longrightarrow> z \<notin> set xs \<Longrightarrow> links (n(last (a # xs) := z)) (p(z := last (a # xs))) a xs z"
proof (induction xs arbitrary: a)
  case (Cons x xs)
  have "links (n(last (x # xs) := z)) (p(z := last (x # xs))) x xs z" by (rule Cons.IH) (use Cons.prems in auto)
  moreover have "last (x # xs) \<noteq> a" using Cons.prems(2) last_mem [of x xs] by (metis distinct.simps(2))
  moreover have "last (a # x # xs) = last (x # xs)" "n a = x" "p x = a" "z \<noteq> x" using Cons.prems by simp_all
  ultimately show ?case unfolding links.simps by (metis fun_upd_other)
qed simp

lemma ring_remove:
  assumes "ring n p h (as @ e # bs)" "distinct (h # as @ e # bs)"
  shows "ring (n(p e := n e)) (p(n e := p e)) h (as @ bs)"
proof -
  have l: "links n p h as e" "links n p e bs h" using assms(1) by (simp_all add: links_append)
  have pe: "p e = last (h # as)" and ne: "n e = hd (bs @ [h])" using links_last [OF l(1)] links_first [OF l(2)] by simp_all
  show ?thesis
  proof (cases bs)
    case Nil
    then show ?thesis using links_retarget [OF l(1), of h] assms(2) by (simp add: pe ne)
  next
    case (Cons b bs')
    have 1: "links (n(p e := n e)) (p(n e := p e)) h as b" using links_retarget [OF l(1), of b] assms(2) Cons by (simp add: pe ne)
    have "p e \<in> set (h # as)" unfolding pe by (rule last_mem)
    then have "p e \<notin> set (b # bs')" using assms(2) Cons by auto
    then have "links (n(p e := n e)) (p(n e := p e)) b bs' h = links n p b bs' h" using assms(2) Cons by (intro links_cong) (auto simp: ne)
    then show ?thesis using 1 l(2) Cons by (simp add: links_append)
  qed
qed

lemma ring_append:
  assumes "ring n p h xs" "distinct (h # xs)" "e \<notin> set (h # xs)"
  shows "ring (n(e := h, p h := e)) (p(e := p h, h := e)) h (xs @ [e])"
proof -
  have ph: "p h = last (h # xs)" by (rule links_last [OF assms(1)])
  have "e \<noteq> last (h # xs)" using assms(3) last_mem [of h xs] by metis
  moreover have "links (n(last (h # xs) := e)) (p(e := last (h # xs))) h xs e" using links_retarget [OF assms(1,2)] assms(3) by simp
  then have "links (n(e := h, last (h # xs) := e)) (p(e := last (h # xs), h := e)) h xs e"
    using assms(2,3) by (subst links_cong [where n = "n(last (h # xs) := e)" and p = "p(e := last (h # xs))"]) auto
  ultimately show ?thesis unfolding ph links_append using assms(3) by auto
qed

lemma ring_other:
  assumes "ring n p h xs" "a \<notin> set (h # xs)" "b \<notin> set (h # xs)"
  shows "ring (n(a := x)) (p(b := y)) h xs"
  using assms by (subst links_cong [where n = n and p = p]) auto

section \<open>The list operations\<close>

lemma get_Some: "lc_mem c e = Some h \<Longrightarrow> get e c = Ret h"
  by (simp add: get_def)

lemma modify_Some: "lc_mem c e = Some h \<Longrightarrow> modify e f c = Ret (c\<lparr>lc_mem := (lc_mem c)(e \<mapsto> f h)\<rparr>)"
  by (simp add: modify_def)

lemma LRU_Remove_ok:
  assumes "e \<in> dom (lc_mem c)" "nx (lc_mem c) e \<in> dom (lc_mem c)" "pv (lc_mem c) e \<in> dom (lc_mem c)" "nx (lc_mem c) e \<noteq> e"
  shows "\<exists>m. LRU_Remove e c = Ret (c\<lparr>lc_mem := m\<rparr>) \<and> nx m = (nx (lc_mem c))(pv (lc_mem c) e := nx (lc_mem c) e) \<and>
    pv m = (pv (lc_mem c))(nx (lc_mem c) e := pv (lc_mem c) e) \<and> nh m = nh (lc_mem c) \<and> core m = core (lc_mem c)"
proof -
  obtain h hn hp where h: "lc_mem c e = Some h" "lc_mem c (lh_next h) = Some hn" "lc_mem c (lh_prev h) = Some hp" "lh_next h \<noteq> e"
    using assms by (auto simp: nx_def pv_def)
  define m1 where "m1 = (lc_mem c)(lh_next h \<mapsto> hn\<lparr>lh_prev := lh_prev h\<rparr>)"
  obtain hp' where hp': "m1 (lh_prev h) = Some hp'" "hp' = (if lh_prev h = lh_next h then hn\<lparr>lh_prev := lh_prev h\<rparr> else hp)" using h by (simp add: m1_def)
  have "LRU_Remove e c = Ret (c\<lparr>lc_mem := m1(lh_prev h \<mapsto> hp'\<lparr>lh_next := lh_next h\<rparr>)\<rparr>)"
    using h hp'(1) by (simp add: LRU_Remove_def get_def modify_def m1_def)
  then show ?thesis using h hp'(2)
    by (intro exI [of _ "m1(lh_prev h \<mapsto> hp'\<lparr>lh_next := lh_next h\<rparr>)"]) (auto simp: views m1_def fun_eq_iff)
qed

lemma LRU_Append_ok:
  assumes "e \<in> dom (lc_mem c)" "h \<in> dom (lc_mem c)" "pv (lc_mem c) h \<in> dom (lc_mem c)" "e \<noteq> h" "pv (lc_mem c) h \<noteq> e"
  shows "\<exists>m. LRU_Append h e c = Ret (c\<lparr>lc_mem := m\<rparr>) \<and> nx m = (nx (lc_mem c))(e := h, pv (lc_mem c) h := e) \<and>
    pv m = (pv (lc_mem c))(e := pv (lc_mem c) h, h := e) \<and> nh m = nh (lc_mem c) \<and> core m = core (lc_mem c)"
proof -
  obtain x y z where m: "lc_mem c e = Some x" "lc_mem c h = Some y" "lc_mem c (lh_prev y) = Some z" "lh_prev y \<noteq> e"
    using assms by (auto simp: pv_def)
  define m1 where "m1 = (lc_mem c)(e \<mapsto> x\<lparr>lh_next := h, lh_prev := lh_prev y\<rparr>)"
  define m2 where "m2 = m1(lh_prev y \<mapsto> z\<lparr>lh_next := e\<rparr>)"
  obtain y' where y': "m2 h = Some y'" "y' = (if lh_prev y = h then z\<lparr>lh_next := e\<rparr> else y)" using m assms(4) by (simp add: m2_def m1_def)
  have "LRU_Append h e c = Ret (c\<lparr>lc_mem := m2(h \<mapsto> y'\<lparr>lh_prev := e\<rparr>)\<rparr>)"
    using m assms(4) y' by (cases "lh_prev y = h") (simp_all add: LRU_Append_def get_def modify_def m2_def m1_def)
  then show ?thesis using m y'(2) assms(4)
    by (intro exI [of _ "m2(h \<mapsto> y'\<lparr>lh_prev := e\<rparr>)"]) (auto simp: views m2_def m1_def fun_eq_iff)
qed

end
