(* ===== verification/Lru_Table.thy ===== *)
theory Lru_Table
  imports Lru_Lists "HOL-Library.Multiset"
begin

text \<open>
  The hash table of the cache: what its chains hold, and that looking up, inserting, removing and
  resizing keep the table and find the entry with a key.
\<close>

section \<open>Chains\<close>

fun chain :: "(nat \<Rightarrow> nat) \<Rightarrow> nat \<Rightarrow> nat list \<Rightarrow> bool" where
  "chain n p [] \<longleftrightarrow> p = 0"
| "chain n p (e # es) \<longleftrightarrow> p = e \<and> e \<noteq> 0 \<and> chain n (n e) es"

definition first_of :: "nat list \<Rightarrow> nat" where
  "first_of es = (case es of [] \<Rightarrow> 0 | e # _ \<Rightarrow> e)"

lemma first_of_simps [simp]: "first_of [] = 0" "first_of (e # es) = e"
  by (simp_all add: first_of_def)

lemma chain_first: "chain n p es \<Longrightarrow> p = first_of es"
  by (cases es) auto

lemma chain_nonzero: "chain n p es \<Longrightarrow> 0 \<notin> set es"
  by (induction es arbitrary: p) auto

lemma chain_cong: "(\<And>e. e \<in> set es \<Longrightarrow> n' e = n e) \<Longrightarrow> chain n' p es = chain n p es"
  by (induction es arbitrary: p) auto

lemma chain_update: "e \<notin> set es \<Longrightarrow> chain (n(e := v)) p es = chain n p es"
  by (rule chain_cong) auto

lemma chain_suffix: "chain n p (xs @ ys) \<Longrightarrow> chain n (first_of ys) ys"
proof (induction xs arbitrary: p)
  case Nil
  then show ?case using chain_first [of n p ys] by simp
qed auto

lemma chain_retarget:
  assumes "chain n p (pre @ post)" "distinct pre" "pre \<noteq> []" "\<And>e. e \<in> set pre \<Longrightarrow> e \<noteq> last pre \<Longrightarrow> n' e = n e" "n' (last pre) = q" "chain n' q es"
  shows "chain n' p (pre @ es)"
  using assms(1-5)
proof (induction pre arbitrary: p)
  case (Cons a pre)
  show ?case
  proof (cases "pre = []")
    case True
    then show ?thesis using Cons.prems assms(6) by simp
  next
    case False
    then have "a \<noteq> last pre" using Cons.prems(2) by auto
    then have "n' a = n a" using Cons.prems(4) [of a] False by simp
    moreover have "chain n' (n a) (pre @ es)" by (rule Cons.IH) (use Cons.prems False in auto)
    ultimately show ?thesis using Cons.prems(1) by simp
  qed
qed simp

section \<open>The table\<close>

definition hash_of :: "'v heap \<Rightarrow> nat \<Rightarrow> u32" where
  "hash_of m e = (case m e of None \<Rightarrow> 0 | Some h \<Rightarrow> lh_hash h)"

definition key_of :: "'v heap \<Rightarrow> nat \<Rightarrow> byte list" where
  "key_of m e = (case m e of None \<Rightarrow> [] | Some h \<Rightarrow> lh_key h)"

lemma core_hash_key: "core m' = core m \<Longrightarrow> hash_of m' = hash_of m \<and> key_of m' = key_of m"
proof -
  assume c: "core m' = core m"
  have "hash_of m' e = hash_of m e \<and> key_of m' e = key_of m e" for e
  proof (cases "m e")
    case None
    then have "m' e = None" using c core_None by metis
    then show ?thesis using None by (simp add: hash_of_def key_of_def)
  next
    case (Some h)
    from core_get [OF fun_cong [OF c] Some] Some show ?thesis by (auto simp: hash_of_def key_of_def)
  qed
  then show ?thesis by auto
qed

definition matches :: "'v heap \<Rightarrow> byte list \<Rightarrow> u32 \<Rightarrow> nat \<Rightarrow> bool" where
  "matches m key hash e \<longleftrightarrow> hash_of m e = hash \<and> key_of m e = key"

definition bucket :: "u32 \<Rightarrow> u32 \<Rightarrow> nat" where
  "bucket len hash = unat (hash AND (len - 1))"

text \<open>Buckets \<open>bss\<close> in a list of pointers, under some length; the entries are live and have addresses below the next fresh one.\<close>

definition buckets_ok :: "'v LRUCache \<Rightarrow> u32 \<Rightarrow> nat list \<Rightarrow> nat list list \<Rightarrow> bool" where
  "buckets_ok c len ptrs bss \<longleftrightarrow>
     length ptrs = unat len \<and> length bss = unat len \<and> distinct (concat bss) \<and> set (concat bss) \<subseteq> dom (lc_mem c) \<and>
     (\<forall>e\<in>set (concat bss). e < lc_fresh c) \<and>
     (\<forall>i < length bss. chain (nh (lc_mem c)) (ptrs ! i) (bss ! i) \<and> (\<forall>e\<in>set (bss ! i). bucket len (hash_of (lc_mem c) e) = i))"

definition table_ok :: "'v LRUCache \<Rightarrow> nat list list \<Rightarrow> bool" where
  "table_ok c bss \<longleftrightarrow> ht_length c \<noteq> 0 \<and> buckets_ok c (ht_length c) (ht_list c) bss \<and> unat (ht_elems c) = length (concat bss) \<and> 0 < lc_fresh c"

text \<open>What the operations on the table leave alone.\<close>

definition table_frame :: "'v LRUCache \<Rightarrow> 'v LRUCache \<Rightarrow> bool" where
  "table_frame c c' \<longleftrightarrow> lc_capacity c' = lc_capacity c \<and> lc_usage c' = lc_usage c \<and> lc_fresh c' = lc_fresh c \<and> lc_deleted c' = lc_deleted c \<and>
     nx (lc_mem c') = nx (lc_mem c) \<and> pv (lc_mem c') = pv (lc_mem c) \<and> core (lc_mem c') = core (lc_mem c)"

lemma table_frame_refl: "table_frame c c"
  by (simp add: table_frame_def)

lemma table_frame_trans: "table_frame c c' \<Longrightarrow> table_frame c' c'' \<Longrightarrow> table_frame c c''"
  by (simp add: table_frame_def)

lemma bucket_less: "len \<noteq> 0 \<Longrightarrow> bucket len hash < unat len"
proof -
  assume n: "len \<noteq> 0"
  have "hash AND (len - 1) \<le> len - 1" by (rule word_and_le1)
  then have "bucket len hash \<le> unat (len - 1)" by (simp add: bucket_def word_le_nat_alt)
  also have "\<dots> < unat len" using n by (metis unat_gt_0 unat_minus_one diff_less zero_less_one)
  finally show ?thesis .
qed

lemma mset_concat_update: "i < length bss \<Longrightarrow> mset (concat (bss[i := xs])) + mset (bss ! i) = mset (concat bss) + mset xs"
proof (induction bss arbitrary: i)
  case (Cons b bss)
  then show ?case by (cases i) (simp_all add: union_ac)
qed simp

lemma chain_fuel:
  assumes "distinct es" "\<forall>e\<in>set es. e < f" "0 \<notin> set es" "0 < f"
  shows "length es < f"
proof -
  have "set es \<subseteq> {1..<f}" using assms(2,3) by (auto simp: Suc_le_eq) (metis not_gr_zero)
  then have "card (set es) \<le> card {1..<f}" by (intro card_mono) simp_all
  then show ?thesis using assms(1,4) by (simp add: distinct_card)
qed

section \<open>Looking up\<close>

definition slot_at :: "slot \<Rightarrow> nat list \<Rightarrow> slot" where
  "slot_at ptr pre = (if pre = [] then ptr else Next_hash (last pre))"

lemma read_Next: "e \<in> dom (lc_mem c) \<Longrightarrow> read_slot (Next_hash e) c = Ret (nh (lc_mem c) e)"
  by (auto simp: read_slot_def get_def nh_def)

lemma FindPointer_loop_ok:
  assumes "read_slot ptr c = Ret p" "chain (nh (lc_mem c)) p es" "set es \<subseteq> dom (lc_mem c)" "length es < fuel"
  shows "\<exists>q. FindPointer_loop fuel key hash ptr c = Ret (slot_at ptr (takeWhile (\<lambda>e. \<not> matches (lc_mem c) key hash e) es)) \<and>
    read_slot (slot_at ptr (takeWhile (\<lambda>e. \<not> matches (lc_mem c) key hash e) es)) c = Ret (first_of (dropWhile (\<lambda>e. \<not> matches (lc_mem c) key hash e) es))"
  using assms
proof (induction es arbitrary: ptr p fuel)
  case Nil
  then show ?case by (cases fuel) (simp_all add: slot_at_def)
next
  case (Cons e es)
  obtain f where f: "fuel = Suc f" "length es < f" using Cons.prems(4) by (cases fuel) simp_all
  obtain h where h: "lc_mem c e = Some h" using Cons.prems(3) by auto
  have m: "matches (lc_mem c) key hash e \<longleftrightarrow> lh_hash h = hash \<and> lh_key h = key" by (simp add: matches_def hash_of_def key_of_def h)
  show ?case
  proof (cases "matches (lc_mem c) key hash e")
    case True
    then show ?thesis using Cons.prems m h f(1) by (simp add: slot_at_def get_def)
  next
    case False
    have "read_slot (Next_hash e) c = Ret (nh (lc_mem c) e)" using h by (intro read_Next) auto
    from Cons.IH [OF this _ _ f(2)] Cons.prems False m h f(1) show ?thesis by (auto simp: slot_at_def get_def)
  qed
qed

lemma FindPointer_ok:
  fixes c :: "'v LRUCache" and hash :: u32 and key :: "byte list"
  assumes "table_ok c bss"
  defines "i \<equiv> bucket (ht_length c) hash"
  defines "pre \<equiv> takeWhile (\<lambda>e. \<not> matches (lc_mem c) key hash e) (bss ! i)" and "post \<equiv> dropWhile (\<lambda>e. \<not> matches (lc_mem c) key hash e) (bss ! i)"
  shows "FindPointer key hash c = Ret (slot_at (Bucket i) pre)" "read_slot (slot_at (Bucket i) pre) c = Ret (first_of post)"
    "i < length bss" "bss ! i = pre @ post"
proof -
  have t: "ht_length c \<noteq> 0" "buckets_ok c (ht_length c) (ht_list c) bss" "0 < lc_fresh c" using assms(1) by (simp_all add: table_ok_def)
  show i: "i < length bss" using bucket_less [OF t(1)] t(2) by (simp add: i_def buckets_ok_def)
  show "bss ! i = pre @ post" by (simp add: pre_def post_def)
  have b: "chain (nh (lc_mem c)) (ht_list c ! i) (bss ! i)" "set (bss ! i) \<subseteq> dom (lc_mem c)" "\<forall>e\<in>set (bss ! i). e < lc_fresh c"
    "i < length (ht_list c)" "distinct (bss ! i)"
    using t(2) i bucket_subset [OF i] bucket_distinct [OF _ i] by (auto simp: buckets_ok_def)
  have "read_slot (Bucket i) c = Ret (ht_list c ! i)" using b(4) by (simp add: read_slot_def)
  from FindPointer_loop_ok [OF this b(1,2) chain_fuel [OF b(5,3) chain_nonzero [OF b(1)] t(3)], of key hash]
  show "FindPointer key hash c = Ret (slot_at (Bucket i) pre)" "read_slot (slot_at (Bucket i) pre) c = Ret (first_of post)"
    by (simp_all add: FindPointer_def pre_def post_def i_def bucket_def)
qed

text \<open>The entry that the pointer leads to is the one that matches, if there is one.\<close>

lemma found_iff:
  fixes c :: "'v LRUCache" and hash :: u32 and key :: "byte list"
  assumes "table_ok c bss"
  defines "e \<equiv> first_of (dropWhile (\<lambda>e. \<not> matches (lc_mem c) key hash e) (bss ! bucket (ht_length c) hash))"
  shows "e \<noteq> 0 \<Longrightarrow> e \<in> set (concat bss) \<and> matches (lc_mem c) key hash e" "e = 0 \<Longrightarrow> \<forall>x\<in>set (concat bss). \<not> matches (lc_mem c) key hash x"
proof -
  let ?i = "bucket (ht_length c) hash"
  have i: "?i < length bss" using FindPointer_ok(3) [OF assms(1)] .
  have b: "buckets_ok c (ht_length c) (ht_list c) bss" using assms(1) by (simp add: table_ok_def)
  then have nz: "0 \<notin> set (bss ! ?i)" using i chain_nonzero unfolding buckets_ok_def by blast
  show "e \<in> set (concat bss) \<and> matches (lc_mem c) key hash e" if ne: "e \<noteq> 0"
  proof -
    obtain es where "dropWhile (\<lambda>e. \<not> matches (lc_mem c) key hash e) (bss ! ?i) = e # es"
      using ne unfolding e_def by (cases "dropWhile (\<lambda>e. \<not> matches (lc_mem c) key hash e) (bss ! ?i)") simp_all
    then have "e \<in> set (bss ! ?i)" "matches (lc_mem c) key hash e" by (metis list.set_intros(1) set_dropWhileD, metis dropWhile_eq_Cons_conv)
    then show ?thesis using bucket_subset [OF i] by blast
  qed
  show "\<forall>x\<in>set (concat bss). \<not> matches (lc_mem c) key hash x" if z: "e = 0"
  proof
    fix x assume "x \<in> set (concat bss)"
    then obtain j where j: "j < length bss" "x \<in> set (bss ! j)" using in_bucket [of x bss] by blast
    then have h: "bucket (ht_length c) (hash_of (lc_mem c) x) = j" using b unfolding buckets_ok_def by blast
    have "dropWhile (\<lambda>e. \<not> matches (lc_mem c) key hash e) (bss ! ?i) = []"
    proof (rule ccontr)
      assume "dropWhile (\<lambda>e. \<not> matches (lc_mem c) key hash e) (bss ! ?i) \<noteq> []"
      then obtain y ys where y: "dropWhile (\<lambda>e. \<not> matches (lc_mem c) key hash e) (bss ! ?i) = y # ys" by (meson neq_Nil_conv)
      then have "y \<in> set (bss ! ?i)" by (metis list.set_intros(1) set_dropWhileD)
      then show False using z y nz by (simp add: e_def)
    qed
    then have "\<forall>y\<in>set (bss ! ?i). \<not> matches (lc_mem c) key hash y" by (simp add: dropWhile_eq_Nil_conv)
    then show "\<not> matches (lc_mem c) key hash x" using j h by (auto simp: matches_def)
  qed
qed

lemma HandleTable_Lookup_ok:
  assumes "table_ok c bss"
  shows "\<exists>e. HandleTable_Lookup key hash c = Ret e \<and> (e \<noteq> 0 \<longrightarrow> e \<in> set (concat bss) \<and> matches (lc_mem c) key hash e) \<and>
    (e = 0 \<longrightarrow> (\<forall>x\<in>set (concat bss). \<not> matches (lc_mem c) key hash x))"
proof -
  note f = FindPointer_ok(1,2) [OF assms, where key = key and hash = hash] and i = found_iff [OF assms, where key = key and hash = hash]
  define e where "e = first_of (dropWhile (\<lambda>e. \<not> matches (lc_mem c) key hash e) (bss ! bucket (ht_length c) hash))"
  have "HandleTable_Lookup key hash c = Ret e" unfolding HandleTable_Lookup_def f(1) bindO.simps f(2) e_def ..
  moreover have "e \<noteq> 0 \<Longrightarrow> e \<in> set (concat bss) \<and> matches (lc_mem c) key hash e" "e = 0 \<Longrightarrow> \<forall>x\<in>set (concat bss). \<not> matches (lc_mem c) key hash x"
    unfolding e_def by (rule i; assumption)+
  ultimately show ?thesis by blast
qed

section \<open>Changing chains\<close>

lemma next_hash_ok:
  assumes "h \<in> dom (lc_mem c)"
  shows "\<exists>c'. modify h (\<lambda>x. x\<lparr>lh_next_hash := v\<rparr>) c = Ret c' \<and> table_frame c c' \<and> nh (lc_mem c') = (nh (lc_mem c))(h := v) \<and>
    ht_list c' = ht_list c \<and> ht_length c' = ht_length c \<and> ht_elems c' = ht_elems c"
  using assms by (auto simp: modify_def table_frame_def views fun_eq_iff)

lemma write_slot_ok:
  assumes "if pre = [] then i < length (ht_list c) else last pre \<in> dom (lc_mem c)"
  shows "\<exists>c'. write_slot (slot_at (Bucket i) pre) q c = Ret c' \<and> table_frame c c' \<and>
    nh (lc_mem c') = (if pre = [] then nh (lc_mem c) else (nh (lc_mem c))(last pre := q)) \<and>
    ht_list c' = (if pre = [] then (ht_list c)[i := q] else ht_list c) \<and> ht_length c' = ht_length c \<and> ht_elems c' = ht_elems c"
proof (cases "pre = []")
  case True
  then show ?thesis using assms by (simp add: write_slot_def slot_at_def table_frame_def)
next
  case False
  then show ?thesis using next_hash_ok [of "last pre" c q] assms by (simp add: write_slot_def slot_at_def)
qed

lemma buckets_replace:
  assumes B: "buckets_ok c len ptrs bss" "i < length bss" "bss ! i = pre @ post"
    and F: "core (lc_mem c') = core (lc_mem c)" "lc_fresh c' = lc_fresh c"
    and N: "\<And>e. e \<in> set (concat bss) \<Longrightarrow> pre = [] \<or> e \<noteq> last pre \<Longrightarrow> nh (lc_mem c') e = nh (lc_mem c) e" "pre \<noteq> [] \<Longrightarrow> nh (lc_mem c') (last pre) = q"
    and P: "ptrs' = (if pre = [] then ptrs[i := q] else ptrs)"
    and E: "chain (nh (lc_mem c')) q es" "distinct (concat (bss[i := pre @ es]))"
      "\<And>e. e \<in> set es \<Longrightarrow> e \<in> dom (lc_mem c) \<and> e < lc_fresh c \<and> bucket len (hash_of (lc_mem c) e) = i"
  shows "buckets_ok c' len ptrs' (bss[i := pre @ es])"
proof -
  have d: "dom (lc_mem c') = dom (lc_mem c)" and hk: "hash_of (lc_mem c') = hash_of (lc_mem c)"
    using core_dom [OF F(1)] core_hash_key [OF F(1)] by simp_all
  have b: "length ptrs = unat len" "length bss = unat len" "distinct (concat bss)" "set (concat bss) \<subseteq> dom (lc_mem c)" "\<forall>e\<in>set (concat bss). e < lc_fresh c"
    and ch: "\<And>j. j < length bss \<Longrightarrow> chain (nh (lc_mem c)) (ptrs ! j) (bss ! j) \<and> (\<forall>e\<in>set (bss ! j). bucket len (hash_of (lc_mem c) e) = j)"
    using B(1) by (auto simp: buckets_ok_def)
  have pre: "set pre \<subseteq> set (concat bss)" "distinct pre" using bucket_subset [OF B(2)] bucket_distinct [OF b(3) B(2)] B(3) by auto
  have "set (concat (bss[i := pre @ es])) \<subseteq> set (concat bss) \<union> set es"
    using set_update_subset_insert [of bss i "pre @ es"] pre(1) by fastforce
  then have S: "set (concat (bss[i := pre @ es])) \<subseteq> dom (lc_mem c)" "\<forall>e\<in>set (concat (bss[i := pre @ es])). e < lc_fresh c"
    using b(4,5) E(3) by blast+
  have "chain (nh (lc_mem c')) (ptrs' ! j) (bss[i := pre @ es] ! j) \<and> (\<forall>e\<in>set (bss[i := pre @ es] ! j). bucket len (hash_of (lc_mem c) e) = j)"
    if j: "j < length bss" for j
  proof (cases "j = i")
    case True
    have "chain (nh (lc_mem c')) (ptrs' ! i) (pre @ es)"
    proof (cases "pre = []")
      case True
      then show ?thesis using E(1) P B(2) b(1,2) by simp
    next
      case False
      have "chain (nh (lc_mem c)) (ptrs ! i) (pre @ post)" using ch [OF B(2)] B(3) by simp
      from chain_retarget [OF this pre(2) False _ N(2) [OF False] E(1)] N(1) pre(1) have "chain (nh (lc_mem c')) (ptrs ! i) (pre @ es)" by blast
      then show ?thesis using P False by simp
    qed
    then show ?thesis using True B(2) ch [OF B(2)] B(3) E(3) by auto
  next
    case False
    have "set (bss ! j) \<inter> set pre = {}" using bucket_disjoint [OF b(3) j B(2) False] B(3) by auto
    then have "\<And>e. e \<in> set (bss ! j) \<Longrightarrow> nh (lc_mem c') e = nh (lc_mem c) e"
      using N(1) bucket_subset [OF j] last_in_set [of pre] by (metis disjoint_iff subsetD)
    then show ?thesis using ch [OF j] False P chain_cong [of "bss ! j" "nh (lc_mem c')" "nh (lc_mem c)"] by simp
  qed
  then show ?thesis using b S E(2) P unfolding buckets_ok_def d hk F(2) by simp
qed

section \<open>Removing\<close>

lemma bucket_facts:
  assumes "buckets_ok c len ptrs bss" "i < length bss" "x \<in> set (bss ! i)"
  shows "x \<in> dom (lc_mem c) \<and> x < lc_fresh c \<and> bucket len (hash_of (lc_mem c) x) = i"
proof -
  have "x \<in> set (concat bss)" using bucket_subset [OF assms(2)] assms(3) by blast
  then show ?thesis using assms unfolding buckets_ok_def by blast
qed

lemma slot_valid:
  assumes "buckets_ok c len (ht_list c) bss" "i < length bss" "bss ! i = pre @ post"
  shows "if pre = [] then i < length (ht_list c) else last pre \<in> dom (lc_mem c)"
proof -
  have "set pre \<subseteq> set (bss ! i)" using assms(3) by simp
  also have "\<dots> \<subseteq> set (concat bss)" by (rule bucket_subset [OF assms(2)])
  also have "\<dots> \<subseteq> dom (lc_mem c)" using assms(1) unfolding buckets_ok_def by blast
  finally have "pre \<noteq> [] \<Longrightarrow> last pre \<in> dom (lc_mem c)" using last_in_set by blast
  then show ?thesis using assms(1,2) by (simp add: buckets_ok_def)
qed

lemma chain_rest:
  assumes "buckets_ok c len ptrs bss" "i < length bss" "bss ! i = pre @ e # post"
  shows "nh (lc_mem c) e = first_of post" "chain (nh (lc_mem c)) (first_of post) post" "e \<noteq> 0"
proof -
  have "chain (nh (lc_mem c)) (ptrs ! i) (pre @ e # post)" using assms by (simp add: buckets_ok_def) metis
  from chain_suffix [OF this] show "e \<noteq> 0" "nh (lc_mem c) e = first_of post" "chain (nh (lc_mem c)) (first_of post) post"
    using chain_first [of _ "nh (lc_mem c) e" post] by auto
qed

lemma HandleTable_Remove_ok:
  assumes "table_ok c bss"
  shows "\<exists>e c' bss'. HandleTable_Remove key hash c = Ret (e, c') \<and> table_frame c c' \<and> table_ok c' bss' \<and>
    (if e = 0 then c' = c \<and> bss' = bss \<and> (\<forall>x\<in>set (concat bss). \<not> matches (lc_mem c) key hash x)
     else matches (lc_mem c) key hash e \<and> mset (concat bss) = add_mset e (mset (concat bss')))"
proof -
  define i pre post where "i = bucket (ht_length c) hash" and "pre = takeWhile (\<lambda>e. \<not> matches (lc_mem c) key hash e) (bss ! i)"
    and "post = dropWhile (\<lambda>e. \<not> matches (lc_mem c) key hash e) (bss ! i)"
  note f = FindPointer_ok(1,2) [OF assms, where key = key and hash = hash, folded i_def, folded pre_def post_def]
    FindPointer_ok(3) [OF assms, where hash = hash, folded i_def] FindPointer_ok(4) [OF assms, where key = key and hash = hash, folded i_def, folded pre_def post_def]
  note fi = found_iff [OF assms, where key = key and hash = hash, folded i_def, folded post_def]
  have t: "buckets_ok c (ht_length c) (ht_list c) bss" "unat (ht_elems c) = length (concat bss)" using assms by (simp_all add: table_ok_def)
  show ?thesis
  proof (cases post)
    case Nil
    then have "HandleTable_Remove key hash c = Ret (0, c)" using f(1,2) by (simp add: HandleTable_Remove_def)
    moreover have "\<forall>x\<in>set (concat bss). \<not> matches (lc_mem c) key hash x" using fi(2) Nil by simp
    ultimately show ?thesis using assms table_frame_refl [of c] by auto
  next
    case (Cons e post')
    then have bi: "bss ! i = pre @ e # post'" using f(4) by simp
    note r = chain_rest [OF t(1) f(3) bi]
    have m: "e \<in> set (concat bss)" "matches (lc_mem c) key hash e" using fi(1) r(3) Cons by simp_all
    obtain h where h: "lc_mem c e = Some h" using m(1) t(1) by (auto simp: buckets_ok_def)
    then have hn: "lh_next_hash h = first_of post'" using r(1) by (simp add: nh_def)
    obtain c1 where c1: "write_slot (slot_at (Bucket i) pre) (first_of post') c = Ret c1" "table_frame c c1"
      "nh (lc_mem c1) = (if pre = [] then nh (lc_mem c) else (nh (lc_mem c))(last pre := first_of post'))"
      "ht_list c1 = (if pre = [] then (ht_list c)[i := first_of post'] else ht_list c)" "ht_length c1 = ht_length c" "ht_elems c1 = ht_elems c"
      using write_slot_ok [OF slot_valid [OF t(1) f(3,4)]] by blast
    have ms: "mset (concat bss) = add_mset e (mset (concat (bss[i := pre @ post'])))"
      using mset_concat_update [OF f(3), of "pre @ post'"] bi by simp
    have d: "distinct (concat bss)" using t(1) by (simp add: buckets_ok_def)
    then have d': "distinct (concat (bss[i := pre @ post']))" using ms by (metis distinct.simps(2) mset.simps(2) mset_eq_imp_distinct_iff)
    have dp: "distinct (pre @ e # post')" using bucket_distinct [OF d f(3)] bi by simp
    have "buckets_ok c1 (ht_length c) (ht_list c1) (bss[i := pre @ post'])"
    proof (rule buckets_replace [OF t(1) f(3) bi])
      show "core (lc_mem c1) = core (lc_mem c)" "lc_fresh c1 = lc_fresh c" using c1(2) by (simp_all add: table_frame_def)
      show "nh (lc_mem c1) (last pre) = first_of post'" if "pre \<noteq> []" using that c1(3) by simp
      show "nh (lc_mem c1) x = nh (lc_mem c) x" if "pre = [] \<or> x \<noteq> last pre" for x using that c1(3) by auto
      show "ht_list c1 = (if pre = [] then (ht_list c)[i := first_of post'] else ht_list c)" by (rule c1(4))
      have "pre \<noteq> [] \<Longrightarrow> last pre \<notin> set post'" using dp last_in_set [of pre] by (auto simp del: last_in_set)
      then have "\<And>x. x \<in> set post' \<Longrightarrow> nh (lc_mem c1) x = nh (lc_mem c) x" using c1(3) by auto
      then show "chain (nh (lc_mem c1)) (first_of post') post'" using r(2) chain_cong [of post'] by blast
      show "distinct (concat (bss[i := pre @ post']))" by (rule d')
      show "x \<in> dom (lc_mem c) \<and> x < lc_fresh c \<and> bucket (ht_length c) (hash_of (lc_mem c) x) = i" if "x \<in> set post'" for x
        using bucket_facts [OF t(1) f(3)] that bi by simp
    qed
    moreover have "length (concat bss) = Suc (length (concat (bss[i := pre @ post'])))" using arg_cong [OF ms, of size] by simp
    then have "unat (ht_elems c1 - 1) = length (concat (bss[i := pre @ post']))"
      using t(2) c1(6) by (metis diff_Suc_1 unat_minus_one Zero_not_Suc unat_0)
    ultimately have "table_ok (c1\<lparr>ht_elems := ht_elems c1 - 1\<rparr>) (bss[i := pre @ post'])"
      using assms c1(2,5) by (simp add: table_ok_def buckets_ok_def table_frame_def)
    moreover have "HandleTable_Remove key hash c = Ret (e, c1\<lparr>ht_elems := ht_elems c1 - 1\<rparr>)"
      using f(1,2) Cons r(3) h hn c1(1) by (simp add: HandleTable_Remove_def get_def)
    moreover have "table_frame c (c1\<lparr>ht_elems := ht_elems c1 - 1\<rparr>)" using c1(2) by (simp add: table_frame_def)
    ultimately show ?thesis using r(3) m(2) ms
      by (intro exI [of _ e] exI [of _ "c1\<lparr>ht_elems := ht_elems c1 - 1\<rparr>"] exI [of _ "bss[i := pre @ post']"]) simp
  qed
qed

section \<open>Resizing\<close>

lemma new_length_ok:
  assumes "k \<le> 31" "31 - k < fuel" "elems \<le> 2 ^ 31"
  shows "\<exists>len. new_length_loop fuel (2 ^ k) elems = Ret len \<and> len \<noteq> 0"
  using assms(1,2)
proof (induction "31 - k" arbitrary: k fuel)
  case 0
  then have "k = 31" by simp
  moreover have "\<not> 2 ^ 31 < elems" using assms(3) by (simp only: not_less)
  ultimately show ?case using 0 by (cases fuel) simp_all
next
  case (Suc n)
  obtain f where f: "fuel = Suc f" "31 - Suc k < f" using Suc.hyps(2) Suc.prems(2) by (cases fuel) simp_all
  have "Suc k \<le> 31" "n = 31 - Suc k" using Suc.hyps(2) by simp_all
  from Suc.hyps(1) [OF this(2,1) f(2)] have "\<exists>len. new_length_loop f (2 ^ k * 2) elems = Ret len \<and> len \<noteq> 0" by (simp add: mult.commute)
  moreover have "(2 :: u32) ^ k \<noteq> 0" using Suc.prems(1) by simp
  ultimately show ?case unfolding f(1) new_length_loop.simps by simp
qed

lemma Resize_chain_ok:
  assumes "len \<noteq> 0" "chain (nh (lc_mem c)) h es" "distinct (es @ concat nbs)" "\<forall>e\<in>set es. e \<in> dom (lc_mem c) \<and> e < lc_fresh c"
    and "length es < fuel" "buckets_ok c len new_list nbs"
  shows "\<exists>nl c' nbs'. Resize_chain fuel len h new_list c = Ret (nl, c') \<and> table_frame c c' \<and> ht_elems c' = ht_elems c \<and> buckets_ok c' len nl nbs' \<and>
    mset (concat nbs') = mset es + mset (concat nbs) \<and> (\<forall>x. x \<notin> set es \<longrightarrow> nh (lc_mem c') x = nh (lc_mem c) x)"
  using assms(2-)
proof (induction es arbitrary: h nbs new_list c fuel)
  case Nil
  then show ?case using table_frame_refl [of c] by (cases fuel) auto
next
  case (Cons e es)
  obtain f where f: "fuel = Suc f" "length es < f" using Cons.prems(4) by (cases fuel) simp_all
  obtain x where x: "lc_mem c e = Some x" using Cons.prems(3) by auto
  define i where "i = bucket len (lh_hash x)"
  have b: "length new_list = unat len" "length nbs = unat len" using Cons.prems(5) by (simp_all add: buckets_ok_def)
  have i: "i < length new_list" "i < length nbs" using bucket_less [OF assms(1), of "lh_hash x"] b by (simp_all add: i_def)
  have hx: "bucket len (hash_of (lc_mem c) e) = i" by (simp add: hash_of_def x i_def)
  obtain c1 where c1: "modify e (\<lambda>x. x\<lparr>lh_next_hash := new_list ! i\<rparr>) c = Ret c1" "table_frame c c1" "nh (lc_mem c1) = (nh (lc_mem c))(e := new_list ! i)"
    "ht_elems c1 = ht_elems c" using next_hash_ok [of e c "new_list ! i"] x by auto
  have fr: "core (lc_mem c1) = core (lc_mem c)" "lc_fresh c1 = lc_fresh c" using c1(2) by (simp_all add: table_frame_def)
  have ne: "e \<notin> set es" "e \<notin> set (concat nbs)" using Cons.prems(2) by auto
  have ms: "mset (concat (nbs[i := e # nbs ! i])) = add_mset e (mset (concat nbs))"
    using mset_concat_update [OF i(2), of "e # nbs ! i"] by simp
  have d: "distinct (concat (nbs[i := e # nbs ! i]))" "distinct (es @ concat (nbs[i := e # nbs ! i]))"
  proof -
    have "distinct (e # concat nbs)" using Cons.prems(2) by auto
    then show "distinct (concat (nbs[i := e # nbs ! i]))" using ms by (metis mset.simps(2) mset_eq_imp_distinct_iff)
    have "mset (es @ concat (nbs[i := e # nbs ! i])) = mset ((e # es) @ concat nbs)" using ms by simp
    then show "distinct (es @ concat (nbs[i := e # nbs ! i]))" using Cons.prems(2) by (metis mset_eq_imp_distinct_iff)
  qed
  have bi: "chain (nh (lc_mem c)) (new_list ! i) (nbs ! i)" "e \<notin> set (nbs ! i)"
    using Cons.prems(5) i(2) ne(2) bucket_subset [OF i(2)] unfolding buckets_ok_def by blast+
  have B: "buckets_ok c1 len (new_list[i := e]) (nbs[i := [] @ (e # nbs ! i)])"
  proof (rule buckets_replace [OF Cons.prems(5) i(2), of "[]" "nbs ! i"])
    show "nh (lc_mem c1) y = nh (lc_mem c) y" if "y \<in> set (concat nbs)" for y using that ne(2) c1(3) by auto
    have "chain (nh (lc_mem c1)) (new_list ! i) (nbs ! i)" unfolding c1(3) using bi chain_update by blast
    then show "chain (nh (lc_mem c1)) e (e # nbs ! i)" using Cons.prems(1) c1(3) by simp
    show "distinct (concat (nbs[i := [] @ (e # nbs ! i)]))" using d(1) by simp
    show "y \<in> dom (lc_mem c) \<and> y < lc_fresh c \<and> bucket len (hash_of (lc_mem c) y) = i" if "y \<in> set (e # nbs ! i)" for y
      using that Cons.prems(3) hx bucket_facts [OF Cons.prems(5) i(2)] by auto
  qed (use fr in simp_all)
  have ch: "chain (nh (lc_mem c1)) (nh (lc_mem c) e) es" unfolding c1(3) chain_update [OF ne(1)] using Cons.prems(1) by simp
  have "\<forall>y\<in>set es. y \<in> dom (lc_mem c1) \<and> y < lc_fresh c1" using Cons.prems(3) core_dom [OF fr(1)] fr(2) by simp
  from Cons.IH [OF ch d(2) this f(2) B [unfolded append_Nil]] obtain nl c' nbs' where
    r: "Resize_chain f len (nh (lc_mem c) e) (new_list[i := e]) c1 = Ret (nl, c')" "table_frame c1 c'" "ht_elems c' = ht_elems c1" "buckets_ok c' len nl nbs'"
    "mset (concat nbs') = mset es + mset (concat (nbs[i := e # nbs ! i]))" "\<forall>y. y \<notin> set es \<longrightarrow> nh (lc_mem c') y = nh (lc_mem c1) y" by blast
  have "Resize_chain fuel len h new_list c = Ret (nl, c')"
    using r(1) x i(1) c1(1) Cons.prems(1) f(1) by (simp add: get_def i_def [unfolded bucket_def] nh_def)
  then show ?case using r(2-6) table_frame_trans [OF c1(2) r(2)] c1(3,4) ms by (intro exI [of _ nl] exI [of _ c'] exI [of _ nbs']) simp
qed

lemma Resize_loop_ok:
  assumes "len \<noteq> 0" "length hs = length bss" "\<forall>i < length bss. chain (nh (lc_mem c)) (hs ! i) (bss ! i)" "distinct (concat bss @ concat nbs)"
    and "\<forall>e\<in>set (concat bss). e \<in> dom (lc_mem c) \<and> e < lc_fresh c" "buckets_ok c len new_list nbs" "0 < lc_fresh c"
  shows "\<exists>nl c' nbs'. Resize_loop len hs new_list c = Ret (nl, c') \<and> table_frame c c' \<and> ht_elems c' = ht_elems c \<and> buckets_ok c' len nl nbs' \<and>
    mset (concat nbs') = mset (concat bss) + mset (concat nbs)"
  using assms(2-)
proof (induction bss arbitrary: hs nbs new_list c)
  case Nil
  then show ?case using table_frame_refl [of c] by auto
next
  case (Cons b bss)
  obtain h hs' where hs: "hs = h # hs'" "length hs' = length bss" using Cons.prems(1) by (cases hs) simp_all
  have ch: "chain (nh (lc_mem c)) h b" "\<forall>i < length bss. chain (nh (lc_mem c)) (hs' ! i) (bss ! i)" using Cons.prems(2) hs by auto
  have b: "distinct (b @ concat nbs)" "\<forall>e\<in>set b. e \<in> dom (lc_mem c) \<and> e < lc_fresh c" "distinct b" "set b \<inter> set (concat bss) = {}"
    using Cons.prems(3,4) by auto
  have "length b < lc_fresh c" using chain_fuel [OF b(3) _ chain_nonzero [OF ch(1)] Cons.prems(6)] b(2) by blast
  from Resize_chain_ok [OF assms(1) ch(1) b(1,2) this Cons.prems(5)] obtain nl1 c1 nbs1 where
    r: "Resize_chain (lc_fresh c) len h new_list c = Ret (nl1, c1)" "table_frame c c1" "ht_elems c1 = ht_elems c" "buckets_ok c1 len nl1 nbs1"
    "mset (concat nbs1) = mset b + mset (concat nbs)" "\<forall>x. x \<notin> set b \<longrightarrow> nh (lc_mem c1) x = nh (lc_mem c) x" by blast
  have fr: "core (lc_mem c1) = core (lc_mem c)" "lc_fresh c1 = lc_fresh c" using r(2) by (simp_all add: table_frame_def)
  have 1: "\<forall>i < length bss. chain (nh (lc_mem c1)) (hs' ! i) (bss ! i)"
  proof (intro allI impI)
    fix i assume i: "i < length bss"
    have "\<And>x. x \<in> set (bss ! i) \<Longrightarrow> nh (lc_mem c1) x = nh (lc_mem c) x" using r(6) b(4) bucket_subset [OF i] by blast
    then show "chain (nh (lc_mem c1)) (hs' ! i) (bss ! i)" using ch(2) i chain_cong [of "bss ! i"] by blast
  qed
  have "mset (concat bss @ concat nbs1) = mset (concat (b # bss) @ concat nbs)" using r(5) by simp
  then have 2: "distinct (concat bss @ concat nbs1)" using Cons.prems(3) by (metis mset_eq_imp_distinct_iff)
  have 3: "\<forall>e\<in>set (concat bss). e \<in> dom (lc_mem c1) \<and> e < lc_fresh c1" using Cons.prems(4) core_dom [OF fr(1)] fr(2) by simp
  from Cons.IH [OF hs(2) 1 2 3 r(4)] Cons.prems(6) fr(2) obtain nl c' nbs' where
    s: "Resize_loop len hs' nl1 c1 = Ret (nl, c')" "table_frame c1 c'" "ht_elems c' = ht_elems c1" "buckets_ok c' len nl nbs'"
    "mset (concat nbs') = mset (concat bss) + mset (concat nbs1)" by auto
  then show ?case using r(1,3,5) table_frame_trans [OF r(2) s(2)] hs(1) by (intro exI [of _ nl] exI [of _ c'] exI [of _ nbs']) simp
qed

lemma Resize_ok:
  assumes "buckets_ok c (ht_length c) (ht_list c) bss" "unat (ht_elems c) = length (concat bss)" "0 < lc_fresh c" "ht_elems c \<le> 2 ^ 31"
  shows "\<exists>c' bss'. Resize c = Ret c' \<and> table_frame c c' \<and> table_ok c' bss' \<and> mset (concat bss') = mset (concat bss)"
proof -
  have "\<exists>len. new_length_loop 40 (2 ^ 2) (ht_elems c) = Ret len \<and> len \<noteq> 0" by (rule new_length_ok) (use assms(4) in simp_all)
  then obtain len where len: "new_length_loop 40 4 (ht_elems c) = Ret len" "len \<noteq> 0" by auto
  have e: "concat (replicate n []) = []" for n by (induction n) simp_all
  have b0: "buckets_ok c len (replicate (unat len) 0) (replicate (unat len) [])" by (simp add: buckets_ok_def e)
  have h: "length (ht_list c) = length bss" "\<forall>i < length bss. chain (nh (lc_mem c)) (ht_list c ! i) (bss ! i)"
    "distinct (concat bss @ concat (replicate (unat len) []))" "\<forall>e\<in>set (concat bss). e \<in> dom (lc_mem c) \<and> e < lc_fresh c"
    using assms(1) unfolding buckets_ok_def e by auto
  from Resize_loop_ok [OF len(2) h b0 assms(3)] obtain nl c' nbs where
    r: "Resize_loop len (ht_list c) (replicate (unat len) 0) c = Ret (nl, c')" "table_frame c c'" "ht_elems c' = ht_elems c" "buckets_ok c' len nl nbs"
    "mset (concat nbs) = mset (concat bss)" by (auto simp: e)
  have l: "length (concat nbs) = length (concat bss)" using arg_cong [OF r(5), of size] by simp
  have "table_ok (c'\<lparr>ht_list := nl, ht_length := len\<rparr>) nbs"
    using r(2-4) len(2) assms(2,3) l by (simp add: table_ok_def buckets_ok_def table_frame_def)
  moreover have "Resize c = Ret (c'\<lparr>ht_list := nl, ht_length := len\<rparr>)" using len(1) r(1) by (simp add: Resize_def)
  ultimately show ?thesis using r(2,5) by (intro exI [of _ "c'\<lparr>ht_list := nl, ht_length := len\<rparr>"] exI [of _ nbs]) (simp add: table_frame_def)
qed

section \<open>Inserting\<close>

text \<open>The chain with the new entry at the place of an old one with its key, or at the end.\<close>

lemma splice_ok:
  assumes "buckets_ok c len (ht_list c) bss" "i < length bss" "bss ! i = pre @ post" "h \<notin> set (concat bss)" "h \<noteq> 0"
    and "h \<in> dom (lc_mem c)" "h < lc_fresh c" "bucket len (hash_of (lc_mem c) h) = i"
  shows "\<exists>c1 c2. modify h (\<lambda>x. x\<lparr>lh_next_hash := first_of (tl post)\<rparr>) c = Ret c1 \<and> write_slot (slot_at (Bucket i) pre) h c1 = Ret c2 \<and>
    table_frame c c2 \<and> ht_length c2 = ht_length c \<and> ht_elems c2 = ht_elems c \<and> buckets_ok c2 len (ht_list c2) (bss[i := pre @ h # tl post])"
proof -
  obtain c1 where c1: "modify h (\<lambda>x. x\<lparr>lh_next_hash := first_of (tl post)\<rparr>) c = Ret c1" "table_frame c c1"
    "nh (lc_mem c1) = (nh (lc_mem c))(h := first_of (tl post))" "ht_list c1 = ht_list c" "ht_length c1 = ht_length c" "ht_elems c1 = ht_elems c"
    using next_hash_ok [OF assms(6)] by blast
  have dom1: "dom (lc_mem c1) = dom (lc_mem c)" using c1(2) core_dom by (simp add: table_frame_def) blast
  have "if pre = [] then i < length (ht_list c1) else last pre \<in> dom (lc_mem c1)" using slot_valid [OF assms(1-3)] c1(4) dom1 by simp
  from write_slot_ok [OF this, of h] obtain c2 where c2: "write_slot (slot_at (Bucket i) pre) h c1 = Ret c2" "table_frame c1 c2"
    "nh (lc_mem c2) = (if pre = [] then nh (lc_mem c1) else (nh (lc_mem c1))(last pre := h))"
    "ht_list c2 = (if pre = [] then (ht_list c1)[i := h] else ht_list c1)" "ht_length c2 = ht_length c1" "ht_elems c2 = ht_elems c1" by blast
  have fr: "table_frame c c2" by (rule table_frame_trans [OF c1(2) c2(2)])
  have d: "distinct (concat bss)" using assms(1) by (simp add: buckets_ok_def)
  have dp: "distinct (pre @ post)" using bucket_distinct [OF d assms(2)] assms(3) by simp
  have hn: "h \<notin> set pre" "h \<notin> set post" using assms(3,4) bucket_subset [OF assms(2)] by auto
  have sub: "set (tl post) \<subseteq> set post" by (cases post) auto
  have lp: "pre \<noteq> [] \<Longrightarrow> last pre \<noteq> h \<and> last pre \<notin> set (tl post)" using hn(1) dp sub last_in_set [of pre] by (auto simp del: last_in_set)
  have dis: "distinct (concat (bss[i := pre @ h # tl post]))"
  proof -
    have "mset (concat (bss[i := pre @ h # tl post])) + mset post = add_mset h (mset (concat bss) + mset (tl post))"
      using mset_concat_update [OF assms(2), of "pre @ h # tl post"] assms(3) by simp
    then have "mset (take 1 post @ concat (bss[i := pre @ h # tl post])) = mset (h # concat bss)" by (cases post) simp_all
    moreover have "distinct (h # concat bss)" using d assms(4) by simp
    ultimately have "distinct (take 1 post @ concat (bss[i := pre @ h # tl post]))" by (metis mset_eq_imp_distinct_iff)
    then show ?thesis by simp
  qed
  have n2: "nh (lc_mem c2) y = (if pre \<noteq> [] \<and> y = last pre then h else if y = h then first_of (tl post) else nh (lc_mem c) y)" for y
    using c1(3) c2(3) by simp
  have "buckets_ok c2 len (ht_list c2) (bss[i := pre @ h # tl post])"
  proof (rule buckets_replace [OF assms(1-3)])
    show "core (lc_mem c2) = core (lc_mem c)" "lc_fresh c2 = lc_fresh c" using fr by (simp_all add: table_frame_def)
    show "nh (lc_mem c2) x = nh (lc_mem c) x" if x: "x \<in> set (concat bss)" "pre = [] \<or> x \<noteq> last pre" for x
    proof -
      have "x \<noteq> h" using x(1) assms(4) by blast
      then show ?thesis using x(2) by (auto simp: n2)
    qed
    show "nh (lc_mem c2) (last pre) = h" if "pre \<noteq> []" using that by (simp add: n2)
    show "ht_list c2 = (if pre = [] then (ht_list c)[i := h] else ht_list c)" using c1(4) c2(4) by simp
    have "chain (nh (lc_mem c)) (first_of (tl post)) (tl post)"
      using chain_rest(2) [OF assms(1,2)] assms(3) by (cases post) auto
    then have "chain (nh (lc_mem c2)) (first_of (tl post)) (tl post)"
      using lp hn(2) sub by (subst chain_cong [of "tl post" "nh (lc_mem c2)" "nh (lc_mem c)"]) (auto simp: n2)
    moreover have "nh (lc_mem c2) h = first_of (tl post)" using lp by (auto simp: n2)
    ultimately show "chain (nh (lc_mem c2)) h (h # tl post)" using assms(5) by simp
    show "distinct (concat (bss[i := pre @ h # tl post]))" by (rule dis)
    show "x \<in> dom (lc_mem c) \<and> x < lc_fresh c \<and> bucket len (hash_of (lc_mem c) x) = i" if "x \<in> set (h # tl post)" for x
      using that assms(3,6-8) sub bucket_facts [OF assms(1,2)] by auto
  qed
  then show ?thesis using c1(1,5,6) c2(1,5,6) fr by auto
qed

lemma HandleTable_Insert_ok:
  assumes "table_ok c bss" "h \<notin> set (concat bss)" "h \<noteq> 0" "h \<in> dom (lc_mem c)" "h < lc_fresh c" "length (concat bss) < 2 ^ 31"
  shows "\<exists>old c' bss'. HandleTable_Insert h c = Ret (old, c') \<and> table_frame c c' \<and> table_ok c' bss' \<and>
    (if old = 0 then (\<forall>x\<in>set (concat bss). \<not> matches (lc_mem c) (key_of (lc_mem c) h) (hash_of (lc_mem c) h) x) \<and>
       mset (concat bss') = add_mset h (mset (concat bss))
     else old \<in> set (concat bss) \<and> matches (lc_mem c) (key_of (lc_mem c) h) (hash_of (lc_mem c) h) old \<and> add_mset old (mset (concat bss')) = add_mset h (mset (concat bss)))"
proof -
  obtain x where x: "lc_mem c h = Some x" using assms(4) by auto
  define i pre post where "i = bucket (ht_length c) (lh_hash x)" and "pre = takeWhile (\<lambda>e. \<not> matches (lc_mem c) (lh_key x) (lh_hash x) e) (bss ! i)"
    and "post = dropWhile (\<lambda>e. \<not> matches (lc_mem c) (lh_key x) (lh_hash x) e) (bss ! i)"
  note f = FindPointer_ok(1,2) [OF assms(1), where key = "lh_key x" and hash = "lh_hash x", folded i_def, folded pre_def post_def]
    FindPointer_ok(3) [OF assms(1), where hash = "lh_hash x", folded i_def]
    FindPointer_ok(4) [OF assms(1), where key = "lh_key x" and hash = "lh_hash x", folded i_def, folded pre_def post_def]
  note fi = found_iff [OF assms(1), where key = "lh_key x" and hash = "lh_hash x", folded i_def, folded post_def]
  have hk: "key_of (lc_mem c) h = lh_key x" "hash_of (lc_mem c) h = lh_hash x" by (simp_all add: key_of_def hash_of_def x)
  have t: "buckets_ok c (ht_length c) (ht_list c) bss" "unat (ht_elems c) = length (concat bss)" "0 < lc_fresh c" using assms(1) by (simp_all add: table_ok_def)
  from splice_ok [OF t(1) f(3,4) assms(2,3,4,5)] obtain c1 c2 where
    c1: "modify h (\<lambda>x. x\<lparr>lh_next_hash := first_of (tl post)\<rparr>) c = Ret c1" and c2: "write_slot (slot_at (Bucket i) pre) h c1 = Ret c2" "table_frame c c2"
    "ht_length c2 = ht_length c" "ht_elems c2 = ht_elems c" "buckets_ok c2 (ht_length c) (ht_list c2) (bss[i := pre @ h # tl post])"
    by (auto simp: hk i_def)
  have ms: "mset (concat (bss[i := pre @ h # tl post])) + mset post = add_mset h (mset (concat bss) + mset (tl post))"
    using mset_concat_update [OF f(3), of "pre @ h # tl post"] f(4) by simp
  show ?thesis
  proof (cases post)
    case Nil
    let ?c = "c2\<lparr>ht_elems := ht_elems c2 + 1\<rparr>"
    have m: "mset (concat (bss[i := pre @ h # tl post])) = add_mset h (mset (concat bss))" using ms Nil by simp
    then have l: "length (concat (bss[i := pre @ h # tl post])) = Suc (length (concat bss))" by (metis size_add_mset size_mset)
    have el: "unat (ht_elems ?c) = Suc (length (concat bss))" using t(2) c2(4) assms(6) by (simp add: unat_word_ariths)
    have bk: "buckets_ok ?c (ht_length ?c) (ht_list ?c) (bss[i := pre @ h # tl post])" using c2(3,5) by (simp add: buckets_ok_def)
    have frc: "table_frame c ?c" using c2(2) by (simp add: table_frame_def)
    have "\<exists>c' bss'. (if ht_elems ?c > ht_length ?c then Resize ?c else Ret ?c) = Ret c' \<and> table_frame ?c c' \<and> table_ok c' bss' \<and>
      mset (concat bss') = mset (concat (bss[i := pre @ h # tl post]))"
    proof (cases "ht_elems ?c > ht_length ?c")
      case True
      have "ht_elems ?c \<le> 2 ^ 31" using el assms(6) by (simp add: word_le_nat_alt)
      with Resize_ok [OF bk] el l t(3) c2(2) True show ?thesis by (simp add: table_frame_def)
    next
      case False
      have "table_ok ?c (bss[i := pre @ h # tl post])" using bk el l t(3) assms(1) c2(2,3) by (simp add: table_ok_def table_frame_def)
      then show ?thesis using False table_frame_refl [of ?c] by auto
    qed
    then obtain c' bss' where r: "(if ht_elems ?c > ht_length ?c then Resize ?c else Ret ?c) = Ret c'" "table_frame ?c c'" "table_ok c' bss'"
      "mset (concat bss') = mset (concat (bss[i := pre @ h # tl post]))" by blast
    have "HandleTable_Insert h c = Ret (0, c')"
      using x f(1,2) Nil c1 c2(1) r(1) by (simp add: HandleTable_Insert_def get_def)
    moreover have "\<forall>y\<in>set (concat bss). \<not> matches (lc_mem c) (lh_key x) (lh_hash x) y" using fi(2) Nil by simp
    ultimately show ?thesis using r(3,4) m table_frame_trans [OF frc r(2)] unfolding hk
      by (intro exI [of _ 0] exI [of _ c'] exI [of _ bss']) simp
  next
    case (Cons old post')
    then have bi: "bss ! i = pre @ old # post'" using f(4) by simp
    note r = chain_rest [OF t(1) f(3) bi]
    have m: "old \<in> set (concat bss)" "matches (lc_mem c) (lh_key x) (lh_hash x) old" using fi(1) r(3) Cons by simp_all
    obtain y where y: "lc_mem c old = Some y" using m(1) t(1) by (auto simp: buckets_ok_def)
    then have hn: "lh_next_hash y = first_of (tl post)" using r(1) Cons by (simp add: nh_def)
    have ms': "add_mset old (mset (concat (bss[i := pre @ h # tl post]))) = add_mset h (mset (concat bss))" using ms Cons by simp
    then have l: "length (concat (bss[i := pre @ h # tl post])) = length (concat bss)" by (metis size_add_mset size_mset Suc_inject)
    have "HandleTable_Insert h c = Ret (old, c2)"
      using x f(1,2) Cons r(3) y hn c1 c2(1) by (simp add: HandleTable_Insert_def get_def)
    moreover have "table_ok c2 (bss[i := pre @ h # tl post])" using c2 l t(2,3) assms(1) by (simp add: table_ok_def table_frame_def)
    ultimately show ?thesis using ms' m r(3) c2(2) unfolding hk
      by (intro exI [of _ old] exI [of _ c2] exI [of _ "bss[i := pre @ h # tl post]"]) simp
  qed
qed

end
