(* ===== verification/Lru_Refs.thy ===== *)
theory Lru_Refs
  imports Lru_Table
begin

text \<open>
  The two lists of the cache together: the invariant that ties them to the reference counts and to
  the handles that clients hold, and the ledger of the entries that were made.
\<close>

section \<open>Two rings\<close>

definition rings :: "'v heap \<Rightarrow> nat \<Rightarrow> nat list \<Rightarrow> nat \<Rightarrow> nat list \<Rightarrow> bool" where
  "rings m a xs b ys \<longleftrightarrow> ring (nx m) (pv m) a xs \<and> ring (nx m) (pv m) b ys \<and> distinct (a # b # xs @ ys) \<and> set (a # b # xs @ ys) \<subseteq> dom m"

lemma rings_sym: "rings m a xs b ys \<longleftrightarrow> rings m b ys a xs"
  by (auto simp: rings_def)

lemma Remove_rings:
  assumes "rings (lc_mem c) a (as @ e # bs) b ys"
  shows "\<exists>m. LRU_Remove e c = Ret (c\<lparr>lc_mem := m\<rparr>) \<and> rings m a (as @ bs) b ys \<and> nh m = nh (lc_mem c) \<and> core m = core (lc_mem c)"
proof -
  let ?n = "nx (lc_mem c)" and ?p = "pv (lc_mem c)"
  have r: "ring ?n ?p a (as @ e # bs)" "ring ?n ?p b ys" "distinct (a # b # (as @ e # bs) @ ys)" "set (a # b # (as @ e # bs) @ ys) \<subseteq> dom (lc_mem c)"
    using assms by (simp_all add: rings_def)
  have l: "links ?n ?p a as e" "links ?n ?p e bs a" using r(1) by (simp_all add: links_append)
  have pe: "?p e \<in> set (a # as)" using links_last [OF l(1)] last_mem [of a as] by simp
  have ne: "?n e \<in> set (a # bs)" using links_first [OF l(2)] by (cases bs) auto
  have "e \<in> dom (lc_mem c)" "?n e \<in> dom (lc_mem c)" "?p e \<in> dom (lc_mem c)" "?n e \<noteq> e" using r(3,4) pe ne by auto
  from LRU_Remove_ok [OF this] obtain m where m: "LRU_Remove e c = Ret (c\<lparr>lc_mem := m\<rparr>)" "nx m = ?n(?p e := ?n e)" "pv m = ?p(?n e := ?p e)"
    "nh m = nh (lc_mem c)" "core m = core (lc_mem c)" by blast
  have "ring (nx m) (pv m) a (as @ bs)" unfolding m(2,3) using r(1,3) by (intro ring_remove) auto
  moreover have "ring (nx m) (pv m) b ys" unfolding m(2,3) using r(2,3) pe ne by (intro ring_other) auto
  ultimately have "rings m a (as @ bs) b ys" using r(3,4) core_dom [OF m(5)] by (auto simp: rings_def)
  then show ?thesis using m by blast
qed

lemma Append_rings:
  assumes "rings (lc_mem c) a xs b ys" "e \<in> dom (lc_mem c)" "e \<notin> set (a # b # xs @ ys)"
  shows "\<exists>m. LRU_Append b e c = Ret (c\<lparr>lc_mem := m\<rparr>) \<and> rings m a xs b (ys @ [e]) \<and> nh m = nh (lc_mem c) \<and> core m = core (lc_mem c)"
proof -
  let ?n = "nx (lc_mem c)" and ?p = "pv (lc_mem c)"
  have r: "ring ?n ?p a xs" "ring ?n ?p b ys" "distinct (a # b # xs @ ys)" "set (a # b # xs @ ys) \<subseteq> dom (lc_mem c)"
    using assms by (simp_all add: rings_def)
  have pb: "?p b \<in> set (b # ys)" using links_last [OF r(2)] last_mem [of b ys] by simp
  have "b \<in> dom (lc_mem c)" "?p b \<in> dom (lc_mem c)" "e \<noteq> b" "?p b \<noteq> e" using r(4) pb assms(3) by auto
  from LRU_Append_ok [OF assms(2) this] obtain m where m: "LRU_Append b e c = Ret (c\<lparr>lc_mem := m\<rparr>)" "nx m = ?n(e := b, ?p b := e)" "pv m = ?p(e := ?p b, b := e)"
    "nh m = nh (lc_mem c)" "core m = core (lc_mem c)" by blast
  have "ring (nx m) (pv m) b (ys @ [e])" unfolding m(2,3) using r(2,3) assms(3) by (intro ring_append) auto
  moreover have "ring (nx m) (pv m) a xs" unfolding m(2,3) using r(1,3) pb assms(3) by (intro ring_other) auto
  ultimately have "rings m a xs b (ys @ [e])" using r(3,4) core_dom [OF m(5)] assms(2,3) by (auto simp: rings_def)
  then show ?thesis using m by blast
qed

section \<open>The fields of the entries\<close>

text \<open>The fields that stay as they are, and the flag with the reference count.\<close>

definition dat :: "'v heap \<Rightarrow> nat \<Rightarrow> ('v option \<times> u64 \<times> u32 \<times> byte list) option" where
  "dat m e = map_option (\<lambda>h. (lh_value h, lh_charge h, lh_hash h, lh_key h)) (m e)"

definition cnt :: "'v heap \<Rightarrow> nat \<Rightarrow> (bool \<times> u32) option" where
  "cnt m e = map_option (\<lambda>h. (lh_in_cache h, lh_refs h)) (m e)"

lemma core_fields: "core m' = core m \<Longrightarrow> dat m' = dat m \<and> cnt m' = cnt m"
proof -
  assume c: "core m' = core m"
  have "dat m' e = dat m e \<and> cnt m' e = cnt m e" for e
  proof (cases "m e")
    case None
    then have "m' e = None" using c core_None by metis
    then show ?thesis using None by (simp add: dat_def cnt_def)
  next
    case (Some h)
    from core_get [OF fun_cong [OF c] Some] Some show ?thesis by (auto simp: dat_def cnt_def)
  qed
  then show ?thesis by auto
qed

lemma dat_dom: "e \<in> dom m \<longleftrightarrow> dat m e \<noteq> None"
  by (auto simp: dat_def)

lemma dat_hash_key: "dat m e = Some (v, ch, h, k) \<Longrightarrow> hash_of m e = h \<and> key_of m e = k"
  by (auto simp: dat_def hash_of_def key_of_def)

text \<open>An update of the flag and the count of one entry.\<close>

lemma modify_cnt:
  assumes "cnt (lc_mem c) e = Some (b, r)" "\<And>x. lh_value (f x) = lh_value x \<and> lh_charge (f x) = lh_charge x \<and> lh_hash (f x) = lh_hash x \<and> lh_key (f x) = lh_key x \<and>
      lh_next (f x) = lh_next x \<and> lh_prev (f x) = lh_prev x \<and> lh_next_hash (f x) = lh_next_hash x"
    and "\<And>x. lh_in_cache x = b \<Longrightarrow> lh_refs x = r \<Longrightarrow> lh_in_cache (f x) = b' \<and> lh_refs (f x) = r'"
  shows "\<exists>m. modify e f c = Ret (c\<lparr>lc_mem := m\<rparr>) \<and> nx m = nx (lc_mem c) \<and> pv m = pv (lc_mem c) \<and> nh m = nh (lc_mem c) \<and> dat m = dat (lc_mem c) \<and>
    cnt m = (cnt (lc_mem c))(e \<mapsto> (b', r'))"
proof -
  obtain h where h: "lc_mem c e = Some h" "lh_in_cache h = b" "lh_refs h = r" using assms(1) by (auto simp: cnt_def)
  then show ?thesis using assms(2) [of h] assms(3) [of h]
    by (intro exI [of _ "(lc_mem c)(e \<mapsto> f h)"]) (auto simp: modify_def nx_def pv_def nh_def dat_def cnt_def fun_eq_iff)
qed

section \<open>The invariant of the lists\<close>

text \<open>
  \<open>H\<close> are the handles that clients hold, \<open>xs\<close> the entries on the list \<open>lru_\<close> from the oldest to the
  newest, \<open>ys\<close> those on \<open>in_use_\<close>.
\<close>

definition lists_ok :: "'v LRUCache \<Rightarrow> nat multiset \<Rightarrow> nat list \<Rightarrow> nat list \<Rightarrow> bool" where
  "lists_ok c H xs ys \<longleftrightarrow>
     rings (lc_mem c) 1 xs 2 ys \<and> dom (lc_mem c) = {1, 2} \<union> set_mset H \<union> set xs \<union> set ys \<and> 0 \<notin> dom (lc_mem c) \<and> 1 \<notin># H \<and> 2 \<notin># H \<and>
     (\<forall>e\<in>dom (lc_mem c). e < lc_fresh c) \<and>
     (\<forall>e\<in>set_mset H \<union> set xs \<union> set ys.
        cnt (lc_mem c) e = Some (e \<in> set xs \<union> set ys, of_nat (count H e + (if e \<in> set xs \<union> set ys then 1 else 0)))) \<and>
     set xs \<inter> set_mset H = {} \<and> set ys \<subseteq> set_mset H \<and> size H < 2 ^ 31"

lemma lists_okD:
  assumes "lists_ok c H xs ys"
  shows "rings (lc_mem c) 1 xs 2 ys" "dom (lc_mem c) = {1, 2} \<union> set_mset H \<union> set xs \<union> set ys" "0 \<notin> dom (lc_mem c)" "1 \<notin># H" "2 \<notin># H"
    "\<And>e. e \<in> dom (lc_mem c) \<Longrightarrow> e < lc_fresh c"
    "\<And>e. e \<in> set_mset H \<union> set xs \<union> set ys \<Longrightarrow>
       cnt (lc_mem c) e = Some (e \<in> set xs \<union> set ys, of_nat (count H e + (if e \<in> set xs \<union> set ys then 1 else 0)))"
    "set xs \<inter> set_mset H = {}" "set ys \<subseteq> set_mset H" "size H < 2 ^ 31" "distinct (1 # 2 # xs @ ys)"
  using assms unfolding lists_ok_def rings_def by blast+

lemma lists_okI:
  assumes "rings (lc_mem c) 1 xs 2 ys" "dom (lc_mem c) = {1, 2} \<union> set_mset H \<union> set xs \<union> set ys" "0 \<notin> dom (lc_mem c)" "1 \<notin># H" "2 \<notin># H"
    "\<And>e. e \<in> dom (lc_mem c) \<Longrightarrow> e < lc_fresh c"
    "\<And>e. e \<in> set_mset H \<union> set xs \<union> set ys \<Longrightarrow>
       cnt (lc_mem c) e = Some (e \<in> set xs \<union> set ys, of_nat (count H e + (if e \<in> set xs \<union> set ys then 1 else 0)))"
    "set xs \<inter> set_mset H = {}" "set ys \<subseteq> set_mset H" "size H < 2 ^ 31"
  shows "lists_ok c H xs ys"
  unfolding lists_ok_def by (intro conjI ballI assms)

text \<open>What the operations on the lists leave alone: the table, and the data of the entries that are left.\<close>

definition shard_frame :: "'v LRUCache \<Rightarrow> 'v LRUCache \<Rightarrow> bool" where
  "shard_frame c c' \<longleftrightarrow> lc_capacity c' = lc_capacity c \<and> lc_fresh c' = lc_fresh c \<and> ht_length c' = ht_length c \<and> ht_elems c' = ht_elems c \<and> ht_list c' = ht_list c \<and>
     (\<forall>e\<in>dom (lc_mem c'). e \<in> dom (lc_mem c) \<and> nh (lc_mem c') e = nh (lc_mem c) e \<and> dat (lc_mem c') e = dat (lc_mem c) e)"

text \<open>Every entry that was ever made: those that were deleted, and those that live.\<close>

definition entry_of :: "'v heap \<Rightarrow> nat \<Rightarrow> byte list \<times> 'v option" where
  "entry_of m e = (case dat m e of None \<Rightarrow> ([], None) | Some (v, ch, h, k) \<Rightarrow> (k, v))"

definition ledger :: "'v LRUCache \<Rightarrow> (byte list \<times> 'v option) multiset" where
  "ledger c = mset (lc_deleted c) + image_mset (entry_of (lc_mem c)) (mset_set (dom (lc_mem c) - {1, 2}))"

lemma rings_cong: "nx m' = nx m \<Longrightarrow> pv m' = pv m \<Longrightarrow> dom m' = dom m \<Longrightarrow> rings m' a xs b ys = rings m a xs b ys"
  by (simp add: rings_def)

lemma dat_eq_dom: "dat m' = dat m \<Longrightarrow> dom m' = dom m"
  by (metis dat_dom set_eqI)

lemma ledger_same: "dat (lc_mem c') = dat (lc_mem c) \<Longrightarrow> lc_deleted c' = lc_deleted c \<Longrightarrow> ledger c' = ledger c"
  using dat_eq_dom [of "lc_mem c'" "lc_mem c"] by (simp add: ledger_def entry_of_def [abs_def])

lemma count_word: "size H < 2 ^ 31 \<Longrightarrow> unat (of_nat (count H e + b) :: u32) = count H e + b" if "b \<le> 1"
proof -
  assume "size H < 2 ^ 31"
  moreover have "count H e \<le> size H" by (rule count_le_size)
  ultimately have "count H e + b < 2 ^ 32" using that by simp
  then show ?thesis by (simp del: of_nat_add)
qed

lemma finite_heap: "lists_ok c H xs ys \<Longrightarrow> finite (dom (lc_mem c))"
  by (auto simp: lists_ok_def)

lemma ledger_free:
  assumes "finite (dom (lc_mem c))" "e \<in> dom (lc_mem c)" "e \<noteq> 1" "e \<noteq> 2" "lc_mem c' = (lc_mem c)(e := None)"
    and "lc_deleted c' = lc_deleted c @ [entry_of (lc_mem c) e]"
  shows "ledger c' = ledger c"
proof -
  have d: "dom (lc_mem c) - {1, 2} = insert e (dom (lc_mem c') - {1, 2})" "e \<notin> dom (lc_mem c') - {1, 2}" "finite (dom (lc_mem c') - {1, 2})"
    using assms(1-5) by auto
  have "x \<noteq> e \<Longrightarrow> entry_of (lc_mem c') x = entry_of (lc_mem c) x" for x using assms(5) by (simp add: entry_of_def dat_def)
  then have "image_mset (entry_of (lc_mem c')) (mset_set (dom (lc_mem c') - {1, 2})) = image_mset (entry_of (lc_mem c)) (mset_set (dom (lc_mem c') - {1, 2}))"
    using d(2,3) by (intro image_mset_cong) (metis elem_mset_set)
  then show ?thesis using d assms(6) by (simp add: ledger_def)
qed

lemma Ref_ok:
  assumes "lists_ok c H xs ys" "e \<in> set xs \<union> set ys" "size H + 1 < 2 ^ 31"
  shows "\<exists>c'. Cache_Ref e c = Ret c' \<and> lists_ok c' (add_mset e H) (remove1 e xs) (if e \<in> set xs then ys @ [e] else ys) \<and>
    shard_frame c c' \<and> lc_usage c' = lc_usage c \<and> ledger c' = ledger c \<and> dom (lc_mem c') = dom (lc_mem c)"
proof -
  have L: "rings (lc_mem c) 1 xs 2 ys" "dom (lc_mem c) = {1, 2} \<union> set_mset H \<union> set xs \<union> set ys" "set xs \<inter> set_mset H = {}" "set ys \<subseteq> set_mset H" "size H < 2 ^ 31"
    and ce: "cnt (lc_mem c) e = Some (True, of_nat (count H e + 1))" using lists_okD [OF assms(1)] assms(2) by auto
  obtain h where h: "lc_mem c e = Some h" "lh_in_cache h" "lh_refs h = of_nat (count H e + 1)" using ce by (auto simp: cnt_def)
  have dist: "distinct (1 # 2 # xs @ ys)" using L(1) by (simp add: rings_def)
  have one: "lh_refs h = 1 \<longleftrightarrow> e \<in> set xs"
  proof -
    have "lh_refs h = 1 \<longleftrightarrow> count H e + 1 = 1" using count_word [OF _ L(5), of 1 e] h(3) by (metis le_refl unat_1 unsigned_word_eqI)
    also have "\<dots> \<longleftrightarrow> e \<notin># H" by (simp add: not_in_iff)
    finally show ?thesis using assms(2) L(3,4) by auto
  qed
  have "\<exists>m xs' ys'. (if lh_refs h = 1 \<and> lh_in_cache h then bindO (LRU_Remove e c) (LRU_Append 2 e) else Ret c) = Ret (c\<lparr>lc_mem := m\<rparr>) \<and>
      rings m 1 xs' 2 ys' \<and> nh m = nh (lc_mem c) \<and> core m = core (lc_mem c) \<and> xs' = remove1 e xs \<and> ys' = (if e \<in> set xs then ys @ [e] else ys) \<and> set xs' = set xs - {e} \<and> set ys' = insert e (set ys)"
  proof (cases "e \<in> set xs")
    case True
    then obtain as bs where xs: "xs = as @ e # bs" by (meson split_list)
    obtain m1 where m1: "LRU_Remove e c = Ret (c\<lparr>lc_mem := m1\<rparr>)" "rings m1 1 (as @ bs) 2 ys" "nh m1 = nh (lc_mem c)" "core m1 = core (lc_mem c)"
      using Remove_rings L(1) xs by blast
    have ed: "e \<in> dom m1" "e \<notin> set (1 # 2 # (as @ bs) @ ys)" using core_dom [OF m1(4)] h(1) dist xs by auto
    obtain m2 where m2: "LRU_Append 2 e (c\<lparr>lc_mem := m1\<rparr>) = Ret (c\<lparr>lc_mem := m2\<rparr>)" "rings m2 1 (as @ bs) 2 (ys @ [e])" "nh m2 = nh m1" "core m2 = core m1"
      using Append_rings [of "c\<lparr>lc_mem := m1\<rparr>" 1 "as @ bs" 2 ys e] m1(2) ed by auto
    have "remove1 e xs = as @ bs" using xs dist by (simp add: remove1_append)
    then show ?thesis using True one h(2) m1 m2 xs dist by (intro exI [of _ m2] exI [of _ "as @ bs"] exI [of _ "ys @ [e]"]) auto
  next
    case False
    then show ?thesis using one assms(2) L(1) by (intro exI [of _ "lc_mem c"] exI [of _ xs] exI [of _ ys]) (auto simp: remove1_idem)
  qed
  then obtain m xs' ys' where m: "(if lh_refs h = 1 \<and> lh_in_cache h then bindO (LRU_Remove e c) (LRU_Append 2 e) else Ret c) = Ret (c\<lparr>lc_mem := m\<rparr>)"
    "rings m 1 xs' 2 ys'" "nh m = nh (lc_mem c)" "core m = core (lc_mem c)" "xs' = remove1 e xs \<and> ys' = (if e \<in> set xs then ys @ [e] else ys)" "set xs' = set xs - {e}" "set ys' = insert e (set ys)" by blast
  note cf = core_fields [OF m(4)]
  have "cnt (lc_mem (c\<lparr>lc_mem := m\<rparr>)) e = Some (True, of_nat (count H e + 1))" using ce cf by simp
  then obtain m' where m': "modify e (\<lambda>x. x\<lparr>lh_refs := lh_refs x + 1\<rparr>) (c\<lparr>lc_mem := m\<rparr>) = Ret (c\<lparr>lc_mem := m'\<rparr>)" "nx m' = nx m" "pv m' = pv m" "nh m' = nh m" "dat m' = dat m"
    "cnt m' = (cnt m)(e \<mapsto> (True, of_nat (count H e + 1) + 1))"
    using modify_cnt [of "c\<lparr>lc_mem := m\<rparr>" e True "of_nat (count H e + 1)" "\<lambda>x. x\<lparr>lh_refs := lh_refs x + 1\<rparr>" True "of_nat (count H e + 1) + 1"] by auto
  have d: "dom m' = dom (lc_mem c)" using dat_eq_dom m'(5) cf by metis
  have "Cache_Ref e c = Ret (c\<lparr>lc_mem := m'\<rparr>)" using h(1) m(1) m'(1) by (simp add: Cache_Ref_def get_def)
  moreover have "lists_ok (c\<lparr>lc_mem := m'\<rparr>) (add_mset e H) xs' ys'"
  proof -
    have r: "rings m' 1 xs' 2 ys'" using m(2) rings_cong [OF m'(2,3)] d core_dom [OF m(4)] by simp
    have "cnt m' x = Some (x \<in> set xs' \<union> set ys', of_nat (count (add_mset e H) x + (if x \<in> set xs' \<union> set ys' then 1 else 0)))"
      if "x \<in> set_mset (add_mset e H) \<union> set xs' \<union> set ys'" for x
    proof (cases "x = e")
      case True
      then show ?thesis using m'(6) m(7) by simp
    next
      case False
      then have "x \<in> set_mset H \<union> set xs \<union> set ys" "x \<in> set xs' \<union> set ys' \<longleftrightarrow> x \<in> set xs \<union> set ys" using that m(6,7) by auto
      then show ?thesis using lists_okD(7) [OF assms(1), of x] cf m'(6) False by simp
    qed
    moreover have "1 \<notin># add_mset e H" "2 \<notin># add_mset e H" using lists_okD(4,5) [OF assms(1)] dist assms(2) by auto
    moreover have "dom m' = {1, 2} \<union> set_mset (add_mset e H) \<union> set xs' \<union> set ys'" using d L(2) m(6,7) assms(2) by auto
    moreover have "set xs' \<inter> set_mset (add_mset e H) = {}" "set ys' \<subseteq> set_mset (add_mset e H)" using m(6,7) L(3,4) by auto
    ultimately show ?thesis using r d lists_okD(3,6) [OF assms(1)] assms(3) unfolding lists_ok_def by simp
  qed
  moreover have "shard_frame c (c\<lparr>lc_mem := m'\<rparr>)" using d m(3) m'(4,5) cf by (simp add: shard_frame_def)
  moreover have "ledger (c\<lparr>lc_mem := m'\<rparr>) = ledger c" using m'(5) cf by (intro ledger_same) simp_all
  ultimately show ?thesis using m(5) d by (intro exI [of _ "c\<lparr>lc_mem := m'\<rparr>"]) simp
qed

lemma entry_of_get: "m e = Some h \<Longrightarrow> entry_of m e = (lh_key h, lh_value h)"
  by (simp add: entry_of_def dat_def)

text \<open>Decrementing the count of an entry.\<close>

lemma dec_refs:
  assumes "cnt (lc_mem c) e = Some (b, of_nat (Suc n))"
  shows "\<exists>m h. modify e (\<lambda>x. x\<lparr>lh_refs := lh_refs x - 1\<rparr>) c = Ret (c\<lparr>lc_mem := m\<rparr>) \<and> nx m = nx (lc_mem c) \<and> pv m = pv (lc_mem c) \<and> nh m = nh (lc_mem c) \<and>
    dat m = dat (lc_mem c) \<and> cnt m = (cnt (lc_mem c))(e \<mapsto> (b, of_nat n)) \<and> m e = Some h \<and> lh_in_cache h = b \<and> lh_refs h = of_nat n"
proof -
  obtain m where m: "modify e (\<lambda>x. x\<lparr>lh_refs := lh_refs x - 1\<rparr>) c = Ret (c\<lparr>lc_mem := m\<rparr>)" "nx m = nx (lc_mem c)" "pv m = pv (lc_mem c)" "nh m = nh (lc_mem c)"
    "dat m = dat (lc_mem c)" "cnt m = (cnt (lc_mem c))(e \<mapsto> (b, of_nat n))"
    using modify_cnt [of c e b "of_nat (Suc n)" "\<lambda>x. x\<lparr>lh_refs := lh_refs x - 1\<rparr>" b "of_nat n"] assms by auto
  then have "cnt m e = Some (b, of_nat n)" by simp
  then obtain h where "m e = Some h" "lh_in_cache h = b" "lh_refs h = of_nat n" by (auto simp: cnt_def)
  then show ?thesis using m by blast
qed

lemma small_word: "n < 2 ^ 32 \<Longrightarrow> (of_nat n :: u32) = 0 \<longleftrightarrow> n = 0" "n < 2 ^ 32 \<Longrightarrow> (of_nat n :: u32) = 1 \<longleftrightarrow> n = 1"
proof -
  have u: "n < 2 ^ 32 \<Longrightarrow> unat (of_nat n :: u32) = n" by simp
  show "(of_nat n :: u32) = 0 \<longleftrightarrow> n = 0" if "n < 2 ^ 32" using u [OF that] by (metis unat_eq_zero)
  show "(of_nat n :: u32) = 1 \<longleftrightarrow> n = 1" if "n < 2 ^ 32" using u [OF that] by (metis unat_1 unsigned_word_eqI)
qed

text \<open>Freeing an entry that is on no list and that nobody holds.\<close>

lemma free_ok:
  assumes "rings (lc_mem c) 1 xs 2 ys" "dom (lc_mem c) = insert e ({1, 2} \<union> set_mset H \<union> set xs \<union> set ys)" "e \<notin> {1, 2} \<union> set_mset H \<union> set xs \<union> set ys"
    and "0 \<notin> dom (lc_mem c)" "1 \<notin># H" "2 \<notin># H" "\<And>e. e \<in> dom (lc_mem c) \<Longrightarrow> e < lc_fresh c"
    and "\<And>e. e \<in> set_mset H \<union> set xs \<union> set ys \<Longrightarrow>
       cnt (lc_mem c) e = Some (e \<in> set xs \<union> set ys, of_nat (count H e + (if e \<in> set xs \<union> set ys then 1 else 0)))"
    and "set xs \<inter> set_mset H = {}" "set ys \<subseteq> set_mset H" "size H < 2 ^ 31" "lc_mem c e = Some h"
  defines "c' \<equiv> c\<lparr>lc_deleted := lc_deleted c @ [(lh_key h, lh_value h)], lc_mem := (lc_mem c)(e := None)\<rparr>"
  shows "lists_ok c' H xs ys" "shard_frame c c'" "ledger c' = ledger c"
proof -
  have m: "lc_mem c' = (lc_mem c)(e := None)" "lc_fresh c' = lc_fresh c" by (simp_all add: c'_def)
  have d: "dom (lc_mem c') = {1, 2} \<union> set_mset H \<union> set xs \<union> set ys" using assms(2,3) unfolding m dom_fun_upd by auto
  have ring: "ring (nx (lc_mem c')) (pv (lc_mem c')) a zs = ring (nx (lc_mem c)) (pv (lc_mem c)) a zs" if "e \<notin> set (a # zs)" for a zs
    using that unfolding m by (intro links_cong) (auto simp: nx_def pv_def)
  have r: "rings (lc_mem c') 1 xs 2 ys"
    using assms(1,3) ring [of 1 xs] ring [of 2 ys] unfolding rings_def d by auto
  have c: "cnt (lc_mem c') x = cnt (lc_mem c) x" if "x \<noteq> e" for x using that by (simp add: m cnt_def)
  show "lists_ok c' H xs ys"
  proof (rule lists_okI [OF r d])
    show "cnt (lc_mem c') x = Some (x \<in> set xs \<union> set ys, of_nat (count H x + (if x \<in> set xs \<union> set ys then 1 else 0)))"
      if "x \<in> set_mset H \<union> set xs \<union> set ys" for x
    proof -
      have "x \<noteq> e" using that assms(3) by blast
      then show ?thesis using assms(8) [OF that] c by simp
    qed
    show "x < lc_fresh c'" if "x \<in> dom (lc_mem c')" for x using that assms(7) by (auto simp: m split: if_splits)
    show "0 \<notin> dom (lc_mem c')" using assms(4) by (simp add: m domIff)
  qed (use assms in auto)
  show "shard_frame c c'" by (auto simp: shard_frame_def c'_def nh_def dat_def)
  have "finite (dom (lc_mem c))" unfolding assms(2) by simp
  then show "ledger c' = ledger c" using assms(3,12) entry_of_get [of "lc_mem c" e h] by (intro ledger_free [of c e]) (auto simp: c'_def)
qed

lemma shard_frame_trans: "shard_frame c c' \<Longrightarrow> shard_frame c' c'' \<Longrightarrow> shard_frame c c''"
  by (simp add: shard_frame_def)

lemma frame_same: "dat m = dat (lc_mem c) \<Longrightarrow> nh m = nh (lc_mem c) \<Longrightarrow> shard_frame c (c\<lparr>lc_mem := m\<rparr>) \<and> ledger (c\<lparr>lc_mem := m\<rparr>) = ledger c"
  using dat_eq_dom [of m "lc_mem c"] ledger_same [of "c\<lparr>lc_mem := m\<rparr>" c] by (simp add: shard_frame_def)

text \<open>Moving an entry from \<open>in_use_\<close> to the end of \<open>lru_\<close>.\<close>

lemma move_to_lru:
  assumes "rings m 1 xs 2 (as @ e # bs)"
  shows "\<exists>m'. bindO (LRU_Remove e (c\<lparr>lc_mem := m\<rparr>)) (LRU_Append 1 e) = Ret (c\<lparr>lc_mem := m'\<rparr>) \<and> rings m' 1 (xs @ [e]) 2 (as @ bs) \<and> nh m' = nh m \<and> core m' = core m"
proof -
  have s: "rings (lc_mem (c\<lparr>lc_mem := m\<rparr>)) 2 (as @ e # bs) 1 xs" using assms by (simp add: rings_sym)
  obtain m1 where m1: "LRU_Remove e (c\<lparr>lc_mem := m\<rparr>) = Ret (c\<lparr>lc_mem := m1\<rparr>)" "rings m1 2 (as @ bs) 1 xs" "nh m1 = nh m" "core m1 = core m"
    using Remove_rings [OF s] by auto
  have ed: "e \<in> dom m1" "e \<notin> set (2 # 1 # (as @ bs) @ xs)" using core_dom [OF m1(4)] assms by (auto simp: rings_def)
  obtain m2 where m2: "LRU_Append 1 e (c\<lparr>lc_mem := m1\<rparr>) = Ret (c\<lparr>lc_mem := m2\<rparr>)" "rings m2 2 (as @ bs) 1 (xs @ [e])" "nh m2 = nh m1" "core m2 = core m1"
    using Append_rings [of "c\<lparr>lc_mem := m1\<rparr>" 2 "as @ bs" 1 xs e] m1(2) ed by auto
  have "rings m2 1 (xs @ [e]) 2 (as @ bs)" using m2(2) by (rule iffD1 [OF rings_sym])
  then show ?thesis using m1(1,3,4) m2(1,3,4) by (intro exI [of _ m2]) simp
qed

end
