(* ===== verification/Lru_Correct.thy ===== *)
theory Lru_Correct
  imports Lru_Refs
begin

text \<open>
  The cache is correct: a client that releases every handle once, in any interleaving of insertions,
  lookups, erasures and prunings, never makes it touch freed memory; entries that are held stay alive;
  a lookup returns the value of the last insertion under its key or nothing; and every entry is
  handed to its deleter exactly once.
\<close>

section \<open>Releasing a handle\<close>

lemma Release_ok:
  assumes "lists_ok c H xs ys" "e \<in># H"
  shows "\<exists>c'. Cache_Unref e c = Ret c' \<and>
    (if e \<in> set ys \<and> e \<notin># H - {#e#} then lists_ok c' (H - {#e#}) (xs @ [e]) (remove1 e ys) else lists_ok c' (H - {#e#}) xs ys) \<and>
    shard_frame c c' \<and> lc_usage c' = lc_usage c \<and> ledger c' = ledger c"
proof -
  note L = lists_okD [OF assms(1)]
  define n where "n = count (H - {#e#}) e"
  have cH: "count H e = Suc n" using assms(2) by (simp add: n_def)
  have ex: "e \<notin> set xs" "e \<noteq> 1" "e \<noteq> 2" using L(4,5,8) assms(2) by auto
  define b where "b = (if e \<in> set ys then 1 else 0 :: nat)"
  have "cnt (lc_mem c) e = Some (e \<in> set ys, of_nat (Suc (n + b)))" using L(7) [of e] assms(2) ex cH by (simp add: b_def)
  then obtain m h where m: "modify e (\<lambda>x. x\<lparr>lh_refs := lh_refs x - 1\<rparr>) c = Ret (c\<lparr>lc_mem := m\<rparr>)" "nx m = nx (lc_mem c)" "pv m = pv (lc_mem c)" "nh m = nh (lc_mem c)"
    "dat m = dat (lc_mem c)" "cnt m = (cnt (lc_mem c))(e \<mapsto> (e \<in> set ys, of_nat (n + b)))" "m e = Some h" "lh_in_cache h = (e \<in> set ys)" "lh_refs h = of_nat (n + b)"
    using dec_refs by blast
  have d: "dom m = dom (lc_mem c)" by (rule dat_eq_dom [OF m(5)])
  have r: "rings m 1 xs 2 ys" using L(1) rings_cong [OF m(2,3) d] by simp
  have "count H e \<le> size H" by (rule count_le_size)
  then have nb: "n + b < 2 ^ 32" using cH L(10) by (simp add: b_def)
  note w = small_word [OF nb]
  have cm: "cnt m x = Some (x \<in> set xs \<union> set ys, of_nat (count (H - {#e#}) x + (if x \<in> set xs \<union> set ys then 1 else 0)))"
    if "x \<in> set_mset H \<union> set xs \<union> set ys" for x
    using m(6) L(7) [OF that] ex(1) by (cases "x = e") (simp_all add: n_def b_def)
  have SH: "set_mset H = insert e (set_mset (H - {#e#}))" using assms(2) by (metis insert_DiffM set_mset_add_mset_insert)
  have sz: "size (H - {#e#}) < 2 ^ 31" "1 \<notin># H - {#e#}" "2 \<notin># H - {#e#}" using L(4,5,10) SH assms(2) by (auto simp: size_Diff_singleton)
  note fr = frame_same [OF m(5,4)]
  have un: "Cache_Unref e c = (if n + b = 0 then Ret (c\<lparr>lc_mem := m, lc_deleted := lc_deleted c @ [(lh_key h, lh_value h)], lc_mem := m(e := None)\<rparr>)
      else if e \<in> set ys \<and> n + b = 1 then bindO (LRU_Remove e (c\<lparr>lc_mem := m\<rparr>)) (LRU_Append 1 e) else Ret (c\<lparr>lc_mem := m\<rparr>))"
    using m(1,7,8,9) w by (simp add: Cache_Unref_def get_def)
  consider "e \<in># H - {#e#}" "0 < n" | "e \<notin># H - {#e#}" "n = 0" "e \<notin> set ys" | "e \<notin># H - {#e#}" "n = 0" "e \<in> set ys"
    unfolding n_def using count_greater_zero_iff not_in_iff by (metis not_gr_zero)
  then show ?thesis
  proof cases
    case 1
    then have "set_mset (H - {#e#}) = set_mset H" using SH by auto
    then have "lists_ok (c\<lparr>lc_mem := m\<rparr>) (H - {#e#}) xs ys" using r d L sz cm by (intro lists_okI) auto
    then show ?thesis using un 1 fr by (intro exI [of _ "c\<lparr>lc_mem := m\<rparr>"]) (auto simp: b_def)
  next
    case 2
    let ?c = "c\<lparr>lc_mem := m, lc_deleted := lc_deleted c @ [(lh_key h, lh_value h)], lc_mem := m(e := None)\<rparr>"
    let ?m = "c\<lparr>lc_mem := m\<rparr>"
    have D: "dom (lc_mem ?m) = insert e ({1, 2} \<union> set_mset (H - {#e#}) \<union> set xs \<union> set ys)" using d L(2) SH by simp
    have E: "e \<notin> {1, 2} \<union> set_mset (H - {#e#}) \<union> set xs \<union> set ys" using 2 ex by simp
    have C: "cnt (lc_mem ?m) x = Some (x \<in> set xs \<union> set ys, of_nat (count (H - {#e#}) x + (if x \<in> set xs \<union> set ys then 1 else 0)))"
      if "x \<in> set_mset (H - {#e#}) \<union> set xs \<union> set ys" for x using cm [of x] that SH by auto
    have R: "rings (lc_mem ?m) 1 xs 2 ys" "0 \<notin> dom (lc_mem ?m)" "lc_mem ?m e = Some h" using r d L(3) m(7) by simp_all
    have F: "x < lc_fresh ?m" if "x \<in> dom (lc_mem ?m)" for x using L(6) d that by simp
    have X: "set xs \<inter> set_mset (H - {#e#}) = {}" "set ys \<subseteq> set_mset (H - {#e#})" using L(8,9) SH 2(3) by auto
    have "lists_ok ?c (H - {#e#}) xs ys" "shard_frame ?m ?c" "ledger ?c = ledger ?m"
      using free_ok [OF R(1) D E R(2) sz(2,3) F C X sz(1) R(3)] by simp_all
    then show ?thesis using un 2 fr shard_frame_trans by (intro exI [of _ ?c]) (auto simp: b_def)
  next
    case 3
    then obtain as bs where ys: "ys = as @ e # bs" by (meson split_list)
    obtain m' where m': "bindO (LRU_Remove e (c\<lparr>lc_mem := m\<rparr>)) (LRU_Append 1 e) = Ret (c\<lparr>lc_mem := m'\<rparr>)" "rings m' 1 (xs @ [e]) 2 (as @ bs)" "nh m' = nh m" "core m' = core m"
      using move_to_lru r ys by blast
    have cf: "dat m' = dat m" "cnt m' = cnt m" "dom m' = dom m" using core_fields [OF m'(4)] core_dom [OF m'(4)] by simp_all
    have S: "set (xs @ [e]) \<union> set (as @ bs) = set xs \<union> set ys" "e \<notin> set (as @ bs)" using ys L(11) by auto
    have "lists_ok (c\<lparr>lc_mem := m'\<rparr>) (H - {#e#}) (xs @ [e]) (as @ bs)"
    proof (rule lists_okI)
      show "cnt (lc_mem (c\<lparr>lc_mem := m'\<rparr>)) x =
          Some (x \<in> set (xs @ [e]) \<union> set (as @ bs), of_nat (count (H - {#e#}) x + (if x \<in> set (xs @ [e]) \<union> set (as @ bs) then 1 else 0)))"
        if "x \<in> set_mset (H - {#e#}) \<union> set (xs @ [e]) \<union> set (as @ bs)" for x
      proof -
        have "x \<in> set_mset H \<union> set xs \<union> set ys" using that unfolding SH Un_assoc S(1) by blast
        from cm [OF this] show ?thesis unfolding S(1) by (simp add: cf(2))
      qed
      have "dom m' = {1, 2} \<union> set_mset H \<union> (set xs \<union> set ys)" using cf(3) d L(2) by (simp only: Un_assoc)
      also have "\<dots> = {1, 2} \<union> set_mset (H - {#e#}) \<union> (set xs \<union> set ys)" by (subst SH) (use 3(3) in auto)
      finally show "dom (lc_mem (c\<lparr>lc_mem := m'\<rparr>)) = {1, 2} \<union> set_mset (H - {#e#}) \<union> set (xs @ [e]) \<union> set (as @ bs)"
        unfolding Un_assoc S(1) by simp
      show "0 \<notin> dom (lc_mem (c\<lparr>lc_mem := m'\<rparr>))" using cf(3) d L(3) by simp
      show "x < lc_fresh (c\<lparr>lc_mem := m'\<rparr>)" if "x \<in> dom (lc_mem (c\<lparr>lc_mem := m'\<rparr>))" for x using L(6) [of x] cf(3) d that by simp
      show "set (xs @ [e]) \<inter> set_mset (H - {#e#}) = {}" using L(8) SH 3(1) by auto
      show "set (as @ bs) \<subseteq> set_mset (H - {#e#})"
      proof
        fix x assume x: "x \<in> set (as @ bs)"
        then have "x \<in># H" "x \<noteq> e" using L(9) S(2) ys by auto
        then show "x \<in># H - {#e#}" unfolding SH by blast
      qed
    qed (use m'(2) sz in simp_all)
    moreover have "remove1 e ys = as @ bs" using ys L(11) by (simp add: remove1_append)
    ultimately show ?thesis using un 3 m'(1) frame_same [of m' c] cf(1) m(4,5) m'(3) ys
      by (intro exI [of _ "c\<lparr>lc_mem := m'\<rparr>"]) (simp add: b_def)
  qed
qed

section \<open>Taking an entry out of the cache\<close>

definition charge_of :: "'v heap \<Rightarrow> nat \<Rightarrow> u64" where
  "charge_of m e = (case m e of None \<Rightarrow> 0 | Some h \<Rightarrow> lh_charge h)"

lemma Remove_either:
  assumes "rings (lc_mem c) 1 xs 2 ys" "e \<in> set xs \<union> set ys"
  shows "\<exists>m. LRU_Remove e c = Ret (c\<lparr>lc_mem := m\<rparr>) \<and> rings m 1 (remove1 e xs) 2 (remove1 e ys) \<and> nh m = nh (lc_mem c) \<and> core m = core (lc_mem c)"
proof (cases "e \<in> set xs")
  case True
  then obtain as bs where xs: "xs = as @ e # bs" by (meson split_list)
  then have "remove1 e xs = as @ bs" "remove1 e ys = ys" using assms(1) by (auto simp: rings_def remove1_append remove1_idem)
  then show ?thesis using Remove_rings [of c 1 as e bs 2 ys] assms(1) xs by simp
next
  case False
  then obtain as bs where ys: "ys = as @ e # bs" using assms(2) by (meson UnE split_list)
  have 1: "remove1 e ys = as @ bs" "remove1 e xs = xs" using assms(1) ys by (auto simp: rings_def remove1_append remove1_idem)
  have "rings (lc_mem c) 2 (as @ e # bs) 1 xs" using assms(1) ys by (simp add: rings_sym)
  from Remove_rings [OF this] obtain m where m: "LRU_Remove e c = Ret (c\<lparr>lc_mem := m\<rparr>)" "rings m 2 (as @ bs) 1 xs" "nh m = nh (lc_mem c)" "core m = core (lc_mem c)"
    by blast
  have "rings m 1 xs 2 (as @ bs)" using m(2) by (rule iffD1 [OF rings_sym])
  then show ?thesis using m 1 by (intro exI [of _ m]) simp
qed

text \<open>Once it is off the lists, the reference of the cache is one more handle, which \<open>Unref\<close> releases.\<close>

lemma FinishErase_ok:
  assumes "lists_ok c H xs ys" "e \<in> set xs \<union> set ys" "size H + 1 < 2 ^ 31"
  shows "\<exists>c'. FinishErase e c = Ret c' \<and> lists_ok c' H (remove1 e xs) (remove1 e ys) \<and>
    shard_frame c c' \<and> lc_usage c' = lc_usage c - charge_of (lc_mem c) e \<and> ledger c' = ledger c"
proof -
  note L = lists_okD [OF assms(1)]
  obtain m where m: "LRU_Remove e c = Ret (c\<lparr>lc_mem := m\<rparr>)" "rings m 1 (remove1 e xs) 2 (remove1 e ys)" "nh m = nh (lc_mem c)" "core m = core (lc_mem c)"
    using Remove_either [OF L(1) assms(2)] by blast
  note cf = core_fields [OF m(4)]
  have "cnt (lc_mem c) e = Some (True, of_nat (count H e + 1))" using L(7) [of e] assms(2) by auto
  then have "cnt (lc_mem (c\<lparr>lc_mem := m\<rparr>)) e = Some (True, of_nat (count H e + 1))" using cf by simp
  from modify_cnt [OF this, of "\<lambda>x. x\<lparr>lh_in_cache := False\<rparr>" False "of_nat (count H e + 1)"]
  obtain m' where m': "modify e (\<lambda>x. x\<lparr>lh_in_cache := False\<rparr>) (c\<lparr>lc_mem := m\<rparr>) = Ret (c\<lparr>lc_mem := m'\<rparr>)" "nx m' = nx m" "pv m' = pv m" "nh m' = nh m" "dat m' = dat m"
    "cnt m' = (cnt m)(e \<mapsto> (False, of_nat (count H e + 1)))" by auto
  have d: "dom m' = dom (lc_mem c)" using dat_eq_dom m'(5) cf by metis
  have "e \<in> dom m'" using d L(2) assms(2) by auto
  then obtain h where h: "m' e = Some h" by auto
  have "dat m' e = dat (lc_mem c) e" using m'(5) cf by simp
  then have ch: "charge_of (lc_mem c) e = lh_charge h" using h by (cases "lc_mem c e") (auto simp: dat_def charge_of_def)
  let ?c = "c\<lparr>lc_mem := m', lc_usage := lc_usage c - charge_of (lc_mem c) e\<rparr>"
  have FE: "FinishErase e c = Cache_Unref e ?c"
  proof -
    have "e \<noteq> 0" using L(3) d \<open>e \<in> dom m'\<close> by metis
    then show ?thesis using m(1) m'(1) h ch by (simp add: FinishErase_def get_def)
  qed
  have S: "set (remove1 e xs) = set xs - {e}" "set (remove1 e ys) = set ys - {e}" using L(11) by (simp_all add: set_remove1_eq)
  have ok: "lists_ok ?c (add_mset e H) (remove1 e xs) (remove1 e ys)"
  proof (rule lists_okI)
    show "rings (lc_mem ?c) 1 (remove1 e xs) 2 (remove1 e ys)" using m(2) rings_cong [OF m'(2,3)] d core_dom [OF m(4)] by simp
    show "dom (lc_mem ?c) = {1, 2} \<union> set_mset (add_mset e H) \<union> set (remove1 e xs) \<union> set (remove1 e ys)"
      unfolding S using d L(2) assms(2) by auto
    show "0 \<notin> dom (lc_mem ?c)" using d L(3) by simp
    show "1 \<notin># add_mset e H" "2 \<notin># add_mset e H" using L(4,5,11) assms(2) by auto
    show "x < lc_fresh ?c" if "x \<in> dom (lc_mem ?c)" for x using L(6) [of x] d that by simp
    show "cnt (lc_mem ?c) x = Some (x \<in> set (remove1 e xs) \<union> set (remove1 e ys),
        of_nat (count (add_mset e H) x + (if x \<in> set (remove1 e xs) \<union> set (remove1 e ys) then 1 else 0)))"
      if x: "x \<in> set_mset (add_mset e H) \<union> set (remove1 e xs) \<union> set (remove1 e ys)" for x
    proof (cases "x = e")
      case True
      then show ?thesis unfolding S using m'(6) by simp
    next
      case False
      then have "x \<in> set_mset H \<union> set xs \<union> set ys" using x unfolding S by auto
      from L(7) [OF this] show ?thesis unfolding S using False m'(6) cf by simp
    qed
    show "set (remove1 e xs) \<inter> set_mset (add_mset e H) = {}" "set (remove1 e ys) \<subseteq> set_mset (add_mset e H)" unfolding S using L(8,9) by auto
    show "size (add_mset e H) < 2 ^ 31" using assms(3) by simp
  qed
  have ny: "e \<notin> set (remove1 e ys)" using S by simp
  from Release_ok [OF ok, of e] ny obtain c' where c': "Cache_Unref e ?c = Ret c'" "lists_ok c' H (remove1 e xs) (remove1 e ys)" "shard_frame ?c c'"
    "lc_usage c' = lc_usage ?c" "ledger c' = ledger ?c" by auto
  have "shard_frame c ?c" using d m(3) m'(4,5) cf by (simp add: shard_frame_def)
  moreover have "ledger ?c = ledger c" using m'(5) cf by (intro ledger_same) simp_all
  ultimately show ?thesis using FE c' shard_frame_trans by (intro exI [of _ c']) auto
qed

end
