(* ===== verification/Lru_Spec.thy ===== *)
theory Lru_Spec
  imports Lru_Correct
begin

text \<open>
  What a cache promises: an abstract cache that keeps the entries nobody uses in the order of their
  release, those in use, and the handles that clients hold; and the relation that ties the model of the
  code to it.
\<close>

section \<open>The abstract cache\<close>

record 'v entry =
  en_key :: "byte list"
  en_hash :: u32
  en_value :: 'v
  en_charge :: u64

record 'v cache_spec =
  cs_capacity :: u64
  cs_lru :: "nat list"
  cs_used :: "nat list"
  cs_held :: "nat multiset"
  cs_data :: "nat \<Rightarrow> 'v entry"
  cs_next :: nat

definition cached :: "'v cache_spec \<Rightarrow> nat list" where
  "cached a = cs_lru a @ cs_used a"

definition charges :: "(nat \<Rightarrow> 'v entry) \<Rightarrow> nat list \<Rightarrow> u64" where
  "charges d es = (\<Sum>e\<leftarrow>es. en_charge (d e))"

definition spec_find :: "byte list \<Rightarrow> u32 \<Rightarrow> 'v cache_spec \<Rightarrow> nat option" where
  "spec_find key hash a = find (\<lambda>e. en_key (cs_data a e) = key \<and> en_hash (cs_data a e) = hash) (cached a)"

definition spec_ref :: "nat \<Rightarrow> 'v cache_spec \<Rightarrow> 'v cache_spec" where
  "spec_ref e a = a\<lparr>cs_held := add_mset e (cs_held a), cs_lru := remove1 e (cs_lru a),
     cs_used := if e \<in> set (cs_lru a) then cs_used a @ [e] else cs_used a\<rparr>"

definition spec_lookup :: "byte list \<Rightarrow> u32 \<Rightarrow> 'v cache_spec \<Rightarrow> nat \<times> 'v cache_spec" where
  "spec_lookup key hash a = (case spec_find key hash a of None \<Rightarrow> (0, a) | Some e \<Rightarrow> (e, spec_ref e a))"

definition spec_release :: "nat \<Rightarrow> 'v cache_spec \<Rightarrow> 'v cache_spec" where
  "spec_release e a =
     (let H = cs_held a - {#e#}
      in if e \<in> set (cs_used a) \<and> e \<notin># H then a\<lparr>cs_held := H, cs_lru := cs_lru a @ [e], cs_used := remove1 e (cs_used a)\<rparr>
         else a\<lparr>cs_held := H\<rparr>)"

definition spec_drop :: "nat option \<Rightarrow> 'v cache_spec \<Rightarrow> 'v cache_spec" where
  "spec_drop old a = (case old of None \<Rightarrow> a | Some e \<Rightarrow> a\<lparr>cs_lru := remove1 e (cs_lru a), cs_used := remove1 e (cs_used a)\<rparr>)"

definition spec_erase :: "byte list \<Rightarrow> u32 \<Rightarrow> 'v cache_spec \<Rightarrow> 'v cache_spec" where
  "spec_erase key hash a = spec_drop (spec_find key hash a) a"

text \<open>The oldest entries go until the charges fit or every entry is in use.\<close>

fun evict :: "u64 \<Rightarrow> (nat \<Rightarrow> 'v entry) \<Rightarrow> nat list \<Rightarrow> nat list \<Rightarrow> nat list" where
  "evict cap d [] ys = []"
| "evict cap d (x # xs) ys = (if charges d ((x # xs) @ ys) > cap then evict cap d xs ys else x # xs)"

definition spec_evict :: "'v cache_spec \<Rightarrow> 'v cache_spec" where
  "spec_evict a = a\<lparr>cs_lru := evict (cs_capacity a) (cs_data a) (cs_lru a) (cs_used a)\<rparr>"

definition spec_new_entry :: "'v entry \<Rightarrow> 'v cache_spec \<Rightarrow> 'v cache_spec" where
  "spec_new_entry x a = a\<lparr>cs_held := add_mset (cs_next a) (cs_held a), cs_data := (cs_data a)(cs_next a := x), cs_next := cs_next a + 1\<rparr>"

definition spec_insert :: "byte list \<Rightarrow> u32 \<Rightarrow> 'v \<Rightarrow> u64 \<Rightarrow> 'v cache_spec \<Rightarrow> nat \<times> 'v cache_spec" where
  "spec_insert key hash val charge a =
     (let e = cs_next a;
          b = spec_new_entry \<lparr>en_key = key, en_hash = hash, en_value = val, en_charge = charge\<rparr> a
      in (e, spec_evict (if cs_capacity a > 0 then (spec_drop (spec_find key hash a) b)\<lparr>cs_used := cs_used (spec_drop (spec_find key hash a) b) @ [e]\<rparr> else b)))"

definition spec_prune :: "'v cache_spec \<Rightarrow> 'v cache_spec" where
  "spec_prune a = a\<lparr>cs_lru := []\<rparr>"

definition spec_new :: "u64 \<Rightarrow> 'v cache_spec" where
  "spec_new capacity = \<lparr>cs_capacity = capacity, cs_lru = [], cs_used = [], cs_held = {#}, cs_data = (\<lambda>_. undefined), cs_next = 3\<rparr>"

section \<open>The relation\<close>

definition entry_dat :: "'v entry \<Rightarrow> 'v option \<times> u64 \<times> u32 \<times> byte list" where
  "entry_dat x = (Some (en_value x), en_charge x, en_hash x, en_key x)"

text \<open>
  The lists, the count of references and the data agree; \<open>es\<close> are the entries in the table, which are those on
  the lists except in the middle of an operation.
\<close>

definition refines_upto :: "'v LRUCache \<Rightarrow> 'v cache_spec \<Rightarrow> nat multiset \<Rightarrow> bool" where
  "refines_upto c a es \<longleftrightarrow>
     lists_ok c (cs_held a) (cs_lru a) (cs_used a) \<and> (\<exists>bss. table_ok c bss \<and> mset (concat bss) = es) \<and>
     lc_capacity c = cs_capacity a \<and> lc_fresh c = cs_next a \<and> (\<forall>e\<in>dom (lc_mem c) - {1, 2}. dat (lc_mem c) e = Some (entry_dat (cs_data a e)))"

definition keys_unique :: "'v cache_spec \<Rightarrow> nat set \<Rightarrow> bool" where
  "keys_unique a S \<longleftrightarrow> inj_on (\<lambda>e. (en_key (cs_data a e), en_hash (cs_data a e))) S"

definition refines :: "'v LRUCache \<Rightarrow> 'v cache_spec \<Rightarrow> bool" where
  "refines c a \<longleftrightarrow> refines_upto c a (mset (cached a)) \<and> lc_usage c = charges (cs_data a) (cached a) \<and> keys_unique a (set (cached a))"

section \<open>The parts of the invariant are independent\<close>

lemma table_frame_data: "table_frame c c' \<Longrightarrow> dat (lc_mem c') = dat (lc_mem c) \<and> cnt (lc_mem c') = cnt (lc_mem c) \<and> dom (lc_mem c') = dom (lc_mem c)"
  using core_fields [of "lc_mem c'" "lc_mem c"] core_dom [of "lc_mem c'" "lc_mem c"] by (simp add: table_frame_def)

lemma lists_frame:
  assumes "table_frame c c'" "lists_ok c H xs ys"
  shows "lists_ok c' H xs ys"
proof -
  have "nx (lc_mem c') = nx (lc_mem c)" "pv (lc_mem c') = pv (lc_mem c)" "lc_fresh c' = lc_fresh c" using assms(1) by (simp_all add: table_frame_def)
  moreover have "cnt (lc_mem c') = cnt (lc_mem c)" "dom (lc_mem c') = dom (lc_mem c)" using table_frame_data [OF assms(1)] by simp_all
  moreover from calculation have "rings (lc_mem c') 1 xs 2 ys = rings (lc_mem c) 1 xs 2 ys" by (intro rings_cong)
  ultimately have "lists_ok c' H xs ys = lists_ok c H xs ys" unfolding lists_ok_def by (simp only:)
  then show ?thesis using assms(2) by simp
qed

lemma ledger_frame: "table_frame c c' \<Longrightarrow> ledger c' = ledger c"
  using table_frame_data [of c c'] by (intro ledger_same) (simp_all add: table_frame_def)

lemma table_keep:
  assumes "shard_frame c c'" "table_ok c bss" "set (concat bss) \<subseteq> dom (lc_mem c')"
  shows "table_ok c' bss"
proof -
  have fr: "lc_fresh c' = lc_fresh c" "ht_length c' = ht_length c" "ht_elems c' = ht_elems c" "ht_list c' = ht_list c"
    and e: "\<And>e. e \<in> dom (lc_mem c') \<Longrightarrow> e \<in> dom (lc_mem c) \<and> nh (lc_mem c') e = nh (lc_mem c) e \<and> dat (lc_mem c') e = dat (lc_mem c) e"
    using assms(1) by (simp_all add: shard_frame_def)
  have hash: "hash_of (lc_mem c') e = hash_of (lc_mem c) e" if "e \<in> dom (lc_mem c')" for e
    using e [OF that] that by (auto simp: dat_def hash_of_def split: option.splits)
  have b: "buckets_ok c (ht_length c) (ht_list c) bss" using assms(2) by (simp add: table_ok_def)
  have "buckets_ok c' (ht_length c) (ht_list c) bss"
    unfolding buckets_ok_def
  proof (intro conjI allI impI)
    fix i assume i: "i < length bss"
    have s: "set (bss ! i) \<subseteq> dom (lc_mem c')" using bucket_subset [OF i] assms(3) by blast
    have "chain (nh (lc_mem c)) (ht_list c ! i) (bss ! i)" using b i by (simp add: buckets_ok_def)
    moreover have "chain (nh (lc_mem c')) (ht_list c ! i) (bss ! i) = chain (nh (lc_mem c)) (ht_list c ! i) (bss ! i)"
      by (rule chain_cong) (use s e in blast)
    ultimately show "chain (nh (lc_mem c')) (ht_list c ! i) (bss ! i)" by simp
    show "\<forall>e\<in>set (bss ! i). bucket (ht_length c) (hash_of (lc_mem c') e) = i"
      using b i s hash unfolding buckets_ok_def by (metis subsetD)
  qed (use b assms(3) fr in \<open>simp_all add: buckets_ok_def\<close>)
  then show ?thesis using assms(2) fr by (simp add: table_ok_def)
qed

section \<open>Looking up and releasing\<close>

lemma refinesD:
  assumes "refines c a"
  shows "lists_ok c (cs_held a) (cs_lru a) (cs_used a)" "\<exists>bss. table_ok c bss \<and> mset (concat bss) = mset (cached a)"
    "lc_capacity c = cs_capacity a" "lc_fresh c = cs_next a" "\<And>e. e \<in> dom (lc_mem c) - {1, 2} \<Longrightarrow> dat (lc_mem c) e = Some (entry_dat (cs_data a e))"
    "lc_usage c = charges (cs_data a) (cached a)" "keys_unique a (set (cached a))"
  using assms unfolding refines_def refines_upto_def by blast+

lemma refines_uptoD:
  assumes "refines_upto c a es"
  shows "lists_ok c (cs_held a) (cs_lru a) (cs_used a)" "\<exists>bss. table_ok c bss \<and> mset (concat bss) = es"
    "lc_capacity c = cs_capacity a" "lc_fresh c = cs_next a" "\<And>e. e \<in> dom (lc_mem c) - {1, 2} \<Longrightarrow> dat (lc_mem c) e = Some (entry_dat (cs_data a e))"
  using assms unfolding refines_upto_def by blast+

lemma refines_uptoI:
  assumes "lists_ok c (cs_held a) (cs_lru a) (cs_used a)" "table_ok c bss" "mset (concat bss) = es"
    "lc_capacity c = cs_capacity a" "lc_fresh c = cs_next a" "\<And>e. e \<in> dom (lc_mem c) - {1, 2} \<Longrightarrow> dat (lc_mem c) e = Some (entry_dat (cs_data a e))"
  shows "refines_upto c a es"
  using assms unfolding refines_upto_def by blast

lemma cached_live:
  assumes "lists_ok c H xs ys" "e \<in> set xs \<union> set ys \<union> set_mset H"
  shows "e \<in> dom (lc_mem c) - {1, 2}"
  using lists_okD(2,4,5,11) [OF assms(1)] assms(2) by auto

text \<open>The key and the hash of an entry that lives.\<close>

lemma matches_spec:
  assumes "dat (lc_mem c) e = Some (entry_dat x)"
  shows "matches (lc_mem c) key hash e \<longleftrightarrow> en_key x = key \<and> en_hash x = hash" "charge_of (lc_mem c) e = en_charge x"
  using assms by (auto simp: dat_def entry_dat_def matches_def hash_of_def key_of_def charge_of_def)

lemma find_unique: "e \<in> set xs \<Longrightarrow> P e \<Longrightarrow> (\<And>x. x \<in> set xs \<Longrightarrow> P x \<Longrightarrow> x = e) \<Longrightarrow> find P xs = Some e"
proof (induction xs)
  case (Cons x xs)
  show ?case
  proof (cases "P x")
    case True
    then have "x = e" by (rule Cons.prems(3) [rotated]) simp
    then show ?thesis using True by simp
  next
    case False
    then have "e \<in> set xs" using Cons.prems(1,2) by auto
    from Cons.IH [OF this Cons.prems(2)] Cons.prems(3) False show ?thesis by simp
  qed
qed simp

lemma spec_find_iff:
  assumes "keys_unique a (set (cached a))"
  shows "spec_find key hash a = Some e \<longleftrightarrow> e \<in> set (cached a) \<and> en_key (cs_data a e) = key \<and> en_hash (cs_data a e) = hash"
    "spec_find key hash a = None \<longleftrightarrow> (\<forall>e\<in>set (cached a). \<not> (en_key (cs_data a e) = key \<and> en_hash (cs_data a e) = hash))"
proof -
  show "spec_find key hash a = Some e \<longleftrightarrow> e \<in> set (cached a) \<and> en_key (cs_data a e) = key \<and> en_hash (cs_data a e) = hash"
  proof
    assume "spec_find key hash a = Some e"
    then show "e \<in> set (cached a) \<and> en_key (cs_data a e) = key \<and> en_hash (cs_data a e) = hash" by (auto simp: spec_find_def find_Some_iff)
  next
    assume e: "e \<in> set (cached a) \<and> en_key (cs_data a e) = key \<and> en_hash (cs_data a e) = hash"
    show "spec_find key hash a = Some e" unfolding spec_find_def
      by (rule find_unique) (use e assms in \<open>auto simp: keys_unique_def inj_on_def\<close>)
  qed
  show "spec_find key hash a = None \<longleftrightarrow> (\<forall>e\<in>set (cached a). \<not> (en_key (cs_data a e) = key \<and> en_hash (cs_data a e) = hash))"
    by (auto simp: spec_find_def find_None_iff)
qed

lemma found_spec:
  assumes "keys_unique a (set (cached a))" "\<And>e. e \<in> set (cached a) \<Longrightarrow> dat (lc_mem c) e = Some (entry_dat (cs_data a e))"
    and "e \<noteq> 0 \<Longrightarrow> e \<in> set (cached a) \<and> matches (lc_mem c) key hash e" "e = 0 \<Longrightarrow> \<forall>x\<in>set (cached a). \<not> matches (lc_mem c) key hash x"
  shows "spec_find key hash a = (if e = 0 then None else Some e)"
proof (cases "e = 0")
  case True
  then have "spec_find key hash a = None" using assms(4) matches_spec(1) [OF assms(2)] unfolding spec_find_iff(2) [OF assms(1)] by blast
  then show ?thesis using True by simp
next
  case False
  then have "spec_find key hash a = Some e" using assms(3) matches_spec(1) [OF assms(2)] unfolding spec_find_iff(1) [OF assms(1)] by blast
  then show ?thesis using False by simp
qed

lemma charges_mset: "mset xs = mset ys \<Longrightarrow> charges d xs = charges d ys"
  unfolding charges_def by (metis mset_map sum_mset_sum_list)

lemma step_upto:
  assumes "refines_upto c a es" "shard_frame c c'" "lists_ok c' (cs_held a') (cs_lru a') (cs_used a')" "set_mset es \<subseteq> set (cached a')"
    and "cs_capacity a' = cs_capacity a" "cs_next a' = cs_next a" "cs_data a' = cs_data a"
  shows "refines_upto c' a' es"
proof -
  note D = refines_uptoD [OF assms(1)]
  from D(2) obtain bss where bss: "table_ok c bss" "mset (concat bss) = es" by blast
  have "set (concat bss) \<subseteq> dom (lc_mem c')"
  proof
    fix x assume "x \<in> set (concat bss)"
    then have "x \<in># es" unfolding bss(2) [symmetric] by (simp only: set_mset_mset)
    then have "x \<in> set (cs_lru a') \<union> set (cs_used a') \<union> set_mset (cs_held a')" using assms(4) by (auto simp: cached_def)
    from cached_live [OF assms(3) this] show "x \<in> dom (lc_mem c')" by blast
  qed
  from table_keep [OF assms(2) bss(1) this] have t: "table_ok c' bss" .
  have "dat (lc_mem c') e = Some (entry_dat (cs_data a' e))" if "e \<in> dom (lc_mem c') - {1, 2}" for e
    using assms(2,7) D(5) [of e] that by (simp add: shard_frame_def)
  then show ?thesis using D(3,4) assms(2,3,5,6) t bss(2) by (intro refines_uptoI [of c' a' bss es]) (simp_all add: shard_frame_def)
qed

lemma step_refines:
  assumes "refines c a" "shard_frame c c'" "lists_ok c' (cs_held a') (cs_lru a') (cs_used a')" "mset (cached a') = mset (cached a)"
    and "cs_capacity a' = cs_capacity a" "cs_next a' = cs_next a" "cs_data a' = cs_data a" "lc_usage c' = lc_usage c"
  shows "refines c' a'"
proof -
  have u: "refines_upto c a (mset (cached a))" using assms(1) by (simp add: refines_def)
  have s: "set (cached a') = set (cached a)" using assms(4) by (metis set_mset_mset)
  have "refines_upto c' a' (mset (cached a'))"
    using step_upto [OF u assms(2,3) _ assms(5,6,7)] s assms(4) by simp
  moreover have "lc_usage c' = charges (cs_data a') (cached a')" using refinesD(6) [OF assms(1)] assms(7,8) charges_mset [OF assms(4), of "cs_data a"] by simp
  moreover have "keys_unique a' (set (cached a'))" using refinesD(7) [OF assms(1)] s assms(7) by (simp add: keys_unique_def)
  ultimately show ?thesis by (simp add: refines_def)
qed

lemma Lookup_refines:
  assumes "refines c a" "size (cs_held a) + 1 < 2 ^ 31"
  shows "\<exists>c'. LRUCache_Lookup key hash c = Ret (fst (spec_lookup key hash a), c') \<and> refines c' (snd (spec_lookup key hash a)) \<and> ledger c' = ledger c"
proof -
  note D = refinesD [OF assms(1)]
  from D(2) obtain bss where bss: "table_ok c bss" "mset (concat bss) = mset (cached a)" by blast
  have sb: "set (concat bss) = set (cached a)" using bss(2) by (metis set_mset_mset)
  from HandleTable_Lookup_ok [OF bss(1), of key hash] obtain e where e: "HandleTable_Lookup key hash c = Ret e"
    "e \<noteq> 0 \<Longrightarrow> e \<in> set (cached a) \<and> matches (lc_mem c) key hash e" "e = 0 \<Longrightarrow> \<forall>x\<in>set (cached a). \<not> matches (lc_mem c) key hash x"
    unfolding sb by blast
  have live: "dat (lc_mem c) x = Some (entry_dat (cs_data a x))" if "x \<in> set (cached a)" for x
    using D(5) cached_live [OF D(1)] that by (auto simp: cached_def)
  have f: "spec_find key hash a = (if e = 0 then None else Some e)" by (rule found_spec [OF D(7) live e(2,3)])
  show ?thesis
  proof (cases "e = 0")
    case True
    then show ?thesis using f e(1) assms(1) by (simp add: LRUCache_Lookup_def spec_lookup_def)
  next
    case False
    then have ex: "e \<in> set (cs_lru a) \<union> set (cs_used a)" using e(2) by (simp add: cached_def)
    from Ref_ok [OF D(1) ex assms(2)] obtain c' where c': "Cache_Ref e c = Ret c'"
      "lists_ok c' (add_mset e (cs_held a)) (remove1 e (cs_lru a)) (if e \<in> set (cs_lru a) then cs_used a @ [e] else cs_used a)"
      "shard_frame c c'" "lc_usage c' = lc_usage c" "ledger c' = ledger c" by blast
    have "refines c' (spec_ref e a)"
      by (rule step_refines [OF assms(1) c'(3)]) (use c'(2,4) in \<open>simp_all add: spec_ref_def cached_def remove1_idem\<close>)
    then show ?thesis using f e(1) c'(1,5) False by (simp add: LRUCache_Lookup_def spec_lookup_def)
  qed
qed

lemma Release_refines:
  assumes "refines c a" "e \<in># cs_held a"
  shows "\<exists>c'. LRUCache_Release e c = Ret c' \<and> refines c' (spec_release e a) \<and> ledger c' = ledger c"
proof -
  note D = refinesD [OF assms(1)]
  from Release_ok [OF D(1) assms(2)] obtain c' where c': "Cache_Unref e c = Ret c'"
    "if e \<in> set (cs_used a) \<and> e \<notin># cs_held a - {#e#} then lists_ok c' (cs_held a - {#e#}) (cs_lru a @ [e]) (remove1 e (cs_used a))
     else lists_ok c' (cs_held a - {#e#}) (cs_lru a) (cs_used a)"
    "shard_frame c c'" "lc_usage c' = lc_usage c" "ledger c' = ledger c" by blast
  have "refines c' (spec_release e a)"
    by (rule step_refines [OF assms(1) c'(3)]) (use c'(2,4) in \<open>simp_all add: spec_release_def Let_def cached_def split: if_splits\<close>)
  then show ?thesis using c'(1,5) by (simp add: LRUCache_Release_def)
qed

end
