(* ===== verification/Lru_Refine.thy ===== *)
theory Lru_Refine
  imports Lru_Spec
begin

text \<open>
  Every operation of a shard implements the operation of the abstract cache: erasing, evicting, inserting
  and pruning.
\<close>

section \<open>Erasing\<close>

lemma upto_frame:
  assumes "refines_upto c a es" "table_frame c c'" "table_ok c' bss"
  shows "refines_upto c' a (mset (concat bss))"
proof -
  note D = refines_uptoD [OF assms(1)]
  have "lc_capacity c' = lc_capacity c" "lc_fresh c' = lc_fresh c" using assms(2) by (simp_all add: table_frame_def)
  then show ?thesis using table_frame_data [OF assms(2)] D(3,4,5)
    by (intro refines_uptoI [OF lists_frame [OF assms(2) D(1)] assms(3) refl]) simp_all
qed

lemma cached_distinct: "lists_ok c (cs_held a) (cs_lru a) (cs_used a) \<Longrightarrow> distinct (cached a)"
  using lists_okD(11) [of c "cs_held a" "cs_lru a" "cs_used a"] by (simp add: cached_def)

lemma drop_cached:
  assumes "distinct (cached a)" "e \<in> set (cached a)"
  shows "mset (cached a) = add_mset e (mset (cached (spec_drop (Some e) a)))" "set (cached (spec_drop (Some e) a)) = set (cached a) - {e}"
proof -
  have d: "distinct (cs_lru a)" "distinct (cs_used a)" "set (cs_lru a) \<inter> set (cs_used a) = {}" using assms(1) by (simp_all add: cached_def)
  show "set (cached (spec_drop (Some e) a)) = set (cached a) - {e}" using d by (auto simp: cached_def spec_drop_def)
  show "mset (cached a) = add_mset e (mset (cached (spec_drop (Some e) a)))"
  proof (cases "e \<in> set (cs_lru a)")
    case True
    then have "e \<notin> set (cs_used a)" using d(3) by blast
    then show ?thesis using True by (simp add: cached_def spec_drop_def remove1_idem)
  next
    case False
    then have "e \<in> set (cs_used a)" using assms(2) by (simp add: cached_def)
    then show ?thesis using False by (simp add: cached_def spec_drop_def remove1_idem)
  qed
qed

lemma drop_fields [simp]: "cs_held (spec_drop x a) = cs_held a" "cs_capacity (spec_drop x a) = cs_capacity a" "cs_data (spec_drop x a) = cs_data a"
  "cs_next (spec_drop x a) = cs_next a"
  by (simp_all add: spec_drop_def split: option.split)

lemma FinishErase_refines:
  assumes "refines_upto c a es" "e \<in> set (cached a)" "set_mset es \<subseteq> set (cached a) - {e}" "size (cs_held a) + 1 < 2 ^ 31"
  shows "\<exists>c'. FinishErase e c = Ret c' \<and> refines_upto c' (spec_drop (Some e) a) es \<and> lc_usage c' = lc_usage c - en_charge (cs_data a e) \<and> ledger c' = ledger c"
proof -
  note D = refines_uptoD [OF assms(1)]
  have "e \<in> set (cs_lru a) \<union> set (cs_used a)" using assms(2) by (simp add: cached_def)
  from FinishErase_ok [OF D(1) this assms(4)] obtain c' where c': "FinishErase e c = Ret c'"
    "lists_ok c' (cs_held a) (remove1 e (cs_lru a)) (remove1 e (cs_used a))" "shard_frame c c'"
    "lc_usage c' = lc_usage c - charge_of (lc_mem c) e" "ledger c' = ledger c" by blast
  have "e \<in> dom (lc_mem c) - {1, 2}" by (rule cached_live [OF D(1)]) (use assms(2) in \<open>auto simp: cached_def\<close>)
  then have "charge_of (lc_mem c) e = en_charge (cs_data a e)" using matches_spec(2) [OF D(5)] by blast
  moreover have "refines_upto c' (spec_drop (Some e) a) es"
    by (rule step_upto [OF assms(1) c'(3)])
      (use c'(2) assms(3) drop_cached(2) [OF cached_distinct [OF D(1)] assms(2)] in \<open>simp_all add: spec_drop_def\<close>)
  ultimately show ?thesis using c' by (intro exI [of _ c']) simp
qed

lemma drop_refines:
  assumes "refines_upto c (spec_drop (Some e) a) (mset (cached (spec_drop (Some e) a)))" "distinct (cached a)" "e \<in> set (cached a)"
    and "lc_usage c = charges (cs_data a) (cached a) - en_charge (cs_data a e)" "keys_unique a (set (cached a) - {e})"
  shows "refines c (spec_drop (Some e) a)"
proof -
  note d = drop_cached [OF assms(2,3)]
  have "charges (cs_data a) (cached a) = charges (cs_data a) (e # cached (spec_drop (Some e) a))" using d(1) by (intro charges_mset) simp
  then have "lc_usage c = charges (cs_data a) (cached (spec_drop (Some e) a))" using assms(4) by (simp add: charges_def)
  moreover have "keys_unique (spec_drop (Some e) a) (set (cached (spec_drop (Some e) a)))"
    using assms(5) d(2) by (simp add: keys_unique_def)
  ultimately show ?thesis using assms(1) by (simp add: refines_def)
qed

lemma Erase_refines:
  assumes "refines c a" "size (cs_held a) + 1 < 2 ^ 31"
  shows "\<exists>c'. LRUCache_Erase key hash c = Ret c' \<and> refines c' (spec_erase key hash a) \<and> ledger c' = ledger c"
proof -
  note D = refinesD [OF assms(1)]
  from D(2) obtain bss where bss: "table_ok c bss" "mset (concat bss) = mset (cached a)" by blast
  have sb: "set (concat bss) = set (cached a)" using bss(2) by (metis set_mset_mset)
  have u: "refines_upto c a (mset (cached a))" using assms(1) by (simp add: refines_def)
  from HandleTable_Remove_ok [OF bss(1), of key hash] obtain e c1 bss1 where r: "HandleTable_Remove key hash c = Ret (e, c1)" "table_frame c c1" "table_ok c1 bss1"
    "if e = 0 then c1 = c \<and> bss1 = bss \<and> (\<forall>x\<in>set (cached a). \<not> matches (lc_mem c) key hash x)
     else matches (lc_mem c) key hash e \<and> mset (concat bss) = add_mset e (mset (concat bss1))" unfolding sb by blast
  have live: "dat (lc_mem c) x = Some (entry_dat (cs_data a x))" if "x \<in> set (cached a)" for x
    using D(5) cached_live [OF D(1)] that by (auto simp: cached_def)
  have f: "spec_find key hash a = (if e = 0 then None else Some e)"
  proof (rule found_spec [OF D(7) live])
    assume e: "e \<noteq> 0"
    then have "e \<in># mset (concat bss)" using r(4) by (metis union_single_eq_member)
    then have "e \<in> set (cached a)" using sb by (simp only: set_mset_mset)
    then show "e \<in> set (cached a) \<and> matches (lc_mem c) key hash e" using r(4) e by simp
  qed (use r(4) in simp_all)
  show ?thesis
  proof (cases "e = 0")
    case True
    then show ?thesis using f r(1,4) assms(1) by (intro exI [of _ c]) (simp add: LRUCache_Erase_def spec_erase_def spec_drop_def FinishErase_def)
  next
    case False
    have e: "e \<in> set (cached a)" using f False spec_find_iff(1) [OF D(7), of key hash e] by simp
    note dc = drop_cached [OF cached_distinct [OF D(1)] e]
    have m1: "mset (concat bss1) = mset (cached (spec_drop (Some e) a))" using r(4) False bss(2) dc(1) by simp
    have "set_mset (mset (concat bss1)) \<subseteq> set (cached a) - {e}" unfolding m1 using dc(2) by simp
    from FinishErase_refines [OF upto_frame [OF u r(2,3)] e this assms(2)] obtain c2 where c2: "FinishErase e c1 = Ret c2"
      "refines_upto c2 (spec_drop (Some e) a) (mset (concat bss1))" "lc_usage c2 = lc_usage c1 - en_charge (cs_data a e)" "ledger c2 = ledger c1" by blast
    have "keys_unique a (set (cached a) - {e})" using D(7) by (simp add: keys_unique_def inj_on_diff)
    moreover have "lc_usage c1 = lc_usage c" using r(2) by (simp add: table_frame_def)
    ultimately have "refines c2 (spec_drop (Some e) a)"
      using c2(2,3) m1 D(6) by (intro drop_refines [OF _ cached_distinct [OF D(1)] e]) simp_all
    then show ?thesis using c2(1,4) r(1) f False ledger_frame [OF r(2)] by (intro exI [of _ c2]) (simp add: LRUCache_Erase_def spec_erase_def)
  qed
qed

section \<open>Evicting and pruning\<close>

lemma head_next:
  assumes "lists_ok c H xs ys"
  shows "\<exists>l. get 1 c = Ret l \<and> lh_next l = hd (xs @ [1])"
proof -
  note L = lists_okD(1,2) [OF assms]
  obtain l where l: "lc_mem c 1 = Some l" using L(2) by blast
  have "nx (lc_mem c) 1 = hd (xs @ [1])" using L(1) links_first [of "nx (lc_mem c)" "pv (lc_mem c)" 1 xs 1] by (simp add: rings_def)
  then show ?thesis using l by (intro exI [of _ l]) (simp add: get_def nx_def)
qed

lemma evict_oldest_refines:
  assumes "refines c a" "cs_lru a = x # xs" "size (cs_held a) + 1 < 2 ^ 31"
  shows "\<exists>c'. evict_oldest c = Ret c' \<and> refines c' (a\<lparr>cs_lru := xs\<rparr>) \<and> ledger c' = ledger c"
proof -
  note D = refinesD [OF assms(1)]
  obtain l where l: "get 1 c = Ret l" "lh_next l = x" using head_next [OF D(1)] assms(2) by auto
  have x: "x \<in> set (cached a)" "x \<notin> set (cs_used a)" using cached_distinct [OF D(1)] assms(2) by (simp_all add: cached_def)
  have "x \<in> dom (lc_mem c) - {1, 2}" by (rule cached_live [OF D(1)]) (use assms(2) in simp)
  from D(5) [OF this] obtain h where h: "get x c = Ret h" "lh_key h = en_key (cs_data a x)" "lh_hash h = en_hash (cs_data a x)"
    by (auto simp: dat_def entry_dat_def get_def)
  have "spec_find (lh_key h) (lh_hash h) a = Some x" unfolding spec_find_iff(1) [OF D(7)] using x(1) h(2,3) by simp
  then have "spec_erase (lh_key h) (lh_hash h) a = a\<lparr>cs_lru := xs\<rparr>"
    using assms(2) x(2) by (simp add: spec_erase_def spec_drop_def remove1_idem)
  moreover have "evict_oldest c = LRUCache_Erase (lh_key h) (lh_hash h) c" using l h by (simp add: evict_oldest_def LRUCache_Erase_def)
  ultimately show ?thesis using Erase_refines [OF assms(1,3), of "lh_key h" "lh_hash h"] by simp
qed

lemma not_empty_iff:
  assumes "lists_ok c H xs ys"
  shows "hd (xs @ [1]) \<noteq> 1 \<longleftrightarrow> xs \<noteq> []"
  using lists_okD(11) [OF assms] by (cases xs) auto

lemma evict_loop_refines:
  assumes "refines c a" "size (cs_held a) + 1 < 2 ^ 31" "length (cs_lru a) < fuel"
  shows "\<exists>c'. evict_loop fuel c = Ret c' \<and> refines c' (spec_evict a) \<and> ledger c' = ledger c"
  using assms
proof (induction fuel arbitrary: c a)
  case (Suc fuel)
  note D = refinesD [OF Suc.prems(1)]
  obtain l where l: "get 1 c = Ret l" "lh_next l = hd (cs_lru a @ [1])" using head_next [OF D(1)] by blast
  note e = not_empty_iff [OF D(1)]
  have u: "lc_usage c > lc_capacity c \<longleftrightarrow> charges (cs_data a) (cached a) > cs_capacity a" using D(3,6) by simp
  show ?case
  proof (cases "lc_usage c > lc_capacity c \<and> cs_lru a \<noteq> []")
    case True
    then obtain x xs where xs: "cs_lru a = x # xs" by (meson neq_Nil_conv)
    from evict_oldest_refines [OF Suc.prems(1) xs Suc.prems(2)] obtain c1 where c1: "evict_oldest c = Ret c1" "refines c1 (a\<lparr>cs_lru := xs\<rparr>)" "ledger c1 = ledger c"
      by blast
    have "spec_evict (a\<lparr>cs_lru := xs\<rparr>) = spec_evict a" using True u xs by (simp add: spec_evict_def cached_def)
    then show ?thesis using Suc.IH [OF c1(2)] Suc.prems(2,3) c1(1,3) xs True l e by simp
  next
    case False
    have "spec_evict a = a" using False u by (cases "cs_lru a") (simp_all add: spec_evict_def cached_def)
    then show ?thesis using False l e Suc.prems(1) by (intro exI [of _ c]) auto
  qed
qed simp

lemma Prune_loop_refines:
  assumes "refines c a" "size (cs_held a) + 1 < 2 ^ 31" "length (cs_lru a) < fuel"
  shows "\<exists>c'. Prune_loop fuel c = Ret c' \<and> refines c' (spec_prune a) \<and> ledger c' = ledger c"
  using assms
proof (induction fuel arbitrary: c a)
  case (Suc fuel)
  note D = refinesD [OF Suc.prems(1)]
  obtain l where l: "get 1 c = Ret l" "lh_next l = hd (cs_lru a @ [1])" using head_next [OF D(1)] by blast
  note e = not_empty_iff [OF D(1)]
  show ?case
  proof (cases "cs_lru a")
    case (Cons x xs)
    from evict_oldest_refines [OF Suc.prems(1) Cons Suc.prems(2)] obtain c1 where c1: "evict_oldest c = Ret c1" "refines c1 (a\<lparr>cs_lru := xs\<rparr>)" "ledger c1 = ledger c"
      by blast
    have "spec_prune (a\<lparr>cs_lru := xs\<rparr>) = spec_prune a" by (simp add: spec_prune_def)
    then show ?thesis using Suc.IH [OF c1(2)] Suc.prems(2,3) c1(1,3) Cons l e by simp
  next
    case Nil
    then have "spec_prune a = a" by (simp add: spec_prune_def)
    then show ?thesis using Nil l e Suc.prems(1) by (intro exI [of _ c]) simp
  qed
qed simp

lemma entries_fuel:
  assumes "lists_ok c H xs ys"
  shows "length (xs @ ys) < lc_fresh c"
proof (rule chain_fuel)
  note L = lists_okD [OF assms]
  show "distinct (xs @ ys)" using L(11) by simp
  show "\<forall>e\<in>set (xs @ ys). e < lc_fresh c" using L(2,6) by auto
  show "0 \<notin> set (xs @ ys)" using L(2,3) by auto
  show "0 < lc_fresh c" using L(2) L(6) [of 1] by simp
qed

lemma Prune_refines:
  assumes "refines c a" "size (cs_held a) + 1 < 2 ^ 31"
  shows "\<exists>c'. LRUCache_Prune c = Ret c' \<and> refines c' (spec_prune a) \<and> ledger c' = ledger c"
  unfolding LRUCache_Prune_def
  by (rule Prune_loop_refines [OF assms]) (use entries_fuel [OF refinesD(1) [OF assms(1)]] in simp)

end
