(* ===== verification/Lru_Insert.thy ===== *)
theory Lru_Insert
  imports Lru_Refine
begin

text \<open>
  Inserting into a shard: the new entry, its place on the list of entries in use and in the table, the
  entry that it replaces, and the eviction that follows.
\<close>

section \<open>A new entry\<close>

definition new_handle :: "byte list \<Rightarrow> u32 \<Rightarrow> 'v \<Rightarrow> u64 \<Rightarrow> 'v LRUHandle" where
  "new_handle key hash val charge = \<lparr>lh_value = Some val, lh_next_hash = 0, lh_next = 0, lh_prev = 0, lh_charge = charge, lh_in_cache = False, lh_refs = 1,
     lh_hash = hash, lh_key = key\<rparr>"

definition with_entry :: "'v LRUHandle \<Rightarrow> 'v LRUCache \<Rightarrow> 'v LRUCache" where
  "with_entry h c = c\<lparr>lc_mem := (lc_mem c)(lc_fresh c \<mapsto> h), lc_fresh := lc_fresh c + 1\<rparr>"

lemma with_entry_table:
  assumes "table_ok c bss" "\<And>e. e \<in> dom (lc_mem c) \<Longrightarrow> e < lc_fresh c"
  shows "table_ok (with_entry h c) bss"
proof -
  let ?c = "with_entry h c"
  have b: "buckets_ok c (ht_length c) (ht_list c) bss" using assms(1) by (simp add: table_ok_def)
  have same: "nh (lc_mem ?c) e = nh (lc_mem c) e \<and> hash_of (lc_mem ?c) e = hash_of (lc_mem c) e" if "e \<in> set (concat bss)" for e
  proof -
    have "e \<noteq> lc_fresh c" using b that by (auto simp: buckets_ok_def)
    then show ?thesis by (simp add: with_entry_def nh_def hash_of_def)
  qed
  have "buckets_ok ?c (ht_length c) (ht_list c) bss"
    unfolding buckets_ok_def
  proof (intro conjI allI impI)
    show "set (concat bss) \<subseteq> dom (lc_mem ?c)" using b unfolding buckets_ok_def with_entry_def by auto
    have "\<forall>e\<in>set (concat bss). e < lc_fresh c" using b unfolding buckets_ok_def by blast
    then show "\<forall>e\<in>set (concat bss). e < lc_fresh ?c" unfolding with_entry_def by fastforce
    fix i assume i: "i < length bss"
    have "chain (nh (lc_mem ?c)) (ht_list c ! i) (bss ! i) = chain (nh (lc_mem c)) (ht_list c ! i) (bss ! i)"
      by (rule chain_cong) (use same bucket_subset [OF i] in blast)
    then show "chain (nh (lc_mem ?c)) (ht_list c ! i) (bss ! i)" using b i by (simp add: buckets_ok_def)
    show "\<forall>e\<in>set (bss ! i). bucket (ht_length c) (hash_of (lc_mem ?c) e) = i"
      using b i same bucket_subset [OF i] unfolding buckets_ok_def by (metis subsetD)
  qed (use b in \<open>simp_all add: buckets_ok_def\<close>)
  then show ?thesis using assms(1) by (simp add: table_ok_def with_entry_def)
qed

lemma with_entry_lists:
  assumes "lists_ok c H xs ys" "size H + 1 < 2 ^ 31" "\<not> lh_in_cache h" "lh_refs h = 1"
  shows "lists_ok (with_entry h c) (add_mset (lc_fresh c) H) xs ys"
proof -
  note L = lists_okD [OF assms(1)]
  let ?c = "with_entry h c" and ?e = "lc_fresh c"
  have e: "?e \<notin> dom (lc_mem c)" using L(6) by blast
  have m: "lc_mem ?c = (lc_mem c)(?e \<mapsto> h)" by (simp add: with_entry_def)
  have d: "dom (lc_mem ?c) = insert ?e (dom (lc_mem c))" by (simp add: m)
  have ring: "ring (nx (lc_mem ?c)) (pv (lc_mem ?c)) a zs = ring (nx (lc_mem c)) (pv (lc_mem c)) a zs" if "set (a # zs) \<subseteq> dom (lc_mem c)" for a zs
    unfolding m by (rule links_cong) (use that e in \<open>auto simp: nx_def pv_def\<close>)
  have r: "rings (lc_mem c) 1 xs 2 ys" by (rule L(1))
  show ?thesis
  proof (rule lists_okI)
    have "set (1 # xs) \<subseteq> dom (lc_mem c)" "set (2 # ys) \<subseteq> dom (lc_mem c)" using L(2) by auto
    with ring [of 1 xs] ring [of 2 ys] r d show "rings (lc_mem ?c) 1 xs 2 ys" unfolding rings_def by (simp add: subset_insertI2)
    show "dom (lc_mem ?c) = {1, 2} \<union> set_mset (add_mset ?e H) \<union> set xs \<union> set ys" using d L(2) by auto
    have "0 < ?e" using L(2) L(6) [of 1] by simp
    then show "0 \<notin> dom (lc_mem ?c)" using L(3) d by simp
    show "1 \<notin># add_mset ?e H" "2 \<notin># add_mset ?e H" using L(2,4,5) L(6) [of 1] L(6) [of 2] by simp_all
    show "x < lc_fresh ?c" if "x \<in> dom (lc_mem ?c)" for x
    proof -
      have "lc_fresh ?c = ?e + 1" by (simp add: with_entry_def)
      moreover have "x = ?e \<or> x \<in> dom (lc_mem c)" using that d by blast
      ultimately show ?thesis using L(6) [of x] by (elim disjE) simp_all
    qed
    show "cnt (lc_mem ?c) x = Some (x \<in> set xs \<union> set ys, of_nat (count (add_mset ?e H) x + (if x \<in> set xs \<union> set ys then 1 else 0)))"
      if x: "x \<in> set_mset (add_mset ?e H) \<union> set xs \<union> set ys" for x
    proof (cases "x = ?e")
      case True
      have "?e \<notin> set xs \<union> set ys" "?e \<notin># H" using e L(2) by auto
      moreover from this have "count H ?e = 0" by (simp add: not_in_iff)
      ultimately show ?thesis unfolding m True using assms(3,4) by (simp add: cnt_def)
    next
      case False
      then have "x \<in> set_mset H \<union> set xs \<union> set ys" using x by auto
      from L(7) [OF this] show ?thesis unfolding m using False by (simp add: cnt_def)
    qed
    show "set xs \<inter> set_mset (add_mset ?e H) = {}" using L(2,8) e by auto
    show "set ys \<subseteq> set_mset (add_mset ?e H)" using L(9) by auto
    show "size (add_mset ?e H) < 2 ^ 31" using assms(2) by simp
  qed
qed

lemma new_fields [simp]: "cs_lru (spec_new_entry x a) = cs_lru a" "cs_used (spec_new_entry x a) = cs_used a" "cs_capacity (spec_new_entry x a) = cs_capacity a"
  "cs_held (spec_new_entry x a) = add_mset (cs_next a) (cs_held a)" "cs_next (spec_new_entry x a) = cs_next a + 1"
  "cs_data (spec_new_entry x a) = (cs_data a)(cs_next a := x)" "cached (spec_new_entry x a) = cached a"
  by (simp_all add: spec_new_entry_def cached_def)

lemma with_entry_refines:
  fixes key :: "byte list" and hash :: u32 and val :: 'v and charge :: u64
  assumes "refines c a" "size (cs_held a) + 1 < 2 ^ 31"
  defines "x \<equiv> \<lparr>en_key = key, en_hash = hash, en_value = val, en_charge = charge\<rparr>"
  shows "refines (with_entry (new_handle key hash val charge) c) (spec_new_entry x a)"
    "ledger (with_entry (new_handle key hash val charge) c) = add_mset (key, Some val) (ledger c)"
proof -
  note D = refinesD [OF assms(1)] and L = lists_okD [OF refinesD(1) [OF assms(1)]]
  let ?h = "new_handle key hash val charge"
  let ?c = "with_entry ?h c"
  from D(2) obtain bss where bss: "table_ok c bss" "mset (concat bss) = mset (cached a)" by blast
  have e: "lc_fresh c \<notin> dom (lc_mem c)" using L(6) by blast
  have dat: "dat (lc_mem ?c) e = (if e = lc_fresh c then Some (entry_dat x) else dat (lc_mem c) e)" for e
    by (simp add: with_entry_def dat_def entry_dat_def x_def new_handle_def)
  have dom: "dom (lc_mem ?c) = insert (lc_fresh c) (dom (lc_mem c))" by (simp add: with_entry_def)
  have up: "refines_upto ?c (spec_new_entry x a) (mset (cached a))"
  proof (rule refines_uptoI)
    show "lists_ok ?c (cs_held (spec_new_entry x a)) (cs_lru (spec_new_entry x a)) (cs_used (spec_new_entry x a))"
      using with_entry_lists [OF D(1) assms(2), of ?h] D(4) by (simp add: new_handle_def)
    show "table_ok ?c bss" by (rule with_entry_table [OF bss(1) L(6)])
    show "mset (concat bss) = mset (cached a)" by (rule bss(2))
    show "lc_capacity ?c = cs_capacity (spec_new_entry x a)" "lc_fresh ?c = cs_next (spec_new_entry x a)" using D(3,4) by (simp_all add: with_entry_def)
    show "dat (lc_mem ?c) y = Some (entry_dat (cs_data (spec_new_entry x a) y))" if "y \<in> dom (lc_mem ?c) - {1, 2}" for y
      using that D(4) D(5) [of y] unfolding dat dom by auto
  qed
  have n: "y \<noteq> cs_next a" if "y \<in> set (cached a)" for y
  proof -
    have "y \<in> dom (lc_mem c)" using cached_live [OF D(1)] that by (auto simp: cached_def)
    then show ?thesis using e D(4) by auto
  qed
  have "charges ((cs_data a)(cs_next a := x)) (cached a) = charges (cs_data a) (cached a)"
    unfolding charges_def by (rule arg_cong [OF map_cong [OF refl]]) (use n in auto)
  moreover have "keys_unique (spec_new_entry x a) (set (cached a))" using D(7) n by (simp add: keys_unique_def inj_on_def)
  ultimately show "refines ?c (spec_new_entry x a)" using up D(6) by (simp add: refines_def with_entry_def)
  have ent: "entry_of (lc_mem ?c) y = (if y = lc_fresh c then (key, Some val) else entry_of (lc_mem c) y)" for y
    by (simp add: with_entry_def entry_of_def dat_def new_handle_def)
  have f: "lc_fresh c \<noteq> 1" "lc_fresh c \<noteq> 2" using e L(2) by auto
  have "dom (lc_mem ?c) - {1, 2} = insert (lc_fresh c) (dom (lc_mem c) - {1, 2})" using dom f by auto
  moreover have "finite (dom (lc_mem c) - {1, 2})" using finite_heap [OF D(1)] by simp
  moreover have "image_mset (entry_of (lc_mem ?c)) (mset_set (dom (lc_mem c) - {1, 2})) = image_mset (entry_of (lc_mem c)) (mset_set (dom (lc_mem c) - {1, 2}))"
    by (rule image_mset_cong) (use e calculation(2) in \<open>auto simp: ent elem_mset_set\<close>)
  moreover have "lc_deleted ?c = lc_deleted c" by (simp add: with_entry_def)
  ultimately show "ledger ?c = add_mset (key, Some val) (ledger c)" using e ent [of "lc_fresh c"] by (simp add: ledger_def)
qed

section \<open>Inserting\<close>

text \<open>The new entry gets the reference of the cache and its place on the list of entries in use.\<close>

lemma enlist_ok:
  assumes "lists_ok c H xs ys" "e \<in># H" "e \<notin> set xs \<union> set ys"
  shows "\<exists>c1 c2. modify e (\<lambda>x. x\<lparr>lh_refs := lh_refs x + 1, lh_in_cache := True\<rparr>) c = Ret c1 \<and> LRU_Append 2 e c1 = Ret c2 \<and>
    lists_ok c2 H xs (ys @ [e]) \<and> shard_frame c c2 \<and> lc_usage c2 = lc_usage c \<and> ledger c2 = ledger c"
proof -
  note L = lists_okD [OF assms(1)]
  have "cnt (lc_mem c) e = Some (False, of_nat (count H e))" using L(7) [of e] assms(2,3) by simp
  from modify_cnt [OF this, of "\<lambda>x. x\<lparr>lh_refs := lh_refs x + 1, lh_in_cache := True\<rparr>" True "of_nat (count H e + 1)"]
  obtain m where m: "modify e (\<lambda>x. x\<lparr>lh_refs := lh_refs x + 1, lh_in_cache := True\<rparr>) c = Ret (c\<lparr>lc_mem := m\<rparr>)" "nx m = nx (lc_mem c)" "pv m = pv (lc_mem c)"
    "nh m = nh (lc_mem c)" "dat m = dat (lc_mem c)" "cnt m = (cnt (lc_mem c))(e \<mapsto> (True, of_nat (count H e + 1)))" by auto
  have d: "dom m = dom (lc_mem c)" by (rule dat_eq_dom [OF m(5)])
  have r: "rings (lc_mem (c\<lparr>lc_mem := m\<rparr>)) 1 xs 2 ys" using L(1) rings_cong [OF m(2,3) d] by simp
  have "e \<in> dom (lc_mem (c\<lparr>lc_mem := m\<rparr>))" using d L(2) assms(2) by simp
  moreover have "e \<notin> set (1 # 2 # xs @ ys)" using assms(2,3) L(4,5) by auto
  ultimately obtain m' where m': "LRU_Append 2 e (c\<lparr>lc_mem := m\<rparr>) = Ret (c\<lparr>lc_mem := m'\<rparr>)" "rings m' 1 xs 2 (ys @ [e])" "nh m' = nh m" "core m' = core m"
    using Append_rings [OF r] by auto
  have cf: "dat m' = dat m" "cnt m' = cnt m" "dom m' = dom m" using core_fields [OF m'(4)] core_dom [OF m'(4)] by simp_all
  have "lists_ok (c\<lparr>lc_mem := m'\<rparr>) H xs (ys @ [e])"
  proof (rule lists_okI)
    show "dom (lc_mem (c\<lparr>lc_mem := m'\<rparr>)) = {1, 2} \<union> set_mset H \<union> set xs \<union> set (ys @ [e])" using cf(3) d L(2) assms(2) by auto
    show "0 \<notin> dom (lc_mem (c\<lparr>lc_mem := m'\<rparr>))" using cf(3) d L(3) by simp
    show "x < lc_fresh (c\<lparr>lc_mem := m'\<rparr>)" if "x \<in> dom (lc_mem (c\<lparr>lc_mem := m'\<rparr>))" for x using L(6) [of x] cf(3) d that by simp
    show "cnt (lc_mem (c\<lparr>lc_mem := m'\<rparr>)) x = Some (x \<in> set xs \<union> set (ys @ [e]), of_nat (count H x + (if x \<in> set xs \<union> set (ys @ [e]) then 1 else 0)))"
      if x: "x \<in> set_mset H \<union> set xs \<union> set (ys @ [e])" for x
    proof (cases "x = e")
      case True
      then show ?thesis using cf(2) m(6) by simp
    next
      case False
      then have "x \<in> set_mset H \<union> set xs \<union> set ys" using x by auto
      from L(7) [OF this] show ?thesis using False cf(2) m(6) by simp
    qed
    show "set (ys @ [e]) \<subseteq> set_mset H" using L(9) assms(2) by simp
  qed (use m'(2) L assms(2) in simp_all)
  then show ?thesis using m(1) m'(1) frame_same [of m' c] cf(1) m(4,5) m'(3)
    by (intro exI [of _ "c\<lparr>lc_mem := m\<rparr>"] exI [of _ "c\<lparr>lc_mem := m'\<rparr>"]) simp
qed

lemma refines_upto_usage: "refines_upto (c\<lparr>lc_usage := u\<rparr>) a es = refines_upto c a es"
  by (simp add: refines_upto_def lists_ok_def table_ok_def buckets_ok_def)

lemma keys_unique_new:
  assumes "keys_unique a S" "cs_data b = (cs_data a)(e := x)" "e \<notin> S" "\<And>y. y \<in> S \<Longrightarrow> \<not> (en_key (cs_data a y) = en_key x \<and> en_hash (cs_data a y) = en_hash x)"
  shows "keys_unique b (insert e S)"
proof -
  have "(\<lambda>y. (en_key (cs_data b y), en_hash (cs_data b y))) y = (\<lambda>y. (en_key (cs_data a y), en_hash (cs_data a y))) y" if "y \<in> S" for y
    using that assms(2,3) by auto
  then have "inj_on (\<lambda>y. (en_key (cs_data b y), en_hash (cs_data b y))) S = inj_on (\<lambda>y. (en_key (cs_data a y), en_hash (cs_data a y))) S"
    by (intro inj_on_cong) simp
  then have "inj_on (\<lambda>y. (en_key (cs_data b y), en_hash (cs_data b y))) S" using assms(1) by (simp add: keys_unique_def)
  moreover have "(en_key (cs_data b e), en_hash (cs_data b e)) \<notin> (\<lambda>y. (en_key (cs_data b y), en_hash (cs_data b y))) ` (S - {e})"
  proof
    assume "(en_key (cs_data b e), en_hash (cs_data b e)) \<in> (\<lambda>y. (en_key (cs_data b y), en_hash (cs_data b y))) ` (S - {e})"
    then obtain y where "y \<in> S" "y \<noteq> e" "en_key (cs_data b e) = en_key (cs_data b y)" "en_hash (cs_data b e) = en_hash (cs_data b y)" by auto
    then show False using assms(2) assms(4) [of y] by simp
  qed
  ultimately show ?thesis unfolding keys_unique_def inj_on_insert by simp
qed

text \<open>The entry enters the table, and the one that it replaces leaves the cache.\<close>

lemma table_step:
  assumes "refines c a" "refines_upto c3 b (mset (cached a))" "cs_data b = (cs_data a)(e := x)" "cached b = cached a @ [e]"
    and "lc_usage c3 = charges (cs_data a) (cached a) + en_charge x" "e \<notin> set (cached a)" "size (cs_held b) + 1 < 2 ^ 31" "cs_next b \<le> 2 ^ 31" "e < cs_next b"
  shows "\<exists>old c4 c5. HandleTable_Insert e c3 = Ret (old, c4) \<and> FinishErase old c4 = Ret c5 \<and>
    refines c5 (spec_drop (spec_find (en_key x) (en_hash x) a) b) \<and> ledger c5 = ledger c3"
proof -
  note D = refinesD [OF assms(1)] and U = refines_uptoD [OF assms(2)]
  from U(2) obtain bss where bss: "table_ok c3 bss" "mset (concat bss) = mset (cached a)" by blast
  have sb: "set (concat bss) = set (cached a)" using bss(2) by (metis set_mset_mset)
  have el: "y \<in> dom (lc_mem c3) - {1, 2}" if "y \<in> set (cached b)" for y by (rule cached_live [OF U(1)]) (use that in \<open>auto simp: cached_def\<close>)
  have e: "e \<in> dom (lc_mem c3)" "dat (lc_mem c3) e = Some (entry_dat x)" using el [of e] U(5) [of e] assms(3,4) by auto
  have "0 \<notin> dom (lc_mem c3)" by (rule lists_okD(3) [OF U(1)])
  then have e0: "e \<noteq> 0" using e(1) by metis
  have hk: "key_of (lc_mem c3) e = en_key x" "hash_of (lc_mem c3) e = en_hash x" using dat_hash_key e(2) unfolding entry_dat_def by blast+
  have "length (cs_lru b @ cs_used b) < lc_fresh c3" by (rule entries_fuel [OF U(1)])
  then have "length (cached b) < 2 ^ 31" using U(4) assms(8) unfolding cached_def by linarith
  moreover have "length (concat bss) = length (cached a)" using bss(2) by (metis size_mset)
  ultimately have ln: "length (concat bss) < 2 ^ 31" using assms(4) by simp
  have "e \<notin> set (concat bss)" "e < lc_fresh c3" using assms(6,9) U(4) sb by simp_all
  from HandleTable_Insert_ok [OF bss(1) this(1) e0 e(1) this(2) ln] obtain old c4 bss' where
    ins: "HandleTable_Insert e c3 = Ret (old, c4)" "table_frame c3 c4" "table_ok c4 bss'"
    "if old = 0 then (\<forall>y\<in>set (cached a). \<not> matches (lc_mem c3) (en_key x) (en_hash x) y) \<and> mset (concat bss') = add_mset e (mset (cached a))
     else old \<in> set (cached a) \<and> matches (lc_mem c3) (en_key x) (en_hash x) old \<and> add_mset old (mset (concat bss')) = add_mset e (mset (cached a))"
    unfolding hk sb bss(2) by blast
  have live: "dat (lc_mem c3) y = Some (entry_dat (cs_data a y))" if "y \<in> set (cached a)" for y
    using U(5) [OF el [of y]] that assms(3,4,6) by (metis UnI1 fun_upd_apply set_append)
  have f: "spec_find (en_key x) (en_hash x) a = (if old = 0 then None else Some old)"
    by (rule found_spec [OF D(7) live]) (use ins(4) in simp_all)
  have ch: "charges (cs_data b) (cached b) = lc_usage c3"
  proof -
    have "charges (cs_data b) (cached a) = charges (cs_data a) (cached a)"
      unfolding charges_def by (rule arg_cong [OF map_cong [OF refl]]) (use assms(3,6) in auto)
    then show ?thesis using assms(3,4,5) by (simp add: charges_def)
  qed
  have up: "refines_upto c4 b (mset (concat bss'))" by (rule upto_frame [OF assms(2) ins(2,3)])
  have us: "lc_usage c4 = lc_usage c3" using ins(2) by (simp add: table_frame_def)
  show ?thesis
  proof (cases "old = 0")
    case True
    have m: "mset (concat bss') = mset (cached b)" using ins(4) True assms(4) by simp
    have "\<forall>y\<in>set (cached a). \<not> (en_key (cs_data a y) = en_key x \<and> en_hash (cs_data a y) = en_hash x)"
      using f True spec_find_iff(2) [OF D(7), of "en_key x" "en_hash x"] by simp
    then have "keys_unique b (insert e (set (cached a)))" by (intro keys_unique_new [OF D(7) assms(3,6)]) blast
    moreover have "set (cached b) = insert e (set (cached a))" using assms(4) by simp
    ultimately have "refines c4 b" using up ch us m by (simp add: refines_def)
    then show ?thesis using ins(1) f True ledger_frame [OF ins(2)] by (simp add: FinishErase_def spec_drop_def)
  next
    case False
    have o: "old \<in> set (cached a)" "old \<in> set (cached b)" using ins(4) False assms(4) by simp_all
    have db: "distinct (cached b)" by (rule cached_distinct [OF U(1)])
    note dc = drop_cached [OF db o(2)]
    have m: "mset (concat bss') = mset (cached (spec_drop (Some old) b))" using ins(4) False dc(1) assms(4) by simp
    have "set_mset (mset (concat bss')) \<subseteq> set (cached b) - {old}" unfolding m using dc(2) by simp
    from FinishErase_refines [OF up o(2) this assms(7)] obtain c5 where c5: "FinishErase old c4 = Ret c5" "refines_upto c5 (spec_drop (Some old) b) (mset (concat bss'))"
      "lc_usage c5 = lc_usage c4 - en_charge (cs_data b old)" "ledger c5 = ledger c4" by blast
    have ku: "keys_unique b (set (cached b) - {old})"
    proof -
      have "keys_unique b (insert e (set (cached a) - {old}))"
      proof (rule keys_unique_new [OF _ assms(3)])
        show "keys_unique a (set (cached a) - {old})" using D(7) by (simp add: keys_unique_def inj_on_diff)
        show "e \<notin> set (cached a) - {old}" using assms(6) by simp
        show "\<not> (en_key (cs_data a y) = en_key x \<and> en_hash (cs_data a y) = en_hash x)" if "y \<in> set (cached a) - {old}" for y
          using that f False spec_find_iff(1) [OF D(7), of "en_key x" "en_hash x" y] by auto
      qed
      moreover have "set (cached b) - {old} = insert e (set (cached a) - {old})" using assms(4,6) o(1) by auto
      ultimately show ?thesis by simp
    qed
    have "refines c5 (spec_drop (Some old) b)"
      by (rule drop_refines [OF _ db o(2) _ ku]) (use c5(2,3) m us ch in simp_all)
    then show ?thesis using ins(1) c5(1,4) f False ledger_frame [OF ins(2)] by (intro exI [of _ old] exI [of _ c4] exI [of _ c5]) simp
  qed
qed

lemma Insert_refines:
  assumes "refines c a" "size (cs_held a) + 2 < 2 ^ 31" "cs_next a < 2 ^ 31"
  shows "\<exists>c'. LRUCache_Insert key hash val charge c = Ret (fst (spec_insert key hash val charge a), c') \<and>
    refines c' (snd (spec_insert key hash val charge a)) \<and> ledger c' = add_mset (key, Some val) (ledger c)"
proof -
  note D = refinesD [OF assms(1)]
  define h x e where "h = new_handle key hash val charge" and "x = \<lparr>en_key = key, en_hash = hash, en_value = val, en_charge = charge\<rparr>" and "e = lc_fresh c"
  define b where "b = spec_new_entry x a"
  have sz: "size (cs_held a) + 1 < 2 ^ 31" "size (cs_held b) + 1 < 2 ^ 31" using assms(2) by (simp_all add: b_def)
  have W: "refines (with_entry h c) b" "ledger (with_entry h c) = add_mset (key, Some val) (ledger c)"
    using with_entry_refines [OF assms(1) sz(1)] unfolding h_def x_def b_def by blast+
  note DW = refinesD [OF W(1)]
  define d where "d = (if cs_capacity a > 0 then (spec_drop (spec_find key hash a) b)\<lparr>cs_used := cs_used (spec_drop (spec_find key hash a) b) @ [e]\<rparr> else b)"
  have "\<exists>c1. (if lc_capacity (with_entry h c) > 0 then
        bindO (modify e (\<lambda>x. x\<lparr>lh_refs := lh_refs x + 1, lh_in_cache := True\<rparr>) (with_entry h c)) (\<lambda>c.
        bindO (LRU_Append in_use_list e c) (\<lambda>c.
        bindO (HandleTable_Insert e (c\<lparr>lc_usage := lc_usage c + charge\<rparr>)) (\<lambda>(old, c). FinishErase old c)))
      else modify e (\<lambda>x. x\<lparr>lh_next := 0\<rparr>) (with_entry h c)) = Ret c1 \<and> refines c1 d \<and> ledger c1 = ledger (with_entry h c)"
  proof (cases "cs_capacity a > 0")
    case True
    have en: "e \<in># cs_held b" "e = cs_next a" using D(4) by (simp_all add: b_def e_def)
    have ec: "e \<notin> set (cached a)"
    proof
      assume "e \<in> set (cached a)"
      then have "e \<in> dom (lc_mem c)" using cached_live [OF D(1), of e] by (auto simp: cached_def)
      then show False using lists_okD(6) [OF D(1), of e] by (simp add: e_def)
    qed
    then have "e \<notin> set (cs_lru b) \<union> set (cs_used b)" by (simp add: b_def cached_def)
    from enlist_ok [OF DW(1) en(1) this] obtain c1 c2 where c12: "modify e (\<lambda>x. x\<lparr>lh_refs := lh_refs x + 1, lh_in_cache := True\<rparr>) (with_entry h c) = Ret c1"
      "LRU_Append 2 e c1 = Ret c2" "lists_ok c2 (cs_held b) (cs_lru b) (cs_used b @ [e])" "shard_frame (with_entry h c) c2"
      "lc_usage c2 = lc_usage (with_entry h c)" "ledger c2 = ledger (with_entry h c)" by blast
    define b' c3 where "b' = b\<lparr>cs_used := cs_used b @ [e]\<rparr>" and "c3 = c2\<lparr>lc_usage := lc_usage c2 + charge\<rparr>"
    have "refines_upto (with_entry h c) b (mset (cached a))" using W(1) by (simp add: refines_def b_def)
    then have "refines_upto c2 b' (mset (cached a))"
      by (rule step_upto [OF _ c12(4)]) (use c12(3) in \<open>auto simp: b'_def b_def cached_def\<close>)
    then have u: "refines_upto c3 b' (mset (cached a))" unfolding c3_def refines_upto_usage .
    have "lc_usage c3 = charges (cs_data a) (cached a) + en_charge x" using c12(5) D(6) by (simp add: c3_def with_entry_def x_def)
    from table_step [OF assms(1) u _ _ this ec] obtain old c4 c5 where t: "HandleTable_Insert e c3 = Ret (old, c4)" "FinishErase old c4 = Ret c5"
      "refines c5 (spec_drop (spec_find (en_key x) (en_hash x) a) b')" "ledger c5 = ledger c3"
      using sz(2) assms(3) en(2) by (auto simp: b'_def b_def cached_def)
    have "ledger c3 = ledger c2" by (simp add: c3_def ledger_def)
    moreover have "spec_drop (spec_find key hash a) b' = d"
    proof (cases "spec_find key hash a")
      case None
      then show ?thesis using True by (simp add: spec_drop_def d_def b'_def)
    next
      case (Some old)
      then have "old \<noteq> e" using ec spec_find_iff(1) [OF D(7)] by blast
      then show ?thesis using True Some by (simp add: spec_drop_def d_def b'_def remove1_append remove1_idem)
    qed
    moreover have "lc_capacity (with_entry h c) > 0" using True D(3) by (simp add: with_entry_def)
    ultimately show ?thesis using c12(1,2,6) t by (intro exI [of _ c5]) (simp add: c3_def x_def)
  next
    case False
    have "modify e (\<lambda>x. x\<lparr>lh_next := 0\<rparr>) (with_entry h c) = Ret (with_entry h c)"
      by (simp add: modify_def with_entry_def e_def h_def new_handle_def)
    then show ?thesis using False W(1) D(3) by (simp add: d_def with_entry_def)
  qed
  then obtain c1 where c1: "(if lc_capacity (with_entry h c) > 0 then
        bindO (modify e (\<lambda>x. x\<lparr>lh_refs := lh_refs x + 1, lh_in_cache := True\<rparr>) (with_entry h c)) (\<lambda>c.
        bindO (LRU_Append in_use_list e c) (\<lambda>c.
        bindO (HandleTable_Insert e (c\<lparr>lc_usage := lc_usage c + charge\<rparr>)) (\<lambda>(old, c). FinishErase old c)))
      else modify e (\<lambda>x. x\<lparr>lh_next := 0\<rparr>) (with_entry h c)) = Ret c1" "refines c1 d" "ledger c1 = ledger (with_entry h c)" by blast
  have "size (cs_held d) + 1 < 2 ^ 31" using sz(2) by (simp add: d_def)
  from evict_loop_refines [OF c1(2) this, of "lc_fresh c1"] entries_fuel [OF refinesD(1) [OF c1(2)]]
  obtain c2 where c2: "evict_loop (lc_fresh c1) c1 = Ret c2" "refines c2 (spec_evict d)" "ledger c2 = ledger c1" by auto
  have "spec_insert key hash val charge a = (e, spec_evict d)" using D(4) by (simp add: spec_insert_def Let_def d_def b_def x_def e_def)
  moreover have "LRUCache_Insert key hash val charge c = Ret (e, c2)"
    using c1(1) c2(1) unfolding LRUCache_Insert_def Let_def with_entry_def h_def new_handle_def e_def by simp
  ultimately show ?thesis using c2(2,3) c1(3) W(2) by simp
qed

end
