(* ===== verification/Lru_Run.thy ===== *)
theory Lru_Run
  imports Lru_Insert
begin

text \<open>
  Clients of the sharded cache: any sequence of insertions, lookups, releases of handles that are held,
  erasures and prunings does what the abstract shards do.
\<close>

section \<open>A new cache\<close>

lemma new_refines: "\<exists>c. LRUCache_new = Ret c \<and> refines (SetCapacity capacity c) (spec_new capacity) \<and> ledger (SetCapacity capacity c) = {#}"
proof -
  define c :: "'a LRUCache" where "c = \<lparr>lc_capacity = 0, lc_usage = 0, lc_mem = [1 \<mapsto> list_head 1, 2 \<mapsto> list_head 2], lc_fresh = 3,
    ht_length = 4, ht_elems = 0, ht_list = replicate 4 0, lc_deleted = []\<rparr>"
  let ?c = "SetCapacity capacity c"
  have l: "new_length_loop 40 4 0 = Ret 4" by (simp add: numeral_eq_Suc)
  have n: "LRUCache_new = Ret c" by (simp add: LRUCache_new_def Resize_def l c_def)
  have m: "lc_mem ?c = [1 \<mapsto> list_head 1, 2 \<mapsto> list_head 2]" by (simp add: c_def SetCapacity_def)
  have d: "dom (lc_mem ?c) = {1, 2}" by (auto simp: m)
  have L: "lists_ok ?c {#} [] []"
    by (rule lists_okI) (auto simp: rings_def m nx_def pv_def list_head_def c_def SetCapacity_def split: if_splits)
  define bss :: "nat list list" where "bss = replicate 4 []"
  have b: "length bss = 4" "concat bss = []" "\<And>i. i < 4 \<Longrightarrow> bss ! i = []" unfolding bss_def by simp_all
  have "\<And>i. i < 4 \<Longrightarrow> ht_list ?c ! i = 0" "length (ht_list ?c) = 4" "ht_length ?c = 4" "ht_elems ?c = 0" "lc_fresh ?c = 3"
    by (simp_all add: c_def SetCapacity_def)
  then have T: "table_ok ?c bss" unfolding table_ok_def buckets_ok_def b(1,2) using b(3) by simp
  have "refines_upto ?c (spec_new capacity) {#}"
    by (rule refines_uptoI [OF _ T]) (use L d b(2) in \<open>simp_all add: spec_new_def c_def SetCapacity_def\<close>)
  then have "refines ?c (spec_new capacity)"
    by (simp add: refines_def spec_new_def cached_def charges_def keys_unique_def c_def SetCapacity_def)
  moreover have "ledger ?c = {#}" unfolding ledger_def d by (simp add: c_def SetCapacity_def)
  ultimately show ?thesis using n by blast
qed

section \<open>Clients\<close>

text \<open>A handle is an address in the shard that its hash selects.\<close>

datatype 'v cache_op =
  Op_insert "byte list" 'v u64
| Op_lookup "byte list"
| Op_release "u32 \<times> nat"
| Op_erase "byte list"
| Op_prune

definition cache_step :: "'v cache_op \<Rightarrow> 'v ShardedLRUCache \<Rightarrow> ((u32 \<times> nat) option \<times> 'v ShardedLRUCache) outcome" where
  "cache_step x sc =
     (case x of
        Op_insert k v ch \<Rightarrow> bindO (Sharded_Insert k v ch sc) (\<lambda>(h, sc). Ret (Some h, sc))
      | Op_lookup k \<Rightarrow> Sharded_Lookup k sc
      | Op_release h \<Rightarrow> bindO (Sharded_Release h sc) (\<lambda>sc. Ret (None, sc))
      | Op_erase k \<Rightarrow> bindO (Sharded_Erase k sc) (\<lambda>sc. Ret (None, sc))
      | Op_prune \<Rightarrow> bindO (Sharded_Prune sc) (\<lambda>sc. Ret (None, sc)))"

fun cache_run :: "'v cache_op list \<Rightarrow> 'v ShardedLRUCache \<Rightarrow> ((u32 \<times> nat) option list \<times> 'v ShardedLRUCache) outcome" where
  "cache_run [] sc = Ret ([], sc)"
| "cache_run (x # xs) sc = bindO (cache_step x sc) (\<lambda>(r, sc). bindO (cache_run xs sc) (\<lambda>(rs, sc). Ret (r # rs, sc)))"

text \<open>What the abstract shards do.\<close>

definition spec_step :: "'v cache_op \<Rightarrow> 'v cache_spec list \<Rightarrow> (u32 \<times> nat) option \<times> 'v cache_spec list" where
  "spec_step x as =
     (case x of
        Op_insert k v ch \<Rightarrow> let i = Shard (HashSlice k); (e, a) = spec_insert k (HashSlice k) v ch (as ! i) in (Some (HashSlice k, e), as[i := a])
      | Op_lookup k \<Rightarrow> let i = Shard (HashSlice k); (e, a) = spec_lookup k (HashSlice k) (as ! i) in (if e = 0 then None else Some (HashSlice k, e), as[i := a])
      | Op_release h \<Rightarrow> (None, as[Shard (fst h) := spec_release (snd h) (as ! Shard (fst h))])
      | Op_erase k \<Rightarrow> (None, as[Shard (HashSlice k) := spec_erase k (HashSlice k) (as ! Shard (HashSlice k))])
      | Op_prune \<Rightarrow> (None, map spec_prune as))"

fun spec_run :: "'v cache_op list \<Rightarrow> 'v cache_spec list \<Rightarrow> (u32 \<times> nat) option list \<times> 'v cache_spec list" where
  "spec_run [] as = ([], as)"
| "spec_run (x # xs) as = (let (r, as) = spec_step x as; (rs, as) = spec_run xs as in (r # rs, as))"

text \<open>A client releases handles that it holds, each as often as it got it.\<close>

definition may_do :: "'v cache_op \<Rightarrow> 'v cache_spec list \<Rightarrow> bool" where
  "may_do x as = (case x of Op_release h \<Rightarrow> snd h \<in># cs_held (as ! Shard (fst h)) | _ \<Rightarrow> True)"

fun well_behaved :: "'v cache_op list \<Rightarrow> 'v cache_spec list \<Rightarrow> bool" where
  "well_behaved [] as = True"
| "well_behaved (x # xs) as = (may_do x as \<and> well_behaved xs (snd (spec_step x as)))"

definition inserted :: "'v cache_op list \<Rightarrow> (byte list \<times> 'v option) multiset" where
  "inserted xs = mset (concat (map (\<lambda>x. case x of Op_insert k v ch \<Rightarrow> [(k, Some v)] | _ \<Rightarrow> []) xs))"

definition spec_shards :: "u64 \<Rightarrow> 'v cache_spec list" where
  "spec_shards capacity = replicate 16 (spec_new ((capacity + 15) div 16))"

section \<open>The shards\<close>

lemma Shard_less: "Shard hash < 16"
proof -
  have "unat hash < 2 ^ 32" by (rule order_less_le_trans [OF unsigned_less]) simp
  then have "unat hash div 2 ^ 28 < 16" by (intro less_mult_imp_div_less) simp
  then show ?thesis by (simp only: Shard_def unat_drop_bit_eq) (simp only: drop_bit_eq_div)
qed

text \<open>\<open>n\<close> bounds the operations so far.\<close>

definition shards_refine :: "nat \<Rightarrow> 'v ShardedLRUCache \<Rightarrow> 'v cache_spec list \<Rightarrow> bool" where
  "shards_refine n sc as \<longleftrightarrow> length as = 16 \<and> list_all2 refines (sc_shard sc) as \<and> (\<forall>a\<in>set as. size (cs_held a) \<le> n \<and> cs_next a \<le> n + 3)"

definition ledgers :: "'v ShardedLRUCache \<Rightarrow> (byte list \<times> 'v option) multiset" where
  "ledgers sc = (\<Sum>c\<leftarrow>sc_shard sc. ledger c)"

lemma sum_list_update_mset: "i < length xs \<Longrightarrow> (\<Sum>x\<leftarrow>xs[i := y]. f x) + f (xs ! i) = (\<Sum>x\<leftarrow>xs. f x) + (f y :: 'b multiset)"
proof (induction xs arbitrary: i)
  case (Cons x xs)
  then show ?case by (cases i) (simp_all add: union_ac)
qed simp

lemma shards_refineD:
  assumes "shards_refine n sc as"
  shows "length as = 16" "length (sc_shard sc) = 16" "i < 16 \<Longrightarrow> refines (sc_shard sc ! i) (as ! i)" "i < 16 \<Longrightarrow> size (cs_held (as ! i)) \<le> n" "i < 16 \<Longrightarrow> cs_next (as ! i) \<le> n + 3"
  using assms unfolding shards_refine_def by (auto simp: list_all2_conv_all_nth)

text \<open>One shard changes.\<close>

lemma shard_update:
  assumes "shards_refine n sc as" "i < 16" "refines c a" "ledger c = ledger (sc_shard sc ! i) + l" "size (cs_held a) \<le> n + 1" "cs_next a \<le> n + 4"
  shows "shards_refine (n + 1) (sc\<lparr>sc_shard := (sc_shard sc)[i := c]\<rparr>) (as[i := a]) \<and> ledgers (sc\<lparr>sc_shard := (sc_shard sc)[i := c]\<rparr>) = ledgers sc + l"
proof
  note S = shards_refineD [OF assms(1)]
  have "size (cs_held b) \<le> n + 1 \<and> cs_next b \<le> n + 4" if "b \<in> set (as[i := a])" for b
  proof -
    have "b = a \<or> b \<in> set as" using that set_update_subset_insert [of as i a] by blast
    then show ?thesis using assms(1,5,6) unfolding shards_refine_def by fastforce
  qed
  moreover have "list_all2 refines ((sc_shard sc)[i := c]) (as[i := a])"
    using assms(1,3) by (intro list_all2_update_cong) (simp_all add: shards_refine_def)
  ultimately show "shards_refine (n + 1) (sc\<lparr>sc_shard := (sc_shard sc)[i := c]\<rparr>) (as[i := a])" using S(1) by (simp add: shards_refine_def add.commute)
  show "ledgers (sc\<lparr>sc_shard := (sc_shard sc)[i := c]\<rparr>) = ledgers sc + l"
    using sum_list_update_mset [of i "sc_shard sc" ledger c] assms(2,4) S(2) by (simp add: ledgers_def union_ac)
qed

lemma on_shard_ok: "shards_refine n sc as \<Longrightarrow>
    on_shard hash f sc = bindO (f (sc_shard sc ! Shard hash)) (\<lambda>(r, c). Ret (r, sc\<lparr>sc_shard := (sc_shard sc)[Shard hash := c]\<rparr>))"
  using Shard_less [of hash] shards_refineD(2) [of n sc as] by (simp add: on_shard_def)

lemma spec_sizes:
  "cs_held (snd (spec_insert k h v ch a)) = add_mset (cs_next a) (cs_held a)" "cs_next (snd (spec_insert k h v ch a)) = cs_next a + 1"
  "size (cs_held (snd (spec_lookup k h a))) \<le> size (cs_held a) + 1" "cs_next (snd (spec_lookup k h a)) = cs_next a"
  "size (cs_held (spec_release e a)) \<le> size (cs_held a)" "cs_next (spec_release e a) = cs_next a"
  "cs_held (spec_erase k h a) = cs_held a" "cs_next (spec_erase k h a) = cs_next a"
  by (simp_all add: spec_insert_def Let_def spec_evict_def spec_lookup_def spec_ref_def spec_release_def spec_erase_def size_mset_mono split: option.split)

lemma step_correct:
  assumes "shards_refine n sc as" "may_do x as" "n < 2 ^ 30"
  shows "\<exists>sc'. cache_step x sc = Ret (fst (spec_step x as), sc') \<and> shards_refine (n + 1) sc' (snd (spec_step x as)) \<and> ledgers sc' = ledgers sc + inserted [x]"
proof -
  note S = shards_refineD [OF assms(1)]
  have R: "refines (sc_shard sc ! Shard h) (as ! Shard h)" "size (cs_held (as ! Shard h)) \<le> n" "cs_next (as ! Shard h) \<le> n + 3" for h
    using S(3-5) [OF Shard_less] by simp_all
  have b: "size (cs_held (as ! Shard h)) + 2 < 2 ^ 31" "size (cs_held (as ! Shard h)) + 1 < 2 ^ 31" "cs_next (as ! Shard h) < 2 ^ 31" for h
    using R(2,3) [of h] assms(3) by simp_all
  note up = shard_update [OF assms(1) Shard_less]
  show ?thesis
  proof (cases x)
    case (Op_insert k v ch)
    let ?h = "HashSlice k" and ?a = "as ! Shard (HashSlice k)"
    obtain c where c: "LRUCache_Insert k ?h v ch (sc_shard sc ! Shard ?h) = Ret (fst (spec_insert k ?h v ch ?a), c)" "refines c (snd (spec_insert k ?h v ch ?a))"
      "ledger c = add_mset (k, Some v) (ledger (sc_shard sc ! Shard ?h))" using Insert_refines [OF R(1) b(1,3), of k ?h v ch ?h] by blast
    have "cache_step x sc = Ret (Some (?h, fst (spec_insert k ?h v ch ?a)), sc\<lparr>sc_shard := (sc_shard sc)[Shard ?h := c]\<rparr>)"
      using c(1) by (simp add: on_shard_ok [OF assms(1)] Op_insert cache_step_def Sharded_Insert_def Let_def)
    moreover have "spec_step x as = (Some (?h, fst (spec_insert k ?h v ch ?a)), as[Shard ?h := snd (spec_insert k ?h v ch ?a)])"
      by (simp add: Op_insert spec_step_def Let_def split_beta)
    moreover have "inserted [x] = {#(k, Some v)#}" by (simp add: Op_insert inserted_def)
    ultimately show ?thesis using up [OF c(2), where l = "{#(k, Some v)#}"] c(3) spec_sizes(1,2) [of k ?h v ch ?a] R(2,3) [of ?h]
      by (intro exI [of _ "sc\<lparr>sc_shard := (sc_shard sc)[Shard ?h := c]\<rparr>"]) simp
  next
    case (Op_lookup k)
    let ?h = "HashSlice k" and ?a = "as ! Shard (HashSlice k)"
    obtain c where c: "LRUCache_Lookup k ?h (sc_shard sc ! Shard ?h) = Ret (fst (spec_lookup k ?h ?a), c)" "refines c (snd (spec_lookup k ?h ?a))"
      "ledger c = ledger (sc_shard sc ! Shard ?h)" using Lookup_refines [OF R(1) b(2), of k ?h ?h] by blast
    let ?r = "if fst (spec_lookup k ?h ?a) = 0 then None else Some (?h, fst (spec_lookup k ?h ?a))"
    have "cache_step x sc = Ret (?r, sc\<lparr>sc_shard := (sc_shard sc)[Shard ?h := c]\<rparr>)"
      using c(1) by (simp add: on_shard_ok [OF assms(1)] Op_lookup cache_step_def Sharded_Lookup_def Let_def)
    moreover have "spec_step x as = (?r, as[Shard ?h := snd (spec_lookup k ?h ?a)])"
      by (simp add: Op_lookup spec_step_def Let_def split_beta)
    moreover have "inserted [x] = {#}" by (simp add: Op_lookup inserted_def)
    ultimately show ?thesis using up [OF c(2), where l = "{#}"] c(3) spec_sizes(3,4) [of k ?h ?a] R(2,3) [of ?h]
      by (intro exI [of _ "sc\<lparr>sc_shard := (sc_shard sc)[Shard ?h := c]\<rparr>"]) simp
  next
    case (Op_release h)
    let ?a = "as ! Shard (fst h)"
    have "snd h \<in># cs_held ?a" using assms(2) by (simp add: may_do_def Op_release)
    from Release_refines [OF R(1) this] obtain c where c: "LRUCache_Release (snd h) (sc_shard sc ! Shard (fst h)) = Ret c" "refines c (spec_release (snd h) ?a)"
      "ledger c = ledger (sc_shard sc ! Shard (fst h))" by blast
    have "cache_step x sc = Ret (None, sc\<lparr>sc_shard := (sc_shard sc)[Shard (fst h) := c]\<rparr>)"
      using c(1) by (simp add: on_shard_ok [OF assms(1)] Op_release cache_step_def Sharded_Release_def)
    moreover have "spec_step x as = (None, as[Shard (fst h) := spec_release (snd h) ?a])" by (simp add: Op_release spec_step_def)
    moreover have "inserted [x] = {#}" by (simp add: Op_release inserted_def)
    ultimately show ?thesis using up [OF c(2), where l = "{#}"] c(3) spec_sizes(5,6) [of "snd h" ?a] R(2,3) [of "fst h"]
      by (intro exI [of _ "sc\<lparr>sc_shard := (sc_shard sc)[Shard (fst h) := c]\<rparr>"]) simp
  next
    case (Op_erase k)
    let ?h = "HashSlice k" and ?a = "as ! Shard (HashSlice k)"
    obtain c where c: "LRUCache_Erase k ?h (sc_shard sc ! Shard ?h) = Ret c" "refines c (spec_erase k ?h ?a)" "ledger c = ledger (sc_shard sc ! Shard ?h)"
      using Erase_refines [OF R(1) b(2), of k ?h ?h] by blast
    have "cache_step x sc = Ret (None, sc\<lparr>sc_shard := (sc_shard sc)[Shard ?h := c]\<rparr>)"
      using c(1) by (simp add: on_shard_ok [OF assms(1)] Op_erase cache_step_def Sharded_Erase_def Let_def)
    moreover have "spec_step x as = (None, as[Shard ?h := spec_erase k ?h ?a])" by (simp add: Op_erase spec_step_def)
    moreover have "inserted [x] = {#}" by (simp add: Op_erase inserted_def)
    ultimately show ?thesis using up [OF c(2), where l = "{#}"] c(3) spec_sizes(7,8) [of k ?h ?a] R(2,3) [of ?h]
      by (intro exI [of _ "sc\<lparr>sc_shard := (sc_shard sc)[Shard ?h := c]\<rparr>"]) simp
  next
    case Op_prune
    have P: "\<exists>cs'. Prune_shards cs = Ret cs' \<and> list_all2 refines cs' (map spec_prune bs) \<and> (\<Sum>c\<leftarrow>cs'. ledger c) = (\<Sum>c\<leftarrow>cs. ledger c)"
      if "list_all2 refines cs bs" "\<forall>a\<in>set bs. size (cs_held a) + 1 < 2 ^ 31" for cs :: "'a LRUCache list" and bs
      using that
    proof (induction rule: list_all2_induct)
      case (Cons c cs b bs)
      then obtain c' where c': "LRUCache_Prune c = Ret c'" "refines c' (spec_prune b)" "ledger c' = ledger c" using Prune_refines [of c b] by auto
      from Cons obtain cs' where "Prune_shards cs = Ret cs'" "list_all2 refines cs' (map spec_prune bs)" "(\<Sum>c\<leftarrow>cs'. ledger c) = (\<Sum>c\<leftarrow>cs. ledger c)" by auto
      with c' show ?case by (intro exI [of _ "c' # cs'"]) simp
    qed simp
    have "\<forall>a\<in>set as. size (cs_held a) + 1 < 2 ^ 31" using assms(1,3) unfolding shards_refine_def by fastforce
    with P [of "sc_shard sc" as] assms(1) obtain cs where cs: "Prune_shards (sc_shard sc) = Ret cs" "list_all2 refines cs (map spec_prune as)"
      "(\<Sum>c\<leftarrow>cs. ledger c) = (\<Sum>c\<leftarrow>sc_shard sc. ledger c)" unfolding shards_refine_def by blast
    have "shards_refine (n + 1) (sc\<lparr>sc_shard := cs\<rparr>) (map spec_prune as)"
      using assms(1) cs(2) unfolding shards_refine_def by (fastforce simp: spec_prune_def)
    then show ?thesis using cs by (intro exI [of _ "sc\<lparr>sc_shard := cs\<rparr>"]) (simp add: Op_prune cache_step_def Sharded_Prune_def spec_step_def ledgers_def inserted_def)
  qed
qed

lemma run_correct:
  assumes "shards_refine n sc as" "well_behaved xs as" "n + length xs < 2 ^ 30"
  shows "\<exists>sc'. cache_run xs sc = Ret (fst (spec_run xs as), sc') \<and> shards_refine (n + length xs) sc' (snd (spec_run xs as)) \<and>
    ledgers sc' = ledgers sc + inserted xs"
  using assms
proof (induction xs arbitrary: n sc as)
  case Nil
  then show ?case by (simp add: inserted_def)
next
  case (Cons x xs)
  from step_correct [OF Cons.prems(1)] Cons.prems(2,3) obtain sc1 where s: "cache_step x sc = Ret (fst (spec_step x as), sc1)"
    "shards_refine (n + 1) sc1 (snd (spec_step x as))" "ledgers sc1 = ledgers sc + inserted [x]" by auto
  have "well_behaved xs (snd (spec_step x as))" "n + 1 + length xs < 2 ^ 30" using Cons.prems(2,3) by simp_all
  from Cons.IH [OF s(2) this] obtain sc2 where r: "cache_run xs sc1 = Ret (fst (spec_run xs (snd (spec_step x as))), sc2)"
    "shards_refine (n + 1 + length xs) sc2 (snd (spec_run xs (snd (spec_step x as))))" "ledgers sc2 = ledgers sc1 + inserted xs" by blast
  have "inserted (x # xs) = inserted [x] + inserted xs" by (simp add: inserted_def)
  then show ?case using s(1,3) r by (intro exI [of _ sc2]) (simp add: split_beta union_ac)
qed

lemma new_shards: "\<exists>sc :: 'v ShardedLRUCache. ShardedLRUCache_new capacity = Ret sc \<and> shards_refine 0 sc (spec_shards capacity) \<and> ledgers sc = {#}"
proof -
  obtain c :: "'v LRUCache" where c: "LRUCache_new = Ret c" "refines (SetCapacity ((capacity + 15) div 16) c) (spec_new ((capacity + 15) div 16))"
    "ledger (SetCapacity ((capacity + 15) div 16) c) = {#}" using new_refines by blast
  have e: "sum_list (replicate n ({#} :: (byte list \<times> 'v option) multiset)) = {#}" for n by (induction n) simp_all
  have h: "size (cs_held (spec_new ((capacity + 15) div 16) :: 'v cache_spec)) = 0" "cs_next (spec_new ((capacity + 15) div 16) :: 'v cache_spec) = 3" by (simp_all add: spec_new_def)
  let ?sc = "\<lparr>sc_shard = replicate 16 (SetCapacity ((capacity + 15) div 16) c), sc_last_id = 0\<rparr>"
  have "ShardedLRUCache_new capacity = Ret ?sc" by (simp only: ShardedLRUCache_new_def c(1) bindO.simps Let_def)
  then show ?thesis using c(2,3) e h by (intro exI [of _ ?sc]) (simp add: shards_refine_def spec_shards_def ledgers_def list_all2_conv_all_nth)
qed

end
