(* ===== verification/Lru_Props.thy ===== *)
theory Lru_Props
  imports Lru_Run
begin

text \<open>
  What clients of the sharded cache rely on: the refinement of the abstract shards, that a lookup finds the
  latest insertion under its key, that every entry is deleted exactly once, and that an insertion leaves no
  more than the capacity while something can be evicted.
\<close>

section \<open>Lookups find the latest insertion\<close>

definition apply_op :: "'v cache_op \<Rightarrow> (byte list \<Rightarrow> 'v option) \<Rightarrow> byte list \<Rightarrow> 'v option" where
  "apply_op x m = (case x of Op_insert k v ch \<Rightarrow> m(k := Some v) | Op_erase k \<Rightarrow> m(k := None) | _ \<Rightarrow> m)"

definition latest :: "'v cache_op list \<Rightarrow> byte list \<Rightarrow> 'v option" where
  "latest xs = fold apply_op xs (\<lambda>_. None)"

definition entries_latest :: "(byte list \<Rightarrow> 'v option) \<Rightarrow> nat \<Rightarrow> 'v cache_spec \<Rightarrow> bool" where
  "entries_latest m i a \<longleftrightarrow> (cs_capacity a = 0 \<longrightarrow> cached a = []) \<and> (\<forall>e\<in>set (cached a). let x = cs_data a e
     in en_hash x = HashSlice (en_key x) \<and> Shard (en_hash x) = i \<and> m (en_key x) = Some (en_value x))"

definition all_latest :: "(byte list \<Rightarrow> 'v option) \<Rightarrow> 'v cache_spec list \<Rightarrow> bool" where
  "all_latest m as \<longleftrightarrow> (\<forall>i < length as. entries_latest m i (as ! i))"

lemma entries_latestD:
  assumes "entries_latest m i a" "e \<in> set (cached a)"
  shows "en_hash (cs_data a e) = HashSlice (en_key (cs_data a e))" "Shard (HashSlice (en_key (cs_data a e))) = i" "m (en_key (cs_data a e)) = Some (en_value (cs_data a e))"
  using assms by (auto simp: entries_latest_def Let_def)

lemma entries_latest_mono:
  assumes "entries_latest m i a" "set (cached b) \<subseteq> set (cached a)" "\<And>e. e \<in> set (cached b) \<Longrightarrow> cs_data b e = cs_data a e"
    and "cs_capacity b = cs_capacity a" "\<And>e. e \<in> set (cached b) \<Longrightarrow> m' (en_key (cs_data a e)) = m (en_key (cs_data a e))"
  shows "entries_latest m' i b"
proof -
  have "cs_capacity b = 0 \<longrightarrow> cached b = []" using assms(1,2,4) unfolding entries_latest_def by (metis empty_set set_empty subset_empty)
  moreover have "let x = cs_data b e in en_hash x = HashSlice (en_key x) \<and> Shard (en_hash x) = i \<and> m' (en_key x) = Some (en_value x)" if "e \<in> set (cached b)" for e
    using assms(1) assms(2,3,5) that unfolding entries_latest_def Let_def by (metis subsetD)
  ultimately show ?thesis unfolding entries_latest_def by blast
qed

lemma all_latest_update:
  assumes "all_latest m as" "i < length as" "entries_latest m' i a" "\<And>j. j < length as \<Longrightarrow> j \<noteq> i \<Longrightarrow> entries_latest m' j (as ! j)"
  shows "all_latest m' (as[i := a])"
  using assms(2-4) by (simp add: all_latest_def nth_list_update)

text \<open>A change to a key of one shard does not concern the entries of the others.\<close>

lemma other_shard:
  assumes "all_latest m as" "j < length as" "j \<noteq> Shard (HashSlice k)"
  shows "entries_latest (m(k := v)) j (as ! j)"
  using assms unfolding all_latest_def entries_latest_def Let_def by (metis fun_upd_apply)

lemma ref_cached: "e \<in> set (cached a) \<Longrightarrow> set (cached (spec_ref e a)) \<subseteq> set (cached a)"
  using set_remove1_subset [of e "cs_lru a"] by (auto simp: cached_def spec_ref_def)

lemma release_cached: "set (cached (spec_release e a)) \<subseteq> set (cached a)"
  using set_remove1_subset [of e "cs_used a"] by (auto simp: cached_def spec_release_def Let_def)

lemma evict_subset: "set (evict cap d xs ys) \<subseteq> set xs"
  by (induction xs) auto

lemma evict_cached: "set (cached (spec_evict a)) \<subseteq> set (cached a)"
  using evict_subset [of "cs_capacity a" "cs_data a" "cs_lru a" "cs_used a"] by (auto simp: cached_def spec_evict_def)

lemma drop_subset: "set (cached (spec_drop x a)) \<subseteq> set (cached a)"
  using set_remove1_subset [of "the x" "cs_lru a"] set_remove1_subset [of "the x" "cs_used a"] by (cases x) (auto simp: cached_def spec_drop_def)

text \<open>What is cached after an insertion.\<close>

lemma insert_cached:
  assumes "e \<in> set (cached (snd (spec_insert k h v ch a)))"
  shows "if cs_capacity a > 0 then e = cs_next a \<or> e \<in> set (cached (spec_drop (spec_find k h a) a)) else e \<in> set (cached a)"
proof (cases "cs_capacity a > 0")
  case True
  let ?b = "spec_drop (spec_find k h a) (spec_new_entry \<lparr>en_key = k, en_hash = h, en_value = v, en_charge = ch\<rparr> a)"
  let ?c = "?b\<lparr>cs_used := cs_used ?b @ [cs_next a]\<rparr>"
  have "snd (spec_insert k h v ch a) = spec_evict ?c" using True by (simp add: spec_insert_def Let_def)
  from assms [unfolded this] have "e \<in> set (cached ?c)" by (rule subsetD [OF evict_cached])
  then show ?thesis using True by (cases "spec_find k h a") (auto simp: cached_def spec_drop_def)
next
  case False
  then have "snd (spec_insert k h v ch a) = spec_evict (spec_new_entry \<lparr>en_key = k, en_hash = h, en_value = v, en_charge = ch\<rparr> a)"
    by (simp add: spec_insert_def Let_def)
  from assms [unfolded this] have "e \<in> set (cached (spec_new_entry \<lparr>en_key = k, en_hash = h, en_value = v, en_charge = ch\<rparr> a))"
    by (rule subsetD [OF evict_cached])
  then show ?thesis using False by simp
qed

text \<open>Once the entry with a key is dropped, no entry has it.\<close>

lemma dropped:
  assumes "refines c a" "entries_latest m i a" "e \<in> set (cached (spec_drop (spec_find k (HashSlice k) a) a))"
  shows "en_key (cs_data a e) \<noteq> k"
proof
  assume k: "en_key (cs_data a e) = k"
  note D = refinesD [OF assms(1)]
  have e: "e \<in> set (cached a)" using assms(3) drop_subset by blast
  then have "en_hash (cs_data a e) = HashSlice k" using assms(2) k by (auto simp: entries_latest_def Let_def)
  then have "spec_find k (HashSlice k) a = Some e" using spec_find_iff(1) [OF D(7)] e k by simp
  then show False using assms(3) drop_cached(2) [OF cached_distinct [OF D(1)] e] by simp
qed

lemma spec_step_latest:
  assumes "shards_refine n sc as" "all_latest m as"
  shows "all_latest (apply_op x m) (snd (spec_step x as))"
proof -
  note S = shards_refineD [OF assms(1)]
  have A: "Shard h < length as" "refines (sc_shard sc ! Shard h) (as ! Shard h)" "entries_latest m (Shard h) (as ! Shard h)" for h
    using S(1,3) Shard_less [of h] assms(2) by (simp_all add: all_latest_def)
  have O: "entries_latest m j (as ! j)" if "j < length as" for j using assms(2) that by (simp add: all_latest_def)
  show ?thesis
  proof (cases x)
    case (Op_insert k v ch)
    let ?h = "HashSlice k" and ?a = "as ! Shard (HashSlice k)"
    let ?x = "\<lparr>en_key = k, en_hash = ?h, en_value = v, en_charge = ch\<rparr>" and ?e = "cs_next ?a"
    let ?r = "snd (spec_insert k ?h v ch ?a)"
    have data: "cs_data ?r = (cs_data ?a)(?e := ?x)" by (simp add: spec_insert_def Let_def spec_evict_def)
    have cap: "cs_capacity ?r = cs_capacity ?a" by (simp add: spec_insert_def Let_def spec_evict_def)
    have "cached ?r = []" if "cs_capacity ?a = 0"
    proof -
      have "cached ?a = []" using A(3) [of ?h] that by (simp add: entries_latest_def)
      then have "e \<notin> set (cached ?r)" for e using insert_cached [of e k ?h v ch ?a] that by auto
      then show ?thesis by (metis list.set_intros(1) neq_Nil_conv)
    qed
    moreover have "let y = cs_data ?r e in en_hash y = HashSlice (en_key y) \<and> Shard (en_hash y) = Shard ?h \<and> (m(k := Some v)) (en_key y) = Some (en_value y)"
      if e: "e \<in> set (cached ?r)" for e
    proof (cases "e = ?e")
      case False
      have "cs_capacity ?a \<noteq> 0" using calculation e by auto
      then have "cs_capacity ?a > 0" by (simp add: word_neq_0_conv)
      then have d: "e \<in> set (cached (spec_drop (spec_find k ?h ?a) ?a))" using insert_cached [OF e] False by simp
      then have "en_key (cs_data ?a e) \<noteq> k" by (rule dropped [OF A(2,3)])
      moreover have "e \<in> set (cached ?a)" using d drop_subset by blast
      ultimately show ?thesis using entries_latestD [OF A(3), of e ?h] False unfolding data Let_def by simp
    qed (simp add: data)
    ultimately have "entries_latest (m(k := Some v)) (Shard ?h) ?r" unfolding entries_latest_def cap by blast
    then have "all_latest (m(k := Some v)) (as[Shard ?h := ?r])" by (rule all_latest_update [OF assms(2) A(1)]) (rule other_shard [OF assms(2)])
    then show ?thesis by (simp add: Op_insert spec_step_def apply_op_def Let_def split_beta)
  next
    case (Op_lookup k)
    let ?h = "HashSlice k" and ?a = "as ! Shard (HashSlice k)"
    have "entries_latest m (Shard ?h) (snd (spec_lookup k ?h ?a))"
    proof (cases "spec_find k ?h ?a")
      case (Some e)
      then have "e \<in> set (cached ?a)" using spec_find_iff(1) [OF refinesD(7) [OF A(2)]] by blast
      from ref_cached [OF this] show ?thesis
        using Some by (intro entries_latest_mono [OF A(3)]) (simp_all add: spec_lookup_def spec_ref_def)
    qed (simp add: spec_lookup_def A(3))
    then show ?thesis using all_latest_update [OF assms(2) A(1)] O by (simp add: Op_lookup spec_step_def apply_op_def Let_def split_beta)
  next
    case (Op_release h)
    have "entries_latest m (Shard (fst h)) (spec_release (snd h) (as ! Shard (fst h)))"
      by (rule entries_latest_mono [OF A(3) release_cached]) (simp_all add: spec_release_def Let_def)
    then show ?thesis using all_latest_update [OF assms(2) A(1)] O by (simp add: Op_release spec_step_def apply_op_def)
  next
    case (Op_erase k)
    let ?h = "HashSlice k" and ?a = "as ! Shard (HashSlice k)"
    have "entries_latest (m(k := None)) (Shard ?h) (spec_erase k ?h ?a)"
      unfolding spec_erase_def by (rule entries_latest_mono [OF A(3) drop_subset]) (use dropped [OF A(2,3)] in simp_all)
    then have "all_latest (m(k := None)) (as[Shard ?h := spec_erase k ?h ?a])"
      by (rule all_latest_update [OF assms(2) A(1)]) (rule other_shard [OF assms(2)])
    then show ?thesis by (simp add: Op_erase spec_step_def apply_op_def)
  next
    case Op_prune
    have "entries_latest m j (spec_prune (as ! j))" if "j < length as" for j
      by (rule entries_latest_mono [OF O [OF that]]) (auto simp: cached_def spec_prune_def)
    then show ?thesis by (simp add: Op_prune spec_step_def apply_op_def all_latest_def)
  qed
qed

lemma run_latest:
  assumes "shards_refine n sc as" "well_behaved xs as" "n + length xs < 2 ^ 30" "all_latest m as"
  shows "all_latest (fold apply_op xs m) (snd (spec_run xs as))"
  using assms
proof (induction xs arbitrary: n sc as m)
  case (Cons x xs)
  from step_correct [OF Cons.prems(1), of x] Cons.prems(2,3) obtain sc1 where s: "shards_refine (n + 1) sc1 (snd (spec_step x as))" by auto
  have "well_behaved xs (snd (spec_step x as))" "n + 1 + length xs < 2 ^ 30" using Cons.prems(2,3) by simp_all
  from Cons.IH [OF s this spec_step_latest [OF Cons.prems(1,4)]] show ?case by (simp add: split_beta)
qed simp

lemma held_value:
  assumes "refines c a" "e \<in># cs_held a"
  shows "\<exists>h. get e c = Ret h \<and> lh_value h = Some (en_value (cs_data a e))"
proof -
  note D = refinesD [OF assms(1)]
  have "e \<in> dom (lc_mem c) - {1, 2}" by (rule cached_live [OF D(1)]) (use assms(2) in simp)
  from D(5) [OF this] show ?thesis by (auto simp: dat_def entry_dat_def get_def)
qed

section \<open>The destructor\<close>

fun forward :: "(nat \<Rightarrow> nat) \<Rightarrow> nat \<Rightarrow> nat list \<Rightarrow> bool" where
  "forward n e [] \<longleftrightarrow> e = 1"
| "forward n e (x # xs) \<longleftrightarrow> e = x \<and> forward n (n x) xs"

lemma forward_cong: "(\<And>x. x \<in> set xs \<Longrightarrow> n' x = n x) \<Longrightarrow> forward n' e xs = forward n e xs"
  by (induction xs arbitrary: e) auto

lemma ring_forward: "links n p a xs 1 \<Longrightarrow> forward n (n a) xs"
  by (induction xs arbitrary: a) auto

text \<open>Every entry is freed once, after the pointer to the next one was read.\<close>

lemma destroy_loop_ok:
  assumes "forward (nx (lc_mem c)) e xs" "distinct xs" "1 \<notin> set xs" "\<And>x. x \<in> set xs \<Longrightarrow> cnt (lc_mem c) x = Some (True, 1)" "length xs < fuel"
  shows "\<exists>c'. destroy_loop fuel e c = Ret c' \<and> lc_deleted c' = lc_deleted c @ map (entry_of (lc_mem c)) xs"
  using assms
proof (induction xs arbitrary: c e fuel)
  case Nil
  then show ?case by (cases fuel) simp_all
next
  case (Cons x xs)
  obtain f where f: "fuel = Suc f" "length xs < f" using Cons.prems(5) by (cases fuel) simp_all
  have x: "e = x" "x \<noteq> 1" "x \<notin> set xs" using Cons.prems(1-3) by auto
  obtain h where h: "lc_mem c x = Some h" "lh_refs h = 1" using Cons.prems(4) [of x] by (auto simp: cnt_def)
  define m where "m = (lc_mem c)(x \<mapsto> h\<lparr>lh_in_cache := False, lh_refs := 0\<rparr>, x := None)"
  let ?c = "c\<lparr>lc_deleted := lc_deleted c @ [(lh_key h, lh_value h)], lc_mem := m\<rparr>"
  have m: "m = (lc_mem c)(x := None)" by (simp add: m_def)
  have same: "nx m y = nx (lc_mem c) y" "cnt m y = cnt (lc_mem c) y" "entry_of m y = entry_of (lc_mem c) y" if "y \<in> set xs" for y
    using that x(3) by (auto simp: m nx_def cnt_def entry_of_def dat_def)
  have "nx (lc_mem c) x = lh_next h" using h(1) by (simp add: nx_def)
  then have "forward (nx (lc_mem c)) (lh_next h) xs" using Cons.prems(1) by simp
  then have "forward (nx (lc_mem ?c)) (lh_next h) xs" using same(1) by (subst forward_cong [where n = "nx (lc_mem c)"]) simp_all
  moreover have "cnt (lc_mem ?c) y = Some (True, 1)" if "y \<in> set xs" for y using same(2) [OF that] Cons.prems(4) [of y] that by simp
  ultimately have "\<exists>c'. destroy_loop f (lh_next h) ?c = Ret c' \<and> lc_deleted c' = lc_deleted ?c @ map (entry_of (lc_mem ?c)) xs"
    using Cons.prems(2,3) f(2) by (intro Cons.IH) simp_all
  then obtain c' where c': "destroy_loop f (lh_next h) ?c = Ret c'" "lc_deleted c' = lc_deleted ?c @ map (entry_of m) xs" by auto
  have "destroy_loop fuel e c = destroy_loop f (lh_next h) ?c"
    using h x(1,2) f(1) by (simp add: get_def modify_def Cache_Unref_def m)
  moreover have "map (entry_of m) xs = map (entry_of (lc_mem c)) xs" using same(3) by simp
  ultimately show ?case using c' entry_of_get [of "lc_mem c" x h] h(1) by (intro exI [of _ c']) simp
qed

lemma destroy_ok:
  assumes "refines c a" "cs_held a = {#}"
  shows "\<exists>d. LRUCache_destroy c = Ret d \<and> mset (lc_deleted d) = ledger c"
proof -
  note D = refinesD [OF assms(1)] and L = lists_okD [OF refinesD(1) [OF assms(1)], unfolded assms(2)]
  let ?xs = "cs_lru a"
  have u: "cs_used a = []" using L(9) by simp
  have d: "dom (lc_mem c) - {1, 2} = set ?xs" using L(2,11) u by auto
  obtain l where l: "get 1 c = Ret l" "lh_next l = hd (?xs @ [1])" using head_next [OF D(1)] by blast
  have r: "ring (nx (lc_mem c)) (pv (lc_mem c)) 1 ?xs" using L(1) by (simp add: rings_def)
  have "forward (nx (lc_mem c)) (lh_next l) ?xs" using ring_forward [OF r] links_first [OF r] l(2) by simp
  moreover have "cnt (lc_mem c) x = Some (True, 1)" if "x \<in> set ?xs" for x using L(7) [of x] that u by simp
  moreover have "distinct ?xs" "1 \<notin> set ?xs" using L(11) by simp_all
  moreover have "length ?xs < lc_fresh c" using entries_fuel [OF D(1)] by simp
  ultimately obtain d' where d': "destroy_loop (lc_fresh c) (lh_next l) c = Ret d'" "lc_deleted d' = lc_deleted c @ map (entry_of (lc_mem c)) ?xs"
    using destroy_loop_ok [of c "lh_next l" ?xs "lc_fresh c"] by blast
  have "mset_set (set ?xs) = mset ?xs" using L(11) by (intro mset_set_set) simp
  then show ?thesis using d' l(1) d by (intro exI [of _ d']) (simp add: LRUCache_destroy_def ledger_def)
qed

section \<open>What clients rely on\<close>

lemma run_from_new:
  fixes sc0 :: "'v ShardedLRUCache"
  assumes "ShardedLRUCache_new capacity = Ret sc0" "well_behaved xs (spec_shards capacity)" "length xs < 2 ^ 30"
  shows "\<exists>sc. cache_run xs sc0 = Ret (fst (spec_run xs (spec_shards capacity)), sc) \<and> shards_refine (length xs) sc (snd (spec_run xs (spec_shards capacity))) \<and>
    ledgers sc = inserted xs"
proof -
  obtain sc :: "'v ShardedLRUCache" where "ShardedLRUCache_new capacity = Ret sc" "shards_refine 0 sc (spec_shards capacity)" "ledgers sc = {#}"
    using new_shards by blast
  with assms(1) have s: "shards_refine 0 sc0 (spec_shards capacity)" "ledgers sc0 = {#}" by simp_all
  from run_correct [OF s(1) assms(2)] assms(3) s(2) show ?thesis by simp
qed

lemma evict_bounded: "charges d (evict cap d xs ys @ ys) \<le> cap \<or> evict cap d xs ys = []"
  by (induction xs) auto

lemma insert_bounded:
  "charges (cs_data (snd (spec_insert k h v ch a))) (cached (snd (spec_insert k h v ch a))) \<le> cs_capacity (snd (spec_insert k h v ch a)) \<or>
   cs_lru (snd (spec_insert k h v ch a)) = []"
proof -
  have "charges (cs_data (spec_evict b)) (cached (spec_evict b)) \<le> cs_capacity (spec_evict b) \<or> cs_lru (spec_evict b) = []" for b :: "'a cache_spec"
    using evict_bounded [of "cs_data b" "cs_capacity b" "cs_lru b" "cs_used b"] by (auto simp: spec_evict_def cached_def)
  then show ?thesis unfolding spec_insert_def Let_def snd_conv .
qed

text \<open>C33: for every sequence of fewer than \<open>2^30\<close> operations in which clients release only
  handles that they hold, the sharded cache never touches freed memory and always returns: it yields the
  handles that the abstract shards yield, which evict the entry that was released first, its lists, table and
  charges agree with theirs, every handle that is held still has the value that was inserted, and
  each inserted entry was deleted once or lives.\<close>

theorem cache_run_refines:
  assumes "well_behaved xs (spec_shards capacity)" "length xs < 2 ^ 30"
  shows "\<exists>sc0 sc. ShardedLRUCache_new capacity = Ret sc0 \<and> cache_run xs sc0 = Ret (fst (spec_run xs (spec_shards capacity)), sc) \<and>
    list_all2 refines (sc_shard sc) (snd (spec_run xs (spec_shards capacity))) \<and>
    (\<forall>hash e. e \<in># cs_held (snd (spec_run xs (spec_shards capacity)) ! Shard hash) \<longrightarrow>
       Sharded_Value (hash, e) sc = Ret (Some (en_value (cs_data (snd (spec_run xs (spec_shards capacity)) ! Shard hash) e)))) \<and>
    ledgers sc = inserted xs"
proof -
  obtain sc0 :: "'a ShardedLRUCache" where new: "ShardedLRUCache_new capacity = Ret sc0" using new_shards by blast
  from run_from_new [OF new assms] obtain sc where sc: "cache_run xs sc0 = Ret (fst (spec_run xs (spec_shards capacity)), sc)"
    "shards_refine (length xs) sc (snd (spec_run xs (spec_shards capacity)))" "ledgers sc = inserted xs" by blast
  note S = shards_refineD [OF sc(2)]
  have "Sharded_Value (hash, e) sc = Ret (Some (en_value (cs_data (snd (spec_run xs (spec_shards capacity)) ! Shard hash) e)))"
    if "e \<in># cs_held (snd (spec_run xs (spec_shards capacity)) ! Shard hash)" for hash e
    using held_value [OF S(3) [OF Shard_less] that] S(2) Shard_less [of hash] by (auto simp: Sharded_Value_def)
  then show ?thesis using new sc unfolding shards_refine_def by blast
qed

text \<open>C34: a handle that \<open>Lookup\<close> returns, after any operations of well-behaved clients, has the value of the latest
  insertion under its key that was not erased, and no other.\<close>

theorem cache_lookup_latest:
  fixes sc0 :: "'v ShardedLRUCache"
  assumes "well_behaved xs (spec_shards capacity)" "length xs + 1 < 2 ^ 30" "ShardedLRUCache_new capacity = Ret sc0" "cache_run xs sc0 = Ret (rs, sc)"
    and "Sharded_Lookup k sc = Ret (Some h, sc')"
  shows "\<exists>v. Sharded_Value h sc' = Ret (Some v) \<and> latest xs k = Some v"
proof -
  let ?as = "snd (spec_run xs (spec_shards capacity))" and ?h = "HashSlice k"
  let ?a = "?as ! Shard ?h"
  have sc: "shards_refine (length xs) sc ?as" using run_from_new [OF assms(3,1)] assms(2,4) by auto
  note S = shards_refineD [OF sc]
  obtain sc1 :: "'v ShardedLRUCache" where n: "ShardedLRUCache_new capacity = Ret sc1" "shards_refine 0 sc1 (spec_shards capacity)" using new_shards by blast
  have "entries_latest (\<lambda>_. None) i (spec_new c :: 'v cache_spec)" for i c by (simp add: entries_latest_def spec_new_def cached_def)
  then have "all_latest (\<lambda>_. None) (spec_shards capacity :: 'v cache_spec list)" by (simp add: all_latest_def spec_shards_def)
  from run_latest [OF n(2) assms(1) _ this] assms(2) have "all_latest (latest xs) ?as" by (simp add: latest_def)
  then have E: "entries_latest (latest xs) (Shard ?h) ?a" using S(1) Shard_less [of ?h] by (simp add: all_latest_def)
  note D = refinesD [OF S(3) [OF Shard_less [of ?h]]]
  from step_correct [OF sc, of "Op_lookup k"] assms(2,5) have L: "Some h = fst (spec_step (Op_lookup k) ?as)" "shards_refine (length xs + 1) sc' (snd (spec_step (Op_lookup k) ?as))"
    by (auto simp: cache_step_def may_do_def)
  then obtain e where e: "spec_find k ?h ?a = Some e" "h = (?h, e)"
    by (auto simp: spec_step_def spec_lookup_def Let_def split: option.splits if_splits)
  then have c: "e \<in> set (cached ?a)" "en_key (cs_data ?a e) = k" using spec_find_iff(1) [OF D(7)] by blast+
  have "snd (spec_step (Op_lookup k) ?as) ! Shard ?h = spec_ref e ?a" using L(1) e S(1) Shard_less [of ?h]
    by (simp add: spec_step_def spec_lookup_def Let_def)
  then have "e \<in># cs_held (snd (spec_step (Op_lookup k) ?as) ! Shard ?h)" "cs_data (snd (spec_step (Op_lookup k) ?as) ! Shard ?h) = cs_data ?a"
    by (simp_all add: spec_ref_def)
  with held_value [OF shards_refineD(3) [OF L(2) Shard_less [of ?h]]] obtain x where "get e (sc_shard sc' ! Shard ?h) = Ret x" "lh_value x = Some (en_value (cs_data ?a e))"
    by auto
  then show ?thesis using entries_latestD(3) [OF E c(1)] c(2) e(2) shards_refineD(2) [OF L(2)] Shard_less [of ?h] by (simp add: Sharded_Value_def)
qed

text \<open>C35: once every handle has been released, the destructor of the shards, which runs to its end, leaves no entry
  behind: every insertion was handed to the deleter exactly once, whether it was replaced, erased, evicted or
  still cached.\<close>

theorem cache_deletes_once:
  assumes "well_behaved xs (spec_shards capacity)" "length xs < 2 ^ 30" "ShardedLRUCache_new capacity = Ret sc0" "cache_run xs sc0 = Ret (rs, sc)"
    and "\<forall>a\<in>set (snd (spec_run xs (spec_shards capacity))). cs_held a = {#}"
  shows "\<exists>ds. list_all2 (\<lambda>c d. LRUCache_destroy c = Ret d) (sc_shard sc) ds \<and> (\<Sum>d\<leftarrow>ds. mset (lc_deleted d)) = inserted xs"
proof -
  have sc: "shards_refine (length xs) sc (snd (spec_run xs (spec_shards capacity)))" "ledgers sc = inserted xs"
    using run_from_new [OF assms(3,1,2)] assms(4) by auto
  have P: "\<exists>ds. list_all2 (\<lambda>c d. LRUCache_destroy c = Ret d) cs ds \<and> (\<Sum>d\<leftarrow>ds. mset (lc_deleted d)) = (\<Sum>c\<leftarrow>cs. ledger c)"
    if "list_all2 refines cs bs" "\<forall>a\<in>set bs. cs_held a = {#}" for cs :: "'a LRUCache list" and bs
    using that
  proof (induction rule: list_all2_induct)
    case (Cons c cs b bs)
    then obtain d ds where d: "LRUCache_destroy c = Ret d" "mset (lc_deleted d) = ledger c" "list_all2 (\<lambda>c d. LRUCache_destroy c = Ret d) cs ds"
      "(\<Sum>d\<leftarrow>ds. mset (lc_deleted d)) = (\<Sum>c\<leftarrow>cs. ledger c)" using destroy_ok [of c b] by auto
    then show ?case by (intro exI [of _ "d # ds"]) simp
  qed simp
  have "list_all2 refines (sc_shard sc) (snd (spec_run xs (spec_shards capacity)))" using sc(1) by (simp add: shards_refine_def)
  from P [OF this assms(5)] sc(2) show ?thesis by (simp add: ledgers_def)
qed

text \<open>C36: after an insertion the charges in the shard fit into its capacity, or every entry in it is in use, so that
  nothing can be evicted.\<close>

theorem cache_within_capacity:
  assumes "well_behaved xs (spec_shards capacity)" "length xs + 1 < 2 ^ 30" "ShardedLRUCache_new capacity = Ret sc0" "cache_run xs sc0 = Ret (rs, sc)"
    and "Sharded_Insert k v charge sc = Ret (h, sc')"
  shows "LRUCache_TotalCharge (sc_shard sc' ! Shard (HashSlice k)) \<le> lc_capacity (sc_shard sc' ! Shard (HashSlice k)) \<or>
    (\<exists>l. get lru_list (sc_shard sc' ! Shard (HashSlice k)) = Ret l \<and> lh_next l = lru_list)"
proof -
  let ?as = "snd (spec_run xs (spec_shards capacity))" and ?h = "HashSlice k"
  let ?b = "snd (spec_insert k ?h v charge (?as ! Shard ?h))"
  have sc: "shards_refine (length xs) sc ?as" using run_from_new [OF assms(3,1)] assms(2,4) by auto
  from step_correct [OF sc, of "Op_insert k v charge"] assms(2,5) have L: "shards_refine (length xs + 1) sc' (snd (spec_step (Op_insert k v charge) ?as))"
    by (auto simp: cache_step_def may_do_def)
  have "snd (spec_step (Op_insert k v charge) ?as) ! Shard ?h = ?b"
    using shards_refineD(1) [OF sc] Shard_less [of ?h] by (simp add: spec_step_def Let_def split_beta)
  with shards_refineD(3) [OF L Shard_less [of ?h]] have R: "refines (sc_shard sc' ! Shard ?h) ?b" by simp
  note D = refinesD [OF R]
  from insert_bounded show ?thesis
  proof
    assume "charges (cs_data ?b) (cached ?b) \<le> cs_capacity ?b"
    then show ?thesis using D(3,6) by (simp add: LRUCache_TotalCharge_def)
  next
    assume "cs_lru ?b = []"
    then show ?thesis using head_next [OF D(1)] by simp
  qed
qed

section \<open>An example\<close>

definition sample_ops :: "nat cache_op list" where
  "sample_ops = [Op_insert [97] 5 1, Op_release (HashSlice [97], 3), Op_lookup [97], Op_release (HashSlice [97], 3)]"

lemmas sample_defs = sample_ops_def spec_step_def may_do_def spec_shards_def spec_insert_def spec_find_def spec_release_def spec_lookup_def spec_ref_def
  spec_drop_def spec_evict_def spec_new_entry_def spec_new_def cached_def Let_def charges_def inserted_def

lemma sample_ops_run:
  "well_behaved sample_ops (spec_shards 32)"
  "fst (spec_run sample_ops (spec_shards 32)) = [Some (HashSlice [97], 3), None, Some (HashSlice [97], 3), None]"
  "inserted sample_ops = {#([97], Some 5)#}"
  using Shard_less [of "HashSlice [97]"] by (simp_all add: sample_defs)

lemma sample_ops_released: "\<forall>a\<in>set (snd (spec_run sample_ops (spec_shards 32))). cs_held a = {#}"
  using Shard_less [of "HashSlice [97]"] by (auto simp: sample_defs dest!: subsetD [OF set_update_subset_insert])

lemma sample_ops_short: "length sample_ops + 1 < 2 ^ 30"
  by (simp add: sample_ops_def)

theorem cache_run_refines_witness:
  "\<exists>sc0 sc. ShardedLRUCache_new 32 = Ret sc0 \<and> cache_run sample_ops sc0 = Ret ([Some (HashSlice [97], 3), None, Some (HashSlice [97], 3), None], sc) \<and>
    ledgers sc = {#([97], Some 5)#}"
  using cache_run_refines [OF sample_ops_run(1)] sample_ops_short unfolding sample_ops_run(2,3) by auto

theorem cache_lookup_latest_witness:
  "\<exists>sc0 rs sc h sc'. ShardedLRUCache_new 32 = Ret sc0 \<and> cache_run sample_ops sc0 = Ret (rs, sc) \<and> Sharded_Lookup [97] sc = Ret (Some h, sc') \<and>
    Sharded_Value h sc' = Ret (Some 5)"
proof -
  obtain sc0 :: "nat ShardedLRUCache" where new: "ShardedLRUCache_new 32 = Ret sc0" using new_shards by blast
  obtain rs sc where run: "cache_run sample_ops sc0 = Ret (rs, sc)" "shards_refine (length sample_ops) sc (snd (spec_run sample_ops (spec_shards 32)))"
    using run_from_new [OF new sample_ops_run(1)] sample_ops_short by auto
  have "fst (spec_step (Op_lookup [97]) (snd (spec_run sample_ops (spec_shards 32)))) = Some (HashSlice [97], 3)"
    using Shard_less [of "HashSlice [97]"] by (simp add: sample_defs)
  with step_correct [OF run(2), of "Op_lookup [97]"] obtain sc' where look: "Sharded_Lookup [97] sc = Ret (Some (HashSlice [97], 3), sc')"
    by (auto simp: may_do_def cache_step_def sample_ops_def)
  have "latest sample_ops [97] = Some 5" by (simp add: latest_def sample_ops_def apply_op_def)
  with cache_lookup_latest [OF sample_ops_run(1) sample_ops_short new run(1) look] have "Sharded_Value (HashSlice [97], 3) sc' = Ret (Some 5)" by auto
  then show ?thesis using new run(1) look by blast
qed

theorem cache_deletes_once_witness:
  "\<exists>sc0 rs sc ds. ShardedLRUCache_new 32 = Ret sc0 \<and> cache_run sample_ops sc0 = Ret (rs, sc) \<and>
    list_all2 (\<lambda>c d. LRUCache_destroy c = Ret d) (sc_shard sc) ds \<and> (\<Sum>d\<leftarrow>ds. mset (lc_deleted d)) = {#([97], Some (5 :: nat))#}"
proof -
  obtain sc0 :: "nat ShardedLRUCache" where new: "ShardedLRUCache_new 32 = Ret sc0" using new_shards by blast
  obtain rs sc where run: "cache_run sample_ops sc0 = Ret (rs, sc)" using run_from_new [OF new sample_ops_run(1)] sample_ops_short by auto
  from cache_deletes_once [OF sample_ops_run(1) _ new run sample_ops_released] sample_ops_short new run show ?thesis
    unfolding sample_ops_run(3) by auto
qed

theorem cache_within_capacity_witness:
  "\<exists>sc0 rs sc h sc'. ShardedLRUCache_new 32 = Ret sc0 \<and> cache_run sample_ops sc0 = Ret (rs, sc) \<and> Sharded_Insert [98] 6 2 sc = Ret (h, sc') \<and>
    (LRUCache_TotalCharge (sc_shard sc' ! Shard (HashSlice [98])) \<le> lc_capacity (sc_shard sc' ! Shard (HashSlice [98])) \<or>
     (\<exists>l. get lru_list (sc_shard sc' ! Shard (HashSlice [98])) = Ret l \<and> lh_next l = lru_list))"
proof -
  obtain sc0 :: "nat ShardedLRUCache" where new: "ShardedLRUCache_new 32 = Ret sc0" using new_shards by blast
  obtain rs sc where run: "cache_run sample_ops sc0 = Ret (rs, sc)" "shards_refine (length sample_ops) sc (snd (spec_run sample_ops (spec_shards 32)))"
    using run_from_new [OF new sample_ops_run(1)] sample_ops_short by auto
  from step_correct [OF run(2), of "Op_insert [98] 6 2"] obtain h sc' where ins: "Sharded_Insert [98] 6 2 sc = Ret (h, sc')"
    by (auto simp: may_do_def cache_step_def sample_ops_def)
  from cache_within_capacity [OF sample_ops_run(1) sample_ops_short new run(1) ins] new run(1) ins show ?thesis by blast
qed

end
