(* ===== verification/Iterators.thy ===== *)
theory Iterators
  imports Comparator Status
begin

text \<open>
  The interface \<open>Iterator\<close> (\<open>include/leveldb/iterator.h\<close>) as a record of the operations on states of one
  type, its contract as a locale, and the wrapper that caches validity and key (\<open>table/iterator_wrapper.h\<close>).
\<close>

section \<open>The interface\<close>

record 's Iterator =
  it_Valid :: "'s \<Rightarrow> bool"
  it_SeekToFirst :: "'s \<Rightarrow> 's outcome"
  it_SeekToLast :: "'s \<Rightarrow> 's outcome"
  it_Seek :: "byte list \<Rightarrow> 's \<Rightarrow> 's outcome"
  it_Next :: "'s \<Rightarrow> 's outcome"
  it_Prev :: "'s \<Rightarrow> 's outcome"
  it_key :: "'s \<Rightarrow> byte list outcome"
  it_value :: "'s \<Rightarrow> byte list outcome"
  it_status :: "'s \<Rightarrow> Status"

section \<open>The wrapper\<close>

record 's IteratorWrapper =
  iw_iter :: "'s option"
  iw_valid :: bool
  iw_key :: "byte list"

definition Wrapper_new :: "'s IteratorWrapper" where
  "Wrapper_new = \<lparr>iw_iter = None, iw_valid = False, iw_key = []\<rparr>"

definition Wrapper_Update :: "'s Iterator \<Rightarrow> 's IteratorWrapper \<Rightarrow> 's IteratorWrapper outcome" where
  "Wrapper_Update I w =
     (case iw_iter w of
        None \<Rightarrow> UB
      | Some s \<Rightarrow>
          if it_Valid I s then bindO (it_key I s) (\<lambda>k. Ret (w\<lparr>iw_valid := True, iw_key := k\<rparr>))
          else Ret (w\<lparr>iw_valid := False\<rparr>))"

definition Wrapper_Set :: "'s Iterator \<Rightarrow> 's option \<Rightarrow> 's IteratorWrapper \<Rightarrow> 's IteratorWrapper outcome" where
  "Wrapper_Set I it w =
     (let w = w\<lparr>iw_iter := it\<rparr> in if it = None then Ret (w\<lparr>iw_valid := False\<rparr>) else Wrapper_Update I w)"

text \<open>An operation on the wrapped iterator, and \<open>Update\<close>.\<close>

definition Wrapper_step :: "'s Iterator \<Rightarrow> ('s \<Rightarrow> 's outcome) \<Rightarrow> 's IteratorWrapper \<Rightarrow> 's IteratorWrapper outcome" where
  "Wrapper_step I f w = (case iw_iter w of None \<Rightarrow> UB | Some s \<Rightarrow> bindO (f s) (\<lambda>s. Wrapper_Update I (w\<lparr>iw_iter := Some s\<rparr>)))"

definition Wrapper_Next :: "'s Iterator \<Rightarrow> 's IteratorWrapper \<Rightarrow> 's IteratorWrapper outcome" where
  "Wrapper_Next I = Wrapper_step I (it_Next I)"

definition Wrapper_Prev :: "'s Iterator \<Rightarrow> 's IteratorWrapper \<Rightarrow> 's IteratorWrapper outcome" where
  "Wrapper_Prev I = Wrapper_step I (it_Prev I)"

definition Wrapper_Seek :: "'s Iterator \<Rightarrow> byte list \<Rightarrow> 's IteratorWrapper \<Rightarrow> 's IteratorWrapper outcome" where
  "Wrapper_Seek I k = Wrapper_step I (it_Seek I k)"

definition Wrapper_SeekToFirst :: "'s Iterator \<Rightarrow> 's IteratorWrapper \<Rightarrow> 's IteratorWrapper outcome" where
  "Wrapper_SeekToFirst I = Wrapper_step I (it_SeekToFirst I)"

definition Wrapper_SeekToLast :: "'s Iterator \<Rightarrow> 's IteratorWrapper \<Rightarrow> 's IteratorWrapper outcome" where
  "Wrapper_SeekToLast I = Wrapper_step I (it_SeekToLast I)"

definition Wrapper_value :: "'s Iterator \<Rightarrow> 's IteratorWrapper \<Rightarrow> byte list outcome" where
  "Wrapper_value I w = (case iw_iter w of None \<Rightarrow> UB | Some s \<Rightarrow> it_value I s)"

definition Wrapper_status :: "'s Iterator \<Rightarrow> 's IteratorWrapper \<Rightarrow> Status outcome" where
  "Wrapper_status I w = (case iw_iter w of None \<Rightarrow> UB | Some s \<Rightarrow> Ret (it_status I s))"

section \<open>The contract\<close>

text \<open>
  An iterator that works is a cursor over a list of entries whose keys rise: \<open>rep es p s\<close> says that the state
  \<open>s\<close> stands on entry \<open>p\<close> of \<open>es\<close>, or on none when \<open>p\<close> is the length.
\<close>

type_synonym entry = "byte list \<times> byte list"

definition rising :: "(byte list \<Rightarrow> byte list \<Rightarrow> bool) \<Rightarrow> byte list set \<Rightarrow> entry list \<Rightarrow> bool" where
  "rising lt keys es \<longleftrightarrow> sorted_wrt (\<lambda>a b. lt (fst a) (fst b)) es \<and> fst ` set es \<subseteq> keys"

definition before :: "(byte list \<Rightarrow> bool) \<Rightarrow> entry list \<Rightarrow> nat" where
  "before P es = length (filter (\<lambda>e. P (fst e)) es)"

locale cursor = comparator C keys lt
  for C :: Comparator and keys :: "byte list set" and lt :: "byte list \<Rightarrow> byte list \<Rightarrow> bool" +
  fixes I :: "'s Iterator" and rep :: "entry list \<Rightarrow> nat \<Rightarrow> 's \<Rightarrow> bool"
  assumes rep_rising: "rep es p s \<Longrightarrow> rising lt keys es"
    and rep_valid: "rep es p s \<Longrightarrow> p \<le> length es \<and> it_Valid I s = (p < length es)"
    and rep_key: "rep es p s \<Longrightarrow> p < length es \<Longrightarrow> it_key I s = Ret (fst (es ! p))"
    and rep_value: "rep es p s \<Longrightarrow> p < length es \<Longrightarrow> it_value I s = Ret (snd (es ! p))"
    and rep_status: "rep es p s \<Longrightarrow> it_status I s = OK"
    and rep_first: "rep es p s \<Longrightarrow> \<exists>s'. it_SeekToFirst I s = Ret s' \<and> rep es 0 s'"
    and rep_last: "rep es p s \<Longrightarrow> \<exists>s'. it_SeekToLast I s = Ret s' \<and> rep es (length es - 1) s'"
    and rep_seek: "rep es p s \<Longrightarrow> k \<in> keys \<Longrightarrow> \<exists>s'. it_Seek I k s = Ret s' \<and> rep es (before (\<lambda>x. lt x k) es) s'"
    and rep_next: "rep es p s \<Longrightarrow> p < length es \<Longrightarrow> \<exists>s'. it_Next I s = Ret s' \<and> rep es (Suc p) s'"
    and rep_prev: "rep es p s \<Longrightarrow> p < length es \<Longrightarrow> \<exists>s'. it_Prev I s = Ret s' \<and> rep es (if p = 0 then length es else p - 1) s'"

section \<open>Rising lists\<close>

text \<open>A set of keys that is closed downwards cuts a rising list in two.\<close>

definition lower :: "(byte list \<Rightarrow> byte list \<Rightarrow> bool) \<Rightarrow> byte list set \<Rightarrow> (byte list \<Rightarrow> bool) \<Rightarrow> bool" where
  "lower lt keys P \<longleftrightarrow> (\<forall>a\<in>keys. \<forall>b\<in>keys. P b \<longrightarrow> lt a b \<longrightarrow> P a)"

lemma before_le: "before P es \<le> length es"
  by (simp add: before_def)

lemma before_cong: "(\<And>e. e \<in> set es \<Longrightarrow> P (fst e) = Q (fst e)) \<Longrightarrow> before P es = before Q es"
  unfolding before_def by (metis (mono_tags, lifting) filter_cong)

lemma rising_Cons: "rising lt keys (e # es) \<longleftrightarrow> (\<forall>x\<in>set es. lt (fst e) (fst x)) \<and> fst e \<in> keys \<and> rising lt keys es"
  by (auto simp: rising_def)

lemma cut_nth:
  assumes "rising lt keys es" "lower lt keys P" "i < length es"
  shows "P (fst (es ! i)) \<longleftrightarrow> i < before P es"
  using assms(1,3)
proof (induction es arbitrary: i)
  case (Cons e es)
  have r: "rising lt keys es" "fst e \<in> keys" "\<forall>x\<in>set es. lt (fst e) (fst x)" "fst ` set es \<subseteq> keys"
    using Cons.prems(1) by (auto simp: rising_Cons) (auto simp: rising_def)
  show ?case
  proof (cases "P (fst e)")
    case True
    then show ?thesis using Cons.IH [OF r(1)] Cons.prems(2) by (cases i) (simp_all add: before_def)
  next
    case False
    have "\<not> P (fst x)" if "x \<in> set es" for x using that r False assms(2) unfolding lower_def by blast
    then have "before P (e # es) = 0" using False by (simp add: before_def)
    moreover have "\<not> P (fst ((e # es) ! i))" using False \<open>\<And>x. x \<in> set es \<Longrightarrow> \<not> P (fst x)\<close> Cons.prems(2) by (cases i) simp_all
    ultimately show ?thesis by simp
  qed
qed simp

end
