(* ===== verification/Merger.thy ===== *)
theory Merger
  imports Iterators
begin

text \<open>
  The merging iterator (\<open>table/merger.cc\<close>): it yields the entries of its children in the order of their
  keys, and is itself an iterator.
\<close>

section \<open>The iterator\<close>

datatype Direction = kForward | kReverse

record 's MergingIterator =
  mi_comparator :: Comparator
  mi_children :: "'s IteratorWrapper list"
  mi_current :: "nat option"
  mi_direction :: Direction

fun set_children :: "'s Iterator \<Rightarrow> 's list \<Rightarrow> 's IteratorWrapper list outcome" where
  "set_children I [] = Ret []"
| "set_children I (s # ss) = bindO (Wrapper_Set I (Some s) Wrapper_new) (\<lambda>w. bindO (set_children I ss) (\<lambda>ws. Ret (w # ws)))"

definition MergingIterator_new :: "'s Iterator \<Rightarrow> Comparator \<Rightarrow> 's list \<Rightarrow> 's MergingIterator outcome" where
  "MergingIterator_new I C children =
     bindO (set_children I children) (\<lambda>ws. Ret \<lparr>mi_comparator = C, mi_children = ws, mi_current = None, mi_direction = kForward\<rparr>)"

text \<open>An operation on every child.\<close>

fun each_child :: "('s IteratorWrapper \<Rightarrow> 's IteratorWrapper outcome) \<Rightarrow> 's IteratorWrapper list \<Rightarrow> 's IteratorWrapper list outcome" where
  "each_child f [] = Ret []"
| "each_child f (w # ws) = bindO (f w) (\<lambda>w. bindO (each_child f ws) (\<lambda>ws. Ret (w # ws)))"

text \<open>The loops look at the children in the order of their indices, or backwards.\<close>

fun smallest_loop :: "Comparator \<Rightarrow> 's IteratorWrapper list \<Rightarrow> nat list \<Rightarrow> nat option \<Rightarrow> nat option outcome" where
  "smallest_loop C ws [] smallest = Ret smallest"
| "smallest_loop C ws (i # is) smallest =
     (if iw_valid (ws ! i) then
        case smallest of
          None \<Rightarrow> smallest_loop C ws is (Some i)
        | Some s \<Rightarrow> bindO (Compare C (iw_key (ws ! i)) (iw_key (ws ! s))) (\<lambda>r. smallest_loop C ws is (if r < 0 then Some i else Some s))
      else smallest_loop C ws is smallest)"

definition FindSmallest :: "'s MergingIterator \<Rightarrow> 's MergingIterator outcome" where
  "FindSmallest m = bindO (smallest_loop (mi_comparator m) (mi_children m) [0..<length (mi_children m)] None) (\<lambda>c. Ret (m\<lparr>mi_current := c\<rparr>))"

fun largest_loop :: "Comparator \<Rightarrow> 's IteratorWrapper list \<Rightarrow> nat list \<Rightarrow> nat option \<Rightarrow> nat option outcome" where
  "largest_loop C ws [] largest = Ret largest"
| "largest_loop C ws (i # is) largest =
     (if iw_valid (ws ! i) then
        case largest of
          None \<Rightarrow> largest_loop C ws is (Some i)
        | Some l \<Rightarrow> bindO (Compare C (iw_key (ws ! i)) (iw_key (ws ! l))) (\<lambda>r. largest_loop C ws is (if r > 0 then Some i else Some l))
      else largest_loop C ws is largest)"

definition FindLargest :: "'s MergingIterator \<Rightarrow> 's MergingIterator outcome" where
  "FindLargest m = bindO (largest_loop (mi_comparator m) (mi_children m) (rev [0..<length (mi_children m)]) None) (\<lambda>c. Ret (m\<lparr>mi_current := c\<rparr>))"

definition Merging_Valid :: "'s MergingIterator \<Rightarrow> bool" where
  "Merging_Valid m \<longleftrightarrow> mi_current m \<noteq> None"

definition Merging_SeekToFirst :: "'s Iterator \<Rightarrow> 's MergingIterator \<Rightarrow> 's MergingIterator outcome" where
  "Merging_SeekToFirst I m =
     bindO (each_child (Wrapper_SeekToFirst I) (mi_children m)) (\<lambda>ws.
     bindO (FindSmallest (m\<lparr>mi_children := ws\<rparr>)) (\<lambda>m. Ret (m\<lparr>mi_direction := kForward\<rparr>)))"

definition Merging_SeekToLast :: "'s Iterator \<Rightarrow> 's MergingIterator \<Rightarrow> 's MergingIterator outcome" where
  "Merging_SeekToLast I m =
     bindO (each_child (Wrapper_SeekToLast I) (mi_children m)) (\<lambda>ws.
     bindO (FindLargest (m\<lparr>mi_children := ws\<rparr>)) (\<lambda>m. Ret (m\<lparr>mi_direction := kReverse\<rparr>)))"

definition Merging_Seek :: "'s Iterator \<Rightarrow> byte list \<Rightarrow> 's MergingIterator \<Rightarrow> 's MergingIterator outcome" where
  "Merging_Seek I target m =
     bindO (each_child (Wrapper_Seek I target) (mi_children m)) (\<lambda>ws.
     bindO (FindSmallest (m\<lparr>mi_children := ws\<rparr>)) (\<lambda>m. Ret (m\<lparr>mi_direction := kForward\<rparr>)))"

definition Merging_key :: "'s MergingIterator \<Rightarrow> byte list outcome" where
  "Merging_key m = (case mi_current m of None \<Rightarrow> UB | Some c \<Rightarrow> if c < length (mi_children m) then Ret (iw_key (mi_children m ! c)) else UB)"

definition Merging_value :: "'s Iterator \<Rightarrow> 's MergingIterator \<Rightarrow> byte list outcome" where
  "Merging_value I m = (case mi_current m of None \<Rightarrow> UB | Some c \<Rightarrow> if c < length (mi_children m) then Wrapper_value I (mi_children m ! c) else UB)"

text \<open>A child is moved after, or before, the key of the current one.\<close>

definition move_after :: "'s Iterator \<Rightarrow> Comparator \<Rightarrow> byte list \<Rightarrow> 's IteratorWrapper \<Rightarrow> 's IteratorWrapper outcome" where
  "move_after I C key w =
     bindO (Wrapper_Seek I key w) (\<lambda>w.
       if iw_valid w then bindO (Compare C key (iw_key w)) (\<lambda>r. if r = 0 then Wrapper_Next I w else Ret w) else Ret w)"

definition move_before :: "'s Iterator \<Rightarrow> byte list \<Rightarrow> 's IteratorWrapper \<Rightarrow> 's IteratorWrapper outcome" where
  "move_before I key w = bindO (Wrapper_Seek I key w) (\<lambda>w. if iw_valid w then Wrapper_Prev I w else Wrapper_SeekToLast I w)"

fun other_children :: "('s IteratorWrapper \<Rightarrow> 's IteratorWrapper outcome) \<Rightarrow> nat \<Rightarrow> nat \<Rightarrow> 's IteratorWrapper list \<Rightarrow> 's IteratorWrapper list outcome" where
  "other_children f cur i [] = Ret []"
| "other_children f cur i (w # ws) =
     bindO (if i \<noteq> cur then f w else Ret w) (\<lambda>w. bindO (other_children f cur (i + 1) ws) (\<lambda>ws. Ret (w # ws)))"

definition Merging_Next :: "'s Iterator \<Rightarrow> 's MergingIterator \<Rightarrow> 's MergingIterator outcome" where
  "Merging_Next I m =
     (case mi_current m of
        None \<Rightarrow> UB
      | Some cur \<Rightarrow>
          bindO (if mi_direction m \<noteq> kForward then
                   bindO (Merging_key m) (\<lambda>key.
                   bindO (other_children (move_after I (mi_comparator m) key) cur 0 (mi_children m)) (\<lambda>ws. Ret (m\<lparr>mi_children := ws, mi_direction := kForward\<rparr>)))
                 else Ret m) (\<lambda>m.
          bindO (Wrapper_Next I (mi_children m ! cur)) (\<lambda>w. FindSmallest (m\<lparr>mi_children := (mi_children m)[cur := w]\<rparr>))))"

definition Merging_Prev :: "'s Iterator \<Rightarrow> 's MergingIterator \<Rightarrow> 's MergingIterator outcome" where
  "Merging_Prev I m =
     (case mi_current m of
        None \<Rightarrow> UB
      | Some cur \<Rightarrow>
          bindO (if mi_direction m \<noteq> kReverse then
                   bindO (Merging_key m) (\<lambda>key.
                   bindO (other_children (move_before I key) cur 0 (mi_children m)) (\<lambda>ws. Ret (m\<lparr>mi_children := ws, mi_direction := kReverse\<rparr>)))
                 else Ret m) (\<lambda>m.
          bindO (Wrapper_Prev I (mi_children m ! cur)) (\<lambda>w. FindLargest (m\<lparr>mi_children := (mi_children m)[cur := w]\<rparr>))))"

fun first_error :: "'s Iterator \<Rightarrow> 's IteratorWrapper list \<Rightarrow> Status" where
  "first_error I [] = OK"
| "first_error I (w # ws) = (let s = (case iw_iter w of None \<Rightarrow> OK | Some x \<Rightarrow> it_status I x) in if \<not> ok s then s else first_error I ws)"

definition Merging_status :: "'s Iterator \<Rightarrow> 's MergingIterator \<Rightarrow> Status" where
  "Merging_status I m = first_error I (mi_children m)"

definition MergingIterator_ops :: "'s Iterator \<Rightarrow> 's MergingIterator Iterator" where
  "MergingIterator_ops I =
     \<lparr>it_Valid = Merging_Valid, it_SeekToFirst = Merging_SeekToFirst I, it_SeekToLast = Merging_SeekToLast I, it_Seek = Merging_Seek I,
      it_Next = Merging_Next I, it_Prev = Merging_Prev I, it_key = Merging_key, it_value = Merging_value I, it_status = Merging_status I\<rparr>"

text \<open>No children give the empty iterator, one child stands for itself.\<close>

datatype 's merged = Empty_iterator | Only_child 's | Merging "'s MergingIterator"

definition NewMergingIterator :: "'s Iterator \<Rightarrow> Comparator \<Rightarrow> 's list \<Rightarrow> 's merged outcome" where
  "NewMergingIterator I C children =
     (case children of
        [] \<Rightarrow> Ret Empty_iterator
      | [s] \<Rightarrow> Ret (Only_child s)
      | _ \<Rightarrow> bindO (MergingIterator_new I C children) (\<lambda>m. Ret (Merging m)))"

end
