(* ===== verification/Db_Iter.thy ===== *)
theory Db_Iter
  imports Merger Dbformat Random_Numbers
begin

text \<open>
  The iterator that users of the database see (\<open>db/db_iter.cc\<close>): over an internal iterator whose entries are
  versions of keys, it yields for each user key the newest version at or below a sequence number, unless that is
  a deletion. The calls of \<open>RecordReadSample\<close> are listed in the state.
\<close>

record 's DBIter =
  di_user_comparator :: Comparator
  di_iter :: 's
  di_sequence :: SequenceNumber
  di_status :: Status
  di_saved_key :: "byte list"
  di_saved_value :: "byte list"
  di_direction :: Direction
  di_valid :: bool
  di_rnd :: u32
  di_bytes_until_read_sampling :: u64
  di_samples :: "byte list list"

definition kReadBytesPeriod :: nat where "kReadBytesPeriod = 1048576"

definition RandomCompactionPeriod :: "'s DBIter \<Rightarrow> u64 \<times> 's DBIter" where
  "RandomCompactionPeriod d = (case Random_Uniform (2 * kReadBytesPeriod) (di_rnd d) of (v, s) \<Rightarrow> (ucast v, d\<lparr>di_rnd := s\<rparr>))"

definition DBIter_new :: "Comparator \<Rightarrow> 's \<Rightarrow> SequenceNumber \<Rightarrow> u32 \<Rightarrow> 's DBIter" where
  "DBIter_new cmp iter s seed =
     (let d = \<lparr>di_user_comparator = cmp, di_iter = iter, di_sequence = s, di_status = OK, di_saved_key = [], di_saved_value = [], di_direction = kForward,
                di_valid = False, di_rnd = Random_new seed, di_bytes_until_read_sampling = 0, di_samples = []\<rparr>
      in case RandomCompactionPeriod d of (n, d) \<Rightarrow> d\<lparr>di_bytes_until_read_sampling := n\<rparr>)"

definition DBIter_Valid :: "'s DBIter \<Rightarrow> bool" where
  "DBIter_Valid d = di_valid d"

definition DBIter_key :: "'s Iterator \<Rightarrow> 's DBIter \<Rightarrow> byte list outcome" where
  "DBIter_key I d = (if di_direction d = kForward then bindO (it_key I (di_iter d)) ExtractUserKey else Ret (di_saved_key d))"

definition DBIter_value :: "'s Iterator \<Rightarrow> 's DBIter \<Rightarrow> byte list outcome" where
  "DBIter_value I d = (if di_direction d = kForward then it_value I (di_iter d) else Ret (di_saved_value d))"

definition DBIter_status :: "'s Iterator \<Rightarrow> 's DBIter \<Rightarrow> Status" where
  "DBIter_status I d = (if ok (di_status d) then it_status I (di_iter d) else di_status d)"

section \<open>Reading the internal key\<close>

fun sampling_loop :: "nat \<Rightarrow> byte list \<Rightarrow> u64 \<Rightarrow> 's DBIter \<Rightarrow> 's DBIter outcome" where
  "sampling_loop 0 k bytes_read d = NoFuel"
| "sampling_loop (Suc fuel) k bytes_read d =
     (if di_bytes_until_read_sampling d < bytes_read then
        case RandomCompactionPeriod d of (n, d) \<Rightarrow>
          sampling_loop fuel k bytes_read
            (d\<lparr>di_bytes_until_read_sampling := di_bytes_until_read_sampling d + n, di_samples := di_samples d @ [k]\<rparr>)
      else Ret d)"

definition DBIter_ParseKey :: "'s Iterator \<Rightarrow> 's DBIter \<Rightarrow> (ParsedInternalKey option \<times> 's DBIter) outcome" where
  "DBIter_ParseKey I d =
     bindO (it_key I (di_iter d)) (\<lambda>k.
     bindO (it_value I (di_iter d)) (\<lambda>v.
       let bytes_read = of_nat (length k + length v)
       in bindO (sampling_loop (2 * unat bytes_read + 1) k bytes_read d) (\<lambda>d.
          let d = d\<lparr>di_bytes_until_read_sampling := di_bytes_until_read_sampling d - bytes_read\<rparr>
          in bindO (ParseInternalKey k) (\<lambda>r.
             case r of
               None \<Rightarrow> Ret (None, d\<lparr>di_status := Corruption ''corrupted internal key in DBIter'' []\<rparr>)
             | Some ikey \<Rightarrow> Ret (Some ikey, d)))))"

section \<open>Moving forward\<close>

text \<open>
  One round of the loop: whether an entry to yield was found, and whether entries up to \<open>saved_key_\<close>, which
  every caller passes as \<open>skip\<close>, are to be skipped.
\<close>

definition next_step :: "'s Iterator \<Rightarrow> bool \<Rightarrow> 's DBIter \<Rightarrow> (bool \<times> bool \<times> 's DBIter) outcome" where
  "next_step I skipping d =
     bindO (DBIter_ParseKey I d) (\<lambda>(r, d).
       case r of
         None \<Rightarrow> Ret (False, skipping, d)
       | Some ikey \<Rightarrow>
           if sequence ikey \<le> di_sequence d then
             if ktype ikey = kTypeDeletion then Ret (False, True, d\<lparr>di_saved_key := user_key ikey\<rparr>)
             else if ktype ikey = kTypeValue then
               bindO (if skipping then bindO (Compare (di_user_comparator d) (user_key ikey) (di_saved_key d)) (\<lambda>c. Ret (c \<le> 0)) else Ret False) (\<lambda>hidden.
                 if hidden then Ret (False, skipping, d) else Ret (True, skipping, d\<lparr>di_valid := True, di_saved_key := []\<rparr>))
             else Ret (False, skipping, d)
           else Ret (False, skipping, d))"

fun FindNextUserEntry :: "'s Iterator \<Rightarrow> nat \<Rightarrow> bool \<Rightarrow> 's DBIter \<Rightarrow> 's DBIter outcome" where
  "FindNextUserEntry I 0 skipping d = NoFuel"
| "FindNextUserEntry I (Suc fuel) skipping d =
     bindO (next_step I skipping d) (\<lambda>(found, skipping, d).
       if found then Ret d
       else bindO (it_Next I (di_iter d)) (\<lambda>s.
         if it_Valid I s then FindNextUserEntry I fuel skipping (d\<lparr>di_iter := s\<rparr>)
         else Ret (d\<lparr>di_iter := s, di_saved_key := [], di_valid := False\<rparr>)))"

definition DBIter_Next :: "'s Iterator \<Rightarrow> nat \<Rightarrow> 's DBIter \<Rightarrow> 's DBIter outcome" where
  "DBIter_Next I fuel d =
     (if di_direction d = kReverse then
        bindO (if \<not> it_Valid I (di_iter d) then it_SeekToFirst I (di_iter d) else it_Next I (di_iter d)) (\<lambda>s.
          let d = d\<lparr>di_direction := kForward, di_iter := s\<rparr>
          in if \<not> it_Valid I s then Ret (d\<lparr>di_valid := False, di_saved_key := []\<rparr>) else FindNextUserEntry I fuel True d)
      else
        bindO (it_key I (di_iter d)) (\<lambda>k. bindO (ExtractUserKey k) (\<lambda>u. FindNextUserEntry I fuel True (d\<lparr>di_saved_key := u\<rparr>))))"

section \<open>Moving backward\<close>

definition prev_step :: "'s Iterator \<Rightarrow> ValueType \<Rightarrow> 's DBIter \<Rightarrow> (bool \<times> ValueType \<times> 's DBIter) outcome" where
  "prev_step I value_type d =
     bindO (DBIter_ParseKey I d) (\<lambda>(r, d).
       case r of
         None \<Rightarrow> Ret (False, value_type, d)
       | Some ikey \<Rightarrow>
           if sequence ikey \<le> di_sequence d then
             bindO (if value_type \<noteq> kTypeDeletion then bindO (Compare (di_user_comparator d) (user_key ikey) (di_saved_key d)) (\<lambda>c. Ret (c < 0)) else Ret False) (\<lambda>stop.
               if stop then Ret (True, value_type, d)
               else if ktype ikey = kTypeDeletion then Ret (False, ktype ikey, d\<lparr>di_saved_key := [], di_saved_value := []\<rparr>)
               else
                 bindO (it_value I (di_iter d)) (\<lambda>v.
                 bindO (it_key I (di_iter d)) (\<lambda>k.
                 bindO (ExtractUserKey k) (\<lambda>u. Ret (False, ktype ikey, d\<lparr>di_saved_key := u, di_saved_value := v\<rparr>)))))
           else Ret (False, value_type, d))"

fun prev_loop :: "'s Iterator \<Rightarrow> nat \<Rightarrow> ValueType \<Rightarrow> 's DBIter \<Rightarrow> (ValueType \<times> 's DBIter) outcome" where
  "prev_loop I 0 value_type d = NoFuel"
| "prev_loop I (Suc fuel) value_type d =
     bindO (prev_step I value_type d) (\<lambda>(stop, value_type, d).
       if stop then Ret (value_type, d)
       else bindO (it_Prev I (di_iter d)) (\<lambda>s.
         if it_Valid I s then prev_loop I fuel value_type (d\<lparr>di_iter := s\<rparr>) else Ret (value_type, d\<lparr>di_iter := s\<rparr>)))"

definition FindPrevUserEntry :: "'s Iterator \<Rightarrow> nat \<Rightarrow> 's DBIter \<Rightarrow> 's DBIter outcome" where
  "FindPrevUserEntry I fuel d =
     bindO (if it_Valid I (di_iter d) then prev_loop I fuel kTypeDeletion d else Ret (kTypeDeletion, d)) (\<lambda>(value_type, d).
       if value_type = kTypeDeletion then Ret (d\<lparr>di_valid := False, di_saved_key := [], di_saved_value := [], di_direction := kForward\<rparr>)
       else Ret (d\<lparr>di_valid := True\<rparr>))"

text \<open>Scanning back until the key changes; the result tells whether there is an entry with a smaller key.\<close>

fun scan_back :: "'s Iterator \<Rightarrow> nat \<Rightarrow> 's DBIter \<Rightarrow> (bool \<times> 's DBIter) outcome" where
  "scan_back I 0 d = NoFuel"
| "scan_back I (Suc fuel) d =
     bindO (it_Prev I (di_iter d)) (\<lambda>s.
       let d = d\<lparr>di_iter := s\<rparr>
       in if \<not> it_Valid I s then Ret (False, d\<lparr>di_valid := False, di_saved_key := [], di_saved_value := []\<rparr>)
          else
            bindO (it_key I s) (\<lambda>k. bindO (ExtractUserKey k) (\<lambda>u. bindO (Compare (di_user_comparator d) u (di_saved_key d)) (\<lambda>c.
              if c < 0 then Ret (True, d) else scan_back I fuel d))))"

definition DBIter_Prev :: "'s Iterator \<Rightarrow> nat \<Rightarrow> 's DBIter \<Rightarrow> 's DBIter outcome" where
  "DBIter_Prev I fuel d =
     (if di_direction d = kForward then
        bindO (it_key I (di_iter d)) (\<lambda>k. bindO (ExtractUserKey k) (\<lambda>u.
        bindO (scan_back I fuel (d\<lparr>di_saved_key := u\<rparr>)) (\<lambda>(found, d).
          if found then FindPrevUserEntry I fuel (d\<lparr>di_direction := kReverse\<rparr>) else Ret d)))
      else FindPrevUserEntry I fuel d)"

section \<open>Seeking\<close>

text \<open>
  \<open>target\<close> is a value. A slice of \<open>saved_key_\<close> itself, which \<open>key\<close> returns after a backward move, is
  cleared in C before it is read; the slice that \<open>key\<close> returned is valid only until the next move.
\<close>

definition DBIter_Seek :: "'s Iterator \<Rightarrow> nat \<Rightarrow> byte list \<Rightarrow> 's DBIter \<Rightarrow> 's DBIter outcome" where
  "DBIter_Seek I fuel target d =
     (let d = d\<lparr>di_direction := kForward, di_saved_value := [], di_saved_key := AppendInternalKey [] \<lparr>user_key = target, sequence = di_sequence d, ktype = kValueTypeForSeek\<rparr>\<rparr>
      in bindO (it_Seek I (di_saved_key d) (di_iter d)) (\<lambda>s.
           if it_Valid I s then FindNextUserEntry I fuel False (d\<lparr>di_iter := s\<rparr>) else Ret (d\<lparr>di_iter := s, di_valid := False\<rparr>)))"

definition DBIter_SeekToFirst :: "'s Iterator \<Rightarrow> nat \<Rightarrow> 's DBIter \<Rightarrow> 's DBIter outcome" where
  "DBIter_SeekToFirst I fuel d =
     bindO (it_SeekToFirst I (di_iter d)) (\<lambda>s.
       let d = d\<lparr>di_direction := kForward, di_saved_value := [], di_iter := s\<rparr>
       in if it_Valid I s then FindNextUserEntry I fuel False d else Ret (d\<lparr>di_valid := False\<rparr>))"

definition DBIter_SeekToLast :: "'s Iterator \<Rightarrow> nat \<Rightarrow> 's DBIter \<Rightarrow> 's DBIter outcome" where
  "DBIter_SeekToLast I fuel d =
     bindO (it_SeekToLast I (di_iter d)) (\<lambda>s. FindPrevUserEntry I fuel (d\<lparr>di_direction := kReverse, di_saved_value := [], di_iter := s\<rparr>))"

text \<open>\<open>fuel\<close> bounds the loops over the entries of the internal iterator.\<close>

definition DBIter_ops :: "'s Iterator \<Rightarrow> nat \<Rightarrow> 's DBIter Iterator" where
  "DBIter_ops I fuel =
     \<lparr>it_Valid = DBIter_Valid, it_SeekToFirst = DBIter_SeekToFirst I fuel, it_SeekToLast = DBIter_SeekToLast I fuel, it_Seek = DBIter_Seek I fuel,
      it_Next = DBIter_Next I fuel, it_Prev = DBIter_Prev I fuel, it_key = DBIter_key I, it_value = DBIter_value I, it_status = DBIter_status I\<rparr>"

end
