(* ===== verification/Merger_Correct.thy ===== *)
theory Merger_Correct
  imports Merger "HOL-Library.Multiset"
begin

text \<open>
  The merging iterator over cursors is a cursor over the merged entries.
\<close>

section \<open>Loops over the children\<close>

lemma each_child_ok:
  assumes "\<And>i. i < length ws \<Longrightarrow> \<exists>w. f (ws ! i) = Ret w \<and> Q i w"
  shows "\<exists>ws'. each_child f ws = Ret ws' \<and> length ws' = length ws \<and> (\<forall>i < length ws. Q i (ws' ! i))"
  using assms
proof (induction ws arbitrary: Q)
  case (Cons w ws)
  obtain w' where w': "f w = Ret w'" "Q 0 w'" using Cons.prems [of 0] by auto
  have "\<exists>ws'. each_child f ws = Ret ws' \<and> length ws' = length ws \<and> (\<forall>i < length ws. Q (Suc i) (ws' ! i))"
    by (rule Cons.IH) (use Cons.prems [of "Suc _"] in auto)
  then obtain ws' where "each_child f ws = Ret ws'" "length ws' = length ws" "\<forall>i < length ws. Q (Suc i) (ws' ! i)" by blast
  then show ?case using w' by (intro exI [of _ "w' # ws'"]) (auto simp: nth_Cons split: nat.split)
qed simp

lemma other_children_ok:
  assumes "\<And>i. i < length ws \<Longrightarrow> \<exists>w. (if k + i \<noteq> cur then f (ws ! i) else Ret (ws ! i)) = Ret w \<and> Q i w"
  shows "\<exists>ws'. other_children f cur k ws = Ret ws' \<and> length ws' = length ws \<and> (\<forall>i < length ws. Q i (ws' ! i))"
  using assms
proof (induction ws arbitrary: Q k)
  case (Cons w ws)
  have "\<exists>w'. (if k \<noteq> cur then f w else Ret w) = Ret w' \<and> Q 0 w'" using Cons.prems [of 0] by (cases "k = cur") simp_all
  then obtain w' where w': "(if k \<noteq> cur then f w else Ret w) = Ret w'" "Q 0 w'" by blast
  have "\<exists>ws'. other_children f cur (k + 1) ws = Ret ws' \<and> length ws' = length ws \<and> (\<forall>i < length ws. Q (Suc i) (ws' ! i))"
  proof (rule Cons.IH)
    show "\<exists>w. (if k + 1 + i \<noteq> cur then f (ws ! i) else Ret (ws ! i)) = Ret w \<and> Q (Suc i) w" if "i < length ws" for i
      using Cons.prems [of "Suc i"] that by (cases "k + 1 + i = cur") simp_all
  qed
  then obtain ws' where "other_children f cur (k + 1) ws = Ret ws'" "length ws' = length ws" "\<forall>i < length ws. Q (Suc i) (ws' ! i)" by blast
  then show ?case using w' by (intro exI [of _ "w' # ws'"]) (auto simp: nth_Cons split: nat.split)
qed simp

section \<open>Positions in rising lists\<close>

definition step_back :: "entry list \<Rightarrow> nat \<Rightarrow> nat" where
  "step_back xs q = (if q = 0 then length xs else q - 1)"

definition merged_from :: "entry list list \<Rightarrow> entry list \<Rightarrow> bool" where
  "merged_from ess es \<longleftrightarrow> mset es = mset (concat ess)"

context comparator
begin

lemma rising_distinct: "rising lt keys es \<Longrightarrow> distinct es"
proof (induction es)
  case (Cons e es)
  then have "\<forall>x\<in>set es. lt (fst e) (fst x)" "fst e \<in> keys" "rising lt keys es" by (simp_all add: rising_Cons)
  then show ?case using Cons.IH lt_irrefl by auto
qed simp

lemma rising_key: "rising lt keys es \<Longrightarrow> i < length es \<Longrightarrow> fst (es ! i) \<in> keys"
  by (auto simp: rising_def)

lemma rising_lt: "rising lt keys es \<Longrightarrow> i < j \<Longrightarrow> j < length es \<Longrightarrow> lt (fst (es ! i)) (fst (es ! j))"
  by (auto simp: rising_def sorted_wrt_iff_nth_less)

lemma rising_lt_iff:
  assumes "rising lt keys es" "i < length es" "j < length es"
  shows "lt (fst (es ! i)) (fst (es ! j)) \<longleftrightarrow> i < j"
  using rising_lt [OF assms(1), of i j] rising_lt [OF assms(1), of j i] rising_key [OF assms(1)] assms(2,3) lt_asym lt_irrefl
  by (metis linorder_neqE_nat)

lemma rising_inj:
  assumes "rising lt keys es" "i < length es" "j < length es"
  shows "fst (es ! i) = fst (es ! j) \<longleftrightarrow> i = j"
proof
  assume "fst (es ! i) = fst (es ! j)"
  then have "i < j \<longleftrightarrow> j < i" using rising_lt_iff [OF assms] rising_lt_iff [OF assms(1,3,2)] by simp
  then show "i = j" by linarith
qed simp

lemma lower_lt: "k \<in> keys \<Longrightarrow> lower lt keys (\<lambda>x. lt x k)"
  using lt_trans unfolding lower_def by blast

lemma lower_le: "k \<in> keys \<Longrightarrow> lower lt keys (\<lambda>x. lt x k \<or> x = k)"
  using lt_trans unfolding lower_def by blast

lemma before_filter: "rising lt keys es \<Longrightarrow> lower lt keys P \<Longrightarrow> p \<le> length es \<Longrightarrow> (\<And>i. i < length es \<Longrightarrow> P (fst (es ! i)) \<longleftrightarrow> i < p) \<Longrightarrow> before P es = p"
  using cut_nth [of lt keys es P] before_le [of P es] by (metis linorder_neqE_nat order_less_le_trans order_less_irrefl)

lemma before_self:
  assumes "rising lt keys es" "p < length es"
  shows "before (\<lambda>x. lt x (fst (es ! p))) es = p" "before (\<lambda>x. lt x (fst (es ! p)) \<or> x = fst (es ! p)) es = Suc p"
proof -
  have k: "fst (es ! p) \<in> keys" by (rule rising_key [OF assms])
  show "before (\<lambda>x. lt x (fst (es ! p))) es = p"
    by (rule before_filter [OF assms(1) lower_lt [OF k]]) (use assms rising_lt_iff in auto)
  show "before (\<lambda>x. lt x (fst (es ! p)) \<or> x = fst (es ! p)) es = Suc p"
    by (rule before_filter [OF assms(1) lower_le [OF k]]) (use assms rising_lt_iff rising_inj in \<open>auto simp: less_Suc_eq\<close>)
qed

text \<open>The children of a merge.\<close>

lemma merged_child:
  assumes "merged_from ess es" "i < length ess" "x \<in> set (ess ! i)"
  shows "\<exists>p < length es. x = es ! p"
proof -
  have "x \<in># mset (concat ess)" using assms(2,3) bucket_subset by fastforce
  then have "x \<in> set es" using assms(1) by (metis merged_from_def set_mset_mset)
  then show ?thesis by (metis in_set_conv_nth)
qed

lemma merged_entry:
  assumes "merged_from ess es" "p < length es"
  shows "\<exists>i < length ess. \<exists>k < length (ess ! i). ess ! i ! k = es ! p"
proof -
  have "es ! p \<in># mset (concat ess)" using assms by (metis merged_from_def nth_mem set_mset_mset)
  then have "es ! p \<in> set (concat ess)" by (simp only: set_mset_mset)
  from in_bucket [OF this] show ?thesis by (metis in_set_conv_nth)
qed

lemma merged_disjoint:
  assumes "rising lt keys es" "merged_from ess es" "i < length ess" "j < length ess" "i \<noteq> j" "x \<in> set (ess ! i)" "y \<in> set (ess ! j)"
  shows "fst x \<noteq> fst y"
proof
  assume eq: "fst x = fst y"
  obtain p q where p: "p < length es" "x = es ! p" and q: "q < length es" "y = es ! q" using merged_child assms(2-7) by meson
  then have "p = q" using eq rising_inj [OF assms(1)] by simp
  moreover have "distinct (concat ess)" using rising_distinct [OF assms(1)] assms(2) by (metis merged_from_def mset_eq_imp_distinct_iff)
  ultimately show False using bucket_disjoint [of ess i j] assms(3-7) p q by auto
qed

lemma before_child:
  assumes "rising lt keys es" "lower lt keys P" "merged_from ess es" "p \<le> length es" "before P es = p" "i < length ess"
    and "\<And>q. q < length es \<Longrightarrow> es ! q \<in> set (ess ! i) \<Longrightarrow> Q (fst (es ! q)) \<longleftrightarrow> q < p"
  shows "before P (ess ! i) = before Q (ess ! i)"
proof (rule before_cong)
  fix e assume e: "e \<in> set (ess ! i)"
  obtain q where "q < length es" "e = es ! q" using merged_child [OF assms(3,6) e] by blast
  then show "P (fst e) = Q (fst e)" using cut_nth [OF assms(1,2)] assms(5,7) e by simp
qed

end

section \<open>The wrapper\<close>

context cursor
begin

definition wrep :: "entry list \<Rightarrow> nat \<Rightarrow> 's IteratorWrapper \<Rightarrow> bool" where
  "wrep es p w \<longleftrightarrow> (\<exists>s. iw_iter w = Some s \<and> rep es p s) \<and> iw_valid w = (p < length es) \<and> (p < length es \<longrightarrow> iw_key w = fst (es ! p))"

lemma Update_ok: "rep es p s \<Longrightarrow> iw_iter w = Some s \<Longrightarrow> \<exists>w'. Wrapper_Update I w = Ret w' \<and> wrep es p w'"
  using rep_valid [of es p s] rep_key [of es p s] by (auto simp: Wrapper_Update_def wrep_def)

lemma Wrapper_step_ok:
  assumes "wrep es p w" "\<And>s. rep es p s \<Longrightarrow> \<exists>s'. f s = Ret s' \<and> rep es q s'"
  shows "\<exists>w'. Wrapper_step I f w = Ret w' \<and> wrep es q w'"
proof -
  obtain s where s: "iw_iter w = Some s" "rep es p s" using assms(1) by (auto simp: wrep_def)
  then obtain s' where s': "f s = Ret s'" "rep es q s'" using assms(2) by blast
  then show ?thesis using s(1) Update_ok [OF s'(2), of "w\<lparr>iw_iter := Some s'\<rparr>"] by (simp add: Wrapper_step_def)
qed

lemma wrep_valid: "wrep es p w \<Longrightarrow> p \<le> length es \<and> iw_valid w = (p < length es)"
  using rep_valid by (auto simp: wrep_def)

lemma wrep_key: "wrep es p w \<Longrightarrow> p < length es \<Longrightarrow> iw_key w = fst (es ! p)"
  by (simp add: wrep_def)

lemma wrep_rising: "wrep es p w \<Longrightarrow> rising lt keys es"
  using rep_rising by (auto simp: wrep_def)

lemma Wrapper_Next_ok: "wrep es p w \<Longrightarrow> p < length es \<Longrightarrow> \<exists>w'. Wrapper_Next I w = Ret w' \<and> wrep es (Suc p) w'"
  unfolding Wrapper_Next_def by (rule Wrapper_step_ok) (auto intro: rep_next)

lemma Wrapper_Prev_ok: "wrep es p w \<Longrightarrow> p < length es \<Longrightarrow> \<exists>w'. Wrapper_Prev I w = Ret w' \<and> wrep es (step_back es p) w'"
  unfolding Wrapper_Prev_def step_back_def by (rule Wrapper_step_ok) (assumption, rule rep_prev)

lemma Wrapper_Seek_ok: "wrep es p w \<Longrightarrow> k \<in> keys \<Longrightarrow> \<exists>w'. Wrapper_Seek I k w = Ret w' \<and> wrep es (before (\<lambda>x. lt x k) es) w'"
  unfolding Wrapper_Seek_def by (rule Wrapper_step_ok) (auto intro: rep_seek)

lemma Wrapper_SeekToFirst_ok: "wrep es p w \<Longrightarrow> \<exists>w'. Wrapper_SeekToFirst I w = Ret w' \<and> wrep es 0 w'"
  unfolding Wrapper_SeekToFirst_def by (rule Wrapper_step_ok) (auto intro: rep_first)

lemma Wrapper_SeekToLast_ok: "wrep es p w \<Longrightarrow> \<exists>w'. Wrapper_SeekToLast I w = Ret w' \<and> wrep es (length es - 1) w'"
  unfolding Wrapper_SeekToLast_def by (rule Wrapper_step_ok) (assumption, rule rep_last)

text \<open>Moving a child after, or before, a key that it does not have.\<close>

lemma move_after_ok:
  assumes "wrep es p w" "k \<in> keys" "k \<notin> fst ` set es"
  shows "\<exists>w'. move_after I C k w = Ret w' \<and> wrep es (before (\<lambda>x. lt x k) es) w'"
proof -
  let ?q = "before (\<lambda>x. lt x k) es"
  obtain w' where w': "Wrapper_Seek I k w = Ret w'" "wrep es ?q w'" using Wrapper_Seek_ok [OF assms(1,2)] by blast
  show ?thesis
  proof (cases "?q < length es")
    case True
    then have "fst (es ! ?q) \<in> keys" "k \<noteq> fst (es ! ?q)" using rising_key [OF wrep_rising [OF assms(1)]] assms(3) by auto
    with compare [OF assms(2) this(1)] obtain r where "Compare C k (fst (es ! ?q)) = Ret r" "r \<noteq> 0" by auto
    then show ?thesis using w' True wrep_valid [OF w'(2)] wrep_key [OF w'(2)] by (simp add: move_after_def)
  next
    case False
    then show ?thesis using w' wrep_valid [OF w'(2)] by (simp add: move_after_def)
  qed
qed

lemma move_before_ok:
  assumes "wrep es p w" "k \<in> keys"
  shows "\<exists>w'. move_before I k w = Ret w' \<and> wrep es (step_back es (before (\<lambda>x. lt x k) es)) w'"
proof -
  let ?q = "before (\<lambda>x. lt x k) es"
  obtain w' where w': "Wrapper_Seek I k w = Ret w'" "wrep es ?q w'" using Wrapper_Seek_ok [OF assms] by blast
  show ?thesis
  proof (cases "?q < length es")
    case True
    then show ?thesis using w' wrep_valid [OF w'(2)] Wrapper_Prev_ok [OF w'(2)] by (simp add: move_before_def)
  next
    case False
    then have "?q = length es" using before_le by (metis le_neq_implies_less)
    then have "step_back es ?q = length es - 1" by (simp add: step_back_def)
    then show ?thesis using w' False wrep_valid [OF w'(2)] Wrapper_SeekToLast_ok [OF w'(2)] by (simp only: move_before_def bindO.simps if_False)
  qed
qed

section \<open>Finding the next child\<close>

definition kids :: "entry list list \<Rightarrow> (nat \<Rightarrow> nat) \<Rightarrow> 's IteratorWrapper list \<Rightarrow> bool" where
  "kids ess pos ws \<longleftrightarrow> length ws = length ess \<and> (\<forall>i < length ess. wrep (ess ! i) (pos i) (ws ! i))"

lemma kids_facts:
  assumes "kids ess pos ws" "i < length ess"
  shows "wrep (ess ! i) (pos i) (ws ! i)" "iw_valid (ws ! i) \<longleftrightarrow> pos i < length (ess ! i)" "rising lt keys (ess ! i)"
    "pos i < length (ess ! i) \<Longrightarrow> iw_key (ws ! i) = fst (ess ! i ! pos i)" "pos i < length (ess ! i) \<Longrightarrow> fst (ess ! i ! pos i) \<in> keys" "pos i \<le> length (ess ! i)"
proof -
  show w: "wrep (ess ! i) (pos i) (ws ! i)" using assms by (simp add: kids_def)
  show "iw_valid (ws ! i) \<longleftrightarrow> pos i < length (ess ! i)" "pos i \<le> length (ess ! i)" using wrep_valid [OF w] by simp_all
  show r: "rising lt keys (ess ! i)" by (rule wrep_rising [OF w])
  show "pos i < length (ess ! i) \<Longrightarrow> iw_key (ws ! i) = fst (ess ! i ! pos i)" by (rule wrep_key [OF w])
  show "pos i < length (ess ! i) \<Longrightarrow> fst (ess ! i ! pos i) \<in> keys" by (rule rising_key [OF r])
qed

definition best :: "(byte list \<Rightarrow> byte list \<Rightarrow> bool) \<Rightarrow> entry list list \<Rightarrow> (nat \<Rightarrow> nat) \<Rightarrow> nat set \<Rightarrow> nat option \<Rightarrow> bool" where
  "best R ess pos S c \<longleftrightarrow>
     (case c of
        None \<Rightarrow> \<forall>i\<in>S. \<not> pos i < length (ess ! i)
      | Some s \<Rightarrow> s \<in> S \<and> pos s < length (ess ! s) \<and>
          (\<forall>i\<in>S. pos i < length (ess ! i) \<longrightarrow> \<not> R (fst (ess ! i ! pos i)) (fst (ess ! s ! pos s))))"

definition strict :: "(byte list \<Rightarrow> byte list \<Rightarrow> bool) \<Rightarrow> bool" where
  "strict R \<longleftrightarrow> (\<forall>a\<in>keys. \<not> R a a) \<and> (\<forall>a\<in>keys. \<forall>b\<in>keys. \<forall>c\<in>keys. R a b \<longrightarrow> R b c \<longrightarrow> R a c)"

lemma strict_lt: "strict lt" "strict (\<lambda>a b. lt b a)"
  using lt_irrefl lt_trans unfolding strict_def by blast+

lemma best_step:
  assumes "strict R" "\<forall>j\<in>insert i S. pos j < length (ess ! j) \<longrightarrow> fst (ess ! j ! pos j) \<in> keys" "best R ess pos S c"
  shows "\<not> pos i < length (ess ! i) \<Longrightarrow> best R ess pos (insert i S) c"
    "pos i < length (ess ! i) \<Longrightarrow> c = None \<Longrightarrow> best R ess pos (insert i S) (Some i)"
    "pos i < length (ess ! i) \<Longrightarrow> c = Some s \<Longrightarrow> R (fst (ess ! i ! pos i)) (fst (ess ! s ! pos s)) \<Longrightarrow> best R ess pos (insert i S) (Some i)"
    "pos i < length (ess ! i) \<Longrightarrow> c = Some s \<Longrightarrow> \<not> R (fst (ess ! i ! pos i)) (fst (ess ! s ! pos s)) \<Longrightarrow> best R ess pos (insert i S) (Some s)"
proof -
  have ir: "\<not> R (fst (ess ! i ! pos i)) (fst (ess ! i ! pos i))" if "pos i < length (ess ! i)" using assms(1,2) that by (simp add: strict_def)
  show "\<not> pos i < length (ess ! i) \<Longrightarrow> best R ess pos (insert i S) c" using assms(3) by (auto simp: best_def split: option.splits)
  show "pos i < length (ess ! i) \<Longrightarrow> c = None \<Longrightarrow> best R ess pos (insert i S) (Some i)"
    using assms(3) ir by (auto simp: best_def)
  show "pos i < length (ess ! i) \<Longrightarrow> c = Some s \<Longrightarrow> \<not> R (fst (ess ! i ! pos i)) (fst (ess ! s ! pos s)) \<Longrightarrow> best R ess pos (insert i S) (Some s)"
    using assms(3) by (auto simp: best_def)
  show "best R ess pos (insert i S) (Some i)" if v: "pos i < length (ess ! i)" "c = Some s" "R (fst (ess ! i ! pos i)) (fst (ess ! s ! pos s))"
  proof -
    have s: "s \<in> S" "pos s < length (ess ! s)" using assms(3) v(2) by (simp_all add: best_def)
    have "\<not> R (fst (ess ! j ! pos j)) (fst (ess ! i ! pos i))" if j: "j \<in> insert i S" "pos j < length (ess ! j)" for j
    proof
      assume l: "R (fst (ess ! j ! pos j)) (fst (ess ! i ! pos i))"
      then have "j \<noteq> i" using ir v(1) by auto
      moreover have "R (fst (ess ! j ! pos j)) (fst (ess ! s ! pos s))"
        using assms(1,2) j s l v(1,3) unfolding strict_def by (meson insertCI)
      ultimately show False using assms(3) v(2) j by (auto simp: best_def)
    qed
    then show ?thesis using v(1) by (simp add: best_def)
  qed
qed

lemma smallest_loop_ok:
  assumes "kids ess pos ws" "set is \<union> S \<subseteq> {..<length ess}" "best lt ess pos S c"
  shows "\<exists>c'. smallest_loop C ws is c = Ret c' \<and> best lt ess pos (set is \<union> S) c'"
  using assms(2,3)
proof (induction "is" arbitrary: S c)
  case (Cons i "is")
  have i: "i < length ess" using Cons.prems(1) by simp
  note K = kids_facts [OF assms(1)]
  have hk: "\<forall>j\<in>insert i S. pos j < length (ess ! j) \<longrightarrow> fst (ess ! j ! pos j) \<in> keys" using K(5) Cons.prems(1) by auto
  note B = best_step [OF strict_lt(1) hk Cons.prems(2)]
  have "\<exists>c'. smallest_loop C ws (i # is) c = smallest_loop C ws is c' \<and> best lt ess pos (insert i S) c'"
  proof (cases "pos i < length (ess ! i)")
    case v: True
    show ?thesis
    proof (cases c)
      case None
      then show ?thesis using v K(2) [OF i] B(2) by (intro exI [of _ "Some i"]) simp
    next
      case (Some s)
      then have s: "s < length ess" "pos s < length (ess ! s)" using Cons.prems by (auto simp: best_def)
      obtain r where "Compare C (iw_key (ws ! i)) (iw_key (ws ! s)) = Ret r" "r < 0 \<longleftrightarrow> lt (fst (ess ! i ! pos i)) (fst (ess ! s ! pos s))"
        using compare [OF K(5) [OF i v] K(5) [OF s]] K(4) [OF i v] K(4) [OF s] by auto
      then show ?thesis using Some v K(2) [OF i] B(3,4) [OF v Some] by (intro exI [of _ "if r < 0 then Some i else Some s"]) simp
    qed
  next
    case False
    then show ?thesis using K(2) [OF i] B(1) by (intro exI [of _ c]) simp
  qed
  then obtain c' where c': "smallest_loop C ws (i # is) c = smallest_loop C ws is c'" "best lt ess pos (insert i S) c'" by blast
  have "set is \<union> insert i S \<subseteq> {..<length ess}" using Cons.prems(1) by simp
  from Cons.IH [OF this c'(2)] show ?case unfolding c'(1) by simp
qed simp

lemma largest_loop_ok:
  assumes "kids ess pos ws" "set is \<union> S \<subseteq> {..<length ess}" "best (\<lambda>a b. lt b a) ess pos S c"
  shows "\<exists>c'. largest_loop C ws is c = Ret c' \<and> best (\<lambda>a b. lt b a) ess pos (set is \<union> S) c'"
  using assms(2,3)
proof (induction "is" arbitrary: S c)
  case (Cons i "is")
  have i: "i < length ess" using Cons.prems(1) by simp
  note K = kids_facts [OF assms(1)]
  have hk: "\<forall>j\<in>insert i S. pos j < length (ess ! j) \<longrightarrow> fst (ess ! j ! pos j) \<in> keys" using K(5) Cons.prems(1) by auto
  note B = best_step [OF strict_lt(2) hk Cons.prems(2)]
  have "\<exists>c'. largest_loop C ws (i # is) c = largest_loop C ws is c' \<and> best (\<lambda>a b. lt b a) ess pos (insert i S) c'"
  proof (cases "pos i < length (ess ! i)")
    case v: True
    show ?thesis
    proof (cases c)
      case None
      then show ?thesis using v K(2) [OF i] B(2) by (intro exI [of _ "Some i"]) simp
    next
      case (Some s)
      then have s: "s < length ess" "pos s < length (ess ! s)" using Cons.prems by (auto simp: best_def)
      obtain r where "Compare C (iw_key (ws ! i)) (iw_key (ws ! s)) = Ret r" "0 < r \<longleftrightarrow> lt (fst (ess ! s ! pos s)) (fst (ess ! i ! pos i))"
        using compare [OF K(5) [OF i v] K(5) [OF s]] K(4) [OF i v] K(4) [OF s] by auto
      then show ?thesis using Some v K(2) [OF i] B(3,4) [OF v Some] by (intro exI [of _ "if 0 < r then Some i else Some s"]) simp
    qed
  next
    case False
    then show ?thesis using K(2) [OF i] B(1) by (intro exI [of _ c]) simp
  qed
  then obtain c' where c': "largest_loop C ws (i # is) c = largest_loop C ws is c'" "best (\<lambda>a b. lt b a) ess pos (insert i S) c'" by blast
  have "set is \<union> insert i S \<subseteq> {..<length ess}" using Cons.prems(1) by simp
  from Cons.IH [OF this c'(2)] show ?case unfolding c'(1) by simp
qed simp

section \<open>The iterator as a cursor\<close>

text \<open>
  The current child stands on the entry. The others stand on their first entry after it when the direction is forward,
  and on their last one before it when it is backward.
\<close>

definition others_at :: "Direction \<Rightarrow> entry list \<Rightarrow> byte list \<Rightarrow> nat" where
  "others_at d xs k = (if d = kForward then before (\<lambda>x. lt x k) xs else step_back xs (before (\<lambda>x. lt x k) xs))"

definition mrep :: "entry list \<Rightarrow> nat \<Rightarrow> 's MergingIterator \<Rightarrow> bool" where
  "mrep es p m \<longleftrightarrow> rising lt keys es \<and> mi_comparator m = C \<and> p \<le> length es \<and>
     (\<exists>ess pos. kids ess pos (mi_children m) \<and> merged_from ess es \<and>
        (if p < length es
         then \<exists>c < length ess. mi_current m = Some c \<and> pos c < length (ess ! c) \<and> ess ! c ! pos c = es ! p \<and>
           (\<forall>i < length ess. i \<noteq> c \<longrightarrow> pos i = others_at (mi_direction m) (ess ! i) (fst (es ! p)))
         else mi_current m = None))"

lemma FindSmallest_ok:
  assumes "rising lt keys es" "mi_comparator m = C" "kids ess pos (mi_children m)" "merged_from ess es" "lower lt keys P"
    and "\<And>i. i < length ess \<Longrightarrow> pos i = before P (ess ! i)"
  shows "\<exists>c. FindSmallest m = Ret (m\<lparr>mi_current := c\<rparr>) \<and> mrep es (before P es) (m\<lparr>mi_current := c, mi_direction := kForward\<rparr>)"
proof -
  let ?p = "before P es"
  note K = kids_facts [OF assms(3)] and r = assms(1)
  have len: "length (mi_children m) = length ess" using assms(3) by (simp add: kids_def)
  obtain c where c: "smallest_loop C (mi_children m) [0..<length ess] None = Ret c" "best lt ess pos {..<length ess} c"
    using smallest_loop_ok [OF assms(3), of "[0..<length ess]" "{}" None] by (auto simp: best_def atLeast0LessThan)
  have after: "\<exists>q. ?p \<le> q \<and> q < length es \<and> ess ! i ! pos i = es ! q" if i: "i < length ess" "pos i < length (ess ! i)" for i
  proof -
    obtain q where q: "q < length es" "ess ! i ! pos i = es ! q" using merged_child [OF assms(4) i(1), of "ess ! i ! pos i"] i(2) by auto
    have "\<not> P (fst (ess ! i ! pos i))" using cut_nth [OF K(3) [OF i(1)] assms(5) i(2)] assms(6) [OF i(1)] by simp
    then have "\<not> q < ?p" using cut_nth [OF r assms(5) q(1)] q(2) by simp
    then show ?thesis using q by (intro exI [of _ q]) simp
  qed
  have "mrep es ?p (m\<lparr>mi_current := c, mi_direction := kForward\<rparr>)"
  proof (cases "?p < length es")
    case True
    obtain j k where j: "j < length ess" "k < length (ess ! j)" "ess ! j ! k = es ! ?p" using merged_entry [OF assms(4) True] by blast
    have "\<not> P (fst (es ! ?p))" using cut_nth [OF r assms(5) True] by simp
    then have jk: "pos j \<le> k" using cut_nth [OF K(3) [OF j(1)] assms(5) j(2)] j(3) assms(6) [OF j(1)] by simp
    then have vj: "pos j < length (ess ! j)" using j(2) by simp
    then obtain s where s: "c = Some s" "s < length ess" "pos s < length (ess ! s)" "\<not> lt (fst (ess ! j ! pos j)) (fst (ess ! s ! pos s))"
      using c(2) j(1) by (cases c) (auto simp: best_def)
    obtain q where q: "?p \<le> q" "q < length es" "ess ! s ! pos s = es ! q" using after [OF s(2,3)] by blast
    obtain q' where q': "?p \<le> q'" "q' < length es" "ess ! j ! pos j = es ! q'" using after [OF j(1) vj] by blast
    have "\<not> lt (fst (ess ! j ! k)) (fst (ess ! j ! pos j))" using rising_lt_iff [OF K(3) [OF j(1)] j(2) vj] jk by simp
    then have "q' = ?p" using rising_lt_iff [OF r True q'(2)] j(3) q'(1,3) by simp
    then have qp: "q = ?p" using s(4) rising_lt_iff [OF r q'(2) q(2)] q(1,3) q'(3) by simp
    have "pos i = others_at kForward (ess ! i) (fst (es ! ?p))" if i: "i < length ess" "i \<noteq> s" for i
    proof -
      have "before P (ess ! i) = before (\<lambda>x. lt x (fst (es ! ?p))) (ess ! i)"
        by (rule before_child [OF r assms(5,4) before_le refl i(1)]) (use rising_lt_iff [OF r _ True] in blast)
      then show ?thesis using assms(6) [OF i(1)] by (simp add: others_at_def)
    qed
    then show ?thesis using True r assms(2-4) s(1-3) q(3) qp before_le [of P es] unfolding mrep_def by (intro conjI exI [of _ ess] exI [of _ pos]) auto
  next
    case False
    have "c = None"
    proof (cases c)
      case (Some s)
      then have "s < length ess" "pos s < length (ess ! s)" using c(2) by (auto simp: best_def)
      from after [OF this] False show ?thesis by auto
    qed
    then show ?thesis using False r assms(2-4) before_le [of P es] unfolding mrep_def by (intro conjI exI [of _ ess] exI [of _ pos]) auto
  qed
  then show ?thesis using c(1) len assms(2) by (intro exI [of _ c]) (simp add: FindSmallest_def)
qed

lemma FindLargest_ok:
  assumes "rising lt keys es" "mi_comparator m = C" "kids ess pos (mi_children m)" "merged_from ess es" "lower lt keys P"
    and "\<And>i. i < length ess \<Longrightarrow> pos i = step_back (ess ! i) (before P (ess ! i))"
  shows "\<exists>c. FindLargest m = Ret (m\<lparr>mi_current := c\<rparr>) \<and> mrep es (step_back es (before P es)) (m\<lparr>mi_current := c, mi_direction := kReverse\<rparr>)"
proof -
  let ?n = "before P es"
  note K = kids_facts [OF assms(3)] and r = assms(1)
  have len: "length (mi_children m) = length ess" using assms(3) by (simp add: kids_def)
  obtain c where c: "largest_loop C (mi_children m) (rev [0..<length ess]) None = Ret c" "best (\<lambda>a b. lt b a) ess pos {..<length ess} c"
    using largest_loop_ok [OF assms(3), of "rev [0..<length ess]" "{}" None] by (auto simp: best_def atLeast0LessThan)
  have valid: "pos i = before P (ess ! i) - 1 \<and> 0 < before P (ess ! i)" if "i < length ess" "pos i < length (ess ! i)" for i
    using assms(6) [OF that(1)] that(2) by (simp add: step_back_def split: if_splits)
  have upto: "\<exists>q < ?n. q < length es \<and> ess ! i ! pos i = es ! q" if i: "i < length ess" "pos i < length (ess ! i)" for i
  proof -
    obtain q where q: "q < length es" "ess ! i ! pos i = es ! q" using merged_child [OF assms(4) i(1), of "ess ! i ! pos i"] i(2) by auto
    have "P (fst (ess ! i ! pos i))" using cut_nth [OF K(3) [OF i(1)] assms(5) i(2)] valid [OF i] by simp
    then have "q < ?n" using cut_nth [OF r assms(5) q(1)] q(2) by simp
    then show ?thesis using q by blast
  qed
  have "mrep es (step_back es ?n) (m\<lparr>mi_current := c, mi_direction := kReverse\<rparr>)"
  proof (cases "?n = 0")
    case False
    let ?p = "?n - 1"
    have p: "?p < length es" "step_back es ?n = ?p" using False before_le [of P es] by (simp_all add: step_back_def)
    obtain j k where j: "j < length ess" "k < length (ess ! j)" "ess ! j ! k = es ! ?p" using merged_entry [OF assms(4) p(1)] by blast
    have "P (fst (es ! ?p))" using cut_nth [OF r assms(5) p(1)] False by simp
    then have "k < before P (ess ! j)" using cut_nth [OF K(3) [OF j(1)] assms(5) j(2)] j(3) by simp
    then have jk: "k \<le> pos j" "pos j < length (ess ! j)" using assms(6) [OF j(1)] before_le [of P "ess ! j"] by (auto simp: step_back_def)
    then obtain s where s: "c = Some s" "s < length ess" "pos s < length (ess ! s)" "\<not> lt (fst (ess ! s ! pos s)) (fst (ess ! j ! pos j))"
      using c(2) j(1) by (cases c) (auto simp: best_def)
    obtain q where q: "q < ?n" "q < length es" "ess ! s ! pos s = es ! q" using upto [OF s(2,3)] by blast
    obtain q' where q': "q' < ?n" "q' < length es" "ess ! j ! pos j = es ! q'" using upto [OF j(1) jk(2)] by blast
    have "\<not> lt (fst (ess ! j ! pos j)) (fst (ess ! j ! k))" using rising_lt_iff [OF K(3) [OF j(1)] jk(2) j(2)] jk(1) by simp
    then have "q' = ?p" using rising_lt_iff [OF r q'(2) p(1)] j(3) q'(1,3) by simp
    then have qp: "q = ?p" using s(4) rising_lt_iff [OF r q(2) q'(2)] q(1,3) q'(3) by simp
    have "pos i = others_at kReverse (ess ! i) (fst (es ! ?p))" if i: "i < length ess" "i \<noteq> s" for i
    proof -
      have "before P (ess ! i) = before (\<lambda>x. lt x (fst (es ! ?p))) (ess ! i)"
      proof (rule before_child [OF r assms(5,4) before_le refl i(1)])
        fix t assume t: "t < length es" "es ! t \<in> set (ess ! i)"
        have "es ! ?p \<in> set (ess ! s)" using q(3) qp s(3) by (metis nth_mem)
        then have "fst (es ! t) \<noteq> fst (es ! ?p)" using merged_disjoint [OF r assms(4) i(1) s(2) i(2) t(2)] by blast
        then have "t \<noteq> ?p" by auto
        then show "lt (fst (es ! t)) (fst (es ! ?p)) \<longleftrightarrow> t < ?n" using rising_lt_iff [OF r t(1) p(1)] False by auto
      qed
      then show ?thesis using assms(6) [OF i(1)] by (simp add: others_at_def)
    qed
    then show ?thesis using p r assms(2-4) s(1-3) q(3) qp unfolding mrep_def p(2) by (intro conjI exI [of _ ess] exI [of _ pos]) auto
  next
    case True
    have "c = None"
    proof (cases c)
      case (Some s)
      then have "s < length ess" "pos s < length (ess ! s)" using c(2) by (auto simp: best_def)
      from upto [OF this] True show ?thesis by auto
    qed
    then show ?thesis using True r assms(2-4) unfolding mrep_def by (intro conjI exI [of _ ess] exI [of _ pos]) (auto simp: step_back_def)
  qed
  then show ?thesis using c(1) len assms(2) by (intro exI [of _ c]) (simp add: FindLargest_def)
qed

section \<open>The operations\<close>

lemma all_children:
  assumes "kids ess pos ws" "\<And>i w. i < length ess \<Longrightarrow> wrep (ess ! i) (pos i) w \<Longrightarrow> \<exists>w'. f w = Ret w' \<and> wrep (ess ! i) (pos' i) w'"
  shows "\<exists>ws'. each_child f ws = Ret ws' \<and> kids ess pos' ws'"
proof -
  have len: "length ws = length ess" using assms(1) by (simp add: kids_def)
  have "\<exists>ws'. each_child f ws = Ret ws' \<and> length ws' = length ws \<and> (\<forall>i < length ws. wrep (ess ! i) (pos' i) (ws' ! i))"
    by (rule each_child_ok) (use assms(2) kids_facts(1) [OF assms(1)] len in simp)
  then show ?thesis using len by (auto simp: kids_def)
qed

lemma all_others:
  assumes "kids ess pos ws" "\<And>i w. i < length ess \<Longrightarrow> i \<noteq> c \<Longrightarrow> wrep (ess ! i) (pos i) w \<Longrightarrow> \<exists>w'. f w = Ret w' \<and> wrep (ess ! i) (pos' i) w'" "pos' c = pos c"
  shows "\<exists>ws'. other_children f c 0 ws = Ret ws' \<and> kids ess pos' ws'"
proof -
  have len: "length ws = length ess" using assms(1) by (simp add: kids_def)
  have "\<exists>ws'. other_children f c 0 ws = Ret ws' \<and> length ws' = length ws \<and> (\<forall>i < length ws. wrep (ess ! i) (pos' i) (ws' ! i))"
  proof (rule other_children_ok)
    fix i assume "i < length ws"
    then show "\<exists>w. (if 0 + i \<noteq> c then f (ws ! i) else Ret (ws ! i)) = Ret w \<and> wrep (ess ! i) (pos' i) w"
      using assms(2) [of i "ws ! i"] assms(3) kids_facts(1) [OF assms(1), of i] len by (cases "i = c") simp_all
  qed
  then show ?thesis using len by (auto simp: kids_def)
qed

lemma mrepD:
  assumes "mrep es p m"
  shows "rising lt keys es" "mi_comparator m = C" "p \<le> length es" "\<exists>ess pos. kids ess pos (mi_children m) \<and> merged_from ess es"
  using assms unfolding mrep_def by blast+

lemma kids_length: "kids ess pos ws \<Longrightarrow> length ws = length ess"
  by (simp add: kids_def)

lemma Merging_SeekToFirst_ok:
  assumes "mrep es p m"
  shows "\<exists>m'. Merging_SeekToFirst I m = Ret m' \<and> mrep es 0 m'"
proof -
  note M = mrepD [OF assms]
  obtain ess pos where k: "kids ess pos (mi_children m)" "merged_from ess es" using M(4) by blast
  have "\<exists>ws. each_child (Wrapper_SeekToFirst I) (mi_children m) = Ret ws \<and> kids ess (\<lambda>_. 0) ws"
    by (rule all_children [OF k(1)]) (rule Wrapper_SeekToFirst_ok)
  then obtain ws where ws: "each_child (Wrapper_SeekToFirst I) (mi_children m) = Ret ws" "kids ess (\<lambda>_. 0) ws" by blast
  have "\<exists>c. FindSmallest (m\<lparr>mi_children := ws\<rparr>) = Ret (m\<lparr>mi_children := ws\<rparr>\<lparr>mi_current := c\<rparr>) \<and>
      mrep es (before (\<lambda>_. False) es) (m\<lparr>mi_children := ws\<rparr>\<lparr>mi_current := c, mi_direction := kForward\<rparr>)"
    by (rule FindSmallest_ok [OF M(1) _ _ k(2)]) (use M(2) ws(2) in \<open>simp_all add: lower_def before_def\<close>)
  then show ?thesis using ws(1) by (auto simp: Merging_SeekToFirst_def before_def)
qed

lemma Merging_SeekToLast_ok:
  assumes "mrep es p m"
  shows "\<exists>m'. Merging_SeekToLast I m = Ret m' \<and> mrep es (length es - 1) m'"
proof -
  note M = mrepD [OF assms]
  obtain ess pos where k: "kids ess pos (mi_children m)" "merged_from ess es" using M(4) by blast
  have "\<exists>ws. each_child (Wrapper_SeekToLast I) (mi_children m) = Ret ws \<and> kids ess (\<lambda>i. length (ess ! i) - 1) ws"
    by (rule all_children [OF k(1)]) (rule Wrapper_SeekToLast_ok)
  then obtain ws where ws: "each_child (Wrapper_SeekToLast I) (mi_children m) = Ret ws" "kids ess (\<lambda>i. length (ess ! i) - 1) ws" by blast
  have b: "step_back xs (before (\<lambda>_. True) xs) = length xs - 1" for xs by (simp add: step_back_def before_def)
  have "\<exists>c. FindLargest (m\<lparr>mi_children := ws\<rparr>) = Ret (m\<lparr>mi_children := ws\<rparr>\<lparr>mi_current := c\<rparr>) \<and>
      mrep es (step_back es (before (\<lambda>_. True) es)) (m\<lparr>mi_children := ws\<rparr>\<lparr>mi_current := c, mi_direction := kReverse\<rparr>)"
    by (rule FindLargest_ok [OF M(1) _ _ k(2)]) (use M(2) ws(2) b in \<open>simp_all add: lower_def\<close>)
  then show ?thesis using ws(1) unfolding b by (auto simp: Merging_SeekToLast_def)
qed

lemma Merging_Seek_ok:
  assumes "mrep es p m" "k \<in> keys"
  shows "\<exists>m'. Merging_Seek I k m = Ret m' \<and> mrep es (before (\<lambda>x. lt x k) es) m'"
proof -
  note M = mrepD [OF assms(1)]
  obtain ess pos where k: "kids ess pos (mi_children m)" "merged_from ess es" using M(4) by blast
  have "\<exists>ws. each_child (Wrapper_Seek I k) (mi_children m) = Ret ws \<and> kids ess (\<lambda>i. before (\<lambda>x. lt x k) (ess ! i)) ws"
    by (rule all_children [OF k(1)]) (rule Wrapper_Seek_ok [OF _ assms(2)])
  then obtain ws where ws: "each_child (Wrapper_Seek I k) (mi_children m) = Ret ws" "kids ess (\<lambda>i. before (\<lambda>x. lt x k) (ess ! i)) ws" by blast
  have "\<exists>c. FindSmallest (m\<lparr>mi_children := ws\<rparr>) = Ret (m\<lparr>mi_children := ws\<rparr>\<lparr>mi_current := c\<rparr>) \<and>
      mrep es (before (\<lambda>x. lt x k) es) (m\<lparr>mi_children := ws\<rparr>\<lparr>mi_current := c, mi_direction := kForward\<rparr>)"
    by (rule FindSmallest_ok [OF M(1) _ _ k(2) lower_lt [OF assms(2)]]) (use M(2) ws(2) in simp_all)
  then show ?thesis using ws(1) by (auto simp: Merging_Seek_def)
qed

text \<open>Where the children are when the iterator stands on an entry, after a change of direction.\<close>

lemma mrep_current:
  assumes "mrep es p m" "p < length es"
  obtains ess pos c where "kids ess pos (mi_children m)" "merged_from ess es" "c < length ess" "mi_current m = Some c" "pos c < length (ess ! c)"
    "ess ! c ! pos c = es ! p" "\<And>i. i < length ess \<Longrightarrow> i \<noteq> c \<Longrightarrow> pos i = others_at (mi_direction m) (ess ! i) (fst (es ! p))"
    "Merging_key m = Ret (fst (es ! p))"
proof -
  obtain ess pos where e: "kids ess pos (mi_children m)" "merged_from ess es"
    "\<exists>c < length ess. mi_current m = Some c \<and> pos c < length (ess ! c) \<and> ess ! c ! pos c = es ! p \<and>
       (\<forall>i < length ess. i \<noteq> c \<longrightarrow> pos i = others_at (mi_direction m) (ess ! i) (fst (es ! p)))"
    using assms unfolding mrep_def by auto
  then obtain c where c: "c < length ess" "mi_current m = Some c" "pos c < length (ess ! c)" "ess ! c ! pos c = es ! p"
    "\<And>i. i < length ess \<Longrightarrow> i \<noteq> c \<Longrightarrow> pos i = others_at (mi_direction m) (ess ! i) (fst (es ! p))" by blast
  have "Merging_key m = Ret (fst (es ! p))"
    using c(1-4) kids_facts(4) [OF e(1) c(1) c(3)] kids_length [OF e(1)] by (simp add: Merging_key_def)
  from that [OF e(1,2) c this] show ?thesis .
qed

lemma same_direction: "mi_direction m = d \<Longrightarrow> m\<lparr>mi_current := c, mi_direction := d\<rparr> = m\<lparr>mi_current := c\<rparr>"
  by (cases m) simp

lemma not_in_others:
  assumes "rising lt keys es" "merged_from ess es" "c < length ess" "k < length (ess ! c)" "i < length ess" "i \<noteq> c"
  shows "fst (ess ! c ! k) \<notin> fst ` set (ess ! i)"
proof
  assume "fst (ess ! c ! k) \<in> fst ` set (ess ! i)"
  then obtain y where y: "y \<in> set (ess ! i)" "fst (ess ! c ! k) = fst y" by blast
  have "ess ! c ! k \<in> set (ess ! c)" using assms(4) by simp
  from merged_disjoint [OF assms(1,2,3,5) assms(6) [symmetric] this y(1)] y(2) show False by simp
qed

lemma Merging_Next_ok:
  assumes "mrep es p m" "p < length es"
  shows "\<exists>m'. Merging_Next I m = Ret m' \<and> mrep es (Suc p) m'"
proof -
  note M = mrepD [OF assms(1)]
  from mrep_current [OF assms] obtain ess pos c where e: "kids ess pos (mi_children m)" "merged_from ess es" "c < length ess" "mi_current m = Some c"
    "pos c < length (ess ! c)" "ess ! c ! pos c = es ! p" "\<And>i. i < length ess \<Longrightarrow> i \<noteq> c \<Longrightarrow> pos i = others_at (mi_direction m) (ess ! i) (fst (es ! p))"
    "Merging_key m = Ret (fst (es ! p))" by blast
  let ?k = "fst (es ! p)" and ?P = "\<lambda>x. lt x (fst (es ! p)) \<or> x = fst (es ! p)"
  have k: "?k \<in> keys" by (rule rising_key [OF M(1) assms(2)])
  have out: "?k \<notin> fst ` set (ess ! i)" if "i < length ess" "i \<noteq> c" for i
    using not_in_others [OF M(1) e(2,3,5) that] e(6) by simp
  define pos1 where "pos1 i = (if i = c then pos c else before (\<lambda>x. lt x ?k) (ess ! i))" for i
  have "\<exists>ws. (if mi_direction m \<noteq> kForward then
        bindO (Merging_key m) (\<lambda>key. bindO (other_children (move_after I (mi_comparator m) key) c 0 (mi_children m)) (\<lambda>ws. Ret (m\<lparr>mi_children := ws, mi_direction := kForward\<rparr>)))
      else Ret m) = Ret (m\<lparr>mi_children := ws, mi_direction := kForward\<rparr>) \<and> kids ess pos1 ws"
  proof (cases "mi_direction m = kForward")
    case True
    then have "pos i = pos1 i" if "i < length ess" for i using e(7) [OF that] by (simp add: pos1_def others_at_def)
    then have "kids ess pos1 (mi_children m)" using e(1) by (simp add: kids_def)
    then show ?thesis using True by (intro exI [of _ "mi_children m"]) simp
  next
    case False
    have "\<exists>ws. other_children (move_after I C ?k) c 0 (mi_children m) = Ret ws \<and> kids ess pos1 ws"
    proof (rule all_others [OF e(1)])
      show "\<exists>w'. move_after I C ?k w = Ret w' \<and> wrep (ess ! i) (pos1 i) w'" if "i < length ess" "i \<noteq> c" "wrep (ess ! i) (pos i) w" for i w
        using move_after_ok [OF that(3) k out [OF that(1,2)]] that(2) by (simp add: pos1_def)
    qed (simp add: pos1_def)
    then show ?thesis using False M(2) e(8) by auto
  qed
  then obtain ws where ws: "(if mi_direction m \<noteq> kForward then
        bindO (Merging_key m) (\<lambda>key. bindO (other_children (move_after I (mi_comparator m) key) c 0 (mi_children m)) (\<lambda>ws. Ret (m\<lparr>mi_children := ws, mi_direction := kForward\<rparr>)))
      else Ret m) = Ret (m\<lparr>mi_children := ws, mi_direction := kForward\<rparr>)" "kids ess pos1 ws" by blast
  have "wrep (ess ! c) (pos c) (ws ! c)" using kids_facts(1) [OF ws(2) e(3)] by (simp add: pos1_def)
  from Wrapper_Next_ok [OF this e(5)] obtain w where w: "Wrapper_Next I (ws ! c) = Ret w" "wrep (ess ! c) (Suc (pos c)) w" by blast
  define m1 where "m1 = m\<lparr>mi_direction := kForward, mi_children := ws[c := w]\<rparr>"
  have m1d: "mi_direction m1 = kForward" by (simp add: m1_def)
  have kd: "kids ess (\<lambda>i. before ?P (ess ! i)) (ws[c := w])"
    unfolding kids_def
  proof (intro conjI allI impI)
    show "length (ws[c := w]) = length ess" using kids_length [OF ws(2)] by simp
    fix i assume i: "i < length ess"
    show "wrep (ess ! i) (before ?P (ess ! i)) (ws[c := w] ! i)"
    proof (cases "i = c")
      case True
      have "before ?P (ess ! c) = Suc (pos c)" using before_self(2) [OF kids_facts(3) [OF e(1,3)] e(5)] e(6) by simp
      then show ?thesis using True w(2) kids_length [OF ws(2)] e(3) by simp
    next
      case False
      have "before ?P (ess ! i) = before (\<lambda>x. lt x ?k) (ess ! i)" by (rule before_cong) (metis out [OF i False] imageI)
      then show ?thesis using False kids_facts(1) [OF ws(2) i] by (simp add: pos1_def)
    qed
  qed
  have "before ?P es = Suc p" by (rule before_self(2) [OF M(1) assms(2)])
  moreover have "\<exists>c'. FindSmallest m1 = Ret (m1\<lparr>mi_current := c'\<rparr>) \<and> mrep es (before ?P es) (m1\<lparr>mi_current := c', mi_direction := kForward\<rparr>)"
    by (rule FindSmallest_ok [OF M(1) _ _ e(2) lower_le [OF k]]) (use M(2) kd in \<open>simp_all add: m1_def\<close>)
  ultimately obtain c' where "FindSmallest m1 = Ret (m1\<lparr>mi_current := c'\<rparr>)" "mrep es (Suc p) (m1\<lparr>mi_current := c'\<rparr>)"
    using same_direction [of m1 kForward] m1d by auto
  moreover have "Merging_Next I m = FindSmallest m1" using e(4) ws(1) w(1) by (simp add: Merging_Next_def m1_def del: bindO_eq_Ret)
  ultimately show ?thesis by simp
qed

lemma Merging_Prev_ok:
  assumes "mrep es p m" "p < length es"
  shows "\<exists>m'. Merging_Prev I m = Ret m' \<and> mrep es (step_back es p) m'"
proof -
  note M = mrepD [OF assms(1)]
  from mrep_current [OF assms] obtain ess pos c where e: "kids ess pos (mi_children m)" "merged_from ess es" "c < length ess" "mi_current m = Some c"
    "pos c < length (ess ! c)" "ess ! c ! pos c = es ! p" "\<And>i. i < length ess \<Longrightarrow> i \<noteq> c \<Longrightarrow> pos i = others_at (mi_direction m) (ess ! i) (fst (es ! p))"
    "Merging_key m = Ret (fst (es ! p))" by blast
  let ?k = "fst (es ! p)"
  let ?P = "\<lambda>x. lt x (fst (es ! p))"
  have k: "?k \<in> keys" by (rule rising_key [OF M(1) assms(2)])
  define pos1 where "pos1 i = (if i = c then pos c else step_back (ess ! i) (before ?P (ess ! i)))" for i
  have "\<exists>ws. (if mi_direction m \<noteq> kReverse then
        bindO (Merging_key m) (\<lambda>key. bindO (other_children (move_before I key) c 0 (mi_children m)) (\<lambda>ws. Ret (m\<lparr>mi_children := ws, mi_direction := kReverse\<rparr>)))
      else Ret m) = Ret (m\<lparr>mi_children := ws, mi_direction := kReverse\<rparr>) \<and> kids ess pos1 ws"
  proof (cases "mi_direction m = kReverse")
    case True
    then have "pos i = pos1 i" if "i < length ess" for i using e(7) [OF that] by (simp add: pos1_def others_at_def)
    then have "kids ess pos1 (mi_children m)" using e(1) by (simp add: kids_def)
    then show ?thesis using True by (intro exI [of _ "mi_children m"]) simp
  next
    case False
    have "\<exists>ws. other_children (move_before I ?k) c 0 (mi_children m) = Ret ws \<and> kids ess pos1 ws"
    proof (rule all_others [OF e(1)])
      show "\<exists>w'. move_before I ?k w = Ret w' \<and> wrep (ess ! i) (pos1 i) w'" if "i < length ess" "i \<noteq> c" "wrep (ess ! i) (pos i) w" for i w
        using move_before_ok [OF that(3) k] that(2) by (simp add: pos1_def)
    qed (simp add: pos1_def)
    then show ?thesis using False e(8) by auto
  qed
  then obtain ws where ws: "(if mi_direction m \<noteq> kReverse then
        bindO (Merging_key m) (\<lambda>key. bindO (other_children (move_before I key) c 0 (mi_children m)) (\<lambda>ws. Ret (m\<lparr>mi_children := ws, mi_direction := kReverse\<rparr>)))
      else Ret m) = Ret (m\<lparr>mi_children := ws, mi_direction := kReverse\<rparr>)" "kids ess pos1 ws" by blast
  have "wrep (ess ! c) (pos c) (ws ! c)" using kids_facts(1) [OF ws(2) e(3)] by (simp add: pos1_def)
  from Wrapper_Prev_ok [OF this e(5)] obtain w where w: "Wrapper_Prev I (ws ! c) = Ret w" "wrep (ess ! c) (step_back (ess ! c) (pos c)) w" by blast
  define m1 where "m1 = m\<lparr>mi_direction := kReverse, mi_children := ws[c := w]\<rparr>"
  have m1d: "mi_direction m1 = kReverse" by (simp add: m1_def)
  have kd: "kids ess (\<lambda>i. step_back (ess ! i) (before ?P (ess ! i))) (ws[c := w])"
    unfolding kids_def
  proof (intro conjI allI impI)
    show "length (ws[c := w]) = length ess" using kids_length [OF ws(2)] by simp
    fix i assume i: "i < length ess"
    show "wrep (ess ! i) (step_back (ess ! i) (before ?P (ess ! i))) (ws[c := w] ! i)"
    proof (cases "i = c")
      case True
      have "before ?P (ess ! c) = pos c" using before_self(1) [OF kids_facts(3) [OF e(1,3)] e(5)] e(6) by simp
      then show ?thesis using True w(2) kids_length [OF ws(2)] e(3) by simp
    next
      case False
      then show ?thesis using kids_facts(1) [OF ws(2) i] by (simp add: pos1_def)
    qed
  qed
  have "before ?P es = p" by (rule before_self(1) [OF M(1) assms(2)])
  moreover have "\<exists>c'. FindLargest m1 = Ret (m1\<lparr>mi_current := c'\<rparr>) \<and> mrep es (step_back es (before ?P es)) (m1\<lparr>mi_current := c', mi_direction := kReverse\<rparr>)"
    by (rule FindLargest_ok [OF M(1) _ _ e(2) lower_lt [OF k]]) (use M(2) kd in \<open>simp_all add: m1_def\<close>)
  ultimately obtain c' where "FindLargest m1 = Ret (m1\<lparr>mi_current := c'\<rparr>)" "mrep es (step_back es p) (m1\<lparr>mi_current := c'\<rparr>)"
    using same_direction [of m1 kReverse] m1d by auto
  moreover have "Merging_Prev I m = FindLargest m1" using e(4) ws(1) w(1) by (simp add: Merging_Prev_def m1_def del: bindO_eq_Ret)
  ultimately show ?thesis by simp
qed

lemma first_error_ok:
  assumes "kids ess pos ws"
  shows "first_error I ws = OK"
proof -
  have "iw_iter w = Some x \<Longrightarrow> it_status I x = OK" if w: "w \<in> set ws" for w x
  proof -
    obtain i where i: "i < length ess" "w = ws ! i" using w kids_length [OF assms] by (metis in_set_conv_nth)
    from kids_facts(1) [OF assms i(1)] obtain s where "iw_iter w = Some s" "rep (ess ! i) (pos i) s" unfolding i(2) wrep_def by blast
    then show "iw_iter w = Some x \<Longrightarrow> it_status I x = OK" using rep_status by simp
  qed
  then show ?thesis
  proof (induction ws)
    case (Cons w ws)
    have "first_error I ws = OK" by (rule Cons.IH) (rule Cons.prems, simp_all)
    moreover have "(case iw_iter w of None \<Rightarrow> OK | Some x \<Rightarrow> it_status I x) = OK" using Cons.prems [of w] by (cases "iw_iter w") simp_all
    ultimately show ?case by simp
  qed simp
qed

lemma mrep_valid: "mrep es p m \<Longrightarrow> Merging_Valid m = (p < length es)"
  by (auto simp: mrep_def Merging_Valid_def split: if_splits)

lemma Merging_value_ok:
  assumes "mrep es p m" "p < length es"
  shows "Merging_value I m = Ret (snd (es ! p))"
proof -
  obtain ess pos c where e: "kids ess pos (mi_children m)" "c < length ess" "mi_current m = Some c"
    "pos c < length (ess ! c)" "ess ! c ! pos c = es ! p" using assms unfolding mrep_def by auto
  from kids_facts(1) [OF e(1,2)] obtain s where "iw_iter (mi_children m ! c) = Some s" "rep (ess ! c) (pos c) s" by (auto simp: wrep_def)
  then show ?thesis using rep_value [of "ess ! c" "pos c" s] e kids_length [OF e(1)] by (simp add: Merging_value_def Wrapper_value_def)
qed

lemma merging_cursor: "cursor C keys lt (MergingIterator_ops I) mrep"
proof (unfold_locales, goal_cases)
  case (1 es p m)
  then show ?case by (rule mrepD(1))
next
  case (2 es p m)
  then show ?case using mrepD(3) mrep_valid by (simp add: MergingIterator_ops_def)
next
  case (3 es p m)
  from mrep_current [OF this] show ?case by (simp add: MergingIterator_ops_def)
next
  case (4 es p m)
  then show ?case using Merging_value_ok by (simp add: MergingIterator_ops_def)
next
  case (5 es p m)
  then show ?case using mrepD(4) [OF 5] first_error_ok by (auto simp: MergingIterator_ops_def Merging_status_def)
next
  case (6 es p m)
  then show ?case using Merging_SeekToFirst_ok by (simp add: MergingIterator_ops_def)
next
  case (7 es p m)
  then show ?case using Merging_SeekToLast_ok by (simp add: MergingIterator_ops_def)
next
  case (8 es p m k)
  then show ?case using Merging_Seek_ok by (simp add: MergingIterator_ops_def)
next
  case (9 es p m)
  then show ?case using Merging_Next_ok by (simp add: MergingIterator_ops_def)
next
  case (10 es p m)
  then show ?case using Merging_Prev_ok [OF 10] by (simp add: MergingIterator_ops_def step_back_def)
qed

text \<open>A new merging iterator over cursors in any position.\<close>

lemma merging_new:
  assumes "length ss = length ess" "\<And>i. i < length ess \<Longrightarrow> \<exists>p. rep (ess ! i) p (ss ! i)" "rising lt keys es" "merged_from ess es"
  shows "\<exists>m. MergingIterator_new I C ss = Ret m \<and> mrep es (length es) m"
proof -
  have "\<exists>ws. set_children I ss = Ret ws \<and> length ws = length ess \<and> (\<forall>i < length ess. \<exists>p. wrep (ess ! i) p (ws ! i))"
    using assms(1,2)
  proof (induction ss arbitrary: ess)
    case (Cons s ss)
    obtain xs xss where ess: "ess = xs # xss" using Cons.prems(1) by (cases ess) auto
    obtain p where "rep xs p s" using Cons.prems(2) [of 0] ess by auto
    then have "\<exists>w. Wrapper_Set I (Some s) Wrapper_new = Ret w \<and> wrep xs p w"
      using Update_ok [of xs p s "Wrapper_new\<lparr>iw_iter := Some s\<rparr>"] by (simp add: Wrapper_Set_def Let_def)
    then obtain w where w: "Wrapper_Set I (Some s) Wrapper_new = Ret w" "wrep xs p w" by blast
    have "\<exists>ws. set_children I ss = Ret ws \<and> length ws = length xss \<and> (\<forall>i < length xss. \<exists>p. wrep (xss ! i) p (ws ! i))"
      by (rule Cons.IH) (use Cons.prems(1) Cons.prems(2) [of "Suc _"] ess in auto)
    then obtain ws where "set_children I ss = Ret ws" "length ws = length xss" "\<forall>i < length xss. \<exists>p. wrep (xss ! i) p (ws ! i)" by blast
    then show ?case using w ess by (intro exI [of _ "w # ws"]) (auto simp: nth_Cons split: nat.split)
  qed simp
  then obtain ws where ws: "set_children I ss = Ret ws" "length ws = length ess" "\<forall>i < length ess. \<exists>p. wrep (ess ! i) p (ws ! i)" by blast
  then obtain pos where "\<forall>i < length ess. wrep (ess ! i) (pos i) (ws ! i)" by metis
  then have "kids ess pos ws" using ws(2) by (simp add: kids_def)
  then show ?thesis using ws(1) assms(3,4) by (auto simp: MergingIterator_new_def mrep_def)
qed

end

end
