(* ===== verification/Block_Cursor.thy ===== *)
theory Block_Cursor
  imports Merger_Correct Block_Correct
begin

text \<open>
  The iterator of a block is a cursor over the entries of the block, and so is the merging iterator over the
  iterators of several blocks; clients that move a cursor in any way see the list it stands for.
\<close>

section \<open>The iterator of a block\<close>

definition BlockIter_ops :: "BlockIter Iterator" where
  "BlockIter_ops =
     \<lparr>it_Valid = BlockIter_Valid, it_SeekToFirst = BlockIter_SeekToFirst, it_SeekToLast = BlockIter_SeekToLast, it_Seek = BlockIter_Seek,
      it_Next = BlockIter_Next, it_Prev = BlockIter_Prev, it_key = (\<lambda>it. Ret (BlockIter_key it)), it_value = (\<lambda>it. Ret (BlockIter_value it)),
      it_status = bi_status\<rparr>"

lemma Next_comparator: "BlockIter_Next it = Ret it' \<Longrightarrow> bi_comparator it' = bi_comparator it"
  using ParseNextKey_comparator by (fastforce simp: BlockIter_Next_def)

lemma SeekToRestartPoint_comparator: "SeekToRestartPoint i it = Ret it' \<Longrightarrow> bi_comparator it' = bi_comparator it"
  by (auto simp: SeekToRestartPoint_def)

lemma parse_until_comparator: "parse_until fuel bound it = Ret it' \<Longrightarrow> bi_comparator it' = bi_comparator it"
proof (induction fuel arbitrary: it)
  case (Suc fuel)
  from Suc.prems obtain f it1 where p: "ParseNextKey it = Ret (f, it1)" by auto
  show ?case
  proof (cases f)
    case True
    with Suc.prems p have "parse_until fuel bound it1 = Ret it' \<or> it1 = it'" by (auto split: if_splits)
    then show ?thesis using Suc.IH [of it1] ParseNextKey_comparator [OF p] by auto
  qed (use Suc.prems p ParseNextKey_comparator [OF p] in simp)
qed simp

lemma seek_scan_comparator: "seek_scan fuel target it = Ret it' \<Longrightarrow> bi_comparator it' = bi_comparator it"
proof (induction fuel arbitrary: it)
  case (Suc fuel)
  from Suc.prems obtain f it1 where p: "ParseNextKey it = Ret (f, it1)" by auto
  show ?case
  proof (cases f)
    case True
    with Suc.prems p have "seek_scan fuel target it1 = Ret it' \<or> it1 = it'" by (auto split: if_splits)
    then show ?thesis using Suc.IH [of it1] ParseNextKey_comparator [OF p] by auto
  qed (use Suc.prems p ParseNextKey_comparator [OF p] in simp)
qed simp

lemma Prev_comparator: "BlockIter_Prev it = Ret it' \<Longrightarrow> bi_comparator it' = bi_comparator it"
  by (auto simp: BlockIter_Prev_def dest!: parse_until_comparator SeekToRestartPoint_comparator split: option.splits)

lemma SeekToFirst_comparator: "BlockIter_SeekToFirst it = Ret it' \<Longrightarrow> bi_comparator it' = bi_comparator it"
  by (auto simp: BlockIter_SeekToFirst_def dest!: Next_comparator SeekToRestartPoint_comparator)

lemma SeekToLast_comparator: "BlockIter_SeekToLast it = Ret it' \<Longrightarrow> bi_comparator it' = bi_comparator it"
  by (auto simp: BlockIter_SeekToLast_def dest!: parse_until_comparator SeekToRestartPoint_comparator)

lemma Seek_comparator: "BlockIter_Seek target it = Ret it' \<Longrightarrow> bi_comparator it' = bi_comparator it"
  by (auto simp: BlockIter_Seek_def CorruptionError_def dest!: seek_scan_comparator SeekToRestartPoint_comparator split: option.splits)

definition placed :: "item list \<Rightarrow> nat list \<Rightarrow> nat \<Rightarrow> BlockIter \<Rightarrow> bool" where
  "placed xs rs p it \<longleftrightarrow> (if p < length xs then on_entry xs rs p it else p = length xs \<and> ended xs rs it)"

lemma placed_blk: "placed xs rs p it \<Longrightarrow> blk xs rs it"
  by (auto simp: placed_def on_entry_def ended_def split: if_splits)

definition block_rep :: "Comparator \<Rightarrow> byte list set \<Rightarrow> (byte list \<Rightarrow> byte list \<Rightarrow> bool) \<Rightarrow> entry list \<Rightarrow> nat \<Rightarrow> BlockIter \<Rightarrow> bool" where
  "block_rep C keys lt es p it \<longleftrightarrow> rising lt keys es \<and> bi_comparator it = C \<and> (\<exists>xs rs. map snd xs = es \<and> placed xs rs p it)"

lemma block_repE:
  assumes "block_rep C keys lt es p it"
  obtains xs rs where "rising lt keys es" "bi_comparator it = C" "map snd xs = es" "placed xs rs p it" "blk xs rs it" "length xs = length es"
proof -
  obtain xs rs where x: "rising lt keys es" "bi_comparator it = C" "map snd xs = es" "placed xs rs p it" using assms by (auto simp: block_rep_def)
  moreover have "length xs = length es" using x(3) by auto
  ultimately show ?thesis using that placed_blk by blast
qed

lemma block_repI: "rising lt keys es \<Longrightarrow> bi_comparator it = C \<Longrightarrow> map snd xs = es \<Longrightarrow> placed xs rs p it \<Longrightarrow> block_rep C keys lt es p it"
  by (auto simp: block_rep_def)

context comparator
begin

lemma block_at:
  assumes "block_rep C keys lt es p it" "p < length es"
  shows "BlockIter_key it = fst (es ! p)" "BlockIter_value it = snd (es ! p)"
proof -
  obtain xs rs where x: "map snd xs = es" "placed xs rs p it" "length xs = length es" using assms(1) by (rule block_repE)
  then have "on_entry xs rs p it" "es ! p = snd (xs ! p)" using assms(2) by (auto simp: placed_def)
  from on_entry_pair [OF this(1)] this(2) show "BlockIter_key it = fst (es ! p)" "BlockIter_value it = snd (es ! p)" by (metis fst_conv, metis snd_conv)
qed

lemma block_valid: "block_rep C keys lt es p it \<Longrightarrow> p \<le> length es \<and> BlockIter_Valid it = (p < length es)"
  by (erule block_repE) (auto simp: placed_def ended_invalid on_valid split: if_splits)

lemma block_first: "block_rep C keys lt es p it \<Longrightarrow> \<exists>it'. BlockIter_SeekToFirst it = Ret it' \<and> block_rep C keys lt es 0 it'"
proof (erule block_repE)
  fix xs rs assume x: "rising lt keys es" "bi_comparator it = C" "map snd xs = es" "blk xs rs it"
  from SeekToFirst_ok [OF x(4)] obtain it' where it': "BlockIter_SeekToFirst it = Ret it'" "placed xs rs 0 it'" by (cases "xs = []") (auto simp: placed_def)
  with SeekToFirst_comparator [OF it'(1)] show ?thesis using block_repI [OF x(1) _ x(3) it'(2)] x(2) by simp
qed

lemma block_last: "block_rep C keys lt es p it \<Longrightarrow> \<exists>it'. BlockIter_SeekToLast it = Ret it' \<and> block_rep C keys lt es (length es - 1) it'"
proof (erule block_repE)
  fix xs rs assume x: "rising lt keys es" "bi_comparator it = C" "map snd xs = es" "blk xs rs it" "length xs = length es"
  from SeekToLast_ok [OF x(4)] obtain it' where it': "BlockIter_SeekToLast it = Ret it'" "placed xs rs (length xs - 1) it'" by (cases "xs = []") (auto simp: placed_def)
  with SeekToLast_comparator [OF it'(1)] show ?thesis using block_repI [OF x(1) _ x(3) it'(2)] x(2,5) by simp
qed

lemma block_next: "block_rep C keys lt es p it \<Longrightarrow> p < length es \<Longrightarrow> \<exists>it'. BlockIter_Next it = Ret it' \<and> block_rep C keys lt es (Suc p) it'"
proof (erule block_repE)
  fix xs rs assume x: "rising lt keys es" "bi_comparator it = C" "map snd xs = es" "placed xs rs p it" "length xs = length es" and p: "p < length es"
  then have "on_entry xs rs p it" by (simp add: placed_def)
  from Next_ok [OF this] p x(5) obtain it' where it': "BlockIter_Next it = Ret it'" "placed xs rs (Suc p) it'" by (auto simp: placed_def split: if_splits)
  with Next_comparator [OF it'(1)] show ?thesis using block_repI [OF x(1) _ x(3) it'(2)] x(2) by simp
qed

lemma block_prev:
  "block_rep C keys lt es p it \<Longrightarrow> p < length es \<Longrightarrow> \<exists>it'. BlockIter_Prev it = Ret it' \<and> block_rep C keys lt es (if p = 0 then length es else p - 1) it'"
proof (erule block_repE)
  fix xs rs assume x: "rising lt keys es" "bi_comparator it = C" "map snd xs = es" "placed xs rs p it" "length xs = length es" and p: "p < length es"
  then have "on_entry xs rs p it" by (simp add: placed_def)
  from Prev_ok [OF this] p x(5) obtain it' where it': "BlockIter_Prev it = Ret it'" "placed xs rs (if p = 0 then length es else p - 1) it'"
    by (cases "p = 0") (auto simp: placed_def less_imp_diff_less)
  with Prev_comparator [OF it'(1)] show ?thesis using block_repI [OF x(1) _ x(3) it'(2)] x(2) by simp
qed

lemma block_seek:
  "block_rep C keys lt es p it \<Longrightarrow> k \<in> keys \<Longrightarrow> \<exists>it'. BlockIter_Seek k it = Ret it' \<and> block_rep C keys lt es (before (\<lambda>x. lt x k) es) it'"
proof (erule block_repE)
  fix xs rs assume x: "rising lt keys es" "bi_comparator it = C" "map snd xs = es" "blk xs rs it" "length xs = length es" and k: "k \<in> keys"
  have "\<forall>y\<in>set xs. item_key y \<in> keys" using x(1) unfolding x(3) [symmetric] rising_def by auto
  moreover have "sorted_wrt (\<lambda>y z. lt (item_key y) (item_key z)) xs" using x(1) unfolding x(3) [symmetric] by (simp add: rising_def sorted_wrt_map)
  ultimately obtain it' j where it': "BlockIter_Seek k it = Ret it'" "\<forall>m<j. lt (item_key (xs ! m)) k"
    "if j < length xs then \<not> lt (item_key (xs ! j)) k \<and> on_entry xs rs j it' else j = length xs \<and> ended xs rs it'"
    using Seek_ok [OF x(4,2) _ k] by blast
  have at: "fst (es ! m) = item_key (xs ! m)" if "m < length es" for m using that x(3,5) by (metis nth_map)
  have "placed xs rs j it'" using it'(3) by (simp add: placed_def split: if_splits)
  moreover have "before (\<lambda>x. lt x k) es = j"
  proof (rule before_filter [OF x(1) lower_lt [OF k]])
    show "j \<le> length es" using it'(3) x(5) by (simp split: if_splits)
    fix i assume i: "i < length es"
    show "lt (fst (es ! i)) k \<longleftrightarrow> i < j"
    proof
      assume l: "lt (fst (es ! i)) k"
      show "i < j"
      proof (rule ccontr)
        assume n: "\<not> i < j"
        then have j: "j < length es" "\<not> lt (fst (es ! j)) k" using i it'(3) x(5) at by (auto split: if_splits)
        then have "lt (fst (es ! j)) (fst (es ! i)) \<or> i = j" using rising_lt [OF x(1) _ i, of j] n by linarith
        then show False using j l lt_trans [OF rising_key [OF x(1) j(1)] rising_key [OF x(1) i] k] by blast
      qed
    qed (use it'(2) at i in simp)
  qed
  ultimately show ?thesis using it'(1) block_repI [OF x(1) _ x(3), of it' C rs j] Seek_comparator [OF it'(1)] x(2) by simp
qed

lemma block_cursor: "cursor C keys lt BlockIter_ops (block_rep C keys lt)"
proof (unfold_locales, goal_cases)
  case (1 es p s)
  then show ?case by (rule block_repE)
next
  case (2 es p s)
  then show ?case using block_valid by (simp add: BlockIter_ops_def)
next
  case (3 es p s)
  then show ?case using block_at by (simp add: BlockIter_ops_def)
next
  case (4 es p s)
  then show ?case using block_at by (simp add: BlockIter_ops_def)
next
  case (5 es p s)
  then show ?case by (rule block_repE) (simp add: BlockIter_ops_def blk_def)
next
  case (6 es p s)
  then show ?case using block_first by (simp add: BlockIter_ops_def)
next
  case (7 es p s)
  then show ?case using block_last by (simp add: BlockIter_ops_def)
next
  case (8 es p s k)
  then show ?case using block_seek by (simp add: BlockIter_ops_def)
next
  case (9 es p s)
  then show ?case using block_next by (simp add: BlockIter_ops_def)
next
  case (10 es p s)
  then show ?case using block_prev [OF 10] by (simp add: BlockIter_ops_def)
qed

text \<open>Opening a block gives an iterator on none of the entries.\<close>

lemma block_opened:
  assumes "rising lt keys es" "\<forall>(k, v)\<in>set es. length k < 2 ^ 32 \<and> length v < 2 ^ 32" "length (build_block interval es) < 2 ^ 32"
  shows "\<exists>b it. Block_new (build_block interval es) = Ret b \<and> Block_NewIterator C b = Ret (BlockIterator it) \<and> block_rep C keys lt es (length es) it"
proof -
  obtain xs rs where x: "build_block interval es = block_bytes xs rs" "layout xs rs" "map snd xs = es" using build_block_layout [OF assms(2,3)] by blast
  obtain b it where b: "Block_new (block_bytes xs rs) = Ret b" "Block_NewIterator C b = Ret (BlockIterator it)" "blk xs rs it" "bi_comparator it = C"
    using open_block [OF x(2)] by blast
  have "bi_current it = bi_restarts it" using b(2) by (auto simp: Block_NewIterator_def BlockIter_new_def split: if_splits)
  then have "placed xs rs (length es) it" using b(3) x(3) by (auto simp: placed_def ended_def)
  then show ?thesis using b x block_repI [OF assms(1) b(4) x(3)] by auto
qed

end

interpretation block_cursor: cursor "InternalKeyComparator BytewiseComparator" "ikeys UNIV" "ikey_lt bytes_lt" BlockIter_ops
  "block_rep (InternalKeyComparator BytewiseComparator) (ikeys UNIV) (ikey_lt bytes_lt)"
  by (rule ik.block_cursor)

interpretation merged_blocks: cursor "InternalKeyComparator BytewiseComparator" "ikeys UNIV" "ikey_lt bytes_lt" "MergingIterator_ops BlockIter_ops"
  block_cursor.mrep
  by (rule block_cursor.merging_cursor)

end
