(* ===== verification/Iterator_Clients.thy ===== *)
theory Iterator_Clients
  imports Block_Cursor
begin

text \<open>
  What clients of an iterator see: sequences of moves and the entries shown after each, for every cursor; the
  iterator that \<open>NewMergingIterator\<close> returns for any number of children, on the iterators of blocks.
\<close>

section \<open>The result of \<open>NewMergingIterator\<close>\<close>

text \<open>
  The empty iterator (\<open>table/iterator.cc\<close>) is never valid; \<open>Next\<close>, \<open>Prev\<close>, \<open>key\<close> and \<open>value\<close> on it fail an assertion.
\<close>

definition merged_Valid :: "'s Iterator \<Rightarrow> 's merged \<Rightarrow> bool" where
  "merged_Valid I x = (case x of Empty_iterator \<Rightarrow> False | Only_child s \<Rightarrow> it_Valid I s | Merging m \<Rightarrow> Merging_Valid m)"

definition merged_seek :: "('s \<Rightarrow> 's outcome) \<Rightarrow> ('s MergingIterator \<Rightarrow> 's MergingIterator outcome) \<Rightarrow> 's merged \<Rightarrow> 's merged outcome" where
  "merged_seek f g x =
     (case x of
        Empty_iterator \<Rightarrow> Ret Empty_iterator
      | Only_child s \<Rightarrow> bindO (f s) (\<lambda>s. Ret (Only_child s))
      | Merging m \<Rightarrow> bindO (g m) (\<lambda>m. Ret (Merging m)))"

definition merged_step :: "('s \<Rightarrow> 's outcome) \<Rightarrow> ('s MergingIterator \<Rightarrow> 's MergingIterator outcome) \<Rightarrow> 's merged \<Rightarrow> 's merged outcome" where
  "merged_step f g x = (if x = Empty_iterator then UB else merged_seek f g x)"

definition merged_read :: "('s \<Rightarrow> byte list outcome) \<Rightarrow> ('s MergingIterator \<Rightarrow> byte list outcome) \<Rightarrow> 's merged \<Rightarrow> byte list outcome" where
  "merged_read f g x = (case x of Empty_iterator \<Rightarrow> UB | Only_child s \<Rightarrow> f s | Merging m \<Rightarrow> g m)"

definition merged_status :: "'s Iterator \<Rightarrow> 's merged \<Rightarrow> Status" where
  "merged_status I x = (case x of Empty_iterator \<Rightarrow> OK | Only_child s \<Rightarrow> it_status I s | Merging m \<Rightarrow> Merging_status I m)"

definition merged_ops :: "'s Iterator \<Rightarrow> 's merged Iterator" where
  "merged_ops I =
     \<lparr>it_Valid = merged_Valid I, it_SeekToFirst = merged_seek (it_SeekToFirst I) (Merging_SeekToFirst I),
      it_SeekToLast = merged_seek (it_SeekToLast I) (Merging_SeekToLast I), it_Seek = (\<lambda>k. merged_seek (it_Seek I k) (Merging_Seek I k)),
      it_Next = merged_step (it_Next I) (Merging_Next I), it_Prev = merged_step (it_Prev I) (Merging_Prev I),
      it_key = merged_read (it_key I) Merging_key, it_value = merged_read (it_value I) (Merging_value I), it_status = merged_status I\<rparr>"

context comparator
begin

text \<open>A rising list is given by its entries.\<close>

lemma rising_unique:
  assumes "rising lt keys es" "rising lt keys xs" "mset es = mset xs"
  shows "es = xs"
  using assms
proof (induction es arbitrary: xs)
  case (Cons e es)
  then obtain x ys where x: "xs = x # ys" by (cases xs) auto
  have r: "\<forall>y\<in>set es. lt (fst e) (fst y)" "\<forall>y\<in>set ys. lt (fst x) (fst y)" "rising lt keys es" "rising lt keys ys" "fst e \<in> keys" "fst x \<in> keys"
    using Cons.prems(1,2) by (simp_all add: x rising_Cons)
  have "set (e # es) = set xs" by (rule mset_eq_setD [OF Cons.prems(3)])
  then have "e = x \<or> e \<in> set ys" "e = x \<or> x \<in> set es" unfolding x by auto
  then have "e = x" using r lt_asym by blast
  with Cons.IH [OF r(3,4)] Cons.prems(3) show ?case by (simp add: x)
qed simp

end

context cursor
begin

definition merged_rep :: "entry list \<Rightarrow> nat \<Rightarrow> 's merged \<Rightarrow> bool" where
  "merged_rep es p x = (case x of Empty_iterator \<Rightarrow> es = [] \<and> p = 0 | Only_child s \<Rightarrow> rep es p s | Merging m \<Rightarrow> mrep es p m)"

lemma merged_seek_ok:
  assumes "merged_rep es p x" "es = [] \<Longrightarrow> q = 0" "\<And>s. rep es p s \<Longrightarrow> \<exists>s'. f s = Ret s' \<and> rep es q s'" "\<And>m. mrep es p m \<Longrightarrow> \<exists>m'. g m = Ret m' \<and> mrep es q m'"
  shows "\<exists>x'. merged_seek f g x = Ret x' \<and> merged_rep es q x'"
proof (cases x)
  case Empty_iterator
  then show ?thesis using assms(1,2) by (auto simp: merged_rep_def merged_seek_def)
next
  case (Only_child s)
  then obtain s' where "f s = Ret s'" "rep es q s'" using assms(1,3) by (auto simp: merged_rep_def)
  then show ?thesis using Only_child by (simp add: merged_rep_def merged_seek_def)
next
  case (Merging m)
  then obtain m' where "g m = Ret m'" "mrep es q m'" using assms(1,4) by (auto simp: merged_rep_def)
  then show ?thesis using Merging by (simp add: merged_rep_def merged_seek_def)
qed

lemma merged_step_ok:
  assumes "merged_rep es p x" "p < length es" "\<And>s. rep es p s \<Longrightarrow> \<exists>s'. f s = Ret s' \<and> rep es q s'" "\<And>m. mrep es p m \<Longrightarrow> \<exists>m'. g m = Ret m' \<and> mrep es q m'"
  shows "\<exists>x'. merged_step f g x = Ret x' \<and> merged_rep es q x'"
proof -
  have "x \<noteq> Empty_iterator" "es \<noteq> []" using assms(1,2) by (auto simp: merged_rep_def)
  then show ?thesis using merged_seek_ok [OF assms(1) _ assms(3,4)] by (simp add: merged_step_def)
qed

lemma merged_cursor: "cursor C keys lt (merged_ops I) merged_rep"
proof (unfold_locales, goal_cases)
  case (1 es p x)
  then show ?case using rep_rising mrepD(1) by (auto simp: merged_rep_def rising_def split: merged.splits)
next
  case (2 es p x)
  then show ?case using rep_valid mrepD(3) mrep_valid by (auto simp: merged_rep_def merged_ops_def merged_Valid_def split: merged.splits)
next
  case (3 es p x)
  then show ?case using rep_key cursor.rep_key [OF merging_cursor, of es p]
    by (auto simp: merged_rep_def merged_ops_def merged_read_def MergingIterator_ops_def split: merged.splits)
next
  case (4 es p x)
  then show ?case using rep_value Merging_value_ok by (auto simp: merged_rep_def merged_ops_def merged_read_def split: merged.splits)
next
  case (5 es p x)
  then show ?case using rep_status cursor.rep_status [OF merging_cursor, of es p]
    by (auto simp: merged_rep_def merged_ops_def merged_status_def MergingIterator_ops_def split: merged.splits)
next
  case (6 es p x)
  then show ?case by (simp add: merged_ops_def merged_seek_ok rep_first Merging_SeekToFirst_ok)
next
  case (7 es p x)
  have "\<exists>x'. merged_seek (it_SeekToLast I) (Merging_SeekToLast I) x = Ret x' \<and> merged_rep es (length es - 1) x'"
    by (rule merged_seek_ok [OF 7]) (simp_all only: rep_last Merging_SeekToLast_ok, simp)
  then show ?case by (simp add: merged_ops_def)
next
  case (8 es p x k)
  have "\<exists>x'. merged_seek (it_Seek I k) (Merging_Seek I k) x = Ret x' \<and> merged_rep es (before (\<lambda>x. lt x k) es) x'"
    by (rule merged_seek_ok [OF 8(1) _ rep_seek [OF _ 8(2)] Merging_Seek_ok [OF _ 8(2)]]) (simp add: before_def)
  then show ?case by (simp add: merged_ops_def)
next
  case (9 es p x)
  then show ?case by (simp add: merged_ops_def merged_step_ok rep_next Merging_Next_ok)
next
  case (10 es p x)
  have "\<exists>x'. merged_step (it_Prev I) (Merging_Prev I) x = Ret x' \<and> merged_rep es (step_back es p) x'"
    by (rule merged_step_ok [OF 10]) (use rep_prev Merging_Prev_ok 10(2) in \<open>auto simp: step_back_def\<close>)
  then show ?case by (simp add: merged_ops_def step_back_def)
qed

lemma merged_new:
  assumes "length ss = length ess" "\<And>i. i < length ess \<Longrightarrow> rep (ess ! i) (length (ess ! i)) (ss ! i)" "rising lt keys es" "merged_from ess es"
  shows "\<exists>x. NewMergingIterator I C ss = Ret x \<and> merged_rep es (length es) x"
proof -
  consider "ss = []" | s where "ss = [s]" | s t us where "ss = s # t # us" by (cases ss rule: remdups_adj.cases) auto
  then show ?thesis
  proof cases
    case 1
    then have "es = []" using assms(1,4) by (simp add: merged_from_def)
    then show ?thesis using 1 by (simp add: NewMergingIterator_def merged_rep_def)
  next
    case 2
    then obtain xs where x: "ess = [xs]" using assms(1) by (cases ess) auto
    have p: "rep xs (length xs) s" using assms(2) [of 0] x 2 by auto
    have m: "mset es = mset xs" using assms(4) x by (simp add: merged_from_def)
    have "es = xs" by (rule rising_unique [OF assms(3) rep_rising [OF p] m])
    then show ?thesis using 2 p by (auto simp: NewMergingIterator_def merged_rep_def)
  next
    case 3
    have "\<exists>p. rep (ess ! i) p (ss ! i)" if "i < length ess" for i using assms(2) [OF that] by blast
    from merging_new [OF assms(1) this assms(3,4)] 3 show ?thesis by (auto simp: NewMergingIterator_def merged_rep_def)
  qed
qed

end

section \<open>Moves\<close>

text \<open>A client moves the iterator, by \<open>Next\<close> and \<open>Prev\<close> only where it is valid, and reads it after every move.\<close>

datatype move = First | Last | SeekTo "byte list" | Forth | Back

definition move_by :: "'s Iterator \<Rightarrow> move \<Rightarrow> 's \<Rightarrow> 's outcome" where
  "move_by I m s =
     (case m of
        First \<Rightarrow> it_SeekToFirst I s
      | Last \<Rightarrow> it_SeekToLast I s
      | SeekTo k \<Rightarrow> it_Seek I k s
      | Forth \<Rightarrow> if it_Valid I s then it_Next I s else Ret s
      | Back \<Rightarrow> if it_Valid I s then it_Prev I s else Ret s)"

definition read_at :: "'s Iterator \<Rightarrow> 's \<Rightarrow> (Status \<times> entry option) outcome" where
  "read_at I s =
     (if it_Valid I s then bindO (it_key I s) (\<lambda>k. bindO (it_value I s) (\<lambda>v. Ret (it_status I s, Some (k, v)))) else Ret (it_status I s, None))"

fun drive :: "'s Iterator \<Rightarrow> move list \<Rightarrow> 's \<Rightarrow> (Status \<times> entry option) list outcome" where
  "drive I [] s = Ret []"
| "drive I (m # ms) s = bindO (move_by I m s) (\<lambda>s. bindO (read_at I s) (\<lambda>r. bindO (drive I ms s) (\<lambda>rs. Ret (r # rs))))"

text \<open>The same moves on a position in a list.\<close>

definition move_to :: "(byte list \<Rightarrow> byte list \<Rightarrow> bool) \<Rightarrow> entry list \<Rightarrow> move \<Rightarrow> nat \<Rightarrow> nat" where
  "move_to lt es m p =
     (case m of
        First \<Rightarrow> 0
      | Last \<Rightarrow> length es - 1
      | SeekTo k \<Rightarrow> length (filter (\<lambda>e. lt (fst e) k) es)
      | Forth \<Rightarrow> if p < length es then p + 1 else p
      | Back \<Rightarrow> if p < length es then (if p = 0 then length es else p - 1) else p)"

fun drive_spec :: "(byte list \<Rightarrow> byte list \<Rightarrow> bool) \<Rightarrow> entry list \<Rightarrow> move list \<Rightarrow> nat \<Rightarrow> (Status \<times> entry option) list" where
  "drive_spec lt es [] p = []"
| "drive_spec lt es (m # ms) p =
     (let p = move_to lt es m p in (OK, if p < length es then Some (es ! p) else None) # drive_spec lt es ms p)"

definition targets_in :: "byte list set \<Rightarrow> move list \<Rightarrow> bool" where
  "targets_in keys ms \<longleftrightarrow> (\<forall>m\<in>set ms. case m of SeekTo k \<Rightarrow> k \<in> keys | _ \<Rightarrow> True)"

context cursor
begin

lemma move_ok:
  assumes "rep es p s" "targets_in keys [m]"
  shows "\<exists>s'. move_by I m s = Ret s' \<and> rep es (move_to lt es m p) s'"
proof (cases m)
  case First
  then show ?thesis using rep_first [OF assms(1)] by (simp add: move_by_def move_to_def)
next
  case Last
  then show ?thesis using rep_last [OF assms(1)] by (simp add: move_by_def move_to_def)
next
  case (SeekTo k)
  then show ?thesis using rep_seek [OF assms(1), of k] assms(2) by (simp add: move_by_def move_to_def targets_in_def before_def)
next
  case Forth
  then show ?thesis using rep_next [OF assms(1)] rep_valid [OF assms(1)] assms(1) by (cases "p < length es") (simp_all add: move_by_def move_to_def)
next
  case Back
  then show ?thesis using rep_prev [OF assms(1)] rep_valid [OF assms(1)] assms(1) by (cases "p < length es") (simp_all add: move_by_def move_to_def)
qed

lemma read_ok: "rep es p s \<Longrightarrow> read_at I s = Ret (OK, if p < length es then Some (es ! p) else None)"
  using rep_valid rep_key rep_value rep_status by (simp add: read_at_def)

lemma drive_ok: "rep es p s \<Longrightarrow> targets_in keys ms \<Longrightarrow> drive I ms s = Ret (drive_spec lt es ms p)"
proof (induction ms arbitrary: p s)
  case (Cons m ms)
  have t: "targets_in keys [m]" "targets_in keys ms" using Cons.prems(2) by (simp_all add: targets_in_def)
  obtain s' where s': "move_by I m s = Ret s'" "rep es (move_to lt es m p) s'" using move_ok [OF Cons.prems(1) t(1)] by blast
  then show ?case using Cons.IH [OF s'(2) t(2)] read_ok [OF s'(2)] by (simp add: Let_def)
qed simp

end

interpretation any_merge: cursor "InternalKeyComparator BytewiseComparator" "ikeys UNIV" "ikey_lt bytes_lt" "merged_ops BlockIter_ops"
  block_cursor.merged_rep
  by (rule block_cursor.merged_cursor)

section \<open>Merging blocks\<close>

text \<open>The blocks built from lists of entries, opened, and their merging iterator.\<close>

fun open_children :: "Comparator \<Rightarrow> int \<Rightarrow> entry list list \<Rightarrow> BlockIter list outcome" where
  "open_children C interval [] = Ret []"
| "open_children C interval (es # ess) =
     bindO (Block_new (build_block interval es)) (\<lambda>b.
     bindO (Block_NewIterator C b) (\<lambda>n.
       case n of
         BlockIterator it \<Rightarrow> bindO (open_children C interval ess) (\<lambda>its. Ret (it # its))
       | _ \<Rightarrow> UB))"

definition block_entries :: "int \<Rightarrow> entry list \<Rightarrow> bool" where
  "block_entries interval es \<longleftrightarrow> sorted_wrt (\<lambda>x y. ikey_lt bytes_lt (fst x) (fst y)) es \<and>
     (\<forall>(k, v)\<in>set es. 8 \<le> length k \<and> length k < 2 ^ 32 \<and> length v < 2 ^ 32) \<and> length (build_block interval es) < 2 ^ 32"

abbreviation block_cursor_rep :: "entry list \<Rightarrow> nat \<Rightarrow> BlockIter \<Rightarrow> bool" where
  "block_cursor_rep \<equiv> block_rep (InternalKeyComparator BytewiseComparator) (ikeys UNIV) (ikey_lt bytes_lt)"

lemma block_entries_rising: "block_entries interval es \<Longrightarrow> rising (ikey_lt bytes_lt) (ikeys UNIV) es"
  by (auto simp: block_entries_def rising_def ikeys_def)

lemma open_children_ok:
  assumes "\<forall>es\<in>set ess. block_entries interval es"
  shows "\<exists>its. open_children (InternalKeyComparator BytewiseComparator) interval ess = Ret its \<and> length its = length ess \<and>
    (\<forall>i < length ess. block_cursor_rep (ess ! i) (length (ess ! i)) (its ! i))"
  using assms
proof (induction ess)
  case (Cons es ess)
  have e: "block_entries interval es" using Cons.prems by simp
  have "\<forall>(k, v)\<in>set es. length k < 2 ^ 32 \<and> length v < 2 ^ 32" "length (build_block interval es) < 2 ^ 32" using e by (auto simp: block_entries_def)
  from ik.block_opened [OF block_entries_rising [OF e] this] obtain b it where
    b: "Block_new (build_block interval es) = Ret b" "Block_NewIterator (InternalKeyComparator BytewiseComparator) b = Ret (BlockIterator it)"
    "block_cursor_rep es (length es) it" by blast
  obtain its where its: "open_children (InternalKeyComparator BytewiseComparator) interval ess = Ret its" "length its = length ess"
    "\<forall>i < length ess. block_cursor_rep (ess ! i) (length (ess ! i)) (its ! i)" using Cons by auto
  then show ?case using b by (auto simp: nth_Cons split: nat.split)
qed simp

lemma merged_blocks:
  assumes "\<forall>es\<in>set ess. block_entries interval es" "sorted_wrt (\<lambda>x y. ikey_lt bytes_lt (fst x) (fst y)) es" "mset es = mset (concat ess)"
  shows "\<exists>its x. open_children (InternalKeyComparator BytewiseComparator) interval ess = Ret its \<and>
    NewMergingIterator BlockIter_ops (InternalKeyComparator BytewiseComparator) its = Ret x \<and> block_cursor.merged_rep es (length es) x"
proof -
  obtain its where its: "open_children (InternalKeyComparator BytewiseComparator) interval ess = Ret its" "length its = length ess"
    "\<forall>i < length ess. block_cursor_rep (ess ! i) (length (ess ! i)) (its ! i)" using open_children_ok [OF assms(1)] by blast
  have "set es = set (concat ess)" by (rule mset_eq_setD [OF assms(3)])
  then have "fst ` set es \<subseteq> ikeys UNIV" using assms(1) block_entries_rising by (fastforce simp: rising_def)
  then have "rising (ikey_lt bytes_lt) (ikeys UNIV) es" using assms(2) by (simp add: rising_def)
  from block_cursor.merged_new [OF its(2) _ this] its(1,3) assms(3) show ?thesis by (auto simp: merged_from_def)
qed

text \<open>
  C19: the iterator that \<open>NewMergingIterator\<close> makes over the iterators of blocks, any number of them, shows a client
  who moves it by any sequence of \<open>SeekToFirst\<close>, \<open>SeekToLast\<close>, \<open>Seek\<close>, \<open>Next\<close> and \<open>Prev\<close> what the same moves show on
  the sorted list of all entries of the blocks; changes of direction, children that are exhausted and seeks past the
  end included. Every call returns, and the status stays OK.
\<close>

theorem merging_iterator_is_merge:
  assumes "\<forall>es\<in>set ess. block_entries interval es"
    and "sorted_wrt (\<lambda>x y. ikey_lt bytes_lt (fst x) (fst y)) es" and "mset es = mset (concat ess)"
    and "\<forall>m\<in>set ms. case m of SeekTo k \<Rightarrow> 8 \<le> length k | _ \<Rightarrow> True"
  shows "bindO (open_children (InternalKeyComparator BytewiseComparator) interval ess) (\<lambda>its.
      bindO (NewMergingIterator BlockIter_ops (InternalKeyComparator BytewiseComparator) its) (drive (merged_ops BlockIter_ops) ms)) =
    Ret (drive_spec (ikey_lt bytes_lt) es ms (length es))"
proof -
  have "targets_in (ikeys UNIV) ms" using assms(4) by (auto simp: targets_in_def ikeys_def split: move.splits)
  then show ?thesis using merged_blocks [OF assms(1-3)] any_merge.drive_ok by (auto simp del: bindO_eq_Ret)
qed

theorem merging_iterator_is_merge_witness:
  "let a = ([1, 1, 0, 0, 0, 0, 0, 0, 0], [10]); b = ([2, 1, 0, 0, 0, 0, 0, 0, 0], [20]); c = ([3, 1, 0, 0, 0, 0, 0, 0, 0], []) in
   bindO (open_children (InternalKeyComparator BytewiseComparator) 16 [[b], [a, c]]) (\<lambda>its.
      bindO (NewMergingIterator BlockIter_ops (InternalKeyComparator BytewiseComparator) its)
        (drive (merged_ops BlockIter_ops) [First, Forth, Forth, Back, Back, Back, Last, Back])) =
    Ret [(OK, Some a), (OK, Some b), (OK, Some c), (OK, Some b), (OK, Some a), (OK, None), (OK, Some c), (OK, Some b)]"
proof -
  let ?a = "([1, 1, 0, 0, 0, 0, 0, 0, 0], [10]) :: entry" and ?b = "([2, 1, 0, 0, 0, 0, 0, 0, 0], [20]) :: entry" and ?c = "([3, 1, 0, 0, 0, 0, 0, 0, 0], []) :: entry"
  let ?ms = "[First, Forth, Forth, Back, Back, Back, Last, Back]"
  have n: "length (build_block 16 [?b]) = 21" "length (build_block 16 [?a, ?c]) = 33" by code_simp+
  have l: "ikey_lt bytes_lt (fst ?a) (fst ?b)" "ikey_lt bytes_lt (fst ?b) (fst ?c)" "ikey_lt bytes_lt (fst ?a) (fst ?c)"
    by (simp_all add: ikey_lt_def ukey_def)
  have "bindO (open_children (InternalKeyComparator BytewiseComparator) 16 [[?b], [?a, ?c]]) (\<lambda>its.
      bindO (NewMergingIterator BlockIter_ops (InternalKeyComparator BytewiseComparator) its) (drive (merged_ops BlockIter_ops) ?ms)) =
    Ret (drive_spec (ikey_lt bytes_lt) [?a, ?b, ?c] ?ms (length [?a, ?b, ?c]))"
  proof (rule merging_iterator_is_merge, goal_cases)
    case 1
    then show ?case using n l by (simp add: block_entries_def)
  next
    case 2
    then show ?case using l by simp
  next
    case 3
    then show ?case by (simp add: add_mset_commute)
  next
    case 4
    then show ?case by simp
  qed
  then show ?thesis by (simp add: move_to_def Let_def del: bindO_eq_Ret)
qed

end
