(* ===== verification/Db_Iter_Correct.thy ===== *)
theory Db_Iter_Correct
  imports Db_Iter Iterator_Clients
begin

text \<open>
  The iterator of the database over a cursor on versions is a cursor over the view at its sequence number: for
  each user key the newest visible version, unless it is a deletion.
\<close>

section \<open>Sampling\<close>

text \<open>Two draws that are zero never follow each other, so that the sampling loop ends.\<close>

lemma no_two_zeros:
  assumes "good_seed s" "unat s mod 2097152 = 0"
  shows "(unat s * 16807) mod 2147483647 mod 2097152 \<noteq> 0"
proof -
  have "2097152 dvd unat s" using assms(2) by (simp add: dvd_eq_mod_eq_0)
  then obtain a where a: "unat s = 2097152 * a" by blast
  have r: "1 \<le> a" "a \<le> 1023" using assms(1) a by (auto simp: good_seed_def)
  define q where "q = a * 16807 div 1024"
  define e where "e = a * 16807 mod 1024"
  have e: "a * 16807 = 1024 * q + e" "e < 1024" "q < 16807" using r by (simp_all add: q_def e_def less_mult_imp_div_less)
  have "e \<noteq> 0"
  proof
    assume "e = 0"
    then have "1024 dvd a * 16807" by (simp add: e_def dvd_eq_mod_eq_0)
    moreover have "coprime (1024 :: nat) 16807" by (simp add: coprime_iff_gcd_eq_1 gcd_non_0_nat)
    ultimately have "1024 dvd a" by (simp add: coprime_dvd_mult_left_iff)
    then show False using r by (auto dest: dvd_imp_le)
  qed
  have "unat s * 16807 = 2147483647 * q + (q + 2097152 * e)" using e(1) a by (simp add: algebra_simps)
  then have "(unat s * 16807) mod 2147483647 = (q + 2097152 * e) mod 2147483647" by (metis mod_mult_self4)
  also have "\<dots> = q + 2097152 * e" using e(2,3) by simp
  finally have m: "(unat s * 16807) mod 2147483647 mod 2097152 = q mod 2097152" by simp
  have "q \<noteq> 0" using r by (simp add: q_def div_eq_0_iff)
  then show ?thesis using m e(3) by simp
qed

lemma period_ok:
  assumes "good_seed (di_rnd d)"
  shows "\<exists>n s. RandomCompactionPeriod d = (n, d\<lparr>di_rnd := s\<rparr>) \<and> good_seed s \<and> unat n = unat s mod 2097152 \<and> unat s = (unat (di_rnd d) * 16807) mod 2147483647"
proof -
  obtain v s where r: "Random_Next (di_rnd d) = (v, s)" by (cases "Random_Next (di_rnd d)") auto
  have vs: "v = s" using r by (auto simp: Random_Next_def Let_def)
  have "unat s = (unat (di_rnd d) * 16807) mod 2147483647" "good_seed s" using Random_Next_exact [OF assms] r vs by simp_all
  moreover have "RandomCompactionPeriod d = (ucast (s mod 2097152), d\<lparr>di_rnd := s\<rparr>)"
    using r vs by (simp add: RandomCompactionPeriod_def Random_Uniform_def kReadBytesPeriod_def)
  moreover have "unat (ucast (s mod 2097152) :: u64) = unat s mod 2097152"
    by (simp add: unat_ucast_up unat_mod_distrib)
  ultimately show ?thesis by blast
qed

definition sampled :: "'s DBIter \<Rightarrow> 's DBIter \<Rightarrow> bool" where
  "sampled d d' \<longleftrightarrow> good_seed (di_rnd d') \<and>
     (\<exists>r b ss. d' = d\<lparr>di_rnd := r, di_bytes_until_read_sampling := b, di_samples := ss\<rparr>)"

lemma sampled_refl: "good_seed (di_rnd d) \<Longrightarrow> sampled d d"
  unfolding sampled_def by (intro conjI exI [of _ "di_rnd d"] exI [of _ "di_bytes_until_read_sampling d"] exI [of _ "di_samples d"]) simp_all

lemma sampled_fields:
  assumes "sampled d d'"
  shows "di_user_comparator d' = di_user_comparator d" "di_iter d' = di_iter d" "di_sequence d' = di_sequence d" "di_status d' = di_status d"
    "di_saved_key d' = di_saved_key d" "di_saved_value d' = di_saved_value d" "di_direction d' = di_direction d" "di_valid d' = di_valid d" "good_seed (di_rnd d')"
  using assms by (auto simp: sampled_def)

lemma sampled_bytes: "sampled d d' \<Longrightarrow> sampled d (d'\<lparr>di_bytes_until_read_sampling := b\<rparr>)"
proof -
  assume "sampled d d'"
  then obtain r b' ss where g: "good_seed (di_rnd d')" and d': "d' = d\<lparr>di_rnd := r, di_bytes_until_read_sampling := b', di_samples := ss\<rparr>"
    by (auto simp: sampled_def)
  have "d'\<lparr>di_bytes_until_read_sampling := b\<rparr> = d\<lparr>di_rnd := r, di_bytes_until_read_sampling := b, di_samples := ss\<rparr>" by (cases d) (simp add: d')
  moreover have "good_seed r" using g by (simp add: d')
  ultimately show ?thesis unfolding sampled_def by (intro conjI exI [of _ r] exI [of _ b] exI [of _ ss]) simp_all
qed

lemma sampling_loop_ok:
  assumes "good_seed (di_rnd d)" "unat bytes_read < 2 ^ 63"
    and "(if unat (di_bytes_until_read_sampling d) < unat bytes_read
          then 2 * (unat bytes_read - unat (di_bytes_until_read_sampling d)) - (if unat (di_rnd d) mod 2097152 = 0 then 1 else 0) else 0) < fuel"
  shows "\<exists>d'. sampling_loop fuel k bytes_read d = Ret d' \<and> sampled d d'"
  using assms
proof (induction fuel arbitrary: d)
  case (Suc fuel)
  let ?u = "unat (di_bytes_until_read_sampling d)"
  show ?case
  proof (cases "di_bytes_until_read_sampling d < bytes_read")
    case True
    then have u: "?u < unat bytes_read" by (simp add: word_less_nat_alt)
    obtain n s where n: "RandomCompactionPeriod d = (n, d\<lparr>di_rnd := s\<rparr>)" "good_seed s" "unat n = unat s mod 2097152"
      "unat s = (unat (di_rnd d) * 16807) mod 2147483647" using period_ok [OF Suc.prems(1)] by blast
    have "unat n < 2097152" unfolding n(3) by simp
    then have sum: "unat (di_bytes_until_read_sampling d + n) = ?u + unat n" using u Suc.prems(2) by (simp add: unat_word_ariths)
    let ?d = "d\<lparr>di_rnd := s, di_bytes_until_read_sampling := di_bytes_until_read_sampling d + n, di_samples := di_samples d @ [k]\<rparr>"
    have z: "unat (di_rnd d) mod 2097152 = 0 \<Longrightarrow> unat s mod 2097152 \<noteq> 0" using no_two_zeros [OF Suc.prems(1)] n(4) by simp
    have "(if unat (di_bytes_until_read_sampling ?d) < unat bytes_read
        then 2 * (unat bytes_read - unat (di_bytes_until_read_sampling ?d)) - (if unat (di_rnd ?d) mod 2097152 = 0 then 1 else 0) else 0) < fuel"
    proof (cases "unat s mod 2097152 = 0")
      case zero: True
      have nz: "unat (di_rnd d) mod 2097152 \<noteq> 0"
      proof
        assume "unat (di_rnd d) mod 2097152 = 0"
        from z [OF this] zero show False by (rule notE)
      qed
      then show ?thesis using zero Suc.prems(3) u sum n(3) by simp
    next
      case False
      have pos: "0 < unat n" using False n(3) by simp
      have "2 * (unat bytes_read - ?u) < Suc fuel + 1" using Suc.prems(3) u by (simp split: if_splits)
      with pos u have "if ?u + unat n < unat bytes_read then 2 * (unat bytes_read - (?u + unat n)) < fuel else 0 < fuel" by auto
      then show ?thesis using False sum by (simp split: if_splits)
    qed
    from Suc.IH [OF _ Suc.prems(2) this] n(2) obtain d' where d': "sampling_loop fuel k bytes_read ?d = Ret d'" "sampled ?d d'" by auto
    have "sampled d d'" using d'(2) by (auto simp: sampled_def)
    then show ?thesis using True n(1) d'(1) by simp
  next
    case False
    then show ?thesis using sampled_refl [OF Suc.prems(1)] by (intro exI [of _ d]) simp
  qed
qed simp

section \<open>Versions\<close>

definition es_seq :: "byte list \<Rightarrow> u64" where
  "es_seq k = drop_bit 8 (ktag k)"

definition es_type :: "byte list \<Rightarrow> ValueType" where
  "es_type k = ucast (ktag k AND 0xff)"

text \<open>Entries as writers make them, small enough to be counted.\<close>

definition version_ok :: "entry \<Rightarrow> bool" where
  "version_ok e \<longleftrightarrow> 8 \<le> length (fst e) \<and> es_type (fst e) \<le> kTypeValue \<and> length (fst e) < 2 ^ 32 \<and> length (snd e) < 2 ^ 32"

lemma ParseInternalKey_ok:
  assumes "8 \<le> length k" "es_type k \<le> kTypeValue"
  shows "ParseInternalKey k = Ret (Some \<lparr>user_key = ukey k, sequence = es_seq k, ktype = es_type k\<rparr>)"
  using assms by (simp add: ParseInternalKey_def Let_def DecodeFixed64_tag ukey_def es_seq_def es_type_def)

lemma ParseKey_ok:
  assumes "it_key I (di_iter d) = Ret (fst e)" "it_value I (di_iter d) = Ret (snd e)" "version_ok e" "good_seed (di_rnd d)"
  shows "\<exists>d'. DBIter_ParseKey I d = Ret (Some \<lparr>user_key = ukey (fst e), sequence = es_seq (fst e), ktype = es_type (fst e)\<rparr>, d') \<and> sampled d d'"
proof -
  let ?n = "of_nat (length (fst e) + length (snd e)) :: u64"
  have v: "8 \<le> length (fst e)" "es_type (fst e) \<le> kTypeValue" "length (fst e) < 2 ^ 32" "length (snd e) < 2 ^ 32" using assms(3) by (simp_all add: version_ok_def)
  then have "length (fst e) + length (snd e) < 2 ^ 33" by simp
  then have u: "unat ?n = length (fst e) + length (snd e)" by (simp del: of_nat_add)
  have "\<exists>d'. sampling_loop (2 * unat ?n + 1) (fst e) ?n d = Ret d' \<and> sampled d d'"
    by (rule sampling_loop_ok [OF assms(4)]) (use u v(3,4) in auto)
  then obtain d' where d': "sampling_loop (2 * unat ?n + 1) (fst e) ?n d = Ret d'" "sampled d d'" by blast
  have "sampled d (d'\<lparr>di_bytes_until_read_sampling := di_bytes_until_read_sampling d' - ?n\<rparr>)" using d'(2) by (rule sampled_bytes)
  then show ?thesis using assms(1,2) d'(1) ParseInternalKey_ok [OF v(1,2)]
    by (intro exI [of _ "d'\<lparr>di_bytes_until_read_sampling := di_bytes_until_read_sampling d' - ?n\<rparr>"]) (simp add: DBIter_ParseKey_def Let_def del: of_nat_add bindO_eq_Ret)
qed

section \<open>The view of the user\<close>

text \<open>An entry is shown when it is a visible value and no earlier entry is a visible version of its user key.\<close>

definition visible :: "SequenceNumber \<Rightarrow> entry \<Rightarrow> bool" where
  "visible s e \<longleftrightarrow> es_seq (fst e) \<le> s"

definition shown :: "SequenceNumber \<Rightarrow> entry list \<Rightarrow> nat \<Rightarrow> bool" where
  "shown s es i \<longleftrightarrow> visible s (es ! i) \<and> es_type (fst (es ! i)) = kTypeValue \<and>
     (\<forall>e\<in>set (take i es). ukey (fst e) = ukey (fst (es ! i)) \<longrightarrow> \<not> visible s e)"

definition user_entry :: "entry \<Rightarrow> entry" where
  "user_entry e = (ukey (fst e), snd e)"

definition user_view :: "SequenceNumber \<Rightarrow> entry list \<Rightarrow> entry list" where
  "user_view s es = map (\<lambda>i. user_entry (es ! i)) (filter (shown s es) [0..<length es])"

text \<open>The place of entry \<open>i\<close> in the view.\<close>

definition rank :: "SequenceNumber \<Rightarrow> entry list \<Rightarrow> nat \<Rightarrow> nat" where
  "rank s es i = length (filter (shown s es) [0..<i])"

lemma shownD:
  assumes "shown s es i"
  shows "visible s (es ! i)" "es_type (fst (es ! i)) = kTypeValue"
    "\<And>j. j < i \<Longrightarrow> j < length es \<Longrightarrow> ukey (fst (es ! j)) = ukey (fst (es ! i)) \<Longrightarrow> \<not> visible s (es ! j)"
proof -
  show "visible s (es ! i)" "es_type (fst (es ! i)) = kTypeValue" using assms by (simp_all add: shown_def)
  fix j assume j: "j < i" "j < length es" "ukey (fst (es ! j)) = ukey (fst (es ! i))"
  then have "es ! j \<in> set (take i es)" by (auto simp: in_set_conv_nth intro!: exI [of _ j])
  then show "\<not> visible s (es ! j)" using assms j(3) unfolding shown_def by blast
qed

lemma shownI:
  assumes "visible s (es ! i)" "es_type (fst (es ! i)) = kTypeValue" "i < length es"
    and "\<And>j. j < i \<Longrightarrow> ukey (fst (es ! j)) = ukey (fst (es ! i)) \<Longrightarrow> \<not> visible s (es ! j)"
  shows "shown s es i"
  unfolding shown_def
proof (intro conjI ballI impI)
  fix e assume e: "e \<in> set (take i es)" "ukey (fst e) = ukey (fst (es ! i))"
  then obtain j where "j < i" "e = es ! j" by (auto simp: in_set_conv_nth)
  then show "\<not> visible s e" using assms(4) e(2) by simp
qed (use assms(1,2) in simp_all)

lemma rank_same: "a \<le> b \<Longrightarrow> (\<And>m. a \<le> m \<Longrightarrow> m < b \<Longrightarrow> \<not> shown s es m) \<Longrightarrow> rank s es a = rank s es b"
proof (induction b)
  case (Suc b)
  show ?case
  proof (cases "a = Suc b")
    case False
    then have "a \<le> b" using Suc.prems(1) by simp
    then have "rank s es a = rank s es b" "\<not> shown s es b" using Suc.IH Suc.prems(2) by simp_all
    then show ?thesis by (simp add: rank_def)
  qed simp
qed (simp add: rank_def)

lemma rank_Suc: "rank s es (Suc i) = (if shown s es i then Suc (rank s es i) else rank s es i)"
  by (simp add: rank_def)

lemma rank_mono: "a \<le> b \<Longrightarrow> rank s es a \<le> rank s es b"
  by (induction b) (auto simp: rank_Suc le_Suc_eq)

lemma view_length: "length (user_view s es) = rank s es (length es)"
  by (simp add: user_view_def rank_def)

lemma shown_split:
  "shown s es i \<Longrightarrow> i < length es \<Longrightarrow>
    filter (shown s es) [0..<length es] = filter (shown s es) [0..<i] @ i # filter (shown s es) [Suc i..<length es]"
  using upt_add_eq_append [of 0 i "length es - i"] by (simp add: upt_conv_Cons)

lemma view_at:
  assumes "shown s es i" "i < length es"
  shows "rank s es i < length (user_view s es)" "user_view s es ! rank s es i = user_entry (es ! i)"
proof -
  from shown_split [OF assms] show "rank s es i < length (user_view s es)" "user_view s es ! rank s es i = user_entry (es ! i)"
    by (simp_all add: user_view_def rank_def nth_append)
qed

lemma view_entry:
  assumes "p < length (user_view s es)"
  shows "\<exists>i < length es. shown s es i \<and> p = rank s es i"
proof -
  let ?f = "filter (shown s es) [0..<length es]"
  have p: "p < length ?f" using assms by (simp add: user_view_def)
  then have "?f ! p \<in> set ?f" by (rule nth_mem)
  then have i: "?f ! p < length es" "shown s es (?f ! p)" by (simp_all only: set_filter mem_Collect_eq set_upt atLeastLessThan_iff)
  let ?i = "?f ! p"
  have r: "rank s es ?i < length ?f" using view_at(1) [OF i(2,1)] by (simp add: user_view_def)
  have "?f ! rank s es ?i = ?i" using shown_split [OF i(2,1)] by (metis nth_append_length rank_def)
  moreover have "distinct ?f" by simp
  ultimately have "p = rank s es ?i" using r p by (metis nth_eq_iff_index_eq)
  then show ?thesis using i by blast
qed

end
