(* ===== verification/Db_Iter_Forward.thy ===== *)
theory Db_Iter_Forward
  imports Db_Iter_Correct
begin

text \<open>
  The forward search of the database iterator, over any cursor on versions: it stops at the next entry that is shown.
\<close>

abbreviation uk :: "entry list \<Rightarrow> nat \<Rightarrow> byte list" where
  "uk es i \<equiv> ukey (fst (es ! i))"

locale versioned = comparator C keys lt + vs: cursor "InternalKeyComparator C" "ikeys keys" "ikey_lt lt" I rep
  for C :: Comparator and keys :: "byte list set" and lt :: "byte list \<Rightarrow> byte list \<Rightarrow> bool"
    and I :: "'s Iterator" and rep :: "entry list \<Rightarrow> nat \<Rightarrow> 's \<Rightarrow> bool"
begin

section \<open>The order of the versions\<close>

lemma uk_keys: "rising (ikey_lt lt) (ikeys keys) es \<Longrightarrow> i < length es \<Longrightarrow> uk es i \<in> keys"
  using vs.rising_key by (fastforce simp: ikeys_def)

lemma uk_order:
  assumes "rising (ikey_lt lt) (ikeys keys) es" "i \<le> j" "j < length es"
  shows "lt (uk es i) (uk es j) \<or> uk es i = uk es j"
proof (cases "i = j")
  case False
  then have "ikey_lt lt (fst (es ! i)) (fst (es ! j))" using vs.rising_lt [OF assms(1) _ assms(3), of i] assms(2) by simp
  then show ?thesis by (auto simp: ikey_lt_def)
qed simp

lemma uk_between:
  assumes "rising (ikey_lt lt) (ikeys keys) es" "i \<le> j" "j \<le> m" "m < length es" "uk es i = uk es m"
  shows "uk es j = uk es m"
proof -
  have k: "uk es i \<in> keys" "uk es j \<in> keys" using uk_keys [OF assms(1)] assms(2-4) by simp_all
  have "lt (uk es i) (uk es j) \<or> uk es i = uk es j" "lt (uk es j) (uk es m) \<or> uk es j = uk es m"
    using uk_order [OF assms(1)] assms(2-4) by simp_all
  then show ?thesis using assms(5) lt_asym [OF k] by auto
qed

lemma uk_not_before: "rising (ikey_lt lt) (ikeys keys) es \<Longrightarrow> i \<le> j \<Longrightarrow> j < length es \<Longrightarrow> \<not> lt (uk es j) (uk es i)"
  using uk_order [of es i j] uk_keys [of es i] uk_keys [of es j] lt_asym [of "uk es i" "uk es j"] lt_irrefl [of "uk es i"] by auto

section \<open>States\<close>

definition holds :: "SequenceNumber \<Rightarrow> entry list \<Rightarrow> nat \<Rightarrow> 's DBIter \<Rightarrow> bool" where
  "holds s es i d \<longleftrightarrow> rep es i (di_iter d) \<and> (\<forall>e\<in>set es. version_ok e) \<and> di_user_comparator d = C \<and> di_status d = OK \<and>
     di_sequence d = s \<and> good_seed (di_rnd d)"

lemma holds_update [simp]:
  "holds s es i (d\<lparr>di_saved_key := k\<rparr>) = holds s es i d" "holds s es i (d\<lparr>di_saved_value := v\<rparr>) = holds s es i d"
  "holds s es i (d\<lparr>di_valid := b\<rparr>) = holds s es i d" "holds s es i (d\<lparr>di_direction := dir\<rparr>) = holds s es i d"
  by (simp_all add: holds_def)

lemma holds_iter: "holds s es i d \<Longrightarrow> rep es j x \<Longrightarrow> holds s es j (d\<lparr>di_iter := x\<rparr>)"
  by (simp add: holds_def)

lemma holds_sampled: "holds s es i d \<Longrightarrow> sampled d d' \<Longrightarrow> holds s es i d'"
  using sampled_fields [of d d'] by (simp add: holds_def)

lemma holdsD:
  assumes "holds s es i d"
  shows "rep es i (di_iter d)" "rising (ikey_lt lt) (ikeys keys) es" "it_Valid I (di_iter d) = (i < length es)" "i \<le> length es"
    "di_user_comparator d = C" "di_sequence d = s" "di_status d = OK"
  using assms vs.rep_rising vs.rep_valid unfolding holds_def by blast+

lemma holds_entry:
  assumes "holds s es i d" "i < length es"
  shows "it_key I (di_iter d) = Ret (fst (es ! i))" "it_value I (di_iter d) = Ret (snd (es ! i))" "version_ok (es ! i)"
    "ExtractUserKey (fst (es ! i)) = Ret (uk es i)" "es_type (fst (es ! i)) = kTypeDeletion \<or> es_type (fst (es ! i)) = kTypeValue"
proof -
  show v: "version_ok (es ! i)" using assms by (simp add: holds_def)
  then show "ExtractUserKey (fst (es ! i)) = Ret (uk es i)" by (simp add: ExtractUserKey_eq version_ok_def)
  have "unat (es_type (fst (es ! i))) \<le> 1" using v by (simp add: version_ok_def word_le_nat_alt)
  then have "unat (es_type (fst (es ! i))) = 0 \<or> unat (es_type (fst (es ! i))) = 1" by linarith
  then show "es_type (fst (es ! i)) = kTypeDeletion \<or> es_type (fst (es ! i)) = kTypeValue" by (simp add: word_unat_eq_iff)
  show "it_key I (di_iter d) = Ret (fst (es ! i))" "it_value I (di_iter d) = Ret (snd (es ! i))"
    using vs.rep_key vs.rep_value holdsD(1) [OF assms(1)] assms(2) by simp_all
qed

lemma holds_parse:
  assumes "holds s es i d" "i < length es"
  shows "\<exists>d'. DBIter_ParseKey I d = Ret (Some \<lparr>user_key = uk es i, sequence = es_seq (fst (es ! i)), ktype = es_type (fst (es ! i))\<rparr>, d') \<and> sampled d d'"
  by (rule ParseKey_ok [OF holds_entry(1-3) [OF assms]]) (use assms in \<open>simp add: holds_def\<close>)

section \<open>The search\<close>

lemma next_step_ok:
  assumes "holds s es i d" "i < length es" "sk \<longrightarrow> di_saved_key d \<in> keys"
  shows "\<exists>d'. sampled d d' \<and> next_step I sk d = Ret
    (if \<not> visible s (es ! i) then (False, sk, d')
     else if es_type (fst (es ! i)) = kTypeDeletion then (False, True, d'\<lparr>di_saved_key := uk es i\<rparr>)
     else if sk \<and> \<not> lt (di_saved_key d) (uk es i) then (False, sk, d')
     else (True, sk, d'\<lparr>di_valid := True, di_saved_key := []\<rparr>))"
proof -
  obtain d' where d': "DBIter_ParseKey I d = Ret (Some \<lparr>user_key = uk es i, sequence = es_seq (fst (es ! i)), ktype = es_type (fst (es ! i))\<rparr>, d')" "sampled d d'"
    using holds_parse [OF assms(1,2)] by blast
  note f = sampled_fields [OF d'(2)] holdsD(5,6) [OF assms(1)]
  have t: "es_type (fst (es ! i)) = kTypeDeletion \<or> es_type (fst (es ! i)) = kTypeValue" by (rule holds_entry(5) [OF assms(1,2)])
  show ?thesis
  proof (cases "sk")
    case False
    then show ?thesis using d' f t by (intro exI [of _ d']) (auto simp: next_step_def visible_def simp del: bindO_eq_Ret)
  next
    case True
    then have "di_saved_key d \<in> keys" "uk es i \<in> keys" using assms(3) uk_keys [OF holdsD(2) [OF assms(1)] assms(2)] by simp_all
    from compare [OF this(2,1)] obtain r where r: "Compare C (uk es i) (di_saved_key d) = Ret r" "r \<le> 0 \<longleftrightarrow> \<not> lt (di_saved_key d) (uk es i)"
      by (auto simp: not_less [symmetric])
    show ?thesis using d' f t r True by (intro exI [of _ d']) (auto simp: next_step_def visible_def simp del: bindO_eq_Ret)
  qed
qed

definition next_inv :: "SequenceNumber \<Rightarrow> entry list \<Rightarrow> nat \<Rightarrow> nat \<Rightarrow> bool \<Rightarrow> byte list \<Rightarrow> bool" where
  "next_inv s es a i sk K \<longleftrightarrow> (sk \<longrightarrow> K \<in> keys) \<and>
     (\<forall>j m. j < i \<longrightarrow> i \<le> m \<longrightarrow> m < length es \<longrightarrow> uk es j = uk es m \<longrightarrow> visible s (es ! j) \<longrightarrow> sk \<and> \<not> lt K (uk es m)) \<and>
     (\<forall>m. i \<le> m \<longrightarrow> m < length es \<longrightarrow> sk \<longrightarrow> \<not> lt K (uk es m) \<longrightarrow> shown s es m \<longrightarrow> m < a) \<and>
     (\<forall>m. i \<le> m \<longrightarrow> m < length es \<longrightarrow> m < a \<longrightarrow> visible s (es ! m) \<longrightarrow> es_type (fst (es ! m)) = kTypeValue \<and> sk \<and> \<not> lt K (uk es m)) \<and>
     (\<forall>m. a \<le> m \<longrightarrow> m < i \<longrightarrow> \<not> shown s es m)"

lemma next_invD:
  assumes "next_inv s es a i sk K"
  shows "sk \<Longrightarrow> K \<in> keys"
    "\<And>j m. j < i \<Longrightarrow> i \<le> m \<Longrightarrow> m < length es \<Longrightarrow> uk es j = uk es m \<Longrightarrow> visible s (es ! j) \<Longrightarrow> sk \<and> \<not> lt K (uk es m)"
    "\<And>m. i \<le> m \<Longrightarrow> m < length es \<Longrightarrow> sk \<Longrightarrow> \<not> lt K (uk es m) \<Longrightarrow> shown s es m \<Longrightarrow> m < a"
    "\<And>m. i \<le> m \<Longrightarrow> m < length es \<Longrightarrow> m < a \<Longrightarrow> visible s (es ! m) \<Longrightarrow> es_type (fst (es ! m)) = kTypeValue \<and> sk \<and> \<not> lt K (uk es m)"
    "\<And>m. a \<le> m \<Longrightarrow> m < i \<Longrightarrow> \<not> shown s es m"
  using assms unfolding next_inv_def by blast+

lemma next_invI:
  assumes "sk \<Longrightarrow> K \<in> keys"
    "\<And>j m. j < i \<Longrightarrow> i \<le> m \<Longrightarrow> m < length es \<Longrightarrow> uk es j = uk es m \<Longrightarrow> visible s (es ! j) \<Longrightarrow> sk \<and> \<not> lt K (uk es m)"
    "\<And>m. i \<le> m \<Longrightarrow> m < length es \<Longrightarrow> sk \<Longrightarrow> \<not> lt K (uk es m) \<Longrightarrow> shown s es m \<Longrightarrow> m < a"
    "\<And>m. i \<le> m \<Longrightarrow> m < length es \<Longrightarrow> m < a \<Longrightarrow> visible s (es ! m) \<Longrightarrow> es_type (fst (es ! m)) = kTypeValue \<and> sk \<and> \<not> lt K (uk es m)"
    "\<And>m. a \<le> m \<Longrightarrow> m < i \<Longrightarrow> \<not> shown s es m"
  shows "next_inv s es a i sk K"
  using assms unfolding next_inv_def by blast

lemma next_inv_hidden:
  assumes "next_inv s es a i sk K" "\<not> visible s (es ! i)"
  shows "next_inv s es a (Suc i) sk K"
proof (rule next_invI)
  note n = next_invD [OF assms(1)]
  show "sk \<and> \<not> lt K (uk es m)" if "j < Suc i" "Suc i \<le> m" "m < length es" "uk es j = uk es m" "visible s (es ! j)" for j m
    using n(2) [of j m] that assms(2) by (cases "j = i") auto
  show "\<not> shown s es m" if "a \<le> m" "m < Suc i" for m
    using n(5) [of m] that assms(2) shownD(1) [of s es m] by (cases "m = i") auto
  show "sk \<Longrightarrow> K \<in> keys" by (rule n(1))
  show "m < a" if "Suc i \<le> m" "m < length es" "sk" "\<not> lt K (uk es m)" "shown s es m" for m using n(3) [of m] that by simp
  show "es_type (fst (es ! m)) = kTypeValue \<and> sk \<and> \<not> lt K (uk es m)" if "Suc i \<le> m" "m < length es" "m < a" "visible s (es ! m)" for m
    using n(4) [of m] that by simp
qed

lemma next_inv_deletion:
  assumes "next_inv s es a i sk K" "rising (ikey_lt lt) (ikeys keys) es" "i < length es" "visible s (es ! i)" "es_type (fst (es ! i)) = kTypeDeletion"
  shows "next_inv s es a (Suc i) True (uk es i)"
proof (rule next_invI)
  note n = next_invD [OF assms(1)]
  have a: "a \<le> i" using n(4) [of i] assms(3-5) by (cases "i < a") auto
  have ns: "\<not> shown s es i" using shownD(2) [of s es i] assms(5) by auto
  show "uk es i \<in> keys" by (rule uk_keys [OF assms(2,3)])
  show "True \<and> \<not> lt (uk es i) (uk es m)" if "j < Suc i" "Suc i \<le> m" "m < length es" "uk es j = uk es m" for j m
  proof -
    have "uk es i = uk es m" by (rule uk_between [OF assms(2) _ _ that(3,4)]) (use that in simp_all)
    then show ?thesis using uk_not_before [OF assms(2), of m m] that(3) by simp
  qed
  show "m < a" if "Suc i \<le> m" "m < length es" "\<not> lt (uk es i) (uk es m)" "shown s es m" for m
    using that uk_order [OF assms(2), of i m] shownD(3) [OF that(4), of i] assms(3,4) by auto
  show "\<not> shown s es m" if "a \<le> m" "m < Suc i" for m using n(5) [of m] that ns by (cases "m = i") auto
  show "es_type (fst (es ! m)) = kTypeValue \<and> True \<and> \<not> lt (uk es i) (uk es m)" if "Suc i \<le> m" "m < a" for m using that a by simp
qed

lemma next_inv_skip:
  assumes "next_inv s es a i sk K" "i < length es" "sk" "\<not> lt K (uk es i)"
  shows "next_inv s es a (Suc i) sk K"
proof (rule next_invI)
  note n = next_invD [OF assms(1)]
  show "sk \<and> \<not> lt K (uk es m)" if "j < Suc i" "Suc i \<le> m" "m < length es" "uk es j = uk es m" "visible s (es ! j)" for j m
    using n(2) [of j m] that assms(3,4) by (cases "j = i") auto
  show "\<not> shown s es m" if "a \<le> m" "m < Suc i" for m
    using n(5) [of m] n(3) [of m] that assms(2-4) by (cases "m = i") auto
  show "sk \<Longrightarrow> K \<in> keys" by (rule n(1))
  show "m < a" if "Suc i \<le> m" "m < length es" "sk" "\<not> lt K (uk es m)" "shown s es m" for m using n(3) [of m] that by simp
  show "es_type (fst (es ! m)) = kTypeValue \<and> sk \<and> \<not> lt K (uk es m)" if "Suc i \<le> m" "m < length es" "m < a" "visible s (es ! m)" for m
    using n(4) [of m] that by simp
qed

lemma next_inv_found:
  assumes "next_inv s es a i sk K" "i < length es" "visible s (es ! i)" "es_type (fst (es ! i)) = kTypeValue" "\<not> (sk \<and> \<not> lt K (uk es i))"
  shows "a \<le> i" "shown s es i"
proof -
  note n = next_invD [OF assms(1)]
  show "a \<le> i" using n(4) [of i] assms(2-5) by (cases "i < a") auto
  show "shown s es i" by (rule shownI) (use assms n(2) [of _ i] in auto)
qed

text \<open>Where the search that looks for the first shown entry from \<open>a\<close> on leaves the iterator.\<close>

definition next_stop :: "SequenceNumber \<Rightarrow> entry list \<Rightarrow> nat \<Rightarrow> 's DBIter \<Rightarrow> bool" where
  "next_stop s es a d \<longleftrightarrow>
     (if di_valid d then \<exists>x. a \<le> x \<and> x < length es \<and> shown s es x \<and> (\<forall>m. a \<le> m \<longrightarrow> m < x \<longrightarrow> \<not> shown s es m) \<and> holds s es x d
      else holds s es (length es) d \<and> (\<forall>m. a \<le> m \<longrightarrow> m < length es \<longrightarrow> \<not> shown s es m))"

lemma FindNext_ok:
  assumes "holds s es i d" "i < length es" "length es - i \<le> fuel" "next_inv s es a i sk (di_saved_key d)"
  shows "\<exists>d'. FindNextUserEntry I fuel sk d = Ret d' \<and> di_direction d' = di_direction d \<and> next_stop s es a d'"
  using assms
proof (induction fuel arbitrary: i sk d)
  case (Suc fuel)
  note h = Suc.prems(1) and i = Suc.prems(2) and inv = Suc.prems(4)
  let ?e = "es ! i"
  obtain d1 where d1: "sampled d d1" "next_step I sk d = Ret
    (if \<not> visible s ?e then (False, sk, d1)
     else if es_type (fst ?e) = kTypeDeletion then (False, True, d1\<lparr>di_saved_key := uk es i\<rparr>)
     else if sk \<and> \<not> lt (di_saved_key d) (uk es i) then (False, sk, d1)
     else (True, sk, d1\<lparr>di_valid := True, di_saved_key := []\<rparr>))"
    using next_step_ok [OF h i] next_invD(1) [OF inv] by blast
  have h1: "holds s es i d1" by (rule holds_sampled [OF h d1(1)])
  have go: "\<exists>d'. FindNextUserEntry I (Suc fuel) sk d = Ret d' \<and> di_direction d' = di_direction d \<and> next_stop s es a d'"
    if step: "next_step I sk d = Ret (False, sk2, d2)" and h2: "holds s es i d2" "di_direction d2 = di_direction d"
      and inv2: "next_inv s es a (Suc i) sk2 (di_saved_key d2)" for sk2 d2
  proof -
    from vs.rep_next [OF holdsD(1) [OF h2(1)] i] obtain x where x: "it_Next I (di_iter d2) = Ret x" "rep es (Suc i) x" by blast
    have h3: "holds s es (Suc i) (d2\<lparr>di_iter := x\<rparr>)" by (rule holds_iter [OF h2(1) x(2)])
    have v: "it_Valid I x = (Suc i < length es)" using holdsD(3) [OF h3] by simp
    show ?thesis
    proof (cases "Suc i < length es")
      case True
      have "length es - Suc i \<le> fuel" using Suc.prems(3) by simp
      from Suc.IH [OF h3 True this] inv2 have "\<exists>d'. FindNextUserEntry I fuel sk2 (d2\<lparr>di_iter := x\<rparr>) = Ret d' \<and> di_direction d' = di_direction d2 \<and> next_stop s es a d'"
        by simp
      then show ?thesis using step x(1) v True h2(2) by (simp del: bindO_eq_Ret)
    next
      case False
      then have n: "Suc i = length es" using i by simp
      have "next_stop s es a (d2\<lparr>di_iter := x, di_saved_key := [], di_valid := False\<rparr>)"
        using h3 next_invD(5) [OF inv2] n by (simp add: next_stop_def)
      then show ?thesis using step x(1) v False h2(2) by (simp del: bindO_eq_Ret)
    qed
  qed
  have same: "di_saved_key d1 = di_saved_key d" "di_direction d1 = di_direction d" using sampled_fields [OF d1(1)] by simp_all
  consider "\<not> visible s ?e" | "visible s ?e" "es_type (fst ?e) = kTypeDeletion"
    | "visible s ?e" "es_type (fst ?e) = kTypeValue" "sk" "\<not> lt (di_saved_key d) (uk es i)"
    | "visible s ?e" "es_type (fst ?e) = kTypeValue" "\<not> (sk \<and> \<not> lt (di_saved_key d) (uk es i))"
    using holds_entry(5) [OF h i] by blast
  then show ?case
  proof cases
    case 1
    show ?thesis by (rule go [of sk d1]) (use 1 d1(2) h1 same next_inv_hidden [OF inv 1] in simp_all)
  next
    case 2
    show ?thesis by (rule go [of True "d1\<lparr>di_saved_key := uk es i\<rparr>"]) (use 2 d1(2) h1 same next_inv_deletion [OF inv holdsD(2) [OF h] i 2] in simp_all)
  next
    case 3
    show ?thesis by (rule go [of sk d1]) (use 3 d1(2) h1 same next_inv_skip [OF inv i 3(3,4)] in simp_all)
  next
    case 4
    have f: "a \<le> i" "shown s es i" by (rule next_inv_found [OF inv i 4])+
    have "next_stop s es a (d1\<lparr>di_valid := True, di_saved_key := []\<rparr>)"
      using f i h1 next_invD(5) [OF inv] by (auto simp: next_stop_def)
    moreover have "next_step I sk d = Ret (True, sk, d1\<lparr>di_valid := True, di_saved_key := []\<rparr>)" using 4 d1(2) by auto
    ultimately show ?thesis using same by (simp del: bindO_eq_Ret)
  qed
qed simp

end

end
