(* ===== verification/Db_Iter_Backward.thy ===== *)
theory Db_Iter_Backward
  imports Db_Iter_Forward
begin

text \<open>
  The backward search of the database iterator: it stops before the versions of the last key that is shown below a place.
\<close>

context versioned
begin

section \<open>The search\<close>

lemma prev_step_ok:
  assumes "holds s es i d" "i < length es" "vt \<noteq> kTypeDeletion \<longrightarrow> di_saved_key d \<in> keys"
  shows "\<exists>d'. sampled d d' \<and> prev_step I vt d = Ret
    (if \<not> visible s (es ! i) then (False, vt, d')
     else if vt \<noteq> kTypeDeletion \<and> lt (uk es i) (di_saved_key d) then (True, vt, d')
     else if es_type (fst (es ! i)) = kTypeDeletion then (False, kTypeDeletion, d'\<lparr>di_saved_key := [], di_saved_value := []\<rparr>)
     else (False, kTypeValue, d'\<lparr>di_saved_key := uk es i, di_saved_value := snd (es ! i)\<rparr>))"
proof -
  obtain d' where d': "DBIter_ParseKey I d = Ret (Some \<lparr>user_key = uk es i, sequence = es_seq (fst (es ! i)), ktype = es_type (fst (es ! i))\<rparr>, d')" "sampled d d'"
    using holds_parse [OF assms(1,2)] by blast
  note f = sampled_fields [OF d'(2)] holdsD(5,6) [OF assms(1)]
  note e = holds_entry [OF assms(1,2)] holds_entry [OF holds_sampled [OF assms(1) d'(2)] assms(2)]
  show ?thesis
  proof (cases "vt = kTypeDeletion")
    case True
    then show ?thesis using d' f e by (intro exI [of _ d']) (auto simp: prev_step_def visible_def simp del: bindO_eq_Ret)
  next
    case False
    then have "di_saved_key d \<in> keys" "uk es i \<in> keys" using assms(3) uk_keys [OF holdsD(2) [OF assms(1)] assms(2)] by simp_all
    from compare [OF this(2,1)] obtain r where r: "Compare C (uk es i) (di_saved_key d) = Ret r" "r < 0 \<longleftrightarrow> lt (uk es i) (di_saved_key d)" by blast
    show ?thesis using d' f e r False by (intro exI [of _ d']) (auto simp: prev_step_def visible_def simp del: bindO_eq_Ret)
  qed
qed

text \<open>
  The entries from \<open>b\<close> to \<open>a\<close> have been examined; the newest visible version that was seen last is a deletion or the
  entry \<open>c\<close> whose key and value are saved.
\<close>

definition candidate :: "SequenceNumber \<Rightarrow> entry list \<Rightarrow> nat \<Rightarrow> nat \<Rightarrow> nat \<Rightarrow> 's DBIter \<Rightarrow> bool" where
  "candidate s es a b c d \<longleftrightarrow> b \<le> c \<and> c < a \<and> visible s (es ! c) \<and> es_type (fst (es ! c)) = kTypeValue \<and>
     di_saved_key d = uk es c \<and> di_saved_value d = snd (es ! c) \<and> (\<forall>j. b \<le> j \<longrightarrow> j < c \<longrightarrow> \<not> visible s (es ! j)) \<and>
     (\<forall>m. c < m \<longrightarrow> m < a \<longrightarrow> \<not> shown s es m)"

definition prev_inv :: "SequenceNumber \<Rightarrow> entry list \<Rightarrow> nat \<Rightarrow> nat \<Rightarrow> ValueType \<Rightarrow> 's DBIter \<Rightarrow> bool" where
  "prev_inv s es a b vt d \<longleftrightarrow>
     (if vt = kTypeDeletion then \<forall>m. b \<le> m \<longrightarrow> m < a \<longrightarrow> \<not> shown s es m else \<exists>c. candidate s es a b c d)"

lemma prev_inv_iter [simp]: "prev_inv s es a b vt (d\<lparr>di_iter := x\<rparr>) = prev_inv s es a b vt d"
  by (simp add: prev_inv_def candidate_def)

lemma candidate_hidden: "candidate s es a (Suc b) c d \<Longrightarrow> \<not> visible s (es ! b) \<Longrightarrow> candidate s es a b c d"
  unfolding candidate_def by (metis Suc_leD Suc_leI le_neq_implies_less)

lemma prev_inv_hidden:
  assumes "prev_inv s es a (Suc b) vt d" "\<not> visible s (es ! b)" "di_saved_key d' = di_saved_key d" "di_saved_value d' = di_saved_value d"
  shows "prev_inv s es a b vt d'"
proof (cases "vt = kTypeDeletion")
  case True
  have "\<not> shown s es b" using assms(2) shownD(1) by blast
  then show ?thesis using assms(1) True unfolding prev_inv_def by (metis Suc_leI le_neq_implies_less)
next
  case False
  then obtain c where "candidate s es a (Suc b) c d" using assms(1) by (auto simp: prev_inv_def)
  then have "candidate s es a b c d" using assms(2) by (rule candidate_hidden)
  then have "candidate s es a b c d'" using assms(3,4) by (simp add: candidate_def)
  then show ?thesis using False by (auto simp: prev_inv_def)
qed

text \<open>Reading a visible version below the saved one, of the same key, or when nothing is saved: nothing above it is shown.\<close>

lemma prev_none_above:
  assumes "prev_inv s es a (Suc b) vt d" "rising (ikey_lt lt) (ikeys keys) es" "a \<le> length es" "visible s (es ! b)"
    and "\<not> (vt \<noteq> kTypeDeletion \<and> lt (uk es b) (di_saved_key d))" "b < m" "m < a"
  shows "\<not> shown s es m"
proof (cases "vt = kTypeDeletion")
  case True
  then show ?thesis using assms(1,6,7) by (simp add: prev_inv_def)
next
  case False
  then obtain c where c: "candidate s es a (Suc b) c d" using assms(1) by (auto simp: prev_inv_def)
  then have cb: "Suc b \<le> c" "c < a" "di_saved_key d = uk es c" "\<forall>j. Suc b \<le> j \<longrightarrow> j < c \<longrightarrow> \<not> visible s (es ! j)"
    "\<forall>m. c < m \<longrightarrow> m < a \<longrightarrow> \<not> shown s es m" by (simp_all add: candidate_def)
  have "\<not> lt (uk es b) (uk es c)" using assms(5) False cb(3) by simp
  then have eq: "uk es b = uk es c" using uk_order [OF assms(2), of b c] cb(1,2) assms(3) by auto
  consider "m < c" | "m = c" | "c < m" by linarith
  then show ?thesis
  proof cases
    case 1
    then show ?thesis using cb(4) assms(6) shownD(1) by (metis Suc_leI)
  next
    case 2
    have "b < length es" using assms(3,6,7) by simp
    then show ?thesis using shownD(3) [of s es m b] assms(4,6) eq 2 by auto
  next
    case 3
    then show ?thesis using cb(5) assms(7) by blast
  qed
qed

lemma candidate_shown:
  assumes "candidate s es a b c d" "rising (ikey_lt lt) (ikeys keys) es" "a \<le> length es" "0 < b \<longrightarrow> lt (uk es (b - 1)) (uk es c)"
  shows "shown s es c"
proof -
  have c: "b \<le> c" "c < a" "visible s (es ! c)" "es_type (fst (es ! c)) = kTypeValue" "\<forall>j. b \<le> j \<longrightarrow> j < c \<longrightarrow> \<not> visible s (es ! j)"
    using assms(1) by (simp_all add: candidate_def)
  have n: "c < length es" using c(2) assms(3) by simp
  show ?thesis
  proof (rule shownI [OF c(3,4) n])
    fix j assume j: "j < c" "uk es j = uk es c"
    show "\<not> visible s (es ! j)"
    proof (cases "b \<le> j")
      case False
      then have b: "0 < b" "j \<le> b - 1" "b - 1 \<le> c" "b - 1 < length es" using c(1) n by auto
      have "uk es (b - 1) = uk es c" by (rule uk_between [OF assms(2) b(2,3) n j(2)])
      then show ?thesis using assms(4) b(1) lt_irrefl [OF uk_keys [OF assms(2) n]] by simp
    qed (use c(5) j(1) in blast)
  qed
qed

text \<open>The state of the iterator when it yields entry \<open>c\<close> while moving backward.\<close>

definition on_reverse :: "SequenceNumber \<Rightarrow> entry list \<Rightarrow> nat \<Rightarrow> 's DBIter \<Rightarrow> bool" where
  "on_reverse s es c d \<longleftrightarrow> c < length es \<and> shown s es c \<and> di_saved_key d = uk es c \<and> di_saved_value d = snd (es ! c) \<and>
     (\<exists>b\<le>c. holds s es (step_back es b) d \<and> (\<forall>j. b \<le> j \<longrightarrow> j < c \<longrightarrow> \<not> visible s (es ! j)))"

definition prev_stop :: "SequenceNumber \<Rightarrow> entry list \<Rightarrow> nat \<Rightarrow> ValueType \<Rightarrow> 's DBIter \<Rightarrow> bool" where
  "prev_stop s es a vt d \<longleftrightarrow>
     (if vt = kTypeDeletion then holds s es (length es) d \<and> (\<forall>m<a. \<not> shown s es m)
      else \<exists>c<a. on_reverse s es c d \<and> (\<forall>m. c < m \<longrightarrow> m < a \<longrightarrow> \<not> shown s es m))"

lemma candidate_stop:
  assumes "candidate s es a b c d" "a \<le> length es" "shown s es c" "holds s es (step_back es b) d" "vt \<noteq> kTypeDeletion"
  shows "prev_stop s es a vt d"
proof -
  have c: "b \<le> c" "c < a" "di_saved_key d = uk es c" "di_saved_value d = snd (es ! c)" "\<forall>j. b \<le> j \<longrightarrow> j < c \<longrightarrow> \<not> visible s (es ! j)"
    "\<forall>m. c < m \<longrightarrow> m < a \<longrightarrow> \<not> shown s es m" using assms(1) by (simp_all add: candidate_def)
  then have "on_reverse s es c d" using assms(2-4) by (auto simp: on_reverse_def)
  then show ?thesis using c(2,6) assms(5) by (auto simp: prev_stop_def)
qed

lemma prev_loop_ok:
  assumes "holds s es b d" "b < a" "a \<le> length es" "b < fuel" "prev_inv s es a (Suc b) vt d"
  shows "\<exists>vt' d'. prev_loop I fuel vt d = Ret (vt', d') \<and> di_direction d' = di_direction d \<and> prev_stop s es a vt' d'"
  using assms
proof (induction fuel arbitrary: b vt d)
  case (Suc fuel)
  note h = Suc.prems(1) and inv = Suc.prems(5)
  have b: "b < length es" using Suc.prems(2,3) by simp
  note R = holdsD(2) [OF h]
  let ?e = "es ! b"
  have saved: "vt \<noteq> kTypeDeletion \<longrightarrow> di_saved_key d \<in> keys"
    using inv uk_keys [OF R] Suc.prems(3) by (fastforce simp: prev_inv_def candidate_def)
  obtain d1 where d1: "sampled d d1" "prev_step I vt d = Ret
    (if \<not> visible s ?e then (False, vt, d1)
     else if vt \<noteq> kTypeDeletion \<and> lt (uk es b) (di_saved_key d) then (True, vt, d1)
     else if es_type (fst ?e) = kTypeDeletion then (False, kTypeDeletion, d1\<lparr>di_saved_key := [], di_saved_value := []\<rparr>)
     else (False, kTypeValue, d1\<lparr>di_saved_key := uk es b, di_saved_value := snd ?e\<rparr>))"
    using prev_step_ok [OF h b saved] by blast
  have h1: "holds s es b d1" by (rule holds_sampled [OF h d1(1)])
  have same: "di_saved_key d1 = di_saved_key d" "di_saved_value d1 = di_saved_value d" "di_direction d1 = di_direction d"
    using sampled_fields [OF d1(1)] by simp_all
  have go: "\<exists>vt' d'. prev_loop I (Suc fuel) vt d = Ret (vt', d') \<and> di_direction d' = di_direction d \<and> prev_stop s es a vt' d'"
    if step: "prev_step I vt d = Ret (False, vt2, d2)" and h2: "holds s es b d2" "di_direction d2 = di_direction d"
      and inv2: "prev_inv s es a b vt2 d2" for vt2 d2
  proof -
    from vs.rep_prev [OF holdsD(1) [OF h2(1)] b] obtain x where x: "it_Prev I (di_iter d2) = Ret x" "rep es (step_back es b) x"
      unfolding step_back_def by blast
    let ?d = "d2\<lparr>di_iter := x\<rparr>"
    have h3: "holds s es (step_back es b) ?d" by (rule holds_iter [OF h2(1) x(2)])
    show ?thesis
    proof (cases b)
      case (Suc b')
      then have "step_back es b = b'" by (simp add: step_back_def)
      then have h4: "holds s es b' ?d" and v: "it_Valid I x" using h3 holdsD(3) [OF h3] Suc b by simp_all
      have "prev_inv s es a (Suc b') vt2 ?d" using inv2 Suc by simp
      with Suc.IH [OF h4 _ Suc.prems(3), of vt2] Suc.prems(2,4) Suc obtain vt' d' where
        "prev_loop I fuel vt2 ?d = Ret (vt', d')" "di_direction d' = di_direction d2" "prev_stop s es a vt' d'" by auto
      then show ?thesis using step x(1) v h2(2) by (simp del: bindO_eq_Ret)
    next
      case 0
      then have s0: "step_back es b = length es" by (simp add: step_back_def)
      then have v: "\<not> it_Valid I x" using holdsD(3) [OF h3] by simp
      have "prev_stop s es a vt2 ?d"
      proof (cases "vt2 = kTypeDeletion")
        case True
        then show ?thesis using inv2 h3 s0 0 by (simp add: prev_inv_def prev_stop_def)
      next
        case False
        then obtain c where c: "candidate s es a b c d2" using inv2 by (auto simp: prev_inv_def)
        have "shown s es c" using candidate_shown [OF c R Suc.prems(3)] 0 by simp
        moreover have "candidate s es a b c ?d" using c by (simp add: candidate_def)
        ultimately show ?thesis using candidate_stop [OF _ Suc.prems(3) _ h3 False] by blast
      qed
      then show ?thesis using step x(1) v h2(2) by (simp del: bindO_eq_Ret)
    qed
  qed
  consider "\<not> visible s ?e" | "visible s ?e" "vt \<noteq> kTypeDeletion \<and> lt (uk es b) (di_saved_key d)"
    | "visible s ?e" "\<not> (vt \<noteq> kTypeDeletion \<and> lt (uk es b) (di_saved_key d))" "es_type (fst ?e) = kTypeDeletion"
    | "visible s ?e" "\<not> (vt \<noteq> kTypeDeletion \<and> lt (uk es b) (di_saved_key d))" "es_type (fst ?e) = kTypeValue"
    using holds_entry(5) [OF h b] by blast
  then show ?case
  proof cases
    case 1
    show ?thesis by (rule go [of vt d1]) (use 1 d1(2) h1 same prev_inv_hidden [OF inv 1] in simp_all)
  next
    case 2
    then obtain c where c: "candidate s es a (Suc b) c d" using inv by (auto simp: prev_inv_def)
    then have "lt (uk es b) (uk es c)" using 2(2) by (simp add: candidate_def)
    then have "shown s es c" using candidate_shown [OF c R Suc.prems(3)] by simp
    moreover have "candidate s es a (Suc b) c d1" using c same by (simp add: candidate_def)
    moreover have "holds s es (step_back es (Suc b)) d1" using h1 by (simp add: step_back_def)
    ultimately have "prev_stop s es a vt d1" using candidate_stop Suc.prems(3) 2(2) by blast
    moreover have "prev_step I vt d = Ret (True, vt, d1)" using 2 d1(2) by auto
    ultimately show ?thesis using same by (simp del: bindO_eq_Ret)
  next
    case 3
    have "\<not> shown s es b" using shownD(2) [of s es b] 3(3) by auto
    then have "\<not> shown s es m" if "b \<le> m" "m < a" for m
      using prev_none_above [OF inv R Suc.prems(3) 3(1,2), of m] that by (cases "m = b") auto
    then have "prev_inv s es a b kTypeDeletion (d1\<lparr>di_saved_key := [], di_saved_value := []\<rparr>)" by (simp add: prev_inv_def)
    moreover have "prev_step I vt d = Ret (False, kTypeDeletion, d1\<lparr>di_saved_key := [], di_saved_value := []\<rparr>)" using 3 d1(2) by auto
    ultimately show ?thesis using go [of kTypeDeletion "d1\<lparr>di_saved_key := [], di_saved_value := []\<rparr>"] h1 same by simp
  next
    case 4
    let ?d = "d1\<lparr>di_saved_key := uk es b, di_saved_value := snd ?e\<rparr>"
    have "candidate s es a b b ?d"
      using 4 Suc.prems(2) prev_none_above [OF inv R Suc.prems(3) 4(1,2)] by (simp add: candidate_def)
    then have "prev_inv s es a b kTypeValue ?d" by (auto simp: prev_inv_def)
    moreover have "prev_step I vt d = Ret (False, kTypeValue, ?d)" using 4 d1(2) by auto
    ultimately show ?thesis using go [of kTypeValue ?d] h1 same by simp
  qed
qed simp

text \<open>\<open>a\<close> entries lie at or before the inner iterator; the last one of them that is shown is found.\<close>

lemma FindPrev_ok:
  assumes "holds s es (step_back es a) d" "a \<le> length es" "a \<le> fuel"
  shows "\<exists>d'. FindPrevUserEntry I fuel d = Ret d' \<and>
    (if di_valid d' then di_direction d' = di_direction d \<and> (\<exists>c<a. on_reverse s es c d' \<and> (\<forall>m. c < m \<longrightarrow> m < a \<longrightarrow> \<not> shown s es m))
     else holds s es (length es) d' \<and> (\<forall>m<a. \<not> shown s es m))"
proof (cases a)
  case 0
  then have h: "holds s es (length es) d" using assms(1) by (simp add: step_back_def)
  then have "\<not> it_Valid I (di_iter d)" using holdsD(3) by blast
  then show ?thesis using h 0 by (simp add: FindPrevUserEntry_def)
next
  case (Suc b)
  then have h: "holds s es b d" using assms(1) by (simp add: step_back_def)
  have v: "it_Valid I (di_iter d)" using holdsD(3) [OF h] Suc assms(2) by simp
  have "prev_inv s es a (Suc b) kTypeDeletion d" using Suc by (simp add: prev_inv_def)
  with prev_loop_ok [OF h _ assms(2), of fuel kTypeDeletion] Suc assms(3) obtain vt d' where
    l: "prev_loop I fuel kTypeDeletion d = Ret (vt, d')" "di_direction d' = di_direction d" "prev_stop s es a vt d'" by auto
  show ?thesis
  proof (cases "vt = kTypeDeletion")
    case True
    then show ?thesis using l v by (simp add: FindPrevUserEntry_def prev_stop_def)
  next
    case False
    then obtain c where c: "c < a" "on_reverse s es c d'" "\<forall>m. c < m \<longrightarrow> m < a \<longrightarrow> \<not> shown s es m" using l(3) by (auto simp: prev_stop_def)
    have "on_reverse s es c (d'\<lparr>di_valid := True\<rparr>)" using c(2) by (simp add: on_reverse_def)
    then show ?thesis using l(1,2) v False c(1,3) by (auto simp: FindPrevUserEntry_def)
  qed
qed

lemma scan_back_ok:
  assumes "holds s es i d" "i \<le> x" "x < length es" "di_saved_key d = uk es x" "i < fuel" "\<forall>j. i \<le> j \<longrightarrow> j \<le> x \<longrightarrow> uk es j = uk es x"
  shows "\<exists>found d' a. scan_back I fuel d = Ret (found, d') \<and> a \<le> x \<and> holds s es (step_back es a) d' \<and>
    (\<forall>j. a \<le> j \<longrightarrow> j \<le> x \<longrightarrow> uk es j = uk es x) \<and> (if found then True else a = 0 \<and> \<not> di_valid d')"
  using assms
proof (induction fuel arbitrary: i d)
  case (Suc fuel)
  note h = Suc.prems(1)
  have i: "i < length es" using Suc.prems(2,3) by simp
  from vs.rep_prev [OF holdsD(1) [OF h] i] obtain y where y: "it_Prev I (di_iter d) = Ret y" "rep es (step_back es i) y"
    unfolding step_back_def by blast
  let ?d = "d\<lparr>di_iter := y\<rparr>"
  have h2: "holds s es (step_back es i) ?d" by (rule holds_iter [OF h y(2)])
  show ?case
  proof (cases i)
    case 0
    then have "\<not> it_Valid I y" using holdsD(3) [OF h2] by (simp add: step_back_def)
    then have "scan_back I (Suc fuel) d = Ret (False, ?d\<lparr>di_valid := False, di_saved_key := [], di_saved_value := []\<rparr>)"
      using y(1) by (simp add: Let_def del: bindO_eq_Ret)
    moreover have "holds s es (step_back es 0) (?d\<lparr>di_valid := False, di_saved_key := [], di_saved_value := []\<rparr>)" using h2 0 by simp
    moreover have "\<forall>j. 0 \<le> j \<longrightarrow> j \<le> x \<longrightarrow> uk es j = uk es x" using Suc.prems(6) unfolding 0 .
    ultimately show ?thesis
      by (intro exI [of _ False] exI [of _ "?d\<lparr>di_valid := False, di_saved_key := [], di_saved_value := []\<rparr>"] exI [of _ 0] conjI)
        (simp, simp, assumption, assumption, simp)
  next
    case (Suc k)
    then have h3: "holds s es k ?d" and v: "it_Valid I y" using h2 holdsD(3) [OF h2] i by (simp_all add: step_back_def)
    have k: "k < length es" using Suc i by simp
    have key: "it_key I y = Ret (fst (es ! k))" "ExtractUserKey (fst (es ! k)) = Ret (uk es k)" using holds_entry [OF h3 k] by simp_all
    obtain r where r: "Compare C (uk es k) (uk es x) = Ret r" "r < 0 \<longleftrightarrow> lt (uk es k) (uk es x)"
      using compare [OF uk_keys uk_keys] holdsD(2) [OF h] k Suc.prems(3) by blast
    show ?thesis
    proof (cases "r < 0")
      case True
      then have "scan_back I (Suc fuel) d = Ret (True, ?d)" using y(1) v key r(1) holdsD(5) [OF h] Suc.prems(4) by (simp add: Let_def del: bindO_eq_Ret)
      then show ?thesis using h2 Suc.prems(2) by (intro exI [of _ True] exI [of _ ?d] exI [of _ i] conjI Suc.prems(6)) simp_all
    next
      case False
      then have eq: "uk es k = uk es x" using r(2) uk_order [OF holdsD(2) [OF h], of k x] Suc Suc.prems(2,3) by auto
      have "\<forall>j. k \<le> j \<longrightarrow> j \<le> x \<longrightarrow> uk es j = uk es x" using eq Suc.prems(6) Suc by (metis Suc_leI le_neq_implies_less)
      moreover have "scan_back I (Suc fuel) d = scan_back I fuel ?d"
        using y(1) v key r(1) False holdsD(5) [OF h] Suc.prems(4) by (simp add: Let_def del: bindO_eq_Ret)
      moreover have "di_saved_key ?d = uk es x" "k \<le> x" "k < fuel" using Suc.prems(2,4,5) Suc by simp_all
      ultimately show ?thesis using Suc.IH [OF h3 _ Suc.prems(3)] by presburger
    qed
  qed
next
  case 0
  from 0(5) show ?case by (rule less_zeroE)
qed

end

end
