(* ===== verification/Db_Iter_Cursor.thy ===== *)
theory Db_Iter_Cursor
  imports Db_Iter_Backward
begin

text \<open>
  The database iterator is a cursor over the view of the user, whatever cursor on versions it runs over; with the
  merging iterator of blocks under it, this is the read path of the database.
\<close>

section \<open>Tags\<close>

lemma tag_parts: "unat (ktag k) = 256 * unat (es_seq k) + unat (es_type k)"
proof -
  have "unat (es_type k) = unat (ktag k) mod 256"
  proof -
    have "ktag k AND 0xff = take_bit 8 (ktag k)" by (simp add: take_bit_eq_mask mask_eq_exp_minus_1)
    then show ?thesis by (simp add: es_type_def unsigned_ucast_eq unsigned_take_bit_eq take_bit_eq_mod unat_mod)
  qed
  moreover have "unat (es_seq k) = unat (ktag k) div 256" unfolding es_seq_def unat_drop_bit_eq by (simp add: drop_bit_eq_div)
  ultimately show ?thesis by simp
qed

lemma visible_tag:
  assumes "visible s e" "version_ok e" "s \<le> kMaxSequenceNumber"
  shows "\<not> PackSequenceAndType s kValueTypeForSeek < ktag (fst e)"
proof -
  have "unat (es_seq (fst e)) \<le> unat s" "unat (es_type (fst e)) \<le> 1" using assms(1,2) by (simp_all add: visible_def version_ok_def word_le_nat_alt)
  then show ?thesis using tag_parts [of "fst e"] pack_unat [OF assms(3), of kValueTypeForSeek] by (simp add: word_less_nat_alt)
qed

context versioned
begin

section \<open>The view\<close>

lemma view_rising:
  assumes "rising (ikey_lt lt) (ikeys keys) es"
  shows "rising lt keys (user_view s es)"
proof -
  let ?xs = "filter (shown s es) [0..<length es]"
  have "lt (uk es i) (uk es j)" if "i < j" "j < length es" "shown s es i" "shown s es j" for i j
    using uk_order [OF assms, of i j] shownD(1) [OF that(3)] shownD(3) [OF that(4), of i] that(1,2) by auto
  then have "\<And>i j. i \<in> set ?xs \<Longrightarrow> j \<in> set ?xs \<Longrightarrow> i < j \<Longrightarrow> lt (uk es i) (uk es j)" by simp
  moreover have "sorted_wrt (<) ?xs" by (simp add: sorted_wrt_filter)
  ultimately have "sorted_wrt (\<lambda>i j. lt (uk es i) (uk es j)) ?xs" by (rule sorted_wrt_mono_rel)
  moreover have "\<forall>i\<in>set ?xs. uk es i \<in> keys" using uk_keys [OF assms] by simp
  ultimately show ?thesis by (auto simp: rising_def user_view_def sorted_wrt_map user_entry_def)
qed

definition dbrep :: "nat \<Rightarrow> entry list \<Rightarrow> nat \<Rightarrow> 's DBIter \<Rightarrow> bool" where
  "dbrep fuel ves p d \<longleftrightarrow>
     (\<exists>es s. ves = user_view s es \<and> s \<le> kMaxSequenceNumber \<and> length es \<le> fuel \<and>
        (if di_valid d then \<exists>x < length es. shown s es x \<and> p = rank s es x \<and> (if di_direction d = kForward then holds s es x d else on_reverse s es x d)
         else p = length ves \<and> (\<exists>i. holds s es i d)))"

lemma dbrepE:
  assumes "dbrep fuel ves p d"
  obtains es s i where "ves = user_view s es" "s \<le> kMaxSequenceNumber" "length es \<le> fuel" "holds s es i d"
    "di_valid d \<Longrightarrow> \<exists>x < length es. shown s es x \<and> p = rank s es x \<and> (if di_direction d = kForward then holds s es x d else on_reverse s es x d)"
    "\<not> di_valid d \<Longrightarrow> p = length ves"
proof -
  obtain es s where e: "ves = user_view s es" "s \<le> kMaxSequenceNumber" "length es \<le> fuel"
    "if di_valid d then \<exists>x < length es. shown s es x \<and> p = rank s es x \<and> (if di_direction d = kForward then holds s es x d else on_reverse s es x d)
     else p = length ves \<and> (\<exists>i. holds s es i d)" using assms by (auto simp: dbrep_def)
  then have "\<exists>i. holds s es i d" by (auto simp: on_reverse_def split: if_splits)
  then show ?thesis using that e by auto
qed

lemma dbrep_valid: "dbrep fuel ves p d \<Longrightarrow> p \<le> length ves \<and> di_valid d = (p < length ves)"
  by (erule dbrepE, cases "di_valid d") (auto dest: view_at(1))

lemma dbrep_at:
  assumes "dbrep fuel ves p d" "p < length ves"
  shows "DBIter_key I d = Ret (fst (ves ! p))" "DBIter_value I d = Ret (snd (ves ! p))"
proof -
  have v: "di_valid d" using dbrep_valid [OF assms(1)] assms(2) by simp
  from assms(1) obtain es s x where x: "ves = user_view s es" "x < length es" "shown s es x" "p = rank s es x"
    "if di_direction d = kForward then holds s es x d else on_reverse s es x d" by (rule dbrepE) (use v in blast)
  have "ves ! p = user_entry (es ! x)" using view_at(2) [OF x(3,2)] x(1,4) by simp
  then have "ves ! p = (uk es x, snd (es ! x))" by (simp add: user_entry_def)
  then show "DBIter_key I d = Ret (fst (ves ! p))" "DBIter_value I d = Ret (snd (ves ! p))"
    using x(5) holds_entry [of s es x d] x(2) by (auto simp: DBIter_key_def DBIter_value_def on_reverse_def split: if_splits)
qed

section \<open>Arriving\<close>

lemma next_stop_rep:
  assumes "next_stop s es a d" "di_direction d = kForward" "a \<le> length es" "s \<le> kMaxSequenceNumber" "length es \<le> fuel"
  shows "dbrep fuel (user_view s es) (rank s es a) d"
proof (cases "di_valid d")
  case True
  then obtain x where x: "a \<le> x" "x < length es" "shown s es x" "\<forall>m. a \<le> m \<longrightarrow> m < x \<longrightarrow> \<not> shown s es m" "holds s es x d"
    using assms(1) by (auto simp: next_stop_def)
  have "rank s es a = rank s es x" by (rule rank_same [OF x(1)]) (use x(4) in blast)
  then show ?thesis using True x(2,3,5) assms(2,4,5) by (auto simp: dbrep_def)
next
  case False
  then have h: "holds s es (length es) d" "\<forall>m. a \<le> m \<longrightarrow> m < length es \<longrightarrow> \<not> shown s es m" using assms(1) by (simp_all add: next_stop_def)
  have "rank s es a = rank s es (length es)" by (rule rank_same [OF assms(3)]) (use h(2) in blast)
  then show ?thesis using False h(1) assms(4,5) by (auto simp: dbrep_def view_length)
qed

lemma FindPrev_rep:
  assumes "holds s es (step_back es a) d" "a \<le> length es" "di_direction d = kReverse" "s \<le> kMaxSequenceNumber" "length es \<le> fuel"
  shows "\<exists>d'. FindPrevUserEntry I fuel d = Ret d' \<and> dbrep fuel (user_view s es) (step_back (user_view s es) (rank s es a)) d'"
proof -
  have "a \<le> fuel" using assms(2,5) by simp
  from FindPrev_ok [OF assms(1,2) this] obtain d' where d': "FindPrevUserEntry I fuel d = Ret d'"
    "if di_valid d' then di_direction d' = di_direction d \<and> (\<exists>c<a. on_reverse s es c d' \<and> (\<forall>m. c < m \<longrightarrow> m < a \<longrightarrow> \<not> shown s es m))
     else holds s es (length es) d' \<and> (\<forall>m<a. \<not> shown s es m)" by blast
  have "dbrep fuel (user_view s es) (step_back (user_view s es) (rank s es a)) d'"
  proof (cases "di_valid d'")
    case True
    then obtain c where c: "c < a" "on_reverse s es c d'" "\<forall>m. c < m \<longrightarrow> m < a \<longrightarrow> \<not> shown s es m" "di_direction d' = kReverse"
      using d'(2) assms(3) by auto
    then have s: "c < length es" "shown s es c" by (simp_all add: on_reverse_def)
    have "rank s es (Suc c) = rank s es a" by (rule rank_same) (use c in simp_all)
    then have "step_back (user_view s es) (rank s es a) = rank s es c" using s(2) by (simp add: rank_Suc step_back_def)
    then show ?thesis using True c(2,4) s assms(4,5) by (auto simp: dbrep_def)
  next
    case False
    then have h: "holds s es (length es) d'" "\<forall>m<a. \<not> shown s es m" using d'(2) by simp_all
    have "rank s es 0 = rank s es a" by (rule rank_same) (use h(2) in simp_all)
    then have "rank s es a = 0" by (simp add: rank_def)
    then show ?thesis using False h(1) assms(4,5) by (auto simp: dbrep_def step_back_def)
  qed
  then show ?thesis using d'(1) by blast
qed

section \<open>Seeking\<close>

text \<open>Nothing skipped, and no visible version before \<open>i\<close> has the key of one behind.\<close>

lemma next_inv_seek:
  assumes "\<And>j m. j < i \<Longrightarrow> i \<le> m \<Longrightarrow> m < length es \<Longrightarrow> visible s (es ! j) \<Longrightarrow> uk es j \<noteq> uk es m"
  shows "next_inv s es i i False K"
  by (rule next_invI) (use assms in auto)

lemma DB_SeekToFirst_ok:
  assumes "dbrep fuel ves p d"
  shows "\<exists>d'. DBIter_SeekToFirst I fuel d = Ret d' \<and> dbrep fuel ves 0 d'"
  using assms
proof (rule dbrepE)
  fix es s i assume e: "ves = user_view s es" "s \<le> kMaxSequenceNumber" "length es \<le> fuel" "holds s es i d"
  obtain x where x: "it_SeekToFirst I (di_iter d) = Ret x" "rep es 0 x" using vs.rep_first [OF holdsD(1) [OF e(4)]] by blast
  let ?d = "d\<lparr>di_direction := kForward, di_saved_value := [], di_iter := x\<rparr>"
  have h: "holds s es 0 ?d" using holds_iter [OF _ x(2), of s i "d\<lparr>di_direction := kForward, di_saved_value := []\<rparr>"] e(4) by simp
  have v: "it_Valid I x = (0 < length es)" using holdsD(3) [OF h] by simp
  have r: "rank s es 0 = 0" by (simp add: rank_def)
  show ?thesis
  proof (cases "es = []")
    case True
    then have "user_view s es = []" by (simp add: user_view_def)
    then have "dbrep fuel ves 0 (?d\<lparr>di_valid := False\<rparr>)" using h e(1-3) unfolding dbrep_def by (intro exI [of _ es] exI [of _ s]) auto
    then show ?thesis using x(1) v True by (simp add: DBIter_SeekToFirst_def Let_def)
  next
    case False
    then have n: "0 < length es" "length es - 0 \<le> fuel" using e(3) by simp_all
    from FindNext_ok [OF h n next_inv_seek] obtain d' where d': "FindNextUserEntry I fuel False ?d = Ret d'" "di_direction d' = kForward" "next_stop s es 0 d'" by auto
    then show ?thesis using x(1) v n next_stop_rep [OF d'(3,2) _ e(2,3)] e(1) r by (simp add: DBIter_SeekToFirst_def Let_def)
  qed
qed

lemma DB_SeekToLast_ok:
  assumes "dbrep fuel ves p d"
  shows "\<exists>d'. DBIter_SeekToLast I fuel d = Ret d' \<and> dbrep fuel ves (length ves - 1) d'"
  using assms
proof (rule dbrepE)
  fix es s i assume e: "ves = user_view s es" "s \<le> kMaxSequenceNumber" "length es \<le> fuel" "holds s es i d"
  obtain x where x: "it_SeekToLast I (di_iter d) = Ret x" "rep es (length es - 1) x" using vs.rep_last [OF holdsD(1) [OF e(4)]] by blast
  let ?d = "d\<lparr>di_direction := kReverse, di_saved_value := [], di_iter := x\<rparr>"
  have "step_back es (length es) = length es - 1" by (simp add: step_back_def)
  then have h: "holds s es (step_back es (length es)) ?d" using holds_iter [OF _ x(2), of s i "d\<lparr>di_direction := kReverse, di_saved_value := []\<rparr>"] e(4) by simp
  have "step_back ves (rank s es (length es)) = length ves - 1" by (simp add: step_back_def e(1) view_length)
  then show ?thesis using FindPrev_rep [OF h _ _ e(2,3)] x(1) e(1) by (simp add: DBIter_SeekToLast_def)
qed

lemma DB_Seek_ok:
  assumes "dbrep fuel ves p d" "k \<in> keys"
  shows "\<exists>d'. DBIter_Seek I fuel k d = Ret d' \<and> dbrep fuel ves (before (\<lambda>x. lt x k) ves) d'"
  using assms(1)
proof (rule dbrepE)
  fix es s i0 assume e: "ves = user_view s es" "s \<le> kMaxSequenceNumber" "length es \<le> fuel" "holds s es i0 d"
  note R = holdsD(2) [OF e(4)]
  let ?K = "AppendInternalKey [] \<lparr>user_key = k, sequence = s, ktype = kValueTypeForSeek\<rparr>"
  let ?P = "\<lambda>x. ikey_lt lt x ?K"
  have K: "?K \<in> ikeys keys" using assms(2) by (simp add: ikeys_def)
  define i where "i = before ?P es"
  have i: "i \<le> length es" by (simp add: i_def before_le)
  have cut: "?P (fst (es ! j)) \<longleftrightarrow> j < i" if "j < length es" for j unfolding i_def by (rule cut_nth [OF R vs.lower_lt [OF K] that])
  have below: "lt (uk es j) k" if "j < i" "visible s (es ! j)" for j
  proof -
    have j: "j < length es" using that(1) i by simp
    have "version_ok (es ! j)" using e(4) j by (simp add: holds_def)
    then show ?thesis using cut [OF j] that visible_tag [OF that(2) _ e(2)] by (auto simp: ikey_lt_def)
  qed
  have above: "\<not> lt (uk es j) k" if "i \<le> j" "j < length es" for j using cut [OF that(2)] that(1) by (auto simp: ikey_lt_def)
  have pos: "before (\<lambda>x. lt x k) ves = rank s es i"
  proof (rule before_filter [OF _ lower_lt [OF assms(2)]])
    show "rising lt keys ves" unfolding e(1) by (rule view_rising [OF R])
    show "rank s es i \<le> length ves" unfolding e(1) view_length by (rule rank_mono [OF i])
    fix q assume "q < length ves"
    then obtain x where x: "x < length es" "shown s es x" "q = rank s es x" using view_entry e(1) by blast
    have "fst (ves ! q) = uk es x" using view_at(2) [OF x(2,1)] x(3) e(1) by (simp add: user_entry_def)
    moreover have "lt (uk es x) k \<longleftrightarrow> x < i" using below [OF _ shownD(1) [OF x(2)]] above [OF _ x(1)] by (meson not_le)
    moreover have "rank s es x < rank s es i \<longleftrightarrow> x < i"
      using rank_mono [of "Suc x" i s es] rank_mono [of i x s es] x(2) by (cases "x < i") (auto simp: rank_Suc)
    ultimately show "lt (fst (ves ! q)) k \<longleftrightarrow> q < rank s es i" using x(3) by simp
  qed
  obtain x where x: "it_Seek I ?K (di_iter d) = Ret x" "rep es i x" using vs.rep_seek [OF holdsD(1) [OF e(4)] K] unfolding i_def by blast
  let ?d = "d\<lparr>di_direction := kForward, di_saved_value := [], di_saved_key := ?K, di_iter := x\<rparr>"
  have h: "holds s es i ?d" using holds_iter [OF _ x(2), of s i0 "d\<lparr>di_direction := kForward, di_saved_value := [], di_saved_key := ?K\<rparr>"] e(4) by simp
  have v: "it_Valid I x = (i < length es)" using holdsD(3) [OF h] by simp
  have s: "di_sequence d = s" using holdsD(6) [OF e(4)] .
  show ?thesis
  proof (cases "i < length es")
    case False
    then have "rank s es i = length ves" using i e(1) by (simp add: view_length)
    then have "dbrep fuel ves (rank s es i) (?d\<lparr>di_valid := False\<rparr>)" using h e(1-3) unfolding dbrep_def by (intro exI [of _ es] exI [of _ s]) auto
    then show ?thesis using x(1) v False s pos by (simp add: DBIter_Seek_def Let_def)
  next
    case True
    have n: "length es - i \<le> fuel" using e(3) by simp
    have "next_inv s es i i False ?K" by (rule next_inv_seek) (use below above in metis)
    with FindNext_ok [OF h True n, of i False] obtain d' where d': "FindNextUserEntry I fuel False ?d = Ret d'" "di_direction d' = kForward" "next_stop s es i d'" by auto
    then show ?thesis using x(1) v True s pos next_stop_rep [OF d'(3,2) i e(2,3)] e(1) by (simp add: DBIter_Seek_def Let_def)
  qed
qed

section \<open>Stepping\<close>

text \<open>From the entry \<open>x\<close> that is yielded, entering at or before it, everything up to \<open>x\<close> is skipped.\<close>

lemma next_inv_step:
  assumes "rising (ikey_lt lt) (ikeys keys) es" "x < length es" "shown s es x" "b \<le> x" "\<forall>j. b \<le> j \<longrightarrow> j < x \<longrightarrow> \<not> visible s (es ! j)"
  shows "next_inv s es (Suc x) b True (uk es x)"
proof (rule next_invI)
  note x = shownD [OF assms(3)]
  show "uk es x \<in> keys" by (rule uk_keys [OF assms(1,2)])
  show "True \<and> \<not> lt (uk es x) (uk es m)" if "j < b" "b \<le> m" "m < length es" "uk es j = uk es m" for j m
  proof (cases "m \<le> x")
    case True
    then show ?thesis using uk_not_before [OF assms(1) _ assms(2)] by simp
  next
    case False
    then have "uk es x = uk es m" using uk_between [OF assms(1) _ _ that(3,4), of x] that(1) assms(4) by simp
    then show ?thesis using lt_irrefl [OF uk_keys [OF assms(1) that(3)]] by simp
  qed
  show "m < Suc x" if "b \<le> m" "m < length es" "\<not> lt (uk es x) (uk es m)" "shown s es m" for m
  proof (rule ccontr)
    assume "\<not> m < Suc x"
    then have m: "x < m" by simp
    then have "uk es x = uk es m" using uk_order [OF assms(1), of x m] that(2,3) by auto
    then show False using shownD(3) [OF that(4) m assms(2)] x(1) by simp
  qed
  show "es_type (fst (es ! m)) = kTypeValue \<and> True \<and> \<not> lt (uk es x) (uk es m)" if "b \<le> m" "m < Suc x" "visible s (es ! m)" for m
  proof -
    have "m = x" using that assms(5) by (metis less_antisym)
    then show ?thesis using x(2) lt_irrefl [OF uk_keys [OF assms(1,2)]] by simp
  qed
qed (use assms(4) in simp)

lemma DB_Next_ok:
  assumes "dbrep fuel ves p d" "p < length ves"
  shows "\<exists>d'. DBIter_Next I fuel d = Ret d' \<and> dbrep fuel ves (Suc p) d'"
proof -
  have v: "di_valid d" using dbrep_valid [OF assms(1)] assms(2) by simp
  from assms(1) obtain es s x where e: "ves = user_view s es" "s \<le> kMaxSequenceNumber" "length es \<le> fuel" "x < length es" "shown s es x" "p = rank s es x"
    "if di_direction d = kForward then holds s es x d else on_reverse s es x d" by (rule dbrepE) (use v in blast)
  have r: "Suc p = rank s es (Suc x)" using e(5,6) by (simp add: rank_Suc)
  have go: "\<exists>d'. FindNextUserEntry I fuel True d1 = Ret d' \<and> dbrep fuel ves (Suc p) d'"
    if h: "holds s es b d1" and b: "b \<le> x" "\<forall>j. b \<le> j \<longrightarrow> j < x \<longrightarrow> \<not> visible s (es ! j)" and k: "di_saved_key d1 = uk es x" "di_direction d1 = kForward" for b d1
  proof -
    have n: "b < length es" "length es - b \<le> fuel" using b(1) e(3,4) by simp_all
    have "next_inv s es (Suc x) b True (di_saved_key d1)" unfolding k(1) by (rule next_inv_step [OF holdsD(2) [OF h] e(4,5) b])
    from FindNext_ok [OF h n this] k(2) obtain d' where d': "FindNextUserEntry I fuel True d1 = Ret d'" "di_direction d' = kForward" "next_stop s es (Suc x) d'" by auto
    have "Suc x \<le> length es" using e(4) by simp
    from next_stop_rep [OF d'(3,2) this e(2,3)] show ?thesis using d'(1) r e(1) by auto
  qed
  show ?thesis
  proof (cases "di_direction d")
    case kForward
    then have h: "holds s es x d" using e(7) by simp
    have "\<exists>d'. FindNextUserEntry I fuel True (d\<lparr>di_saved_key := uk es x\<rparr>) = Ret d' \<and> dbrep fuel ves (Suc p) d'"
      by (rule go [of x]) (use h kForward in simp_all)
    then show ?thesis using holds_entry [OF h e(4)] kForward by (simp add: DBIter_Next_def)
  next
    case kReverse
    then obtain b where b: "b \<le> x" "holds s es (step_back es b) d" "\<forall>j. b \<le> j \<longrightarrow> j < x \<longrightarrow> \<not> visible s (es ! j)" "di_saved_key d = uk es x"
      using e(7) by (auto simp: on_reverse_def)
    have "\<exists>y. (if \<not> it_Valid I (di_iter d) then it_SeekToFirst I (di_iter d) else it_Next I (di_iter d)) = Ret y \<and> rep es b y"
    proof (cases b)
      case 0
      then have "\<not> it_Valid I (di_iter d)" using holdsD(3) [OF b(2)] by (simp add: step_back_def)
      then show ?thesis using vs.rep_first [OF holdsD(1) [OF b(2)]] 0 by simp
    next
      case (Suc c)
      then have c: "step_back es b = c" "c < length es" using b(1) e(4) by (simp_all add: step_back_def)
      then show ?thesis using vs.rep_next [of es c "di_iter d"] holdsD(1,3) [OF b(2)] Suc by simp
    qed
    then obtain y where y: "(if \<not> it_Valid I (di_iter d) then it_SeekToFirst I (di_iter d) else it_Next I (di_iter d)) = Ret y" "rep es b y" by blast
    have h: "holds s es b (d\<lparr>di_direction := kForward, di_iter := y\<rparr>)" using holds_iter [OF _ y(2), of s "step_back es b" "d\<lparr>di_direction := kForward\<rparr>"] b(2) by simp
    have val: "it_Valid I y" using holdsD(3) [OF h] b(1) e(4) by simp
    have "\<exists>d'. FindNextUserEntry I fuel True (d\<lparr>di_direction := kForward, di_iter := y\<rparr>) = Ret d' \<and> dbrep fuel ves (Suc p) d'"
      by (rule go [OF h b(1,3)]) (use b(4) in simp_all)
    then show ?thesis using y(1) val kReverse by (simp add: DBIter_Next_def Let_def)
  qed
qed

lemma DB_Prev_ok:
  assumes "dbrep fuel ves p d" "p < length ves"
  shows "\<exists>d'. DBIter_Prev I fuel d = Ret d' \<and> dbrep fuel ves (step_back ves p) d'"
proof -
  have v: "di_valid d" using dbrep_valid [OF assms(1)] assms(2) by simp
  from assms(1) obtain es s x where e: "ves = user_view s es" "s \<le> kMaxSequenceNumber" "length es \<le> fuel" "x < length es" "shown s es x" "p = rank s es x"
    "if di_direction d = kForward then holds s es x d else on_reverse s es x d" by (rule dbrepE) (use v in blast)
  have go: "\<exists>d'. FindPrevUserEntry I fuel d1 = Ret d' \<and> dbrep fuel ves (step_back ves p) d'"
    if h: "holds s es (step_back es b) d1" and b: "b \<le> x" "\<And>j. b \<le> j \<Longrightarrow> j < x \<Longrightarrow> \<not> shown s es j" and k: "di_direction d1 = kReverse" for b d1
  proof -
    have "b \<le> length es" using b(1) e(4) by simp
    from FindPrev_rep [OF h this k e(2,3)] rank_same [OF b(1), of s es] b(2) e(1,6) show ?thesis by auto
  qed
  show ?thesis
  proof (cases "di_direction d")
    case kForward
    then have h: "holds s es x d" using e(7) by simp
    let ?d = "d\<lparr>di_saved_key := uk es x\<rparr>"
    have f: "x < fuel" using e(3,4) by simp
    have "\<exists>found d' a. scan_back I fuel ?d = Ret (found, d') \<and> a \<le> x \<and> holds s es (step_back es a) d' \<and>
        (\<forall>j. a \<le> j \<longrightarrow> j \<le> x \<longrightarrow> uk es j = uk es x) \<and> (if found then True else a = 0 \<and> \<not> di_valid d')"
      by (rule scan_back_ok [OF _ order_refl e(4) _ f]) (use h in \<open>auto simp del: DBIter.ext_inject\<close>)
    then obtain found d1 a where sc: "scan_back I fuel ?d = Ret (found, d1)" "a \<le> x" "holds s es (step_back es a) d1"
      "\<forall>j. a \<le> j \<longrightarrow> j \<le> x \<longrightarrow> uk es j = uk es x" "if found then True else a = 0 \<and> \<not> di_valid d1" by blast
    have ns: "\<not> shown s es j" if "a \<le> j" "j < x" for j
    proof -
      have "uk es j = uk es x" using sc(4) that by (metis less_imp_le)
      then show ?thesis using shownD(3) [OF e(5) that(2)] shownD(1) [of s es j] that(2) e(4) by auto
    qed
    have P: "DBIter_Prev I fuel d = (if found then FindPrevUserEntry I fuel (d1\<lparr>di_direction := kReverse\<rparr>) else Ret d1)"
      using kForward holds_entry(1,4) [OF h e(4)] sc(1) by (simp add: DBIter_Prev_def del: bindO_eq_Ret)
    show ?thesis
    proof (cases found)
      case True
      have "\<exists>d'. FindPrevUserEntry I fuel (d1\<lparr>di_direction := kReverse\<rparr>) = Ret d' \<and> dbrep fuel ves (step_back ves p) d'"
        by (rule go [OF _ sc(2) ns]) (use sc(3) in simp_all)
      then show ?thesis using P True by simp
    next
      case False
      then have a: "a = 0" "\<not> di_valid d1" using sc(5) by simp_all
      have "rank s es a = rank s es x" by (rule rank_same [OF sc(2) ns])
      then have "p = 0" using a(1) e(6) by (simp add: rank_def)
      then have "dbrep fuel ves (step_back ves p) d1" using a(2) sc(3) e(1-3) by (auto simp: dbrep_def step_back_def)
      then show ?thesis using P False by simp
    qed
  next
    case kReverse
    then obtain b where b: "b \<le> x" "holds s es (step_back es b) d" "\<forall>j. b \<le> j \<longrightarrow> j < x \<longrightarrow> \<not> visible s (es ! j)"
      using e(7) by (auto simp: on_reverse_def)
    have "\<not> shown s es j" if "b \<le> j" "j < x" for j using b(3) that shownD(1) by blast
    then show ?thesis using go [OF b(2,1) _ kReverse] kReverse by (simp add: DBIter_Prev_def)
  qed
qed

lemma dbrep_status: "dbrep fuel ves p d \<Longrightarrow> DBIter_status I d = OK"
proof (erule dbrepE)
  fix es s i assume "holds s es i d"
  from holdsD(7) [OF this] vs.rep_status [OF holdsD(1) [OF this]] show ?thesis by (simp add: DBIter_status_def)
qed

lemma db_cursor: "cursor C keys lt (DBIter_ops I fuel) (dbrep fuel)"
proof (unfold_locales, goal_cases)
  case (1 es p s)
  then show ?case by (rule dbrepE) (use view_rising holdsD(2) in blast)
next
  case (2 es p s)
  then show ?case using dbrep_valid by (simp add: DBIter_ops_def DBIter_Valid_def)
next
  case (3 es p s)
  then show ?case using dbrep_at by (simp add: DBIter_ops_def)
next
  case (4 es p s)
  then show ?case using dbrep_at by (simp add: DBIter_ops_def)
next
  case (5 es p s)
  then show ?case using dbrep_status by (simp add: DBIter_ops_def)
next
  case (6 es p s)
  then show ?case using DB_SeekToFirst_ok by (simp add: DBIter_ops_def)
next
  case (7 es p s)
  then show ?case using DB_SeekToLast_ok by (simp add: DBIter_ops_def)
next
  case (8 es p s k)
  then show ?case using DB_Seek_ok by (simp add: DBIter_ops_def)
next
  case (9 es p s)
  then show ?case using DB_Next_ok by (simp add: DBIter_ops_def)
next
  case (10 es p s)
  then show ?case using DB_Prev_ok [OF 10] by (simp add: DBIter_ops_def step_back_def)
qed

text \<open>A new iterator stands nowhere.\<close>

lemma db_new:
  assumes "rep es p x" "\<forall>e\<in>set es. version_ok e" "s \<le> kMaxSequenceNumber" "length es \<le> fuel"
  shows "dbrep fuel (user_view s es) (length (user_view s es)) (DBIter_new C x s seed)"
proof -
  let ?d = "\<lparr>di_user_comparator = C, di_iter = x, di_sequence = s, di_status = OK, di_saved_key = [], di_saved_value = [], di_direction = kForward,
                di_valid = False, di_rnd = Random_new seed, di_bytes_until_read_sampling = 0, di_samples = []\<rparr>"
  have "good_seed (di_rnd ?d)" by (simp add: Random_new_good)
  from period_ok [OF this] obtain n r where "RandomCompactionPeriod ?d = (n, ?d\<lparr>di_rnd := r\<rparr>)" "good_seed r" by blast
  then have "\<not> di_valid (DBIter_new C x s seed)" "holds s es p (DBIter_new C x s seed)"
    using assms(1,2) by (simp_all add: DBIter_new_def holds_def)
  then show ?thesis using assms(3,4) unfolding dbrep_def by (intro exI [of _ es] exI [of _ s]) auto
qed

text \<open>The view has a key with a value when its newest visible version is that value.\<close>

lemma view_member:
  assumes "rising (ikey_lt lt) (ikeys keys) es"
  shows "(k, v) \<in> set (user_view s es) \<longleftrightarrow>
    (\<exists>e\<in>set es. ukey (fst e) = k \<and> visible s e \<and> es_type (fst e) = kTypeValue \<and> snd e = v \<and>
      (\<forall>e'\<in>set es. ukey (fst e') = k \<longrightarrow> visible s e' \<longrightarrow> ktag (fst e') \<le> ktag (fst e)))"
proof
  have tags: "i < j \<Longrightarrow> j < length es \<Longrightarrow> uk es i = uk es j \<Longrightarrow> ktag (fst (es ! j)) < ktag (fst (es ! i))" for i j
    using vs.rising_lt [OF assms, of i j] lt_irrefl [OF uk_keys [OF assms, of j]] by (auto simp: ikey_lt_def)
  {
    assume "(k, v) \<in> set (user_view s es)"
    then obtain i where i: "i < length es" "shown s es i" "uk es i = k" "snd (es ! i) = v" by (auto simp: user_view_def user_entry_def)
    have "ktag (fst e') \<le> ktag (fst (es ! i))" if e': "e' \<in> set es" "ukey (fst e') = k" "visible s e'" for e'
    proof -
      obtain j where j: "j < length es" "e' = es ! j" using e'(1) by (metis in_set_conv_nth)
      have "\<not> j < i" using shownD(3) [OF i(2), of j] j e'(2,3) i(1,3) by auto
      then show ?thesis using tags [of i j] j e'(2) i(3) by (cases "i = j") (auto intro: less_imp_le)
    qed
    then show "\<exists>e\<in>set es. ukey (fst e) = k \<and> visible s e \<and> es_type (fst e) = kTypeValue \<and> snd e = v \<and>
        (\<forall>e'\<in>set es. ukey (fst e') = k \<longrightarrow> visible s e' \<longrightarrow> ktag (fst e') \<le> ktag (fst e))"
      using i shownD(1,2) [OF i(2)] by (intro bexI [of _ "es ! i"]) auto
  next
    assume "\<exists>e\<in>set es. ukey (fst e) = k \<and> visible s e \<and> es_type (fst e) = kTypeValue \<and> snd e = v \<and>
        (\<forall>e'\<in>set es. ukey (fst e') = k \<longrightarrow> visible s e' \<longrightarrow> ktag (fst e') \<le> ktag (fst e))"
    then obtain e where e: "e \<in> set es" "ukey (fst e) = k" "visible s e" "es_type (fst e) = kTypeValue" "snd e = v"
      "\<forall>e'\<in>set es. ukey (fst e') = k \<longrightarrow> visible s e' \<longrightarrow> ktag (fst e') \<le> ktag (fst e)" by blast
    then obtain i where "i < length es" "e = es ! i" by (metis in_set_conv_nth)
    with e have i: "i < length es" "uk es i = k" "visible s (es ! i)" "es_type (fst (es ! i)) = kTypeValue" "snd (es ! i) = v"
      "\<forall>e'\<in>set es. ukey (fst e') = k \<longrightarrow> visible s e' \<longrightarrow> ktag (fst e') \<le> ktag (fst (es ! i))" by simp_all
    have "\<not> visible s (es ! j)" if "j < i" "uk es j = uk es i" for j
    proof
      assume "visible s (es ! j)"
      moreover have "es ! j \<in> set es" "uk es j = k" using that i(1,2) by simp_all
      ultimately have "ktag (fst (es ! j)) \<le> ktag (fst (es ! i))" using i(6) by blast
      then show False using tags [OF that(1) i(1) that(2)] by simp
    qed
    then have "shown s es i" by (intro shownI i) auto
    then show "(k, v) \<in> set (user_view s es)" using i(1,2,5) by (auto simp: user_view_def user_entry_def)
  }
qed

end

section \<open>The read path\<close>

interpretation db: versioned BytewiseComparator UNIV bytes_lt "merged_ops BlockIter_ops" block_cursor.merged_rep
  by (intro versioned.intro bw.comparator_axioms any_merge.cursor_axioms)

interpretation db_view: cursor BytewiseComparator UNIV bytes_lt "DBIter_ops (merged_ops BlockIter_ops) fuel" "db.dbrep fuel" for fuel
  by (rule db.db_cursor)

text \<open>The database iterator over the merging iterator over the iterators of blocks, moved by a client.\<close>

definition read_blocks :: "int \<Rightarrow> entry list list \<Rightarrow> SequenceNumber \<Rightarrow> u32 \<Rightarrow> nat \<Rightarrow> move list \<Rightarrow> (Status \<times> entry option) list outcome" where
  "read_blocks interval ess s seed fuel ms =
     bindO (open_children (InternalKeyComparator BytewiseComparator) interval ess) (\<lambda>its.
     bindO (NewMergingIterator BlockIter_ops (InternalKeyComparator BytewiseComparator) its) (\<lambda>x.
       drive (DBIter_ops (merged_ops BlockIter_ops) fuel) ms (DBIter_new BytewiseComparator x s seed)))"

lemma read_blocks_eq:
  assumes "\<forall>es\<in>set ess. block_entries interval es" "sorted_wrt (\<lambda>x y. ikey_lt bytes_lt (fst x) (fst y)) es" "mset es = mset (concat ess)"
    and "\<forall>(k, v)\<in>set es. es_type k \<le> kTypeValue" "s \<le> kMaxSequenceNumber" "length es \<le> fuel"
  shows "rising (ikey_lt bytes_lt) (ikeys UNIV) es"
    "read_blocks interval ess s seed fuel ms = Ret (drive_spec bytes_lt (user_view s es) ms (length (user_view s es)))"
proof -
  obtain its x where x: "open_children (InternalKeyComparator BytewiseComparator) interval ess = Ret its"
    "NewMergingIterator BlockIter_ops (InternalKeyComparator BytewiseComparator) its = Ret x" "block_cursor.merged_rep es (length es) x"
    using merged_blocks [OF assms(1-3)] by blast
  show "rising (ikey_lt bytes_lt) (ikeys UNIV) es" by (rule any_merge.rep_rising [OF x(3)])
  have "set es = set (concat ess)" by (rule mset_eq_setD [OF assms(3)])
  have "\<forall>e\<in>set es. version_ok e"
  proof
    fix e assume e: "e \<in> set es"
    then obtain xs where xs: "xs \<in> set ess" "e \<in> set xs" using \<open>set es = set (concat ess)\<close> by auto
    obtain k v where kv: "e = (k, v)" by (cases e)
    have "block_entries interval xs" using assms(1) xs(1) by (rule bspec)
    then have "\<forall>(k, v)\<in>set xs. 8 \<le> length k \<and> length k < 2 ^ 32 \<and> length v < 2 ^ 32" by (simp add: block_entries_def)
    from bspec [OF this xs(2)] bspec [OF assms(4) e] show "version_ok e" by (simp add: kv version_ok_def)
  qed
  from db.db_new [OF x(3) this assms(5,6)] have
    "db.dbrep fuel (user_view s es) (length (user_view s es)) (DBIter_new BytewiseComparator x s seed)" .
  from db_view.drive_ok [OF this, of ms] x(1,2)
  show "read_blocks interval ess s seed fuel ms = Ret (drive_spec bytes_lt (user_view s es) ms (length (user_view s es)))"
    by (simp add: read_blocks_def targets_in_def split: move.splits del: bindO_eq_Ret)
qed

text \<open>
  C17: what a user of the database reads. Blocks hold versions of keys, values and deletions in any distribution over the
  blocks. The database iterator over the merging iterator over them, moved by any sequence of \<open>SeekToFirst\<close>,
  \<open>SeekToLast\<close>, \<open>Seek\<close>, \<open>Next\<close> and \<open>Prev\<close>, shows what the same moves show on the sorted list of user keys, each with the
  value of its newest version at or below the sequence number, keys whose newest such version is a deletion left out.
  Every call returns, whatever the sampling of reads draws, and the status stays OK.
\<close>

theorem db_iterator_shows_view:
  assumes "\<forall>es\<in>set ess. block_entries interval es"
    and "sorted_wrt (\<lambda>x y. ikey_lt bytes_lt (fst x) (fst y)) es" and "mset es = mset (concat ess)"
    and "\<forall>(k, v)\<in>set es. es_type k \<le> kTypeValue" and "s \<le> kMaxSequenceNumber" and "length es \<le> fuel"
  shows "read_blocks interval ess s seed fuel ms = Ret (drive_spec bytes_lt (user_view s es) ms (length (user_view s es)))"
  by (rule read_blocks_eq [OF assms])

theorem db_iterator_shows_view_witness:
  "read_blocks 16 [[([1, 1, 5, 0, 0, 0, 0, 0, 0], [50]), ([2, 1, 1, 0, 0, 0, 0, 0, 0], [7])],
      [([1, 1, 3, 0, 0, 0, 0, 0, 0], [30]), ([2, 0, 4, 0, 0, 0, 0, 0, 0], []), ([3, 1, 2, 0, 0, 0, 0, 0, 0], [9])]]
     4 301 5 [First, Forth, Back, Last, Forth, Last, Back, Back] =
   Ret [(OK, Some ([1], [30])), (OK, Some ([3], [9])), (OK, Some ([1], [30])), (OK, Some ([3], [9])), (OK, None),
     (OK, Some ([3], [9])), (OK, Some ([1], [30])), (OK, None)]"
proof -
  let ?a5 = "([1, 1, 5, 0, 0, 0, 0, 0, 0], [50]) :: entry" and ?a3 = "([1, 1, 3, 0, 0, 0, 0, 0, 0], [30]) :: entry"
  let ?b4 = "([2, 0, 4, 0, 0, 0, 0, 0, 0], []) :: entry" and ?b1 = "([2, 1, 1, 0, 0, 0, 0, 0, 0], [7]) :: entry"
  let ?c2 = "([3, 1, 2, 0, 0, 0, 0, 0, 0], [9]) :: entry"
  let ?es = "[?a5, ?a3, ?b4, ?b1, ?c2]" and ?ms = "[First, Forth, Back, Last, Forth, Last, Back, Back]"
  have n: "length (build_block 16 [?a5, ?b1]) = 34" "length (build_block 16 [?a3, ?b4, ?c2]) = 46" by code_simp+
  have t: "ktag (fst ?a3) < ktag (fst ?a5)" "ktag (fst ?b1) < ktag (fst ?b4)" "\<forall>(k, v)\<in>set ?es. es_type k \<le> kTypeValue" by code_simp+
  have l: "sorted_wrt (\<lambda>x y. ikey_lt bytes_lt (fst x) (fst y)) ?es" using t(1,2) by (simp add: ikey_lt_def ukey_def)
  have m: "mset ?es = mset (concat [[?a5, ?b1], [?a3, ?b4, ?c2]])" by (simp add: add_mset_commute)
  have b: "\<forall>es\<in>set [[?a5, ?b1], [?a3, ?b4, ?c2]]. block_entries 16 es"
    using n by (simp add: block_entries_def ikey_lt_def ukey_def)
  have u: "user_view 4 ?es = [([1], [30]), ([3], [9])]" by code_simp
  have "(4 :: SequenceNumber) \<le> kMaxSequenceNumber" by code_simp
  from db_iterator_shows_view [OF b l m t(3) this, of 5 301 ?ms]
  show ?thesis unfolding u by (simp add: move_to_def Let_def)
qed

text \<open>
  C18: a user who seeks a key stands on it with the value \<open>v\<close> exactly when \<open>v\<close> was written by the newest version of the key
  that the sequence number sees, in whichever block it lies: no overwritten value, no deleted key, no later write is seen.
\<close>

theorem db_iterator_seek_newest:
  assumes "\<forall>es\<in>set ess. block_entries interval es"
    and "sorted_wrt (\<lambda>x y. ikey_lt bytes_lt (fst x) (fst y)) es" and "mset es = mset (concat ess)"
    and "\<forall>(k, v)\<in>set es. es_type k \<le> kTypeValue" and "s \<le> kMaxSequenceNumber" and "length es \<le> fuel"
  shows "\<exists>r. read_blocks interval ess s seed fuel [SeekTo k] = Ret [(OK, r)] \<and>
    (r = Some (k, v) \<longleftrightarrow>
      (\<exists>e\<in>set es. ukey (fst e) = k \<and> visible s e \<and> es_type (fst e) = kTypeValue \<and> snd e = v \<and>
        (\<forall>e'\<in>set es. ukey (fst e') = k \<longrightarrow> visible s e' \<longrightarrow> ktag (fst e') \<le> ktag (fst e))))"
proof -
  note R = read_blocks_eq [OF assms]
  let ?ves = "user_view s es" and ?p = "before (\<lambda>x. bytes_lt x k) (user_view s es)"
  have V: "rising bytes_lt UNIV ?ves" by (rule db.view_rising [OF R(1)])
  have "(?p < length ?ves \<and> ?ves ! ?p = (k, v)) \<longleftrightarrow> (k, v) \<in> set ?ves"
  proof
    assume "(k, v) \<in> set ?ves"
    then obtain q where q: "q < length ?ves" "?ves ! q = (k, v)" by (metis in_set_conv_nth)
    then have "?p = q" using bw.before_self(1) [OF V q(1)] by simp
    then show "?p < length ?ves \<and> ?ves ! ?p = (k, v)" using q by simp
  qed (metis nth_mem)
  then show ?thesis using R(2) [of seed "[SeekTo k]"] db.view_member [OF R(1), of k v s]
    by (intro exI [of _ "if ?p < length ?ves then Some (?ves ! ?p) else None"]) (auto simp: move_to_def before_def Let_def)
qed

theorem db_iterator_seek_newest_witness:
  "\<exists>r. read_blocks 16 [[([1, 1, 5, 0, 0, 0, 0, 0, 0], [50])], [([1, 1, 3, 0, 0, 0, 0, 0, 0], [30])]] 4 301 2 [SeekTo [1]] = Ret [(OK, r)] \<and> r = Some ([1], [30])"
proof -
  let ?a5 = "([1, 1, 5, 0, 0, 0, 0, 0, 0], [50]) :: entry" and ?a3 = "([1, 1, 3, 0, 0, 0, 0, 0, 0], [30]) :: entry"
  let ?es = "[?a5, ?a3]"
  have n: "length (build_block 16 [?a5]) = 21" "length (build_block 16 [?a3]) = 21" by code_simp+
  have t: "ktag (fst ?a3) < ktag (fst ?a5)" "\<forall>(k, v)\<in>set ?es. es_type k \<le> kTypeValue" by code_simp+
  have l: "sorted_wrt (\<lambda>x y. ikey_lt bytes_lt (fst x) (fst y)) ?es" using t(1) by (simp add: ikey_lt_def ukey_def)
  have m: "mset ?es = mset (concat [[?a5], [?a3]])" by simp
  have b: "\<forall>es\<in>set [[?a5], [?a3]]. block_entries 16 es" using n by (simp add: block_entries_def)
  have s: "(4 :: SequenceNumber) \<le> kMaxSequenceNumber" by code_simp
  have f: "length ?es \<le> 2" by simp
  have w: "\<exists>e\<in>set ?es. ukey (fst e) = [1] \<and> visible 4 e \<and> es_type (fst e) = kTypeValue \<and> snd e = [30] \<and>
      (\<forall>e'\<in>set ?es. ukey (fst e') = [1] \<longrightarrow> visible 4 e' \<longrightarrow> ktag (fst e') \<le> ktag (fst e))" by code_simp
  from db_iterator_seek_newest [OF b l m t(2) s f, of 301 "[1]" "[30]"] w show ?thesis by blast
qed

end
