(* ===== verification/Spec2Isabelle.thy ===== *)
theory Spec2Isabelle
  imports Encode_Props Decode_Props Round_Trip Log_Props Limiter Write_Batch_Correct Filter_Block Table_Round_Trip Version_Edit File_Names Lru_Props Db_Iter_Cursor
begin

text \<open>
  \<^bold>\<open>The C and C++ core under a Flutter application.\<close>
  The repository is a mobile application: Dart screens under \<open>src/lib\<close>, a thin Android and iOS
  shell, and the iOS pods that are compiled into it. Its C and C++ code with logic of its own are
  two of these pods. \<open>nanopb\<close> encodes and decodes protocol buffers for the Firebase and data
  transport pods; \<open>leveldb-library\<close> is the storage engine behind the offline copy of the
  Firebase database. This development models nanopb in full and leveldb from the bottom up:
  encodings, checksums, files, the write-ahead log, internal keys, the memtable with its skip list,
  write batches, tables with their blocks and filters, the block cache, the merging and the database iterator, file names, and the records of the manifest. File names below are relative to
  \<open>src/ios/Pods/nanopb\<close> and \<open>src/ios/Pods/leveldb-library\<close>.

  \<^bold>\<open>How the code is read.\<close>
  The target is 64-bit iOS: \<open>size_t\<close> and pointers are 64-bit words, \<open>uint32_t\<close> and the like words
  of their width, so that sums and shifts wrap as they do in C. A function that can run into
  undefined behaviour returns an \<open>outcome\<close> (\<open>Prelude\<close>): \<open>Ret\<close>, \<open>UB\<close> (a read or write outside
  of an object, a shift by too much), or \<open>NoFuel\<close>. A
  \<open>bool\<close> result with an error message, a \<open>Status\<close> (\<open>util/status.cc\<close>), an \<open>option\<close>: each as the
  function has it. State is passed explicitly. Assertions are preconditions of the callers: the
  models do not test them, and where a theorem also speaks of inputs that an assertion forbids it says
  what the code behind the assertion does. The byte memory of nanopb is total: a load outside of every object gives
  some byte and is no \<open>UB\<close>, so that pointers in messages are assumed to be valid or null; for messages without
  pointer fields \<open>Encode_Local\<close> shows that the encoder depends on the bytes of the message only, and
  \<open>Decode_Props\<close> that the decoder writes nowhere else.

  \<^bold>\<open>nanopb.\<close>
  \<^item> \<open>Memory\<close>, \<open>Pb\<close>, \<open>Pb_Common\<close>: the byte-addressed memory with little-endian loads and stores and
    the blocks of the allocator; \<open>pb.h\<close> with \<open>pb_field_t\<close>, the streams \<open>pb_ostream_t\<close> and \<open>pb_istream_t\<close>,
    and the record \<open>env\<close> of the code that is not nanopb's (descriptor tables, user callbacks, the
    placement of \<open>realloc\<close>); the field iterator of \<open>pb_common.c\<close>.
  \<^item> \<open>Pb_Ostream\<close>, \<open>Pb_Encode\<close>: \<open>pb_encode.c\<close>, one definition per function, up to \<open>pb_encode\<close>,
    \<open>pb_encode_delimited\<close>, \<open>pb_encode_nullterminated\<close>, \<open>pb_get_encoded_size\<close>.
  \<^item> \<open>Pb_Istream\<close>, \<open>Pb_Release\<close>, \<open>Pb_Decode\<close>: \<open>pb_decode.c\<close>, likewise: streams, varints,
    skipping, defaults, allocation and release, static, pointer, callback and extension fields, \<open>pb_decode\<close>
    and its variants.
  \<^item> \<open>Varint\<close>, \<open>Wire\<close>, \<open>Descriptors\<close>, \<open>Emit\<close>, \<open>Encode_Spec\<close>, \<open>Encode_Local\<close>, \<open>Encode_Correct\<close>, \<open>Encode_Props\<close>: the wire
    format as a function of descriptor and memory (\<open>Encode_Spec\<close>), the contract of an output stream
    (locale \<open>conforming_ostream\<close>, interpreted by buffer streams), and that the
    encoder on every conforming stream emits the specified bytes, or fails when they do not fit. The
    wire form of a message without pointers is a function of the bytes of its struct (\<open>Encode_Local\<close>). \<open>Descriptors\<close> also
    holds the descriptor tables and inputs that the witnesses use.
  \<^item> \<open>Istream_Contract\<close>, \<open>Istream_Varint\<close>, \<open>Istream_Fields\<close>, \<open>Decode_Safe\<close>, \<open>Decode_Storage\<close>,
    \<open>Decode_Fields\<close>, \<open>Decode_Message\<close>, \<open>Decode_Total\<close>, \<open>Decode_Props\<close>: the contract of an input stream
    (locale \<open>conforming_istream\<close>, extended by \<open>safe_decoding\<close>, both interpreted by
    buffer streams), and that decoding arbitrary bytes returns, stays inside of the input and writes
    only to the message. \<open>Round_Trip\<close>: what the primitive encoders write, the decoders read back.

  \<^bold>\<open>leveldb.\<close>
  \<^item> \<open>Coding\<close> (\<open>util/coding.cc\<close>): fixed-width and variable-length integers, length-prefixed slices,
    and arrays of offsets into concatenated parts.
  \<^item> \<open>Crc_Algebra\<close>, \<open>Crc32c\<close> (\<open>util/crc32c.cc\<close>): the table-driven checksum, with its tables and its
    strides of four words, equals the bitwise definition; masking is a bijection.
  \<^item> \<open>Status\<close>, \<open>Env_Posix\<close>, \<open>Posix_Env\<close>, \<open>Limiter\<close> (\<open>util/status.cc\<close>, \<open>util/env_posix.cc\<close>): buffered writable and sequential files
    over system calls that may be short, interrupted or fail; the interfaces of \<open>env.h\<close>
    as locales \<open>writable_file\<close> and \<open>sequential_file\<close>; \<open>PosixEnv\<close> opening, syncing, closing, renaming and deleting files over a
    kernel with a directory and inodes, whose calls fail as POSIX allows, as the interpretation of the locale \<open>env\<close>;
    the resource limiter with its 32-bit counter as a step relation over interleaved callers.
  \<^item> \<open>Log_Writer\<close>, \<open>Log_Reader\<close> (\<open>db/log_writer.cc\<close>, \<open>db/log_reader.cc\<close>), \<open>Log_Spec\<close>, \<open>Log_Recovery\<close>,
    \<open>Log_Props\<close>: the writer produces the documented format on any conforming file; the reader on any
    prefix of a log returns exactly the complete records; nothing with a wrong checksum is returned.
  \<^item> \<open>Comparator\<close>, \<open>Dbformat\<close> (\<open>util/comparator.cc\<close>, \<open>db/dbformat.cc\<close>): the interface \<open>Comparator\<close>
    as locales \<open>comparator\<close> and \<open>separator\<close>, interpreted by the bytewise order and by the order on internal keys.
  \<^item> \<open>Random_Numbers\<close>, \<open>Skiplist\<close>, \<open>Skiplist_Correct\<close> (\<open>util/random.h\<close>, \<open>db/skiplist.h\<close>): nodes and their
    towers in a store, with every operation; the list refines a sorted list, over every order
    that satisfies the locale \<open>ordered_keys\<close>.
  \<^item> \<open>Memtable\<close>, \<open>Memtable_Correct\<close> (\<open>db/memtable.cc\<close>), \<open>Write_Batch\<close>, \<open>Write_Batch_Correct\<close>
    (\<open>db/write_batch.cc\<close>): the memtable instantiates the skip list; a lookup returns the newest version at
    or below a sequence number; a batch is applied at its own sequence numbers.
  \<^item> \<open>Bloom\<close>, \<open>Filter_Block\<close> (\<open>util/hash.cc\<close>, \<open>util/bloom.cc\<close>, \<open>table/filter_block.cc\<close>): the interface \<open>FilterPolicy\<close> as
    a locale with the contract its documentation states, interpreted by the Bloom filter and by the policy for
    internal keys; the filter block over every such policy loses no key.
  \<^item> \<open>Block\<close>, \<open>Block_Correct\<close> (\<open>table/block_builder.cc\<close>, \<open>table/block.cc\<close>): the builder of prefix-compressed
    blocks and the iterator; the iterator is a cursor over the entries that were added, and \<open>Seek\<close>, proved inside the
    locale \<open>comparator\<close>, stops at the first entry that is not before its target.
  \<^item> \<open>Table_Format\<close>, \<open>Table_Builder\<close>, \<open>Table_Reader\<close> (\<open>table/format.cc\<close>, \<open>table/table_builder.cc\<close>, \<open>table/table.cc\<close>): table files,
    over the locale \<open>random_access_file\<close> that memory-mapped files interpret. \<open>Table_Correct\<close>: a lookup finds the entry through
    index, filter, cache and block, with the locale \<open>user_filter\<close> for filters that look at user keys. \<open>Table_Round_Trip\<close>: the builder on any
    \<open>writable_file\<close> leaves such a table, so that a lookup in a table finds what was added to it.
  \<^item> \<open>Lru_Cache\<close> (\<open>util/cache.cc\<close>): the sharded cache, its entries with reference counts in a heap from which freed entries are gone, the
    hash table that runs through them and the two circular lists. \<open>Lru_Lists\<close>, \<open>Lru_Table\<close>, \<open>Lru_Refs\<close>, \<open>Lru_Correct\<close>: what each operation does
    to lists, chains and counts. \<open>Lru_Spec\<close>, \<open>Lru_Refine\<close>, \<open>Lru_Insert\<close>, \<open>Lru_Run\<close>, \<open>Lru_Props\<close>: the abstract cache, the relation between the
    two, that every operation of a client that releases what it holds keeps it, and what clients rely on.
  \<^item> \<open>Iterators\<close>, \<open>Merger\<close>, \<open>Merger_Correct\<close> (\<open>include/leveldb/iterator.h\<close>, \<open>table/iterator_wrapper.h\<close>, \<open>table/merger.cc\<close>): the interface
    \<open>Iterator\<close>, its contract as the locale \<open>cursor\<close>, which extends \<open>comparator\<close>, and the merging iterator, a cursor over the merged entries
    whenever its children are cursors. \<open>Block_Cursor\<close> interprets the locale by the iterator of a block and by the merging iterator over
    such iterators; \<open>Iterator_Clients\<close>: the result of \<open>NewMergingIterator\<close> under any sequence of moves of a client.
  \<^item> \<open>Db_Iter\<close> (\<open>db/db_iter.cc\<close>): the iterator users of the database have, over any internal iterator. \<open>Db_Iter_Correct\<close>: the sampling of
    reads ends, and the view of the user at a sequence number; \<open>Db_Iter_Forward\<close>, \<open>Db_Iter_Backward\<close>, \<open>Db_Iter_Cursor\<close>: inside the locale
    \<open>versioned\<close>, a user comparator with a cursor over internal keys, the two searches and that the iterator is a cursor over the view; the locale is
    interpreted by the merging iterator over blocks.
  \<^item> \<open>File_Names\<close> (\<open>util/logging.cc\<close>, \<open>db/filename.cc\<close>, \<open>util/env.cc\<close>): numbers and names of files and their parsing, and
    \<open>SetCurrentFile\<close>, proved inside the locale \<open>env\<close> and stated of \<open>PosixEnv\<close>: \<open>CURRENT\<close> is replaced as a whole.
  \<^item> \<open>Version_Edit\<close> (\<open>db/version_edit.cc\<close>): the records of the manifest, with the edits that calls can build as an
    inductive predicate, and their round trip.

  The two halves meet in the varint format: the theorem below this header shows that their
  encoders agree byte for byte. On the write path a batch (\<open>Write_Batch\<close>) is bytes that
  \<open>AddRecord\<close> logs and \<open>ReadRecord\<close> recovers, and that \<open>Batch_InsertInto\<close> applies to the memtable, whose order is the
  internal key order over the bytewise order and whose store is the skip list.

  \<^bold>\<open>Bounds and fuel.\<close>
  The nesting depth of messages is the argument \<open>n\<close> of \<open>pb_encode\<close> and \<open>pb_decode\<close>: a
  descriptor graph without cycles has a finite depth (\<open>desc_ok\<close>), and with that depth no \<open>NoFuel\<close>
  is left. Loops over a descriptor, an array or an extension chain take the length as fuel and are shown not to run out.
  \<open>log_fuel\<close> bounds the physical records a log can hold, and is enough for \<open>ReadRecord\<close> on every prefix.
  The searches in the skip list have \<open>search_fuel\<close> steps, one for each node and each level; the correctness theorem shows that
  they return. The searches in a block have \<open>block_fuel\<close> steps, more than there are entries. The loops of the database iterator take
  the number of entries as fuel, and the sampling loop two rounds for each byte read, since no two draws in a row are zero. The loops of the cache have the next fresh address as fuel, which is above
  the number of entries, and the doubling of the table has 40 rounds for 32 bits; the refinement shows that they return. All other loops are total functions with a termination proof. Sizes stay below \<open>2\<^sup>3\<^sup>2\<close> where the format has 32-bit lengths;
  these bounds are hypotheses of the theorems, with witnesses.

  \<^bold>\<open>Not modelled.\<close>
  The Dart application and the Android shell are outside of the C and C++ code. The other pods are Objective-C
  with headers only of declarations. Of leveldb: \<open>db_impl.cc\<close>, \<open>version_set.cc\<close> and the compactions
  (threads and file system state), the iterator over whole tables, \<open>repair.cc\<close>, \<open>c.cc\<close>, logging and
  histograms, and of \<open>env_posix.cc\<close> locks, directories and threads. The arena of the memtable is not
  modelled: nodes live in a store that is never freed, as in the arena. Memory orders of the skip
  list's atomic pointers are not modelled: operations are sequential, as the code requires of writers.
\<close>

text \<open>
  C40: the two varint encoders of the program agree: what \<open>pb_encode_varint\<close> (nanopb) writes to a
  stream are the bytes that \<open>EncodeVarint64\<close> (leveldb) produces for the same value.
\<close>

theorem pb_encode_varint_is_EncodeVarint64:
  "pb_encode_varint E v s h = pb_write E (WLocal (EncodeVarint64 v)) (of_nat (length (EncodeVarint64 v))) s h"
  by (simp add: pb_encode_varint_eq EncodeVarint64_eq)

end
